(* ===== verification/Ova_Base.thy ===== *)
theory Ova_Base
  imports Main "HOL-Library.Word" "HOL-Library.Multiset" "HOL-Library.While_Combinator"
begin

text \<open>
  Prelude of the development: the shared C types of \<open>include/types.h\<close>, the capacity
  helper of \<open>src/utils/capacity_utils.h\<close>, the C standard library's allocator as far as
  the sources use it, raw pointer buffers with \<open>memmove\<close>, and the generic lemmas on
  lists and buffers that the components share.

  Conventions. A \<open>void *\<close> payload is an \<open>'a ptr\<close>, an option whose \<open>None\<close> is the
  null pointer, so that a stored null and the null that signals failure coincide, as they do
  in C. An \<open>int\<close> argument or result is an \<open>int\<close>; a size or a capacity field, which the
  code keeps non-negative, is a \<open>nat\<close>.
\<close>

named_theorems buffer_simps \<open>how reading back a buffer sees the writes made to it\<close>

section \<open>Types shared by all components\<close>

type_synonym 'a ptr = "'a option"

abbreviation NULL :: "'a ptr" where "NULL \<equiv> None"

type_synonym 'a comparator = "'a ptr \<Rightarrow> 'a ptr \<Rightarrow> int"

datatype ova_error_code =
    OVA_SUCCESS
  | OVA_ERROR_MEMORY
  | OVA_ERROR_INVALID_ARG
  | OVA_ERROR_INDEX_OUT_OF_BOUNDS
  | OVA_ERROR_EMPTY
  | OVA_ERROR_FULL
  | OVA_ERROR_NOT_FOUND

text \<open>The numeric values of the enumeration.\<close>

fun error_value :: "ova_error_code \<Rightarrow> int" where
  "error_value OVA_SUCCESS = 0"
| "error_value OVA_ERROR_MEMORY = -1"
| "error_value OVA_ERROR_INVALID_ARG = -2"
| "error_value OVA_ERROR_INDEX_OUT_OF_BOUNDS = -3"
| "error_value OVA_ERROR_EMPTY = -4"
| "error_value OVA_ERROR_FULL = -5"
| "error_value OVA_ERROR_NOT_FOUND = -6"

lemma error_value_inj: "error_value a = error_value b \<longleftrightarrow> a = b"
  by (cases a; cases b) simp_all

lemma error_value_success: "error_value e = 0 \<longleftrightarrow> e = OVA_SUCCESS"
  by (cases e) simp_all

section \<open>Machine limits and the capacity helper\<close>

definition INT_MAX :: nat where "INT_MAX = 2147483647"

definition PTRDIFF_MAX :: nat where "PTRDIFF_MAX = 2 ^ 63 - 1"

text \<open>\<open>is_int n\<close>: the value is representable in a 32-bit \<open>int\<close>.\<close>

definition is_int :: "int \<Rightarrow> bool" where
  "is_int n \<longleftrightarrow> - (2 ^ 31) \<le> n \<and> n < 2 ^ 31"

lemma is_int_le_INT_MAX: "is_int n \<Longrightarrow> nat n \<le> INT_MAX"
  by (auto simp: is_int_def INT_MAX_def)

text \<open>What a 32-bit two's complement machine computes for an \<open>int\<close> expression whose exact value
  is \<open>n\<close>. In C an overflow is undefined; where the sources can overflow, the model says what the
  wrapped value does and the theorem about it says when that happens.\<close>

definition wrap_int :: "int \<Rightarrow> int" where
  "wrap_int n = sint (word_of_int n :: 32 word)"

lemma wrap_int_id: "is_int n \<Longrightarrow> wrap_int n = n"
  by (simp add: wrap_int_def is_int_def signed_of_int signed_take_bit_int_eq_self)

lemma wrap_int_double:
  assumes "c \<le> INT_MAX"
  shows "wrap_int (int c * 2) = (if c \<le> INT_MAX div 2 then int c * 2 else int c * 2 - 2 ^ 32)"
proof (cases "c \<le> INT_MAX div 2")
  case True
  then show ?thesis by (simp add: wrap_int_id is_int_def INT_MAX_def)
next
  case False
  have "(word_of_int (int c * 2) :: 32 word) = word_of_int (int c * 2 - 2 ^ 32)"
    by simp
  then have "wrap_int (int c * 2) = wrap_int (int c * 2 - 2 ^ 32)"
    by (simp only: wrap_int_def)
  moreover have "is_int (int c * 2 - 2 ^ 32)"
    using False assms by (simp add: is_int_def INT_MAX_def)
  ultimately show ?thesis using False by (simp add: wrap_int_id)
qed

lemma is_int_wrap_int: "is_int (wrap_int n)"
  using sint_ge [of "word_of_int n :: 32 word"] sint_lt [of "word_of_int n :: 32 word"]
  by (simp add: wrap_int_def is_int_def)

text \<open>The loop \<open>while (c < required) c *= 2;\<close> on a power of two: it reaches any requirement up to
  \<open>2 ^ 30\<close>, and beyond that it overflows to zero and never ends.\<close>

lemma wrap_doubled: "k < 30 \<Longrightarrow> wrap_int (2 ^ k * 2) = 2 ^ Suc k"
proof -
  assume k: "k < 30"
  then have "(2 :: int) ^ Suc k \<le> 2 ^ 30" by (intro power_increasing) simp_all
  moreover have "is_int x" if "0 \<le> x" "x \<le> 2 ^ 30" for x using that by (simp add: is_int_def)
  ultimately have "is_int (2 ^ Suc k)" by simp
  then show ?thesis using wrap_int_id [of "2 ^ Suc k"] by (simp add: mult.commute)
qed

lemma doubling_ends:
  "k \<le> m \<Longrightarrow> m \<le> 30 \<Longrightarrow> required \<le> 2 ^ m \<Longrightarrow>
     \<exists>j. k \<le> j \<and> j \<le> m \<and> while_option (\<lambda>c. c < required) (\<lambda>c. wrap_int (c * 2)) (2 ^ k) = Some (2 ^ j) \<and> required \<le> 2 ^ j"
proof (induction "m - k" arbitrary: k)
  case 0
  then show ?case by (intro exI [of _ k]) (simp add: while_option_unfold)
next
  case (Suc d)
  show ?case
  proof (cases "2 ^ k < required")
    case False
    then show ?thesis using Suc.prems by (intro exI [of _ k]) (simp add: while_option_unfold)
  next
    case True
    have k: "k < m" using Suc.hyps(2) by simp
    then have "while_option (\<lambda>c. c < required) (\<lambda>c. wrap_int (c * 2)) (2 ^ k) =
        while_option (\<lambda>c. c < required) (\<lambda>c. wrap_int (c * 2)) (2 ^ Suc k)"
      using True wrap_doubled [of k] Suc.prems(2) by (subst while_option_unfold) simp
    moreover obtain j where "Suc k \<le> j" "j \<le> m"
      "while_option (\<lambda>c. c < required) (\<lambda>c. wrap_int (c * 2)) (2 ^ Suc k) = Some (2 ^ j)" "required \<le> 2 ^ j"
    proof -
      have "d = m - Suc k" "Suc k \<le> m" using Suc.hyps(2) by simp_all
      from Suc.hyps(1) [OF this Suc.prems(2,3)] show ?thesis using that by blast
    qed
    ultimately show ?thesis by (intro exI [of _ j]) simp
  qed
qed

lemma doubling_diverges:
  assumes "k \<le> 30" "2 ^ 30 < required"
  shows "while_option (\<lambda>c. c < required) (\<lambda>c. wrap_int (c * 2)) (2 ^ k) = None"
proof (rule ccontr)
  define S :: "int set" where "S = (\<lambda>j. 2 ^ j) ` {..30} \<union> {- (2 ^ 31), 0}"
  have below: "c < required" if "c \<in> S" for c
  proof -
    have "2 ^ j \<le> (2 :: int) ^ 30" if "j \<le> 30" for j :: nat
      using power_increasing [of j 30 "2 :: int"] that by simp
    then have "c \<le> 2 ^ 30" using that unfolding S_def by auto
    then show ?thesis using assms(2) by simp
  qed
  have step: "wrap_int (c * 2) \<in> S" if "c \<in> S" for c
  proof -
    consider j where "c = 2 ^ j" "j < 30" | "c = 2 ^ 30" | "c = - (2 ^ 31)" | "c = 0"
    proof -
      have "(\<exists>j \<le> 30. c = 2 ^ j) \<or> c = - (2 ^ 31) \<or> c = 0" using \<open>c \<in> S\<close> unfolding S_def by blast
      then show ?thesis using that by (metis le_neq_implies_less)
    qed
    then show ?thesis
    proof cases
      case (1 j)
      then have "wrap_int (c * 2) = 2 ^ Suc j" using wrap_doubled [of j] by simp
      then show ?thesis using 1(2) unfolding S_def by (intro UnI1 image_eqI [of _ _ "Suc j"]) simp_all
    qed (simp_all add: S_def wrap_int_def)
  qed
  assume "while_option (\<lambda>c. c < required) (\<lambda>c. wrap_int (c * 2)) (2 ^ k) \<noteq> None"
  then obtain t where t: "while_option (\<lambda>c. c < required) (\<lambda>c. wrap_int (c * 2)) (2 ^ k) = Some t" by auto
  have "2 ^ k \<in> S" using assms(1) by (simp add: S_def)
  moreover have "wrap_int (c * 2) \<in> S" if "c \<in> S" "c < required" for c using that(1) by (rule step)
  ultimately have "t \<in> S" using while_option_rule [where P = "\<lambda>c. c \<in> S", OF _ t] by blast
  moreover have "\<not> t < required" by (rule while_option_stop [OF t])
  ultimately show False using below by blast
qed

definition safe_double_capacity :: "nat \<Rightarrow> nat" where
  "safe_double_capacity current_capacity =
     (if current_capacity > INT_MAX div 2 then INT_MAX else current_capacity * 2)"

lemma safe_double_le: "safe_double_capacity c \<le> INT_MAX"
  by (simp add: safe_double_capacity_def INT_MAX_def)

lemma safe_double_ge: "c \<le> INT_MAX \<Longrightarrow> c \<le> safe_double_capacity c"
  by (simp add: safe_double_capacity_def INT_MAX_def)

text \<open>The helper returns its argument in exactly two cases: no capacity at all, or the
  largest one. The callers read that as \<open>cannot grow\<close>.\<close>

lemma safe_double_fixpoint:
  "c \<le> INT_MAX \<Longrightarrow> safe_double_capacity c = c \<longleftrightarrow> c = 0 \<or> c = INT_MAX"
  by (auto simp: safe_double_capacity_def INT_MAX_def)

lemma safe_double_gt:
  "c \<le> INT_MAX \<Longrightarrow> safe_double_capacity c \<noteq> c \<Longrightarrow> c < safe_double_capacity c"
  using safe_double_ge [of c] by simp

section \<open>The allocator\<close>

text \<open>
  The part of the process state the operations read and write besides the objects: the
  future verdicts of the allocator (\<open>True\<close> makes the next request fail; an exhausted list
  grants every request), the indeterminate values found in fresh memory, and the static
  counter of \<open>array_list.c\<close>. Theorems hold for every list of verdicts and every content
  of fresh memory.
\<close>

record 'a world =
  alloc_fails :: "bool list"
  junk :: "nat \<Rightarrow> 'a ptr"
  active_item_buffers :: nat

type_synonym 'a element_copier = "'a ptr \<Rightarrow> 'a world \<Rightarrow> 'a ptr \<times> 'a world"

text \<open>A world whose allocator never refuses, with null in fresh memory: for concrete runs.\<close>

definition fresh_world :: "'a world" where
  "fresh_world = \<lparr>alloc_fails = [], junk = (\<lambda>_. NULL), active_item_buffers = 0\<rparr>"

lemma fresh_world_sel [simp]:
  "alloc_fails fresh_world = []" "junk fresh_world = (\<lambda>_. NULL)" "active_item_buffers fresh_world = 0"
  by (simp_all add: fresh_world_def)

text \<open>A request for more than \<open>PTRDIFF_MAX\<close> bytes never succeeds.\<close>

definition malloc :: "nat \<Rightarrow> 'a world \<Rightarrow> bool \<times> 'a world" where
  "malloc bytes w =
     (case alloc_fails w of
        [] \<Rightarrow> (bytes \<le> PTRDIFF_MAX, w)
      | f # fs \<Rightarrow> (\<not> f \<and> bytes \<le> PTRDIFF_MAX, w\<lparr>alloc_fails := fs\<rparr>))"

text \<open>A request for one of the library's fixed-size objects.\<close>

definition malloc_struct :: "'a world \<Rightarrow> bool \<times> 'a world" where
  "malloc_struct w = malloc 512 w"

text \<open>\<open>(size_t)n * sizeof(void *)\<close>, wrap-around included.\<close>

definition ptr_bytes :: "int \<Rightarrow> nat" where
  "ptr_bytes n = unat ((word_of_int n :: 64 word) * 8)"

definition malloc_ptrs :: "int \<Rightarrow> 'a world \<Rightarrow> 'a ptr list option \<times> 'a world" where
  "malloc_ptrs n w =
     (case malloc (ptr_bytes n) w of (ok, w') \<Rightarrow>
        (if ok then Some (map (junk w) [0..<nat n]) else None, w'))"

definition calloc_ptrs :: "int \<Rightarrow> 'a world \<Rightarrow> 'a ptr list option \<times> 'a world" where
  "calloc_ptrs n w =
     (case malloc (ptr_bytes n) w of (ok, w') \<Rightarrow>
        (if ok then Some (replicate (nat n) NULL) else None, w'))"

definition realloc_ptrs ::
  "'a ptr list \<Rightarrow> int \<Rightarrow> 'a world \<Rightarrow> 'a ptr list option \<times> 'a world" where
  "realloc_ptrs buf n w =
     (case malloc (ptr_bytes n) w of (ok, w') \<Rightarrow>
        (if ok then Some (take (nat n) buf @ map (junk w) [length buf..<nat n]) else None, w'))"

lemma malloc_no_failures: "alloc_fails w = [] \<Longrightarrow> bytes \<le> PTRDIFF_MAX \<Longrightarrow> malloc bytes w = (True, w)"
  by (simp add: malloc_def)

lemma malloc_failure: "alloc_fails w = True # fs \<Longrightarrow> malloc bytes w = (False, w\<lparr>alloc_fails := fs\<rparr>)"
  by (simp add: malloc_def)

lemma malloc_too_big: "PTRDIFF_MAX < bytes \<Longrightarrow> \<not> fst (malloc bytes w)"
  by (simp add: malloc_def split: list.splits)

lemma malloc_frame:
  "malloc b w = (ok, w') \<Longrightarrow> active_item_buffers w' = active_item_buffers w \<and> junk w' = junk w"
  by (auto simp: malloc_def split: list.splits)

lemma ptr_bytes_nonneg:
  assumes "0 \<le> n" "n \<le> int INT_MAX"
  shows "ptr_bytes n = nat n * 8"
proof -
  have "unat (word_of_int n :: 64 word) = nat n"
    using assms by (simp add: unsigned_of_int take_bit_int_eq_self INT_MAX_def)
  then show ?thesis
    using assms unfolding ptr_bytes_def unat_word_ariths by (simp add: INT_MAX_def)
qed

lemma ptr_bytes_fits: "0 \<le> n \<Longrightarrow> n \<le> int INT_MAX \<Longrightarrow> ptr_bytes n \<le> PTRDIFF_MAX"
  by (simp add: ptr_bytes_nonneg INT_MAX_def PTRDIFF_MAX_def)

lemma ptr_bytes_negative:
  assumes "is_int n" "n < 0"
  shows "PTRDIFF_MAX < ptr_bytes n"
proof -
  have "(n * 8) mod 2 ^ 64 = (n * 8 + 2 ^ 64) mod 2 ^ 64" by simp
  also have "\<dots> = n * 8 + 2 ^ 64"
    using assms by (intro mod_pos_pos_trivial) (auto simp: is_int_def)
  finally have "(n * 8) mod 2 ^ 64 = n * 8 + 2 ^ 64" .
  moreover have "(word_of_int n :: 64 word) * 8 = word_of_int (n * 8)" by simp
  ultimately have "uint ((word_of_int n :: 64 word) * 8) = n * 8 + 2 ^ 64"
    by (simp only: uint_word_of_int) (simp add: take_bit_eq_mod)
  then have "int (ptr_bytes n) = n * 8 + 2 ^ 64"
    unfolding ptr_bytes_def by (simp only: flip: uint_nat)
  with assms show ?thesis by (simp add: is_int_def PTRDIFF_MAX_def)
qed

text \<open>A negative element count never yields a buffer: the conversion to \<open>size_t\<close> makes the
  request too large.\<close>

lemma malloc_ptrs_negative:
  assumes "is_int n" "n < 0"
  shows "fst (malloc_ptrs n w) = None"
  using malloc_too_big [OF ptr_bytes_negative [OF assms], of w]
  by (cases "malloc (ptr_bytes n) w") (simp add: malloc_ptrs_def)

lemma malloc_ptrs_Some_nonneg:
  "malloc_ptrs n w = (Some buf, w') \<Longrightarrow> is_int n \<Longrightarrow> 0 \<le> n"
  using malloc_ptrs_negative [of n w] by (cases "n < 0") auto

lemma malloc_ptrs_length:
  "malloc_ptrs n w = (Some buf, w') \<Longrightarrow> length buf = nat n"
  by (auto simp: malloc_ptrs_def split: prod.splits if_splits)

lemma calloc_ptrs_Some:
  "calloc_ptrs n w = (Some buf, w') \<Longrightarrow> buf = replicate (nat n) NULL"
  by (auto simp: calloc_ptrs_def split: prod.splits if_splits)

lemma realloc_ptrs_Some:
  "realloc_ptrs buf n w = (Some buf', w') \<Longrightarrow> length buf \<le> nat n \<Longrightarrow>
     length buf' = nat n \<and> take (length buf) buf' = buf"
  by (auto simp: realloc_ptrs_def split: prod.splits if_splits)

lemma realloc_ptrs_Some_nonneg:
  "realloc_ptrs buf n w = (Some buf', w') \<Longrightarrow> is_int n \<Longrightarrow> 0 \<le> n"
  using malloc_too_big [OF ptr_bytes_negative, of n w]
  by (cases "n < 0") (auto simp: realloc_ptrs_def split: prod.splits if_splits)

lemma realloc_ptrs_no_failures:
  "alloc_fails w = [] \<Longrightarrow> 0 \<le> n \<Longrightarrow> n \<le> int INT_MAX \<Longrightarrow>
     \<exists>buf'. realloc_ptrs buf n w = (Some buf', w)"
  using ptr_bytes_fits [of n] by (simp add: realloc_ptrs_def malloc_no_failures)

section \<open>Lists and raw buffers\<close>

definition insert_at :: "nat \<Rightarrow> 'b \<Rightarrow> 'b list \<Rightarrow> 'b list" where
  "insert_at i x xs = take i xs @ x # drop i xs"

definition remove_at :: "nat \<Rightarrow> 'b list \<Rightarrow> 'b list" where
  "remove_at i xs = take i xs @ drop (Suc i) xs"

text \<open>\<open>nth_ptr xs i\<close>: the element, or null outside the list, as the getters return it.\<close>

definition nth_ptr :: "'a ptr list \<Rightarrow> int \<Rightarrow> 'a ptr" where
  "nth_ptr xs i = (if 0 \<le> i \<and> i < int (length xs) then xs ! nat i else NULL)"

lemma length_insert_at [simp]: "length (insert_at i x xs) = Suc (length xs)"
  by (simp add: insert_at_def)

lemma length_remove_at [simp]: "i < length xs \<Longrightarrow> length (remove_at i xs) = length xs - 1"
  by (simp add: remove_at_def)

lemma insert_at_end [simp]: "insert_at (length xs) x xs = xs @ [x]"
  by (simp add: insert_at_def)

lemma insert_at_0 [simp]: "insert_at 0 x xs = x # xs"
  by (simp add: insert_at_def)

lemma remove_at_0 [simp]: "remove_at 0 xs = tl xs"
  by (simp add: remove_at_def drop_Suc)

lemma remove_at_last [simp]: "remove_at (length xs - Suc 0) xs = butlast xs"
  by (cases xs rule: rev_cases) (simp_all add: remove_at_def)

lemma rev_butlast: "rev (butlast xs) = tl (rev xs)"
  by (cases xs rule: rev_cases) simp_all

lemma mset_insert_at [simp]: "mset (insert_at i x xs) = add_mset x (mset xs)"
proof -
  have "mset xs = mset (take i xs) + mset (drop i xs)" by (simp flip: mset_append)
  then show ?thesis by (simp add: insert_at_def)
qed

lemma mset_remove_at [simp]: "i < length xs \<Longrightarrow> mset (remove_at i xs) = mset xs - {#xs ! i#}"
proof -
  assume "i < length xs"
  then have "mset xs = mset (take i xs @ xs ! i # drop (Suc i) xs)"
    by (simp only: id_take_nth_drop [symmetric])
  then show ?thesis by (simp add: remove_at_def)
qed

lemma remove_insert_at [simp]: "i \<le> length xs \<Longrightarrow> remove_at i (insert_at i x xs) = xs"
  by (simp add: insert_at_def remove_at_def)

lemma nth_insert_at:
  "i \<le> length xs \<Longrightarrow> k \<le> length xs \<Longrightarrow>
     insert_at i x xs ! k = (if k < i then xs ! k else if k = i then x else xs ! (k - 1))"
  by (auto simp: insert_at_def nth_append nth_Cons' min_def)

lemma nth_remove_at:
  "i < length xs \<Longrightarrow> k < length xs - 1 \<Longrightarrow>
     remove_at i xs ! k = (if k < i then xs ! k else xs ! Suc k)"
  by (auto simp: remove_at_def nth_append)

lemma nth_ptr_nat [simp]: "k < length xs \<Longrightarrow> nth_ptr xs (int k) = xs ! k"
  by (simp add: nth_ptr_def)

definition memmove :: "'b list \<Rightarrow> nat \<Rightarrow> nat \<Rightarrow> nat \<Rightarrow> 'b list" where
  "memmove buf dst src n = take dst buf @ take n (drop src buf) @ drop (dst + n) buf"

lemma length_memmove [simp]:
  "dst + n \<le> length buf \<Longrightarrow> src + n \<le> length buf \<Longrightarrow> length (memmove buf dst src n) = length buf"
  by (simp add: memmove_def)

text \<open>The two buffer idioms of the array-backed containers: opening a gap and closing one.\<close>

lemma memmove_open_gap [buffer_simps]:
  assumes "i \<le> n" "n < length buf"
  shows "take (Suc n) ((memmove buf (Suc i) i (n - i))[i := x]) = insert_at i x (take n buf)"
proof -
  have "(memmove buf (Suc i) i (n - i))[i := x]
      = take i buf @ x # take (n - i) (drop i buf) @ drop (Suc n) buf"
    using assms by (simp add: memmove_def take_Suc_conv_app_nth list_update_append min_def)
  then show ?thesis
    using assms by (simp add: insert_at_def min_def drop_take Suc_diff_le) arith
qed

lemma memmove_close_gap [buffer_simps]:
  assumes "i < n" "n \<le> length buf"
  shows "take (n - 1) (memmove buf i (Suc i) (n - i - 1)) = remove_at i (take n buf)"
proof -
  let ?A = "take i buf @ take (n - i - 1) (drop (Suc i) buf)"
  have "memmove buf i (Suc i) (n - i - 1) = ?A @ drop (n - 1) buf"
    using assms by (simp add: memmove_def)
  moreover have "length ?A = n - 1"
    using assms by auto
  moreover have "remove_at i (take n buf) = ?A"
    using assms by (simp add: remove_at_def min_def drop_take)
  ultimately show ?thesis by (metis append_eq_conv_conj)
qed

lemma take_realloc [buffer_simps]:
  "n \<le> m \<Longrightarrow> take m buf' = buf \<Longrightarrow> take n buf' = take n (buf :: 'b list)"
  by (auto simp: min_def)

section \<open>The comparator contract\<close>

text \<open>What \<open>types.h\<close> asks of a comparator: its sign is antisymmetric and \<open>at most\<close> is
  transitive. Elements that compare as 0 need not be equal.\<close>

locale comparator_order =
  fixes cmp :: "'a comparator"
  assumes cmp_antisym: "sgn (cmp a b) = - sgn (cmp b a)"
    and cmp_trans: "cmp a b \<le> 0 \<Longrightarrow> cmp b c \<le> 0 \<Longrightarrow> cmp a c \<le> 0"
begin

lemma cmp_gt_iff: "cmp a b > 0 \<longleftrightarrow> cmp b a < 0"
  using cmp_antisym [of a b] by (auto simp: sgn_if split: if_splits)

lemma cmp_eq_sym: "cmp a b = 0 \<longleftrightarrow> cmp b a = 0"
  using cmp_antisym [of a b] by (auto simp: sgn_if split: if_splits)

lemma cmp_refl [simp]: "cmp a a = 0"
  using cmp_antisym [of a a] by (auto simp: sgn_if split: if_splits)

lemma cmp_le_iff: "cmp a b \<le> 0 \<longleftrightarrow> cmp b a \<ge> 0"
  using cmp_gt_iff [of a b] by linarith

lemma cmp_total: "cmp a b \<le> 0 \<or> cmp b a \<le> 0"
  using cmp_gt_iff [of a b] by linarith

lemma cmp_less_le_trans: "cmp a b < 0 \<Longrightarrow> cmp b c \<le> 0 \<Longrightarrow> cmp a c < 0"
  using cmp_trans [of b c a] cmp_gt_iff [of b a] cmp_gt_iff [of c a] cmp_le_iff [of c a] by linarith

lemma cmp_le_less_trans: "cmp a b \<le> 0 \<Longrightarrow> cmp b c < 0 \<Longrightarrow> cmp a c < 0"
  using cmp_trans [of c a b] cmp_gt_iff [of c b] cmp_gt_iff [of c a] cmp_le_iff [of c a] by linarith

lemma cmp_eq_trans: "cmp a b = 0 \<Longrightarrow> cmp b c = 0 \<Longrightarrow> cmp a c = 0"
  using cmp_trans [of a b c] cmp_trans [of c b a] cmp_eq_sym [of a b] cmp_eq_sym [of b c]
    cmp_le_iff [of c a] by linarith

lemma cmp_eq_cong:
  assumes "cmp a b = 0"
  shows "cmp a c < 0 \<longleftrightarrow> cmp b c < 0" "cmp a c > 0 \<longleftrightarrow> cmp b c > 0" "cmp a c = 0 \<longleftrightarrow> cmp b c = 0"
proof -
  have ba: "cmp b a = 0" using assms cmp_eq_sym by simp
  show lt: "cmp a c < 0 \<longleftrightarrow> cmp b c < 0"
    using assms ba cmp_le_less_trans [of a b c] cmp_le_less_trans [of b a c] by auto
  show gt: "cmp a c > 0 \<longleftrightarrow> cmp b c > 0"
    using assms ba cmp_less_le_trans [of c a b] cmp_less_le_trans [of c b a]
      cmp_gt_iff [of a c] cmp_gt_iff [of b c] by auto
  show "cmp a c = 0 \<longleftrightarrow> cmp b c = 0" using lt gt by linarith
qed

end

definition sorted_by :: "'a comparator \<Rightarrow> 'a ptr list \<Rightarrow> bool" where
  "sorted_by cmp xs = sorted_wrt (\<lambda>a b. cmp a b \<le> 0) xs"

lemma sorted_by_Nil [simp]: "sorted_by cmp []"
  by (simp add: sorted_by_def)

lemma sorted_by_Cons [simp]:
  "sorted_by cmp (x # xs) \<longleftrightarrow> (\<forall>y \<in> set xs. cmp x y \<le> 0) \<and> sorted_by cmp xs"
  by (simp add: sorted_by_def)

lemma sorted_by_append:
  "sorted_by cmp (xs @ ys) \<longleftrightarrow>
     sorted_by cmp xs \<and> sorted_by cmp ys \<and> (\<forall>x \<in> set xs. \<forall>y \<in> set ys. cmp x y \<le> 0)"
  by (auto simp: sorted_by_def sorted_wrt_append)

lemma sorted_by_nth:
  "sorted_by cmp xs \<Longrightarrow> i < j \<Longrightarrow> j < length xs \<Longrightarrow> cmp (xs ! i) (xs ! j) \<le> 0"
  by (simp add: sorted_by_def sorted_wrt_iff_nth_less)

end
