(* ===== verification/List_Iface.thy ===== *)
theory List_Iface
  imports Ova_Base
begin

text \<open>
  The contract of the public \<open>list\<close> object of \<open>include/list.h\<close>: a table of function
  pointers (\<open>insert\<close>, \<open>get\<close>, \<open>remove\<close>, \<open>size\<close>, \<open>clear\<close>) over a private
  representation. \<open>list_store\<close> states what every backend promises, \<open>positional_list\<close>
  what the two index-respecting backends add. The loops that call a list only through its
  function pointers are modelled here, with the pointers as arguments, and their effect is
  proved once inside the contracts.
\<close>

section \<open>Loops over a list's function pointers\<close>

text \<open>\<open>for (i) \<lbrace> err = self->insert(self, elements[i], self->size(self)); if (err) return err; \<rbrace>\<close>\<close>

fun append_loop ::
  "('l \<Rightarrow> 'a ptr \<Rightarrow> int \<Rightarrow> 'a world \<Rightarrow> ova_error_code \<times> 'l \<times> 'a world) \<Rightarrow> ('l \<Rightarrow> int) \<Rightarrow>
   'a ptr list \<Rightarrow> 'l \<Rightarrow> 'a world \<Rightarrow> ova_error_code \<times> 'l \<times> 'a world" where
  "append_loop ins sz [] l w = (OVA_SUCCESS, l, w)"
| "append_loop ins sz (x # xs) l w =
     (case ins l x (sz l) w of (err, l', w') \<Rightarrow>
        if err \<noteq> OVA_SUCCESS then (err, l', w') else append_loop ins sz xs l' w')"

text \<open>\<open>for (i) lst->insert(lst, arr[i], i);\<close> with the error codes dropped.\<close>

fun store_loop ::
  "('l \<Rightarrow> 'a ptr \<Rightarrow> int \<Rightarrow> 'a world \<Rightarrow> ova_error_code \<times> 'l \<times> 'a world) \<Rightarrow>
   int \<Rightarrow> 'a ptr list \<Rightarrow> 'l \<Rightarrow> 'a world \<Rightarrow> 'l \<times> 'a world" where
  "store_loop ins i [] l w = (l, w)"
| "store_loop ins i (x # xs) l w =
     (case ins l x i w of (err, l', w') \<Rightarrow> store_loop ins (i + 1) xs l' w')"

text \<open>\<open>for (i = from; i < from + n; i++) arr[i] = lst->get(lst, i);\<close>\<close>

fun fetch_loop ::
  "('l \<Rightarrow> int \<Rightarrow> 'a ptr \<times> 'l) \<Rightarrow> int \<Rightarrow> nat \<Rightarrow> 'l \<Rightarrow> 'a ptr list \<times> 'l" where
  "fetch_loop gt i 0 l = ([], l)"
| "fetch_loop gt i (Suc n) l =
     (case gt l i of (x, l') \<Rightarrow>
      case fetch_loop gt (i + 1) n l' of (xs, l'') \<Rightarrow> (x # xs, l''))"

text \<open>The copying loop of the clone functions: read element \<open>i\<close> of one list, duplicate it, append
  the duplicate to the other, and give up at the first failure. \<open>dup\<close> returns \<open>None\<close> where the
  code gives up on a null duplicate.\<close>

fun clone_loop ::
  "('l \<Rightarrow> int \<Rightarrow> 'a ptr \<times> 'l) \<Rightarrow>
   ('l \<Rightarrow> 'a ptr \<Rightarrow> int \<Rightarrow> 'a world \<Rightarrow> ova_error_code \<times> 'l \<times> 'a world) \<Rightarrow> ('l \<Rightarrow> int) \<Rightarrow>
   ('a ptr \<Rightarrow> 'a world \<Rightarrow> 'a ptr option \<times> 'a world) \<Rightarrow>
   int \<Rightarrow> nat \<Rightarrow> 'l \<Rightarrow> 'l \<Rightarrow> 'a world \<Rightarrow> bool \<times> 'l \<times> 'l \<times> 'a world" where
  "clone_loop gt ins sz dup i 0 src copy w = (True, src, copy, w)"
| "clone_loop gt ins sz dup i (Suc n) src copy w =
     (case gt src i of (elem, src') \<Rightarrow>
      (case dup elem w of
         (None, w1) \<Rightarrow> (False, src', copy, w1)
       | (Some d, w1) \<Rightarrow>
          (case ins copy d (sz copy) w1 of (err, copy', w2) \<Rightarrow>
             if err \<noteq> OVA_SUCCESS then (False, src', copy', w2)
             else clone_loop gt ins sz dup (i + 1) n src' copy' w2)))"

definition dup_shallow :: "'a ptr \<Rightarrow> 'a world \<Rightarrow> 'a ptr option \<times> 'a world" where
  "dup_shallow x w = (Some x, w)"

definition dup_deep :: "'a element_copier \<Rightarrow> 'a ptr \<Rightarrow> 'a world \<Rightarrow> 'a ptr option \<times> 'a world" where
  "dup_deep copier x w =
     (case copier x w of (d, w') \<Rightarrow> (if d = NULL then None else Some d, w'))"

text \<open>\<open>y\<close> is a possible duplicate of \<open>x\<close>.\<close>

definition dup_of :: "('a ptr \<Rightarrow> 'a world \<Rightarrow> 'a ptr option \<times> 'a world) \<Rightarrow> 'a ptr \<Rightarrow> 'a ptr \<Rightarrow> bool" where
  "dup_of dup x y \<longleftrightarrow> (\<exists>w w'. dup x w = (Some y, w'))"

lemma dup_shallow_apply [simp]: "fst (dup_shallow x w) = Some x" "snd (dup_shallow x w) = w"
  by (simp_all add: dup_shallow_def)

lemma dup_of_shallow [simp]: "dup_of dup_shallow x y \<longleftrightarrow> y = x"
  by (auto simp: dup_of_def dup_shallow_def)

lemma list_all2_shallow [simp]: "list_all2 (dup_of dup_shallow) xs ys \<longleftrightarrow> ys = xs"
  by (auto simp: list_all2_conv_all_nth intro: nth_equalityI)

lemma dup_of_deep:
  assumes "dup_of (dup_deep copier) x y"
  shows "y \<noteq> NULL \<and> (\<exists>w w'. copier x w = (y, w'))"
proof -
  from assms obtain w w' where "dup_deep copier x w = (Some y, w')" by (auto simp: dup_of_def)
  then show ?thesis
    by (cases "copier x w") (auto simp: dup_deep_def split: if_splits)
qed

text \<open>A client's loops over a container it fills and empties one element at a time.\<close>

fun push_all ::
  "('s \<Rightarrow> 'a ptr \<Rightarrow> 'a world \<Rightarrow> ova_error_code \<times> 's \<times> 'a world) \<Rightarrow> 'a ptr list \<Rightarrow> 's \<Rightarrow> 'a world \<Rightarrow>
     ova_error_code \<times> 's \<times> 'a world" where
  "push_all push [] s w = (OVA_SUCCESS, s, w)"
| "push_all push (x # xs) s w =
     (case push s x w of (e, s', w') \<Rightarrow>
        if e \<noteq> OVA_SUCCESS then (e, s', w') else push_all push xs s' w')"

fun pop_n :: "('s \<Rightarrow> 'a ptr \<times> 's) \<Rightarrow> nat \<Rightarrow> 's \<Rightarrow> 'a ptr list \<times> 's" where
  "pop_n pop 0 s = ([], s)"
| "pop_n pop (Suc n) s =
     (case pop s of (x, s') \<Rightarrow> case pop_n pop n s' of (xs, s'') \<Rightarrow> (x # xs, s''))"

section \<open>Sequences of calls and their specification\<close>

text \<open>A client's calls, what they answer, and the execution of a sequence of calls through the
  function pointers.\<close>

datatype 'a list_cmd =
    Insert_Cmd "'a ptr" int | Get_Cmd int | Remove_Cmd int | Size_Cmd | Clear_Cmd

datatype 'a list_reply = Code_Reply ova_error_code | Ptr_Reply "'a ptr" | Int_Reply int | Void_Reply

fun exec_cmd ::
  "('l \<Rightarrow> 'a ptr \<Rightarrow> int \<Rightarrow> 'a world \<Rightarrow> ova_error_code \<times> 'l \<times> 'a world) \<Rightarrow>
   ('l \<Rightarrow> int \<Rightarrow> 'a ptr \<times> 'l) \<Rightarrow> ('l \<Rightarrow> int \<Rightarrow> ova_error_code \<times> 'l) \<Rightarrow> ('l \<Rightarrow> int) \<Rightarrow> ('l \<Rightarrow> 'l) \<Rightarrow>
   'a list_cmd \<Rightarrow> 'l \<Rightarrow> 'a world \<Rightarrow> 'a list_reply \<times> 'l \<times> 'a world" where
  "exec_cmd ins gt rm sz cl (Insert_Cmd x i) l w =
     (case ins l x i w of (e, l', w') \<Rightarrow> (Code_Reply e, l', w'))"
| "exec_cmd ins gt rm sz cl (Get_Cmd i) l w = (case gt l i of (x, l') \<Rightarrow> (Ptr_Reply x, l', w))"
| "exec_cmd ins gt rm sz cl (Remove_Cmd i) l w = (case rm l i of (e, l') \<Rightarrow> (Code_Reply e, l', w))"
| "exec_cmd ins gt rm sz cl Size_Cmd l w = (Int_Reply (sz l), l, w)"
| "exec_cmd ins gt rm sz cl Clear_Cmd l w = (Void_Reply, cl l, w)"

fun run_cmds ::
  "('a list_cmd \<Rightarrow> 'l \<Rightarrow> 'a world \<Rightarrow> 'a list_reply \<times> 'l \<times> 'a world) \<Rightarrow>
   'a list_cmd list \<Rightarrow> 'l \<Rightarrow> 'a world \<Rightarrow> 'a list_reply list \<times> 'l \<times> 'a world" where
  "run_cmds ex [] l w = ([], l, w)"
| "run_cmds ex (c # cs) l w =
     (case ex c l w of (r, l1, w1) \<Rightarrow>
      case run_cmds ex cs l1 w1 of (rs, l2, w2) \<Rightarrow> (r # rs, l2, w2))"

text \<open>The abstract sequence the header file describes: the only freedom is that an insertion may
  fail for lack of memory, and then it has no effect.\<close>

inductive list_spec :: "'a list_cmd \<Rightarrow> 'a ptr list \<Rightarrow> 'a list_reply \<Rightarrow> 'a ptr list \<Rightarrow> bool" where
  insert_ok: "0 \<le> i \<Longrightarrow> i \<le> int (length xs) \<Longrightarrow>
     list_spec (Insert_Cmd x i) xs (Code_Reply OVA_SUCCESS) (insert_at (nat i) x xs)"
| insert_no_memory: "e \<noteq> OVA_SUCCESS \<Longrightarrow> 0 \<le> i \<Longrightarrow> i \<le> int (length xs) \<Longrightarrow>
     list_spec (Insert_Cmd x i) xs (Code_Reply e) xs"
| insert_out: "i < 0 \<or> int (length xs) < i \<Longrightarrow>
     list_spec (Insert_Cmd x i) xs (Code_Reply OVA_ERROR_INDEX_OUT_OF_BOUNDS) xs"
| get: "list_spec (Get_Cmd i) xs (Ptr_Reply (nth_ptr xs i)) xs"
| remove_ok: "0 \<le> i \<Longrightarrow> i < int (length xs) \<Longrightarrow>
     list_spec (Remove_Cmd i) xs (Code_Reply OVA_SUCCESS) (remove_at (nat i) xs)"
| remove_out: "i < 0 \<or> int (length xs) \<le> i \<Longrightarrow>
     list_spec (Remove_Cmd i) xs (Code_Reply OVA_ERROR_INDEX_OUT_OF_BOUNDS) xs"
| size_of: "list_spec Size_Cmd xs (Int_Reply (int (length xs))) xs"
| clear_all: "list_spec Clear_Cmd xs Void_Reply []"

inductive list_spec_run ::
  "'a list_cmd list \<Rightarrow> 'a ptr list \<Rightarrow> 'a list_reply list \<Rightarrow> 'a ptr list \<Rightarrow> bool" where
  run_nil: "list_spec_run [] xs [] xs"
| run_cons: "list_spec c xs r ys \<Longrightarrow> list_spec_run cs ys rs zs \<Longrightarrow>
     list_spec_run (c # cs) xs (r # rs) zs"

inductive_cases list_spec_getE [elim!]: "list_spec (Get_Cmd i) xs r ys"
inductive_cases list_spec_run_consE [elim!]: "list_spec_run (c # cs) xs rs zs"
inductive_simps list_spec_run_nil [simp]: "list_spec_run [] xs rs zs"

section \<open>What every backend promises\<close>

locale list_store =
  fixes insert_op :: "'l \<Rightarrow> 'a ptr \<Rightarrow> int \<Rightarrow> 'a world \<Rightarrow> ova_error_code \<times> 'l \<times> 'a world"
    and get_op :: "'l \<Rightarrow> int \<Rightarrow> 'a ptr \<times> 'l"
    and remove_op :: "'l \<Rightarrow> int \<Rightarrow> ova_error_code \<times> 'l"
    and size_op :: "'l \<Rightarrow> int"
    and clear_op :: "'l \<Rightarrow> 'l"
    and inv :: "'l \<Rightarrow> bool"
    and items :: "'l \<Rightarrow> 'a ptr list"
    and ready :: "'l \<Rightarrow> 'a world \<Rightarrow> nat \<Rightarrow> bool"
  assumes insert_inv: "inv l \<Longrightarrow> insert_op l x i w = (e, l', w') \<Longrightarrow> inv l'"
    and insert_fail: "inv l \<Longrightarrow> insert_op l x i w = (e, l', w') \<Longrightarrow> e \<noteq> OVA_SUCCESS \<Longrightarrow>
          items l' = items l"
    and insert_bag: "inv l \<Longrightarrow> insert_op l x i w = (OVA_SUCCESS, l', w') \<Longrightarrow>
          mset (items l') = add_mset x (mset (items l))"
    and insert_ready: "inv l \<Longrightarrow> ready l w n \<Longrightarrow> length (items l) < n \<Longrightarrow>
          0 \<le> i \<Longrightarrow> i \<le> int (length (items l)) \<Longrightarrow>
          \<exists>l' w'. insert_op l x i w = (OVA_SUCCESS, l', w') \<and> ready l' w' n"
    and get_inv: "inv l \<Longrightarrow> inv (snd (get_op l i))"
    and get_items: "inv l \<Longrightarrow> items (snd (get_op l i)) = items l"
    and get_value: "inv l \<Longrightarrow> fst (get_op l i) = nth_ptr (items l) i"
    and get_ready: "inv l \<Longrightarrow> ready (snd (get_op l i)) w n = ready l w n"
    and remove_inside: "inv l \<Longrightarrow> 0 \<le> i \<Longrightarrow> i < int (length (items l)) \<Longrightarrow>
          \<exists>l'. remove_op l i = (OVA_SUCCESS, l') \<and> inv l' \<and> items l' = remove_at (nat i) (items l)"
    and remove_outside: "inv l \<Longrightarrow> i < 0 \<or> int (length (items l)) \<le> i \<Longrightarrow>
          remove_op l i = (OVA_ERROR_INDEX_OUT_OF_BOUNDS, l)"
    and size_items: "inv l \<Longrightarrow> size_op l = int (length (items l))"
    and clear_inv: "inv l \<Longrightarrow> inv (clear_op l)"
    and clear_items: "inv l \<Longrightarrow> items (clear_op l) = []"
    and clear_ready: "inv l \<Longrightarrow> ready l w n \<Longrightarrow> ready (clear_op l) w n"
begin

lemmas get_facts = get_inv get_items get_value get_ready

lemma insert_grows:
  "inv l \<Longrightarrow> insert_op l x i w = (OVA_SUCCESS, l', w') \<Longrightarrow>
     length (items l') = Suc (length (items l))"
  using insert_bag [of l x i w l' w'] by (metis size_add_mset size_mset)

text \<open>Reading a whole range through the getter returns that range and changes nothing the
  interface shows.\<close>

lemma fetch_loop_range:
  "inv l \<Longrightarrow> i + n \<le> length (items l) \<Longrightarrow> fetch_loop get_op (int i) n l = (xs, l') \<Longrightarrow>
     xs = take n (drop i (items l)) \<and> inv l' \<and> items l' = items l \<and> ready l' w m = ready l w m"
proof (induction n arbitrary: i l xs l')
  case 0
  then show ?case by simp
next
  case (Suc n)
  obtain x l1 where g: "get_op l (int i) = (x, l1)" by fastforce
  obtain ys l2 where f: "fetch_loop get_op (int (Suc i)) n l1 = (ys, l2)" by fastforce
  have res: "xs = x # ys" "l' = l2"
    using Suc.prems(3) g f by (simp_all add: add.commute)
  have l1: "inv l1" "items l1 = items l" "x = nth_ptr (items l) (int i)"
    "ready l1 w m = ready l w m"
    using get_facts [OF Suc.prems(1), of "int i"] g by simp_all
  have "ys = take n (drop (Suc i) (items l1)) \<and> inv l2 \<and> items l2 = items l1
      \<and> ready l2 w m = ready l1 w m"
    using Suc.prems(2) l1 f by (intro Suc.IH) simp_all
  moreover have "take (Suc n) (drop i (items l)) = items l ! i # take n (drop (Suc i) (items l))"
    using Suc.prems(2) by (simp add: Cons_nth_drop_Suc [symmetric])
  ultimately show ?case
    using res l1 Suc.prems(2) by simp
qed

lemma fetch_loop_all:
  assumes "inv l" "fetch_loop get_op 0 (length (items l)) l = (xs, l')"
  shows "xs = items l \<and> inv l' \<and> items l' = items l \<and> ready l' w m = ready l w m"
  using fetch_loop_range [of l 0 "length (items l)" xs l' w m] assms by simp

text \<open>Cloning reads the source without changing what it holds, and a finished loop has added one
  duplicate of each element read.\<close>

lemma clone_loop_bag:
  "inv src \<Longrightarrow> inv copy \<Longrightarrow> i + n \<le> length (items src) \<Longrightarrow>
     clone_loop get_op insert_op size_op dup (int i) n src copy w = (ok, src', copy', w') \<Longrightarrow>
     inv src' \<and> items src' = items src \<and> inv copy' \<and>
     (ok \<longrightarrow> (\<exists>ys. list_all2 (dup_of dup) (take n (drop i (items src))) ys \<and>
        mset (items copy') = mset (items copy) + mset ys))"
proof (induction n arbitrary: i src copy w)
  case 0
  then show ?case by simp
next
  case (Suc n)
  obtain x s1 where g: "get_op src (int i) = (x, s1)" by fastforce
  have s1: "inv s1" "items s1 = items src" "x = items src ! i"
    using get_facts [OF Suc.prems(1), of "int i"] g Suc.prems(3) by simp_all
  obtain d w1 where d: "dup x w = (d, w1)" by fastforce
  show ?case
  proof (cases d)
    case None
    then show ?thesis using Suc.prems g d s1 by auto
  next
    case (Some y)
    obtain e c2 w2 where ins: "insert_op copy y (size_op copy) w1 = (e, c2, w2)"
      by (metis prod_cases3)
    have c2: "inv c2" using insert_inv [OF Suc.prems(2) ins] .
    show ?thesis
    proof (cases "e = OVA_SUCCESS")
      case False
      then show ?thesis using Suc.prems g d s1 Some ins c2 by auto
    next
      case True
      have "clone_loop get_op insert_op size_op dup (int (Suc i)) n s1 c2 w2 = (ok, src', copy', w')"
        using Suc.prems(4) g d Some ins True by (simp add: add.commute)
      from Suc.IH [OF s1(1) c2 _ this] Suc.prems(3) s1(2)
      have IH: "inv src'" "items src' = items src" "inv copy'"
        "ok \<Longrightarrow> \<exists>ys. list_all2 (dup_of dup) (take n (drop (Suc i) (items src))) ys \<and>
           mset (items copy') = mset (items c2) + mset ys" by simp_all
      have bag: "mset (items c2) = add_mset y (mset (items copy))"
        using insert_bag Suc.prems(2) ins True by simp
      have head: "take (Suc n) (drop i (items src)) = x # take n (drop (Suc i) (items src))"
        using Suc.prems(3) s1(3) by (simp add: Cons_nth_drop_Suc [symmetric])
      have "dup_of dup x y" using d Some by (auto simp: dup_of_def)
      have "\<exists>ys. list_all2 (dup_of dup) (take (Suc n) (drop i (items src))) ys \<and>
           mset (items copy') = mset (items copy) + mset ys" if finished: ok
      proof -
        obtain ys where "list_all2 (dup_of dup) (take n (drop (Suc i) (items src))) ys"
          "mset (items copy') = mset (items c2) + mset ys" using IH(4) [OF finished] by blast
        then show ?thesis
          using \<open>dup_of dup x y\<close> by (intro exI [of _ "y # ys"]) (simp add: head bag)
      qed
      with IH show ?thesis by blast
    qed
  qed
qed

lemma clone_loop_ready:
  "inv src \<Longrightarrow> inv copy \<Longrightarrow> i + n \<le> length (items src) \<Longrightarrow> ready copy w m \<Longrightarrow>
     length (items copy) + n \<le> m \<Longrightarrow>
     \<exists>src' copy' w'. clone_loop get_op insert_op size_op dup_shallow (int i) n src copy w
        = (True, src', copy', w')"
proof (induction n arbitrary: i src copy w)
  case 0
  then show ?case by simp
next
  case (Suc n)
  obtain x s1 where g: "get_op src (int i) = (x, s1)" by fastforce
  have s1: "inv s1" "items s1 = items src"
    using get_facts [OF Suc.prems(1), of "int i"] g by simp_all
  obtain c2 w2 where ins: "insert_op copy x (size_op copy) w = (OVA_SUCCESS, c2, w2)" "ready c2 w2 m"
    using insert_ready [of copy w m "size_op copy" x] Suc.prems size_items [of copy] by auto
  have "inv c2" "length (items c2) = Suc (length (items copy))"
    using insert_inv [OF Suc.prems(2) ins(1)] insert_grows [OF Suc.prems(2) ins(1)] by simp_all
  then have "\<exists>src' copy' w'. clone_loop get_op insert_op size_op dup_shallow (int (Suc i)) n s1 c2 w2
      = (True, src', copy', w')"
    using Suc.prems s1 ins by (intro Suc.IH) simp_all
  then show ?case using g ins by (simp add: case_prod_beta add.commute)
qed

end

section \<open>What the index-respecting backends add\<close>

locale positional_list = list_store +
  assumes insert_pos: "inv l \<Longrightarrow> insert_op l x i w = (OVA_SUCCESS, l', w') \<Longrightarrow>
          0 \<le> i \<and> i \<le> int (length (items l)) \<and> items l' = insert_at (nat i) x (items l)"
    and insert_outside: "inv l \<Longrightarrow> i < 0 \<or> int (length (items l)) < i \<Longrightarrow>
          insert_op l x i w = (OVA_ERROR_INDEX_OUT_OF_BOUNDS, l, w)"
begin

lemma insert_last:
  "inv l \<Longrightarrow> insert_op l x (size_op l) w = (OVA_SUCCESS, l', w') \<Longrightarrow> items l' = items l @ [x]"
  using insert_pos [of l x "size_op l" w l' w'] by (simp add: size_items)

text \<open>Appending a batch: on an error the elements before the failing one are in the list, in
  order, and nothing else has changed.\<close>

lemma append_loop_prefix:
  "inv l \<Longrightarrow> append_loop insert_op size_op xs l w = (e, l', w') \<Longrightarrow>
     inv l' \<and> (\<exists>k \<le> length xs. items l' = items l @ take k xs \<and> (e = OVA_SUCCESS \<longleftrightarrow> k = length xs))"
proof (induction xs arbitrary: l w)
  case Nil
  then show ?case by simp
next
  case (Cons x xs)
  obtain e1 l1 w1 where ins: "insert_op l x (size_op l) w = (e1, l1, w1)" by (metis prod_cases3)
  have inv1: "inv l1" using insert_inv [OF Cons.prems(1) ins] .
  show ?case
  proof (cases "e1 = OVA_SUCCESS")
    case False
    then have "e = e1 \<and> l' = l1" using Cons.prems(2) ins by simp
    moreover have "items l1 = items l" using insert_fail [OF Cons.prems(1) ins False] .
    ultimately show ?thesis
      using inv1 False by (intro conjI exI [of _ 0]) auto
  next
    case True
    then have "append_loop insert_op size_op xs l1 w1 = (e, l', w')"
      using Cons.prems(2) ins by simp
    with Cons.IH [OF inv1] obtain k where k: "inv l'" "k \<le> length xs"
      "items l' = items l1 @ take k xs" "e = OVA_SUCCESS \<longleftrightarrow> k = length xs"
      by blast
    have "items l1 = items l @ [x]" using insert_last Cons.prems(1) ins True by simp
    with k show ?thesis by (intro conjI exI [of _ "Suc k"]) simp_all
  qed
qed

lemma append_loop_ready:
  "inv l \<Longrightarrow> ready l w n \<Longrightarrow> length (items l) + length xs \<le> n \<Longrightarrow>
     \<exists>l' w'. append_loop insert_op size_op xs l w = (OVA_SUCCESS, l', w') \<and> ready l' w' n"
proof (induction xs arbitrary: l w)
  case Nil
  then show ?case by simp
next
  case (Cons x xs)
  obtain l1 w1 where ins: "insert_op l x (size_op l) w = (OVA_SUCCESS, l1, w1)" "ready l1 w1 n"
    using insert_ready [of l w n "size_op l" x] Cons.prems size_items [of l] by auto
  have "length (items l1) = Suc (length (items l))"
    using insert_last ins(1) Cons.prems(1) by simp
  with Cons.IH [OF insert_inv [OF Cons.prems(1) ins(1)] ins(2)] Cons.prems ins(1)
  show ?case by simp
qed

lemma clone_loop_append:
  "inv src \<Longrightarrow> inv copy \<Longrightarrow> i + n \<le> length (items src) \<Longrightarrow>
     clone_loop get_op insert_op size_op dup (int i) n src copy w = (True, src', copy', w') \<Longrightarrow>
     \<exists>ys. list_all2 (dup_of dup) (take n (drop i (items src))) ys \<and> items copy' = items copy @ ys"
proof (induction n arbitrary: i src copy w)
  case 0
  then show ?case by simp
next
  case (Suc n)
  obtain x s1 where g: "get_op src (int i) = (x, s1)" by fastforce
  have s1: "inv s1" "items s1 = items src" "x = items src ! i"
    using get_facts [OF Suc.prems(1), of "int i"] g Suc.prems(3) by simp_all
  obtain y w1 where d: "dup x w = (Some y, w1)"
    using Suc.prems(4) g by (auto split: prod.splits option.splits)
  obtain e c2 w2 where ins: "insert_op copy y (size_op copy) w1 = (e, c2, w2)"
    by (metis prod_cases3)
  have e: "e = OVA_SUCCESS"
    using Suc.prems(4) g d ins by (auto split: if_splits)
  have c2: "inv c2" "items c2 = items copy @ [y]"
    using insert_inv [OF Suc.prems(2) ins] insert_last Suc.prems(2) ins e by simp_all
  have "clone_loop get_op insert_op size_op dup (int (Suc i)) n s1 c2 w2 = (True, src', copy', w')"
    using Suc.prems(4) g d ins e by (simp add: add.commute)
  from Suc.IH [OF s1(1) c2(1) _ this] Suc.prems(3) s1(2)
  obtain ys where ys: "list_all2 (dup_of dup) (take n (drop (Suc i) (items src))) ys"
    "items copy' = items c2 @ ys" by auto
  have "take (Suc n) (drop i (items src)) = x # take n (drop (Suc i) (items src))"
    using Suc.prems(3) s1(3) by (simp add: Cons_nth_drop_Suc [symmetric])
  moreover have "dup_of dup x y" using d by (auto simp: dup_of_def)
  ultimately show ?case
    using ys c2 by (intro exI [of _ "y # ys"]) simp
qed

text \<open>Storing a buffer at ascending indices into a list that holds exactly the elements stored
  so far.\<close>

lemma store_loop_ready:
  "inv l \<Longrightarrow> ready l w n \<Longrightarrow> length (items l) + length xs \<le> n \<Longrightarrow>
     store_loop insert_op (int (length (items l))) xs l w = (l', w') \<Longrightarrow>
     inv l' \<and> items l' = items l @ xs \<and> ready l' w' n"
proof (induction xs arbitrary: l w)
  case Nil
  then show ?case by simp
next
  case (Cons x xs)
  let ?i = "int (length (items l))"
  obtain l1 w1 where ins: "insert_op l x ?i w = (OVA_SUCCESS, l1, w1)" "ready l1 w1 n"
    using insert_ready [of l w n ?i x] Cons.prems by auto
  have l1: "inv l1" "items l1 = items l @ [x]"
    using insert_inv [OF Cons.prems(1) ins(1)] insert_pos [OF Cons.prems(1) ins(1)] by simp_all
  have "store_loop insert_op (int (length (items l1))) xs l1 w1 = (l', w')"
    using Cons.prems(4) ins(1) l1(2) by (simp add: add.commute)
  with Cons.IH [OF l1(1) ins(2)] Cons.prems(3) l1(2) show ?case by simp
qed

text \<open>Without any readiness: whatever fails, no element is invented.\<close>

lemma store_loop_inv:
  "inv l \<Longrightarrow> store_loop insert_op i xs l w = (l', w') \<Longrightarrow>
     inv l' \<and> set (items l') \<subseteq> set (items l) \<union> set xs"
proof (induction xs arbitrary: i l w)
  case Nil
  then show ?case by simp
next
  case (Cons x xs)
  obtain e1 l1 w1 where ins: "insert_op l x i w = (e1, l1, w1)" by (metis prod_cases3)
  have inv1: "inv l1" using insert_inv [OF Cons.prems(1) ins] .
  have "set (items l1) \<subseteq> insert x (set (items l))"
  proof (cases "e1 = OVA_SUCCESS")
    case True
    then have "mset (items l1) = add_mset x (mset (items l))"
      using insert_bag [OF Cons.prems(1)] ins by blast
    then show ?thesis by (metis set_mset_add_mset_insert set_mset_mset subset_refl)
  next
    case False
    then show ?thesis using insert_fail [OF Cons.prems(1) ins False] by auto
  qed
  moreover have "store_loop insert_op (i + 1) xs l1 w1 = (l', w')"
    using Cons.prems(2) ins by simp
  note Cons.IH [OF inv1 this]
  ultimately show ?case by auto
qed

text \<open>Every sequence of calls, under every allocator, answers as the abstract sequence does.\<close>

lemma exec_refines:
  assumes "inv l" "exec_cmd insert_op get_op remove_op size_op clear_op c l w = (r, l', w')"
  shows "inv l' \<and> list_spec c (items l) r (items l')"
proof (cases c)
  case (Insert_Cmd x i)
  then obtain e where ins: "insert_op l x i w = (e, l', w')" "r = Code_Reply e"
    using assms(2) by (auto split: prod.splits)
  consider "e = OVA_SUCCESS" | "i < 0 \<or> int (length (items l)) < i"
    | "e \<noteq> OVA_SUCCESS" "0 \<le> i" "i \<le> int (length (items l))" by linarith
  then have "list_spec c (items l) r (items l')"
  proof cases
    case 1
    with insert_pos [OF assms(1)] ins Insert_Cmd show ?thesis by (auto intro: insert_ok)
  next
    case 2
    with insert_outside [OF assms(1)] ins Insert_Cmd show ?thesis by (auto intro: insert_out)
  next
    case 3
    with insert_fail [OF assms(1) ins(1)] ins(2) Insert_Cmd show ?thesis
      by (auto intro: insert_no_memory)
  qed
  with insert_inv [OF assms(1) ins(1)] show ?thesis by simp
next
  case (Get_Cmd i)
  with assms(2) get_facts [OF assms(1), of i] show ?thesis
    by (cases "get_op l i") (auto intro: list_spec.get)
next
  case (Remove_Cmd i)
  show ?thesis
  proof (cases "0 \<le> i \<and> i < int (length (items l))")
    case True
    with remove_inside [OF assms(1)] obtain l1 where "remove_op l i = (OVA_SUCCESS, l1)" "inv l1"
      "items l1 = remove_at (nat i) (items l)" by blast
    with True assms(2) Remove_Cmd show ?thesis by (auto intro: remove_ok)
  next
    case False
    then have out: "i < 0 \<or> int (length (items l)) \<le> i" by linarith
    with remove_outside [OF assms(1), of i] assms Remove_Cmd
    have "l' = l" "r = Code_Reply OVA_ERROR_INDEX_OUT_OF_BOUNDS" by auto
    with out assms(1) Remove_Cmd list_spec.remove_out [OF out] show ?thesis by simp
  qed
next
  case Size_Cmd
  with assms size_items [OF assms(1)] show ?thesis by (auto intro: list_spec.size_of)
next
  case Clear_Cmd
  with assms clear_inv clear_items show ?thesis by (auto intro: clear_all)
qed

lemma run_refines:
  "inv l \<Longrightarrow>
     run_cmds (exec_cmd insert_op get_op remove_op size_op clear_op) cs l w = (rs, l', w') \<Longrightarrow>
     inv l' \<and> list_spec_run cs (items l) rs (items l')"
proof (induction cs arbitrary: l w rs l' w')
  case Nil
  then show ?case by simp
next
  case (Cons c cs)
  obtain r l1 w1 where ex: "exec_cmd insert_op get_op remove_op size_op clear_op c l w = (r, l1, w1)"
    by (metis prod_cases3)
  obtain rs' l2 w2 where run:
    "run_cmds (exec_cmd insert_op get_op remove_op size_op clear_op) cs l1 w1 = (rs', l2, w2)"
    by (metis prod_cases3)
  have res: "rs = r # rs'" "l' = l2" using Cons.prems(2) ex run by simp_all
  have step: "inv l1" "list_spec c (items l) r (items l1)"
    using exec_refines [OF Cons.prems(1) ex] by simp_all
  with Cons.IH [OF step(1) run] show ?case
    unfolding res by (auto intro: run_cons)
qed

end

end
