(* ===== verification/Array_List.thy ===== *)
theory Array_List
  imports List_Iface
begin

text \<open>
  The array backend of the list, \<open>src/list/array_list.c\<close>. The state is the pointer buffer
  with its size and capacity; the abstraction is the prefix of the buffer in use. The module's
  static counter \<open>active_item_buffers\<close> lives in the \<open>world\<close>.
\<close>

section \<open>State and operations\<close>

record 'a array_list =
  al_items :: "'a ptr list"
  al_size :: nat
  al_capacity :: nat

definition create_array_list :: "int \<Rightarrow> 'a world \<Rightarrow> 'a array_list option \<times> 'a world" where
  "create_array_list initial_capacity w =
     (case malloc_struct w of (lst, w1) \<Rightarrow>
      case malloc_struct w1 of (impl, w2) \<Rightarrow>
        if lst \<and> impl then
          (case malloc_ptrs initial_capacity w2 of
             (Some items, w3) \<Rightarrow>
               (Some \<lparr>al_items = items, al_size = 0, al_capacity = nat initial_capacity\<rparr>,
                w3\<lparr>active_item_buffers := Suc (active_item_buffers w3)\<rparr>)
           | (None, w3) \<Rightarrow> (None, w3))
        else (None, w2))"

definition array_ensure_capacity ::
  "'a array_list \<Rightarrow> 'a world \<Rightarrow> bool \<times> 'a array_list \<times> 'a world" where
  "array_ensure_capacity impl w =
     (if al_size impl \<ge> al_capacity impl then
        (let new_capacity = safe_double_capacity (al_capacity impl) in
         if new_capacity = al_capacity impl then (False, impl, w)
         else (case realloc_ptrs (al_items impl) (int new_capacity) w of
             (None, w') \<Rightarrow> (False, impl, w')
           | (Some new_items, w') \<Rightarrow>
               (True, impl\<lparr>al_items := new_items, al_capacity := new_capacity\<rparr>, w')))
      else (True, impl, w))"

definition array_list_insert ::
  "'a array_list \<Rightarrow> 'a ptr \<Rightarrow> int \<Rightarrow> 'a world \<Rightarrow> ova_error_code \<times> 'a array_list \<times> 'a world" where
  "array_list_insert impl item index w =
     (if index < 0 \<or> index > int (al_size impl) then (OVA_ERROR_INDEX_OUT_OF_BOUNDS, impl, w)
      else (case array_ensure_capacity impl w of
          (False, impl, w') \<Rightarrow> (OVA_ERROR_MEMORY, impl, w')
        | (True, impl, w') \<Rightarrow>
            (let i = nat index;
                 moved = memmove (al_items impl) (i + 1) i (al_size impl - i)
             in (OVA_SUCCESS,
                 impl\<lparr>al_items := moved[i := item], al_size := al_size impl + 1\<rparr>, w'))))"

definition array_list_get :: "'a array_list \<Rightarrow> int \<Rightarrow> 'a ptr" where
  "array_list_get impl index =
     (if index < 0 \<or> index \<ge> int (al_size impl) then NULL else al_items impl ! nat index)"

definition array_list_remove ::
  "'a array_list \<Rightarrow> int \<Rightarrow> ova_error_code \<times> 'a array_list" where
  "array_list_remove impl index =
     (if index < 0 \<or> index \<ge> int (al_size impl) then (OVA_ERROR_INDEX_OUT_OF_BOUNDS, impl)
      else (let i = nat index in
        (OVA_SUCCESS,
         impl\<lparr>al_items := memmove (al_items impl) i (i + 1) (al_size impl - i - 1),
              al_size := al_size impl - 1\<rparr>)))"

text \<open>The two methods that test their object for null.\<close>

fun array_list_size :: "'a array_list option \<Rightarrow> int" where
  "array_list_size None = 0"
| "array_list_size (Some impl) = int (al_size impl)"

fun array_list_clear :: "'a array_list option \<Rightarrow> 'a array_list option" where
  "array_list_clear None = None"
| "array_list_clear (Some impl) = Some (impl\<lparr>al_size := 0\<rparr>)"

fun array_list_free :: "'a array_list option \<Rightarrow> 'a world \<Rightarrow> 'a world" where
  "array_list_free None w = w"
| "array_list_free (Some impl) w =
     (if active_item_buffers w > 0
      then w\<lparr>active_item_buffers := active_item_buffers w - 1\<rparr> else w)"

definition array_list_active_buffer_count :: "'a world \<Rightarrow> nat" where
  "array_list_active_buffer_count w = active_item_buffers w"

section \<open>Invariant and abstraction\<close>

definition array_list_inv :: "'a array_list \<Rightarrow> bool" where
  "array_list_inv impl \<longleftrightarrow> length (al_items impl) = al_capacity impl \<and>
     al_size impl \<le> al_capacity impl \<and> al_capacity impl \<le> INT_MAX"

definition array_list_items :: "'a array_list \<Rightarrow> 'a ptr list" where
  "array_list_items impl = take (al_size impl) (al_items impl)"

definition array_list_ready :: "'a array_list \<Rightarrow> 'a world \<Rightarrow> nat \<Rightarrow> bool" where
  "array_list_ready impl w n \<longleftrightarrow>
     n \<le> al_capacity impl \<or> alloc_fails w = [] \<and> 0 < al_capacity impl \<and> n \<le> INT_MAX"

lemma length_array_list_items [simp]:
  "array_list_inv impl \<Longrightarrow> length (array_list_items impl) = al_size impl"
  by (simp add: array_list_inv_def array_list_items_def)

lemma array_ensure_capacity_spec:
  assumes inv: "array_list_inv impl" and ens: "array_ensure_capacity impl w = (ok, impl', w')"
  shows "array_list_inv impl' \<and> array_list_items impl' = array_list_items impl \<and>
     al_size impl' = al_size impl \<and> al_capacity impl \<le> al_capacity impl' \<and>
     (ok \<longleftrightarrow> al_size impl' < al_capacity impl')"
proof (cases "al_size impl \<ge> al_capacity impl")
  case False
  with inv ens show ?thesis by (simp add: array_ensure_capacity_def)
next
  case full: True
  let ?c = "safe_double_capacity (al_capacity impl)"
  show ?thesis
  proof (cases "?c = al_capacity impl \<or> fst (realloc_ptrs (al_items impl) (int ?c) w) = None")
    case True
    with inv ens full show ?thesis
      by (auto simp: array_ensure_capacity_def Let_def split: prod.splits if_splits option.splits)
  next
    case False
    then obtain buf where re: "realloc_ptrs (al_items impl) (int ?c) w = (Some buf, w')"
      and impl': "ok" "impl' = impl\<lparr>al_items := buf, al_capacity := ?c\<rparr>"
      using ens full
      by (auto simp: array_ensure_capacity_def Let_def split: prod.splits if_splits option.splits)
    have grow: "al_capacity impl < ?c"
      using False inv safe_double_gt by (simp add: array_list_inv_def)
    with realloc_ptrs_Some [OF re] inv
    have "length buf = ?c" "take (al_capacity impl) buf = al_items impl"
      by (simp_all add: array_list_inv_def)
    then have "take (al_size impl) buf = take (al_size impl) (al_items impl)"
      using take_realloc [of "al_size impl" "al_capacity impl" buf "al_items impl"] inv
      by (simp add: array_list_inv_def)
    then show ?thesis
      using impl' grow inv \<open>length buf = ?c\<close>
      by (simp add: array_list_inv_def array_list_items_def safe_double_le)
  qed
qed

lemma array_ensure_capacity_ready:
  assumes inv: "array_list_inv impl" and "array_list_ready impl w n" "al_size impl < n"
  shows "\<exists>impl' w'. array_ensure_capacity impl w = (True, impl', w') \<and> array_list_ready impl' w' n"
proof (cases "al_size impl < al_capacity impl")
  case True
  with assms show ?thesis by (simp add: array_ensure_capacity_def)
next
  case False
  let ?c = "safe_double_capacity (al_capacity impl)"
  from False assms have w: "alloc_fails w = []" "0 < al_capacity impl" "n \<le> INT_MAX"
    by (auto simp: array_list_ready_def array_list_inv_def)
  have "al_capacity impl < INT_MAX"
    using False assms w by (auto simp: array_list_inv_def)
  with w have "?c \<noteq> al_capacity impl" "?c \<le> INT_MAX" "0 < ?c"
    using safe_double_fixpoint [of "al_capacity impl"] safe_double_le [of "al_capacity impl"]
      safe_double_ge [of "al_capacity impl"] by simp_all
  moreover obtain buf where "realloc_ptrs (al_items impl) (int ?c) w = (Some buf, w)"
    using realloc_ptrs_no_failures [OF w(1), of "int ?c"] \<open>?c \<le> INT_MAX\<close> by auto
  ultimately show ?thesis
    using False w by (simp add: array_ensure_capacity_def array_list_ready_def)
qed

section \<open>Behaviour of the operations\<close>

lemma create_array_list_inv:
  "is_int n \<Longrightarrow> create_array_list n w = (Some impl, w') \<Longrightarrow>
     array_list_inv impl \<and> array_list_items impl = [] \<and> al_capacity impl = nat n \<and> 0 \<le> n"
  by (auto simp: create_array_list_def array_list_inv_def array_list_items_def
        malloc_ptrs_length is_int_le_INT_MAX dest: malloc_ptrs_Some_nonneg
      split: prod.splits if_splits option.splits)

lemma array_list_insert_success:
  assumes inv: "array_list_inv impl"
    and ins: "array_list_insert impl x i w = (OVA_SUCCESS, impl', w')"
  shows "array_list_inv impl' \<and> 0 \<le> i \<and> i \<le> int (al_size impl) \<and>
     array_list_items impl' = insert_at (nat i) x (array_list_items impl)"
proof -
  from ins have i: "0 \<le> i" "i \<le> int (al_size impl)"
    by (auto simp: array_list_insert_def split: if_splits)
  with ins obtain impl1 where ens: "array_ensure_capacity impl w = (True, impl1, w')"
    and impl': "impl' = impl1\<lparr>al_items :=
        (memmove (al_items impl1) (Suc (nat i)) (nat i) (al_size impl1 - nat i))[nat i := x],
        al_size := Suc (al_size impl1)\<rparr>"
    by (auto simp: array_list_insert_def Let_def split: prod.splits bool.splits)
  note e = array_ensure_capacity_spec [OF inv ens]
  then have "nat i \<le> al_size impl1" "al_size impl1 < length (al_items impl1)"
    using i by (auto simp: array_list_inv_def)
  note this
  moreover have "take (al_size impl1) (al_items impl1) = array_list_items impl"
    using e by (metis array_list_items_def)
  moreover have "array_list_items impl' = take (Suc (al_size impl1))
      ((memmove (al_items impl1) (Suc (nat i)) (nat i) (al_size impl1 - nat i))[nat i := x])"
    using impl' by (simp add: array_list_items_def)
  moreover have "array_list_inv impl'"
    using impl' e \<open>nat i \<le> al_size impl1\<close> by (simp add: array_list_inv_def)
  ultimately show ?thesis
    using memmove_open_gap [of "nat i" "al_size impl1" "al_items impl1" x] i by simp
qed

lemma array_list_insert_error:
  assumes inv: "array_list_inv impl"
    and ins: "array_list_insert impl x i w = (e, impl', w')" and "e \<noteq> OVA_SUCCESS"
  shows "array_list_inv impl' \<and> array_list_items impl' = array_list_items impl \<and>
     (e = OVA_ERROR_MEMORY \<or> e = OVA_ERROR_INDEX_OUT_OF_BOUNDS)"
  using assms array_ensure_capacity_spec [OF inv]
  by (auto simp: array_list_insert_def Let_def split: prod.splits bool.splits if_splits)

lemma array_list_insert_outside:
  "i < 0 \<or> int (al_size impl) < i \<Longrightarrow>
     array_list_insert impl x i w = (OVA_ERROR_INDEX_OUT_OF_BOUNDS, impl, w)"
  by (auto simp: array_list_insert_def)

lemma array_list_insert_ready:
  assumes "array_list_inv impl" "array_list_ready impl w n" "al_size impl < n"
    "0 \<le> i" "i \<le> int (al_size impl)"
  shows "\<exists>impl' w'. array_list_insert impl x i w = (OVA_SUCCESS, impl', w')
           \<and> array_list_ready impl' w' n"
proof -
  obtain impl1 w1 where "array_ensure_capacity impl w = (True, impl1, w1)"
    "array_list_ready impl1 w1 n"
    using array_ensure_capacity_ready assms by blast
  with assms show ?thesis by (simp add: array_list_insert_def Let_def array_list_ready_def)
qed

lemma array_list_get_items:
  "array_list_inv impl \<Longrightarrow> array_list_get impl i = nth_ptr (array_list_items impl) i"
  by (auto simp: array_list_get_def nth_ptr_def array_list_items_def array_list_inv_def)

lemma array_list_remove_inside:
  assumes inv: "array_list_inv impl" and i: "0 \<le> i" "i < int (al_size impl)"
  shows "\<exists>impl'. array_list_remove impl i = (OVA_SUCCESS, impl') \<and> array_list_inv impl' \<and>
     array_list_items impl' = remove_at (nat i) (array_list_items impl)"
proof -
  have "nat i < al_size impl" "al_size impl \<le> length (al_items impl)"
    using assms by (auto simp: array_list_inv_def)
  from memmove_close_gap [OF this] assms show ?thesis
    by (auto simp: array_list_remove_def Let_def array_list_inv_def array_list_items_def)
qed

lemma array_list_remove_outside:
  "i < 0 \<or> int (al_size impl) \<le> i \<Longrightarrow>
     array_list_remove impl i = (OVA_ERROR_INDEX_OUT_OF_BOUNDS, impl)"
  by (auto simp: array_list_remove_def)

text \<open>A list created with capacity 0 can never hold an element: doubling 0 gives 0, which
  \<open>ensure_capacity\<close> takes for the maximum.\<close>

lemma array_list_insert_no_capacity:
  assumes "array_list_inv impl" "al_capacity impl = 0"
  shows "array_list_insert impl x 0 w = (OVA_ERROR_MEMORY, impl, w)"
  using assms
  by (simp add: array_list_insert_def array_ensure_capacity_def safe_double_capacity_def
      array_list_inv_def)

section \<open>The array list is a positional list\<close>

interpretation al: positional_list array_list_insert "\<lambda>l i. (array_list_get l i, l)"
  array_list_remove "\<lambda>l. array_list_size (Some l)" "\<lambda>l. the (array_list_clear (Some l))"
  array_list_inv array_list_items array_list_ready
proof unfold_locales
  fix l l' :: "'a array_list" and x i w w' e
  assume inv: "array_list_inv l" and ins: "array_list_insert l x i w = (e, l', w')"
  then show "array_list_inv l'"
    using array_list_insert_success array_list_insert_error by (cases "e = OVA_SUCCESS") blast+
next
  fix l l' :: "'a array_list" and x i w w'
  assume inv: "array_list_inv l" and ins: "array_list_insert l x i w = (OVA_SUCCESS, l', w')"
  from array_list_insert_success [OF this]
  show "mset (array_list_items l') = add_mset x (mset (array_list_items l))"
    and "0 \<le> i \<and> i \<le> int (length (array_list_items l)) \<and>
         array_list_items l' = insert_at (nat i) x (array_list_items l)"
    using inv by simp_all
next
  fix l :: "'a array_list" and x w n i
  assume "array_list_inv l" "array_list_ready l w n" "length (array_list_items l) < n"
    "0 \<le> i" "i \<le> int (length (array_list_items l))"
  then show "\<exists>l' w'. array_list_insert l x i w = (OVA_SUCCESS, l', w') \<and> array_list_ready l' w' n"
    by (simp add: array_list_insert_ready)
next
  fix l :: "'a array_list" and i
  assume "array_list_inv l" "0 \<le> i" "i < int (length (array_list_items l))"
  then show "\<exists>l'. array_list_remove l i = (OVA_SUCCESS, l') \<and> array_list_inv l' \<and>
       array_list_items l' = remove_at (nat i) (array_list_items l)"
    by (simp add: array_list_remove_inside)
qed (auto simp: array_list_insert_outside array_list_remove_outside array_list_get_items
      array_list_ready_def dest: array_list_insert_error,
     auto simp: array_list_inv_def array_list_items_def)

section \<open>Properties\<close>

text \<open>An array list grows as long as memory and the range of \<open>int\<close> allow: with a positive
  capacity and a willing allocator an insertion at any index inside the list succeeds up to
  \<open>INT_MAX\<close> elements. A list that was created with capacity 0 is the exception: doubling 0 gives
  0, which is read as the maximum, so every insertion fails for lack of memory.\<close>

theorem array_list_insert_succeeds_iff:
  assumes "array_list_inv impl" "alloc_fails w = []" "al_size impl < INT_MAX"
    "0 \<le> i" "i \<le> int (al_size impl)"
  shows "fst (array_list_insert impl x i w) =
     (if al_capacity impl = 0 then OVA_ERROR_MEMORY else OVA_SUCCESS)"
proof (cases "al_capacity impl = 0")
  case True
  moreover from this have "i = 0" using assms by (auto simp: array_list_inv_def)
  ultimately show ?thesis using array_list_insert_no_capacity [OF assms(1)] by simp
next
  case False
  then have "array_list_ready impl w (Suc (al_size impl))"
    using assms by (simp add: array_list_ready_def)
  from array_list_insert_ready [OF assms(1) this _ assms(4,5), of x] False show ?thesis by auto
qed

theorem array_list_insert_succeeds_iff_witness:
  "fst (array_list_insert \<lparr>al_items = [], al_size = 0, al_capacity = 0\<rparr> (Some (1::nat)) 0 fresh_world)
     = OVA_ERROR_MEMORY \<and>
   fst (array_list_insert \<lparr>al_items = [Some 7], al_size = 1, al_capacity = 1\<rparr> (Some (1::nat)) 0
     fresh_world) = OVA_SUCCESS"
  using array_list_insert_succeeds_iff
      [of "\<lparr>al_items = [], al_size = 0, al_capacity = 0\<rparr>" fresh_world 0 "Some (1::nat)"]
    array_list_insert_succeeds_iff
      [of "\<lparr>al_items = [Some 7], al_size = 1, al_capacity = 1\<rparr>" fresh_world 0 "Some (1::nat)"]
  by (simp add: array_list_inv_def INT_MAX_def)

end
