(* ===== verification/Linked_List.thy ===== *)
theory Linked_List
  imports List_Iface
begin

text \<open>
  The doubly linked backend of the list, \<open>src/list/linked_list.c\<close>, over an explicit store of
  nodes: an address is a \<open>nat\<close>, \<open>malloc\<close> hands out the next unused one and \<open>free\<close> removes
  the node from the store, so a dangling pointer would be a pointer outside the store. The
  invariant says that the nodes reachable from \<open>head\<close> form a doubly linked chain ending in
  \<open>tail\<close>, that they are all the nodes there are (no leak), and that the cursor cache of the
  getter, when valid, points at the node with the cached index.
\<close>

section \<open>State\<close>

record 'a linked_list_node =
  node_data :: "'a ptr"
  node_next :: "nat option"
  node_prev :: "nat option"

type_synonym 'a node_store = "nat \<Rightarrow> 'a linked_list_node option"

record 'a linked_list =
  ll_store :: "'a node_store"
  ll_brk :: nat
  ll_head :: "nat option"
  ll_tail :: "nat option"
  ll_size :: nat
  ll_cursor_node :: "nat option"
  ll_cursor_index :: int

definition node_at :: "'a node_store \<Rightarrow> nat \<Rightarrow> 'a linked_list_node" where
  "node_at s a = the (s a)"

definition set_next :: "'a node_store \<Rightarrow> nat \<Rightarrow> nat option \<Rightarrow> 'a node_store" where
  "set_next s a n = s(a := Some ((node_at s a)\<lparr>node_next := n\<rparr>))"

definition set_prev :: "'a node_store \<Rightarrow> nat \<Rightarrow> nat option \<Rightarrow> 'a node_store" where
  "set_prev s a p = s(a := Some ((node_at s a)\<lparr>node_prev := p\<rparr>))"

section \<open>Operations\<close>

definition create_linked_list :: "'a world \<Rightarrow> 'a linked_list option \<times> 'a world" where
  "create_linked_list w =
     (case malloc_struct w of (lst, w1) \<Rightarrow>
      case malloc_struct w1 of (impl, w2) \<Rightarrow>
        if lst \<and> impl then
          (Some \<lparr>ll_store = Map.empty, ll_brk = 0, ll_head = None, ll_tail = None, ll_size = 0,
                 ll_cursor_node = None, ll_cursor_index = -1\<rparr>, w2)
        else (None, w2))"

text \<open>The pointer walks: \<open>while (current && start < index) \<lbrace> current = current->next; start++; \<rbrace>\<close>
  and its mirror image. The search loop of \<open>insert\<close>, which stops at \<open>current_index == index\<close>
  and steps towards \<open>index\<close> from one end, and the two \<open>for\<close> loops of \<open>remove\<close> are the same
  walks.\<close>

function seek_fwd :: "'a node_store \<Rightarrow> nat option \<Rightarrow> int \<Rightarrow> int \<Rightarrow> nat option \<times> int" where
  "seek_fwd s current start index =
     (case current of
        None \<Rightarrow> (None, start)
      | Some a \<Rightarrow>
          (if start < index then seek_fwd s (node_next (node_at s a)) (start + 1) index
           else (Some a, start)))"
  by pat_completeness auto
termination by (relation "measure (\<lambda>(s, c, start, index). nat (index - start))") auto

function seek_bwd :: "'a node_store \<Rightarrow> nat option \<Rightarrow> int \<Rightarrow> int \<Rightarrow> nat option \<times> int" where
  "seek_bwd s current start index =
     (case current of
        None \<Rightarrow> (None, start)
      | Some a \<Rightarrow>
          (if start > index then seek_bwd s (node_prev (node_at s a)) (start - 1) index
           else (Some a, start)))"
  by pat_completeness auto
termination by (relation "measure (\<lambda>(s, c, start, index). nat (start - index))") auto

declare seek_fwd.simps [simp del] seek_bwd.simps [simp del]

text \<open>The search for the node at an index from the nearer end, as \<open>insert\<close> and \<open>remove\<close> do it.\<close>

definition nearer_end :: "'a linked_list \<Rightarrow> int \<Rightarrow> nat option" where
  "nearer_end impl index =
     (if index < int (ll_size impl div 2) then fst (seek_fwd (ll_store impl) (ll_head impl) 0 index)
      else fst (seek_bwd (ll_store impl) (ll_tail impl) (int (ll_size impl) - 1) index))"

definition linked_list_insert ::
  "'a linked_list \<Rightarrow> 'a ptr \<Rightarrow> int \<Rightarrow> 'a world \<Rightarrow> ova_error_code \<times> 'a linked_list \<times> 'a world" where
  "linked_list_insert impl item index w =
     (if index < 0 \<or> index > int (ll_size impl) then (OVA_ERROR_INDEX_OUT_OF_BOUNDS, impl, w)
      else (case malloc_struct w of
          (False, w') \<Rightarrow> (OVA_ERROR_MEMORY, impl, w')
        | (True, w') \<Rightarrow>
          (let new_node = ll_brk impl;
               s = (ll_store impl)(new_node \<mapsto>
                     \<lparr>node_data = item, node_next = None, node_prev = None\<rparr>);
               impl = impl\<lparr>ll_brk := new_node + 1, ll_cursor_node := None, ll_cursor_index := -1\<rparr>;
               impl' =
                (if index = 0 then
                   (case ll_head impl of
                      None \<Rightarrow> impl\<lparr>ll_store := s, ll_head := Some new_node, ll_tail := Some new_node\<rparr>
                    | Some h \<Rightarrow>
                        impl\<lparr>ll_store := set_prev (set_next s new_node (ll_head impl)) h (Some new_node),
                             ll_head := Some new_node\<rparr>)
                 else if index = int (ll_size impl) then
                   (let s = set_prev s new_node (ll_tail impl) in
                    impl\<lparr>ll_store := (case ll_tail impl of
                                         None \<Rightarrow> s
                                       | Some t \<Rightarrow> set_next s t (Some new_node)),
                         ll_tail := Some new_node\<rparr>)
                 else
                   (case nearer_end impl index of
                      None \<Rightarrow> impl\<lparr>ll_store := s\<rparr>
                    | Some current \<Rightarrow>
                       (let p = node_prev (node_at (ll_store impl) current);
                            s = set_prev (set_next s new_node (Some current)) new_node p;
                            s = (case p of None \<Rightarrow> s | Some pa \<Rightarrow> set_next s pa (Some new_node))
                        in impl\<lparr>ll_store := set_prev s current (Some new_node),
                                ll_head := (if index = 0 then Some new_node else ll_head impl),
                                ll_tail := (if index = int (ll_size impl) then Some new_node
                                            else ll_tail impl)\<rparr>)))
           in (OVA_SUCCESS, impl'\<lparr>ll_size := ll_size impl + 1\<rparr>, w'))))"

definition linked_list_get :: "'a linked_list \<Rightarrow> int \<Rightarrow> 'a ptr \<times> 'a linked_list" where
  "linked_list_get impl index =
     (if index < 0 \<or> index \<ge> int (ll_size impl) then (NULL, impl)
      else
       (let dist_head = index;
            dist_tail = int (ll_size impl) - 1 - index;
            best = (if dist_head < dist_tail then dist_head else dist_tail);
            use_cursor = (ll_cursor_node impl \<noteq> None \<and> ll_cursor_index impl \<ge> 0 \<and>
                          \<bar>index - ll_cursor_index impl\<bar> < best);
            (current, start_index) =
              (if use_cursor then (ll_cursor_node impl, ll_cursor_index impl)
               else if dist_head \<le> dist_tail then (ll_head impl, 0)
               else (ll_tail impl, int (ll_size impl) - 1));
            (current, start_index) = seek_fwd (ll_store impl) current start_index index;
            (current, start_index) = seek_bwd (ll_store impl) current start_index index
        in (case current of
              Some a \<Rightarrow> (node_data (node_at (ll_store impl) a),
                         impl\<lparr>ll_cursor_node := Some a, ll_cursor_index := index\<rparr>)
            | None \<Rightarrow> (NULL, impl))))"

definition linked_list_remove ::
  "'a linked_list \<Rightarrow> int \<Rightarrow> ova_error_code \<times> 'a linked_list" where
  "linked_list_remove impl index =
     (if index < 0 \<or> index \<ge> int (ll_size impl) then (OVA_ERROR_INDEX_OUT_OF_BOUNDS, impl)
      else
       (let impl = impl\<lparr>ll_cursor_node := None, ll_cursor_index := -1\<rparr> in
        (case nearer_end impl index of
           None \<Rightarrow> (OVA_SUCCESS, impl)
         | Some current \<Rightarrow>
            (let s = ll_store impl;
                 p = node_prev (node_at s current);
                 n = node_next (node_at s current);
                 s = (case p of None \<Rightarrow> s | Some pa \<Rightarrow> set_next s pa n);
                 s = (case n of None \<Rightarrow> s | Some na \<Rightarrow> set_prev s na p)
             in (OVA_SUCCESS,
                 impl\<lparr>ll_head := (if p = None then n else ll_head impl),
                      ll_tail := (if n = None then p else ll_tail impl),
                      ll_store := s(current := None),
                      ll_size := ll_size impl - 1\<rparr>)))))"

fun linked_list_size :: "'a linked_list option \<Rightarrow> int" where
  "linked_list_size None = 0"
| "linked_list_size (Some impl) = int (ll_size impl)"

text \<open>\<open>while (current) \<lbrace> next = current->next; free(current); current = next; \<rbrace>\<close>, with the
  number of nodes as fuel (see \<open>free_chain_all\<close>: it frees every node).\<close>

fun free_chain :: "nat \<Rightarrow> 'a node_store \<Rightarrow> nat option \<Rightarrow> 'a node_store" where
  "free_chain _ s None = s"
| "free_chain 0 s (Some a) = s"
| "free_chain (Suc n) s (Some a) = free_chain n (s(a := None)) (node_next (node_at s a))"

fun linked_list_clear :: "'a linked_list option \<Rightarrow> 'a linked_list option" where
  "linked_list_clear None = None"
| "linked_list_clear (Some impl) =
     Some (impl\<lparr>ll_store := free_chain (ll_size impl) (ll_store impl) (ll_head impl),
                ll_head := None, ll_tail := None, ll_size := 0,
                ll_cursor_node := None, ll_cursor_index := -1\<rparr>)"

text \<open>\<open>free\<close> runs the same loop and then releases the object; what it leaves behind is the
  store.\<close>

definition linked_list_free :: "'a linked_list \<Rightarrow> 'a node_store" where
  "linked_list_free impl = free_chain (ll_size impl) (ll_store impl) (ll_head impl)"

section \<open>Doubly linked segments\<close>

text \<open>\<open>dseg s p c as q n\<close>: starting at pointer \<open>c\<close>, whose predecessor is \<open>p\<close>, the nodes at
  the addresses \<open>as\<close> follow each other by \<open>next\<close> and \<open>prev\<close>, ending with last node \<open>q\<close> and
  following pointer \<open>n\<close>.\<close>

primrec dseg ::
  "'a node_store \<Rightarrow> nat option \<Rightarrow> nat option \<Rightarrow> nat list \<Rightarrow> nat option \<Rightarrow> nat option \<Rightarrow> bool" where
  "dseg s p c [] q n \<longleftrightarrow> q = p \<and> n = c"
| "dseg s p c (a # as) q n \<longleftrightarrow> c = Some a \<and>
     (\<exists>nd. s a = Some nd \<and> node_prev nd = p \<and> dseg s (Some a) (node_next nd) as q n)"

lemma dseg_append [simp]:
  "dseg s p c (as @ bs) q n \<longleftrightarrow> (\<exists>q' c'. dseg s p c as q' c' \<and> dseg s q' c' bs q n)"
  by (induction as arbitrary: p c) auto

lemma dseg_upd [simp]: "a \<notin> set as \<Longrightarrow> dseg (s(a := v)) p c as q n = dseg s p c as q n"
  by (induction as arbitrary: p c) auto

lemma dseg_ends: "dseg s p c as q n \<Longrightarrow> as \<noteq> [] \<Longrightarrow> c = Some (hd as) \<and> q = Some (last as)"
  by (induction as arbitrary: p c) (auto split: if_splits)

lemma dseg_nth:
  "dseg s p c as q n \<Longrightarrow> k < length as \<Longrightarrow>
     \<exists>nd. s (as ! k) = Some nd \<and>
       node_next nd = (if Suc k < length as then Some (as ! Suc k) else n) \<and>
       node_prev nd = (if k = 0 then p else Some (as ! (k - 1)))"
proof (induction as arbitrary: p c k)
  case Nil
  then show ?case by simp
next
  case (Cons a as)
  show ?case
  proof (cases k)
    case 0
    with Cons.prems show ?thesis by (cases as) auto
  next
    case (Suc j)
    then obtain nd where "s a = Some nd" "dseg s (Some a) (node_next nd) as q n"
      using Cons.prems by auto
    with Cons.IH [of "Some a" "node_next nd" j] Cons.prems(2) Suc show ?thesis
      by (auto simp: nth_Cons')
  qed
qed

text \<open>The addresses of a list, read off by walking from the head.\<close>

fun walk :: "nat \<Rightarrow> 'a node_store \<Rightarrow> nat option \<Rightarrow> nat list" where
  "walk _ s None = []"
| "walk 0 s (Some a) = []"
| "walk (Suc n) s (Some a) = a # walk n s (node_next (node_at s a))"

lemma walk_dseg: "dseg s p c as q None \<Longrightarrow> walk (length as) s c = as"
  by (induction as arbitrary: p c) (auto simp: node_at_def)

definition ll_addrs :: "'a linked_list \<Rightarrow> nat list" where
  "ll_addrs impl = walk (ll_size impl) (ll_store impl) (ll_head impl)"

section \<open>Invariant and abstraction\<close>

definition ll_chain :: "'a linked_list \<Rightarrow> nat list \<Rightarrow> bool" where
  "ll_chain impl as \<longleftrightarrow>
     dseg (ll_store impl) None (ll_head impl) as (ll_tail impl) None \<and> distinct as \<and>
     dom (ll_store impl) = set as \<and> (\<forall>a \<in> set as. a < ll_brk impl) \<and> ll_size impl = length as"

definition cursor_ok :: "'a linked_list \<Rightarrow> nat list \<Rightarrow> bool" where
  "cursor_ok impl as \<longleftrightarrow>
     (case ll_cursor_node impl of
        None \<Rightarrow> True
      | Some a \<Rightarrow> 0 \<le> ll_cursor_index impl \<longrightarrow>
          nat (ll_cursor_index impl) < length as \<and> as ! nat (ll_cursor_index impl) = a)"

definition linked_list_inv :: "'a linked_list \<Rightarrow> bool" where
  "linked_list_inv impl \<longleftrightarrow> ll_chain impl (ll_addrs impl) \<and> cursor_ok impl (ll_addrs impl)"

definition linked_list_items :: "'a linked_list \<Rightarrow> 'a ptr list" where
  "linked_list_items impl = map (\<lambda>a. node_data (node_at (ll_store impl) a)) (ll_addrs impl)"

definition linked_list_ready :: "'a linked_list \<Rightarrow> 'a world \<Rightarrow> nat \<Rightarrow> bool" where
  "linked_list_ready impl w n \<longleftrightarrow> alloc_fails w = []"

lemma ll_chain_addrs: "ll_chain impl as \<Longrightarrow> ll_addrs impl = as"
  unfolding ll_chain_def ll_addrs_def by (metis walk_dseg)

lemma linked_list_invI: "ll_chain impl as \<Longrightarrow> cursor_ok impl as \<Longrightarrow> linked_list_inv impl"
  by (simp add: linked_list_inv_def ll_chain_addrs)

lemma linked_list_items_chain:
  "ll_chain impl as \<Longrightarrow>
     linked_list_items impl = map (\<lambda>a. node_data (node_at (ll_store impl) a)) as"
  by (simp add: linked_list_items_def ll_chain_addrs)

lemma linked_list_inv_size [simp]:
  "linked_list_inv impl \<Longrightarrow> length (linked_list_items impl) = ll_size impl"
  by (simp add: linked_list_inv_def linked_list_items_def ll_chain_def)

text \<open>A node of the chain, with its neighbours.\<close>

lemma ll_chain_nth:
  assumes "ll_chain impl as" "k < length as"
  shows "\<exists>d. ll_store impl (as ! k) = Some \<lparr>node_data = d,
     node_next = (if Suc k < length as then Some (as ! Suc k) else None),
     node_prev = (if k = 0 then None else Some (as ! (k - 1)))\<rparr>"
proof -
  obtain nd where "ll_store impl (as ! k) = Some nd"
    "node_next nd = (if Suc k < length as then Some (as ! Suc k) else None)"
    "node_prev nd = (if k = 0 then None else Some (as ! (k - 1)))"
    using dseg_nth [of "ll_store impl" None "ll_head impl" as "ll_tail impl" None k] assms
    by (auto simp: ll_chain_def)
  then show ?thesis by (intro exI [of _ "node_data nd"]) simp
qed

section \<open>The walks reach the node they look for\<close>

lemma node_at_upd [simp]: "node_at (s(a := Some nd)) b = (if b = a then nd else node_at s b)"
  by (simp add: node_at_def)

lemma node_data_set [simp]:
  "node_data (node_at (set_next s a n) b) = node_data (node_at s b)"
  "node_data (node_at (set_prev s a n) b) = node_data (node_at s b)"
  by (simp_all add: set_next_def set_prev_def)

lemma set_new [simp]:
  "set_next (s(a := Some nd)) a n = s(a := Some (nd\<lparr>node_next := n\<rparr>))"
  "set_prev (s(a := Some nd)) a n = s(a := Some (nd\<lparr>node_prev := n\<rparr>))"
  by (simp_all add: set_next_def set_prev_def)

lemma dom_set [simp]:
  "dom (set_next s a n) = insert a (dom s)" "dom (set_prev s a n) = insert a (dom s)"
  by (simp_all add: set_next_def set_prev_def)

lemma ll_chain_head_tail:
  "ll_chain impl as \<Longrightarrow> as \<noteq> [] \<Longrightarrow>
     ll_head impl = Some (as ! 0) \<and> ll_tail impl = Some (as ! (length as - 1))"
  using dseg_ends [of "ll_store impl" None "ll_head impl" as "ll_tail impl" None]
  by (simp add: ll_chain_def hd_conv_nth last_conv_nth)

lemma seek_fwd_chain:
  assumes chain: "ll_chain impl as"
  shows "i \<le> j \<Longrightarrow> j < length as \<Longrightarrow>
     seek_fwd (ll_store impl) (Some (as ! i)) (int i) (int j) = (Some (as ! j), int j)"
proof (induction "j - i" arbitrary: i)
  case 0
  then show ?case by (simp add: seek_fwd.simps)
next
  case (Suc d)
  then have "node_next (node_at (ll_store impl) (as ! i)) = Some (as ! Suc i)"
    using ll_chain_nth [OF chain, of i] by (auto simp: node_at_def)
  moreover have "seek_fwd (ll_store impl) (Some (as ! Suc i)) (int (Suc i)) (int j)
      = (Some (as ! j), int j)"
    using Suc by (intro Suc.hyps(1)) auto
  ultimately show ?case
    using Suc by (subst seek_fwd.simps) (simp add: add.commute)
qed

lemma seek_bwd_chain:
  assumes chain: "ll_chain impl as"
  shows "j \<le> i \<Longrightarrow> i < length as \<Longrightarrow>
     seek_bwd (ll_store impl) (Some (as ! i)) (int i) (int j) = (Some (as ! j), int j)"
proof (induction "i - j" arbitrary: i)
  case 0
  then show ?case by (simp add: seek_bwd.simps)
next
  case (Suc d)
  then have "node_prev (node_at (ll_store impl) (as ! i)) = Some (as ! (i - 1))"
    using ll_chain_nth [OF chain, of i] by (auto simp: node_at_def)
  moreover have "seek_bwd (ll_store impl) (Some (as ! (i - 1))) (int (i - 1)) (int j)
      = (Some (as ! j), int j)"
    using Suc by (intro Suc.hyps(1)) auto
  ultimately show ?case
    using Suc by (subst seek_bwd.simps) (simp add: of_nat_diff)
qed

lemma seek_fwd_past: "index \<le> start \<Longrightarrow> seek_fwd s c start index = (c, start)"
  by (subst seek_fwd.simps) (simp split: option.split)

lemma seek_bwd_past: "start \<le> index \<Longrightarrow> seek_bwd s c start index = (c, start)"
  by (subst seek_bwd.simps) (simp split: option.split)

lemma nearer_end_frame [simp]:
  "nearer_end (impl\<lparr>ll_brk := b\<rparr>) i = nearer_end impl i"
  "nearer_end (impl\<lparr>ll_cursor_node := c\<rparr>) i = nearer_end impl i"
  "nearer_end (impl\<lparr>ll_cursor_index := j\<rparr>) i = nearer_end impl i"
  by (simp_all add: nearer_end_def)

lemma nearer_end_chain:
  assumes "ll_chain impl as" "k < length as"
  shows "nearer_end impl (int k) = Some (as ! k)"
proof -
  have "as \<noteq> []" using assms(2) by auto
  note ends = ll_chain_head_tail [OF assms(1) this]
  have "int (ll_size impl) - 1 = int (length as - 1)"
    using assms by (simp add: ll_chain_def of_nat_diff)
  then show ?thesis
    using ends seek_fwd_chain [OF assms(1), of 0 k] assms(2)
      seek_bwd_chain [OF assms(1), of k "length as - 1"]
    by (simp add: nearer_end_def)
qed

section \<open>Splicing a chain\<close>

lemma dseg_link_front:
  "dseg s None (Some h) (h # ys) q n \<Longrightarrow> a \<notin> set (h # ys) \<Longrightarrow> distinct (h # ys) \<Longrightarrow>
     node_prev nd = None \<Longrightarrow> node_next nd = Some h \<Longrightarrow>
     dseg (set_prev (s(a := Some nd)) h (Some a)) None (Some a) (a # h # ys) q n"
  by (auto simp: set_prev_def node_at_def)

lemma dseg_link_back:
  "dseg s p h (xs @ [t]) (Some t) None \<Longrightarrow> a \<notin> set (xs @ [t]) \<Longrightarrow> distinct (xs @ [t]) \<Longrightarrow>
     node_prev nd = Some t \<Longrightarrow> node_next nd = None \<Longrightarrow>
     dseg (set_next (s(a := Some nd)) t (Some a)) p h (xs @ [t, a]) (Some a) None"
  by (auto simp: set_next_def node_at_def)

lemma dseg_link_middle:
  "dseg s p h (xs @ pa # c # ys) q n \<Longrightarrow> a \<notin> set (xs @ pa # c # ys) \<Longrightarrow>
     distinct (xs @ pa # c # ys) \<Longrightarrow> node_prev nd = Some pa \<Longrightarrow> node_next nd = Some c \<Longrightarrow>
     dseg (set_prev (set_next (s(a := Some nd)) pa (Some a)) c (Some a)) p h
       (xs @ pa # a # c # ys) q n"
  by (auto simp: set_next_def set_prev_def node_at_def)

lemma dom_link:
  assumes "dom s = A"
  shows "h \<in> A \<Longrightarrow> dom (set_prev (s(n := Some nd)) h v) = insert n A"
    and "h \<in> A \<Longrightarrow> dom (set_next (s(n := Some nd)) h v) = insert n A"
    and "h \<in> A \<Longrightarrow> c \<in> A \<Longrightarrow> dom (set_prev (set_next (s(n := Some nd)) h v) c u) = insert n A"
  using assms by (auto simp: insert_absorb)

section \<open>Behaviour of the operations\<close>

lemma create_linked_list_inv:
  "create_linked_list w = (Some impl, w') \<Longrightarrow>
     linked_list_inv impl \<and> linked_list_items impl = []"
  by (auto simp: create_linked_list_def linked_list_inv_def ll_chain_def ll_addrs_def cursor_ok_def
        linked_list_items_def split: prod.splits if_splits)

lemma linked_list_insert_outside:
  "i < 0 \<or> int (ll_size impl) < i \<Longrightarrow>
     linked_list_insert impl x i w = (OVA_ERROR_INDEX_OUT_OF_BOUNDS, impl, w)"
  by (auto simp: linked_list_insert_def)

lemma linked_list_insert_no_memory:
  "0 \<le> i \<Longrightarrow> i \<le> int (ll_size impl) \<Longrightarrow> malloc_struct w = (False, w') \<Longrightarrow>
     linked_list_insert impl x i w = (OVA_ERROR_MEMORY, impl, w')"
  by (simp add: linked_list_insert_def)

text \<open>The chain after an insertion: the new address sits at the requested position, and the
  cursor is reset.\<close>

lemma linked_list_insert_chain:
  assumes chain: "ll_chain impl as" and k: "k \<le> length as"
    and ok: "malloc_struct w = (True, w')"
    and ins: "linked_list_insert impl x (int k) w = (e, impl', w'')"
  shows "e = OVA_SUCCESS \<and> w'' = w' \<and> ll_cursor_node impl' = None \<and>
     ll_chain impl' (insert_at k (ll_brk impl) as) \<and>
     node_data (node_at (ll_store impl') (ll_brk impl)) = x \<and>
     (\<forall>a \<in> set as. node_data (node_at (ll_store impl') a) = node_data (node_at (ll_store impl) a))"
proof -
  let ?new = "ll_brk impl"
  have facts: "dseg (ll_store impl) None (ll_head impl) as (ll_tail impl) None" "distinct as"
    "dom (ll_store impl) = set as" "ll_size impl = length as" "?new \<notin> set as"
    "\<forall>a \<in> set as. a < ?new"
    using chain by (auto simp: ll_chain_def)
  consider (empty) "k = 0" "as = []" | (front) h ys where "k = 0" "as = h # ys"
    | (at_end) xs t where "k = length as" "as = xs @ [t]" "k \<noteq> 0"
    | (middle) xs pa c ys where "as = xs @ pa # c # ys" "k = Suc (length xs)"
  proof (cases "k = 0 \<or> k = length as")
    case True
    then show ?thesis
      using empty front at_end [of "butlast as" "last as"] by (cases as) (auto split: if_splits)
  next
    case False
    then have "k < length as" "k - 1 < length as" "Suc (k - 1) = k" using k by auto
    then have "as = take (k - 1) as @ as ! (k - 1) # as ! k # drop (Suc k) as"
      by (metis Cons_nth_drop_Suc append_take_drop_id)
    then show ?thesis using middle [of "take (k - 1) as"] \<open>k < length as\<close> False by auto
  qed
  then show ?thesis
  proof cases
    case empty
    then show ?thesis
      using facts ins ok
      by (auto simp: linked_list_insert_def ll_chain_def Let_def split: if_splits)
  next
    case front
    then have h: "ll_head impl = Some h" using facts by simp
    note seg = dseg_link_front [of "ll_store impl" h ys "ll_tail impl" None ?new]
    note dom = dom_link(1) [OF facts(3), of h]
    let ?s = "set_prev ((ll_store impl)(?new \<mapsto>
        \<lparr>node_data = x, node_next = Some h, node_prev = None\<rparr>)) h (Some ?new)"
    have "linked_list_insert impl x (int k) w = (OVA_SUCCESS,
        impl\<lparr>ll_store := ?s, ll_brk := Suc ?new, ll_head := Some ?new, ll_size := Suc (ll_size impl),
             ll_cursor_node := None, ll_cursor_index := -1\<rparr>, w')" (is "_ = (_, ?T, _)")
      using ok h front by (simp add: linked_list_insert_def Let_def)
    then have "e = OVA_SUCCESS" "w'' = w'" and T: "impl' = ?T" using ins by simp_all
    then show ?thesis
      unfolding T using facts h front seg dom
      by (simp add: ll_chain_def less_Suc_eq del: dseg.simps dom_set)
  next
    case at_end
    then have t: "ll_tail impl = Some t" using dseg_ends [OF facts(1)] by simp
    note seg = dseg_link_back [of "ll_store impl" None "ll_head impl" xs t ?new]
    note dom = dom_link(2) [OF facts(3), of t]
    let ?s = "set_next ((ll_store impl)(?new \<mapsto>
        \<lparr>node_data = x, node_next = None, node_prev = Some t\<rparr>)) t (Some ?new)"
    have "linked_list_insert impl x (int k) w = (OVA_SUCCESS,
        impl\<lparr>ll_store := ?s, ll_brk := Suc ?new, ll_tail := Some ?new, ll_size := Suc (ll_size impl),
             ll_cursor_node := None, ll_cursor_index := -1\<rparr>, w')" (is "_ = (_, ?T, _)")
      using ok t at_end facts(4) by (simp add: linked_list_insert_def Let_def)
    then have "e = OVA_SUCCESS" "w'' = w'" and T: "impl' = ?T" using ins by simp_all
    then show ?thesis
      unfolding T using facts t at_end seg dom
      by (simp add: ll_chain_def less_Suc_eq insert_at_def del: dseg_append dseg.simps dom_set) auto
  next
    case middle
    have c: "nearer_end impl (int k) = Some c"
      using nearer_end_chain [OF chain, of k] middle by (simp add: nth_append)
    have pa: "node_prev (node_at (ll_store impl) c) = Some pa"
      using ll_chain_nth [OF chain, of k] middle by (auto simp: node_at_def nth_append)
    note seg = dseg_link_middle
      [of "ll_store impl" None "ll_head impl" xs pa c ys "ll_tail impl" None ?new]
    note dom = dom_link(3) [OF facts(3), of pa c]
    let ?s = "set_prev (set_next ((ll_store impl)(?new \<mapsto>
        \<lparr>node_data = x, node_next = Some c, node_prev = Some pa\<rparr>)) pa (Some ?new)) c (Some ?new)"
    have "linked_list_insert impl x (int k) w = (OVA_SUCCESS,
        impl\<lparr>ll_store := ?s, ll_brk := Suc ?new, ll_size := Suc (ll_size impl),
             ll_cursor_node := None, ll_cursor_index := -1\<rparr>, w')" (is "_ = (_, ?T, _)")
      using ok c pa middle facts(4) by (simp add: linked_list_insert_def Let_def)
    then have "e = OVA_SUCCESS" "w'' = w'" and T: "impl' = ?T" using ins by simp_all
    then show ?thesis
      unfolding T using facts middle seg dom
      by (simp add: ll_chain_def less_Suc_eq insert_at_def del: dseg_append dseg.simps dom_set) auto
  qed
qed

lemma map_data_insert_at:
  assumes "\<forall>a \<in> set as. f' a = f a"
  shows "map f' (insert_at k n as) = insert_at k (f' n) (map f as)"
proof -
  have "map f' (take k as) = map f (take k as)" "map f' (drop k as) = map f (drop k as)"
    using assms by (auto dest: in_set_takeD in_set_dropD)
  then show ?thesis by (simp add: insert_at_def take_map drop_map)
qed

lemma linked_list_insert_success:
  assumes inv: "linked_list_inv impl" and i: "0 \<le> i" "i \<le> int (ll_size impl)"
    and ok: "malloc_struct w = (True, w')"
  shows "\<exists>impl'. linked_list_insert impl x i w = (OVA_SUCCESS, impl', w') \<and>
     linked_list_inv impl' \<and>
     linked_list_items impl' = insert_at (nat i) x (linked_list_items impl)"
proof -
  let ?as = "ll_addrs impl"
  have chain: "ll_chain impl ?as" using inv by (simp add: linked_list_inv_def)
  then have k: "nat i \<le> length ?as" using i by (simp add: ll_chain_def)
  obtain e impl' w'' where ins: "linked_list_insert impl x (int (nat i)) w = (e, impl', w'')"
    by (metis prod_cases3)
  note new = linked_list_insert_chain [OF chain k ok ins]
  then have chain': "ll_chain impl' (insert_at (nat i) (ll_brk impl) ?as)" by blast
  from new have "linked_list_inv impl'"
    by (intro linked_list_invI) (auto simp: cursor_ok_def)
  moreover have "linked_list_items impl' = insert_at (nat i) x (linked_list_items impl)"
    using new map_data_insert_at
      [of ?as "\<lambda>a. node_data (node_at (ll_store impl') a)" "\<lambda>a. node_data (node_at (ll_store impl) a)"]
    by (simp add: linked_list_items_chain [OF chain] linked_list_items_chain [OF chain'])
  ultimately show ?thesis using new ins i by auto
qed

lemma linked_list_insert_cases:
  assumes inv: "linked_list_inv impl" and ins: "linked_list_insert impl x i w = (e, impl', w')"
  shows "linked_list_inv impl' \<and>
     (e = OVA_SUCCESS \<and> 0 \<le> i \<and> i \<le> int (ll_size impl) \<and>
        linked_list_items impl' = insert_at (nat i) x (linked_list_items impl) \<or>
      (e = OVA_ERROR_MEMORY \<or> e = OVA_ERROR_INDEX_OUT_OF_BOUNDS) \<and> impl' = impl)"
proof (cases "0 \<le> i \<and> i \<le> int (ll_size impl)")
  case False
  then show ?thesis
    using ins inv linked_list_insert_outside [of i impl x w] by auto
next
  case True
  then show ?thesis
    using inv ins linked_list_insert_success [OF inv, of i w _ x]
      linked_list_insert_no_memory [of i impl w _ x]
    by (cases "malloc_struct w"; cases "fst (malloc_struct w)") auto
qed

text \<open>The getter: whichever of the three starting points it picks, it arrives at the node with the
  requested index, and leaves the cursor there.\<close>

lemma linked_list_get_inside:
  assumes inv: "linked_list_inv impl" and i: "0 \<le> i" "i < int (ll_size impl)"
  shows "linked_list_get impl i =
     (linked_list_items impl ! nat i,
      impl\<lparr>ll_cursor_node := Some (ll_addrs impl ! nat i), ll_cursor_index := i\<rparr>)"
proof -
  let ?as = "ll_addrs impl"
  let ?k = "nat i"
  have chain: "ll_chain impl ?as" and cur: "cursor_ok impl ?as"
    using inv by (simp_all add: linked_list_inv_def)
  have k: "?k < length ?as" "i = int ?k" "ll_size impl = length ?as" "?as \<noteq> []"
    using chain i by (auto simp: ll_chain_def)
  have arrive: "(case seek_fwd (ll_store impl) (Some (?as ! j)) (int j) i of
       (c, st) \<Rightarrow> seek_bwd (ll_store impl) c st i) = (Some (?as ! ?k), i)"
    if "j < length ?as" for j
  proof (cases "j \<le> ?k")
    case True
    then show ?thesis
      using seek_fwd_chain [OF chain True k(1)] k(2) by (simp add: seek_bwd_past)
  next
    case False
    then show ?thesis
      using seek_bwd_chain [OF chain _ that, of ?k] k(2) by (simp add: seek_fwd_past)
  qed
  have ends: "ll_head impl = Some (?as ! 0)" "ll_tail impl = Some (?as ! (length ?as - 1))"
    using ll_chain_head_tail [OF chain k(4)] by simp_all
  have last: "int (ll_size impl) - 1 = int (length ?as - 1)"
    using k by (cases ?as) simp_all
  have cursor: "ll_cursor_index impl = int (nat (ll_cursor_index impl)) \<and>
      nat (ll_cursor_index impl) < length ?as \<and>
      ll_cursor_node impl = Some (?as ! nat (ll_cursor_index impl))"
    if "ll_cursor_node impl \<noteq> None" "0 \<le> ll_cursor_index impl"
    using cur that by (auto simp: cursor_ok_def split: option.splits)
  define start where "start = (if ll_cursor_node impl \<noteq> None \<and> ll_cursor_index impl \<ge> 0 \<and>
        \<bar>i - ll_cursor_index impl\<bar> < (if i < int (ll_size impl) - 1 - i then i
                                      else int (ll_size impl) - 1 - i)
      then (ll_cursor_node impl, ll_cursor_index impl)
      else if i \<le> int (ll_size impl) - 1 - i then (ll_head impl, 0)
      else (ll_tail impl, int (ll_size impl) - 1))"
  have "\<exists>j < length ?as. start = (Some (?as ! j), int j)"
  proof -
    consider "start = (ll_cursor_node impl, ll_cursor_index impl)"
        "ll_cursor_node impl \<noteq> None" "0 \<le> ll_cursor_index impl"
      | "start = (ll_head impl, 0)" | "start = (ll_tail impl, int (ll_size impl) - 1)"
      unfolding start_def by presburger
    then show ?thesis
    proof cases
      case 1
      then show ?thesis using cursor by metis
    next
      case 2
      then show ?thesis using ends k by (intro exI [of _ 0]) simp
    next
      case 3
      then show ?thesis using ends k last by (intro exI [of _ "length ?as - 1"]) simp
    qed
  qed
  then obtain j where j: "j < length ?as" "start = (Some (?as ! j), int j)" by blast
  have "linked_list_get impl i =
     (case (case start of (c, st) \<Rightarrow> case seek_fwd (ll_store impl) c st i of
                (c, st) \<Rightarrow> seek_bwd (ll_store impl) c st i) of
        (Some a, _) \<Rightarrow> (node_data (node_at (ll_store impl) a),
                      impl\<lparr>ll_cursor_node := Some a, ll_cursor_index := i\<rparr>)
      | (None, _) \<Rightarrow> (NULL, impl))"
    using i unfolding linked_list_get_def start_def Let_def
    by (simp split: prod.splits option.splits)
  also have "\<dots> = (node_data (node_at (ll_store impl) (?as ! ?k)),
      impl\<lparr>ll_cursor_node := Some (?as ! ?k), ll_cursor_index := i\<rparr>)"
    using arrive [OF j(1)] j(2) by simp
  finally show ?thesis using k by (simp add: linked_list_items_def)
qed

text \<open>Unlinking: the store, head and tail after the node at \<open>c\<close> is taken out.\<close>

definition unlinked :: "'a node_store \<Rightarrow> nat \<Rightarrow> 'a node_store" where
  "unlinked s c =
     (let p = node_prev (node_at s c); n = node_next (node_at s c);
          s1 = (case p of None \<Rightarrow> s | Some pa \<Rightarrow> set_next s pa n);
          s2 = (case n of None \<Rightarrow> s1 | Some na \<Rightarrow> set_prev s1 na p)
      in s2(c := None))"

lemma dseg_unlink:
  assumes "dseg s None h (xs @ c # ys) t None" "distinct (xs @ c # ys)"
  shows "dseg (unlinked s c) None
     (if node_prev (node_at s c) = None then node_next (node_at s c) else h) (xs @ ys)
     (if node_next (node_at s c) = None then node_prev (node_at s c) else t) None"
proof (cases xs rule: rev_cases)
  case Nil
  with assms show ?thesis
    by (cases ys) (auto simp: unlinked_def set_prev_def node_at_def)
next
  case (snoc xs' pa)
  with assms show ?thesis
    by (cases ys) (auto simp: unlinked_def set_next_def set_prev_def node_at_def)
qed

lemma dom_unlinked:
  assumes "dseg s None h (xs @ c # ys) t None" "dom s = set (xs @ c # ys)" "distinct (xs @ c # ys)"
  shows "dom (unlinked s c) = set (xs @ ys)"
proof -
  let ?p = "node_prev (node_at s c)" and ?n = "node_next (node_at s c)"
  from assms(1) obtain nd where nd: "s c = Some nd" "dseg s None h xs (node_prev nd) (Some c)"
    "dseg s (Some c) (node_next nd) ys t None" by auto
  have "set_option ?p \<subseteq> set xs"
    using nd dseg_ends [of s None h xs "node_prev nd" "Some c"] by (cases xs) (auto simp: node_at_def)
  moreover have "set_option ?n \<subseteq> set ys"
    using nd dseg_ends [of s "Some c" "node_next nd" ys t None] by (cases ys) (auto simp: node_at_def)
  ultimately show ?thesis
    using assms(2,3) unfolding unlinked_def Let_def
    by (auto simp: insert_absorb split: option.splits)
qed

lemma node_data_unlinked:
  "a \<noteq> c \<Longrightarrow> node_data (node_at (unlinked s c) a) = node_data (node_at s a)"
proof -
  assume "a \<noteq> c"
  then have "node_at (s'(c := None)) a = node_at s' a" for s' :: "'a node_store"
    by (simp add: node_at_def)
  then show ?thesis by (simp add: unlinked_def Let_def split: option.split)
qed

lemma linked_list_remove_inside:
  assumes inv: "linked_list_inv impl" and i: "0 \<le> i" "i < int (ll_size impl)"
  shows "\<exists>impl'. linked_list_remove impl i = (OVA_SUCCESS, impl') \<and> linked_list_inv impl' \<and>
     linked_list_items impl' = remove_at (nat i) (linked_list_items impl)"
proof -
  let ?as = "ll_addrs impl" and ?k = "nat i"
  have chain: "ll_chain impl ?as" using inv by (simp add: linked_list_inv_def)
  then have k: "?k < length ?as" "i = int ?k" using i by (auto simp: ll_chain_def)
  define c where "c = ?as ! ?k"
  define xs ys where "xs = take ?k ?as" and "ys = drop (Suc ?k) ?as"
  have parts: "?as = xs @ c # ys"
    using k by (simp add: c_def xs_def ys_def id_take_nth_drop [symmetric])
  have facts: "dseg (ll_store impl) None (ll_head impl) (xs @ c # ys) (ll_tail impl) None"
    "distinct (xs @ c # ys)" "dom (ll_store impl) = set (xs @ c # ys)"
    "\<forall>a \<in> set (xs @ c # ys). a < ll_brk impl" "ll_size impl = length (xs @ c # ys)"
    using chain by (simp_all add: ll_chain_def parts del: dseg_append dseg.simps)
  let ?p = "node_prev (node_at (ll_store impl) c)" and ?n = "node_next (node_at (ll_store impl) c)"
  have "linked_list_remove impl i = (OVA_SUCCESS,
     impl\<lparr>ll_cursor_node := None, ll_cursor_index := -1,
          ll_head := (if ?p = None then ?n else ll_head impl),
          ll_tail := (if ?n = None then ?p else ll_tail impl),
          ll_store := unlinked (ll_store impl) c, ll_size := ll_size impl - 1\<rparr>)"
    (is "_ = (_, ?T)")
    using i nearer_end_chain [OF chain k(1)]
    by (simp add: linked_list_remove_def unlinked_def Let_def c_def)
  moreover have chain': "ll_chain ?T (xs @ ys)"
    using dseg_unlink [OF facts(1,2)] dom_unlinked [OF facts(1,3,2)] facts(2,4,5)
    by (simp add: ll_chain_def del: dseg_append)
  moreover have "linked_list_inv ?T"
    by (rule linked_list_invI [OF chain']) (simp add: cursor_ok_def)
  moreover have "linked_list_items ?T = remove_at ?k (linked_list_items impl)"
  proof -
    have "linked_list_items ?T =
        map (\<lambda>a. node_data (node_at (unlinked (ll_store impl) c) a)) (xs @ ys)"
      using linked_list_items_chain [OF chain'] by simp
    also have "\<dots> = map (\<lambda>a. node_data (node_at (ll_store impl) a)) (xs @ ys)"
      using facts(2) by (auto intro!: node_data_unlinked)
    also have "\<dots> = remove_at ?k (linked_list_items impl)"
      by (simp add: linked_list_items_def remove_at_def xs_def ys_def take_map drop_map)
    finally show ?thesis .
  qed
  ultimately show ?thesis by blast
qed

lemma linked_list_remove_outside:
  "i < 0 \<or> int (ll_size impl) \<le> i \<Longrightarrow>
     linked_list_remove impl i = (OVA_ERROR_INDEX_OUT_OF_BOUNDS, impl)"
  by (auto simp: linked_list_remove_def)

text \<open>The freeing loop releases every node and nothing outside the list.\<close>

lemma free_chain_all:
  "dseg s p c as q None \<Longrightarrow> distinct as \<Longrightarrow> dom s = set as \<Longrightarrow>
     free_chain (length as) s c = Map.empty"
proof (induction as arbitrary: s p c)
  case Nil
  then show ?case by simp
next
  case (Cons a as)
  then obtain nd where nd: "c = Some a" "s a = Some nd" "dseg s (Some a) (node_next nd) as q None"
    by auto
  have "dseg (s(a := None)) (Some a) (node_next nd) as q None"
    using nd Cons.prems(2) by (metis dseg_upd distinct.simps(2))
  moreover have "dom (s(a := None)) = set as" using Cons.prems by auto
  moreover have "distinct as" using Cons.prems(2) by simp
  ultimately have "free_chain (length as) (s(a := None)) (node_next nd) = Map.empty"
    by (metis Cons.IH)
  with nd show ?case by (simp add: node_at_def)
qed

lemma linked_list_free_all: "linked_list_inv impl \<Longrightarrow> linked_list_free impl = Map.empty"
  using free_chain_all [of "ll_store impl" None "ll_head impl" "ll_addrs impl" "ll_tail impl"]
  by (simp add: linked_list_inv_def ll_chain_def linked_list_free_def)

lemma linked_list_clear_inv:
  "linked_list_inv impl \<Longrightarrow> \<exists>impl'. linked_list_clear (Some impl) = Some impl' \<and>
     linked_list_inv impl' \<and> linked_list_items impl' = []"
  using linked_list_free_all [of impl]
  by (simp add: linked_list_free_def linked_list_inv_def ll_chain_def ll_addrs_def cursor_ok_def
      linked_list_items_def)

section \<open>The linked list is a positional list\<close>

lemma linked_list_get_spec:
  assumes inv: "linked_list_inv impl"
  shows "linked_list_inv (snd (linked_list_get impl i)) \<and>
     linked_list_items (snd (linked_list_get impl i)) = linked_list_items impl \<and>
     fst (linked_list_get impl i) = nth_ptr (linked_list_items impl) i"
proof (cases "0 \<le> i \<and> i < int (ll_size impl)")
  case False
  with inv show ?thesis by (auto simp: linked_list_get_def nth_ptr_def)
next
  case True
  have chain: "ll_chain impl (ll_addrs impl)" using inv by (simp add: linked_list_inv_def)
  let ?impl = "impl\<lparr>ll_cursor_node := Some (ll_addrs impl ! nat i), ll_cursor_index := i\<rparr>"
  have chain': "ll_chain ?impl (ll_addrs impl)" using chain by (simp add: ll_chain_def)
  have "cursor_ok ?impl (ll_addrs impl)"
    using True chain by (auto simp: cursor_ok_def ll_chain_def)
  with chain' have "linked_list_inv ?impl" by (rule linked_list_invI)
  moreover have "linked_list_items ?impl = linked_list_items impl"
    by (simp add: linked_list_items_chain [OF chain] linked_list_items_chain [OF chain'])
  ultimately show ?thesis
    using linked_list_get_inside [OF inv] True inv by (simp add: nth_ptr_def)
qed

interpretation ll: positional_list linked_list_insert linked_list_get linked_list_remove
  "\<lambda>l. linked_list_size (Some l)" "\<lambda>l. the (linked_list_clear (Some l))"
  linked_list_inv linked_list_items linked_list_ready
proof unfold_locales
  fix l l' :: "'a linked_list" and x i w w' e
  assume "linked_list_inv l" "linked_list_insert l x i w = (e, l', w')"
  from linked_list_insert_cases [OF this] show "linked_list_inv l'" by blast
next
  fix l l' :: "'a linked_list" and x i w w' e
  assume "linked_list_inv l" "linked_list_insert l x i w = (e, l', w')" "e \<noteq> OVA_SUCCESS"
  with linked_list_insert_cases [OF this(1,2)]
  show "linked_list_items l' = linked_list_items l" by auto
next
  fix l l' :: "'a linked_list" and x i w w'
  assume inv: "linked_list_inv l" and "linked_list_insert l x i w = (OVA_SUCCESS, l', w')"
  from linked_list_insert_cases [OF this] inv
  show "mset (linked_list_items l') = add_mset x (mset (linked_list_items l))"
    and "0 \<le> i \<and> i \<le> int (length (linked_list_items l)) \<and>
         linked_list_items l' = insert_at (nat i) x (linked_list_items l)"
    by auto
next
  fix l :: "'a linked_list" and x w n i
  assume inv: "linked_list_inv l" and r: "linked_list_ready l w n"
    and i: "0 \<le> i" "i \<le> int (length (linked_list_items l))"
  have "malloc_struct w = (True, w)"
    using r by (simp add: malloc_struct_def malloc_def linked_list_ready_def PTRDIFF_MAX_def)
  with linked_list_insert_success [of l i w w x] inv i r
  show "\<exists>l' w'. linked_list_insert l x i w = (OVA_SUCCESS, l', w') \<and> linked_list_ready l' w' n"
    by (auto simp: linked_list_ready_def)
next
  fix l :: "'a linked_list" and i
  assume "linked_list_inv l" "0 \<le> i" "i < int (length (linked_list_items l))"
  then show "\<exists>l'. linked_list_remove l i = (OVA_SUCCESS, l') \<and> linked_list_inv l' \<and>
       linked_list_items l' = remove_at (nat i) (linked_list_items l)"
    by (simp add: linked_list_remove_inside)
next
  fix l :: "'a linked_list"
  assume "linked_list_inv l"
  from linked_list_clear_inv [OF this]
  show "linked_list_inv (the (linked_list_clear (Some l)))"
    and "linked_list_items (the (linked_list_clear (Some l))) = []" by auto
qed (auto simp: linked_list_insert_outside linked_list_remove_outside linked_list_get_spec
      linked_list_ready_def)

section \<open>Properties\<close>

abbreviation linked_list_run ::
  "'a list_cmd list \<Rightarrow> 'a linked_list \<Rightarrow> 'a world \<Rightarrow> 'a list_reply list \<times> 'a linked_list \<times> 'a world" where
  "linked_list_run \<equiv> run_cmds (exec_cmd linked_list_insert linked_list_get linked_list_remove
     (\<lambda>l. linked_list_size (Some l)) (\<lambda>l. the (linked_list_clear (Some l))))"

text \<open>C2: The linked list never leaks or loses a node: after any sequence of calls on a new list,
  under any allocator, the nodes reachable from the head by \<open>next\<close> are linked back by \<open>prev\<close>,
  end in the tail and are exactly the nodes allocated and not freed, and \<open>free\<close> releases every
  one of them.\<close>

theorem linked_list_no_leak:
  assumes "create_linked_list w = (Some l, w1)"
    and "l_end = fst (snd (linked_list_run cs l w1))"
  shows "dseg (ll_store l_end) None (ll_head l_end) (ll_addrs l_end) (ll_tail l_end) None \<and>
    distinct (ll_addrs l_end) \<and> dom (ll_store l_end) = set (ll_addrs l_end) \<and>
    linked_list_free l_end = Map.empty"
proof -
  have "linked_list_inv l" using create_linked_list_inv [OF assms(1)] by simp
  from ll.run_refines [OF this] have "linked_list_inv l_end" unfolding assms(2) by (metis prod.collapse)
  then show ?thesis
    using linked_list_free_all by (simp add: linked_list_inv_def ll_chain_def)
qed

theorem linked_list_no_leak_witness:
  "linked_list_free (fst (snd (linked_list_run
     [Insert_Cmd (Some (1::nat)) 0, Insert_Cmd None 1, Get_Cmd 1, Remove_Cmd 0]
     \<lparr>ll_store = Map.empty, ll_brk = 0, ll_head = None, ll_tail = None, ll_size = 0,
       ll_cursor_node = None, ll_cursor_index = -1\<rparr> fresh_world))) = Map.empty"
proof -
  have "create_linked_list (fresh_world :: nat world) =
      (Some \<lparr>ll_store = Map.empty, ll_brk = 0, ll_head = None, ll_tail = None, ll_size = 0,
       ll_cursor_node = None, ll_cursor_index = -1\<rparr>, fresh_world)"
    by (simp add: create_linked_list_def malloc_struct_def malloc_def PTRDIFF_MAX_def)
  from linked_list_no_leak [OF this refl] show ?thesis by blast
qed

text \<open>The cursor cache and the walk from the nearer end are invisible: whatever was read or
  written before, reading an index inside the list returns the element there, reading outside
  returns null, and reading changes no element.\<close>

theorem linked_list_get_correct:
  assumes "linked_list_inv l"
  shows "fst (linked_list_get l i) = nth_ptr (linked_list_items l) i \<and>
    linked_list_items (snd (linked_list_get l i)) = linked_list_items l \<and>
    linked_list_inv (snd (linked_list_get l i))"
  using linked_list_get_spec [OF assms] by blast

text \<open>A list of three nodes whose cursor stands on the second.\<close>

definition sample_linked :: "nat linked_list" where
  "sample_linked = \<lparr>ll_store = [4 \<mapsto> \<lparr>node_data = Some 10, node_next = Some 7, node_prev = None\<rparr>,
     7 \<mapsto> \<lparr>node_data = Some 20, node_next = Some 5, node_prev = Some 4\<rparr>,
     5 \<mapsto> \<lparr>node_data = Some 30, node_next = None, node_prev = Some 7\<rparr>],
     ll_brk = 9, ll_head = Some 4, ll_tail = Some 5, ll_size = 3,
     ll_cursor_node = Some 7, ll_cursor_index = 1\<rparr>"

lemma sample_linked_inv: "linked_list_inv sample_linked"
  by (rule linked_list_invI [of _ "[4, 7, 5]"])
    (auto simp: sample_linked_def ll_chain_def cursor_ok_def)

theorem linked_list_get_correct_witness:
  "fst (linked_list_get sample_linked 1) = Some 20 \<and> fst (linked_list_get sample_linked 3) = None"
proof -
  have "linked_list_items sample_linked = [Some 10, Some 20, Some 30]"
    by (simp add: linked_list_items_def ll_addrs_def sample_linked_def node_at_def eval_nat_numeral)
  with linked_list_get_correct [OF sample_linked_inv, of 1]
    linked_list_get_correct [OF sample_linked_inv, of 3]
  show ?thesis by (simp add: nth_ptr_def)
qed

end
