(* ===== verification/Sorted_List.thy ===== *)
theory Sorted_List
  imports List_Iface
begin

text \<open>
  The sorted backend of the list, \<open>src/list/sorted_list.c\<close>: an array kept in the order of a
  comparator. Insertion ignores the requested index and finds its place by binary search. The
  methods test their object for null, so they take an option. The growth step doubles the
  capacity in plain \<open>int\<close> arithmetic; the model keeps the wrapped result.
\<close>

section \<open>The ordered contract\<close>

text \<open>A list that places each element itself: in front of the first element that is not smaller.\<close>

locale ordered_list = list_store +
  fixes order_of :: "'a \<Rightarrow> 'b comparator"
  assumes order_ok: "inv l \<Longrightarrow> comparator_order (order_of l)"
    and items_sorted: "inv l \<Longrightarrow> sorted_by (order_of l) (items l)"
    and insert_order: "inv l \<Longrightarrow> insert_op l x i w = (e, l', w') \<Longrightarrow> order_of l' = order_of l"
    and insert_place: "inv l \<Longrightarrow> insert_op l x i w = (OVA_SUCCESS, l', w') \<Longrightarrow>
          \<exists>k \<le> length (items l). items l' = insert_at k x (items l) \<and>
            (\<forall>y \<in> set (take k (items l)). order_of l x y > 0) \<and>
            (\<forall>y \<in> set (drop k (items l)). order_of l x y \<le> 0)"
begin

text \<open>Loading any batch leaves a sorted list with the batch added; on an error a prefix of the
  batch has been added.\<close>

lemma append_loop_bag:
  "inv l \<Longrightarrow> append_loop insert_op size_op xs l w = (e, l', w') \<Longrightarrow>
     inv l' \<and> order_of l' = order_of l \<and> (\<exists>k \<le> length xs.
       mset (items l') = mset (items l) + mset (take k xs) \<and> (e = OVA_SUCCESS \<longleftrightarrow> k = length xs))"
proof (induction xs arbitrary: l w)
  case Nil
  then show ?case by simp
next
  case (Cons x xs)
  obtain e1 l1 w1 where ins: "insert_op l x (size_op l) w = (e1, l1, w1)" by (metis prod_cases3)
  have inv1: "inv l1" "order_of l1 = order_of l"
    using insert_inv [OF Cons.prems(1) ins] insert_order [OF Cons.prems(1) ins] by simp_all
  show ?case
  proof (cases "e1 = OVA_SUCCESS")
    case False
    then have "e = e1 \<and> l' = l1" using Cons.prems(2) ins by simp
    moreover have "items l1 = items l" using insert_fail [OF Cons.prems(1) ins False] .
    ultimately show ?thesis using inv1 False by (intro conjI exI [of _ 0]) auto
  next
    case True
    then have "append_loop insert_op size_op xs l1 w1 = (e, l', w')"
      using Cons.prems(2) ins by simp
    with Cons.IH [OF inv1(1)] inv1(2) obtain k where k: "inv l'" "order_of l' = order_of l"
      "k \<le> length xs" "mset (items l') = mset (items l1) + mset (take k xs)"
      "e = OVA_SUCCESS \<longleftrightarrow> k = length xs"
      by metis
    have "mset (items l1) = add_mset x (mset (items l))"
      using insert_bag Cons.prems(1) ins True by simp
    with k show ?thesis by (intro conjI exI [of _ "Suc k"]) simp_all
  qed
qed

text \<open>An element that ties with everything in the list goes to the front, so copying a run of
  ties turns it around.\<close>

lemma insert_tie:
  assumes "inv l" "insert_op l x i w = (OVA_SUCCESS, l', w')"
    and tie: "\<forall>y \<in> set (items l). order_of l x y = 0"
  shows "items l' = x # items l"
proof -
  obtain k where k: "k \<le> length (items l)" "items l' = insert_at k x (items l)"
    "\<forall>y \<in> set (take k (items l)). order_of l x y > 0"
    using insert_place [OF assms(1,2)] by blast
  have "take k (items l) = []"
  proof (cases "take k (items l)")
    case (Cons y ys)
    then have "y \<in> set (take k (items l))" by simp
    moreover from this have "y \<in> set (items l)" by (rule in_set_takeD)
    ultimately show ?thesis using k(3) tie by force
  qed simp
  then have "k = 0 \<or> items l = []" by simp
  with k(1,2) show ?thesis by auto
qed

lemma clone_loop_ties:
  "inv src \<Longrightarrow> inv copy \<Longrightarrow> i + n \<le> length (items src) \<Longrightarrow>
     (\<forall>x \<in> set (items src). \<forall>y \<in> set (items src) \<union> set (items copy). order_of copy x y = 0) \<Longrightarrow>
     clone_loop get_op insert_op size_op dup_shallow (int i) n src copy w = (True, src', copy', w') \<Longrightarrow>
     items copy' = rev (take n (drop i (items src))) @ items copy"
proof (induction n arbitrary: i src copy w)
  case 0
  then show ?case by simp
next
  case (Suc n)
  obtain x s1 where g: "get_op src (int i) = (x, s1)" by fastforce
  have s1: "inv s1" "items s1 = items src" "x = items src ! i" "x \<in> set (items src)"
    using get_facts [OF Suc.prems(1), of "int i"] g Suc.prems(3) by simp_all
  obtain e c2 w2 where ins: "insert_op copy x (size_op copy) w = (e, c2, w2)"
    by (metis prod_cases3)
  have e: "e = OVA_SUCCESS"
    using Suc.prems(5) g ins by (auto simp: case_prod_beta split: if_splits)
  have c2: "inv c2" "order_of c2 = order_of copy" "items c2 = x # items copy"
    using insert_inv [OF Suc.prems(2) ins] insert_order [OF Suc.prems(2) ins]
      insert_tie [OF Suc.prems(2) ins [unfolded e]] Suc.prems(4) s1(4) by simp_all
  have "clone_loop get_op insert_op size_op dup_shallow (int (Suc i)) n s1 c2 w2
      = (True, src', copy', w')"
    using Suc.prems(5) g ins e by (simp add: case_prod_beta add.commute)
  then have "items copy' = rev (take n (drop (Suc i) (items s1))) @ items c2"
    using Suc.prems(3,4) s1 c2 by (intro Suc.IH) auto
  moreover have "take (Suc n) (drop i (items src)) = x # take n (drop (Suc i) (items src))"
    using Suc.prems(3) s1(3) by (simp add: Cons_nth_drop_Suc [symmetric])
  ultimately show ?case using s1 c2 by simp
qed

end

section \<open>State and operations\<close>

record 'a sorted_list =
  sl_items :: "'a ptr list"
  sl_size :: nat
  sl_capacity :: nat
  sl_cmp :: "'a comparator"

definition clamp_initial_capacity :: "int \<Rightarrow> int" where
  "clamp_initial_capacity initial_capacity = (if initial_capacity > 0 then initial_capacity else 4)"

definition create_sorted_list ::
  "int \<Rightarrow> 'a comparator option \<Rightarrow> 'a world \<Rightarrow> 'a sorted_list option \<times> 'a world" where
  "create_sorted_list initial_capacity cmp_opt w =
     (case cmp_opt of
        None \<Rightarrow> (None, w)
      | Some cmp \<Rightarrow>
         (case malloc_struct w of (lst, w1) \<Rightarrow>
          case malloc_struct w1 of (impl, w2) \<Rightarrow>
            if \<not> lst \<or> \<not> impl then (None, w2)
            else
              (let capacity = clamp_initial_capacity initial_capacity in
               (case malloc_ptrs capacity w2 of
                  (None, w3) \<Rightarrow> (None, w3)
                | (Some items, w3) \<Rightarrow>
                    (Some \<lparr>sl_items = items, sl_size = 0, sl_capacity = nat capacity,
                           sl_cmp = cmp\<rparr>, w3)))))"

definition sorted_ensure_capacity ::
  "'a sorted_list \<Rightarrow> 'a world \<Rightarrow> bool \<times> 'a sorted_list \<times> 'a world" where
  "sorted_ensure_capacity impl w =
     (if sl_size impl < sl_capacity impl then (True, impl, w)
      else
        (let new_capacity = wrap_int (int (sl_capacity impl) * 2) in
         (case realloc_ptrs (sl_items impl) new_capacity w of
            (None, w') \<Rightarrow> (False, impl, w')
          | (Some new_items, w') \<Rightarrow>
              (True, impl\<lparr>sl_items := new_items, sl_capacity := nat new_capacity\<rparr>, w'))))"

function insert_position_loop ::
  "'a comparator \<Rightarrow> 'a ptr list \<Rightarrow> 'a ptr \<Rightarrow> nat \<Rightarrow> nat \<Rightarrow> nat" where
  "insert_position_loop cmp buf item left right =
     (if left < right then
        (let mid = left + (right - left) div 2 in
         if cmp item (buf ! mid) > 0 then insert_position_loop cmp buf item (mid + 1) right
         else insert_position_loop cmp buf item left mid)
      else left)"
  by pat_completeness auto
termination
  by (relation "measure (\<lambda>(cmp, buf, item, left, right). right - left)") auto

declare insert_position_loop.simps [simp del]

definition find_insert_position :: "'a sorted_list \<Rightarrow> 'a ptr \<Rightarrow> nat" where
  "find_insert_position impl item =
     insert_position_loop (sl_cmp impl) (sl_items impl) item 0 (sl_size impl)"

fun sorted_list_insert ::
  "'a sorted_list option \<Rightarrow> 'a ptr \<Rightarrow> int \<Rightarrow> 'a world \<Rightarrow>
     ova_error_code \<times> 'a sorted_list option \<times> 'a world" where
  "sorted_list_insert None item index w = (OVA_ERROR_INVALID_ARG, None, w)"
| "sorted_list_insert (Some impl) item index w =
     (case sorted_ensure_capacity impl w of
        (False, impl, w') \<Rightarrow> (OVA_ERROR_MEMORY, Some impl, w')
      | (True, impl, w') \<Rightarrow>
          (let pos = find_insert_position impl item;
               moved = memmove (sl_items impl) (pos + 1) pos (sl_size impl - pos)
           in (OVA_SUCCESS,
               Some (impl\<lparr>sl_items := moved[pos := item], sl_size := sl_size impl + 1\<rparr>), w')))"

fun sorted_list_get :: "'a sorted_list option \<Rightarrow> int \<Rightarrow> 'a ptr" where
  "sorted_list_get None index = NULL"
| "sorted_list_get (Some impl) index =
     (if index < 0 \<or> index \<ge> int (sl_size impl) then NULL else sl_items impl ! nat index)"

fun sorted_list_remove ::
  "'a sorted_list option \<Rightarrow> int \<Rightarrow> ova_error_code \<times> 'a sorted_list option" where
  "sorted_list_remove None index = (OVA_ERROR_INVALID_ARG, None)"
| "sorted_list_remove (Some impl) index =
     (if index < 0 \<or> index \<ge> int (sl_size impl) then (OVA_ERROR_INDEX_OUT_OF_BOUNDS, Some impl)
      else (let i = nat index in
        (OVA_SUCCESS,
         Some (impl\<lparr>sl_items := memmove (sl_items impl) i (i + 1) (sl_size impl - i - 1),
                    sl_size := sl_size impl - 1\<rparr>))))"

fun sorted_list_size :: "'a sorted_list option \<Rightarrow> int" where
  "sorted_list_size None = 0"
| "sorted_list_size (Some impl) = int (sl_size impl)"

fun sorted_list_clear :: "'a sorted_list option \<Rightarrow> 'a sorted_list option" where
  "sorted_list_clear None = None"
| "sorted_list_clear (Some impl) = Some (impl\<lparr>sl_size := 0\<rparr>)"

section \<open>Invariant and abstraction\<close>

definition sorted_list_items :: "'a sorted_list \<Rightarrow> 'a ptr list" where
  "sorted_list_items impl = take (sl_size impl) (sl_items impl)"

definition sorted_list_inv :: "'a sorted_list \<Rightarrow> bool" where
  "sorted_list_inv impl \<longleftrightarrow> length (sl_items impl) = sl_capacity impl \<and>
     sl_size impl \<le> sl_capacity impl \<and> 0 < sl_capacity impl \<and> sl_capacity impl \<le> INT_MAX \<and>
     comparator_order (sl_cmp impl) \<and> sorted_by (sl_cmp impl) (sorted_list_items impl)"

definition sorted_list_ready :: "'a sorted_list \<Rightarrow> 'a world \<Rightarrow> nat \<Rightarrow> bool" where
  "sorted_list_ready impl w n \<longleftrightarrow> n \<le> sl_capacity impl \<or> alloc_fails w = [] \<and> n \<le> 2 ^ 30"

lemma length_sorted_list_items [simp]:
  "sorted_list_inv impl \<Longrightarrow> length (sorted_list_items impl) = sl_size impl"
  by (simp add: sorted_list_inv_def sorted_list_items_def)

lemma create_sorted_list_inv:
  "is_int n \<Longrightarrow> comparator_order cmp \<Longrightarrow> create_sorted_list n (Some cmp) w = (Some impl, w') \<Longrightarrow>
     sorted_list_inv impl \<and> sorted_list_items impl = [] \<and> sl_cmp impl = cmp"
  by (auto simp: create_sorted_list_def clamp_initial_capacity_def sorted_list_inv_def Let_def
        sorted_list_items_def malloc_ptrs_length is_int_le_INT_MAX INT_MAX_def
      split: prod.splits if_splits option.splits) (simp add: is_int_def)

section \<open>The binary search\<close>

text \<open>Everything left of the result is smaller than the item, nothing from it on is.\<close>

context comparator_order
begin

lemma sorted_take_nth:
  "sorted_by cmp (take n buf) \<Longrightarrow> n \<le> length buf \<Longrightarrow> i \<le> j \<Longrightarrow> j < n \<Longrightarrow>
     cmp (buf ! i) (buf ! j) \<le> 0"
  using sorted_by_nth [of cmp "take n buf" i j] by (cases "i = j") simp_all

lemma insert_position_loop_spec:
  assumes srt: "sorted_by cmp (take n buf)" and n: "n \<le> length buf"
  shows "left \<le> right \<Longrightarrow> right \<le> n \<Longrightarrow>
     (\<And>k. k < left \<Longrightarrow> cmp item (buf ! k) > 0) \<Longrightarrow>
     (\<And>k. right \<le> k \<Longrightarrow> k < n \<Longrightarrow> cmp item (buf ! k) \<le> 0) \<Longrightarrow>
     p = insert_position_loop cmp buf item left right \<Longrightarrow>
     p \<le> n \<and> (\<forall>k < p. cmp item (buf ! k) > 0) \<and>
     (\<forall>k. p \<le> k \<longrightarrow> k < n \<longrightarrow> cmp item (buf ! k) \<le> 0)"
proof (induction "right - left" arbitrary: left right rule: less_induct)
  case less
  show ?case
  proof (cases "left < right")
    case False
    then have "p = left" using less.prems(5) by (subst (asm) insert_position_loop.simps) simp
    then show ?thesis using False less.prems by auto
  next
    case True
    define mid where "mid = left + (right - left) div 2"
    have mid: "left \<le> mid" "mid < right" "mid < n"
      using True less.prems(2) by (auto simp: mid_def)
    show ?thesis
    proof (cases "cmp item (buf ! mid) > 0")
      case gt: True
      have "cmp item (buf ! k) > 0" if "k < Suc mid" for k
        using sorted_take_nth [OF srt n, of k mid] that mid gt
          cmp_le_less_trans [of "buf ! k" "buf ! mid" item]
          cmp_gt_iff [of item "buf ! k"] cmp_gt_iff [of item "buf ! mid"] by simp
      moreover have "p = insert_position_loop cmp buf item (Suc mid) right"
        using True gt less.prems(5)
        by (subst (asm) insert_position_loop.simps) (simp add: mid_def Let_def)
      ultimately show ?thesis
        using less.prems mid by (intro less.hyps [of right "Suc mid"]) auto
    next
      case le: False
      have "cmp item (buf ! k) \<le> 0" if "mid \<le> k" "k < n" for k
        using sorted_take_nth [OF srt n that] le cmp_trans [of item "buf ! mid" "buf ! k"] by simp
      moreover have "p = insert_position_loop cmp buf item left mid"
        using True le less.prems(5)
        by (subst (asm) insert_position_loop.simps) (simp add: mid_def Let_def)
      ultimately show ?thesis
        using less.prems mid by (intro less.hyps [of mid left]) auto
    qed
  qed
qed

lemma sorted_insert_at:
  assumes "sorted_by cmp xs" "\<forall>y \<in> set (take k xs). cmp x y > 0"
    "\<forall>y \<in> set (drop k xs). cmp x y \<le> 0"
  shows "sorted_by cmp (insert_at k x xs)"
proof -
  have "sorted_by cmp (take k xs @ drop k xs)" using assms(1) by simp
  moreover have "cmp y x \<le> 0" if "y \<in> set (take k xs)" for y
    using assms(2) that cmp_gt_iff [of x y] by auto
  ultimately show ?thesis
    using assms(3) by (auto simp: insert_at_def sorted_by_append simp del: append_take_drop_id)
qed

end

section \<open>Behaviour of the operations\<close>

lemma sorted_ensure_capacity_spec:
  assumes inv: "sorted_list_inv impl" and ens: "sorted_ensure_capacity impl w = (ok, impl', w')"
  shows "sorted_list_inv impl' \<and> sorted_list_items impl' = sorted_list_items impl \<and>
     sl_size impl' = sl_size impl \<and> sl_cmp impl' = sl_cmp impl \<and>
     (ok \<longrightarrow> sl_size impl' < sl_capacity impl')"
proof (cases "sl_size impl < sl_capacity impl")
  case True
  with inv ens show ?thesis by (simp add: sorted_ensure_capacity_def)
next
  case full: False
  let ?c = "wrap_int (int (sl_capacity impl) * 2)"
  show ?thesis
  proof (cases "fst (realloc_ptrs (sl_items impl) ?c w)")
    case None
    with inv ens full show ?thesis
      by (auto simp: sorted_ensure_capacity_def Let_def split: prod.splits option.splits)
  next
    case (Some buf)
    then have re: "realloc_ptrs (sl_items impl) ?c w = (Some buf, w')"
      and impl': "ok" "impl' = impl\<lparr>sl_items := buf, sl_capacity := nat ?c\<rparr>"
      using ens full
      by (auto simp: sorted_ensure_capacity_def Let_def split: prod.splits option.splits)
    have "0 \<le> ?c" using realloc_ptrs_Some_nonneg [OF re is_int_wrap_int] .
    then have c: "?c = int (sl_capacity impl) * 2" "sl_capacity impl \<le> INT_MAX div 2"
      using wrap_int_double [of "sl_capacity impl"] inv
      by (auto simp: sorted_list_inv_def INT_MAX_def split: if_splits)
    then have grow: "sl_capacity impl < nat ?c" "nat ?c \<le> INT_MAX"
      using inv by (auto simp: sorted_list_inv_def INT_MAX_def)
    with realloc_ptrs_Some [OF re] inv
    have buf: "length buf = nat ?c" "take (sl_capacity impl) buf = sl_items impl"
      by (simp_all add: sorted_list_inv_def)
    then have "take (sl_size impl) buf = take (sl_size impl) (sl_items impl)"
      using take_realloc [of "sl_size impl" "sl_capacity impl" buf "sl_items impl"] inv
      by (simp add: sorted_list_inv_def)
    then show ?thesis
      using impl' grow inv buf(1) by (simp add: sorted_list_inv_def sorted_list_items_def)
  qed
qed

lemma sorted_ensure_capacity_ready:
  assumes inv: "sorted_list_inv impl" and "sorted_list_ready impl w n" "sl_size impl < n"
  shows "\<exists>impl' w'. sorted_ensure_capacity impl w = (True, impl', w') \<and> sorted_list_ready impl' w' n"
proof (cases "sl_size impl < sl_capacity impl")
  case True
  with assms show ?thesis by (simp add: sorted_ensure_capacity_def)
next
  case False
  with assms have w: "alloc_fails w = []" "n \<le> 2 ^ 30" "sl_capacity impl < 2 ^ 30"
    by (auto simp: sorted_list_ready_def sorted_list_inv_def)
  then have c: "wrap_int (int (sl_capacity impl) * 2) = int (sl_capacity impl) * 2"
    using inv by (subst wrap_int_double) (auto simp: sorted_list_inv_def INT_MAX_def)
  obtain buf where "realloc_ptrs (sl_items impl) (int (sl_capacity impl) * 2) w = (Some buf, w)"
    using realloc_ptrs_no_failures [OF w(1), of "int (sl_capacity impl) * 2"] w(3)
    by (auto simp: INT_MAX_def)
  with False c w show ?thesis by (simp add: sorted_ensure_capacity_def sorted_list_ready_def)
qed

lemma find_insert_position_spec:
  assumes inv: "sorted_list_inv impl" and "k = find_insert_position impl x"
  shows "k \<le> sl_size impl \<and>
     (\<forall>y \<in> set (take k (sorted_list_items impl)). sl_cmp impl x y > 0) \<and>
     (\<forall>y \<in> set (drop k (sorted_list_items impl)). sl_cmp impl x y \<le> 0)"
proof -
  have order: "comparator_order (sl_cmp impl)"
    and "sorted_by (sl_cmp impl) (take (sl_size impl) (sl_items impl))"
    and n: "sl_size impl \<le> length (sl_items impl)"
    using inv by (simp_all add: sorted_list_inv_def sorted_list_items_def)
  from comparator_order.insert_position_loop_spec [OF this, of 0 "sl_size impl" x k]
  have k: "k \<le> sl_size impl" "\<forall>j < k. sl_cmp impl x (sl_items impl ! j) > 0"
    "\<forall>j. k \<le> j \<longrightarrow> j < sl_size impl \<longrightarrow> sl_cmp impl x (sl_items impl ! j) \<le> 0"
    using assms(2) by (simp_all add: find_insert_position_def)
  with n show ?thesis
    by (auto simp: sorted_list_items_def set_conv_nth min_def)
qed

lemma sorted_list_insert_success:
  assumes inv: "sorted_list_inv impl"
    and ins: "sorted_list_insert (Some impl) x i w = (OVA_SUCCESS, self', w')"
  shows "\<exists>impl' k. self' = Some impl' \<and> sorted_list_inv impl' \<and> sl_cmp impl' = sl_cmp impl \<and>
     k \<le> sl_size impl \<and>
     sorted_list_items impl' = insert_at k x (sorted_list_items impl) \<and>
     (\<forall>y \<in> set (take k (sorted_list_items impl)). sl_cmp impl x y > 0) \<and>
     (\<forall>y \<in> set (drop k (sorted_list_items impl)). sl_cmp impl x y \<le> 0)"
proof -
  from ins obtain impl1 where ens: "sorted_ensure_capacity impl w = (True, impl1, w')"
    and self': "self' = Some (impl1\<lparr>sl_items :=
        (memmove (sl_items impl1) (Suc (find_insert_position impl1 x)) (find_insert_position impl1 x)
           (sl_size impl1 - find_insert_position impl1 x))[find_insert_position impl1 x := x],
        sl_size := Suc (sl_size impl1)\<rparr>)" (is "_ = Some ?impl'")
    by (auto simp: Let_def split: prod.splits bool.splits)
  let ?k = "find_insert_position impl1 x"
  note e = sorted_ensure_capacity_spec [OF inv ens]
  then have inv1: "sorted_list_inv impl1" by blast
  note pos = find_insert_position_spec [OF inv1 refl, of x]
  have len: "sl_size impl1 < length (sl_items impl1)"
    using e by (simp add: sorted_list_inv_def)
  have items: "sorted_list_items ?impl' = insert_at ?k x (sorted_list_items impl1)"
    using memmove_open_gap [of ?k "sl_size impl1" "sl_items impl1" x] pos len
    by (simp add: sorted_list_items_def)
  have "sorted_by (sl_cmp impl1) (insert_at ?k x (sorted_list_items impl1))"
    using comparator_order.sorted_insert_at [of "sl_cmp impl1"] inv1 pos
    by (simp add: sorted_list_inv_def)
  then have "sorted_list_inv ?impl'"
    using inv1 items len pos unfolding sorted_list_inv_def by simp
  with items pos e self' show ?thesis by (intro exI [of _ ?impl'] exI [of _ ?k]) simp
qed

lemma sorted_list_insert_error:
  assumes inv: "sorted_list_inv impl"
    and ins: "sorted_list_insert (Some impl) x i w = (e, self', w')" and "e \<noteq> OVA_SUCCESS"
  shows "e = OVA_ERROR_MEMORY \<and> (\<exists>impl'. self' = Some impl' \<and> sorted_list_inv impl' \<and>
     sl_cmp impl' = sl_cmp impl \<and> sorted_list_items impl' = sorted_list_items impl)"
  using assms sorted_ensure_capacity_spec [OF inv]
  by (auto simp: Let_def split: prod.splits bool.splits)

lemma sorted_list_insert_self:
  "\<exists>e impl' w'. sorted_list_insert (Some impl) x i w = (e, Some impl', w')"
  by (auto simp: Let_def split: prod.splits bool.splits)

lemma sorted_remove_at: "sorted_by cmp xs \<Longrightarrow> sorted_by cmp (remove_at i xs)"
proof (cases "i < length xs")
  case True
  assume "sorted_by cmp xs"
  then have "sorted_by cmp (take i xs @ xs ! i # drop (Suc i) xs)"
    using True by (simp only: id_take_nth_drop [symmetric])
  then show ?thesis by (simp add: remove_at_def sorted_by_append)
qed (simp add: remove_at_def)

lemma sorted_list_remove_inside:
  assumes inv: "sorted_list_inv impl" and i: "0 \<le> i" "i < int (sl_size impl)"
  shows "\<exists>impl'. sorted_list_remove (Some impl) i = (OVA_SUCCESS, Some impl') \<and>
     sorted_list_inv impl' \<and> sl_cmp impl' = sl_cmp impl \<and>
     sorted_list_items impl' = remove_at (nat i) (sorted_list_items impl)"
proof -
  let ?impl = "impl\<lparr>sl_items := memmove (sl_items impl) (nat i) (Suc (nat i)) (sl_size impl - nat i - 1),
    sl_size := sl_size impl - 1\<rparr>"
  have bounds: "nat i < sl_size impl" "sl_size impl \<le> length (sl_items impl)"
    using assms by (auto simp: sorted_list_inv_def)
  then have items: "sorted_list_items ?impl = remove_at (nat i) (sorted_list_items impl)"
    using memmove_close_gap by (simp add: sorted_list_items_def)
  moreover have "sorted_list_inv ?impl"
  proof -
    have "length (memmove (sl_items impl) (nat i) (Suc (nat i)) (sl_size impl - nat i - 1))
        = length (sl_items impl)"
      using bounds by (intro length_memmove) auto
    then show ?thesis
      using inv items unfolding sorted_list_inv_def by (auto simp: sorted_remove_at)
  qed
  ultimately show ?thesis using i by (simp add: Let_def)
qed

section \<open>The sorted list is an ordered list\<close>

definition sorted_list_insert_method ::
  "'a sorted_list \<Rightarrow> 'a ptr \<Rightarrow> int \<Rightarrow> 'a world \<Rightarrow> ova_error_code \<times> 'a sorted_list \<times> 'a world" where
  "sorted_list_insert_method l x i w =
     (case sorted_list_insert (Some l) x i w of (e, l', w') \<Rightarrow> (e, the l', w'))"

definition sorted_list_remove_method ::
  "'a sorted_list \<Rightarrow> int \<Rightarrow> ova_error_code \<times> 'a sorted_list" where
  "sorted_list_remove_method l i =
     (case sorted_list_remove (Some l) i of (e, l') \<Rightarrow> (e, the l'))"

lemma sorted_list_insert_method_cases:
  assumes inv: "sorted_list_inv l" and ins: "sorted_list_insert_method l x i w = (e, l', w')"
  shows "sorted_list_inv l' \<and> sl_cmp l' = sl_cmp l \<and>
     (e = OVA_SUCCESS \<and> (\<exists>k \<le> sl_size l.
        sorted_list_items l' = insert_at k x (sorted_list_items l) \<and>
        (\<forall>y \<in> set (take k (sorted_list_items l)). sl_cmp l x y > 0) \<and>
        (\<forall>y \<in> set (drop k (sorted_list_items l)). sl_cmp l x y \<le> 0)) \<or>
      e = OVA_ERROR_MEMORY \<and> sorted_list_items l' = sorted_list_items l)"
proof -
  obtain impl' where res: "sorted_list_insert (Some l) x i w = (e, Some impl', w')" "l' = impl'"
    using ins sorted_list_insert_self [of l x i w]
    by (auto simp: sorted_list_insert_method_def simp del: sorted_list_insert.simps)
  show ?thesis
  proof (cases "e = OVA_SUCCESS")
    case True
    with sorted_list_insert_success [OF inv, of x i w "Some impl'" w'] res show ?thesis by auto
  next
    case False
    with sorted_list_insert_error [OF inv res(1)] res(2) show ?thesis by auto
  qed
qed

interpretation sl: ordered_list sorted_list_insert_method "\<lambda>l i. (sorted_list_get (Some l) i, l)"
  sorted_list_remove_method "\<lambda>l. sorted_list_size (Some l)"
  "\<lambda>l. the (sorted_list_clear (Some l))" sorted_list_inv sorted_list_items sorted_list_ready sl_cmp
proof unfold_locales
  fix l l' :: "'a sorted_list" and x i w w' e
  assume inv: "sorted_list_inv l" and ins: "sorted_list_insert_method l x i w = (e, l', w')"
  note c = sorted_list_insert_method_cases [OF this]
  from c show "sorted_list_inv l'" and "sl_cmp l' = sl_cmp l" by blast+
  from c show "sorted_list_items l' = sorted_list_items l" if "e \<noteq> OVA_SUCCESS" using that by blast
next
  fix l l' :: "'a sorted_list" and x i w w'
  assume inv: "sorted_list_inv l" and ins: "sorted_list_insert_method l x i w = (OVA_SUCCESS, l', w')"
  from sorted_list_insert_method_cases [OF this] obtain k where k: "k \<le> sl_size l"
    "sorted_list_items l' = insert_at k x (sorted_list_items l)"
    "\<forall>y \<in> set (take k (sorted_list_items l)). sl_cmp l x y > 0"
    "\<forall>y \<in> set (drop k (sorted_list_items l)). sl_cmp l x y \<le> 0" by auto
  then show "mset (sorted_list_items l') = add_mset x (mset (sorted_list_items l))" by simp
  from k show "\<exists>k \<le> length (sorted_list_items l).
      sorted_list_items l' = insert_at k x (sorted_list_items l) \<and>
      (\<forall>y \<in> set (take k (sorted_list_items l)). sl_cmp l x y > 0) \<and>
      (\<forall>y \<in> set (drop k (sorted_list_items l)). sl_cmp l x y \<le> 0)"
    using inv by auto
next
  fix l :: "'a sorted_list" and x w n i
  assume inv: "sorted_list_inv l" and "sorted_list_ready l w n" "length (sorted_list_items l) < n"
  then obtain l1 w1 where "sorted_ensure_capacity l w = (True, l1, w1)" "sorted_list_ready l1 w1 n"
    using sorted_ensure_capacity_ready by fastforce
  then show "\<exists>l' w'. sorted_list_insert_method l x i w = (OVA_SUCCESS, l', w') \<and>
      sorted_list_ready l' w' n"
    by (simp add: sorted_list_insert_method_def Let_def sorted_list_ready_def)
next
  fix l :: "'a sorted_list" and i
  assume "sorted_list_inv l" "0 \<le> i" "i < int (length (sorted_list_items l))"
  with sorted_list_remove_inside [of l i]
  show "\<exists>l'. sorted_list_remove_method l i = (OVA_SUCCESS, l') \<and> sorted_list_inv l' \<and>
       sorted_list_items l' = remove_at (nat i) (sorted_list_items l)"
    by (auto simp: sorted_list_remove_method_def)
qed (auto simp: sorted_list_remove_method_def sorted_list_inv_def sorted_list_items_def nth_ptr_def
      sorted_list_ready_def intro: comparator_order.cmp_antisym comparator_order.cmp_trans)

end
