(* ===== verification/Set_Defaults.thy ===== *)
theory Set_Defaults
  imports Ova_Base
begin

text \<open>
  The default comparator and hash function of \<open>src/set/set.c\<close>, which work on the pointer value
  itself. A payload is a 64-bit address here; the null pointer is address 0.
\<close>

unbundle bit_operations_syntax

type_synonym address = "64 word"

fun uintptr :: "address ptr \<Rightarrow> 64 word" where
  "uintptr None = 0"
| "uintptr (Some a) = a"

definition set_default_ptr_compare :: "address comparator" where
  "set_default_ptr_compare a b =
     (let lhs = uintptr a; rhs = uintptr b in
      (if lhs > rhs then 1 else 0) - (if lhs < rhs then 1 else 0))"

text \<open>\<open>(int)(hash % (unsigned long)capacity)\<close>\<close>

definition hash_index :: "64 word \<Rightarrow> int \<Rightarrow> int" where
  "hash_index hash capacity = sint (ucast (hash mod word_of_int capacity) :: 32 word)"

definition set_default_ptr_hash :: "address ptr \<Rightarrow> int \<Rightarrow> int" where
  "set_default_ptr_hash key capacity =
     (if key = NULL \<or> capacity \<le> 0 then 0
      else
       (let x = uintptr key;
            x = x XOR drop_bit 16 x;
            x = x * 0x7feb352d;
            x = x XOR drop_bit 15 x;
            x = x * 0x846ca68b;
            x = x XOR drop_bit 16 x
        in hash_index x capacity))"

lemma ptr_compare_sign:
  "set_default_ptr_compare a b < 0 \<longleftrightarrow> uintptr a < uintptr b"
  "set_default_ptr_compare a b > 0 \<longleftrightarrow> uintptr b < uintptr a"
  "set_default_ptr_compare a b = 0 \<longleftrightarrow> uintptr a = uintptr b"
  "set_default_ptr_compare a b \<le> 0 \<longleftrightarrow> uintptr a \<le> uintptr b"
  by (auto simp: set_default_ptr_compare_def Let_def)

text \<open>The default comparator keeps the contract every ordered container relies on.\<close>

interpretation pc: comparator_order set_default_ptr_compare
proof unfold_locales
  show "sgn (set_default_ptr_compare a b) = - sgn (set_default_ptr_compare b a)" for a b
    by (auto simp: set_default_ptr_compare_def Let_def)
  show "set_default_ptr_compare a c \<le> 0"
    if "set_default_ptr_compare a b \<le> 0" "set_default_ptr_compare b c \<le> 0" for a b c
    using that by (simp add: ptr_compare_sign)
qed

text \<open>A bucket index is always inside the table: the cast back to \<open>int\<close> cannot turn negative
  because the capacity is a positive \<open>int\<close>.\<close>

lemma hash_index_range:
  assumes "is_int capacity" "0 < capacity"
  shows "0 \<le> hash_index x capacity \<and> hash_index x capacity < capacity"
proof -
  let ?r = "uint (x mod word_of_int capacity)"
  have "uint (word_of_int capacity :: 64 word) = capacity"
    using assms by (simp add: is_int_def unsigned_of_int take_bit_int_eq_self)
  then have r: "0 \<le> ?r" "?r < capacity"
    using assms by (simp_all add: uint_mod)
  then have "is_int ?r" using assms unfolding is_int_def by linarith
  then have "sint (word_of_int ?r :: 32 word) = ?r"
    using wrap_int_id [of ?r] by (simp only: wrap_int_def)
  then have "hash_index x capacity = ?r"
    by (simp only: hash_index_def ucast_eq)
  then show ?thesis using r by simp
qed

lemma ptr_hash_range:
  assumes "is_int capacity" "0 < capacity"
  shows "0 \<le> set_default_ptr_hash key capacity \<and> set_default_ptr_hash key capacity < capacity"
  using assms hash_index_range [OF assms] by (simp add: set_default_ptr_hash_def Let_def)

end
