(* ===== verification/Lists.thy ===== *)
theory Lists
  imports Array_List Linked_List Sorted_List Set_Defaults
begin

text \<open>
  The public list object, \<open>src/list/list.c\<close>. The constructors of the three backends store
  their functions in the object; calling through those pointers is a case distinction on the
  representation here. On top of it come the factory, the bulk insertion and the two clone
  functions, which only use the object's own methods.
\<close>

section \<open>The list object and its methods\<close>

datatype list_type = ARRAY_LIST | LINKED_LIST | SORTED_LIST

datatype 'a list_impl =
    Array_Impl "'a array_list"
  | Linked_Impl "'a linked_list"
  | Sorted_Impl "'a sorted_list"

record 'a list_obj =
  lo_impl :: "'a list_impl"
  lo_type :: list_type
  lo_cmp :: "'a comparator option"
  lo_user_data :: "'a ptr"

definition list_insert ::
  "'a list_obj \<Rightarrow> 'a ptr \<Rightarrow> int \<Rightarrow> 'a world \<Rightarrow> ova_error_code \<times> 'a list_obj \<times> 'a world" where
  "list_insert self item index w =
     (case lo_impl self of
        Array_Impl a \<Rightarrow>
          (case array_list_insert a item index w of (e, a', w') \<Rightarrow>
             (e, self\<lparr>lo_impl := Array_Impl a'\<rparr>, w'))
      | Linked_Impl a \<Rightarrow>
          (case linked_list_insert a item index w of (e, a', w') \<Rightarrow>
             (e, self\<lparr>lo_impl := Linked_Impl a'\<rparr>, w'))
      | Sorted_Impl a \<Rightarrow>
          (case sorted_list_insert_method a item index w of (e, a', w') \<Rightarrow>
             (e, self\<lparr>lo_impl := Sorted_Impl a'\<rparr>, w')))"

definition list_get :: "'a list_obj \<Rightarrow> int \<Rightarrow> 'a ptr \<times> 'a list_obj" where
  "list_get self index =
     (case lo_impl self of
        Array_Impl a \<Rightarrow> (array_list_get a index, self)
      | Linked_Impl a \<Rightarrow>
          (case linked_list_get a index of (x, a') \<Rightarrow> (x, self\<lparr>lo_impl := Linked_Impl a'\<rparr>))
      | Sorted_Impl a \<Rightarrow> (sorted_list_get (Some a) index, self))"

definition list_remove :: "'a list_obj \<Rightarrow> int \<Rightarrow> ova_error_code \<times> 'a list_obj" where
  "list_remove self index =
     (case lo_impl self of
        Array_Impl a \<Rightarrow>
          (case array_list_remove a index of (e, a') \<Rightarrow> (e, self\<lparr>lo_impl := Array_Impl a'\<rparr>))
      | Linked_Impl a \<Rightarrow>
          (case linked_list_remove a index of (e, a') \<Rightarrow> (e, self\<lparr>lo_impl := Linked_Impl a'\<rparr>))
      | Sorted_Impl a \<Rightarrow>
          (case sorted_list_remove_method a index of (e, a') \<Rightarrow>
             (e, self\<lparr>lo_impl := Sorted_Impl a'\<rparr>)))"

definition list_size :: "'a list_obj \<Rightarrow> int" where
  "list_size self =
     (case lo_impl self of
        Array_Impl a \<Rightarrow> array_list_size (Some a)
      | Linked_Impl a \<Rightarrow> linked_list_size (Some a)
      | Sorted_Impl a \<Rightarrow> sorted_list_size (Some a))"

definition list_clear :: "'a list_obj \<Rightarrow> 'a list_obj" where
  "list_clear self =
     (case lo_impl self of
        Array_Impl a \<Rightarrow> self\<lparr>lo_impl := Array_Impl (the (array_list_clear (Some a)))\<rparr>
      | Linked_Impl a \<Rightarrow> self\<lparr>lo_impl := Linked_Impl (the (linked_list_clear (Some a)))\<rparr>
      | Sorted_Impl a \<Rightarrow> self\<lparr>lo_impl := Sorted_Impl (the (sorted_list_clear (Some a)))\<rparr>)"

definition list_free :: "'a list_obj \<Rightarrow> 'a world \<Rightarrow> 'a world" where
  "list_free self w =
     (case lo_impl self of Array_Impl a \<Rightarrow> array_list_free (Some a) w | _ \<Rightarrow> w)"

section \<open>The factory and the functions built on the methods\<close>

definition create_list ::
  "list_type \<Rightarrow> int \<Rightarrow> 'a comparator option \<Rightarrow> 'a world \<Rightarrow> 'a list_obj option \<times> 'a world" where
  "create_list type initial_capacity cmp w =
     (case (case type of
              ARRAY_LIST \<Rightarrow>
                (case create_array_list initial_capacity w of (r, w') \<Rightarrow> (map_option Array_Impl r, w'))
            | LINKED_LIST \<Rightarrow>
                (case create_linked_list w of (r, w') \<Rightarrow> (map_option Linked_Impl r, w'))
            | SORTED_LIST \<Rightarrow>
                (case create_sorted_list initial_capacity cmp w of (r, w') \<Rightarrow>
                   (map_option Sorted_Impl r, w')))
      of (out, w') \<Rightarrow>
        (map_option (\<lambda>impl. \<lparr>lo_impl = impl, lo_type = type, lo_cmp = cmp, lo_user_data = NULL\<rparr>) out,
         w'))"

definition list_insert_bulk ::
  "'a list_obj option \<Rightarrow> 'a ptr list option \<Rightarrow> int \<Rightarrow> 'a world \<Rightarrow>
     ova_error_code \<times> 'a list_obj option \<times> 'a world" where
  "list_insert_bulk self elements cnt w =
     (case (self, elements) of
        (Some l, Some elems) \<Rightarrow>
          (if cnt \<le> 0 then (OVA_ERROR_INVALID_ARG, self, w)
           else (case append_loop list_insert list_size (take (nat cnt) elems) l w of
                   (err, l', w') \<Rightarrow> (err, Some l', w')))
      | _ \<Rightarrow> (OVA_ERROR_INVALID_ARG, self, w))"

text \<open>The common body of the two clone functions: the copy, the object itself (whose cursor the
  getter may have moved) and the world. A failed clone releases the copy.\<close>

definition list_clone_with ::
  "('a ptr \<Rightarrow> 'a world \<Rightarrow> 'a ptr option \<times> 'a world) \<Rightarrow> 'a list_obj \<Rightarrow> 'a world \<Rightarrow>
     'a list_obj option \<times> 'a list_obj \<times> 'a world" where
  "list_clone_with dup self w =
     (let n = list_size self in
      (case create_list (lo_type self) (if n > 0 then n else 1) (lo_cmp self) w of
         (None, w1) \<Rightarrow> (None, self, w1)
       | (Some copy, w1) \<Rightarrow>
          (case clone_loop list_get list_insert list_size dup 0 (nat n) self copy w1 of
             (ok, self', copy', w2) \<Rightarrow>
               (if ok then (Some (copy'\<lparr>lo_user_data := lo_user_data self\<rparr>), self', w2)
                else (None, self', list_free copy' w2)))))"

fun list_clone_shallow ::
  "'a list_obj option \<Rightarrow> 'a world \<Rightarrow> 'a list_obj option \<times> 'a list_obj option \<times> 'a world" where
  "list_clone_shallow None w = (None, None, w)"
| "list_clone_shallow (Some self) w =
     (case list_clone_with dup_shallow self w of (copy, self', w') \<Rightarrow> (copy, Some self', w'))"

fun list_clone_deep ::
  "'a list_obj option \<Rightarrow> 'a element_copier option \<Rightarrow> 'a world \<Rightarrow>
     'a list_obj option \<times> 'a list_obj option \<times> 'a world" where
  "list_clone_deep (Some self) (Some copier) w =
     (case list_clone_with (dup_deep copier) self w of (copy, self', w') \<Rightarrow> (copy, Some self', w'))"
| "list_clone_deep self _ w = (None, self, w)"

section \<open>Invariant and abstraction\<close>

definition list_inv :: "'a list_obj \<Rightarrow> bool" where
  "list_inv self \<longleftrightarrow>
     (case lo_impl self of
        Array_Impl a \<Rightarrow> lo_type self = ARRAY_LIST \<and> array_list_inv a
      | Linked_Impl a \<Rightarrow> lo_type self = LINKED_LIST \<and> linked_list_inv a
      | Sorted_Impl a \<Rightarrow> lo_type self = SORTED_LIST \<and> sorted_list_inv a \<and> lo_cmp self = Some (sl_cmp a))"

definition list_items :: "'a list_obj \<Rightarrow> 'a ptr list" where
  "list_items self =
     (case lo_impl self of
        Array_Impl a \<Rightarrow> array_list_items a
      | Linked_Impl a \<Rightarrow> linked_list_items a
      | Sorted_Impl a \<Rightarrow> sorted_list_items a)"

definition list_ready :: "'a list_obj \<Rightarrow> 'a world \<Rightarrow> nat \<Rightarrow> bool" where
  "list_ready self w n \<longleftrightarrow>
     (case lo_impl self of
        Array_Impl a \<Rightarrow> array_list_ready a w n
      | Linked_Impl a \<Rightarrow> linked_list_ready a w n
      | Sorted_Impl a \<Rightarrow> sorted_list_ready a w n)"

text \<open>The two backends that respect the index, and the one that orders its elements.\<close>

definition positional :: "'a list_obj \<Rightarrow> bool" where
  "positional self \<longleftrightarrow> list_inv self \<and> lo_type self \<noteq> SORTED_LIST"

definition ordered :: "'a list_obj \<Rightarrow> bool" where
  "ordered self \<longleftrightarrow> list_inv self \<and> lo_type self = SORTED_LIST"

definition list_order :: "'a list_obj \<Rightarrow> 'a comparator" where
  "list_order self = (case lo_cmp self of Some cmp \<Rightarrow> cmp | None \<Rightarrow> (\<lambda>a b. 0))"

lemmas list_op_defs = list_insert_def list_get_def list_remove_def list_size_def list_clear_def

lemma list_op_type:
  "list_insert l x i w = (e, l', w') \<Longrightarrow> lo_type l' = lo_type l \<and> lo_cmp l' = lo_cmp l \<and>
     lo_user_data l' = lo_user_data l"
  by (auto simp: list_insert_def split: list_impl.splits prod.splits)

lemma list_get_type: "list_get l i = (x, l') \<Longrightarrow> lo_type l' = lo_type l \<and> lo_cmp l' = lo_cmp l"
  by (auto simp: list_get_def split: list_impl.splits prod.splits)

lemma ordered_impl:
  "ordered l \<Longrightarrow> \<exists>a. lo_impl l = Sorted_Impl a \<and> sorted_list_inv a \<and>
     list_order l = sl_cmp a \<and> list_items l = sorted_list_items a"
  by (auto simp: ordered_def list_inv_def list_order_def list_items_def split: list_impl.splits)

section \<open>The list object keeps its backend's contract\<close>

lemma list_insert_inv: "list_inv l \<Longrightarrow> list_insert l x i w = (e, l', w') \<Longrightarrow> list_inv l'"
  by (cases "lo_impl l")
    (auto simp: list_insert_def list_inv_def split: prod.splits
      dest: al.insert_inv ll.insert_inv sorted_list_insert_method_cases)

lemma list_insert_fail:
  "list_inv l \<Longrightarrow> list_insert l x i w = (e, l', w') \<Longrightarrow> e \<noteq> OVA_SUCCESS \<Longrightarrow>
     list_items l' = list_items l"
  by (cases "lo_impl l")
    (auto simp: list_insert_def list_inv_def list_items_def split: prod.splits
      dest: al.insert_fail ll.insert_fail sl.insert_fail)

lemma list_insert_bag:
  "list_inv l \<Longrightarrow> list_insert l x i w = (OVA_SUCCESS, l', w') \<Longrightarrow>
     mset (list_items l') = add_mset x (mset (list_items l))"
  by (cases "lo_impl l")
    (auto simp: list_insert_def list_inv_def list_items_def split: prod.splits
      dest: al.insert_bag ll.insert_bag sl.insert_bag)

lemma list_insert_ready:
  assumes "list_inv l" "list_ready l w n" "length (list_items l) < n"
    "0 \<le> i" "i \<le> int (length (list_items l))"
  shows "\<exists>l' w'. list_insert l x i w = (OVA_SUCCESS, l', w') \<and> list_ready l' w' n"
proof (cases "lo_impl l")
  case (Array_Impl a)
  with assms al.insert_ready [of a w n i x] show ?thesis
    by (auto simp: list_insert_def list_inv_def list_items_def list_ready_def)
next
  case (Linked_Impl a)
  with assms ll.insert_ready [of a w n i x] show ?thesis
    by (auto simp: list_insert_def list_inv_def list_items_def list_ready_def)
next
  case (Sorted_Impl a)
  with assms sl.insert_ready [of a w n i x] show ?thesis
    by (auto simp: list_insert_def list_inv_def list_items_def list_ready_def)
qed

lemma list_get_spec:
  assumes "list_inv l"
  shows "list_inv (snd (list_get l i)) \<and> list_items (snd (list_get l i)) = list_items l \<and>
     fst (list_get l i) = nth_ptr (list_items l) i \<and>
     list_ready (snd (list_get l i)) w n = list_ready l w n \<and>
     lo_type (snd (list_get l i)) = lo_type l \<and> lo_cmp (snd (list_get l i)) = lo_cmp l"
proof (cases "lo_impl l")
  case (Array_Impl a)
  with assms al.get_facts [of a i] show ?thesis
    by (simp add: list_get_def list_inv_def list_items_def)
next
  case (Linked_Impl a)
  with assms ll.get_facts [of a i] show ?thesis
    by (cases "linked_list_get a i")
      (simp add: list_get_def list_inv_def list_items_def list_ready_def)
next
  case (Sorted_Impl a)
  with assms sl.get_facts [of a i] show ?thesis
    by (simp add: list_get_def list_inv_def list_items_def)
qed

lemma list_remove_inside:
  assumes "list_inv l" "0 \<le> i" "i < int (length (list_items l))"
  shows "\<exists>l'. list_remove l i = (OVA_SUCCESS, l') \<and> list_inv l' \<and>
     list_items l' = remove_at (nat i) (list_items l) \<and> lo_type l' = lo_type l"
proof (cases "lo_impl l")
  case (Array_Impl a)
  with assms al.remove_inside [of a i] show ?thesis
    by (auto simp: list_remove_def list_inv_def list_items_def)
next
  case (Linked_Impl a)
  with assms ll.remove_inside [of a i] show ?thesis
    by (auto simp: list_remove_def list_inv_def list_items_def)
next
  case (Sorted_Impl a)
  with assms have "sorted_list_inv a" "i < int (sl_size a)"
    by (auto simp: list_inv_def list_items_def)
  from sorted_list_remove_inside [OF this(1) assms(2) this(2)] Sorted_Impl assms show ?thesis
    by (auto simp: list_remove_def list_inv_def list_items_def sorted_list_remove_method_def
        simp del: sorted_list_remove.simps)
qed

lemma list_remove_outside:
  "list_inv l \<Longrightarrow> i < 0 \<or> int (length (list_items l)) \<le> i \<Longrightarrow>
     list_remove l i = (OVA_ERROR_INDEX_OUT_OF_BOUNDS, l)"
  by (cases l; cases "lo_impl l")
    (auto simp: list_remove_def list_inv_def list_items_def al.remove_outside ll.remove_outside
      sl.remove_outside simp del: array_list_size.simps)

lemma list_size_items: "list_inv l \<Longrightarrow> list_size l = int (length (list_items l))"
  by (cases "lo_impl l") (auto simp: list_size_def list_inv_def list_items_def)

lemma list_clear_spec:
  assumes "list_inv l"
  shows "list_inv (list_clear l) \<and> list_items (list_clear l) = [] \<and>
     lo_type (list_clear l) = lo_type l \<and> lo_cmp (list_clear l) = lo_cmp l \<and>
     (list_ready l w n \<longrightarrow> list_ready (list_clear l) w n)"
proof (cases "lo_impl l")
  case (Array_Impl a)
  with assms al.clear_inv [of a] al.clear_items [of a] al.clear_ready [of a w n] show ?thesis
    by (auto simp: list_clear_def list_inv_def list_items_def list_ready_def)
next
  case (Linked_Impl a)
  with assms ll.clear_inv [of a] ll.clear_items [of a] ll.clear_ready [of a w n] show ?thesis
    by (auto simp: list_clear_def list_inv_def list_items_def list_ready_def
        simp del: linked_list_clear.simps)
next
  case (Sorted_Impl a)
  with assms sl.clear_inv [of a] sl.clear_items [of a] sl.clear_ready [of a w n] show ?thesis
    by (auto simp: list_clear_def list_inv_def list_items_def list_ready_def)
qed

interpretation lo: list_store list_insert list_get list_remove list_size list_clear
  list_inv list_items list_ready
  by unfold_locales
    (auto simp: list_get_spec list_size_items list_clear_spec list_remove_outside
      intro: list_insert_inv list_insert_fail list_insert_bag list_insert_ready
      dest: list_remove_inside)

text \<open>The same object seen through the two stronger contracts, and the lemmas that the
  components built on lists use.\<close>

lemma positional_inv: "positional l \<Longrightarrow> list_inv l"
  by (simp add: positional_def)

lemma ordered_inv: "ordered l \<Longrightarrow> list_inv l"
  by (simp add: ordered_def)

lemma list_insert_pos:
  assumes "positional l" "list_insert l x i w = (OVA_SUCCESS, l', w')"
  shows "0 \<le> i \<and> i \<le> int (length (list_items l)) \<and>
     list_items l' = insert_at (nat i) x (list_items l)"
proof (cases "lo_impl l")
  case (Array_Impl a)
  with assms show ?thesis
    by (auto simp: list_insert_def list_inv_def list_items_def positional_def split: prod.splits
        dest: array_list_insert_success)
next
  case (Linked_Impl a)
  with assms show ?thesis
    by (auto simp: list_insert_def list_inv_def list_items_def positional_def split: prod.splits
        dest: linked_list_insert_cases)
next
  case (Sorted_Impl a)
  with assms show ?thesis by (auto simp: positional_def list_inv_def)
qed

lemma list_insert_outside:
  "positional l \<Longrightarrow> i < 0 \<or> int (length (list_items l)) < i \<Longrightarrow>
     list_insert l x i w = (OVA_ERROR_INDEX_OUT_OF_BOUNDS, l, w)"
  by (cases l; cases "lo_impl l")
    (auto simp: list_insert_def list_inv_def list_items_def positional_def
      array_list_insert_outside linked_list_insert_outside)

lemma list_insert_positional:
  "positional l \<Longrightarrow> list_insert l x i w = (e, l', w') \<Longrightarrow> positional l'"
  using list_op_type [of l x i w e l' w'] list_insert_inv [of l x i w e l' w']
  by (simp add: positional_def)

interpretation pl: positional_list list_insert list_get list_remove list_size list_clear
  positional list_items list_ready
proof unfold_locales
  fix l l' :: "'a list_obj" and x i w e w'
  assume "positional l" "list_insert l x i w = (e, l', w')"
  then show "positional l'" by (rule list_insert_positional)
next
  fix l :: "'a list_obj" and i
  assume "positional l" "0 \<le> i" "i < int (length (list_items l))"
  then show "\<exists>l'. list_remove l i = (OVA_SUCCESS, l') \<and> positional l' \<and>
      list_items l' = remove_at (nat i) (list_items l)"
    using list_remove_inside [of l i] by (auto simp: positional_def)
next
  fix l l' :: "'a list_obj" and x i w w'
  assume "positional l" "list_insert l x i w = (OVA_SUCCESS, l', w')"
  then show "0 \<le> i \<and> i \<le> int (length (list_items l)) \<and>
      list_items l' = insert_at (nat i) x (list_items l)"
    by (rule list_insert_pos)
next
  fix l :: "'a list_obj" and x i w
  assume "positional l" "i < 0 \<or> int (length (list_items l)) < i"
  then show "list_insert l x i w = (OVA_ERROR_INDEX_OUT_OF_BOUNDS, l, w)"
    by (rule list_insert_outside)
qed (auto simp: positional_def list_get_spec list_size_items list_clear_spec list_remove_outside
      intro: list_insert_fail list_insert_bag list_insert_ready)

lemma list_insert_ordered:
  assumes "ordered l" "list_insert l x i w = (e, l', w')"
  shows "ordered l' \<and> list_order l' = list_order l"
  using assms list_op_type [of l x i w e l' w'] list_insert_inv [of l x i w e l' w']
  by (simp add: ordered_def list_order_def)

interpretation ol: ordered_list list_insert list_get list_remove list_size list_clear
  ordered list_items list_ready list_order
proof unfold_locales
  fix l l' :: "'a list_obj" and x i w e w'
  assume "ordered l" "list_insert l x i w = (e, l', w')"
  with list_insert_ordered [OF this] show "ordered l'" "list_order l' = list_order l" by simp_all
next
  fix l :: "'a list_obj" and i
  assume "ordered l" "0 \<le> i" "i < int (length (list_items l))"
  then show "\<exists>l'. list_remove l i = (OVA_SUCCESS, l') \<and> ordered l' \<and>
      list_items l' = remove_at (nat i) (list_items l)"
    using list_remove_inside [of l i] by (auto simp: ordered_def)
next
  fix l l' :: "'a list_obj" and x i w w'
  assume o: "ordered l" and ins: "list_insert l x i w = (OVA_SUCCESS, l', w')"
  from o obtain a where a: "lo_impl l = Sorted_Impl a" "sorted_list_inv a" "list_order l = sl_cmp a"
    using ordered_impl by blast
  then obtain a' where "sorted_list_insert_method a x i w = (OVA_SUCCESS, a', w')"
    "lo_impl l' = Sorted_Impl a'"
    using ins by (auto simp: list_insert_def split: prod.splits)
  with sl.insert_place [OF a(2) this(1)] a
  show "\<exists>k \<le> length (list_items l). list_items l' = insert_at k x (list_items l) \<and>
      (\<forall>y \<in> set (take k (list_items l)). list_order l x y > 0) \<and>
      (\<forall>y \<in> set (drop k (list_items l)). list_order l x y \<le> 0)"
    by (simp add: list_items_def)
next
  fix l :: "'a list_obj" and a b c
  assume o: "ordered l"
  then obtain s where "sorted_list_inv s" "list_order l = sl_cmp s" "list_items l = sorted_list_items s"
    using ordered_impl by blast
  then have order: "comparator_order (list_order l)" and "sorted_by (list_order l) (list_items l)"
    by (simp_all add: sorted_list_inv_def)
  then show "sorted_by (list_order l) (list_items l)" by simp
  show "sgn (list_order l a b) = - sgn (list_order l b a)"
    using comparator_order.cmp_antisym [OF order] .
  show "list_order l a c \<le> 0" if "list_order l a b \<le> 0" "list_order l b c \<le> 0"
    using comparator_order.cmp_trans [OF order that] .
qed (auto simp: ordered_def list_get_spec list_size_items list_clear_spec list_remove_outside
      intro: list_insert_fail list_insert_bag list_insert_ready)

text \<open>The methods of an index-respecting list, as the components built on lists use them.\<close>

lemma list_size_positional: "positional l \<Longrightarrow> list_size l = int (length (list_items l))"
  using list_size_items positional_inv by blast

lemma list_get_positional:
  assumes "positional l" "list_get l i = (x, l')"
  shows "positional l' \<and> list_items l' = list_items l \<and> x = nth_ptr (list_items l) i \<and>
     lo_type l' = lo_type l"
  using list_get_spec [of l i] assms by (auto simp: positional_def)

lemma list_remove_positional:
  assumes "positional l" "0 \<le> i" "i < int (length (list_items l))"
  shows "\<exists>l'. list_remove l i = (OVA_SUCCESS, l') \<and> positional l' \<and>
     list_items l' = remove_at (nat i) (list_items l) \<and> lo_type l' = lo_type l"
  using list_remove_inside [of l i] assms by (auto simp: positional_def)

lemma list_insert_last:
  assumes "positional l" "list_insert l x (list_size l) w = (e, l', w')"
  shows "positional l' \<and> lo_type l' = lo_type l \<and>
    list_items l' = (if e = OVA_SUCCESS then list_items l @ [x] else list_items l)"
  using pl.insert_last [of l x w l' w'] pl.insert_fail [of l x "list_size l" w e l' w']
    list_insert_positional [OF assms] list_op_type [OF assms(2)] assms by auto

lemma list_insert_first:
  assumes "positional l" "list_insert l x 0 w = (e, l', w')"
  shows "positional l' \<and> lo_type l' = lo_type l \<and>
    list_items l' = (if e = OVA_SUCCESS then x # list_items l else list_items l)"
  using pl.insert_pos [of l x 0 w l' w'] pl.insert_fail [of l x 0 w e l' w']
    list_insert_positional [OF assms] list_op_type [OF assms(2)] assms by auto

section \<open>Creation, bulk insertion, cloning\<close>

lemma malloc_struct_no_failures: "alloc_fails w = [] \<Longrightarrow> malloc_struct w = (True, w)"
  by (simp add: malloc_struct_def malloc_no_failures PTRDIFF_MAX_def)

lemma create_list_positional:
  assumes "create_list type n cmp w = (Some l, w')" "is_int n" "type \<noteq> SORTED_LIST"
  shows "positional l \<and> list_items l = [] \<and> lo_type l = type \<and> lo_cmp l = cmp \<and>
     (alloc_fails w' = [] \<or> type = ARRAY_LIST \<longrightarrow> list_ready l w' (nat n))"
  using assms create_array_list_inv [of n w] create_linked_list_inv [of w]
  by (cases type)
    (auto simp: create_list_def positional_def list_inv_def list_items_def list_ready_def
      array_list_ready_def linked_list_ready_def split: prod.splits)

lemma create_list_ordered:
  assumes "create_list SORTED_LIST n (Some cmp) w = (Some l, w')" "is_int n" "comparator_order cmp"
  shows "ordered l \<and> list_items l = [] \<and> list_order l = cmp"
  using assms create_sorted_list_inv [of n cmp w]
  by (auto simp: create_list_def ordered_def list_inv_def list_items_def list_order_def
      split: prod.splits)

lemma create_list_no_failures:
  assumes "alloc_fails w = []" "0 < n" "n \<le> int INT_MAX" "type \<noteq> SORTED_LIST"
  shows "\<exists>l w'. create_list type n cmp w = (Some l, w') \<and> alloc_fails w' = []"
  using assms ptr_bytes_fits [of n]
  by (cases type)
    (simp_all add: create_list_def create_array_list_def create_linked_list_def
      malloc_struct_no_failures malloc_ptrs_def malloc_no_failures)

lemma clone_loop_type:
  "clone_loop list_get list_insert list_size dup i n src copy w = (ok, src', copy', w') \<Longrightarrow>
     lo_type copy' = lo_type copy \<and> lo_cmp copy' = lo_cmp copy \<and>
     lo_type src' = lo_type src \<and> lo_cmp src' = lo_cmp src"
  by (induction n arbitrary: i src copy w)
    (auto split: prod.splits option.splits if_splits dest: list_op_type list_get_type)

text \<open>The user data pointer is no part of the contents.\<close>

lemma user_data_frame [simp]:
  "list_inv (l\<lparr>lo_user_data := u\<rparr>) = list_inv l"
  "list_items (l\<lparr>lo_user_data := u\<rparr>) = list_items l"
  "positional (l\<lparr>lo_user_data := u\<rparr>) = positional l"
  "ordered (l\<lparr>lo_user_data := u\<rparr>) = ordered l"
  "list_order (l\<lparr>lo_user_data := u\<rparr>) = list_order l"
  by (cases l, cases "lo_impl l",
      simp_all add: list_inv_def list_items_def positional_def ordered_def list_order_def)+

text \<open>The size the clone asks for is an \<open>int\<close> for the array backends; the linked backend ignores
  it.\<close>

lemma list_clone_with_spec:
  assumes pos: "positional self" and fit: "length (list_items self) \<le> INT_MAX"
    and clone: "list_clone_with dup self w = (Some copy, self', w')"
  shows "positional copy \<and> lo_type copy = lo_type self \<and> lo_user_data copy = lo_user_data self \<and>
     list_all2 (dup_of dup) (list_items self) (list_items copy) \<and>
     positional self' \<and> list_items self' = list_items self"
proof -
  let ?n = "list_size self" and ?xs = "list_items self"
  have n: "?n = int (length ?xs)" using list_size_items positional_inv pos by blast
  from clone obtain copy0 w1 where
    create: "create_list (lo_type self) (if ?n > 0 then ?n else 1) (lo_cmp self) w = (Some copy0, w1)"
    by (auto simp: list_clone_with_def Let_def split: prod.splits option.splits if_splits)
  then obtain copy1 w2 where
    loop: "clone_loop list_get list_insert list_size dup (int 0) (length ?xs) self copy0 w1
        = (True, self', copy1, w2)" and copy: "copy = copy1\<lparr>lo_user_data := lo_user_data self\<rparr>"
    using clone n by (auto simp: list_clone_with_def Let_def split: prod.splits if_splits)
  have "is_int (if ?n > 0 then ?n else 1)" using n fit by (simp add: is_int_def INT_MAX_def)
  from create_list_positional [OF create this] pos
  have c0: "positional copy0" "list_items copy0 = []" "lo_type copy0 = lo_type self"
    by (simp_all add: positional_def)
  note bag = pl.clone_loop_bag [OF pos c0(1) _ loop]
  from pl.clone_loop_append [OF pos c0(1) _ loop]
  have items: "list_all2 (dup_of dup) ?xs (list_items copy1)" using c0(2) by simp
  have "lo_type copy1 = lo_type copy0"
    using clone_loop_type [OF loop] by simp
  with bag items c0 copy show ?thesis by simp
qed

section \<open>Properties\<close>

abbreviation list_run ::
  "'a list_cmd list \<Rightarrow> 'a list_obj \<Rightarrow> 'a world \<Rightarrow> 'a list_reply list \<times> 'a list_obj \<times> 'a world" where
  "list_run \<equiv> run_cmds (exec_cmd list_insert list_get list_remove list_size list_clear)"

text \<open>C1: Whatever a client calls on an array-backed or a linked list object, in whatever order,
  and whichever allocations fail, the answers are those of a sequence: insertion shifts, removal
  closes the gap, out-of-range indices are refused without effect, a failed allocation has no
  effect, and the representation invariant holds at the end.\<close>

theorem list_refines_sequence:
  assumes "create_list type n cmp w = (Some l, w1)" "is_int n" "type \<noteq> SORTED_LIST"
  shows "list_spec_run cs [] (fst (list_run cs l w1)) (list_items (fst (snd (list_run cs l w1))))
    \<and> list_inv (fst (snd (list_run cs l w1)))"
proof -
  have l: "positional l" "list_items l = []" using create_list_positional [OF assms] by simp_all
  show ?thesis
    using pl.run_refines [OF l(1), of cs w1 "fst (list_run cs l w1)" "fst (snd (list_run cs l w1))"
        "snd (snd (list_run cs l w1))"] l(2) by (auto dest: positional_inv)
qed

text \<open>The array list created with capacity 2, for the concrete runs.\<close>

definition sample_array :: "nat list_obj" where
  "sample_array = \<lparr>lo_impl = Array_Impl \<lparr>al_items = [None, None], al_size = 0, al_capacity = 2\<rparr>,
     lo_type = ARRAY_LIST, lo_cmp = None, lo_user_data = None\<rparr>"

lemma create_sample_array:
  "create_list ARRAY_LIST 2 None (fresh_world :: nat world) =
     (Some sample_array, fresh_world\<lparr>active_item_buffers := 1\<rparr>)"
  by (simp add: create_list_def create_array_list_def malloc_ptrs_def malloc_struct_def malloc_def
      sample_array_def ptr_bytes_nonneg INT_MAX_def PTRDIFF_MAX_def upt_rec)

theorem list_refines_sequence_witness:
  "list_spec_run [Insert_Cmd (Some 5) 0, Insert_Cmd (Some (6::nat)) 0, Remove_Cmd 7, Get_Cmd 1] []
     (fst (list_run [Insert_Cmd (Some 5) 0, Insert_Cmd (Some 6) 0, Remove_Cmd 7, Get_Cmd 1]
        sample_array (fresh_world\<lparr>active_item_buffers := 1\<rparr>)))
     (list_items (fst (snd (list_run [Insert_Cmd (Some 5) 0, Insert_Cmd (Some 6) 0, Remove_Cmd 7,
        Get_Cmd 1] sample_array (fresh_world\<lparr>active_item_buffers := 1\<rparr>))))) \<and>
   fst (list_run [Insert_Cmd (Some 5) 0, Insert_Cmd (Some 6) 0, Remove_Cmd 7, Get_Cmd 1]
        sample_array (fresh_world\<lparr>active_item_buffers := 1\<rparr>)) =
     [Code_Reply OVA_SUCCESS, Code_Reply OVA_SUCCESS, Code_Reply OVA_ERROR_INDEX_OUT_OF_BOUNDS,
      Ptr_Reply (Some 5)]"
proof (intro conjI)
  show "list_spec_run [Insert_Cmd (Some 5) 0, Insert_Cmd (Some (6::nat)) 0, Remove_Cmd 7, Get_Cmd 1] []
     (fst (list_run [Insert_Cmd (Some 5) 0, Insert_Cmd (Some 6) 0, Remove_Cmd 7, Get_Cmd 1]
        sample_array (fresh_world\<lparr>active_item_buffers := 1\<rparr>)))
     (list_items (fst (snd (list_run [Insert_Cmd (Some 5) 0, Insert_Cmd (Some 6) 0, Remove_Cmd 7,
        Get_Cmd 1] sample_array (fresh_world\<lparr>active_item_buffers := 1\<rparr>)))))"
    by (rule list_refines_sequence [OF create_sample_array, THEN conjunct1]) (simp_all add: is_int_def)
qed (simp add: sample_array_def list_insert_def list_remove_def list_get_def
      array_list_insert_def array_list_remove_def array_list_get_def array_ensure_capacity_def
      memmove_def Let_def)

text \<open>A shallow clone of an array or linked list always succeeds when memory is available: it
  is a list of the same type with the same elements in the same order and the same user data,
  and the original keeps its elements.\<close>

theorem list_clone_shallow_copies:
  assumes "positional l" "length (list_items l) \<le> INT_MAX" "alloc_fails w = []"
  shows "\<exists>copy l' w'. list_clone_shallow (Some l) w = (Some copy, Some l', w') \<and>
    list_items copy = list_items l \<and> lo_type copy = lo_type l \<and>
    lo_user_data copy = lo_user_data l \<and> list_inv copy \<and> list_inv l' \<and>
    list_items l' = list_items l"
proof -
  let ?n = "list_size l" and ?m = "if list_size l > 0 then list_size l else 1"
  have n: "?n = int (length (list_items l))" using list_size_items positional_inv assms(1) by blast
  have m: "0 < ?m" "?m \<le> int INT_MAX" "nat ?m \<ge> length (list_items l)" "is_int ?m"
    using n assms(2) by (auto simp: INT_MAX_def is_int_def)
  obtain c0 w1 where create: "create_list (lo_type l) ?m (lo_cmp l) w = (Some c0, w1)"
    "alloc_fails w1 = []"
    using create_list_no_failures [of w ?m "lo_type l" "lo_cmp l"] assms(1,3) m
    by (auto simp: positional_def)
  then have c0: "positional c0" "list_items c0 = []" "list_ready c0 w1 (nat ?m)"
    using create_list_positional [OF create(1) m(4)] assms(1) by (auto simp: positional_def)
  from pl.clone_loop_ready [OF assms(1) c0(1), of 0 "length (list_items l)" w1 "nat ?m"] c0 m(3)
  obtain l' c1 w2 where
    loop: "clone_loop list_get list_insert list_size dup_shallow 0 (nat ?n) l c0 w1 = (True, l', c1, w2)"
    using n by auto
  then have clone: "list_clone_with dup_shallow l w
      = (Some (c1\<lparr>lo_user_data := lo_user_data l\<rparr>), l', w2)"
    using create(1) by (simp add: list_clone_with_def Let_def)
  from list_clone_with_spec [OF assms(1,2) clone] clone show ?thesis
    by (auto simp: positional_inv)
qed

theorem list_clone_shallow_copies_witness:
  "\<exists>copy l' w'. list_clone_shallow (Some (sample_array\<lparr>lo_impl := Array_Impl
      \<lparr>al_items = [Some 3, Some 4], al_size = 1, al_capacity = 2\<rparr>\<rparr>)) fresh_world
      = (Some copy, Some l', w') \<and> list_items copy = [Some 3]"
  using list_clone_shallow_copies [of "sample_array\<lparr>lo_impl := Array_Impl
      \<lparr>al_items = [Some 3, Some 4], al_size = 1, al_capacity = 2\<rparr>\<rparr>" fresh_world]
  by (force simp: sample_array_def positional_def list_inv_def array_list_inv_def list_items_def
      array_list_items_def INT_MAX_def simp del: list_clone_shallow.simps)

text \<open>C4: Bulk insertion into an array or linked list appends the first \<open>count\<close> elements in order;
  when an insertion fails the elements before it have been appended, nothing else has changed,
  and the error is reported.\<close>

theorem list_insert_bulk_prefix:
  assumes "positional l" "0 < cnt" "nat cnt \<le> length xs"
  shows "\<exists>l' k e w'. list_insert_bulk (Some l) (Some xs) cnt w = (e, Some l', w') \<and> k \<le> nat cnt \<and>
    list_items l' = list_items l @ take k xs \<and> (e = OVA_SUCCESS \<longleftrightarrow> k = nat cnt) \<and> list_inv l'"
proof -
  obtain e l' w' where run: "append_loop list_insert list_size (take (nat cnt) xs) l w = (e, l', w')"
    by (metis prod_cases3)
  have len: "length (take (nat cnt) xs) = nat cnt" using assms(3) by simp
  from pl.append_loop_prefix [OF assms(1) run, unfolded len] obtain k where
    "positional l'" "k \<le> nat cnt" "list_items l' = list_items l @ take k (take (nat cnt) xs)"
    "e = OVA_SUCCESS \<longleftrightarrow> k = nat cnt"
    by blast
  with run assms(2) positional_inv show ?thesis by (auto simp: list_insert_bulk_def min_absorb1)
qed

theorem list_insert_bulk_prefix_witness:
  "\<exists>l' k e w'. list_insert_bulk (Some sample_array) (Some [Some 1, Some 2, Some 3]) 3
       (fresh_world\<lparr>alloc_fails := [True]\<rparr>) = (e, Some l', w') \<and>
     list_items l' = take k [Some 1, Some 2, Some 3] \<and> (e = OVA_SUCCESS \<longleftrightarrow> k = 3)"
proof -
  have "positional sample_array" "list_items sample_array = []"
    by (simp_all add: sample_array_def positional_def list_inv_def array_list_inv_def list_items_def
        array_list_items_def INT_MAX_def)
  with list_insert_bulk_prefix [of sample_array 3 "[Some 1, Some 2, Some 3]"
      "fresh_world\<lparr>alloc_fails := [True]\<rparr>"] show ?thesis by fastforce
qed

text \<open>C3: A sorted list that is loaded in bulk stays sorted under its comparator and contains
  exactly what it had and the batch; when an insertion fails it contains the part of the batch
  before the failure.\<close>

theorem sorted_list_bulk_sorts:
  assumes "create_list SORTED_LIST n (Some cmp) w0 = (Some l, w)" "is_int n" "comparator_order cmp"
    "0 < cnt" "nat cnt \<le> length xs"
  shows "\<exists>l' k e w'. list_insert_bulk (Some l) (Some xs) cnt w = (e, Some l', w') \<and> k \<le> nat cnt \<and>
    mset (list_items l') = mset (take k xs) \<and> sorted_by cmp (list_items l') \<and>
    (e = OVA_SUCCESS \<longleftrightarrow> k = nat cnt) \<and> list_inv l'"
proof -
  have l: "ordered l" "list_items l = []" "list_order l = cmp"
    using create_list_ordered [OF assms(1-3)] by simp_all
  obtain e l' w' where run: "append_loop list_insert list_size (take (nat cnt) xs) l w = (e, l', w')"
    by (metis prod_cases3)
  have len: "length (take (nat cnt) xs) = nat cnt" using assms(5) by simp
  from ol.append_loop_bag [OF l(1) run, unfolded len] l(2,3) obtain k where
    k: "ordered l'" "list_order l' = cmp" "k \<le> nat cnt"
    "mset (list_items l') = mset (take k (take (nat cnt) xs))" "e = OVA_SUCCESS \<longleftrightarrow> k = nat cnt"
    by auto
  with ol.items_sorted [OF k(1)] run assms(4) ordered_inv show ?thesis
    by (auto simp: list_insert_bulk_def min_absorb1)
qed

lemma create_sample_sorted:
  "create_list SORTED_LIST 2 (Some set_default_ptr_compare) fresh_world =
     (Some \<lparr>lo_impl = Sorted_Impl \<lparr>sl_items = [None, None], sl_size = 0, sl_capacity = 2,
         sl_cmp = set_default_ptr_compare\<rparr>, lo_type = SORTED_LIST,
         lo_cmp = Some set_default_ptr_compare, lo_user_data = None\<rparr>, fresh_world)"
  by (simp add: create_list_def create_sorted_list_def malloc_ptrs_def malloc_struct_def malloc_def
      clamp_initial_capacity_def ptr_bytes_nonneg INT_MAX_def PTRDIFF_MAX_def upt_rec)

theorem sorted_list_bulk_sorts_witness:
  "\<exists>l' k e w'. list_insert_bulk
      (Some \<lparr>lo_impl = Sorted_Impl \<lparr>sl_items = [None, None], sl_size = 0, sl_capacity = 2,
         sl_cmp = set_default_ptr_compare\<rparr>, lo_type = SORTED_LIST,
         lo_cmp = Some set_default_ptr_compare, lo_user_data = None\<rparr>)
      (Some [Some 9, Some 4, Some 6]) 3 fresh_world = (e, Some l', w') \<and>
      sorted_by set_default_ptr_compare (list_items l') \<and>
      mset (list_items l') = mset (take k [Some 9, Some 4, Some 6])"
  using sorted_list_bulk_sorts [OF create_sample_sorted _ pc.comparator_order_axioms,
      of 3 "[Some 9, Some 4, Some 6]"]
  by (fastforce simp: is_int_def)

text \<open>Cloning a sorted list inserts its elements one by one, and an insertion goes in front of
  the elements that compare equal. So the clone of a list whose elements all tie is the reversal
  of the original, not a copy of it.\<close>

theorem sorted_clone_reverses_ties:
  assumes "ordered l" "\<forall>x \<in> set (list_items l). \<forall>y \<in> set (list_items l). list_order l x y = 0"
    and "length (list_items l) \<le> INT_MAX"
    and "list_clone_shallow (Some l) w = (Some copy, Some l', w')"
  shows "list_items copy = rev (list_items l) \<and> list_items l' = list_items l"
proof -
  let ?n = "list_size l" and ?m = "if list_size l > 0 then list_size l else 1"
  have n: "?n = int (length (list_items l))" using list_size_items ordered_inv assms(1) by blast
  have int: "is_int ?m" using n assms(3) by (auto simp: INT_MAX_def is_int_def)
  have type: "lo_type l = SORTED_LIST" "lo_cmp l = Some (list_order l)"
    using assms(1) by (auto simp: ordered_def list_order_def list_inv_def split: list_impl.splits)
  from assms(4) obtain c where clone: "list_clone_with dup_shallow l w = (Some copy, l', w')"
    by (auto split: prod.splits)
  then obtain c0 w1 where create: "create_list SORTED_LIST ?m (Some (list_order l)) w = (Some c0, w1)"
    by (auto simp: list_clone_with_def Let_def type split: prod.splits option.splits if_splits)
  then obtain c1 w2 where
    loop: "clone_loop list_get list_insert list_size dup_shallow (int 0) (length (list_items l)) l c0 w1
        = (True, l', c1, w2)" and copy: "copy = c1\<lparr>lo_user_data := lo_user_data l\<rparr>"
    using clone n by (auto simp: list_clone_with_def Let_def type split: prod.splits if_splits)
  have "comparator_order (list_order l)" by (rule ol.order_ok [OF assms(1)])
  with create_list_ordered [OF create int] have
    c0: "ordered c0" "list_items c0 = []" "list_order c0 = list_order l" by simp_all
  from ol.clone_loop_ties [OF assms(1) c0(1) _ _ loop] c0(2,3) assms(2)
  have "list_items c1 = rev (list_items l)" by simp
  with copy ol.clone_loop_bag [OF assms(1) c0(1) _ loop] show ?thesis by simp
qed

definition sample_ties :: "nat list_obj" where
  "sample_ties = \<lparr>lo_impl = Sorted_Impl \<lparr>sl_items = [Some 1, Some 2], sl_size = 2, sl_capacity = 2,
     sl_cmp = (\<lambda>a b. 0)\<rparr>, lo_type = SORTED_LIST, lo_cmp = Some (\<lambda>a b. 0), lo_user_data = None\<rparr>"

theorem sorted_clone_reverses_ties_witness:
  "\<exists>copy l' w'. list_clone_shallow (Some sample_ties) fresh_world = (Some copy, Some l', w') \<and>
     list_items copy = [Some 2, Some 1]"
proof -
  have order: "comparator_order (\<lambda>a b :: nat ptr. 0)" by unfold_locales simp_all
  have l: "ordered sample_ties" "list_items sample_ties = [Some 1, Some 2]"
    "list_order sample_ties = (\<lambda>a b. 0)"
    using order by (simp_all add: sample_ties_def ordered_def list_inv_def sorted_list_inv_def
        sorted_list_items_def list_items_def list_order_def INT_MAX_def)
  let ?c = "sample_ties\<lparr>lo_impl := Sorted_Impl
    \<lparr>sl_items = [None, None], sl_size = 0, sl_capacity = 2, sl_cmp = (\<lambda>a b. 0)\<rparr>\<rparr>"
  have create: "create_list SORTED_LIST 2 (Some (\<lambda>a b. 0)) fresh_world = (Some ?c, fresh_world)"
    by (simp add: create_list_def create_sorted_list_def malloc_ptrs_def malloc_struct_def malloc_def
        clamp_initial_capacity_def ptr_bytes_nonneg INT_MAX_def PTRDIFF_MAX_def sample_ties_def upt_rec)
  have c0: "ordered ?c" "list_items ?c = []" "list_ready ?c fresh_world 2"
    using order by (simp_all add: sample_ties_def ordered_def list_inv_def sorted_list_inv_def
        sorted_list_items_def list_items_def list_ready_def sorted_list_ready_def INT_MAX_def)
  obtain l' c' w' where
    loop: "clone_loop list_get list_insert list_size dup_shallow 0 2 sample_ties ?c fresh_world
       = (True, l', c', w')"
    using ol.clone_loop_ready [OF l(1) c0(1), of 0 2 fresh_world 2] l(2) c0 by auto
  have sel: "list_size sample_ties = 2" "lo_type sample_ties = SORTED_LIST"
    "lo_cmp sample_ties = Some (\<lambda>a b. 0)" "lo_user_data sample_ties = None"
    by (simp_all add: sample_ties_def list_size_def)
  have c: "list_clone_shallow (Some sample_ties) fresh_world
      = (Some (c'\<lparr>lo_user_data := None\<rparr>), Some l', w')"
    using loop by (simp add: list_clone_with_def create sel)
  from sorted_clone_reverses_ties [OF l(1) _ _ c] l c show ?thesis
    by (simp add: INT_MAX_def)
qed

end
