(* ===== verification/Stacks.thy ===== *)
theory Stacks
  imports Lists
begin

text \<open>
  Stacks, \<open>src/stack/stack.c\<close>, \<open>array_stack.c\<close> and \<open>linked_stack.c\<close>: a stack is a list of
  the first component, used at its end (array) or at its head (linked). \<open>create_stack\<close> never
  hands out a stack without a list, so the list is not optional here and the null tests on
  \<open>impl\<close> are never taken; which push function the object holds is its type.
\<close>

section \<open>The contract of a last-in first-out container\<close>

definition front_ptr :: "'a ptr list \<Rightarrow> 'a ptr" where
  "front_ptr xs = (case xs of [] \<Rightarrow> NULL | x # _ \<Rightarrow> x)"

lemma front_ptr_simps [simp]: "front_ptr [] = NULL" "front_ptr (x # xs) = x"
  by (simp_all add: front_ptr_def)

lemma front_ptr_nth: "xs \<noteq> [] \<Longrightarrow> front_ptr xs = xs ! 0"
  by (cases xs) simp_all

lemma front_ptr_rev: "xs \<noteq> [] \<Longrightarrow> front_ptr (rev xs) = xs ! (length xs - 1)"
  by (cases xs rule: rev_cases) simp_all

locale lifo =
  fixes push_op :: "'s \<Rightarrow> 'a ptr \<Rightarrow> 'a world \<Rightarrow> ova_error_code \<times> 's \<times> 'a world"
    and pop_op :: "'s \<Rightarrow> 'a ptr \<times> 's"
    and top_op :: "'s \<Rightarrow> 'a ptr \<times> 's"
    and inv :: "'s \<Rightarrow> bool"
    and elems :: "'s \<Rightarrow> 'a ptr list"
  assumes push_inv: "inv s \<Longrightarrow> push_op s x w = (e, s', w') \<Longrightarrow> inv s'"
    and push_elems: "inv s \<Longrightarrow> push_op s x w = (e, s', w') \<Longrightarrow>
          elems s' = (if e = OVA_SUCCESS then x # elems s else elems s)"
    and pop_spec: "inv s \<Longrightarrow> pop_op s = (x, s') \<Longrightarrow>
          inv s' \<and> x = front_ptr (elems s) \<and> elems s' = tl (elems s)"
    and top_spec: "inv s \<Longrightarrow> top_op s = (x, s') \<Longrightarrow>
          inv s' \<and> x = front_ptr (elems s) \<and> elems s' = elems s"
begin

lemma push_all_elems:
  "inv s \<Longrightarrow> push_all push_op xs s w = (e, s', w') \<Longrightarrow>
     inv s' \<and> (\<exists>k \<le> length xs. elems s' = rev (take k xs) @ elems s \<and> (e = OVA_SUCCESS \<longleftrightarrow> k = length xs))"
proof (induction xs arbitrary: s w)
  case Nil
  then show ?case by simp
next
  case (Cons x xs)
  obtain e1 s1 w1 where push: "push_op s x w = (e1, s1, w1)" by (metis prod_cases3)
  note inv1 = push_inv [OF Cons.prems(1) push] and el1 = push_elems [OF Cons.prems(1) push]
  show ?case
  proof (cases "e1 = OVA_SUCCESS")
    case False
    with Cons.prems(2) push inv1 el1 show ?thesis by (intro conjI exI [of _ 0]) auto
  next
    case True
    then have "push_all push_op xs s1 w1 = (e, s', w')" using Cons.prems(2) push by simp
    from Cons.IH [OF inv1 this] obtain k where "inv s'" "k \<le> length xs"
      "elems s' = rev (take k xs) @ elems s1" "e = OVA_SUCCESS \<longleftrightarrow> k = length xs" by blast
    with True el1 show ?thesis by (intro conjI exI [of _ "Suc k"]) simp_all
  qed
qed

lemma pop_n_elems:
  "inv s \<Longrightarrow> n \<le> length (elems s) \<Longrightarrow> pop_n pop_op n s = (xs, s') \<Longrightarrow>
     xs = take n (elems s) \<and> inv s' \<and> elems s' = drop n (elems s)"
proof (induction n arbitrary: s xs s')
  case 0
  then show ?case by simp
next
  case (Suc n)
  obtain x s1 where pop: "pop_op s = (x, s1)" by fastforce
  obtain ys s2 where rest: "pop_n pop_op n s1 = (ys, s2)" by fastforce
  from pop_spec [OF Suc.prems(1) pop]
  have s1: "inv s1" "x = front_ptr (elems s)" "elems s1 = tl (elems s)" by simp_all
  have ne: "elems s \<noteq> []" using Suc.prems(2) by auto
  from Suc.IH [OF s1(1) _ rest] Suc.prems s1(3)
  have "ys = take n (elems s1) \<and> inv s2 \<and> elems s2 = drop n (elems s1)" by simp
  then show ?case
    using Suc.prems(3) pop rest s1 ne by (cases "elems s") (auto simp: drop_Suc)
qed

text \<open>What went in comes out in reverse, and what was there before is left.\<close>

lemma push_all_pop_n:
  assumes "inv s" "push_all push_op xs s w = (OVA_SUCCESS, s1, w')"
    "pop_n pop_op (length xs) s1 = (ys, s2)"
  shows "ys = rev xs \<and> elems s2 = elems s \<and> inv s2"
proof -
  from push_all_elems [OF assms(1,2)] have "inv s1" "elems s1 = rev xs @ elems s" by auto
  with pop_n_elems [OF \<open>inv s1\<close> _ assms(3)] show ?thesis by simp
qed

text \<open>Past the bottom every pop answers null.\<close>

lemma pop_empty: "inv s \<Longrightarrow> elems s = [] \<Longrightarrow> pop_op s = (x, s') \<Longrightarrow> x = NULL \<and> elems s' = []"
  using pop_spec by force

end

section \<open>The stack object\<close>

datatype stack_type = ARRAY_STACK | LINKED_STACK

record 'a stack_obj =
  stk_impl :: "'a list_obj"
  stk_push :: stack_type
  stk_user_data :: "'a ptr"

definition array_stack_push ::
  "'a list_obj \<Rightarrow> 'a ptr \<Rightarrow> 'a world \<Rightarrow> ova_error_code \<times> 'a list_obj \<times> 'a world" where
  "array_stack_push lst item w = list_insert lst item (list_size lst) w"

definition array_stack_pop :: "'a list_obj \<Rightarrow> 'a ptr \<times> 'a list_obj" where
  "array_stack_pop lst =
     (if list_size lst = 0 then (NULL, lst)
      else (case list_get lst (list_size lst - 1) of (item, lst1) \<Rightarrow>
            case list_remove lst1 (list_size lst1 - 1) of (_, lst2) \<Rightarrow> (item, lst2)))"

definition linked_stack_push ::
  "'a list_obj \<Rightarrow> 'a ptr \<Rightarrow> 'a world \<Rightarrow> ova_error_code \<times> 'a list_obj \<times> 'a world" where
  "linked_stack_push lst item w = list_insert lst item 0 w"

definition linked_stack_pop :: "'a list_obj \<Rightarrow> 'a ptr \<times> 'a list_obj" where
  "linked_stack_pop lst =
     (if list_size lst = 0 then (NULL, lst)
      else (case list_get lst 0 of (item, lst1) \<Rightarrow>
            case list_remove lst1 0 of (_, lst2) \<Rightarrow> (item, lst2)))"

definition create_stack :: "stack_type \<Rightarrow> 'a world \<Rightarrow> 'a stack_obj option \<times> 'a world" where
  "create_stack type w =
     (case malloc_struct w of
        (False, w1) \<Rightarrow> (None, w1)
      | (True, w1) \<Rightarrow>
         (case create_list (if type = ARRAY_STACK then ARRAY_LIST else LINKED_LIST) 10 None w1 of
            (None, w2) \<Rightarrow> (None, w2)
          | (Some l, w2) \<Rightarrow> (Some \<lparr>stk_impl = l, stk_push = type, stk_user_data = NULL\<rparr>, w2)))"

definition stack_push ::
  "'a stack_obj \<Rightarrow> 'a ptr \<Rightarrow> 'a world \<Rightarrow> ova_error_code \<times> 'a stack_obj \<times> 'a world" where
  "stack_push self item w =
     (case (if stk_push self = ARRAY_STACK then array_stack_push else linked_stack_push)
             (stk_impl self) item w of
        (e, l, w') \<Rightarrow> (e, self\<lparr>stk_impl := l\<rparr>, w'))"

definition stack_pop :: "'a stack_obj \<Rightarrow> 'a ptr \<times> 'a stack_obj" where
  "stack_pop self =
     (case (if stk_push self = ARRAY_STACK then array_stack_pop else linked_stack_pop)
             (stk_impl self) of
        (x, l) \<Rightarrow> (x, self\<lparr>stk_impl := l\<rparr>))"

definition stack_top :: "'a stack_obj \<Rightarrow> 'a ptr \<times> 'a stack_obj" where
  "stack_top self =
     (let lst = stk_impl self in
      if list_size lst = 0 then (NULL, self)
      else (case list_get lst (if stk_push self = ARRAY_STACK then list_size lst - 1 else 0) of
              (x, lst') \<Rightarrow> (x, self\<lparr>stk_impl := lst'\<rparr>)))"

definition stack_is_empty :: "'a stack_obj \<Rightarrow> int" where
  "stack_is_empty self = (if list_size (stk_impl self) = 0 then 1 else 0)"

definition stack_size :: "'a stack_obj \<Rightarrow> int" where
  "stack_size self = list_size (stk_impl self)"

fun stack_clear :: "'a stack_obj option \<Rightarrow> 'a stack_obj option" where
  "stack_clear None = None"
| "stack_clear (Some self) = Some (self\<lparr>stk_impl := list_clear (stk_impl self)\<rparr>)"

fun stack_free :: "'a stack_obj option \<Rightarrow> 'a world \<Rightarrow> 'a world" where
  "stack_free None w = w"
| "stack_free (Some self) w = list_free (stk_impl self) w"

text \<open>The common body of the two clone functions: the list is copied in its internal order.\<close>

definition stack_clone_with ::
  "('a ptr \<Rightarrow> 'a world \<Rightarrow> 'a ptr option \<times> 'a world) \<Rightarrow> 'a stack_obj \<Rightarrow> 'a world \<Rightarrow>
     'a stack_obj option \<times> 'a stack_obj \<times> 'a world" where
  "stack_clone_with dup self w =
     (case create_stack (if stk_push self = ARRAY_STACK then ARRAY_STACK else LINKED_STACK) w of
        (None, w1) \<Rightarrow> (None, self, w1)
      | (Some copy, w1) \<Rightarrow>
         (case clone_loop list_get list_insert list_size dup 0 (nat (list_size (stk_impl self)))
                 (stk_impl self) (stk_impl copy) w1 of
            (ok, l, c, w2) \<Rightarrow>
              (if ok then (Some (copy\<lparr>stk_impl := c, stk_user_data := stk_user_data self\<rparr>),
                           self\<lparr>stk_impl := l\<rparr>, w2)
               else (None, self\<lparr>stk_impl := l\<rparr>, stack_free (Some (copy\<lparr>stk_impl := c\<rparr>)) w2))))"

fun stack_clone_shallow ::
  "'a stack_obj option \<Rightarrow> 'a world \<Rightarrow> 'a stack_obj option \<times> 'a stack_obj option \<times> 'a world" where
  "stack_clone_shallow None w = (None, None, w)"
| "stack_clone_shallow (Some self) w =
     (case stack_clone_with dup_shallow self w of (copy, self', w') \<Rightarrow> (copy, Some self', w'))"

fun stack_clone_deep ::
  "'a stack_obj option \<Rightarrow> 'a element_copier option \<Rightarrow> 'a world \<Rightarrow>
     'a stack_obj option \<times> 'a stack_obj option \<times> 'a world" where
  "stack_clone_deep (Some self) (Some copier) w =
     (case stack_clone_with (dup_deep copier) self w of (copy, self', w') \<Rightarrow> (copy, Some self', w'))"
| "stack_clone_deep self _ w = (None, self, w)"

section \<open>Invariant and abstraction\<close>

definition stack_inv :: "'a stack_obj \<Rightarrow> bool" where
  "stack_inv self \<longleftrightarrow> positional (stk_impl self) \<and>
     lo_type (stk_impl self) = (if stk_push self = ARRAY_STACK then ARRAY_LIST else LINKED_LIST)"

text \<open>The elements from the top down.\<close>

definition stack_elems :: "'a stack_obj \<Rightarrow> 'a ptr list" where
  "stack_elems self =
     (if stk_push self = ARRAY_STACK then rev (list_items (stk_impl self))
      else list_items (stk_impl self))"

lemma nat_pred_length: "nat (int (length xs) - 1) = length xs - Suc 0"
  by arith

lemma array_stack_pop_spec:
  assumes "positional l" "array_stack_pop l = (x, l')"
  shows "positional l' \<and> x = front_ptr (rev (list_items l)) \<and> list_items l' = butlast (list_items l)
     \<and> lo_type l' = lo_type l"
proof (cases "list_items l = []")
  case True
  with assms show ?thesis by (simp add: array_stack_pop_def list_size_positional)
next
  case False
  obtain y l1 where get: "list_get l (list_size l - 1) = (y, l1)" by fastforce
  note g = list_get_positional [OF assms(1) get]
  have sz: "list_size l = int (length (list_items l))" "list_size l1 = int (length (list_items l))"
    using list_size_positional assms(1) g by metis+
  obtain l2 where rm: "list_remove l1 (list_size l1 - 1) = (OVA_SUCCESS, l2)" "positional l2"
    "list_items l2 = butlast (list_items l)" "lo_type l2 = lo_type l"
    using list_remove_positional [of l1 "list_size l1 - 1"] g sz False
    by (auto simp: nat_pred_length Suc_le_eq)
  have "y = front_ptr (rev (list_items l))"
    using g sz False by (cases "list_items l" rule: rev_cases) (simp_all add: nth_ptr_def)
  then show ?thesis
    using assms(2) get rm sz False by (auto simp: array_stack_pop_def)
qed

lemma linked_stack_pop_spec:
  assumes "positional l" "linked_stack_pop l = (x, l')"
  shows "positional l' \<and> x = front_ptr (list_items l) \<and> list_items l' = tl (list_items l) \<and>
     lo_type l' = lo_type l"
proof (cases "list_items l = []")
  case True
  with assms show ?thesis by (simp add: linked_stack_pop_def list_size_positional)
next
  case False
  obtain y l1 where get: "list_get l 0 = (y, l1)" by fastforce
  note g = list_get_positional [OF assms(1) get]
  obtain l2 where rm: "list_remove l1 0 = (OVA_SUCCESS, l2)" "positional l2"
    "list_items l2 = tl (list_items l)" "lo_type l2 = lo_type l"
    using list_remove_positional [of l1 0] g False by auto
  have "y = front_ptr (list_items l)"
    using g False by (cases "list_items l") (simp_all add: nth_ptr_def)
  then show ?thesis
    using assms get rm False by (auto simp: linked_stack_pop_def list_size_positional)
qed

interpretation sk: lifo stack_push stack_pop stack_top stack_inv stack_elems
proof unfold_locales
  fix s s' :: "'a stack_obj" and x w e w'
  assume s: "stack_inv s" and push: "stack_push s x w = (e, s', w')"
  from push obtain l where l: "s' = s\<lparr>stk_impl := l\<rparr>"
    "(if stk_push s = ARRAY_STACK then array_stack_push else linked_stack_push) (stk_impl s) x w
       = (e, l, w')"
    by (auto simp: stack_push_def split: prod.splits)
  then have "positional l \<and> lo_type l = lo_type (stk_impl s) \<and> list_items l =
      (if e = OVA_SUCCESS then (if stk_push s = ARRAY_STACK then list_items (stk_impl s) @ [x]
        else x # list_items (stk_impl s)) else list_items (stk_impl s))"
    using s list_insert_last [of "stk_impl s" x w e l w'] list_insert_first [of "stk_impl s" x w e l w']
    by (auto simp: stack_inv_def array_stack_push_def linked_stack_push_def split: if_splits)
  with l(1) s show "stack_inv s'"
    and "stack_elems s' = (if e = OVA_SUCCESS then x # stack_elems s else stack_elems s)"
    by (auto simp: stack_inv_def stack_elems_def)
next
  fix s s' :: "'a stack_obj" and x
  assume s: "stack_inv s" and pop: "stack_pop s = (x, s')"
  from pop obtain l where l: "s' = s\<lparr>stk_impl := l\<rparr>"
    "(if stk_push s = ARRAY_STACK then array_stack_pop else linked_stack_pop) (stk_impl s) = (x, l)"
    by (auto simp: stack_pop_def split: prod.splits)
  with s array_stack_pop_spec [of "stk_impl s" x l] linked_stack_pop_spec [of "stk_impl s" x l]
  show "stack_inv s' \<and> x = front_ptr (stack_elems s) \<and> stack_elems s' = tl (stack_elems s)"
    by (auto simp: stack_inv_def stack_elems_def rev_butlast split: if_splits)
next
  fix s s' :: "'a stack_obj" and x
  assume s: "stack_inv s" and top: "stack_top s = (x, s')"
  let ?l = "stk_impl s"
  have pos: "positional ?l" using s by (simp add: stack_inv_def)
  show "stack_inv s' \<and> x = front_ptr (stack_elems s) \<and> stack_elems s' = stack_elems s"
  proof (cases "list_items ?l = []")
    case True
    with s top pos show ?thesis by (auto simp: stack_top_def stack_elems_def list_size_positional)
  next
    case False
    then obtain l where l: "s' = s\<lparr>stk_impl := l\<rparr>"
      "list_get ?l (if stk_push s = ARRAY_STACK then list_size ?l - 1 else 0) = (x, l)"
      using top list_size_positional [OF pos] by (auto simp: stack_top_def Let_def split: prod.splits)
    note l(2) [unfolded list_size_positional [OF pos]]
    from list_get_positional [OF pos this] l(1) s False show ?thesis
      by (auto simp: stack_inv_def stack_elems_def nth_ptr_def front_ptr_nth rev_nth
          nat_pred_length)
  qed
qed

section \<open>Properties\<close>

lemma create_stack_inv:
  assumes "create_stack type w = (Some s, w')"
  shows "stack_inv s \<and> stack_elems s = [] \<and> stk_push s = type \<and>
    (alloc_fails w' = [] \<longrightarrow> list_ready (stk_impl s) w' 10)"
proof -
  let ?t = "if type = ARRAY_STACK then ARRAY_LIST else LINKED_LIST"
  obtain l w1 where l: "create_list ?t 10 None w1 = (Some l, w')"
    "s = \<lparr>stk_impl = l, stk_push = type, stk_user_data = NULL\<rparr>"
    using assms by (auto simp: create_stack_def split: prod.splits bool.splits option.splits)
  have "is_int 10" by (simp add: is_int_def)
  with create_list_positional [OF l(1)] l(2) show ?thesis
    by (auto simp: stack_inv_def stack_elems_def split: if_splits)
qed

text \<open>A stack of either type is last-in first-out: after a batch has been pushed
  successfully, as many pops return the batch in reverse and leave what was there before, and
  the next call of \<open>top\<close> shows the element the next \<open>pop\<close> returns.\<close>

theorem stack_lifo:
  assumes "stack_inv s" "push_all stack_push xs s w = (OVA_SUCCESS, s1, w1)"
  shows "fst (pop_n stack_pop (length xs) s1) = rev xs \<and>
    stack_elems (snd (pop_n stack_pop (length xs) s1)) = stack_elems s \<and>
    stack_inv (snd (pop_n stack_pop (length xs) s1)) \<and>
    fst (stack_top s1) = fst (stack_pop s1)"
proof -
  have inv: "stack_inv s1" using sk.push_all_elems [OF assms] by blast
  have "fst (stack_top s1) = front_ptr (stack_elems s1)"
    "fst (stack_pop s1) = front_ptr (stack_elems s1)"
    using sk.top_spec [OF inv, of "fst (stack_top s1)"] sk.pop_spec [OF inv, of "fst (stack_pop s1)"]
    by (metis prod.collapse)+
  with sk.push_all_pop_n [OF assms, of "fst (pop_n stack_pop (length xs) s1)"] show ?thesis
    by (metis prod.collapse)
qed

definition sample_stack :: "nat stack_obj" where
  "sample_stack = \<lparr>stk_impl = sample_array, stk_push = ARRAY_STACK, stk_user_data = None\<rparr>"

lemma sample_stack_inv: "stack_inv sample_stack"
  by (simp add: sample_stack_def sample_array_def stack_inv_def positional_def list_inv_def
      array_list_inv_def INT_MAX_def)

theorem stack_lifo_witness:
  "\<exists>s1 w1. push_all stack_push [Some 1, Some 2] sample_stack fresh_world = (OVA_SUCCESS, s1, w1) \<and>
     fst (pop_n stack_pop 2 s1) = [Some 2, Some 1]"
proof -
  obtain s1 w1 where p:
    "push_all stack_push [Some 1, Some 2] sample_stack fresh_world = (OVA_SUCCESS, s1, w1)"
    by (simp add: sample_stack_def sample_array_def stack_push_def array_stack_push_def
        list_insert_def list_size_def array_list_insert_def array_ensure_capacity_def Let_def)
  from stack_lifo [OF sample_stack_inv p] p show ?thesis by (simp add: numeral_2_eq_2)
qed

text \<open>A clone that is handed out, shallow or deep, is a stack of the same type holding
  duplicates of the same elements in the same order; the original keeps its elements.\<close>

theorem stack_clone_same:
  assumes "stack_inv s" "stack_clone_with dup s w = (Some copy, s', w')"
  shows "stack_inv copy \<and> stk_push copy = stk_push s \<and> stk_user_data copy = stk_user_data s \<and>
    list_all2 (dup_of dup) (stack_elems s) (stack_elems copy) \<and>
    stack_inv s' \<and> stack_elems s' = stack_elems s"
proof -
  let ?l = "stk_impl s"
  have pos: "positional ?l" using assms(1) by (simp add: stack_inv_def)
  have type: "(if stk_push s = ARRAY_STACK then ARRAY_STACK else LINKED_STACK) = stk_push s"
    by (cases "stk_push s") simp_all
  obtain c0 w1 where create: "create_stack (stk_push s) w = (Some c0, w1)"
    using assms(2) unfolding stack_clone_with_def type
    by (auto split: prod.splits option.splits if_splits)
  note c0 = create_stack_inv [OF create]
  then have c0l: "positional (stk_impl c0)" "list_items (stk_impl c0) = []"
    by (auto simp: stack_inv_def stack_elems_def split: if_splits)
  obtain l c1 where
    loop: "clone_loop list_get list_insert list_size dup (int 0) (length (list_items ?l)) ?l
        (stk_impl c0) w1 = (True, l, c1, w')"
    and copy: "copy = c0\<lparr>stk_impl := c1, stk_user_data := stk_user_data s\<rparr>"
    and s': "s' = s\<lparr>stk_impl := l\<rparr>"
    using assms(2) create list_size_positional [OF pos] unfolding stack_clone_with_def type
    by (auto split: prod.splits option.splits if_splits)
  from pl.clone_loop_append [OF pos c0l(1) _ loop] c0l(2)
  have items: "list_all2 (dup_of dup) (list_items ?l) (list_items c1)" by simp
  from pl.clone_loop_bag [OF pos c0l(1) _ loop]
  have inv: "positional l" "list_items l = list_items ?l" "positional c1" by simp_all
  have "lo_type c1 = lo_type (stk_impl c0)" "lo_type l = lo_type ?l"
    using clone_loop_type [OF loop] by simp_all
  with items inv c0 copy s' assms(1) show ?thesis
    by (auto simp: stack_inv_def stack_elems_def)
qed

theorem stack_clone_same_witness:
  "\<exists>copy s' w'. stack_clone_with dup_shallow sample_stack fresh_world = (Some copy, s', w') \<and>
     stack_elems copy = []"
proof -
  obtain copy s' w' where c: "stack_clone_with dup_shallow sample_stack fresh_world = (Some copy, s', w')"
    by (simp add: stack_clone_with_def create_stack_def create_list_def create_array_list_def
        sample_stack_def sample_array_def list_size_def malloc_struct_def malloc_def malloc_ptrs_def
        ptr_bytes_nonneg INT_MAX_def PTRDIFF_MAX_def)
  from stack_clone_same [OF sample_stack_inv c] c show ?thesis
    by (auto simp: sample_stack_def sample_array_def stack_elems_def list_items_def
        array_list_items_def)
qed

end
