(* ===== verification/Deque.thy ===== *)
theory Deque
  imports List_Iface
begin

text \<open>
  The ring-buffer deque, \<open>src/deque/deque.c\<close>. The methods find the representation through the
  object pointer, which may be null; the representation of a live object is never null. Index
  sums such as \<open>front + size\<close> are 32-bit \<open>int\<close> sums in the code, so they wrap here; the
  invariant keeps the capacity at \<open>2 ^ 30\<close> or below, where they cannot.
\<close>

section \<open>State and operations\<close>

record 'a deque =
  dq_buffer :: "'a ptr list"
  dq_capacity :: nat
  dq_size :: nat
  dq_front :: nat
  dq_user_data :: "'a ptr"

definition DEFAULT_CAPACITY :: int where "DEFAULT_CAPACITY = 16"

definition memcpy :: "'b list \<Rightarrow> nat \<Rightarrow> 'b list \<Rightarrow> nat \<Rightarrow> 'b list" where
  "memcpy dst off src n = take off dst @ take n src @ drop (off + n) dst"

text \<open>An index expression reduced modulo the capacity.\<close>

definition ring_index :: "'a deque \<Rightarrow> int \<Rightarrow> nat" where
  "ring_index impl k = nat (wrap_int k mod int (dq_capacity impl))"

text \<open>The one or two block copies that lay the ring out from its front at the start of another
  buffer.\<close>

definition unroll_into :: "'a ptr list \<Rightarrow> 'a deque \<Rightarrow> 'a ptr list" where
  "unroll_into new_buffer impl =
     (let head_count = dq_capacity impl - dq_front impl in
      if head_count \<ge> dq_size impl
      then memcpy new_buffer 0 (drop (dq_front impl) (dq_buffer impl)) (dq_size impl)
      else memcpy (memcpy new_buffer 0 (drop (dq_front impl) (dq_buffer impl)) head_count)
             head_count (dq_buffer impl) (dq_size impl - head_count))"

definition deque_resize :: "'a deque \<Rightarrow> 'a world \<Rightarrow> bool \<times> 'a deque \<times> 'a world" where
  "deque_resize impl w =
     (let new_capacity = safe_double_capacity (dq_capacity impl) in
      if new_capacity = dq_capacity impl then (False, impl, w)
      else (case calloc_ptrs (int new_capacity) w of
          (None, w') \<Rightarrow> (False, impl, w')
        | (Some new_buffer, w') \<Rightarrow>
            (True, impl\<lparr>dq_buffer := unroll_into new_buffer impl, dq_capacity := new_capacity,
                        dq_front := 0\<rparr>, w')))"

text \<open>\<open>impl->size == impl->capacity && deque_resize_impl(impl) != 0\<close>\<close>

definition deque_reserve :: "'a deque \<Rightarrow> 'a world \<Rightarrow> bool \<times> 'a deque \<times> 'a world" where
  "deque_reserve impl w =
     (if dq_size impl = dq_capacity impl then deque_resize impl w else (True, impl, w))"

fun deque_push_front ::
  "'a deque option \<Rightarrow> 'a ptr \<Rightarrow> 'a world \<Rightarrow> ova_error_code \<times> 'a deque option \<times> 'a world" where
  "deque_push_front None element w = (OVA_ERROR_INVALID_ARG, None, w)"
| "deque_push_front (Some impl) element w =
     (case deque_reserve impl w of
        (False, impl, w') \<Rightarrow> (OVA_ERROR_MEMORY, Some impl, w')
      | (True, impl, w') \<Rightarrow>
          (let f = ring_index impl (int (dq_front impl) - 1 + int (dq_capacity impl)) in
           (OVA_SUCCESS, Some (impl\<lparr>dq_front := f, dq_buffer := (dq_buffer impl)[f := element],
                                   dq_size := dq_size impl + 1\<rparr>), w')))"

fun deque_push_back ::
  "'a deque option \<Rightarrow> 'a ptr \<Rightarrow> 'a world \<Rightarrow> ova_error_code \<times> 'a deque option \<times> 'a world" where
  "deque_push_back None element w = (OVA_ERROR_INVALID_ARG, None, w)"
| "deque_push_back (Some impl) element w =
     (case deque_reserve impl w of
        (False, impl, w') \<Rightarrow> (OVA_ERROR_MEMORY, Some impl, w')
      | (True, impl, w') \<Rightarrow>
          (let b = ring_index impl (int (dq_front impl) + int (dq_size impl)) in
           (OVA_SUCCESS, Some (impl\<lparr>dq_buffer := (dq_buffer impl)[b := element],
                                   dq_size := dq_size impl + 1\<rparr>), w')))"

fun deque_pop_front :: "'a deque option \<Rightarrow> 'a ptr \<times> 'a deque option" where
  "deque_pop_front None = (NULL, None)"
| "deque_pop_front (Some impl) =
     (if dq_size impl = 0 then (NULL, Some impl)
      else (dq_buffer impl ! dq_front impl,
            Some (impl\<lparr>dq_buffer := (dq_buffer impl)[dq_front impl := NULL],
                       dq_front := ring_index impl (int (dq_front impl) + 1),
                       dq_size := dq_size impl - 1\<rparr>)))"

definition deque_back :: "'a deque \<Rightarrow> nat" where
  "deque_back impl = ring_index impl (int (dq_front impl) + int (dq_size impl) - 1)"

fun deque_pop_back :: "'a deque option \<Rightarrow> 'a ptr \<times> 'a deque option" where
  "deque_pop_back None = (NULL, None)"
| "deque_pop_back (Some impl) =
     (if dq_size impl = 0 then (NULL, Some impl)
      else (dq_buffer impl ! deque_back impl,
            Some (impl\<lparr>dq_buffer := (dq_buffer impl)[deque_back impl := NULL],
                       dq_size := dq_size impl - 1\<rparr>)))"

fun deque_peek_front :: "'a deque option \<Rightarrow> 'a ptr" where
  "deque_peek_front None = NULL"
| "deque_peek_front (Some impl) =
     (if dq_size impl = 0 then NULL else dq_buffer impl ! dq_front impl)"

fun deque_peek_back :: "'a deque option \<Rightarrow> 'a ptr" where
  "deque_peek_back None = NULL"
| "deque_peek_back (Some impl) =
     (if dq_size impl = 0 then NULL else dq_buffer impl ! deque_back impl)"

fun deque_get :: "'a deque option \<Rightarrow> int \<Rightarrow> 'a ptr" where
  "deque_get None index = NULL"
| "deque_get (Some impl) index =
     (if index < 0 \<or> index \<ge> int (dq_size impl) then NULL
      else dq_buffer impl ! ring_index impl (int (dq_front impl) + index))"

fun deque_size :: "'a deque option \<Rightarrow> int" where
  "deque_size None = 0"
| "deque_size (Some impl) = int (dq_size impl)"

definition deque_is_empty :: "'a deque option \<Rightarrow> bool" where
  "deque_is_empty self \<longleftrightarrow> deque_size self = 0"

definition create_deque :: "int \<Rightarrow> 'a world \<Rightarrow> 'a deque option \<times> 'a world" where
  "create_deque capacity w =
     (let capacity = (if capacity \<le> 0 then DEFAULT_CAPACITY else capacity) in
      (case malloc_struct w of
         (False, w1) \<Rightarrow> (None, w1)
       | (True, w1) \<Rightarrow>
          (case malloc_struct w1 of
             (False, w2) \<Rightarrow> (None, w2)
           | (True, w2) \<Rightarrow>
              (case calloc_ptrs capacity w2 of
                 (None, w3) \<Rightarrow> (None, w3)
               | (Some buffer, w3) \<Rightarrow>
                   (Some \<lparr>dq_buffer = buffer, dq_capacity = nat capacity, dq_size = 0,
                          dq_front = 0, dq_user_data = NULL\<rparr>, w3)))))"

text \<open>Freeing returns the buffer and the object; nothing of them is left to model.\<close>

fun deque_clone_shallow :: "'a deque option \<Rightarrow> 'a world \<Rightarrow> 'a deque option \<times> 'a world" where
  "deque_clone_shallow None w = (None, w)"
| "deque_clone_shallow (Some impl) w =
     (let n = dq_size impl in
      (case create_deque (if n > 0 then int n else DEFAULT_CAPACITY) w of
         (None, w') \<Rightarrow> (None, w')
       | (Some copy, w') \<Rightarrow>
           (let copy = (if n > 0 then copy\<lparr>dq_buffer := unroll_into (dq_buffer copy) impl,
                                           dq_size := n\<rparr> else copy)
            in (Some (copy\<lparr>dq_user_data := dq_user_data impl\<rparr>), w'))))"

fun deque_clone_deep_loop ::
  "'a element_copier \<Rightarrow> 'a deque \<Rightarrow> nat \<Rightarrow> nat \<Rightarrow> 'a deque \<Rightarrow> 'a world \<Rightarrow> 'a deque option \<times> 'a world" where
  "deque_clone_deep_loop copier impl i 0 copy w = (Some copy, w)"
| "deque_clone_deep_loop copier impl i (Suc n) copy w =
     (case copier (dq_buffer impl ! ring_index impl (int (dq_front impl) + int i)) w of
        (None, w1) \<Rightarrow> (None, w1)
      | (Some dup, w1) \<Rightarrow>
         (case deque_push_back (Some copy) (Some dup) w1 of
            (OVA_SUCCESS, Some copy', w2) \<Rightarrow> deque_clone_deep_loop copier impl (i + 1) n copy' w2
          | (_, _, w2) \<Rightarrow> (None, w2)))"

fun deque_clone_deep ::
  "'a deque option \<Rightarrow> 'a element_copier option \<Rightarrow> 'a world \<Rightarrow> 'a deque option \<times> 'a world" where
  "deque_clone_deep (Some impl) (Some copier) w =
     (let n = dq_size impl in
      (case create_deque (if n > 0 then int n else DEFAULT_CAPACITY) w of
         (None, w') \<Rightarrow> (None, w')
       | (Some copy, w') \<Rightarrow>
          (case deque_clone_deep_loop copier impl 0 n copy w' of
             (None, w'') \<Rightarrow> (None, w'')
           | (Some copy, w'') \<Rightarrow> (Some (copy\<lparr>dq_user_data := dq_user_data impl\<rparr>), w''))))"
| "deque_clone_deep _ _ w = (None, w)"

section \<open>Invariant and abstraction\<close>

definition deque_inv :: "'a deque \<Rightarrow> bool" where
  "deque_inv impl \<longleftrightarrow> length (dq_buffer impl) = dq_capacity impl \<and> 0 < dq_capacity impl \<and>
     dq_capacity impl \<le> 2 ^ 30 \<and> dq_size impl \<le> dq_capacity impl \<and> dq_front impl < dq_capacity impl"

definition deque_items :: "'a deque \<Rightarrow> 'a ptr list" where
  "deque_items impl =
     map (\<lambda>i. dq_buffer impl ! ((dq_front impl + i) mod dq_capacity impl)) [0..<dq_size impl]"

lemma length_deque_items [simp]: "length (deque_items impl) = dq_size impl"
  by (simp add: deque_items_def)

lemma ring_index_small:
  "0 \<le> k \<Longrightarrow> k < 2 ^ 31 \<Longrightarrow> ring_index impl k = nat k mod dq_capacity impl"
  by (simp add: ring_index_def wrap_int_id is_int_def nat_mod_distrib)

text \<open>Two logical positions of a ring share a buffer slot only if they are the same.\<close>

lemma ring_slot_inj:
  "f < c \<Longrightarrow> i < c \<Longrightarrow> j < c \<Longrightarrow> (f + i) mod c = (f + j) mod c \<longleftrightarrow> i = (j :: nat)"
  by (auto simp: mod_if split: if_splits)

lemma mod_once: "k < 2 * c \<Longrightarrow> k mod c = (if k < c then k else k - c :: nat)"
  by (simp add: le_mod_geq)

lemma deque_items_nth:
  "i < dq_size impl \<Longrightarrow>
     deque_items impl ! i = dq_buffer impl ! ((dq_front impl + i) mod dq_capacity impl)"
  by (simp add: deque_items_def)

section \<open>The operations on the abstract sequence\<close>

lemma unroll_into_items:
  assumes "deque_inv impl" "dq_size impl \<le> length new"
  shows "unroll_into new impl = deque_items impl @ drop (dq_size impl) new"
proof -
  let ?h = "dq_capacity impl - dq_front impl"
  note inv = assms(1) [unfolded deque_inv_def]
  show ?thesis
  proof (cases "?h \<ge> dq_size impl")
    case True
    have "take (dq_size impl) (drop (dq_front impl) (dq_buffer impl)) = deque_items impl"
      using inv True by (intro nth_equalityI) (auto simp: deque_items_nth mod_once)
    with True show ?thesis by (simp add: unroll_into_def memcpy_def)
  next
    case False
    have "take ?h (drop (dq_front impl) (dq_buffer impl)) @
        take (dq_size impl - ?h) (dq_buffer impl) = deque_items impl"
    proof (rule nth_equalityI)
      have b: "?h \<le> length (drop (dq_front impl) (dq_buffer impl))"
        "dq_size impl - ?h \<le> length (dq_buffer impl)" using inv by auto
      show "length (take ?h (drop (dq_front impl) (dq_buffer impl)) @
        take (dq_size impl - ?h) (dq_buffer impl)) = length (deque_items impl)"
        using b False by (simp only: length_append length_take min_absorb2 length_deque_items)
      fix i assume "i < length (take ?h (drop (dq_front impl) (dq_buffer impl)) @
        take (dq_size impl - ?h) (dq_buffer impl))"
      then have i: "i < dq_size impl"
        using b False by (simp only: length_append length_take min_absorb2)
      have slot: "(dq_front impl + i) mod dq_capacity impl =
          (if i < ?h then dq_front impl + i else i - ?h)"
        using i inv by (auto simp: mod_once)
      show "(take ?h (drop (dq_front impl) (dq_buffer impl)) @
        take (dq_size impl - ?h) (dq_buffer impl)) ! i = deque_items impl ! i"
        unfolding deque_items_nth [OF i] slot using i inv by (simp add: nth_append)
    qed
    with False inv assms(2) show ?thesis
      by (auto simp: unroll_into_def memcpy_def min_def)
  qed
qed

lemma deque_reserve_spec:
  assumes inv: "deque_inv impl" and size: "dq_size impl < 2 ^ 29"
    and res: "deque_reserve impl w = (ok, impl', w')"
  shows "deque_inv impl' \<and> deque_items impl' = deque_items impl \<and> dq_size impl' = dq_size impl \<and>
     dq_user_data impl' = dq_user_data impl \<and> (ok \<longrightarrow> dq_size impl' < dq_capacity impl')"
proof (cases "dq_size impl = dq_capacity impl")
  case False
  with inv res show ?thesis by (auto simp: deque_reserve_def deque_inv_def)
next
  case True
  let ?c = "safe_double_capacity (dq_capacity impl)"
  have c: "?c = 2 * dq_capacity impl" "0 < dq_capacity impl"
    using True size inv by (simp_all add: safe_double_capacity_def INT_MAX_def deque_inv_def)
  show ?thesis
  proof (cases ok)
    case False
    with True res inv show ?thesis
      by (auto simp: deque_reserve_def deque_resize_def Let_def split: if_splits prod.splits
          option.splits)
  next
    case ok: True
    then obtain new where new: "calloc_ptrs (int ?c) w = (Some new, w')"
      and impl': "impl' = impl\<lparr>dq_buffer := unroll_into new impl, dq_capacity := ?c, dq_front := 0\<rparr>"
      using True res
      by (auto simp: deque_reserve_def deque_resize_def Let_def split: if_splits prod.splits
          option.splits)
    have "length new = ?c" using calloc_ptrs_Some [OF new] by simp
    with unroll_into_items [OF inv, of new] True c
    have buf: "dq_buffer impl' = deque_items impl @ drop (dq_size impl) new"
      "length (dq_buffer impl') = ?c"
      using impl' by simp_all
    then have "deque_inv impl'"
      using impl' True c size by (simp add: deque_inv_def)
    moreover have "deque_items impl' = deque_items impl"
      using impl' buf True c
      by (intro nth_equalityI) (simp_all add: deque_items_nth nth_append)
    ultimately show ?thesis using impl' True c by simp
  qed
qed

lemma deque_inv_index:
  assumes "deque_inv impl"
  shows "i \<le> dq_size impl \<Longrightarrow>
      ring_index impl (int (dq_front impl) + int i) = (dq_front impl + i) mod dq_capacity impl"
    and "0 < dq_size impl \<Longrightarrow> deque_back impl = (dq_front impl + (dq_size impl - 1)) mod dq_capacity impl"
    and "ring_index impl (int (dq_front impl) + 1) = (dq_front impl + 1) mod dq_capacity impl"
    and "ring_index impl (int (dq_front impl) - 1 + int (dq_capacity impl)) =
      (dq_front impl + (dq_capacity impl - 1)) mod dq_capacity impl"
proof -
  note inv = assms [unfolded deque_inv_def]
  have nat: "ring_index impl (int k) = k mod dq_capacity impl" if "k \<le> 2 ^ 31 - 1" for k
    using ring_index_small [of "int k" impl] that by simp
  show "ring_index impl (int (dq_front impl) + int i) = (dq_front impl + i) mod dq_capacity impl"
    if "i \<le> dq_size impl"
    using nat [of "dq_front impl + i"] inv that by simp
  show "deque_back impl = (dq_front impl + (dq_size impl - 1)) mod dq_capacity impl"
    if "0 < dq_size impl"
  proof -
    have "dq_front impl + (dq_size impl - 1) \<le> 2 ^ 31 - 1" using inv by simp linarith
    from nat [OF this] that show ?thesis
      by (simp add: deque_back_def of_nat_diff algebra_simps)
  qed
  show "ring_index impl (int (dq_front impl) + 1) = (dq_front impl + 1) mod dq_capacity impl"
    using nat [of "dq_front impl + 1"] inv by (simp add: add.commute)
  show "ring_index impl (int (dq_front impl) - 1 + int (dq_capacity impl)) =
      (dq_front impl + (dq_capacity impl - 1)) mod dq_capacity impl"
  proof -
    have "dq_front impl + (dq_capacity impl - 1) \<le> 2 ^ 31 - 1" using inv by simp linarith
    from nat [OF this] inv show ?thesis
      by (simp add: of_nat_diff algebra_simps)
  qed
qed

lemma deque_push_front_spec:
  assumes inv: "deque_inv impl" and size: "dq_size impl < 2 ^ 29"
    and push: "deque_push_front (Some impl) x w = (e, d', w')"
  shows "\<exists>impl'. d' = Some impl' \<and> deque_inv impl' \<and> (e = OVA_SUCCESS \<or> e = OVA_ERROR_MEMORY) \<and>
     deque_items impl' = (if e = OVA_SUCCESS then x # deque_items impl else deque_items impl)"
proof -
  obtain ok impl1 where res: "deque_reserve impl w = (ok, impl1, w')"
    using push by (auto simp: Let_def split: prod.splits bool.splits)
  note r = deque_reserve_spec [OF inv size res]
  show ?thesis
  proof (cases ok)
    case False
    with push res r show ?thesis by auto
  next
    case True
    let ?c = "dq_capacity impl1" and ?f = "(dq_front impl1 + (dq_capacity impl1 - 1)) mod dq_capacity impl1"
    let ?n = "impl1\<lparr>dq_front := ?f, dq_buffer := (dq_buffer impl1)[?f := x],
      dq_size := dq_size impl1 + 1\<rparr>"
    have i1: "length (dq_buffer impl1) = ?c" "0 < ?c" "dq_front impl1 < ?c" "dq_size impl1 < ?c"
      using r True by (simp_all add: deque_inv_def)
    have "deque_inv ?n" using r True by (simp add: deque_inv_def)
    moreover have "deque_items ?n = x # deque_items impl1"
    proof (rule nth_equalityI)
      fix i assume "i < length (deque_items ?n)"
      then have i: "i < Suc (dq_size impl1)" by simp
      have slot: "(?f + i) mod ?c = (dq_front impl1 + (?c - 1 + i)) mod ?c"
        by (simp add: mod_add_left_eq add.assoc)
      show "deque_items ?n ! i = (x # deque_items impl1) ! i"
      proof (cases i)
        case 0
        with i1 show ?thesis by (simp add: deque_items_nth)
      next
        case (Suc j)
        have j: "j < ?c - 1" using Suc i i1 by simp
        have s2: "(?f + i) mod ?c = (dq_front impl1 + j) mod ?c"
        proof -
          have "dq_front impl1 + (?c - 1 + i) = dq_front impl1 + j + ?c" using Suc i1 by simp
          then show ?thesis unfolding slot by (metis mod_add_self2)
        qed
        have "(dq_front impl1 + j) mod ?c \<noteq> ?f"
          using ring_slot_inj [of "dq_front impl1" ?c j "?c - 1"] i1 j by auto
        with Suc i i1 s2 show ?thesis by (simp add: deque_items_nth)
      qed
    qed simp
    ultimately show ?thesis
      using push res True r deque_inv_index(4) [of impl1] by (auto simp: Let_def)
  qed
qed

lemma deque_push_back_spec:
  assumes inv: "deque_inv impl" and size: "dq_size impl < 2 ^ 29"
    and push: "deque_push_back (Some impl) x w = (e, d', w')"
  shows "\<exists>impl'. d' = Some impl' \<and> deque_inv impl' \<and> (e = OVA_SUCCESS \<or> e = OVA_ERROR_MEMORY) \<and>
     deque_items impl' = (if e = OVA_SUCCESS then deque_items impl @ [x] else deque_items impl)"
proof -
  obtain ok impl1 where res: "deque_reserve impl w = (ok, impl1, w')"
    using push by (auto simp: Let_def split: prod.splits bool.splits)
  note r = deque_reserve_spec [OF inv size res]
  show ?thesis
  proof (cases ok)
    case False
    with push res r show ?thesis by auto
  next
    case True
    let ?c = "dq_capacity impl1" and ?b = "(dq_front impl1 + dq_size impl1) mod dq_capacity impl1"
    let ?n = "impl1\<lparr>dq_buffer := (dq_buffer impl1)[?b := x], dq_size := dq_size impl1 + 1\<rparr>"
    have i1: "length (dq_buffer impl1) = ?c" "0 < ?c" "dq_front impl1 < ?c" "dq_size impl1 < ?c"
      using r True by (simp_all add: deque_inv_def)
    have "deque_inv ?n" using r True by (simp add: deque_inv_def)
    moreover have "deque_items ?n = deque_items impl1 @ [x]"
    proof (rule nth_equalityI)
      fix i assume "i < length (deque_items ?n)"
      then have i: "i < Suc (dq_size impl1)" by simp
      show "deque_items ?n ! i = (deque_items impl1 @ [x]) ! i"
        using i i1 ring_slot_inj [of "dq_front impl1" ?c i "dq_size impl1"]
        by (cases "i = dq_size impl1") (auto simp: deque_items_nth nth_append)
    qed simp
    ultimately show ?thesis
      using push res True r deque_inv_index(1) [of impl1 "dq_size impl1"] by (auto simp: Let_def)
  qed
qed

lemma deque_pop_front_spec:
  assumes inv: "deque_inv impl" and pop: "deque_pop_front (Some impl) = (x, d')"
  shows "\<exists>impl'. d' = Some impl' \<and> deque_inv impl' \<and> deque_items impl' = tl (deque_items impl) \<and>
     x = nth_ptr (deque_items impl) 0"
proof (cases "dq_size impl = 0")
  case True
  with assms show ?thesis by (auto simp: nth_ptr_def deque_items_def)
next
  case False
  let ?c = "dq_capacity impl" and ?f = "dq_front impl"
  let ?n = "impl\<lparr>dq_buffer := (dq_buffer impl)[?f := NULL], dq_front := (?f + 1) mod ?c,
    dq_size := dq_size impl - 1\<rparr>"
  note i = inv [unfolded deque_inv_def]
  have "deque_inv ?n" using i False unfolding deque_inv_def by auto
  moreover have "deque_items ?n = tl (deque_items impl)"
  proof (rule nth_equalityI)
    fix k assume "k < length (deque_items ?n)"
    then have k: "k < dq_size impl - 1" by simp
    have slot: "((?f + 1) mod ?c + k) mod ?c = (?f + Suc k) mod ?c"
      by (simp add: mod_add_left_eq)
    have "Suc k < ?c" using i k by linarith
    then have "(?f + Suc k) mod ?c \<noteq> ?f"
      using ring_slot_inj [of ?f ?c "Suc k" 0] i by auto
    with k i slot show "deque_items ?n ! k = tl (deque_items impl) ! k"
      by (simp add: deque_items_nth nth_tl)
  qed simp
  moreover have "dq_buffer impl ! ?f = nth_ptr (deque_items impl) 0"
    using False i by (simp add: nth_ptr_def deque_items_nth)
  ultimately show ?thesis
    using False pop deque_inv_index(3) [OF inv] by auto
qed

lemma deque_pop_back_spec:
  assumes inv: "deque_inv impl" and pop: "deque_pop_back (Some impl) = (x, d')"
  shows "\<exists>impl'. d' = Some impl' \<and> deque_inv impl' \<and> deque_items impl' = butlast (deque_items impl) \<and>
     x = nth_ptr (deque_items impl) (int (dq_size impl) - 1)"
proof (cases "dq_size impl = 0")
  case True
  with assms show ?thesis by (auto simp: nth_ptr_def deque_items_def)
next
  case False
  let ?c = "dq_capacity impl" and ?b = "(dq_front impl + (dq_size impl - 1)) mod dq_capacity impl"
  let ?n = "impl\<lparr>dq_buffer := (dq_buffer impl)[?b := NULL], dq_size := dq_size impl - 1\<rparr>"
  note i = inv [unfolded deque_inv_def]
  have slot: "deque_back impl = ?b" using deque_inv_index(2) [OF inv] False by simp
  have "deque_inv ?n" using i False unfolding deque_inv_def by auto
  moreover have "deque_items ?n = butlast (deque_items impl)"
  proof (rule nth_equalityI)
    fix k assume "k < length (deque_items ?n)"
    then have k: "k < dq_size impl - 1" by simp
    then have "k < ?c" "dq_size impl - 1 < ?c" "k \<noteq> dq_size impl - 1" using i False by linarith+
    then have "(dq_front impl + k) mod ?c \<noteq> ?b"
      using ring_slot_inj [of "dq_front impl" ?c k "dq_size impl - 1"] i by auto
    with k i show "deque_items ?n ! k = butlast (deque_items impl) ! k"
      by (simp add: deque_items_nth nth_butlast)
  qed simp
  moreover have "dq_buffer impl ! ?b = nth_ptr (deque_items impl) (int (dq_size impl) - 1)"
    using False i deque_items_nth [of "dq_size impl - 1" impl]
    by (simp add: nth_ptr_def nat_diff_distrib)
  ultimately show ?thesis
    using False pop slot by auto
qed

lemma deque_get_spec:
  assumes inv: "deque_inv impl"
  shows "deque_get (Some impl) k = nth_ptr (deque_items impl) k"
proof (cases "0 \<le> k \<and> k < int (dq_size impl)")
  case True
  then have "nat k < dq_size impl" by linarith
  with True deque_inv_index(1) [OF inv, of "nat k"] show ?thesis
    by (simp add: nth_ptr_def deque_items_nth)
next
  case False
  then show ?thesis by (auto simp: nth_ptr_def)
qed

lemma deque_peek_spec:
  assumes inv: "deque_inv impl"
  shows "deque_peek_front (Some impl) = nth_ptr (deque_items impl) 0"
    and "deque_peek_back (Some impl) = nth_ptr (deque_items impl) (int (dq_size impl) - 1)"
  using inv deque_inv_index(2) [OF inv]
  by (auto simp: nth_ptr_def deque_items_nth deque_inv_def nat_diff_distrib)

section \<open>Sequences of calls\<close>

datatype 'a deque_cmd =
    Push_Front "'a ptr" | Push_Back "'a ptr" | Pop_Front | Pop_Back | Peek_Front | Peek_Back
  | Get_At int | Get_Size

fun deque_exec :: "'a deque_cmd \<Rightarrow> 'a deque \<Rightarrow> 'a world \<Rightarrow> 'a list_reply \<times> 'a deque \<times> 'a world" where
  "deque_exec (Push_Front x) d w =
     (case deque_push_front (Some d) x w of (e, d', w') \<Rightarrow> (Code_Reply e, the d', w'))"
| "deque_exec (Push_Back x) d w =
     (case deque_push_back (Some d) x w of (e, d', w') \<Rightarrow> (Code_Reply e, the d', w'))"
| "deque_exec Pop_Front d w = (case deque_pop_front (Some d) of (x, d') \<Rightarrow> (Ptr_Reply x, the d', w))"
| "deque_exec Pop_Back d w = (case deque_pop_back (Some d) of (x, d') \<Rightarrow> (Ptr_Reply x, the d', w))"
| "deque_exec Peek_Front d w = (Ptr_Reply (deque_peek_front (Some d)), d, w)"
| "deque_exec Peek_Back d w = (Ptr_Reply (deque_peek_back (Some d)), d, w)"
| "deque_exec (Get_At i) d w = (Ptr_Reply (deque_get (Some d) i), d, w)"
| "deque_exec Get_Size d w = (Int_Reply (deque_size (Some d)), d, w)"

fun deque_run ::
  "'a deque_cmd list \<Rightarrow> 'a deque \<Rightarrow> 'a world \<Rightarrow> 'a list_reply list \<times> 'a deque \<times> 'a world" where
  "deque_run [] d w = ([], d, w)"
| "deque_run (c # cs) d w =
     (case deque_exec c d w of (r, d1, w1) \<Rightarrow>
      case deque_run cs d1 w1 of (rs, d2, w2) \<Rightarrow> (r # rs, d2, w2))"

text \<open>The double-ended sequence: a refused push is the only failure and has no effect.\<close>

fun deque_spec :: "'a deque_cmd \<Rightarrow> 'a ptr list \<Rightarrow> 'a list_reply \<Rightarrow> 'a ptr list \<Rightarrow> bool" where
  "deque_spec (Push_Front x) xs r ys \<longleftrightarrow>
     r = Code_Reply OVA_SUCCESS \<and> ys = x # xs \<or> r = Code_Reply OVA_ERROR_MEMORY \<and> ys = xs"
| "deque_spec (Push_Back x) xs r ys \<longleftrightarrow>
     r = Code_Reply OVA_SUCCESS \<and> ys = xs @ [x] \<or> r = Code_Reply OVA_ERROR_MEMORY \<and> ys = xs"
| "deque_spec Pop_Front xs r ys \<longleftrightarrow> r = Ptr_Reply (nth_ptr xs 0) \<and> ys = tl xs"
| "deque_spec Pop_Back xs r ys \<longleftrightarrow>
     r = Ptr_Reply (nth_ptr xs (int (length xs) - 1)) \<and> ys = butlast xs"
| "deque_spec Peek_Front xs r ys \<longleftrightarrow> r = Ptr_Reply (nth_ptr xs 0) \<and> ys = xs"
| "deque_spec Peek_Back xs r ys \<longleftrightarrow>
     r = Ptr_Reply (nth_ptr xs (int (length xs) - 1)) \<and> ys = xs"
| "deque_spec (Get_At i) xs r ys \<longleftrightarrow> r = Ptr_Reply (nth_ptr xs i) \<and> ys = xs"
| "deque_spec Get_Size xs r ys \<longleftrightarrow> r = Int_Reply (int (length xs)) \<and> ys = xs"

inductive deque_spec_run ::
  "'a deque_cmd list \<Rightarrow> 'a ptr list \<Rightarrow> 'a list_reply list \<Rightarrow> 'a ptr list \<Rightarrow> bool" where
  stop: "deque_spec_run [] xs [] xs"
| step: "deque_spec c xs r ys \<Longrightarrow> deque_spec_run cs ys rs zs \<Longrightarrow>
     deque_spec_run (c # cs) xs (r # rs) zs"

lemma deque_exec_refines:
  assumes "deque_inv d" "dq_size d < 2 ^ 29" "deque_exec c d w = (r, d', w')"
  shows "deque_inv d' \<and> deque_spec c (deque_items d) r (deque_items d') \<and>
     dq_size d' \<le> Suc (dq_size d)"
proof -
  have "deque_inv d' \<and> deque_spec c (deque_items d) r (deque_items d')"
  proof (cases c)
    case (Push_Front x)
    with assms(3) deque_push_front_spec [OF assms(1,2), of x w] show ?thesis
      by (cases "deque_push_front (Some d) x w") force
  next
    case (Push_Back x)
    with assms(3) deque_push_back_spec [OF assms(1,2), of x w] show ?thesis
      by (cases "deque_push_back (Some d) x w") force
  next
    case Pop_Front
    with assms(3) deque_pop_front_spec [OF assms(1)] show ?thesis
      by (cases "deque_pop_front (Some d)") force
  next
    case Pop_Back
    with assms(3) deque_pop_back_spec [OF assms(1)] show ?thesis
      by (cases "deque_pop_back (Some d)") force
  next
    case Peek_Front
    with assms deque_peek_spec(1) [OF assms(1)] show ?thesis by (auto simp del: deque_peek_front.simps)
  next
    case Peek_Back
    with assms deque_peek_spec(2) [OF assms(1)] show ?thesis by (auto simp del: deque_peek_back.simps)
  next
    case (Get_At i)
    with assms deque_get_spec [OF assms(1)] show ?thesis by (auto simp del: deque_get.simps)
  next
    case Get_Size
    with assms show ?thesis by auto
  qed
  moreover from this have "length (deque_items d') \<le> Suc (length (deque_items d))"
    by (cases c) (auto simp del: length_deque_items)
  ultimately show ?thesis by simp
qed

lemma deque_run_refines:
  "deque_inv d \<Longrightarrow> dq_size d + length cs < 2 ^ 29 \<Longrightarrow> deque_run cs d w = (rs, d', w') \<Longrightarrow>
     deque_inv d' \<and> deque_spec_run cs (deque_items d) rs (deque_items d')"
proof (induction cs arbitrary: d w rs d' w')
  case Nil
  then show ?case by (auto intro: deque_spec_run.stop)
next
  case (Cons c cs)
  obtain r d1 w1 where ex: "deque_exec c d w = (r, d1, w1)" by (metis prod_cases3)
  obtain rs' d2 w2 where run: "deque_run cs d1 w1 = (rs', d2, w2)" by (metis prod_cases3)
  have res: "rs = r # rs'" "d' = d2" using Cons.prems(3) ex run by simp_all
  have step: "deque_inv d1" "deque_spec c (deque_items d) r (deque_items d1)"
    "dq_size d1 \<le> Suc (dq_size d)"
    using deque_exec_refines [OF Cons.prems(1) _ ex] Cons.prems(2) by simp_all
  then have "deque_inv d2 \<and> deque_spec_run cs (deque_items d1) rs' (deque_items d2)"
    using Cons.IH [OF step(1) _ run] Cons.prems(2) by simp
  with step show ?case unfolding res by (auto intro: deque_spec_run.step)
qed

lemma create_deque_inv:
  assumes "create_deque n w = (Some d, w')" "n \<le> 2 ^ 30"
  shows "deque_inv d \<and> deque_items d = []"
  using assms
  by (auto simp: create_deque_def Let_def deque_inv_def deque_items_def DEFAULT_CAPACITY_def
      dest!: calloc_ptrs_Some split: prod.splits bool.splits option.splits if_splits)

section \<open>Properties\<close>

text \<open>C5: The ring buffer is invisible: started at any capacity up to \<open>2 ^ 30\<close>, any mix of
  pushes, pops, peeks and indexed reads at both ends (fewer than \<open>2 ^ 29\<close> of them) answers as
  the double-ended sequence does, across wrap-around of the ring and every resize; a push fails
  only for lack of memory, and then without effect.\<close>

theorem deque_refines_sequence:
  assumes "create_deque n w = (Some d, w1)" "n \<le> 2 ^ 30" "length cs < 2 ^ 29"
  shows "deque_spec_run cs [] (fst (deque_run cs d w1)) (deque_items (fst (snd (deque_run cs d w1))))
    \<and> deque_inv (fst (snd (deque_run cs d w1)))"
proof -
  note d = create_deque_inv [OF assms(1,2)]
  then have "dq_size d = 0" using length_deque_items [of d] by (simp del: length_deque_items)
  then show ?thesis
    using deque_run_refines [of d cs w1 "fst (deque_run cs d w1)" "fst (snd (deque_run cs d w1))"
        "snd (snd (deque_run cs d w1))"] d assms(3) by simp
qed

lemma create_deque_two:
  "create_deque 2 (fresh_world :: nat world) = (Some \<lparr>dq_buffer = [None, None], dq_capacity = 2,
     dq_size = 0, dq_front = 0, dq_user_data = None\<rparr>, fresh_world)"
  by (simp add: create_deque_def malloc_struct_def malloc_def calloc_ptrs_def ptr_bytes_nonneg
      INT_MAX_def PTRDIFF_MAX_def)
     (simp add: numeral_2_eq_2)

theorem deque_refines_sequence_witness:
  "deque_spec_run [Push_Back (Some 1), Push_Front (Some 2), Push_Back (Some (3::nat)), Pop_Front] []
     (fst (deque_run [Push_Back (Some 1), Push_Front (Some 2), Push_Back (Some 3), Pop_Front]
        \<lparr>dq_buffer = [None, None], dq_capacity = 2, dq_size = 0, dq_front = 0,
          dq_user_data = None\<rparr> fresh_world))
     (deque_items (fst (snd (deque_run
        [Push_Back (Some 1), Push_Front (Some 2), Push_Back (Some 3), Pop_Front]
        \<lparr>dq_buffer = [None, None], dq_capacity = 2, dq_size = 0, dq_front = 0,
          dq_user_data = None\<rparr> fresh_world))))"
  by (rule deque_refines_sequence [OF create_deque_two, THEN conjunct1]) simp_all

text \<open>A shallow clone, made with one or two block copies, holds the same elements in the same
  order however the original wraps around its buffer, with the same user data, and with memory
  available it is always made.\<close>

theorem deque_clone_shallow_copies:
  assumes "deque_inv d" "alloc_fails w = []"
  shows "\<exists>c. deque_clone_shallow (Some d) w = (Some c, w) \<and> deque_inv c \<and>
    deque_items c = deque_items d \<and> dq_user_data c = dq_user_data d"
proof -
  let ?n = "if dq_size d > 0 then int (dq_size d) else DEFAULT_CAPACITY"
  have n: "0 < ?n" "?n \<le> 2 ^ 30" "dq_size d \<le> nat ?n"
    using assms(1) by (auto simp: DEFAULT_CAPACITY_def deque_inv_def)
  let ?c0 = "\<lparr>dq_buffer = replicate (nat ?n) NULL, dq_capacity = nat ?n, dq_size = 0, dq_front = 0,
    dq_user_data = NULL\<rparr> :: 'a deque"
  have create: "create_deque ?n w = (Some ?c0, w)"
    using n ptr_bytes_fits [of ?n] assms(2)
    by (simp add: create_deque_def Let_def malloc_struct_def malloc_no_failures calloc_ptrs_def
        PTRDIFF_MAX_def INT_MAX_def del: if_split)
  show ?thesis
  proof (cases "dq_size d = 0")
    case True
    with create n show ?thesis
      by (auto simp: Let_def deque_inv_def deque_items_def)
  next
    case False
    let ?c = "?c0\<lparr>dq_buffer := unroll_into (replicate (nat ?n) NULL) d, dq_size := dq_size d,
      dq_user_data := dq_user_data d\<rparr>"
    have buf: "unroll_into (replicate (nat ?n) NULL) d = deque_items d"
      using unroll_into_items [OF assms(1), of "replicate (nat ?n) NULL"] False by simp
    have "deque_inv ?c" using n False assms(1) buf by (simp add: deque_inv_def)
    moreover have "deque_items ?c = deque_items d"
      using False buf by (intro nth_equalityI) (simp_all add: deque_items_nth)
    ultimately show ?thesis
      using False create by (intro exI [of _ ?c]) (simp add: Let_def)
  qed
qed

theorem deque_clone_shallow_copies_witness:
  "\<exists>c. deque_clone_shallow (Some \<lparr>dq_buffer = [Some 2, None, Some (1::nat)], dq_capacity = 3,
      dq_size = 2, dq_front = 2, dq_user_data = None\<rparr>) fresh_world = (Some c, fresh_world) \<and>
    deque_items c = [Some 1, Some 2]"
proof -
  let ?d = "\<lparr>dq_buffer = [Some 2, None, Some (1::nat)], dq_capacity = 3,
      dq_size = 2, dq_front = 2, dq_user_data = None\<rparr>"
  have "deque_inv ?d" "deque_items ?d = [Some 1, Some 2]"
    by (simp_all add: deque_inv_def deque_items_def upt_rec)
  with deque_clone_shallow_copies [of ?d fresh_world] show ?thesis
    by (auto simp del: deque_clone_shallow.simps)
qed

end
