(* ===== verification/Linked_Queue.thy ===== *)
theory Linked_Queue
  imports List_Iface
begin

text \<open>
  The linked queue, \<open>src/queue/linked_queue.c\<close>: singly linked entries in an explicit store, with
  a list of at most \<open>LINKED_QUEUE_FREELIST_MAX\<close> retired entries that \<open>enqueue\<close> uses again before
  it asks the allocator. An address outside the store is not allocated, so a leak would be an
  address in the store that neither chain reaches.
\<close>

section \<open>The contract of a first-in first-out container\<close>

locale fifo =
  fixes enqueue_op :: "'s \<Rightarrow> 'a ptr \<Rightarrow> 'a world \<Rightarrow> ova_error_code \<times> 's \<times> 'a world"
    and dequeue_op :: "'s \<Rightarrow> 'a ptr \<times> 's"
    and inv :: "'s \<Rightarrow> bool"
    and elems :: "'s \<Rightarrow> 'a ptr list"
  assumes enqueue_inv: "inv s \<Longrightarrow> enqueue_op s x w = (e, s', w') \<Longrightarrow> inv s'"
    and enqueue_elems: "inv s \<Longrightarrow> enqueue_op s x w = (e, s', w') \<Longrightarrow>
          elems s' = (if e = OVA_SUCCESS then elems s @ [x] else elems s)"
    and dequeue_spec: "inv s \<Longrightarrow> dequeue_op s = (x, s') \<Longrightarrow>
          inv s' \<and> x = nth_ptr (elems s) 0 \<and> elems s' = tl (elems s)"
begin

lemma enqueue_all_elems:
  "inv s \<Longrightarrow> push_all enqueue_op xs s w = (e, s', w') \<Longrightarrow>
     inv s' \<and> (\<exists>k \<le> length xs. elems s' = elems s @ take k xs \<and> (e = OVA_SUCCESS \<longleftrightarrow> k = length xs))"
proof (induction xs arbitrary: s w)
  case Nil
  then show ?case by simp
next
  case (Cons x xs)
  obtain e1 s1 w1 where put: "enqueue_op s x w = (e1, s1, w1)" by (metis prod_cases3)
  note inv1 = enqueue_inv [OF Cons.prems(1) put] and el1 = enqueue_elems [OF Cons.prems(1) put]
  show ?case
  proof (cases "e1 = OVA_SUCCESS")
    case False
    with Cons.prems(2) put inv1 el1 show ?thesis by (intro conjI exI [of _ 0]) auto
  next
    case True
    then have "push_all enqueue_op xs s1 w1 = (e, s', w')" using Cons.prems(2) put by simp
    from Cons.IH [OF inv1 this] obtain k where "inv s'" "k \<le> length xs"
      "elems s' = elems s1 @ take k xs" "e = OVA_SUCCESS \<longleftrightarrow> k = length xs" by blast
    with True el1 show ?thesis by (intro conjI exI [of _ "Suc k"]) simp_all
  qed
qed

lemma dequeue_n_elems:
  "inv s \<Longrightarrow> n \<le> length (elems s) \<Longrightarrow>
     fst (pop_n dequeue_op n s) = take n (elems s) \<and> inv (snd (pop_n dequeue_op n s)) \<and>
     elems (snd (pop_n dequeue_op n s)) = drop n (elems s)"
proof (induction n arbitrary: s)
  case 0
  then show ?case by simp
next
  case (Suc n)
  obtain x s1 where deq: "dequeue_op s = (x, s1)" by fastforce
  from dequeue_spec [OF Suc.prems(1) deq]
  have s1: "inv s1" "x = nth_ptr (elems s) 0" "elems s1 = tl (elems s)" by simp_all
  obtain y ys where ys: "elems s = y # ys" using Suc.prems(2) by (cases "elems s") auto
  with s1 Suc.IH [OF s1(1)] Suc.prems(2) deq show ?case
    by (simp add: case_prod_beta nth_ptr_def)
qed

end

section \<open>State\<close>

definition LINKED_QUEUE_FREELIST_MAX :: nat where "LINKED_QUEUE_FREELIST_MAX = 4096"

record 'a queue_entry =
  qe_data :: "'a ptr"
  qe_next :: "nat option"

type_synonym 'a entry_store = "nat \<Rightarrow> 'a queue_entry option"

record 'a linked_queue =
  lq_store :: "'a entry_store"
  lq_brk :: nat
  lq_front :: "nat option"
  lq_rear :: "nat option"
  lq_length :: nat
  lq_freelist :: "nat option"
  lq_freelist_size :: nat
  lq_user_data :: "'a ptr"

definition entry_at :: "'a entry_store \<Rightarrow> nat \<Rightarrow> 'a queue_entry" where
  "entry_at s a = the (s a)"

section \<open>Operations\<close>

definition acquire_node ::
  "'a linked_queue \<Rightarrow> 'a ptr \<Rightarrow> 'a world \<Rightarrow> nat option \<times> 'a linked_queue \<times> 'a world" where
  "acquire_node impl data w =
     (case lq_freelist impl of
        Some node \<Rightarrow>
          (Some node,
           impl\<lparr>lq_freelist := qe_next (entry_at (lq_store impl) node),
                lq_freelist_size := lq_freelist_size impl - 1,
                lq_store := (lq_store impl)(node \<mapsto> \<lparr>qe_data = data, qe_next = None\<rparr>)\<rparr>, w)
      | None \<Rightarrow>
          (case malloc_struct w of
             (False, w') \<Rightarrow> (None, impl, w')
           | (True, w') \<Rightarrow>
               (Some (lq_brk impl),
                impl\<lparr>lq_brk := lq_brk impl + 1,
                     lq_store := (lq_store impl)(lq_brk impl \<mapsto> \<lparr>qe_data = data, qe_next = None\<rparr>)\<rparr>,
                w')))"

fun release_node :: "'a linked_queue \<Rightarrow> nat option \<Rightarrow> 'a linked_queue" where
  "release_node impl None = impl"
| "release_node impl (Some node) =
     (if lq_freelist_size impl < LINKED_QUEUE_FREELIST_MAX then
        impl\<lparr>lq_store := (lq_store impl)(node \<mapsto>
               (entry_at (lq_store impl) node)\<lparr>qe_next := lq_freelist impl\<rparr>),
             lq_freelist := Some node,
             lq_freelist_size := lq_freelist_size impl + 1\<rparr>
      else impl\<lparr>lq_store := (lq_store impl)(node := None)\<rparr>)"

text \<open>\<open>while (node) \<lbrace> next = node->next; free(node); node = next; \<rbrace>\<close> with fuel, here the number of
  retired entries.\<close>

fun free_entries :: "nat \<Rightarrow> 'a entry_store \<Rightarrow> nat option \<Rightarrow> 'a entry_store" where
  "free_entries _ s None = s"
| "free_entries 0 s (Some a) = s"
| "free_entries (Suc n) s (Some a) = free_entries n (s(a := None)) (qe_next (entry_at s a))"

definition drain_freelist :: "'a linked_queue \<Rightarrow> 'a linked_queue" where
  "drain_freelist impl =
     impl\<lparr>lq_store := free_entries (lq_freelist_size impl) (lq_store impl) (lq_freelist impl),
          lq_freelist := None, lq_freelist_size := 0\<rparr>"

fun linked_enqueue ::
  "'a linked_queue option \<Rightarrow> 'a ptr \<Rightarrow> 'a world \<Rightarrow>
     ova_error_code \<times> 'a linked_queue option \<times> 'a world" where
  "linked_enqueue None data w = (OVA_ERROR_INVALID_ARG, None, w)"
| "linked_enqueue (Some impl) data w =
     (case acquire_node impl data w of
        (None, impl, w') \<Rightarrow> (OVA_ERROR_MEMORY, Some impl, w')
      | (Some new_node, impl, w') \<Rightarrow>
          (let impl = (case lq_rear impl of
                 None \<Rightarrow> impl
               | Some r \<Rightarrow> impl\<lparr>lq_store := (lq_store impl)(r \<mapsto>
                     (entry_at (lq_store impl) r)\<lparr>qe_next := Some new_node\<rparr>)\<rparr>);
               impl = impl\<lparr>lq_rear := Some new_node\<rparr>;
               impl = (if lq_front impl = None then impl\<lparr>lq_front := Some new_node\<rparr> else impl)
           in (OVA_SUCCESS, Some (impl\<lparr>lq_length := lq_length impl + 1\<rparr>), w')))"

definition linked_dequeue_impl :: "'a linked_queue \<Rightarrow> 'a ptr \<times> 'a linked_queue" where
  "linked_dequeue_impl impl =
     (case lq_front impl of
        None \<Rightarrow> (NULL, impl)
      | Some temp \<Rightarrow>
          (let data = qe_data (entry_at (lq_store impl) temp);
               impl = impl\<lparr>lq_front := qe_next (entry_at (lq_store impl) temp)\<rparr>;
               impl = (if lq_front impl = None then impl\<lparr>lq_rear := None\<rparr> else impl);
               impl = release_node impl (Some temp)
           in (data, impl\<lparr>lq_length := lq_length impl - 1\<rparr>)))"

fun linked_dequeue :: "'a linked_queue option \<Rightarrow> 'a ptr \<times> 'a linked_queue option" where
  "linked_dequeue None = (NULL, None)"
| "linked_dequeue (Some impl) = (case linked_dequeue_impl impl of (x, impl') \<Rightarrow> (x, Some impl'))"

fun linked_is_empty :: "'a linked_queue option \<Rightarrow> int" where
  "linked_is_empty None = 1"
| "linked_is_empty (Some impl) = (if lq_front impl = None then 1 else 0)"

fun linked_size :: "'a linked_queue option \<Rightarrow> int" where
  "linked_size None = 0"
| "linked_size (Some impl) = int (lq_length impl)"

text \<open>\<open>while (!linked_is_empty(self)) linked_dequeue(self);\<close> with the length as fuel.\<close>

fun dequeue_all :: "nat \<Rightarrow> 'a linked_queue \<Rightarrow> 'a linked_queue" where
  "dequeue_all 0 impl = impl"
| "dequeue_all (Suc n) impl =
     (if linked_is_empty (Some impl) \<noteq> 0 then impl
      else dequeue_all n (snd (linked_dequeue_impl impl)))"

fun linked_clear :: "'a linked_queue option \<Rightarrow> 'a linked_queue option" where
  "linked_clear None = None"
| "linked_clear (Some impl) = Some (dequeue_all (lq_length impl) impl)"

text \<open>What \<open>free\<close> leaves of the entries before it releases the two fixed objects.\<close>

fun linked_free :: "'a linked_queue option \<Rightarrow> 'a entry_store" where
  "linked_free None = Map.empty"
| "linked_free (Some impl) = lq_store (drain_freelist (dequeue_all (lq_length impl) impl))"

definition create_linked_queue :: "'a world \<Rightarrow> 'a linked_queue option \<times> 'a world" where
  "create_linked_queue w =
     (case malloc_struct w of
        (False, w1) \<Rightarrow> (None, w1)
      | (True, w1) \<Rightarrow>
         (case malloc_struct w1 of
            (False, w2) \<Rightarrow> (None, w2)
          | (True, w2) \<Rightarrow>
              (Some \<lparr>lq_store = Map.empty, lq_brk = 0, lq_front = None, lq_rear = None, lq_length = 0,
                     lq_freelist = None, lq_freelist_size = 0, lq_user_data = NULL\<rparr>, w2)))"

text \<open>The clone's loop over the entries of the original, with its length as fuel; \<open>dup\<close> as in the
  list component.\<close>

fun queue_clone_loop ::
  "('a ptr \<Rightarrow> 'a world \<Rightarrow> 'a ptr option \<times> 'a world) \<Rightarrow> 'a entry_store \<Rightarrow> nat \<Rightarrow> nat option \<Rightarrow>
     'a linked_queue \<Rightarrow> 'a world \<Rightarrow> 'a linked_queue option \<times> 'a world" where
  "queue_clone_loop dup s _ None copy w = (Some copy, w)"
| "queue_clone_loop dup s 0 (Some cur) copy w = (Some copy, w)"
| "queue_clone_loop dup s (Suc n) (Some cur) copy w =
     (case dup (qe_data (entry_at s cur)) w of
        (None, w1) \<Rightarrow> (None, w1)
      | (Some d, w1) \<Rightarrow>
         (case linked_enqueue (Some copy) d w1 of
            (e, copy', w2) \<Rightarrow>
              (if e \<noteq> OVA_SUCCESS then (None, w2)
               else queue_clone_loop dup s n (qe_next (entry_at s cur)) (the copy') w2)))"

definition linked_clone_with ::
  "('a ptr \<Rightarrow> 'a world \<Rightarrow> 'a ptr option \<times> 'a world) \<Rightarrow> 'a linked_queue \<Rightarrow> 'a world \<Rightarrow>
     'a linked_queue option \<times> 'a world" where
  "linked_clone_with dup impl w =
     (case create_linked_queue w of
        (None, w1) \<Rightarrow> (None, w1)
      | (Some copy, w1) \<Rightarrow>
         (case queue_clone_loop dup (lq_store impl) (lq_length impl) (lq_front impl) copy w1 of
            (None, w2) \<Rightarrow> (None, w2)
          | (Some copy, w2) \<Rightarrow> (Some (copy\<lparr>lq_user_data := lq_user_data impl\<rparr>), w2)))"

fun linked_clone_shallow :: "'a linked_queue option \<Rightarrow> 'a world \<Rightarrow> 'a linked_queue option \<times> 'a world" where
  "linked_clone_shallow None w = (None, w)"
| "linked_clone_shallow (Some impl) w = linked_clone_with dup_shallow impl w"

fun linked_clone_deep ::
  "'a linked_queue option \<Rightarrow> 'a element_copier option \<Rightarrow> 'a world \<Rightarrow> 'a linked_queue option \<times> 'a world" where
  "linked_clone_deep (Some impl) (Some copier) w = linked_clone_with (dup_deep copier) impl w"
| "linked_clone_deep _ _ w = (None, w)"

section \<open>Chains of entries\<close>

primrec lseg :: "'a entry_store \<Rightarrow> nat option \<Rightarrow> nat list \<Rightarrow> bool" where
  "lseg s p [] \<longleftrightarrow> p = None"
| "lseg s p (a # as) \<longleftrightarrow> p = Some a \<and> (\<exists>nd. s a = Some nd \<and> lseg s (qe_next nd) as)"

lemma lseg_upd [simp]: "a \<notin> set as \<Longrightarrow> lseg (s(a := v)) p as = lseg s p as"
  by (induction as arbitrary: p) auto

lemma lseg_dom: "lseg s p as \<Longrightarrow> a \<in> set as \<Longrightarrow> \<exists>nd. s a = Some nd"
  by (induction as arbitrary: p) auto

lemma lseg_snoc:
  "lseg s p (as @ [r]) \<Longrightarrow> s r = Some nd \<Longrightarrow> r \<notin> set as \<Longrightarrow> n \<notin> insert r (set as) \<Longrightarrow> qe_next new = None \<Longrightarrow>
     lseg (s(n := Some new, r := Some (nd\<lparr>qe_next := Some n\<rparr>))) p (as @ [r, n])"
proof (induction as arbitrary: p)
  case Nil
  then show ?case by auto
next
  case (Cons a as)
  then show ?case by auto
qed

fun entry_walk :: "nat \<Rightarrow> 'a entry_store \<Rightarrow> nat option \<Rightarrow> nat list" where
  "entry_walk _ s None = []"
| "entry_walk 0 s (Some a) = []"
| "entry_walk (Suc n) s (Some a) = a # entry_walk n s (qe_next (entry_at s a))"

lemma entry_walk_lseg: "lseg s p as \<Longrightarrow> entry_walk (length as) s p = as"
  by (induction as arbitrary: p) (auto simp: entry_at_def)

definition lq_addrs :: "'a linked_queue \<Rightarrow> nat list" where
  "lq_addrs q = entry_walk (lq_length q) (lq_store q) (lq_front q)"

definition lq_retired :: "'a linked_queue \<Rightarrow> nat list" where
  "lq_retired q = entry_walk (lq_freelist_size q) (lq_store q) (lq_freelist q)"

definition last_ptr :: "nat list \<Rightarrow> nat option" where
  "last_ptr as = (if as = [] then None else Some (last as))"

text \<open>The two chains are disjoint, complete, and as long as the counters say.\<close>

definition lq_shape :: "'a linked_queue \<Rightarrow> nat list \<Rightarrow> nat list \<Rightarrow> bool" where
  "lq_shape q as fs \<longleftrightarrow>
     lseg (lq_store q) (lq_front q) as \<and> lq_rear q = last_ptr as \<and> lseg (lq_store q) (lq_freelist q) fs \<and>
     distinct (as @ fs) \<and> dom (lq_store q) = set as \<union> set fs \<and>
     (\<forall>a \<in> set as \<union> set fs. a < lq_brk q) \<and> lq_length q = length as \<and>
     lq_freelist_size q = length fs \<and> length fs \<le> LINKED_QUEUE_FREELIST_MAX"

definition linked_queue_inv :: "'a linked_queue \<Rightarrow> bool" where
  "linked_queue_inv q \<longleftrightarrow> lq_shape q (lq_addrs q) (lq_retired q)"

definition linked_queue_items :: "'a linked_queue \<Rightarrow> 'a ptr list" where
  "linked_queue_items q = map (\<lambda>a. qe_data (entry_at (lq_store q) a)) (lq_addrs q)"

lemma lq_shape_addrs: "lq_shape q as fs \<Longrightarrow> lq_addrs q = as \<and> lq_retired q = fs"
  unfolding lq_shape_def lq_addrs_def lq_retired_def by (metis entry_walk_lseg)

lemma linked_queue_invI: "lq_shape q as fs \<Longrightarrow> linked_queue_inv q"
  using lq_shape_addrs [of q as fs] by (simp add: linked_queue_inv_def)

lemma linked_queue_items_shape:
  "lq_shape q as fs \<Longrightarrow> linked_queue_items q = map (\<lambda>a. qe_data (entry_at (lq_store q) a)) as"
  using lq_shape_addrs [of q as fs] by (simp add: linked_queue_items_def)

section \<open>Behaviour of the operations\<close>

lemma entry_at_upd [simp]: "entry_at (s(a := Some nd)) b = (if b = a then nd else entry_at s b)"
  by (simp add: entry_at_def)

text \<open>An acquired entry is fresh for both chains, whichever source it came from.\<close>

lemma acquire_node_shape:
  assumes shape: "lq_shape q as fs" and acq: "acquire_node q x w = (Some n, q', w')"
  shows "\<exists>fs'. lq_store q' = (lq_store q)(n \<mapsto> \<lparr>qe_data = x, qe_next = None\<rparr>) \<and>
    n \<notin> set as \<union> set fs' \<and> lseg (lq_store q') (lq_freelist q') fs' \<and> distinct (as @ fs') \<and>
    dom (lq_store q') = insert n (set as \<union> set fs') \<and> n < lq_brk q' \<and> lq_brk q \<le> lq_brk q' \<and>
    set fs' \<subseteq> set fs \<and>
    lq_freelist_size q' = length fs' \<and> length fs' \<le> LINKED_QUEUE_FREELIST_MAX \<and>
    lq_front q' = lq_front q \<and> lq_rear q' = lq_rear q \<and> lq_length q' = lq_length q \<and>
    lq_user_data q' = lq_user_data q"
proof (cases "lq_freelist q")
  case None
  then have fs: "fs = []" using shape by (cases fs) (auto simp: lq_shape_def)
  have "n = lq_brk q" "lq_brk q \<notin> set as"
    using acq None shape by (auto simp: acquire_node_def lq_shape_def split: prod.splits bool.splits)
  then show ?thesis
    using acq None shape fs
    by (auto simp: acquire_node_def lq_shape_def split: prod.splits bool.splits dest: lseg_dom)
next
  case (Some f)
  then obtain fs' nd where fs: "fs = f # fs'" "lq_store q f = Some nd"
    "lseg (lq_store q) (qe_next nd) fs'"
    using shape by (cases fs) (auto simp: lq_shape_def)
  with acq Some have q': "n = f" "q' = q\<lparr>lq_freelist := qe_next nd,
      lq_freelist_size := lq_freelist_size q - 1,
      lq_store := (lq_store q)(f \<mapsto> \<lparr>qe_data = x, qe_next = None\<rparr>)\<rparr>"
    by (auto simp: acquire_node_def entry_at_def)
  show ?thesis
    using shape fs q' by (intro exI [of _ fs']) (auto simp: lq_shape_def)
qed

lemma acquire_node_none:
  "acquire_node q x w = (None, q', w') \<Longrightarrow> q' = q"
  by (auto simp: acquire_node_def split: option.splits prod.splits bool.splits)

lemma linked_enqueue_shape:
  assumes shape: "lq_shape q as fs" and enq: "linked_enqueue (Some q) x w = (OVA_SUCCESS, q', w')"
  shows "\<exists>q'' n fs'. q' = Some q'' \<and> lq_shape q'' (as @ [n]) fs' \<and>
    map (\<lambda>a. qe_data (entry_at (lq_store q'') a)) (as @ [n]) =
      map (\<lambda>a. qe_data (entry_at (lq_store q) a)) as @ [x] \<and> lq_user_data q'' = lq_user_data q"
proof -
  obtain n q1 where acq: "acquire_node q x w = (Some n, q1, w')"
    using enq by (auto simp: Let_def split: prod.splits option.splits)
  obtain fs' where f: "lq_store q1 = (lq_store q)(n \<mapsto> \<lparr>qe_data = x, qe_next = None\<rparr>)"
    "n \<notin> set as \<union> set fs'" "lseg (lq_store q1) (lq_freelist q1) fs'" "distinct (as @ fs')"
    "dom (lq_store q1) = insert n (set as \<union> set fs')" "n < lq_brk q1" "lq_brk q \<le> lq_brk q1"
    "set fs' \<subseteq> set fs" "lq_freelist_size q1 = length fs'"
    "length fs' \<le> LINKED_QUEUE_FREELIST_MAX" "lq_front q1 = lq_front q" "lq_rear q1 = lq_rear q"
    "lq_length q1 = lq_length q" "lq_user_data q1 = lq_user_data q"
    using acquire_node_shape [OF shape acq] by blast
  note sh = shape [unfolded lq_shape_def]
  have bound: "\<forall>a \<in> set as \<union> set fs'. a < lq_brk q1" using sh f(7,8) by (meson Un_iff order_less_le_trans subsetD)
  show ?thesis
  proof (cases "as = []")
    case True
    let ?q = "q1\<lparr>lq_rear := Some n, lq_front := Some n, lq_length := lq_length q1 + 1\<rparr>"
    have "q' = Some ?q"
      using enq acq f(11,12) sh True by (auto simp: Let_def last_ptr_def)
    moreover have "lq_shape ?q [n] fs'"
      using f True bound sh by (simp add: lq_shape_def last_ptr_def)
    ultimately show ?thesis using True f(1,14) by (intro exI [of _ ?q] exI [of _ n] exI [of _ fs']) simp
  next
    case False
    then obtain bs r where as: "as = bs @ [r]" by (cases as rule: rev_cases) auto
    obtain nd where nd: "lq_store q r = Some nd" using lseg_dom [of "lq_store q" "lq_front q" as r] sh as by auto
    let ?s = "(lq_store q1)(r \<mapsto> nd\<lparr>qe_next := Some n\<rparr>)"
    let ?q = "q1\<lparr>lq_store := ?s, lq_rear := Some n, lq_length := lq_length q1 + 1\<rparr>"
    have r: "r \<noteq> n" "r \<notin> set fs'" "r \<notin> set bs" using f(2,4) as by auto
    have ne: "lq_front q1 \<noteq> None" "lq_rear q1 = Some r"
      using sh f(11,12) as by (auto simp: last_ptr_def) (cases bs; auto)+
    have "q' = Some ?q"
      using enq acq ne f(1) nd r by (auto simp: Let_def entry_at_def)
    moreover have "lseg ?s (lq_front q) (bs @ [r, n])"
      unfolding f(1) using sh as nd f(2) r by (intro lseg_snoc) auto
    then have "lq_shape ?q (as @ [n]) fs'"
      using f as r bound sh by (auto simp: lq_shape_def last_ptr_def)
    moreover have "map (\<lambda>a. qe_data (entry_at ?s a)) (as @ [n]) =
      map (\<lambda>a. qe_data (entry_at (lq_store q) a)) as @ [x]"
      unfolding f(1) using f(2) as r nd by (auto simp: entry_at_def)
    ultimately show ?thesis using f(14) by (intro exI [of _ ?q] exI [of _ n] exI [of _ fs']) simp
  qed
qed

lemma linked_dequeue_shape:
  assumes shape: "lq_shape q (a # as) fs"
  shows "fst (linked_dequeue_impl q) = qe_data (entry_at (lq_store q) a) \<and>
    (\<exists>fs'. lq_shape (snd (linked_dequeue_impl q)) as fs') \<and>
    map (\<lambda>a. qe_data (entry_at (lq_store (snd (linked_dequeue_impl q))) a)) as =
      map (\<lambda>a. qe_data (entry_at (lq_store q) a)) as \<and>
    lq_user_data (snd (linked_dequeue_impl q)) = lq_user_data q"
proof -
  note sh = shape [unfolded lq_shape_def]
  from sh obtain nd where nd: "lq_front q = Some a" "lq_store q a = Some nd"
    "lseg (lq_store q) (qe_next nd) as" by auto
  have empty: "qe_next nd = None \<longleftrightarrow> as = []" using nd(3) by (cases as) auto
  let ?rear = "if as = [] then None else lq_rear q"
  have rear: "?rear = last_ptr as" using sh by (simp add: last_ptr_def)
  show ?thesis
  proof (cases "lq_freelist_size q < LINKED_QUEUE_FREELIST_MAX")
    case True
    let ?q = "q\<lparr>lq_front := qe_next nd, lq_rear := ?rear,
      lq_store := (lq_store q)(a \<mapsto> nd\<lparr>qe_next := lq_freelist q\<rparr>), lq_freelist := Some a,
      lq_freelist_size := lq_freelist_size q + 1, lq_length := lq_length q - 1\<rparr>"
    have deq: "linked_dequeue_impl q = (qe_data nd, ?q)"
      using nd True empty by (simp add: linked_dequeue_impl_def Let_def entry_at_def)
    have "lq_shape ?q as (a # fs)"
      using sh nd rear True by (auto simp: lq_shape_def)
    moreover have "map (\<lambda>b. qe_data (entry_at (lq_store ?q) b)) as =
        map (\<lambda>b. qe_data (entry_at (lq_store q) b)) as"
      using sh by auto
    ultimately show ?thesis using deq nd by (auto simp: entry_at_def)
  next
    case False
    let ?q = "q\<lparr>lq_front := qe_next nd, lq_rear := ?rear, lq_store := (lq_store q)(a := None),
      lq_length := lq_length q - 1\<rparr>"
    have deq: "linked_dequeue_impl q = (qe_data nd, ?q)"
      using nd False empty by (simp add: linked_dequeue_impl_def Let_def entry_at_def)
    have "lq_shape ?q as fs"
      using sh nd rear by (auto simp: lq_shape_def)
    moreover have "map (\<lambda>b. qe_data (entry_at (lq_store ?q) b)) as =
        map (\<lambda>b. qe_data (entry_at (lq_store q) b)) as"
      using sh by (auto simp: entry_at_def)
    ultimately show ?thesis using deq nd by (auto simp: entry_at_def)
  qed
qed

definition linked_enqueue_method ::
  "'a linked_queue \<Rightarrow> 'a ptr \<Rightarrow> 'a world \<Rightarrow> ova_error_code \<times> 'a linked_queue \<times> 'a world" where
  "linked_enqueue_method q x w =
     (case linked_enqueue (Some q) x w of (e, q', w') \<Rightarrow> (e, the q', w'))"

lemma linked_enqueue_cases:
  assumes inv: "linked_queue_inv q" and enq: "linked_enqueue_method q x w = (e, q', w')"
  shows "linked_queue_inv q' \<and> lq_user_data q' = lq_user_data q \<and> linked_queue_items q' =
    (if e = OVA_SUCCESS then linked_queue_items q @ [x] else linked_queue_items q)"
proof -
  note shape = inv [unfolded linked_queue_inv_def]
  obtain r where r: "linked_enqueue (Some q) x w = (e, r, w')" "q' = the r"
    using enq by (auto simp: linked_enqueue_method_def split: prod.splits)
  show ?thesis
  proof (cases "e = OVA_SUCCESS")
    case True
    with linked_enqueue_shape [OF shape, of x w r w'] r obtain n fs' where
      q': "lq_shape q' (lq_addrs q @ [n]) fs'" "lq_user_data q' = lq_user_data q"
      "map (\<lambda>a. qe_data (entry_at (lq_store q') a)) (lq_addrs q @ [n]) =
        map (\<lambda>a. qe_data (entry_at (lq_store q) a)) (lq_addrs q) @ [x]" by auto
    show ?thesis
      using True q' linked_queue_invI [OF q'(1)] linked_queue_items_shape [OF q'(1)]
      by (simp add: linked_queue_items_def)
  next
    case False
    then have "q' = q"
      using r by (auto simp: Let_def dest!: acquire_node_none split: prod.splits option.splits)
    with False inv show ?thesis by simp
  qed
qed

lemma linked_dequeue_spec:
  assumes inv: "linked_queue_inv q"
  shows "linked_queue_inv (snd (linked_dequeue_impl q)) \<and>
    fst (linked_dequeue_impl q) = nth_ptr (linked_queue_items q) 0 \<and>
    linked_queue_items (snd (linked_dequeue_impl q)) = tl (linked_queue_items q)"
proof (cases "lq_addrs q")
  case Nil
  then have "lq_front q = None"
    using inv by (simp add: linked_queue_inv_def lq_shape_def)
  with Nil inv show ?thesis
    by (simp add: linked_dequeue_impl_def linked_queue_items_def nth_ptr_def)
next
  case (Cons a as)
  have shape: "lq_shape q (a # as) (lq_retired q)" using inv Cons by (simp add: linked_queue_inv_def)
  note d = linked_dequeue_shape [OF shape]
  then obtain fs' where s: "lq_shape (snd (linked_dequeue_impl q)) as fs'" by blast
  from d linked_queue_invI [OF s] linked_queue_items_shape [OF s] linked_queue_items_shape [OF shape]
  show ?thesis by (simp add: nth_ptr_def)
qed

interpretation lq: fifo linked_enqueue_method linked_dequeue_impl linked_queue_inv linked_queue_items
proof unfold_locales
  fix q q' :: "'a linked_queue" and x w e w'
  assume "linked_queue_inv q" "linked_enqueue_method q x w = (e, q', w')"
  from linked_enqueue_cases [OF this] show "linked_queue_inv q'"
    and "linked_queue_items q' = (if e = OVA_SUCCESS then linked_queue_items q @ [x] else linked_queue_items q)"
    by simp_all
next
  fix q q' :: "'a linked_queue" and x
  assume "linked_queue_inv q" "linked_dequeue_impl q = (x, q')"
  with linked_dequeue_spec [OF this(1)]
  show "linked_queue_inv q' \<and> x = nth_ptr (linked_queue_items q) 0 \<and>
      linked_queue_items q' = tl (linked_queue_items q)" by simp
qed

section \<open>Emptying, freeing, cloning\<close>

lemma dequeue_all_shape:
  "lq_shape q as fs \<Longrightarrow> length as \<le> n \<Longrightarrow> \<exists>fs'. lq_shape (dequeue_all n q) [] fs'"
proof (induction as arbitrary: q fs n)
  case Nil
  then have "lq_front q = None" by (simp add: lq_shape_def)
  then have "dequeue_all n q = q" by (cases n) simp_all
  with Nil show ?case by auto
next
  case (Cons a as)
  then obtain m where m: "n = Suc m" by (cases n) auto
  have "lq_front q \<noteq> None" using Cons.prems(1) by (simp add: lq_shape_def)
  then have "dequeue_all n q = dequeue_all m (snd (linked_dequeue_impl q))" using m by auto
  moreover obtain fs' where "lq_shape (snd (linked_dequeue_impl q)) as fs'"
    using linked_dequeue_shape [OF Cons.prems(1)] by blast
  ultimately show ?case using Cons.IH Cons.prems(2) m by simp
qed

lemma free_entries_all:
  "lseg s p fs \<Longrightarrow> distinct fs \<Longrightarrow> dom s = set fs \<Longrightarrow> free_entries (length fs) s p = Map.empty"
proof (induction fs arbitrary: s p)
  case Nil
  then show ?case by simp
next
  case (Cons a fs)
  then obtain nd where nd: "p = Some a" "s a = Some nd" "lseg s (qe_next nd) fs" by auto
  moreover have "a \<notin> set fs" "dom (s(a := None)) = set fs" using Cons.prems by auto
  ultimately have "free_entries (length fs) (s(a := None)) (qe_next nd) = Map.empty"
    using Cons.prems(2) lseg_upd by (intro Cons.IH) (simp_all only: distinct.simps lseg_upd not_False_eq_True)
  with nd show ?case by (simp add: entry_at_def)
qed

lemma linked_free_all:
  assumes "linked_queue_inv q"
  shows "linked_free (Some q) = Map.empty"
proof -
  have "lq_shape q (lq_addrs q) (lq_retired q)" using assms by (simp add: linked_queue_inv_def)
  moreover from this have "length (lq_addrs q) \<le> lq_length q" by (simp add: lq_shape_def)
  ultimately obtain fs where "lq_shape (dequeue_all (lq_length q) q) [] fs"
    using dequeue_all_shape by blast
  with free_entries_all [of "lq_store (dequeue_all (lq_length q) q)"
      "lq_freelist (dequeue_all (lq_length q) q)" fs]
  show ?thesis by (simp add: drain_freelist_def lq_shape_def)
qed

lemma linked_clear_spec:
  assumes "linked_queue_inv q"
  shows "\<exists>q'. linked_clear (Some q) = Some q' \<and> linked_queue_inv q' \<and> linked_queue_items q' = []"
proof -
  have "lq_shape q (lq_addrs q) (lq_retired q)" using assms by (simp add: linked_queue_inv_def)
  moreover from this have "length (lq_addrs q) \<le> lq_length q" by (simp add: lq_shape_def)
  ultimately obtain fs where fs: "lq_shape (dequeue_all (lq_length q) q) [] fs"
    using dequeue_all_shape by blast
  from linked_queue_invI [OF fs] linked_queue_items_shape [OF fs] show ?thesis by simp
qed

lemma create_linked_queue_inv:
  "create_linked_queue w = (Some q, w') \<Longrightarrow> linked_queue_inv q \<and> linked_queue_items q = []"
  by (auto simp: create_linked_queue_def linked_queue_inv_def lq_shape_def lq_addrs_def lq_retired_def
      last_ptr_def linked_queue_items_def split: prod.splits bool.splits)

lemma queue_clone_loop_spec:
  "lseg s p as \<Longrightarrow> length as \<le> n \<Longrightarrow> linked_queue_inv copy \<Longrightarrow>
     queue_clone_loop dup s n p copy w = (Some copy', w') \<Longrightarrow>
     linked_queue_inv copy' \<and> (\<exists>ys. list_all2 (dup_of dup) (map (\<lambda>a. qe_data (entry_at s a)) as) ys \<and>
       linked_queue_items copy' = linked_queue_items copy @ ys)"
proof (induction as arbitrary: p n copy w)
  case Nil
  then show ?case by auto
next
  case (Cons a as)
  then obtain m where m: "n = Suc m" by (cases n) auto
  obtain nd where nd: "p = Some a" "s a = Some nd" "lseg s (qe_next nd) as" using Cons.prems(1) by auto
  obtain d w1 where d: "dup (qe_data nd) w = (Some d, w1)"
    using Cons.prems(4) m nd by (auto simp: entry_at_def split: prod.splits option.splits)
  obtain e c w2 where enq: "linked_enqueue_method copy d w1 = (e, c, w2)" by (metis prod_cases3)
  then have e: "e = OVA_SUCCESS" and rest: "queue_clone_loop dup s m (qe_next nd) c w2 = (Some copy', w')"
    using Cons.prems(4) m nd d
    by (auto simp: entry_at_def linked_enqueue_method_def split: prod.splits if_splits)
  note c = linked_enqueue_cases [OF Cons.prems(3) enq]
  from Cons.IH [OF nd(3) _ _ rest] Cons.prems(2) m c obtain ys where
    "linked_queue_inv copy'" "list_all2 (dup_of dup) (map (\<lambda>a. qe_data (entry_at s a)) as) ys"
    "linked_queue_items copy' = linked_queue_items c @ ys" by auto
  moreover have "dup_of dup (qe_data nd) d" using d by (auto simp: dup_of_def)
  ultimately show ?case
    using c e nd by (intro conjI exI [of _ "d # ys"]) (simp_all add: entry_at_def)
qed

lemma linked_clone_with_spec:
  assumes inv: "linked_queue_inv q" and clone: "linked_clone_with dup q w = (Some c, w')"
  shows "linked_queue_inv c \<and> list_all2 (dup_of dup) (linked_queue_items q) (linked_queue_items c) \<and>
    lq_user_data c = lq_user_data q"
proof -
  have shape: "lq_shape q (lq_addrs q) (lq_retired q)" using inv by (simp add: linked_queue_inv_def)
  obtain c0 c1 w1 where create: "create_linked_queue w = (Some c0, w1)"
    and loop: "queue_clone_loop dup (lq_store q) (lq_length q) (lq_front q) c0 w1 = (Some c1, w')"
    and c: "c = c1\<lparr>lq_user_data := lq_user_data q\<rparr>"
    using clone by (auto simp: linked_clone_with_def split: prod.splits option.splits)
  have c0: "linked_queue_inv c0" "linked_queue_items c0 = []"
    using create_linked_queue_inv [OF create] by simp_all
  have frame: "linked_queue_inv c = linked_queue_inv c1" "linked_queue_items c = linked_queue_items c1"
    by (simp_all add: c linked_queue_inv_def lq_shape_def lq_addrs_def lq_retired_def linked_queue_items_def)
  have "lseg (lq_store q) (lq_front q) (lq_addrs q)" "length (lq_addrs q) \<le> lq_length q"
    using shape by (simp_all add: lq_shape_def)
  from queue_clone_loop_spec [OF this c0(1) loop] c0(2) show ?thesis
    unfolding frame by (simp add: c linked_queue_items_def)
qed

section \<open>Properties\<close>

text \<open>The linked queue is first-in first-out, across all reuse of retired entries: after a batch
  has been enqueued behind some content, dequeuing returns the earlier content first and then the
  batch in order.\<close>

theorem linked_queue_fifo:
  assumes "linked_queue_inv q" "push_all linked_enqueue_method xs q w = (OVA_SUCCESS, q1, w1)"
    and "n = length (linked_queue_items q) + length xs"
  shows "fst (pop_n linked_dequeue_impl n q1) = linked_queue_items q @ xs \<and>
    linked_queue_items (snd (pop_n linked_dequeue_impl n q1)) = [] \<and>
    linked_queue_inv (snd (pop_n linked_dequeue_impl n q1))"
proof -
  have q1: "linked_queue_inv q1" "linked_queue_items q1 = linked_queue_items q @ xs"
    using lq.enqueue_all_elems [OF assms(1,2)] by auto
  with lq.dequeue_n_elems [OF q1(1), of n] assms(3) show ?thesis by simp
qed

text \<open>A queue of one entry with one retired entry waiting.\<close>

definition sample_queue :: "nat linked_queue" where
  "sample_queue = \<lparr>lq_store = [3 \<mapsto> \<lparr>qe_data = Some 8, qe_next = None\<rparr>,
     5 \<mapsto> \<lparr>qe_data = Some 2, qe_next = None\<rparr>], lq_brk = 6, lq_front = Some 3, lq_rear = Some 3,
     lq_length = 1, lq_freelist = Some 5, lq_freelist_size = 1, lq_user_data = None\<rparr>"

lemma sample_queue_inv: "linked_queue_inv sample_queue" "linked_queue_items sample_queue = [Some 8]"
proof -
  have shape: "lq_shape sample_queue [3] [5]"
    by (auto simp: sample_queue_def lq_shape_def last_ptr_def LINKED_QUEUE_FREELIST_MAX_def)
  then show "linked_queue_inv sample_queue" by (rule linked_queue_invI)
  show "linked_queue_items sample_queue = [Some 8]"
    using linked_queue_items_shape [OF shape] by (simp add: sample_queue_def entry_at_def)
qed

theorem linked_queue_fifo_witness:
  "\<exists>q1 w1. push_all linked_enqueue_method [Some 4, Some 6] sample_queue fresh_world = (OVA_SUCCESS, q1, w1) \<and>
     fst (pop_n linked_dequeue_impl 3 q1) = [Some 8, Some 4, Some 6]"
proof -
  obtain q1 w1 where p:
    "push_all linked_enqueue_method [Some 4, Some 6] sample_queue fresh_world = (OVA_SUCCESS, q1, w1)"
    by (simp add: sample_queue_def linked_enqueue_method_def acquire_node_def malloc_struct_def
        malloc_def PTRDIFF_MAX_def Let_def)
  from linked_queue_fifo [OF sample_queue_inv(1) p, of 3] sample_queue_inv(2) p
  show ?thesis by simp
qed

text \<open>C7: No entry is leaked or freed twice: the entries in the queue and the retired ones are
  disjoint and are all the entries allocated, at most 4096 of them are retired, and freeing the
  queue releases every one.\<close>

theorem linked_queue_no_leak:
  assumes "linked_queue_inv q"
    and "linked_enqueue_method q x w = (e, q1, w1)" "q2 = snd (linked_dequeue_impl q)"
  shows "linked_queue_inv q1 \<and> linked_queue_inv q2 \<and>
    dom (lq_store q2) = set (lq_addrs q2) \<union> set (lq_retired q2) \<and>
    set (lq_addrs q2) \<inter> set (lq_retired q2) = {} \<and> length (lq_retired q2) \<le> 4096 \<and>
    linked_free (Some q1) = Map.empty \<and> linked_free (Some q2) = Map.empty"
proof -
  have inv: "linked_queue_inv q1" "linked_queue_inv q2"
    using linked_enqueue_cases [OF assms(1,2)] linked_dequeue_spec [OF assms(1)] assms(3) by simp_all
  have "lq_shape q2 (lq_addrs q2) (lq_retired q2)" using inv(2) by (simp add: linked_queue_inv_def)
  with inv linked_free_all [OF inv(1)] linked_free_all [OF inv(2)] show ?thesis
    by (simp add: lq_shape_def LINKED_QUEUE_FREELIST_MAX_def del: linked_free.simps)
qed

theorem linked_queue_no_leak_witness:
  "\<exists>q1 w1. linked_enqueue_method sample_queue (Some 1) fresh_world = (OVA_SUCCESS, q1, w1) \<and>
     linked_free (Some q1) = Map.empty"
proof -
  obtain q1 w1 where e: "linked_enqueue_method sample_queue (Some 1) fresh_world = (OVA_SUCCESS, q1, w1)"
    by (simp add: sample_queue_def linked_enqueue_method_def acquire_node_def Let_def)
  with linked_queue_no_leak [OF sample_queue_inv(1) e refl] show ?thesis
    by (simp del: linked_free.simps)
qed

end
