(* ===== verification/Binary_Heap.thy ===== *)
theory Binary_Heap
  imports Set_Defaults List_Iface
begin

text \<open>
  The array-based binary heap, \<open>src/heap/binary_heap.c\<close>. The parent of slot \<open>i\<close> is slot
  \<open>(i - 1) / 2\<close>; the invariant is that no element is greater than its parent, so the largest
  element under the comparator is at slot 0. The comparator pointer is not null, as
  \<open>create_heap\<close> asks.
\<close>

section \<open>The contract of a priority queue\<close>

locale priority_source =
  fixes pop_op :: "'h \<Rightarrow> 'a ptr \<times> 'h"
    and peek_op :: "'h \<Rightarrow> 'a ptr"
    and size_op :: "'h \<Rightarrow> int"
    and inv :: "'h \<Rightarrow> bool"
    and bag :: "'h \<Rightarrow> 'a ptr multiset"
    and order_of :: "'h \<Rightarrow> 'a comparator"
    and room :: "'h \<Rightarrow> nat"
  assumes pop_empty: "inv h \<Longrightarrow> bag h = {#} \<Longrightarrow> pop_op h = (NULL, h)"
    and pop_max: "inv h \<Longrightarrow> bag h \<noteq> {#} \<Longrightarrow> pop_op h = (x, h') \<Longrightarrow>
          inv h' \<and> order_of h' = order_of h \<and> room h' = room h \<and>
          x \<in># bag h \<and> (\<forall>y \<in># bag h. order_of h x y \<ge> 0) \<and> bag h' = bag h - {#x#}"
    and peek_pop: "inv h \<Longrightarrow> peek_op h = fst (pop_op h)"
    and size_bag: "inv h \<Longrightarrow> size_op h = int (size (bag h))"
begin

text \<open>Emptying the queue lists its elements from the greatest down.\<close>

lemma pop_n_sorted:
  "inv h \<Longrightarrow> n \<le> size (bag h) \<Longrightarrow> pop_n pop_op n h = (xs, h') \<Longrightarrow>
     inv h' \<and> order_of h' = order_of h \<and> room h' = room h \<and> length xs = n \<and>
     bag h = mset xs + bag h' \<and> sorted_wrt (\<lambda>a b. order_of h a b \<ge> 0) xs \<and>
     (\<forall>x \<in> set xs. \<forall>y \<in># bag h'. order_of h x y \<ge> 0)"
proof (induction n arbitrary: h xs h')
  case 0
  then show ?case by simp
next
  case (Suc n)
  obtain x h1 where pop: "pop_op h = (x, h1)" by fastforce
  obtain ys h2 where rest: "pop_n pop_op n h1 = (ys, h2)" by fastforce
  have res: "xs = x # ys" "h' = h2" using Suc.prems(3) pop rest by simp_all
  have ne: "bag h \<noteq> {#}" using Suc.prems(2) by auto
  note p = pop_max [OF Suc.prems(1) ne pop]
  then have "n \<le> size (bag h1)" using Suc.prems(2) by (simp add: size_Diff_singleton)
  with Suc.IH [OF _ _ rest] p
  have IH: "inv h2" "order_of h2 = order_of h" "room h2 = room h" "length ys = n"
    "bag h1 = mset ys + bag h2" "sorted_wrt (\<lambda>a b. order_of h a b \<ge> 0) ys"
    "\<forall>x \<in> set ys. \<forall>y \<in># bag h2. order_of h x y \<ge> 0" by simp_all
  have bag: "bag h = add_mset x (mset ys + bag h2)" using p IH(5) by (metis insert_DiffM)
  then have "\<forall>y \<in> set ys. order_of h x y \<ge> 0" "\<forall>y \<in># bag h2. order_of h x y \<ge> 0"
    using p by simp_all
  with IH bag show ?case unfolding res by simp
qed

end

text \<open>A queue that also takes elements whenever it has room for them.\<close>

locale priority_queue = priority_source pop_op peek_op size_op inv bag order_of room
  for pop_op :: "'h \<Rightarrow> 'a ptr \<times> 'h" and peek_op size_op inv bag order_of room +
  fixes put_op :: "'h \<Rightarrow> 'a ptr \<Rightarrow> 'a world \<Rightarrow> ova_error_code \<times> 'h \<times> 'a world"
  assumes put_inv: "inv h \<Longrightarrow> put_op h x w = (e, h', w') \<Longrightarrow> inv h' \<and> order_of h' = order_of h"
    and put_bag: "inv h \<Longrightarrow> put_op h x w = (e, h', w') \<Longrightarrow>
          bag h' = (if e = OVA_SUCCESS then add_mset x (bag h) else bag h) \<and> room h \<le> room h'"
    and put_room: "inv h \<Longrightarrow> size (bag h) < room h \<Longrightarrow> fst (put_op h x w) = OVA_SUCCESS"
begin

text \<open>A batch that is accepted is added, whatever grew on the way.\<close>

lemma push_all_success:
  "inv h \<Longrightarrow> push_all put_op xs h w = (OVA_SUCCESS, h', w') \<Longrightarrow>
     inv h' \<and> order_of h' = order_of h \<and> bag h' = bag h + mset xs"
proof (induction xs arbitrary: h w)
  case Nil
  then show ?case by simp
next
  case (Cons x xs)
  obtain e1 h1 w1 where put: "put_op h x w = (e1, h1, w1)" by (metis prod_cases3)
  have "e1 = OVA_SUCCESS" using Cons.prems(2) put by (auto split: if_splits)
  with put_bag [OF Cons.prems(1) put] put_inv [OF Cons.prems(1) put] Cons.IH [of h1 w1]
    Cons.prems(2) put show ?case by simp
qed

text \<open>With enough room every element of a batch is taken.\<close>

lemma push_all_bag:
  "inv h \<Longrightarrow> size (bag h) + length xs \<le> room h \<Longrightarrow> push_all put_op xs h w = (e, h', w') \<Longrightarrow>
     e = OVA_SUCCESS \<and> inv h' \<and> order_of h' = order_of h \<and> bag h' = bag h + mset xs"
proof (induction xs arbitrary: h w)
  case Nil
  then show ?case by simp
next
  case (Cons x xs)
  obtain e1 h1 w1 where put: "put_op h x w = (e1, h1, w1)" by (metis prod_cases3)
  have "e1 = OVA_SUCCESS" using put_room [OF Cons.prems(1), of x w] Cons.prems(2) put by simp
  with put_bag [OF Cons.prems(1) put] put_inv [OF Cons.prems(1) put] Cons.IH [of h1 w1]
    Cons.prems put show ?case by simp
qed

end

section \<open>State and operations\<close>

record 'a binary_heap =
  bh_data :: "'a ptr list"
  bh_capacity :: nat
  bh_size :: nat
  bh_cmp :: "'a comparator"

definition parent_of :: "nat \<Rightarrow> nat" where
  "parent_of i = (i - 1) div 2"

function sift_up_loop :: "'a comparator \<Rightarrow> 'a ptr list \<Rightarrow> 'a ptr \<Rightarrow> nat \<Rightarrow> 'a ptr list" where
  "sift_up_loop cmp data item index =
     (if index > 0 then
        (let parent_idx = (index - 1) div 2 in
         if cmp (data ! parent_idx) item \<ge> 0 then data[index := item]
         else sift_up_loop cmp (data[index := data ! parent_idx]) item parent_idx)
      else data[index := item])"
  by pat_completeness auto
termination by (relation "measure (\<lambda>(cmp, data, item, index). index)") auto

definition sift_up :: "'a binary_heap \<Rightarrow> nat \<Rightarrow> 'a binary_heap" where
  "sift_up h index =
     h\<lparr>bh_data := sift_up_loop (bh_cmp h) (bh_data h) (bh_data h ! index) index\<rparr>"

text \<open>The child that may move up: the right one if there is one and it is greater.\<close>

definition larger_child :: "'a comparator \<Rightarrow> 'a ptr list \<Rightarrow> nat \<Rightarrow> nat \<Rightarrow> nat" where
  "larger_child cmp data n index =
     (let child = 2 * index + 1 in
      if child + 1 < n \<and> cmp (data ! (child + 1)) (data ! child) > 0 then child + 1 else child)"

function sift_down_loop ::
  "'a comparator \<Rightarrow> 'a ptr list \<Rightarrow> nat \<Rightarrow> 'a ptr \<Rightarrow> nat \<Rightarrow> 'a ptr list" where
  "sift_down_loop cmp data n item index =
     (if index < n div 2 then
        (let child = larger_child cmp data n index in
         if cmp (data ! child) item \<le> 0 then data[index := item]
         else sift_down_loop cmp (data[index := data ! child]) n item child)
      else data[index := item])"
  by pat_completeness auto
termination
  by (relation "measure (\<lambda>(cmp, data, n, item, index). n - index)")
    (auto simp: larger_child_def Let_def)

declare sift_up_loop.simps [simp del] sift_down_loop.simps [simp del]

definition sift_down :: "'a binary_heap \<Rightarrow> nat \<Rightarrow> 'a binary_heap" where
  "sift_down h index =
     h\<lparr>bh_data := sift_down_loop (bh_cmp h) (bh_data h) (bh_size h) (bh_data h ! index) index\<rparr>"

definition binary_heap_init ::
  "int \<Rightarrow> 'a comparator \<Rightarrow> 'a world \<Rightarrow> 'a binary_heap option \<times> 'a world" where
  "binary_heap_init initial_capacity cmp w =
     (case malloc_struct w of
        (False, w1) \<Rightarrow> (None, w1)
      | (True, w1) \<Rightarrow>
         (case malloc_ptrs initial_capacity w1 of
            (None, w2) \<Rightarrow> (None, w2)
          | (Some data, w2) \<Rightarrow>
              (Some \<lparr>bh_data = data, bh_capacity = nat initial_capacity, bh_size = 0,
                     bh_cmp = cmp\<rparr>, w2)))"

definition create_binary_heap ::
  "int \<Rightarrow> 'a comparator \<Rightarrow> 'a world \<Rightarrow> 'a binary_heap option \<times> 'a world" where
  "create_binary_heap initial_capacity compare_function w =
     (case binary_heap_init initial_capacity compare_function w of
        (None, w1) \<Rightarrow> (None, w1)
      | (Some bh, w1) \<Rightarrow>
         (case malloc_struct w1 of
            (False, w2) \<Rightarrow> (None, w2)
          | (True, w2) \<Rightarrow> (Some bh, w2)))"

text \<open>Storing the item behind the last one and moving it up.\<close>

definition heap_append :: "'a binary_heap \<Rightarrow> 'a ptr \<Rightarrow> 'a binary_heap" where
  "heap_append h item =
     (let h' = sift_up (h\<lparr>bh_data := (bh_data h)[bh_size h := item]\<rparr>) (bh_size h)
      in h'\<lparr>bh_size := bh_size h' + 1\<rparr>)"

definition binary_heap_put ::
  "'a binary_heap \<Rightarrow> 'a ptr \<Rightarrow> 'a world \<Rightarrow> ova_error_code \<times> 'a binary_heap \<times> 'a world" where
  "binary_heap_put h item w =
     (if bh_size h = bh_capacity h then
        (let new_capacity = safe_double_capacity (bh_capacity h) in
         if new_capacity = bh_capacity h then (OVA_ERROR_FULL, h, w)
         else (case realloc_ptrs (bh_data h) (int new_capacity) w of
             (None, w') \<Rightarrow> (OVA_ERROR_MEMORY, h, w')
           | (Some new_data, w') \<Rightarrow>
               (OVA_SUCCESS,
                heap_append (h\<lparr>bh_data := new_data, bh_capacity := new_capacity\<rparr>) item, w')))
      else (OVA_SUCCESS, heap_append h item, w))"

definition binary_heap_pop :: "'a binary_heap \<Rightarrow> 'a ptr \<times> 'a binary_heap" where
  "binary_heap_pop h =
     (if bh_size h = 0 then (NULL, h)
      else
       (let top = bh_data h ! 0;
            h = h\<lparr>bh_data := (bh_data h)[0 := bh_data h ! (bh_size h - 1)]\<rparr>;
            h = h\<lparr>bh_size := bh_size h - 1\<rparr>
        in (top, sift_down h 0)))"

definition binary_heap_peek :: "'a binary_heap \<Rightarrow> 'a ptr" where
  "binary_heap_peek h = (if bh_size h = 0 then NULL else bh_data h ! 0)"

definition binary_heap_size :: "'a binary_heap \<Rightarrow> int" where
  "binary_heap_size h = int (bh_size h)"

definition binary_heap_clear :: "'a binary_heap \<Rightarrow> 'a binary_heap" where
  "binary_heap_clear h = h\<lparr>bh_size := 0\<rparr>"

section \<open>Heap order\<close>

definition heap_ordered :: "'a comparator \<Rightarrow> 'a ptr list \<Rightarrow> nat \<Rightarrow> bool" where
  "heap_ordered cmp d n \<longleftrightarrow> (\<forall>i < n. 0 < i \<longrightarrow> cmp (d ! parent_of i) (d ! i) \<ge> 0)"

text \<open>Ordered except between slot \<open>k\<close> and its parent, or between slot \<open>k\<close> and its children;
  in both cases the parent of \<open>k\<close> dominates the children of \<open>k\<close>.\<close>

definition ordered_but_up :: "'a comparator \<Rightarrow> 'a ptr list \<Rightarrow> nat \<Rightarrow> nat \<Rightarrow> bool" where
  "ordered_but_up cmp d n k \<longleftrightarrow>
     (\<forall>i < n. 0 < i \<longrightarrow> i \<noteq> k \<longrightarrow> cmp (d ! parent_of i) (d ! i) \<ge> 0) \<and>
     (\<forall>i < n. 0 < i \<longrightarrow> 0 < k \<longrightarrow> parent_of i = k \<longrightarrow> cmp (d ! parent_of k) (d ! i) \<ge> 0)"

definition ordered_but_down :: "'a comparator \<Rightarrow> 'a ptr list \<Rightarrow> nat \<Rightarrow> nat \<Rightarrow> bool" where
  "ordered_but_down cmp d n k \<longleftrightarrow>
     (\<forall>i < n. 0 < i \<longrightarrow> parent_of i \<noteq> k \<longrightarrow> cmp (d ! parent_of i) (d ! i) \<ge> 0) \<and>
     (\<forall>i < n. 0 < i \<longrightarrow> 0 < k \<longrightarrow> parent_of i = k \<longrightarrow> cmp (d ! parent_of k) (d ! i) \<ge> 0)"

lemma parent_of_less [simp]: "0 < i \<Longrightarrow> parent_of i < i"
  by (auto simp: parent_of_def)

lemma parent_of_le: "parent_of i \<le> i"
  by (auto simp: parent_of_def)

lemma parent_of_eq: "0 < i \<Longrightarrow> parent_of i = k \<longleftrightarrow> i = 2 * k + 1 \<or> i = 2 * k + 2"
  by (auto simp: parent_of_def)

context comparator_order
begin

lemma ge_trans: "cmp a b \<ge> 0 \<Longrightarrow> cmp b c \<ge> 0 \<Longrightarrow> cmp a c \<ge> 0"
  using cmp_trans [of c b a] cmp_le_iff [of c b] cmp_le_iff [of b a] cmp_le_iff [of c a] by simp

lemma ge_total: "\<not> cmp a b \<ge> 0 \<Longrightarrow> cmp b a \<ge> 0"
  using cmp_le_iff [of a b] by linarith

lemma heap_root_max:
  "heap_ordered cmp d n \<Longrightarrow> i < n \<Longrightarrow> cmp (d ! 0) (d ! i) \<ge> 0"
proof (induction i rule: less_induct)
  case (less i)
  show ?case
  proof (cases "i = 0")
    case False
    then have "cmp (d ! 0) (d ! parent_of i) \<ge> 0" "cmp (d ! parent_of i) (d ! i) \<ge> 0"
      using less parent_of_less [of i] by (auto simp: heap_ordered_def)
    then show ?thesis by (rule ge_trans)
  qed simp
qed

lemma swap_up_ordered:
  assumes ord: "ordered_but_up cmp d n k" and k: "0 < k" "k < n" "n \<le> length d"
    and less: "\<not> cmp (d ! parent_of k) (d ! k) \<ge> 0"
  shows "ordered_but_up cmp (d[k := d ! parent_of k, parent_of k := d ! k]) n (parent_of k)"
    (is "ordered_but_up cmp ?e n ?p")
proof -
  have p: "?p < k" "?p < length d" "k < length d" using k parent_of_less [of k] by linarith+
  have e: "?e ! i = (if i = ?p then d ! k else if i = k then d ! ?p else d ! i)" if "i < n" for i
    using that k p by (simp add: nth_list_update)
  have kp: "cmp (d ! k) (d ! ?p) \<ge> 0" using less ge_total by blast
  show ?thesis
    unfolding ordered_but_up_def
  proof (intro conjI allI impI)
    fix i assume i: "i < n" "0 < i" "i \<noteq> ?p"
    have pi: "parent_of i < n" using i parent_of_le [of i] by linarith
    consider "i = k" | "i \<noteq> k" "parent_of i = k" | "i \<noteq> k" "parent_of i = ?p"
      | "i \<noteq> k" "parent_of i \<noteq> k" "parent_of i \<noteq> ?p" by blast
    then show "cmp (?e ! parent_of i) (?e ! i) \<ge> 0"
    proof cases
      case 1
      then show ?thesis using kp e i pi p k by simp
    next
      case 2
      then have "cmp (d ! ?p) (d ! i) \<ge> 0" using ord i k unfolding ordered_but_up_def by metis
      then show ?thesis using 2 e i pi p by simp
    next
      case 3
      then have "cmp (d ! ?p) (d ! i) \<ge> 0" using ord i unfolding ordered_but_up_def by metis
      then have "cmp (d ! k) (d ! i) \<ge> 0" using kp ge_trans by blast
      then show ?thesis using 3 e i pi by simp
    next
      case 4
      then show ?thesis using ord i e pi unfolding ordered_but_up_def by simp
    qed
  next
    fix i assume i: "i < n" "0 < i" "0 < ?p" "parent_of i = ?p"
    have pp: "parent_of ?p < ?p" "parent_of ?p \<noteq> k"
      using i p(1) parent_of_less [of ?p] by linarith+
    have gp: "cmp (d ! parent_of ?p) (d ! ?p) \<ge> 0"
    proof -
      have "?p < n" "?p \<noteq> k" using p k by linarith+
      then show ?thesis using ord i(3) unfolding ordered_but_up_def by blast
    qed
    have "i \<noteq> ?p" using i by (metis parent_of_less less_irrefl)
    have eg: "?e ! parent_of ?p = d ! parent_of ?p" using pp by (metis nth_list_update_neq less_irrefl)
    show "cmp (?e ! parent_of ?p) (?e ! i) \<ge> 0"
    proof (cases "i = k")
      case True
      then have "?e ! i = d ! ?p" using e [OF i(1)] \<open>i \<noteq> ?p\<close> by simp
      then show ?thesis using gp eg by simp
    next
      case False
      then have "cmp (d ! ?p) (d ! i) \<ge> 0" using ord i unfolding ordered_but_up_def by metis
      moreover have "?e ! i = d ! i" using e [OF i(1)] False \<open>i \<noteq> ?p\<close> by simp
      ultimately show ?thesis using gp eg ge_trans by metis
    qed
  qed
qed

lemma swap_down_ordered:
  assumes ord: "ordered_but_down cmp d n k" and c: "parent_of c = k" "0 < c" "c < n" "n \<le> length d"
    and big: "\<And>j. j < n \<Longrightarrow> 0 < j \<Longrightarrow> parent_of j = k \<Longrightarrow> cmp (d ! c) (d ! j) \<ge> 0"
    and gt: "cmp (d ! c) (d ! k) \<ge> 0"
  shows "ordered_but_down cmp (d[k := d ! c, c := d ! k]) n c"
    (is "ordered_but_down cmp ?e n c")
proof -
  have k: "k < c" "k < length d" "c < length d" using c parent_of_less [of c] by linarith+
  have e: "?e ! i = (if i = c then d ! k else if i = k then d ! c else d ! i)" if "i < n" for i
    using that k by (simp add: nth_list_update)
  show ?thesis
    unfolding ordered_but_down_def
  proof (intro conjI allI impI)
    fix i assume i: "i < n" "0 < i" "parent_of i \<noteq> c"
    have pi: "parent_of i < n" "parent_of i < i" using i parent_of_less [of i] by linarith+
    consider "i = c" | "i \<noteq> c" "parent_of i = k" | "i = k" "parent_of i \<noteq> k"
      | "i \<noteq> c" "i \<noteq> k" "parent_of i \<noteq> k" by blast
    then show "cmp (?e ! parent_of i) (?e ! i) \<ge> 0"
    proof cases
      case 1
      then show ?thesis using gt e c k i by simp
    next
      case 2
      then have "i \<noteq> k" using pi by auto
      then show ?thesis using 2 big i e pi k by simp
    next
      case 3
      have "cmp (d ! parent_of k) (d ! c) \<ge> 0"
        using ord c 3 i unfolding ordered_but_down_def by blast
      then show ?thesis using 3 e i pi k by simp
    next
      case 4
      then show ?thesis using ord i e pi unfolding ordered_but_down_def by simp
    qed
  next
    fix i assume i: "i < n" "0 < i" "0 < c" "parent_of i = c"
    then have "c < i" by (metis parent_of_less)
    moreover have "cmp (d ! c) (d ! i) \<ge> 0"
      using ord i k unfolding ordered_but_down_def by (metis less_irrefl)
    ultimately show "cmp (?e ! parent_of c) (?e ! i) \<ge> 0" using e i c k by simp
  qed
qed

lemma sift_up_loop_spec:
  "index < n \<Longrightarrow> n \<le> length data \<Longrightarrow> ordered_but_up cmp (data[index := item]) n index \<Longrightarrow>
     length (sift_up_loop cmp data item index) = length data \<and>
     drop n (sift_up_loop cmp data item index) = drop n data \<and>
     mset (sift_up_loop cmp data item index) = mset (data[index := item]) \<and>
     heap_ordered cmp (sift_up_loop cmp data item index) n"
proof (induction index arbitrary: data rule: less_induct)
  case (less index)
  let ?D = "data[index := item]" and ?p = "parent_of index"
  show ?case
  proof (cases "index > 0 \<and> \<not> cmp (data ! ?p) item \<ge> 0")
    case False
    have "heap_ordered cmp ?D n"
      unfolding heap_ordered_def
    proof (intro allI impI)
      fix i assume i: "i < n" "0 < i"
      show "cmp (?D ! parent_of i) (?D ! i) \<ge> 0"
      proof (cases "i = index")
        case True
        then have "index \<noteq> ?p" using i parent_of_less by (metis less_irrefl)
        then show ?thesis using True i False less.prems by simp
      next
        case neq: False
        then show ?thesis using i less.prems(3) unfolding ordered_but_up_def by simp
      qed
    qed
    moreover have "sift_up_loop cmp data item index = ?D"
      using False by (subst sift_up_loop.simps) (auto simp: Let_def parent_of_def)
    ultimately show ?thesis using less.prems(1) by (simp add: drop_update_cancel)
  next
    case True
    let ?data = "data[index := data ! ?p]"
    have p: "?p < index" "?p < n" using True less.prems(1) parent_of_less [of index] by linarith+
    have swap: "?data[?p := item] = ?D[index := ?D ! ?p, ?p := ?D ! index]"
      using p less.prems(1,2) by simp
    have "ordered_but_up cmp (?data[?p := item]) n ?p"
      unfolding swap using True less.prems p by (intro swap_up_ordered) simp_all
    from less.IH [OF p(1) p(2) _ this] less.prems(2)
    have "length (sift_up_loop cmp ?data item ?p) = length ?data \<and>
      drop n (sift_up_loop cmp ?data item ?p) = drop n ?data \<and>
      mset (sift_up_loop cmp ?data item ?p) = mset (?data[?p := item]) \<and>
      heap_ordered cmp (sift_up_loop cmp ?data item ?p) n"
      by (simp add: parent_of_def)
    moreover have "mset (?data[?p := item]) = mset ?D"
      unfolding swap using p less.prems(1,2) by (intro mset_swap) simp_all
    moreover have "sift_up_loop cmp data item index = sift_up_loop cmp ?data item ?p"
      using True by (subst sift_up_loop.simps) (simp add: Let_def parent_of_def)
    ultimately show ?thesis using less.prems(1) by (simp add: drop_update_cancel)
  qed
qed

lemma larger_child_spec:
  assumes "index < n div 2"
  shows "parent_of (larger_child cmp d n index) = index \<and> 0 < larger_child cmp d n index \<and>
    larger_child cmp d n index < n \<and>
    (\<forall>j < n. 0 < j \<longrightarrow> parent_of j = index \<longrightarrow> cmp (d ! larger_child cmp d n index) (d ! j) \<ge> 0)"
proof (intro conjI)
  let ?c = "larger_child cmp d n index"
  have c: "?c = 2 * index + 1 \<or> ?c = 2 * index + 2" by (simp add: larger_child_def Let_def)
  then show "0 < ?c" "parent_of ?c = index" by (auto simp: parent_of_def)
  show "?c < n" using assms by (auto simp: larger_child_def Let_def)
  have "cmp (d ! ?c) (d ! (2 * index + 1)) \<ge> 0"
    by (simp add: larger_child_def Let_def)
  moreover have "cmp (d ! ?c) (d ! (2 * index + 2)) \<ge> 0" if "2 * index + 2 < n"
    using that cmp_le_iff [of "d ! (2 * index + 2)" "d ! (2 * index + 1)"]
    by (auto simp: larger_child_def Let_def)
  ultimately show "\<forall>j < n. 0 < j \<longrightarrow> parent_of j = index \<longrightarrow> cmp (d ! ?c) (d ! j) \<ge> 0"
    by (auto simp: parent_of_eq)
qed

lemma sift_down_loop_spec:
  "index < n \<or> n = 0 \<and> index < length data \<Longrightarrow> n \<le> length data \<Longrightarrow>
     ordered_but_down cmp (data[index := item]) n index \<Longrightarrow>
     length (sift_down_loop cmp data n item index) = length data \<and>
     mset (sift_down_loop cmp data n item index) = mset (data[index := item]) \<and>
     (n \<noteq> 0 \<longrightarrow> drop n (sift_down_loop cmp data n item index) = drop n data) \<and>
     heap_ordered cmp (sift_down_loop cmp data n item index) n"
proof (induction "n - index" arbitrary: data index rule: less_induct)
  case (less index)
  let ?D = "data[index := item]" and ?c = "larger_child cmp data n index"
  show ?case
  proof (cases "index < n div 2")
    case False
    have "heap_ordered cmp ?D n"
      unfolding heap_ordered_def
    proof (intro allI impI)
      fix i assume i: "i < n" "0 < i"
      then have "parent_of i \<noteq> index" using False by (auto simp: parent_of_eq)
      then show "cmp (?D ! parent_of i) (?D ! i) \<ge> 0"
        using i less.prems(3) unfolding ordered_but_down_def by simp
    qed
    moreover have "sift_down_loop cmp data n item index = ?D"
      using False by (subst sift_down_loop.simps) simp
    ultimately show ?thesis using less.prems(1) by (auto simp: drop_update_cancel)
  next
    case True
    have idx: "index < n" using True by linarith
    note c = larger_child_spec [OF True, of data]
    have ci: "?c \<noteq> index" using c parent_of_less [of ?c] by linarith
    have Dc: "?D ! ?c = data ! ?c" using ci by simp
    have big: "cmp (?D ! ?c) (?D ! j) \<ge> 0" if "j < n" "0 < j" "parent_of j = index" for j
    proof -
      have "j \<noteq> index" using that parent_of_less [of j] by auto
      then show ?thesis using c that Dc by simp
    qed
    show ?thesis
    proof (cases "cmp (data ! ?c) item \<le> 0")
      case small: True
      have "heap_ordered cmp ?D n"
        unfolding heap_ordered_def
      proof (intro allI impI)
        fix i assume i: "i < n" "0 < i"
        show "cmp (?D ! parent_of i) (?D ! i) \<ge> 0"
        proof (cases "parent_of i = index")
          case pi: True
          have "cmp item (data ! ?c) \<ge> 0" using small cmp_le_iff by blast
          then have "cmp item (?D ! i) \<ge> 0" using big [OF i pi] Dc ge_trans by metis
          then show ?thesis using pi idx less.prems(2) by simp
        next
          case False
          then show ?thesis using i less.prems(3) unfolding ordered_but_down_def by simp
        qed
      qed
      moreover have "sift_down_loop cmp data n item index = ?D"
        using True small by (subst sift_down_loop.simps) (simp add: Let_def)
      ultimately show ?thesis using idx by (simp add: drop_update_cancel)
    next
      case large: False
      let ?data = "data[index := data ! ?c]"
      have swap: "?data[?c := item] = ?D[index := ?D ! ?c, ?c := ?D ! index]"
        using ci idx less.prems(2) by simp
      have "ordered_but_down cmp (?data[?c := item]) n ?c"
        unfolding swap
      proof (rule swap_down_ordered)
        show "cmp (?D ! ?c) (?D ! index) \<ge> 0" using large Dc idx less.prems(2) by simp
      qed (use c big less.prems in auto)
      have prem: "n - ?c < n - index" "?c < n \<or> n = 0 \<and> ?c < length ?data" "n \<le> length ?data"
        using c parent_of_less [of ?c] idx less.prems(2) by auto
      have big_ord: "ordered_but_down cmp (?data[?c := item]) n ?c" by fact
      from less.hyps [OF prem big_ord]
      have "length (sift_down_loop cmp ?data n item ?c) = length ?data \<and>
        mset (sift_down_loop cmp ?data n item ?c) = mset (?data[?c := item]) \<and>
        (n \<noteq> 0 \<longrightarrow> drop n (sift_down_loop cmp ?data n item ?c) = drop n ?data) \<and>
        heap_ordered cmp (sift_down_loop cmp ?data n item ?c) n" by simp
      moreover have "mset (?data[?c := item]) = mset ?D"
        unfolding swap using ci c idx less.prems(2) by (intro mset_swap) auto
      moreover have "sift_down_loop cmp data n item index = sift_down_loop cmp ?data n item ?c"
        using True large by (subst sift_down_loop.simps) (simp add: Let_def)
      ultimately show ?thesis using idx by (simp add: drop_update_cancel)
    qed
  qed
qed

end

section \<open>Invariant and abstraction\<close>

definition heap_inv :: "'a binary_heap \<Rightarrow> bool" where
  "heap_inv h \<longleftrightarrow> comparator_order (bh_cmp h) \<and> length (bh_data h) = bh_capacity h \<and>
     bh_capacity h \<le> INT_MAX \<and> bh_size h \<le> bh_capacity h \<and>
     heap_ordered (bh_cmp h) (bh_data h) (bh_size h)"

definition heap_bag :: "'a binary_heap \<Rightarrow> 'a ptr multiset" where
  "heap_bag h = mset (take (bh_size h) (bh_data h))"

lemma size_heap_bag: "heap_inv h \<Longrightarrow> size (heap_bag h) = bh_size h"
  by (simp add: heap_inv_def heap_bag_def)

lemma mset_take_drop: "mset xs = mset ys \<Longrightarrow> drop n xs = drop n ys \<Longrightarrow> mset (take n xs) = mset (take n ys)"
  by (metis add_right_cancel append_take_drop_id mset_append)

lemma heap_append_spec:
  assumes inv: "heap_inv h" and room: "bh_size h < bh_capacity h"
  shows "heap_inv (heap_append h x) \<and> heap_bag (heap_append h x) = add_mset x (heap_bag h) \<and>
    bh_cmp (heap_append h x) = bh_cmp h \<and> bh_capacity (heap_append h x) = bh_capacity h"
proof -
  let ?n = "bh_size h" and ?d = "(bh_data h)[bh_size h := x]"
  let ?r = "sift_up_loop (bh_cmp h) ?d x ?n"
  have len: "length (bh_data h) = bh_capacity h" using inv by (simp add: heap_inv_def)
  then have app: "heap_append h x = h\<lparr>bh_data := ?r, bh_size := ?n + 1\<rparr>"
    using room by (simp add: heap_append_def sift_up_def Let_def)
  have order: "comparator_order (bh_cmp h)" using inv by (simp add: heap_inv_def)
  have "ordered_but_up (bh_cmp h) (?d[?n := x]) (Suc ?n) ?n"
    unfolding ordered_but_up_def
  proof (intro conjI allI impI)
    fix i assume "i < Suc ?n" "0 < i" "i \<noteq> ?n"
    then have i: "i < ?n" "0 < i" by simp_all
    then have "parent_of i < ?n" using parent_of_less [of i] by linarith
    then show "0 \<le> bh_cmp h (?d[?n := x] ! parent_of i) (?d[?n := x] ! i)"
      using i inv by (simp add: heap_inv_def heap_ordered_def)
  next
    fix i assume "i < Suc ?n" "0 < i" "parent_of i = ?n"
    then show "0 \<le> bh_cmp h (?d[?n := x] ! parent_of ?n) (?d[?n := x] ! i)"
      using parent_of_less [of i] by simp
  qed
  from comparator_order.sift_up_loop_spec [OF order _ _ this] room len
  have r: "length ?r = length (bh_data h)" "drop (Suc ?n) ?r = drop (Suc ?n) ?d" "mset ?r = mset ?d"
    "heap_ordered (bh_cmp h) ?r (Suc ?n)"
    by simp_all
  then have "mset (take (Suc ?n) ?r) = mset (take (Suc ?n) ?d)" by (intro mset_take_drop)
  also have "\<dots> = add_mset x (mset (take ?n (bh_data h)))"
    using room len by (simp add: take_Suc_conv_app_nth)
  finally show ?thesis
    using app r room inv by (simp add: heap_inv_def heap_bag_def)
qed

lemma heap_realloc_inv:
  assumes inv: "heap_inv h" and "realloc_ptrs (bh_data h) (int c) w = (Some new, w')"
    and "c = safe_double_capacity (bh_capacity h)"
  shows "heap_inv (h\<lparr>bh_data := new, bh_capacity := c\<rparr>) \<and>
    heap_bag (h\<lparr>bh_data := new, bh_capacity := c\<rparr>) = heap_bag h \<and> bh_capacity h \<le> c"
proof -
  have cap: "bh_capacity h \<le> INT_MAX" "length (bh_data h) = bh_capacity h" "bh_size h \<le> bh_capacity h"
    using inv by (simp_all add: heap_inv_def)
  have c: "bh_capacity h \<le> c" "c \<le> INT_MAX"
    using assms(3) safe_double_ge [OF cap(1)] safe_double_le by simp_all
  have new: "length new = c" "take (bh_capacity h) new = bh_data h"
    using realloc_ptrs_Some [OF assms(2)] cap(2) c(1) by simp_all
  have nth: "new ! i = bh_data h ! i" if "i < bh_size h" for i
    using that cap new(2) by (metis nth_take order_less_le_trans)
  have "heap_ordered (bh_cmp h) new (bh_size h)"
    unfolding heap_ordered_def
  proof (intro allI impI)
    fix i assume i: "i < bh_size h" "0 < i"
    then have "parent_of i < bh_size h" using parent_of_less [of i] by linarith
    then show "0 \<le> bh_cmp h (new ! parent_of i) (new ! i)"
      using i nth inv by (simp add: heap_inv_def heap_ordered_def)
  qed
  then show ?thesis
    using inv new c cap take_realloc [of "bh_size h" "bh_capacity h" new "bh_data h"]
    by (simp add: heap_inv_def heap_bag_def)
qed

lemma heap_put_cases:
  assumes inv: "heap_inv h" and put: "binary_heap_put h x w = (e, h', w')"
  shows "heap_inv h' \<and> bh_cmp h' = bh_cmp h \<and> bh_capacity h \<le> bh_capacity h' \<and>
    heap_bag h' = (if e = OVA_SUCCESS then add_mset x (heap_bag h) else heap_bag h) \<and>
    (bh_size h < bh_capacity h \<longrightarrow> e = OVA_SUCCESS)"
proof (cases "bh_size h = bh_capacity h")
  case False
  then have "bh_size h < bh_capacity h" using inv by (simp add: heap_inv_def)
  with heap_append_spec [OF inv this, of x] put show ?thesis
    by (auto simp: binary_heap_put_def)
next
  case True
  let ?c = "safe_double_capacity (bh_capacity h)"
  show ?thesis
  proof (cases "?c = bh_capacity h")
    case full: True
    with True put inv show ?thesis by (auto simp: binary_heap_put_def)
  next
    case grow: False
    show ?thesis
    proof (cases "realloc_ptrs (bh_data h) (int ?c) w")
      case (Pair new w1)
      show ?thesis
      proof (cases new)
        case None
        with Pair grow True put inv show ?thesis by (auto simp: binary_heap_put_def)
      next
        case (Some buf)
        let ?h = "h\<lparr>bh_data := buf, bh_capacity := ?c\<rparr>"
        note re = heap_realloc_inv [OF inv Pair [unfolded Some] refl]
        have "bh_size ?h < bh_capacity ?h" using re grow True by simp
        from heap_append_spec [OF conjunct1 [OF re] this, of x] re Pair Some grow True put
        show ?thesis by (auto simp: binary_heap_put_def Let_def)
      qed
    qed
  qed
qed

lemma heap_pop_spec:
  assumes inv: "heap_inv h" and ne: "bh_size h \<noteq> 0"
  shows "heap_inv (snd (binary_heap_pop h)) \<and> fst (binary_heap_pop h) = bh_data h ! 0 \<and>
    heap_bag (snd (binary_heap_pop h)) = heap_bag h - {#bh_data h ! 0#} \<and>
    bh_cmp (snd (binary_heap_pop h)) = bh_cmp h \<and>
    bh_capacity (snd (binary_heap_pop h)) = bh_capacity h"
proof -
  let ?n = "bh_size h - 1" and ?d = "(bh_data h)[0 := bh_data h ! (bh_size h - 1)]"
  let ?r = "sift_down_loop (bh_cmp h) ?d ?n (?d ! 0) 0"
  have len: "length (bh_data h) = bh_capacity h" "bh_size h \<le> bh_capacity h"
    and order: "comparator_order (bh_cmp h)"
    using inv by (simp_all add: heap_inv_def)
  have pop: "binary_heap_pop h = (bh_data h ! 0, h\<lparr>bh_data := ?r, bh_size := ?n\<rparr>)"
    using ne by (simp add: binary_heap_pop_def sift_down_def Let_def)
  have "ordered_but_down (bh_cmp h) (?d[0 := ?d ! 0]) ?n 0"
    unfolding ordered_but_down_def
  proof (intro conjI allI impI)
    fix i assume i: "i < ?n" "0 < i" "parent_of i \<noteq> 0"
    then have "i < bh_size h" by simp
    then show "0 \<le> bh_cmp h (?d[0 := ?d ! 0] ! parent_of i) (?d[0 := ?d ! 0] ! i)"
      using i inv by (simp add: heap_inv_def heap_ordered_def)
  qed simp
  note down = this
  have prem: "0 < ?n \<or> ?n = 0 \<and> 0 < length ?d" "?n \<le> length ?d"
    using len ne by auto
  from comparator_order.sift_down_loop_spec [OF order prem down] len ne
  have r: "length ?r = length (bh_data h)" "mset ?r = mset ?d"
    "?n \<noteq> 0 \<longrightarrow> drop ?n ?r = drop ?n ?d" "heap_ordered (bh_cmp h) ?r ?n"
    by simp_all
  have "mset (take ?n ?r) = mset (take ?n ?d)"
    using r by (cases "?n = 0") (simp, intro mset_take_drop, simp_all)
  also have "\<dots> = heap_bag h - {#bh_data h ! 0#}"
  proof (cases "?n = 0")
    case True
    then have "bh_size h = Suc 0" using ne by simp
    moreover have "bh_data h \<noteq> []" using len ne by auto
    ultimately show ?thesis by (simp add: heap_bag_def take_Suc hd_conv_nth)
  next
    case False
    then obtain m where m: "bh_size h = Suc (Suc m)" using ne by (metis One_nat_def Suc_pred diff_Suc_1 not_gr_zero)
    obtain a rest where d: "bh_data h = a # rest" using len ne by (cases "bh_data h") auto
    then have "m < length rest" using len m by simp
    then show ?thesis using m d by (simp add: heap_bag_def take_Suc_conv_app_nth)
  qed
  finally have "mset (take ?n ?r) = heap_bag h - {#bh_data h ! 0#}" .
  then show ?thesis
    using pop r len inv by (auto simp: heap_inv_def heap_bag_def)
qed

interpretation bh: priority_queue binary_heap_pop binary_heap_peek
  binary_heap_size heap_inv heap_bag bh_cmp bh_capacity binary_heap_put
proof unfold_locales
  fix h h' :: "'a binary_heap" and x w e w'
  assume inv: "heap_inv h" and put: "binary_heap_put h x w = (e, h', w')"
  note c = heap_put_cases [OF inv put]
  show "heap_inv h' \<and> bh_cmp h' = bh_cmp h" using c by blast
  show "heap_bag h' = (if e = OVA_SUCCESS then add_mset x (heap_bag h) else heap_bag h) \<and>
      bh_capacity h \<le> bh_capacity h'" using c by blast
next
  fix h :: "'a binary_heap" and x w
  assume inv: "heap_inv h" and room: "size (heap_bag h) < bh_capacity h"
  obtain e h' w' where put: "binary_heap_put h x w = (e, h', w')" by (metis prod_cases3)
  with heap_put_cases [OF inv put] room show "fst (binary_heap_put h x w) = OVA_SUCCESS"
    by (simp add: size_heap_bag [OF inv])
next
  fix h :: "'a binary_heap"
  assume inv: "heap_inv h"
  show "binary_heap_pop h = (NULL, h)" if "heap_bag h = {#}"
    using size_heap_bag [OF inv] that by (simp add: binary_heap_pop_def)
  show "binary_heap_peek h = fst (binary_heap_pop h)"
    by (simp add: binary_heap_peek_def binary_heap_pop_def Let_def)
  show "binary_heap_size h = int (size (heap_bag h))"
    using size_heap_bag [OF inv] by (simp add: binary_heap_size_def)
next
  fix h h' :: "'a binary_heap" and x
  assume inv: "heap_inv h" and ne: "heap_bag h \<noteq> {#}" and pop: "binary_heap_pop h = (x, h')"
  have n: "bh_size h \<noteq> 0" using ne size_heap_bag [OF inv] by (metis size_eq_0_iff_empty)
  note p = heap_pop_spec [OF inv n, unfolded pop]
  have i: "comparator_order (bh_cmp h)" "heap_ordered (bh_cmp h) (bh_data h) (bh_size h)"
    "bh_size h \<le> length (bh_data h)"
    using inv by (simp_all add: heap_inv_def)
  have "bh_data h ! 0 \<in># heap_bag h"
    using n i(3) by (cases "bh_data h"; cases "bh_size h") (auto simp: heap_bag_def)
  moreover have "\<forall>y \<in># heap_bag h. 0 \<le> bh_cmp h (bh_data h ! 0) y"
    using comparator_order.heap_root_max [OF i(1,2)] i(3)
    by (auto simp: heap_bag_def in_set_conv_nth)
  ultimately show "heap_inv h' \<and> bh_cmp h' = bh_cmp h \<and> bh_capacity h' = bh_capacity h \<and>
      x \<in># heap_bag h \<and> (\<forall>y \<in># heap_bag h. 0 \<le> bh_cmp h x y) \<and> heap_bag h' = heap_bag h - {#x#}"
    using p by simp
qed

lemma create_binary_heap_inv:
  assumes "create_binary_heap n cmp w = (Some h, w')" "is_int n" "comparator_order cmp"
  shows "heap_inv h \<and> heap_bag h = {#} \<and> bh_cmp h = cmp \<and> bh_capacity h = nat n \<and> 0 \<le> n"
  using assms
  by (auto simp: create_binary_heap_def binary_heap_init_def heap_inv_def heap_bag_def
      heap_ordered_def malloc_ptrs_length is_int_le_INT_MAX dest: malloc_ptrs_Some_nonneg
      split: prod.splits bool.splits option.splits)

section \<open>Properties\<close>

text \<open>C6: A heap that has taken a batch gives it back from the greatest element down: popping as
  many times as were put returns a permutation of the batch, each element at least as great as
  every later one, and \<open>peek\<close> shows the first of them.\<close>

theorem binary_heap_sorts:
  assumes "create_binary_heap n cmp w = (Some h, w1)" "is_int n" "comparator_order cmp"
    and "push_all binary_heap_put xs h w1 = (OVA_SUCCESS, h1, w2)"
  shows "mset (fst (pop_n binary_heap_pop (length xs) h1)) = mset xs \<and>
    sorted_wrt (\<lambda>a b. cmp a b \<ge> 0) (fst (pop_n binary_heap_pop (length xs) h1)) \<and>
    (xs \<noteq> [] \<longrightarrow> binary_heap_peek h1 = hd (fst (pop_n binary_heap_pop (length xs) h1))) \<and>
    heap_bag (snd (pop_n binary_heap_pop (length xs) h1)) = {#}"
proof -
  let ?out = "pop_n binary_heap_pop (length xs) h1"
  note h = create_binary_heap_inv [OF assms(1-3)]
  have h1: "heap_inv h1" "bh_cmp h1 = cmp" "heap_bag h1 = mset xs"
    using bh.push_all_success [OF _ assms(4)] h by simp_all
  have out: "heap_bag h1 = mset (fst ?out) + heap_bag (snd ?out)" "length (fst ?out) = length xs"
    "sorted_wrt (\<lambda>a b. cmp a b \<ge> 0) (fst ?out)"
    using bh.pop_n_sorted [OF h1(1), of "length xs" "fst ?out" "snd ?out"] h1 by simp_all
  then have "size (heap_bag (snd ?out)) = 0"
    using h1(3) by (metis add_cancel_right_right size_mset size_union)
  moreover have "binary_heap_peek h1 = hd (fst ?out)" if "xs \<noteq> []"
    using bh.peek_pop [OF h1(1)] that by (cases xs) (simp_all add: case_prod_beta)
  ultimately show ?thesis using out h1(3) by simp
qed

theorem binary_heap_sorts_witness:
  "\<exists>h w1 h1 w2. create_binary_heap 4 set_default_ptr_compare fresh_world = (Some h, w1) \<and>
     push_all binary_heap_put [Some 3, Some 9, Some 5] h w1 = (OVA_SUCCESS, h1, w2) \<and>
     mset (fst (pop_n binary_heap_pop 3 h1)) = {#Some 3, Some 9, Some 5#}"
proof -
  let ?h = "\<lparr>bh_data = [None, None, None, None], bh_capacity = 4, bh_size = 0,
    bh_cmp = set_default_ptr_compare\<rparr>"
  have create: "create_binary_heap 4 set_default_ptr_compare fresh_world = (Some ?h, fresh_world)"
    by (simp add: create_binary_heap_def binary_heap_init_def malloc_struct_def malloc_def
        malloc_ptrs_def ptr_bytes_nonneg INT_MAX_def PTRDIFF_MAX_def upt_rec)
  have int: "is_int 4" by (simp add: is_int_def)
  note h = create_binary_heap_inv [OF create int pc.comparator_order_axioms]
  obtain e h1 w2 where push:
    "push_all binary_heap_put [Some 3, Some 9, Some 5] ?h fresh_world = (e, h1, w2)"
    by (metis prod_cases3)
  have "e = OVA_SUCCESS" using bh.push_all_bag [OF _ _ push] h by simp
  with binary_heap_sorts [OF create int pc.comparator_order_axioms, of "[Some 3, Some 9, Some 5]" h1 w2]
    push create show ?thesis by (simp add: numeral_3_eq_3)
qed

text \<open>\<open>put\<close> is refused only when the array is full and cannot grow: because the capacity is
  \<open>INT_MAX\<close>, because it is 0 (doubling 0 gives 0, which is taken for the maximum), or because
  the allocator refused. Whatever the answer, the heap stays a heap, and a refused element
  changes nothing.\<close>

theorem binary_heap_put_refused:
  assumes "heap_inv h"
  shows "heap_inv (fst (snd (binary_heap_put h x w))) \<and>
    heap_bag (fst (snd (binary_heap_put h x w))) =
      (if fst (binary_heap_put h x w) = OVA_SUCCESS then add_mset x (heap_bag h) else heap_bag h) \<and>
    (fst (binary_heap_put h x w) = OVA_ERROR_FULL \<longleftrightarrow>
      bh_size h = bh_capacity h \<and> (bh_capacity h = 0 \<or> bh_capacity h = INT_MAX)) \<and>
    (alloc_fails w = [] \<longrightarrow> fst (binary_heap_put h x w) \<noteq> OVA_ERROR_MEMORY)"
proof -
  obtain e h' w' where put: "binary_heap_put h x w = (e, h', w')" by (metis prod_cases3)
  have cap: "bh_capacity h \<le> INT_MAX" using assms by (simp add: heap_inv_def)
  have full: "e = OVA_ERROR_FULL \<longleftrightarrow>
      bh_size h = bh_capacity h \<and> (bh_capacity h = 0 \<or> bh_capacity h = INT_MAX)"
    using put safe_double_fixpoint [OF cap]
    by (auto simp: binary_heap_put_def Let_def split: if_splits option.splits prod.splits)
  have "e \<noteq> OVA_ERROR_MEMORY" if "alloc_fails w = []"
    using put realloc_ptrs_no_failures [OF that, of "int (safe_double_capacity (bh_capacity h))" "bh_data h"]
      safe_double_le [of "bh_capacity h"]
    by (auto simp: binary_heap_put_def Let_def split: if_splits)
  with full heap_put_cases [OF assms put] put show ?thesis by simp
qed

theorem binary_heap_put_refused_witness:
  "fst (binary_heap_put \<lparr>bh_data = [], bh_capacity = 0, bh_size = 0,
      bh_cmp = set_default_ptr_compare\<rparr> (Some 1) fresh_world) = OVA_ERROR_FULL"
  using binary_heap_put_refused [of "\<lparr>bh_data = [], bh_capacity = 0, bh_size = 0,
      bh_cmp = set_default_ptr_compare\<rparr>" "Some 1" fresh_world]
  by (simp add: heap_inv_def pc.comparator_order_axioms heap_ordered_def)

end
