(* ===== verification/Queues.thy ===== *)
theory Queues
  imports Linked_Queue Binary_Heap
begin

text \<open>
  Priority queues, \<open>src/queue/heap_queue.c\<close>, and the queue factory, \<open>src/queue/queue.c\<close>. A
  priority queue holds a binary heap from the moment it is created until it is freed, so the
  null tests on \<open>p_heap\<close> are never taken. Its clone functions take the elements out of the
  original heap and put them back, into the original and into the copy.
\<close>

section \<open>State and operations\<close>

record 'a heap_queue =
  hq_heap :: "'a binary_heap"
  hq_cmp :: "'a comparator"
  hq_initial_capacity :: int
  hq_user_data :: "'a ptr"

fun priority_enqueue ::
  "'a heap_queue option \<Rightarrow> 'a ptr \<Rightarrow> 'a world \<Rightarrow> ova_error_code \<times> 'a heap_queue option \<times> 'a world" where
  "priority_enqueue None data w = (OVA_ERROR_INVALID_ARG, None, w)"
| "priority_enqueue (Some impl) data w =
     (case binary_heap_put (hq_heap impl) data w of (e, h, w') \<Rightarrow>
        (e, Some (impl\<lparr>hq_heap := h\<rparr>), w'))"

fun priority_size :: "'a heap_queue option \<Rightarrow> int" where
  "priority_size None = 0"
| "priority_size (Some impl) = binary_heap_size (hq_heap impl)"

fun priority_is_empty :: "'a heap_queue option \<Rightarrow> int" where
  "priority_is_empty None = 1"
| "priority_is_empty (Some impl) = (if binary_heap_size (hq_heap impl) = 0 then 1 else 0)"

fun priority_dequeue :: "'a heap_queue option \<Rightarrow> 'a ptr \<times> 'a heap_queue option" where
  "priority_dequeue None = (NULL, None)"
| "priority_dequeue (Some impl) =
     (if priority_is_empty (Some impl) \<noteq> 0 then (NULL, Some impl)
      else (case binary_heap_pop (hq_heap impl) of (x, h) \<Rightarrow> (x, Some (impl\<lparr>hq_heap := h\<rparr>))))"

fun priority_clear :: "'a heap_queue option \<Rightarrow> 'a heap_queue option" where
  "priority_clear None = None"
| "priority_clear (Some impl) = Some (impl\<lparr>hq_heap := binary_heap_clear (hq_heap impl)\<rparr>)"

definition create_heap_queue ::
  "int \<Rightarrow> 'a comparator \<Rightarrow> 'a world \<Rightarrow> 'a heap_queue option \<times> 'a world" where
  "create_heap_queue capacity compare w =
     (case malloc_struct w of
        (False, w1) \<Rightarrow> (None, w1)
      | (True, w1) \<Rightarrow>
         (case malloc_struct w1 of
            (False, w2) \<Rightarrow> (None, w2)
          | (True, w2) \<Rightarrow>
             (case create_binary_heap capacity compare w2 of
                (None, w3) \<Rightarrow> (None, w3)
              | (Some h, w3) \<Rightarrow>
                  (Some \<lparr>hq_heap = h, hq_cmp = compare, hq_initial_capacity = capacity,
                         hq_user_data = NULL\<rparr>, w3))))"

text \<open>The second loop of the clone functions: each element goes back into the original heap, and
  its duplicate into the copy; a null duplicate ends the loop. The error codes of both insertions
  are dropped.\<close>

fun reput_loop ::
  "('a ptr \<Rightarrow> 'a world \<Rightarrow> 'a ptr option \<times> 'a world) \<Rightarrow> 'a ptr list \<Rightarrow>
     'a binary_heap \<Rightarrow> 'a heap_queue \<Rightarrow> 'a world \<Rightarrow> bool \<times> 'a binary_heap \<times> 'a heap_queue \<times> 'a world" where
  "reput_loop dup [] orig copy w = (True, orig, copy, w)"
| "reput_loop dup (x # xs) orig copy w =
     (case binary_heap_put orig x w of (_, orig, w1) \<Rightarrow>
      (case dup x w1 of
         (None, w2) \<Rightarrow> (False, orig, copy, w2)
       | (Some d, w2) \<Rightarrow>
          (case priority_enqueue (Some copy) d w2 of (_, copy, w3) \<Rightarrow>
             reput_loop dup xs orig (the copy) w3)))"

text \<open>The common body of the clone functions: the copy, the original as it is left, the world.\<close>

definition priority_clone_with ::
  "('a ptr \<Rightarrow> 'a world \<Rightarrow> 'a ptr option \<times> 'a world) \<Rightarrow> 'a heap_queue \<Rightarrow> 'a world \<Rightarrow>
     'a heap_queue option \<times> 'a heap_queue \<times> 'a world" where
  "priority_clone_with dup self w =
     (let n = binary_heap_size (hq_heap self) in
      (case create_heap_queue (if n > hq_initial_capacity self then n else hq_initial_capacity self)
              (hq_cmp self) w of
         (None, w1) \<Rightarrow> (None, self, w1)
       | (Some copy, w1) \<Rightarrow>
          (if n > 0 then
             (case malloc_ptrs n w1 of
                (None, w2) \<Rightarrow> (None, self, w2)
              | (Some _, w2) \<Rightarrow>
                 (case pop_n binary_heap_pop (nat n) (hq_heap self) of (elems, orig) \<Rightarrow>
                  (case reput_loop dup elems orig copy w2 of (ok, orig, copy, w3) \<Rightarrow>
                     (if ok then (Some (copy\<lparr>hq_user_data := hq_user_data self\<rparr>),
                                  self\<lparr>hq_heap := orig\<rparr>, w3)
                      else (None, self\<lparr>hq_heap := orig\<rparr>, w3)))))
           else (Some (copy\<lparr>hq_user_data := hq_user_data self\<rparr>), self, w1))))"

fun priority_clone_shallow ::
  "'a heap_queue option \<Rightarrow> 'a world \<Rightarrow> 'a heap_queue option \<times> 'a heap_queue option \<times> 'a world" where
  "priority_clone_shallow None w = (None, None, w)"
| "priority_clone_shallow (Some self) w =
     (case priority_clone_with dup_shallow self w of (copy, self', w') \<Rightarrow> (copy, Some self', w'))"

fun priority_clone_deep ::
  "'a heap_queue option \<Rightarrow> 'a element_copier option \<Rightarrow> 'a world \<Rightarrow>
     'a heap_queue option \<times> 'a heap_queue option \<times> 'a world" where
  "priority_clone_deep (Some self) (Some copier) w =
     (case priority_clone_with (dup_deep copier) self w of (copy, self', w') \<Rightarrow> (copy, Some self', w'))"
| "priority_clone_deep self _ w = (None, self, w)"

datatype queue_type = QUEUE_TYPE_NORMAL | QUEUE_TYPE_PRIORITY

datatype 'a queue_obj = Linked_Queue "'a linked_queue" | Heap_Queue "'a heap_queue"

definition create_queue ::
  "queue_type \<Rightarrow> int \<Rightarrow> 'a comparator \<Rightarrow> 'a world \<Rightarrow> 'a queue_obj option \<times> 'a world" where
  "create_queue type capacity compare w =
     (case type of
        QUEUE_TYPE_NORMAL \<Rightarrow>
          (case create_linked_queue w of (q, w') \<Rightarrow> (map_option Linked_Queue q, w'))
      | QUEUE_TYPE_PRIORITY \<Rightarrow>
          (case create_heap_queue capacity compare w of (q, w') \<Rightarrow> (map_option Heap_Queue q, w')))"

section \<open>Invariant\<close>

definition heap_queue_inv :: "'a heap_queue \<Rightarrow> bool" where
  "heap_queue_inv q \<longleftrightarrow> heap_inv (hq_heap q) \<and> bh_cmp (hq_heap q) = hq_cmp q \<and>
     is_int (hq_initial_capacity q) \<and> nat (hq_initial_capacity q) \<le> bh_capacity (hq_heap q)"

definition heap_queue_bag :: "'a heap_queue \<Rightarrow> 'a ptr multiset" where
  "heap_queue_bag q = heap_bag (hq_heap q)"

lemma heap_queue_size: "heap_queue_inv q \<Longrightarrow> binary_heap_size (hq_heap q) = int (size (heap_queue_bag q))"
  by (simp add: heap_queue_inv_def heap_queue_bag_def bh.size_bag)

lemma create_heap_queue_inv:
  assumes "create_heap_queue n cmp w = (Some q, w')" "is_int n" "comparator_order cmp"
  shows "heap_queue_inv q \<and> heap_queue_bag q = {#} \<and> hq_cmp q = cmp \<and> hq_initial_capacity q = n \<and>
    bh_capacity (hq_heap q) = nat n"
  using assms create_binary_heap_inv
  by (fastforce simp: create_heap_queue_def heap_queue_inv_def heap_queue_bag_def
      split: prod.splits bool.splits option.splits)

section \<open>The priority queue keeps the contract of its heap\<close>

definition priority_enqueue_method ::
  "'a heap_queue \<Rightarrow> 'a ptr \<Rightarrow> 'a world \<Rightarrow> ova_error_code \<times> 'a heap_queue \<times> 'a world" where
  "priority_enqueue_method q x w =
     (case priority_enqueue (Some q) x w of (e, q', w') \<Rightarrow> (e, the q', w'))"

definition priority_dequeue_method :: "'a heap_queue \<Rightarrow> 'a ptr \<times> 'a heap_queue" where
  "priority_dequeue_method q = (case priority_dequeue (Some q) of (x, q') \<Rightarrow> (x, the q'))"

lemma priority_enqueue_heap:
  "priority_enqueue_method q x w = (e, q', w') \<longleftrightarrow>
     (\<exists>h. binary_heap_put (hq_heap q) x w = (e, h, w') \<and> q' = q\<lparr>hq_heap := h\<rparr>)"
  by (auto simp: priority_enqueue_method_def split: prod.splits)

lemma priority_dequeue_heap:
  assumes "heap_queue_inv q"
  shows "priority_dequeue_method q =
    (fst (binary_heap_pop (hq_heap q)), q\<lparr>hq_heap := snd (binary_heap_pop (hq_heap q))\<rparr>)"
  by (auto simp: priority_dequeue_method_def binary_heap_size_def binary_heap_pop_def
      split: prod.splits)

interpretation hq: priority_queue priority_dequeue_method
  "\<lambda>q. binary_heap_peek (hq_heap q)" "\<lambda>q. priority_size (Some q)" heap_queue_inv heap_queue_bag
  hq_cmp "\<lambda>q. bh_capacity (hq_heap q)" priority_enqueue_method
proof unfold_locales
  fix q q' :: "'a heap_queue" and x w e w'
  assume inv: "heap_queue_inv q" and put: "priority_enqueue_method q x w = (e, q', w')"
  then obtain h where h: "binary_heap_put (hq_heap q) x w = (e, h, w')" "q' = q\<lparr>hq_heap := h\<rparr>"
    by (auto simp: priority_enqueue_heap)
  have hinv: "heap_inv (hq_heap q)" using inv by (simp add: heap_queue_inv_def)
  note p = heap_put_cases [OF hinv h(1)]
  with inv h(2) show "heap_queue_inv q' \<and> hq_cmp q' = hq_cmp q"
    by (simp add: heap_queue_inv_def)
  from p h(2) show "heap_queue_bag q' =
      (if e = OVA_SUCCESS then add_mset x (heap_queue_bag q) else heap_queue_bag q) \<and>
      bh_capacity (hq_heap q) \<le> bh_capacity (hq_heap q')"
    by (simp add: heap_queue_bag_def)
next
  fix q :: "'a heap_queue" and x w
  assume inv: "heap_queue_inv q" and room: "size (heap_queue_bag q) < bh_capacity (hq_heap q)"
  obtain e h w' where put: "binary_heap_put (hq_heap q) x w = (e, h, w')" by (metis prod_cases3)
  with bh.put_room [of "hq_heap q" x w] inv room show "fst (priority_enqueue_method q x w) = OVA_SUCCESS"
    by (simp add: priority_enqueue_method_def heap_queue_inv_def heap_queue_bag_def)
next
  fix q :: "'a heap_queue"
  assume inv: "heap_queue_inv q"
  then have hinv: "heap_inv (hq_heap q)" by (simp add: heap_queue_inv_def)
  show "priority_dequeue_method q = (NULL, q)" if "heap_queue_bag q = {#}"
    using bh.pop_empty [OF hinv] that priority_dequeue_heap [OF inv] by (simp add: heap_queue_bag_def)
  show "binary_heap_peek (hq_heap q) = fst (priority_dequeue_method q)"
    using bh.peek_pop [OF hinv] priority_dequeue_heap [OF inv] by simp
  show "priority_size (Some q) = int (size (heap_queue_bag q))"
    using heap_queue_size [OF inv] by simp
next
  fix q q' :: "'a heap_queue" and x
  assume inv: "heap_queue_inv q" and ne: "heap_queue_bag q \<noteq> {#}"
    and pop: "priority_dequeue_method q = (x, q')"
  have hinv: "heap_inv (hq_heap q)" "heap_bag (hq_heap q) \<noteq> {#}"
    using inv ne by (simp_all add: heap_queue_inv_def heap_queue_bag_def)
  have x: "x = fst (binary_heap_pop (hq_heap q))"
    "q' = q\<lparr>hq_heap := snd (binary_heap_pop (hq_heap q))\<rparr>"
    using pop priority_dequeue_heap [OF inv] by simp_all
  from bh.pop_max [OF hinv, of x "hq_heap q'"] x inv
  show "heap_queue_inv q' \<and> hq_cmp q' = hq_cmp q \<and>
      bh_capacity (hq_heap q') = bh_capacity (hq_heap q) \<and> x \<in># heap_queue_bag q \<and>
      (\<forall>y \<in># heap_queue_bag q. 0 \<le> hq_cmp q x y) \<and> heap_queue_bag q' = heap_queue_bag q - {#x#}"
    by (simp add: heap_queue_inv_def heap_queue_bag_def)
qed

section \<open>Cloning\<close>

lemma reput_loop_spec:
  "heap_inv orig \<Longrightarrow> size (heap_bag orig) + length xs \<le> bh_capacity orig \<Longrightarrow>
     heap_queue_inv copy \<Longrightarrow> size (heap_queue_bag copy) + length xs \<le> bh_capacity (hq_heap copy) \<Longrightarrow>
     reput_loop dup xs orig copy w = (ok, orig', copy', w') \<Longrightarrow>
     heap_inv orig' \<and> bh_cmp orig' = bh_cmp orig \<and> bh_capacity orig \<le> bh_capacity orig' \<and>
     heap_queue_inv copy' \<and> hq_cmp copy' = hq_cmp copy \<and>
     (ok \<longrightarrow> heap_bag orig' = heap_bag orig + mset xs \<and> (\<exists>ys. list_all2 (dup_of dup) xs ys \<and>
        heap_queue_bag copy' = heap_queue_bag copy + mset ys))"
proof (induction xs arbitrary: orig copy w)
  case Nil
  then show ?case by auto
next
  case (Cons x xs)
  obtain e1 o1 w1 where put: "binary_heap_put orig x w = (e1, o1, w1)" by (metis prod_cases3)
  have "fst (binary_heap_put orig x w) = OVA_SUCCESS"
    using Cons.prems(1,2) by (intro bh.put_room) simp_all
  then have o1: "heap_inv o1" "bh_cmp o1 = bh_cmp orig" "heap_bag o1 = add_mset x (heap_bag orig)"
    "bh_capacity orig \<le> bh_capacity o1"
    using heap_put_cases [OF Cons.prems(1) put] put by simp_all
  obtain d w2 where d: "dup x w1 = (d, w2)" by fastforce
  show ?case
  proof (cases d)
    case None
    then show ?thesis using Cons.prems put d o1 by auto
  next
    case (Some y)
    obtain e2 c1 w3 where enq: "priority_enqueue_method copy y w2 = (e2, c1, w3)" by (metis prod_cases3)
    have "fst (priority_enqueue_method copy y w2) = OVA_SUCCESS"
      using Cons.prems(3,4) by (intro hq.put_room) simp_all
    then have c1: "heap_queue_inv c1" "hq_cmp c1 = hq_cmp copy" "heap_queue_bag c1 = add_mset y (heap_queue_bag copy)"
      "bh_capacity (hq_heap copy) \<le> bh_capacity (hq_heap c1)"
      using hq.put_bag [OF Cons.prems(3) enq] hq.put_inv [OF Cons.prems(3) enq] enq by simp_all
    have "reput_loop dup xs o1 c1 w3 = (ok, orig', copy', w')"
      using Cons.prems(5) put d Some enq
      by (auto simp: priority_enqueue_method_def simp del: priority_enqueue.simps split: prod.splits)
    from Cons.IH [OF o1(1) _ c1(1) _ this] Cons.prems(2,4) o1 c1
    have IH: "heap_inv orig'" "bh_cmp orig' = bh_cmp orig" "bh_capacity orig \<le> bh_capacity orig'"
      "heap_queue_inv copy'" "hq_cmp copy' = hq_cmp copy"
      "ok \<Longrightarrow> heap_bag orig' = heap_bag o1 + mset xs \<and> (\<exists>ys. list_all2 (dup_of dup) xs ys \<and>
        heap_queue_bag copy' = heap_queue_bag c1 + mset ys)" by auto
    have "dup_of dup x y" using d Some by (auto simp: dup_of_def)
    have "heap_bag orig' = heap_bag orig + mset (x # xs) \<and> (\<exists>ys. list_all2 (dup_of dup) (x # xs) ys \<and>
        heap_queue_bag copy' = heap_queue_bag copy + mset ys)" if finished: ok
    proof -
      obtain ys where "list_all2 (dup_of dup) xs ys" "heap_queue_bag copy' = heap_queue_bag c1 + mset ys"
        "heap_bag orig' = heap_bag o1 + mset xs" using IH(6) [OF finished] by blast
      then show ?thesis
        using \<open>dup_of dup x y\<close> o1 c1 by (intro conjI exI [of _ "y # ys"]) simp_all
    qed
    with IH show ?thesis by blast
  qed
qed

text \<open>Taking everything out leaves an empty heap of the same capacity.\<close>

lemma pop_everything:
  assumes inv: "heap_inv h" and pop: "pop_n binary_heap_pop (size (heap_bag h)) h = (xs, h')"
  shows "heap_inv h' \<and> heap_bag h' = {#} \<and> mset xs = heap_bag h \<and> length xs = size (heap_bag h) \<and>
    bh_cmp h' = bh_cmp h \<and> bh_capacity h' = bh_capacity h \<and> sorted_wrt (\<lambda>a b. bh_cmp h a b \<ge> 0) xs"
proof -
  note p = bh.pop_n_sorted [OF inv order_refl pop]
  have b: "heap_bag h = mset xs + heap_bag h'" and l: "length xs = size (heap_bag h)" using p by blast+
  have "size (heap_bag h) = length xs + size (heap_bag h')" by (subst b) simp
  then have e: "heap_bag h' = {#}" using l by simp
  have "mset xs = heap_bag h" by (subst b) (simp add: e)
  with p e show ?thesis by blast
qed

lemma priority_clone_with_spec:
  assumes inv: "heap_queue_inv q" and clone: "priority_clone_with dup q w = (r, q', w')"
  shows "heap_queue_inv q' \<and> hq_cmp q' = hq_cmp q \<and>
    (\<forall>c. r = Some c \<longrightarrow> heap_queue_inv c \<and> hq_cmp c = hq_cmp q \<and> heap_queue_bag q' = heap_queue_bag q \<and>
      hq_user_data c = hq_user_data q \<and>
      (\<exists>xs ys. heap_queue_bag q = mset xs \<and> list_all2 (dup_of dup) xs ys \<and> heap_queue_bag c = mset ys))"
proof -
  let ?h = "hq_heap q"
  let ?n = "binary_heap_size ?h"
  let ?m = "if ?n > hq_initial_capacity q then ?n else hq_initial_capacity q"
  have h: "heap_inv ?h" "bh_cmp ?h = hq_cmp q" using inv by (simp_all add: heap_queue_inv_def)
  then have order: "comparator_order (hq_cmp q)" and cap: "bh_capacity ?h \<le> INT_MAX"
    "bh_size ?h \<le> bh_capacity ?h"
    by (auto simp: heap_inv_def)
  have n: "?n = int (size (heap_bag ?h))" "size (heap_bag ?h) = bh_size ?h"
    using bh.size_bag [OF h(1)] size_heap_bag [OF h(1)] by simp_all
  have m: "is_int ?m" "size (heap_bag ?h) \<le> nat ?m"
    using inv n cap by (auto simp: heap_queue_inv_def is_int_def INT_MAX_def)
  show ?thesis
  proof (cases "create_heap_queue ?m (hq_cmp q) w")
    case (Pair cq w1)
    show ?thesis
    proof (cases cq)
      case None
      with clone Pair inv show ?thesis by (auto simp: priority_clone_with_def Let_def)
    next
      case (Some c0)
      note c0 = create_heap_queue_inv [OF Pair [unfolded Some] m(1) order]
      show ?thesis
      proof (cases "?n > 0")
        case False
        then have "heap_queue_bag q = {#}" using n(1) by (simp add: heap_queue_bag_def)
        moreover have "heap_queue_inv (c0\<lparr>hq_user_data := u\<rparr>) = heap_queue_inv c0"
          "heap_queue_bag (c0\<lparr>hq_user_data := u\<rparr>) = heap_queue_bag c0" for u
          by (simp_all add: heap_queue_inv_def heap_queue_bag_def)
        ultimately show ?thesis
          using clone Pair Some False inv c0 
          by (auto simp: priority_clone_with_def Let_def intro!: exI [of _ "[]"])
      next
        case pos: True
        show ?thesis
        proof (cases "fst (malloc_ptrs ?n w1)")
          case None
          then show ?thesis
            using clone Pair Some pos inv
            by (auto simp: priority_clone_with_def Let_def split: prod.splits option.splits)
        next
          case buf: (Some buf)
          obtain xs o1 where pop: "pop_n binary_heap_pop (size (heap_bag ?h)) ?h = (xs, o1)" by fastforce
          note p = pop_everything [OF h(1) pop]
          obtain ok o2 c2 w3 where loop:
            "reput_loop dup xs o1 c0 (snd (malloc_ptrs ?n w1)) = (ok, o2, c2, w3)"
            by (metis prod_cases4)
          have res: "r = (if ok then Some (c2\<lparr>hq_user_data := hq_user_data q\<rparr>) else None)"
            "q' = q\<lparr>hq_heap := o2\<rparr>"
            using clone Pair Some pos buf pop loop n(1)
            by (auto simp: priority_clone_with_def Let_def split: prod.splits if_splits)
          have prem: "size (heap_bag o1) + length xs \<le> bh_capacity o1"
            "size (heap_queue_bag c0) + length xs \<le> bh_capacity (hq_heap c0)"
            using p c0 m(2) n(2) cap by simp_all
          note l = reput_loop_spec [OF conjunct1 [OF p] prem(1) conjunct1 [OF c0] prem(2) loop]
          then have c2: "hq_cmp c2 = hq_cmp q" using c0 by simp
          have "heap_queue_inv (c2\<lparr>hq_user_data := u\<rparr>) = heap_queue_inv c2"
            "heap_queue_bag (c2\<lparr>hq_user_data := u\<rparr>) = heap_queue_bag c2" for u
            by (simp_all add: heap_queue_inv_def heap_queue_bag_def)
          note frame = this
          have q': "heap_queue_inv q' \<and> hq_cmp q' = hq_cmp q"
            using l p inv h res by (auto simp: heap_queue_inv_def)
          show ?thesis
          proof (cases ok)
            case False
            with res q' show ?thesis by simp
          next
            case True
            then obtain ys where ys: "list_all2 (dup_of dup) xs ys" "heap_queue_bag c2 = mset ys"
              "heap_bag o2 = mset xs" using l p c0 by auto
            have "heap_queue_bag q = mset xs" using p by (simp add: heap_queue_bag_def)
            moreover have "heap_queue_bag q' = mset xs" using res ys by (simp add: heap_queue_bag_def)
            ultimately show ?thesis
              using q' l c2 frame ys res True by auto
          qed
        qed
      qed
    qed
  qed
qed

lemma create_heap_queue_no_failures:
  assumes "alloc_fails w = []" "0 \<le> n" "n \<le> int INT_MAX"
  shows "\<exists>q. create_heap_queue n cmp w = (Some q, w)"
  using assms ptr_bytes_fits [of n]
  by (simp add: create_heap_queue_def create_binary_heap_def binary_heap_init_def malloc_struct_def
      malloc_no_failures malloc_ptrs_def PTRDIFF_MAX_def INT_MAX_def)

lemma reput_loop_shallow: "fst (reput_loop dup_shallow xs orig copy w) = True"
  by (induction xs arbitrary: orig copy w) (simp_all add: case_prod_beta dup_shallow_def)

text \<open>The steps of a clone when memory is available: the copy is created, the elements are taken
  out in order, and the loop runs over them.\<close>

lemma priority_clone_with_run:
  assumes inv: "heap_queue_inv q" and mem: "alloc_fails w = []" and ne: "heap_queue_bag q \<noteq> {#}"
  shows "\<exists>c0 xs o1. heap_inv o1 \<and> heap_bag o1 = {#} \<and> length xs \<le> bh_capacity o1 \<and> xs \<noteq> [] \<and>
    mset xs = heap_queue_bag q \<and>
    priority_clone_with dup q w = (case reput_loop dup xs o1 c0 w of (ok, orig, copy, w3) \<Rightarrow>
      (if ok then (Some (copy\<lparr>hq_user_data := hq_user_data q\<rparr>), q\<lparr>hq_heap := orig\<rparr>, w3)
       else (None, q\<lparr>hq_heap := orig\<rparr>, w3)))"
proof -
  let ?h = "hq_heap q"
  let ?n = "binary_heap_size ?h"
  let ?m = "if ?n > hq_initial_capacity q then ?n else hq_initial_capacity q"
  have h: "heap_inv ?h" using inv by (simp add: heap_queue_inv_def)
  then have cap: "bh_capacity ?h \<le> INT_MAX" "bh_size ?h \<le> bh_capacity ?h" by (auto simp: heap_inv_def)
  have n: "?n = int (size (heap_bag ?h))" "size (heap_bag ?h) = bh_size ?h" "0 < ?n"
    using bh.size_bag [OF h] size_heap_bag [OF h] ne by (auto simp: heap_queue_bag_def nonempty_has_size)
  then have m: "0 \<le> ?m" "?m \<le> int INT_MAX" "?n \<le> int INT_MAX"
    using inv cap by (auto simp: heap_queue_inv_def is_int_def INT_MAX_def)
  obtain c0 where create: "create_heap_queue ?m (hq_cmp q) w = (Some c0, w)"
    using create_heap_queue_no_failures [OF mem m(1,2)] by blast
  obtain buf where buf: "malloc_ptrs ?n w = (Some buf, w)"
    using mem ptr_bytes_fits [of ?n] n(3) m(3) by (simp add: malloc_ptrs_def malloc_no_failures)
  obtain xs o1 where pop: "pop_n binary_heap_pop (size (heap_bag ?h)) ?h = (xs, o1)" by fastforce
  note p = pop_everything [OF h pop]
  have "priority_clone_with dup q w = (case reput_loop dup xs o1 c0 w of (ok, orig, copy, w3) \<Rightarrow>
      (if ok then (Some (copy\<lparr>hq_user_data := hq_user_data q\<rparr>), q\<lparr>hq_heap := orig\<rparr>, w3)
       else (None, q\<lparr>hq_heap := orig\<rparr>, w3)))"
    unfolding priority_clone_with_def Let_def create prod.case option.case buf
    using pop n(1,3) by simp
  moreover have "xs \<noteq> []" "length xs \<le> bh_capacity o1" using p n(2) ne cap(2) by (auto simp: heap_queue_bag_def)
  ultimately show ?thesis using p by (intro exI [of _ c0] exI [of _ xs] exI [of _ o1]) (simp add: heap_queue_bag_def)
qed

section \<open>Properties\<close>

text \<open>With memory available a shallow clone of a priority queue is always made; the copy holds
  the same elements under the same order, and the original, whose elements were all taken out
  and put back on the way, holds what it held.\<close>

theorem priority_clone_shallow_same:
  assumes "heap_queue_inv q" "alloc_fails w = []" "heap_queue_bag q \<noteq> {#}"
  shows "\<exists>c q' w'. priority_clone_shallow (Some q) w = (Some c, Some q', w') \<and>
    heap_queue_inv c \<and> heap_queue_inv q' \<and> hq_cmp c = hq_cmp q \<and>
    heap_queue_bag c = heap_queue_bag q \<and> heap_queue_bag q' = heap_queue_bag q"
proof -
  obtain r q' w' where clone: "priority_clone_with dup_shallow q w = (r, q', w')" by (metis prod_cases3)
  obtain c0 xs o1 where run: "priority_clone_with dup_shallow q w =
      (case reput_loop dup_shallow xs o1 c0 w of (ok, orig, copy, w3) \<Rightarrow>
        (if ok then (Some (copy\<lparr>hq_user_data := hq_user_data q\<rparr>), q\<lparr>hq_heap := orig\<rparr>, w3)
         else (None, q\<lparr>hq_heap := orig\<rparr>, w3)))"
    using priority_clone_with_run [OF assms, of dup_shallow] by blast
  obtain o2 c2 w3 where "reput_loop dup_shallow xs o1 c0 w = (True, o2, c2, w3)"
    using reput_loop_shallow [of xs o1 c0 w] by (cases "reput_loop dup_shallow xs o1 c0 w") auto
  then obtain c where c: "r = Some c" using run clone by simp
  from priority_clone_with_spec [OF assms(1) clone] c clone show ?thesis by auto
qed

definition sample_pq :: "address heap_queue" where
  "sample_pq = \<lparr>hq_heap = \<lparr>bh_data = [Some 9, Some 4, None], bh_capacity = 3, bh_size = 2,
     bh_cmp = set_default_ptr_compare\<rparr>, hq_cmp = set_default_ptr_compare, hq_initial_capacity = 3,
     hq_user_data = None\<rparr>"

lemma sample_pq_inv: "heap_queue_inv sample_pq" "heap_queue_bag sample_pq = {#Some 9, Some 4#}"
proof -
  have "heap_ordered set_default_ptr_compare [Some 9, Some 4, None] 2"
    unfolding heap_ordered_def
  proof (intro allI impI)
    fix i :: nat assume "i < 2" "0 < i"
    then have "i = 1" by simp
    then show "0 \<le> set_default_ptr_compare ([Some 9, Some 4, None] ! parent_of i) ([Some 9, Some 4, None] ! i)"
      by (simp add: parent_of_def set_default_ptr_compare_def)
  qed
  then show "heap_queue_inv sample_pq"
    by (simp add: sample_pq_def heap_queue_inv_def heap_inv_def pc.comparator_order_axioms
        is_int_def INT_MAX_def)
  show "heap_queue_bag sample_pq = {#Some 9, Some 4#}"
    by (simp add: sample_pq_def heap_queue_bag_def heap_bag_def numeral_2_eq_2)
qed

theorem priority_clone_shallow_same_witness:
  "\<exists>c q' w'. priority_clone_shallow (Some sample_pq) fresh_world = (Some c, Some q', w') \<and>
    heap_queue_bag c = {#Some 9, Some 4#} \<and> heap_queue_bag q' = {#Some 9, Some 4#}"
  using priority_clone_shallow_same [OF sample_pq_inv(1), of fresh_world] sample_pq_inv(2)
  by (force simp del: priority_clone_shallow.simps)

text \<open>A deep clone that fails half-way damages the original: with a copier that answers null,
  every element but the one it failed on, which was put back just before, is lost from the queue
  that was to be cloned.\<close>

theorem priority_clone_deep_loses_elements:
  assumes "heap_queue_inv q" "alloc_fails w = []" "heap_queue_bag q \<noteq> {#}"
    and "\<And>x v. fst (copier x v) = NULL"
  shows "\<exists>q' w'. priority_clone_deep (Some q) (Some copier) w = (None, Some q', w') \<and>
    size (heap_queue_bag q') = 1"
proof -
  obtain c0 xs o1 where o1: "heap_inv o1" "heap_bag o1 = {#}" "length xs \<le> bh_capacity o1" "xs \<noteq> []"
    and run: "priority_clone_with (dup_deep copier) q w =
      (case reput_loop (dup_deep copier) xs o1 c0 w of (ok, orig, copy, w3) \<Rightarrow>
        (if ok then (Some (copy\<lparr>hq_user_data := hq_user_data q\<rparr>), q\<lparr>hq_heap := orig\<rparr>, w3)
         else (None, q\<lparr>hq_heap := orig\<rparr>, w3)))"
    using priority_clone_with_run [OF assms(1-3), of "dup_deep copier"] by blast
  obtain x ys where xs: "xs = x # ys" using o1(4) by (cases xs) auto
  obtain e o2 w1 where put: "binary_heap_put o1 x w = (e, o2, w1)" by (metis prod_cases3)
  have "fst (binary_heap_put o1 x w) = OVA_SUCCESS"
    using o1 xs by (intro bh.put_room) simp_all
  then have bag: "heap_bag o2 = {#x#}" using heap_put_cases [OF o1(1) put] put o1(2) by simp
  have dup: "dup_deep copier x w1 = (None, snd (copier x w1))"
    using assms(4) [of x w1] by (simp add: dup_deep_def case_prod_beta)
  have "priority_clone_with (dup_deep copier) q w = (None, q\<lparr>hq_heap := o2\<rparr>, snd (copier x w1))"
    unfolding run xs using put dup by simp
  then show ?thesis using bag by (simp add: heap_queue_bag_def)
qed

theorem priority_clone_deep_loses_elements_witness:
  "\<exists>q' w'. priority_clone_deep (Some sample_pq) (Some (\<lambda>x v. (None, v))) fresh_world
      = (None, Some q', w') \<and> size (heap_queue_bag q') = 1 \<and> size (heap_queue_bag sample_pq) = 2"
  using priority_clone_deep_loses_elements [OF sample_pq_inv(1), of fresh_world "\<lambda>x v. (None, v)"]
    sample_pq_inv(2) by (simp del: priority_clone_deep.simps)

end
