(* ===== verification/Sort_Buffers.thy ===== *)
theory Sort_Buffers
  imports Set_Defaults
begin

text \<open>
  The sorting routines of \<open>src/sort/sort.c\<close> on a pointer buffer: Lomuto partition and quicksort
  with its explicit stack of pending ranges, the merge step and the recursive merge sort. The
  reference definitions \<open>merge_lists\<close> and \<open>halving_sort\<close> are what the buffer routines are shown
  to compute.
\<close>

section \<open>Quicksort\<close>

definition buffer_swap :: "'b list \<Rightarrow> nat \<Rightarrow> nat \<Rightarrow> 'b list" where
  "buffer_swap arr i j = arr[i := arr ! j, j := arr ! i]"

text \<open>The loop of the partition; \<open>k\<close> is the code's \<open>i + 1\<close>, so that it starts at \<open>low\<close>.\<close>

function partition_loop ::
  "'a comparator \<Rightarrow> 'a ptr \<Rightarrow> nat \<Rightarrow> 'a ptr list \<Rightarrow> nat \<Rightarrow> nat \<Rightarrow> 'a ptr list \<times> nat" where
  "partition_loop cmp pivot high arr k j =
     (if j < high then
        (if cmp (arr ! j) pivot \<le> 0
         then partition_loop cmp pivot high (buffer_swap arr k j) (k + 1) (j + 1)
         else partition_loop cmp pivot high arr k (j + 1))
      else (arr, k))"
  by pat_completeness auto
termination by (relation "measure (\<lambda>(cmp, pivot, high, arr, k, j). high - j)") auto

declare partition_loop.simps [simp del]

definition buffer_partition ::
  "'a ptr list \<Rightarrow> nat \<Rightarrow> nat \<Rightarrow> 'a comparator \<Rightarrow> 'a ptr list \<times> nat" where
  "buffer_partition arr low high cmp =
     (case partition_loop cmp (arr ! high) high arr low low of
        (arr', k) \<Rightarrow> (buffer_swap arr' k high, k))"

lemma partition_loop_index:
  "k \<le> j \<Longrightarrow> k \<le> snd (partition_loop cmp pivot high arr k j) \<and>
     snd (partition_loop cmp pivot high arr k j) \<le> k + (high - j)"
proof (induction cmp pivot high arr k j rule: partition_loop.induct)
  case (1 cmp pivot high arr k j)
  then show ?case by (subst (1 2) partition_loop.simps) (auto simp: Suc_diff_Suc)
qed

lemma buffer_partition_index:
  "low \<le> snd (buffer_partition arr low high cmp) \<and>
   snd (buffer_partition arr low high cmp) \<le> low + (high - low)"
  using partition_loop_index [of low low cmp "arr ! high" high arr]
  by (simp add: buffer_partition_def case_prod_beta)

text \<open>One turn of the loop over the pending ranges, and the loop. The code keeps a range as two
  consecutive \<open>int\<close> entries of its stack; here it is a pair, the top of the stack first.\<close>

definition quick_step ::
  "'a comparator \<Rightarrow> 'a ptr list \<Rightarrow> nat \<Rightarrow> nat \<Rightarrow> (nat \<times> nat) list \<Rightarrow> 'a ptr list \<times> (nat \<times> nat) list" where
  "quick_step cmp arr low high stack =
     (case buffer_partition arr low high cmp of (arr', pi) \<Rightarrow>
        (let stack = (if pi - 1 > low then (low, pi - 1) # stack else stack);
             stack = (if pi + 1 < high then (pi + 1, high) # stack else stack)
         in (arr', stack)))"

definition range_weight :: "(nat \<times> nat) list \<Rightarrow> nat" where
  "range_weight stack = sum_list (map (\<lambda>(l, h). h - l + 1) stack)"

lemma range_weight_simps [simp]:
  "range_weight [] = 0" "range_weight ((l, h) # stack) = (h - l + 1) + range_weight stack"
  by (simp_all add: range_weight_def)

lemma quick_step_weight:
  "range_weight (snd (quick_step cmp arr low high stack)) < range_weight ((low, high) # stack)"
  using buffer_partition_index [of low arr high cmp]
  by (cases "buffer_partition arr low high cmp") (auto simp: quick_step_def Let_def)

lemma quick_step_weight_Suc:
  "range_weight (snd (quick_step cmp arr low high stack)) < Suc (high - low + range_weight stack)"
  using quick_step_weight [of cmp arr low high stack] by simp

function quick_loop :: "'a comparator \<Rightarrow> 'a ptr list \<Rightarrow> (nat \<times> nat) list \<Rightarrow> 'a ptr list" where
  "quick_loop cmp arr [] = arr"
| "quick_loop cmp arr ((low, high) # stack) =
     (case quick_step cmp arr low high stack of (arr', stack') \<Rightarrow> quick_loop cmp arr' stack')"
  by pat_completeness auto
termination
  by (relation "measure (\<lambda>(cmp, arr, stack). range_weight stack)")
    (auto simp: case_prod_beta quick_step_weight_Suc)

definition buffer_quicksort :: "'a comparator \<Rightarrow> 'a ptr list \<Rightarrow> 'a ptr list" where
  "buffer_quicksort cmp arr = quick_loop cmp arr [(0, length arr - 1)]"

section \<open>Merge sort\<close>

definition segment :: "'b list \<Rightarrow> nat \<Rightarrow> nat \<Rightarrow> 'b list" where
  "segment xs i j = take (j - i) (drop i xs)"

text \<open>\<open>while (i < mid && j < high) \<dots>\<close>\<close>

function merge_both ::
  "'a comparator \<Rightarrow> 'a ptr list \<Rightarrow> nat \<Rightarrow> nat \<Rightarrow> 'a ptr list \<Rightarrow> nat \<Rightarrow> nat \<Rightarrow> nat \<Rightarrow>
     'a ptr list \<times> nat \<times> nat \<times> nat" where
  "merge_both cmp tmp mid high arr i j k =
     (if i < mid \<and> j < high then
        (if cmp (tmp ! i) (tmp ! j) \<le> 0
         then merge_both cmp tmp mid high (arr[k := tmp ! i]) (i + 1) j (k + 1)
         else merge_both cmp tmp mid high (arr[k := tmp ! j]) i (j + 1) (k + 1))
      else (arr, i, j, k))"
  by pat_completeness auto
termination
  by (relation "measure (\<lambda>(cmp, tmp, mid, high, arr, i, j, k). (mid - i) + (high - j))") auto

text \<open>\<open>while (i < mid) arr[k++] = tmp[i++];\<close> and its twin for \<open>j\<close>.\<close>

function copy_run :: "'b list \<Rightarrow> nat \<Rightarrow> 'b list \<Rightarrow> nat \<Rightarrow> nat \<Rightarrow> 'b list \<times> nat" where
  "copy_run tmp stop arr i k =
     (if i < stop then copy_run tmp stop (arr[k := tmp ! i]) (i + 1) (k + 1) else (arr, k))"
  by pat_completeness auto
termination by (relation "measure (\<lambda>(tmp, stop, arr, i, k). stop - i)") auto

declare merge_both.simps [simp del] copy_run.simps [simp del]

definition merge ::
  "'a ptr list \<Rightarrow> 'a ptr list \<Rightarrow> nat \<Rightarrow> nat \<Rightarrow> nat \<Rightarrow> 'a comparator \<Rightarrow> 'a ptr list \<times> 'a ptr list" where
  "merge arr tmp low mid high cmp =
     (let tmp = take low tmp @ segment arr low high @ drop high tmp;
          (arr, i, j, k) = merge_both cmp tmp mid high arr low mid low;
          (arr, k) = copy_run tmp mid arr i k;
          (arr, k) = copy_run tmp high arr j k
      in (arr, tmp))"

function merge_sort_recursive ::
  "'a ptr list \<Rightarrow> 'a ptr list \<Rightarrow> nat \<Rightarrow> nat \<Rightarrow> 'a comparator \<Rightarrow> 'a ptr list \<times> 'a ptr list" where
  "merge_sort_recursive arr tmp low high cmp =
     (if high - low < 2 then (arr, tmp)
      else
       (let mid = low + (high - low) div 2;
            (arr, tmp) = merge_sort_recursive arr tmp low mid cmp;
            (arr, tmp) = merge_sort_recursive arr tmp mid high cmp
        in merge arr tmp low mid high cmp))"
  by pat_completeness auto
termination by (relation "measure (\<lambda>(arr, tmp, low, high, cmp). high - low)") auto

declare merge_sort_recursive.simps [simp del]

text \<open>The reference: a stable merge of two lists and the sort that halves its argument.\<close>

fun merge_lists :: "'a comparator \<Rightarrow> 'a ptr list \<Rightarrow> 'a ptr list \<Rightarrow> 'a ptr list" where
  "merge_lists cmp [] ys = ys"
| "merge_lists cmp xs [] = xs"
| "merge_lists cmp (x # xs) (y # ys) =
     (if cmp x y \<le> 0 then x # merge_lists cmp xs (y # ys) else y # merge_lists cmp (x # xs) ys)"

function halving_sort :: "'a comparator \<Rightarrow> 'a ptr list \<Rightarrow> 'a ptr list" where
  "halving_sort cmp xs =
     (if length xs < 2 then xs
      else merge_lists cmp (halving_sort cmp (take (length xs div 2) xs))
             (halving_sort cmp (drop (length xs div 2) xs)))"
  by pat_completeness auto
termination by (relation "measure (\<lambda>(cmp, xs). length xs)") auto

declare halving_sort.simps [simp del]

section \<open>Merge sort computes the reference\<close>

lemma length_segment [simp]: "j \<le> length xs \<Longrightarrow> length (segment xs i j) = j - i"
  by (simp add: segment_def)

lemma segment_Cons: "i < j \<Longrightarrow> j \<le> length xs \<Longrightarrow> segment xs i j = xs ! i # segment xs (Suc i) j"
  by (simp add: segment_def Cons_nth_drop_Suc [symmetric] take_Cons')

lemma segment_empty [simp]: "j \<le> i \<Longrightarrow> segment xs i j = []"
  by (simp add: segment_def)

lemma segment_append: "i \<le> j \<Longrightarrow> j \<le> k \<Longrightarrow> k \<le> length xs \<Longrightarrow> segment xs i k = segment xs i j @ segment xs j k"
proof -
  assume a: "i \<le> j" "j \<le> k" "k \<le> length xs"
  have "take (k - i) (drop i xs) = take ((j - i) + (k - j)) (drop i xs)" using a by simp
  also have "\<dots> = take (j - i) (drop i xs) @ take (k - j) (drop (j - i) (drop i xs))"
    by (rule take_add)
  finally show ?thesis using a by (simp add: segment_def)
qed

text \<open>A buffer with a stretch replaced.\<close>

definition patch :: "'b list \<Rightarrow> nat \<Rightarrow> 'b list \<Rightarrow> 'b list" where
  "patch arr k xs = take k arr @ xs @ drop (k + length xs) arr"

lemma length_patch [simp]: "k + length xs \<le> length arr \<Longrightarrow> length (patch arr k xs) = length arr"
  by (simp add: patch_def)

lemma patch_Nil [simp]: "patch arr k [] = arr"
  by (simp add: patch_def)

lemma patch_Cons:
  "k < length arr \<Longrightarrow> patch (arr[k := x]) (Suc k) xs = patch arr k (x # xs)"
  by (simp add: patch_def take_Suc_conv_app_nth)

lemma patch_append:
  "k + length xs + length ys \<le> length arr \<Longrightarrow>
     patch (patch arr k xs) (k + length xs) ys = patch arr k (xs @ ys)"
  by (simp add: patch_def ac_simps)

lemma patch_patch:
  "length xs = length ys \<Longrightarrow> k + length xs \<le> length arr \<Longrightarrow> patch (patch arr k xs) k ys = patch arr k ys"
  by (simp add: patch_def)

lemma segment_patch_same [simp]:
  "k + length xs \<le> length arr \<Longrightarrow> j = k + length xs \<Longrightarrow> segment (patch arr k xs) k j = xs"
  by (simp add: segment_def patch_def)

lemma segment_patch_after:
  "k + length xs \<le> i \<Longrightarrow> i \<le> length arr \<Longrightarrow> segment (patch arr k xs) i j = segment arr i j"
  by (simp add: segment_def patch_def)

lemma segment_alt: "segment xs i j = drop i (take j xs)"
  by (simp add: segment_def drop_take)

lemma segment_patch_before:
  "j \<le> k \<Longrightarrow> k \<le> length arr \<Longrightarrow> segment (patch arr k xs) i j = segment arr i j"
  by (simp add: segment_alt patch_def)

lemma copy_run_spec:
  "stop \<le> length tmp \<Longrightarrow> k + (stop - i) \<le> length arr \<Longrightarrow>
     copy_run tmp stop arr i k = (patch arr k (segment tmp i stop), k + (stop - i))"
proof (induction tmp stop arr i k rule: copy_run.induct)
  case (1 tmp stop arr i k)
  show ?case
  proof (cases "i < stop")
    case False
    then show ?thesis by (subst copy_run.simps) simp
  next
    case True
    then have "copy_run tmp stop arr i k = copy_run tmp stop (arr[k := tmp ! i]) (i + 1) (k + 1)"
      by (subst copy_run.simps) simp
    also have "\<dots> = (patch (arr[k := tmp ! i]) (k + 1) (segment tmp (i + 1) stop), k + 1 + (stop - (i + 1)))"
      using "1.IH" "1.prems" True by simp
    finally show ?thesis using True "1.prems" by (simp add: patch_Cons segment_Cons)
  qed
qed

lemma length_merge_lists [simp]: "length (merge_lists cmp xs ys) = length xs + length ys"
  by (induction cmp xs ys rule: merge_lists.induct) simp_all

lemma merge_lists_Nil [simp]: "merge_lists cmp xs [] = xs"
  by (cases xs) simp_all

text \<open>The three loops of \<open>merge\<close> together.\<close>

definition merge_tail ::
  "'a ptr list \<Rightarrow> nat \<Rightarrow> nat \<Rightarrow> 'a ptr list \<times> nat \<times> nat \<times> nat \<Rightarrow> 'a ptr list" where
  "merge_tail tmp mid high st =
     (case st of (arr, i, j, k) \<Rightarrow>
      case copy_run tmp mid arr i k of (arr, k) \<Rightarrow> fst (copy_run tmp high arr j k))"

lemma merge_loops_spec:
  "i \<le> mid \<Longrightarrow> mid \<le> j \<Longrightarrow> j \<le> high \<Longrightarrow> high \<le> length tmp \<Longrightarrow>
     k + (mid - i) + (high - j) \<le> length arr \<Longrightarrow>
     merge_tail tmp mid high (merge_both cmp tmp mid high arr i j k) =
       patch arr k (merge_lists cmp (segment tmp i mid) (segment tmp j high))"
proof (induction cmp tmp mid high arr i j k rule: merge_both.induct)
  case (1 cmp tmp mid high arr i j k)
  show ?case
  proof (cases "i < mid \<and> j < high")
    case False
    then have "merge_both cmp tmp mid high arr i j k = (arr, i, j, k)"
      by (subst merge_both.simps) auto
    moreover have "i = mid \<or> j = high" using False "1.prems" by linarith
    ultimately show ?thesis
      using "1.prems" by (elim disjE) (simp_all add: merge_tail_def copy_run_spec)
  next
    case True
    have k: "k < length arr" using True "1.prems" by linarith
    have cons: "segment tmp i mid = tmp ! i # segment tmp (Suc i) mid"
      "segment tmp j high = tmp ! j # segment tmp (Suc j) high"
      using True "1.prems" by (simp_all add: segment_Cons)
    show ?thesis
    proof (cases "cmp (tmp ! i) (tmp ! j) \<le> 0")
      case le: True
      have room: "k + 1 + (mid - (i + 1)) + (high - j) \<le> length (arr[k := tmp ! i])"
        using "1.prems" True unfolding length_list_update by arith
      have "merge_tail tmp mid high (merge_both cmp tmp mid high arr i j k) =
          patch (arr[k := tmp ! i]) (Suc k) (merge_lists cmp (segment tmp (Suc i) mid) (segment tmp j high))"
        using "1.IH"(1) [OF True le _ _ _ _ room] "1.prems" True le
        by (subst merge_both.simps) simp
      then show ?thesis
        using le by (simp add: cons patch_Cons [OF k])
    next
      case gt: False
      have room: "k + 1 + (mid - i) + (high - (j + 1)) \<le> length (arr[k := tmp ! j])"
        using "1.prems" True unfolding length_list_update by arith
      have "merge_tail tmp mid high (merge_both cmp tmp mid high arr i j k) =
          patch (arr[k := tmp ! j]) (Suc k) (merge_lists cmp (segment tmp i mid) (segment tmp (Suc j) high))"
        using "1.IH"(2) [OF True gt _ _ _ _ room] "1.prems" True gt
        by (subst merge_both.simps) simp
      then show ?thesis
        using gt by (simp add: cons patch_Cons [OF k])
    qed
  qed
qed

lemma merge_spec:
  assumes "low \<le> mid" "mid \<le> high" "high \<le> length arr" "length tmp = length arr"
  shows "fst (merge arr tmp low mid high cmp) =
      patch arr low (merge_lists cmp (segment arr low mid) (segment arr mid high)) \<and>
    length (snd (merge arr tmp low mid high cmp)) = length arr"
proof -
  let ?tmp = "take low tmp @ segment arr low high @ drop high tmp"
  have "low \<le> length tmp" "high \<le> length arr" using assms by simp_all
  then have len: "length ?tmp = length arr" using assms by (simp add: min_absorb2)
  have tmp: "?tmp = patch tmp low (segment arr low high)"
    using assms by (simp add: patch_def)
  have "segment ?tmp low mid = segment arr low mid" "segment ?tmp mid high = segment arr mid high"
    using assms by (auto simp: segment_def min_def drop_take)
  moreover have "fst (merge arr tmp low mid high cmp) =
      merge_tail ?tmp mid high (merge_both cmp ?tmp mid high arr low mid low)"
    by (simp add: merge_def merge_tail_def Let_def case_prod_beta)
  ultimately show ?thesis
    using merge_loops_spec [of low mid mid high ?tmp low arr cmp] assms len
    by (simp add: merge_def Let_def case_prod_beta)
qed

lemma length_halving_sort [simp]: "length (halving_sort cmp xs) = length xs"
proof (induction cmp xs rule: halving_sort.induct)
  case (1 cmp xs)
  show ?case
  proof (cases "length xs < 2")
    case True
    then show ?thesis by (subst halving_sort.simps) simp
  next
    case False
    then show ?thesis using 1 by (subst halving_sort.simps) simp
  qed
qed

lemma segment_halves:
  assumes "high \<le> length arr" "low \<le> high"
  defines "mid \<equiv> low + (high - low) div 2"
  shows "segment arr low mid = take (length (segment arr low high) div 2) (segment arr low high)"
    and "segment arr mid high = drop (length (segment arr low high) div 2) (segment arr low high)"
proof -
  have len: "length (segment arr low high) = high - low" using assms(1) by simp
  have m: "(high - low) div 2 \<le> high - low" "mid - low = (high - low) div 2"
    "high - mid = (high - low) - (high - low) div 2" "mid = (high - low) div 2 + low"
    using assms(2) by (simp_all add: mid_def)
  show "segment arr low mid = take (length (segment arr low high) div 2) (segment arr low high)"
    unfolding len using m by (simp add: segment_def min_absorb1)
  show "segment arr mid high = drop (length (segment arr low high) div 2) (segment arr low high)"
    unfolding len using m(3,4) by (simp add: segment_def drop_take)
qed

lemma merge_sort_recursive_spec:
  "low \<le> high \<Longrightarrow> high \<le> length arr \<Longrightarrow> length tmp = length arr \<Longrightarrow>
     fst (merge_sort_recursive arr tmp low high cmp) =
       patch arr low (halving_sort cmp (segment arr low high)) \<and>
     length (snd (merge_sort_recursive arr tmp low high cmp)) = length arr"
proof (induction "high - low" arbitrary: arr tmp low high rule: less_induct)
  case less
  show ?case
  proof (cases "high - low < 2")
    case True
    then have "halving_sort cmp (segment arr low high) = segment arr low high"
      using less.prems by (subst halving_sort.simps) simp
    moreover have "patch arr low (segment arr low high) = arr"
      using less.prems by (simp add: patch_def segment_def)
        (metis append_take_drop_id drop_drop le_add_diff_inverse2)
    ultimately show ?thesis
      using True less.prems by (subst (1 2) merge_sort_recursive.simps) simp
  next
    case False
    let ?m = "low + (high - low) div 2"
    have m: "low \<le> ?m" "?m \<le> high" "?m - low < high - low" "high - ?m < high - low"
      using False by auto
    obtain a1 t1 where r1: "merge_sort_recursive arr tmp low ?m cmp = (a1, t1)" by fastforce
    have a1: "a1 = patch arr low (halving_sort cmp (segment arr low ?m))" "length t1 = length arr"
      using less.hyps [OF m(3) m(1) _ less.prems(3)] less.prems(2) m(2) r1 by simp_all
    have l1: "length a1 = length arr" using a1 less.prems(2) m by simp
    obtain a2 t2 where r2: "merge_sort_recursive a1 t1 ?m high cmp = (a2, t2)" by fastforce
    have seg: "segment a1 ?m high = segment arr ?m high"
      unfolding a1(1) using less.prems(2) m by (intro segment_patch_after) auto
    have a2: "a2 = patch a1 ?m (halving_sort cmp (segment arr ?m high))" "length t2 = length arr"
      using less.hyps [OF m(4) m(2), of a1 t1] less.prems(2) r2 a1(2) l1 seg by simp_all
    have whole: "a2 = patch arr low (halving_sort cmp (segment arr low ?m) @
        halving_sort cmp (segment arr ?m high))"
    proof -
      have "?m = low + length (halving_sort cmp (segment arr low ?m))" using less.prems(2) m by simp
      then show ?thesis
        unfolding a2(1) a1(1)
        using patch_append [of low "halving_sort cmp (segment arr low ?m)"
            "halving_sort cmp (segment arr ?m high)" arr] less.prems(2) m by simp
    qed
    have "segment a2 low ?m = segment a1 low ?m"
      unfolding a2(1) using less.prems(2) m(2) l1 by (intro segment_patch_before) simp_all
    also have "\<dots> = halving_sort cmp (segment arr low ?m)"
      unfolding a1(1) using less.prems(2) m by (intro segment_patch_same) simp_all
    moreover have "segment a2 ?m high = halving_sort cmp (segment arr ?m high)"
      unfolding a2(1) using less.prems(2) m l1 by (intro segment_patch_same) simp_all
    ultimately have seg2: "segment a2 low ?m = halving_sort cmp (segment arr low ?m)"
      "segment a2 ?m high = halving_sort cmp (segment arr ?m high)" by simp_all
    have "merge_sort_recursive arr tmp low high cmp = merge a2 t2 low ?m high cmp"
      using False r1 r2 by (subst merge_sort_recursive.simps) (simp add: Let_def)
    moreover have "length a2 = length arr" using a2(1) l1 less.prems(2) m by simp
    moreover have "halving_sort cmp (segment arr low high) =
        merge_lists cmp (halving_sort cmp (segment arr low ?m)) (halving_sort cmp (segment arr ?m high))"
      using False less.prems segment_halves [OF less.prems(2,1)]
      by (subst halving_sort.simps) simp
    moreover have "patch a2 low ys = patch arr low ys" if "length ys = high - low" for ys
      using that less.prems(2) m unfolding whole by (intro patch_patch) simp_all
    ultimately show ?thesis
      using merge_spec [OF m(1,2), of a2 t2 cmp] seg2 less.prems(2) a2(2) m by simp
  qed
qed

section \<open>The reference sorts, and stably\<close>

lemma mset_merge_lists [simp]: "mset (merge_lists cmp xs ys) = mset xs + mset ys"
  by (induction cmp xs ys rule: merge_lists.induct) simp_all

lemma set_merge_lists [simp]: "set (merge_lists cmp xs ys) = set xs \<union> set ys"
  by (metis mset_merge_lists set_mset_mset set_mset_union)

lemma mset_halving_sort [simp]: "mset (halving_sort cmp xs) = mset xs"
proof (induction cmp xs rule: halving_sort.induct)
  case (1 cmp xs)
  show ?case
  proof (cases "length xs < 2")
    case True
    then show ?thesis by (subst halving_sort.simps) simp
  next
    case False
    then show ?thesis using 1 by (subst halving_sort.simps) (simp flip: mset_append)
  qed
qed

lemma merge_lists_sorted:
  "comparator_order cmp \<Longrightarrow> sorted_by cmp xs \<Longrightarrow> sorted_by cmp ys \<Longrightarrow>
     sorted_by cmp (merge_lists cmp xs ys)"
proof (induction cmp xs ys rule: merge_lists.induct)
  case (3 cmp x xs y ys)
  note trans = comparator_order.cmp_trans [OF "3.prems"(1)]
  show ?case
  proof (cases "cmp x y \<le> 0")
    case True
    with 3 trans [of x y] show ?thesis by auto
  next
    case False
    then have "cmp y x \<le> 0" using comparator_order.cmp_total [OF "3.prems"(1), of x y] by blast
    with False 3 trans [of y x] show ?thesis by auto
  qed
qed simp_all

lemma merge_lists_stable:
  "comparator_order cmp \<Longrightarrow> sorted_by cmp xs \<Longrightarrow> sorted_by cmp ys \<Longrightarrow>
     filter (\<lambda>z. cmp a z = 0) (merge_lists cmp xs ys) =
       filter (\<lambda>z. cmp a z = 0) xs @ filter (\<lambda>z. cmp a z = 0) ys"
proof (induction cmp xs ys rule: merge_lists.induct)
  case (3 cmp x xs y ys)
  note order = "3.prems"(1)
  show ?case
  proof (cases "cmp x y \<le> 0")
    case True
    with 3 show ?thesis by auto
  next
    case gt: False
    have IH: "filter (\<lambda>z. cmp a z = 0) (merge_lists cmp (x # xs) ys) =
        filter (\<lambda>z. cmp a z = 0) (x # xs) @ filter (\<lambda>z. cmp a z = 0) ys"
      using "3.IH"(2) [OF gt order "3.prems"(2)] "3.prems"(3) by simp
    show ?thesis
    proof (cases "cmp a y = 0")
      case True
      have "cmp a z \<noteq> 0" if "z \<in> set (x # xs)" for z
      proof
        assume az: "cmp a z = 0"
        have "cmp z y = 0"
          using comparator_order.cmp_eq_trans [OF order] comparator_order.cmp_eq_sym [OF order] az True
          by metis
        moreover have "cmp x z \<le> 0"
          using that "3.prems"(2) comparator_order.cmp_refl [OF order] by auto
        ultimately show False
          using gt comparator_order.cmp_trans [OF order, of x z y] by simp
      qed
      then have "filter (\<lambda>z. cmp a z = 0) (x # xs) = []" by (simp add: filter_empty_conv)
      with IH gt True show ?thesis by simp
    next
      case False
      with IH gt show ?thesis by simp
    qed
  qed
qed simp_all

lemma halving_sort_sorted: "comparator_order cmp \<Longrightarrow> sorted_by cmp (halving_sort cmp xs)"
proof (induction cmp xs rule: halving_sort.induct)
  case (1 cmp xs)
  show ?case
  proof (cases "length xs < 2")
    case True
    then have "length xs = 0 \<or> length xs = Suc 0" by linarith
    then have "sorted_by cmp xs" by (auto simp: length_Suc_conv)
    with True show ?thesis by (subst halving_sort.simps) simp
  next
    case False
    with 1 show ?thesis by (subst halving_sort.simps) (simp add: merge_lists_sorted)
  qed
qed

lemma halving_sort_stable:
  "comparator_order cmp \<Longrightarrow>
     filter (\<lambda>z. cmp a z = 0) (halving_sort cmp xs) = filter (\<lambda>z. cmp a z = 0) xs"
proof (induction cmp xs rule: halving_sort.induct)
  case (1 cmp xs)
  show ?case
  proof (cases "length xs < 2")
    case True
    then show ?thesis by (subst halving_sort.simps) simp
  next
    case False
    with 1 have "filter (\<lambda>z. cmp a z = 0) (halving_sort cmp xs) =
        filter (\<lambda>z. cmp a z = 0) (take (length xs div 2) xs) @
        filter (\<lambda>z. cmp a z = 0) (drop (length xs div 2) xs)"
      by (subst halving_sort.simps) (simp add: merge_lists_stable halving_sort_sorted)
    then show ?thesis by (simp flip: filter_append)
  qed
qed

section \<open>Quicksort sorts\<close>

lemma length_buffer_swap [simp]: "length (buffer_swap arr i j) = length arr"
  by (simp add: buffer_swap_def)

lemma buffer_swap_nth:
  "i < length arr \<Longrightarrow> j < length arr \<Longrightarrow> m < length arr \<Longrightarrow>
     buffer_swap arr i j ! m = (if m = j then arr ! i else if m = i then arr ! j else arr ! m)"
  by (simp add: buffer_swap_def nth_list_update)

lemma mset_buffer_swap [simp]:
  "i < length arr \<Longrightarrow> j < length arr \<Longrightarrow> mset (buffer_swap arr i j) = mset arr"
  by (simp add: buffer_swap_def mset_swap)

text \<open>A rearrangement of the range \<open>low..high\<close>.\<close>

definition rearranged :: "nat \<Rightarrow> nat \<Rightarrow> 'b list \<Rightarrow> 'b list \<Rightarrow> bool" where
  "rearranged low high arr arr' \<longleftrightarrow> length arr' = length arr \<and> mset arr' = mset arr \<and>
     (\<forall>m < length arr. m < low \<or> high < m \<longrightarrow> arr' ! m = arr ! m) \<and>
     (\<forall>m. low \<le> m \<longrightarrow> m \<le> high \<longrightarrow> (\<exists>m'. low \<le> m' \<and> m' \<le> high \<and> arr' ! m = arr ! m'))"

lemma rearranged_refl [simp]: "rearranged low high arr arr"
  by (auto simp: rearranged_def)

lemma rearranged_trans:
  "rearranged low high a b \<Longrightarrow> rearranged low high b c \<Longrightarrow> rearranged low high a c"
  unfolding rearranged_def by metis

lemma rearranged_swap:
  "low \<le> i \<Longrightarrow> i \<le> high \<Longrightarrow> low \<le> j \<Longrightarrow> j \<le> high \<Longrightarrow> high < length arr \<Longrightarrow>
     rearranged low high arr (buffer_swap arr i j)"
  by (auto simp: rearranged_def buffer_swap_nth)

lemma partition_loop_spec:
  "low \<le> k \<Longrightarrow> k \<le> j \<Longrightarrow> j \<le> high \<Longrightarrow> high < length arr \<Longrightarrow>
     (\<forall>m. low \<le> m \<longrightarrow> m < k \<longrightarrow> cmp (arr ! m) pivot \<le> 0) \<Longrightarrow>
     (\<forall>m. k \<le> m \<longrightarrow> m < j \<longrightarrow> cmp (arr ! m) pivot > 0) \<Longrightarrow>
     partition_loop cmp pivot high arr k j = (arr', k') \<Longrightarrow>
     rearranged low high arr arr' \<and> arr' ! high = arr ! high \<and> k \<le> k' \<and> k' \<le> high \<and>
     (\<forall>m. low \<le> m \<longrightarrow> m < k' \<longrightarrow> cmp (arr' ! m) pivot \<le> 0) \<and>
     (\<forall>m. k' \<le> m \<longrightarrow> m < high \<longrightarrow> cmp (arr' ! m) pivot > 0)"
proof (induction cmp pivot high arr k j rule: partition_loop.induct)
  case (1 cmp pivot high arr k j)
  show ?case
  proof (cases "j < high")
    case False
    then have "partition_loop cmp pivot high arr k j = (arr, k)"
      by (subst partition_loop.simps) simp
    then have "arr' = arr" "k' = k" "j = high"
      using "1.prems"(3,7) False by simp_all
    with "1.prems" show ?thesis by simp
  next
    case j: True
    show ?thesis
    proof (cases "cmp (arr ! j) pivot \<le> 0")
      case le: True
      let ?a = "buffer_swap arr k j"
      have run: "partition_loop cmp pivot high ?a (k + 1) (j + 1) = (arr', k')"
        using "1.prems"(7) j le by (simp add: partition_loop.simps [of cmp pivot high arr k j])
      have nth: "?a ! m = (if m = j then arr ! k else if m = k then arr ! j else arr ! m)"
        if "m \<le> high" for m
        using that "1.prems" j by (intro buffer_swap_nth) auto
      have "\<forall>m. low \<le> m \<longrightarrow> m < k + 1 \<longrightarrow> cmp (?a ! m) pivot \<le> 0"
        using "1.prems"(1-6) j le nth by (auto simp: less_Suc_eq)
      moreover have "\<forall>m. k + 1 \<le> m \<longrightarrow> m < j + 1 \<longrightarrow> cmp (?a ! m) pivot > 0"
        using "1.prems"(1-6) j nth by (auto simp: less_Suc_eq)
      ultimately have IH: "rearranged low high ?a arr' \<and> arr' ! high = ?a ! high \<and> k + 1 \<le> k' \<and> k' \<le> high \<and>
        (\<forall>m. low \<le> m \<longrightarrow> m < k' \<longrightarrow> cmp (arr' ! m) pivot \<le> 0) \<and>
        (\<forall>m. k' \<le> m \<longrightarrow> m < high \<longrightarrow> cmp (arr' ! m) pivot > 0)"
        using "1.IH"(1) [OF j le _ _ _ _ _ _ run] "1.prems"(1-4) j by simp
      moreover have "rearranged low high arr ?a"
        using "1.prems"(1-4) j by (intro rearranged_swap) simp_all
      ultimately show ?thesis
        using nth [of high] j "1.prems"(2) rearranged_trans by auto
    next
      case gt: False
      have run: "partition_loop cmp pivot high arr k (j + 1) = (arr', k')"
        using "1.prems"(7) j gt by (simp add: partition_loop.simps [of cmp pivot high arr k j])
      have "\<forall>m. k \<le> m \<longrightarrow> m < j + 1 \<longrightarrow> cmp (arr ! m) pivot > 0"
        using "1.prems"(6) gt by (auto simp: less_Suc_eq)
      from "1.IH"(2) [OF j gt _ _ _ _ _ this run] "1.prems"(1-5) j show ?thesis by simp
    qed
  qed
qed

lemma buffer_partition_spec:
  assumes "low \<le> high" "high < length arr" "buffer_partition arr low high cmp = (arr', pi)"
  shows "rearranged low high arr arr' \<and> low \<le> pi \<and> pi \<le> high \<and>
    (\<forall>m. low \<le> m \<longrightarrow> m < pi \<longrightarrow> cmp (arr' ! m) (arr' ! pi) \<le> 0) \<and>
    (\<forall>m. pi < m \<longrightarrow> m \<le> high \<longrightarrow> cmp (arr' ! m) (arr' ! pi) > 0)"
proof -
  obtain a where loop: "partition_loop cmp (arr ! high) high arr low low = (a, pi)"
    and arr': "arr' = buffer_swap a pi high"
    using assms(3) by (auto simp: buffer_partition_def split: prod.splits)
  have p: "rearranged low high arr a" "a ! high = arr ! high" "low \<le> pi" "pi \<le> high"
    "\<forall>m. low \<le> m \<longrightarrow> m < pi \<longrightarrow> cmp (a ! m) (arr ! high) \<le> 0"
    "\<forall>m. pi \<le> m \<longrightarrow> m < high \<longrightarrow> cmp (a ! m) (arr ! high) > 0"
    using partition_loop_spec [OF order_refl order_refl assms(1,2) _ _ loop] by auto
  have len: "length a = length arr" using p(1) by (simp add: rearranged_def)
  have nth: "arr' ! m = (if m = high then a ! pi else if m = pi then a ! high else a ! m)"
    if "m \<le> high" for m
    unfolding arr' using that assms(2) len p by (intro buffer_swap_nth) auto
  have "rearranged low high a arr'"
    unfolding arr' using assms len p by (intro rearranged_swap) auto
  then have "rearranged low high arr arr'" using p(1) rearranged_trans by blast
  moreover have "arr' ! pi = arr ! high" using nth [OF p(4)] p(2) by simp
  moreover have "cmp (arr' ! m) (arr ! high) \<le> 0" if "low \<le> m" "m < pi" for m
    using that p(4,5) nth [of m] by simp
  moreover have "cmp (arr' ! m) (arr ! high) > 0" if "pi < m" "m \<le> high" for m
    using that p(6) nth [of m] by (cases "m = high") simp_all
  ultimately show ?thesis using p(3,4) by simp
qed

text \<open>Pending ranges lie inside the buffer, are disjoint, and hold all the disorder there is.\<close>

definition ranges_ok :: "nat \<Rightarrow> (nat \<times> nat) list \<Rightarrow> bool" where
  "ranges_ok n stack \<longleftrightarrow> (\<forall>(l, h) \<in> set stack. l < h \<and> h < n) \<and>
     sorted_wrt (\<lambda>(l, h) (l', h'). h < l' \<or> h' < l) stack"

definition sorted_but :: "'a comparator \<Rightarrow> 'a ptr list \<Rightarrow> (nat \<times> nat) list \<Rightarrow> bool" where
  "sorted_but cmp arr stack \<longleftrightarrow>
     (\<forall>i j. i < j \<longrightarrow> j < length arr \<longrightarrow>
        cmp (arr ! i) (arr ! j) \<le> 0 \<or> (\<exists>(l, h) \<in> set stack. l \<le> i \<and> j \<le> h))"

lemma quick_step_ranges:
  assumes "ranges_ok n ((l, h) # stack)" "quick_step cmp arr l h stack = (arr', stack')"
    "h < length arr"
  shows "ranges_ok n stack'"
proof -
  obtain pi where p: "buffer_partition arr l h cmp = (arr', pi)"
    using assms(2) by (auto simp: quick_step_def Let_def split: prod.splits)
  have lh: "l < h" "h < n" "l \<le> pi" "pi \<le> h"
    using assms(1) buffer_partition_spec [OF _ assms(3) p] by (auto simp: ranges_ok_def)
  have stack': "stack' = (if pi + 1 < h then [(pi + 1, h)] else []) @
      (if pi - 1 > l then [(l, pi - 1)] else []) @ stack"
    using assms(2) p by (auto simp: quick_step_def Let_def)
  have old: "\<forall>(l', h') \<in> set stack. l' < h' \<and> h' < n" "sorted_wrt (\<lambda>(l, h) (l', h'). h < l' \<or> h' < l) stack"
    "\<forall>(l', h') \<in> set stack. h < l' \<or> h' < l"
    using assms(1) by (auto simp: ranges_ok_def)
  then show ?thesis
    unfolding stack' ranges_ok_def using lh by (fastforce simp: sorted_wrt_append)
qed

lemma quick_step_sorted_but:
  assumes order: "comparator_order cmp" and rng: "ranges_ok (length arr) ((l, h) # stack)"
    and but: "sorted_but cmp arr ((l, h) # stack)"
    and step: "quick_step cmp arr l h stack = (arr', stack')"
  shows "sorted_but cmp arr' stack' \<and> length arr' = length arr \<and> mset arr' = mset arr"
proof -
  obtain pi where p: "buffer_partition arr l h cmp = (arr', pi)"
    using step by (auto simp: quick_step_def Let_def split: prod.splits)
  have lh: "l < h" "h < length arr" using rng by (auto simp: ranges_ok_def)
  note part = buffer_partition_spec [OF less_imp_le [OF lh(1)] lh(2) p]
  have stack': "set stack' = (if pi + 1 < h then {(pi + 1, h)} else {}) \<union>
      (if pi - 1 > l then {(l, pi - 1)} else {}) \<union> set stack"
    using step p by (auto simp: quick_step_def Let_def)
  have re: "length arr' = length arr" "mset arr' = mset arr"
    "\<And>m. m < length arr \<Longrightarrow> m < l \<or> h < m \<Longrightarrow> arr' ! m = arr ! m"
    "\<And>m. l \<le> m \<Longrightarrow> m \<le> h \<Longrightarrow> \<exists>m'. l \<le> m' \<and> m' \<le> h \<and> arr' ! m = arr ! m'"
    using part by (auto simp: rearranged_def)
  have disj: "h < l' \<or> h' < l" if "(l', h') \<in> set stack" for l' h'
    using rng that by (auto simp: ranges_ok_def)
  have out: "cmp (arr ! i) (arr ! j) \<le> 0 \<or> (\<exists>(l', h') \<in> set stack. l' \<le> i \<and> j \<le> h')"
    if "i < j" "j < length arr" "\<not> (l \<le> i \<and> j \<le> h)" for i j
    using but that unfolding sorted_but_def by fastforce
  have "cmp (arr' ! i) (arr' ! j) \<le> 0 \<or> (\<exists>(l', h') \<in> set stack'. l' \<le> i \<and> j \<le> h')"
    if ij: "i < j" "j < length arr" for i j
  proof -
    consider (both) "l \<le> i" "j \<le> h" | (left) "i < l" "l \<le> j" "j \<le> h" | (right) "l \<le> i" "i \<le> h" "h < j"
      | (none) "\<not> (l \<le> i \<and> i \<le> h)" "\<not> (l \<le> j \<and> j \<le> h)"
      using ij by linarith
    then show ?thesis
    proof cases
      case left
      then obtain j' where j': "l \<le> j'" "j' \<le> h" "arr' ! j = arr ! j'" using re(4) by blast
      then have "i < j'" "j' < length arr" "\<not> (l \<le> i \<and> j' \<le> h)" using left lh by auto
      from out [OF this] disj j' left have "cmp (arr ! i) (arr ! j') \<le> 0" by fastforce
      then show ?thesis using j' re(3) [of i] left ij by simp
    next
      case right
      then obtain i' where i': "l \<le> i'" "i' \<le> h" "arr' ! i = arr ! i'" using re(4) by blast
      then have "i' < j" "\<not> (l \<le> i' \<and> j \<le> h)" using right by auto
      from out [OF this(1) ij(2) this(2)] disj i' right have "cmp (arr ! i') (arr ! j) \<le> 0" by fastforce
      then show ?thesis using i' re(3) [of j] right ij by simp
    next
      case none
      then have "arr' ! i = arr ! i" "arr' ! j = arr ! j" using re(3) ij by auto
      moreover have "\<not> (l \<le> i \<and> j \<le> h)" using none ij by linarith
      ultimately show ?thesis using out [OF ij] stack' by auto
    next
      case both
      consider "i < pi" "j < pi" | "pi < i" | "i < pi" "j = pi" | "i = pi" | "i < pi" "pi < j"
        using ij by linarith
      then show ?thesis
      proof cases
        case 1
        then show ?thesis using both ij stack' by (intro disjI2 bexI [of _ "(l, pi - 1)"]) auto
      next
        case 2
        then show ?thesis using both ij stack' by (intro disjI2 bexI [of _ "(pi + 1, h)"]) auto
      next
        case 3
        then show ?thesis using part both by auto
      next
        case 4
        then have "cmp (arr' ! j) (arr' ! i) > 0" using part both ij by auto
        then show ?thesis using comparator_order.cmp_gt_iff [OF order] by force
      next
        case 5
        then have "cmp (arr' ! i) (arr' ! pi) \<le> 0" "cmp (arr' ! j) (arr' ! pi) > 0"
          using part both by auto
        then show ?thesis
          using comparator_order.cmp_gt_iff [OF order] comparator_order.cmp_trans [OF order]
          by (metis less_imp_le)
      qed
    qed
  qed
  then show ?thesis using re by (simp add: sorted_but_def)
qed

lemma quick_loop_spec:
  "comparator_order cmp \<Longrightarrow> ranges_ok (length arr) stack \<Longrightarrow> sorted_but cmp arr stack \<Longrightarrow>
     sorted_but cmp (quick_loop cmp arr stack) [] \<and> length (quick_loop cmp arr stack) = length arr \<and>
     mset (quick_loop cmp arr stack) = mset arr"
proof (induction cmp arr stack rule: quick_loop.induct)
  case (1 cmp arr)
  then show ?case by simp
next
  case (2 cmp arr l h stack)
  obtain arr' stack' where step: "quick_step cmp arr l h stack = (arr', stack')" by fastforce
  note s = quick_step_sorted_but [OF "2.prems" step]
  have "h < length arr" using "2.prems"(2) by (simp add: ranges_ok_def)
  from quick_step_ranges [OF "2.prems"(2) step this] s "2.IH" [OF step [symmetric] "2.prems"(1)] step
  show ?case by simp
qed

lemma sorted_but_Nil: "sorted_but cmp arr [] \<longleftrightarrow> sorted_by cmp arr"
  by (auto simp: sorted_but_def sorted_by_def sorted_wrt_iff_nth_less)

lemma buffer_quicksort_spec:
  assumes "comparator_order cmp" "2 \<le> length arr"
  shows "sorted_by cmp (buffer_quicksort cmp arr) \<and> mset (buffer_quicksort cmp arr) = mset arr \<and>
    length (buffer_quicksort cmp arr) = length arr"
proof -
  have "ranges_ok (length arr) [(0, length arr - 1)]" "sorted_but cmp arr [(0, length arr - 1)]"
    using assms(2) by (auto simp: ranges_ok_def sorted_but_def)
  from quick_loop_spec [OF assms(1) this] show ?thesis
    by (simp add: buffer_quicksort_def sorted_but_Nil)
qed

text \<open>The states the loop goes through.\<close>

inductive quick_reachable ::
  "'a comparator \<Rightarrow> 'a ptr list \<Rightarrow> 'a ptr list \<Rightarrow> (nat \<times> nat) list \<Rightarrow> bool" for cmp arr0 where
  start: "quick_reachable cmp arr0 arr0 [(0, length arr0 - 1)]"
| turn: "quick_reachable cmp arr0 arr ((l, h) # stack) \<Longrightarrow>
     quick_reachable cmp arr0 (fst (quick_step cmp arr l h stack)) (snd (quick_step cmp arr l h stack))"

lemma quick_reachable_weight:
  assumes "quick_reachable cmp arr0 arr stack" "2 \<le> length arr0"
  shows "range_weight stack \<le> length arr0 \<and> (\<forall>(l, h) \<in> set stack. l < h)"
  using assms
proof (induction rule: quick_reachable.induct)
  case start
  then show ?case by simp
next
  case (turn arr l h stack)
  then have "range_weight ((l, h) # stack) \<le> length arr0" "\<forall>(l, h) \<in> set stack. l < h" by auto
  moreover have "\<forall>(l', h') \<in> set (snd (quick_step cmp arr l h stack)). l' < h'"
    using calculation(2) by (auto simp: quick_step_def Let_def split: prod.splits if_splits)
  ultimately show ?case using quick_step_weight [of cmp arr l h stack] by linarith
qed

lemma range_weight_length: "\<forall>(l, h) \<in> set stack. l < h \<Longrightarrow> 2 * length stack \<le> range_weight stack"
  by (induction stack) auto

section \<open>Properties\<close>

text \<open>C10: The explicit stack of quicksort never overflows and never holds a bad range: whatever
  the comparator answers, at every turn of the loop there are at most half as many pending
  ranges as elements, so the two \<open>int\<close> entries per range take at most half of the
  \<open>2 * size\<close> entries allocated.\<close>

theorem quicksort_stack_bound:
  assumes "quick_reachable cmp arr0 arr stack" "2 \<le> length arr0"
  shows "2 * length stack \<le> length arr0 \<and> (\<forall>(l, h) \<in> set stack. l < h)"
  using quick_reachable_weight [OF assms] range_weight_length [of stack] by linarith

theorem quicksort_stack_bound_witness:
  "2 * length (snd (quick_step set_default_ptr_compare [Some 3, Some 1, Some 2] 0 2 [])) \<le> 3"
  using quicksort_stack_bound [OF quick_reachable.turn [of set_default_ptr_compare
        "[Some 3, Some 1, Some 2]" "[Some 3, Some 1, Some 2]" 0 2 "[]"]]
    quick_reachable.start [of set_default_ptr_compare "[Some 3, Some 1, Some 2]"]
  by (simp add: numeral_2_eq_2)

end
