(* ===== verification/Sorters.thy ===== *)
theory Sorters
  imports Sort_Buffers Lists
begin

text \<open>
  The sorter object, \<open>src/sort/sort.c\<close>, over the list component. Sorting, shuffling and
  reversing copy the list into a buffer, rearrange the buffer and write it back with \<open>clear\<close> and
  one insertion per element, whose error codes are dropped. \<open>rand\<close> is the sequence of values the
  C function returns, an argument of the shuffle.
\<close>

section \<open>State and operations\<close>

datatype sort_method = Quick_Sort | Merge_Sort

record 'a sorter =
  so_cmp :: "'a comparator option"
  so_sort :: sort_method
  so_user_data :: "'a ptr"

definition create_sorter :: "'a comparator option \<Rightarrow> 'a world \<Rightarrow> 'a sorter option \<times> 'a world" where
  "create_sorter cmp w =
     (case malloc_struct w of
        (False, w1) \<Rightarrow> (None, w1)
      | (True, w1) \<Rightarrow>
         (case malloc_struct w1 of
            (False, w2) \<Rightarrow> (None, w2)
          | (True, w2) \<Rightarrow>
              (Some \<lparr>so_cmp = cmp, so_sort = Quick_Sort, so_user_data = NULL\<rparr>, w2)))"

definition create_merge_sorter ::
  "'a comparator option \<Rightarrow> 'a world \<Rightarrow> 'a sorter option \<times> 'a world" where
  "create_merge_sorter cmp w =
     (case create_sorter cmp w of
        (None, w') \<Rightarrow> (None, w')
      | (Some s, w') \<Rightarrow> (Some (s\<lparr>so_sort := Merge_Sort\<rparr>), w'))"

text \<open>The buffer, if there is one, the sz, the list, the world.\<close>

definition list_snapshot ::
  "'a list_obj \<Rightarrow> 'a world \<Rightarrow> 'a ptr list option \<times> int \<times> 'a list_obj \<times> 'a world" where
  "list_snapshot lst w =
     (let n = list_size lst in
      if n \<le> 0 then (None, n, lst, w)
      else (case malloc_ptrs n w of
          (None, w') \<Rightarrow> (None, n, lst, w')
        | (Some _, w') \<Rightarrow>
            (case fetch_loop list_get 0 (nat n) lst of (arr, lst') \<Rightarrow> (Some arr, n, lst', w'))))"

definition list_replace_with ::
  "'a list_obj \<Rightarrow> 'a ptr list \<Rightarrow> 'a world \<Rightarrow> 'a list_obj \<times> 'a world" where
  "list_replace_with lst arr w = store_loop list_insert 0 arr (list_clear lst) w"

definition sorter_swap ::
  "'a list_obj \<Rightarrow> int \<Rightarrow> int \<Rightarrow> 'a world \<Rightarrow> 'a list_obj \<times> 'a world" where
  "sorter_swap lst index1 index2 w =
     (if index1 = index2 then (lst, w)
      else
       (let (temp1, lst) = list_get lst index1;
            (temp2, lst) = list_get lst index2;
            (_, lst) = list_remove lst index1;
            (_, lst, w) = list_insert lst temp2 index1 w;
            (_, lst) = list_remove lst index2;
            (_, lst, w) = list_insert lst temp1 index2 w
        in (lst, w)))"

fun sorter_quick ::
  "'a sorter option \<Rightarrow> 'a list_obj \<Rightarrow> 'a world \<Rightarrow> 'a list_obj \<times> 'a world" where
  "sorter_quick None lst w = (lst, w)"
| "sorter_quick (Some impl) lst w =
     (case so_cmp impl of
        None \<Rightarrow> (lst, w)
      | Some cmp \<Rightarrow>
         (case list_snapshot lst w of (arr, sz, lst, w) \<Rightarrow>
            if sz < 2 then (lst, w)
            else (case arr of
                None \<Rightarrow> (lst, w)
              | Some arr \<Rightarrow>
                 (case malloc (unat (4 * word_of_int sz * 2 :: 64 word)) w of
                    (False, w) \<Rightarrow> (lst, w)
                  | (True, w) \<Rightarrow> list_replace_with lst (buffer_quicksort cmp arr) w))))"

text \<open>The merge sorter does not test its comparator; calling through a null one is undefined, as
  \<open>the None\<close> is.\<close>

fun sorter_merge ::
  "'a sorter option \<Rightarrow> 'a list_obj \<Rightarrow> 'a world \<Rightarrow> 'a list_obj \<times> 'a world" where
  "sorter_merge None lst w = (lst, w)"
| "sorter_merge (Some impl) lst w =
     (let sz = list_size lst in
      if sz < 2 then (lst, w)
      else (case malloc_ptrs sz w of
          (None, w) \<Rightarrow> (lst, w)
        | (Some _, w) \<Rightarrow>
           (case malloc_ptrs sz w of
              (None, w) \<Rightarrow> (lst, w)
            | (Some tmp, w) \<Rightarrow>
               (case fetch_loop list_get 0 (nat sz) lst of (arr, lst) \<Rightarrow>
                  list_replace_with lst
                    (fst (merge_sort_recursive arr tmp 0 (nat sz) (the (so_cmp impl)))) w))))"

definition sorter_sort ::
  "'a sorter option \<Rightarrow> 'a list_obj \<Rightarrow> 'a world \<Rightarrow> 'a list_obj \<times> 'a world" where
  "sorter_sort self lst w =
     (case self of
        Some s \<Rightarrow> (if so_sort s = Merge_Sort then sorter_merge self lst w else sorter_quick self lst w)
      | None \<Rightarrow> (lst, w))"

text \<open>\<open>for (i = n - 1; i > 0; i--) \<lbrace> j = rand() % (i + 1); swap \<rbrace>\<close>; \<open>rand t\<close> is the value of the
  \<open>t\<close>-th call.\<close>

fun shuffle_loop :: "(nat \<Rightarrow> nat) \<Rightarrow> nat \<Rightarrow> nat \<Rightarrow> 'b list \<Rightarrow> 'b list" where
  "shuffle_loop rand t 0 arr = arr"
| "shuffle_loop rand t (Suc i) arr =
     shuffle_loop rand (t + 1) i (buffer_swap arr (Suc i) (rand t mod (Suc i + 1)))"

function reverse_loop :: "nat \<Rightarrow> nat \<Rightarrow> 'b list \<Rightarrow> 'b list" where
  "reverse_loop i j arr =
     (if i < j then reverse_loop (i + 1) (j - 1) (buffer_swap arr i j) else arr)"
  by pat_completeness auto
termination by (relation "measure (\<lambda>(i, j, arr). j - i)") auto

declare reverse_loop.simps [simp del]

definition rearrange_with ::
  "('a ptr list \<Rightarrow> 'a ptr list) \<Rightarrow> 'a list_obj \<Rightarrow> 'a world \<Rightarrow> 'a list_obj \<times> 'a world" where
  "rearrange_with f lst w =
     (case list_snapshot lst w of (arr, n, lst, w) \<Rightarrow>
        if n < 2 then (lst, w)
        else (case arr of None \<Rightarrow> (lst, w) | Some arr \<Rightarrow> list_replace_with lst (f arr) w))"

definition collections_shuffle ::
  "(nat \<Rightarrow> nat) \<Rightarrow> 'a list_obj \<Rightarrow> 'a world \<Rightarrow> 'a list_obj \<times> 'a world" where
  "collections_shuffle rand lst w =
     rearrange_with (\<lambda>arr. shuffle_loop rand 0 (length arr - 1) arr) lst w"

definition collections_reverse :: "'a list_obj \<Rightarrow> 'a world \<Rightarrow> 'a list_obj \<times> 'a world" where
  "collections_reverse lst w = rearrange_with (\<lambda>arr. reverse_loop 0 (length arr - 1) arr) lst w"

function search_loop ::
  "'a comparator option \<Rightarrow> 'a list_obj \<Rightarrow> 'a ptr \<Rightarrow> int \<Rightarrow> int \<Rightarrow> int \<times> 'a list_obj" where
  "search_loop cmp lst item low high =
     (if low \<le> high then
        (let mid = low + (high - low) div 2;
             (mid_item, lst) = list_get lst mid;
             cmp_result = (case cmp of Some c \<Rightarrow> c mid_item item | None \<Rightarrow> 0)
         in if cmp_result = 0 then (mid, lst)
            else if cmp_result < 0 then search_loop cmp lst item (mid + 1) high
            else search_loop cmp lst item low (mid - 1))
      else (-1, lst))"
  by pat_completeness auto
termination
  by (relation "measure (\<lambda>(cmp, lst, item, low, high). nat (high - low + 1))") auto

declare search_loop.simps [simp del]

definition sorter_order :: "'a sorter option \<Rightarrow> 'a comparator option" where
  "sorter_order self = (case self of None \<Rightarrow> None | Some s \<Rightarrow> Some (the (so_cmp s)))"

definition collections_binary_search ::
  "'a sorter option \<Rightarrow> 'a list_obj \<Rightarrow> 'a ptr \<Rightarrow> int \<times> 'a list_obj" where
  "collections_binary_search self lst item =
     search_loop (sorter_order self) lst item 0 (list_size lst - 1)"

fun copy_loop ::
  "int \<Rightarrow> nat \<Rightarrow> 'a list_obj \<Rightarrow> 'a list_obj \<Rightarrow> 'a world \<Rightarrow> 'a list_obj \<times> 'a list_obj \<times> 'a world" where
  "copy_loop i 0 src dest w = (src, dest, w)"
| "copy_loop i (Suc n) src dest w =
     (case list_get src i of (item, src) \<Rightarrow>
      case list_insert dest item i w of (_, dest, w) \<Rightarrow> copy_loop (i + 1) n src dest w)"

text \<open>\<open>src\<close> and \<open>dest\<close> are different lists.\<close>

definition collections_copy ::
  "'a list_obj \<Rightarrow> 'a list_obj \<Rightarrow> 'a world \<Rightarrow> 'a list_obj \<times> 'a list_obj \<times> 'a world" where
  "collections_copy src dest w = copy_loop 0 (nat (list_size src)) src dest w"

text \<open>The scan that keeps the best element so far; \<open>better\<close> is the test on the comparison with
  it.\<close>

fun best_loop ::
  "(int \<Rightarrow> bool) \<Rightarrow> 'a comparator option \<Rightarrow> int \<Rightarrow> nat \<Rightarrow> 'a ptr \<Rightarrow> 'a list_obj \<Rightarrow> 'a ptr \<times> 'a list_obj" where
  "best_loop better cmp i 0 best lst = (best, lst)"
| "best_loop better cmp i (Suc n) best lst =
     (case list_get lst i of (current, lst) \<Rightarrow>
        best_loop better cmp (i + 1) n
          (case cmp of Some c \<Rightarrow> (if better (c current best) then current else best) | None \<Rightarrow> best) lst)"

definition collections_best ::
  "(int \<Rightarrow> bool) \<Rightarrow> 'a sorter option \<Rightarrow> 'a list_obj \<Rightarrow> 'a ptr \<times> 'a list_obj" where
  "collections_best better self lst =
     (let sz = list_size lst in
      if sz = 0 then (NULL, lst)
      else (case list_get lst 0 of (best, lst) \<Rightarrow>
              best_loop better (sorter_order self) 1 (nat (sz - 1)) best lst))"

definition collections_max :: "'a sorter option \<Rightarrow> 'a list_obj \<Rightarrow> 'a ptr \<times> 'a list_obj" where
  "collections_max = collections_best (\<lambda>c. c > 0)"

definition collections_min :: "'a sorter option \<Rightarrow> 'a list_obj \<Rightarrow> 'a ptr \<times> 'a list_obj" where
  "collections_min = collections_best (\<lambda>c. c < 0)"

text \<open>The pairwise scan for both extremes: one comparison inside the pair, two against the best so
  far. A null comparator compares nothing.\<close>

definition min_max_pair ::
  "'a comparator option \<Rightarrow> 'a ptr \<Rightarrow> 'a ptr \<Rightarrow> 'a ptr \<times> 'a ptr \<Rightarrow> 'a ptr \<times> 'a ptr" where
  "min_max_pair cmp first second mm =
     (case cmp of
        None \<Rightarrow> mm
      | Some c \<Rightarrow>
         (let (mn, mx) = mm in
          if c first second > 0
          then (if c second mn < 0 then second else mn, if c first mx > 0 then first else mx)
          else (if c first mn < 0 then first else mn, if c second mx > 0 then second else mx)))"

function min_max_loop ::
  "'a comparator option \<Rightarrow> int \<Rightarrow> int \<Rightarrow> 'a ptr \<times> 'a ptr \<Rightarrow> 'a list_obj \<Rightarrow> ('a ptr \<times> 'a ptr) \<times> 'a list_obj" where
  "min_max_loop cmp i sz mm lst =
     (if i + 1 < sz then
        (let (first, lst) = list_get lst i;
             (second, lst) = list_get lst (i + 1)
         in min_max_loop cmp (i + 2) sz (min_max_pair cmp first second mm) lst)
      else (mm, lst))"
  by pat_completeness auto
termination by (relation "measure (\<lambda>(cmp, i, sz, mm, lst). nat (sz - i))") auto

declare min_max_loop.simps [simp del]

text \<open>The pair of results is (minimum, maximum).\<close>

definition collections_min_max ::
  "'a sorter option \<Rightarrow> 'a list_obj \<Rightarrow> ('a ptr \<times> 'a ptr) \<times> 'a list_obj" where
  "collections_min_max self lst =
     (let sz = list_size lst; cmp = sorter_order self in
      if sz = 0 then ((NULL, NULL), lst)
      else if sz mod 2 = 0 then
        (let (a, lst) = list_get lst 0;
             (b, lst) = list_get lst 1
         in min_max_loop cmp 2 sz
              (if (case cmp of Some c \<Rightarrow> c a b > 0 | None \<Rightarrow> False) then (b, a) else (a, b)) lst)
      else (case list_get lst 0 of (a, lst) \<Rightarrow> min_max_loop cmp 1 sz (a, a) lst))"

section \<open>Copying out and writing back\<close>

lemma list_ready_self:
  "positional l \<Longrightarrow> alloc_fails w = [] \<Longrightarrow> list_ready l w (length (list_items l))"
  by (cases "lo_impl l")
    (auto simp: positional_def list_inv_def list_ready_def list_items_def array_list_ready_def
      array_list_inv_def linked_list_ready_def array_list_items_def)

lemma fetch_all:
  assumes "positional l" "n = length (list_items l)"
  shows "\<exists>l'. fetch_loop list_get 0 n l = (list_items l, l') \<and> positional l' \<and>
    list_items l' = list_items l \<and> (\<forall>w m. list_ready l' w m = list_ready l w m)"
proof -
  obtain xs l' where f: "fetch_loop list_get 0 n l = (xs, l')" by fastforce
  from pl.fetch_loop_all [OF assms(1) f [unfolded assms(2)]] f show ?thesis by auto
qed

lemma list_replace_with_spec:
  assumes "positional l" "list_ready l w n" "length arr \<le> n"
  shows "positional (fst (list_replace_with l arr w)) \<and>
    list_items (fst (list_replace_with l arr w)) = arr"
proof -
  have c: "positional (list_clear l)" "list_items (list_clear l) = []" "list_ready (list_clear l) w n"
    using pl.clear_inv pl.clear_items pl.clear_ready assms by blast+
  obtain l' w' where r: "store_loop list_insert 0 arr (list_clear l) w = (l', w')" by fastforce
  from pl.store_loop_ready [OF c(1,3), of arr l' w'] c(2) r assms(3) show ?thesis
    by (simp add: list_replace_with_def)
qed

lemma snapshot_spec:
  assumes pos: "positional l" and mem: "alloc_fails w = []" and len: "length (list_items l) \<le> INT_MAX"
    and n: "n = length (list_items l)" "2 \<le> n"
  shows "\<exists>l'. list_snapshot l w = (Some (list_items l), int n, l', w) \<and> positional l' \<and>
    list_items l' = list_items l \<and> list_ready l' w n"
proof -
  obtain l' where f: "fetch_loop list_get 0 n l = (list_items l, l')" "positional l'"
    "list_items l' = list_items l" "\<forall>w m. list_ready l' w m = list_ready l w m"
    using fetch_all [OF pos n(1)] by blast
  have "list_size l = int n" using list_size_positional [OF pos] n by simp
  moreover obtain buf where "malloc_ptrs (int n) w = (Some buf, w)"
    using mem ptr_bytes_fits [of "int n"] len n by (simp add: malloc_ptrs_def malloc_no_failures)
  ultimately show ?thesis
    using f n list_ready_self [OF pos mem] by (auto simp: list_snapshot_def Let_def)
qed

lemma snapshot_size:
  assumes "positional l" "list_snapshot l w = (arr, sz, l', w')"
  shows "sz = int (length (list_items l)) \<and> positional l' \<and> list_items l' = list_items l"
proof -
  have n: "list_size l = int (length (list_items l))" using list_size_positional assms(1) by blast
  show ?thesis
    using assms(2) n fetch_all [OF assms(1) refl] assms(1)
    by (auto simp: list_snapshot_def Let_def split: if_splits option.splits prod.splits)
qed

lemma rearrange_with_spec:
  assumes pos: "positional l" and mem: "alloc_fails w = []" and len: "length (list_items l) \<le> INT_MAX"
    and f: "length (f (list_items l)) = length (list_items l)"
  shows "positional (fst (rearrange_with f l w)) \<and> list_items (fst (rearrange_with f l w)) =
    (if length (list_items l) < 2 then list_items l else f (list_items l))"
proof (cases "length (list_items l) < 2")
  case True
  obtain arr sz l' w' where s: "list_snapshot l w = (arr, sz, l', w')" by (metis prod_cases4)
  with snapshot_size [OF pos s] True show ?thesis by (simp add: rearrange_with_def)
next
  case False
  then obtain l' where l': "list_snapshot l w = (Some (list_items l), int (length (list_items l)), l', w)"
    "positional l'" "list_items l' = list_items l" "list_ready l' w (length (list_items l))"
    using snapshot_spec [OF pos mem len refl] by auto
  with list_replace_with_spec [OF l'(2,4), of "f (list_items l)"] f False show ?thesis
    by (simp add: rearrange_with_def)
qed

lemma fetch_loop_type:
  "fetch_loop list_get i n l = (xs, l') \<Longrightarrow> lo_type l' = lo_type l"
  by (induction n arbitrary: i l xs l') (auto split: prod.splits dest: list_get_type)

lemma store_loop_outside:
  "positional l \<Longrightarrow> list_items l = [] \<Longrightarrow> 0 < i \<Longrightarrow> store_loop list_insert i arr l w = (l, w)"
  by (induction arr arbitrary: i) (simp_all add: list_insert_outside)

section \<open>Sorting\<close>

lemma quick_stack_bytes: "0 \<le> n \<Longrightarrow> n \<le> int INT_MAX \<Longrightarrow>
    unat (4 * word_of_int n * 2 :: 64 word) \<le> PTRDIFF_MAX"
proof -
  assume "0 \<le> n" "n \<le> int INT_MAX"
  moreover have "(4 * word_of_int n * 2 :: 64 word) = word_of_int n * 8" by simp
  ultimately show ?thesis using ptr_bytes_fits [of n] by (simp only: ptr_bytes_def)
qed

lemma sorter_quick_spec:
  assumes pos: "positional l" and mem: "alloc_fails w = []" and len: "length (list_items l) \<le> INT_MAX"
    and s: "so_cmp s = Some cmp" "comparator_order cmp"
  shows "positional (fst (sorter_quick (Some s) l w)) \<and> list_items (fst (sorter_quick (Some s) l w)) =
    (if length (list_items l) < 2 then list_items l else buffer_quicksort cmp (list_items l))"
proof (cases "length (list_items l) < 2")
  case True
  obtain arr sz l' w' where r: "list_snapshot l w = (arr, sz, l', w')" by (metis prod_cases4)
  with snapshot_size [OF pos r] True s show ?thesis by simp
next
  case False
  let ?n = "length (list_items l)"
  obtain l' where l': "list_snapshot l w = (Some (list_items l), int ?n, l', w)"
    "positional l'" "list_items l' = list_items l" "list_ready l' w ?n"
    using snapshot_spec [OF pos mem len refl] False by auto
  have "malloc (unat (4 * word_of_int (int ?n) * 2 :: 64 word)) w = (True, w)"
    using quick_stack_bytes [of "int ?n"] len mem by (intro malloc_no_failures) simp_all
  moreover have "length (buffer_quicksort cmp (list_items l)) = ?n"
    using buffer_quicksort_spec [OF s(2), of "list_items l"] False by simp
  ultimately show ?thesis
    using l' list_replace_with_spec [OF l'(2,4), of "buffer_quicksort cmp (list_items l)"] False s(1)
    by simp
qed

lemma sorter_merge_spec:
  assumes pos: "positional l" and mem: "alloc_fails w = []" and len: "length (list_items l) \<le> INT_MAX"
    and s: "so_cmp s = Some cmp"
  shows "positional (fst (sorter_merge (Some s) l w)) \<and>
    list_items (fst (sorter_merge (Some s) l w)) = halving_sort cmp (list_items l)"
proof -
  let ?xs = "list_items l"
  let ?n = "length ?xs"
  have n: "list_size l = int ?n" using list_size_positional [OF pos] .
  show ?thesis
  proof (cases "?n < 2")
    case True
    then show ?thesis using pos n by (subst halving_sort.simps) simp
  next
    case False
    obtain buf where buf: "malloc_ptrs (int ?n) w = (Some buf, w)"
      using mem ptr_bytes_fits [of "int ?n"] len by (simp add: malloc_ptrs_def malloc_no_failures)
    then have blen: "length buf = ?n" using malloc_ptrs_length [OF buf] by simp
    obtain l' where f: "fetch_loop list_get 0 ?n l = (?xs, l')" "positional l'"
      "list_items l' = ?xs" "\<forall>w m. list_ready l' w m = list_ready l w m"
      using fetch_all [OF pos refl] by blast
    have sorted: "fst (merge_sort_recursive ?xs buf 0 ?n cmp) = halving_sort cmp ?xs"
      using merge_sort_recursive_spec [of 0 ?n ?xs buf cmp] blen by (simp add: patch_def segment_def)
    have "list_ready l' w ?n" using f(4) list_ready_self [OF pos mem] by simp
    from list_replace_with_spec [OF f(2) this, of "halving_sort cmp ?xs"]
    show ?thesis using False n buf f(1) sorted s by (simp add: Let_def)
  qed
qed

section \<open>Shuffling, reversing, swapping\<close>

lemma shuffle_loop_mset:
  "i < length arr \<Longrightarrow> mset (shuffle_loop rand t i arr) = mset arr \<and>
     length (shuffle_loop rand t i arr) = length arr"
proof (induction rand t i arr rule: shuffle_loop.induct)
  case (2 rand t i arr)
  have "rand t mod (Suc i + 1) < Suc i + 1" by (intro mod_less_divisor) simp
  then have j: "rand t mod (Suc i + 1) < length arr" using "2.prems" by linarith
  then show ?case using 2 by simp
qed simp

lemma reverse_loop_spec:
  "i + j = length arr - 1 \<Longrightarrow> i \<le> j + 1 \<Longrightarrow> arr \<noteq> [] \<Longrightarrow>
     length (reverse_loop i j arr) = length arr \<and> (\<forall>m < length arr. reverse_loop i j arr ! m =
       (if i \<le> m \<and> m \<le> j then arr ! (length arr - 1 - m) else arr ! m))"
proof (induction i j arr rule: reverse_loop.induct)
  case (1 i j arr)
  show ?case
  proof (cases "i < j")
    case False
    then have "reverse_loop i j arr = arr" by (subst reverse_loop.simps) simp
    moreover have "length arr - 1 - m = m" if "i \<le> m" "m \<le> j" for m
      using that False "1.prems" by linarith
    ultimately show ?thesis by simp
  next
    case True
    let ?a = "buffer_swap arr i j"
    have ij: "i < length arr" "j < length arr" using True "1.prems"(1) by linarith+
    have "length (reverse_loop (i + 1) (j - 1) ?a) = length arr \<and>
        (\<forall>m < length arr. reverse_loop (i + 1) (j - 1) ?a ! m =
          (if i + 1 \<le> m \<and> m \<le> j - 1 then ?a ! (length arr - 1 - m) else ?a ! m))"
      using "1.IH" [OF True] "1.prems" True by (simp add: buffer_swap_def)
    moreover have "reverse_loop i j arr = reverse_loop (i + 1) (j - 1) ?a"
      using True by (subst reverse_loop.simps) simp
    moreover have "(if i + 1 \<le> m \<and> m \<le> j - 1 then ?a ! (length arr - 1 - m) else ?a ! m) =
        (if i \<le> m \<and> m \<le> j then arr ! (length arr - 1 - m) else arr ! m)" if m: "m < length arr" for m
    proof -
      have last: "length arr - 1 - i = j" "length arr - 1 - j = i" using "1.prems"(1) True by linarith+
      consider "m = i" | "m = j" "m \<noteq> i" | "i < m" "m < j" | "m < i \<or> j < m" by linarith
      then show ?thesis
      proof cases
        case 3
        then have "length arr - 1 - m \<noteq> i" "length arr - 1 - m \<noteq> j" "length arr - 1 - m < length arr"
          using "1.prems"(1) m by linarith+
        moreover have "i + 1 \<le> m" "m \<le> j - 1" using 3 by linarith+
        ultimately show ?thesis using 3 ij m by (simp add: buffer_swap_nth)
      next
        case 4
        then show ?thesis using ij m True by (auto simp: buffer_swap_nth)
      qed (use True ij m last in \<open>auto simp: buffer_swap_nth\<close>)
    qed
    ultimately show ?thesis by simp
  qed
qed

lemma reverse_loop_rev: "reverse_loop 0 (length arr - Suc 0) arr = rev arr"
proof (cases "arr = []")
  case True
  then show ?thesis by (subst reverse_loop.simps) simp
next
  case False
  with reverse_loop_spec [of 0 "length arr - Suc 0" arr] show ?thesis
    by (intro nth_equalityI) (auto simp: rev_nth)
qed

lemma collections_reverse_spec:
  assumes "positional l" "alloc_fails w = []" "length (list_items l) \<le> INT_MAX"
  shows "positional (fst (collections_reverse l w)) \<and>
    list_items (fst (collections_reverse l w)) = rev (list_items l)"
proof -
  have "rev (list_items l) = list_items l" if "length (list_items l) < 2"
    using that by (cases "list_items l") (auto simp: less_Suc_eq)
  with rearrange_with_spec [OF assms, of "\<lambda>arr. reverse_loop 0 (length arr - 1) arr"]
  show ?thesis by (simp add: collections_reverse_def reverse_loop_rev)
qed

lemma collections_shuffle_spec:
  assumes "positional l" "alloc_fails w = []" "length (list_items l) \<le> INT_MAX"
  shows "positional (fst (collections_shuffle rand l w)) \<and>
    mset (list_items (fst (collections_shuffle rand l w))) = mset (list_items l)"
proof -
  let ?f = "\<lambda>arr. shuffle_loop rand 0 (length arr - 1) arr"
  have f: "mset (?f (list_items l)) = mset (list_items l) \<and> length (?f (list_items l)) = length (list_items l)"
    using shuffle_loop_mset [of "length (list_items l) - 1" "list_items l" rand 0]
    by (cases "list_items l") simp_all
  with rearrange_with_spec [OF assms, of ?f] show ?thesis
    by (simp add: collections_shuffle_def)
qed

section \<open>Searching and extremes\<close>

lemma search_loop_spec:
  "comparator_order cmp \<Longrightarrow> sorted_by cmp (list_items l) \<Longrightarrow> positional l \<Longrightarrow> 0 \<le> low \<Longrightarrow>
     high < int (length (list_items l)) \<Longrightarrow>
     (\<forall>k < length (list_items l). int k < low \<longrightarrow> cmp (list_items l ! k) item < 0) \<Longrightarrow>
     (\<forall>k < length (list_items l). high < int k \<longrightarrow> cmp (list_items l ! k) item > 0) \<Longrightarrow>
     search_loop (Some cmp) l item low high = (r, l') \<Longrightarrow>
     list_items l' = list_items l \<and>
     (r = -1 \<and> (\<forall>x \<in> set (list_items l). cmp x item \<noteq> 0) \<or>
      0 \<le> r \<and> r < int (length (list_items l)) \<and> cmp (list_items l ! nat r) item = 0)"
proof (induction "nat (high - low + 1)" arbitrary: l low high rule: less_induct)
  case less
  note order = less.prems(1) and run = less.prems(8)
  show ?case
  proof (cases "low \<le> high")
    case False
    then have "r = -1" "l' = l" using run by (simp_all add: search_loop.simps)
    moreover have "cmp (list_items l ! k) item \<noteq> 0" if "k < length (list_items l)" for k
      using less.prems(6,7) that False by (cases "int k < low") force+
    ultimately show ?thesis by (auto simp: in_set_conv_nth)
  next
    case True
    let ?mid = "low + (high - low) div 2"
    have mid: "low \<le> ?mid" "?mid \<le> high" "0 \<le> ?mid" "nat ?mid < length (list_items l)"
      using True less.prems(4,5) by auto
    obtain y l1 where get: "list_get l ?mid = (y, l1)" by fastforce
    from list_get_positional [OF less.prems(3) get] mid
    have l1: "positional l1" "list_items l1 = list_items l" "y = list_items l ! nat ?mid"
      by (simp_all add: nth_ptr_def nat_less_iff)
    have between: "cmp (list_items l ! a) (list_items l ! b) \<le> 0"
      if "a \<le> b" "b < length (list_items l)" for a b
      using that sorted_by_nth [OF less.prems(2), of a b] comparator_order.cmp_refl [OF order]
      by (cases "a = b") auto
    consider "cmp y item = 0" | "cmp y item < 0" | "cmp y item > 0" by linarith
    then show ?thesis
    proof cases
      case 1
      then have "r = ?mid" "l' = l1" using run True get by (simp_all add: search_loop.simps [of _ l])
      with 1 l1 mid show ?thesis by auto
    next
      case 2
      then have rest: "search_loop (Some cmp) l1 item (?mid + 1) high = (r, l')"
        using run True get by (simp add: search_loop.simps [of _ l])
      have "cmp (list_items l1 ! k) item < 0" if "k < length (list_items l1)" "int k < ?mid + 1" for k
        using that between [of k "nat ?mid"] 2 l1 mid
          comparator_order.cmp_le_less_trans [OF order, of "list_items l ! k" y item]
        by (simp add: le_nat_iff)
      from less.hyps [OF _ order _ l1(1) _ _ _ _ rest] less.prems(2,5,7) this mid l1(2)
      show ?thesis by simp
    next
      case 3
      then have rest: "search_loop (Some cmp) l1 item low (?mid - 1) = (r, l')"
        using run True get by (simp add: search_loop.simps [of _ l])
      have "cmp (list_items l1 ! k) item > 0" if "k < length (list_items l1)" "?mid - 1 < int k" for k
      proof -
        have "cmp y (list_items l ! k) \<le> 0"
          using that between [of "nat ?mid" k] l1 mid by (simp add: nat_le_iff)
        moreover have "cmp item y < 0" using 3 comparator_order.cmp_gt_iff [OF order] by blast
        ultimately have "cmp item (list_items l ! k) < 0"
          using comparator_order.cmp_less_le_trans [OF order] by blast
        then show ?thesis using comparator_order.cmp_gt_iff [OF order] l1 by simp
      qed
      from less.hyps [OF _ order _ l1(1) _ _ _ _ rest] less.prems(2,4,5,6) this mid l1(2)
      show ?thesis by simp
    qed
  qed
qed

lemma best_loop_spec:
  assumes trans: "\<And>a b y. better (cmp a b) \<Longrightarrow> \<not> better (cmp y b) \<Longrightarrow> \<not> better (cmp y a)"
    and refl: "\<And>a. \<not> better (cmp a a)"
  shows "positional l \<Longrightarrow> i + n = length (list_items l) \<Longrightarrow> best \<in> set (list_items l) \<Longrightarrow>
     (\<forall>k < i. \<not> better (cmp (list_items l ! k) best)) \<Longrightarrow>
     best_loop better (Some cmp) (int i) n best l = (r, l') \<Longrightarrow>
     r \<in> set (list_items l) \<and> (\<forall>y \<in> set (list_items l). \<not> better (cmp y r)) \<and>
     list_items l' = list_items l \<and> positional l'"
proof (induction n arbitrary: i best l)
  case 0
  then show ?case by (auto simp: in_set_conv_nth)
next
  case (Suc n)
  obtain x l1 where get: "list_get l (int i) = (x, l1)" by fastforce
  have i: "i < length (list_items l)" using Suc.prems(2) by simp
  from list_get_positional [OF Suc.prems(1) get] i
  have l1: "positional l1" "list_items l1 = list_items l" "x = list_items l ! i" by simp_all
  let ?b = "if better (cmp x best) then x else best"
  have rec: "best_loop better (Some cmp) (int (Suc i)) n ?b l1 = (r, l')"
    using Suc.prems(5) get by (simp add: add.commute)
  have bound: "\<forall>k < Suc i. \<not> better (cmp (list_items l1 ! k) ?b)"
  proof (intro allI impI)
    fix k assume "k < Suc i"
    then consider "k < i" | "k = i" by linarith
    then show "\<not> better (cmp (list_items l1 ! k) ?b)"
    proof cases
      case 1
      then have "\<not> better (cmp (list_items l1 ! k) best)" using Suc.prems(4) l1(2) by simp
      then show ?thesis using trans [of x best "list_items l1 ! k"] by (cases "better (cmp x best)") simp_all
    next
      case 2
      then have "list_items l1 ! k = x" using l1 by simp
      then show ?thesis using refl [of x] by (cases "better (cmp x best)") simp_all
    qed
  qed
  have "?b \<in> set (list_items l1)" using Suc.prems(3) l1(2,3) i by simp
  from Suc.IH [OF l1(1) _ this bound rec] Suc.prems(2) l1(2) show ?case by simp
qed

lemma min_max_pair_spec:
  assumes order: "comparator_order cmp"
    and mm: "\<forall>y \<in> Y. cmp (fst mm) y \<le> 0 \<and> cmp y (snd mm) \<le> 0" "fst mm \<in> S" "snd mm \<in> S" "a \<in> S" "b \<in> S"
    and r: "r = min_max_pair (Some cmp) a b mm"
  shows "fst r \<in> S \<and> snd r \<in> S \<and> (\<forall>y \<in> insert a (insert b Y). cmp (fst r) y \<le> 0 \<and> cmp y (snd r) \<le> 0)"
proof -
  obtain mn mx where m: "mm = (mn, mx)" by fastforce
  note trans = comparator_order.cmp_trans [OF order] and total = comparator_order.cmp_total [OF order]
    and refl = comparator_order.cmp_refl [OF order] and gt = comparator_order.cmp_gt_iff [OF order]
  have lower: "(if cmp x mn < 0 then x else mn) \<in> S \<and> (\<forall>y \<in> insert x Y. cmp (if cmp x mn < 0 then x else mn) y \<le> 0)"
    if "x \<in> S" for x
    using that mm m refl trans [of x mn] total [of x mn] gt [of mn x]
    by (cases "cmp x mn < 0") (auto simp: not_less)
  have upper: "(if cmp x mx > 0 then x else mx) \<in> S \<and> (\<forall>y \<in> insert x Y. cmp y (if cmp x mx > 0 then x else mx) \<le> 0)"
    if "x \<in> S" for x
    using that mm m refl trans [of _ mx x] gt [of x mx]
    by (cases "cmp x mx > 0") (auto simp: not_less)
  show ?thesis
  proof (cases "cmp a b > 0")
    case True
    then have ba: "cmp b a \<le> 0" using gt [of a b] by simp
    have r': "r = (if cmp b mn < 0 then b else mn, if cmp a mx > 0 then a else mx)"
      using r m True by (simp add: min_max_pair_def)
    show ?thesis
      using lower [OF mm(5)] upper [OF mm(4)] trans [OF _ ba] trans [OF ba] unfolding r' by auto
  next
    case False
    then have ab: "cmp a b \<le> 0" by simp
    have r': "r = (if cmp a mn < 0 then a else mn, if cmp b mx > 0 then b else mx)"
      using r m False by (simp add: min_max_pair_def)
    show ?thesis
      using lower [OF mm(4)] upper [OF mm(5)] trans [OF _ ab] trans [OF ab] unfolding r' by auto
  qed
qed

lemma min_max_loop_spec:
  assumes order: "comparator_order cmp"
  shows "positional l \<Longrightarrow> i + 2 * n = length (list_items l) \<Longrightarrow>
     fst mm \<in> set (list_items l) \<Longrightarrow> snd mm \<in> set (list_items l) \<Longrightarrow>
     (\<forall>y \<in> set (take i (list_items l)). cmp (fst mm) y \<le> 0 \<and> cmp y (snd mm) \<le> 0) \<Longrightarrow>
     min_max_loop (Some cmp) (int i) (int (length (list_items l))) mm l = (r, l') \<Longrightarrow>
     fst r \<in> set (list_items l) \<and> snd r \<in> set (list_items l) \<and>
     (\<forall>y \<in> set (list_items l). cmp (fst r) y \<le> 0 \<and> cmp y (snd r) \<le> 0) \<and> list_items l' = list_items l"
proof (induction n arbitrary: i mm l)
  case 0
  then have "min_max_loop (Some cmp) (int i) (int (length (list_items l))) mm l = (mm, l)"
    by (subst min_max_loop.simps) simp
  with 0 show ?case by simp
next
  case (Suc n)
  let ?xs = "list_items l" and ?len = "int (length (list_items l))"
  have i: "i < length ?xs" "Suc i < length ?xs" using Suc.prems(2) by simp_all
  obtain a l1 where g1: "list_get l (int i) = (a, l1)" by fastforce
  from list_get_positional [OF Suc.prems(1) g1] i
  have l1: "positional l1" "list_items l1 = ?xs" "a = ?xs ! i" by simp_all
  obtain b l2 where g2: "list_get l1 (int (Suc i)) = (b, l2)" by fastforce
  from list_get_positional [OF l1(1) g2] l1(2) i
  have l2: "positional l2" "list_items l2 = ?xs" "b = ?xs ! Suc i"
    using nth_ptr_nat [of "Suc i" ?xs] by simp_all
  let ?mm = "min_max_pair (Some cmp) a b mm"
  have rest: "min_max_loop (Some cmp) (int (i + 2)) (int (length (list_items l2))) ?mm l2 = (r, l')"
    using Suc.prems(6) g1 g2 i l2(2)
    by (simp add: min_max_loop.simps [of "Some cmp" "int i" ?len mm l] add.commute)
  have ab: "a \<in> set ?xs" "b \<in> set ?xs" using l1(3) l2(3) i by simp_all
  have "take (i + 2) ?xs = take i ?xs @ [a, b]"
    using i l1(3) l2(3) by (simp add: take_Suc_conv_app_nth)
  then have bound: "\<forall>y \<in> set (take (i + 2) (list_items l2)). cmp (fst ?mm) y \<le> 0 \<and> cmp y (snd ?mm) \<le> 0"
    "fst ?mm \<in> set (list_items l2)" "snd ?mm \<in> set (list_items l2)"
    using min_max_pair_spec [OF order Suc.prems(5,3,4) ab refl] l2(2) by auto
  from Suc.IH [OF l2(1) _ bound(2,3,1) rest] Suc.prems(2) l2(2) show ?case by simp
qed

section \<open>Properties\<close>

text \<open>C8: Both sorters sort: after \<open>sort\<close> an array or linked list holds the same elements, in the
  order of the comparator.\<close>

theorem sorter_sort_sorts:
  assumes "positional l" "alloc_fails w = []" "length (list_items l) \<le> INT_MAX"
    and "so_cmp s = Some cmp" "comparator_order cmp"
  shows "sorted_by cmp (list_items (fst (sorter_sort (Some s) l w))) \<and>
    mset (list_items (fst (sorter_sort (Some s) l w))) = mset (list_items l) \<and>
    list_inv (fst (sorter_sort (Some s) l w))"
proof (cases "so_sort s = Merge_Sort")
  case True
  then show ?thesis
    using sorter_merge_spec [OF assms(1-4)]
    by (simp add: sorter_sort_def positional_inv halving_sort_sorted [OF assms(5)]
        del: sorter_merge.simps)
next
  case False
  have "sorted_by cmp (list_items l)" if "length (list_items l) < 2"
    using that by (cases "list_items l") (auto simp: less_Suc_eq)
  then show ?thesis
    using False sorter_quick_spec [OF assms] buffer_quicksort_spec [OF assms(5), of "list_items l"]
    by (auto simp: sorter_sort_def positional_inv simp del: sorter_quick.simps)
qed

definition sample_unsorted :: "address list_obj" where
  "sample_unsorted = \<lparr>lo_impl = Array_Impl \<lparr>al_items = [Some 7, Some 3, Some 5], al_size = 3,
     al_capacity = 3\<rparr>, lo_type = ARRAY_LIST, lo_cmp = None, lo_user_data = None\<rparr>"

lemma sample_unsorted_inv:
  "positional sample_unsorted" "list_items sample_unsorted = [Some 7, Some 3, Some 5]"
  by (simp_all add: sample_unsorted_def positional_def list_inv_def array_list_inv_def INT_MAX_def
      list_items_def array_list_items_def)

theorem sorter_sort_sorts_witness:
  "sorted_by set_default_ptr_compare (list_items (fst (sorter_sort
     (Some \<lparr>so_cmp = Some set_default_ptr_compare, so_sort = Quick_Sort, so_user_data = None\<rparr>)
     sample_unsorted fresh_world))) \<and>
   mset (list_items (fst (sorter_sort
     (Some \<lparr>so_cmp = Some set_default_ptr_compare, so_sort = Quick_Sort, so_user_data = None\<rparr>)
     sample_unsorted fresh_world))) = {#Some 3, Some 5, Some 7#}"
  using sorter_sort_sorts [OF sample_unsorted_inv(1) _ _ _ pc.comparator_order_axioms, of fresh_world
      "\<lparr>so_cmp = Some set_default_ptr_compare, so_sort = Quick_Sort, so_user_data = None\<rparr>"]
  by (simp add: sample_unsorted_inv INT_MAX_def)

text \<open>C9: The merge sorter is stable: elements that compare equal keep their relative order.\<close>

theorem merge_sorter_stable:
  assumes "positional l" "alloc_fails w = []" "length (list_items l) \<le> INT_MAX"
    and "so_cmp s = Some cmp" "comparator_order cmp" "so_sort s = Merge_Sort"
  shows "filter (\<lambda>z. cmp a z = 0) (list_items (fst (sorter_sort (Some s) l w))) =
    filter (\<lambda>z. cmp a z = 0) (list_items l)"
  using sorter_merge_spec [OF assms(1-4)] halving_sort_stable [OF assms(5)] assms(6)
  by (simp add: sorter_sort_def del: sorter_merge.simps)

theorem merge_sorter_stable_witness:
  "filter (\<lambda>z. set_default_ptr_compare (Some 5) z = 0) (list_items (fst (sorter_sort
     (Some \<lparr>so_cmp = Some set_default_ptr_compare, so_sort = Merge_Sort, so_user_data = None\<rparr>)
     sample_unsorted fresh_world))) = [Some 5]"
  using merge_sorter_stable [OF sample_unsorted_inv(1) _ _ _ pc.comparator_order_axioms, of fresh_world
      "\<lparr>so_cmp = Some set_default_ptr_compare, so_sort = Merge_Sort, so_user_data = None\<rparr>" "Some 5"]
  by (simp add: sample_unsorted_inv INT_MAX_def set_default_ptr_compare_def)

text \<open>Writing back drops the error codes. If the allocation for the first node fails while a
  linked list is written back, every later insertion is out of range, and the list that was to be
  sorted ends up empty.\<close>

theorem sort_linked_can_lose_everything:
  assumes "positional l" "lo_type l = LINKED_LIST"
    and "2 \<le> length (list_items l)" "length (list_items l) \<le> INT_MAX"
    and "alloc_fails w = False # False # True # fs"
    and "so_cmp s = Some cmp" "so_sort s = Quick_Sort" "comparator_order cmp"
  shows "list_items (fst (sorter_sort (Some s) l w)) = []"
proof -
  let ?n = "length (list_items l)"
  let ?w = "w\<lparr>alloc_fails := True # fs\<rparr>"
  obtain l' where f: "fetch_loop list_get 0 ?n l = (list_items l, l')" "positional l'"
    "list_items l' = list_items l"
    using fetch_all [OF assms(1) refl] by blast
  have snap: "list_snapshot l w = (Some (list_items l), int ?n, l', w\<lparr>alloc_fails := False # True # fs\<rparr>)"
    using assms(3-5) f(1) list_size_positional [OF assms(1)] ptr_bytes_fits [of "int ?n"]
    by (auto simp: list_snapshot_def malloc_ptrs_def malloc_def Let_def)
  have "malloc (unat (4 * word_of_int (int ?n) * 2 :: 64 word)) (w\<lparr>alloc_fails := False # True # fs\<rparr>)
      = (True, ?w)"
    using quick_stack_bytes [of "int ?n"] assms(4) by (simp add: malloc_def)
  then have run: "fst (sorter_sort (Some s) l w) =
      fst (list_replace_with l' (buffer_quicksort cmp (list_items l)) ?w)"
    using snap assms(3,6,7) by (simp add: sorter_sort_def)
  let ?e = "list_clear l'"
  have e: "positional ?e" "list_items ?e = []"
    using pl.clear_inv [OF f(2)] pl.clear_items [OF f(2)] by simp_all
  have "lo_type l' = LINKED_LIST" using fetch_loop_type [OF f(1)] assms(2) by simp
  then have "lo_type ?e = LINKED_LIST" using list_clear_spec positional_inv [OF f(2)] by metis
  then obtain a where a: "lo_impl ?e = Linked_Impl a" "ll_size a = 0"
    using e by (auto simp: positional_def list_inv_def list_items_def linked_list_inv_size [symmetric]
        split: list_impl.splits simp del: linked_list_inv_size)
  obtain x xs where arr: "buffer_quicksort cmp (list_items l) = x # xs"
    using buffer_quicksort_spec [OF assms(8,3)] assms(3)
    by (cases "buffer_quicksort cmp (list_items l)") auto
  have first: "list_insert ?e x 0 ?w = (OVA_ERROR_MEMORY, ?e, ?w\<lparr>alloc_fails := fs\<rparr>)"
    using a by (simp add: list_insert_def linked_list_insert_def malloc_struct_def malloc_def)
  have rest: "store_loop list_insert 1 xs ?e (?w\<lparr>alloc_fails := fs\<rparr>) = (?e, ?w\<lparr>alloc_fails := fs\<rparr>)"
    by (rule store_loop_outside [OF e]) simp
  show ?thesis unfolding run list_replace_with_def arr using first rest e(2) by simp
qed

theorem sort_linked_can_lose_everything_witness:
  "list_items (fst (sorter_sort
     (Some \<lparr>so_cmp = Some (\<lambda>a b. 0), so_sort = Quick_Sort, so_user_data = None\<rparr>)
     \<lparr>lo_impl = Linked_Impl sample_linked, lo_type = LINKED_LIST, lo_cmp = None, lo_user_data = None\<rparr>
     (fresh_world\<lparr>alloc_fails := [False, False, True]\<rparr>))) = []"
proof -
  let ?l = "\<lparr>lo_impl = Linked_Impl sample_linked, lo_type = LINKED_LIST, lo_cmp = None, lo_user_data = None\<rparr>"
  have order: "comparator_order (\<lambda>a b :: nat ptr. 0)" by unfold_locales simp_all
  have "positional ?l" "length (list_items ?l) = 3"
    using sample_linked_inv by (simp_all add: positional_def list_inv_def list_items_def sample_linked_def)
  with sort_linked_can_lose_everything [of ?l "fresh_world\<lparr>alloc_fails := [False, False, True]\<rparr>" "[]"
      "\<lparr>so_cmp = Some (\<lambda>a b. 0), so_sort = Quick_Sort, so_user_data = None\<rparr>" "\<lambda>a b. 0"] order
  show ?thesis by (simp add: INT_MAX_def)
qed

text \<open>Binary search on a list sorted under the comparator returns the index of an element equal
  to the item, and -1 exactly when there is none.\<close>

theorem binary_search_correct:
  assumes "positional l" "so_cmp s = Some cmp" "comparator_order cmp" "sorted_by cmp (list_items l)"
  shows "(fst (collections_binary_search (Some s) l item) = -1 \<longleftrightarrow>
      (\<forall>x \<in> set (list_items l). cmp x item \<noteq> 0)) \<and>
    (fst (collections_binary_search (Some s) l item) \<noteq> -1 \<longrightarrow>
      0 \<le> fst (collections_binary_search (Some s) l item) \<and>
      cmp (nth_ptr (list_items l) (fst (collections_binary_search (Some s) l item))) item = 0) \<and>
    list_items (snd (collections_binary_search (Some s) l item)) = list_items l"
proof -
  obtain r l' where run: "collections_binary_search (Some s) l item = (r, l')" by fastforce
  then have "search_loop (Some cmp) l item 0 (int (length (list_items l)) - 1) = (r, l')"
    using assms(2) list_size_positional [OF assms(1)]
    by (simp add: collections_binary_search_def sorter_order_def)
  from search_loop_spec [OF assms(3,4,1) _ _ _ _ this] have
    res: "list_items l' = list_items l \<and>
     (r = -1 \<and> (\<forall>x \<in> set (list_items l). cmp x item \<noteq> 0) \<or>
      0 \<le> r \<and> r < int (length (list_items l)) \<and> cmp (list_items l ! nat r) item = 0)" by auto
  moreover have "list_items l ! nat r \<in> set (list_items l)" if "0 \<le> r" "r < int (length (list_items l))"
    using that by (intro nth_mem) linarith
  ultimately show ?thesis using run by (auto simp: nth_ptr_def)
qed

theorem binary_search_correct_witness:
  "\<exists>r. fst (collections_binary_search
      (Some \<lparr>so_cmp = Some set_default_ptr_compare, so_sort = Quick_Sort, so_user_data = None\<rparr>)
      (sample_unsorted\<lparr>lo_impl := Array_Impl \<lparr>al_items = [Some 3, Some 5], al_size = 2,
        al_capacity = 2\<rparr>\<rparr>) (Some 4)) = r \<and> r = -1"
proof -
  let ?l = "sample_unsorted\<lparr>lo_impl := Array_Impl \<lparr>al_items = [Some 3, Some 5], al_size = 2,
        al_capacity = 2\<rparr>\<rparr>"
  have l: "positional ?l" "list_items ?l = [Some 3, Some 5]"
    by (simp_all add: sample_unsorted_def positional_def list_inv_def array_list_inv_def INT_MAX_def
        list_items_def array_list_items_def)
  from binary_search_correct [OF l(1) _ pc.comparator_order_axioms,
      of "\<lparr>so_cmp = Some set_default_ptr_compare, so_sort = Quick_Sort, so_user_data = None\<rparr>" "Some 4"] l(2)
  show ?thesis by (simp add: set_default_ptr_compare_def)
qed

text \<open>\<open>min\<close>, \<open>max\<close> and the pairwise \<open>min_max\<close> return elements of the list that bound it, for
  even and odd lengths, and change nothing.\<close>

theorem extremes_correct:
  assumes "positional l" "so_cmp s = Some cmp" "comparator_order cmp" "list_items l \<noteq> []"
  shows "(\<forall>y \<in> set (list_items l).
      cmp (fst (collections_min (Some s) l)) y \<le> 0 \<and> cmp y (fst (collections_max (Some s) l)) \<le> 0 \<and>
      cmp (fst (fst (collections_min_max (Some s) l))) y \<le> 0 \<and>
      cmp y (snd (fst (collections_min_max (Some s) l))) \<le> 0) \<and>
    {fst (collections_min (Some s) l), fst (collections_max (Some s) l),
     fst (fst (collections_min_max (Some s) l)), snd (fst (collections_min_max (Some s) l))}
      \<subseteq> set (list_items l)"
proof -
  let ?xs = "list_items l"
  let ?n = "length ?xs"
  note gt = comparator_order.cmp_gt_iff [OF assms(3)] and trans = comparator_order.cmp_trans [OF assms(3)]
    and refl = comparator_order.cmp_refl [OF assms(3)]
  have size: "list_size l = int ?n" "0 < ?n" using list_size_positional [OF assms(1)] assms(4) by simp_all
  have order: "sorter_order (Some s) = Some cmp" using assms(2) by (simp add: sorter_order_def)
  obtain a l1 where g: "list_get l 0 = (a, l1)" by fastforce
  from list_get_positional [OF assms(1) g] size
  have l1: "positional l1" "list_items l1 = ?xs" "a = ?xs ! 0" by (simp_all add: nth_ptr_def)
  have best: "fst (collections_best better (Some s) l) \<in> set ?xs \<and>
      (\<forall>y \<in> set ?xs. \<not> better (cmp y (fst (collections_best better (Some s) l))))"
    if "\<And>a b y. better (cmp a b) \<Longrightarrow> \<not> better (cmp y b) \<Longrightarrow> \<not> better (cmp y a)"
      "\<And>a. \<not> better (cmp a a)" for better
  proof -
    obtain r l' where run: "best_loop better (Some cmp) (int 1) (?n - 1) a l1 = (r, l')" by fastforce
    have "nat (int ?n - 1) = ?n - 1" using size by linarith
    then have "fst (collections_best better (Some s) l) = r"
      using run g size order by (simp add: collections_best_def Let_def)
    moreover have "1 + (?n - 1) = length (list_items l1)" "a \<in> set (list_items l1)"
      "\<forall>k < 1. \<not> better (cmp (list_items l1 ! k) a)"
      using size l1 that(2) by simp_all
    from best_loop_spec [OF that l1(1) this run] l1(2)
    have "r \<in> set ?xs" "\<forall>y \<in> set ?xs. \<not> better (cmp y r)" by simp_all
    ultimately show ?thesis by simp
  qed
  have mx: "fst (collections_max (Some s) l) \<in> set ?xs \<and>
      (\<forall>y \<in> set ?xs. cmp y (fst (collections_max (Some s) l)) \<le> 0)"
    using best [of "\<lambda>c. c > 0"] gt trans refl unfolding collections_max_def
    by (metis (no_types, lifting) less_imp_le not_less order_less_irrefl)
  have mn: "fst (collections_min (Some s) l) \<in> set ?xs \<and>
      (\<forall>y \<in> set ?xs. cmp (fst (collections_min (Some s) l)) y \<le> 0)"
    using best [of "\<lambda>c. c < 0"] gt trans refl
      comparator_order.cmp_less_le_trans [OF assms(3)] unfolding collections_min_def
    by (metis (no_types, lifting) less_imp_le not_less order_less_irrefl)
  let ?mm = "fst (collections_min_max (Some s) l)"
  have "fst ?mm \<in> set ?xs \<and> snd ?mm \<in> set ?xs \<and>
      (\<forall>y \<in> set ?xs. cmp (fst ?mm) y \<le> 0 \<and> cmp y (snd ?mm) \<le> 0)"
  proof (cases "even ?n")
    case False
    then obtain m where m: "?n = Suc (2 * m)" by (metis oddE Suc_eq_plus1)
    obtain r l' where run: "min_max_loop (Some cmp) (int 1) (int (length (list_items l1))) (a, a) l1 = (r, l')"
      by fastforce
    have "int ?n mod 2 \<noteq> 0" using False by presburger
    then have "?mm = r"
      using run g size order l1(2) by (simp add: collections_min_max_def Let_def)
    moreover have "take 1 ?xs = [a]" using size l1(3) by (cases ?xs) simp_all
    ultimately show ?thesis
      using min_max_loop_spec [OF assms(3) l1(1) _ _ _ _ run, of m] l1 m refl size by simp
  next
    case True
    then obtain m where m: "?n = 2 + 2 * m" using size(2) by (metis evenE Suc_1 add_diff_inverse_nat
      mult_Suc_right not_less_eq_eq mult_0_right less_numeral_extra(3) not0_implies_Suc)
    obtain b l2 where g2: "list_get l1 1 = (b, l2)" by fastforce
    from list_get_positional [OF l1(1) g2] l1(2) m nth_ptr_nat [of 1 ?xs]
    have l2: "positional l2" "list_items l2 = ?xs" "b = ?xs ! 1" by simp_all
    let ?i = "if cmp a b > 0 then (b, a) else (a, b)"
    obtain r l' where run: "min_max_loop (Some cmp) (int 2) (int (length (list_items l2))) ?i l2 = (r, l')"
      by fastforce
    have "int ?n mod 2 = 0" using True by presburger
    then have "?mm = r"
      using run g g2 size order l2(2) by (simp add: collections_min_max_def Let_def)
    moreover have "take 2 ?xs = [a, b]" using m l1(3) l2(3) by (cases ?xs; cases "tl ?xs") auto
    moreover have "a \<in> set ?xs" "b \<in> set ?xs" using l1(3) l2(3) m by simp_all
    ultimately show ?thesis
      using min_max_loop_spec [OF assms(3) l2(1) _ _ _ _ run, of m] l2 m refl gt [of a b]
      by (auto split: if_splits)
  qed
  with mx mn show ?thesis by simp
qed

theorem extremes_correct_witness:
  "(\<lambda>m. set_default_ptr_compare m (Some 7) \<le> 0 \<and> set_default_ptr_compare m (Some 3) \<le> 0 \<and>
      set_default_ptr_compare m (Some 5) \<le> 0)
     (fst (collections_min
       (Some \<lparr>so_cmp = Some set_default_ptr_compare, so_sort = Quick_Sort, so_user_data = None\<rparr>)
       sample_unsorted))"
  using extremes_correct [OF sample_unsorted_inv(1) _ pc.comparator_order_axioms,
      of "\<lparr>so_cmp = Some set_default_ptr_compare, so_sort = Quick_Sort, so_user_data = None\<rparr>"]
  by (simp add: sample_unsorted_inv)

end
