(* ===== verification/Dict_Iface.thy ===== *)
theory Dict_Iface
  imports Ova_Base
begin

text \<open>
  What the keyed containers of the library promise: the hash map of \<open>src/map/\<close> and the balanced
  trees of \<open>src/tree/\<close> both keep a collection of key/data pairs with pairwise different keys,
  where the container's own comparator or pointer equality says what \<open>different\<close> means. The
  interface states put, get and remove over that collection; its clients' laws follow once.
\<close>

section \<open>Collections of pairs with different keys\<close>

definition keys_apart :: "('k \<Rightarrow> 'k \<Rightarrow> bool) \<Rightarrow> ('k \<times> 'v) multiset \<Rightarrow> bool" where
  "keys_apart same E \<longleftrightarrow> (\<forall>e\<in>#E. \<forall>e'\<in>#E - {#e#}. \<not> same (fst e) (fst e'))"

definition has_key :: "('k \<Rightarrow> 'k \<Rightarrow> bool) \<Rightarrow> 'k \<Rightarrow> ('k \<times> 'v) multiset \<Rightarrow> bool" where
  "has_key same k E \<longleftrightarrow> (\<exists>e\<in>#E. same (fst e) k)"

definition drop_key :: "('k \<Rightarrow> 'k \<Rightarrow> bool) \<Rightarrow> 'k \<Rightarrow> ('k \<times> 'v) multiset \<Rightarrow> ('k \<times> 'v) multiset" where
  "drop_key same k E = filter_mset (\<lambda>e. \<not> same (fst e) k) E"

text \<open>A stored key survives an update: only its data changes.\<close>

definition put_entry :: "('k \<Rightarrow> 'k \<Rightarrow> bool) \<Rightarrow> 'k \<Rightarrow> 'v \<Rightarrow> ('k \<times> 'v) multiset \<Rightarrow> ('k \<times> 'v) multiset" where
  "put_entry same k v E =
     (if has_key same k E then image_mset (\<lambda>e. if same (fst e) k then (fst e, v) else e) E
      else add_mset (k, v) E)"

text \<open>The answer of a lookup: the data of an entry with an equal key, or null.\<close>

definition is_lookup :: "('k \<Rightarrow> 'k \<Rightarrow> bool) \<Rightarrow> 'k \<Rightarrow> ('k \<times> 'a ptr) multiset \<Rightarrow> 'a ptr \<Rightarrow> bool" where
  "is_lookup same k E d \<longleftrightarrow>
     (if has_key same k E then (\<exists>e\<in>#E. same (fst e) k \<and> snd e = d) else d = NULL)"

lemma equiv_laws:
  assumes "equivp same"
  shows "same a a" "same a b \<Longrightarrow> same b a" "same a b \<Longrightarrow> same b c \<Longrightarrow> same a c"
  using assms by (auto elim: equivpE dest: reflpD sympD transpD)

lemma equivpI':
  assumes "\<And>a. same a a" "\<And>a b. same a b \<Longrightarrow> same b a" "\<And>a b c. same a b \<Longrightarrow> same b c \<Longrightarrow> same a c"
  shows "equivp same"
  by (rule equivpI; use assms in \<open>blast intro: reflpI sympI transpI\<close>)

text \<open>Keys a comparator equates.\<close>

abbreviation same_key :: "'a comparator \<Rightarrow> 'a ptr \<Rightarrow> 'a ptr \<Rightarrow> bool" where
  "same_key cmp \<equiv> (\<lambda>a b. cmp a b = 0)"

context comparator_order begin

lemma cmp_equiv: "equivp (same_key cmp)"
proof (rule equivpI')
  show "cmp a c = 0" if "cmp a b = 0" "cmp b c = 0" for a b c
    using that cmp_trans [of a b c] cmp_trans [of c b a] cmp_eq_sym [of a b] cmp_eq_sym [of b c]
      cmp_le_iff [of c a] by force
qed (use cmp_eq_sym in auto)

end

lemma keys_apart_empty [simp]: "keys_apart same {#}"
  by (simp add: keys_apart_def)

lemma keys_apart_add:
  assumes "equivp same"
  shows "keys_apart same (add_mset e E) \<longleftrightarrow> \<not> has_key same (fst e) E \<and> keys_apart same E"
proof
  assume L: "keys_apart same (add_mset e E)"
  then have "\<not> has_key same (fst e) E"
    using equiv_laws(2) [OF assms] by (fastforce simp: keys_apart_def has_key_def)
  moreover have "\<not> same (fst x) (fst y)" if "x \<in># E" "y \<in># E - {#x#}" for x y
  proof -
    have "y \<in># add_mset e E - {#x#}" using that by (cases "x = e") (auto dest: in_diffD)
    then show ?thesis using L that by (auto simp: keys_apart_def)
  qed
  ultimately show "\<not> has_key same (fst e) E \<and> keys_apart same E"
    by (auto simp: keys_apart_def)
next
  assume R: "\<not> has_key same (fst e) E \<and> keys_apart same E"
  show "keys_apart same (add_mset e E)"
    unfolding keys_apart_def
  proof (intro ballI)
    fix x y assume xy: "x \<in># add_mset e E" "y \<in># add_mset e E - {#x#}"
    show "\<not> same (fst x) (fst y)"
    proof (cases "x = e")
      case True
      then show ?thesis using xy R equiv_laws(2) [OF assms] by (auto simp: has_key_def)
    next
      case False
      then have "x \<in># E" "y = e \<or> y \<in># E - {#x#}" using xy by auto
      then show ?thesis using R by (auto simp: has_key_def keys_apart_def)
    qed
  qed
qed

lemma has_key_simps [simp]:
  "\<not> has_key same k {#}"
  "has_key same k (add_mset e E) \<longleftrightarrow> same (fst e) k \<or> has_key same k E"
  "has_key same k (E + F) \<longleftrightarrow> has_key same k E \<or> has_key same k F"
  by (auto simp: has_key_def)

lemma has_key_cong:
  "equivp same \<Longrightarrow> same k k' \<Longrightarrow> has_key same k E \<longleftrightarrow> has_key same k' E"
  unfolding has_key_def by (blast dest: equiv_laws)

lemma has_key_dropD: "has_key same k' (drop_key same k E) \<Longrightarrow> has_key same k' E"
  unfolding has_key_def drop_key_def by (meson mset_subset_eqD multiset_filter_subset)

lemma keys_apart_drop:
  assumes "equivp same" "keys_apart same E"
  shows "keys_apart same (drop_key same k E)"
  using assms(2)
proof (induction E)
  case (add e E)
  then show ?case
    using has_key_dropD [of same "fst e" k E]
    by (auto simp: keys_apart_add [OF assms(1)] drop_key_def)
qed (simp add: drop_key_def)

lemma keys_apart_image:
  assumes "equivp same" "\<And>e. fst (f e) = fst e"
  shows "keys_apart same (image_mset f E) \<longleftrightarrow> keys_apart same E"
proof (induction E)
  case (add e E)
  have "has_key same (fst e) (image_mset f E) \<longleftrightarrow> has_key same (fst e) E"
    by (simp add: has_key_def assms(2))
  then show ?case using add by (simp add: keys_apart_add [OF assms(1)] assms(2))
qed simp

lemma keys_apart_put:
  "equivp same \<Longrightarrow> keys_apart same E \<Longrightarrow> keys_apart same (put_entry same k v E)"
  by (simp add: put_entry_def keys_apart_image keys_apart_add)

text \<open>A search decided in one part of the collection is decided in the whole.\<close>

lemma update_absent:
  "\<not> has_key same k E \<Longrightarrow> image_mset (\<lambda>e. if same (fst e) k then (fst e, v) else e) E = E"
  by (induction E) auto

lemma drop_absent: "\<not> has_key same k E \<Longrightarrow> drop_key same k E = E"
  by (induction E) (auto simp: drop_key_def)

lemma put_entry_part:
  "has_key same k E \<Longrightarrow> \<not> has_key same k F \<Longrightarrow> put_entry same k v (E + F) = put_entry same k v E + F"
  by (simp add: put_entry_def update_absent)

lemma drop_key_part: "\<not> has_key same k F \<Longrightarrow> drop_key same k (E + F) = drop_key same k E + F"
  using drop_absent [of same k F] by (simp add: drop_key_def)

lemma lookup_part: "\<not> has_key same k F \<Longrightarrow> is_lookup same k (E + F) d \<longleftrightarrow> is_lookup same k E d"
  by (auto simp: is_lookup_def) (auto simp: has_key_def)

lemma keys_apart_part: "equivp same \<Longrightarrow> keys_apart same (E + F) \<Longrightarrow> keys_apart same E"
  by (induction F) (auto simp: keys_apart_add)

lemma size_put_entry:
  "size (put_entry same k v E) = size E + (if has_key same k E then 0 else 1)"
  by (simp add: put_entry_def)

lemma has_key_put:
  assumes "equivp same"
  shows "has_key same k' (put_entry same k v E) \<longleftrightarrow> same k k' \<or> has_key same k' E"
proof -
  have "has_key same k' (image_mset (\<lambda>e. if same (fst e) k then (fst e, v) else e) E) \<longleftrightarrow> has_key same k' E"
    by (induction E) auto
  then show ?thesis using has_key_cong [OF assms] by (auto simp: put_entry_def)
qed

lemma has_key_drop:
  assumes "equivp same"
  shows "has_key same k' (drop_key same k E) \<longleftrightarrow> \<not> same k k' \<and> has_key same k' E"
proof (induction E)
  case (add e E)
  have "same (fst e) k \<Longrightarrow> same (fst e) k' \<longleftrightarrow> same k k'" "same (fst e) k' \<Longrightarrow> same k k' \<longleftrightarrow> same (fst e) k"
    by (meson equiv_laws [OF assms])+
  then show ?case using add by (auto simp: drop_key_def)
qed (simp add: drop_key_def)

lemma size_drop_key:
  assumes "equivp same" "keys_apart same E"
  shows "size E = size (drop_key same k E) + (if has_key same k E then 1 else 0)"
  using assms(2)
proof (induction E)
  case (add e E)
  then have E: "\<not> has_key same (fst e) E" "keys_apart same E"
    by (simp_all add: keys_apart_add [OF assms(1)])
  show ?case
  proof (cases "same (fst e) k")
    case True
    then have "\<not> has_key same k E" using E(1) has_key_cong [OF assms(1) True, of E] by simp
    then show ?thesis using True drop_absent [of same k E] by (simp add: drop_key_def)
  next
    case False
    then show ?thesis using add.IH [OF E(2)] by (simp add: drop_key_def)
  qed
qed (simp add: drop_key_def)

text \<open>With different keys there is one answer.\<close>

lemma is_lookup_unique:
  assumes "equivp same" "keys_apart same E" "is_lookup same k E d" "is_lookup same k E d'"
  shows "d = d'"
proof (cases "has_key same k E")
  case True
  then obtain e e' where e: "e \<in># E" "same (fst e) k" "snd e = d" and
    e': "e' \<in># E" "same (fst e') k" "snd e' = d'"
    using assms(3,4) by (auto simp: is_lookup_def)
  have "same (fst e) (fst e')" using e e' by (meson equiv_laws [OF assms(1)])
  then have "e' \<notin># E - {#e#}" using assms(2) e by (auto simp: keys_apart_def)
  moreover have "e' \<in># add_mset e (E - {#e#})" using e e' by simp
  ultimately have "e' = e" by (simp only: set_mset_add_mset_insert insert_iff) simp
  then show ?thesis using e e' by simp
next
  case False
  then show ?thesis using assms by (simp add: is_lookup_def)
qed

lemma is_lookup_put_same:
  assumes "equivp same" "same k k'"
  shows "is_lookup same k' (put_entry same k v E) v"
proof -
  have k': "has_key same k' (put_entry same k v E)"
    using assms by (simp add: has_key_put)
  have "\<exists>e\<in>#put_entry same k v E. same (fst e) k' \<and> snd e = v"
  proof (cases "has_key same k E")
    case True
    then obtain e where e: "e \<in># E" "same (fst e) k" by (auto simp: has_key_def)
    then have "(fst e, v) \<in># put_entry same k v E"
      using True by (force simp: put_entry_def)
    moreover have "same (fst e) k'" using e assms by (meson equiv_laws)
    ultimately show ?thesis by (intro bexI [of _ "(fst e, v)"]) simp_all
  qed (use assms in \<open>simp add: put_entry_def\<close>)
  then show ?thesis using k' by (simp add: is_lookup_def)
qed

lemma is_lookup_put_other:
  assumes "equivp same" "\<not> same k k'" "is_lookup same k' E d"
  shows "is_lookup same k' (put_entry same k v E) d"
proof (cases "has_key same k' E")
  case True
  then obtain e where e: "e \<in># E" "same (fst e) k'" "snd e = d"
    using assms by (auto simp: is_lookup_def)
  moreover have "\<not> same (fst e) k" using e assms by (meson equiv_laws)
  ultimately have "e \<in># put_entry same k v E" by (force simp: put_entry_def)
  then show ?thesis using e True assms by (auto simp: is_lookup_def has_key_put)
next
  case False
  then show ?thesis using assms by (simp add: is_lookup_def has_key_put)
qed

lemma is_lookup_drop_same:
  "equivp same \<Longrightarrow> same k k' \<Longrightarrow> is_lookup same k' (drop_key same k E) NULL"
  by (simp add: is_lookup_def has_key_drop)

lemma is_lookup_drop_other:
  assumes "equivp same" "\<not> same k k'" "is_lookup same k' E d"
  shows "is_lookup same k' (drop_key same k E) d"
proof (cases "has_key same k' E")
  case True
  then obtain e where e: "e \<in># E" "same (fst e) k'" "snd e = d"
    using assms by (auto simp: is_lookup_def)
  moreover have "\<not> same (fst e) k" using e assms by (meson equiv_laws)
  ultimately have "e \<in># drop_key same k E" by (simp add: drop_key_def)
  then show ?thesis using e True assms by (auto simp: is_lookup_def has_key_drop)
qed (use assms in \<open>simp add: is_lookup_def has_key_drop\<close>)

section \<open>The interface\<close>

locale dict_store =
  fixes inv :: "'s \<Rightarrow> bool"
    and same :: "'s \<Rightarrow> 'a ptr \<Rightarrow> 'a ptr \<Rightarrow> bool"
    and entries :: "'s \<Rightarrow> ('a ptr \<times> 'a ptr) multiset"
    and put :: "'s \<Rightarrow> 'a ptr \<Rightarrow> 'a ptr \<Rightarrow> 'w \<Rightarrow> bool \<times> 's \<times> 'w"
    and get :: "'s \<Rightarrow> 'a ptr \<Rightarrow> 'a ptr"
    and remove :: "'s \<Rightarrow> 'a ptr \<Rightarrow> 's"
    and key_ok :: "'a ptr \<Rightarrow> bool"
  assumes same_equiv: "inv s \<Longrightarrow> equivp (same s)"
    and apart: "inv s \<Longrightarrow> keys_apart (same s) (entries s)"
    and put_inv: "inv s \<Longrightarrow> key_ok k \<Longrightarrow> put s k v w = (done, s', w') \<Longrightarrow> inv s' \<and> same s' = same s"
    and put_done: "inv s \<Longrightarrow> key_ok k \<Longrightarrow> put s k v w = (True, s', w') \<Longrightarrow>
      entries s' = put_entry (same s) k v (entries s)"
    and put_fails: "inv s \<Longrightarrow> key_ok k \<Longrightarrow> put s k v w = (False, s', w') \<Longrightarrow>
      entries s' = entries s \<and> \<not> has_key (same s) k (entries s)"
    and get_finds: "inv s \<Longrightarrow> key_ok k \<Longrightarrow> is_lookup (same s) k (entries s) (get s k)"
    and remove_inv: "inv s \<Longrightarrow> key_ok k \<Longrightarrow> inv (remove s k) \<and> same (remove s k) = same s"
    and remove_drops: "inv s \<Longrightarrow> key_ok k \<Longrightarrow> entries (remove s k) = drop_key (same s) k (entries s)"
begin

lemma getI:
  "inv s \<Longrightarrow> key_ok k \<Longrightarrow> is_lookup (same s) k (entries s) d \<Longrightarrow> get s k = d"
  using is_lookup_unique same_equiv apart get_finds by metis

lemma get_put_same:
  assumes "inv s" "key_ok k" "key_ok k'" "put s k v w = (True, s', w')" "same s k k'"
  shows "get s' k' = v"
  using assms put_inv [OF assms(1,2,4)] put_done [OF assms(1,2,4)]
  by (auto intro!: getI is_lookup_put_same same_equiv)

lemma get_put_other:
  assumes "inv s" "key_ok k" "key_ok k'" "put s k v w = (ok, s', w')" "\<not> same s k k'"
  shows "get s' k' = get s k'"
proof (cases ok)
  case True
  then show ?thesis
    using assms put_inv [OF assms(1,2,4)] put_done [of s k v w s' w'] get_finds [OF assms(1,3)]
    by (auto intro!: getI is_lookup_put_other same_equiv)
next
  case False
  then show ?thesis
    using assms put_inv [OF assms(1,2,4)] put_fails [of s k v w s' w'] get_finds [OF assms(1,3)]
    by (auto intro!: getI)
qed

lemma get_remove:
  assumes "inv s" "key_ok k" "key_ok k'"
  shows "get (remove s k) k' = (if same s k k' then NULL else get s k')"
  using assms remove_inv [OF assms(1,2)] remove_drops [OF assms(1,2)] get_finds [OF assms(1,3)]
  by (auto intro!: getI is_lookup_drop_same is_lookup_drop_other same_equiv)

lemma put_size:
  assumes "inv s" "key_ok k" "put s k v w = (True, s', w')"
  shows "size (entries s') = size (entries s) + (if has_key (same s) k (entries s) then 0 else 1)"
  using put_done [OF assms] by (simp add: size_put_entry)

lemma absent_get: "inv s \<Longrightarrow> key_ok k \<Longrightarrow> \<not> has_key (same s) k (entries s) \<Longrightarrow> get s k = NULL"
  by (rule getI) (simp_all add: is_lookup_def)

end

end
