(* ===== verification/Search_Trees.thy ===== *)
theory Search_Trees
  imports Dict_Iface Lists
begin

text \<open>
  The search trees below \<open>src/tree/\<close>: the node type of \<open>tree_internal.h\<close> and the reading
  operations of \<open>tree.c\<close>, which both balanced trees share. A tree is an inductive value; the
  empty tree stands for the null pointer of the AVL tree and for the sentinel of the red-black
  tree. The \<open>parent\<close> pointers only say where a node hangs, which the value already says.
  A tree is read as the list of its key/value pairs from left to right.
\<close>

section \<open>Nodes\<close>

datatype rb_color = RB_RED | RB_BLACK

datatype 'a tree_node =
    Nil_Node
  | Tree_Node "'a tree_node" (node_key: "'a ptr") (node_data: "'a ptr") int rb_color "'a tree_node"

fun node_value :: "'a tree_node \<Rightarrow> 'a ptr" where
  "node_value Nil_Node = NULL"
| "node_value (Tree_Node l k v h c r) = v"

fun left_of :: "'a tree_node \<Rightarrow> 'a tree_node" where
  "left_of Nil_Node = Nil_Node"
| "left_of (Tree_Node l k v h c r) = l"

fun right_of :: "'a tree_node \<Rightarrow> 'a tree_node" where
  "right_of Nil_Node = Nil_Node"
| "right_of (Tree_Node l k v h c r) = r"

fun tree_pairs :: "'a tree_node \<Rightarrow> ('a ptr \<times> 'a ptr) list" where
  "tree_pairs Nil_Node = []"
| "tree_pairs (Tree_Node l k v h c r) = tree_pairs l @ (k, v) # tree_pairs r"

fun tree_depth :: "'a tree_node \<Rightarrow> nat" where
  "tree_depth Nil_Node = 0"
| "tree_depth (Tree_Node l k v h c r) = Suc (max (tree_depth l) (tree_depth r))"

section \<open>Reading a tree\<close>

fun tree_search_node :: "'a comparator \<Rightarrow> 'a ptr \<Rightarrow> 'a tree_node \<Rightarrow> 'a tree_node" where
  "tree_search_node cmp key Nil_Node = Nil_Node"
| "tree_search_node cmp key (Tree_Node l k v h c r) =
     (let c' = cmp key k in
      if c' = 0 then Tree_Node l k v h c r
      else tree_search_node cmp key (if c' < 0 then l else r))"

fun tree_min_node :: "'a tree_node \<Rightarrow> 'a tree_node" where
  "tree_min_node Nil_Node = Nil_Node"
| "tree_min_node (Tree_Node l k v h c r) =
     (if l = Nil_Node then Tree_Node l k v h c r else tree_min_node l)"

fun tree_max_node :: "'a tree_node \<Rightarrow> 'a tree_node" where
  "tree_max_node Nil_Node = Nil_Node"
| "tree_max_node (Tree_Node l k v h c r) =
     (if r = Nil_Node then Tree_Node l k v h c r else tree_max_node r)"

fun pred_loop :: "'a comparator \<Rightarrow> 'a ptr \<Rightarrow> 'a tree_node \<Rightarrow> 'a tree_node \<Rightarrow> 'a tree_node" where
  "pred_loop cmp key Nil_Node best = best"
| "pred_loop cmp key (Tree_Node l k v h c r) best =
     (if cmp key k \<le> 0 then pred_loop cmp key l best
      else pred_loop cmp key r (Tree_Node l k v h c r))"

fun succ_loop :: "'a comparator \<Rightarrow> 'a ptr \<Rightarrow> 'a tree_node \<Rightarrow> 'a tree_node \<Rightarrow> 'a tree_node" where
  "succ_loop cmp key Nil_Node best = best"
| "succ_loop cmp key (Tree_Node l k v h c r) best =
     (if cmp key k \<ge> 0 then succ_loop cmp key r best
      else succ_loop cmp key l (Tree_Node l k v h c r))"

text \<open>The error codes of the output list are dropped, as in the code.\<close>

fun tree_range_query_node ::
  "'a comparator \<Rightarrow> 'a tree_node \<Rightarrow> 'a ptr \<Rightarrow> 'a ptr \<Rightarrow> 'a list_obj \<Rightarrow> 'a world \<Rightarrow> 'a list_obj \<times> 'a world" where
  "tree_range_query_node cmp Nil_Node low high out w = (out, w)"
| "tree_range_query_node cmp (Tree_Node l k v h c r) low high out w =
     (let cmp_low = cmp k low; cmp_high = cmp k high;
          (out, w) = (if cmp_low > 0 then tree_range_query_node cmp l low high out w else (out, w));
          (out, w) = (if cmp_low \<ge> 0 \<and> cmp_high \<le> 0
                      then snd (list_insert out v (list_size out) w) else (out, w))
      in if cmp_high < 0 then tree_range_query_node cmp r low high out w else (out, w))"

text \<open>An in-order walk hands every pair to a callback, which may change a state of its own.\<close>

fun tree_in_order_node :: "('a ptr \<Rightarrow> 'a ptr \<Rightarrow> 's \<Rightarrow> 's) \<Rightarrow> 'a tree_node \<Rightarrow> 's \<Rightarrow> 's" where
  "tree_in_order_node callback Nil_Node s = s"
| "tree_in_order_node callback (Tree_Node l k v h c r) s =
     tree_in_order_node callback r (callback k v (tree_in_order_node callback l s))"

lemma in_order_fold:
  "tree_in_order_node callback t s = fold (\<lambda>(k, v). callback k v) (tree_pairs t) s"
  by (induction t arbitrary: s) simp_all

section \<open>Sorted lists of pairs\<close>

text \<open>The reference semantics: what the operations do to the list of pairs.\<close>

definition keys_sorted :: "'a comparator \<Rightarrow> ('a ptr \<times> 'a ptr) list \<Rightarrow> bool" where
  "keys_sorted cmp ps \<longleftrightarrow> sorted_wrt (\<lambda>p q. cmp (fst p) (fst q) < 0) ps"

fun ins_pair :: "'a comparator \<Rightarrow> 'a ptr \<Rightarrow> 'a ptr \<Rightarrow> ('a ptr \<times> 'a ptr) list \<Rightarrow> ('a ptr \<times> 'a ptr) list" where
  "ins_pair cmp k v [] = [(k, v)]"
| "ins_pair cmp k v ((a, b) # ps) =
     (if cmp k a = 0 then (a, v) # ps
      else if cmp k a < 0 then (k, v) # (a, b) # ps
      else (a, b) # ins_pair cmp k v ps)"

fun del_pair :: "'a comparator \<Rightarrow> 'a ptr \<Rightarrow> ('a ptr \<times> 'a ptr) list \<Rightarrow> ('a ptr \<times> 'a ptr) list" where
  "del_pair cmp k [] = []"
| "del_pair cmp k ((a, b) # ps) = (if cmp k a = 0 then ps else (a, b) # del_pair cmp k ps)"

lemma keys_sorted_simps [simp]:
  "keys_sorted cmp []"
  "keys_sorted cmp (p # ps) \<longleftrightarrow> (\<forall>q\<in>set ps. cmp (fst p) (fst q) < 0) \<and> keys_sorted cmp ps"
  "keys_sorted cmp (ps @ qs) \<longleftrightarrow>
     keys_sorted cmp ps \<and> keys_sorted cmp qs \<and> (\<forall>p\<in>set ps. \<forall>q\<in>set qs. cmp (fst p) (fst q) < 0)"
  by (auto simp: keys_sorted_def sorted_wrt_append)

context comparator_order begin

lemma cmp_less_trans: "cmp a b < 0 \<Longrightarrow> cmp b c < 0 \<Longrightarrow> cmp a c < 0"
  using cmp_less_le_trans [of a b c] by simp

lemma cmp_eq_less: "cmp a b = 0 \<Longrightarrow> cmp b c < 0 \<Longrightarrow> cmp a c < 0"
  using cmp_le_less_trans [of a b c] by simp

lemma cmp_less_eq: "cmp a b < 0 \<Longrightarrow> cmp b c = 0 \<Longrightarrow> cmp a c < 0"
  using cmp_less_le_trans [of a b c] by simp

lemma cmp_less_sym: "cmp a b < 0 \<longleftrightarrow> cmp b a > 0"
  using cmp_gt_iff [of b a] by simp

lemma cmp_pos_trans: "cmp a b > 0 \<Longrightarrow> cmp b c > 0 \<Longrightarrow> cmp a c > 0"
  using cmp_less_trans [of c b a] by (simp add: cmp_less_sym)

text \<open>Where an update lands in a sorted list.\<close>

lemma ins_pair_left:
  "keys_sorted cmp (ps @ (a, b) # qs) \<Longrightarrow> cmp k a < 0 \<Longrightarrow>
     ins_pair cmp k v (ps @ (a, b) # qs) = ins_pair cmp k v ps @ (a, b) # qs"
  by (induction ps) auto

lemma ins_pair_right:
  "keys_sorted cmp (ps @ (a, b) # qs) \<Longrightarrow> cmp k a > 0 \<Longrightarrow>
     ins_pair cmp k v (ps @ (a, b) # qs) = ps @ (a, b) # ins_pair cmp k v qs"
proof (induction ps)
  case (Cons p ps)
  then have "cmp k (fst p) > 0" using cmp_pos_trans [of k a "fst p"] by (auto simp: cmp_less_sym)
  then show ?case using Cons by (cases p) auto
qed auto

lemma ins_pair_here:
  "keys_sorted cmp (ps @ (a, b) # qs) \<Longrightarrow> cmp k a = 0 \<Longrightarrow>
     ins_pair cmp k v (ps @ (a, b) # qs) = ps @ (a, v) # qs"
proof (induction ps)
  case (Cons p ps)
  then have "cmp k (fst p) > 0"
    using cmp_less_eq [of "fst p" a k] by (auto simp: cmp_less_sym cmp_eq_sym)
  then show ?case using Cons by (cases p) auto
qed auto

lemma del_pair_absent: "(\<forall>p\<in>set ps. cmp k (fst p) \<noteq> 0) \<Longrightarrow> del_pair cmp k ps = ps"
  by (induction ps) auto

lemma del_pair_append:
  "del_pair cmp k (ps @ qs) =
     (if \<exists>p\<in>set ps. cmp k (fst p) = 0 then del_pair cmp k ps @ qs else ps @ del_pair cmp k qs)"
  using del_pair_absent [of _ k] by (induction ps) (auto split: if_splits)

lemma del_pair_left:
  assumes "keys_sorted cmp (ps @ (a, b) # qs)" "cmp k a < 0"
  shows "del_pair cmp k (ps @ (a, b) # qs) = del_pair cmp k ps @ (a, b) # qs"
proof -
  have "cmp k (fst q) < 0" if "q \<in> set qs" for q
    using assms that cmp_less_trans [of k a "fst q"] by auto
  then have "del_pair cmp k qs = qs" by (intro del_pair_absent) force
  then show ?thesis using assms(2) del_pair_absent [of ps k] by (auto simp: del_pair_append)
qed

lemma del_pair_right:
  assumes "keys_sorted cmp (ps @ (a, b) # qs)" "cmp k a > 0"
  shows "del_pair cmp k (ps @ (a, b) # qs) = ps @ (a, b) # del_pair cmp k qs"
proof -
  have "cmp k (fst p) > 0" if "p \<in> set ps" for p
    using assms that cmp_pos_trans [of k a "fst p"] by (auto simp: cmp_less_sym)
  then show ?thesis using assms(2) by (force simp: del_pair_append)
qed

lemma del_pair_here:
  assumes "keys_sorted cmp (ps @ (a, b) # qs)" "cmp k a = 0"
  shows "del_pair cmp k (ps @ (a, b) # qs) = ps @ qs"
proof -
  have "cmp k (fst p) > 0" if "p \<in> set ps" for p
    using assms that cmp_less_eq [of "fst p" a k] by (auto simp: cmp_less_sym cmp_eq_sym)
  then show ?thesis using assms(2) by (force simp: del_pair_append)
qed

lemma ins_pair_set: "q \<in> set (ins_pair cmp k v ps) \<Longrightarrow> fst q = k \<or> fst q \<in> fst ` set ps"
  by (induction ps) (auto split: if_splits)

lemma ins_pair_sorted:
  assumes "keys_sorted cmp ps"
  shows "keys_sorted cmp (ins_pair cmp k v ps)"
  using assms
proof (induction ps)
  case (Cons p ps)
  obtain a b where p: "p = (a, b)" by (cases p)
  consider "cmp k a = 0" | "cmp k a < 0" | "cmp k a > 0" by linarith
  then show ?case
  proof cases
    case 3
    have "cmp a (fst q) < 0" if "q \<in> set (ins_pair cmp k v ps)" for q
      using ins_pair_set [OF that] Cons.prems 3 p by (auto simp: cmp_less_sym)
    then show ?thesis using Cons 3 p by auto
  qed (use Cons.prems p cmp_less_trans in auto)
qed simp

lemma del_pair_subset: "set (del_pair cmp k ps) \<subseteq> set ps"
  by (induction ps) (auto split: if_splits)

lemma del_pair_sorted: "keys_sorted cmp ps \<Longrightarrow> keys_sorted cmp (del_pair cmp k ps)"
  using del_pair_subset by (induction ps) (auto, fastforce)

text \<open>The list of pairs as a collection with different keys.\<close>

lemma has_key_mset: "has_key (same_key cmp) k (mset ps) \<longleftrightarrow> (\<exists>p\<in>set ps. cmp (fst p) k = 0)"
  by (simp add: has_key_def)

lemma keys_sorted_apart: "keys_sorted cmp ps \<Longrightarrow> keys_apart (same_key cmp) (mset ps)"
proof (induction ps)
  case (Cons p ps)
  have "cmp (fst q) (fst p) \<noteq> 0" if "q \<in> set ps" for q
    using Cons.prems that cmp_less_sym [of "fst p" "fst q"] by fastforce
  then show ?case using Cons by (auto simp: keys_apart_add [OF cmp_equiv] has_key_mset)
qed simp

lemma ins_pair_mset:
  assumes "keys_sorted cmp ps"
  shows "mset (ins_pair cmp k v ps) = put_entry (same_key cmp) k v (mset ps)"
  using assms
proof (induction ps)
  case (Cons p ps)
  obtain a b where p: "p = (a, b)" by (cases p)
  have later: "\<not> has_key (same_key cmp) k (mset ps)" if "cmp k a \<le> 0"
    unfolding has_key_mset
  proof
    assume "\<exists>q\<in>set ps. cmp (fst q) k = 0"
    then obtain q where "q \<in> set ps" "cmp (fst q) k = 0" by blast
    moreover from this have "cmp k (fst q) < 0"
      using Cons.prems p that cmp_le_less_trans [of k a "fst q"] by auto
    ultimately show False by (simp add: cmp_less_sym)
  qed
  consider "cmp k a = 0" | "cmp k a < 0" | "cmp k a > 0" by linarith
  then show ?case
  proof cases
    case 1
    then show ?thesis
      using later p update_absent [of "same_key cmp" k "mset ps" v]
      by (simp add: put_entry_def cmp_eq_sym [of a k])
  next
    case 2
    then show ?thesis using later p by (simp add: put_entry_def cmp_eq_sym [of a k])
  next
    case 3
    then show ?thesis using Cons p by (auto simp: put_entry_def cmp_eq_sym [of a k])
  qed
qed (simp add: put_entry_def)

lemma del_pair_mset:
  assumes "keys_sorted cmp ps"
  shows "mset (del_pair cmp k ps) = drop_key (same_key cmp) k (mset ps)"
  using assms
proof (induction ps)
  case (Cons p ps)
  obtain a b where p: "p = (a, b)" by (cases p)
  show ?case
  proof (cases "cmp k a = 0")
    case True
    have "\<not> has_key (same_key cmp) a (mset ps)"
      using keys_sorted_apart [OF Cons.prems] p by (simp add: keys_apart_add [OF cmp_equiv])
    then have "\<not> has_key (same_key cmp) k (mset ps)"
      using has_key_cong [OF cmp_equiv True] by blast
    then show ?thesis
      using True p drop_absent [of "same_key cmp" k "mset ps"] by (simp add: drop_key_def cmp_eq_sym [of a k])
  next
    case False
    then show ?thesis using Cons p by (simp add: drop_key_def cmp_eq_sym [of a k])
  qed
qed (simp add: drop_key_def)

lemma size_ins_pair:
  "keys_sorted cmp ps \<Longrightarrow> length (ins_pair cmp k v ps) =
     length ps + (if has_key (same_key cmp) k (mset ps) then 0 else 1)"
  using size_put_entry [of "same_key cmp" k v "mset ps"] ins_pair_mset [of ps k v]
  by (metis size_mset)

end

section \<open>What the reading operations answer\<close>

definition bst :: "'a comparator \<Rightarrow> 'a tree_node \<Rightarrow> bool" where
  "bst cmp t \<longleftrightarrow> keys_sorted cmp (tree_pairs t)"

lemma bst_node:
  "bst cmp (Tree_Node l k v h c r) \<longleftrightarrow> bst cmp l \<and> bst cmp r \<and>
     (\<forall>p\<in>set (tree_pairs l). cmp (fst p) k < 0) \<and> (\<forall>p\<in>set (tree_pairs r). cmp k (fst p) < 0) \<and>
     (\<forall>p\<in>set (tree_pairs l). \<forall>q\<in>set (tree_pairs r). cmp (fst p) (fst q) < 0)"
  by (auto simp: bst_def)

lemma tree_pairs_Nil [simp]: "tree_pairs t = [] \<longleftrightarrow> t = Nil_Node"
  by (cases t) auto

lemma tree_min_first: "t \<noteq> Nil_Node \<Longrightarrow>
    tree_min_node t \<noteq> Nil_Node \<and> hd (tree_pairs t) = (node_key (tree_min_node t), node_data (tree_min_node t))"
  by (induction t rule: tree_min_node.induct) (auto simp: hd_append)

lemma tree_max_last: "t \<noteq> Nil_Node \<Longrightarrow>
    tree_max_node t \<noteq> Nil_Node \<and> last (tree_pairs t) = (node_key (tree_max_node t), node_data (tree_max_node t))"
  by (induction t rule: tree_max_node.induct) (auto simp: last_append)

lemma node_value_data [simp]: "t \<noteq> Nil_Node \<Longrightarrow> node_value t = node_data t"
  by (cases t) auto

context comparator_order begin

lemma tree_search_spec:
  assumes "bst cmp t"
  shows "is_lookup (same_key cmp) k (mset (tree_pairs t)) (node_value (tree_search_node cmp k t))"
    and "tree_search_node cmp k t = Nil_Node \<longleftrightarrow> \<not> has_key (same_key cmp) k (mset (tree_pairs t))"
proof -
  have "is_lookup (same_key cmp) k (mset (tree_pairs t)) (node_value (tree_search_node cmp k t)) \<and>
    (tree_search_node cmp k t = Nil_Node \<longleftrightarrow> \<not> has_key (same_key cmp) k (mset (tree_pairs t)))"
    using assms
  proof (induction t)
    case (Tree_Node l a v h c r)
    note b = Tree_Node.prems [unfolded bst_node]
    have mset: "mset (tree_pairs (Tree_Node l a v h c r)) = mset (tree_pairs l) + (mset (tree_pairs r) + {#(a, v)#})"
      by simp
    consider "cmp k a = 0" | "cmp k a < 0" | "cmp k a > 0" by linarith
    then show ?case
    proof cases
      case 1
      then show ?thesis by (auto simp: is_lookup_def has_key_mset cmp_eq_sym [of a k])
    next
      case 2
      have "cmp (fst q) k \<noteq> 0" if "q \<in> set (tree_pairs r)" for q
        using b that 2 cmp_less_trans [of k a "fst q"] by (auto simp: cmp_less_sym)
      then have "\<not> has_key (same_key cmp) k (mset (tree_pairs r) + {#(a, v)#})"
        using 2 by (auto simp: has_key_def cmp_less_sym)
      note part = lookup_part [OF this, of "mset (tree_pairs l)"] this
      show ?thesis using Tree_Node.IH(1) b 2 part(2) unfolding mset part(1) by simp
    next
      case 3
      have "cmp (fst q) k \<noteq> 0" if "q \<in> set (tree_pairs l)" for q
        using b that 3 cmp_less_trans [of "fst q" a k] by (fastforce simp: cmp_less_sym)
      then have absent: "\<not> has_key (same_key cmp) k (mset (tree_pairs l) + {#(a, v)#})"
        using 3 cmp_eq_sym [of a k] by (auto simp: has_key_def)
      have "mset (tree_pairs (Tree_Node l a v h c r)) = mset (tree_pairs r) + (mset (tree_pairs l) + {#(a, v)#})"
        by simp
      note mset' = this
      note part = lookup_part [OF absent, of "mset (tree_pairs r)"] absent
      show ?thesis using Tree_Node.IH(2) b 3 part(2) unfolding mset' part(1) by simp
    qed
  qed (simp add: is_lookup_def)
  then show "is_lookup (same_key cmp) k (mset (tree_pairs t)) (node_value (tree_search_node cmp k t))"
    "tree_search_node cmp k t = Nil_Node \<longleftrightarrow> \<not> has_key (same_key cmp) k (mset (tree_pairs t))" by simp_all
qed

text \<open>The predecessor is the last pair below the key, the successor the first one above it.\<close>

lemma pred_loop_spec:
  assumes "bst cmp t"
  shows "(filter (\<lambda>p. cmp (fst p) k < 0) (tree_pairs t) = [] \<longrightarrow> pred_loop cmp k t best = best) \<and>
    (filter (\<lambda>p. cmp (fst p) k < 0) (tree_pairs t) \<noteq> [] \<longrightarrow> pred_loop cmp k t best \<noteq> Nil_Node \<and>
      last (filter (\<lambda>p. cmp (fst p) k < 0) (tree_pairs t)) =
        (node_key (pred_loop cmp k t best), node_data (pred_loop cmp k t best)))"
  using assms
proof (induction t arbitrary: best)
  case (Tree_Node l a v h c r)
  note b = Tree_Node.prems [unfolded bst_node]
  show ?case
  proof (cases "cmp k a \<le> 0")
    case True
    have "\<not> cmp (fst q) k < 0" if "q \<in> set (tree_pairs r)" for q
      using b that True cmp_le_less_trans [of k a "fst q"] cmp_gt_iff [of k "fst q"] by fastforce
    then have "filter (\<lambda>p. cmp (fst p) k < 0) (tree_pairs r) = []" by (auto simp: filter_empty_conv)
    moreover have "\<not> cmp a k < 0" using True by (simp add: cmp_less_sym)
    ultimately show ?thesis using Tree_Node.IH(1) b True by simp
  next
    case False
    then have "cmp a k < 0" by (simp add: cmp_less_sym)
    then show ?thesis using Tree_Node.IH(2) [of "Tree_Node l a v h c r"] b False
      by (cases "filter (\<lambda>p. cmp (fst p) k < 0) (tree_pairs r) = []") (simp_all add: last_append)
  qed
qed simp

lemma succ_loop_spec:
  assumes "bst cmp t"
  shows "(filter (\<lambda>p. cmp k (fst p) < 0) (tree_pairs t) = [] \<longrightarrow> succ_loop cmp k t best = best) \<and>
    (filter (\<lambda>p. cmp k (fst p) < 0) (tree_pairs t) \<noteq> [] \<longrightarrow> succ_loop cmp k t best \<noteq> Nil_Node \<and>
      hd (filter (\<lambda>p. cmp k (fst p) < 0) (tree_pairs t)) =
        (node_key (succ_loop cmp k t best), node_data (succ_loop cmp k t best)))"
  using assms
proof (induction t arbitrary: best)
  case (Tree_Node l a v h c r)
  note b = Tree_Node.prems [unfolded bst_node]
  show ?case
  proof (cases "cmp k a \<ge> 0")
    case True
    have "\<not> cmp k (fst q) < 0" if "q \<in> set (tree_pairs l)" for q
      using b that True cmp_less_le_trans [of "fst q" a k] cmp_le_iff [of a k] cmp_gt_iff [of "fst q" k]
      by fastforce
    then have "filter (\<lambda>p. cmp k (fst p) < 0) (tree_pairs l) = []" by (auto simp: filter_empty_conv)
    then show ?thesis using Tree_Node.IH(2) b True by simp
  next
    case False
    then show ?thesis using Tree_Node.IH(1) [of "Tree_Node l a v h c r"] b
      by (cases "filter (\<lambda>p. cmp k (fst p) < 0) (tree_pairs l) = []") (simp_all add: hd_append)
  qed
qed simp

end

text \<open>A range query appends the data of the keys in the range, in order.\<close>

fun range_values :: "'a comparator \<Rightarrow> 'a ptr \<Rightarrow> 'a ptr \<Rightarrow> 'a tree_node \<Rightarrow> 'a ptr list" where
  "range_values cmp low high Nil_Node = []"
| "range_values cmp low high (Tree_Node l k v h c r) =
     (if cmp k low > 0 then range_values cmp low high l else []) @
     (if cmp k low \<ge> 0 \<and> cmp k high \<le> 0 then [v] else []) @
     (if cmp k high < 0 then range_values cmp low high r else [])"

context comparator_order begin

lemma range_values_filter:
  assumes "bst cmp t"
  shows "range_values cmp low high t =
    map snd (filter (\<lambda>p. cmp (fst p) low \<ge> 0 \<and> cmp (fst p) high \<le> 0) (tree_pairs t))"
  using assms
proof (induction t)
  case (Tree_Node l a v h c r)
  note b = Tree_Node.prems [unfolded bst_node]
  let ?in = "\<lambda>p. cmp (fst p) low \<ge> 0 \<and> cmp (fst p) high \<le> 0"
  have L: "filter ?in (tree_pairs l) = []" if "\<not> cmp a low > 0"
  proof -
    have "cmp (fst p) low < 0" if "p \<in> set (tree_pairs l)" for p
      using b that \<open>\<not> cmp a low > 0\<close> cmp_less_le_trans [of "fst p" a low] by auto
    then show ?thesis by (force simp: filter_empty_conv)
  qed
  have R: "filter ?in (tree_pairs r) = []" if "\<not> cmp a high < 0"
  proof -
    have "cmp (fst p) high > 0" if "p \<in> set (tree_pairs r)" for p
    proof -
      have "cmp high a \<le> 0" using \<open>\<not> cmp a high < 0\<close> by (simp add: cmp_le_iff)
      moreover have "cmp a (fst p) < 0" using b that by auto
      ultimately have "cmp high (fst p) < 0" by (rule cmp_le_less_trans)
      then show ?thesis by (simp add: cmp_less_sym)
    qed
    then show ?thesis by (force simp: filter_empty_conv)
  qed
  show ?case using Tree_Node.IH b L R by simp
qed simp

end

text \<open>Appending to the output list with the error codes dropped.\<close>

fun collect_loop :: "'a ptr list \<Rightarrow> 'a list_obj \<Rightarrow> 'a world \<Rightarrow> 'a list_obj \<times> 'a world" where
  "collect_loop [] out w = (out, w)"
| "collect_loop (x # xs) out w =
     (case list_insert out x (list_size out) w of (_, out', w') \<Rightarrow> collect_loop xs out' w')"

lemma collect_loop_append:
  "collect_loop (xs @ ys) out w = (case collect_loop xs out w of (out', w') \<Rightarrow> collect_loop ys out' w')"
  by (induction xs arbitrary: out w) (auto split: prod.splits)

lemma range_query_collect:
  "tree_range_query_node cmp t low high out w = collect_loop (range_values cmp low high t) out w"
  by (induction t arbitrary: out w) (auto simp: Let_def collect_loop_append split: prod.splits)

lemma array_list_ready_more:
  "list_ready l w n \<Longrightarrow> positional l \<Longrightarrow> lo_type l = ARRAY_LIST \<Longrightarrow> alloc_fails w = [] \<Longrightarrow> 0 < n \<Longrightarrow> m \<le> INT_MAX \<Longrightarrow>
     list_ready l w m"
  by (auto simp: positional_def list_inv_def list_ready_def array_list_ready_def split: list_impl.splits)

lemma collect_loop_positional:
  assumes "positional out" "collect_loop xs out w = (out', w')"
  shows "positional out' \<and> lo_type out' = lo_type out"
  using assms
proof (induction xs arbitrary: out w)
  case (Cons x xs)
  obtain e o1 w1 where I: "list_insert out x (list_size out) w = (e, o1, w1)"
    by (cases "list_insert out x (list_size out) w")
  show ?case
    using Cons.IH [of o1 w1] Cons.prems list_insert_last [OF Cons.prems(1) I] I by simp
qed simp

lemma collect_loop_all:
  assumes "positional out" "list_ready out w n" "length (list_items out) + length xs \<le> n"
  shows "\<exists>out' w'. collect_loop xs out w = (out', w') \<and> positional out' \<and> list_items out' = list_items out @ xs"
  using assms
proof (induction xs arbitrary: out w)
  case (Cons x xs)
  obtain o1 w1 where I: "list_insert out x (list_size out) w = (OVA_SUCCESS, o1, w1)" and r: "list_ready o1 w1 n"
    using list_insert_ready [of out w n "list_size out" x] Cons.prems positional_inv list_size_positional
    by fastforce
  note l = list_insert_last [OF Cons.prems(1) I]
  show ?case
    using Cons.IH [of o1 w1] r l Cons.prems(3) I by auto
qed auto

end
