(* ===== verification/Element_Set.thy ===== *)
theory Element_Set
  imports Search_Trees
begin

text \<open>
  What a set of payloads promises, whatever stores it: its elements are different under the
  equality of the set, an addition tells whether it inserted, a removal whether it removed, and a
  snapshot holds every element. The interface is provided by the hash set, the tree set and the
  public set object of \<open>src/set/\<close>; the loops over a snapshot are verified once, inside it.
\<close>

section \<open>Elements modulo an equality\<close>

definition elem_of :: "('e \<Rightarrow> 'e \<Rightarrow> bool) \<Rightarrow> 'e \<Rightarrow> 'e multiset \<Rightarrow> bool" where
  "elem_of same x E \<longleftrightarrow> (\<exists>y\<in>#E. same y x)"

abbreviation elems_apart :: "('e \<Rightarrow> 'e \<Rightarrow> bool) \<Rightarrow> 'e multiset \<Rightarrow> bool" where
  "elems_apart same E \<equiv> keys_apart same (image_mset (\<lambda>x. (x, ())) E)"

lemma elem_of_simps [simp]:
  "\<not> elem_of same x {#}" "elem_of same x (add_mset y E) \<longleftrightarrow> same y x \<or> elem_of same x E"
  by (auto simp: elem_of_def)

lemma elem_of_keys: "elem_of same x (image_mset fst P) \<longleftrightarrow> has_key same x P"
  by (auto simp: elem_of_def has_key_def)

lemma has_key_unit: "has_key same x (image_mset (\<lambda>x. (x, ())) E) \<longleftrightarrow> elem_of same x E"
  by (auto simp: elem_of_def has_key_def)

lemma elems_apart_add:
  "equivp same \<Longrightarrow> elems_apart same (add_mset x E) \<longleftrightarrow> \<not> elem_of same x E \<and> elems_apart same E"
  by (simp add: keys_apart_add has_key_unit)

lemma elems_apart_keys:
  assumes "equivp same"
  shows "elems_apart same (image_mset fst P) \<longleftrightarrow> keys_apart same P"
proof (induction P)
  case (add p P)
  then show ?case
    using elems_apart_add [OF assms, of "fst p" "image_mset fst P"]
    by (simp only: image_mset_add_mset keys_apart_add [OF assms] elem_of_keys)
qed simp

lemma elem_of_cong: "equivp same \<Longrightarrow> same x y \<Longrightarrow> elem_of same x E \<longleftrightarrow> elem_of same y E"
  unfolding elem_of_def by (blast dest: equiv_laws)

lemma elem_of_filter:
  assumes "equivp same"
  shows "elem_of same y (filter_mset (\<lambda>z. \<not> same z x) E) \<longleftrightarrow> \<not> same x y \<and> elem_of same y E"
proof -
  have "same z x \<longleftrightarrow> same x y" if "same z y" for z
    using that by (meson equiv_laws [OF assms])
  then show ?thesis unfolding elem_of_def by auto
qed

section \<open>The interface\<close>

locale element_set =
  fixes inv :: "'s \<Rightarrow> bool"
    and same :: "'s \<Rightarrow> 'a ptr \<Rightarrow> 'a ptr \<Rightarrow> bool"
    and elems :: "'s \<Rightarrow> 'a ptr multiset"
    and add :: "'s \<Rightarrow> 'a ptr \<Rightarrow> 'a world \<Rightarrow> bool \<times> 's \<times> 'a world"
    and has :: "'s \<Rightarrow> 'a ptr \<Rightarrow> bool"
    and remove :: "'s \<Rightarrow> 'a ptr \<Rightarrow> bool \<times> 's"
    and to_list :: "'s \<Rightarrow> 'a world \<Rightarrow> 'a list_obj option \<times> 'a world"
  assumes same_equiv: "inv s \<Longrightarrow> equivp (same s)"
    and nonnull: "inv s \<Longrightarrow> x \<in># elems s \<Longrightarrow> x \<noteq> NULL"
    and apart: "inv s \<Longrightarrow> elems_apart (same s) (elems s)"
    and has_iff: "inv s \<Longrightarrow> has s x \<longleftrightarrow> x \<noteq> NULL \<and> elem_of (same s) x (elems s)"
    and add_step: "inv s \<Longrightarrow> size (elems s) < INT_MAX \<Longrightarrow> add s x w = (r, s', w') \<Longrightarrow>
      inv s' \<and> same s' = same s \<and> elems s' = (if r then add_mset x (elems s) else elems s)"
    and add_ready: "inv s \<Longrightarrow> size (elems s) < INT_MAX \<Longrightarrow> alloc_fails w = [] \<Longrightarrow> add s x w = (r, s', w') \<Longrightarrow>
      (r \<longleftrightarrow> x \<noteq> NULL \<and> \<not> elem_of (same s) x (elems s)) \<and> alloc_fails w' = []"
    and remove_step: "inv s \<Longrightarrow> size (elems s) \<le> INT_MAX \<Longrightarrow> remove s x = (r, s') \<Longrightarrow>
      inv s' \<and> same s' = same s \<and> r = has s x \<and>
      elems s' = filter_mset (\<lambda>y. \<not> (x \<noteq> NULL \<and> same s y x)) (elems s)"
    and to_list_ready: "inv s \<Longrightarrow> size (elems s) \<le> INT_MAX \<Longrightarrow> alloc_fails w = [] \<Longrightarrow>
      \<exists>l w'. to_list s w = (Some l, w') \<and> positional l \<and> mset (list_items l) = elems s \<and> alloc_fails w' = []"
begin

lemma has_null: "inv s \<Longrightarrow> \<not> has s NULL"
  by (simp add: has_iff)

lemma has_cong: "inv s \<Longrightarrow> x \<noteq> NULL \<Longrightarrow> y \<noteq> NULL \<Longrightarrow> same s x y \<Longrightarrow> has s x \<longleftrightarrow> has s y"
  using elem_of_cong [OF same_equiv] by (simp add: has_iff)

lemma add_true:
  assumes "inv s" "size (elems s) < INT_MAX" "add s x w = (True, s', w')"
  shows "x \<noteq> NULL \<and> \<not> has s x"
proof -
  have S: "inv s'" "same s' = same s" "elems s' = add_mset x (elems s)" using add_step [OF assms] by auto
  then have "x \<noteq> NULL" using nonnull [of s' x] by simp
  moreover have "\<not> elem_of (same s) x (elems s)"
    using apart [OF S(1)] S(2,3) elems_apart_add [OF same_equiv [OF assms(1)]] by simp
  ultimately show ?thesis using assms(1) by (simp add: has_iff)
qed

lemma has_add:
  assumes "inv s" "size (elems s) < INT_MAX" "add s x w = (r, s', w')"
  shows "has s' y \<longleftrightarrow> has s y \<or> (r \<and> y \<noteq> NULL \<and> same s x y)"
  using add_step [OF assms] assms(1) by (auto simp: has_iff)

lemma has_add_ready:
  assumes "inv s" "size (elems s) < INT_MAX" "alloc_fails w = []" "add s x w = (r, s', w')"
  shows "has s' y \<longleftrightarrow> has s y \<or> (x \<noteq> NULL \<and> y \<noteq> NULL \<and> same s x y)"
proof -
  have "has s y" if "\<not> r" "x \<noteq> NULL" "y \<noteq> NULL" "same s x y"
    using add_ready [OF assms] that has_cong [OF assms(1), of x y] assms(1) by (simp add: has_iff)
  moreover have "x \<noteq> NULL" if r using add_true [OF assms(1,2), of x w s' w'] assms(4) that by simp
  ultimately show ?thesis using has_add [OF assms(1,2,4)] by auto
qed

lemma has_remove:
  assumes "inv s" "size (elems s) \<le> INT_MAX" "remove s x = (r, s')"
  shows "has s' y \<longleftrightarrow> has s y \<and> \<not> (x \<noteq> NULL \<and> same s x y)"
proof (cases "x = NULL")
  case True
  then have "elems s' = elems s" using remove_step [OF assms] by simp
  then show ?thesis using True remove_step [OF assms] assms(1) by (simp add: has_iff)
next
  case False
  then have "elems s' = filter_mset (\<lambda>y. \<not> same s y x) (elems s)" using remove_step [OF assms] by simp
  then show ?thesis
    using False remove_step [OF assms] assms(1) elem_of_filter [OF same_equiv [OF assms(1)]] by (auto simp: has_iff)
qed

lemma add_size:
  assumes "inv s" "size (elems s) < INT_MAX" "add s x w = (r, s', w')"
  shows "size (elems s') = size (elems s) + (if r then 1 else 0)"
  using add_step [OF assms] by simp

lemma remove_size:
  assumes "inv s" "size (elems s) \<le> INT_MAX" "remove s x = (r, s')"
  shows "size (elems s) = size (elems s') + (if r then 1 else 0)"
proof (cases "x = NULL")
  case True
  then show ?thesis using remove_step [OF assms] has_null [OF assms(1)] by simp
next
  case False
  let ?P = "image_mset (\<lambda>x. (x, ())) (elems s)"
  have "size ?P = size (drop_key (same s) x ?P) + (if has_key (same s) x ?P then 1 else 0)"
    by (rule size_drop_key [OF same_equiv [OF assms(1)] apart [OF assms(1)]])
  moreover have "size (drop_key (same s) x ?P) = size (elems s')"
    using remove_step [OF assms] False by (simp add: drop_key_def filter_mset_image_mset)
  ultimately show ?thesis
    using remove_step [OF assms] False assms(1) by (simp add: has_iff has_key_unit)
qed

text \<open>The set as a sequence of different elements: what every call answers.\<close>

lemma add_list:
  assumes "inv s" "size (elems s) < INT_MAX" "alloc_fails w = []" "add s x w = (r, s', w')" "mset A = elems s"
  shows "r = (x \<noteq> NULL \<and> (\<forall>y\<in>set A. \<not> same s y x)) \<and> mset (if r then A @ [x] else A) = elems s' \<and>
    inv s' \<and> same s' = same s \<and> alloc_fails w' = []"
proof -
  have "elem_of (same s) x (elems s) \<longleftrightarrow> (\<exists>y\<in>set A. same s y x)"
    using assms(5) [symmetric] by (simp add: elem_of_def)
  then show ?thesis using add_step [OF assms(1,2,4)] add_ready [OF assms(1-4)] assms(5) by auto
qed

lemma remove_list:
  assumes "inv s" "size (elems s) \<le> INT_MAX" "remove s x = (r, s')" "mset A = elems s"
  shows "r = (x \<noteq> NULL \<and> (\<exists>y\<in>set A. same s y x)) \<and>
    mset (if x = NULL then A else filter (\<lambda>y. \<not> same s y x) A) = elems s' \<and> inv s' \<and> same s' = same s"
proof -
  have "elem_of (same s) x (elems s) \<longleftrightarrow> (\<exists>y\<in>set A. same s y x)"
    using assms(4) [symmetric] by (simp add: elem_of_def)
  then show ?thesis using remove_step [OF assms(1-3)] assms(1,4) by (auto simp: has_iff)
qed

end

section \<open>Collecting keys\<close>

lemma array_insert_fails: "array_list_insert a x i w = (e, a', w') \<Longrightarrow> alloc_fails w = [] \<Longrightarrow> alloc_fails w' = []"
  by (auto simp: array_list_insert_def array_ensure_capacity_def realloc_ptrs_def malloc_def Let_def
      split: if_splits prod.splits option.splits)

lemma collect_fails:
  assumes "positional out" "lo_type out = ARRAY_LIST" "alloc_fails w = []" "collect_loop xs out w = (out', w')"
  shows "alloc_fails w' = []"
  using assms
proof (induction xs arbitrary: out w)
  case (Cons x xs)
  obtain e o1 w1 where I: "list_insert out x (list_size out) w = (e, o1, w1)"
    by (cases "list_insert out x (list_size out) w")
  obtain a where "lo_impl out = Array_Impl a"
    using Cons.prems(1,2) by (auto simp: positional_def list_inv_def split: list_impl.splits)
  then have "alloc_fails w1 = []"
    using I Cons.prems(3) array_insert_fails by (fastforce simp: list_insert_def split: prod.splits)
  moreover have "positional o1" "lo_type o1 = ARRAY_LIST"
    using list_insert_last [OF Cons.prems(1) I] Cons.prems(2) by simp_all
  ultimately show ?case using Cons.IH [of o1 w1] Cons.prems(4) I by simp
qed simp

lemma snapshot_ready:
  assumes "alloc_fails w = []" "length xs \<le> INT_MAX" "n = int (length xs)"
  shows "\<exists>l out w1 w2. create_list ARRAY_LIST (if n > 0 then n else 4) None w = (Some out, w1) \<and>
    collect_loop xs out w1 = (l, w2) \<and> positional l \<and> lo_type l = ARRAY_LIST \<and> list_items l = xs \<and> alloc_fails w2 = []"
proof -
  let ?n = "if n > 0 then n else 4"
  have n: "0 < ?n" "?n \<le> int INT_MAX" using assms(2,3) by (auto simp: INT_MAX_def)
  obtain out w1 where out: "create_list ARRAY_LIST ?n (None :: 'a comparator option) w = (Some out, w1)" "alloc_fails w1 = []"
    using create_list_no_failures [OF assms(1) n, of ARRAY_LIST None] by auto
  have "is_int ?n" using n by (simp add: is_int_def INT_MAX_def)
  note C = create_list_positional [OF out(1) this]
  have "list_ready out w1 (length xs)"
    by (rule array_list_ready_more [of out w1 "nat ?n"]) (use C out(2) n assms(2) in auto)
  then obtain l w2 where L: "collect_loop xs out w1 = (l, w2)" "positional l" "list_items l = list_items out @ xs"
    using collect_loop_all [of out w1 "length xs" xs] C by auto
  have "alloc_fails w2 = []" using collect_fails [OF _ _ out(2) L(1)] C by simp
  moreover have "lo_type l = ARRAY_LIST" using collect_loop_positional [OF _ L(1)] C by simp
  ultimately show ?thesis using out(1) L C by auto
qed

section \<open>Array lists that can grow\<close>

definition growable :: "'a list_obj \<Rightarrow> bool" where
  "growable l \<longleftrightarrow> positional l \<and> (\<exists>a. lo_impl l = Array_Impl a \<and> 0 < al_capacity a)"

lemma growable_positional: "growable l \<Longrightarrow> positional l"
  by (simp add: growable_def)

lemma growable_type: "growable l \<Longrightarrow> lo_type l = ARRAY_LIST"
  by (auto simp: growable_def positional_def list_inv_def)

lemma growable_size: "growable l \<Longrightarrow> list_size l = int (length (list_items l))"
  by (rule list_size_positional [OF growable_positional])

lemma growable_get: "growable l \<Longrightarrow> list_get l i = (nth_ptr (list_items l) i, l)"
  using list_get_positional [OF growable_positional, of l i "fst (list_get l i)" "snd (list_get l i)"]
  by (auto simp: growable_def list_get_def)

lemma growable_insert:
  assumes "growable l" "alloc_fails w = []" "length (list_items l) < INT_MAX"
  shows "\<exists>l' w'. list_insert l x (list_size l) w = (OVA_SUCCESS, l', w') \<and> growable l' \<and>
    list_items l' = list_items l @ [x] \<and> alloc_fails w' = []"
proof -
  obtain a where a: "lo_impl l = Array_Impl a" "0 < al_capacity a" using assms(1) by (auto simp: growable_def)
  have "list_ready l w (Suc (length (list_items l)))"
    using assms(2,3) a by (simp add: list_ready_def array_list_ready_def)
  then obtain l' w' where I: "list_insert l x (list_size l) w = (OVA_SUCCESS, l', w')"
    using list_insert_ready [of l w "Suc (length (list_items l))" "list_size l" x] growable_positional [OF assms(1)]
      positional_inv growable_size [OF assms(1)] by fastforce
  note L = list_insert_last [OF growable_positional [OF assms(1)] I]
  obtain a' where a': "lo_impl l' = Array_Impl a'" "alloc_fails w' = []"
    using I a(1) array_insert_fails [OF _ assms(2)] by (auto simp: list_insert_def split: prod.splits)
  have "list_items l' \<noteq> []" using L by simp
  then have "0 < al_capacity a'" using L a' by (auto simp: positional_def list_inv_def list_items_def array_list_inv_def array_list_items_def)
  then show ?thesis using I L a' by (auto simp: growable_def)
qed

lemma growable_remove:
  assumes "growable l" "i < length (list_items l)"
  shows "\<exists>l'. list_remove l (int i) = (OVA_SUCCESS, l') \<and> growable l' \<and> list_items l' = remove_at i (list_items l)"
proof -
  obtain l' where R: "list_remove l (int i) = (OVA_SUCCESS, l')" "positional l'" "list_items l' = remove_at i (list_items l)"
    using list_remove_positional [OF growable_positional [OF assms(1)], of "int i"] assms(2) by auto
  obtain a where a: "lo_impl l = Array_Impl a" "0 < al_capacity a" using assms(1) by (auto simp: growable_def)
  then have "\<exists>a'. lo_impl l' = Array_Impl a' \<and> 0 < al_capacity a'"
    using R(1) by (auto simp: list_remove_def array_list_remove_def Let_def split: prod.splits if_splits)
  then show ?thesis using R by (auto simp: growable_def)
qed

lemma create_growable:
  assumes "alloc_fails w = []" "0 < n" "n \<le> int INT_MAX"
  shows "\<exists>l w'. create_list ARRAY_LIST n None w = (Some l, w') \<and> growable l \<and> list_items l = [] \<and> alloc_fails w' = []"
proof -
  obtain l w' where C: "create_list ARRAY_LIST n (None :: 'a comparator option) w = (Some l, w')" "alloc_fails w' = []"
    using create_list_no_failures [OF assms, of ARRAY_LIST None] by auto
  have "is_int n" using assms by (simp add: is_int_def INT_MAX_def)
  note P = create_list_positional [OF C(1) this]
  obtain a where "lo_impl l = Array_Impl a" "0 < al_capacity a"
    using C(1) assms(2) by (auto simp: create_list_def create_array_list_def split: prod.splits bool.splits option.splits if_splits)
  then show ?thesis using C P by (auto simp: growable_def)
qed

text \<open>Appending to such a list with the error codes dropped.\<close>

lemma growable_collect:
  assumes "growable out" "alloc_fails w = []" "length (list_items out) + length xs \<le> INT_MAX"
  shows "\<exists>out' w'. collect_loop xs out w = (out', w') \<and> growable out' \<and> list_items out' = list_items out @ xs \<and>
    alloc_fails w' = []"
  using assms
proof (induction xs arbitrary: out w)
  case (Cons x xs)
  obtain o1 w1 where I: "list_insert out x (list_size out) w = (OVA_SUCCESS, o1, w1)" "growable o1"
    "list_items o1 = list_items out @ [x]" "alloc_fails w1 = []"
    using growable_insert [OF Cons.prems(1,2), of x] Cons.prems(3) by auto
  from Cons.IH [OF I(2,4)] I(1,3) Cons.prems(3) show ?case by auto
qed auto

end
