(* ===== verification/Hash_Map.thy ===== *)
theory Hash_Map
  imports Set_Defaults Dict_Iface
begin

text \<open>
  The chained hash map, \<open>src/map/hash_map.c\<close>, and the five string hash functions of
  \<open>src/map/map.c\<close>. A bucket is the list of its entries, the first one first. What C string a key
  points at is the argument \<open>c_string\<close> of the string hashes; the map itself only calls the hash
  function and the comparator it was given. A mutex, when there is one, is a flag that says
  whether it is held.
\<close>

section \<open>The hash functions\<close>

definition bernstein_hash :: "('a \<Rightarrow> 8 word list) \<Rightarrow> 'a ptr \<Rightarrow> int \<Rightarrow> int" where
  "bernstein_hash c_string key capacity =
     (case key of
        None \<Rightarrow> 0
      | Some p \<Rightarrow>
          (if capacity \<le> 0 then 0
           else hash_index
             (foldl (\<lambda>hash c. (push_bit 5 hash + hash) + ucast c) (5381 :: 64 word) (c_string p)) capacity))"

definition fnv1a_hash :: "('a \<Rightarrow> 8 word list) \<Rightarrow> 'a ptr \<Rightarrow> int \<Rightarrow> int" where
  "fnv1a_hash c_string key capacity =
     (case key of
        None \<Rightarrow> 0
      | Some p \<Rightarrow>
          (if capacity \<le> 0 then 0
           else hash_index
             (foldl (\<lambda>hash c. (hash XOR ucast c) * 16777619) (2166136261 :: 64 word) (c_string p)) capacity))"

definition xor_hash :: "('a \<Rightarrow> 8 word list) \<Rightarrow> 'a ptr \<Rightarrow> int \<Rightarrow> int" where
  "xor_hash c_string key capacity =
     (case key of
        None \<Rightarrow> 0
      | Some p \<Rightarrow>
          (if capacity \<le> 0 then 0
           else hash_index
             (foldl (\<lambda>hash c. hash XOR (push_bit 5 hash + drop_bit 2 hash + ucast c)) (0 :: 64 word)
                (c_string p)) capacity))"

definition rotational_hash :: "('a \<Rightarrow> 8 word list) \<Rightarrow> 'a ptr \<Rightarrow> int \<Rightarrow> int" where
  "rotational_hash c_string key capacity =
     (case key of
        None \<Rightarrow> 0
      | Some p \<Rightarrow>
          (if capacity \<le> 0 then 0
           else hash_index
             (foldl (\<lambda>hash c. push_bit 4 hash XOR drop_bit 28 hash XOR ucast c) (0 :: 64 word)
                (c_string p)) capacity))"

definition additive_hash :: "('a \<Rightarrow> 8 word list) \<Rightarrow> 'a ptr \<Rightarrow> int \<Rightarrow> int" where
  "additive_hash c_string key capacity =
     (case key of
        None \<Rightarrow> 0
      | Some p \<Rightarrow>
          (if capacity \<le> 0 then 0
           else hash_index (foldl (\<lambda>hash c. hash + ucast c) (0 :: 64 word) (c_string p)) capacity))"

definition hash_functions :: "(('a \<Rightarrow> 8 word list) \<Rightarrow> 'a ptr \<Rightarrow> int \<Rightarrow> int) list" where
  "hash_functions = [bernstein_hash, fnv1a_hash, xor_hash, rotational_hash, additive_hash]"

section \<open>State and operations\<close>

definition INITIAL_CAPACITY :: int where "INITIAL_CAPACITY = 20"

record 'a map_entry =
  me_key :: "'a ptr"
  me_data :: "'a ptr"

record 'a hash_map =
  hm_buckets :: "'a map_entry list list"
  hm_capacity :: nat
  hm_size :: nat
  hm_hash :: "'a ptr \<Rightarrow> int \<Rightarrow> int"
  hm_cmp :: "'a comparator option"
  hm_lock :: "bool option"
  hm_user_data :: "'a ptr"

definition lock_map :: "'a hash_map \<Rightarrow> 'a hash_map" where
  "lock_map m = m\<lparr>hm_lock := map_option (\<lambda>_. True) (hm_lock m)\<rparr>"

definition unlock_map :: "'a hash_map \<Rightarrow> 'a hash_map" where
  "unlock_map m = m\<lparr>hm_lock := map_option (\<lambda>_. False) (hm_lock m)\<rparr>"

fun safe_key_equals :: "'a ptr \<Rightarrow> 'a ptr \<Rightarrow> 'a comparator \<Rightarrow> bool" where
  "safe_key_equals None None cmp = True"
| "safe_key_equals None (Some b) cmp = False"
| "safe_key_equals (Some a) None cmp = False"
| "safe_key_equals (Some a) (Some b) cmp = (cmp (Some a) (Some b) = 0)"

definition map_keys_equal :: "'a hash_map \<Rightarrow> 'a ptr \<Rightarrow> 'a ptr \<Rightarrow> bool" where
  "map_keys_equal impl lhs rhs =
     (case hm_cmp impl of None \<Rightarrow> lhs = rhs | Some cmp \<Rightarrow> safe_key_equals lhs rhs cmp)"

definition bucket_of :: "('a ptr \<Rightarrow> int \<Rightarrow> int) \<Rightarrow> 'a ptr \<Rightarrow> nat \<Rightarrow> nat" where
  "bucket_of hash key capacity = (if key = NULL then 0 else nat (hash key (int capacity)))"

definition map_bucket_index :: "'a hash_map \<Rightarrow> 'a ptr \<Rightarrow> nat" where
  "map_bucket_index impl key =
     (if hm_capacity impl = 0 then 0 else bucket_of (hm_hash impl) key (hm_capacity impl))"

text \<open>One turn of the rehashing loop: the entry becomes the first of its new bucket.\<close>

definition rehash_entry ::
  "('a ptr \<Rightarrow> int \<Rightarrow> int) \<Rightarrow> nat \<Rightarrow> 'a map_entry list list \<Rightarrow> 'a map_entry \<Rightarrow> 'a map_entry list list" where
  "rehash_entry hash new_capacity new_buckets node =
     (let i = bucket_of hash (me_key node) new_capacity in
      new_buckets[i := node # new_buckets ! i])"

definition resize_and_rehash :: "'a hash_map \<Rightarrow> 'a world \<Rightarrow> 'a hash_map \<times> 'a world" where
  "resize_and_rehash impl w =
     (let new_capacity = safe_double_capacity (hm_capacity impl) in
      if new_capacity = hm_capacity impl then (impl, w)
      else (case malloc (ptr_bytes (int new_capacity)) w of
          (False, w') \<Rightarrow> (impl, w')
        | (True, w') \<Rightarrow>
            (impl\<lparr>hm_buckets := foldl (\<lambda>nb bucket. foldl (rehash_entry (hm_hash impl) new_capacity) nb bucket)
                      (replicate new_capacity []) (hm_buckets impl),
                  hm_capacity := new_capacity\<rparr>, w')))"

text \<open>Walking a bucket: overwrite the first entry with an equal key, read it, or unlink it.\<close>

fun set_data :: "('a ptr \<Rightarrow> bool) \<Rightarrow> 'a ptr \<Rightarrow> 'a map_entry list \<Rightarrow> 'a map_entry list option" where
  "set_data match data [] = None"
| "set_data match data (node # rest) =
     (if match (me_key node) then Some (node\<lparr>me_data := data\<rparr> # rest)
      else map_option (\<lambda>rest'. node # rest') (set_data match data rest))"

fun find_data :: "('a ptr \<Rightarrow> bool) \<Rightarrow> 'a map_entry list \<Rightarrow> 'a ptr" where
  "find_data match [] = NULL"
| "find_data match (node # rest) = (if match (me_key node) then me_data node else find_data match rest)"

fun unlink_entry :: "('a ptr \<Rightarrow> bool) \<Rightarrow> 'a map_entry list \<Rightarrow> ('a ptr \<times> 'a map_entry list) option" where
  "unlink_entry match [] = None"
| "unlink_entry match (current # rest) =
     (if match (me_key current) then Some (me_data current, rest)
      else map_option (\<lambda>(data, rest'). (data, current # rest')) (unlink_entry match rest))"

fun hash_insert ::
  "'a hash_map option \<Rightarrow> 'a ptr \<Rightarrow> 'a ptr \<Rightarrow> 'a world \<Rightarrow> ova_error_code \<times> 'a hash_map option \<times> 'a world" where
  "hash_insert None key data w = (OVA_ERROR_INVALID_ARG, None, w)"
| "hash_insert (Some impl) key data w =
     (let impl = lock_map impl;
          (impl, w) = (if hm_size impl > hm_capacity impl - hm_capacity impl div 4
                       then resize_and_rehash impl w else (impl, w));
          index = map_bucket_index impl key
      in (case set_data (\<lambda>k. map_keys_equal impl k key) data (hm_buckets impl ! index) of
            Some bucket \<Rightarrow>
              (OVA_SUCCESS,
               Some (unlock_map (impl\<lparr>hm_buckets := (hm_buckets impl)[index := bucket]\<rparr>)), w)
          | None \<Rightarrow>
             (case malloc_struct w of
                (False, w) \<Rightarrow> (OVA_ERROR_MEMORY, Some (unlock_map impl), w)
              | (True, w) \<Rightarrow>
                  (OVA_SUCCESS,
                   Some (unlock_map (impl\<lparr>hm_buckets := (hm_buckets impl)
                             [index := \<lparr>me_key = key, me_data = data\<rparr> # hm_buckets impl ! index],
                           hm_size := hm_size impl + 1\<rparr>)), w))))"

fun put_loop ::
  "('a ptr \<times> 'a ptr) list \<Rightarrow> 'a hash_map option \<Rightarrow> 'a world \<Rightarrow> ova_error_code \<times> 'a hash_map option \<times> 'a world" where
  "put_loop [] m w = (OVA_SUCCESS, m, w)"
| "put_loop ((k, v) # kvs) m w =
     (case hash_insert m k v w of (err, m, w) \<Rightarrow>
        if err \<noteq> OVA_SUCCESS then (err, m, w) else put_loop kvs m w)"

definition hash_put_bulk ::
  "'a hash_map option \<Rightarrow> 'a ptr list option \<Rightarrow> 'a ptr list option \<Rightarrow> int \<Rightarrow> 'a world \<Rightarrow>
     ova_error_code \<times> 'a hash_map option \<times> 'a world" where
  "hash_put_bulk self keys values cnt w =
     (case (self, keys, values) of
        (Some m, Some ks, Some vs) \<Rightarrow>
          (if cnt \<le> 0 then (OVA_ERROR_INVALID_ARG, self, w)
           else put_loop (take (nat cnt) (zip ks vs)) self w)
      | _ \<Rightarrow> (OVA_ERROR_INVALID_ARG, self, w))"

fun hash_get :: "'a hash_map option \<Rightarrow> 'a ptr \<Rightarrow> 'a ptr \<times> 'a hash_map option" where
  "hash_get None key = (NULL, None)"
| "hash_get (Some impl) key =
     (let impl = lock_map impl;
          result = find_data (\<lambda>k. map_keys_equal impl k key) (hm_buckets impl ! map_bucket_index impl key)
      in (result, Some (unlock_map impl)))"

fun hash_remove :: "'a hash_map option \<Rightarrow> 'a ptr \<Rightarrow> 'a ptr \<times> 'a hash_map option" where
  "hash_remove None key = (NULL, None)"
| "hash_remove (Some impl) key =
     (let impl = lock_map impl; index = map_bucket_index impl key in
      (case unlink_entry (\<lambda>k. map_keys_equal impl k key) (hm_buckets impl ! index) of
         Some (data, bucket) \<Rightarrow>
           (data, Some (unlock_map (impl\<lparr>hm_buckets := (hm_buckets impl)[index := bucket],
                                         hm_size := hm_size impl - 1\<rparr>)))
       | None \<Rightarrow> (NULL, Some (unlock_map impl))))"

fun hash_size :: "'a hash_map option \<Rightarrow> int" where
  "hash_size None = 0"
| "hash_size (Some impl) = int (hm_size impl)"

fun hash_capacity :: "'a hash_map option \<Rightarrow> int" where
  "hash_capacity None = 0"
| "hash_capacity (Some impl) = int (hm_capacity impl)"

fun hash_clear :: "'a hash_map option \<Rightarrow> 'a hash_map option" where
  "hash_clear None = None"
| "hash_clear (Some impl) =
     Some (unlock_map ((lock_map impl)\<lparr>hm_buckets := map (\<lambda>_. []) (hm_buckets impl), hm_size := 0\<rparr>))"

text \<open>\<open>mutex_ok\<close> is the verdict of \<open>pthread_mutex_init\<close>.\<close>

definition create_hash_map ::
  "('a \<Rightarrow> 8 word list) \<Rightarrow> bool \<Rightarrow> int \<Rightarrow> ('a ptr \<Rightarrow> int \<Rightarrow> int) option \<Rightarrow> 'a comparator option \<Rightarrow> bool \<Rightarrow>
     'a world \<Rightarrow> 'a hash_map option \<times> 'a world" where
  "create_hash_map c_string mutex_ok capacity hash_func key_compare thread_safe w =
     (let capacity = (if capacity < INITIAL_CAPACITY then INITIAL_CAPACITY else capacity) in
      (case malloc_struct w of
         (False, w) \<Rightarrow> (None, w)
       | (True, w) \<Rightarrow>
        (case malloc_struct w of
           (False, w) \<Rightarrow> (None, w)
         | (True, w) \<Rightarrow>
          (case malloc (ptr_bytes capacity) w of
             (False, w) \<Rightarrow> (None, w)
           | (True, w) \<Rightarrow>
              (let impl = \<lparr>hm_buckets = replicate (nat capacity) [], hm_capacity = nat capacity,
                     hm_size = 0,
                     hm_hash = (case hash_func of Some h \<Rightarrow> h | None \<Rightarrow> bernstein_hash c_string),
                     hm_cmp = key_compare, hm_lock = None, hm_user_data = NULL\<rparr>
               in if thread_safe then
                    (case malloc_struct w of
                       (False, w) \<Rightarrow> (None, w)
                     | (True, w) \<Rightarrow>
                         (if mutex_ok then (Some (impl\<lparr>hm_lock := Some False\<rparr>), w) else (None, w)))
                  else (Some impl, w))))))"

datatype map_type = HASH_TABLE | HASH_MAP

definition create_map ::
  "('a \<Rightarrow> 8 word list) \<Rightarrow> bool \<Rightarrow> map_type \<Rightarrow> int \<Rightarrow> ('a ptr \<Rightarrow> int \<Rightarrow> int) option \<Rightarrow>
     'a comparator option \<Rightarrow> 'a world \<Rightarrow> 'a hash_map option \<times> 'a world" where
  "create_map c_string mutex_ok type capacity hash_func compare w =
     (case type of
        HASH_MAP \<Rightarrow> create_hash_map c_string mutex_ok capacity hash_func compare False w
      | HASH_TABLE \<Rightarrow> create_hash_map c_string mutex_ok capacity hash_func compare True w)"

text \<open>Cloning: every entry, bucket by bucket, is put into a new map of the same capacity.\<close>

fun clone_put_loop ::
  "('a ptr \<Rightarrow> 'a world \<Rightarrow> 'a ptr option \<times> 'a world) \<Rightarrow> 'a map_entry list \<Rightarrow> 'a hash_map option \<Rightarrow>
     'a world \<Rightarrow> bool \<times> 'a hash_map option \<times> 'a world" where
  "clone_put_loop dup [] copy w = (True, copy, w)"
| "clone_put_loop dup (node # rest) copy w =
     (case dup (me_key node) w of
        (None, w) \<Rightarrow> (False, copy, w)
      | (Some key_dup, w) \<Rightarrow>
         (case dup (me_data node) w of
            (None, w) \<Rightarrow> (False, copy, w)
          | (Some val_dup, w) \<Rightarrow>
             (case hash_insert copy key_dup val_dup w of (err, copy, w) \<Rightarrow>
                if err \<noteq> OVA_SUCCESS then (False, copy, w) else clone_put_loop dup rest copy w)))"

definition hash_clone_with ::
  "('a \<Rightarrow> 8 word list) \<Rightarrow> bool \<Rightarrow> ('a ptr \<Rightarrow> 'a world \<Rightarrow> 'a ptr option \<times> 'a world) \<Rightarrow> 'a hash_map \<Rightarrow>
     'a world \<Rightarrow> 'a hash_map option \<times> 'a world" where
  "hash_clone_with c_string mutex_ok dup impl w =
     (case create_hash_map c_string mutex_ok (int (hm_capacity impl)) (Some (hm_hash impl)) (hm_cmp impl)
             (hm_lock impl \<noteq> None) w of
        (None, w) \<Rightarrow> (None, w)
      | (Some copy, w) \<Rightarrow>
         (case clone_put_loop dup (concat (hm_buckets impl)) (Some copy) w of
            (True, Some copy, w) \<Rightarrow> (Some (copy\<lparr>hm_user_data := hm_user_data impl\<rparr>), w)
          | (_, _, w) \<Rightarrow> (None, w)))"

definition hash_clone_shallow ::
  "('a \<Rightarrow> 8 word list) \<Rightarrow> bool \<Rightarrow> 'a hash_map option \<Rightarrow> 'a world \<Rightarrow> 'a hash_map option \<times> 'a world" where
  "hash_clone_shallow c_string mutex_ok self w =
     (case self of
        None \<Rightarrow> (None, w)
      | Some impl \<Rightarrow> hash_clone_with c_string mutex_ok (\<lambda>p w. (Some p, w)) impl w)"

definition hash_clone_deep ::
  "('a \<Rightarrow> 8 word list) \<Rightarrow> bool \<Rightarrow> 'a hash_map option \<Rightarrow> 'a element_copier option \<Rightarrow> 'a world \<Rightarrow>
     'a hash_map option \<times> 'a world" where
  "hash_clone_deep c_string mutex_ok self copier w =
     (case (self, copier) of
        (Some impl, Some f) \<Rightarrow>
          hash_clone_with c_string mutex_ok
            (\<lambda>p w. (case f p w of (NULL, w) \<Rightarrow> (None, w) | (Some q, w) \<Rightarrow> (Some (Some q), w))) impl w
      | _ \<Rightarrow> (None, w))"

section \<open>The abstraction and the invariant\<close>

definition pair_of :: "'a map_entry \<Rightarrow> 'a ptr \<times> 'a ptr" where
  "pair_of e = (me_key e, me_data e)"

lemma pair_of_sel [simp]: "fst (pair_of e) = me_key e" "snd (pair_of e) = me_data e"
  by (simp_all add: pair_of_def)

abbreviation pairs :: "'a map_entry list \<Rightarrow> ('a ptr \<times> 'a ptr) multiset" where
  "pairs es \<equiv> mset (map pair_of es)"

definition hash_entries :: "'a hash_map \<Rightarrow> ('a ptr \<times> 'a ptr) multiset" where
  "hash_entries m = pairs (concat (hm_buckets m))"

text \<open>What the map asks of the hash function its creator gives: an index inside every table, and
  equal keys at the same index.\<close>

definition hash_contract :: "('a ptr \<Rightarrow> int \<Rightarrow> int) \<Rightarrow> ('a ptr \<Rightarrow> 'a ptr \<Rightarrow> bool) \<Rightarrow> bool" where
  "hash_contract hash same \<longleftrightarrow>
     (\<forall>c k. 0 < c \<and> c \<le> int INT_MAX \<and> k \<noteq> NULL \<longrightarrow> 0 \<le> hash k c \<and> hash k c < c) \<and>
     (\<forall>c k k'. 0 < c \<and> c \<le> int INT_MAX \<and> k \<noteq> NULL \<and> same k k' \<longrightarrow> hash k c = hash k' c)"

definition table_ok :: "('a ptr \<Rightarrow> int \<Rightarrow> int) \<Rightarrow> nat \<Rightarrow> 'a map_entry list list \<Rightarrow> bool" where
  "table_ok hash c buckets \<longleftrightarrow>
     length buckets = c \<and> (\<forall>i<c. \<forall>e\<in>set (buckets ! i). bucket_of hash (me_key e) c = i)"

definition hash_core :: "'a hash_map \<Rightarrow> bool" where
  "hash_core m \<longleftrightarrow>
     0 < hm_capacity m \<and> hm_capacity m \<le> INT_MAX \<and>
     equivp (map_keys_equal m) \<and> hash_contract (hm_hash m) (map_keys_equal m) \<and>
     table_ok (hm_hash m) (hm_capacity m) (hm_buckets m) \<and>
     hm_size m = length (concat (hm_buckets m)) \<and>
     keys_apart (map_keys_equal m) (hash_entries m)"

definition hash_inv :: "'a hash_map \<Rightarrow> bool" where
  "hash_inv m \<longleftrightarrow> hash_core m \<and> hm_lock m \<noteq> Some True"

lemma keys_equal_update [simp]:
  "map_keys_equal (m\<lparr>hm_buckets := b\<rparr>) = map_keys_equal m"
  "map_keys_equal (m\<lparr>hm_capacity := c\<rparr>) = map_keys_equal m"
  "map_keys_equal (m\<lparr>hm_size := n\<rparr>) = map_keys_equal m"
  "map_keys_equal (m\<lparr>hm_lock := l\<rparr>) = map_keys_equal m"
  "map_keys_equal (m\<lparr>hm_user_data := u\<rparr>) = map_keys_equal m"
  by (rule ext, rule ext, simp add: map_keys_equal_def)+

lemma keys_equal_null: "map_keys_equal m NULL k \<longleftrightarrow> k = NULL" "map_keys_equal m k NULL \<longleftrightarrow> k = NULL"
  by (cases k; simp add: map_keys_equal_def split: option.splits)+

text \<open>Any comparator of the library's kind makes key equality an equivalence.\<close>

context comparator_order begin

lemma safe_equals_equiv: "equivp (\<lambda>a b. safe_key_equals a b cmp)"
proof (rule equivpI')
  show "safe_key_equals a b cmp \<Longrightarrow> safe_key_equals b a cmp" for a b
    using cmp_eq_sym by (cases a; cases b) auto
  show "safe_key_equals a c cmp" if "safe_key_equals a b cmp" "safe_key_equals b c cmp" for a b c
    using that equiv_laws(3) [OF cmp_equiv, of a b c] by (cases a; cases b; cases c) auto
qed (metis cmp_refl not_Some_eq safe_key_equals.simps(1,4))

end

lemma keys_equal_equiv:
  assumes "\<And>cmp. hm_cmp m = Some cmp \<Longrightarrow> comparator_order cmp"
  shows "equivp (map_keys_equal m)"
proof (cases "hm_cmp m")
  case None
  then have "map_keys_equal m = (=)" by (intro ext) (simp add: map_keys_equal_def)
  then show ?thesis by (simp add: identity_equivp)
next
  case (Some cmp)
  then have "map_keys_equal m = (\<lambda>a b. safe_key_equals a b cmp)"
    by (intro ext) (simp add: map_keys_equal_def)
  then show ?thesis using comparator_order.safe_equals_equiv assms Some by simp
qed

section \<open>Walking one bucket\<close>

lemma set_data_none: "set_data match d es = None \<longleftrightarrow> (\<forall>e\<in>set es. \<not> match (me_key e))"
  by (induction es) auto

lemma has_key_pairs: "has_key same k (pairs es) \<longleftrightarrow> (\<exists>e\<in>set es. same (me_key e) k)"
  by (auto simp: has_key_def pair_of_def)

lemma set_data_keys: "set_data match d es = Some es' \<Longrightarrow> map me_key es' = map me_key es"
  by (induction es arbitrary: es') (auto split: if_splits)

lemma set_data_pairs:
  assumes "equivp same" "keys_apart same (pairs es)" "set_data (\<lambda>k'. same k' k) d es = Some es'"
  shows "pairs es' = put_entry same k d (pairs es) \<and> has_key same k (pairs es)"
  using assms(2,3)
proof (induction es arbitrary: es')
  case (Cons e es)
  have apart: "\<not> has_key same (me_key e) (pairs es)" "keys_apart same (pairs es)"
    using Cons.prems(1) by (simp_all add: keys_apart_add [OF assms(1)])
  show ?case
  proof (cases "same (me_key e) k")
    case True
    then have "\<not> has_key same k (pairs es)"
      using apart(1) has_key_cong [OF assms(1) True, of "pairs es"] by simp
    then show ?thesis
      using True Cons.prems(2) update_absent [of same k "pairs es" d]
      by (auto simp: put_entry_def) (simp_all add: pair_of_def)
  next
    case False
    then obtain es1 where "set_data (\<lambda>k'. same k' k) d es = Some es1" "es' = e # es1"
      using Cons.prems(2) by auto
    then show ?thesis using Cons.IH [OF apart(2)] False by (auto simp: put_entry_def pair_of_def)
  qed
qed simp

lemma find_data_lookup: "is_lookup same k (pairs es) (find_data (\<lambda>k'. same k' k) es)"
  by (induction es) (auto simp: is_lookup_def pair_of_def)

lemma unlink_none: "unlink_entry match es = None \<longleftrightarrow> (\<forall>e\<in>set es. \<not> match (me_key e))"
  by (induction es) auto

lemma unlink_none_find: "unlink_entry match es = None \<Longrightarrow> find_data match es = NULL"
  by (induction es) (auto split: if_splits)

lemma unlink_pairs:
  assumes "equivp same" "keys_apart same (pairs es)" "unlink_entry (\<lambda>k'. same k' k) es = Some (d, es')"
  shows "pairs es' = drop_key same k (pairs es) \<and> has_key same k (pairs es) \<and>
    length es = Suc (length es') \<and> set es' \<subseteq> set es \<and> d = find_data (\<lambda>k'. same k' k) es"
  using assms(2,3)
proof (induction es arbitrary: es')
  case (Cons e es)
  have apart: "\<not> has_key same (me_key e) (pairs es)" "keys_apart same (pairs es)"
    using Cons.prems(1) by (simp_all add: keys_apart_add [OF assms(1)])
  show ?case
  proof (cases "same (me_key e) k")
    case True
    then have "\<not> has_key same k (pairs es)"
      using apart(1) has_key_cong [OF assms(1) True, of "pairs es"] by simp
    then show ?thesis
      using True Cons.prems(2) drop_absent [of same k "pairs es"] by (auto simp: drop_key_def)
  next
    case False
    then obtain es1 where "unlink_entry (\<lambda>k'. same k' k) es = Some (d, es1)" "es' = e # es1"
      using Cons.prems(2) by auto
    then show ?thesis using Cons.IH [OF apart(2)] False by (auto simp: drop_key_def pair_of_def)
  qed
qed simp

section \<open>The table\<close>

text \<open>The entries outside one bucket.\<close>

definition rest_of :: "'a map_entry list list \<Rightarrow> nat \<Rightarrow> 'a map_entry list" where
  "rest_of buckets i = concat (take i buckets) @ concat (drop (Suc i) buckets)"

lemma concat_split:
  "i < length bs \<Longrightarrow> concat bs = concat (take i bs) @ bs ! i @ concat (drop (Suc i) bs)"
  by (metis concat.simps(2) concat_append id_take_nth_drop)

lemma pairs_split:
  "i < length bs \<Longrightarrow> pairs (concat bs) = pairs (bs ! i) + pairs (rest_of bs i)"
  by (simp only: concat_split [of i bs]) (simp add: rest_of_def)

lemma length_split:
  "i < length bs \<Longrightarrow> length (concat bs) = length (bs ! i) + length (rest_of bs i)"
  by (simp only: concat_split [of i bs]) (simp add: rest_of_def)

lemma rest_of_update [simp]: "rest_of (bs[i := b]) i = rest_of bs i"
  by (simp add: rest_of_def)

lemma bucket_of_range:
  "hash_contract hash same \<Longrightarrow> 0 < c \<Longrightarrow> c \<le> INT_MAX \<Longrightarrow> bucket_of hash k c < c"
  by (auto simp: hash_contract_def bucket_of_def nat_less_iff)

lemma bucket_of_cong:
  assumes "hash_contract hash (map_keys_equal m)" "map_keys_equal m k k'" "0 < c" "c \<le> INT_MAX"
  shows "bucket_of hash k c = bucket_of hash k' c"
proof (cases "k = NULL")
  case True
  then have "k' = NULL" using assms(2) by (simp add: keys_equal_null)
  then show ?thesis using True by simp
next
  case False
  then have "k' \<noteq> NULL" using assms(2) keys_equal_null(2) [of m k] by metis
  moreover have "hash k (int c) = hash k' (int c)"
    using assms False by (simp add: hash_contract_def)
  ultimately show ?thesis using False by (simp only: bucket_of_def if_False)
qed

lemma rest_of_in: "e \<in> set (rest_of bs i) \<Longrightarrow> \<exists>j<length bs. j \<noteq> i \<and> e \<in> set (bs ! j)"
proof -
  assume "e \<in> set (rest_of bs i)"
  then consider b where "b \<in> set (take i bs)" "e \<in> set b" | b where "b \<in> set (drop (Suc i) bs)" "e \<in> set b"
    by (auto simp: rest_of_def)
  then show ?thesis
  proof cases
    case 1
    then obtain j where "j < length (take i bs)" "take i bs ! j = b" by (meson in_set_conv_nth)
    then show ?thesis using 1 by (intro exI [of _ j]) auto
  next
    case 2
    then obtain j where "j < length (drop (Suc i) bs)" "drop (Suc i) bs ! j = b" by (meson in_set_conv_nth)
    then show ?thesis using 2 by (intro exI [of _ "Suc i + j"]) auto
  qed
qed

text \<open>Only the bucket the hash function names can hold an entry with the key.\<close>

lemma key_in_its_bucket:
  assumes "hash_contract hash (map_keys_equal m)" "table_ok hash c bs" "0 < c" "c \<le> INT_MAX"
  shows "\<not> has_key (map_keys_equal m) k (pairs (rest_of bs (bucket_of hash k c)))"
proof
  assume "has_key (map_keys_equal m) k (pairs (rest_of bs (bucket_of hash k c)))"
  then obtain e where e: "e \<in> set (rest_of bs (bucket_of hash k c))" "map_keys_equal m (me_key e) k"
    by (auto simp only: has_key_pairs)
  then obtain j where "j < length bs" "j \<noteq> bucket_of hash k c" "e \<in> set (bs ! j)"
    using rest_of_in by blast
  then show False
    using assms(2) bucket_of_cong [OF assms(1) e(2) assms(3,4)] by (auto simp: table_ok_def)
qed

lemma table_ok_update:
  assumes "table_ok hash c bs" "\<And>e. e \<in> set b \<Longrightarrow> bucket_of hash (me_key e) c = i"
  shows "table_ok hash c (bs[i := b])"
  unfolding table_ok_def
proof (intro conjI allI impI ballI)
  show "bucket_of hash (me_key e) c = j" if "j < c" "e \<in> set (bs[i := b] ! j)" for j e
    using assms that by (cases "j = i") (simp_all add: table_ok_def)
qed (use assms(1) in \<open>simp add: table_ok_def\<close>)

section \<open>Growing\<close>

lemma foldl_concat: "foldl (\<lambda>z xs. foldl f z xs) z xss = foldl f z (concat xss)"
  by (induction xss arbitrary: z) auto

lemma rehash_entry_ok:
  assumes "hash_contract hash same" "0 < c" "c \<le> INT_MAX" "table_ok hash c nb"
  shows "table_ok hash c (rehash_entry hash c nb e) \<and>
    pairs (concat (rehash_entry hash c nb e)) = add_mset (pair_of e) (pairs (concat nb)) \<and>
    length (concat (rehash_entry hash c nb e)) = Suc (length (concat nb))"
proof -
  let ?i = "bucket_of hash (me_key e) c"
  have i: "?i < length nb" using bucket_of_range [OF assms(1-3)] assms(4) by (simp add: table_ok_def)
  have "table_ok hash c (nb[?i := e # nb ! ?i])"
    using assms(4) i by (intro table_ok_update) (auto simp: table_ok_def)
  then show ?thesis
    using i pairs_split [of ?i nb] pairs_split [of ?i "nb[?i := e # nb ! ?i]"]
      length_split [of ?i nb] length_split [of ?i "nb[?i := e # nb ! ?i]"]
    by (simp add: rehash_entry_def Let_def)
qed

lemma rehash_all_ok:
  assumes "hash_contract hash same" "0 < c" "c \<le> INT_MAX" "table_ok hash c nb"
  shows "table_ok hash c (foldl (rehash_entry hash c) nb es) \<and>
    pairs (concat (foldl (rehash_entry hash c) nb es)) = pairs es + pairs (concat nb) \<and>
    length (concat (foldl (rehash_entry hash c) nb es)) = length es + length (concat nb)"
  using assms(4)
proof (induction es arbitrary: nb)
  case (Cons e es)
  from rehash_entry_ok [OF assms(1-3) Cons.prems, of e] show ?case
    using Cons.IH [of "rehash_entry hash c nb e"] by simp
qed simp

lemma empty_table_ok: "table_ok hash c (replicate c [])"
  by (simp add: table_ok_def)

lemma concat_replicate_Nil [simp]: "concat (replicate n []) = []"
  by (induction n) simp_all

text \<open>Rehashing moves every entry and keeps the contents.\<close>

lemma resize_core:
  assumes "hash_core m" "resize_and_rehash m w = (m', w')"
  shows "hash_core m' \<and> hash_entries m' = hash_entries m \<and> map_keys_equal m' = map_keys_equal m \<and>
    hm_lock m' = hm_lock m \<and> hm_size m' = hm_size m \<and> hm_capacity m \<le> hm_capacity m' \<and>
    hm_hash m' = hm_hash m \<and> hm_cmp m' = hm_cmp m"
proof (cases "m' = m")
  case True
  then show ?thesis using assms(1) by simp
next
  case False
  let ?c = "safe_double_capacity (hm_capacity m)"
  let ?nb = "foldl (rehash_entry (hm_hash m) ?c) (replicate ?c []) (concat (hm_buckets m))"
  have m': "m' = m\<lparr>hm_buckets := ?nb, hm_capacity := ?c\<rparr>"
    using assms(2) False by (auto simp: resize_and_rehash_def Let_def foldl_concat split: if_splits prod.splits bool.splits)
  have c: "hm_capacity m \<le> ?c" "?c \<le> INT_MAX"
    using assms(1) by (simp_all add: hash_core_def safe_double_ge safe_double_le)
  have nb: "table_ok (hm_hash m) ?c ?nb \<and> pairs (concat ?nb) = pairs (concat (hm_buckets m)) \<and>
      length (concat ?nb) = length (concat (hm_buckets m))"
    using rehash_all_ok [of "hm_hash m" "map_keys_equal m" ?c "replicate ?c []" "concat (hm_buckets m)"]
      assms(1) c by (simp add: hash_core_def empty_table_ok)
  show ?thesis using assms(1) c nb unfolding m' hash_core_def by (simp add: hash_entries_def)
qed

section \<open>What the operations do\<close>

lemma lock_simps [simp]:
  "hash_core (lock_map m) = hash_core m" "hash_core (unlock_map m) = hash_core m"
  "hash_entries (lock_map m) = hash_entries m" "hash_entries (unlock_map m) = hash_entries m"
  "map_keys_equal (lock_map m) = map_keys_equal m" "map_keys_equal (unlock_map m) = map_keys_equal m"
  "hm_lock (unlock_map m) \<noteq> Some True"
  "hm_capacity (unlock_map m) = hm_capacity m" "hm_capacity (lock_map m) = hm_capacity m"
  "hm_size (unlock_map m) = hm_size m" "hm_size (lock_map m) = hm_size m"
  "hm_cmp (unlock_map m) = hm_cmp m" "hm_cmp (lock_map m) = hm_cmp m"
  "hm_hash (unlock_map m) = hm_hash m" "hm_hash (lock_map m) = hm_hash m"
  "hm_buckets (unlock_map m) = hm_buckets m" "hm_buckets (lock_map m) = hm_buckets m"
  "map_bucket_index (lock_map m) = map_bucket_index m"
  by (simp_all add: lock_map_def unlock_map_def hash_core_def hash_entries_def map_bucket_index_def fun_eq_iff)

lemma lock_shape: "hm_lock (unlock_map m) = map_option (\<lambda>_. False) (hm_lock m)"
  "hm_lock (lock_map m) = map_option (\<lambda>_. True) (hm_lock m)"
  by (simp_all add: lock_map_def unlock_map_def)

lemma core_index:
  "hash_core m \<Longrightarrow> map_bucket_index m k = bucket_of (hm_hash m) k (hm_capacity m) \<and>
     map_bucket_index m k < length (hm_buckets m)"
  using bucket_of_range [of "hm_hash m" "map_keys_equal m" "hm_capacity m" k]
  by (auto simp: hash_core_def map_bucket_index_def table_ok_def)

lemma core_split:
  assumes "hash_core m" "i = map_bucket_index m k"
  shows "hash_entries m = pairs (hm_buckets m ! i) + pairs (rest_of (hm_buckets m) i)"
    and "\<not> has_key (map_keys_equal m) k (pairs (rest_of (hm_buckets m) i))"
    and "keys_apart (map_keys_equal m) (pairs (hm_buckets m ! i))"
    and "hm_size m = length (hm_buckets m ! i) + length (rest_of (hm_buckets m) i)"
    and "e \<in> set (hm_buckets m ! i) \<Longrightarrow> bucket_of (hm_hash m) (me_key e) (hm_capacity m) = i"
proof -
  have i: "i < length (hm_buckets m)" "i = bucket_of (hm_hash m) k (hm_capacity m)"
    using core_index [OF assms(1), of k] assms(2) by simp_all
  show entries: "hash_entries m = pairs (hm_buckets m ! i) + pairs (rest_of (hm_buckets m) i)"
    unfolding hash_entries_def by (rule pairs_split [OF i(1)])
  show "\<not> has_key (map_keys_equal m) k (pairs (rest_of (hm_buckets m) i))"
    unfolding i(2) by (rule key_in_its_bucket) (use assms(1) in \<open>simp_all add: hash_core_def\<close>)
  show "keys_apart (map_keys_equal m) (pairs (hm_buckets m ! i))"
    using assms(1) entries by (auto simp: hash_core_def intro: keys_apart_part)
  show "hm_size m = length (hm_buckets m ! i) + length (rest_of (hm_buckets m) i)"
    using assms(1) length_split [OF i(1)] by (simp add: hash_core_def)
  show "e \<in> set (hm_buckets m ! i) \<Longrightarrow> bucket_of (hm_hash m) (me_key e) (hm_capacity m) = i"
    using assms(1) i(1) by (auto simp: hash_core_def table_ok_def)
qed

text \<open>Replacing the bucket of a key keeps the table in order.\<close>

lemma core_replace:
  assumes "hash_core m" "i = map_bucket_index m k"
    and "\<And>e. e \<in> set b \<Longrightarrow> bucket_of (hm_hash m) (me_key e) (hm_capacity m) = i"
    and "n = length b + length (rest_of (hm_buckets m) i)"
    and "keys_apart (map_keys_equal m) (pairs b + pairs (rest_of (hm_buckets m) i))"
  shows "hash_core (m\<lparr>hm_buckets := (hm_buckets m)[i := b], hm_size := n\<rparr>)"
    and "hash_entries (m\<lparr>hm_buckets := (hm_buckets m)[i := b], hm_size := n\<rparr>) =
      pairs b + pairs (rest_of (hm_buckets m) i)"
proof -
  have i: "i < length (hm_buckets m)" using core_index [OF assms(1), of k] assms(2) by simp
  have "pairs (concat ((hm_buckets m)[i := b])) = pairs b + pairs (rest_of (hm_buckets m) i)"
    "length (concat ((hm_buckets m)[i := b])) = length b + length (rest_of (hm_buckets m) i)"
    using pairs_split [of i "(hm_buckets m)[i := b]"] length_split [of i "(hm_buckets m)[i := b]"] i
    by simp_all
  moreover have "table_ok (hm_hash m) (hm_capacity m) ((hm_buckets m)[i := b])"
    using assms(1,3) by (intro table_ok_update) (simp_all add: hash_core_def)
  ultimately show "hash_core (m\<lparr>hm_buckets := (hm_buckets m)[i := b], hm_size := n\<rparr>)"
    "hash_entries (m\<lparr>hm_buckets := (hm_buckets m)[i := b], hm_size := n\<rparr>) =
      pairs b + pairs (rest_of (hm_buckets m) i)"
    using assms(1,4,5) by (simp_all add: hash_core_def hash_entries_def)
qed

text \<open>The fields no operation changes.\<close>

definition same_setup :: "'a hash_map \<Rightarrow> 'a hash_map \<Rightarrow> bool" where
  "same_setup m m' \<longleftrightarrow> hm_cmp m' = hm_cmp m \<and> hm_hash m' = hm_hash m \<and>
     hm_capacity m \<le> hm_capacity m' \<and> (hm_lock m' = None \<longleftrightarrow> hm_lock m = None)"

lemma same_setup_keys: "same_setup m m' \<Longrightarrow> map_keys_equal m' = map_keys_equal m"
  by (simp add: same_setup_def map_keys_equal_def fun_eq_iff)

text \<open>The body of \<open>hash_insert\<close> after the lock is taken and the table has grown.\<close>

lemma insert_core:
  assumes "hash_core m" "i = map_bucket_index m k"
  shows "set_data (\<lambda>k'. map_keys_equal m k' k) d (hm_buckets m ! i) = Some b \<Longrightarrow>
      hash_core (m\<lparr>hm_buckets := (hm_buckets m)[i := b]\<rparr>) \<and>
      hash_entries (m\<lparr>hm_buckets := (hm_buckets m)[i := b]\<rparr>) = put_entry (map_keys_equal m) k d (hash_entries m)"
    and "set_data (\<lambda>k'. map_keys_equal m k' k) d (hm_buckets m ! i) = None \<Longrightarrow>
      \<not> has_key (map_keys_equal m) k (hash_entries m) \<and>
      hash_core (m\<lparr>hm_buckets := (hm_buckets m)[i := \<lparr>me_key = k, me_data = d\<rparr> # hm_buckets m ! i],
                   hm_size := hm_size m + 1\<rparr>) \<and>
      hash_entries (m\<lparr>hm_buckets := (hm_buckets m)[i := \<lparr>me_key = k, me_data = d\<rparr> # hm_buckets m ! i],
                   hm_size := hm_size m + 1\<rparr>) = put_entry (map_keys_equal m) k d (hash_entries m)"
proof -
  note split = core_split [OF assms]
  have eq: "equivp (map_keys_equal m)" using assms(1) by (simp add: hash_core_def)
  have apart: "keys_apart (map_keys_equal m) (put_entry (map_keys_equal m) k d (hash_entries m))"
    using assms(1) by (simp add: hash_core_def keys_apart_put)
  show "hash_core (m\<lparr>hm_buckets := (hm_buckets m)[i := b]\<rparr>) \<and>
      hash_entries (m\<lparr>hm_buckets := (hm_buckets m)[i := b]\<rparr>) = put_entry (map_keys_equal m) k d (hash_entries m)"
    if b: "set_data (\<lambda>k'. map_keys_equal m k' k) d (hm_buckets m ! i) = Some b"
  proof -
    have put: "put_entry (map_keys_equal m) k d (hash_entries m) = pairs b + pairs (rest_of (hm_buckets m) i)"
      using put_entry_part [OF conjunct2 [OF set_data_pairs [OF eq split(3) b]] split(2)]
      unfolding split(1) conjunct1 [OF set_data_pairs [OF eq split(3) b]] .
    have keys: "map me_key b = map me_key (hm_buckets m ! i)" using set_data_keys [OF b] .
    have inb: "bucket_of (hm_hash m) (me_key e) (hm_capacity m) = i" if "e \<in> set b" for e
    proof -
      have "me_key e \<in> set (map me_key (hm_buckets m ! i))" using that keys [symmetric] by simp
      then show ?thesis using split(5) by auto
    qed
    have n: "hm_size m = length b + length (rest_of (hm_buckets m) i)"
      using split(4) arg_cong [OF keys, of length] by simp
    show ?thesis
      using core_replace [OF assms inb n] apart unfolding put by simp
  qed
  show "\<not> has_key (map_keys_equal m) k (hash_entries m) \<and>
      hash_core (m\<lparr>hm_buckets := (hm_buckets m)[i := \<lparr>me_key = k, me_data = d\<rparr> # hm_buckets m ! i],
                   hm_size := hm_size m + 1\<rparr>) \<and>
      hash_entries (m\<lparr>hm_buckets := (hm_buckets m)[i := \<lparr>me_key = k, me_data = d\<rparr> # hm_buckets m ! i],
                   hm_size := hm_size m + 1\<rparr>) = put_entry (map_keys_equal m) k d (hash_entries m)"
    if none: "set_data (\<lambda>k'. map_keys_equal m k' k) d (hm_buckets m ! i) = None"
  proof -
    let ?b = "\<lparr>me_key = k, me_data = d\<rparr> # hm_buckets m ! i"
    have "\<not> has_key (map_keys_equal m) k (pairs (hm_buckets m ! i))"
      using none by (simp only: set_data_none has_key_pairs) simp
    then have absent: "\<not> has_key (map_keys_equal m) k (hash_entries m)"
      using split(1,2) by simp
    then have put: "put_entry (map_keys_equal m) k d (hash_entries m) = pairs ?b + pairs (rest_of (hm_buckets m) i)"
      using split(1) by (simp add: put_entry_def pair_of_def)
    have inb: "bucket_of (hm_hash m) (me_key e) (hm_capacity m) = i" if "e \<in> set ?b" for e
      using that split(5) core_index [OF assms(1), of k] assms(2) by auto
    have n: "hm_size m + 1 = length ?b + length (rest_of (hm_buckets m) i)"
      using split(4) by simp
    show ?thesis
      using core_replace [OF assms inb n] apart absent unfolding put by blast
  qed
qed

lemma hash_insert_spec:
  assumes "hash_inv m" "hash_insert (Some m) k d w = (err, m2, w2)"
  shows "\<exists>m'. m2 = Some m' \<and> hash_inv m' \<and> same_setup m m' \<and>
    (err = OVA_SUCCESS \<longrightarrow> hash_entries m' = put_entry (map_keys_equal m) k d (hash_entries m)) \<and>
    (err \<noteq> OVA_SUCCESS \<longrightarrow> err = OVA_ERROR_MEMORY \<and> hash_entries m' = hash_entries m \<and>
       \<not> has_key (map_keys_equal m) k (hash_entries m))"
proof -
  define grown where "grown = (if hm_size (lock_map m) > hm_capacity (lock_map m) - hm_capacity (lock_map m) div 4
                       then resize_and_rehash (lock_map m) w else (lock_map m, w))"
  obtain g w1 where g: "grown = (g, w1)" by (cases grown)
  have core: "hash_core (lock_map m)" using assms(1) by (simp add: hash_inv_def)
  have G: "hash_core g \<and> hash_entries g = hash_entries m \<and> map_keys_equal g = map_keys_equal m \<and>
      same_setup m g"
  proof (cases "grown = (lock_map m, w)")
    case True
    then have "g = lock_map m" using g by simp
    then show ?thesis using core by (simp add: same_setup_def lock_shape)
  next
    case False
    then have "resize_and_rehash (lock_map m) w = (g, w1)"
      using g by (auto simp: grown_def split: if_splits)
    then show ?thesis
      using resize_core [OF core, of w g w1] by (simp add: same_setup_def lock_shape)
  qed
  have eq: "map_keys_equal g = map_keys_equal m" using G by simp
  let ?i = "map_bucket_index g k"
  note body = insert_core [of g ?i k d]
  note run = assms(2) [unfolded hash_insert.simps Let_def grown_def [symmetric] g prod.case]
  show ?thesis
  proof (cases "set_data (\<lambda>k'. map_keys_equal g k' k) d (hm_buckets g ! ?i)")
    case (Some b)
    then have m2: "err = OVA_SUCCESS" "m2 = Some (unlock_map (g\<lparr>hm_buckets := (hm_buckets g)[?i := b]\<rparr>))"
      using run by auto
    show ?thesis
      using body(1) [OF _ refl Some] G unfolding m2 by (simp add: hash_inv_def same_setup_def lock_shape)
  next
    case None
    note body2 = body(2) [OF _ refl None]
    show ?thesis
    proof (cases "malloc_struct w1")
      case (Pair ok w3)
      show ?thesis
      proof (cases ok)
        case True
        then have m2: "err = OVA_SUCCESS" "m2 = Some (unlock_map (g\<lparr>hm_buckets := (hm_buckets g)
            [?i := \<lparr>me_key = k, me_data = d\<rparr> # hm_buckets g ! ?i], hm_size := hm_size g + 1\<rparr>))"
          using run None Pair by auto
        show ?thesis
          using body2 G unfolding m2 by (simp add: hash_inv_def same_setup_def lock_shape)
      next
        case False
        then have m2: "err = OVA_ERROR_MEMORY" "m2 = Some (unlock_map g)"
          using run None Pair by auto
        show ?thesis
          using body2 G unfolding m2 by (simp add: hash_inv_def same_setup_def lock_shape)
      qed
    qed
  qed
qed

lemma hash_get_spec:
  assumes "hash_inv m" "hash_get (Some m) k = (r, m2)"
  shows "m2 = Some (unlock_map (lock_map m)) \<and> is_lookup (map_keys_equal m) k (hash_entries m) r"
proof -
  have core: "hash_core m" using assms(1) by (simp add: hash_inv_def)
  note split = core_split [OF core refl [of "map_bucket_index m k"]]
  have r: "r = find_data (\<lambda>k'. map_keys_equal m k' k) (hm_buckets m ! map_bucket_index m k)"
    "m2 = Some (unlock_map (lock_map m))"
    using assms(2) by (auto simp: Let_def)
  show ?thesis
    unfolding r split(1) lookup_part [OF split(2)] by (intro conjI refl find_data_lookup)
qed

lemma hash_remove_spec:
  assumes "hash_inv m" "hash_remove (Some m) k = (r, m2)"
  shows "\<exists>m'. m2 = Some m' \<and> hash_inv m' \<and> same_setup m m' \<and>
    is_lookup (map_keys_equal m) k (hash_entries m) r \<and>
    hash_entries m' = drop_key (map_keys_equal m) k (hash_entries m)"
proof -
  let ?l = "lock_map m" and ?i = "map_bucket_index m k"
  have core: "hash_core m" using assms(1) by (simp add: hash_inv_def)
  note split = core_split [OF core refl [of "map_bucket_index m k"]]
  have eq: "equivp (map_keys_equal m)" using core by (simp add: hash_core_def)
  have dropped: "drop_key (map_keys_equal m) k (hash_entries m) =
      drop_key (map_keys_equal m) k (pairs (hm_buckets m ! ?i)) + pairs (rest_of (hm_buckets m) ?i)"
    unfolding split(1) by (rule drop_key_part [OF split(2)])
  have look: "is_lookup (map_keys_equal m) k (hash_entries m)
      (find_data (\<lambda>k'. map_keys_equal m k' k) (hm_buckets m ! ?i))"
    unfolding split(1) lookup_part [OF split(2)] by (rule find_data_lookup)
  show ?thesis
  proof (cases "unlink_entry (\<lambda>k'. map_keys_equal m k' k) (hm_buckets m ! ?i)")
    case None
    then have m2: "r = NULL" "m2 = Some (unlock_map ?l)" using assms(2) by (auto simp: Let_def)
    have "\<not> has_key (map_keys_equal m) k (pairs (hm_buckets m ! ?i))"
      using None by (simp only: unlink_none has_key_pairs) simp
    then have "hash_entries m = drop_key (map_keys_equal m) k (hash_entries m)"
      using dropped split(1) drop_absent by metis
    then show ?thesis
      using look unlink_none_find [OF None] core unfolding m2
      by (simp add: hash_inv_def same_setup_def lock_shape)
  next
    case (Some db)
    obtain d b where db: "db = (d, b)" by (cases db)
    note U = unlink_pairs [OF eq split(3) Some [unfolded db]]
    let ?m = "?l\<lparr>hm_buckets := (hm_buckets ?l)[?i := b], hm_size := hm_size ?l - 1\<rparr>"
    have m2: "r = d" "m2 = Some (unlock_map ?m)"
      using assms(2) Some db by (auto simp: Let_def)
    have "keys_apart (map_keys_equal m) (drop_key (map_keys_equal m) k (hash_entries m))"
      using core by (auto simp: hash_core_def intro: keys_apart_drop)
    then have apart: "keys_apart (map_keys_equal ?l) (pairs b + pairs (rest_of (hm_buckets ?l) ?i))"
      using dropped U by simp
    have inb: "bucket_of (hm_hash ?l) (me_key e) (hm_capacity ?l) = ?i" if "e \<in> set b" for e
      using U that split(5) by (auto simp: lock_map_def)
    have n: "hm_size ?l - 1 = length b + length (rest_of (hm_buckets ?l) ?i)"
      using U split(4) by simp
    have R: "hash_core ?m" "hash_entries ?m = pairs b + pairs (rest_of (hm_buckets ?l) ?i)"
      using core_replace [OF _ _ inb n apart, of k] core by simp_all
    show ?thesis
      using R look U dropped unfolding m2 by (simp add: hash_inv_def same_setup_def lock_shape lock_map_def)
  qed
qed

lemma get_state: "hash_inv m \<Longrightarrow> hash_inv (unlock_map (lock_map m)) \<and> same_setup m (unlock_map (lock_map m))"
  by (simp add: hash_inv_def same_setup_def lock_shape)

lemma core_size: "hash_core m \<Longrightarrow> hm_size m = size (hash_entries m)"
  by (simp add: hash_core_def hash_entries_def)

section \<open>The map as a keyed container\<close>

definition hash_put :: "'a hash_map \<Rightarrow> 'a ptr \<Rightarrow> 'a ptr \<Rightarrow> 'a world \<Rightarrow> bool \<times> 'a hash_map \<times> 'a world" where
  "hash_put m k v w = (case hash_insert (Some m) k v w of (err, m', w') \<Rightarrow> (err = OVA_SUCCESS, the m', w'))"

definition hash_drop :: "'a hash_map \<Rightarrow> 'a ptr \<Rightarrow> 'a hash_map" where
  "hash_drop m k = the (snd (hash_remove (Some m) k))"

lemma hash_put_spec:
  assumes "hash_inv m" "hash_put m k v w = (ok, m', w')"
  shows "hash_inv m' \<and> map_keys_equal m' = map_keys_equal m \<and>
    (ok \<longrightarrow> hash_entries m' = put_entry (map_keys_equal m) k v (hash_entries m)) \<and>
    (\<not> ok \<longrightarrow> hash_entries m' = hash_entries m \<and> \<not> has_key (map_keys_equal m) k (hash_entries m))"
proof -
  obtain err m2 w2 where I: "hash_insert (Some m) k v w = (err, m2, w2)"
    by (cases "hash_insert (Some m) k v w")
  show ?thesis
    using hash_insert_spec [OF assms(1) I] assms(2) same_setup_keys I
    by (auto simp: hash_put_def)
qed

lemma hash_drop_spec:
  assumes "hash_inv m"
  shows "hash_inv (hash_drop m k) \<and> map_keys_equal (hash_drop m k) = map_keys_equal m \<and>
    hash_entries (hash_drop m k) = drop_key (map_keys_equal m) k (hash_entries m)"
proof -
  obtain r m2 where I: "hash_remove (Some m) k = (r, m2)" by (cases "hash_remove (Some m) k")
  show ?thesis
    using hash_remove_spec [OF assms I] same_setup_keys I by (auto simp: hash_drop_def)
qed

interpretation hd: dict_store hash_inv map_keys_equal hash_entries hash_put
  "\<lambda>m k. fst (hash_get (Some m) k)" hash_drop "\<lambda>_. True"
proof unfold_locales
  fix m :: "'a hash_map"
  assume m: "hash_inv m"
  show "equivp (map_keys_equal m)" "keys_apart (map_keys_equal m) (hash_entries m)"
    using m by (simp_all add: hash_inv_def hash_core_def)
  show "is_lookup (map_keys_equal m) k (hash_entries m) (fst (hash_get (Some m) k))" for k
    using hash_get_spec [OF m] by (cases "hash_get (Some m) k") auto
  show "hash_inv (hash_drop m k) \<and> map_keys_equal (hash_drop m k) = map_keys_equal m"
    "hash_entries (hash_drop m k) = drop_key (map_keys_equal m) k (hash_entries m)" for k
    using hash_drop_spec [OF m] by simp_all
qed (use hash_put_spec in blast)+

lemma put_loop_step:
  "put_loop ((k, v) # kvs) (Some m) w =
     (case hash_insert (Some m) k v w of (err, m', w') \<Rightarrow>
        if err \<noteq> OVA_SUCCESS then (err, m', w') else put_loop kvs m' w')"
  by simp

text \<open>The binding a sequence of puts leaves for a key: the last one with an equal key.\<close>

fun last_put :: "('a ptr \<Rightarrow> 'a ptr \<Rightarrow> bool) \<Rightarrow> 'a ptr \<Rightarrow> 'a ptr \<Rightarrow> ('a ptr \<times> 'a ptr) list \<Rightarrow> 'a ptr" where
  "last_put same key old [] = old"
| "last_put same key old ((k, v) # kvs) = last_put same key (if same k key then v else old) kvs"

lemma put_get_after:
  assumes "hash_inv m" "hash_insert (Some m) k v w = (err, m2, w2)"
  shows "\<exists>m'. m2 = Some m' \<and> hash_inv m' \<and> map_keys_equal m' = map_keys_equal m \<and>
    (\<forall>k'. fst (hash_get m2 k') =
       (if err = OVA_SUCCESS \<and> map_keys_equal m k k' then v else fst (hash_get (Some m) k'))) \<and>
    hash_size m2 = hash_size (Some m) +
      (if err = OVA_SUCCESS \<and> \<not> has_key (map_keys_equal m) k (hash_entries m) then 1 else 0)"
proof -
  obtain m' where m': "m2 = Some m'" "hash_inv m'" "same_setup m m'"
    using hash_insert_spec [OF assms] by auto
  have P: "hash_put m k v w = (err = OVA_SUCCESS, m', w2)"
    using assms(2) m'(1) by (simp add: hash_put_def)
  have "fst (hash_get (Some m') k') =
      (if err = OVA_SUCCESS \<and> map_keys_equal m k k' then v else fst (hash_get (Some m) k'))" for k'
  proof (cases "map_keys_equal m k k'")
    case True
    show ?thesis
    proof (cases "err = OVA_SUCCESS")
      case err: True
      then show ?thesis using True hd.get_put_same [OF assms(1) TrueI TrueI _ True] P by simp
    next
      case False
      have "\<not> has_key (map_keys_equal m) k' (hash_entries m)" "hash_entries m' = hash_entries m"
        using hash_insert_spec [OF assms] m' False True has_key_cong [OF hd.same_equiv [OF assms(1)] True]
        by auto
      then show ?thesis
        using False hd.absent_get [OF assms(1), of k'] hd.absent_get [OF m'(2), of k']
          same_setup_keys [OF m'(3)] by simp
    qed
  next
    case False
    then show ?thesis using hd.get_put_other [OF assms(1) TrueI TrueI P False] by simp
  qed
  moreover have "hm_size m' = hm_size m +
      (if err = OVA_SUCCESS \<and> \<not> has_key (map_keys_equal m) k (hash_entries m) then 1 else 0)"
    using hash_insert_spec [OF assms] m' assms(1) core_size [of m] core_size [of m']
    by (auto simp: hash_inv_def size_put_entry)
  ultimately show ?thesis using m' same_setup_keys [OF m'(3)] by simp
qed

lemma put_loop_spec:
  assumes "hash_inv m" "put_loop kvs (Some m) w = (err, m2, w2)"
  shows "\<exists>m' applied rest. m2 = Some m' \<and> hash_inv m' \<and> map_keys_equal m' = map_keys_equal m \<and>
    kvs = applied @ rest \<and> (err = OVA_SUCCESS \<longleftrightarrow> rest = []) \<and>
    (\<forall>k. fst (hash_get m2 k) = last_put (map_keys_equal m) k (fst (hash_get (Some m) k)) applied)"
  using assms
proof (induction kvs arbitrary: m w)
  case Nil
  then show ?case by (intro exI [of _ m] exI [of _ "[]"]) auto
next
  case (Cons kv kvs)
  obtain k v where kv: "kv = (k, v)" by (cases kv)
  obtain e1 m1 w1 where I: "hash_insert (Some m) k v w = (e1, m1, w1)"
    by (cases "hash_insert (Some m) k v w")
  obtain m' where m': "m1 = Some m'" "hash_inv m'" "map_keys_equal m' = map_keys_equal m"
    "\<And>k'. fst (hash_get m1 k') =
       (if e1 = OVA_SUCCESS \<and> map_keys_equal m k k' then v else fst (hash_get (Some m) k'))"
    using put_get_after [OF Cons.prems(1) I] by auto
  show ?case
  proof (cases "e1 = OVA_SUCCESS")
    case True
    then have "put_loop kvs (Some m') w1 = (err, m2, w2)"
      using Cons.prems(2) I m'(1) unfolding kv put_loop_step by simp
    from Cons.IH [OF m'(2) this] obtain m3 applied rest where R:
      "m2 = Some m3" "hash_inv m3" "map_keys_equal m3 = map_keys_equal m" "kvs = applied @ rest"
      "err = OVA_SUCCESS \<longleftrightarrow> rest = []"
      "\<And>k'. fst (hash_get m2 k') = last_put (map_keys_equal m) k' (fst (hash_get (Some m') k')) applied"
      using m'(3) by auto
    show ?thesis
      using R True m'(4) [unfolded m'(1)] unfolding kv
      by (intro exI [of _ m3] exI [of _ "(k, v) # applied"] exI [of _ rest]) simp
  next
    case False
    then have "err = e1" "m2 = m1" using Cons.prems(2) I unfolding kv put_loop_step by auto
    then show ?thesis
      using False m' by (intro exI [of _ m'] exI [of _ "[]"] exI [of _ "kv # kvs"]) simp
  qed
qed

section \<open>Making and clearing maps\<close>

text \<open>The five string hashes differ in the loop over the bytes only.\<close>

lemma string_hash_shape:
  assumes "h \<in> set hash_functions"
  obtains mix seed where "\<And>c_string k c. h c_string k c =
    (case k of None \<Rightarrow> 0 | Some p \<Rightarrow> if c \<le> 0 then 0 else hash_index (foldl mix (seed :: 64 word) (c_string p)) c)"
proof -
  consider "h = bernstein_hash" | "h = fnv1a_hash" | "h = xor_hash" | "h = rotational_hash" | "h = additive_hash"
    using assms by (auto simp: hash_functions_def)
  then show thesis
  proof cases
    case 1
    show thesis by (rule that) (simp add: 1 bernstein_hash_def)
  next
    case 2
    show thesis by (rule that) (simp add: 2 fnv1a_hash_def)
  next
    case 3
    show thesis by (rule that) (simp add: 3 xor_hash_def)
  next
    case 4
    show thesis by (rule that) (simp add: 4 rotational_hash_def)
  next
    case 5
    show thesis by (rule that) (simp add: 5 additive_hash_def)
  qed
qed

lemma string_hash_range:
  assumes "h \<in> set hash_functions" "is_int c" "0 < c"
  shows "0 \<le> h c_string k c \<and> h c_string k c < c"
proof (rule string_hash_shape [OF assms(1)])
  fix mix :: "64 word \<Rightarrow> 8 word \<Rightarrow> 64 word" and seed
  assume "\<And>c_string k c. h c_string k c =
    (case k of None \<Rightarrow> 0 | Some p \<Rightarrow> if c \<le> 0 then 0 else hash_index (foldl mix seed (c_string p)) c)"
  then show ?thesis using hash_index_range [OF assms(2,3)] assms(3) by (cases k) auto
qed

lemma int_max_is_int: "0 < c \<Longrightarrow> c \<le> int INT_MAX \<Longrightarrow> is_int c"
  by (simp add: is_int_def INT_MAX_def)

text \<open>A comparator that only equates keys with the same bytes fits every one of them.\<close>

lemma string_hash_contract:
  assumes "h \<in> set hash_functions"
    and "\<And>a b. same (Some a) (Some b) \<Longrightarrow> c_string a = c_string b"
    and "\<And>a. \<not> same (Some a) NULL"
  shows "hash_contract (h c_string) same"
proof -
  have "h c_string k c = h c_string k' c" if "k \<noteq> NULL" "same k k'" for k k' c
  proof (rule string_hash_shape [OF assms(1)])
    fix mix :: "64 word \<Rightarrow> 8 word \<Rightarrow> 64 word" and seed
    assume "\<And>c_string k c. h c_string k c =
      (case k of None \<Rightarrow> 0 | Some p \<Rightarrow> if c \<le> 0 then 0 else hash_index (foldl mix seed (c_string p)) c)"
    then show ?thesis using that assms(2,3) by (cases k; cases k') auto
  qed
  then show ?thesis
    using string_hash_range [OF assms(1)] int_max_is_int by (simp add: hash_contract_def)
qed

lemma ptr_hash_contract: "hash_contract set_default_ptr_hash (=)"
  using ptr_hash_range int_max_is_int by (simp add: hash_contract_def)

lemma create_hash_map_spec:
  assumes "create_hash_map c_string mutex_ok capacity hf cmp ts w = (Some m, w')"
    and "is_int capacity"
    and "equivp (map_keys_equal m)" "hash_contract (hm_hash m) (map_keys_equal m)"
  shows "hash_inv m \<and> hash_entries m = {#} \<and> int (hm_capacity m) = max capacity INITIAL_CAPACITY \<and>
    hm_hash m = (case hf of Some h \<Rightarrow> h | None \<Rightarrow> bernstein_hash c_string) \<and> hm_cmp m = cmp \<and>
    (hm_lock m = None \<longleftrightarrow> \<not> ts) \<and> hm_user_data m = NULL"
proof -
  let ?c = "if capacity < INITIAL_CAPACITY then INITIAL_CAPACITY else capacity"
  have c: "0 < nat ?c" "nat ?c \<le> INT_MAX" "int (nat ?c) = max capacity INITIAL_CAPACITY"
    using assms(2) by (auto simp: INITIAL_CAPACITY_def is_int_def INT_MAX_def)
  have m: "hm_buckets m = replicate (nat ?c) [] \<and> hm_capacity m = nat ?c \<and> hm_size m = 0 \<and>
    hm_hash m = (case hf of Some h \<Rightarrow> h | None \<Rightarrow> bernstein_hash c_string) \<and> hm_cmp m = cmp \<and>
    (hm_lock m = (if ts then Some False else None)) \<and> hm_user_data m = NULL"
    using assms(1) by (auto simp: create_hash_map_def Let_def split: prod.splits bool.splits if_splits)
  show ?thesis
    using assms(3,4) c m by (simp add: hash_inv_def hash_core_def hash_entries_def empty_table_ok)
qed

lemma hash_clear_spec:
  assumes "hash_inv m"
  shows "\<exists>m'. hash_clear (Some m) = Some m' \<and> hash_inv m' \<and> same_setup m m' \<and> hash_entries m' = {#}"
proof -
  have e: "concat (map (\<lambda>_. []) xs) = []" for xs :: "'b list"
    by (induction xs) simp_all
  have "hash_core (unlock_map ((lock_map m)\<lparr>hm_buckets := map (\<lambda>_. []) (hm_buckets m), hm_size := 0\<rparr>))"
    using assms by (simp add: hash_inv_def hash_core_def table_ok_def hash_entries_def e)
  then show ?thesis by (simp add: hash_inv_def same_setup_def lock_shape hash_entries_def e)
qed

section \<open>Cloning\<close>

lemma same_setup_trans: "same_setup a b \<Longrightarrow> same_setup b c \<Longrightarrow> same_setup a c"
  by (auto simp: same_setup_def)

lemma clone_put_loop_spec:
  assumes "hash_inv c" "keys_apart (map_keys_equal c) (hash_entries c + pairs es)"
    and "clone_put_loop (\<lambda>p w. (Some p, w)) es (Some c) w = (True, r, w')"
  shows "\<exists>c'. r = Some c' \<and> hash_inv c' \<and> same_setup c c' \<and> hash_entries c' = hash_entries c + pairs es"
  using assms
proof (induction es arbitrary: c w)
  case Nil
  then have "r = Some c" by simp
  then show ?case using Nil by (simp add: same_setup_def)
next
  case (Cons e es)
  obtain err c1 w1 where I: "hash_insert (Some c) (me_key e) (me_data e) w = (err, c1, w1)"
    by (cases "hash_insert (Some c) (me_key e) (me_data e) w")
  have ok: "err = OVA_SUCCESS" and rest: "clone_put_loop (\<lambda>p w. (Some p, w)) es c1 w1 = (True, r, w')"
    using Cons.prems(3) I by (auto split: if_splits)
  obtain c2 where c2: "c1 = Some c2" "hash_inv c2" "same_setup c c2"
    "hash_entries c2 = put_entry (map_keys_equal c) (me_key e) (me_data e) (hash_entries c)"
    using hash_insert_spec [OF Cons.prems(1) I] ok by auto
  have eq: "equivp (map_keys_equal c)" using Cons.prems(1) by (simp add: hash_inv_def hash_core_def)
  have "\<not> has_key (map_keys_equal c) (me_key e) (hash_entries c)"
    using Cons.prems(2) by (simp add: keys_apart_add [OF eq])
  then have entries: "hash_entries c2 = add_mset (pair_of e) (hash_entries c)"
    using c2(4) by (simp add: put_entry_def pair_of_def)
  have keys: "map_keys_equal c2 = map_keys_equal c" by (rule same_setup_keys [OF c2(3)])
  have "keys_apart (map_keys_equal c2) (hash_entries c2 + pairs es)"
    using Cons.prems(2) entries keys by simp
  from Cons.IH [OF c2(2) this rest [unfolded c2(1)]] show ?case
    using same_setup_trans [OF c2(3)] entries by auto
qed

lemma hash_clone_shallow_spec:
  assumes "hash_inv m" "hash_clone_shallow c_string mutex_ok (Some m) w = (Some copy, w')"
  shows "hash_inv copy \<and> hash_entries copy = hash_entries m \<and> map_keys_equal copy = map_keys_equal m \<and>
    hm_hash copy = hm_hash m \<and> (hm_lock copy = None \<longleftrightarrow> hm_lock m = None) \<and>
    hm_user_data copy = hm_user_data m"
proof -
  let ?create = "create_hash_map c_string mutex_ok (int (hm_capacity m)) (Some (hm_hash m)) (hm_cmp m)
             (hm_lock m \<noteq> None) w"
  have core: "hash_core m" using assms(1) by (simp add: hash_inv_def)
  obtain c w1 where c: "?create = (Some c, w1)"
    using assms(2) by (auto simp: hash_clone_shallow_def hash_clone_with_def split: prod.splits option.splits)
  obtain r w2 where loop: "clone_put_loop (\<lambda>p w. (Some p, w)) (concat (hm_buckets m)) (Some c) w1 = (True, Some r, w2)"
    and copy: "copy = r\<lparr>hm_user_data := hm_user_data m\<rparr>"
    using assms(2) c by (auto simp: hash_clone_shallow_def hash_clone_with_def split: prod.splits option.splits bool.splits)
  have fields: "hm_cmp c = hm_cmp m \<and> hm_hash c = hm_hash m"
    using c by (auto simp: create_hash_map_def Let_def split: prod.splits bool.splits if_splits)
  then have keys: "map_keys_equal c = map_keys_equal m" by (simp add: map_keys_equal_def fun_eq_iff)
  have C: "hash_inv c" "hash_entries c = {#}" "hm_lock c = None \<longleftrightarrow> hm_lock m = None"
    using create_hash_map_spec [OF c] core fields unfolding keys
    by (auto simp: hash_core_def is_int_def INT_MAX_def)
  have apart: "keys_apart (map_keys_equal c) (hash_entries c + pairs (concat (hm_buckets m)))"
    using core unfolding keys C(2) by (simp add: hash_core_def hash_entries_def)
  have R: "hash_inv r" "same_setup c r" "hash_entries r = hash_entries m"
    using clone_put_loop_spec [OF C(1) apart loop] C(2) by (auto simp: hash_entries_def)
  have "hash_inv copy" "hash_entries copy = hash_entries m"
    using R unfolding copy by (simp_all add: hash_inv_def hash_core_def hash_entries_def)
  then show ?thesis
    using R(2) C(3) fields unfolding copy by (auto simp: same_setup_def map_keys_equal_def fun_eq_iff)
qed

section \<open>Properties\<close>

text \<open>An empty map over addresses, for concrete runs.\<close>

definition sample_map :: "address hash_map" where
  "sample_map = \<lparr>hm_buckets = replicate 20 [], hm_capacity = 20, hm_size = 0,
     hm_hash = set_default_ptr_hash, hm_cmp = None, hm_lock = Some False, hm_user_data = NULL\<rparr>"

lemma sample_map_keys: "map_keys_equal sample_map = (=)"
  by (intro ext) (simp add: map_keys_equal_def sample_map_def)

lemma sample_map_inv: "hash_inv sample_map"
proof -
  have "equivp (map_keys_equal sample_map)" "hash_contract set_default_ptr_hash (map_keys_equal sample_map)"
    by (simp_all add: sample_map_keys identity_equivp ptr_hash_contract)
  then show ?thesis
    by (simp add: hash_inv_def hash_core_def sample_map_def INT_MAX_def empty_table_ok hash_entries_def)
qed

lemma resize_world: "alloc_fails w = [] \<Longrightarrow> resize_and_rehash m w = (m', w') \<Longrightarrow> w' = w"
  by (auto simp: resize_and_rehash_def malloc_def Let_def split: if_splits bool.splits)

lemma hash_malloc_granted:
  assumes "True \<notin> set (alloc_fails w)" "malloc n w = (ok, w')"
  shows "True \<notin> set (alloc_fails w')" "n \<le> PTRDIFF_MAX \<Longrightarrow> ok"
  using assms by (auto simp: malloc_def split: list.splits)

lemma resize_granted:
  "True \<notin> set (alloc_fails w) \<Longrightarrow> resize_and_rehash m w = (m', w') \<Longrightarrow> True \<notin> set (alloc_fails w')"
  using hash_malloc_granted(1) [of w] by (auto simp: resize_and_rehash_def Let_def split: if_splits prod.splits bool.splits)

text \<open>An insertion succeeds whenever the allocator refuses nothing.\<close>

lemma hash_insert_succeeds:
  assumes "True \<notin> set (alloc_fails w)"
  shows "fst (hash_insert (Some m) k d w) = OVA_SUCCESS"
proof -
  define grown where "grown = (if hm_size (lock_map m) > hm_capacity (lock_map m) - hm_capacity (lock_map m) div 4
                       then resize_and_rehash (lock_map m) w else (lock_map m, w))"
  obtain g w1 where g: "grown = (g, w1)" by (cases grown)
  then have "True \<notin> set (alloc_fails w1)" using assms resize_granted by (auto simp: grown_def split: if_splits)
  then have "fst (malloc_struct w1)"
    using hash_malloc_granted(2) [of w1 512] by (cases "malloc 512 w1") (auto simp: malloc_struct_def PTRDIFF_MAX_def)
  then show ?thesis
    unfolding hash_insert.simps Let_def grown_def [symmetric] g prod.case
    by (auto split: option.splits prod.splits bool.splits)
qed

lemma sample_put: "fst (hash_insert (Some sample_map) k v fresh_world) = OVA_SUCCESS"
  by (rule hash_insert_succeeds) simp

text \<open>C11: a put on the hash map overwrites or adds exactly the binding of its key, whatever the
  rehashing it triggers does: afterwards every lookup answers the new data for an equal key and
  what it answered before for any other; the size grows by one exactly when the key is new; the put
  succeeds whenever the key is there already or the allocator refuses no request, and its only
  failure is the memory error, which changes no lookup; and the invariant holds again, the mutex
  released.\<close>

theorem hash_put_get:
  assumes "hash_inv m" "hash_insert (Some m) k v w = (err, m2, w2)"
  shows "(\<exists>m'. m2 = Some m' \<and> hash_inv m' \<and> map_keys_equal m' = map_keys_equal m) \<and>
    err \<in> {OVA_SUCCESS, OVA_ERROR_MEMORY} \<and>
    (True \<notin> set (alloc_fails w) \<or> has_key (map_keys_equal m) k (hash_entries m) \<longrightarrow> err = OVA_SUCCESS) \<and>
    (\<forall>k'. fst (hash_get m2 k') =
       (if err = OVA_SUCCESS \<and> map_keys_equal m k k' then v else fst (hash_get (Some m) k'))) \<and>
    hash_size m2 = hash_size (Some m) +
      (if err = OVA_SUCCESS \<and> \<not> has_key (map_keys_equal m) k (hash_entries m) then 1 else 0)"
proof -
  have "err = OVA_SUCCESS" if "True \<notin> set (alloc_fails w)"
    using hash_insert_succeeds [OF that, of m k v] assms(2) by (simp del: hash_insert.simps)
  then show ?thesis using put_get_after [OF assms] hash_insert_spec [OF assms] by auto
qed

theorem hash_put_get_witness:
  "\<exists>m2 w2. hash_insert (Some sample_map) (Some 5) (Some 7) fresh_world = (OVA_SUCCESS, m2, w2) \<and>
     fst (hash_get m2 (Some 5)) = Some 7 \<and> fst (hash_get m2 (Some 6)) = fst (hash_get (Some sample_map) (Some 6))"
proof -
  obtain m2 w2 where I: "hash_insert (Some sample_map) (Some 5) (Some 7) fresh_world = (OVA_SUCCESS, m2, w2)"
    using sample_put [of "Some 5" "Some 7"]
    by (cases "hash_insert (Some sample_map) (Some 5) (Some 7) fresh_world") (simp del: hash_insert.simps)
  show ?thesis
    using hash_put_get [OF sample_map_inv I] I
    by (intro exI [of _ m2] exI [of _ w2]) (simp add: sample_map_keys del: hash_insert.simps hash_get.simps)
qed

text \<open>Removing a key from the hash map answers what a lookup of it answered, takes out that
  binding and no other, and shrinks the map by one exactly when the key was there; the invariant
  holds again, the mutex released.\<close>

theorem hash_remove_get:
  assumes "hash_inv m" "hash_remove (Some m) k = (r, m2)"
  shows "(\<exists>m'. m2 = Some m' \<and> hash_inv m' \<and> map_keys_equal m' = map_keys_equal m) \<and>
    r = fst (hash_get (Some m) k) \<and>
    (\<forall>k'. fst (hash_get m2 k') = (if map_keys_equal m k k' then NULL else fst (hash_get (Some m) k'))) \<and>
    hash_size (Some m) = hash_size m2 + (if has_key (map_keys_equal m) k (hash_entries m) then 1 else 0)"
proof -
  obtain m' where m': "m2 = Some m'" "hash_inv m'" "same_setup m m'"
    "is_lookup (map_keys_equal m) k (hash_entries m) r" "hash_drop m k = m'"
    using hash_remove_spec [OF assms] assms(2) by (auto simp: hash_drop_def)
  have "hm_size m = hm_size m' + (if has_key (map_keys_equal m) k (hash_entries m) then 1 else 0)"
    using size_drop_key [OF hd.same_equiv hd.apart, OF assms(1) assms(1), of k] hash_drop_spec [OF assms(1), of k]
      m'(2,5) assms(1) core_size [of m] core_size [of m'] by (simp add: hash_inv_def)
  then show ?thesis
    using m' hd.get_remove [OF assms(1) TrueI TrueI, of k] same_setup_keys [OF m'(3)]
      hd.getI [OF assms(1) TrueI m'(4)] by simp
qed

theorem hash_remove_get_witness:
  "\<exists>r m2. hash_remove (Some sample_map) (Some 5) = (r, m2) \<and> fst (hash_get m2 (Some 5)) = NULL \<and>
     fst (hash_get m2 (Some 6)) = fst (hash_get (Some sample_map) (Some 6))"
proof -
  obtain r m2 where I: "hash_remove (Some sample_map) (Some 5) = (r, m2)"
    by (cases "hash_remove (Some sample_map) (Some 5)")
  show ?thesis
    using hash_remove_get [OF sample_map_inv I] I
    by (intro exI [of _ r] exI [of _ m2]) (simp add: sample_map_keys del: hash_remove.simps hash_get.simps)
qed

text \<open>A bulk put whose arrays hold \<open>cnt\<close> elements works in order: when it succeeds, every key
  is bound to the data of the last equal key among the arguments, and to its old data when there
  is none; when it fails, exactly the pairs before the failing one were put.\<close>

theorem hash_put_bulk_last_wins:
  assumes "hash_inv m" "0 < cnt" "nat cnt \<le> length ks" "nat cnt \<le> length vs"
    and "hash_put_bulk (Some m) (Some ks) (Some vs) cnt w = (err, m2, w2)"
  shows "\<exists>m' n. m2 = Some m' \<and> hash_inv m' \<and> n \<le> nat cnt \<and> (err = OVA_SUCCESS \<longleftrightarrow> n = nat cnt) \<and>
    (\<forall>k. fst (hash_get m2 k) =
       last_put (map_keys_equal m) k (fst (hash_get (Some m) k)) (take n (zip ks vs)))"
proof -
  let ?kvs = "take (nat cnt) (zip ks vs)"
  have "put_loop ?kvs (Some m) w = (err, m2, w2)"
    using assms(2,5) by (simp add: hash_put_bulk_def)
  from put_loop_spec [OF assms(1) this] obtain m' applied rest where R:
    "m2 = Some m'" "hash_inv m'" "?kvs = applied @ rest" "err = OVA_SUCCESS \<longleftrightarrow> rest = []"
    "\<And>k. fst (hash_get m2 k) = last_put (map_keys_equal m) k (fst (hash_get (Some m) k)) applied"
    by auto
  have len: "length ?kvs = nat cnt" using assms(3,4) by simp
  then have n: "length applied + length rest = nat cnt" using R(3) by simp
  have "applied = take (length applied) ?kvs" using R(3) by simp
  then have "applied = take (length applied) (zip ks vs)" using n by (simp add: min_def split: if_splits)
  then show ?thesis
    using R n by (intro exI [of _ m'] exI [of _ "length applied"]) (auto simp del: hash_get.simps)
qed

theorem hash_put_bulk_last_wins_witness:
  "\<exists>m2 n. fst (snd (hash_put_bulk (Some sample_map) (Some [Some 5, Some 5]) (Some [Some 1, Some 2]) 2 fresh_world))
      = m2 \<and> n \<le> 2 \<and>
     fst (hash_get m2 (Some 5)) =
       last_put (=) (Some 5) (fst (hash_get (Some sample_map) (Some 5))) (take n [(Some 5, Some 1), (Some 5, Some 2)])"
proof -
  obtain err m2 w2 where I: "hash_put_bulk (Some sample_map) (Some [Some 5, Some 5])
      (Some [Some 1, Some 2]) 2 fresh_world = (err, m2, w2)"
    by (cases "hash_put_bulk (Some sample_map) (Some [Some 5, Some 5]) (Some [Some 1, Some 2]) 2 fresh_world")
  show ?thesis
    using hash_put_bulk_last_wins [OF sample_map_inv _ _ _ I] unfolding I
    by (auto simp: sample_map_keys simp del: hash_get.simps)
qed

text \<open>Each of the five string hash functions names a bucket inside every table an \<open>int\<close> can
  size, although the accumulated 64-bit hash wraps around and is cast to \<open>int\<close>; equal byte
  strings get the same bucket; a null key or an empty table gets bucket 0.\<close>

theorem string_hash_functions_ok:
  assumes "h \<in> set hash_functions" "is_int c"
  shows "(0 < c \<longrightarrow> 0 \<le> h c_string k c \<and> h c_string k c < c) \<and>
    (c \<le> 0 \<or> k = NULL \<longrightarrow> h c_string k c = 0) \<and>
    (map_option c_string k = map_option c_string k' \<longrightarrow> h c_string k c = h c_string k' c)"
proof (rule string_hash_shape [OF assms(1)])
  fix mix :: "64 word \<Rightarrow> 8 word \<Rightarrow> 64 word" and seed
  assume "\<And>c_string k c. h c_string k c =
    (case k of None \<Rightarrow> 0 | Some p \<Rightarrow> if c \<le> 0 then 0 else hash_index (foldl mix seed (c_string p)) c)"
  then show ?thesis
    using hash_index_range [OF assms(2)] by (cases k; cases k') auto
qed

theorem string_hash_functions_ok_witness:
  "bernstein_hash (\<lambda>s. s) (Some [97]) 20 \<in> {0..<20} \<and>
   bernstein_hash (\<lambda>s. s) (Some [97 :: 8 word]) 20 = 10"
  using string_hash_functions_ok [of bernstein_hash 20 "\<lambda>s. s" "Some [97]" NULL]
  by (simp add: hash_functions_def is_int_def)
    (simp add: bernstein_hash_def hash_index_def)

end
