(* ===== verification/AVL_Tree.thy ===== *)
theory AVL_Tree
  imports Search_Trees
begin

text \<open>
  The height-balanced tree, \<open>src/tree/avl_tree.c\<close>: rotations, insertion and deletion with the
  stored heights and the element counter, and what they do to the sorted list of pairs, to the
  balance and to the heights.
\<close>

section \<open>Operations\<close>

definition avl_max_int :: "int \<Rightarrow> int \<Rightarrow> int" where
  "avl_max_int a b = (if a > b then a else b)"

fun avl_height :: "'a tree_node \<Rightarrow> int" where
  "avl_height Nil_Node = 0"
| "avl_height (Tree_Node l k v h c r) = h"

fun avl_update_height :: "'a tree_node \<Rightarrow> 'a tree_node" where
  "avl_update_height Nil_Node = Nil_Node"
| "avl_update_height (Tree_Node l k v h c r) =
     Tree_Node l k v (1 + avl_max_int (avl_height l) (avl_height r)) c r"

fun avl_balance :: "'a tree_node \<Rightarrow> int" where
  "avl_balance Nil_Node = 0"
| "avl_balance (Tree_Node l k v h c r) = avl_height l - avl_height r"

definition avl_new_node :: "'a ptr \<Rightarrow> 'a ptr \<Rightarrow> 'a world \<Rightarrow> 'a tree_node \<times> 'a world" where
  "avl_new_node key value w =
     (case malloc_struct w of
        (False, w) \<Rightarrow> (Nil_Node, w)
      | (True, w) \<Rightarrow> (Tree_Node Nil_Node key value 1 RB_BLACK Nil_Node, w))"

fun avl_rotate_right :: "'a tree_node \<Rightarrow> 'a tree_node" where
  "avl_rotate_right (Tree_Node (Tree_Node t1 kx vx hx cx t2) ky vy hy cy r) =
     (let y = avl_update_height (Tree_Node t2 ky vy hy cy r)
      in avl_update_height (Tree_Node t1 kx vx hx cx y))"
| "avl_rotate_right y = y"

fun avl_rotate_left :: "'a tree_node \<Rightarrow> 'a tree_node" where
  "avl_rotate_left (Tree_Node l kx vx hx cx (Tree_Node t2 ky vy hy cy t3)) =
     (let x = avl_update_height (Tree_Node l kx vx hx cx t2)
      in avl_update_height (Tree_Node x ky vy hy cy t3))"
| "avl_rotate_left x = x"

text \<open>\<open>node->left = rotate(node->left)\<close> and its mirror image.\<close>

fun turn_left_child :: "'a tree_node \<Rightarrow> 'a tree_node" where
  "turn_left_child Nil_Node = Nil_Node"
| "turn_left_child (Tree_Node l k v h c r) = Tree_Node (avl_rotate_left l) k v h c r"

fun turn_right_child :: "'a tree_node \<Rightarrow> 'a tree_node" where
  "turn_right_child Nil_Node = Nil_Node"
| "turn_right_child (Tree_Node l k v h c r) = Tree_Node l k v h c (avl_rotate_right r)"

definition avl_insert_fix :: "'a comparator \<Rightarrow> 'a ptr \<Rightarrow> 'a tree_node \<Rightarrow> 'a tree_node" where
  "avl_insert_fix cmp key node =
     (let node = avl_update_height node;
          balance = avl_balance node;
          left = left_of node; right = right_of node
      in if balance > 1 \<and> left \<noteq> Nil_Node \<and> cmp key (node_key left) < 0 then avl_rotate_right node
         else if balance < -1 \<and> right \<noteq> Nil_Node \<and> cmp key (node_key right) > 0 then avl_rotate_left node
         else if balance > 1 \<and> left \<noteq> Nil_Node \<and> cmp key (node_key left) > 0
           then avl_rotate_right (turn_left_child node)
         else if balance < -1 \<and> right \<noteq> Nil_Node \<and> cmp key (node_key right) < 0
           then avl_rotate_left (turn_right_child node)
         else node)"

fun avl_insert_node ::
  "'a comparator \<Rightarrow> 'a ptr \<Rightarrow> 'a ptr \<Rightarrow> 'a tree_node \<Rightarrow> nat \<Rightarrow> 'a world \<Rightarrow> 'a tree_node \<times> nat \<times> 'a world" where
  "avl_insert_node cmp key value Nil_Node sz w =
     (case avl_new_node key value w of (created, w) \<Rightarrow>
        (created, if created \<noteq> Nil_Node then sz + 1 else sz, w))"
| "avl_insert_node cmp key value (Tree_Node l k v h c r) sz w =
     (let d = cmp key k in
      if d = 0 then (Tree_Node l k value h c r, sz, w)
      else if d < 0 then
        (case avl_insert_node cmp key value l sz w of (l, sz, w) \<Rightarrow>
           (avl_insert_fix cmp key (Tree_Node l k v h c r), sz, w))
      else
        (case avl_insert_node cmp key value r sz w of (r, sz, w) \<Rightarrow>
           (avl_insert_fix cmp key (Tree_Node l k v h c r), sz, w)))"

text \<open>\<open>avl_min_node\<close> is the loop of \<open>tree_min_node\<close> without the sentinel test.\<close>

definition avl_min_node :: "'a tree_node \<Rightarrow> 'a tree_node" where
  "avl_min_node = tree_min_node"

definition avl_delete_fix :: "'a tree_node \<Rightarrow> 'a tree_node" where
  "avl_delete_fix root =
     (let root = avl_update_height root; balance = avl_balance root
      in if balance > 1 then
           (if avl_balance (left_of root) \<ge> 0 then avl_rotate_right root
            else avl_rotate_right (turn_left_child root))
         else if balance < -1 then
           (if avl_balance (right_of root) \<le> 0 then avl_rotate_left root
            else avl_rotate_left (turn_right_child root))
         else root)"

fun avl_delete_node :: "'a comparator \<Rightarrow> 'a ptr \<Rightarrow> 'a tree_node \<Rightarrow> nat \<Rightarrow> 'a tree_node \<times> nat" where
  "avl_delete_node cmp key Nil_Node sz = (Nil_Node, sz)"
| "avl_delete_node cmp key (Tree_Node l k v h c r) sz =
     (let d = cmp key k in
      if d < 0 then
        (case avl_delete_node cmp key l sz of (l, sz) \<Rightarrow> (avl_delete_fix (Tree_Node l k v h c r), sz))
      else if d > 0 then
        (case avl_delete_node cmp key r sz of (r, sz) \<Rightarrow> (avl_delete_fix (Tree_Node l k v h c r), sz))
      else if l = Nil_Node \<or> r = Nil_Node then (if l \<noteq> Nil_Node then l else r, sz - 1)
      else
        (let succ = avl_min_node r in
         case avl_delete_node cmp (node_key succ) r sz of (r, sz) \<Rightarrow>
           (avl_delete_fix (Tree_Node l (node_key succ) (node_data succ) h c r), sz)))"

section \<open>The pairs\<close>

lemma update_height_pairs [simp]: "tree_pairs (avl_update_height t) = tree_pairs t"
  by (cases t) simp_all

lemma rotate_pairs [simp]:
  "tree_pairs (avl_rotate_right t) = tree_pairs t" "tree_pairs (avl_rotate_left t) = tree_pairs t"
  by (cases t rule: avl_rotate_right.cases, simp_all add: Let_def)
    (cases t rule: avl_rotate_left.cases, simp_all add: Let_def)

lemma turn_pairs [simp]:
  "tree_pairs (turn_left_child t) = tree_pairs t" "tree_pairs (turn_right_child t) = tree_pairs t"
  by (cases t; simp)+

lemma fix_pairs [simp]:
  "tree_pairs (avl_insert_fix cmp key t) = tree_pairs t" "tree_pairs (avl_delete_fix t) = tree_pairs t"
  by (simp_all add: avl_insert_fix_def avl_delete_fix_def Let_def)

lemma avl_new_node_cases:
  "avl_new_node key value w = (t, w') \<Longrightarrow>
     t = Nil_Node \<or> t = Tree_Node Nil_Node key value 1 RB_BLACK Nil_Node"
  by (auto simp: avl_new_node_def split: prod.splits bool.splits)

context comparator_order begin

text \<open>An insertion updates or adds the pair, or a refused allocation leaves every pair as it was; the
  counter follows.\<close>

lemma avl_insert_pairs:
  assumes "bst cmp t" "avl_insert_node cmp k v t n w = (t', n', w')"
  shows "tree_pairs t' = ins_pair cmp k v (tree_pairs t) \<and>
      n' = n + (if has_key (same_key cmp) k (mset (tree_pairs t)) then 0 else 1) \<or>
    tree_pairs t' = tree_pairs t \<and> n' = n \<and> \<not> has_key (same_key cmp) k (mset (tree_pairs t))"
  using assms
proof (induction t arbitrary: n w t' n' w')
  case Nil_Node
  then show ?case by (auto simp: split: prod.splits dest!: avl_new_node_cases)
next
  case (Tree_Node l a b h c r)
  note B = Tree_Node.prems(1) [unfolded bst_node]
  have sorted: "keys_sorted cmp (tree_pairs l @ (a, b) # tree_pairs r)"
    using Tree_Node.prems(1) by (simp add: bst_def)
  consider "cmp k a = 0" | "cmp k a < 0" | "cmp k a > 0" by linarith
  then show ?case
  proof cases
    case 1
    then show ?thesis using Tree_Node.prems(2) ins_pair_here [OF sorted 1, of v] by (auto simp: cmp_eq_sym [of a k])
  next
    case 2
    obtain l' n1 w1 where I: "avl_insert_node cmp k v l n w = (l', n1, w1)"
      by (cases "avl_insert_node cmp k v l n w")
    have "cmp (fst q) k \<noteq> 0" if "q \<in> set (tree_pairs r)" for q
      using B that 2 cmp_less_trans [of k a "fst q"] by (auto simp: cmp_less_sym)
    then have "has_key (same_key cmp) k (mset (tree_pairs (Tree_Node l a b h c r))) \<longleftrightarrow>
        has_key (same_key cmp) k (mset (tree_pairs l))"
      using 2 cmp_eq_sym [of a k] by (auto simp: has_key_mset)
    then show ?thesis
      using Tree_Node.IH(1) [OF _ I] B Tree_Node.prems(2) I 2 ins_pair_left [OF sorted 2, of v] by auto
  next
    case 3
    obtain r' n1 w1 where I: "avl_insert_node cmp k v r n w = (r', n1, w1)"
      by (cases "avl_insert_node cmp k v r n w")
    have "cmp (fst q) k \<noteq> 0" if "q \<in> set (tree_pairs l)" for q
      using B that 3 cmp_less_trans [of "fst q" a k] by (fastforce simp: cmp_less_sym)
    then have "has_key (same_key cmp) k (mset (tree_pairs (Tree_Node l a b h c r))) \<longleftrightarrow>
        has_key (same_key cmp) k (mset (tree_pairs r))"
      using 3 cmp_eq_sym [of a k] by (auto simp: has_key_mset)
    then show ?thesis
      using Tree_Node.IH(2) [OF _ I] B Tree_Node.prems(2) I 3 ins_pair_right [OF sorted 3, of v] by auto
  qed
qed

lemma avl_delete_pairs:
  assumes "bst cmp t" "avl_delete_node cmp k t n = (t', n')" "length (tree_pairs t) \<le> n"
  shows "tree_pairs t' = del_pair cmp k (tree_pairs t) \<and>
    n' = n - (if has_key (same_key cmp) k (mset (tree_pairs t)) then 1 else 0)"
  using assms
proof (induction t arbitrary: k n t' n')
  case (Tree_Node l a b h c r)
  note B = Tree_Node.prems(1) [unfolded bst_node]
  have sorted: "keys_sorted cmp (tree_pairs l @ (a, b) # tree_pairs r)"
    using Tree_Node.prems(1) by (simp add: bst_def)
  consider "cmp k a = 0" "l = Nil_Node \<or> r = Nil_Node" | "cmp k a = 0" "l \<noteq> Nil_Node" "r \<noteq> Nil_Node"
    | "cmp k a < 0" | "cmp k a > 0" by linarith
  then show ?case
  proof cases
    case 1
    then show ?thesis
      using Tree_Node.prems(2) del_pair_here [OF sorted 1(1)] by (auto simp: cmp_eq_sym [of a k])
  next
    case 2
    let ?s = "tree_min_node r"
    obtain r' n1 where I: "avl_delete_node cmp (node_key ?s) r n = (r', n1)"
      by (cases "avl_delete_node cmp (node_key ?s) r n")
    obtain ps where ps: "tree_pairs r = (node_key ?s, node_data ?s) # ps"
      using tree_min_first [OF 2(3)] 2(3) by (cases "tree_pairs r") auto
    have IH: "tree_pairs r' = ps \<and> n1 = n - 1"
      using Tree_Node.IH(2) [OF _ I] B Tree_Node.prems(3) ps by simp
    have t': "t' = avl_delete_fix (Tree_Node l (node_key ?s) (node_data ?s) h c r')" "n' = n1"
      using Tree_Node.prems(2) 2 I by (simp_all add: avl_min_node_def Let_def)
    show ?thesis
      using IH ps 2 del_pair_here [OF sorted 2(1)] unfolding t' by (simp add: cmp_eq_sym [of a k])
  next
    case 3
    obtain l' n1 where I: "avl_delete_node cmp k l n = (l', n1)" by (cases "avl_delete_node cmp k l n")
    have "cmp (fst q) k \<noteq> 0" if "q \<in> set (tree_pairs r)" for q
      using B that 3 cmp_less_trans [of k a "fst q"] by (auto simp: cmp_less_sym)
    then have "has_key (same_key cmp) k (mset (tree_pairs (Tree_Node l a b h c r))) \<longleftrightarrow>
        has_key (same_key cmp) k (mset (tree_pairs l))"
      using 3 cmp_eq_sym [of a k] by (auto simp: has_key_mset)
    then show ?thesis
      using Tree_Node.IH(1) [OF _ I] B Tree_Node.prems(2,3) I 3 del_pair_left [OF sorted 3] by auto
  next
    case 4
    obtain r' n1 where I: "avl_delete_node cmp k r n = (r', n1)" by (cases "avl_delete_node cmp k r n")
    have "cmp (fst q) k \<noteq> 0" if "q \<in> set (tree_pairs l)" for q
      using B that 4 cmp_less_trans [of "fst q" a k] by (fastforce simp: cmp_less_sym)
    then have "has_key (same_key cmp) k (mset (tree_pairs (Tree_Node l a b h c r))) \<longleftrightarrow>
        has_key (same_key cmp) k (mset (tree_pairs r))"
      using 4 cmp_eq_sym [of a k] by (auto simp: has_key_mset)
    then show ?thesis
      using Tree_Node.IH(2) [OF _ I] B Tree_Node.prems(2,3) I 4 del_pair_right [OF sorted 4] by auto
  qed
qed simp

end

section \<open>The balance\<close>

fun avl :: "'a tree_node \<Rightarrow> bool" where
  "avl Nil_Node \<longleftrightarrow> True"
| "avl (Tree_Node l k v h c r) \<longleftrightarrow>
     \<bar>avl_height l - avl_height r\<bar> \<le> 1 \<and> h = 1 + max (avl_height l) (avl_height r) \<and> avl l \<and> avl r"

lemma avl_max [simp]: "avl_max_int a b = max a b"
  by (simp add: avl_max_int_def)

lemma avl_height_pos: "avl t \<Longrightarrow> 0 \<le> avl_height t \<and> (avl_height t = 0 \<longleftrightarrow> t = Nil_Node)"
  by (induction t) auto

lemma rotate_right_avl:
  assumes "avl l" "avl r" "avl_height l = avl_height r + 2" "0 \<le> avl_balance l"
  shows "avl (avl_rotate_right (Tree_Node l k v h c r)) \<and>
    avl_height (avl_rotate_right (Tree_Node l k v h c r)) = avl_height l + (if avl_balance l = 0 then 1 else 0)"
  using assms avl_height_pos [OF assms(2)] by (cases l) (auto simp: Let_def max_def)

lemma rotate_left_avl:
  assumes "avl l" "avl r" "avl_height r = avl_height l + 2" "avl_balance r \<le> 0"
  shows "avl (avl_rotate_left (Tree_Node l k v h c r)) \<and>
    avl_height (avl_rotate_left (Tree_Node l k v h c r)) = avl_height r + (if avl_balance r = 0 then 1 else 0)"
  using assms avl_height_pos [OF assms(1)] by (cases r) (auto simp: Let_def max_def)

lemma double_right_avl:
  assumes "avl l" "avl r" "avl_height l = avl_height r + 2" "avl_balance l < 0"
  shows "avl (avl_rotate_right (turn_left_child (Tree_Node l k v h c r))) \<and>
    avl_height (avl_rotate_right (turn_left_child (Tree_Node l k v h c r))) = avl_height l"
proof (cases l)
  case (Tree_Node ll lk lv lh lc lr)
  then show ?thesis
    using assms avl_height_pos [of ll] by (cases lr) (auto simp: Let_def max_def split: if_splits)
qed (use assms in simp)

lemma double_left_avl:
  assumes "avl l" "avl r" "avl_height r = avl_height l + 2" "0 < avl_balance r"
  shows "avl (avl_rotate_left (turn_right_child (Tree_Node l k v h c r))) \<and>
    avl_height (avl_rotate_left (turn_right_child (Tree_Node l k v h c r))) = avl_height r"
proof (cases r)
  case (Tree_Node rl rk rv rh rc rr)
  then show ?thesis
    using assms avl_height_pos [of rr] by (cases rl) (auto simp: Let_def max_def split: if_splits)
qed (use assms in simp)

lemma update_children [simp]:
  "left_of (avl_update_height t) = left_of t" "right_of (avl_update_height t) = right_of t"
  "avl_balance (avl_update_height t) = avl_balance t"
  by (cases t; simp)+

lemma insert_fix_even:
  assumes "\<bar>avl_height l - avl_height r\<bar> \<le> 1"
  shows "avl_insert_fix cmp key (Tree_Node l k v h c r) =
     Tree_Node l k v (1 + max (avl_height l) (avl_height r)) c r"
proof -
  have "\<not> avl_height l - avl_height r > 1" "\<not> avl_height l - avl_height r < -1"
    using assms by simp_all
  then show ?thesis by (simp add: avl_insert_fix_def Let_def)
qed

text \<open>Where a subtree has just become one higher, and on which side.\<close>

definition grew :: "'a comparator \<Rightarrow> 'a ptr \<Rightarrow> 'a tree_node \<Rightarrow> 'a tree_node \<Rightarrow> bool" where
  "grew cmp key t t' \<longleftrightarrow> avl_height t' = avl_height t + 1 \<and>
     (t = Nil_Node \<or> cmp key (node_key t') < 0 \<and> avl_balance t' = 1 \<or>
      cmp key (node_key t') > 0 \<and> avl_balance t' = -1)"

lemma insert_fix_left:
  assumes "avl (Tree_Node l k v h c r)" "avl l'" "avl_height l' = avl_height l \<or> grew cmp key l l'" "cmp key k < 0"
  shows "avl (avl_insert_fix cmp key (Tree_Node l' k v h c r)) \<and>
    (avl_height (avl_insert_fix cmp key (Tree_Node l' k v h c r)) = h \<or>
     grew cmp key (Tree_Node l k v h c r) (avl_insert_fix cmp key (Tree_Node l' k v h c r)))"
proof (cases "avl_height l' = avl_height r + 2")
  case False
  then have "\<bar>avl_height l' - avl_height r\<bar> \<le> 1" using assms(1,3) by (auto simp: grew_def)
  then show ?thesis using assms False by (auto simp: insert_fix_even grew_def)
next
  case True
  then have l: "grew cmp key l l'" "avl_height l' = avl_height l + 1" "l \<noteq> Nil_Node" "l' \<noteq> Nil_Node"
    using assms avl_height_pos [of l] avl_height_pos [of r] avl_height_pos [of l'] by (auto simp: grew_def)
  let ?n = "Tree_Node l' k v (1 + max (avl_height l') (avl_height r)) c r"
  consider "cmp key (node_key l') < 0" "avl_balance l' = 1" | "cmp key (node_key l') > 0" "avl_balance l' = -1"
    using l by (auto simp: grew_def)
  then show ?thesis
  proof cases
    case 1
    then have "avl_insert_fix cmp key (Tree_Node l' k v h c r) = avl_rotate_right ?n"
      using l True by (simp add: avl_insert_fix_def Let_def)
    then show ?thesis
      using rotate_right_avl [of l' r k v "1 + max (avl_height l') (avl_height r)" c] assms True 1 l by simp
  next
    case 2
    then have "avl_insert_fix cmp key (Tree_Node l' k v h c r) = avl_rotate_right (turn_left_child ?n)"
      using l True by (simp add: avl_insert_fix_def Let_def)
    then show ?thesis
      using double_right_avl [of l' r k v "1 + max (avl_height l') (avl_height r)" c] assms True 2 l by simp
  qed
qed

lemma insert_fix_right:
  assumes "avl (Tree_Node l k v h c r)" "avl r'" "avl_height r' = avl_height r \<or> grew cmp key r r'" "cmp key k > 0"
  shows "avl (avl_insert_fix cmp key (Tree_Node l k v h c r')) \<and>
    (avl_height (avl_insert_fix cmp key (Tree_Node l k v h c r')) = h \<or>
     grew cmp key (Tree_Node l k v h c r) (avl_insert_fix cmp key (Tree_Node l k v h c r')))"
proof (cases "avl_height r' = avl_height l + 2")
  case False
  then have "\<bar>avl_height l - avl_height r'\<bar> \<le> 1" using assms(1,3) by (auto simp: grew_def)
  then show ?thesis using assms False by (auto simp: insert_fix_even grew_def)
next
  case True
  then have r: "grew cmp key r r'" "avl_height r' = avl_height r + 1" "r \<noteq> Nil_Node" "r' \<noteq> Nil_Node"
    using assms avl_height_pos [of r] avl_height_pos [of l] avl_height_pos [of r'] by (auto simp: grew_def)
  let ?n = "Tree_Node l k v (1 + max (avl_height l) (avl_height r')) c r'"
  consider "cmp key (node_key r') > 0" "avl_balance r' = -1" | "cmp key (node_key r') < 0" "avl_balance r' = 1"
    using r by (auto simp: grew_def)
  then show ?thesis
  proof cases
    case 1
    then have "avl_insert_fix cmp key (Tree_Node l k v h c r') = avl_rotate_left ?n"
      using r True by (simp add: avl_insert_fix_def Let_def)
    then show ?thesis
      using rotate_left_avl [of l r' k v "1 + max (avl_height l) (avl_height r')" c] assms True 1 r by simp
  next
    case 2
    then have "avl_insert_fix cmp key (Tree_Node l k v h c r') = avl_rotate_left (turn_right_child ?n)"
      using r True by (simp add: avl_insert_fix_def Let_def)
    then show ?thesis
      using double_left_avl [of l r' k v "1 + max (avl_height l) (avl_height r')" c] assms True 2 r by simp
  qed
qed

lemma avl_insert_avl:
  assumes "avl t" "avl_insert_node cmp k v t n w = (t', n', w')"
  shows "avl t' \<and> (avl_height t' = avl_height t \<or> grew cmp k t t')"
  using assms
proof (induction t arbitrary: n w t' n' w')
  case Nil_Node
  then show ?case by (auto simp: grew_def split: prod.splits dest!: avl_new_node_cases)
next
  case (Tree_Node l a b h c r)
  consider "cmp k a = 0" | "cmp k a < 0" | "cmp k a > 0" by linarith
  then show ?case
  proof cases
    case 1
    then show ?thesis using Tree_Node.prems by auto
  next
    case 2
    obtain l' n1 w1 where I: "avl_insert_node cmp k v l n w = (l', n1, w1)"
      by (cases "avl_insert_node cmp k v l n w")
    show ?thesis
      using insert_fix_left [of l a b h c r l' cmp k] Tree_Node.IH(1) [OF _ I] Tree_Node.prems I 2
      by auto
  next
    case 3
    obtain r' n1 w1 where I: "avl_insert_node cmp k v r n w = (r', n1, w1)"
      by (cases "avl_insert_node cmp k v r n w")
    show ?thesis
      using insert_fix_right [of l a b h c r r' cmp k] Tree_Node.IH(2) [OF _ I] Tree_Node.prems I 3
      by auto
  qed
qed

lemma delete_fix_avl:
  assumes "avl l" "avl r" "\<bar>avl_height l - avl_height r\<bar> \<le> 2"
  shows "avl (avl_delete_fix (Tree_Node l k v h c r)) \<and>
    avl_height (avl_delete_fix (Tree_Node l k v h c r)) \<le> 1 + max (avl_height l) (avl_height r) \<and>
    avl_height (avl_delete_fix (Tree_Node l k v h c r)) \<ge> max (avl_height l) (avl_height r) \<and>
    (\<bar>avl_height l - avl_height r\<bar> \<le> 1 \<longrightarrow>
       avl_height (avl_delete_fix (Tree_Node l k v h c r)) = 1 + max (avl_height l) (avl_height r))"
proof -
  let ?h = "1 + max (avl_height l) (avl_height r)"
  consider "\<bar>avl_height l - avl_height r\<bar> \<le> 1" | "avl_height l = avl_height r + 2" "0 \<le> avl_balance l"
    | "avl_height l = avl_height r + 2" "avl_balance l < 0"
    | "avl_height r = avl_height l + 2" "avl_balance r \<le> 0"
    | "avl_height r = avl_height l + 2" "0 < avl_balance r"
    using assms(3) by linarith
  then show ?thesis
  proof cases
    case 1
    then have "\<not> avl_height l - avl_height r > 1" "\<not> avl_height l - avl_height r < -1" by simp_all
    then show ?thesis using assms 1 by (simp add: avl_delete_fix_def Let_def)
  next
    case 2
    then show ?thesis
      using rotate_right_avl [OF assms(1,2) 2, of k v ?h c] by (simp add: avl_delete_fix_def Let_def)
  next
    case 3
    then show ?thesis
      using double_right_avl [OF assms(1,2) 3, of k v ?h c] by (simp add: avl_delete_fix_def Let_def)
  next
    case 4
    then show ?thesis
      using rotate_left_avl [OF assms(1,2) 4, of k v ?h c] by (simp add: avl_delete_fix_def Let_def)
  next
    case 5
    then show ?thesis
      using double_left_avl [OF assms(1,2) 5, of k v ?h c] by (simp add: avl_delete_fix_def Let_def)
  qed
qed

lemma delete_fix_step:
  assumes "avl (Tree_Node l a b h c r)" "avl l'" "avl r'"
    and "avl_height r' = avl_height r \<and> (avl_height l' = avl_height l \<or> avl_height l' = avl_height l - 1) \<or>
      avl_height l' = avl_height l \<and> (avl_height r' = avl_height r \<or> avl_height r' = avl_height r - 1)"
  shows "avl (avl_delete_fix (Tree_Node l' k v h c r')) \<and>
    (avl_height (avl_delete_fix (Tree_Node l' k v h c r')) = h \<or>
     avl_height (avl_delete_fix (Tree_Node l' k v h c r')) = h - 1)"
proof -
  have near: "\<bar>avl_height l - avl_height r\<bar> \<le> 1" "h = 1 + max (avl_height l) (avl_height r)"
    using assms(1) by simp_all
  then have "\<bar>avl_height l' - avl_height r'\<bar> \<le> 2" using assms(4) by linarith
  note F = delete_fix_avl [OF assms(2,3) this, of k v h c]
  have "avl_height (avl_delete_fix (Tree_Node l' k v h c r')) \<le> h"
    using F near assms(4) by linarith
  moreover have "h - 1 \<le> avl_height (avl_delete_fix (Tree_Node l' k v h c r'))"
    using F near assms(4) by linarith
  ultimately show ?thesis using F by linarith
qed

lemma avl_delete_avl:
  assumes "avl t" "avl_delete_node cmp k t n = (t', n')"
  shows "avl t' \<and> (avl_height t' = avl_height t \<or> avl_height t' = avl_height t - 1)"
  using assms
proof (induction t arbitrary: k n t' n')
  case (Tree_Node l a b h c r)
  consider "cmp k a = 0" "l = Nil_Node \<or> r = Nil_Node" | "cmp k a = 0" "l \<noteq> Nil_Node" "r \<noteq> Nil_Node"
    | "cmp k a < 0" | "cmp k a > 0" by linarith
  then show ?case
  proof cases
    case 1
    then show ?thesis using Tree_Node.prems avl_height_pos [of l] avl_height_pos [of r] by auto
  next
    case 2
    let ?s = "tree_min_node r"
    obtain r' n1 where I: "avl_delete_node cmp (node_key ?s) r n = (r', n1)"
      by (cases "avl_delete_node cmp (node_key ?s) r n")
    have t': "t' = avl_delete_fix (Tree_Node l (node_key ?s) (node_data ?s) h c r')"
      using Tree_Node.prems(2) 2 I by (simp add: avl_min_node_def Let_def)
    show ?thesis
      using Tree_Node.IH(2) [OF _ I] Tree_Node.prems(1)
        delete_fix_step [of l a b h c r l r' "node_key ?s" "node_data ?s"] unfolding t' by simp
  next
    case 3
    obtain l' n1 where I: "avl_delete_node cmp k l n = (l', n1)" by (cases "avl_delete_node cmp k l n")
    show ?thesis
      using Tree_Node.IH(1) [OF _ I] Tree_Node.prems I 3 delete_fix_step [of l a b h c r l' r a b] by simp
  next
    case 4
    obtain r' n1 where I: "avl_delete_node cmp k r n = (r', n1)" by (cases "avl_delete_node cmp k r n")
    show ?thesis
      using Tree_Node.IH(2) [OF _ I] Tree_Node.prems I 4 delete_fix_step [of l a b h c r l r' a b] by simp
  qed
qed simp

text \<open>The stored height is the height, and it is logarithmic in the number of pairs.\<close>

lemma avl_height_depth: "avl t \<Longrightarrow> avl_height t = int (tree_depth t)"
  by (induction t) auto

lemma avl_depth_log: "avl t \<Longrightarrow> 2 ^ (tree_depth t div 2) \<le> length (tree_pairs t) + 1"
proof (induction t rule: measure_induct_rule [where f = tree_depth])
  case (less t)
  show ?case
  proof (cases t)
    case (Tree_Node l k v h c r)
    have b: "avl l" "avl r" using less.prems Tree_Node by simp_all
    have d: "tree_depth l \<le> tree_depth r + 1" "tree_depth r \<le> tree_depth l + 1"
      using less.prems Tree_Node avl_height_depth [OF b(1)] avl_height_depth [OF b(2)] by auto
    let ?d = "tree_depth t"
    have IH: "2 ^ (tree_depth l div 2) \<le> length (tree_pairs l) + 1" "2 ^ (tree_depth r div 2) \<le> length (tree_pairs r) + 1"
      using less.IH b Tree_Node by simp_all
    have "(?d - 2) div 2 \<le> tree_depth l div 2" "(?d - 2) div 2 \<le> tree_depth r div 2"
      using d Tree_Node by (auto intro!: div_le_mono)
    then have "(2::nat) ^ ((?d - 2) div 2) \<le> 2 ^ (tree_depth l div 2)" "(2::nat) ^ ((?d - 2) div 2) \<le> 2 ^ (tree_depth r div 2)"
      by (simp_all add: power_increasing)
    moreover have "length (tree_pairs t) = length (tree_pairs l) + length (tree_pairs r) + 1"
      using Tree_Node by simp
    ultimately have "2 * 2 ^ ((?d - 2) div 2) \<le> length (tree_pairs t) + 1"
      using IH by linarith
    moreover have "?d div 2 \<le> Suc ((?d - 2) div 2)" by (cases "?d < 2") auto
    then have "(2::nat) ^ (?d div 2) \<le> 2 ^ Suc ((?d - 2) div 2)" by (rule power_increasing) simp
    ultimately show ?thesis unfolding power_Suc by linarith
  qed simp
qed

text \<open>With memory the counter grows exactly when the search finds nothing.\<close>

lemma avl_insert_counts:
  "alloc_fails w = [] \<Longrightarrow> avl_insert_node cmp k v t n w = (t', n', w') \<Longrightarrow>
     n' = n + (if tree_search_node cmp k t = Nil_Node then 1 else 0)"
  by (induction t arbitrary: n t' n')
    (auto simp: avl_new_node_def malloc_struct_no_failures Let_def split: prod.splits if_splits)

end
