(* ===== verification/Red_Black_Tree.thy ===== *)
theory Red_Black_Tree
  imports Search_Trees
begin

text \<open>
  The red-black tree, \<open>src/tree/red_black_tree.c\<close>. The code works on a node and climbs along its
  parent pointers; here a position in the tree is a subtree together with the path of the nodes
  above it, the parent first. \<open>node->parent\<close> is the head of the path, an empty path is the
  sentinel as parent. The sentinel itself is the empty tree: black, with empty children.
\<close>

section \<open>Positions\<close>

text \<open>A node above the position: whether the position is its left child, its own fields, and its
  other child.\<close>

datatype 'a frame =
  Frame (fr_left: bool) (fr_key: "'a ptr") (fr_data: "'a ptr") (fr_height: int) (fr_color: rb_color)
    (fr_sib: "'a tree_node")

fun attach :: "'a frame \<Rightarrow> 'a tree_node \<Rightarrow> 'a tree_node" where
  "attach (Frame True k v h c s) t = Tree_Node t k v h c s"
| "attach (Frame False k v h c s) t = Tree_Node s k v h c t"

fun zip_up :: "'a tree_node \<Rightarrow> 'a frame list \<Rightarrow> 'a tree_node" where
  "zip_up t [] = t"
| "zip_up t (f # path) = zip_up (attach f t) path"

fun down :: "bool \<Rightarrow> 'a tree_node \<Rightarrow> 'a tree_node \<times> 'a frame" where
  "down left Nil_Node = (Nil_Node, Frame left NULL NULL 0 RB_BLACK Nil_Node)"
| "down left (Tree_Node l k v h c r) =
     (if left then (l, Frame True k v h c r) else (r, Frame False k v h c l))"

fun node_color :: "'a tree_node \<Rightarrow> rb_color" where
  "node_color Nil_Node = RB_BLACK"
| "node_color (Tree_Node l k v h c r) = c"

fun paint :: "rb_color \<Rightarrow> 'a tree_node \<Rightarrow> 'a tree_node" where
  "paint c' Nil_Node = Nil_Node"
| "paint c' (Tree_Node l k v h c r) = Tree_Node l k v h c' r"

fun fr_paint :: "rb_color \<Rightarrow> 'a frame \<Rightarrow> 'a frame" where
  "fr_paint c' (Frame b k v h c s) = Frame b k v h c' s"

fun fr_set_sib :: "'a tree_node \<Rightarrow> 'a frame \<Rightarrow> 'a frame" where
  "fr_set_sib s' (Frame b k v h c s) = Frame b k v h c s'"

lemma frame_cases:
  obtains (Left) k v h c s where "f = Frame True k v h c s" | (Right) k v h c s where "f = Frame False k v h c s"
  by (cases f) (metis (full_types))

section \<open>Operations\<close>

fun rb_left_rotate :: "'a tree_node \<Rightarrow> 'a tree_node" where
  "rb_left_rotate (Tree_Node a xk xv xh xc (Tree_Node b yk yv yh yc d)) =
     Tree_Node (Tree_Node a xk xv xh xc b) yk yv yh yc d"
| "rb_left_rotate x = x"

fun rb_right_rotate :: "'a tree_node \<Rightarrow> 'a tree_node" where
  "rb_right_rotate (Tree_Node (Tree_Node a xk xv xh xc b) yk yv yh yc d) =
     Tree_Node a xk xv xh xc (Tree_Node b yk yv yh yc d)"
| "rb_right_rotate y = y"

text \<open>The loop looks at the parent \<open>p\<close> and the grandparent \<open>g\<close>. With a single node above the
  position the parent is the root, which is black.\<close>

fun rb_insert_fixup :: "'a tree_node \<Rightarrow> 'a frame list \<Rightarrow> 'a tree_node \<times> 'a frame list" where
  "rb_insert_fixup z (p # g # path) =
     (if fr_color p = RB_RED then
        (let y = fr_sib g in
         if fr_left g then
           (if node_color y = RB_RED then
              rb_insert_fixup
                (attach (fr_paint RB_RED (fr_set_sib (paint RB_BLACK y) g)) (attach (fr_paint RB_BLACK p) z)) path
            else
              (let (z, p) = (if \<not> fr_left p then down True (rb_left_rotate (attach p z)) else (z, p));
                   (z, p) = down True (rb_right_rotate
                     (attach (fr_paint RB_RED g) (attach (fr_paint RB_BLACK p) z)))
               in rb_insert_fixup z (p # path)))
         else
           (if node_color y = RB_RED then
              rb_insert_fixup
                (attach (fr_paint RB_RED (fr_set_sib (paint RB_BLACK y) g)) (attach (fr_paint RB_BLACK p) z)) path
            else
              (let (z, p) = (if fr_left p then down False (rb_right_rotate (attach p z)) else (z, p));
                   (z, p) = down False (rb_left_rotate
                     (attach (fr_paint RB_RED g) (attach (fr_paint RB_BLACK p) z)))
               in rb_insert_fixup z (p # path))))
      else (z, p # g # path))"
| "rb_insert_fixup z [p] = (z, [p])"
| "rb_insert_fixup z [] = (z, [])"

text \<open>The search for a key, keeping the path it came along.\<close>

fun rb_search_node :: "'a comparator \<Rightarrow> 'a ptr \<Rightarrow> 'a tree_node \<Rightarrow> 'a frame list \<Rightarrow> 'a tree_node \<times> 'a frame list" where
  "rb_search_node cmp key Nil_Node path = (Nil_Node, path)"
| "rb_search_node cmp key (Tree_Node l k v h c r) path =
     (let d = cmp key k in
      if d = 0 then (Tree_Node l k v h c r, path)
      else if d < 0 then rb_search_node cmp key l (Frame True k v h c r # path)
      else rb_search_node cmp key r (Frame False k v h c l # path))"

fun rb_minimum :: "'a tree_node \<Rightarrow> 'a frame list \<Rightarrow> 'a tree_node \<times> 'a frame list" where
  "rb_minimum Nil_Node path = (Nil_Node, path)"
| "rb_minimum (Tree_Node l k v h c r) path =
     (if l = Nil_Node then (Tree_Node l k v h c r, path)
      else rb_minimum l (Frame True k v h c r # path))"

fun set_value :: "'a ptr \<Rightarrow> 'a tree_node \<Rightarrow> 'a tree_node" where
  "set_value value Nil_Node = Nil_Node"
| "set_value value (Tree_Node l k v h c r) = Tree_Node l k value h c r"

definition rb_tree_insert ::
  "'a comparator \<Rightarrow> 'a ptr \<Rightarrow> 'a ptr \<Rightarrow> 'a tree_node \<Rightarrow> nat \<Rightarrow> 'a world \<Rightarrow> 'a tree_node \<times> nat \<times> 'a world" where
  "rb_tree_insert cmp key value root sz w =
     (case rb_search_node cmp key root [] of
        (x, path) \<Rightarrow>
          (if x \<noteq> Nil_Node then (zip_up (set_value value x) path, sz, w)
           else (case malloc_struct w of
               (False, w) \<Rightarrow> (root, sz, w)
             | (True, w) \<Rightarrow>
                 (let z = Tree_Node Nil_Node key value 1 RB_RED Nil_Node;
                      (z, path) = rb_insert_fixup z path
                  in (paint RB_BLACK (zip_up z path), sz + 1, w)))))"

text \<open>The loop body for a position that is a left child; \<open>w\<close> is the sibling.\<close>

fun red_sibling_left :: "'a frame \<Rightarrow> 'a frame list \<Rightarrow> 'a frame \<times> 'a frame list" where
  "red_sibling_left p path =
     (let w = fr_sib p in
      if node_color w = RB_RED then
        (case down True w of
           (inner, f) \<Rightarrow> (fr_set_sib inner (fr_paint RB_RED p), fr_paint RB_BLACK f # path))
      else (p, path))"

fun red_sibling_right :: "'a frame \<Rightarrow> 'a frame list \<Rightarrow> 'a frame \<times> 'a frame list" where
  "red_sibling_right p path =
     (let w = fr_sib p in
      if node_color w = RB_RED then
        (case down False w of
           (inner, f) \<Rightarrow> (fr_set_sib inner (fr_paint RB_RED p), fr_paint RB_BLACK f # path))
      else (p, path))"

fun paint_left :: "rb_color \<Rightarrow> 'a tree_node \<Rightarrow> 'a tree_node" where
  "paint_left c' Nil_Node = Nil_Node"
| "paint_left c' (Tree_Node l k v h c r) = Tree_Node (paint c' l) k v h c r"

fun paint_right :: "rb_color \<Rightarrow> 'a tree_node \<Rightarrow> 'a tree_node" where
  "paint_right c' Nil_Node = Nil_Node"
| "paint_right c' (Tree_Node l k v h c r) = Tree_Node l k v h c (paint c' r)"

lemma red_sibling_color:
  "red_sibling_left p path = (p', path') \<Longrightarrow> p' = p \<and> path' = path \<or> fr_color p' = RB_RED"
  "red_sibling_right p path = (p', path') \<Longrightarrow> p' = p \<and> path' = path \<or> fr_color p' = RB_RED"
  by (cases p; auto simp: Let_def split: if_splits prod.splits)+

lemma node_color_attach [simp]: "node_color (attach f t) = fr_color f"
  by (cases f rule: frame_cases) auto

lemma fr_sel_simps [simp]:
  "fr_color (fr_paint c f) = c" "fr_color (fr_set_sib s f) = fr_color f"
  "fr_sib (fr_paint c f) = fr_sib f" "fr_sib (fr_set_sib s f) = s"
  "fr_left (fr_paint c f) = fr_left f" "fr_left (fr_set_sib s f) = fr_left f"
  by (cases f; simp)+

function rb_delete_fixup :: "'a tree_node \<Rightarrow> 'a frame list \<Rightarrow> 'a tree_node \<times> 'a frame list" where
  "rb_delete_fixup x [] = (x, [])"
| "rb_delete_fixup x (p # path) =
     (if node_color x \<noteq> RB_BLACK then (x, p # path)
      else if fr_left p then
        (case red_sibling_left p path of (p', path') \<Rightarrow>
          let w = fr_sib p' in
          if node_color (left_of w) = RB_BLACK \<and> node_color (right_of w) = RB_BLACK
          then rb_delete_fixup (attach (fr_set_sib (paint RB_RED w) p') x) path'
          else
            (let w = (if node_color (right_of w) = RB_BLACK
                      then rb_right_rotate (paint RB_RED (paint_left RB_BLACK w)) else w);
                 w = paint_right RB_BLACK (paint (fr_color p') w)
             in (zip_up (rb_left_rotate (attach (fr_set_sib w (fr_paint RB_BLACK p')) x)) path', [])))
      else
        (case red_sibling_right p path of (p', path') \<Rightarrow>
          let w = fr_sib p' in
          if node_color (right_of w) = RB_BLACK \<and> node_color (left_of w) = RB_BLACK
          then rb_delete_fixup (attach (fr_set_sib (paint RB_RED w) p') x) path'
          else
            (let w = (if node_color (left_of w) = RB_BLACK
                      then rb_left_rotate (paint RB_RED (paint_right RB_BLACK w)) else w);
                 w = paint_left RB_BLACK (paint (fr_color p') w)
             in (zip_up (rb_right_rotate (attach (fr_set_sib w (fr_paint RB_BLACK p')) x)) path', []))))"
  by pat_completeness auto
termination
  by (relation "measure (\<lambda>(x, path). if node_color x = RB_BLACK then Suc (length path) else 0)")
    (auto dest!: red_sibling_color [OF sym] simp del: red_sibling_left.simps red_sibling_right.simps)

definition rb_tree_delete :: "'a comparator \<Rightarrow> 'a ptr \<Rightarrow> 'a tree_node \<Rightarrow> nat \<Rightarrow> 'a tree_node \<times> nat" where
  "rb_tree_delete cmp key root sz =
     (case rb_search_node cmp key root [] of
        (Nil_Node, _) \<Rightarrow> (root, sz)
      | (Tree_Node l k v h c r, path) \<Rightarrow>
          (let (y_original_color, x, path) =
             (if l = Nil_Node then (c, r, path)
              else if r = Nil_Node then (c, l, path)
              else (case rb_minimum r [] of (y, below) \<Rightarrow>
                (node_color y, right_of y,
                 below @ Frame False (node_key y) (node_data y) (fr_height (snd (down True y))) c l # path)));
               sz = (if sz > 0 then sz - 1 else sz);
               (x, path) = (if y_original_color = RB_BLACK
                            then (case rb_delete_fixup x path of (x, path) \<Rightarrow> (paint RB_BLACK x, path))
                            else (x, path))
           in (zip_up x path, sz)))"

section \<open>The pairs\<close>

fun ctx_left :: "'a frame list \<Rightarrow> ('a ptr \<times> 'a ptr) list" where
  "ctx_left [] = []"
| "ctx_left (Frame True k v h c s # path) = ctx_left path"
| "ctx_left (Frame False k v h c s # path) = ctx_left path @ tree_pairs s @ [(k, v)]"

fun ctx_right :: "'a frame list \<Rightarrow> ('a ptr \<times> 'a ptr) list" where
  "ctx_right [] = []"
| "ctx_right (Frame True k v h c s # path) = (k, v) # tree_pairs s @ ctx_right path"
| "ctx_right (Frame False k v h c s # path) = ctx_right path"

abbreviation zip_pairs :: "'a tree_node \<Rightarrow> 'a frame list \<Rightarrow> ('a ptr \<times> 'a ptr) list" where
  "zip_pairs t path \<equiv> ctx_left path @ tree_pairs t @ ctx_right path"

lemma zip_up_pairs: "tree_pairs (zip_up t path) = zip_pairs t path"
proof (induction path arbitrary: t)
  case (Cons f path)
  then show ?case by (cases f rule: frame_cases) auto
qed simp

lemma attach_pairs: "zip_pairs (attach f t) path = zip_pairs t (f # path)"
  by (cases f rule: frame_cases) auto

lemma paint_pairs [simp]:
  "tree_pairs (paint c t) = tree_pairs t" "tree_pairs (paint_left c t) = tree_pairs t"
  "tree_pairs (paint_right c t) = tree_pairs t"
proof -
  show P: "tree_pairs (paint c t) = tree_pairs t" for t :: "'a tree_node" by (cases t) simp_all
  show "tree_pairs (paint_left c t) = tree_pairs t" "tree_pairs (paint_right c t) = tree_pairs t"
    by (cases t; simp add: P)+
qed

lemma rb_rotate_pairs [simp]:
  "tree_pairs (rb_left_rotate t) = tree_pairs t" "tree_pairs (rb_right_rotate t) = tree_pairs t"
  by (cases t rule: rb_left_rotate.cases; simp) (cases t rule: rb_right_rotate.cases; simp)

lemma fr_paint_pairs [simp]:
  "tree_pairs (attach (fr_paint c f) t) = tree_pairs (attach f t)"
  by (cases f rule: frame_cases) auto

lemma fr_sib_pairs [simp]:
  "tree_pairs (attach (fr_set_sib (paint c (fr_sib f)) f) t) = tree_pairs (attach f t)"
  by (cases f rule: frame_cases) auto

lemma attach_cong: "tree_pairs t = tree_pairs t' \<Longrightarrow> tree_pairs (attach f t) = tree_pairs (attach f t')"
  by (cases f rule: frame_cases) auto

lemma down_pairs:
  "down b t = (z, f) \<Longrightarrow> t \<noteq> Nil_Node \<Longrightarrow> attach f z = t \<and> fr_left f = b"
  by (cases t) (auto split: if_splits)

lemma rotate_not_nil [simp]:
  "rb_left_rotate t = Nil_Node \<longleftrightarrow> t = Nil_Node" "rb_right_rotate t = Nil_Node \<longleftrightarrow> t = Nil_Node"
  by (cases t rule: rb_left_rotate.cases; simp) (cases t rule: rb_right_rotate.cases; simp)

lemma attach_not_nil [simp]: "attach f t \<noteq> Nil_Node"
  by (cases f rule: frame_cases) auto

lemma zip_pairs_attach2:
  "zip_pairs z (p # g # path) = zip_pairs (attach g (attach p z)) path"
  by (simp only: attach_pairs)

lemma insert_fixup_pairs:
  "rb_insert_fixup z path = (z', path') \<Longrightarrow> zip_pairs z' path' = zip_pairs z path"
proof (induction z path arbitrary: z' path' rule: rb_insert_fixup.induct)
  case (1 z p g path)
  show ?case
    by (cases p rule: frame_cases; cases g rule: frame_cases; cases z)
      (use 1 in \<open>auto simp: Let_def split: if_splits\<close>)
qed simp_all

lemma red_sibling_pairs:
  "red_sibling_left p path = (p', path') \<Longrightarrow> fr_left p \<Longrightarrow>
     fr_left p' \<and> zip_pairs x (p' # path') = zip_pairs x (p # path)"
  "red_sibling_right p path = (p', path') \<Longrightarrow> \<not> fr_left p \<Longrightarrow>
     \<not> fr_left p' \<and> zip_pairs x (p' # path') = zip_pairs x (p # path)"
  by (cases p rule: frame_cases; cases "fr_sib p"; auto simp: Let_def split: if_splits)+

lemma attach_sib_pairs:
  "tree_pairs w = tree_pairs (fr_sib f) \<Longrightarrow> tree_pairs (attach (fr_set_sib w f) t) = tree_pairs (attach f t)"
  by (cases f rule: frame_cases) auto

lemma delete_fixup_pairs:
  "rb_delete_fixup x path = (x', path') \<Longrightarrow> zip_pairs x' path' = zip_pairs x path"
proof (induction x path arbitrary: x' path' rule: rb_delete_fixup.induct)
  case (2 x p path)
  show ?case
  proof (cases "node_color x = RB_BLACK")
    case black: True
    show ?thesis
    proof (cases "fr_left p")
      case True
      obtain q rest where q: "red_sibling_left p path = (q, rest)" by (cases "red_sibling_left p path")
      let ?w = "fr_sib q"
      show ?thesis
      proof (cases "node_color (left_of ?w) = RB_BLACK \<and> node_color (right_of ?w) = RB_BLACK")
        case both: True
        have "zip_pairs x' path' = zip_pairs (attach (fr_set_sib (paint RB_RED ?w) q) x) rest"
          using "2.IH"(1) [OF _ True q [symmetric] refl both] "2.prems" black True q both
          by (simp del: red_sibling_left.simps)
        then show ?thesis
          using attach_sib_pairs [of "paint RB_RED ?w" q x] attach_pairs [of rest q x]
            red_sibling_pairs(1) [OF q True, of x] by simp
      next
        case False
        let ?w2 = "if node_color (right_of ?w) = RB_BLACK
          then rb_right_rotate (paint RB_RED (paint_left RB_BLACK ?w)) else ?w"
        let ?w3 = "paint_right RB_BLACK (paint (fr_color q) ?w2)"
        have w3: "tree_pairs ?w3 = tree_pairs ?w" by simp
        have "x' = zip_up (rb_left_rotate (attach (fr_set_sib ?w3 (fr_paint RB_BLACK q)) x)) rest" "path' = []"
          using "2.prems" black True q False by (simp_all add: Let_def del: red_sibling_left.simps)
        then show ?thesis
          using attach_sib_pairs [of ?w3 "fr_paint RB_BLACK q" x] attach_pairs [of rest q x] w3
            red_sibling_pairs(1) [OF q True, of x] by (simp add: zip_up_pairs)
      qed
    next
      case right: False
      obtain q rest where q: "red_sibling_right p path = (q, rest)" by (cases "red_sibling_right p path")
      let ?w = "fr_sib q"
      show ?thesis
      proof (cases "node_color (right_of ?w) = RB_BLACK \<and> node_color (left_of ?w) = RB_BLACK")
        case both: True
        have "zip_pairs x' path' = zip_pairs (attach (fr_set_sib (paint RB_RED ?w) q) x) rest"
          using "2.IH"(2) [OF _ right q [symmetric] refl both] "2.prems" black right q both
          by (simp del: red_sibling_right.simps)
        then show ?thesis
          using attach_sib_pairs [of "paint RB_RED ?w" q x] attach_pairs [of rest q x]
            red_sibling_pairs(2) [OF q right, of x] by simp
      next
        case False
        let ?w2 = "if node_color (left_of ?w) = RB_BLACK
          then rb_left_rotate (paint RB_RED (paint_right RB_BLACK ?w)) else ?w"
        let ?w3 = "paint_left RB_BLACK (paint (fr_color q) ?w2)"
        have w3: "tree_pairs ?w3 = tree_pairs ?w" by simp
        have "x' = zip_up (rb_right_rotate (attach (fr_set_sib ?w3 (fr_paint RB_BLACK q)) x)) rest" "path' = []"
          using "2.prems" black right q False by (simp_all add: Let_def del: red_sibling_right.simps)
        then show ?thesis
          using attach_sib_pairs [of ?w3 "fr_paint RB_BLACK q" x] attach_pairs [of rest q x] w3
            red_sibling_pairs(2) [OF q right, of x] by (simp add: zip_up_pairs)
      qed
    qed
  qed (use "2.prems" in simp)
qed simp

lemma ctx_append:
  "ctx_left (p @ q) = ctx_left q @ ctx_left p" "ctx_right (p @ q) = ctx_right p @ ctx_right q"
  by (induction p rule: ctx_left.induct) simp_all

lemma rb_minimum_spec:
  assumes "t \<noteq> Nil_Node" "rb_minimum t path = (y, path')"
  shows "\<exists>k v h c r below. y = Tree_Node Nil_Node k v h c r \<and> path' = below @ path \<and> ctx_left below = [] \<and>
    tree_pairs t = (k, v) # tree_pairs r @ ctx_right below \<and> zip_up y below = t"
  using assms
proof (induction t path rule: rb_minimum.induct)
  case (2 l k v h c r path)
  show ?case
  proof (cases "l = Nil_Node")
    case True
    then show ?thesis using "2.prems" by (auto intro!: exI [of _ "[]"])
  next
    case False
    have "rb_minimum l (Frame True k v h c r # path) = (y, path')" using "2.prems" False by simp
    from "2.IH" [OF False False this] obtain k' v' h' c' r' below where I:
      "y = Tree_Node Nil_Node k' v' h' c' r'" "path' = below @ Frame True k v h c r # path" "ctx_left below = []"
      "tree_pairs l = (k', v') # tree_pairs r' @ ctx_right below" "zip_up y below = l" by blast
    have z: "zip_up t (p @ q) = zip_up (zip_up t p) q" for t :: "'a tree_node" and p q
      by (induction p arbitrary: t) simp_all
    show ?thesis
    proof (intro exI conjI)
      show "y = Tree_Node Nil_Node k' v' h' c' r'" by (fact I(1))
      show "path' = (below @ [Frame True k v h c r]) @ path" using I(2) by simp
    qed (use I in \<open>simp_all add: ctx_append z\<close>)
  qed
qed simp

lemma zip_up_append: "zip_up t (p @ q) = zip_up (zip_up t p) q"
  by (induction p arbitrary: t) simp_all

context comparator_order begin

lemma rb_search_spec:
  assumes "rb_search_node cmp key t path = (x, path')" "keys_sorted cmp (zip_pairs t path)"
    and "\<forall>p\<in>set (ctx_left path). cmp (fst p) key < 0" "\<forall>p\<in>set (ctx_right path). cmp key (fst p) < 0"
  shows "zip_up x path' = zip_up t path \<and> zip_pairs x path' = zip_pairs t path \<and>
    (x = Nil_Node \<or> cmp key (node_key x) = 0) \<and>
    (\<forall>p\<in>set (ctx_left path'). cmp (fst p) key < 0) \<and> (\<forall>p\<in>set (ctx_right path'). cmp key (fst p) < 0)"
  using assms
proof (induction t arbitrary: path)
  case (Tree_Node l k v h c r)
  consider "cmp key k = 0" | "cmp key k < 0" | "cmp key k > 0" by linarith
  then show ?case
  proof cases
    case 1
    then show ?thesis using Tree_Node.prems by auto
  next
    case 2
    have "cmp key (fst q) < 0" if "q \<in> set (tree_pairs r)" for q
      using Tree_Node.prems(2) that cmp_less_trans [OF 2, of "fst q"] by simp
    then have "\<forall>p\<in>set (ctx_right (Frame True k v h c r # path)). cmp key (fst p) < 0"
      using Tree_Node.prems(4) 2 by (simp add: ball_Un)
    from Tree_Node.IH(1) [OF _ _ _ this] show ?thesis using Tree_Node.prems 2 by simp
  next
    case 3
    then have k: "cmp k key < 0" by (simp add: cmp_gt_iff)
    have "cmp (fst q) key < 0" if "q \<in> set (tree_pairs l)" for q
      using Tree_Node.prems(2) that cmp_less_trans [OF _ k, of "fst q"] by simp
    then have "\<forall>p\<in>set (ctx_left (Frame False k v h c l # path)). cmp (fst p) key < 0"
      using Tree_Node.prems(3) k by (simp add: ball_Un)
    from Tree_Node.IH(2) [OF _ _ this] show ?thesis using Tree_Node.prems 3 by simp
  qed
qed simp

lemma ins_pair_between:
  "\<forall>p\<in>set ps. cmp (fst p) k < 0 \<Longrightarrow> \<forall>p\<in>set qs. cmp k (fst p) < 0 \<Longrightarrow>
     ins_pair cmp k v (ps @ qs) = ps @ (k, v) # qs"
proof (induction ps)
  case Nil
  then show ?case by (cases qs) auto
next
  case (Cons p ps)
  then have "cmp k (fst p) > 0" using cmp_gt_iff [of k "fst p"] by simp
  then show ?case using Cons by (cases p) auto
qed

lemma not_has_key_between:
  "\<forall>p\<in>set ps. cmp (fst p) k < 0 \<Longrightarrow> \<forall>p\<in>set qs. cmp k (fst p) < 0 \<Longrightarrow>
     \<not> has_key (same_key cmp) k (mset (ps @ qs))"
  using cmp_eq_sym by (fastforce simp: has_key_mset)

lemma rb_insert_pairs:
  assumes "bst cmp t" "rb_tree_insert cmp k v t n w = (t', n', w')"
  shows "tree_pairs t' = ins_pair cmp k v (tree_pairs t) \<and>
      n' = n + (if has_key (same_key cmp) k (mset (tree_pairs t)) then 0 else 1) \<or>
    t' = t \<and> n' = n \<and> \<not> has_key (same_key cmp) k (mset (tree_pairs t))"
proof -
  obtain x path where S: "rb_search_node cmp k t [] = (x, path)" by (cases "rb_search_node cmp k t []")
  have sorted: "keys_sorted cmp (tree_pairs t)" using assms(1) by (simp add: bst_def)
  have spec: "zip_pairs x path = tree_pairs t" "zip_up x path = t" "x = Nil_Node \<or> cmp k (node_key x) = 0"
    "\<forall>p\<in>set (ctx_left path). cmp (fst p) k < 0" "\<forall>p\<in>set (ctx_right path). cmp k (fst p) < 0"
    using rb_search_spec [OF S] sorted by simp_all
  show ?thesis
  proof (cases x)
    case Nil_Node
    have absent: "\<not> has_key (same_key cmp) k (mset (tree_pairs t))"
      using not_has_key_between [OF spec(4,5)] unfolding spec(1) [symmetric] Nil_Node by simp
    show ?thesis
    proof (cases "malloc_struct w")
      case (Pair ok w1)
      show ?thesis
      proof (cases ok)
        case True
        obtain z path' where F: "rb_insert_fixup (Tree_Node Nil_Node k v 1 RB_RED Nil_Node) path = (z, path')"
          by (cases "rb_insert_fixup (Tree_Node Nil_Node k v 1 RB_RED Nil_Node) path")
        have "t' = paint RB_BLACK (zip_up z path')" "n' = n + 1"
          using assms(2) S Nil_Node Pair True F by (simp_all add: rb_tree_insert_def)
        then show ?thesis
          using insert_fixup_pairs [OF F] ins_pair_between [OF spec(4,5), of v] spec(1) Nil_Node absent
          by (simp add: zip_up_pairs)
      next
        case False
        then show ?thesis using assms(2) S Nil_Node Pair absent by (simp add: rb_tree_insert_def)
      qed
    qed
  next
    case (Tree_Node l a b h c r)
    have whole: "tree_pairs t = (ctx_left path @ tree_pairs l) @ (a, b) # tree_pairs r @ ctx_right path"
      using spec(1) Tree_Node by simp
    have t': "t' = zip_up (Tree_Node l a v h c r) path" "n' = n"
      using assms(2) S Tree_Node by (simp_all add: rb_tree_insert_def)
    have "cmp k a = 0" using spec(3) Tree_Node by simp
    then have "has_key (same_key cmp) k (mset (tree_pairs t))"
      using cmp_eq_sym [of a k] unfolding whole by simp
    moreover have "tree_pairs t' = ins_pair cmp k v (tree_pairs t)"
      using ins_pair_here [OF sorted [unfolded whole] \<open>cmp k a = 0\<close>, of v] unfolding t' whole
      by (simp add: zip_up_pairs)
    ultimately show ?thesis using t'(2) by simp
  qed
qed

lemma rb_delete_pairs:
  assumes "bst cmp t" "rb_tree_delete cmp k t n = (t', n')"
  shows "tree_pairs t' = del_pair cmp k (tree_pairs t) \<and>
      n' = n - (if has_key (same_key cmp) k (mset (tree_pairs t)) then 1 else 0)"
proof -
  obtain z path where S: "rb_search_node cmp k t [] = (z, path)" by (cases "rb_search_node cmp k t []")
  have sorted: "keys_sorted cmp (tree_pairs t)" using assms(1) by (simp add: bst_def)
  have spec: "zip_pairs z path = tree_pairs t" "zip_up z path = t" "z = Nil_Node \<or> cmp k (node_key z) = 0"
    "\<forall>p\<in>set (ctx_left path). cmp (fst p) k < 0" "\<forall>p\<in>set (ctx_right path). cmp k (fst p) < 0"
    using rb_search_spec [OF S] sorted by simp_all
  show ?thesis
  proof (cases z)
    case Nil_Node
    have absent: "\<not> has_key (same_key cmp) k (mset (tree_pairs t))"
      using not_has_key_between [OF spec(4,5)] unfolding spec(1) [symmetric] Nil_Node by simp
    then have "del_pair cmp k (tree_pairs t) = tree_pairs t"
      using cmp_eq_sym by (intro del_pair_absent) (auto simp: has_key_mset)
    then show ?thesis using assms(2) S Nil_Node absent by (simp add: rb_tree_delete_def)
  next
    case (Tree_Node l a b h c r)
    have whole: "tree_pairs t = (ctx_left path @ tree_pairs l) @ (a, b) # tree_pairs r @ ctx_right path"
      using spec(1) Tree_Node by simp
    have eq: "cmp k a = 0" using spec(3) Tree_Node by simp
    have present: "has_key (same_key cmp) k (mset (tree_pairs t))"
      using cmp_eq_sym [of a k] eq unfolding whole by simp
    have del: "del_pair cmp k (tree_pairs t) = ctx_left path @ tree_pairs l @ tree_pairs r @ ctx_right path"
      using del_pair_here [OF sorted [unfolded whole] eq] unfolding whole by simp
    let ?cut = "if l = Nil_Node then (c, r, path)
              else if r = Nil_Node then (c, l, path)
              else (case rb_minimum r [] of (y, below) \<Rightarrow>
                (node_color y, right_of y,
                 below @ Frame False (node_key y) (node_data y) (fr_height (snd (down True y))) c l # path))"
    obtain yc x xpath where cut: "?cut = (yc, x, xpath)" by (cases ?cut)
    have x: "zip_pairs x xpath = del_pair cmp k (tree_pairs t)"
    proof (cases "l = Nil_Node \<or> r = Nil_Node")
      case True
      then show ?thesis using cut del by (auto split: if_splits)
    next
      case False
      obtain y below where m: "rb_minimum r [] = (y, below)" by (cases "rb_minimum r []")
      show ?thesis
        using rb_minimum_spec [OF _ m] False cut m del by (auto simp: ctx_append)
    qed
    obtain x2 path2 where fin: "(if yc = RB_BLACK
        then (case rb_delete_fixup x xpath of (x, path) \<Rightarrow> (paint RB_BLACK x, path)) else (x, xpath)) = (x2, path2)"
      by fastforce
    have t': "t' = zip_up x2 path2" "n' = n - 1"
      using assms(2) unfolding rb_tree_delete_def S Tree_Node prod.case tree_node.case cut Let_def fin by auto
    have "zip_pairs x2 path2 = zip_pairs x xpath"
      using fin delete_fixup_pairs [of x xpath] by (auto split: if_splits prod.splits)
    then show ?thesis using x t' present by (simp add: zip_up_pairs)
  qed
qed

end

section \<open>Colours\<close>

fun black_height :: "'a tree_node \<Rightarrow> nat" where
  "black_height Nil_Node = 0"
| "black_height (Tree_Node l k v h c r) = black_height l + (if c = RB_BLACK then 1 else 0)"

fun colored :: "'a tree_node \<Rightarrow> bool" where
  "colored Nil_Node \<longleftrightarrow> True"
| "colored (Tree_Node l k v h c r) \<longleftrightarrow>
     (c = RB_RED \<longrightarrow> node_color l = RB_BLACK \<and> node_color r = RB_BLACK) \<and> colored l \<and> colored r"

fun level :: "'a tree_node \<Rightarrow> bool" where
  "level Nil_Node \<longleftrightarrow> True"
| "level (Tree_Node l k v h c r) \<longleftrightarrow> black_height l = black_height r \<and> level l \<and> level r"

definition rb_ok :: "'a tree_node \<Rightarrow> bool" where
  "rb_ok t \<longleftrightarrow> colored t \<and> level t \<and> node_color t = RB_BLACK"

text \<open>\<open>ctx_ok path c n\<close>: a tree with root colour \<open>c\<close> and black height \<open>n\<close> fits below the path.\<close>

fun ctx_ok :: "'a frame list \<Rightarrow> rb_color \<Rightarrow> nat \<Rightarrow> bool" where
  "ctx_ok [] c n \<longleftrightarrow> c = RB_BLACK"
| "ctx_ok (f # path) c n \<longleftrightarrow>
     colored (fr_sib f) \<and> level (fr_sib f) \<and> black_height (fr_sib f) = n \<and>
     (fr_color f = RB_RED \<longrightarrow> c = RB_BLACK \<and> node_color (fr_sib f) = RB_BLACK) \<and>
     ctx_ok path (fr_color f) (n + (if fr_color f = RB_BLACK then 1 else 0))"

lemma color_cases: "c \<noteq> RB_RED \<longleftrightarrow> c = RB_BLACK" "c \<noteq> RB_BLACK \<longleftrightarrow> c = RB_RED"
  by (cases c; simp)+

lemma ctx_ok_black: "ctx_ok path c n \<Longrightarrow> ctx_ok path RB_BLACK n"
  by (cases path) auto

lemma attach_color:
  "colored (attach f t) \<longleftrightarrow> colored t \<and> colored (fr_sib f) \<and>
     (fr_color f = RB_RED \<longrightarrow> node_color t = RB_BLACK \<and> node_color (fr_sib f) = RB_BLACK)"
  "level (attach f t) \<longleftrightarrow> black_height t = black_height (fr_sib f) \<and> level t \<and> level (fr_sib f)"
  "black_height t = black_height (fr_sib f) \<Longrightarrow>
     black_height (attach f t) = black_height t + (if fr_color f = RB_BLACK then 1 else 0)"
  by (cases f rule: frame_cases; auto)+

lemma zip_up_ok:
  "colored t \<Longrightarrow> level t \<Longrightarrow> ctx_ok path (node_color t) (black_height t) \<Longrightarrow> rb_ok (zip_up t path)"
proof (induction path arbitrary: t)
  case (Cons f path)
  then show ?case by (auto simp: attach_color)
qed (simp add: rb_ok_def)

lemma paint_simps [simp]:
  "level (paint c t) = level t" "paint c (paint c' t) = paint c t" "node_color (paint RB_BLACK t) = RB_BLACK"
  by (cases t; simp)+

lemma paint_black: "colored t \<Longrightarrow> colored (paint RB_BLACK t)"
  "black_height (paint RB_BLACK t) = black_height t + (if node_color t = RB_RED then 1 else 0)"
  by (cases t; simp add: color_cases)+

lemma rb_ok_paint: "rb_ok t \<Longrightarrow> paint RB_BLACK t = t"
  by (cases t) (simp_all add: rb_ok_def)

lemma search_ctx:
  "rb_search_node cmp key t path = (x, path') \<Longrightarrow> colored t \<Longrightarrow> level t \<Longrightarrow>
     ctx_ok path (node_color t) (black_height t) \<Longrightarrow>
     colored x \<and> level x \<and> ctx_ok path' (node_color x) (black_height x)"
proof (induction cmp key t path rule: rb_search_node.induct)
  case (2 cmp key l k v h c r path)
  then show ?case by (auto simp: Let_def split: if_splits)
qed simp

lemma minimum_ctx:
  "rb_minimum t path = (x, path') \<Longrightarrow> colored t \<Longrightarrow> level t \<Longrightarrow>
     ctx_ok path (node_color t) (black_height t) \<Longrightarrow>
     colored x \<and> level x \<and> ctx_ok path' (node_color x) (black_height x)"
proof (induction t path rule: rb_minimum.induct)
  case (2 l k v h c r path)
  then show ?case by (auto split: if_splits)
qed simp

lemma insert_fixup_stops: "fr_color p = RB_BLACK \<Longrightarrow> rb_insert_fixup z (p # path) = (z, p # path)"
  by (cases path) simp_all

lemma insert_fixup_ok:
  assumes "rb_insert_fixup z path = (z', path')" "colored z" "level z" "node_color z = RB_RED"
    "ctx_ok path RB_BLACK (black_height z)"
  shows "rb_ok (paint RB_BLACK (zip_up z' path'))"
  using assms
proof (induction z path arbitrary: z' path' rule: rb_insert_fixup.induct)
  case (1 z p g path)
  show ?case
  proof (cases "fr_color p = RB_RED")
    case False
    then have "rb_ok (zip_up z (p # g # path))"
      using "1.prems" by (intro zip_up_ok) (auto simp: color_cases)
    then have "rb_ok (paint RB_BLACK (zip_up z (p # g # path)))"
      using rb_ok_paint [of "zip_up z (p # g # path)"] by argo
    moreover have "z' = z" "path' = p # g # path" using "1.prems"(1) False by simp_all
    ultimately show ?thesis by (simp only:)
  next
    case red: True
    then have ctx: "ctx_ok path RB_BLACK (black_height z + 1)" "fr_color g = RB_BLACK"
      "colored (fr_sib p)" "level (fr_sib p)" "black_height (fr_sib p) = black_height z" "node_color (fr_sib p) = RB_BLACK"
      "colored (fr_sib g)" "level (fr_sib g)" "black_height (fr_sib g) = black_height z"
      using "1.prems"(5) by (auto simp: color_cases)
    show ?thesis
    proof (cases "node_color (fr_sib g) = RB_RED")
      case True
      let ?g = "attach (fr_paint RB_RED (fr_set_sib (paint RB_BLACK (fr_sib g)) g)) (attach (fr_paint RB_BLACK p) z)"
      have "rb_insert_fixup ?g path = (z', path')"
        using "1.prems"(1) red True by (cases "fr_left g") simp_all
      moreover have "colored ?g" "level ?g" "node_color ?g = RB_RED" "black_height ?g = black_height z + 1"
        using "1.prems"(2,3) ctx True by (simp_all add: attach_color paint_black)
      ultimately show ?thesis
        using "1.IH"(1) [OF red refl _ True] "1.IH"(3) [OF red refl _ True] ctx(1) by (cases "fr_left g") simp_all
    next
      case False
      obtain zl zk zv zh zr where z: "z = Tree_Node zl zk zv zh RB_RED zr"
        using "1.prems"(4) by (cases z) auto
      obtain q f where F: "rb_insert_fixup q (f # path) = (z', path')" "fr_color f = RB_BLACK"
        "colored (attach f q)" "level (attach f q)" "black_height (attach f q) = black_height z + 1"
        using "1.prems" red False ctx unfolding z
        by (cases p rule: frame_cases; cases g rule: frame_cases) (auto simp: color_cases)
      then have "zip_up z' path' = zip_up (attach f q) path" using insert_fixup_stops by fastforce
      moreover have "rb_ok (zip_up (attach f q) path)" using F ctx(1) by (intro zip_up_ok) simp_all
      ultimately show ?thesis using rb_ok_paint [of "zip_up (attach f q) path"] by simp
    qed
  qed
next
  case (2 z p)
  then have "rb_ok (zip_up z [p])" by (intro zip_up_ok) auto
  then have "rb_ok (paint RB_BLACK (zip_up z [p]))" using rb_ok_paint [of "zip_up z [p]"] by argo
  moreover have "z' = z" "path' = [p]" using 2 by simp_all
  ultimately show ?case by (simp only:)
next
  case (3 z)
  then show ?case by (simp add: rb_ok_def paint_black)
qed

text \<open>After the first step the sibling is black, and it is never the sentinel.\<close>

lemma red_sibling_ok:
  assumes "ctx_ok (p # path) RB_BLACK (Suc n)"
  shows "red_sibling_left p path = (p', path') \<Longrightarrow> fr_left p \<Longrightarrow>
      ctx_ok (p' # path') RB_BLACK (Suc n) \<and> node_color (fr_sib p') = RB_BLACK \<and> fr_left p' \<and> fr_sib p' \<noteq> Nil_Node"
    and "red_sibling_right p path = (p', path') \<Longrightarrow> \<not> fr_left p \<Longrightarrow>
      ctx_ok (p' # path') RB_BLACK (Suc n) \<and> node_color (fr_sib p') = RB_BLACK \<and> \<not> fr_left p' \<and> fr_sib p' \<noteq> Nil_Node"
  using assms by (cases p rule: frame_cases; cases "fr_sib p"; auto simp: Let_def color_cases split: if_splits)+

text \<open>The last step of the loop restores the black height at the parent.\<close>

lemma fixup_left_done:
  assumes "ctx_ok (q # rest) RB_BLACK (Suc n)" "node_color w = RB_BLACK" "w = fr_sib q" "fr_left q"
    and "\<not> (node_color (left_of w) = RB_BLACK \<and> node_color (right_of w) = RB_BLACK)"
    and "colored x" "level x" "black_height x = n"
    and "w2 = (if node_color (right_of w) = RB_BLACK
      then rb_right_rotate (paint RB_RED (paint_left RB_BLACK w)) else w)"
    and "t = rb_left_rotate (attach (fr_set_sib (paint_right RB_BLACK (paint (fr_color q) w2)) (fr_paint RB_BLACK q)) x)"
  shows "rb_ok (zip_up t rest)"
proof -
  obtain k v h c where q: "q = Frame True k v h c w" using assms(3,4) by (cases q rule: frame_cases) auto
  obtain wl wk wv wh wc wr where w: "w = Tree_Node wl wk wv wh wc wr"
    using assms(5) by (cases w) auto
  have "colored t \<and> level t \<and> node_color t = c \<and> black_height t = Suc n + (if c = RB_BLACK then 1 else 0)"
  proof (cases "node_color wr = RB_BLACK")
    case True
    then obtain a b e f g d where "wl = Tree_Node a b e f g d" using assms(5) w by (cases wl) auto
    then show ?thesis using assms True unfolding q w by (auto simp: paint_black color_cases split: if_splits)
  next
    case False
    then obtain a b e f g d where "wr = Tree_Node a b e f g d" by (cases wr) auto
    then show ?thesis using assms False unfolding q w by (auto simp: paint_black color_cases split: if_splits)
  qed
  then show ?thesis using assms(1) q by (intro zip_up_ok) auto
qed

lemma fixup_right_done:
  assumes "ctx_ok (q # rest) RB_BLACK (Suc n)" "node_color w = RB_BLACK" "w = fr_sib q" "\<not> fr_left q"
    and "\<not> (node_color (right_of w) = RB_BLACK \<and> node_color (left_of w) = RB_BLACK)"
    and "colored x" "level x" "black_height x = n"
    and "w2 = (if node_color (left_of w) = RB_BLACK
      then rb_left_rotate (paint RB_RED (paint_right RB_BLACK w)) else w)"
    and "t = rb_right_rotate (attach (fr_set_sib (paint_left RB_BLACK (paint (fr_color q) w2)) (fr_paint RB_BLACK q)) x)"
  shows "rb_ok (zip_up t rest)"
proof -
  obtain k v h c where q: "q = Frame False k v h c w" using assms(3,4) by (cases q rule: frame_cases) auto
  obtain wl wk wv wh wc wr where w: "w = Tree_Node wl wk wv wh wc wr"
    using assms(5) by (cases w) auto
  have "colored t \<and> level t \<and> node_color t = c \<and> black_height t = Suc n + (if c = RB_BLACK then 1 else 0)"
  proof (cases "node_color wl = RB_BLACK")
    case True
    then obtain a b e f g d where "wr = Tree_Node a b e f g d" using assms(5) w by (cases wr) auto
    then show ?thesis using assms True unfolding q w by (auto simp: paint_black color_cases split: if_splits)
  next
    case False
    then obtain a b e f g d where "wl = Tree_Node a b e f g d" by (cases wl) auto
    then show ?thesis using assms False unfolding q w by (auto simp: paint_black color_cases split: if_splits)
  qed
  then show ?thesis using assms(1) q by (intro zip_up_ok) auto
qed

lemma both_black_step:
  assumes "ctx_ok (q # rest) RB_BLACK (Suc n)" "node_color (fr_sib q) = RB_BLACK" "fr_sib q \<noteq> Nil_Node"
    "node_color (left_of (fr_sib q)) = RB_BLACK" "node_color (right_of (fr_sib q)) = RB_BLACK"
    "colored x" "level x" "node_color x = RB_BLACK" "black_height x = n"
    "t = attach (fr_set_sib (paint RB_RED (fr_sib q)) q) x"
  shows "colored (paint RB_BLACK t) \<and> level t \<and> ctx_ok rest RB_BLACK (Suc (black_height t))"
proof -
  obtain wl wk wv wh wc wr where w: "fr_sib q = Tree_Node wl wk wv wh wc wr" using assms(3) by (cases "fr_sib q") auto
  show ?thesis
    using assms w ctx_ok_black [of rest "fr_color q"] by (cases q rule: frame_cases) (auto simp: color_cases split: if_splits)
qed

lemma delete_fixup_ok:
  assumes "rb_delete_fixup x path = (x', path')" "colored (paint RB_BLACK x)" "level x"
    "path \<noteq> [] \<Longrightarrow> ctx_ok path RB_BLACK (Suc (black_height x))"
  shows "rb_ok (zip_up (paint RB_BLACK x') path')"
  using assms
proof (induction x path arbitrary: x' path' rule: rb_delete_fixup.induct)
  case (1 x)
  then show ?case by (simp add: rb_ok_def)
next
  case (2 x p path)
  have ctx: "ctx_ok (p # path) RB_BLACK (Suc (black_height x))" using "2.prems"(4) by simp
  show ?case
  proof (cases "node_color x = RB_BLACK")
    case False
    then have "x' = x" "path' = p # path" using "2.prems"(1) by simp_all
    moreover have "rb_ok (zip_up (paint RB_BLACK x) (p # path))"
      using "2.prems"(2,3) ctx False by (intro zip_up_ok) (simp_all add: paint_black color_cases)
    ultimately show ?thesis by (simp only:)
  next
    case black: True
    then have x: "colored x" "level x" using "2.prems"(2,3) by (cases x; simp)+
    show ?thesis
    proof (cases "fr_left p")
      case left: True
      obtain q rest where q: "red_sibling_left p path = (q, rest)" by (cases "red_sibling_left p path")
      note Q = red_sibling_ok(1) [OF ctx q left]
      let ?w = "fr_sib q"
      show ?thesis
      proof (cases "node_color (left_of ?w) = RB_BLACK \<and> node_color (right_of ?w) = RB_BLACK")
        case both: True
        let ?t = "attach (fr_set_sib (paint RB_RED ?w) q) x"
        have "colored (paint RB_BLACK ?t) \<and> level ?t \<and> ctx_ok rest RB_BLACK (Suc (black_height ?t))"
          using both_black_step [of q rest "black_height x" x] Q both x black by simp
        moreover have "rb_delete_fixup ?t rest = (x', path')"
          using "2.prems"(1) black left q both by (simp del: red_sibling_left.simps)
        ultimately show ?thesis
          using "2.IH"(1) [OF _ left q [symmetric] refl both] black by simp
      next
        case False
        let ?t = "rb_left_rotate (attach (fr_set_sib (paint_right RB_BLACK (paint (fr_color q)
          (if node_color (right_of ?w) = RB_BLACK then rb_right_rotate (paint RB_RED (paint_left RB_BLACK ?w)) else ?w)))
          (fr_paint RB_BLACK q)) x)"
        have "rb_ok (zip_up ?t rest)"
          using fixup_left_done [OF _ _ refl _ False x refl refl refl] Q by simp
        moreover have "x' = zip_up ?t rest" "path' = []"
          using "2.prems"(1) black left q False by (simp_all add: Let_def del: red_sibling_left.simps)
        ultimately show ?thesis using rb_ok_paint [of "zip_up ?t rest"] by simp
      qed
    next
      case right: False
      obtain q rest where q: "red_sibling_right p path = (q, rest)" by (cases "red_sibling_right p path")
      note Q = red_sibling_ok(2) [OF ctx q right]
      let ?w = "fr_sib q"
      show ?thesis
      proof (cases "node_color (right_of ?w) = RB_BLACK \<and> node_color (left_of ?w) = RB_BLACK")
        case both: True
        let ?t = "attach (fr_set_sib (paint RB_RED ?w) q) x"
        have "colored (paint RB_BLACK ?t) \<and> level ?t \<and> ctx_ok rest RB_BLACK (Suc (black_height ?t))"
          using both_black_step [of q rest "black_height x" x] Q both x black by simp
        moreover have "rb_delete_fixup ?t rest = (x', path')"
          using "2.prems"(1) black right q both by (simp del: red_sibling_right.simps)
        ultimately show ?thesis
          using "2.IH"(2) [OF _ right q [symmetric] refl both] black by simp
      next
        case False
        let ?t = "rb_right_rotate (attach (fr_set_sib (paint_left RB_BLACK (paint (fr_color q)
          (if node_color (left_of ?w) = RB_BLACK then rb_left_rotate (paint RB_RED (paint_right RB_BLACK ?w)) else ?w)))
          (fr_paint RB_BLACK q)) x)"
        have "rb_ok (zip_up ?t rest)"
          using fixup_right_done [OF _ _ refl _ False x refl refl refl] Q by simp
        moreover have "x' = zip_up ?t rest" "path' = []"
          using "2.prems"(1) black right q False by (simp_all add: Let_def del: red_sibling_right.simps)
        ultimately show ?thesis using rb_ok_paint [of "zip_up ?t rest"] by simp
      qed
    qed
  qed
qed

lemma rb_insert_ok:
  assumes "rb_ok t" "rb_tree_insert cmp k v t n w = (t', n', w')"
  shows "rb_ok t'"
proof -
  obtain x path where S: "rb_search_node cmp k t [] = (x, path)" by (cases "rb_search_node cmp k t []")
  have C: "colored x" "level x" "ctx_ok path (node_color x) (black_height x)"
    using search_ctx [OF S] assms(1) by (simp_all add: rb_ok_def)
  show ?thesis
  proof (cases x)
    case Nil_Node
    obtain z path' where F: "rb_insert_fixup (Tree_Node Nil_Node k v 1 RB_RED Nil_Node) path = (z, path')"
      by (cases "rb_insert_fixup (Tree_Node Nil_Node k v 1 RB_RED Nil_Node) path")
    have "t' = t \<or> t' = paint RB_BLACK (zip_up z path')"
      using assms(2) S Nil_Node F by (auto simp: rb_tree_insert_def split: prod.splits bool.splits)
    then show ?thesis using insert_fixup_ok [OF F] C Nil_Node assms(1) by auto
  next
    case (Tree_Node l a b h c r)
    then have "t' = zip_up (Tree_Node l a v h c r) path"
      using assms(2) S by (simp add: rb_tree_insert_def)
    then show ?thesis using C Tree_Node by (auto intro!: zip_up_ok)
  qed
qed

lemma rb_minimum_path:
  "rb_minimum t path = (case rb_minimum t [] of (y, below) \<Rightarrow> (y, below @ path))"
proof (induction t arbitrary: path)
  case (Tree_Node l k v h c r)
  show ?case
    using Tree_Node.IH(1) [of "Frame True k v h c r # path"] Tree_Node.IH(1) [of "[Frame True k v h c r]"]
    by (auto split: prod.splits)
qed simp

text \<open>Taking out a node with at most one child.\<close>

lemma splice_ok:
  assumes "colored (Tree_Node l k v h c r)" "level (Tree_Node l k v h c r)"
    "ctx_ok path c (black_height (Tree_Node l k v h c r))" "l = Nil_Node \<and> x = r \<or> r = Nil_Node \<and> x = l"
    and "(if c = RB_BLACK then (case rb_delete_fixup x path of (x, path) \<Rightarrow> (paint RB_BLACK x, path)) else (x, path))
      = (x2, path2)"
  shows "rb_ok (zip_up x2 path2)"
proof -
  have x: "colored x" "level x" "black_height x = black_height l" "c = RB_RED \<longrightarrow> node_color x = RB_BLACK"
    using assms(1,2,4) by auto
  show ?thesis
  proof (cases "c = RB_BLACK")
    case True
    obtain x' path' where F: "rb_delete_fixup x path = (x', path')" by (cases "rb_delete_fixup x path")
    show ?thesis
      using delete_fixup_ok [OF F] x assms(3,5) True F by (simp add: paint_black)
  next
    case False
    then show ?thesis
      using assms(3,5) x ctx_ok_black [of path c "black_height x"] by (auto simp: color_cases intro!: zip_up_ok)
  qed
qed

lemma rb_delete_ok:
  assumes "rb_ok t" "rb_tree_delete cmp k t n = (t', n')"
  shows "rb_ok t'"
proof -
  obtain z path where S: "rb_search_node cmp k t [] = (z, path)" by (cases "rb_search_node cmp k t []")
  have C: "colored z" "level z" "ctx_ok path (node_color z) (black_height z)"
    using search_ctx [OF S] assms(1) by (simp_all add: rb_ok_def)
  show ?thesis
  proof (cases z)
    case Nil_Node
    then show ?thesis using assms S by (simp add: rb_tree_delete_def)
  next
    case (Tree_Node l a b h c r)
    let ?fix = "\<lambda>yc x path. if yc = RB_BLACK
        then (case rb_delete_fixup x path of (x, path) \<Rightarrow> (paint RB_BLACK x, path)) else (x, path)"
    show ?thesis
    proof (cases "l = Nil_Node \<or> r = Nil_Node")
      case True
      let ?x = "if l = Nil_Node then r else l"
      obtain x2 path2 where fin: "?fix c ?x path = (x2, path2)" by fastforce
      have "t' = zip_up x2 path2"
        using assms(2) S Tree_Node True fin by (auto simp: rb_tree_delete_def Let_def split: if_splits prod.splits)
      moreover have "l = Nil_Node \<and> ?x = r \<or> r = Nil_Node \<and> ?x = l" using True by auto
      ultimately show ?thesis
        using splice_ok [of l a b h c r path ?x x2 path2] fin C unfolding Tree_Node by simp
    next
      case False
      obtain y below where m: "rb_minimum r [] = (y, below)" by (cases "rb_minimum r []")
      obtain yk yv yh yc yr where y: "y = Tree_Node Nil_Node yk yv yh yc yr"
        using rb_minimum_spec [OF _ m] False by auto
      let ?p = "Frame False yk yv yh c l # path"
      obtain x2 path2 where fin: "?fix yc yr (below @ ?p) = (x2, path2)" by fastforce
      have "t' = zip_up x2 path2"
        using assms(2) S Tree_Node False fin m y
        by (auto simp: rb_tree_delete_def Let_def split: if_splits prod.splits)
      moreover have "rb_minimum r ?p = (y, below @ ?p)" using rb_minimum_path [of r ?p] m by simp
      then have "colored y \<and> level y \<and> ctx_ok (below @ ?p) (node_color y) (black_height y)"
        using minimum_ctx C Tree_Node by fastforce
      ultimately show ?thesis
        using splice_ok [of Nil_Node yk yv yh yc yr "below @ ?p" yr x2 path2] fin y by simp
    qed
  qed
qed

text \<open>A red-black tree is at most twice as deep as its black height.\<close>

lemma rb_depth_bound:
  "colored t \<Longrightarrow> level t \<Longrightarrow>
     tree_depth t \<le> 2 * black_height t + (if node_color t = RB_RED then 1 else 0) \<and>
     2 ^ black_height t \<le> length (tree_pairs t) + 1"
proof (induction t)
  case (Tree_Node l k v h c r)
  then show ?case by (cases c) (auto simp: color_cases split: if_splits)
qed simp

lemma rb_search_same: "fst (rb_search_node cmp key t path) = tree_search_node cmp key t"
  by (induction t arbitrary: path) (simp_all add: Let_def)

lemma rb_insert_counts:
  assumes "alloc_fails w = []" "rb_tree_insert cmp k v t n w = (t', n', w')"
  shows "n' = n + (if tree_search_node cmp k t = Nil_Node then 1 else 0)"
  using assms rb_search_same [of cmp k t "[]"]
  by (auto simp: rb_tree_insert_def malloc_struct_no_failures split: prod.splits if_splits)

end
