(* ===== verification/Trees.thy ===== *)
theory Trees
  imports AVL_Tree Red_Black_Tree
begin

text \<open>
  The public tree object, \<open>src/tree/tree.c\<close>, over either balanced tree: its methods, its
  invariant, and its interpretation as a keyed container.
\<close>

section \<open>State and methods\<close>

datatype tree_type = TREE_AVL | TREE_RED_BLACK

record 'a tree_impl =
  ti_type :: tree_type
  ti_cmp :: "'a comparator option"
  ti_root :: "'a tree_node"
  ti_size :: nat
  ti_user_data :: "'a ptr"

definition avl_tree_insert :: "'a tree_impl \<Rightarrow> 'a ptr \<Rightarrow> 'a ptr \<Rightarrow> 'a world \<Rightarrow> 'a tree_impl \<times> 'a world" where
  "avl_tree_insert t key value w =
     (case ti_cmp t of
        None \<Rightarrow> (t, w)
      | Some cmp \<Rightarrow>
         (case avl_insert_node cmp key value (ti_root t) (ti_size t) w of
            (root, sz, w) \<Rightarrow> (t\<lparr>ti_root := root, ti_size := sz\<rparr>, w)))"

definition avl_tree_delete :: "'a tree_impl \<Rightarrow> 'a ptr \<Rightarrow> 'a tree_impl" where
  "avl_tree_delete t key =
     (case ti_cmp t of
        None \<Rightarrow> t
      | Some cmp \<Rightarrow>
         (if key = NULL then t
          else (case avl_delete_node cmp key (ti_root t) (ti_size t) of
            (root, sz) \<Rightarrow> t\<lparr>ti_root := root, ti_size := sz\<rparr>)))"

fun tree_insert_method ::
  "'a tree_impl option \<Rightarrow> 'a ptr \<Rightarrow> 'a ptr \<Rightarrow> 'a world \<Rightarrow> ova_error_code \<times> 'a tree_impl option \<times> 'a world" where
  "tree_insert_method None key value w = (OVA_ERROR_INVALID_ARG, None, w)"
| "tree_insert_method (Some impl) key value w =
     (case ti_cmp impl of
        None \<Rightarrow> (OVA_ERROR_INVALID_ARG, Some impl, w)
      | Some cmp \<Rightarrow>
          (if key = NULL then (OVA_ERROR_INVALID_ARG, Some impl, w)
           else if ti_type impl = TREE_AVL then
             (case avl_tree_insert impl key value w of (impl, w) \<Rightarrow> (OVA_SUCCESS, Some impl, w))
           else
             (case rb_tree_insert cmp key value (ti_root impl) (ti_size impl) w of
                (root, sz, w) \<Rightarrow> (OVA_SUCCESS, Some (impl\<lparr>ti_root := root, ti_size := sz\<rparr>), w))))"

fun tree_search_method :: "'a tree_impl option \<Rightarrow> 'a ptr \<Rightarrow> 'a ptr" where
  "tree_search_method None key = NULL"
| "tree_search_method (Some impl) key =
     (case ti_cmp impl of
        None \<Rightarrow> NULL
      | Some cmp \<Rightarrow> (if key = NULL then NULL else node_value (tree_search_node cmp key (ti_root impl))))"

fun tree_delete_method :: "'a tree_impl option \<Rightarrow> 'a ptr \<Rightarrow> ova_error_code \<times> 'a tree_impl option" where
  "tree_delete_method None key = (OVA_ERROR_INVALID_ARG, None)"
| "tree_delete_method (Some impl) key =
     (case ti_cmp impl of
        None \<Rightarrow> (OVA_ERROR_INVALID_ARG, Some impl)
      | Some cmp \<Rightarrow>
          (if key = NULL then (OVA_ERROR_INVALID_ARG, Some impl)
           else if ti_type impl = TREE_AVL then (OVA_SUCCESS, Some (avl_tree_delete impl key))
           else
             (case rb_tree_delete cmp key (ti_root impl) (ti_size impl) of
                (root, sz) \<Rightarrow> (OVA_SUCCESS, Some (impl\<lparr>ti_root := root, ti_size := sz\<rparr>)))))"

fun tree_min_method :: "'a tree_impl option \<Rightarrow> 'a ptr" where
  "tree_min_method None = NULL"
| "tree_min_method (Some impl) = node_value (tree_min_node (ti_root impl))"

fun tree_max_method :: "'a tree_impl option \<Rightarrow> 'a ptr" where
  "tree_max_method None = NULL"
| "tree_max_method (Some impl) = node_value (tree_max_node (ti_root impl))"

fun tree_predecessor_method :: "'a tree_impl option \<Rightarrow> 'a ptr \<Rightarrow> 'a ptr" where
  "tree_predecessor_method None key = NULL"
| "tree_predecessor_method (Some impl) key =
     (case ti_cmp impl of
        None \<Rightarrow> NULL
      | Some cmp \<Rightarrow> (if key = NULL then NULL else node_value (pred_loop cmp key (ti_root impl) Nil_Node)))"

fun tree_successor_method :: "'a tree_impl option \<Rightarrow> 'a ptr \<Rightarrow> 'a ptr" where
  "tree_successor_method None key = NULL"
| "tree_successor_method (Some impl) key =
     (case ti_cmp impl of
        None \<Rightarrow> NULL
      | Some cmp \<Rightarrow> (if key = NULL then NULL else node_value (succ_loop cmp key (ti_root impl) Nil_Node)))"

fun tree_range_query_method ::
  "'a tree_impl option \<Rightarrow> 'a ptr \<Rightarrow> 'a ptr \<Rightarrow> 'a world \<Rightarrow> 'a list_obj option \<times> 'a world" where
  "tree_range_query_method None low high w = (None, w)"
| "tree_range_query_method (Some impl) low high w =
     (case ti_cmp impl of
        None \<Rightarrow> (None, w)
      | Some cmp \<Rightarrow>
          (if low = NULL \<or> high = NULL \<or> cmp low high > 0 then (None, w)
           else
             (let cap = (if ti_size impl > 0 \<and> ti_size impl < 1024 * 1024 then int (ti_size impl) else 4)
              in (case create_list ARRAY_LIST cap None w of
                    (None, w) \<Rightarrow> (None, w)
                  | (Some out, w) \<Rightarrow>
                      (case tree_range_query_node cmp (ti_root impl) low high out w of
                         (out, w) \<Rightarrow> (Some out, w))))))"

fun tree_in_order_traverse_method ::
  "'a tree_impl option \<Rightarrow> ('a ptr \<Rightarrow> 'a ptr \<Rightarrow> 's \<Rightarrow> 's) option \<Rightarrow> 's \<Rightarrow> 's" where
  "tree_in_order_traverse_method (Some impl) (Some callback) s = tree_in_order_node callback (ti_root impl) s"
| "tree_in_order_traverse_method _ _ s = s"

fun tree_size_method :: "'a tree_impl option \<Rightarrow> int" where
  "tree_size_method None = 0"
| "tree_size_method (Some impl) = wrap_int (int (ti_size impl))"

text \<open>The red-black tree also allocates its sentinel.\<close>

definition create_tree ::
  "tree_type \<Rightarrow> 'a comparator option \<Rightarrow> 'a world \<Rightarrow> 'a tree_impl option \<times> 'a world" where
  "create_tree type cmp w =
     (if cmp = None then (None, w)
      else (case malloc_struct w of
         (False, w) \<Rightarrow> (None, w)
       | (True, w) \<Rightarrow>
        (case malloc_struct w of
           (False, w) \<Rightarrow> (None, w)
         | (True, w) \<Rightarrow>
            (let impl = \<lparr>ti_type = type, ti_cmp = cmp, ti_root = Nil_Node, ti_size = 0, ti_user_data = NULL\<rparr> in
             if type = TREE_RED_BLACK then
               (case malloc_struct w of (False, w) \<Rightarrow> (None, w) | (True, w) \<Rightarrow> (Some impl, w))
             else (Some impl, w)))))"

section \<open>Invariant\<close>

definition tree_order :: "'a tree_impl \<Rightarrow> 'a comparator" where
  "tree_order t = (case ti_cmp t of Some cmp \<Rightarrow> cmp | None \<Rightarrow> (\<lambda>a b. 0))"

definition balanced :: "'a tree_impl \<Rightarrow> bool" where
  "balanced t \<longleftrightarrow> (case ti_type t of TREE_AVL \<Rightarrow> avl (ti_root t) | TREE_RED_BLACK \<Rightarrow> rb_ok (ti_root t))"

definition tree_inv :: "'a tree_impl \<Rightarrow> bool" where
  "tree_inv t \<longleftrightarrow> ti_cmp t \<noteq> None \<and> comparator_order (tree_order t) \<and> bst (tree_order t) (ti_root t) \<and>
     balanced t \<and> ti_size t = length (tree_pairs (ti_root t))"

definition tree_entries :: "'a tree_impl \<Rightarrow> ('a ptr \<times> 'a ptr) multiset" where
  "tree_entries t = mset (tree_pairs (ti_root t))"

abbreviation tree_same :: "'a tree_impl \<Rightarrow> 'a ptr \<Rightarrow> 'a ptr \<Rightarrow> bool" where
  "tree_same t \<equiv> same_key (tree_order t)"

lemma tree_inv_cmp: "tree_inv t \<Longrightarrow> ti_cmp t = Some (tree_order t)"
  by (auto simp: tree_inv_def tree_order_def)

lemma tree_order_update [simp]:
  "tree_order (t\<lparr>ti_root := r\<rparr>) = tree_order t" "tree_order (t\<lparr>ti_size := n\<rparr>) = tree_order t"
  by (simp_all add: tree_order_def)

text \<open>Both insertions in one statement: the list of pairs is updated, or nothing changed because
  the node could not be allocated; the report is success either way.\<close>

lemma tree_insert_cases:
  assumes "tree_inv t" "k \<noteq> NULL" "tree_insert_method (Some t) k v w = (e, t2, w')"
  shows "\<exists>t'. t2 = Some t' \<and> e = OVA_SUCCESS \<and> tree_inv t' \<and> tree_order t' = tree_order t \<and> ti_type t' = ti_type t \<and>
    (tree_pairs (ti_root t') = ins_pair (tree_order t) k v (tree_pairs (ti_root t)) \<or>
     tree_pairs (ti_root t') = tree_pairs (ti_root t) \<and> \<not> has_key (tree_same t) k (tree_entries t))"
proof -
  have cmp: "comparator_order (tree_order t)" "bst (tree_order t) (ti_root t)"
    "ti_size t = length (tree_pairs (ti_root t))"
    using assms(1) by (simp_all add: tree_inv_def)
  note sorted = cmp(2) [unfolded bst_def]
  have len: "length (ins_pair (tree_order t) k v (tree_pairs (ti_root t))) = length (tree_pairs (ti_root t)) +
      (if has_key (tree_same t) k (tree_entries t) then 0 else 1)"
    using comparator_order.size_ins_pair [OF cmp(1) sorted] by (simp add: tree_entries_def)
  have ordered: "keys_sorted (tree_order t) (ins_pair (tree_order t) k v (tree_pairs (ti_root t)))"
    by (rule comparator_order.ins_pair_sorted [OF cmp(1) sorted])
  obtain root n where r: "t2 = Some (t\<lparr>ti_root := root, ti_size := n\<rparr>)" "e = OVA_SUCCESS"
    "balanced (t\<lparr>ti_root := root, ti_size := n\<rparr>)"
    "tree_pairs root = ins_pair (tree_order t) k v (tree_pairs (ti_root t)) \<and>
      n = ti_size t + (if has_key (tree_same t) k (tree_entries t) then 0 else 1) \<or>
     tree_pairs root = tree_pairs (ti_root t) \<and> n = ti_size t \<and> \<not> has_key (tree_same t) k (tree_entries t)"
  proof (cases "ti_type t")
    case TREE_AVL
    obtain root n w1 where I: "avl_insert_node (tree_order t) k v (ti_root t) (ti_size t) w = (root, n, w1)"
      by (cases "avl_insert_node (tree_order t) k v (ti_root t) (ti_size t) w")
    show thesis
      using that [of n root] comparator_order.avl_insert_pairs [OF cmp(1,2) I] avl_insert_avl [OF _ I] assms I TREE_AVL
      by (auto simp: tree_inv_cmp [OF assms(1)] avl_tree_insert_def balanced_def tree_inv_def tree_entries_def)
  next
    case TREE_RED_BLACK
    obtain root n w1 where I: "rb_tree_insert (tree_order t) k v (ti_root t) (ti_size t) w = (root, n, w1)"
      by (cases "rb_tree_insert (tree_order t) k v (ti_root t) (ti_size t) w")
    show thesis
      using that [of n root] comparator_order.rb_insert_pairs [OF cmp(1,2) I] rb_insert_ok [OF _ I] assms I TREE_RED_BLACK
      by (auto simp: tree_inv_cmp [OF assms(1)] balanced_def tree_inv_def tree_entries_def)
  qed
  have "tree_inv (t\<lparr>ti_root := root, ti_size := n\<rparr>)"
    using assms(1) r(3,4) ordered len by (auto simp: tree_inv_def bst_def)
  then show ?thesis using r by auto
qed

lemma tree_delete_spec:
  assumes "tree_inv t" "k \<noteq> NULL" "tree_delete_method (Some t) k = (e, t2)"
  shows "\<exists>t'. t2 = Some t' \<and> e = OVA_SUCCESS \<and> tree_inv t' \<and> tree_order t' = tree_order t \<and> ti_type t' = ti_type t \<and>
    tree_pairs (ti_root t') = del_pair (tree_order t) k (tree_pairs (ti_root t))"
proof -
  have cmp: "comparator_order (tree_order t)" "bst (tree_order t) (ti_root t)"
    "length (tree_pairs (ti_root t)) \<le> ti_size t" "ti_size t = length (tree_pairs (ti_root t))"
    using assms(1) by (simp_all add: tree_inv_def)
  note sorted = cmp(2) [unfolded bst_def]
  have len: "length (del_pair (tree_order t) k (tree_pairs (ti_root t))) = ti_size t -
      (if has_key (tree_same t) k (tree_entries t) then 1 else 0)"
    using size_drop_key [OF comparator_order.cmp_equiv comparator_order.keys_sorted_apart, OF cmp(1) cmp(1) sorted, of k]
      arg_cong [OF comparator_order.del_pair_mset [OF cmp(1) sorted, of k], of size] cmp(4)
    by (simp add: tree_entries_def)
  have ordered: "keys_sorted (tree_order t) (del_pair (tree_order t) k (tree_pairs (ti_root t)))"
    by (rule comparator_order.del_pair_sorted [OF cmp(1) sorted])
  obtain root n where r: "t2 = Some (t\<lparr>ti_root := root, ti_size := n\<rparr>)" "e = OVA_SUCCESS"
    "balanced (t\<lparr>ti_root := root, ti_size := n\<rparr>)"
    "tree_pairs root = del_pair (tree_order t) k (tree_pairs (ti_root t))"
    "n = ti_size t - (if has_key (tree_same t) k (tree_entries t) then 1 else 0)"
  proof (cases "ti_type t")
    case TREE_AVL
    obtain root n where I: "avl_delete_node (tree_order t) k (ti_root t) (ti_size t) = (root, n)"
      by (cases "avl_delete_node (tree_order t) k (ti_root t) (ti_size t)")
    show thesis
      using that [of n root] comparator_order.avl_delete_pairs [OF cmp(1,2) I cmp(3)] avl_delete_avl [OF _ I] assms I TREE_AVL
      by (auto simp: tree_inv_cmp [OF assms(1)] avl_tree_delete_def balanced_def tree_inv_def tree_entries_def)
  next
    case TREE_RED_BLACK
    obtain root n where I: "rb_tree_delete (tree_order t) k (ti_root t) (ti_size t) = (root, n)"
      by (cases "rb_tree_delete (tree_order t) k (ti_root t) (ti_size t)")
    show thesis
      using that [of n root] comparator_order.rb_delete_pairs [OF cmp(1,2) I] rb_delete_ok [OF _ I] assms I TREE_RED_BLACK
      by (auto simp: tree_inv_cmp [OF assms(1)] balanced_def tree_inv_def tree_entries_def)
  qed
  have "tree_inv (t\<lparr>ti_root := root, ti_size := n\<rparr>)"
    using assms(1) r(3-5) ordered len by (auto simp: tree_inv_def bst_def)
  then show ?thesis using r by auto
qed

section \<open>The tree as a keyed container\<close>

definition tree_put :: "'a tree_impl \<Rightarrow> 'a ptr \<Rightarrow> 'a ptr \<Rightarrow> 'a world \<Rightarrow> bool \<times> 'a tree_impl \<times> 'a world" where
  "tree_put t k v w = (case tree_insert_method (Some t) k v w of (e, t', w') \<Rightarrow>
     (tree_search_node (tree_order t) k (ti_root (the t')) \<noteq> Nil_Node, the t', w'))"

definition tree_drop :: "'a tree_impl \<Rightarrow> 'a ptr \<Rightarrow> 'a tree_impl" where
  "tree_drop t k = the (snd (tree_delete_method (Some t) k))"

lemma tree_put_spec:
  assumes "tree_inv t" "k \<noteq> NULL" "tree_put t k v w = (ok, t', w')"
  shows "tree_inv t' \<and> tree_same t' = tree_same t \<and>
    (ok \<longrightarrow> tree_entries t' = put_entry (tree_same t) k v (tree_entries t)) \<and>
    (\<not> ok \<longrightarrow> tree_entries t' = tree_entries t \<and> \<not> has_key (tree_same t) k (tree_entries t))"
proof -
  obtain e t2 w2 where I: "tree_insert_method (Some t) k v w = (e, t2, w2)"
    by (cases "tree_insert_method (Some t) k v w")
  have t': "t2 = Some t'" "ok \<longleftrightarrow> tree_search_node (tree_order t) k (ti_root t') \<noteq> Nil_Node"
    using assms(3) I tree_insert_cases [OF assms(1,2) I] by (auto simp: tree_put_def)
  have inv: "tree_inv t'" "tree_order t' = tree_order t"
    using tree_insert_cases [OF assms(1,2) I] t'(1) by auto
  have cmp: "comparator_order (tree_order t)" "bst (tree_order t) (ti_root t)" "bst (tree_order t) (ti_root t')"
    using assms(1) inv by (simp_all add: tree_inv_def)
  have ok: "ok \<longleftrightarrow> has_key (tree_same t) k (tree_entries t')"
    using comparator_order.tree_search_spec(2) [OF cmp(1,3)] t'(2) by (simp add: tree_entries_def)
  have "tree_entries t' = put_entry (tree_same t) k v (tree_entries t) \<or>
      tree_entries t' = tree_entries t \<and> \<not> has_key (tree_same t) k (tree_entries t)"
    using tree_insert_cases [OF assms(1,2) I] t'(1)
      comparator_order.ins_pair_mset [OF cmp(1) cmp(2) [unfolded bst_def], of k v]
    by (auto simp: tree_entries_def)
  moreover have "has_key (tree_same t) k (put_entry (tree_same t) k v (tree_entries t))"
    using comparator_order.cmp_refl [OF cmp(1)]
    by (simp add: has_key_put [OF comparator_order.cmp_equiv [OF cmp(1)]])
  ultimately show ?thesis using inv ok by auto
qed

lemma tree_drop_spec:
  assumes "tree_inv t" "k \<noteq> NULL"
  shows "tree_inv (tree_drop t k) \<and> tree_same (tree_drop t k) = tree_same t \<and>
    tree_entries (tree_drop t k) = drop_key (tree_same t) k (tree_entries t)"
proof -
  obtain e t2 where I: "tree_delete_method (Some t) k = (e, t2)" by (cases "tree_delete_method (Some t) k")
  obtain t' where t': "t2 = Some t'" "tree_inv t'" "tree_order t' = tree_order t"
    "tree_pairs (ti_root t') = del_pair (tree_order t) k (tree_pairs (ti_root t))"
    using tree_delete_spec [OF assms I] by auto
  then show ?thesis
    using I assms(1) comparator_order.del_pair_mset [of "tree_order t" "tree_pairs (ti_root t)" k]
    by (simp add: tree_drop_def tree_entries_def tree_inv_def bst_def del: tree_delete_method.simps)
qed

interpretation td: dict_store tree_inv tree_same tree_entries tree_put
  "\<lambda>t k. tree_search_method (Some t) k" tree_drop "\<lambda>k. k \<noteq> NULL"
proof unfold_locales
  fix t :: "'a tree_impl" and k :: "'a ptr"
  assume t: "tree_inv t"
  then have cmp: "comparator_order (tree_order t)" "bst (tree_order t) (ti_root t)"
    by (simp_all add: tree_inv_def)
  show "equivp (tree_same t)" by (rule comparator_order.cmp_equiv [OF cmp(1)])
  show "keys_apart (tree_same t) (tree_entries t)"
    using comparator_order.keys_sorted_apart [OF cmp(1)] cmp(2) by (simp add: tree_entries_def bst_def)
  assume k: "k \<noteq> NULL"
  show "is_lookup (tree_same t) k (tree_entries t) (tree_search_method (Some t) k)"
    using comparator_order.tree_search_spec(1) [OF cmp, of k] k by (auto simp: tree_entries_def tree_inv_cmp [OF t])
  show "tree_inv (tree_drop t k) \<and> tree_same (tree_drop t k) = tree_same t"
    "tree_entries (tree_drop t k) = drop_key (tree_same t) k (tree_entries t)"
    using tree_drop_spec [OF t k] by simp_all
qed (use tree_put_spec in blast)+

lemma create_tree_inv:
  assumes "create_tree type (Some cmp) w = (Some t, w')" "comparator_order cmp"
  shows "tree_inv t \<and> tree_entries t = {#} \<and> ti_type t = type \<and> tree_order t = cmp"
  using assms
  by (auto simp: create_tree_def tree_inv_def tree_order_def tree_entries_def bst_def balanced_def rb_ok_def Let_def
      split: prod.splits bool.splits if_splits tree_type.splits)

lemma tree_insert_done:
  assumes "tree_inv t" "k \<noteq> NULL" "alloc_fails w = []" "tree_put t k v w = (ok, t', w')"
  shows ok
proof (rule ccontr)
  assume "\<not> ok"
  then have R: "tree_entries t' = tree_entries t" "\<not> has_key (tree_same t) k (tree_entries t)" "tree_inv t'"
    using tree_put_spec [OF assms(1,2,4)] by auto
  have cmp: "comparator_order (tree_order t)" "bst (tree_order t) (ti_root t)"
    using assms(1) by (simp_all add: tree_inv_def)
  have none: "tree_search_node (tree_order t) k (ti_root t) = Nil_Node"
    using comparator_order.tree_search_spec(2) [OF cmp, of k] R(2) by (simp add: tree_entries_def)
  have "ti_size t' = ti_size t + 1"
  proof (cases "ti_type t")
    case TREE_AVL
    then show ?thesis
      using assms avl_insert_counts [OF assms(3), of "tree_order t" k v "ti_root t" "ti_size t"] none
      by (auto simp: tree_put_def tree_inv_cmp [OF assms(1)] avl_tree_insert_def split: prod.splits)
  next
    case TREE_RED_BLACK
    then show ?thesis
      using assms rb_insert_counts [OF assms(3), of "tree_order t" k v "ti_root t" "ti_size t"] none
      by (auto simp: tree_put_def tree_inv_cmp [OF assms(1)] split: prod.splits)
  qed
  moreover have "ti_size t' = size (tree_entries t')" "ti_size t = size (tree_entries t)"
    using R(3) assms(1) by (simp_all add: tree_inv_def tree_entries_def)
  ultimately show False using R(1) by simp
qed

section \<open>Properties\<close>

definition sample_tree :: "tree_type \<Rightarrow> address tree_impl" where
  "sample_tree type = \<lparr>ti_type = type, ti_cmp = Some set_default_ptr_compare,
     ti_root = Tree_Node Nil_Node (Some 3) (Some 30) 2 RB_BLACK (Tree_Node Nil_Node (Some 5) (Some 50) 1 RB_RED Nil_Node),
     ti_size = 2, ti_user_data = NULL\<rparr>"

lemma sample_tree_inv: "tree_inv (sample_tree type)" "tree_order (sample_tree type) = set_default_ptr_compare"
proof -
  show order: "tree_order (sample_tree type) = set_default_ptr_compare"
    by (simp add: tree_order_def sample_tree_def)
  show "tree_inv (sample_tree type)"
    unfolding tree_inv_def order
    by (cases type) (simp_all add: pc.comparator_order_axioms bst_def ptr_compare_sign balanced_def rb_ok_def sample_tree_def)
qed

text \<open>C12: inserting into a balanced tree of either kind binds exactly the key it was given: every
  lookup of an equal key answers the new data, every other lookup answers what it answered, the
  tree stays a search tree, balanced, with a correct counter. When the node cannot be allocated
  nothing changes, and the call reports success all the same; with memory it never happens.\<close>

theorem tree_insert_binds:
  assumes "tree_inv t" "k \<noteq> NULL" "tree_insert_method (Some t) k v w = (e, t2, w')"
  shows "e = OVA_SUCCESS \<and> (\<exists>t'. t2 = Some t' \<and> tree_inv t' \<and> tree_order t' = tree_order t \<and>
    (\<exists>ok. (alloc_fails w = [] \<or> has_key (tree_same t) k (tree_entries t) \<longrightarrow> ok) \<and>
      (\<forall>k'. k' \<noteq> NULL \<longrightarrow> tree_search_method t2 k' =
         (if ok \<and> tree_same t k k' then v else tree_search_method (Some t) k')) \<and>
      ti_size t' = ti_size t + (if ok \<and> \<not> has_key (tree_same t) k (tree_entries t) then 1 else 0)))"
proof -
  obtain ok t' w2 where P: "tree_put t k v w = (ok, t', w2)" by (cases "tree_put t k v w")
  obtain t'' where t: "t2 = Some t''" "e = OVA_SUCCESS" "tree_inv t''" "tree_order t'' = tree_order t"
    using tree_insert_cases [OF assms] by auto
  have t': "t' = t''" using P t(1) assms(3) by (simp add: tree_put_def del: tree_insert_method.simps)
  note spec = tree_put_spec [OF assms(1,2) P]
  have search: "tree_search_method (Some t') k' = (if ok \<and> tree_same t k k' then v else tree_search_method (Some t) k')"
    if "k' \<noteq> NULL" for k'
  proof (cases "tree_same t k k'")
    case True
    show ?thesis
    proof (cases ok)
      case ok: True
      then show ?thesis using td.get_put_same [OF assms(1,2) that _ True] P True by simp
    next
      case False
      then have "\<not> has_key (tree_same t) k' (tree_entries t)" "tree_entries t' = tree_entries t"
        using spec has_key_cong [OF td.same_equiv [OF assms(1)] True] by auto
      then show ?thesis
        using False td.absent_get [OF assms(1) that] td.absent_get [OF conjunct1 [OF spec] that] spec by metis
    qed
  next
    case False
    then show ?thesis using td.get_put_other [OF assms(1,2) that P] by simp
  qed
  have "ti_size t' = size (tree_entries t')" "ti_size t = size (tree_entries t)"
    using spec assms(1) by (simp_all add: tree_inv_def tree_entries_def)
  then have "ti_size t' = ti_size t + (if ok \<and> \<not> has_key (tree_same t) k (tree_entries t) then 1 else 0)"
    using spec by (cases ok) (simp_all add: size_put_entry)
  then show ?thesis
    using t t' search spec tree_insert_done [OF assms(1,2) _ P] by auto
qed

theorem tree_insert_binds_witness:
  "tree_search_method (fst (snd (tree_insert_method (Some (sample_tree TREE_RED_BLACK)) (Some 4) (Some 40) fresh_world)))
     (Some 4) = Some 40"
proof -
  obtain e t2 w2 where I: "tree_insert_method (Some (sample_tree TREE_RED_BLACK)) (Some 4) (Some 40) fresh_world = (e, t2, w2)"
    by (cases "tree_insert_method (Some (sample_tree TREE_RED_BLACK)) (Some 4) (Some 40) fresh_world")
  show ?thesis
    using tree_insert_binds [OF sample_tree_inv(1) _ I] pc.cmp_refl unfolding I
    by (auto simp: sample_tree_inv(2) simp del: tree_search_method.simps)
qed

text \<open>C13: deleting a key from a balanced tree of either kind takes out exactly that binding and
  keeps the search order, the balance and the counter; an absent key changes no lookup.\<close>

theorem tree_delete_unbinds:
  assumes "tree_inv t" "k \<noteq> NULL" "tree_delete_method (Some t) k = (e, t2)"
  shows "e = OVA_SUCCESS \<and> (\<exists>t'. t2 = Some t' \<and> tree_inv t' \<and> tree_order t' = tree_order t \<and>
    (\<forall>k'. k' \<noteq> NULL \<longrightarrow> tree_search_method t2 k' =
       (if tree_same t k k' then NULL else tree_search_method (Some t) k')) \<and>
    ti_size t = ti_size t' + (if has_key (tree_same t) k (tree_entries t) then 1 else 0))"
proof -
  obtain t' where t: "t2 = Some t'" "e = OVA_SUCCESS" "tree_inv t'" "tree_order t' = tree_order t"
    using tree_delete_spec [OF assms] by auto
  have drop: "tree_drop t k = t'" using t(1) assms(3) by (simp add: tree_drop_def del: tree_delete_method.simps)
  have "ti_size t' = size (tree_entries t')" "ti_size t = size (tree_entries t)"
    using t(3) assms(1) by (simp_all add: tree_inv_def tree_entries_def)
  then show ?thesis
    using t td.get_remove [OF assms(1,2)] drop td.remove_drops [OF assms(1,2)]
      size_drop_key [OF td.same_equiv td.apart, OF assms(1) assms(1), of k] by auto
qed

theorem tree_delete_unbinds_witness:
  "tree_search_method (snd (tree_delete_method (Some (sample_tree TREE_AVL)) (Some 3))) (Some 3) = NULL \<and>
   tree_search_method (snd (tree_delete_method (Some (sample_tree TREE_AVL)) (Some 3))) (Some 5) =
     tree_search_method (Some (sample_tree TREE_AVL)) (Some 5)"
proof -
  obtain e t2 where I: "tree_delete_method (Some (sample_tree TREE_AVL)) (Some 3) = (e, t2)"
    by (cases "tree_delete_method (Some (sample_tree TREE_AVL)) (Some 3)")
  show ?thesis
    using tree_delete_unbinds [OF sample_tree_inv(1) _ I] unfolding I
    by (auto simp: sample_tree_inv(2) ptr_compare_sign simp del: tree_search_method.simps)
qed

text \<open>Clients change a tree by insertions and deletions.\<close>

datatype 'a tree_op = Insert_Call "'a ptr" "'a ptr" | Delete_Call "'a ptr"

fun tree_call :: "'a tree_op \<Rightarrow> 'a tree_impl option \<times> 'a world \<Rightarrow> 'a tree_impl option \<times> 'a world" where
  "tree_call (Insert_Call k v) (t, w) = snd (tree_insert_method t k v w)"
| "tree_call (Delete_Call k) (t, w) = (snd (tree_delete_method t k), w)"

lemma tree_call_inv:
  assumes "tree_inv t" "tree_call c (Some t, w) = (t2, w')"
  shows "\<exists>t'. t2 = Some t' \<and> tree_inv t'"
proof (cases c)
  case (Insert_Call k v)
  then obtain e where I: "tree_insert_method (Some t) k v w = (e, t2, w')"
    using assms(2) by (cases "tree_insert_method (Some t) k v w") simp
  show ?thesis
  proof (cases "k = NULL")
    case True
    then show ?thesis using I assms(1) by (auto simp: tree_inv_cmp)
  qed (use tree_insert_cases [OF assms(1) _ I] in blast)
next
  case (Delete_Call k)
  then obtain e where D: "tree_delete_method (Some t) k = (e, t2)"
    using assms(2) by (cases "tree_delete_method (Some t) k") simp
  show ?thesis
  proof (cases "k = NULL")
    case True
    then show ?thesis using D assms(1) by (auto simp: tree_inv_cmp split: if_splits)
  qed (use tree_delete_spec [OF assms(1) _ D] in blast)
qed

lemma tree_calls_inv: "tree_inv t \<Longrightarrow> fold tree_call cs (Some t, w) = (t2, w') \<Longrightarrow> \<exists>t'. t2 = Some t' \<and> tree_inv t'"
proof (induction cs arbitrary: t w)
  case (Cons c cs)
  obtain t1 w1 where C: "tree_call c (Some t, w) = (t1, w1)" by (cases "tree_call c (Some t, w)")
  then obtain t' where "t1 = Some t'" "tree_inv t'" using tree_call_inv [OF Cons.prems(1)] by blast
  then show ?case using Cons.IH [of t' w1] Cons.prems(2) C by simp
qed auto

lemma inv_depth:
  assumes "tree_inv t"
  shows "2 ^ (tree_depth (ti_root t) div 2) \<le> length (tree_pairs (ti_root t)) + 1"
proof (cases "ti_type t")
  case TREE_AVL
  then show ?thesis using avl_depth_log [of "ti_root t"] assms by (simp add: tree_inv_def balanced_def)
next
  case TREE_RED_BLACK
  then have ok: "rb_ok (ti_root t)" using assms by (simp add: tree_inv_def balanced_def)
  then have "tree_depth (ti_root t) div 2 \<le> black_height (ti_root t)" "2 ^ black_height (ti_root t) \<le> length (tree_pairs (ti_root t)) + 1"
    using rb_depth_bound [of "ti_root t"] by (auto simp: rb_ok_def)
  then show ?thesis using power_increasing [of _ _ "2 :: nat"] by (meson le_trans one_le_numeral)
qed

text \<open>C14: a created tree of either kind stays shallow under every sequence of insertions and
  deletions, whatever the allocator refuses: with \<open>n\<close> pairs its depth is at most
  \<open>2 log2 (n + 1) + 1\<close>, and the size it reports is \<open>n\<close> as an \<open>int\<close>.\<close>

theorem tree_depth_logarithmic:
  assumes "create_tree type (Some cmp) w0 = (Some t0, w)" "comparator_order cmp" "fold tree_call cs (Some t0, w) = (t2, w2)"
  shows "\<exists>t. t2 = Some t \<and> tree_size_method t2 = wrap_int (int (length (tree_pairs (ti_root t)))) \<and>
    2 ^ (tree_depth (ti_root t) div 2) \<le> length (tree_pairs (ti_root t)) + 1"
proof -
  have "tree_inv t0" using create_tree_inv [OF assms(1,2)] by blast
  then obtain t where "t2 = Some t" "tree_inv t" using tree_calls_inv [OF _ assms(3)] by blast
  then show ?thesis using inv_depth [of t] by (simp add: tree_inv_def)
qed

theorem tree_depth_logarithmic_witness:
  "\<exists>t0 t. fst (create_tree TREE_RED_BLACK (Some set_default_ptr_compare) fresh_world) = Some t0 \<and>
     fst (fold tree_call [Insert_Call (Some 3) NULL, Insert_Call (Some 5) NULL, Delete_Call (Some 3), Insert_Call (Some 7) NULL] (Some t0, fresh_world)) = Some t \<and>
     2 ^ (tree_depth (ti_root t) div 2) \<le> length (tree_pairs (ti_root t)) + 1"
proof -
  let ?cs = "[Insert_Call (Some 3) NULL, Insert_Call (Some 5) NULL, Delete_Call (Some 3), Insert_Call (Some 7) NULL] :: address tree_op list"
  obtain t0 where c: "create_tree TREE_RED_BLACK (Some set_default_ptr_compare) (fresh_world :: address world) = (Some t0, fresh_world)"
    by (simp add: create_tree_def malloc_struct_def malloc_no_failures PTRDIFF_MAX_def)
  obtain t2 w2 where run: "fold tree_call ?cs (Some t0, fresh_world) = (t2, w2)" by fastforce
  from tree_depth_logarithmic [OF c pc.comparator_order_axioms run] obtain t where
    "t2 = Some t" "2 ^ (tree_depth (ti_root t) div 2) \<le> length (tree_pairs (ti_root t)) + 1" by blast
  then show ?thesis using c run by (intro exI [of _ t0] exI [of _ t] conjI) simp_all
qed

text \<open>C15: the ordered queries read the sequence of pairs the in-order traversal visits, in which
  the keys ascend: min and max answer the data of its ends, predecessor the last key below the
  argument, successor the first key above it, and a range query that can allocate answers the
  data of all keys inside the closed range, in order.\<close>

theorem tree_order_queries:
  assumes "tree_inv t" "k \<noteq> NULL" "lo \<noteq> NULL" "hi \<noteq> NULL" "tree_order t lo hi \<le> 0"
    "alloc_fails w = []" "ti_size t \<le> INT_MAX"
  shows "\<exists>ps. sorted_wrt (\<lambda>p q. tree_order t (fst p) (fst q) < 0) ps \<and> mset ps = tree_entries t \<and>
    tree_in_order_traverse_method (Some t) (Some (\<lambda>a b acc. acc @ [(a, b)])) [] = ps \<and>
    tree_min_method (Some t) = (if ps = [] then NULL else snd (hd ps)) \<and>
    tree_max_method (Some t) = (if ps = [] then NULL else snd (last ps)) \<and>
    tree_predecessor_method (Some t) k =
      (let below = filter (\<lambda>p. tree_order t (fst p) k < 0) ps in if below = [] then NULL else snd (last below)) \<and>
    tree_successor_method (Some t) k =
      (let above = filter (\<lambda>p. tree_order t k (fst p) < 0) ps in if above = [] then NULL else snd (hd above)) \<and>
    (\<exists>out. fst (tree_range_query_method (Some t) lo hi w) = Some out \<and> list_items out =
      map snd (filter (\<lambda>p. tree_order t (fst p) lo \<ge> 0 \<and> tree_order t (fst p) hi \<le> 0) ps))"
proof -
  let ?r = "ti_root t" and ?c = "tree_order t"
  have cmp: "comparator_order ?c" "bst ?c ?r" "ti_size t = length (tree_pairs ?r)"
    using assms(1) by (simp_all add: tree_inv_def)
  note some = tree_inv_cmp [OF assms(1)]
  have walk: "fold (\<lambda>(a, b) acc. acc @ [(a, b)]) ps acc = acc @ ps" for ps acc :: "('a ptr \<times> 'a ptr) list"
    by (induction ps arbitrary: acc) auto
  have ends: "tree_min_method (Some t) = (if tree_pairs ?r = [] then NULL else snd (hd (tree_pairs ?r)))"
    "tree_max_method (Some t) = (if tree_pairs ?r = [] then NULL else snd (last (tree_pairs ?r)))"
    using tree_min_first [of ?r] tree_max_last [of ?r] by (cases "?r = Nil_Node"; simp)+
  have pred: "tree_predecessor_method (Some t) k =
      (let below = filter (\<lambda>p. ?c (fst p) k < 0) (tree_pairs ?r) in if below = [] then NULL else snd (last below))"
    using comparator_order.pred_loop_spec [OF cmp(1,2), of k Nil_Node] assms(2) some by (auto simp: Let_def)
  have succ: "tree_successor_method (Some t) k =
      (let above = filter (\<lambda>p. ?c k (fst p) < 0) (tree_pairs ?r) in if above = [] then NULL else snd (hd above))"
    using comparator_order.succ_loop_spec [OF cmp(1,2), of k Nil_Node] assms(2) some by (auto simp: Let_def)
  have range: "\<exists>out. fst (tree_range_query_method (Some t) lo hi w) = Some out \<and> list_items out =
      map snd (filter (\<lambda>p. ?c (fst p) lo \<ge> 0 \<and> ?c (fst p) hi \<le> 0) (tree_pairs ?r))"
  proof -
    let ?vs = "range_values ?c lo hi ?r"
    let ?cap = "if ti_size t > 0 \<and> ti_size t < 1024 * 1024 then int (ti_size t) else 4"
    have cap: "0 < ?cap" "?cap \<le> int INT_MAX" "is_int ?cap" by (auto simp: INT_MAX_def is_int_def)
    obtain l w1 where l: "create_list ARRAY_LIST ?cap None w = (Some l, w1)" "alloc_fails w1 = []"
      using create_list_no_failures [OF assms(6) cap(1,2), of ARRAY_LIST None] by blast
    have L: "positional l" "list_items l = []" "list_ready l w1 (ti_size t)"
      using create_list_positional [OF l(1) cap(3)] array_list_ready_more [of l w1 "nat ?cap" "ti_size t"] l(2) cap(1) assms(7)
      by simp_all
    have vs: "?vs = map snd (filter (\<lambda>p. ?c (fst p) lo \<ge> 0 \<and> ?c (fst p) hi \<le> 0) (tree_pairs ?r))"
      by (rule comparator_order.range_values_filter [OF cmp(1,2)])
    have "length ?vs \<le> ti_size t" unfolding vs cmp(3) by simp
    then obtain out w2 where "collect_loop ?vs l w1 = (out, w2)" "list_items out = ?vs"
      using collect_loop_all [OF L(1,3), of ?vs] L(2) by auto
    then show ?thesis
      using assms(3-5) l(1) some by (simp add: range_query_collect vs Let_def)
  qed
  show ?thesis
    using cmp(2) ends pred succ range
    by (intro exI [of _ "tree_pairs ?r"])
      (simp add: bst_def keys_sorted_def tree_entries_def in_order_fold walk)
qed

theorem tree_order_queries_witness:
  "\<exists>ps. mset ps = tree_entries (sample_tree TREE_AVL) \<and>
     tree_min_method (Some (sample_tree TREE_AVL)) = (if ps = [] then NULL else snd (hd ps)) \<and>
     tree_max_method (Some (sample_tree TREE_AVL)) = (if ps = [] then NULL else snd (last ps))"
proof -
  have "tree_order (sample_tree TREE_AVL) (Some 3) (Some 5) \<le> 0" "ti_size (sample_tree TREE_AVL) \<le> INT_MAX"
    by (simp add: sample_tree_inv(2) ptr_compare_sign) (simp add: sample_tree_def INT_MAX_def)
  from tree_order_queries [OF sample_tree_inv(1) _ _ _ this(1) fresh_world_sel(1) this(2), of "Some 5"]
  show ?thesis by blast
qed

end
