(* ===== verification/Set_Backends.thy ===== *)
theory Set_Backends
  imports Element_Set Hash_Map Trees
begin

text \<open>
  The two backends of a set: \<open>src/set/hash_set.c\<close> keeps its elements as the keys of a hash map,
  all bound to one marker, \<open>src/set/tree_set.c\<close> as the keys of a red-black tree. Both refuse the
  null element. The map of a hash set has no mutex, so a lookup leaves it as it is.
\<close>

section \<open>Operations\<close>

text \<open>The address of the static marker; all that matters is that it is not null.\<close>

definition hash_set_marker :: "address ptr" where
  "hash_set_marker = Some 1"

definition hash_set_add :: "address hash_map \<Rightarrow> address ptr \<Rightarrow> address world \<Rightarrow> bool \<times> address hash_map \<times> address world" where
  "hash_set_add m element w =
     (if element = NULL then (False, m, w)
      else
       (let old_size = hash_size (Some m) in
        case hash_insert (Some m) element hash_set_marker w of
          (_, m', w) \<Rightarrow> (hash_size m' > old_size, the m', w)))"

definition hash_set_contains :: "address hash_map \<Rightarrow> address ptr \<Rightarrow> bool" where
  "hash_set_contains m element = (if element = NULL then False else fst (hash_get (Some m) element) \<noteq> NULL)"

definition hash_set_remove :: "address hash_map \<Rightarrow> address ptr \<Rightarrow> bool \<times> address hash_map" where
  "hash_set_remove m element =
     (if element = NULL then (False, m)
      else (case hash_remove (Some m) element of (data, m') \<Rightarrow> (data \<noteq> NULL, the m')))"

definition hash_set_size :: "address hash_map \<Rightarrow> int" where
  "hash_set_size m = hash_size (Some m)"

definition hash_set_to_list :: "address hash_map \<Rightarrow> address world \<Rightarrow> address list_obj option \<times> address world" where
  "hash_set_to_list m w =
     (let n = hash_size (Some m) in
      case create_list ARRAY_LIST (if n > 0 then n else 4) None w of
        (None, w) \<Rightarrow> (None, w)
      | (Some out, w) \<Rightarrow>
         (case collect_loop (map me_key (concat (hm_buckets m))) out w of (out, w) \<Rightarrow> (Some out, w)))"

text \<open>The hash function is given, so the map never falls back to a string hash; there is no mutex
  to initialise.\<close>

definition hash_set_create_impl ::
  "int \<Rightarrow> address comparator \<Rightarrow> (address ptr \<Rightarrow> int \<Rightarrow> int) \<Rightarrow> address world \<Rightarrow> address hash_map option \<times> address world" where
  "hash_set_create_impl capacity cmp hash w =
     (case create_map (\<lambda>_. []) True HASH_MAP capacity (Some hash) (Some cmp) w of
        (None, w) \<Rightarrow> (None, w)
      | (Some m, w) \<Rightarrow>
         (case malloc_struct w of
            (False, w) \<Rightarrow> (None, w)
          | (True, w) \<Rightarrow> (Some m, w)))"

definition tree_set_add :: "address tree_impl \<Rightarrow> address ptr \<Rightarrow> address world \<Rightarrow> bool \<times> address tree_impl \<times> address world" where
  "tree_set_add t element w =
     (if element = NULL then (False, t, w)
      else if tree_search_method (Some t) element \<noteq> NULL then (False, t, w)
      else
       (let old_size = tree_size_method (Some t) in
        case tree_insert_method (Some t) element element w of
          (_, t', w) \<Rightarrow> (tree_size_method t' > old_size, the t', w)))"

definition tree_set_contains :: "address tree_impl \<Rightarrow> address ptr \<Rightarrow> bool" where
  "tree_set_contains t element = (if element = NULL then False else tree_search_method (Some t) element \<noteq> NULL)"

definition tree_set_remove :: "address tree_impl \<Rightarrow> address ptr \<Rightarrow> bool \<times> address tree_impl" where
  "tree_set_remove t element =
     (if element = NULL then (False, t)
      else
       (let old_size = tree_size_method (Some t) in
        case tree_delete_method (Some t) element of
          (_, t') \<Rightarrow> (tree_size_method t' < old_size, the t')))"

definition tree_set_size :: "address tree_impl \<Rightarrow> int" where
  "tree_set_size t = tree_size_method (Some t)"

text \<open>The callback appends to a list kept in a static variable, which is part of its state here.\<close>

definition tree_set_collect_cb ::
  "address ptr \<Rightarrow> address ptr \<Rightarrow> address list_obj \<times> address world \<Rightarrow> address list_obj \<times> address world" where
  "tree_set_collect_cb key value s =
     (case s of (out, w) \<Rightarrow> (case list_insert out key (list_size out) w of (_, out, w) \<Rightarrow> (out, w)))"

definition tree_set_to_list :: "address tree_impl \<Rightarrow> address world \<Rightarrow> address list_obj option \<times> address world" where
  "tree_set_to_list t w =
     (let n = tree_size_method (Some t) in
      case create_list ARRAY_LIST (if n > 0 then n else 4) None w of
        (None, w) \<Rightarrow> (None, w)
      | (Some out, w) \<Rightarrow>
         (case tree_in_order_traverse_method (Some t) (Some tree_set_collect_cb) (out, w) of
            (out, w) \<Rightarrow> (Some out, w)))"

definition tree_set_create_impl ::
  "address comparator \<Rightarrow> address world \<Rightarrow> address tree_impl option \<times> address world" where
  "tree_set_create_impl cmp w =
     (case create_tree TREE_RED_BLACK (Some cmp) w of
        (None, w) \<Rightarrow> (None, w)
      | (Some t, w) \<Rightarrow>
         (case malloc_struct w of
            (False, w) \<Rightarrow> (None, w)
          | (True, w) \<Rightarrow> (Some t, w)))"

section \<open>The hash set\<close>

definition hash_set_ok :: "address comparator \<Rightarrow> (address ptr \<Rightarrow> int \<Rightarrow> int) \<Rightarrow> address hash_map \<Rightarrow> bool" where
  "hash_set_ok cmp hash m \<longleftrightarrow> hash_inv m \<and> hm_lock m = None \<and> hm_cmp m = Some cmp \<and> hm_hash m = hash \<and>
     (\<forall>e\<in>#hash_entries m. fst e \<noteq> NULL \<and> snd e \<noteq> NULL)"

definition hash_elems :: "address hash_map \<Rightarrow> address ptr multiset" where
  "hash_elems m = image_mset fst (hash_entries m)"

lemma lookup_present:
  "is_lookup same k E d \<Longrightarrow> \<forall>e\<in>#E. snd e \<noteq> NULL \<Longrightarrow> d \<noteq> NULL \<longleftrightarrow> has_key same k E"
  by (auto simp: is_lookup_def split: if_splits)

lemma put_entry_all:
  assumes "\<forall>e\<in>#E. P e" "P (k, v)" "\<And>a b. P (a, b) \<Longrightarrow> P (a, v)"
  shows "\<forall>e\<in>#put_entry same k v E. P e"
  using assms by (auto simp: put_entry_def)

lemma put_entry_keys:
  "image_mset fst (put_entry same k v E) =
     (if has_key same k E then image_mset fst E else add_mset k (image_mset fst E))"
proof -
  have "image_mset fst (image_mset (\<lambda>e. if same (fst e) k then (fst e, v) else e) E) = image_mset fst E"
    by (simp add: image_mset.compositionality, rule image_mset_cong) simp
  then show ?thesis by (simp add: put_entry_def)
qed

lemma drop_key_keys:
  "image_mset fst (drop_key same k E) = filter_mset (\<lambda>y. \<not> same y k) (image_mset fst E)"
  by (simp add: drop_key_def filter_mset_image_mset)

lemma hash_set_keys: "hash_set_ok cmp hash m \<Longrightarrow> map_keys_equal m = (\<lambda>a b. safe_key_equals a b cmp)"
  by (simp add: hash_set_ok_def map_keys_equal_def fun_eq_iff)

lemma hash_core_of: "hash_set_ok cmp hash m \<Longrightarrow> hash_core m"
  by (simp add: hash_set_ok_def hash_inv_def)

lemma hash_insert_fails:
  assumes "alloc_fails w = []" "hash_insert (Some m) k d w = (err, m2, w')"
  shows "alloc_fails w' = [] \<and> err = OVA_SUCCESS"
proof -
  define grown where "grown = (if hm_size (lock_map m) > hm_capacity (lock_map m) - hm_capacity (lock_map m) div 4
                       then resize_and_rehash (lock_map m) w else (lock_map m, w))"
  have "snd grown = w"
    using resize_world [OF assms(1)] by (cases "resize_and_rehash (lock_map m) w") (auto simp: grown_def)
  then obtain g where g: "grown = (g, w)" by (cases grown) simp
  note run = assms(2) [unfolded hash_insert.simps Let_def grown_def [symmetric] g prod.case malloc_struct_no_failures [OF assms(1)]]
  show ?thesis using run assms(1) by (auto split: option.splits)
qed

lemma hash_set_add_spec:
  assumes "hash_set_ok cmp hash m" "hash_set_add m x w = (r, m', w')"
  shows "hash_set_ok cmp hash m' \<and> hash_elems m' = (if r then add_mset x (hash_elems m) else hash_elems m) \<and>
    (alloc_fails w = [] \<longrightarrow>
       (r \<longleftrightarrow> x \<noteq> NULL \<and> \<not> elem_of (\<lambda>a b. safe_key_equals a b cmp) x (hash_elems m)) \<and> alloc_fails w' = [])"
proof (cases "x = NULL")
  case True
  then show ?thesis using assms by (simp add: hash_set_add_def)
next
  case False
  have inv: "hash_inv m" using assms(1) by (simp add: hash_set_ok_def)
  obtain err m2 w2 where I: "hash_insert (Some m) x hash_set_marker w = (err, m2, w2)"
    by (cases "hash_insert (Some m) x hash_set_marker w")
  obtain m3 where m3: "m2 = Some m3" "hash_inv m3" "same_setup m m3"
    "err = OVA_SUCCESS \<Longrightarrow> hash_entries m3 = put_entry (map_keys_equal m) x hash_set_marker (hash_entries m)"
    "err \<noteq> OVA_SUCCESS \<Longrightarrow> hash_entries m3 = hash_entries m"
    using hash_insert_spec [OF inv I] by auto
  have res: "m' = m3" "w' = w2" "r \<longleftrightarrow> hm_size m < hm_size m3"
    using assms(2) I m3(1) False by (auto simp: hash_set_add_def Let_def)
  have sizes: "hm_size m = size (hash_entries m)" "hm_size m3 = size (hash_entries m3)"
    using inv m3(2) core_size by (auto simp: hash_inv_def)
  have r: "r \<longleftrightarrow> err = OVA_SUCCESS \<and> \<not> has_key (map_keys_equal m) x (hash_entries m)"
    using m3(4,5) sizes res(3) by (cases "err = OVA_SUCCESS") (auto simp: size_put_entry)
  have all: "\<forall>e\<in>#hash_entries m. fst e \<noteq> NULL \<and> snd e \<noteq> NULL" using assms(1) by (simp add: hash_set_ok_def)
  have "\<forall>e\<in>#hash_entries m3. fst e \<noteq> NULL \<and> snd e \<noteq> NULL"
  proof (cases "err = OVA_SUCCESS")
    case True
    show ?thesis
      unfolding m3(4) [OF True] by (rule put_entry_all [OF all]) (simp_all add: False hash_set_marker_def)
  qed (use m3(5) all in simp)
  then have ok: "hash_set_ok cmp hash m3"
    using assms(1) m3(2,3) by (auto simp: hash_set_ok_def same_setup_def)
  have elems: "hash_elems m3 = (if r then add_mset x (hash_elems m) else hash_elems m)"
    using m3(4,5) r by (cases "err = OVA_SUCCESS") (auto simp: hash_elems_def put_entry_keys)
  have "r \<longleftrightarrow> \<not> elem_of (\<lambda>a b. safe_key_equals a b cmp) x (hash_elems m)" "alloc_fails w' = []" if "alloc_fails w = []"
    using hash_insert_fails [OF that I] r res(2)
    by (simp_all add: hash_elems_def elem_of_keys hash_set_keys [OF assms(1)])
  then show ?thesis using ok elems res(1) False by blast
qed

lemma hash_set_remove_spec:
  assumes "hash_set_ok cmp hash m" "hash_set_remove m x = (r, m')"
  shows "hash_set_ok cmp hash m' \<and> (r \<longleftrightarrow> hash_set_contains m x) \<and>
    hash_elems m' = filter_mset (\<lambda>y. \<not> (x \<noteq> NULL \<and> safe_key_equals y x cmp)) (hash_elems m)"
proof (cases "x = NULL")
  case True
  then show ?thesis using assms by (simp add: hash_set_remove_def hash_set_contains_def)
next
  case False
  have inv: "hash_inv m" and all: "\<forall>e\<in>#hash_entries m. fst e \<noteq> NULL \<and> snd e \<noteq> NULL"
    using assms(1) by (simp_all add: hash_set_ok_def)
  then have snd_all: "\<forall>e\<in>#hash_entries m. snd e \<noteq> NULL" by blast
  obtain d m2 where I: "hash_remove (Some m) x = (d, m2)" by (cases "hash_remove (Some m) x")
  obtain m3 where m3: "m2 = Some m3" "hash_inv m3" "same_setup m m3"
    "is_lookup (map_keys_equal m) x (hash_entries m) d"
    "hash_entries m3 = drop_key (map_keys_equal m) x (hash_entries m)"
    using hash_remove_spec [OF inv I] by auto
  obtain g m4 where G: "hash_get (Some m) x = (g, m4)" by (cases "hash_get (Some m) x")
  have look: "is_lookup (map_keys_equal m) x (hash_entries m) g" using hash_get_spec [OF inv G] by simp
  have res: "m' = m3" "r \<longleftrightarrow> d \<noteq> NULL" using assms(2) I m3(1) False by (auto simp: hash_set_remove_def)
  have "\<forall>e\<in>#hash_entries m3. fst e \<noteq> NULL \<and> snd e \<noteq> NULL"
    using all unfolding m3(5) drop_key_def by auto
  then have "hash_set_ok cmp hash m3" using assms(1) m3(2,3) by (auto simp: hash_set_ok_def same_setup_def)
  moreover have "hash_elems m3 = filter_mset (\<lambda>y. \<not> safe_key_equals y x cmp) (hash_elems m)"
    using m3(5) by (simp add: hash_elems_def drop_key_keys hash_set_keys [OF assms(1)])
  moreover have "hash_set_contains m x \<longleftrightarrow> g \<noteq> NULL"
    by (simp only: hash_set_contains_def if_not_P [OF False] G fst_conv)
  then have "r \<longleftrightarrow> hash_set_contains m x"
    using lookup_present [OF look snd_all] lookup_present [OF m3(4) snd_all] res(2) by blast
  ultimately show ?thesis using res(1) False by simp
qed

lemma hash_set_contains_spec:
  assumes "hash_set_ok cmp hash m"
  shows "hash_set_contains m x \<longleftrightarrow> x \<noteq> NULL \<and> elem_of (\<lambda>a b. safe_key_equals a b cmp) x (hash_elems m)"
proof -
  have inv: "hash_inv m" and all: "\<forall>e\<in>#hash_entries m. snd e \<noteq> NULL"
    using assms by (auto simp: hash_set_ok_def)
  obtain g m4 where G: "hash_get (Some m) x = (g, m4)" by (cases "hash_get (Some m) x")
  have "is_lookup (map_keys_equal m) x (hash_entries m) g" using hash_get_spec [OF inv G] by simp
  from lookup_present [OF this all] show ?thesis
    using G unfolding hash_set_contains_def hash_elems_def elem_of_keys hash_set_keys [OF assms] by simp
qed

lemma hash_set_size_elems: "hash_set_ok cmp hash m \<Longrightarrow> hash_set_size m = int (size (hash_elems m))"
  using core_size [OF hash_core_of] by (simp add: hash_set_size_def hash_elems_def)

lemma hash_set_to_list_ready:
  assumes "hash_set_ok cmp hash m" "size (hash_elems m) \<le> INT_MAX" "alloc_fails w = []"
  shows "\<exists>l w'. hash_set_to_list m w = (Some l, w') \<and> positional l \<and> mset (list_items l) = hash_elems m \<and> alloc_fails w' = []"
proof -
  let ?xs = "map me_key (concat (hm_buckets m))"
  have keys: "mset ?xs = hash_elems m" by (simp add: hash_elems_def hash_entries_def image_mset.compositionality comp_def)
  have len: "length ?xs = size (hash_elems m)" using arg_cong [OF keys, of size] by simp
  then have "hash_size (Some m) = int (length ?xs)" using hash_set_size_elems [OF assms(1)] by (simp add: hash_set_size_def)
  from snapshot_ready [OF assms(3) _ this] len assms(2) keys show ?thesis
    by (fastforce simp: hash_set_to_list_def Let_def)
qed

lemma hash_set_create_spec:
  assumes "hash_set_create_impl capacity cmp hash w = (Some m, w')" "is_int capacity" "comparator_order cmp"
    "hash_contract hash (\<lambda>a b. safe_key_equals a b cmp)"
  shows "hash_set_ok cmp hash m \<and> hash_elems m = {#}"
proof -
  obtain v where C: "create_hash_map (\<lambda>_. []) True capacity (Some hash) (Some cmp) False w = (Some m, v)"
    using assms(1) by (auto simp: hash_set_create_impl_def create_map_def split: prod.splits option.splits bool.splits)
  then have m: "hm_hash m = hash" "hm_cmp m = Some cmp" "hm_lock m = None"
    by (auto simp: create_hash_map_def Let_def split: prod.splits bool.splits if_splits)
  then have keys: "map_keys_equal m = (\<lambda>a b. safe_key_equals a b cmp)" by (simp add: map_keys_equal_def fun_eq_iff)
  have "hash_inv m \<and> hash_entries m = {#}"
    using create_hash_map_spec [OF C assms(2)] comparator_order.safe_equals_equiv [OF assms(3)] assms(4) keys m(1) by simp
  then show ?thesis using m by (simp add: hash_set_ok_def hash_elems_def)
qed

lemma hash_set_create_ready:
  assumes "alloc_fails w = []" "is_int capacity"
  shows "\<exists>m w'. hash_set_create_impl capacity cmp hash w = (Some m, w') \<and> alloc_fails w' = []"
proof -
  let ?c = "if capacity < INITIAL_CAPACITY then INITIAL_CAPACITY else capacity"
  have "0 < ?c" "?c \<le> int INT_MAX" using assms(2) by (auto simp: INITIAL_CAPACITY_def is_int_def INT_MAX_def)
  then have "malloc (ptr_bytes ?c) w = (True, w)" using assms(1) ptr_bytes_fits [of ?c] by (simp add: malloc_no_failures)
  then show ?thesis
    using assms(1)
    by (simp add: hash_set_create_impl_def create_map_def create_hash_map_def Let_def malloc_struct_no_failures)
qed

section \<open>The tree set\<close>

definition tree_set_ok :: "address comparator \<Rightarrow> address tree_impl \<Rightarrow> bool" where
  "tree_set_ok cmp t \<longleftrightarrow> tree_inv t \<and> ti_type t = TREE_RED_BLACK \<and> ti_cmp t = Some cmp \<and>
     (\<forall>e\<in>#tree_entries t. fst e \<noteq> NULL \<and> snd e \<noteq> NULL)"

definition tree_elems :: "address tree_impl \<Rightarrow> address ptr multiset" where
  "tree_elems t = image_mset fst (tree_entries t)"

lemma tree_set_order: "tree_set_ok cmp t \<Longrightarrow> tree_order t = cmp"
  by (simp add: tree_set_ok_def tree_order_def)

lemma tree_set_look:
  assumes "tree_set_ok cmp t" "x \<noteq> NULL"
  shows "tree_search_method (Some t) x \<noteq> NULL \<longleftrightarrow> elem_of (same_key cmp) x (tree_elems t)"
proof -
  have "\<forall>e\<in>#tree_entries t. snd e \<noteq> NULL" "tree_inv t" using assms(1) by (auto simp: tree_set_ok_def)
  from lookup_present [OF td.get_finds [OF this(2) assms(2)] this(1)] show ?thesis
    by (simp only: tree_elems_def elem_of_keys tree_set_order [OF assms(1)])
qed

lemma safe_equals_nonnull: "a \<noteq> NULL \<Longrightarrow> b \<noteq> NULL \<Longrightarrow> safe_key_equals a b cmp \<longleftrightarrow> cmp a b = 0"
  by (cases a; cases b) simp_all

lemma same_key_nonnull:
  "x \<noteq> NULL \<Longrightarrow> (\<forall>y\<in>#E. y \<noteq> NULL) \<Longrightarrow> elem_of (same_key cmp) x E \<longleftrightarrow> elem_of (\<lambda>a b. safe_key_equals a b cmp) x E"
  unfolding elem_of_def by (intro bex_cong refl safe_equals_nonnull [symmetric]) simp_all

lemma tree_set_sizes: "tree_set_ok cmp t \<Longrightarrow> ti_size t = size (tree_elems t)"
  by (simp add: tree_set_ok_def tree_inv_def tree_elems_def tree_entries_def)

lemma tree_size_small: "ti_size t \<le> INT_MAX \<Longrightarrow> tree_size_method (Some t) = int (ti_size t)"
  by (simp add: wrap_int_id is_int_def INT_MAX_def)

lemma rb_insert_world:
  "alloc_fails w = [] \<Longrightarrow> rb_tree_insert cmp k v t n w = (t', n', w') \<Longrightarrow> alloc_fails w' = []"
  by (auto simp: rb_tree_insert_def malloc_struct_no_failures split: prod.splits if_splits)

lemma tree_set_add_spec:
  assumes "tree_set_ok cmp t" "size (tree_elems t) < INT_MAX" "tree_set_add t x w = (r, t', w')"
  shows "tree_set_ok cmp t' \<and> tree_elems t' = (if r then add_mset x (tree_elems t) else tree_elems t) \<and>
    (alloc_fails w = [] \<longrightarrow>
       (r \<longleftrightarrow> x \<noteq> NULL \<and> \<not> elem_of (\<lambda>a b. safe_key_equals a b cmp) x (tree_elems t)) \<and> alloc_fails w' = [])"
proof (cases "x = NULL \<or> tree_search_method (Some t) x \<noteq> NULL")
  case True
  then have "r = False" "t' = t" "w' = w" using assms(3)
    by (auto simp add: tree_set_add_def simp del: tree_search_method.simps split: if_splits)
  moreover have "x \<noteq> NULL \<Longrightarrow> elem_of (same_key cmp) x (tree_elems t)" using True tree_set_look [OF assms(1)] by blast
  moreover have "\<forall>y\<in>#tree_elems t. y \<noteq> NULL" using assms(1) by (auto simp: tree_set_ok_def tree_elems_def)
  ultimately show ?thesis using assms(1) same_key_nonnull [of x "tree_elems t" cmp] by (cases "x = NULL") auto
next
  case False
  note False' = False [unfolded de_Morgan_disj]
  have x: "x \<noteq> NULL" by (rule conjunct1 [OF False'])
  have none: "\<not> tree_search_method (Some t) x \<noteq> NULL" by (rule conjunct2 [OF False'])
  have absent: "\<not> elem_of (same_key cmp) x (tree_elems t)"
    by (rule contrapos_nn [OF none]) (rule iffD2 [OF tree_set_look [OF assms(1) x]])
  have inv: "tree_inv t" using assms(1) by (simp add: tree_set_ok_def)
  have all: "\<forall>e\<in>#tree_entries t. fst e \<noteq> NULL \<and> snd e \<noteq> NULL" using assms(1) by (simp add: tree_set_ok_def)
  obtain e t2 w2 where I: "tree_insert_method (Some t) x x w = (e, t2, w2)" by (cases "tree_insert_method (Some t) x x w")
  obtain t3 where t3: "t2 = Some t3" "tree_inv t3" "tree_order t3 = tree_order t" "ti_type t3 = ti_type t"
    using tree_insert_cases [OF inv x I] by blast
  have cmp3: "ti_cmp t3 = Some cmp" using tree_inv_cmp [OF t3(2)] t3(3) tree_set_order [OF assms(1)] by simp
  obtain ok where P: "tree_put t x x w = (ok, t3, w2)" using I t3(1) by (simp add: tree_put_def)
  note S = tree_put_spec [OF inv x P]
  have nokey: "\<not> has_key (tree_same t) x (tree_entries t)"
    using absent by (simp add: tree_elems_def elem_of_keys tree_set_order [OF assms(1)])
  have elems: "tree_elems t3 = (if ok then add_mset x (tree_elems t) else tree_elems t)"
    using S nokey by (cases ok) (simp_all add: tree_elems_def put_entry_keys)
  have entries: "\<forall>e\<in>#tree_entries t3. fst e \<noteq> NULL \<and> snd e \<noteq> NULL"
  proof (cases ok)
    case True
    then have eq: "tree_entries t3 = put_entry (tree_same t) x x (tree_entries t)" using S by blast
    show ?thesis unfolding eq by (rule put_entry_all [OF all]) (use x in simp_all)
  qed (use S all in simp)
  have ok3: "tree_set_ok cmp t3"
    using assms(1) t3 cmp3 entries by (simp add: tree_set_ok_def)
  have "ti_size t3 = ti_size t + (if ok then 1 else 0)"
    using elems tree_set_sizes [OF assms(1)] tree_set_sizes [OF ok3] by (cases ok) simp_all
  moreover have "r \<longleftrightarrow> tree_size_method (Some t) < tree_size_method (Some t3)" "t' = t3" "w' = w2"
    using assms(3) False I t3(1)
    by (auto simp add: tree_set_add_def Let_def simp del: tree_search_method.simps tree_size_method.simps)
  moreover have "ti_size t3 \<le> INT_MAX" "ti_size t \<le> INT_MAX"
    using calculation(1) assms(2) tree_set_sizes [OF assms(1)] by (auto split: if_splits)
  ultimately have res: "r = ok" "t' = t3" "w' = w2" by (auto simp only: tree_size_small split: if_splits)
  have "ok" if "alloc_fails w = []" by (rule tree_insert_done [OF inv x that P])
  moreover have "alloc_fails w2 = []" if "alloc_fails w = []"
    using I x assms(1) rb_insert_world [OF that]
    by (auto simp: tree_set_ok_def split: prod.splits if_splits)
  moreover have "\<forall>y\<in>#tree_elems t. y \<noteq> NULL" using all by (auto simp: tree_elems_def)
  ultimately show ?thesis using res ok3 elems absent x same_key_nonnull [of x "tree_elems t" cmp] by blast
qed

lemma tree_set_remove_spec:
  assumes "tree_set_ok cmp t" "size (tree_elems t) \<le> INT_MAX" "tree_set_remove t x = (r, t')"
  shows "tree_set_ok cmp t' \<and> (r \<longleftrightarrow> x \<noteq> NULL \<and> elem_of (\<lambda>a b. safe_key_equals a b cmp) x (tree_elems t)) \<and>
    tree_elems t' = filter_mset (\<lambda>y. \<not> (x \<noteq> NULL \<and> safe_key_equals y x cmp)) (tree_elems t)"
proof (cases "x = NULL")
  case True
  then show ?thesis using assms by (simp add: tree_set_remove_def)
next
  case False
  have inv: "tree_inv t" and all: "\<forall>e\<in>#tree_entries t. fst e \<noteq> NULL \<and> snd e \<noteq> NULL"
    using assms(1) by (simp_all add: tree_set_ok_def)
  have keys: "\<forall>y\<in>#tree_elems t. y \<noteq> NULL" using all by (auto simp: tree_elems_def)
  obtain e t2 where I: "tree_delete_method (Some t) x = (e, t2)" by (cases "tree_delete_method (Some t) x")
  obtain t3 where t3: "t2 = Some t3" "tree_inv t3" "tree_order t3 = tree_order t" "ti_type t3 = ti_type t"
    using tree_delete_spec [OF inv False I] by blast
  have drop: "tree_entries t3 = drop_key (tree_same t) x (tree_entries t)"
    using tree_drop_spec [OF inv False] I t3(1) by (simp add: tree_drop_def)
  have "ti_cmp t3 = Some cmp" using tree_inv_cmp [OF t3(2)] t3(3) tree_set_order [OF assms(1)] by simp
  moreover have "\<forall>e\<in>#tree_entries t3. fst e \<noteq> NULL \<and> snd e \<noteq> NULL"
    using all unfolding drop drop_key_def by auto
  ultimately have ok3: "tree_set_ok cmp t3" using assms(1) t3 by (simp add: tree_set_ok_def)
  have "tree_elems t3 = filter_mset (\<lambda>y. \<not> cmp y x = 0) (tree_elems t)"
    unfolding tree_elems_def drop drop_key_keys tree_set_order [OF assms(1)] by (rule refl)
  also have "\<dots> = filter_mset (\<lambda>y. \<not> safe_key_equals y x cmp) (tree_elems t)"
    by (intro filter_mset_cong refl) (use keys safe_equals_nonnull [OF _ False] in blast)
  finally have elems: "tree_elems t3 = filter_mset (\<lambda>y. \<not> safe_key_equals y x cmp) (tree_elems t)" .
  have E: "equivp (tree_same t)" "keys_apart (tree_same t) (tree_entries t)"
    by (rule td.same_equiv [OF inv], rule td.apart [OF inv])
  have "size (tree_entries t) = size (tree_entries t3) + (if has_key (tree_same t) x (tree_entries t) then 1 else 0)"
    unfolding drop by (rule size_drop_key [OF E])
  then have sizes: "ti_size t = ti_size t3 + (if elem_of (same_key cmp) x (tree_elems t) then 1 else 0)"
    using tree_set_sizes [OF assms(1)] tree_set_sizes [OF ok3] tree_set_order [OF assms(1)]
    by (simp add: tree_elems_def elem_of_keys)
  moreover have "r \<longleftrightarrow> tree_size_method (Some t3) < tree_size_method (Some t)" and t': "t' = t3"
    using assms(3) False I t3(1)
    by (auto simp add: tree_set_remove_def Let_def simp del: tree_size_method.simps)
  moreover have "ti_size t \<le> INT_MAX" "ti_size t3 \<le> INT_MAX"
    using sizes assms(2) tree_set_sizes [OF assms(1)] by simp_all
  ultimately have "r \<longleftrightarrow> elem_of (same_key cmp) x (tree_elems t)"
    by (simp only: tree_size_small) simp
  then show ?thesis using ok3 elems t' False same_key_nonnull [OF False keys] by simp
qed

lemma tree_set_contains_spec:
  assumes "tree_set_ok cmp t"
  shows "tree_set_contains t x \<longleftrightarrow> x \<noteq> NULL \<and> elem_of (\<lambda>a b. safe_key_equals a b cmp) x (tree_elems t)"
proof (cases "x = NULL")
  case False
  have "\<forall>y\<in>#tree_elems t. y \<noteq> NULL" using assms by (auto simp: tree_set_ok_def tree_elems_def)
  have "tree_set_contains t x \<longleftrightarrow> tree_search_method (Some t) x \<noteq> NULL"
    by (simp only: tree_set_contains_def if_not_P [OF False])
  also have "\<dots> \<longleftrightarrow> elem_of (\<lambda>a b. safe_key_equals a b cmp) x (tree_elems t)"
    unfolding tree_set_look [OF assms False] by (rule same_key_nonnull [OF False \<open>\<forall>y\<in>#tree_elems t. y \<noteq> NULL\<close>])
  finally show ?thesis using False by simp
qed (simp add: tree_set_contains_def)

lemma tree_set_size_elems:
  "tree_set_ok cmp t \<Longrightarrow> size (tree_elems t) \<le> INT_MAX \<Longrightarrow> tree_set_size t = int (size (tree_elems t))"
  using tree_size_small [of t] tree_set_sizes [of cmp t] unfolding tree_set_size_def by simp

lemma in_order_collect:
  "tree_in_order_node tree_set_collect_cb n (out, w) = collect_loop (map fst (tree_pairs n)) out w"
  by (induction n arbitrary: out w)
    (auto simp: tree_set_collect_cb_def collect_loop_append split: prod.splits)

lemma tree_set_to_list_ready:
  assumes "tree_set_ok cmp t" "size (tree_elems t) \<le> INT_MAX" "alloc_fails w = []"
  shows "\<exists>l w'. tree_set_to_list t w = (Some l, w') \<and> positional l \<and> mset (list_items l) = tree_elems t \<and> alloc_fails w' = []"
proof -
  let ?xs = "map fst (tree_pairs (ti_root t))"
  have keys: "mset ?xs = tree_elems t" by (simp add: tree_elems_def tree_entries_def)
  have len: "length ?xs = size (tree_elems t)" using arg_cong [OF keys, of size] by simp
  then have n: "tree_size_method (Some t) = int (length ?xs)"
    using tree_set_size_elems [OF assms(1,2)] by (simp only: tree_set_size_def)
  obtain l out w1 w2 where R: "create_list ARRAY_LIST (if int (length ?xs) > 0 then int (length ?xs) else 4) None w = (Some out, w1)"
    "collect_loop ?xs out w1 = (l, w2)" "positional l" "list_items l = ?xs" "alloc_fails w2 = []"
    using snapshot_ready [OF assms(3) _ refl, of ?xs] len assms(2) by auto
  then have "tree_set_to_list t w = (Some l, w2)"
    unfolding tree_set_to_list_def n Let_def R(1) by (simp add: in_order_collect)
  then show ?thesis using R keys by auto
qed

lemma tree_set_create_spec:
  assumes "tree_set_create_impl cmp w = (Some t, w')" "comparator_order cmp"
  shows "tree_set_ok cmp t \<and> tree_elems t = {#}"
proof -
  obtain v where C: "create_tree TREE_RED_BLACK (Some cmp) w = (Some t, v)"
    using assms(1) by (auto simp: tree_set_create_impl_def split: prod.splits option.splits bool.splits)
  note T = create_tree_inv [OF C assms(2)]
  have "ti_cmp t = Some cmp" using tree_inv_cmp [of t] T by simp
  then show ?thesis using T by (simp add: tree_set_ok_def tree_elems_def)
qed

lemma tree_set_create_ready:
  assumes "alloc_fails w = []"
  shows "\<exists>t w'. tree_set_create_impl cmp w = (Some t, w') \<and> alloc_fails w' = []"
  using assms by (simp add: tree_set_create_impl_def create_tree_def Let_def malloc_struct_no_failures)

section \<open>Both provide the interface\<close>

lemma hash_elems_nonnull: "hash_set_ok cmp hash m \<Longrightarrow> x \<in># hash_elems m \<Longrightarrow> x \<noteq> NULL"
  by (auto simp: hash_set_ok_def hash_elems_def)

lemma tree_elems_nonnull: "tree_set_ok cmp t \<Longrightarrow> x \<in># tree_elems t \<Longrightarrow> x \<noteq> NULL"
  by (auto simp: tree_set_ok_def tree_elems_def)

lemma hash_elems_apart:
  assumes "hash_set_ok cmp hash m"
  shows "equivp (\<lambda>a b. safe_key_equals a b cmp) \<and> elems_apart (\<lambda>a b. safe_key_equals a b cmp) (hash_elems m)"
proof -
  have "hash_inv m" using assms by (simp add: hash_set_ok_def)
  note H = hd.same_equiv [OF this] hd.apart [OF this]
  show ?thesis
    using H elems_apart_keys [OF H(1), of "hash_entries m"]
    by (simp only: hash_elems_def hash_set_keys [OF assms] simp_thms)
qed

lemma elems_apart_cong:
  "(\<And>x y. x \<in># E \<Longrightarrow> y \<in># E \<Longrightarrow> same x y = same' x y) \<Longrightarrow> elems_apart same E = elems_apart same' E"
  unfolding keys_apart_def by (intro ball_cong refl) (auto dest!: in_diffD)

lemma tree_elems_apart:
  assumes "tree_set_ok cmp t"
  shows "equivp (\<lambda>a b. safe_key_equals a b cmp) \<and> elems_apart (\<lambda>a b. safe_key_equals a b cmp) (tree_elems t)"
proof -
  have inv: "tree_inv t" using assms by (simp add: tree_set_ok_def)
  note T = td.same_equiv [OF inv] td.apart [OF inv]
  have "elems_apart (tree_same t) (tree_elems t)"
    unfolding tree_elems_def by (rule iffD2 [OF elems_apart_keys [OF T(1)] T(2)])
  moreover have "elems_apart (tree_same t) (tree_elems t) = elems_apart (\<lambda>a b. safe_key_equals a b cmp) (tree_elems t)"
    unfolding tree_set_order [OF assms]
    by (rule elems_apart_cong, rule safe_equals_nonnull [symmetric]) (erule tree_elems_nonnull [OF assms])+
  moreover have "comparator_order cmp" using inv by (simp add: tree_inv_def tree_set_order [OF assms])
  ultimately show ?thesis using comparator_order.safe_equals_equiv by blast
qed

interpretation hs: element_set "hash_set_ok cmp hash" "\<lambda>_ a b. safe_key_equals a b cmp" hash_elems hash_set_add
  hash_set_contains hash_set_remove hash_set_to_list
proof unfold_locales
  fix m :: "address hash_map" and x :: "address ptr" and w w' :: "address world" and r m'
  assume m: "hash_set_ok cmp hash m"
  show "equivp (\<lambda>a b. safe_key_equals a b cmp)" "elems_apart (\<lambda>a b. safe_key_equals a b cmp) (hash_elems m)"
    using hash_elems_apart [OF m] by simp_all
  show "hash_set_contains m x \<longleftrightarrow> x \<noteq> NULL \<and> elem_of (\<lambda>a b. safe_key_equals a b cmp) x (hash_elems m)"
    by (rule hash_set_contains_spec [OF m])
  show "hash_set_ok cmp hash m' \<and> (\<lambda>a b. safe_key_equals a b cmp) = (\<lambda>a b. safe_key_equals a b cmp) \<and>
      hash_elems m' = (if r then add_mset x (hash_elems m) else hash_elems m)" if "hash_set_add m x w = (r, m', w')"
    using hash_set_add_spec [OF m that] by blast
  show "(r \<longleftrightarrow> x \<noteq> NULL \<and> \<not> elem_of (\<lambda>a b. safe_key_equals a b cmp) x (hash_elems m)) \<and> alloc_fails w' = []"
    if "alloc_fails w = []" "hash_set_add m x w = (r, m', w')"
    using hash_set_add_spec [OF m that(2)] that(1) by blast
  show "hash_set_ok cmp hash m' \<and> (\<lambda>a b. safe_key_equals a b cmp) = (\<lambda>a b. safe_key_equals a b cmp) \<and>
      r = hash_set_contains m x \<and>
      hash_elems m' = filter_mset (\<lambda>y. \<not> (x \<noteq> NULL \<and> safe_key_equals y x cmp)) (hash_elems m)"
    if "hash_set_remove m x = (r, m')"
    using hash_set_remove_spec [OF m that] by blast
qed (rule hash_elems_nonnull hash_set_to_list_ready; assumption)+

interpretation ts: element_set "tree_set_ok cmp" "\<lambda>_ a b. safe_key_equals a b cmp" tree_elems tree_set_add
  tree_set_contains tree_set_remove tree_set_to_list
proof unfold_locales
  fix t :: "address tree_impl" and x :: "address ptr" and w w' :: "address world" and r t'
  assume t: "tree_set_ok cmp t"
  show "equivp (\<lambda>a b. safe_key_equals a b cmp)" "elems_apart (\<lambda>a b. safe_key_equals a b cmp) (tree_elems t)"
    using tree_elems_apart [OF t] by simp_all
  show "tree_set_contains t x \<longleftrightarrow> x \<noteq> NULL \<and> elem_of (\<lambda>a b. safe_key_equals a b cmp) x (tree_elems t)"
    by (rule tree_set_contains_spec [OF t])
  show "tree_set_ok cmp t' \<and> (\<lambda>a b. safe_key_equals a b cmp) = (\<lambda>a b. safe_key_equals a b cmp) \<and>
      tree_elems t' = (if r then add_mset x (tree_elems t) else tree_elems t)"
    if "size (tree_elems t) < INT_MAX" "tree_set_add t x w = (r, t', w')"
    using tree_set_add_spec [OF t that] by blast
  show "(r \<longleftrightarrow> x \<noteq> NULL \<and> \<not> elem_of (\<lambda>a b. safe_key_equals a b cmp) x (tree_elems t)) \<and> alloc_fails w' = []"
    if "size (tree_elems t) < INT_MAX" "alloc_fails w = []" "tree_set_add t x w = (r, t', w')"
    using tree_set_add_spec [OF t that(1,3)] that(2) by blast
  show "tree_set_ok cmp t' \<and> (\<lambda>a b. safe_key_equals a b cmp) = (\<lambda>a b. safe_key_equals a b cmp) \<and>
      r = tree_set_contains t x \<and>
      tree_elems t' = filter_mset (\<lambda>y. \<not> (x \<noteq> NULL \<and> safe_key_equals y x cmp)) (tree_elems t)"
    if "size (tree_elems t) \<le> INT_MAX" "tree_set_remove t x = (r, t')"
    using tree_set_remove_spec [OF t that] tree_set_contains_spec [OF t] by blast
qed (rule tree_elems_nonnull tree_set_to_list_ready; assumption)+

end
