(* ===== verification/Sets.thy ===== *)
theory Sets
  imports Set_Backends
begin

text \<open>
  The public set object, \<open>src/set/set.c\<close>: the methods that dispatch to a backend, the set algebra
  and the clones, which all walk a snapshot of one set and add to another. A function pointer is
  the name of a function together with what the function computes; comparing pointers compares
  names.
\<close>

section \<open>State\<close>

datatype set_type = SET_HASH | SET_TREE

datatype symbol = Library_Default | Client_Function nat

type_synonym compare_ptr = "symbol \<times> address comparator"
type_synonym hash_ptr = "symbol \<times> (address ptr \<Rightarrow> int \<Rightarrow> int)"

datatype set_backend = Hash_Backend "address hash_map" | Tree_Backend "address tree_impl"

record set_obj =
  so_type :: set_type
  so_cmp :: compare_ptr
  so_hash :: "hash_ptr option"
  so_backend :: set_backend
  so_user_data :: "address ptr"

section \<open>Methods\<close>

definition set_add_state :: "set_obj \<Rightarrow> address ptr \<Rightarrow> address world \<Rightarrow> bool \<times> set_obj \<times> address world" where
  "set_add_state state element w =
     (case so_backend state of
        Hash_Backend m \<Rightarrow>
          (case hash_set_add m element w of (r, m, w) \<Rightarrow> (r, state\<lparr>so_backend := Hash_Backend m\<rparr>, w))
      | Tree_Backend t \<Rightarrow>
          (case tree_set_add t element w of (r, t, w) \<Rightarrow> (r, state\<lparr>so_backend := Tree_Backend t\<rparr>, w)))"

fun set_add_method :: "set_obj option \<Rightarrow> address ptr \<Rightarrow> address world \<Rightarrow> bool \<times> set_obj option \<times> address world" where
  "set_add_method None element w = (False, None, w)"
| "set_add_method (Some state) element w =
     (case set_add_state state element w of (r, state, w) \<Rightarrow> (r, Some state, w))"

fun set_add_bulk_method ::
  "set_obj option \<Rightarrow> address ptr list option \<Rightarrow> int \<Rightarrow> address world \<Rightarrow> set_obj option \<times> address world" where
  "set_add_bulk_method (Some self) (Some elements) cnt w =
     (if cnt \<le> 0 then (Some self, w)
      else foldl (\<lambda>(self, w) x. case set_add_method self x w of (_, self, w) \<Rightarrow> (self, w))
             (Some self, w) (take (nat cnt) elements))"
| "set_add_bulk_method self _ cnt w = (self, w)"

definition set_contains_state :: "set_obj \<Rightarrow> address ptr \<Rightarrow> bool" where
  "set_contains_state state element =
     (case so_backend state of
        Hash_Backend m \<Rightarrow> hash_set_contains m element
      | Tree_Backend t \<Rightarrow> tree_set_contains t element)"

fun set_contains_method :: "set_obj option \<Rightarrow> address ptr \<Rightarrow> bool" where
  "set_contains_method None element = False"
| "set_contains_method (Some state) element = set_contains_state state element"

definition set_remove_state :: "set_obj \<Rightarrow> address ptr \<Rightarrow> bool \<times> set_obj" where
  "set_remove_state state element =
     (case so_backend state of
        Hash_Backend m \<Rightarrow>
          (case hash_set_remove m element of (r, m) \<Rightarrow> (r, state\<lparr>so_backend := Hash_Backend m\<rparr>))
      | Tree_Backend t \<Rightarrow>
          (case tree_set_remove t element of (r, t) \<Rightarrow> (r, state\<lparr>so_backend := Tree_Backend t\<rparr>)))"

fun set_remove_method :: "set_obj option \<Rightarrow> address ptr \<Rightarrow> bool \<times> set_obj option" where
  "set_remove_method None element = (False, None)"
| "set_remove_method (Some state) element =
     (case set_remove_state state element of (r, state) \<Rightarrow> (r, Some state))"

fun set_size_method :: "set_obj option \<Rightarrow> int" where
  "set_size_method None = 0"
| "set_size_method (Some state) =
     (case so_backend state of Hash_Backend m \<Rightarrow> hash_set_size m | Tree_Backend t \<Rightarrow> tree_set_size t)"

definition set_to_list_state :: "set_obj \<Rightarrow> address world \<Rightarrow> address list_obj option \<times> address world" where
  "set_to_list_state state w =
     (case so_backend state of
        Hash_Backend m \<Rightarrow> hash_set_to_list m w
      | Tree_Backend t \<Rightarrow> tree_set_to_list t w)"

fun set_to_list_method :: "set_obj option \<Rightarrow> address world \<Rightarrow> address list_obj option \<times> address world" where
  "set_to_list_method None w = (None, w)"
| "set_to_list_method (Some state) w = set_to_list_state state w"

text \<open>The comparator of a set is never null.\<close>

fun sets_are_compatible :: "set_obj option \<Rightarrow> set_obj option \<Rightarrow> bool" where
  "sets_are_compatible (Some lhs) (Some rhs) =
     (if fst (so_cmp lhs) \<noteq> fst (so_cmp rhs) then False
      else if map_option fst (so_hash lhs) \<noteq> map_option fst (so_hash rhs) then False
      else so_type lhs = so_type rhs)"
| "sets_are_compatible _ _ = False"

definition create_set_with_capacity ::
  "set_type \<Rightarrow> compare_ptr option \<Rightarrow> hash_ptr option \<Rightarrow> int \<Rightarrow> address world \<Rightarrow> set_obj option \<times> address world" where
  "create_set_with_capacity type cmp hash capacity_hint w =
     (case malloc_struct w of
        (False, w) \<Rightarrow> (None, w)
      | (True, w) \<Rightarrow>
       (case malloc_struct w of
          (False, w) \<Rightarrow> (None, w)
        | (True, w) \<Rightarrow>
         (case type of
            SET_HASH \<Rightarrow>
              (case (if Option.is_none cmp \<and> Option.is_none hash
                     then (Some (Library_Default, set_default_ptr_compare), Some (Library_Default, set_default_ptr_hash))
                     else (cmp, hash)) of
                 (Some cmp, Some hash) \<Rightarrow>
                   (case hash_set_create_impl capacity_hint (snd cmp) (snd hash) w of
                      (None, w) \<Rightarrow> (None, w)
                    | (Some m, w) \<Rightarrow>
                        (Some \<lparr>so_type = SET_HASH, so_cmp = cmp, so_hash = Some hash,
                               so_backend = Hash_Backend m, so_user_data = NULL\<rparr>, w))
               | _ \<Rightarrow> (None, w))
          | SET_TREE \<Rightarrow>
              (let cmp = (case cmp of None \<Rightarrow> (Library_Default, set_default_ptr_compare) | Some c \<Rightarrow> c) in
               case tree_set_create_impl (snd cmp) w of
                 (None, w) \<Rightarrow> (None, w)
               | (Some t, w) \<Rightarrow>
                   (Some \<lparr>so_type = SET_TREE, so_cmp = cmp, so_hash = None,
                          so_backend = Tree_Backend t, so_user_data = NULL\<rparr>, w)))))"

definition create_set ::
  "set_type \<Rightarrow> compare_ptr option \<Rightarrow> hash_ptr option \<Rightarrow> address world \<Rightarrow> set_obj option \<times> address world" where
  "create_set type cmp hash w = create_set_with_capacity type cmp hash 0 w"

section \<open>Algebra and clones\<close>

text \<open>The loop the algebra and the shallow clone share: the elements of a list that pass a test are
  added, and whether each addition succeeded is not looked at.\<close>

fun add_kept ::
  "(address ptr \<Rightarrow> bool) \<Rightarrow> nat \<Rightarrow> int \<Rightarrow> address list_obj \<Rightarrow> set_obj \<Rightarrow> address world \<Rightarrow>
     address list_obj \<times> set_obj \<times> address world" where
  "add_kept keep 0 i items out w = (items, out, w)"
| "add_kept keep (Suc n) i items out w =
     (case list_get items i of (element, items) \<Rightarrow>
        if keep element then
          (case set_add_state out element w of (_, out, w) \<Rightarrow> add_kept keep n (i + 1) items out w)
        else add_kept keep n (i + 1) items out w)"

definition add_snapshot ::
  "(address ptr \<Rightarrow> bool) \<Rightarrow> set_obj option \<Rightarrow> set_obj \<Rightarrow> address world \<Rightarrow> set_obj option \<times> address world" where
  "add_snapshot keep from out w =
     (case set_to_list_method from w of
        (None, w) \<Rightarrow> (None, w)
      | (Some items, w) \<Rightarrow>
         (case add_kept keep (nat (list_size items)) 0 items out w of
            (items, out, w) \<Rightarrow> (Some out, list_free items w)))"

definition set_union_with_method ::
  "set_obj option \<Rightarrow> set_obj option \<Rightarrow> address world \<Rightarrow> set_obj option \<times> address world" where
  "set_union_with_method self other w =
     (if \<not> sets_are_compatible self other then (None, w)
      else
       (let lhs = the self; cap = wrap_int (set_size_method self + set_size_method other) in
        case create_set_with_capacity (so_type lhs) (Some (so_cmp lhs)) (so_hash lhs) cap w of
          (None, w) \<Rightarrow> (None, w)
        | (Some out, w) \<Rightarrow>
           (case add_snapshot (\<lambda>_. True) self out w of
              (None, w) \<Rightarrow> (None, w)
            | (Some out, w) \<Rightarrow> add_snapshot (\<lambda>_. True) other out w)))"

definition set_intersection_with_method ::
  "set_obj option \<Rightarrow> set_obj option \<Rightarrow> address world \<Rightarrow> set_obj option \<times> address world" where
  "set_intersection_with_method self other w =
     (if \<not> sets_are_compatible self other then (None, w)
      else
       (let lhs = the self;
            (iter, match) = (if set_size_method other < set_size_method self then (other, self) else (self, other))
        in case create_set_with_capacity (so_type lhs) (Some (so_cmp lhs)) (so_hash lhs) (set_size_method iter) w of
             (None, w) \<Rightarrow> (None, w)
           | (Some out, w) \<Rightarrow> add_snapshot (set_contains_method match) iter out w))"

definition set_difference_with_method ::
  "set_obj option \<Rightarrow> set_obj option \<Rightarrow> address world \<Rightarrow> set_obj option \<times> address world" where
  "set_difference_with_method self other w =
     (if \<not> sets_are_compatible self other then (None, w)
      else
       (let lhs = the self in
        case create_set_with_capacity (so_type lhs) (Some (so_cmp lhs)) (so_hash lhs) (set_size_method self) w of
          (None, w) \<Rightarrow> (None, w)
        | (Some out, w) \<Rightarrow> add_snapshot (\<lambda>x. \<not> set_contains_method other x) self out w))"

fun subset_loop :: "set_obj option \<Rightarrow> nat \<Rightarrow> int \<Rightarrow> address list_obj \<Rightarrow> bool \<times> address list_obj" where
  "subset_loop other 0 i items = (True, items)"
| "subset_loop other (Suc n) i items =
     (case list_get items i of (element, items) \<Rightarrow>
        if \<not> set_contains_method other element then (False, items)
        else subset_loop other n (i + 1) items)"

definition set_is_subset_of_method ::
  "set_obj option \<Rightarrow> set_obj option \<Rightarrow> address world \<Rightarrow> bool \<times> address world" where
  "set_is_subset_of_method self other w =
     (if \<not> sets_are_compatible self other then (False, w)
      else (case set_to_list_method self w of
          (None, w) \<Rightarrow> (False, w)
        | (Some items, w) \<Rightarrow>
           (case subset_loop other (nat (list_size items)) 0 items of
              (result, items) \<Rightarrow> (result, list_free items w))))"

fun set_clone_shallow_method :: "set_obj option \<Rightarrow> address world \<Rightarrow> set_obj option \<times> address world" where
  "set_clone_shallow_method None w = (None, w)"
| "set_clone_shallow_method (Some state) w =
     (case set_to_list_method (Some state) w of
        (None, w) \<Rightarrow> (None, w)
      | (Some items, w) \<Rightarrow>
         (let n = list_size items in
          case create_set_with_capacity (so_type state) (Some (so_cmp state)) (so_hash state) n w of
            (None, w) \<Rightarrow> (None, list_free items w)
          | (Some copy, w) \<Rightarrow>
             (case add_kept (\<lambda>_. True) (nat n) 0 items copy w of
                (items, copy, w) \<Rightarrow>
                  (Some (copy\<lparr>so_user_data := so_user_data state\<rparr>), list_free items w))))"

fun deep_copy_loop ::
  "address element_copier \<Rightarrow> nat \<Rightarrow> int \<Rightarrow> address list_obj \<Rightarrow> set_obj \<Rightarrow> address world \<Rightarrow>
     address list_obj \<times> set_obj option \<times> address world" where
  "deep_copy_loop copier 0 i items copy w = (items, Some copy, w)"
| "deep_copy_loop copier (Suc n) i items copy w =
     (case list_get items i of (element, items) \<Rightarrow>
        case copier element w of
          (None, w) \<Rightarrow> (items, None, w)
        | (Some dup, w) \<Rightarrow>
           (case set_add_state copy (Some dup) w of
              (_, copy, w) \<Rightarrow> deep_copy_loop copier n (i + 1) items copy w))"

fun set_clone_deep_method ::
  "set_obj option \<Rightarrow> address element_copier option \<Rightarrow> address world \<Rightarrow> set_obj option \<times> address world" where
  "set_clone_deep_method (Some state) (Some copier) w =
     (case set_to_list_method (Some state) w of
        (None, w) \<Rightarrow> (None, w)
      | (Some items, w) \<Rightarrow>
         (let n = list_size items in
          case create_set_with_capacity (so_type state) (Some (so_cmp state)) (so_hash state) n w of
            (None, w) \<Rightarrow> (None, list_free items w)
          | (Some copy, w) \<Rightarrow>
             (case deep_copy_loop copier (nat n) 0 items copy w of
                (items, copy, w) \<Rightarrow>
                  (map_option (\<lambda>c. c\<lparr>so_user_data := so_user_data state\<rparr>) copy, list_free items w))))"
| "set_clone_deep_method self copier w = (None, w)"

section \<open>Invariant\<close>

definition set_ok :: "set_obj \<Rightarrow> bool" where
  "set_ok s \<longleftrightarrow> comparator_order (snd (so_cmp s)) \<and>
     (case so_backend s of
        Hash_Backend m \<Rightarrow> so_type s = SET_HASH \<and>
          (\<exists>hash. so_hash s = Some hash \<and> hash_contract (snd hash) (\<lambda>a b. safe_key_equals a b (snd (so_cmp s))) \<and>
             hash_set_ok (snd (so_cmp s)) (snd hash) m)
      | Tree_Backend t \<Rightarrow> so_type s = SET_TREE \<and> so_hash s = None \<and> tree_set_ok (snd (so_cmp s)) t)"

definition set_elems :: "set_obj \<Rightarrow> address ptr multiset" where
  "set_elems s = (case so_backend s of Hash_Backend m \<Rightarrow> hash_elems m | Tree_Backend t \<Rightarrow> tree_elems t)"

definition set_same :: "set_obj \<Rightarrow> address ptr \<Rightarrow> address ptr \<Rightarrow> bool" where
  "set_same s = (\<lambda>a b. safe_key_equals a b (snd (so_cmp s)))"

lemma set_add_frame:
  "set_add_state s x w = (r, s', w') \<Longrightarrow> so_type s' = so_type s \<and> so_cmp s' = so_cmp s \<and> so_hash s' = so_hash s \<and>
     so_user_data s' = so_user_data s"
  by (auto simp: set_add_state_def split: set_backend.splits prod.splits)

lemma set_add_step:
  assumes "set_ok s" "size (set_elems s) < INT_MAX" "set_add_state s x w = (r, s', w')"
  shows "set_ok s' \<and> set_same s' = set_same s \<and> set_elems s' = (if r then add_mset x (set_elems s) else set_elems s) \<and>
    (alloc_fails w = [] \<longrightarrow> (r \<longleftrightarrow> x \<noteq> NULL \<and> \<not> elem_of (set_same s) x (set_elems s)) \<and> alloc_fails w' = [])"
proof (cases "so_backend s")
  case (Hash_Backend m)
  then obtain hash where h: "so_hash s = Some hash" "hash_contract (snd hash) (\<lambda>a b. safe_key_equals a b (snd (so_cmp s)))"
    "hash_set_ok (snd (so_cmp s)) (snd hash) m" "so_type s = SET_HASH" "comparator_order (snd (so_cmp s))"
    using assms(1) by (auto simp: set_ok_def)
  obtain m' where I: "hash_set_add m x w = (r, m', w')" "s' = s\<lparr>so_backend := Hash_Backend m'\<rparr>"
    using assms(3) Hash_Backend by (auto simp: set_add_state_def split: prod.splits)
  then show ?thesis
    using hash_set_add_spec [OF h(3) I(1)] h Hash_Backend by (simp add: set_ok_def set_elems_def set_same_def)
next
  case (Tree_Backend t)
  then have t: "tree_set_ok (snd (so_cmp s)) t" "so_type s = SET_TREE" "so_hash s = None" "comparator_order (snd (so_cmp s))"
    using assms(1) by (auto simp: set_ok_def)
  have small: "size (tree_elems t) < INT_MAX" using assms(2) Tree_Backend by (simp add: set_elems_def)
  obtain t' where I: "tree_set_add t x w = (r, t', w')" "s' = s\<lparr>so_backend := Tree_Backend t'\<rparr>"
    using assms(3) Tree_Backend by (auto simp: set_add_state_def split: prod.splits)
  then show ?thesis
    using tree_set_add_spec [OF t(1) small I(1)] t Tree_Backend by (simp add: set_ok_def set_elems_def set_same_def)
qed

interpretation ss: element_set set_ok set_same set_elems set_add_state set_contains_state set_remove_state set_to_list_state
proof unfold_locales
  fix s s' :: set_obj and x :: "address ptr" and w w' :: "address world" and r
  assume s: "set_ok s"
  show "equivp (set_same s)"
    using s comparator_order.safe_equals_equiv by (auto simp: set_ok_def set_same_def)
  show "x \<noteq> NULL" if "x \<in># set_elems s"
    using s that hs.nonnull ts.nonnull by (auto simp: set_ok_def set_elems_def split: set_backend.splits)
  show "elems_apart (set_same s) (set_elems s)"
    using s hash_elems_apart tree_elems_apart
    by (auto simp: set_ok_def set_elems_def set_same_def split: set_backend.splits)
  show "set_contains_state s x \<longleftrightarrow> x \<noteq> NULL \<and> elem_of (set_same s) x (set_elems s)"
    using s hash_set_contains_spec tree_set_contains_spec
    by (auto simp: set_ok_def set_elems_def set_same_def set_contains_state_def split: set_backend.splits)
  show "set_ok s' \<and> set_same s' = set_same s \<and> set_elems s' = (if r then add_mset x (set_elems s) else set_elems s)"
    if "size (set_elems s) < INT_MAX" "set_add_state s x w = (r, s', w')"
    using set_add_step [OF s that] by blast
  show "(r \<longleftrightarrow> x \<noteq> NULL \<and> \<not> elem_of (set_same s) x (set_elems s)) \<and> alloc_fails w' = []"
    if "size (set_elems s) < INT_MAX" "alloc_fails w = []" "set_add_state s x w = (r, s', w')"
    using set_add_step [OF s that(1,3)] that(2) by blast
  show "\<exists>l w'. set_to_list_state s w = (Some l, w') \<and> positional l \<and> mset (list_items l) = set_elems s \<and> alloc_fails w' = []"
    if "size (set_elems s) \<le> INT_MAX" "alloc_fails w = []"
    using s that hs.to_list_ready ts.to_list_ready
    by (auto simp: set_ok_def set_elems_def set_to_list_state_def split: set_backend.splits)
  show "set_ok s' \<and> set_same s' = set_same s \<and> r = set_contains_state s x \<and>
      set_elems s' = filter_mset (\<lambda>y. \<not> (x \<noteq> NULL \<and> set_same s y x)) (set_elems s)"
    if small: "size (set_elems s) \<le> INT_MAX" and run: "set_remove_state s x = (r, s')"
  proof (cases "so_backend s")
    case (Hash_Backend m)
    then obtain m' where "hash_set_remove m x = (r, m')" "s' = s\<lparr>so_backend := Hash_Backend m'\<rparr>"
      using run by (auto simp: set_remove_state_def split: prod.splits)
    then show ?thesis
      using s Hash_Backend hs.remove_step [of "snd (so_cmp s)" _ m x r m'] small
      by (auto simp: set_ok_def set_elems_def set_same_def set_contains_state_def)
  next
    case (Tree_Backend t)
    then obtain t' where "tree_set_remove t x = (r, t')" "s' = s\<lparr>so_backend := Tree_Backend t'\<rparr>"
      using run by (auto simp: set_remove_state_def split: prod.splits)
    then show ?thesis
      using s Tree_Backend ts.remove_step [of "snd (so_cmp s)" t x r t'] small
      by (auto simp: set_ok_def set_elems_def set_same_def set_contains_state_def)
  qed
qed

section \<open>The loops\<close>

lemma list_free_fails [simp]: "alloc_fails (list_free l w) = alloc_fails w"
  by (cases "lo_impl l") (simp_all add: list_free_def)

definition same_kind :: "set_obj \<Rightarrow> set_obj \<Rightarrow> bool" where
  "same_kind s s' \<longleftrightarrow> so_type s' = so_type s \<and> so_cmp s' = so_cmp s \<and> so_hash s' = so_hash s"

lemma same_kind_same: "same_kind s s' \<Longrightarrow> set_same s' = set_same s"
  by (simp add: same_kind_def set_same_def)

lemma same_kind_trans: "same_kind a b \<Longrightarrow> same_kind b c \<Longrightarrow> same_kind a c"
  by (simp add: same_kind_def)

lemma add_kept_spec:
  assumes "positional items" "set_ok out" "alloc_fails w = []" "length (list_items items) = k + n"
    "size (set_elems out) + n \<le> INT_MAX" "add_kept keep n (int k) items out w = (items', out', w')"
  shows "alloc_fails w' = [] \<and> set_ok out' \<and> same_kind out out' \<and> so_user_data out' = so_user_data out \<and>
    size (set_elems out') \<le> size (set_elems out) + n \<and>
    (\<forall>y. set_contains_state out' y \<longleftrightarrow> set_contains_state out y \<or>
       (y \<noteq> NULL \<and> (\<exists>x\<in>set (drop k (list_items items)). keep x \<and> x \<noteq> NULL \<and> set_same out x y)))"
  using assms
proof (induction n arbitrary: k items out w)
  case 0
  then show ?case by (simp add: same_kind_def)
next
  case (Suc n)
  obtain x it where G: "list_get items (int k) = (x, it)" by (cases "list_get items (int k)")
  note g = list_get_positional [OF Suc.prems(1) G]
  have x: "x = list_items items ! k" using g Suc.prems(4) by simp
  have cons: "drop k (list_items items) = x # drop (Suc k) (list_items items)"
    using Suc.prems(4) x by (simp add: Cons_nth_drop_Suc)
  have len: "length (list_items it) = Suc k + n" and small: "size (set_elems out) < INT_MAX"
    using g Suc.prems(4,5) by simp_all
  show ?case
  proof (cases "keep x")
    case False
    then have run: "add_kept keep n (int (Suc k)) it out w = (items', out', w')"
      using Suc.prems(6) G by (simp add: algebra_simps)
    have "size (set_elems out) + n \<le> INT_MAX" using Suc.prems(5) by simp
    from Suc.IH [OF _ Suc.prems(2,3) len this run] g False show ?thesis by (simp add: cons)
  next
    case True
    obtain r o1 w1 where A: "set_add_state out x w = (r, o1, w1)" by (cases "set_add_state out x w")
    have run: "add_kept keep n (int (Suc k)) it o1 w1 = (items', out', w')"
      using Suc.prems(6) G A True by (simp add: algebra_simps)
    note S = ss.add_step [OF Suc.prems(2) small A] ss.add_ready [OF Suc.prems(2) small Suc.prems(3) A]
    note F = set_add_frame [OF A]
    have "size (set_elems o1) \<le> size (set_elems out) + 1" using S by simp
    then have "size (set_elems o1) + n \<le> INT_MAX" using Suc.prems(5) by simp
    from Suc.IH [OF _ _ _ len this run] g S
    have IH: "alloc_fails w' = []" "set_ok out'" "same_kind o1 out'" "so_user_data out' = so_user_data o1"
      "size (set_elems out') \<le> size (set_elems o1) + n"
      "\<And>y. set_contains_state out' y \<longleftrightarrow> set_contains_state o1 y \<or>
         (y \<noteq> NULL \<and> (\<exists>x\<in>set (drop (Suc k) (list_items items)). keep x \<and> x \<noteq> NULL \<and> set_same out x y))"
      by simp_all
    have kind: "same_kind out out'" "so_user_data out' = so_user_data out"
      using IH(3,4) F by (simp_all add: same_kind_def)
    have "set_contains_state out' y \<longleftrightarrow> set_contains_state out y \<or>
       (y \<noteq> NULL \<and> (\<exists>x\<in>set (drop k (list_items items)). keep x \<and> x \<noteq> NULL \<and> set_same out x y))" for y
      unfolding IH(6) ss.has_add_ready [OF Suc.prems(2) small Suc.prems(3) A] cons using True by auto
    moreover have "size (set_elems out') \<le> size (set_elems out) + Suc n"
      using IH(5) \<open>size (set_elems o1) \<le> size (set_elems out) + 1\<close> by linarith
    ultimately show ?thesis using IH(1,2) kind by blast
  qed
qed

lemma add_snapshot_spec:
  assumes "set_ok from" "set_ok out" "alloc_fails w = []" "size (set_elems out) + size (set_elems from) \<le> INT_MAX"
  shows "\<exists>out' w'. add_snapshot keep (Some from) out w = (Some out', w') \<and> alloc_fails w' = [] \<and> set_ok out' \<and>
    same_kind out out' \<and> so_user_data out' = so_user_data out \<and>
    size (set_elems out') \<le> size (set_elems out) + size (set_elems from) \<and>
    (\<forall>y. set_contains_state out' y \<longleftrightarrow> set_contains_state out y \<or>
       (y \<noteq> NULL \<and> (\<exists>x\<in>#set_elems from. keep x \<and> set_same out x y)))"
proof -
  have "size (set_elems from) \<le> INT_MAX" using assms(4) by simp
  then obtain l w1 where L: "set_to_list_state from w = (Some l, w1)" "positional l" "mset (list_items l) = set_elems from"
    "alloc_fails w1 = []"
    using ss.to_list_ready [OF assms(1) _ assms(3)] by blast
  have len: "length (list_items l) = size (set_elems from)" using arg_cong [OF L(3), of size] by simp
  have n: "nat (list_size l) = size (set_elems from)" using list_size_positional [OF L(2)] len by simp
  have elems: "set (list_items l) = set_mset (set_elems from)" using arg_cong [OF L(3), of set_mset] by simp
  obtain it o1 w2 where A: "add_kept keep (size (set_elems from)) (int 0) l out w1 = (it, o1, w2)"
    by (cases "add_kept keep (size (set_elems from)) (int 0) l out w1")
  have "length (list_items l) = 0 + size (set_elems from)" using len by simp
  note K = add_kept_spec [OF L(2) assms(2) L(4) this assms(4) A, unfolded drop_0 elems]
  have "add_snapshot keep (Some from) out w = (Some o1, list_free it w2)"
    using L(1) A by (simp add: add_snapshot_def n)
  moreover have "(\<exists>x\<in>#set_elems from. keep x \<and> x \<noteq> NULL \<and> set_same out x y) \<longleftrightarrow> (\<exists>x\<in>#set_elems from. keep x \<and> set_same out x y)" for y
    using ss.nonnull [OF assms(1)] by blast
  ultimately show ?thesis using K by simp
qed

lemma create_ready:
  assumes "set_ok s" "alloc_fails w = []" "is_int cap"
  shows "\<exists>out w'. create_set_with_capacity (so_type s) (Some (so_cmp s)) (so_hash s) cap w = (Some out, w') \<and>
    alloc_fails w' = [] \<and> set_ok out \<and> set_elems out = {#} \<and> same_kind s out \<and> so_user_data out = NULL"
proof (cases "so_backend s")
  case (Hash_Backend m)
  then obtain hash where h: "so_hash s = Some hash" "hash_contract (snd hash) (\<lambda>a b. safe_key_equals a b (snd (so_cmp s)))"
    "so_type s = SET_HASH" "comparator_order (snd (so_cmp s))"
    using assms(1) by (auto simp: set_ok_def)
  obtain m' w' where C: "hash_set_create_impl cap (snd (so_cmp s)) (snd hash) w = (Some m', w')" "alloc_fails w' = []"
    using hash_set_create_ready [OF assms(2,3)] by blast
  then show ?thesis
    using hash_set_create_spec [OF C(1) assms(3) h(4,2)] h assms(2)
    by (simp add: create_set_with_capacity_def malloc_struct_no_failures set_ok_def set_elems_def same_kind_def)
next
  case (Tree_Backend t)
  then have t: "so_type s = SET_TREE" "so_hash s = None" "comparator_order (snd (so_cmp s))"
    using assms(1) by (auto simp: set_ok_def)
  obtain t' w' where C: "tree_set_create_impl (snd (so_cmp s)) w = (Some t', w')" "alloc_fails w' = []"
    using tree_set_create_ready [OF assms(2)] by blast
  then show ?thesis
    using tree_set_create_spec [OF C(1) t(3)] t assms(2)
    by (simp add: create_set_with_capacity_def malloc_struct_no_failures set_ok_def set_elems_def same_kind_def)
qed

lemma set_size_elems: "set_ok s \<Longrightarrow> size (set_elems s) \<le> INT_MAX \<Longrightarrow> set_size_method (Some s) = int (size (set_elems s))"
  using hash_set_size_elems tree_set_size_elems
  by (auto simp: set_ok_def set_elems_def split: set_backend.splits)

text \<open>A name stands for one function.\<close>

definition one_function :: "set_obj \<Rightarrow> set_obj \<Rightarrow> bool" where
  "one_function a b \<longleftrightarrow> (fst (so_cmp a) = fst (so_cmp b) \<longrightarrow> so_cmp a = so_cmp b)"

lemma compatible_same: "one_function a b \<Longrightarrow> sets_are_compatible (Some a) (Some b) \<Longrightarrow> set_same a = set_same b"
  by (auto simp: one_function_def set_same_def split: if_splits)

lemma contains_witness:
  "set_ok s \<Longrightarrow> set_contains_state s y \<longleftrightarrow> y \<noteq> NULL \<and> (\<exists>x\<in>#set_elems s. set_same s x y)"
  using ss.has_iff [of s y] by (simp add: elem_of_def)

lemma contains_elem: "set_ok s \<Longrightarrow> x \<in># set_elems s \<Longrightarrow> set_contains_state s x"
  using contains_witness [of s x] ss.nonnull [of s x] equiv_laws(1) [OF ss.same_equiv] by blast

lemma empty_contains: "set_ok s \<Longrightarrow> set_elems s = {#} \<Longrightarrow> \<not> set_contains_state s y"
  by (simp add: contains_witness)

lemma set_union_spec:
  assumes "set_ok a" "set_ok b" "one_function a b" "sets_are_compatible (Some a) (Some b)" "alloc_fails w = []"
    "size (set_elems a) + size (set_elems b) \<le> INT_MAX"
  shows "\<exists>out w'. set_union_with_method (Some a) (Some b) w = (Some out, w') \<and> set_ok out \<and> same_kind a out \<and>
    (\<forall>y. set_contains_state out y \<longleftrightarrow> set_contains_state a y \<or> set_contains_state b y)"
proof -
  have small: "size (set_elems a) \<le> INT_MAX" "size (set_elems b) \<le> INT_MAX" using assms(6) by simp_all
  let ?cap = "wrap_int (set_size_method (Some a) + set_size_method (Some b))"
  have "?cap = int (size (set_elems a)) + int (size (set_elems b))" "is_int (int (size (set_elems a)) + int (size (set_elems b)))"
    using set_size_elems [OF assms(1) small(1)] set_size_elems [OF assms(2) small(2)] assms(6)
    by (simp_all add: wrap_int_id is_int_def INT_MAX_def)
  then have "is_int ?cap" by simp
  from create_ready [OF assms(1,5) this] obtain out w1 where C:
    "create_set_with_capacity (so_type a) (Some (so_cmp a)) (so_hash a) ?cap w = (Some out, w1)"
    "alloc_fails w1 = []" "set_ok out" "set_elems out = {#}" "same_kind a out" by blast
  have "size (set_elems out) + size (set_elems a) \<le> INT_MAX" using C(4) small by simp
  from add_snapshot_spec [OF assms(1) C(3,2) this, of "\<lambda>_. True"] obtain o1 w2 where A:
    "add_snapshot (\<lambda>_. True) (Some a) out w1 = (Some o1, w2)" "alloc_fails w2 = []" "set_ok o1" "same_kind out o1"
    "size (set_elems o1) \<le> size (set_elems out) + size (set_elems a)"
    "\<And>y. set_contains_state o1 y \<longleftrightarrow> set_contains_state out y \<or> (y \<noteq> NULL \<and> (\<exists>x\<in>#set_elems a. set_same out x y))"
    by auto
  have "size (set_elems o1) + size (set_elems b) \<le> INT_MAX" using A(5) C(4) assms(6) by simp
  from add_snapshot_spec [OF assms(2) A(3,2) this, of "\<lambda>_. True"] obtain o2 w3 where B:
    "add_snapshot (\<lambda>_. True) (Some b) o1 w2 = (Some o2, w3)" "set_ok o2" "same_kind o1 o2"
    "\<And>y. set_contains_state o2 y \<longleftrightarrow> set_contains_state o1 y \<or> (y \<noteq> NULL \<and> (\<exists>x\<in>#set_elems b. set_same o1 x y))"
    by auto
  have same: "set_same out = set_same a" "set_same o1 = set_same b"
    using same_kind_same [OF C(5)] same_kind_same [OF A(4)] compatible_same [OF assms(3,4)] by simp_all
  have "set_contains_state o2 y \<longleftrightarrow> set_contains_state a y \<or> set_contains_state b y" for y
    unfolding B(4) A(6) same contains_witness [OF assms(1)] contains_witness [OF assms(2)]
    using empty_contains [OF C(3,4)] by blast
  moreover have "set_union_with_method (Some a) (Some b) w = (Some o2, w3)"
    using assms(4) C(1) A(1) B(1) unfolding set_union_with_method_def by (simp del: sets_are_compatible.simps set_size_method.simps)
  moreover have "same_kind a o2" using same_kind_trans C(5) A(4) B(3) by blast
  ultimately show ?thesis using B(2) by blast
qed

lemma set_filter_spec:
  assumes "set_ok a" "set_ok from" "set_same from = set_same a" "alloc_fails w = []" "size (set_elems from) \<le> INT_MAX"
    and respects: "\<And>x y. x \<noteq> NULL \<Longrightarrow> y \<noteq> NULL \<Longrightarrow> set_same a x y \<Longrightarrow> keep x = keep y"
  shows "\<exists>out w1 out' w2. create_set_with_capacity (so_type a) (Some (so_cmp a)) (so_hash a) (set_size_method (Some from)) w = (Some out, w1) \<and>
    add_snapshot keep (Some from) out w1 = (Some out', w2) \<and> set_ok out' \<and> same_kind a out' \<and>
    (\<forall>y. set_contains_state out' y \<longleftrightarrow> set_contains_state from y \<and> keep y)"
proof -
  have "is_int (set_size_method (Some from))"
    using set_size_elems [OF assms(2,5)] assms(5) by (simp add: is_int_def INT_MAX_def)
  from create_ready [OF assms(1,4) this] obtain out w1 where C:
    "create_set_with_capacity (so_type a) (Some (so_cmp a)) (so_hash a) (set_size_method (Some from)) w = (Some out, w1)"
    "alloc_fails w1 = []" "set_ok out" "set_elems out = {#}" "same_kind a out" by blast
  have "size (set_elems out) + size (set_elems from) \<le> INT_MAX" using C(4) assms(5) by simp
  from add_snapshot_spec [OF assms(2) C(3,2) this, of keep] obtain o1 w2 where A:
    "add_snapshot keep (Some from) out w1 = (Some o1, w2)" "set_ok o1" "same_kind out o1"
    "\<And>y. set_contains_state o1 y \<longleftrightarrow> set_contains_state out y \<or> (y \<noteq> NULL \<and> (\<exists>x\<in>#set_elems from. keep x \<and> set_same out x y))"
    by auto
  have "(\<exists>x\<in>#set_elems from. keep x \<and> set_same a x y) \<longleftrightarrow> (\<exists>x\<in>#set_elems from. set_same a x y) \<and> keep y" if "y \<noteq> NULL" for y
    using respects [OF ss.nonnull [OF assms(2)] that] by blast
  then have "set_contains_state o1 y \<longleftrightarrow> set_contains_state from y \<and> keep y" for y
    unfolding A(4) contains_witness [OF assms(2)] assms(3) same_kind_same [OF C(5)]
    using empty_contains [OF C(3,4)] by blast
  then show ?thesis using C(1) A(1,2) same_kind_trans [OF C(5) A(3)] by blast
qed

lemma respects_same:
  assumes "set_ok s" "set_same s = set_same a" "x \<noteq> NULL" "y \<noteq> NULL" "set_same a x y"
  shows "set_contains_state s x = set_contains_state s y"
  using ss.has_cong [OF assms(1,3,4)] assms(2,5) by simp

lemmas set_method_simps = sets_are_compatible.simps set_size_method.simps set_to_list_method.simps

lemma set_intersection_spec:
  assumes "set_ok a" "set_ok b" "one_function a b" "sets_are_compatible (Some a) (Some b)" "alloc_fails w = []"
    "size (set_elems a) + size (set_elems b) \<le> INT_MAX"
  shows "\<exists>u v. set_intersection_with_method (Some a) (Some b) w = (Some u, v) \<and> set_ok u \<and>
    (\<forall>y. set_contains_state u y \<longleftrightarrow> set_contains_state a y \<and> set_contains_state b y)"
proof -
  have small: "size (set_elems a) \<le> INT_MAX" "size (set_elems b) \<le> INT_MAX" using assms(6) by simp_all
  have same: "set_same b = set_same a" using compatible_same [OF assms(3,4)] by simp
  have fn: "set_contains_method (Some s) = set_contains_state s" for s by (rule ext) simp
  show ?thesis
  proof (cases "set_size_method (Some b) < set_size_method (Some a)")
    case True
    obtain out w1 u v where R:
      "create_set_with_capacity (so_type a) (Some (so_cmp a)) (so_hash a) (set_size_method (Some b)) w = (Some out, w1)"
      "add_snapshot (set_contains_state a) (Some b) out w1 = (Some u, v)" "set_ok u"
      "\<And>y. set_contains_state u y \<longleftrightarrow> set_contains_state b y \<and> set_contains_state a y"
      using set_filter_spec [OF assms(1,2) same assms(5) small(2), of "set_contains_state a"] respects_same [OF assms(1) refl] by blast
    then have "set_intersection_with_method (Some a) (Some b) w = (Some u, v)"
      using True assms(4) by (simp add: set_intersection_with_method_def fn del: set_method_simps)
    then show ?thesis using R(3,4) by blast
  next
    case False
    obtain out w1 u v where R:
      "create_set_with_capacity (so_type a) (Some (so_cmp a)) (so_hash a) (set_size_method (Some a)) w = (Some out, w1)"
      "add_snapshot (set_contains_state b) (Some a) out w1 = (Some u, v)" "set_ok u"
      "\<And>y. set_contains_state u y \<longleftrightarrow> set_contains_state a y \<and> set_contains_state b y"
      using set_filter_spec [OF assms(1,1) refl assms(5) small(1), of "set_contains_state b"] respects_same [OF assms(2) same] by blast
    then have "set_intersection_with_method (Some a) (Some b) w = (Some u, v)"
      using False assms(4) by (simp add: set_intersection_with_method_def fn del: set_method_simps)
    then show ?thesis using R(3,4) by blast
  qed
qed

lemma set_difference_spec:
  assumes "set_ok a" "set_ok b" "one_function a b" "sets_are_compatible (Some a) (Some b)" "alloc_fails w = []"
    "size (set_elems a) + size (set_elems b) \<le> INT_MAX"
  shows "\<exists>u v. set_difference_with_method (Some a) (Some b) w = (Some u, v) \<and> set_ok u \<and>
    (\<forall>y. set_contains_state u y \<longleftrightarrow> set_contains_state a y \<and> \<not> set_contains_state b y)"
proof -
  have small: "size (set_elems a) \<le> INT_MAX" using assms(6) by simp
  have same: "set_same b = set_same a" using compatible_same [OF assms(3,4)] by simp
  have resp: "(\<not> set_contains_state b x) = (\<not> set_contains_state b y)"
    if "x \<noteq> NULL" "y \<noteq> NULL" "set_same a x y" for x y
    using respects_same [OF assms(2) same that] by simp
  obtain out w1 u v where R:
    "create_set_with_capacity (so_type a) (Some (so_cmp a)) (so_hash a) (set_size_method (Some a)) w = (Some out, w1)"
    "add_snapshot (\<lambda>x. \<not> set_contains_state b x) (Some a) out w1 = (Some u, v)" "set_ok u"
    "\<And>y. set_contains_state u y \<longleftrightarrow> set_contains_state a y \<and> \<not> set_contains_state b y"
    using set_filter_spec [OF assms(1,1) refl assms(5) small, of "\<lambda>x. \<not> set_contains_state b x"] resp by blast
  then have "set_difference_with_method (Some a) (Some b) w = (Some u, v)"
    using assms(4) by (simp add: set_difference_with_method_def del: set_method_simps)
  then show ?thesis using R(3,4) by blast
qed

lemma subset_loop_spec:
  assumes "positional items" "length (list_items items) = k + n"
  shows "fst (subset_loop other n (int k) items) \<longleftrightarrow> (\<forall>x\<in>set (drop k (list_items items)). set_contains_method other x)"
  using assms
proof (induction n arbitrary: k items)
  case (Suc n)
  obtain x it where G: "list_get items (int k) = (x, it)" by (cases "list_get items (int k)")
  note g = list_get_positional [OF Suc.prems(1) G]
  have cons: "drop k (list_items items) = x # drop (Suc k) (list_items items)"
    using g Suc.prems(2) by (simp add: Cons_nth_drop_Suc)
  have len: "length (list_items it) = Suc k + n" using g Suc.prems(2) by simp
  have "fst (subset_loop other (Suc n) (int k) items) \<longleftrightarrow>
      set_contains_method other x \<and> fst (subset_loop other n (int (Suc k)) it)"
    using G by (simp add: add.commute)
  then show ?case using Suc.IH [of it "Suc k"] g len by (simp add: cons)
qed simp

lemma set_subset_spec:
  assumes "set_ok a" "set_ok b" "one_function a b" "sets_are_compatible (Some a) (Some b)" "alloc_fails w = []"
    "size (set_elems a) + size (set_elems b) \<le> INT_MAX"
  shows "fst (set_is_subset_of_method (Some a) (Some b) w) \<longleftrightarrow> (\<forall>y. set_contains_state a y \<longrightarrow> set_contains_state b y)"
proof -
  have small: "size (set_elems a) \<le> INT_MAX" using assms(6) by simp
  have same: "set_same b = set_same a" using compatible_same [OF assms(3,4)] by simp
  obtain l w1 where L: "set_to_list_state a w = (Some l, w1)" "positional l" "mset (list_items l) = set_elems a"
    using ss.to_list_ready [OF assms(1) small assms(5)] by blast
  obtain res it where S: "subset_loop (Some b) (length (list_items l)) (int 0) l = (res, it)"
    by (cases "subset_loop (Some b) (length (list_items l)) (int 0) l")
  have "set (list_items l) = set_mset (set_elems a)" using arg_cong [OF L(3), of set_mset] by simp
  then have res: "res \<longleftrightarrow> (\<forall>x\<in>#set_elems a. set_contains_state b x)"
    using subset_loop_spec [OF L(2), of 0 "length (list_items l)" "Some b"] S by simp
  have "fst (set_is_subset_of_method (Some a) (Some b) w) = res"
    using L(1) S assms(4) list_size_positional [OF L(2)]
    by (simp add: set_is_subset_of_method_def del: sets_are_compatible.simps)
  moreover have "set_contains_state b y" if sub: "\<forall>x\<in>#set_elems a. set_contains_state b x" and y: "set_contains_state a y" for y
  proof -
    obtain x where x: "x \<in># set_elems a" "set_same a x y" "y \<noteq> NULL" using y contains_witness [OF assms(1)] by blast
    then show ?thesis
      using sub respects_same [OF assms(2) same ss.nonnull [OF assms(1) x(1)] x(3,2)] by blast
  qed
  ultimately show ?thesis using res contains_elem [OF assms(1)] by blast
qed

lemma set_clone_shallow_spec:
  assumes "set_ok a" "alloc_fails w = []" "size (set_elems a) \<le> INT_MAX"
  shows "\<exists>c v. set_clone_shallow_method (Some a) w = (Some c, v) \<and> set_ok c \<and> so_user_data c = so_user_data a \<and>
    (\<forall>y. set_contains_state c y \<longleftrightarrow> set_contains_state a y)"
proof -
  obtain l w1 where L: "set_to_list_state a w = (Some l, w1)" "positional l" "mset (list_items l) = set_elems a"
    "alloc_fails w1 = []"
    using ss.to_list_ready [OF assms(1,3,2)] by blast
  have len: "length (list_items l) = size (set_elems a)" using arg_cong [OF L(3), of size] by simp
  have n: "list_size l = int (size (set_elems a))" using list_size_positional [OF L(2)] len by simp
  have elems: "set (list_items l) = set_mset (set_elems a)" using arg_cong [OF L(3), of set_mset] by simp
  have "is_int (list_size l)" using n assms(3) by (simp add: is_int_def INT_MAX_def)
  from create_ready [OF assms(1) L(4) this] obtain out w2 where C:
    "create_set_with_capacity (so_type a) (Some (so_cmp a)) (so_hash a) (list_size l) w1 = (Some out, w2)"
    "alloc_fails w2 = []" "set_ok out" "set_elems out = {#}" "same_kind a out" by blast
  obtain it o1 w3 where A: "add_kept (\<lambda>_. True) (size (set_elems a)) (int 0) l out w2 = (it, o1, w3)"
    by (cases "add_kept (\<lambda>_. True) (size (set_elems a)) (int 0) l out w2")
  have sizes: "length (list_items l) = 0 + size (set_elems a)" "size (set_elems out) + size (set_elems a) \<le> INT_MAX"
    using len C(4) assms(3) by simp_all
  note K = add_kept_spec [OF L(2) C(3,2) sizes A, unfolded drop_0 elems]
  have "set_contains_state o1 y \<longleftrightarrow> set_contains_state a y" for y
    using K empty_contains [OF C(3,4)] ss.nonnull [OF assms(1)]
    by (simp add: contains_witness [OF assms(1)] same_kind_same [OF C(5)])
  moreover have "set_ok (o1\<lparr>so_user_data := u\<rparr>) = set_ok o1" "set_contains_state (o1\<lparr>so_user_data := u\<rparr>) = set_contains_state o1" for u
    by (cases "so_backend o1"; simp add: set_ok_def set_contains_state_def fun_eq_iff)+
  moreover have "set_clone_shallow_method (Some a) w = (Some (o1\<lparr>so_user_data := so_user_data a\<rparr>), list_free it w3)"
    using L(1) C(1) A by (simp add: n)
  ultimately show ?thesis using K by auto
qed

section \<open>Sets as sequences of different elements\<close>

datatype set_cmd = Add_Element "address ptr" | Remove_Element "address ptr" | Ask_Element "address ptr" | Ask_Size

fun set_exec :: "set_cmd \<Rightarrow> set_obj option \<Rightarrow> address world \<Rightarrow> int \<times> set_obj option \<times> address world" where
  "set_exec (Add_Element x) s w = (case set_add_method s x w of (r, s, w) \<Rightarrow> (of_bool r, s, w))"
| "set_exec (Remove_Element x) s w = (case set_remove_method s x of (r, s) \<Rightarrow> (of_bool r, s, w))"
| "set_exec (Ask_Element x) s w = (of_bool (set_contains_method s x), s, w)"
| "set_exec Ask_Size s w = (set_size_method s, s, w)"

fun set_run :: "set_cmd list \<Rightarrow> set_obj option \<Rightarrow> address world \<Rightarrow> int list \<times> set_obj option \<times> address world" where
  "set_run [] s w = ([], s, w)"
| "set_run (c # cs) s w =
     (case set_exec c s w of (a, s, w) \<Rightarrow> (case set_run cs s w of (as, s, w) \<Rightarrow> (a # as, s, w)))"

fun ref_exec :: "(address ptr \<Rightarrow> address ptr \<Rightarrow> bool) \<Rightarrow> set_cmd \<Rightarrow> address ptr list \<Rightarrow> int \<times> address ptr list" where
  "ref_exec same (Add_Element x) A =
     (if x \<noteq> NULL \<and> \<not> list_ex (\<lambda>y. same y x) A then (1, A @ [x]) else (0, A))"
| "ref_exec same (Remove_Element x) A =
     (if x \<noteq> NULL \<and> list_ex (\<lambda>y. same y x) A then (1, filter (\<lambda>y. \<not> same y x) A) else (0, A))"
| "ref_exec same (Ask_Element x) A = (of_bool (x \<noteq> NULL \<and> list_ex (\<lambda>y. same y x) A), A)"
| "ref_exec same Ask_Size A = (int (length A), A)"

fun ref_run :: "(address ptr \<Rightarrow> address ptr \<Rightarrow> bool) \<Rightarrow> set_cmd list \<Rightarrow> address ptr list \<Rightarrow> int list \<times> address ptr list" where
  "ref_run same [] A = ([], A)"
| "ref_run same (c # cs) A =
     (case ref_exec same c A of (a, A) \<Rightarrow> (case ref_run same cs A of (as, A) \<Rightarrow> (a # as, A)))"

lemma set_exec_step:
  assumes "set_ok s" "mset A = set_elems s" "alloc_fails w = []" "length A < INT_MAX"
  shows "\<exists>s' w'. set_exec c (Some s) w = (fst (ref_exec (set_same s) c A), Some s', w') \<and> set_ok s' \<and>
    set_same s' = set_same s \<and> mset (snd (ref_exec (set_same s) c A)) = set_elems s' \<and> alloc_fails w' = [] \<and>
    length (snd (ref_exec (set_same s) c A)) \<le> length A + 1"
proof -
  have len: "size (set_elems s) = length A" using arg_cong [OF assms(2), of size] by simp
  have small: "size (set_elems s) < INT_MAX" "size (set_elems s) \<le> INT_MAX" using assms(4) len by simp_all
  have has: "set_contains_state s x \<longleftrightarrow> x \<noteq> NULL \<and> list_ex (\<lambda>y. set_same s y x) A" for x
    using contains_witness [OF assms(1), of x] arg_cong [OF assms(2), of set_mset] by (simp add: list_ex_iff)
  show ?thesis
  proof (cases c)
    case (Add_Element x)
    obtain r s' w' where I: "set_add_state s x w = (r, s', w')" by (cases "set_add_state s x w")
    note L = ss.add_list [OF assms(1) small(1) assms(3) I assms(2)]
    have ref: "ref_exec (set_same s) c A = (of_bool r, if r then A @ [x] else A)"
      using L Add_Element by (simp add: list_ex_iff)
    have "set_exec c (Some s) w = (of_bool r, Some s', w')" using I Add_Element by simp
    then show ?thesis
      using L unfolding ref by (intro exI [of _ s'] exI [of _ w']) (cases r; simp)
  next
    case (Remove_Element x)
    obtain r s' where I: "set_remove_state s x = (r, s')" by (cases "set_remove_state s x")
    note L = ss.remove_list [OF assms(1) small(2) I assms(2)]
    let ?kept = "if x = NULL then A else filter (\<lambda>y. \<not> set_same s y x) A"
    have ref: "ref_exec (set_same s) c A = (of_bool r, ?kept)"
      using L Remove_Element by (auto simp: list_ex_iff)
    have "set_exec c (Some s) w = (of_bool r, Some s', w)" using I Remove_Element by simp
    moreover have "length ?kept \<le> length A + 1" by (simp add: le_SucI)
    ultimately show ?thesis
      using L assms(3) unfolding ref fst_conv snd_conv by blast
  next
    case (Ask_Element x)
    then show ?thesis using assms has by (simp add: of_bool_def)
  next
    case Ask_Size
    then show ?thesis using assms set_size_elems [OF assms(1) small(2)] len by (simp del: set_size_method.simps)
  qed
qed

section \<open>Properties\<close>

lemma set_run_refines:
  assumes "set_ok s" "mset A = set_elems s" "alloc_fails w = []" "length A + length cs \<le> INT_MAX"
  shows "\<exists>s' w'. set_run cs (Some s) w = (fst (ref_run (set_same s) cs A), Some s', w') \<and> set_ok s' \<and>
    set_same s' = set_same s \<and> mset (snd (ref_run (set_same s) cs A)) = set_elems s'"
  using assms
proof (induction cs arbitrary: s A w)
  case Nil
  then show ?case by simp
next
  case (Cons c cs)
  have "length A < INT_MAX" using Cons.prems(4) by simp
  from set_exec_step [OF Cons.prems(1-3) this, of c] obtain s1 w1 where S:
    "set_exec c (Some s) w = (fst (ref_exec (set_same s) c A), Some s1, w1)" "set_ok s1" "set_same s1 = set_same s"
    "mset (snd (ref_exec (set_same s) c A)) = set_elems s1" "alloc_fails w1 = []"
    "length (snd (ref_exec (set_same s) c A)) \<le> length A + 1" by blast
  have "length (snd (ref_exec (set_same s) c A)) + length cs \<le> INT_MAX" using S(6) Cons.prems(4) by simp
  from Cons.IH [OF S(2,4,5) this] show ?case
    using S(1,3) by (auto split: prod.splits)
qed

definition default_compare :: compare_ptr where
  "default_compare = (Library_Default, set_default_ptr_compare)"

lemma create_default:
  assumes "create_set type None None w = (Some s, w')"
  shows "set_ok s \<and> set_elems s = {#} \<and> so_cmp s = default_compare \<and> so_type s = type"
proof (cases type)
  case SET_HASH
  then obtain m v where C: "hash_set_create_impl 0 set_default_ptr_compare set_default_ptr_hash v = (Some m, w')"
    and s: "s = \<lparr>so_type = SET_HASH, so_cmp = default_compare, so_hash = Some (Library_Default, set_default_ptr_hash),
      so_backend = Hash_Backend m, so_user_data = NULL\<rparr>"
    using assms by (auto simp: create_set_def create_set_with_capacity_def default_compare_def
        split: prod.splits bool.splits option.splits)
  have contract: "hash_contract set_default_ptr_hash (\<lambda>a b. safe_key_equals a b set_default_ptr_compare)"
    using ptr_hash_contract unfolding hash_contract_def
    by (metis (no_types, lifting) not_None_eq ptr_compare_sign(3) safe_key_equals.simps(3,4) uintptr.simps(2))
  have "is_int 0" by (simp add: is_int_def)
  from hash_set_create_spec [OF C this pc.comparator_order_axioms contract] show ?thesis
    using s SET_HASH contract pc.comparator_order_axioms by (simp add: set_ok_def set_elems_def default_compare_def)
next
  case SET_TREE
  then obtain t v where C: "tree_set_create_impl set_default_ptr_compare v = (Some t, w')"
    and s: "s = \<lparr>so_type = SET_TREE, so_cmp = default_compare, so_hash = None,
      so_backend = Tree_Backend t, so_user_data = NULL\<rparr>"
    using assms by (auto simp: create_set_def create_set_with_capacity_def default_compare_def Let_def
        split: prod.splits bool.splits option.splits)
  from tree_set_create_spec [OF C pc.comparator_order_axioms] show ?thesis
    using s SET_TREE pc.comparator_order_axioms by (simp add: set_ok_def set_elems_def default_compare_def)
qed

text \<open>C17: a set made with the library's own comparison and hash answers every sequence of calls like
  a duplicate-free sequence: an addition reports whether the address was new, a removal whether it
  was there, the null address is never an element, and the size is the number of elements. Memory
  is assumed to be granted.\<close>

theorem set_is_a_set:
  assumes "create_set type None None w = (Some s, w1)" "alloc_fails w1 = []" "length cs \<le> INT_MAX"
  shows "fst (set_run cs (Some s) w1) = fst (ref_run (=) cs [])"
proof -
  note C = create_default [OF assms(1)]
  have same: "set_same s = (=)"
  proof (intro ext)
    show "set_same s a b = (a = b)" for a b
      using C by (cases a; cases b) (simp_all add: set_same_def default_compare_def ptr_compare_sign)
  qed
  have "mset [] = set_elems s" "length ([] :: address ptr list) + length cs \<le> INT_MAX" using C assms(3) by simp_all
  from set_run_refines [OF _ this(1) assms(2) this(2)] C same show ?thesis by auto
qed

lemma create_set_default_ready:
  assumes "alloc_fails w = []"
  shows "\<exists>s w'. create_set type None None w = (Some s, w') \<and> alloc_fails w' = []"
proof (cases type)
  case SET_HASH
  have "is_int 0" by (simp add: is_int_def)
  from hash_set_create_ready [OF assms this, of set_default_ptr_compare set_default_ptr_hash] show ?thesis
    using SET_HASH assms by (auto simp: create_set_def create_set_with_capacity_def malloc_struct_no_failures)
next
  case SET_TREE
  from tree_set_create_ready [OF assms, of set_default_ptr_compare] show ?thesis
    using SET_TREE assms by (auto simp: create_set_def create_set_with_capacity_def malloc_struct_no_failures)
qed

theorem set_is_a_set_witness:
  "\<exists>s w. create_set SET_HASH None None fresh_world = (Some s, w) \<and>
     fst (set_run [Add_Element (Some 7), Add_Element (Some 7), Add_Element NULL, Ask_Size, Remove_Element (Some 7), Ask_Element (Some 7)]
        (Some s) w) = [1, 0, 0, 1, 1, 0]"
proof -
  obtain s w where C: "create_set SET_HASH None None fresh_world = (Some s, w)" "alloc_fails w = []"
    using create_set_default_ready [of fresh_world SET_HASH] by auto
  show ?thesis
    using C(1) set_is_a_set [OF C, of "[Add_Element (Some 7), Add_Element (Some 7), Add_Element NULL, Ask_Size,
      Remove_Element (Some 7), Ask_Element (Some 7)]"]
    by (simp add: INT_MAX_def)
qed

text \<open>C18: for two compatible sets the union, the intersection and the difference succeed when memory
  is granted and hold exactly the elements their names say, as the comparator tells elements apart;
  the subset test decides containment. One function name stands for one function.\<close>

theorem set_algebra:
  assumes "set_ok a" "set_ok b" "one_function a b" "sets_are_compatible (Some a) (Some b)" "alloc_fails w = []"
    "size (set_elems a) + size (set_elems b) \<le> INT_MAX"
  shows "(\<exists>u v. set_union_with_method (Some a) (Some b) w = (Some u, v) \<and> set_ok u \<and>
       (\<forall>y. set_contains_method (Some u) y \<longleftrightarrow> set_contains_method (Some a) y \<or> set_contains_method (Some b) y)) \<and>
    (\<exists>u v. set_intersection_with_method (Some a) (Some b) w = (Some u, v) \<and> set_ok u \<and>
       (\<forall>y. set_contains_method (Some u) y \<longleftrightarrow> set_contains_method (Some a) y \<and> set_contains_method (Some b) y)) \<and>
    (\<exists>u v. set_difference_with_method (Some a) (Some b) w = (Some u, v) \<and> set_ok u \<and>
       (\<forall>y. set_contains_method (Some u) y \<longleftrightarrow> set_contains_method (Some a) y \<and> \<not> set_contains_method (Some b) y)) \<and>
    (fst (set_is_subset_of_method (Some a) (Some b) w) \<longleftrightarrow>
       (\<forall>y. set_contains_method (Some a) y \<longrightarrow> set_contains_method (Some b) y)) \<and>
    (\<exists>c v. set_clone_shallow_method (Some a) w = (Some c, v) \<and> set_ok c \<and> so_user_data c = so_user_data a \<and>
       (\<forall>y. set_contains_method (Some c) y \<longleftrightarrow> set_contains_method (Some a) y))"
proof -
  have "\<exists>u v. set_union_with_method (Some a) (Some b) w = (Some u, v) \<and> set_ok u \<and>
       (\<forall>y. set_contains_method (Some u) y \<longleftrightarrow> set_contains_method (Some a) y \<or> set_contains_method (Some b) y)"
    using set_union_spec [OF assms] by (metis set_contains_method.simps(2))
  then show ?thesis
    using set_intersection_spec [OF assms] set_difference_spec [OF assms] set_subset_spec [OF assms]
      set_clone_shallow_spec [OF assms(1,5)] assms(6)
    by (simp only: set_contains_method.simps(2))
qed

definition one_of :: "address \<Rightarrow> set_obj" where
  "one_of a = \<lparr>so_type = SET_TREE, so_cmp = default_compare, so_hash = None, so_backend = Tree_Backend
     \<lparr>ti_type = TREE_RED_BLACK, ti_cmp = Some set_default_ptr_compare,
      ti_root = Tree_Node Nil_Node (Some a) (Some a) 1 RB_BLACK Nil_Node, ti_size = 1, ti_user_data = NULL\<rparr>,
     so_user_data = NULL\<rparr>"

lemma one_of_ok: "set_ok (one_of a)"
  by (simp add: set_ok_def one_of_def default_compare_def pc.comparator_order_axioms tree_set_ok_def tree_inv_def
      tree_order_def tree_entries_def bst_def balanced_def rb_ok_def)

lemma one_of_elems: "set_elems (one_of a) = {#Some a#}"
  by (simp add: set_elems_def one_of_def tree_elems_def tree_entries_def)

lemma one_of_same: "set_same (one_of a) (Some x) (Some y) \<longleftrightarrow> x = y"
  by (simp add: set_same_def one_of_def default_compare_def ptr_compare_sign)

lemma one_of_contains: "set_contains_state (one_of a) y \<longleftrightarrow> y = Some a"
  unfolding contains_witness [OF one_of_ok] one_of_elems by (cases y) (auto simp: one_of_same)

theorem set_algebra_witness:
  "\<exists>u v. set_union_with_method (Some (one_of 1)) (Some (one_of 2)) fresh_world = (Some u, v) \<and>
     set_contains_method (Some u) (Some 1) \<and> set_contains_method (Some u) (Some 2) \<and> \<not> set_contains_method (Some u) (Some 3)"
proof -
  have "one_function (one_of 1) (one_of 2)" "sets_are_compatible (Some (one_of 1)) (Some (one_of 2))"
    by (simp_all add: one_function_def one_of_def)
  from set_algebra [OF one_of_ok one_of_ok this, of fresh_world, THEN conjunct1] show ?thesis
    by (fastforce simp: one_of_elems one_of_contains INT_MAX_def)
qed

lemma malloc_granted:
  "alloc_fails w = False # fs \<Longrightarrow> bytes \<le> PTRDIFF_MAX \<Longrightarrow> malloc bytes w = (True, w\<lparr>alloc_fails := fs\<rparr>)"
  by (simp add: malloc_def)

definition empty_tree_set :: set_obj where
  "empty_tree_set = (one_of 0)\<lparr>so_backend := Tree_Backend
     \<lparr>ti_type = TREE_RED_BLACK, ti_cmp = Some set_default_ptr_compare, ti_root = Nil_Node, ti_size = 0, ti_user_data = NULL\<rparr>\<rparr>"

text \<open>The tenth request for memory is refused: it is the node of the first element.\<close>

definition tenth_refused :: "address world" where
  "tenth_refused = fresh_world\<lparr>alloc_fails := replicate 9 False @ [True]\<rparr>"

lemma create_before_refusal:
  "create_set_with_capacity SET_TREE (Some default_compare) None c tenth_refused =
     (Some empty_tree_set, fresh_world\<lparr>alloc_fails := [False, False, False, True]\<rparr>)"
proof -
  have "replicate 9 False = [False, False, False, False, False, False, False, False, False]" by (simp add: numeral_eq_Suc)
  then show ?thesis
    by (simp add: tenth_refused_def create_set_with_capacity_def tree_set_create_impl_def create_tree_def malloc_struct_def
        malloc_granted PTRDIFF_MAX_def Let_def empty_tree_set_def one_of_def default_compare_def)
qed

lemma snapshot_before_refusal:
  "\<exists>l w'. set_to_list_state (one_of 1) (fresh_world\<lparr>alloc_fails := [False, False, False, True]\<rparr>) = (Some l, w') \<and>
     alloc_fails w' = [True] \<and> positional l \<and> list_items l = [Some 1]"
proof -
  have "ptr_bytes 1 = 8" using ptr_bytes_nonneg [of 1] by (simp add: INT_MAX_def)
  then show ?thesis
    by (simp add: set_to_list_state_def one_of_def tree_set_to_list_def wrap_int_def create_list_def
        create_array_list_def malloc_struct_def malloc_granted PTRDIFF_MAX_def malloc_ptrs_def tree_set_collect_cb_def
        list_insert_def array_list_insert_def list_size_def array_ensure_capacity_def positional_def list_inv_def
        list_items_def array_list_inv_def array_list_items_def INT_MAX_def memmove_def)
qed

lemma empty_tree_set_ok: "set_ok empty_tree_set" "set_elems empty_tree_set = {#}"
  by (simp_all add: empty_tree_set_def set_ok_def one_of_def default_compare_def pc.comparator_order_axioms tree_set_ok_def
      tree_inv_def tree_order_def tree_entries_def bst_def balanced_def rb_ok_def set_elems_def tree_elems_def)

lemma empty_same: "\<not> set_same empty_tree_set (Some 2) (Some 1)"
  by (simp add: set_same_def empty_tree_set_def one_of_def default_compare_def ptr_compare_sign)

lemma add_refused:
  "alloc_fails w = [True] \<Longrightarrow> set_add_state empty_tree_set (Some a) w = (False, empty_tree_set, w\<lparr>alloc_fails := []\<rparr>)"
  by (simp add: set_add_state_def empty_tree_set_def one_of_def tree_set_add_def rb_tree_insert_def malloc_struct_def
      malloc_failure default_compare_def)

text \<open>The union of two sets succeeds although memory was refused, and the set it returns lacks an
  element of its left operand: the result of \<open>add\<close> is not looked at. The interface promises null
  on an allocation failure.\<close>

theorem set_union_loses_element:
  "\<exists>u w'. set_union_with_method (Some (one_of 1)) (Some (one_of 2)) tenth_refused = (Some u, w') \<and>
     set_contains_method (Some (one_of 1)) (Some 1) \<and> \<not> set_contains_method (Some u) (Some 1)"
proof -
  obtain l w1 where L: "set_to_list_state (one_of 1) (fresh_world\<lparr>alloc_fails := [False, False, False, True]\<rparr>) = (Some l, w1)"
    "alloc_fails w1 = [True]" "positional l" "list_items l = [Some 1]"
    using snapshot_before_refusal by blast
  have n: "nat (list_size l) = Suc 0" using list_size_positional [OF L(3)] L(4) by simp
  obtain l' where G: "list_get l 0 = (Some 1, l')"
  proof (cases "list_get l 0")
    case (Pair x it)
    then have "x = Some 1" using list_get_positional [OF L(3) Pair] L(4) by (simp add: nth_ptr_def)
    then show thesis using that Pair by blast
  qed
  let ?w = "list_free l' (w1\<lparr>alloc_fails := []\<rparr>)"
  have A: "add_snapshot (\<lambda>_. True) (Some (one_of 1)) empty_tree_set (fresh_world\<lparr>alloc_fails := [False, False, False, True]\<rparr>) =
      (Some empty_tree_set, ?w)"
    using L(1) G add_refused [OF L(2)] by (simp add: add_snapshot_def n)
  have small: "size (set_elems empty_tree_set) + size (set_elems (one_of 2)) \<le> INT_MAX"
    by (simp add: empty_tree_set_ok one_of_elems INT_MAX_def)
  have ready: "alloc_fails ?w = []" by simp
  from add_snapshot_spec [OF one_of_ok empty_tree_set_ok(1) ready small, of "\<lambda>_. True"] obtain u w2 where B:
    "add_snapshot (\<lambda>_. True) (Some (one_of 2)) empty_tree_set ?w = (Some u, w2)"
    "\<And>y. set_contains_state u y \<longleftrightarrow> set_contains_state empty_tree_set y \<or>
       (y \<noteq> NULL \<and> (\<exists>x\<in>#set_elems (one_of 2). set_same empty_tree_set x y))"
    by auto
  have "\<not> set_contains_state u (Some 1)"
    unfolding B(2) one_of_elems using empty_contains [OF empty_tree_set_ok, of "Some 1"] empty_same by simp
  moreover have "so_type (one_of 1) = SET_TREE" "so_cmp (one_of 1) = default_compare" "so_hash (one_of 1) = None"
    "sets_are_compatible (Some (one_of 1)) (Some (one_of 2))" by (simp_all add: one_of_def)
  then have "set_union_with_method (Some (one_of 1)) (Some (one_of 2)) tenth_refused = (Some u, w2)"
    unfolding set_union_with_method_def using A B(1) create_before_refusal by (simp del: set_method_simps)
  ultimately show ?thesis by (auto simp: one_of_contains)
qed

end
