(* ===== verification/Memory_Pool.thy ===== *)
theory Memory_Pool
  imports Ova_Base
begin

text \<open>
  The fixed-size block pool, \<open>src/memory_pool/memory_pool.c\<close>. Sizes are 64-bit words, so that the
  rounding and the products wrap around as they do; addresses are numbers. The free list is
  intrusive: the link of a free block is stored in the block, in a memory that maps the address
  of a block to the link found there. What \<open>malloc\<close> answers is an argument: the address of the
  data of the new chunk.
\<close>

unbundle bit_operations_syntax

section \<open>State and operations\<close>

type_synonym pool_memory = "nat \<Rightarrow> nat option"

record memory_pool =
  mp_block_size :: "64 word"
  mp_aligned_block :: "64 word"
  mp_blocks_per_chunk :: nat
  mp_free_list :: "nat option"
  mp_chunks :: "(nat \<times> nat) list"
  mp_total_blocks :: nat
  mp_free_blocks :: nat
  mp_user_data :: "nat option"

text \<open>\<open>sizeof(free_node)\<close>, \<open>_Alignof(max_align_t)\<close> and \<open>sizeof(chunk)\<close> of the 64-bit ABI.\<close>

definition free_node_size :: "64 word" where "free_node_size = 8"
definition max_align :: "64 word" where "max_align = 16"
definition chunk_header :: "64 word" where "chunk_header = 48"

definition align_up :: "64 word \<Rightarrow> 64 word \<Rightarrow> 64 word" where
  "align_up sz alignment = (sz + alignment - 1) AND NOT (alignment - 1)"

fun init_loop :: "nat \<Rightarrow> nat \<Rightarrow> nat \<Rightarrow> nat option \<Rightarrow> pool_memory \<Rightarrow> nat option \<times> pool_memory" where
  "init_loop stride 0 ptr free_list mem = (free_list, mem)"
| "init_loop stride (Suc n) ptr free_list mem =
     init_loop stride n (ptr + stride) (Some ptr) (mem(ptr := free_list))"

definition init_chunk_free_list :: "memory_pool \<Rightarrow> nat \<Rightarrow> pool_memory \<Rightarrow> memory_pool \<times> pool_memory" where
  "init_chunk_free_list pool base mem =
     (case init_loop (unat (mp_aligned_block pool)) (mp_blocks_per_chunk pool) base (mp_free_list pool) mem of
        (free_list, mem) \<Rightarrow>
          (pool\<lparr>mp_free_list := free_list,
                mp_total_blocks := mp_total_blocks pool + mp_blocks_per_chunk pool,
                mp_free_blocks := mp_free_blocks pool + mp_blocks_per_chunk pool\<rparr>, mem))"

definition chunk_bytes :: "memory_pool \<Rightarrow> 64 word" where
  "chunk_bytes pool = chunk_header + mp_aligned_block pool * of_nat (mp_blocks_per_chunk pool)"

definition add_chunk ::
  "memory_pool \<Rightarrow> nat \<Rightarrow> pool_memory \<Rightarrow> unit world \<Rightarrow> bool \<times> memory_pool \<times> pool_memory \<times> unit world" where
  "add_chunk pool base mem w =
     (case malloc (unat (chunk_bytes pool)) w of
        (False, w) \<Rightarrow> (False, pool, mem, w)
      | (True, w) \<Rightarrow>
         (case init_chunk_free_list (pool\<lparr>mp_chunks := (base, mp_blocks_per_chunk pool) # mp_chunks pool\<rparr>) base mem of
            (pool, mem) \<Rightarrow> (True, pool, mem, w)))"

definition create_memory_pool ::
  "64 word \<Rightarrow> int \<Rightarrow> nat \<Rightarrow> pool_memory \<Rightarrow> unit world \<Rightarrow> memory_pool option \<times> pool_memory \<times> unit world" where
  "create_memory_pool block_size initial_blocks base mem w =
     (if block_size = 0 \<or> initial_blocks \<le> 0 then (None, mem, w)
      else (case malloc_struct w of
          (False, w) \<Rightarrow> (None, mem, w)
        | (True, w) \<Rightarrow>
           (let min_block = (if block_size < free_node_size then free_node_size else block_size);
                pool = \<lparr>mp_block_size = block_size, mp_aligned_block = align_up min_block max_align,
                  mp_blocks_per_chunk = nat initial_blocks, mp_free_list = None, mp_chunks = [],
                  mp_total_blocks = 0, mp_free_blocks = 0, mp_user_data = None\<rparr>
            in (case add_chunk pool base mem w of
                  (False, _, mem, w) \<Rightarrow> (None, mem, w)
                | (True, pool, mem, w) \<Rightarrow> (Some pool, mem, w)))))"

text \<open>\<open>memset\<close> clears the block: the whole link, unless the blocks are smaller than a link, and
  then its low bytes only.\<close>

definition cleared_link :: "64 word \<Rightarrow> nat option \<Rightarrow> nat option" where
  "cleared_link bytes link =
     (if free_node_size \<le> bytes then None
      else (case link of None \<Rightarrow> None
        | Some a \<Rightarrow>
            let rest = a div 256 ^ unat bytes * 256 ^ unat bytes in if rest = 0 then None else Some rest))"

fun memory_pool_alloc ::
  "memory_pool option \<Rightarrow> nat \<Rightarrow> pool_memory \<Rightarrow> unit world \<Rightarrow>
     nat option \<times> memory_pool option \<times> pool_memory \<times> unit world" where
  "memory_pool_alloc None base mem w = (None, None, mem, w)"
| "memory_pool_alloc (Some pool) base mem w =
     (case (if mp_free_list pool = None then add_chunk pool base mem w else (True, pool, mem, w)) of
        (False, pool, mem, w) \<Rightarrow> (None, Some pool, mem, w)
      | (True, pool, mem, w) \<Rightarrow>
          (let node = the (mp_free_list pool) in
           (Some node,
            Some (pool\<lparr>mp_free_list := mem node, mp_free_blocks := mp_free_blocks pool - 1\<rparr>),
            mem(node := cleared_link (mp_block_size pool) (mem node)), w)))"

fun memory_pool_free ::
  "memory_pool option \<Rightarrow> nat option \<Rightarrow> pool_memory \<Rightarrow> memory_pool option \<times> pool_memory" where
  "memory_pool_free (Some pool) (Some ptr) mem =
     (Some (pool\<lparr>mp_free_list := Some ptr, mp_free_blocks := mp_free_blocks pool + 1\<rparr>),
      mem(ptr := mp_free_list pool))"
| "memory_pool_free pool ptr mem = (pool, mem)"

fun memory_pool_active_count :: "memory_pool option \<Rightarrow> 64 word" where
  "memory_pool_active_count None = 0"
| "memory_pool_active_count (Some pool) = of_nat (mp_total_blocks pool) - of_nat (mp_free_blocks pool)"

text \<open>The addresses given back to the C library, in order.\<close>

fun memory_pool_destroy :: "memory_pool option \<Rightarrow> nat list" where
  "memory_pool_destroy None = []"
| "memory_pool_destroy (Some pool) = map fst (mp_chunks pool)"

fun memory_pool_set_user_data :: "memory_pool option \<Rightarrow> nat option \<Rightarrow> memory_pool option" where
  "memory_pool_set_user_data None u = None"
| "memory_pool_set_user_data (Some pool) u = Some (pool\<lparr>mp_user_data := u\<rparr>)"

fun memory_pool_get_user_data :: "memory_pool option \<Rightarrow> nat option" where
  "memory_pool_get_user_data None = None"
| "memory_pool_get_user_data (Some pool) = mp_user_data pool"

section \<open>Blocks and the free list\<close>

definition stride :: "memory_pool \<Rightarrow> nat" where
  "stride pool = unat (mp_aligned_block pool)"

definition chunk_blocks :: "nat \<Rightarrow> nat \<times> nat \<Rightarrow> nat set" where
  "chunk_blocks s c = (\<lambda>i. fst c + i * s) ` {..<snd c}"

definition pool_blocks :: "memory_pool \<Rightarrow> nat set" where
  "pool_blocks pool = (\<Union>c\<in>set (mp_chunks pool). chunk_blocks (stride pool) c)"

fun apart_from :: "nat \<Rightarrow> nat \<times> nat \<Rightarrow> nat \<times> nat \<Rightarrow> bool" where
  "apart_from s (b, n) (b', n') \<longleftrightarrow> b + n * s \<le> b' \<or> b' + n' * s \<le> b"

fun chain :: "pool_memory \<Rightarrow> nat option \<Rightarrow> nat list \<Rightarrow> bool" where
  "chain mem p [] \<longleftrightarrow> p = None"
| "chain mem p (a # as) \<longleftrightarrow> p = Some a \<and> chain mem (mem a) as"

lemma chain_write: "a \<notin> set as \<Longrightarrow> chain (mem(a := x)) p as = chain mem p as"
  by (induction as arbitrary: p) auto

text \<open>What \<open>malloc\<close> promises: memory of its own for as many bytes as it was asked for, of which
  the header takes the first ones.\<close>

definition payload :: "memory_pool \<Rightarrow> nat" where
  "payload pool = unat (chunk_bytes pool) - unat chunk_header"

definition fresh_base :: "memory_pool \<Rightarrow> nat \<Rightarrow> bool" where
  "fresh_base pool base \<longleftrightarrow>
     (\<forall>(b, n)\<in>set (mp_chunks pool). base + payload pool \<le> b \<or> b + payload pool \<le> base)"

text \<open>The request does not wrap around.\<close>

definition no_wrap :: "memory_pool \<Rightarrow> bool" where
  "no_wrap pool \<longleftrightarrow> stride pool * mp_blocks_per_chunk pool + 48 < 2 ^ 64"

lemma payload_exact:
  assumes "no_wrap pool" "0 < stride pool"
  shows "payload pool = stride pool * mp_blocks_per_chunk pool"
proof -
  let ?n = "mp_blocks_per_chunk pool"
  have "?n \<le> stride pool * ?n" using assms(2) by simp
  then have n: "?n < 2 ^ 64" using assms(1) unfolding no_wrap_def by linarith
  then have un: "unat (of_nat ?n :: 64 word) = ?n" by (simp add: unsigned_of_nat take_bit_nat_eq_self)
  have "unat (mp_aligned_block pool * of_nat ?n) = stride pool * ?n"
    using assms(1) unfolding no_wrap_def stride_def unat_word_ariths un by simp
  then have "unat (chunk_bytes pool) = 48 + stride pool * ?n"
    using assms(1) unfolding chunk_bytes_def chunk_header_def no_wrap_def unat_word_ariths by simp
  then show ?thesis by (simp add: payload_def chunk_header_def)
qed

text \<open>\<open>A\<close> is the set of blocks in the caller's hands.\<close>

definition pool_inv :: "memory_pool \<Rightarrow> pool_memory \<Rightarrow> nat set \<Rightarrow> bool" where
  "pool_inv pool mem A \<longleftrightarrow>
     0 < stride pool \<and> unat (mp_block_size pool) \<le> stride pool \<and> 0 < mp_blocks_per_chunk pool \<and>
     no_wrap pool \<and> (\<forall>c\<in>set (mp_chunks pool). snd c = mp_blocks_per_chunk pool) \<and>
     sorted_wrt (apart_from (stride pool)) (mp_chunks pool) \<and>
     mp_total_blocks pool = card (pool_blocks pool) \<and>
     (\<exists>F. chain mem (mp_free_list pool) F \<and> distinct F \<and> set F \<inter> A = {} \<and>
        set F \<union> A = pool_blocks pool \<and> mp_free_blocks pool = length F)"

lemma chunk_blocks_apart:
  assumes "apart_from s c c'" "0 < s" "a \<in> chunk_blocks s c" "a' \<in> chunk_blocks s c'"
  shows "a + s \<le> a' \<or> a' + s \<le> a"
proof -
  obtain i i' where a: "a = fst c + i * s" "i < snd c" "a' = fst c' + i' * s" "i' < snd c'"
    using assms(3,4) by (auto simp: chunk_blocks_def)
  have "(i + 1) * s \<le> snd c * s" "(i' + 1) * s \<le> snd c' * s"
    using a by (intro mult_right_mono; simp)+
  then show ?thesis using assms(1) a by (cases c; cases c') auto
qed

lemma same_chunk_apart:
  assumes "a \<in> chunk_blocks s c" "a' \<in> chunk_blocks s c" "a \<noteq> a'"
  shows "a + s \<le> a' \<or> a' + s \<le> a"
proof -
  obtain i i' where a: "a = fst c + i * s" "a' = fst c + i' * s" using assms by (auto simp: chunk_blocks_def)
  then have "i + 1 \<le> i' \<or> i' + 1 \<le> i" using assms(3) by fastforce
  then have "(i + 1) * s \<le> i' * s \<or> (i' + 1) * s \<le> i * s" using mult_right_mono by blast
  then show ?thesis using a by auto
qed

lemma in_pool_blocks:
  "a \<in> pool_blocks p \<Longrightarrow> \<exists>i<length (mp_chunks p). a \<in> chunk_blocks (stride p) (mp_chunks p ! i)"
  unfolding pool_blocks_def by (metis UN_E in_set_conv_nth)

lemma init_loop_spec:
  assumes "0 < s" "chain mem free_list F" "distinct F" "\<And>i. i < n \<Longrightarrow> ptr + i * s \<notin> set F"
    "init_loop s n ptr free_list mem = (free_list', mem')"
  shows "\<exists>F'. chain mem' free_list' F' \<and> distinct F' \<and> set F' = set F \<union> (\<lambda>i. ptr + i * s) ` {..<n} \<and>
    length F' = length F + n"
  using assms
proof (induction n arbitrary: ptr free_list mem F)
  case 0
  then show ?case by (intro exI [of _ F]) auto
next
  case (Suc n)
  have ptr: "ptr \<notin> set F" using Suc.prems(4) [of 0] by simp
  have fresh: "ptr + s + i * s \<notin> set (ptr # F)" if "i < n" for i
    using Suc.prems(4) [of "Suc i"] that Suc.prems(1) by (simp add: add.assoc)
  have "chain (mem(ptr := free_list)) (Some ptr) (ptr # F)"
    using Suc.prems(2) ptr by (simp add: chain_write)
  moreover have "distinct (ptr # F)" using Suc.prems(3) ptr by simp
  moreover have "init_loop s n (ptr + s) (Some ptr) (mem(ptr := free_list)) = (free_list', mem')"
    using Suc.prems(5) by simp
  ultimately obtain F' where F': "chain mem' free_list' F'" "distinct F'"
    "set F' = set (ptr # F) \<union> (\<lambda>i. ptr + s + i * s) ` {..<n}" "length F' = length (ptr # F) + n"
    using Suc.IH [OF Suc.prems(1), of "mem(ptr := free_list)" "Some ptr" "ptr # F" "ptr + s"] fresh by blast
  have "(\<lambda>i. ptr + i * s) ` {..<Suc n} = insert ptr ((\<lambda>i. ptr + s + i * s) ` {..<n})"
    unfolding lessThan_Suc_eq_insert_0 by (auto simp: image_image add.assoc)
  then show ?case using F' by (intro exI [of _ F']) auto
qed

lemma init_loop_head: "fst (init_loop s (Suc n) ptr free_list mem) = Some (ptr + n * s)"
proof (induction n arbitrary: ptr free_list mem)
  case (Suc n)
  have "init_loop s (Suc (Suc n)) ptr free_list mem = init_loop s (Suc n) (ptr + s) (Some ptr) (mem(ptr := free_list))"
    by simp
  then show ?case using Suc.IH [of "ptr + s" "Some ptr" "mem(ptr := free_list)"] by (simp only: mult_Suc add.assoc)
qed simp

lemma card_chunk_blocks: "0 < s \<Longrightarrow> card (chunk_blocks s c) = snd c"
  unfolding chunk_blocks_def by (subst card_image) (auto simp: inj_on_def)

lemma add_chunk_inv:
  assumes "pool_inv pool mem A" "fresh_base pool base" "add_chunk pool base mem w = (True, pool', mem', w')"
  shows "pool_inv pool' mem' A \<and> mp_free_list pool' \<noteq> None \<and> stride pool' = stride pool \<and>
    mp_block_size pool' = mp_block_size pool \<and> mp_chunks pool' = (base, mp_blocks_per_chunk pool) # mp_chunks pool"
proof -
  let ?s = "stride pool" and ?n = "mp_blocks_per_chunk pool" and ?c = "(base, mp_blocks_per_chunk pool)"
  note I = assms(1) [unfolded pool_inv_def]
  then obtain F where F: "chain mem (mp_free_list pool) F" "distinct F" "set F \<inter> A = {}"
    "set F \<union> A = pool_blocks pool" "mp_free_blocks pool = length F" by blast
  obtain fl where L: "init_loop ?s ?n base (mp_free_list pool) mem = (fl, mem')" and
    pool': "pool' = pool\<lparr>mp_chunks := ?c # mp_chunks pool, mp_free_list := fl,
      mp_total_blocks := mp_total_blocks pool + ?n, mp_free_blocks := mp_free_blocks pool + ?n\<rparr>"
    using assms(3) by (auto simp: add_chunk_def init_chunk_free_list_def stride_def split: prod.splits bool.splits)
  have pay: "payload pool = ?n * ?s" using payload_exact [of pool] I by (simp add: mult.commute)
  have apart: "apart_from ?s ?c c" if "c \<in> set (mp_chunks pool)" for c
  proof (cases c)
    case (Pair b n)
    then have "n = ?n" using that I by auto
    moreover have "base + payload pool \<le> b \<or> b + payload pool \<le> base"
      using assms(2) that Pair by (auto simp: fresh_base_def)
    ultimately show ?thesis using Pair pay by simp
  qed
  have disj: "a \<notin> pool_blocks pool" if "a \<in> chunk_blocks ?s ?c" for a
  proof
    assume "a \<in> pool_blocks pool"
    then obtain c where "c \<in> set (mp_chunks pool)" "a \<in> chunk_blocks ?s c" by (auto simp: pool_blocks_def)
    then show False using chunk_blocks_apart [OF apart _ that, of c a] I by auto
  qed
  have "base + i * ?s \<notin> set F" if "i < ?n" for i
    using disj [of "base + i * ?s"] that F(4) by (auto simp: chunk_blocks_def)
  then obtain F' where F': "chain mem' fl F'" "distinct F'" "set F' = set F \<union> chunk_blocks ?s ?c"
    "length F' = length F + ?n"
    using init_loop_spec [OF _ F(1,2) _ L] I by (auto simp: chunk_blocks_def)
  have s': "stride pool' = ?s" using pool' by (simp add: stride_def)
  have blocks': "pool_blocks pool' = chunk_blocks ?s ?c \<union> pool_blocks pool"
    unfolding pool_blocks_def s' using pool' by simp
  have fin: "finite (pool_blocks pool)" "finite (chunk_blocks ?s ?c)"
    by (simp_all add: pool_blocks_def chunk_blocks_def)
  have "card (pool_blocks pool') = ?n + card (pool_blocks pool)"
    unfolding blocks' using fin disj I by (subst card_Un_disjoint) (auto simp: card_chunk_blocks)
  moreover have "set F' \<inter> A = {}" using F' F disj by auto
  moreover have "set F' \<union> A = pool_blocks pool'" using F' F blocks' by auto
  moreover have "sorted_wrt (apart_from ?s) (?c # mp_chunks pool)"
    using I apart by simp
  moreover have "no_wrap pool'" "mp_blocks_per_chunk pool' = ?n" "mp_block_size pool' = mp_block_size pool"
    "mp_chunks pool' = ?c # mp_chunks pool" "mp_total_blocks pool' = card (pool_blocks pool) + ?n"
    "mp_free_blocks pool' = length F'" "mp_free_list pool' = fl"
    using I F'(4) F(5) s' pool' by (simp_all add: no_wrap_def)
  ultimately have "pool_inv pool' mem' A"
    using I F'(1,2) s' unfolding pool_inv_def by (intro conjI exI [of _ F']) simp_all
  moreover have "fl \<noteq> None"
  proof -
    have "F' \<noteq> []" using F'(4) I by auto
    then show ?thesis using F'(1) by (cases F') auto
  qed
  ultimately show ?thesis using s' pool' by simp
qed

section \<open>Rounding\<close>

lemma and_not_15: "(x :: 64 word) AND NOT 15 = push_bit 4 (drop_bit 4 x)"
proof -
  have "x AND NOT (mask 4) = push_bit 4 (drop_bit 4 x)"
    by (auto intro!: bit_word_eqI simp: bit_simps)
  moreover have "mask 4 = (15 :: 64 word)" by (simp add: mask_eq_exp_minus_1)
  ultimately show ?thesis by simp
qed

lemma unat_and_not_15: "unat ((x :: 64 word) AND NOT 15) = unat x div 16 * 16"
proof -
  have "unat x div 16 * 16 \<le> unat x" by simp
  also have "\<dots> < 2 ^ 64" using unsigned_less [of x, where ?'a = nat] by simp
  finally have "take_bit 64 (unat x div 16 * 16) = unat x div 16 * 16" by (rule take_bit_nat_eq_self)
  then show ?thesis
    unfolding and_not_15 unsigned_push_bit_eq unat_drop_bit_eq by (simp add: push_bit_eq_mult drop_bit_eq_div)
qed

lemma align_up_exact:
  assumes "unat sz + 15 < 2 ^ 64"
  shows "unat (align_up sz max_align) = (unat sz + 15) div 16 * 16"
proof -
  have "unat (sz + 15) = unat sz + 15"
    using assms unfolding unat_word_ariths by simp
  moreover have "sz + 16 - 1 = sz + 15" "(16 :: 64 word) - 1 = 15" by simp_all
  ultimately show ?thesis by (simp only: align_up_def max_align_def unat_and_not_15)
qed

section \<open>Sequences of calls\<close>

text \<open>A client allocates, gives back blocks it holds, and writes into blocks it holds.\<close>

inductive pool_step ::
  "memory_pool \<times> pool_memory \<times> nat set \<Rightarrow> memory_pool \<times> pool_memory \<times> nat set \<Rightarrow> bool" where
  Alloc: "memory_pool_alloc (Some p) base mem w = (Some a, Some p', mem', w') \<Longrightarrow> fresh_base p base \<Longrightarrow>
    pool_step (p, mem, A) (p', mem', insert a A)"
| Alloc_Fails: "memory_pool_alloc (Some p) base mem w = (None, Some p', mem', w') \<Longrightarrow> fresh_base p base \<Longrightarrow>
    pool_step (p, mem, A) (p', mem', A)"
| Free: "a \<in> A \<Longrightarrow> memory_pool_free (Some p) (Some a) mem = (Some p', mem') \<Longrightarrow>
    pool_step (p, mem, A) (p', mem', A - {a})"
| Write: "a \<in> A \<Longrightarrow> pool_step (p, mem, A) (p, mem(a := x), A)"

lemma pool_frame:
  "pool_inv pool mem A \<Longrightarrow> stride (pool\<lparr>mp_free_list := f, mp_free_blocks := n\<rparr>) = stride pool"
  by (simp add: stride_def)

lemma take_block:
  assumes "pool_inv pool mem A" "mp_free_list pool = Some a"
  shows "a \<notin> A \<and> a \<in> pool_blocks pool \<and>
    pool_inv (pool\<lparr>mp_free_list := mem a, mp_free_blocks := mp_free_blocks pool - 1\<rparr>) (mem(a := x)) (insert a A)"
proof -
  note I = assms(1) [unfolded pool_inv_def]
  then obtain F where F: "chain mem (mp_free_list pool) F" "distinct F" "set F \<inter> A = {}"
    "set F \<union> A = pool_blocks pool" "mp_free_blocks pool = length F" by blast
  obtain as where as: "F = a # as" "chain mem (mem a) as" using F(1) assms(2) by (cases F) auto
  let ?p = "pool\<lparr>mp_free_list := mem a, mp_free_blocks := mp_free_blocks pool - 1\<rparr>"
  have same: "stride ?p = stride pool" "pool_blocks ?p = pool_blocks pool" "no_wrap ?p = no_wrap pool"
    by (simp_all add: stride_def pool_blocks_def no_wrap_def)
  have "chain (mem(a := x)) (mem a) as" using as F(2) by (simp add: chain_write)
  moreover have "set as \<inter> insert a A = {}" "set as \<union> insert a A = pool_blocks pool" "distinct as"
    "mp_free_blocks pool - 1 = length as" using as(1) F by auto
  ultimately have "pool_inv ?p (mem(a := x)) (insert a A)"
    using I unfolding pool_inv_def same by (intro conjI exI [of _ as]) simp_all
  then show ?thesis using F as(1) by auto
qed

lemma give_block:
  assumes "pool_inv pool mem A" "a \<in> A"
  shows "pool_inv (pool\<lparr>mp_free_list := Some a, mp_free_blocks := mp_free_blocks pool + 1\<rparr>)
    (mem(a := mp_free_list pool)) (A - {a})"
proof -
  note I = assms(1) [unfolded pool_inv_def]
  then obtain F where F: "chain mem (mp_free_list pool) F" "distinct F" "set F \<inter> A = {}"
    "set F \<union> A = pool_blocks pool" "mp_free_blocks pool = length F" by blast
  let ?p = "pool\<lparr>mp_free_list := Some a, mp_free_blocks := mp_free_blocks pool + 1\<rparr>"
  have same: "stride ?p = stride pool" "pool_blocks ?p = pool_blocks pool" "no_wrap ?p = no_wrap pool"
    by (simp_all add: stride_def pool_blocks_def no_wrap_def)
  have a: "a \<notin> set F" using F(3) assms(2) by auto
  then have "chain (mem(a := mp_free_list pool)) (Some a) (a # F)" using F(1) by (simp add: chain_write)
  moreover have "distinct (a # F)" "set (a # F) \<inter> (A - {a}) = {}" "set (a # F) \<union> (A - {a}) = pool_blocks pool"
    using F a assms(2) by auto
  ultimately show ?thesis
    using I F(5) unfolding pool_inv_def same by (intro conjI exI [of _ "a # F"]) simp_all
qed

lemma client_write:
  assumes "pool_inv pool mem A" "a \<in> A"
  shows "pool_inv pool (mem(a := x)) A"
proof -
  obtain F where "chain mem (mp_free_list pool) F" "set F \<inter> A = {}" "distinct F"
    "set F \<union> A = pool_blocks pool" "mp_free_blocks pool = length F"
    using assms(1) unfolding pool_inv_def by blast
  moreover from this have "chain (mem(a := x)) (mp_free_list pool) F"
    using assms(2) by (intro chain_write [THEN iffD2]) auto
  ultimately show ?thesis using assms(1) unfolding pool_inv_def by (intro conjI exI [of _ F]) simp_all
qed

lemma alloc_spec:
  assumes "pool_inv p mem A" "fresh_base p base" "memory_pool_alloc (Some p) base mem w = (r, p2, mem', w')"
  shows "\<exists>p'. p2 = Some p' \<and> stride p' = stride p \<and> mp_block_size p' = mp_block_size p \<and>
    mp_blocks_per_chunk p' = mp_blocks_per_chunk p \<and>
    (case r of None \<Rightarrow> p' = p \<and> mem' = mem | Some a \<Rightarrow> a \<notin> A \<and> pool_inv p' mem' (insert a A))"
proof -
  let ?grown = "if mp_free_list p = None then add_chunk p base mem w else (True, p, mem, w)"
  obtain ok q m v where g: "?grown = (ok, q, m, v)" by (cases ?grown)
  show ?thesis
  proof (cases ok)
    case False
    then have "q = p" "m = mem"
      using g by (auto simp: add_chunk_def split: if_splits prod.splits bool.splits)
    then show ?thesis using assms(3) g False by simp
  next
    case True
    have Q: "pool_inv q m A" "mp_free_list q \<noteq> None" "stride q = stride p" "mp_block_size q = mp_block_size p"
      "mp_blocks_per_chunk q = mp_blocks_per_chunk p"
    proof -
      have "pool_inv q m A \<and> mp_free_list q \<noteq> None \<and> stride q = stride p \<and> mp_block_size q = mp_block_size p \<and>
        mp_blocks_per_chunk q = mp_blocks_per_chunk p"
      proof (cases "mp_free_list p")
        case None
        then have add: "add_chunk p base mem w = (True, q, m, v)" using g True by simp
        then have "mp_blocks_per_chunk q = mp_blocks_per_chunk p"
          by (auto simp: add_chunk_def init_chunk_free_list_def split: prod.splits bool.splits)
        then show ?thesis using add_chunk_inv [OF assms(1,2) add] by blast
      next
        case (Some f)
        then have "q = p" "m = mem" using g by simp_all
        then show ?thesis using assms(1) Some by simp
      qed
      then show "pool_inv q m A" "mp_free_list q \<noteq> None" "stride q = stride p" "mp_block_size q = mp_block_size p"
        "mp_blocks_per_chunk q = mp_blocks_per_chunk p" by blast+
    qed
    then obtain a where a: "mp_free_list q = Some a" by auto
    have "r = Some a" "p2 = Some (q\<lparr>mp_free_list := m a, mp_free_blocks := mp_free_blocks q - 1\<rparr>)" "mem' = m(a := cleared_link (mp_block_size q) (m a))"
      using assms(3) unfolding memory_pool_alloc.simps g using True a by simp_all
    then show ?thesis
      using Q take_block [OF Q(1) a] by (simp add: stride_def)
  qed
qed

lemma pool_step_inv:
  assumes "pool_step s s'" "pool_inv (fst s) (fst (snd s)) (snd (snd s))"
  shows "pool_inv (fst s') (fst (snd s')) (snd (snd s')) \<and> stride (fst s') = stride (fst s) \<and>
    mp_block_size (fst s') = mp_block_size (fst s)"
  using assms
proof (induction rule: pool_step.induct)
  case (Alloc p base mem w a p' mem' w' A)
  then show ?case using alloc_spec [of p mem A base w "Some a" "Some p'" mem' w'] by simp
next
  case (Alloc_Fails p base mem w p' mem' w' A)
  then show ?case using alloc_spec [of p mem A base w None "Some p'" mem' w'] by simp
next
  case (Free a A p mem p' mem')
  then show ?case using give_block [of p mem A a] by (auto simp: stride_def)
next
  case (Write a A p mem x)
  then show ?case using client_write [of p mem A a x] by (simp add: fun_upd_def)
qed

lemma create_pool_inv:
  assumes "create_memory_pool bs n base mem w = (Some p, mem', w')" "(unat bs + 23) * nat n + 48 < 2 ^ 64"
  shows "pool_inv p mem' {} \<and> mp_block_size p = bs \<and> 16 dvd stride p"
proof -
  let ?min = "if bs < free_node_size then free_node_size else bs"
  let ?p = "\<lparr>mp_block_size = bs, mp_aligned_block = align_up ?min max_align, mp_blocks_per_chunk = nat n,
    mp_free_list = None, mp_chunks = [], mp_total_blocks = 0, mp_free_blocks = 0, mp_user_data = None\<rparr>"
  obtain v where add: "add_chunk ?p base mem v = (True, p, mem', w')" and bn: "bs \<noteq> 0" "0 < n"
    using assms(1) by (auto simp: create_memory_pool_def Let_def split: if_splits prod.splits bool.splits)
  have min: "unat bs \<le> unat ?min" "8 \<le> unat ?min" "unat ?min \<le> unat bs + 8"
    by (simp_all add: free_node_size_def word_less_nat_alt)
  have "unat bs + 23 \<le> (unat bs + 23) * nat n" using bn by simp
  then have "unat ?min + 15 < 2 ^ 64" using assms(2) min(3) by linarith
  then have s: "stride ?p = (unat ?min + 15) div 16 * 16" by (simp add: stride_def align_up_exact)
  have le: "unat ?min \<le> stride ?p" "stride ?p \<le> unat bs + 23" using min(3) unfolding s by linarith+
  have "stride ?p * nat n \<le> (unat bs + 23) * nat n" using le(2) mult_right_mono by blast
  then have "stride ?p * nat n + 48 < 2 ^ 64" using assms(2) by linarith
  then have wrap: "no_wrap ?p" unfolding no_wrap_def by (simp only: memory_pool.select_convs)
  have inv: "pool_inv ?p mem {}"
    using le min(1,2) wrap bn by (simp add: pool_inv_def pool_blocks_def)
  have "fresh_base ?p base" by (simp add: fresh_base_def)
  from add_chunk_inv [OF inv this add] show ?thesis unfolding s by auto
qed

section \<open>Properties\<close>

abbreviation pool_reach where "pool_reach \<equiv> pool_step\<^sup>*\<^sup>*"

lemma pool_reach_inv:
  "pool_reach s s' \<Longrightarrow> pool_inv (fst s) (fst (snd s)) (snd (snd s)) \<Longrightarrow>
     pool_inv (fst s') (fst (snd s')) (snd (snd s')) \<and> stride (fst s') = stride (fst s) \<and>
     mp_block_size (fst s') = mp_block_size (fst s)"
  by (induction rule: rtranclp_induct) (auto dest: pool_step_inv)

definition pool_24 :: memory_pool where
  "pool_24 = \<lparr>mp_block_size = 24, mp_aligned_block = 32, mp_blocks_per_chunk = 2, mp_free_list = Some 1032,
     mp_chunks = [(1000, 2)], mp_total_blocks = 2, mp_free_blocks = 2, mp_user_data = None\<rparr>"

definition memory_24 :: pool_memory where
  "memory_24 = (\<lambda>_. None)(1000 := None, 1032 := Some 1000)"

lemma create_24: "create_memory_pool 24 2 1000 (\<lambda>_. None) fresh_world = (Some pool_24, memory_24, fresh_world)"
proof -
  have a: "align_up 24 16 = 32" by (simp add: align_up_def)
  have n: "nat 2 = Suc (Suc 0)" by simp
  have l: "init_loop 32 2 1000 NULL (\<lambda>_. None) = (Some 1032, memory_24)"
    by (simp add: numeral_2_eq_2 memory_24_def)
  show ?thesis
    by (simp add: create_memory_pool_def add_chunk_def init_chunk_free_list_def chunk_bytes_def malloc_struct_def
        malloc_def PTRDIFF_MAX_def max_align_def chunk_header_def free_node_size_def Let_def a n l pool_24_def)
qed

lemma alloc_24: "memory_pool_alloc (Some pool_24) 2000 memory_24 fresh_world =
    (Some 1032, Some (pool_24\<lparr>mp_free_list := Some 1000, mp_free_blocks := 1\<rparr>), memory_24(1032 := None), fresh_world)"
  by (simp add: pool_24_def memory_24_def cleared_link_def free_node_size_def)

text \<open>C16: whatever a client does with its pool, allocating, giving back blocks it holds, and writing
  anything into them, the blocks it holds never overlap each other, each lies in one of the
  chunks and holds at least the requested number of bytes, and the active count is their number;
  the next allocation hands out a block it does not hold. The condition on the sizes says that
  the size of a chunk fits in a machine word.\<close>

theorem memory_pool_safe:
  assumes "create_memory_pool bs n base mem w = (Some p, mem0, w0)" "(unat bs + 23) * nat n + 48 < 2 ^ 64"
    and "pool_reach (p, mem0, {}) (p', mem', A)"
  shows "(\<forall>a\<in>A. \<forall>b\<in>A. a = b \<or> a + unat bs \<le> b \<or> b + unat bs \<le> a) \<and>
    (\<forall>a\<in>A. \<exists>(c, k)\<in>set (mp_chunks p'). c \<le> a \<and> a + unat bs \<le> c + payload p' \<and> 16 dvd (a - c)) \<and>
    memory_pool_active_count (Some p') = of_nat (card A) \<and>
    (\<forall>base' v a q mem'' v'. fresh_base p' base' \<longrightarrow>
       memory_pool_alloc (Some p') base' mem' v = (Some a, q, mem'', v') \<longrightarrow> a \<notin> A)"
proof -
  note C = create_pool_inv [OF assms(1,2)]
  have R: "pool_inv p' mem' A" "stride p' = stride p" "mp_block_size p' = bs"
    using pool_reach_inv [OF assms(3)] C by simp_all
  note I = R(1) [unfolded pool_inv_def]
  let ?s = "stride p'"
  have size: "unat bs \<le> ?s" "0 < ?s" using I R(3) by simp_all
  have pay: "payload p' = mp_blocks_per_chunk p' * ?s" using payload_exact [of p'] I by (simp add: mult.commute)
  obtain F where F: "set F \<inter> A = {}" "set F \<union> A = pool_blocks p'" "mp_free_blocks p' = length F" "distinct F"
    using I by blast
  have fin: "finite (pool_blocks p')" by (simp add: pool_blocks_def chunk_blocks_def)
  have apart: "a + ?s \<le> b \<or> b + ?s \<le> a" if "a \<in> A" "b \<in> A" "a \<noteq> b" for a b
  proof -
    obtain i j where ij: "i < length (mp_chunks p')" "a \<in> chunk_blocks ?s (mp_chunks p' ! i)"
      "j < length (mp_chunks p')" "b \<in> chunk_blocks ?s (mp_chunks p' ! j)"
      using in_pool_blocks [of a p'] in_pool_blocks [of b p'] \<open>a \<in> A\<close> \<open>b \<in> A\<close> F(2) by blast
    have "apart_from ?s (mp_chunks p' ! i) (mp_chunks p' ! j) \<or> apart_from ?s (mp_chunks p' ! j) (mp_chunks p' ! i)"
      if "i \<noteq> j"
      using I ij(1,3) that sorted_wrt_nth_less [of "apart_from ?s" "mp_chunks p'"] by (meson nat_neq_iff)
    then show ?thesis
      using ij chunk_blocks_apart [OF _ size(2), of "mp_chunks p' ! i" "mp_chunks p' ! j" a b]
        chunk_blocks_apart [OF _ size(2), of "mp_chunks p' ! j" "mp_chunks p' ! i" b a]
        same_chunk_apart [of a ?s "mp_chunks p' ! i" b] \<open>a \<noteq> b\<close> by (cases "i = j") auto
  qed
  have inside: "\<exists>(c, k)\<in>set (mp_chunks p'). c \<le> a \<and> a + unat bs \<le> c + payload p' \<and> 16 dvd (a - c)" if "a \<in> A" for a
  proof -
    have "a \<in> pool_blocks p'" using that F(2) by blast
    then obtain d where d: "d \<in> set (mp_chunks p')" "a \<in> chunk_blocks ?s d" unfolding pool_blocks_def by blast
    obtain c k where "d = (c, k)" by (cases d)
    then obtain i where ck: "(c, k) \<in> set (mp_chunks p')" "a = c + i * ?s" "i < k"
      using d by (auto simp: chunk_blocks_def)
    have "k = mp_blocks_per_chunk p'" using I ck(1) by (metis snd_conv)
    then have "(i + 1) * ?s \<le> mp_blocks_per_chunk p' * ?s" using ck(3) by (intro mult_right_mono) auto
    then have "a + unat bs \<le> c + payload p'" using ck(2) size(1) pay by simp
    moreover have "16 dvd (a - c)" using ck(2) C R(2) by simp
    ultimately show ?thesis using ck(1,2) by (intro bexI [of _ "(c, k)"]) auto
  qed
  have "card (pool_blocks p') = length F + card A"
    using F fin by (metis card_Un_disjoint distinct_card finite_Un)
  then have "memory_pool_active_count (Some p') = of_nat (card A)"
    using I F(3) by simp
  moreover have "a \<notin> A" if "fresh_base p' base'" "memory_pool_alloc (Some p') base' mem' v = (Some a, q, mem'', v')"
    for base' v a q mem'' v'
    using alloc_spec [OF R(1) that] by auto
  moreover have "a = b \<or> a + unat bs \<le> b \<or> b + unat bs \<le> a" if "a \<in> A" "b \<in> A" for a b
    using apart [OF that] size(1) by linarith
  ultimately show ?thesis using inside by blast
qed

theorem memory_pool_safe_witness:
  "memory_pool_active_count (Some (pool_24\<lparr>mp_free_list := Some 1000, mp_free_blocks := 1\<rparr>)) = of_nat (card {1032 :: nat}) \<and>
   (\<exists>(c, k)\<in>{(1000 :: nat, 2 :: nat)}. c \<le> 1032 \<and> 1032 + unat (24 :: 64 word) \<le> c + payload pool_24)"
proof -
  let ?q = "pool_24\<lparr>mp_free_list := Some 1000, mp_free_blocks := 1\<rparr>" and ?m = "memory_24(1032 := None)"
  have "pool_step (pool_24, memory_24, {}) (?q, ?m, {1032})"
    by (rule pool_step.Alloc [OF alloc_24]) (auto simp: fresh_base_def pool_24_def payload_def chunk_bytes_def chunk_header_def)
  then have reach: "pool_reach (pool_24, memory_24, {}) (?q, ?m, {1032})" by (rule r_into_rtranclp)
  have "payload ?q = payload pool_24" by (simp add: payload_def chunk_bytes_def)
  moreover have "mp_chunks ?q = [(1000, 2)]" by (simp add: pool_24_def)
  ultimately show ?thesis using memory_pool_safe [OF create_24 _ reach] by simp
qed

text \<open>Nothing checks the product of the block size and the number of blocks: eight blocks of
  \<open>2 ^ 61\<close> bytes each are created in a chunk that \<open>malloc\<close> was asked to give just room for its
  header, and an allocation hands out a block that lies outside it.\<close>

theorem memory_pool_size_wraps:
  "\<exists>p mem'. create_memory_pool (2 ^ 61) 8 base mem fresh_world = (Some p, mem', fresh_world) \<and>
     mp_block_size p = 2 ^ 61 \<and> mp_free_blocks p = 8 \<and> payload p = 0 \<and>
     fst (memory_pool_alloc (Some p) base' mem' w) = Some (base + 7 * 2 ^ 61)"
proof -
  have a: "align_up 2305843009213693952 16 = 2305843009213693952" by (simp add: align_up_def)
  have n: "nat 8 = 8" by simp
  obtain f m where l: "init_loop 2305843009213693952 8 base NULL mem = (f, m)" by fastforce
  have "fst (init_loop 2305843009213693952 (Suc 7) base NULL mem) = Some (base + 7 * 2305843009213693952)"
    by (rule init_loop_head)
  moreover have "Suc 7 = 8" by simp
  ultimately have f: "f = Some (base + 7 * 2305843009213693952)" using l by (simp only: fst_conv)
  show ?thesis
    using l f by (simp add: create_memory_pool_def add_chunk_def init_chunk_free_list_def chunk_bytes_def malloc_struct_def
        malloc_def PTRDIFF_MAX_def max_align_def chunk_header_def free_node_size_def Let_def a n payload_def)
qed

end
