(* ===== verification/Bloom_Filter.thy ===== *)
theory Bloom_Filter
  imports Ova_Base
begin

text \<open>
  The Bloom filter, \<open>src/bloom_filter/bloom_filter.c\<close>: two seeded FNV-1a hashes on 64-bit words and
  a bit array of bytes. The floating-point computation of the sizes is not modelled: what
  \<open>bloom_compute_params\<close> answers is an argument of the constructor. A buffer is the list of its
  bytes, or the null pointer.
\<close>

unbundle bit_operations_syntax

section \<open>State and operations\<close>

record bloom_filter =
  bf_m_bits :: "64 word"
  bf_k_hashes :: "64 word"
  bf_bits :: "8 word list"
  bf_expected_elements :: "64 word"
  bf_items_added :: "64 word"
  bf_user_data :: "nat option"

definition FNV1A64_OFFSET :: "64 word" where "FNV1A64_OFFSET = 14695981039346656037"
definition FNV1A64_PRIME :: "64 word" where "FNV1A64_PRIME = 1099511628211"
definition BLOOM_SEED_1 :: "64 word" where "BLOOM_SEED_1 = 0x243f6a8885a308d3"
definition BLOOM_SEED_2 :: "64 word" where "BLOOM_SEED_2 = 0x9e3779b97f4a7c15"
definition BLOOM_H2_FALLBACK :: "64 word" where "BLOOM_H2_FALLBACK = 0x27d4eb2f165667c5"

fun fnv_loop :: "8 word list \<Rightarrow> 64 word \<Rightarrow> 64 word \<Rightarrow> 64 word \<times> 64 word" where
  "fnv_loop [] h1 h2 = (h1, h2)"
| "fnv_loop (b # bytes) h1 h2 =
     fnv_loop bytes ((h1 XOR ucast b) * FNV1A64_PRIME) ((h2 XOR ucast b) * FNV1A64_PRIME)"

definition fnv1a64_dual :: "8 word list \<Rightarrow> nat \<Rightarrow> 64 word \<times> 64 word" where
  "fnv1a64_dual data len =
     fnv_loop (take len data) (FNV1A64_OFFSET XOR BLOOM_SEED_1) (FNV1A64_OFFSET XOR BLOOM_SEED_2)"

definition bit_in_byte :: "64 word \<Rightarrow> 8 word" where
  "bit_in_byte idx = ucast (push_bit (unat (idx AND 7)) (1 :: 32 word))"

definition bloom_set_bit :: "8 word list \<Rightarrow> 64 word \<Rightarrow> 8 word list" where
  "bloom_set_bit bits idx =
     bits[unat (drop_bit 3 idx) := bits ! unat (drop_bit 3 idx) OR bit_in_byte idx]"

definition bloom_get_bit :: "8 word list \<Rightarrow> 64 word \<Rightarrow> bool" where
  "bloom_get_bit bits idx \<longleftrightarrow> bits ! unat (drop_bit 3 idx) AND bit_in_byte idx \<noteq> 0"

definition bloom_index :: "64 word \<Rightarrow> 64 word \<Rightarrow> 64 word \<Rightarrow> 64 word \<Rightarrow> 64 word" where
  "bloom_index h1 h2 i m_bits = (h1 + i * h2) mod m_bits"

definition bloom_hashes :: "8 word list option \<Rightarrow> nat \<Rightarrow> 64 word \<times> 64 word" where
  "bloom_hashes element len =
     (case fnv1a64_dual (case element of None \<Rightarrow> [] | Some bytes \<Rightarrow> bytes) len of
        (h1, h2) \<Rightarrow> (h1, if h2 = 0 then BLOOM_H2_FALLBACK else h2))"

text \<open>The loops over the hash functions; the first argument is the number of turns left.\<close>

fun set_bits_loop :: "nat \<Rightarrow> 64 word \<Rightarrow> 64 word \<Rightarrow> 64 word \<Rightarrow> 64 word \<Rightarrow> 8 word list \<Rightarrow> 8 word list" where
  "set_bits_loop 0 i h1 h2 m_bits bits = bits"
| "set_bits_loop (Suc n) i h1 h2 m_bits bits =
     set_bits_loop n (i + 1) h1 h2 m_bits (bloom_set_bit bits (bloom_index h1 h2 i m_bits))"

fun get_bits_loop :: "nat \<Rightarrow> 64 word \<Rightarrow> 64 word \<Rightarrow> 64 word \<Rightarrow> 64 word \<Rightarrow> 8 word list \<Rightarrow> bool" where
  "get_bits_loop 0 i h1 h2 m_bits bits = True"
| "get_bits_loop (Suc n) i h1 h2 m_bits bits =
     (if \<not> bloom_get_bit bits (bloom_index h1 h2 i m_bits) then False
      else get_bits_loop n (i + 1) h1 h2 m_bits bits)"

fun bloom_filter_add :: "bloom_filter option \<Rightarrow> 8 word list option \<Rightarrow> nat \<Rightarrow> bloom_filter option" where
  "bloom_filter_add None element len = None"
| "bloom_filter_add (Some impl) element len =
     (if bf_m_bits impl = 0 \<or> bf_k_hashes impl = 0 then Some impl
      else if len > 0 \<and> element = None then Some impl
      else (case bloom_hashes element len of (h1, h2) \<Rightarrow>
        Some (impl\<lparr>bf_bits := set_bits_loop (unat (bf_k_hashes impl)) 0 h1 h2 (bf_m_bits impl) (bf_bits impl),
                   bf_items_added := bf_items_added impl + 1\<rparr>)))"

fun bloom_filter_might_contain :: "bloom_filter option \<Rightarrow> 8 word list option \<Rightarrow> nat \<Rightarrow> bool" where
  "bloom_filter_might_contain None element len = False"
| "bloom_filter_might_contain (Some impl) element len =
     (if bf_m_bits impl = 0 \<or> bf_k_hashes impl = 0 then False
      else if len > 0 \<and> element = None then False
      else (case bloom_hashes element len of (h1, h2) \<Rightarrow>
        get_bits_loop (unat (bf_k_hashes impl)) 0 h1 h2 (bf_m_bits impl) (bf_bits impl)))"

definition bloom_bytes :: "64 word \<Rightarrow> nat" where
  "bloom_bytes m_bits = unat ((m_bits + 7) div 8)"

fun bloom_filter_clear :: "bloom_filter option \<Rightarrow> bloom_filter option" where
  "bloom_filter_clear None = None"
| "bloom_filter_clear (Some impl) =
     (if bf_m_bits impl = 0 then Some impl
      else (let bytes = bloom_bytes (bf_m_bits impl) in
        Some (impl\<lparr>bf_bits := replicate bytes 0 @ drop bytes (bf_bits impl), bf_items_added := 0\<rparr>)))"

text \<open>\<open>params\<close> is the answer of \<open>bloom_compute_params\<close>: nothing, or the bits and the hashes.\<close>

definition create_bloom_filter ::
  "(64 word \<times> 64 word) option \<Rightarrow> 32 word \<Rightarrow> unit world \<Rightarrow> bloom_filter option \<times> unit world" where
  "create_bloom_filter params expected_elements w =
     (case params of
        None \<Rightarrow> (None, w)
      | Some (m_bits, k_hashes) \<Rightarrow>
         (case malloc_struct w of
            (False, w) \<Rightarrow> (None, w)
          | (True, w) \<Rightarrow>
           (case malloc_struct w of
              (False, w) \<Rightarrow> (None, w)
            | (True, w) \<Rightarrow>
             (let bytes = bloom_bytes m_bits in
              case malloc bytes w of
                (False, w) \<Rightarrow> (None, w)
              | (True, w) \<Rightarrow>
                  (Some \<lparr>bf_m_bits = m_bits, bf_k_hashes = k_hashes, bf_bits = replicate bytes 0,
                     bf_expected_elements = scast expected_elements, bf_items_added = 0, bf_user_data = None\<rparr>, w)))))"

section \<open>Bits\<close>

lemma bit_in_byte_bit: "bit (bit_in_byte idx) n \<longleftrightarrow> n = unat (idx AND 7)"
proof -
  have "unat (idx AND 7) \<le> unat (7 :: 64 word)" by (simp only: word_le_nat_alt [symmetric] word_and_le1)
  then have "unat (idx AND 7) < 8" by simp
  then show ?thesis
    unfolding bit_in_byte_def by (auto simp: bit_ucast_iff bit_exp_iff)
qed

lemma get_bit_iff: "bloom_get_bit bits idx \<longleftrightarrow> bit (bits ! unat (drop_bit 3 idx)) (unat (idx AND 7))"
proof -
  have "b AND bit_in_byte idx \<noteq> 0 \<longleftrightarrow> bit b (unat (idx AND 7))" for b :: "8 word"
    using bit_eq_iff [of "b AND bit_in_byte idx" 0] bit_imp_le_length [of b "unat (idx AND 7)"]
    by (auto simp: bit_and_iff bit_in_byte_bit)
  then show ?thesis by (simp only: bloom_get_bit_def)
qed

lemma bit_position_inj:
  assumes "unat (drop_bit 3 i) = unat (drop_bit 3 j)" "unat (i AND 7) = unat (j AND 7)"
  shows "i = (j :: 64 word)"
proof -
  have "x = push_bit 3 (drop_bit 3 x) OR (x AND 7)" for x :: "64 word"
  proof -
    have "(7 :: 64 word) = mask 3" by (simp add: mask_eq_exp_minus_1)
    moreover have "x = push_bit 3 (drop_bit 3 x) OR (x AND mask 3)"
      by (auto intro!: bit_word_eqI simp: bit_simps)
    ultimately show ?thesis by (simp only:)
  qed
  moreover have "drop_bit 3 i = drop_bit 3 j" "i AND 7 = j AND 7" using assms word_unat_eq_iff by blast+
  ultimately show ?thesis by metis
qed

lemma get_set_bit:
  assumes "unat (drop_bit 3 i) < length bits"
  shows "bloom_get_bit (bloom_set_bit bits i) j \<longleftrightarrow> i = j \<or> bloom_get_bit bits j"
proof (cases "unat (drop_bit 3 i) = unat (drop_bit 3 j)")
  case True
  have "unat (i AND 7) = unat (j AND 7) \<longleftrightarrow> i = j" using bit_position_inj [OF True] by blast
  then show ?thesis
    using assms True unfolding get_bit_iff bloom_set_bit_def by (auto simp: bit_or_iff bit_in_byte_bit)
next
  case False
  then have "i \<noteq> j" by blast
  then show ?thesis using assms False unfolding get_bit_iff bloom_set_bit_def by simp
qed

lemma length_set_bit [simp]: "length (bloom_set_bit bits i) = length bits"
  by (simp add: bloom_set_bit_def)

section \<open>The loops\<close>

lemma length_set_bits_loop [simp]: "length (set_bits_loop n i h1 h2 m bits) = length bits"
  by (induction n arbitrary: i bits) simp_all

lemma index_in_range:
  assumes "m \<noteq> 0" "unat m + 7 < 2 ^ 64" "length bits = bloom_bytes m"
  shows "unat (drop_bit 3 (bloom_index h1 h2 i m)) < length bits"
proof -
  have "unat (bloom_index h1 h2 i m) < unat m"
    using assms(1) by (simp add: bloom_index_def unat_mod unat_gt_0)
  moreover have "unat (m + 7) = unat m + 7" using assms(2) unfolding unat_word_ariths by simp
  then have "bloom_bytes m = (unat m + 7) div 8" by (simp add: bloom_bytes_def unat_div)
  moreover have "unat (drop_bit 3 (bloom_index h1 h2 i m)) = unat (bloom_index h1 h2 i m) div 8"
    unfolding unat_drop_bit_eq by (simp add: drop_bit_eq_div)
  ultimately show ?thesis using assms(3) by linarith
qed

lemma set_bits_keep:
  assumes "m \<noteq> 0" "unat m + 7 < 2 ^ 64" "length bits = bloom_bytes m" "bloom_get_bit bits j"
  shows "bloom_get_bit (set_bits_loop n i h1 h2 m bits) j"
  using assms(3,4)
proof (induction n arbitrary: i bits)
  case (Suc n)
  then show ?case using get_set_bit [OF index_in_range [OF assms(1,2) Suc.prems(1)]] by simp
qed simp

lemma set_bits_found:
  assumes "m \<noteq> 0" "unat m + 7 < 2 ^ 64" "length bits = bloom_bytes m"
    "\<And>j. bloom_get_bit (set_bits_loop n i h1 h2 m bits) j \<Longrightarrow> bloom_get_bit bits' j"
  shows "get_bits_loop n i h1 h2 m bits'"
  using assms(3,4)
proof (induction n arbitrary: i bits)
  case (Suc n)
  let ?bits = "bloom_set_bit bits (bloom_index h1 h2 i m)"
  have "bloom_get_bit ?bits (bloom_index h1 h2 i m)"
    using get_set_bit [OF index_in_range [OF assms(1,2) Suc.prems(1)]] by simp
  then have "bloom_get_bit bits' (bloom_index h1 h2 i m)"
    using Suc.prems set_bits_keep [OF assms(1,2), of ?bits] by simp
  then show ?case using Suc.IH [of ?bits "i + 1"] Suc.prems by simp
qed simp

lemma get_bits_mono:
  "(\<And>j. bloom_get_bit bits j \<Longrightarrow> bloom_get_bit bits' j) \<Longrightarrow> get_bits_loop n i h1 h2 m bits \<Longrightarrow>
     get_bits_loop n i h1 h2 m bits'"
  by (induction n arbitrary: i) (auto split: if_splits)

section \<open>Sequences of calls\<close>

datatype bloom_cmd = Insert_Bytes "8 word list option" nat | Clear_All

fun bloom_exec :: "bloom_cmd \<Rightarrow> bloom_filter option \<Rightarrow> bloom_filter option" where
  "bloom_exec (Insert_Bytes element len) f = bloom_filter_add f element len"
| "bloom_exec Clear_All f = bloom_filter_clear f"

fun since_clear :: "bloom_cmd list \<Rightarrow> (8 word list option \<times> nat) list \<Rightarrow> (8 word list option \<times> nat) list" where
  "since_clear [] A = A"
| "since_clear (Insert_Bytes element len # cs) A = since_clear cs ((element, len) # A)"
| "since_clear (Clear_All # cs) A = since_clear cs []"

definition bloom_inv :: "bloom_filter \<Rightarrow> bool" where
  "bloom_inv f \<longleftrightarrow> bf_m_bits f \<noteq> 0 \<and> bf_k_hashes f \<noteq> 0 \<and> unat (bf_m_bits f) + 7 < 2 ^ 64 \<and>
     length (bf_bits f) = bloom_bytes (bf_m_bits f)"

definition holds_all :: "bloom_filter \<Rightarrow> (8 word list option \<times> nat) list \<Rightarrow> bool" where
  "holds_all f A \<longleftrightarrow> (\<forall>(element, len)\<in>set A. (len = 0 \<or> element \<noteq> None) \<longrightarrow> bloom_filter_might_contain (Some f) element len)"

lemma add_inv:
  assumes "bloom_inv f" "holds_all f A"
  shows "\<exists>f'. bloom_filter_add (Some f) element len = Some f' \<and> bloom_inv f' \<and> holds_all f' ((element, len) # A)"
proof (cases "len > 0 \<and> element = None")
  case True
  then have "bloom_filter_add (Some f) element len = Some f" using assms(1) by (simp add: bloom_inv_def)
  then show ?thesis using assms True by (auto simp: holds_all_def)
next
  case False
  obtain h1 h2 where h: "bloom_hashes element len = (h1, h2)" by (cases "bloom_hashes element len")
  let ?bits = "set_bits_loop (unat (bf_k_hashes f)) 0 h1 h2 (bf_m_bits f) (bf_bits f)"
  let ?f = "f\<lparr>bf_bits := ?bits, bf_items_added := bf_items_added f + 1\<rparr>"
  note I = assms(1) [unfolded bloom_inv_def]
  have add: "bloom_filter_add (Some f) element len = Some ?f" using False I h by auto
  have inv: "bloom_inv ?f" using I by (simp add: bloom_inv_def)
  have keep: "bloom_get_bit (bf_bits f) j \<Longrightarrow> bloom_get_bit ?bits j" for j
    using set_bits_keep [of "bf_m_bits f" "bf_bits f" j] I by blast
  have "get_bits_loop (unat (bf_k_hashes f)) 0 h1 h2 (bf_m_bits f) ?bits"
    using set_bits_found [of "bf_m_bits f" "bf_bits f" "unat (bf_k_hashes f)" 0 h1 h2 ?bits] I by blast
  then have new: "bloom_filter_might_contain (Some ?f) element len"
    using I h False by auto
  have "bloom_filter_might_contain (Some ?f) e l" if "bloom_filter_might_contain (Some f) e l" for e l
    using that get_bits_mono [OF keep] by (auto split: if_splits prod.splits)
  then have "holds_all ?f A" using assms(2) by (auto simp add: holds_all_def simp del: bloom_filter_might_contain.simps)
  then have "holds_all ?f ((element, len) # A)"
    using new by (auto simp add: holds_all_def simp del: bloom_filter_might_contain.simps)
  then show ?thesis using add inv by blast
qed

lemma clear_inv:
  assumes "bloom_inv f"
  shows "\<exists>f'. bloom_filter_clear (Some f) = Some f' \<and> bloom_inv f' \<and> bf_items_added f' = 0 \<and>
    bf_bits f' = replicate (bloom_bytes (bf_m_bits f')) 0"
  using assms by (auto simp: bloom_inv_def Let_def)

lemma bloom_run_inv:
  "bloom_inv f \<Longrightarrow> holds_all f A \<Longrightarrow>
     \<exists>f'. fold bloom_exec cs (Some f) = Some f' \<and> bloom_inv f' \<and> holds_all f' (since_clear cs A)"
proof (induction cs arbitrary: f A)
  case (Cons c cs)
  show ?case
  proof (cases c)
    case (Insert_Bytes element len)
    obtain f' where "bloom_filter_add (Some f) element len = Some f'" "bloom_inv f'" "holds_all f' ((element, len) # A)"
      using add_inv [OF Cons.prems] by blast
    then show ?thesis using Cons.IH Insert_Bytes by (simp del: bloom_filter_add.simps)
  next
    case Clear_All
    obtain f' where "bloom_filter_clear (Some f) = Some f'" "bloom_inv f'" using clear_inv [OF Cons.prems(1)] by blast
    moreover have "holds_all f' []" by (simp add: holds_all_def)
    ultimately show ?thesis using Cons.IH Clear_All by (simp del: bloom_filter_clear.simps)
  qed
qed simp

lemma empty_filter_contains:
  assumes "bloom_inv f" "bf_bits f = replicate (bloom_bytes (bf_m_bits f)) 0"
  shows "\<not> bloom_filter_might_contain (Some f) element len"
proof -
  note I = assms(1) [unfolded bloom_inv_def]
  obtain h1 h2 where h: "bloom_hashes element len = (h1, h2)" by (cases "bloom_hashes element len")
  have "unat (drop_bit 3 (bloom_index h1 h2 0 (bf_m_bits f))) < length (bf_bits f)"
    using index_in_range I by blast
  then have "\<not> bloom_get_bit (bf_bits f) (bloom_index h1 h2 0 (bf_m_bits f))"
    using assms(2) by (simp add: bloom_get_bit_def)
  moreover obtain n where "unat (bf_k_hashes f) = Suc n"
    using I by (cases "unat (bf_k_hashes f)") (auto simp: unat_eq_zero)
  ultimately show ?thesis using h by simp
qed

section \<open>Properties\<close>

text \<open>C19: a Bloom filter has no false negatives: whatever is added and cleared, in whatever order,
  every buffer added since the last clearing is reported as possibly present, whichever positions
  its hashes share with others and however the arithmetic wraps; a filter that was just created or
  cleared reports nothing as present. The answer of the size computation is only assumed to be
  positive and below the largest size.\<close>

theorem bloom_no_false_negatives:
  assumes "create_bloom_filter (Some (m, k)) n w = (Some f, w')" "m \<noteq> 0" "k \<noteq> 0" "unat m + 7 < 2 ^ 64"
  shows "\<exists>f'. fold bloom_exec cs (Some f) = Some f' \<and>
    (\<forall>(element, len)\<in>set (since_clear cs []). (len = 0 \<or> element \<noteq> None) \<longrightarrow>
       bloom_filter_might_contain (Some f') element len) \<and>
    \<not> bloom_filter_might_contain (Some f) element len \<and>
    \<not> bloom_filter_might_contain (bloom_filter_clear (Some f')) element len"
proof -
  have f: "bloom_inv f" "bf_bits f = replicate (bloom_bytes (bf_m_bits f)) 0"
    using assms by (auto simp: create_bloom_filter_def bloom_inv_def Let_def split: prod.splits bool.splits)
  have "holds_all f []" by (simp add: holds_all_def)
  from bloom_run_inv [OF f(1) this, of cs] obtain f' where f':
    "fold bloom_exec cs (Some f) = Some f'" "bloom_inv f'" "holds_all f' (since_clear cs [])" by blast
  obtain f'' where f'': "bloom_filter_clear (Some f') = Some f''" "bloom_inv f''"
    "bf_bits f'' = replicate (bloom_bytes (bf_m_bits f'')) 0" using clear_inv [OF f'(2)] by blast
  show ?thesis
    unfolding holds_all_def [symmetric] using f'(1,3) empty_filter_contains [OF f] empty_filter_contains [OF f''(2,3)] f''(1)
    by (intro exI [of _ f'] conjI) (simp_all only: not_False_eq_True)
qed

theorem bloom_no_false_negatives_witness:
  "\<exists>f w f'. create_bloom_filter (Some (100, 7)) 10 fresh_world = (Some f, w) \<and>
     fold bloom_exec [Insert_Bytes (Some [1, 2, 3]) 3, Insert_Bytes (Some [9]) 1] (Some f) = Some f' \<and>
     bloom_filter_might_contain (Some f') (Some [1, 2, 3]) 3 \<and> \<not> bloom_filter_might_contain (Some f) (Some [9]) 1"
proof -
  have "bloom_bytes 100 = 13" by (simp add: bloom_bytes_def)
  then obtain f w where C: "create_bloom_filter (Some (100, 7)) 10 fresh_world = (Some f, w)"
    by (simp add: create_bloom_filter_def malloc_struct_def malloc_no_failures PTRDIFF_MAX_def Let_def)
  from bloom_no_false_negatives [OF C, of "[Insert_Bytes (Some [1, 2, 3]) 3, Insert_Bytes (Some [9]) 1]" "Some [9]" 1] C
  show ?thesis by (fastforce simp del: bloom_filter_might_contain.simps bloom_filter_add.simps)
qed

text \<open>The single-seed hash the one-pass loop replaces.\<close>

definition fnv1a64 :: "64 word \<Rightarrow> 8 word list \<Rightarrow> 64 word" where
  "fnv1a64 seed bytes = foldl (\<lambda>h b. (h XOR ucast b) * FNV1A64_PRIME) (FNV1A64_OFFSET XOR seed) bytes"

lemma fnv_loop_both:
  "fnv_loop bytes h1 h2 = (foldl (\<lambda>h b. (h XOR ucast b) * FNV1A64_PRIME) h1 bytes,
     foldl (\<lambda>h b. (h XOR ucast b) * FNV1A64_PRIME) h2 bytes)"
  by (induction bytes arbitrary: h1 h2) simp_all

text \<open>The single pass that computes both hashes agrees with two separate runs of the seeded
  FNV-1a hash over the first \<open>len\<close> bytes, and bytes past the length never matter.\<close>

theorem fnv1a64_dual_matches:
  "fnv1a64_dual data len = (fnv1a64 BLOOM_SEED_1 (take len data), fnv1a64 BLOOM_SEED_2 (take len data)) \<and>
   bloom_hashes (Some (take len data)) len = bloom_hashes (Some data) len"
  by (simp add: fnv1a64_dual_def fnv1a64_def fnv_loop_both bloom_hashes_def)

end
