(* ===== verification/Tries.thy ===== *)
theory Tries
  imports Element_Set "HOL-Library.List_Lexorder" "HOL-Library.AList"
begin

text \<open>
  The trie of \<open>src/trie/trie.c\<close>: 256 children per node, and short suffixes kept inside a leaf
  instead of a chain of nodes. A C string is the list of its bytes before the terminator. The path
  stack of an insertion is the chain of recursive calls; a node is freed by dropping it from its
  parent.
\<close>

section \<open>Nodes\<close>

type_synonym bytes = "8 word list"

definition TRIE_SSO_MAX :: nat where "TRIE_SSO_MAX = 15"

datatype 'v trie_node =
  Trie_Node (tn_children: "8 word \<Rightarrow> 'v trie_node option") (tn_is_end: bool) (tn_value: "'v ptr")
    (tn_subtree_words: nat) (tn_child_count: nat) (tn_sso_suffix: bytes)

record 'v trie =
  tr_root :: "'v trie_node"
  tr_word_count :: nat

definition fresh_node :: "'v trie_node" where
  "fresh_node = Trie_Node (\<lambda>_. None) False NULL 0 0 []"

text \<open>\<open>calloc\<close> of \<open>sizeof(trie_node)\<close>: 256 pointers and the rest.\<close>

definition trie_node_create :: "bytes world \<Rightarrow> 'v trie_node option \<times> bytes world" where
  "trie_node_create w = (case malloc 2096 w of (ok, w) \<Rightarrow> (if ok then Some fresh_node else None, w))"

text \<open>The chain below \<open>cur\<close>; when a node is refused, what has been linked so far stays.\<close>

fun expand_chain ::
  "bytes \<Rightarrow> bool \<Rightarrow> 'v ptr \<Rightarrow> 'v trie_node \<Rightarrow> bytes world \<Rightarrow> bool \<times> 'v trie_node \<times> bytes world" where
  "expand_chain [] is_end val (Trie_Node ch e v n k s) w = (True, Trie_Node ch is_end val n k s, w)"
| "expand_chain (c # suffix) is_end val (Trie_Node ch e v n k s) w =
     (case trie_node_create w of
        (None, w) \<Rightarrow> (False, Trie_Node ch e v n k s, w)
      | (Some (Trie_Node ch' e' v' n' k' s'), w) \<Rightarrow>
         (case expand_chain suffix is_end val (Trie_Node ch' e' v' 1 k' s') w of
            (ok, child, w) \<Rightarrow> (ok, Trie_Node (ch(c := Some child)) e v n (k + 1) s, w)))"

fun sso_expand :: "'v trie_node \<Rightarrow> bytes world \<Rightarrow> bool \<times> 'v trie_node \<times> bytes world" where
  "sso_expand (Trie_Node ch e v n k s) w =
     (if s = [] then (True, Trie_Node ch e v n k s, w)
      else expand_chain s e v (Trie_Node ch False NULL n k []) w)"

section \<open>Walking and inserting\<close>

datatype walk_result = WALK_EXACT | WALK_SSO_FULL | WALK_SSO_PREFIX | WALK_MISS

fun walk_loop :: "'v trie_node \<Rightarrow> bytes \<Rightarrow> walk_result \<times> 'v trie_node option \<times> nat" where
  "walk_loop node [] = (WALK_EXACT, Some node, 0)"
| "walk_loop (Trie_Node ch e v n k s) (c # p) =
     (if s \<noteq> [] then
        (let remaining = length (c # p) in
         if remaining \<le> length s \<and> take remaining s = c # p
         then (if remaining = length s then WALK_SSO_FULL else WALK_SSO_PREFIX, Some (Trie_Node ch e v n k s), remaining)
         else (WALK_MISS, None, 0))
      else (case ch c of None \<Rightarrow> (WALK_MISS, None, 0) | Some child \<Rightarrow> walk_loop child p))"

fun trie_walk_ex :: "'v trie option \<Rightarrow> bytes option \<Rightarrow> walk_result \<times> 'v trie_node option \<times> nat" where
  "trie_walk_ex (Some impl) (Some s) = walk_loop (tr_root impl) s"
| "trie_walk_ex _ _ = (WALK_MISS, None, 0)"

text \<open>The loop below a node: the status, whether a word was added, and the node with the counters
  on the path updated.\<close>

fun insert_loop ::
  "bytes \<Rightarrow> 'v ptr \<Rightarrow> 'v trie_node \<Rightarrow> bytes world \<Rightarrow> ova_error_code \<times> bool \<times> 'v trie_node \<times> bytes world" where
  "insert_loop [] value node w =
     (case sso_expand node w of
        (False, node, w) \<Rightarrow> (OVA_ERROR_MEMORY, False, node, w)
      | (True, Trie_Node ch e v n k s, w) \<Rightarrow>
          (if e then (OVA_SUCCESS, False, Trie_Node ch e value n k s, w)
           else (OVA_SUCCESS, True, Trie_Node ch True value (n + 1) k s, w)))"
| "insert_loop (c # p) value node w =
     (case sso_expand node w of
        (False, node, w) \<Rightarrow> (OVA_ERROR_MEMORY, False, node, w)
      | (True, Trie_Node ch e v n k s, w) \<Rightarrow>
         (case ch c of
            Some child \<Rightarrow>
              (case insert_loop p value child w of
                 (err, added, child, w) \<Rightarrow>
                   (err, added, Trie_Node (ch(c := Some child)) e v (if added then n + 1 else n) k s, w))
          | None \<Rightarrow>
             (case trie_node_create w of
                (None, w) \<Rightarrow> (OVA_ERROR_MEMORY, False, Trie_Node ch e v n k s, w)
              | (Some created, w) \<Rightarrow>
                  (if 0 < length p \<and> length p \<le> TRIE_SSO_MAX then
                     (OVA_SUCCESS, True,
                      Trie_Node (ch(c := Some (Trie_Node (tn_children created) True value
                          (tn_subtree_words created + 1) (tn_child_count created) p))) e v (n + 1) (k + 1) s, w)
                   else
                    (case insert_loop p value created w of
                       (err, added, child, w) \<Rightarrow>
                         (err, added, Trie_Node (ch(c := Some child)) e v (if added then n + 1 else n) (k + 1) s, w))))))"

text \<open>A path of up to 64 nodes is kept on the stack of the call, a longer one in allocated memory.\<close>

fun trie_insert_method ::
  "'v trie option \<Rightarrow> bytes option \<Rightarrow> 'v ptr \<Rightarrow> bytes world \<Rightarrow> ova_error_code \<times> 'v trie option \<times> bytes world" where
  "trie_insert_method (Some impl) (Some word) value w =
     (case (if length word + 2 \<le> 64 then (True, w) else malloc ((length word + 2) * 8) w) of
        (False, w) \<Rightarrow> (OVA_ERROR_MEMORY, Some impl, w)
      | (True, w) \<Rightarrow>
         (case insert_loop word value (tr_root impl) w of
            (err, added, root, w) \<Rightarrow>
              (err, Some (impl\<lparr>tr_root := root,
                     tr_word_count := (if added then tr_word_count impl + 1 else tr_word_count impl)\<rparr>), w)))"
| "trie_insert_method self word value w = (OVA_ERROR_INVALID_ARG, self, w)"

definition trie_search_method :: "'v trie option \<Rightarrow> bytes option \<Rightarrow> 'v ptr" where
  "trie_search_method self word =
     (case trie_walk_ex self word of
        (WALK_SSO_FULL, Some node, _) \<Rightarrow> (if tn_is_end node then tn_value node else NULL)
      | (WALK_EXACT, Some node, _) \<Rightarrow>
          (if tn_is_end node \<and> tn_sso_suffix node = [] then tn_value node else NULL)
      | _ \<Rightarrow> NULL)"

definition trie_starts_with_method :: "'v trie option \<Rightarrow> bytes option \<Rightarrow> bool" where
  "trie_starts_with_method self prefix =
     (case trie_walk_ex self prefix of
        (WALK_MISS, _, _) \<Rightarrow> False
      | (_, node, _) \<Rightarrow> tn_subtree_words (the node) > 0)"

fun trie_count_words_method :: "'v trie option \<Rightarrow> int" where
  "trie_count_words_method None = 0"
| "trie_count_words_method (Some impl) = wrap_int (int (tr_word_count impl))"

definition trie_count_prefixes_method :: "'v trie option \<Rightarrow> bytes option \<Rightarrow> int" where
  "trie_count_prefixes_method self prefix =
     (case trie_walk_ex self prefix of
        (WALK_MISS, _, _) \<Rightarrow> 0
      | (_, node, _) \<Rightarrow> wrap_int (int (tn_subtree_words (the node))))"

section \<open>Collecting words\<close>

text \<open>Doubling the buffer until it is large enough.\<close>

function grow_buffer :: "nat \<Rightarrow> nat \<Rightarrow> nat" where
  "grow_buffer need cap = (if cap = 0 \<or> need \<le> cap then cap else grow_buffer need (cap * 2))"
  by pat_completeness auto
termination by (relation "measure (\<lambda>(need, cap). need - cap)") auto

definition ensure_buffer :: "nat \<Rightarrow> nat \<Rightarrow> bytes world \<Rightarrow> bool \<times> nat \<times> bytes world" where
  "ensure_buffer need cap w =
     (if need > cap then
        (let new_cap = grow_buffer need (if cap = 0 then 64 else cap * 2) in
         case malloc new_cap w of
           (False, w) \<Rightarrow> (False, cap, w)
         | (True, w) \<Rightarrow> (True, new_cap, w))
      else (True, cap, w))"

text \<open>A word of the given bytes is allocated and appended; nothing happens when it is refused.\<close>

definition emit_word :: "bytes \<Rightarrow> bytes list_obj \<Rightarrow> bytes world \<Rightarrow> bytes list_obj \<times> bytes world" where
  "emit_word word out w =
     (case malloc (length word + 1) w of
        (False, w) \<Rightarrow> (out, w)
      | (True, w) \<Rightarrow> (case list_insert out (Some word) (list_size out) w of (_, out, w) \<Rightarrow> (out, w)))"

type_synonym collector = "bytes \<Rightarrow> nat \<Rightarrow> bytes list_obj \<Rightarrow> bytes world \<Rightarrow> nat \<times> bytes list_obj \<times> bytes world"

fun children_loop :: "8 word list \<Rightarrow> (8 word \<Rightarrow> collector option) \<Rightarrow> collector" where
  "children_loop [] ch buf cap out w = (cap, out, w)"
| "children_loop (i # is) ch buf cap out w =
     (case ch i of
        None \<Rightarrow> children_loop is ch buf cap out w
      | Some collect_child \<Rightarrow>
         (case ensure_buffer (length buf + 2) cap w of
            (False, cap, w) \<Rightarrow> (cap, out, w)
          | (True, cap, w) \<Rightarrow>
             (case collect_child (buf @ [i]) cap out w of
                (cap, out, w) \<Rightarrow> children_loop is ch buf cap out w)))"

definition all_bytes :: "8 word list" where
  "all_bytes = map of_nat [0..<256]"

primrec trie_collect_words :: "'v trie_node \<Rightarrow> collector" where
  "trie_collect_words (Trie_Node ch e v n k s) =
     (\<lambda>buf cap out w.
       if s \<noteq> [] then
         (if e then
            (case ensure_buffer (length buf + length s + 1) cap w of
               (False, cap, w) \<Rightarrow> (cap, out, w)
             | (True, cap, w) \<Rightarrow> (case emit_word (buf @ s) out w of (out, w) \<Rightarrow> (cap, out, w)))
          else (cap, out, w))
       else
        (case (if e then emit_word buf out w else (out, w)) of
           (out, w) \<Rightarrow> children_loop all_bytes (map_option trie_collect_words \<circ> ch) buf cap out w))"

text \<open>When the prefix ends inside a suffix the code would grow its buffer: it holds at least 32 bytes more than
  the prefix and a suffix is at most 15 bytes, so that this branch is never taken and is left out.\<close>

definition trie_get_words_with_prefix_method ::
  "'v trie option \<Rightarrow> bytes option \<Rightarrow> bytes world \<Rightarrow> bytes list_obj option \<times> bytes world" where
  "trie_get_words_with_prefix_method self prefix w =
     (if Option.is_none self \<or> Option.is_none prefix then (None, w)
      else
       (case trie_walk_ex self prefix of
          (r, found, sso_consumed) \<Rightarrow>
           (let cnt = (case found of Some node \<Rightarrow> wrap_int (int (tn_subtree_words node)) | None \<Rightarrow> 0);
                prefix = the prefix
            in case create_list ARRAY_LIST (if cnt > 0 then cnt else 4) None w of
                 (None, w) \<Rightarrow> (None, w)
               | (Some out, w) \<Rightarrow>
                  (case found of
                     None \<Rightarrow> (Some out, w)
                   | Some node \<Rightarrow>
                      (if cnt = 0 then (Some out, w)
                       else
                        (let cap = (if length prefix + 32 < 64 then 64 else length prefix + 32) in
                         case malloc cap w of
                           (False, w) \<Rightarrow> (None, list_free out w)
                         | (True, w) \<Rightarrow>
                            (case r of
                               WALK_EXACT \<Rightarrow>
                                 (case trie_collect_words node prefix cap out w of (_, out, w) \<Rightarrow> (Some out, w))
                             | WALK_SSO_FULL \<Rightarrow>
                                 (if tn_is_end node then (case emit_word prefix out w of (out, w) \<Rightarrow> (Some out, w))
                                  else (Some out, w))
                             | WALK_SSO_PREFIX \<Rightarrow>
                                 (if tn_is_end node
                                  then (case emit_word (prefix @ drop sso_consumed (tn_sso_suffix node)) out w of
                                          (out, w) \<Rightarrow> (Some out, w))
                                  else (Some out, w))
                             | WALK_MISS \<Rightarrow> (Some out, w))))))))"

section \<open>Deleting\<close>

text \<open>Whether the word was removed, whether the caller frees the node, and the node.\<close>

fun trie_delete_recursive :: "'v trie_node \<Rightarrow> bytes \<Rightarrow> bool \<Rightarrow> bool \<times> bool \<times> 'v trie_node" where
  "trie_delete_recursive (Trie_Node ch e v n k s) [] is_root =
     (if s \<noteq> [] then (False, False, Trie_Node ch e v n k s)
      else if \<not> e then (False, False, Trie_Node ch e v n k s)
      else (True, \<not> is_root \<and> k = 0, Trie_Node ch False NULL (n - 1) k s))"
| "trie_delete_recursive (Trie_Node ch e v n k s) (c # p) is_root =
     (if s \<noteq> [] then
        (if length (c # p) = length s \<and> s = c # p then
           (if \<not> e then (False, False, Trie_Node ch e v n k s)
            else (True, \<not> is_root \<and> k = 0, Trie_Node ch False NULL (n - 1) k []))
         else (False, False, Trie_Node ch e v n k s))
      else
       (case ch c of
          None \<Rightarrow> (False, False, Trie_Node ch e v n k s)
        | Some child \<Rightarrow>
           (case trie_delete_recursive child p False of
              (removed, should_free_child, child) \<Rightarrow>
                (if \<not> removed then (False, False, Trie_Node (ch(c := Some child)) e v n k s)
                 else
                  (let ch = ch(c := if should_free_child then None else Some child);
                       k = (if should_free_child then k - 1 else k)
                   in (True, \<not> is_root \<and> \<not> e \<and> k = 0 \<and> s = [], Trie_Node ch e v (n - 1) k s))))))"

fun trie_delete_method :: "'v trie option \<Rightarrow> bytes option \<Rightarrow> bool \<times> 'v trie option" where
  "trie_delete_method (Some impl) (Some word) =
     (case trie_delete_recursive (tr_root impl) word True of
        (removed, _, root) \<Rightarrow>
          (removed, Some (impl\<lparr>tr_root := root,
             tr_word_count := (if removed then tr_word_count impl - 1 else tr_word_count impl)\<rparr>)))"
| "trie_delete_method self word = (False, self)"

definition create_trie :: "bytes world \<Rightarrow> 'v trie option \<times> bytes world" where
  "create_trie w =
     (case malloc_struct w of
        (False, w) \<Rightarrow> (None, w)
      | (True, w) \<Rightarrow>
       (case malloc_struct w of
          (False, w) \<Rightarrow> (None, w)
        | (True, w) \<Rightarrow>
         (case trie_node_create w of
            (None, w) \<Rightarrow> (None, w)
          | (Some root, w) \<Rightarrow> (Some \<lparr>tr_root = root, tr_word_count = 0\<rparr>, w))))"

section \<open>A node as a map from words\<close>

primrec node_map :: "'v trie_node \<Rightarrow> bytes \<Rightarrow> 'v ptr option" where
  "node_map (Trie_Node ch e v n k s) =
     (\<lambda>w. if s \<noteq> [] then (if e \<and> w = s then Some v else None)
      else (case w of
          [] \<Rightarrow> (if e then Some v else None)
        | c # p \<Rightarrow> (case (map_option node_map \<circ> ch) c of None \<Rightarrow> None | Some f \<Rightarrow> f p)))"

definition child_map :: "'v trie_node option \<Rightarrow> bytes \<Rightarrow> 'v ptr option" where
  "child_map child = (case child of None \<Rightarrow> Map.empty | Some node \<Rightarrow> node_map node)"

lemma child_map_simps [simp]: "child_map None = Map.empty" "child_map (Some node) = node_map node"
  by (simp_all add: child_map_def)

lemma node_map_plain:
  "node_map (Trie_Node ch e v n k []) [] = (if e then Some v else None)"
  "node_map (Trie_Node ch e v n k []) (c # p) = child_map (ch c) p"
  by (simp_all add: child_map_def split: option.splits)

lemma node_map_sso: "s \<noteq> [] \<Longrightarrow> node_map (Trie_Node ch e v n k s) = (if e then [s \<mapsto> v] else Map.empty)"
  by (auto simp: fun_eq_iff)

declare node_map.simps [simp del]

primrec node_ok :: "'v trie_node \<Rightarrow> bool" where
  "node_ok (Trie_Node ch e v n k s) \<longleftrightarrow>
     (\<forall>c. pred_option (\<lambda>b. b) ((map_option node_ok \<circ> ch) c)) \<and>
     (\<forall>c child. ch c = Some child \<longrightarrow> node_map child \<noteq> Map.empty) \<and>
     (s \<noteq> [] \<longrightarrow> e \<and> length s \<le> TRIE_SSO_MAX \<and> ch = (\<lambda>_. None)) \<and>
     k = card {c. ch c \<noteq> None} \<and>
     finite (dom (node_map (Trie_Node ch e v n k s))) \<and>
     n = card (dom (node_map (Trie_Node ch e v n k s)))"

lemma node_ok_iff:
  "node_ok (Trie_Node ch e v n k s) \<longleftrightarrow>
     (\<forall>c child. ch c = Some child \<longrightarrow> node_ok child \<and> node_map child \<noteq> Map.empty) \<and>
     (s \<noteq> [] \<longrightarrow> e \<and> length s \<le> TRIE_SSO_MAX \<and> ch = (\<lambda>_. None)) \<and>
     k = card {c. ch c \<noteq> None} \<and>
     finite (dom (node_map (Trie_Node ch e v n k s))) \<and>
     n = card (dom (node_map (Trie_Node ch e v n k s)))"
  by (auto simp: option.pred_set split: option.splits)

declare node_ok.simps [simp del]

lemma node_ok_words: "node_ok node \<Longrightarrow> finite (dom (node_map node)) \<and> tn_subtree_words node = card (dom (node_map node))"
  by (cases node) (simp add: node_ok_iff)

lemma fresh_node_map: "node_map fresh_node = Map.empty"
proof
  show "node_map fresh_node w = None" for w by (cases w) (simp_all add: fresh_node_def node_map_plain)
qed

lemma fresh_node_ok: "node_ok fresh_node"
  unfolding fresh_node_def node_ok_iff fresh_node_map [unfolded fresh_node_def] by simp

lemma node_create_ready: "alloc_fails w = [] \<Longrightarrow> trie_node_create w = (Some fresh_node, w)"
  by (simp add: trie_node_create_def malloc_no_failures PTRDIFF_MAX_def)

text \<open>Replacing one child.\<close>

lemma replace_child_map:
  "node_map (Trie_Node (ch(c := new)) e v n' k' []) w =
     (case w of [] \<Rightarrow> (if e then Some v else None) | c' # p \<Rightarrow> if c' = c then child_map new p else child_map (ch c') p)"
  by (cases w) (simp_all add: node_map_plain)

lemma replace_child_upd:
  assumes "child_map new = (child_map (ch c))(p := x)"
  shows "node_map (Trie_Node (ch(c := new)) e v n' k' []) = (node_map (Trie_Node ch e v n k []))(c # p := x)"
proof
  fix w
  show "node_map (Trie_Node (ch(c := new)) e v n' k' []) w = ((node_map (Trie_Node ch e v n k []))(c # p := x)) w"
    unfolding replace_child_map assms by (cases w) (auto simp: node_map_plain)
qed

lemma counts_irrelevant: "node_map (Trie_Node ch e v n k s) = node_map (Trie_Node ch e v n' k' s)"
  by (simp add: node_map.simps)

lemma card_dom_upd:
  "finite (dom m) \<Longrightarrow> finite (dom (m(w \<mapsto> x))) \<and>
     card (dom (m(w \<mapsto> x))) = card (dom m) + (if m w = None then 1 else 0)"
  by (auto simp: card_insert_if domIff)

lemma replace_child_ok:
  assumes "node_ok (Trie_Node ch e v n k [])" "node_ok child" "node_map child = (child_map (ch c))(p \<mapsto> x)"
    "n' = (if child_map (ch c) p = None then n + 1 else n)" "k' = (if ch c = None then k + 1 else k)"
  shows "node_ok (Trie_Node (ch(c := Some child)) e v n' k' []) \<and>
    node_map (Trie_Node (ch(c := Some child)) e v n' k' []) = (node_map (Trie_Node ch e v n k []))(c # p \<mapsto> x)"
proof -
  let ?new = "Trie_Node (ch(c := Some child)) e v n' k' []" and ?old = "Trie_Node ch e v n k []"
  note I = assms(1) [unfolded node_ok_iff]
  have map: "node_map ?new = (node_map ?old)(c # p \<mapsto> x)"
    by (rule replace_child_upd) (simp add: assms(3))
  have at: "node_map ?old (c # p) = child_map (ch c) p" by (simp add: node_map_plain)
  have set: "{c'. (ch(c := Some child)) c' \<noteq> None} = insert c {c. ch c \<noteq> None}" by auto
  have "card {c'. (ch(c := Some child)) c' \<noteq> None} = k'"
    unfolding set using I assms(5) by (simp add: card_insert_if)
  moreover have "node_map child \<noteq> Map.empty" unfolding assms(3) by (metis fun_upd_same option.discI)
  moreover have "finite (dom (node_map ?new)) \<and> n' = card (dom (node_map ?new))"
  proof -
    have D: "finite (dom (node_map ?old))" "card (dom (node_map ?old)) = n" using I by (blast, metis)
    show ?thesis
      unfolding map using card_dom_upd [OF D(1), of "c # p" x] D(2) assms(4) unfolding at by presburger
  qed
  ultimately have "node_ok ?new"
    using I assms(2) unfolding node_ok_iff [of "ch(c := Some child)"] by (auto split: if_splits)
  then show ?thesis using map by blast
qed

section \<open>Insertion\<close>

lemma bare_node_ok: "node_ok (Trie_Node (\<lambda>_. None) False v 0 0 []) \<and> node_map (Trie_Node (\<lambda>_. None) False v n k []) = Map.empty"
proof -
  have m: "node_map (Trie_Node (\<lambda>_. None) False v n k []) = Map.empty" for n k
    by (simp add: node_map.simps fun_eq_iff split: list.splits)
  then show ?thesis unfolding node_ok_iff by simp
qed

lemma leaf_ok:
  "node_map (Trie_Node (\<lambda>_. None) True v n k []) = [[] \<mapsto> v] \<and> node_ok (Trie_Node (\<lambda>_. None) True v 1 0 [])"
proof -
  have m: "node_map (Trie_Node (\<lambda>_. None) True v n k []) = [[] \<mapsto> v]" for n k
    by (simp add: node_map.simps fun_eq_iff split: list.splits)
  then show ?thesis unfolding node_ok_iff by simp
qed

lemma sso_leaf_ok:
  assumes "s \<noteq> []" "length s \<le> TRIE_SSO_MAX"
  shows "node_ok (Trie_Node (\<lambda>_. None) True v 1 0 s) \<and> node_map (Trie_Node (\<lambda>_. None) True v 1 0 s) = [s \<mapsto> v]"
  using assms unfolding node_ok_iff node_map_sso [OF assms(1)] by simp

lemma expand_chain_ready:
  assumes "alloc_fails w = []"
  shows "\<exists>node. expand_chain suffix True val (Trie_Node (\<lambda>_. None) False v 1 0 []) w = (True, node, w) \<and>
    node_ok node \<and> node_map node = [suffix \<mapsto> val] \<and> tn_sso_suffix node = []"
proof (induction suffix arbitrary: v)
  case Nil
  show ?case using leaf_ok [of val 1 0] by (simp add: fun_eq_iff)
next
  case (Cons c s)
  obtain child where C: "expand_chain s True val (Trie_Node (\<lambda>_. None) False NULL 1 0 []) w = (True, child, w)"
    "node_ok child" "node_map child = [s \<mapsto> val]"
    using Cons.IH by blast
  let ?node = "Trie_Node ((\<lambda>_. None)(c := Some child)) False v 1 1 []"
  have "node_ok ?node \<and> node_map ?node = (node_map (Trie_Node (\<lambda>_. None) False v 0 0 []))(c # s \<mapsto> val)"
    by (rule replace_child_ok) (use C bare_node_ok [of v] in simp_all)
  then have "node_ok ?node \<and> node_map ?node = [c # s \<mapsto> val]" using bare_node_ok [of v 0 0] by simp
  moreover have "expand_chain (c # s) True val (Trie_Node (\<lambda>_. None) False v 1 0 []) w = (True, ?node, w)"
    using C(1) by (simp add: node_create_ready [OF assms] fresh_node_def)
  ultimately show ?case by auto
qed

lemma sso_expand_ready:
  assumes "node_ok node" "alloc_fails w = []"
  shows "\<exists>ch e v n k. sso_expand node w = (True, Trie_Node ch e v n k [], w) \<and> node_ok (Trie_Node ch e v n k []) \<and>
    node_map (Trie_Node ch e v n k []) = node_map node"
proof (cases node)
  case (Trie_Node ch e v n k s)
  show ?thesis
  proof (cases "s = []")
    case True
    then show ?thesis using assms Trie_Node by simp
  next
    case False
    then have node: "e" "ch = (\<lambda>_. None)" "k = 0" "node_map node = [s \<mapsto> v]"
      using assms(1) unfolding Trie_Node node_ok_iff node_map_sso [OF False] by auto
    then have "n = 1" using node_ok_words [OF assms(1)] Trie_Node by simp
    then obtain x where x: "sso_expand node w = (True, x, w)" "node_ok x" "node_map x = [s \<mapsto> v]" "tn_sso_suffix x = []"
      using expand_chain_ready [OF assms(2), of s v NULL] False node Trie_Node by auto
    then show ?thesis using node(4) by (cases x) auto
  qed
qed

lemma insert_loop_spec:
  assumes "node_ok node" "alloc_fails w = []"
  shows "\<exists>node'. insert_loop word value node w = (OVA_SUCCESS, node_map node word = None, node', w) \<and>
    node_ok node' \<and> node_map node' = (node_map node)(word \<mapsto> value)"
  using assms(1)
proof (induction word arbitrary: node)
  case Nil
  obtain ch e v n k where X: "sso_expand node w = (True, Trie_Node ch e v n k [], w)"
    "node_ok (Trie_Node ch e v n k [])" "node_map (Trie_Node ch e v n k []) = node_map node"
    using sso_expand_ready [OF Nil assms(2)] by blast
  let ?n = "if e then n else n + 1"
  let ?node = "Trie_Node ch True value ?n k []"
  have map: "node_map ?node = (node_map (Trie_Node ch e v n k []))([] \<mapsto> value)"
    by (auto simp: fun_eq_iff node_map.simps split: list.splits)
  have at: "node_map (Trie_Node ch e v n k []) [] = None \<longleftrightarrow> \<not> e" by (simp add: node_map_plain)
  have D: "finite (dom (node_map (Trie_Node ch e v n k [])))" "card (dom (node_map (Trie_Node ch e v n k []))) = n"
    using X(2) unfolding node_ok_iff by (blast, metis)
  have "finite (dom (node_map ?node)) \<and> ?n = card (dom (node_map ?node))"
    unfolding map using card_dom_upd [OF D(1), of "[]" "value"] D(2) at by presburger
  then have "node_ok ?node" using X(2) unfolding node_ok_iff [of ch] by simp
  moreover have "insert_loop [] value node w = (OVA_SUCCESS, node_map node [] = None, ?node, w)"
    using X(1) at X(3) by simp
  ultimately show ?case using map X(3) by (intro exI [of _ ?node]) simp
next
  case (Cons c p)
  obtain ch e v n k where X: "sso_expand node w = (True, Trie_Node ch e v n k [], w)"
    "node_ok (Trie_Node ch e v n k [])" "node_map (Trie_Node ch e v n k []) = node_map node"
    using sso_expand_ready [OF Cons.prems assms(2)] by blast
  have at: "node_map node (c # p) = child_map (ch c) p" by (simp only: X(3) [symmetric] node_map_plain)
  have rep: "\<exists>node'. insert_loop (c # p) value node w = (OVA_SUCCESS, node_map node (c # p) = None, node', w) \<and>
      node_ok node' \<and> node_map node' = (node_map node)(c # p \<mapsto> value)"
    if child: "node_ok child" "node_map child = (child_map (ch c))(p \<mapsto> value)"
      and run: "insert_loop (c # p) value node w = (OVA_SUCCESS, child_map (ch c) p = None,
        Trie_Node (ch(c := Some child)) e v (if child_map (ch c) p = None then n + 1 else n)
          (if ch c = None then k + 1 else k) [], w)" for child
    using replace_child_ok [OF X(2) child refl refl] run at X(3) by auto
  show ?case
  proof (cases "ch c")
    case (Some child)
    then have "node_ok child" using X(2) unfolding node_ok_iff by blast
    from Cons.IH [OF this] obtain child' where C:
      "insert_loop p value child w = (OVA_SUCCESS, node_map child p = None, child', w)"
      "node_ok child'" "node_map child' = (node_map child)(p \<mapsto> value)" by blast
    show ?thesis by (rule rep [OF C(2)]) (use C Some X(1) in simp_all)
  next
    case None
    show ?thesis
    proof (cases "0 < length p \<and> length p \<le> TRIE_SSO_MAX")
      case True
      then have "p \<noteq> []" "length p \<le> TRIE_SSO_MAX" by auto
      note L = sso_leaf_ok [OF this, of "value"]
      show ?thesis
        by (rule rep [OF conjunct1 [OF L]])
          (use L None X(1) True in \<open>simp_all add: node_create_ready [OF assms(2)] fresh_node_def\<close>)
    next
      case False
      from Cons.IH [OF fresh_node_ok] obtain child' where C:
        "insert_loop p value fresh_node w = (OVA_SUCCESS, True, child', w)"
        "node_ok child'" "node_map child' = [p \<mapsto> value]" unfolding fresh_node_map simp_thms by blast
      show ?thesis by (rule rep [OF C(2)]) (use C None X(1) False in \<open>auto simp: node_create_ready [OF assms(2)]\<close>)
    qed
  qed
qed

section \<open>Deletion\<close>

lemma card_dom_delete:
  "finite (dom m) \<Longrightarrow> m w \<noteq> None \<Longrightarrow> finite (dom (m(w := None))) \<and> card (dom (m(w := None))) = card (dom m) - 1"
  by (simp add: domIff)

lemma no_children:
  "node_ok (Trie_Node ch e v n k s) \<Longrightarrow> k = 0 \<longleftrightarrow> (\<forall>c. ch c = None)"
  unfolding node_ok_iff by (auto simp: card_eq_0_iff)

lemma empty_node_map:
  assumes "node_ok (Trie_Node ch e v n k [])"
  shows "node_map (Trie_Node ch e v n k []) = Map.empty \<longleftrightarrow> \<not> e \<and> k = 0"
proof
  assume empty: "node_map (Trie_Node ch e v n k []) = Map.empty"
  have "ch c = None" for c
  proof (rule ccontr)
    assume "ch c \<noteq> None"
    then obtain child where c: "ch c = Some child" by auto
    then have "node_map child \<noteq> Map.empty" using assms unfolding node_ok_iff by blast
    then obtain p where "node_map child p \<noteq> None" by (auto simp: fun_eq_iff)
    then show False using fun_cong [OF empty, of "c # p"] c by (simp add: node_map_plain)
  qed
  moreover have "\<not> e" using fun_cong [OF empty, of "[]"] by (simp add: node_map_plain split: if_splits)
  ultimately show "\<not> e \<and> k = 0" using no_children [OF assms] by blast
next
  assume "\<not> e \<and> k = 0"
  then show "node_map (Trie_Node ch e v n k []) = Map.empty"
    using no_children [OF assms] by (auto simp: fun_eq_iff node_map.simps split: list.splits)
qed

lemma delete_at_end:
  assumes "node_ok (Trie_Node ch True v n k [])"
  shows "node_ok (Trie_Node ch False NULL (n - 1) k []) \<and>
    node_map (Trie_Node ch False NULL (n - 1) k []) = (node_map (Trie_Node ch True v n k []))([] := None)"
proof -
  let ?old = "Trie_Node ch True v n k []" and ?new = "Trie_Node ch False NULL (n - 1) k []"
  have map: "node_map ?new = (node_map ?old)([] := None)"
    by (auto simp: fun_eq_iff node_map.simps split: list.splits)
  have at: "node_map ?old [] \<noteq> None" by (simp add: node_map_plain)
  have D: "finite (dom (node_map ?old))" "card (dom (node_map ?old)) = n"
    using assms unfolding node_ok_iff by (blast, metis)
  have "finite (dom (node_map ?new)) \<and> n - 1 = card (dom (node_map ?new))"
    unfolding map using card_dom_delete [OF D(1) at] D(2) by presburger
  then have "node_ok ?new" using assms unfolding node_ok_iff [of ch] by simp
  then show ?thesis using map by blast
qed

lemma delete_below:
  assumes "node_ok (Trie_Node ch e v n k [])" "ch c = Some child" "node_map child p \<noteq> None" "node_ok child'"
    "node_map child' = (node_map child)(p := None)" "drop_it \<longleftrightarrow> node_map child' = Map.empty"
    "ch' = ch(c := if drop_it then None else Some child')" "k' = (if drop_it then k - 1 else k)"
  shows "node_ok (Trie_Node ch' e v (n - 1) k' []) \<and>
    node_map (Trie_Node ch' e v (n - 1) k' []) = (node_map (Trie_Node ch e v n k []))(c # p := None)"
proof -
  let ?old = "Trie_Node ch e v n k []" and ?new = "Trie_Node ch' e v (n - 1) k' []"
  have child: "child_map (if drop_it then None else Some child') = (child_map (ch c))(p := None)"
    using assms(2,5,6) by (auto simp: child_map_def)
  have map: "node_map ?new = (node_map ?old)(c # p := None)"
    unfolding assms(7) by (rule replace_child_upd) (rule child)
  have at: "node_map ?old (c # p) \<noteq> None" using assms(2,3) by (simp add: node_map_plain)
  have D: "finite (dom (node_map ?old))" "card (dom (node_map ?old)) = n"
    using assms(1) unfolding node_ok_iff by (blast, metis)
  have words: "finite (dom (node_map ?new)) \<and> n - 1 = card (dom (node_map ?new))"
    unfolding map using card_dom_delete [OF D(1) at] D(2) by presburger
  have "{x. ch' x \<noteq> None} = (if drop_it then {x. ch x \<noteq> None} - {c} else {x. ch x \<noteq> None})"
    using assms(2) unfolding assms(7) by auto
  then have "k' = card {x. ch' x \<noteq> None}"
    using assms(1,2,8) unfolding node_ok_iff by auto
  moreover have "\<forall>x y. ch' x = Some y \<longrightarrow> node_ok y \<and> node_map y \<noteq> Map.empty"
    using assms(1,4,6) unfolding assms(7) node_ok_iff by (auto split: if_splits)
  ultimately have "node_ok ?new" using words unfolding node_ok_iff [of ch'] by blast
  then show ?thesis using map by blast
qed

lemma delete_spec:
  assumes "node_ok node"
  shows "\<exists>free node'. trie_delete_recursive node word is_root = (node_map node word \<noteq> None, free, node') \<and>
    (node_map node word = None \<longrightarrow> node_map node' = node_map node) \<and>
    node_ok node' \<and> node_map node' = (node_map node)(word := None) \<and>
    (node_map node word \<noteq> None \<longrightarrow> free = (\<not> is_root \<and> node_map node' = Map.empty))"
  using assms
proof (induction word arbitrary: node is_root)
  case Nil
  obtain ch e v n k s where node: "node = Trie_Node ch e v n k s" by (cases node)
  show ?case
  proof (cases "s = [] \<and> e")
    case True
    then have old: "node_ok (Trie_Node ch True v n k [])" using Nil node by simp
    note D = delete_at_end [OF old]
    have "node_map (Trie_Node ch False NULL (n - 1) k []) = Map.empty \<longleftrightarrow> k = 0"
      using empty_node_map [of ch False NULL "n - 1" k] D by simp
    then show ?thesis using D True unfolding node by (simp add: node_map_plain fun_upd_def)
  next
    case False
    then have none: "node_map node [] = None"
      unfolding node by (cases "s = []") (simp_all add: node_map_plain node_map_sso)
    then have same: "(node_map node)([] := None) = node_map node" by (simp add: fun_eq_iff)
    show ?thesis using Nil False none unfolding node same [unfolded node] by auto
  qed
next
  case (Cons c p)
  obtain ch e v n k s where node: "node = Trie_Node ch e v n k s" by (cases node)
  have unchanged: "(node_map node)(c # p := None) = node_map node" if "node_map node (c # p) = None"
    using that by (simp add: fun_eq_iff)
  show ?case
  proof (cases "s = []")
    case False
    then have leaf: "e" "ch = (\<lambda>_. None)" "k = 0" "node_map node = [s \<mapsto> v]"
      using Cons.prems unfolding node node_ok_iff node_map_sso [OF False] by auto
    have n: "n = 1" using node_ok_words [OF Cons.prems] leaf node by simp
    show ?thesis
    proof (cases "s = c # p")
      case True
      let ?bare = "Trie_Node ch False NULL 0 0 []"
      have bare: "node_ok ?bare" "node_map ?bare = Map.empty" unfolding leaf(2) by (simp_all add: bare_node_ok)
      then have deleted: "(node_map node)(c # p := None) = node_map ?bare"
        unfolding leaf(4) True by (simp add: fun_eq_iff)
      have found: "node_map node (c # p) \<noteq> None" unfolding leaf(4) True by simp
      have "trie_delete_recursive node (c # p) is_root = (True, \<not> is_root, ?bare)"
        using leaf n False True unfolding node by simp
      then show ?thesis
        using found bare unfolding deleted
        by (intro exI [of _ "\<not> is_root"] exI [of _ ?bare] conjI) (simp_all del: not_None_eq)
    next
      case other: False
      then have none: "node_map node (c # p) = None" unfolding leaf(4) by simp
      have "trie_delete_recursive node (c # p) is_root = (False, False, node)" using False other unfolding node by auto
      then show ?thesis
        using Cons.prems none unchanged [OF none] by (intro exI [of _ False] exI [of _ node]) simp
    qed
  next
    case s: True
    show ?thesis
    proof (cases "ch c")
      case None
      then have none: "node_map node (c # p) = None" unfolding node s by (simp add: node_map_plain)
      have "trie_delete_recursive node (c # p) is_root = (False, False, node)" using None unfolding node s by simp
      then show ?thesis
        using Cons.prems none unchanged [OF none] by (intro exI [of _ False] exI [of _ node]) simp
    next
      case (Some child)
      have at: "node_map node (c # p) = node_map child p" unfolding node s using Some by (simp add: node_map_plain)
      have old: "node_ok (Trie_Node ch e v n k [])" using Cons.prems node s by simp
      then have "node_ok child" using Some unfolding node_ok_iff by blast
      from Cons.IH [OF this, of False] obtain free child' where C:
        "trie_delete_recursive child p False = (node_map child p \<noteq> None, free, child')"
        "node_ok child'" "node_map child' = (node_map child)(p := None)"
        "node_map child p = None \<longrightarrow> node_map child' = node_map child"
        "node_map child p \<noteq> None \<longrightarrow> free = (\<not> False \<and> node_map child' = Map.empty)" by metis
      show ?thesis
      proof (cases "node_map child p = None")
        case True
        let ?node = "Trie_Node (ch(c := Some child')) e v n k []"
        have run: "trie_delete_recursive node (c # p) is_root = (False, False, ?node)"
          using C(1) True Some unfolding node s by simp
        have map: "node_map ?node = node_map node"
        proof
          show "node_map ?node w = node_map node w" for w
            unfolding node s using C(4) True Some by (cases w) (simp_all add: node_map_plain)
        qed
        have "{x. (ch(c := Some child')) x \<noteq> None} = {x. ch x \<noteq> None}" using Some by auto
        then have "node_ok ?node"
          using old C(2,4) True Some map unfolding node_ok_iff node s by auto
        moreover have none: "node_map node (c # p) = None" using at True by simp
        ultimately show ?thesis
          using run map unchanged [OF none] by (intro exI [of _ False] exI [of _ ?node]) simp
      next
        case False
        let ?ch = "ch(c := if free then None else Some child')" and ?k = "if free then k - 1 else k"
        let ?node = "Trie_Node ?ch e v (n - 1) ?k []"
        have free: "free = (node_map child' = Map.empty)" using C(5) False by blast
        note D = delete_below [OF old Some False C(2,3) free refl refl]
        have run: "trie_delete_recursive node (c # p) is_root = (True, \<not> is_root \<and> \<not> e \<and> ?k = 0, ?node)"
          using C(1) False Some unfolding node s by (simp add: Let_def)
        have empty: "node_map ?node = Map.empty \<longleftrightarrow> \<not> e \<and> ?k = 0" by (rule empty_node_map [OF conjunct1 [OF D]])
        have found: "node_map node (c # p) \<noteq> None" unfolding at by (rule False)
        have upd: "node_map ?node = (node_map node)(c # p := None)" using conjunct2 [OF D] unfolding node s .
        show ?thesis
        proof (intro exI conjI)
          show "trie_delete_recursive node (c # p) is_root =
              (node_map node (c # p) \<noteq> None, \<not> is_root \<and> \<not> e \<and> ?k = 0, ?node)"
            unfolding run using found by (simp only: simp_thms)
          show "node_ok ?node" by (rule conjunct1 [OF D])
          show "node_map ?node = (node_map node)(c # p := None)" by (rule upd)
        qed (use found empty in \<open>simp_all only: simp_thms\<close>)
      qed
    qed
  qed
qed

section \<open>Walking\<close>

lemma walk_spec:
  assumes "node_ok node" "walk_loop node p = (r, found, used)"
  shows "case r of
      WALK_MISS \<Rightarrow> found = None \<and> (\<forall>q. node_map node (p @ q) = None)
    | WALK_EXACT \<Rightarrow> (\<exists>nd. found = Some nd \<and> node_ok nd \<and> (\<forall>q. node_map node (p @ q) = node_map nd q))
    | _ \<Rightarrow> (\<exists>nd. found = Some nd \<and> node_ok nd \<and> tn_is_end nd \<and> tn_sso_suffix nd \<noteq> [] \<and>
        (r = WALK_SSO_FULL \<longleftrightarrow> drop used (tn_sso_suffix nd) = []) \<and>
        (\<forall>q. node_map node (p @ q) = (if q = drop used (tn_sso_suffix nd) then Some (tn_value nd) else None)))"
  using assms
proof (induction p arbitrary: node)
  case Nil
  then show ?case by auto
next
  case (Cons c p)
  obtain ch e v n k s where node: "node = Trie_Node ch e v n k s" by (cases node)
  show ?case
  proof (cases "s = []")
    case True
    show ?thesis
    proof (cases "ch c")
      case None
      then show ?thesis using Cons.prems(2) unfolding node True by (auto simp: node_map_plain)
    next
      case (Some child)
      then have ok: "node_ok child" using Cons.prems(1) unfolding node node_ok_iff by blast
      have run: "walk_loop child p = (r, found, used)" using Cons.prems(2) Some unfolding node True by simp
      have step: "node_map node ((c # p) @ q) = node_map child (p @ q)" for q
        using Some unfolding node True by (simp add: node_map_plain)
      show ?thesis using Cons.IH [OF ok run] unfolding step by (cases r) simp_all
    qed
  next
    case False
    then have e: "e" and map: "node_map node = [s \<mapsto> v]"
      using Cons.prems(1) unfolding node node_ok_iff node_map_sso [OF False] by auto
    show ?thesis
    proof (cases "length (c # p) \<le> length s \<and> take (length (c # p)) s = c # p")
      case True
      then have s: "s = (c # p) @ drop (length (c # p)) s" by (metis append_take_drop_id)
      have at: "node_map node ((c # p) @ q) = (if q = drop (length (c # p)) s then Some v else None)" for q
      proof -
        have "(c # p) @ q = s \<longleftrightarrow> q = drop (length (c # p)) s" using s by (metis same_append_eq)
        then show ?thesis unfolding map by simp
      qed
      have R: "r = (if length (c # p) = length s then WALK_SSO_FULL else WALK_SSO_PREFIX)" "found = Some node"
        "used = length (c # p)"
      proof -
        have "walk_loop node (c # p) =
            (if length (c # p) = length s then WALK_SSO_FULL else WALK_SSO_PREFIX, Some node, length (c # p))"
          unfolding node walk_loop.simps Let_def by (simp only: False True simp_thms if_True)
        then show "r = (if length (c # p) = length s then WALK_SSO_FULL else WALK_SSO_PREFIX)" "found = Some node"
          "used = length (c # p)" using Cons.prems(2) by simp_all
      qed
      have nd: "tn_is_end node" "tn_sso_suffix node = s" "tn_value node = v" using e unfolding node by simp_all
      have full: "length (c # p) = length s \<longleftrightarrow> drop (length (c # p)) s = []" using conjunct1 [OF True] by auto
      show ?thesis
        using Cons.prems(1) at R nd False full by (cases "length (c # p) = length s") simp_all
    next
      case miss: False
      then have "r = WALK_MISS" "found = None" using Cons.prems(2) False unfolding node by auto
      moreover have "(c # p) @ q \<noteq> s" for q using miss by auto
      ultimately show ?thesis unfolding map by auto
    qed
  qed
qed

lemma search_spec:
  assumes "node_ok (tr_root t)"
  shows "trie_search_method (Some t) (Some word) = (case node_map (tr_root t) word of None \<Rightarrow> NULL | Some v \<Rightarrow> v)"
proof -
  obtain r found used where run: "walk_loop (tr_root t) word = (r, found, used)"
    by (cases "walk_loop (tr_root t) word")
  note W = walk_spec [OF assms run]
  have end_of: "node_map nd [] = (if tn_is_end nd \<and> tn_sso_suffix nd = [] then Some (tn_value nd) else None)" for nd :: "'a trie_node"
    by (cases nd) (simp add: node_map.simps)
  show ?thesis
  proof (cases r)
    case WALK_EXACT
    then obtain nd where nd: "found = Some nd" "\<forall>q. node_map (tr_root t) (word @ q) = node_map nd q" using W by auto
    then have "node_map (tr_root t) word = node_map nd []" by (metis append_Nil2)
    then show ?thesis using WALK_EXACT nd(1) run by (simp add: trie_search_method_def end_of)
  next
    case WALK_SSO_FULL
    then obtain nd where nd: "found = Some nd" "tn_is_end nd" "drop used (tn_sso_suffix nd) = []"
      "\<forall>q. node_map (tr_root t) (word @ q) = (if q = [] then Some (tn_value nd) else None)" using W by auto
    then have "node_map (tr_root t) word = Some (tn_value nd)" by (metis append_Nil2)
    then show ?thesis using WALK_SSO_FULL nd run by (simp add: trie_search_method_def)
  next
    case WALK_SSO_PREFIX
    then obtain nd where nd: "drop used (tn_sso_suffix nd) \<noteq> []"
      "\<forall>q. node_map (tr_root t) (word @ q) = (if q = drop used (tn_sso_suffix nd) then Some (tn_value nd) else None)"
      using W by auto
    have "node_map (tr_root t) word = None" using spec [OF nd(2), of "[]"] nd(1) by (auto split: if_splits)
    then show ?thesis using WALK_SSO_PREFIX run by (simp add: trie_search_method_def)
  next
    case WALK_MISS
    then have all: "\<forall>q. node_map (tr_root t) (word @ q) = None" using W by simp
    have "node_map (tr_root t) word = None" using spec [OF all, of "[]"] by simp
    then show ?thesis using WALK_MISS run by (simp add: trie_search_method_def)
  qed
qed

text \<open>The words below a prefix, and the node the walk stops at.\<close>

definition starts :: "bytes \<Rightarrow> bytes \<Rightarrow> bool" where
  "starts p w \<longleftrightarrow> take (length p) w = p"

lemma starts_iff: "starts p w \<longleftrightarrow> (\<exists>q. w = p @ q)"
  unfolding starts_def by (metis append_eq_conv_conj append_take_drop_id)

lemma walk_counts:
  assumes "node_ok root" "walk_loop root p = (r, found, used)"
  shows "if r = WALK_MISS then {w \<in> dom (node_map root). starts p w} = {}
    else \<exists>nd. found = Some nd \<and> tn_subtree_words nd = card {w \<in> dom (node_map root). starts p w} \<and>
      tn_subtree_words nd > 0 = ({w \<in> dom (node_map root). starts p w} \<noteq> {})"
proof -
  let ?W = "{w \<in> dom (node_map root). starts p w}"
  have W: "?W = (@) p ` {q. node_map root (p @ q) \<noteq> None}" by (auto simp: starts_iff)
  have fin: "finite ?W" using node_ok_words [OF assms(1)] by simp
  have card: "card ?W = card {q. node_map root (p @ q) \<noteq> None}"
    unfolding W by (intro card_image) (auto simp: inj_on_def)
  have pos: "card ?W > 0 \<longleftrightarrow> ?W \<noteq> {}" using fin by (simp only: card_gt_0_iff simp_thms)
  note S = walk_spec [OF assms]
  show ?thesis
  proof (cases "r = WALK_MISS")
    case True
    then show ?thesis using S unfolding W by simp
  next
    case False
    have "\<exists>nd. found = Some nd \<and> tn_subtree_words nd = card {q. node_map root (p @ q) \<noteq> None}"
    proof (cases "r = WALK_EXACT")
      case True
      then obtain nd where nd: "found = Some nd" "node_ok nd" "\<forall>q. node_map root (p @ q) = node_map nd q" using S by auto
      then have "{q. node_map root (p @ q) \<noteq> None} = dom (node_map nd)" by auto
      then show ?thesis using nd node_ok_words [OF nd(2)] by metis
    next
      case sso: False
      then obtain nd where nd: "found = Some nd" "node_ok nd" "tn_is_end nd" "tn_sso_suffix nd \<noteq> []"
        "\<forall>q. node_map root (p @ q) = (if q = drop used (tn_sso_suffix nd) then Some (tn_value nd) else None)"
        using S False by (cases r) auto
      have "{q. node_map root (p @ q) \<noteq> None} = {drop used (tn_sso_suffix nd)}" using nd(5) by auto
      moreover have "tn_subtree_words nd = 1"
      proof (cases nd)
        case (Trie_Node ch e v n k s)
        then show ?thesis using nd(3,4) node_ok_words [OF nd(2)] by (simp add: node_map_sso)
      qed
      ultimately show ?thesis using nd(1) by simp
    qed
    then obtain nd where nd: "found = Some nd" "tn_subtree_words nd = card {q. node_map root (p @ q) \<noteq> None}" by blast
    then have "tn_subtree_words nd = card ?W" unfolding card by blast
    then show ?thesis unfolding if_not_P [OF False] using nd(1) pos by metis
  qed
qed

section \<open>The words below a node\<close>

primrec words_of :: "'v trie_node \<Rightarrow> bytes list" where
  "words_of (Trie_Node ch e v n k s) =
     (if s \<noteq> [] then (if e then [s] else [])
      else (if e then [[]] else []) @
        concat (map (\<lambda>i. case (map_option words_of \<circ> ch) i of None \<Rightarrow> [] | Some ws \<Rightarrow> map ((#) i) ws) all_bytes))"

definition child_words :: "('v trie_node) option \<Rightarrow> bytes list" where
  "child_words child = (case child of None \<Rightarrow> [] | Some node \<Rightarrow> words_of node)"

lemma words_of_plain:
  "words_of (Trie_Node ch e v n k []) = (if e then [[]] else []) @ concat (map (\<lambda>i. map ((#) i) (child_words (ch i))) all_bytes)"
proof -
  have "(case (map_option words_of \<circ> ch) i of None \<Rightarrow> [] | Some ws \<Rightarrow> map ((#) i) ws) = map ((#) i) (child_words (ch i))" for i
    by (simp add: child_words_def split: option.splits)
  then show ?thesis by simp
qed

lemma all_bytes_sorted: "sorted_wrt (<) all_bytes"
proof -
  have "(of_nat i :: 8 word) < of_nat j" if "i < j" "j < 256" for i j
    using that by (simp add: word_less_nat_alt unsigned_of_nat take_bit_nat_eq_self)
  then show ?thesis by (auto simp: all_bytes_def sorted_wrt_map sorted_wrt_upt intro: sorted_wrt_mono_rel [OF _ sorted_wrt_upt])
qed

lemma all_bytes_all: "c \<in> set all_bytes"
proof -
  have "c = of_nat (unat c)" by simp
  moreover have "unat c < 256" using unsigned_less [of c, where ?'a = nat] by simp
  ultimately show ?thesis unfolding all_bytes_def set_map by (intro image_eqI [of _ _ "unat c"]) simp_all
qed

lemma words_of_set: "set (words_of node) = dom (node_map node)"
proof (induction node)
  case (Trie_Node ch e v n k s)
  show ?case
  proof (cases "s = []")
    case True
    have child: "set (child_words (ch c)) = dom (child_map (ch c))" for c
    proof (cases "ch c")
      case (Some node)
      then show ?thesis using Trie_Node.IH [of "Some node" node] by (simp add: child_words_def) (metis rangeI)
    qed (simp add: child_words_def)
    show ?thesis
    proof (rule set_eqI)
      show "w \<in> set (words_of (Trie_Node ch e v n k s)) \<longleftrightarrow> w \<in> dom (node_map (Trie_Node ch e v n k s))" for w
        unfolding True words_of_plain using child all_bytes_all
        by (cases w) (auto simp: node_map_plain domIff)
    qed
  qed (simp add: node_map_sso)
qed

lemma words_of_sorted: "sorted_wrt (<) (words_of node)"
proof (induction node)
  case (Trie_Node ch e v n k s)
  show ?case
  proof (cases "s = []")
    case True
    have child: "sorted_wrt (<) (child_words (ch c))" for c
    proof (cases "ch c")
      case (Some node)
      then show ?thesis using Trie_Node.IH [of "Some node" node] by (simp add: child_words_def) (metis rangeI)
    qed (simp add: child_words_def)
    have "sorted_wrt (<) (concat (map (\<lambda>i. map ((#) i) (child_words (ch i))) is))" if "sorted_wrt (<) is" for "is"
      using that
    proof (induction "is")
      case (Cons i "is")
      then show ?case using child [of i] by (auto simp: sorted_wrt_append sorted_wrt_map)
    qed simp
    then show ?thesis using all_bytes_sorted unfolding True words_of_plain by (auto simp: sorted_wrt_append)
  qed simp
qed

section \<open>Collecting\<close>

declare grow_buffer.simps [simp del]

lemma grow_buffer_bound: "0 < cap \<Longrightarrow> need \<le> grow_buffer need cap \<and> 0 < grow_buffer need cap \<and> grow_buffer need cap \<le> max cap (2 * need)"
proof (induction need cap rule: grow_buffer.induct)
  case (1 need cap)
  then show ?case by (cases "need \<le> cap") (auto simp: grow_buffer.simps [of need cap])
qed

definition collecting :: "bytes list_obj \<Rightarrow> bytes world \<Rightarrow> bool" where
  "collecting out w \<longleftrightarrow> positional out \<and> lo_type out = ARRAY_LIST \<and> alloc_fails w = []"

lemma collecting_loop: "collecting out w \<Longrightarrow> collect_loop xs out w = (out', w') \<Longrightarrow> collecting out' w'"
  unfolding collecting_def using collect_fails collect_loop_positional by metis

lemma emit_word_ready:
  "collecting out w \<Longrightarrow> length word < PTRDIFF_MAX \<Longrightarrow> emit_word word out w = collect_loop [Some word] out w"
  by (simp add: emit_word_def malloc_no_failures collecting_def split: prod.splits)

lemma ensure_buffer_ready:
  assumes "alloc_fails w = []" "0 < cap" "cap \<le> 2 * B" "need \<le> B" "B \<le> 2 ^ 60"
  shows "\<exists>cap'. ensure_buffer need cap w = (True, cap', w) \<and> 0 < cap' \<and> cap' \<le> 2 * B"
proof (cases "need > cap")
  case True
  have "0 < cap * 2" using assms(2) by simp
  note G = grow_buffer_bound [OF this, of need]
  have "grow_buffer need (cap * 2) \<le> 2 * B" using G True assms(4) by (auto simp: max_def split: if_splits)
  moreover have "2 * B \<le> PTRDIFF_MAX" using assms(5) by (simp add: PTRDIFF_MAX_def)
  ultimately show ?thesis
    using G True assms(1,2) by (auto simp: ensure_buffer_def malloc_no_failures Let_def)
next
  case False
  then show ?thesis using assms by (simp add: ensure_buffer_def)
qed

text \<open>What a run of the collector amounts to: the words appended in order.\<close>

definition collects :: "collector \<Rightarrow> nat \<Rightarrow> bytes \<Rightarrow> bytes list \<Rightarrow> bool" where
  "collects f B buf words \<longleftrightarrow> (\<forall>cap out w. collecting out w \<longrightarrow> 0 < cap \<longrightarrow> cap \<le> 2 * B \<longrightarrow>
     (\<exists>cap'. f buf cap out w =
        (case collect_loop (map (\<lambda>q. Some (buf @ q)) words) out w of (out', w') \<Rightarrow> (cap', out', w')) \<and>
      0 < cap' \<and> cap' \<le> 2 * B))"

lemma collectsE:
  assumes "collects f B buf words" "collecting out w" "0 < cap" "cap \<le> 2 * B"
  obtains cap' out' w' where "f buf cap out w = (cap', out', w')" "0 < cap'" "cap' \<le> 2 * B"
    "collect_loop (map (\<lambda>q. Some (buf @ q)) words) out w = (out', w')" "collecting out' w'"
proof -
  from assms obtain cap' where C: "0 < cap'" "cap' \<le> 2 * B" "f buf cap out w =
      (case collect_loop (map (\<lambda>q. Some (buf @ q)) words) out w of (out', w') \<Rightarrow> (cap', out', w'))"
    unfolding collects_def by metis
  obtain out' w' where L: "collect_loop (map (\<lambda>q. Some (buf @ q)) words) out w = (out', w')"
    by (cases "collect_loop (map (\<lambda>q. Some (buf @ q)) words) out w")
  from that [of cap' out' w'] C L collecting_loop [OF assms(2) L] show ?thesis by simp
qed

lemma children_loop_collects:
  assumes "\<And>i f. i \<in> set is \<Longrightarrow> ch i = Some f \<Longrightarrow> collects f B (buf @ [i]) (words i)"
    and "\<And>i. ch i = None \<Longrightarrow> words i = []" "\<And>i f. ch i = Some f \<Longrightarrow> length buf + 2 \<le> B" "B \<le> 2 ^ 60"
  shows "collects (children_loop is ch) B buf (concat (map (\<lambda>i. map ((#) i) (words i)) is))"
  using assms(1)
proof (induction "is")
  case Nil
  then show ?case by (auto simp: collects_def)
next
  case (Cons i "is")
  note rest = Cons.IH [OF Cons.prems [OF list.set_intros(2)]]
  show ?case
  proof (cases "ch i")
    case None
    then show ?thesis using rest assms(2) [OF None] unfolding collects_def by simp
  next
    case (Some f)
    show ?thesis
      unfolding collects_def
    proof (intro allI impI)
      fix cap out w
      assume A: "collecting out w" "0 < cap" "cap \<le> 2 * B"
      then have fails: "alloc_fails w = []" by (simp add: collecting_def)
      obtain cap1 where E: "ensure_buffer (length buf + 2) cap w = (True, cap1, w)" "0 < cap1" "cap1 \<le> 2 * B"
        using ensure_buffer_ready [OF fails A(2,3) assms(3) [OF Some] assms(4)] by blast
      from Cons.prems [OF list.set_intros(1) Some] obtain cap2 out2 w2 where F:
        "f (buf @ [i]) cap1 out w = (cap2, out2, w2)" "0 < cap2" "cap2 \<le> 2 * B"
        "collect_loop (map (\<lambda>q. Some ((buf @ [i]) @ q)) (words i)) out w = (out2, w2)" "collecting out2 w2"
        by (rule collectsE [OF _ A(1) E(2,3)])
      from rest obtain cap3 out3 w3 where R:
        "children_loop is ch buf cap2 out2 w2 = (cap3, out3, w3)" "0 < cap3" "cap3 \<le> 2 * B"
        "collect_loop (map (\<lambda>q. Some (buf @ q)) (concat (map (\<lambda>i. map ((#) i) (words i)) is))) out2 w2 = (out3, w3)"
        by (rule collectsE [OF _ F(5,2,3)])
      have "map (\<lambda>q. Some (buf @ q)) (map ((#) i) (words i)) = map (\<lambda>q. Some ((buf @ [i]) @ q)) (words i)" by simp
      then show "\<exists>cap'. children_loop (i # is) ch buf cap out w =
          (case collect_loop (map (\<lambda>q. Some (buf @ q)) (concat (map (\<lambda>i. map ((#) i) (words i)) (i # is)))) out w
           of (out', w') \<Rightarrow> (cap', out', w')) \<and> 0 < cap' \<and> cap' \<le> 2 * B"
        using Some E(1) F(1,4) R by (simp add: collect_loop_append comp_def)
    qed
  qed
qed

lemma collects_words:
  assumes "node_ok node" "\<And>q. q \<in> dom (node_map node) \<Longrightarrow> length buf + length q + 2 \<le> B" "B \<le> 2 ^ 60"
  shows "collects (trie_collect_words node) B buf (words_of node)"
  using assms(1,2)
proof (induction node arbitrary: buf)
  case (Trie_Node ch e v n k s)
  note ok = Trie_Node.prems(1) [unfolded node_ok_iff]
  show ?case
  proof (cases "s = []")
    case False
    then have e: "e" using ok by simp
    then have "s \<in> dom (node_map (Trie_Node ch e v n k s))" by (simp add: node_map_sso [OF False])
    note len = Trie_Node.prems(2) [OF this]
    show ?thesis
      unfolding collects_def
    proof (intro allI impI)
      fix cap out w
      assume A: "collecting out w" "0 < cap" "cap \<le> 2 * B"
      then have fails: "alloc_fails w = []" by (simp add: collecting_def)
      obtain cap1 where E: "ensure_buffer (length buf + length s + 1) cap w = (True, cap1, w)" "0 < cap1" "cap1 \<le> 2 * B"
        using ensure_buffer_ready [OF fails A(2,3) _ assms(3), of "length buf + length s + 1"] len by auto
      have "length (buf @ s) < PTRDIFF_MAX" using len assms(3) by (simp add: PTRDIFF_MAX_def)
      then show "\<exists>cap'. trie_collect_words (Trie_Node ch e v n k s) buf cap out w =
          (case collect_loop (map (\<lambda>q. Some (buf @ q)) (words_of (Trie_Node ch e v n k s))) out w
           of (out', w') \<Rightarrow> (cap', out', w')) \<and> 0 < cap' \<and> cap' \<le> 2 * B"
        using False e E emit_word_ready [OF A(1), of "buf @ s"] by simp
    qed
  next
    case True
    define kids where "kids = concat (map (\<lambda>i. map ((#) i) (child_words (ch i))) all_bytes)"
    have deep: "length buf + 2 \<le> B \<and> collects (trie_collect_words child) B (buf @ [i]) (words_of child)"
      if "ch i = Some child" for i child
    proof -
      have child: "node_ok child" "node_map child \<noteq> Map.empty" using ok that by blast+
      have below: "length buf + length q + 3 \<le> B" if "q \<in> dom (node_map child)" for q
      proof -
        have "i # q \<in> dom (node_map (Trie_Node ch e v n k s))"
          using that \<open>ch i = Some child\<close> unfolding True by (simp add: node_map_plain domIff)
        from Trie_Node.prems(2) [OF this] show ?thesis by simp
      qed
      obtain q where "q \<in> dom (node_map child)" using child(2) by (metis dom_eq_empty_conv ex_in_conv)
      then have "length buf + 2 \<le> B" using below by fastforce
      moreover have "collects (trie_collect_words child) B (buf @ [i]) (words_of child)"
        by (rule Trie_Node.IH [OF _ _ child(1)]) (use that below in \<open>auto intro: range_eqI [of _ _ i] dest!: below [OF domI]\<close>)
      ultimately show ?thesis by blast
    qed
    have loop: "collects (children_loop all_bytes (map_option trie_collect_words \<circ> ch)) B buf kids"
      unfolding kids_def
      by (rule children_loop_collects [OF _ _ _ assms(3)]) (use deep in \<open>auto simp: child_words_def\<close>)
    show ?thesis
      unfolding collects_def
    proof (intro allI impI)
      fix cap out w
      assume A: "collecting out w" "0 < cap" "cap \<le> 2 * B"
      have emit: "(if e then emit_word buf out w else (out, w)) = collect_loop (if e then [Some buf] else []) out w"
      proof (cases e)
        case True
        then have "[] \<in> dom (node_map (Trie_Node ch e v n k s))" unfolding \<open>s = []\<close> by (simp add: node_map_plain domIff)
        from Trie_Node.prems(2) [OF this] assms(3) have "length buf < PTRDIFF_MAX" by (simp add: PTRDIFF_MAX_def)
        then show ?thesis using True emit_word_ready [OF A(1)] by simp
      qed simp
      obtain out1 w1 where E: "collect_loop (if e then [Some buf] else []) out w = (out1, w1)"
        by (cases "collect_loop (if e then [Some buf] else []) out w")
      from loop obtain cap2 out2 w2 where L:
        "children_loop all_bytes (map_option trie_collect_words \<circ> ch) buf cap out1 w1 = (cap2, out2, w2)" "0 < cap2" "cap2 \<le> 2 * B"
        "collect_loop (map (\<lambda>q. Some (buf @ q)) kids) out1 w1 = (out2, w2)"
        by (rule collectsE [OF _ collecting_loop [OF A(1) E] A(2,3)])
      have words: "map (\<lambda>q. Some (buf @ q)) (words_of (Trie_Node ch e v n k s)) =
          (if e then [Some buf] else []) @ map (\<lambda>q. Some (buf @ q)) kids"
        unfolding True words_of_plain kids_def [symmetric] by simp
      have "trie_collect_words (Trie_Node ch e v n k s) buf cap out w = (cap2, out2, w2)"
        using emit E L(1) True by simp
      then show "\<exists>cap'. trie_collect_words (Trie_Node ch e v n k s) buf cap out w =
          (case collect_loop (map (\<lambda>q. Some (buf @ q)) (words_of (Trie_Node ch e v n k s))) out w
           of (out', w') \<Rightarrow> (cap', out', w')) \<and> 0 < cap' \<and> cap' \<le> 2 * B"
        unfolding words collect_loop_append using E L by simp
    qed
  qed
qed

lemma append_less [simp]: "(p @ a :: bytes) < p @ b \<longleftrightarrow> a < b"
  by (induction p) simp_all

text \<open>The words behind a walk, in order, for each of its outcomes.\<close>

fun walk_words :: "walk_result \<Rightarrow> 'v trie_node option \<Rightarrow> nat \<Rightarrow> bytes list" where
  "walk_words WALK_EXACT (Some nd) used = words_of nd"
| "walk_words WALK_SSO_FULL (Some nd) used = [[]]"
| "walk_words WALK_SSO_PREFIX (Some nd) used = [drop used (tn_sso_suffix nd)]"
| "walk_words _ _ _ = []"

lemma walk_words_sorted:
  assumes "node_ok root" "walk_loop root p = (r, found, used)"
  shows "map ((@) p) (walk_words r found used) = sorted_list_of_set {w \<in> dom (node_map root). starts p w}"
proof -
  have W: "{w \<in> dom (node_map root). starts p w} = (@) p ` {q. node_map root (p @ q) \<noteq> None}"
    by (auto simp: starts_iff)
  have fin: "finite {w \<in> dom (node_map root). starts p w}" using node_ok_words [OF assms(1)] by simp
  define f where "f q = node_map root (p @ q)" for q
  have "set (walk_words r found used) = {q. f q \<noteq> None} \<and> sorted_wrt (<) (walk_words r found used)"
    using walk_spec [OF assms] unfolding f_def [symmetric]
    by (cases r) (auto simp: words_of_set words_of_sorted split: if_splits)
  then have ws: "set (walk_words r found used) = {q. node_map root (p @ q) \<noteq> None} \<and> sorted_wrt (<) (walk_words r found used)"
    unfolding f_def .
  then have "sorted_wrt (<) (map ((@) p) (walk_words r found used))" by (simp add: sorted_wrt_map)
  then show ?thesis
    by (intro strict_sorted_equal) (use ws fin in \<open>simp_all add: W\<close>)
qed

lemma snapshot_created:
  assumes "create_list ARRAY_LIST n None w = (Some out, w1)" "alloc_fails w = []" "0 < n" "n \<le> int INT_MAX"
  shows "collecting out w1 \<and> list_items out = []"
proof -
  have "is_int n" using assms by (simp add: is_int_def INT_MAX_def)
  from create_list_positional [OF assms(1) this] have "positional out" "lo_type out = ARRAY_LIST" "list_items out = []" by auto
  moreover have "alloc_fails w1 = []" using create_list_no_failures [OF assms(2-4), of ARRAY_LIST None] assms(1) by auto
  ultimately show ?thesis by (simp add: collecting_def)
qed

lemma get_words_spec:
  fixes t :: "'v trie"
  assumes ok: "node_ok (tr_root t)" and w: "alloc_fails w = []"
    and len: "\<And>x. x \<in> dom (node_map (tr_root t)) \<Longrightarrow> length x \<le> 2 ^ 59" "length p \<le> 2 ^ 59"
    and few: "card {x \<in> dom (node_map (tr_root t)). starts p x} \<le> INT_MAX"
  shows "\<exists>out w'. trie_get_words_with_prefix_method (Some t) (Some p) w = (Some out, w') \<and>
    list_items out = map Some (sorted_list_of_set {x \<in> dom (node_map (tr_root t)). starts p x})"
proof -
  let ?W = "{x \<in> dom (node_map (tr_root t)). starts p x}"
  obtain r found used where run: "walk_loop (tr_root t) p = (r, found, used)" by (cases "walk_loop (tr_root t) p")
  define xs where "xs = map (\<lambda>q. Some (p @ q)) (walk_words r found used)"
  define cnt where "cnt = (case found of Some node \<Rightarrow> wrap_int (int (tn_subtree_words node)) | None \<Rightarrow> 0)"
  note S = walk_spec [OF ok run] and C = walk_counts [OF ok run]
  have sorted: "map ((@) p) (walk_words r found used) = sorted_list_of_set ?W" by (rule walk_words_sorted [OF ok run])
  have xs: "xs = map Some (sorted_list_of_set ?W)" unfolding xs_def sorted [symmetric] by simp
  have "length xs = card ?W" using node_ok_words [OF ok] unfolding xs by simp
  moreover have cnt: "cnt = int (card ?W)"
  proof (cases "r = WALK_MISS")
    case True
    then have "?W = {}" "found = None" using S C by auto
    then show ?thesis by (simp only: cnt_def option.case card.empty of_nat_0)
  next
    case False
    then obtain nd where "found = Some nd" "tn_subtree_words nd = card ?W" using C by auto
    then show ?thesis using few by (simp add: cnt_def wrap_int_id is_int_def INT_MAX_def)
  qed
  ultimately have L: "length xs \<le> INT_MAX" "cnt = int (length xs)" using few by simp_all
  obtain l out w1 w2 where O: "create_list ARRAY_LIST (if cnt > 0 then cnt else 4) None w = (Some out, w1)"
    "collect_loop xs out w1 = (l, w2)" "list_items l = xs"
    using snapshot_ready [OF w L] by blast
  have "0 < (if cnt > 0 then cnt else 4)" "(if cnt > 0 then cnt else 4) \<le> int INT_MAX"
    using L by (auto simp: INT_MAX_def)
  from snapshot_created [OF O(1) w this] have out: "collecting out w1" "list_items out = []" by simp_all
  show ?thesis
  proof (cases "found = None \<or> cnt = 0")
    case True
    then have "cnt = 0" by (auto simp: cnt_def)
    then have "trie_get_words_with_prefix_method (Some t) (Some p) w = (Some out, w1)"
      using O(1) True run unfolding cnt_def by (simp add: trie_get_words_with_prefix_method_def Let_def split: option.splits)
    moreover have "xs = []" using L(2) \<open>cnt = 0\<close> by simp
    ultimately show ?thesis using out(2) xs by auto
  next
    case False
    then obtain nd where nd: "found = Some nd" by auto
    define cap where "cap = (if length p + 32 < 64 then 64 else length p + 32)"
    have "cap \<le> PTRDIFF_MAX" using len(2) by (simp add: cap_def PTRDIFF_MAX_def)
    then have cap: "malloc cap w1 = (True, w1)" using out(1) by (simp add: collecting_def malloc_no_failures)
    have "(case r of
         WALK_EXACT \<Rightarrow> (case trie_collect_words nd p cap out w1 of (_, out, w) \<Rightarrow> (Some out, w))
       | WALK_SSO_FULL \<Rightarrow>
           (if tn_is_end nd then (case emit_word p out w1 of (out, w) \<Rightarrow> (Some out, w)) else (Some out, w1))
       | WALK_SSO_PREFIX \<Rightarrow>
           (if tn_is_end nd
            then (case emit_word (p @ drop used (tn_sso_suffix nd)) out w1 of (out, w) \<Rightarrow> (Some out, w))
            else (Some out, w1))
       | WALK_MISS \<Rightarrow> (Some out, w1)) = (Some l, w2)"
    proof (cases r)
      case WALK_EXACT
      then have E: "node_ok nd" "\<forall>q. node_map (tr_root t) (p @ q) = node_map nd q" using S nd by auto
      have "length p + length q + 2 \<le> 2 ^ 60" if "q \<in> dom (node_map nd)" for q
      proof -
        have "p @ q \<in> dom (node_map (tr_root t))" using that E(2) by (auto simp: domIff)
        from len(1) [OF this] show ?thesis by simp
      qed
      then have "collects (trie_collect_words nd) (2 ^ 60) p (words_of nd)" by (rule collects_words [OF E(1) _ order_refl])
      moreover have "0 < cap" "cap \<le> 2 * 2 ^ 60" using len(2) by (simp_all add: cap_def)
      ultimately obtain cap' out' w' where "trie_collect_words nd p cap out w1 = (cap', out', w')"
        "collect_loop (map (\<lambda>q. Some (p @ q)) (words_of nd)) out w1 = (out', w')"
        by (rule collectsE [OF _ out(1)])
      then show ?thesis using WALK_EXACT O(2) nd unfolding xs_def by simp
    next
      case WALK_SSO_FULL
      then have "tn_is_end nd" using S nd by auto
      moreover have "length p < PTRDIFF_MAX" using len(2) by (simp add: PTRDIFF_MAX_def)
      ultimately show ?thesis
        using WALK_SSO_FULL O(2) nd emit_word_ready [OF out(1)] unfolding xs_def by simp
    next
      case WALK_SSO_PREFIX
      then have E: "tn_is_end nd" "node_map (tr_root t) (p @ drop used (tn_sso_suffix nd)) = Some (tn_value nd)"
        using S nd by auto
      have "p @ drop used (tn_sso_suffix nd) \<in> dom (node_map (tr_root t))" using E(2) by blast
      from len(1) [OF this] have "length (p @ drop used (tn_sso_suffix nd)) < PTRDIFF_MAX" by (simp add: PTRDIFF_MAX_def)
      then show ?thesis
        using WALK_SSO_PREFIX O(2) nd E(1) emit_word_ready [OF out(1)] unfolding xs_def by simp
    next
      case WALK_MISS
      then show ?thesis using S nd by simp
    qed
    moreover have "wrap_int (int (tn_subtree_words nd)) \<noteq> 0" using False nd by (simp add: cnt_def)
    ultimately have "trie_get_words_with_prefix_method (Some t) (Some p) w = (Some l, w2)"
      using O(1) run nd cap unfolding cnt_def cap_def
      by (simp only: trie_get_words_with_prefix_method_def Let_def trie_walk_ex.simps option.case prod.case
          Option.is_none_simps option.sel simp_thms if_False bool.case)
    then show ?thesis using O(3) xs by auto
  qed
qed

section \<open>Sequences of calls\<close>

datatype 'v trie_cmd =
  Insert_Word bytes "'v ptr" | Delete_Word bytes | Search_Word bytes | Count_Words | Starts_With bytes
  | Count_Prefixes bytes

datatype 'v trie_reply = Trie_Code ova_error_code | Trie_Bool bool | Trie_Value "'v ptr" | Trie_Int int

fun trie_exec :: "'v trie_cmd \<Rightarrow> 'v trie option \<Rightarrow> bytes world \<Rightarrow> 'v trie_reply \<times> 'v trie option \<times> bytes world" where
  "trie_exec (Insert_Word x v) t w = (case trie_insert_method t (Some x) v w of (e, t, w) \<Rightarrow> (Trie_Code e, t, w))"
| "trie_exec (Delete_Word x) t w = (case trie_delete_method t (Some x) of (b, t) \<Rightarrow> (Trie_Bool b, t, w))"
| "trie_exec (Search_Word x) t w = (Trie_Value (trie_search_method t (Some x)), t, w)"
| "trie_exec Count_Words t w = (Trie_Int (trie_count_words_method t), t, w)"
| "trie_exec (Starts_With p) t w = (Trie_Bool (trie_starts_with_method t (Some p)), t, w)"
| "trie_exec (Count_Prefixes p) t w = (Trie_Int (trie_count_prefixes_method t (Some p)), t, w)"

fun trie_run :: "'v trie_cmd list \<Rightarrow> 'v trie option \<Rightarrow> bytes world \<Rightarrow> 'v trie_reply list \<times> 'v trie option \<times> bytes world" where
  "trie_run [] t w = ([], t, w)"
| "trie_run (c # cs) t w =
     (case trie_exec c t w of (r, t, w) \<Rightarrow> case trie_run cs t w of (rs, t, w) \<Rightarrow> (r # rs, t, w))"

text \<open>The dictionary a trie stands for: an association list with distinct keys.\<close>

fun dict_exec :: "'v trie_cmd \<Rightarrow> (bytes \<times> 'v ptr) list \<Rightarrow> 'v trie_reply \<times> (bytes \<times> 'v ptr) list" where
  "dict_exec (Insert_Word x v) ps = (Trie_Code OVA_SUCCESS, AList.update x v ps)"
| "dict_exec (Delete_Word x) ps = (Trie_Bool (x \<in> fst ` set ps), AList.delete x ps)"
| "dict_exec (Search_Word x) ps = (Trie_Value (case map_of ps x of None \<Rightarrow> NULL | Some v \<Rightarrow> v), ps)"
| "dict_exec Count_Words ps = (Trie_Int (wrap_int (int (length ps))), ps)"
| "dict_exec (Starts_With p) ps = (Trie_Bool (\<exists>(x, v)\<in>set ps. starts p x), ps)"
| "dict_exec (Count_Prefixes p) ps = (Trie_Int (wrap_int (int (length (filter (starts p \<circ> fst) ps)))), ps)"

fun dict_run :: "'v trie_cmd list \<Rightarrow> (bytes \<times> 'v ptr) list \<Rightarrow> 'v trie_reply list \<times> (bytes \<times> 'v ptr) list" where
  "dict_run [] ps = ([], ps)"
| "dict_run (c # cs) ps = (case dict_exec c ps of (r, ps) \<Rightarrow> case dict_run cs ps of (rs, ps) \<Rightarrow> (r # rs, ps))"

text \<open>The words a client may insert: short enough for the path to be allocated.\<close>

fun short_words :: "nat \<Rightarrow> 'v trie_cmd list \<Rightarrow> bool" where
  "short_words n cs = list_all (\<lambda>c. case c of Insert_Word x v \<Rightarrow> length x \<le> n | _ \<Rightarrow> True) cs"

definition trie_holds :: "nat \<Rightarrow> 'v trie \<Rightarrow> (bytes \<times> 'v ptr) list \<Rightarrow> bool" where
  "trie_holds n t ps \<longleftrightarrow> node_ok (tr_root t) \<and> node_map (tr_root t) = map_of ps \<and> distinct (map fst ps) \<and>
     tr_word_count t = length ps \<and> (\<forall>x\<in>fst ` set ps. length x \<le> n)"

lemma length_keys: "distinct (map fst ps) \<Longrightarrow> length ps = card (fst ` set ps)"
  by (metis distinct_card length_map set_map)

lemma delete_keys: "fst ` set (AList.delete x ps) = fst ` set ps - {x}"
  by (auto simp: AList.delete_eq)

lemma length_delete:
  assumes "distinct (map fst ps)"
  shows "length (AList.delete x ps) = (if x \<in> fst ` set ps then length ps - 1 else length ps)"
proof (cases "x \<in> fst ` set ps")
  case True
  have "length (AList.delete x ps) = card (fst ` set ps - {x})"
    using length_keys [OF distinct_delete [OF assms]] unfolding delete_keys .
  also have "\<dots> = length ps - 1" unfolding length_keys [OF assms] using True by (rule card_Diff_singleton)
  finally show ?thesis using True by (simp only: if_True)
next
  case False
  show ?thesis unfolding if_not_P [OF False] delete_id [OF False] by (rule refl)
qed

lemma holds_prefix_count:
  assumes "distinct (map fst ps)"
  shows "card {x \<in> dom (map_of ps). starts p x} = length (filter (starts p \<circ> fst) ps)"
proof -
  have keys: "{x \<in> dom (map_of ps). starts p x} = set (map fst (filter (starts p \<circ> fst) ps))"
    by (auto simp: dom_map_of_conv_image_fst)
  have "distinct (map fst (filter (starts p \<circ> fst) ps))" using assms by (rule distinct_map_filter)
  from distinct_card [OF this] show ?thesis unfolding keys length_map .
qed

lemma trie_insert_holds:
  assumes "trie_holds n t ps" "length x \<le> n" "n \<le> 2 ^ 59" "alloc_fails w = []"
  shows "\<exists>t'. trie_insert_method (Some t) (Some x) v w = (OVA_SUCCESS, Some t', w) \<and> trie_holds n t' (AList.update x v ps)"
proof -
  note H = assms(1) [unfolded trie_holds_def]
  obtain root where R: "insert_loop x v (tr_root t) w = (OVA_SUCCESS, node_map (tr_root t) x = None, root, w)"
    "node_ok root" "node_map root = (node_map (tr_root t))(x \<mapsto> v)"
    using insert_loop_spec [OF conjunct1 [OF H] assms(4), of x v] by blast
  have path: "(if length x + 2 \<le> 64 then (True, w) else malloc ((length x + 2) * 8) w) = (True, w)"
    using assms by (simp add: malloc_no_failures PTRDIFF_MAX_def)
  have len: "length (AList.update x v ps) = (if map_of ps x = None then length ps + 1 else length ps)"
    by (induction ps) auto
  have keys: "fst ` set (AList.update x v ps) = insert x (fst ` set ps)" by (simp add: dom_update)
  have "trie_holds n (t\<lparr>tr_root := root,
      tr_word_count := (if node_map (tr_root t) x = None then tr_word_count t + 1 else tr_word_count t)\<rparr>) (AList.update x v ps)"
    using H R(2,3) assms(2) unfolding trie_holds_def keys by (auto simp: update_conv' distinct_update len dest: weak_map_of_SomeI)
  then show ?thesis using R(1) path by simp
qed

lemma trie_delete_holds:
  assumes "trie_holds n t ps"
  shows "\<exists>t'. trie_delete_method (Some t) (Some x) = (x \<in> fst ` set ps, Some t') \<and> trie_holds n t' (AList.delete x ps)"
proof -
  note H = assms(1) [unfolded trie_holds_def]
  obtain free root where R: "trie_delete_recursive (tr_root t) x True = (node_map (tr_root t) x \<noteq> None, free, root)"
    "node_ok root" "node_map root = (node_map (tr_root t))(x := None)"
    using delete_spec [OF conjunct1 [OF H], of x True] by blast
  have found: "node_map (tr_root t) x \<noteq> None \<longleftrightarrow> x \<in> fst ` set ps" using H by (simp add: map_of_eq_None_iff)
  have len: "length (AList.delete x ps) = (if x \<in> fst ` set ps then length ps - 1 else length ps)"
    using H by (simp add: length_delete)
  have keys: "fst ` set (AList.delete x ps) = fst ` set ps - {x}" by (rule delete_keys)
  have "trie_holds n (t\<lparr>tr_root := root,
      tr_word_count := (if node_map (tr_root t) x \<noteq> None then tr_word_count t - 1 else tr_word_count t)\<rparr>) (AList.delete x ps)"
    using H R(2,3) unfolding trie_holds_def keys found len by (auto simp: delete_conv' distinct_delete)
  then show ?thesis using R(1) unfolding found by simp
qed

lemma trie_exec_holds:
  assumes "trie_holds n t ps" "short_words n [c]" "n \<le> 2 ^ 59" "alloc_fails w = []"
  shows "\<exists>t'. trie_exec c (Some t) w = (fst (dict_exec c ps), Some t', w) \<and> trie_holds n t' (snd (dict_exec c ps))"
proof -
  note H = assms(1) [unfolded trie_holds_def]
  have walk: "\<exists>r found used. walk_loop (tr_root t) p = (r, found, used) \<and> (if r = WALK_MISS
        then filter (starts p \<circ> fst) ps = []
        else \<exists>nd. found = Some nd \<and> tn_subtree_words nd = length (filter (starts p \<circ> fst) ps))" for p
  proof -
    obtain r found used where run: "walk_loop (tr_root t) p = (r, found, used)" by (cases "walk_loop (tr_root t) p")
    have "node_map (tr_root t) = map_of ps" "distinct (map fst ps)" using H by blast+
    then have W: "card {x \<in> dom (node_map (tr_root t)). starts p x} = length (filter (starts p \<circ> fst) ps)"
      using holds_prefix_count [of ps p] by presburger
    have ok: "node_ok (tr_root t)" using H by blast
    have "if r = WALK_MISS then filter (starts p \<circ> fst) ps = []
        else \<exists>nd. found = Some nd \<and> tn_subtree_words nd = length (filter (starts p \<circ> fst) ps)"
    proof (cases "r = WALK_MISS")
      case True
      then have "{x \<in> dom (node_map (tr_root t)). starts p x} = {}" using walk_counts [OF ok run] by meson
      then have "length (filter (starts p \<circ> fst) ps) = 0" using W by (metis card.empty)
      then show ?thesis using True by simp
    next
      case False
      then show ?thesis using walk_counts [OF ok run] unfolding W by meson
    qed
    then show ?thesis using run by blast
  qed
  have some: "(\<exists>(x, v)\<in>set ps. starts p x) \<longleftrightarrow> length (filter (starts p \<circ> fst) ps) > 0" for p
    by (fastforce simp: filter_empty_conv)
  show ?thesis
  proof (cases c)
    case (Insert_Word x v)
    then show ?thesis using trie_insert_holds [OF assms(1) _ assms(3,4), of x v] assms(2) by auto
  next
    case (Delete_Word x)
    then show ?thesis using trie_delete_holds [OF assms(1), of x] by auto
  next
    case (Search_Word x)
    then show ?thesis using assms(1) search_spec [of t x] H by simp
  next
    case Count_Words
    then show ?thesis using assms(1) H by simp
  next
    case (Starts_With p)
    obtain r found used where "walk_loop (tr_root t) p = (r, found, used)" "if r = WALK_MISS
        then filter (starts p \<circ> fst) ps = []
        else \<exists>nd. found = Some nd \<and> tn_subtree_words nd = length (filter (starts p \<circ> fst) ps)" using walk by blast
    then show ?thesis using assms(1) Starts_With some by (cases r) (auto simp: trie_starts_with_method_def)
  next
    case (Count_Prefixes p)
    obtain r found used where "walk_loop (tr_root t) p = (r, found, used)" "if r = WALK_MISS
        then filter (starts p \<circ> fst) ps = []
        else \<exists>nd. found = Some nd \<and> tn_subtree_words nd = length (filter (starts p \<circ> fst) ps)" using walk by blast
    then show ?thesis using assms(1) Count_Prefixes
      by (cases r) (auto simp: trie_count_prefixes_method_def wrap_int_id is_int_def)
  qed
qed

lemma trie_run_holds:
  assumes "trie_holds n t ps" "short_words n cs" "n \<le> 2 ^ 59" "alloc_fails w = []"
  shows "\<exists>t'. trie_run cs (Some t) w = (fst (dict_run cs ps), Some t', w) \<and> trie_holds n t' (snd (dict_run cs ps))"
  using assms(1,2)
proof (induction cs arbitrary: t ps)
  case (Cons c cs)
  have short: "short_words n [c]" "short_words n cs" using Cons.prems(2) by simp_all
  obtain t1 where T: "trie_exec c (Some t) w = (fst (dict_exec c ps), Some t1, w)" "trie_holds n t1 (snd (dict_exec c ps))"
    using trie_exec_holds [OF Cons.prems(1) short(1) assms(3,4)] by blast
  from Cons.IH [OF T(2) short(2)] show ?case using T(1) by (auto split: prod.splits)
qed simp

lemma create_trie_holds:
  "create_trie w = (Some t, w') \<Longrightarrow> alloc_fails w = [] \<Longrightarrow> trie_holds n t [] \<and> alloc_fails w' = []"
  using fresh_node_ok fresh_node_map
  by (auto simp: create_trie_def trie_holds_def malloc_struct_def malloc_no_failures PTRDIFF_MAX_def node_create_ready)

section \<open>Properties\<close>

text \<open>C20: any sequence of insertions, deletions, searches, prefix tests and counts on a trie answers
  as a dictionary from words to values, whatever suffixes are kept in leaves, split or pruned.\<close>

theorem trie_is_a_dictionary:
  assumes "create_trie w = (Some t, w')" "alloc_fails w = []" "short_words (2 ^ 59) cs"
  shows "\<exists>t'. trie_run cs (Some t) w' = (fst (dict_run cs []), Some t', w')"
  using trie_run_holds [OF conjunct1 [OF create_trie_holds [OF assms(1,2)]] assms(3) order_refl]
    create_trie_holds [OF assms(1,2)] by blast

theorem trie_is_a_dictionary_witness:
  "\<exists>(t :: nat trie) w' t'. create_trie fresh_world = (Some t, w') \<and>
     trie_run [Insert_Word [1, 2, 3] (Some 7), Insert_Word [1, 2] (Some 8), Delete_Word [1, 2, 3], Search_Word [1, 2],
         Count_Prefixes [1]] (Some t) w' =
       ([Trie_Code OVA_SUCCESS, Trie_Code OVA_SUCCESS, Trie_Bool True, Trie_Value (Some 8), Trie_Int 1], Some t', w')"
proof -
  let ?cs = "[Insert_Word [1, 2, 3] (Some 7), Insert_Word [1, 2] (Some 8), Delete_Word [1, 2, 3], Search_Word [1, 2],
    Count_Prefixes [1]] :: nat trie_cmd list"
  obtain t w' where T: "create_trie fresh_world = (Some (t :: nat trie), w')"
    by (simp add: create_trie_def malloc_struct_def malloc_no_failures PTRDIFF_MAX_def node_create_ready)
  have "short_words (2 ^ 59) ?cs" by simp
  note trie_is_a_dictionary [OF T _ this]
  moreover have "fst (dict_run ?cs []) =
      [Trie_Code OVA_SUCCESS, Trie_Code OVA_SUCCESS, Trie_Bool True, Trie_Value (Some 8), Trie_Int 1]"
    by (simp add: starts_def wrap_int_id is_int_def)
  ultimately show ?thesis using T by auto
qed

text \<open>C21: the list of the words with a given prefix holds every such word once, in the order of
  their bytes, whatever has been inserted and deleted before.\<close>

theorem trie_words_with_prefix:
  assumes "create_trie w = (Some t, w')" "alloc_fails w = []" "short_words (2 ^ 59) cs" "length p \<le> 2 ^ 59"
    "length (filter (starts p \<circ> fst) (snd (dict_run cs []))) \<le> INT_MAX"
  shows "\<exists>out w''. trie_get_words_with_prefix_method (fst (snd (trie_run cs (Some t) w'))) (Some p) w' = (Some out, w'') \<and>
    list_items out = map Some (sort (filter (starts p) (map fst (snd (dict_run cs [])))))"
proof -
  let ?ps = "snd (dict_run cs [])"
  note C = create_trie_holds [OF assms(1,2)]
  from trie_run_holds [OF conjunct1 [OF C] assms(3) order_refl, of w'] C obtain t' where T:
    "trie_run cs (Some t) w' = (fst (dict_run cs []), Some t', w')" "trie_holds (2 ^ 59) t' ?ps" by blast
  note H = T(2) [unfolded trie_holds_def]
  have map: "node_map (tr_root t') = map_of ?ps" and dist: "distinct (map fst ?ps)" using H by blast+
  have W: "{x \<in> dom (node_map (tr_root t')). starts p x} = set (filter (starts p) (map fst ?ps))"
    unfolding map by (auto simp: dom_map_of_conv_image_fst)
  have "card {x \<in> dom (node_map (tr_root t')). starts p x} \<le> INT_MAX"
    using assms(5) unfolding map holds_prefix_count [OF dist] .
  moreover have "length x \<le> 2 ^ 59" if "x \<in> dom (node_map (tr_root t'))" for x
    using that H unfolding map by (auto simp: dom_map_of_conv_image_fst)
  ultimately obtain out w'' where G: "trie_get_words_with_prefix_method (Some t') (Some p) w' = (Some out, w'')"
    "list_items out = map Some (sorted_list_of_set {x \<in> dom (node_map (tr_root t')). starts p x})"
    using get_words_spec [OF conjunct1 [OF H] conjunct2 [OF C] _ assms(4)] by blast
  have "sorted_list_of_set {x \<in> dom (node_map (tr_root t')). starts p x} = sort (filter (starts p) (map fst ?ps))"
    unfolding W sorted_list_of_set_sort_remdups using dist by (simp add: distinct_remdups_id)
  then show ?thesis using T(1) G by simp
qed

theorem trie_words_with_prefix_witness:
  "\<exists>(t :: nat trie) w' out w''. create_trie fresh_world = (Some t, w') \<and>
     trie_get_words_with_prefix_method
       (fst (snd (trie_run [Insert_Word [1, 3] (Some 7), Insert_Word [1, 2, 9] NULL, Insert_Word [2] NULL] (Some t) w'))) (Some [1]) w' =
       (Some out, w'') \<and> list_items out = [Some [1, 2, 9], Some [1, 3]]"
proof -
  let ?cs = "[Insert_Word [1, 3] (Some 7), Insert_Word [1, 2, 9] NULL, Insert_Word [2] NULL] :: nat trie_cmd list"
  obtain t w' where T: "create_trie fresh_world = (Some (t :: nat trie), w')"
    by (simp add: create_trie_def malloc_struct_def malloc_no_failures PTRDIFF_MAX_def node_create_ready)
  have short: "short_words (2 ^ 59) ?cs" by simp
  have "length (filter (starts [1] \<circ> fst) (snd (dict_run ?cs []))) \<le> INT_MAX"
    by (simp add: starts_def INT_MAX_def)
  note trie_words_with_prefix [OF T _ short _ this]
  moreover have "map Some (sort (filter (starts [1]) (map fst (snd (dict_run ?cs []))))) = [Some [1, 2, 9], Some [1, 3]]"
    by (simp add: starts_def)
  ultimately show ?thesis using T by (auto simp del: trie_run.simps dict_run.simps)
qed

text \<open>When a node is refused while a suffix kept in a leaf is being split, the word of that leaf
  is lost although the insertion reports an error: it is not found any more, while the trie still
  counts it.\<close>

theorem trie_refused_split_loses_word:
  assumes "s \<noteq> []" "length s \<le> TRIE_SSO_MAX" "length q \<le> 60"
    "create_trie w = (Some t, w1)" "alloc_fails w = []"
    "trie_run [Insert_Word (c # s) (Some v)] (Some t) w1 = (rs, t1, w2)"
    "trie_run [Insert_Word (c # q) v', Search_Word (c # s), Count_Words] t1 (w2\<lparr>alloc_fails := [True]\<rparr>) = (rs', t2, w3)"
  shows "rs' = [Trie_Code OVA_ERROR_MEMORY, Trie_Value NULL, Trie_Int 1]"
proof -
  obtain a b where s: "s = a # b" using assms(1) by (cases s) auto
  have t: "t = \<lparr>tr_root = fresh_node, tr_word_count = 0\<rparr>" "w1 = w"
    using assms(4,5)
    by (auto simp: create_trie_def malloc_struct_def malloc_no_failures PTRDIFF_MAX_def node_create_ready)
  let ?leaf = "Trie_Node (\<lambda>_. None) True (Some v) 1 0 s" and ?bare = "Trie_Node (\<lambda>_. None) False NULL 1 0 []"
  let ?root = "Trie_Node ((\<lambda>_. None)(c := Some ?leaf)) False NULL 1 1 []"
  let ?lost = "Trie_Node ((\<lambda>_. None)(c := Some ?bare)) False NULL 1 1 []"
  have one: "insert_loop (c # s) (Some v) fresh_node w = (OVA_SUCCESS, True, ?root, w)"
    using assms(1,2,5) by (simp add: fresh_node_def node_create_ready [unfolded fresh_node_def])
  have t1: "t1 = Some \<lparr>tr_root = ?root, tr_word_count = 1\<rparr>" "w2 = w"
    using assms(2,6) one unfolding t by (auto simp: TRIE_SSO_MAX_def)
  let ?w = "w\<lparr>alloc_fails := [True]\<rparr>" and ?w' = "w\<lparr>alloc_fails := []\<rparr>"
  have "sso_expand ?leaf ?w = (False, ?bare, ?w')"
    using assms(1) by (simp add: s trie_node_create_def malloc_def)
  then have "insert_loop q v' ?leaf ?w = (OVA_ERROR_MEMORY, False, ?bare, ?w')"
    by (cases q) simp_all
  then have "insert_loop (c # q) v' ?root ?w = (OVA_ERROR_MEMORY, False, ?lost, ?w')"
    by (simp add: fun_eq_iff)
  then have "trie_insert_method t1 (Some (c # q)) v' ?w =
      (OVA_ERROR_MEMORY, Some \<lparr>tr_root = ?lost, tr_word_count = 1\<rparr>, ?w')"
    using assms(3) t1 by simp
  then show ?thesis
    using assms(7) t1 by (auto simp: s trie_search_method_def wrap_int_id is_int_def)
qed

theorem trie_refused_split_loses_word_witness:
  "\<exists>(t :: nat trie) w1 rs t1 w2. create_trie fresh_world = (Some t, w1) \<and>
     trie_run [Insert_Word [1, 2, 3] (Some 7)] (Some t) w1 = (rs, t1, w2) \<and>
     fst (trie_run [Insert_Word [1, 4] (Some 8), Search_Word [1, 2, 3], Count_Words] t1 (w2\<lparr>alloc_fails := [True]\<rparr>)) =
       [Trie_Code OVA_ERROR_MEMORY, Trie_Value NULL, Trie_Int 1]"
proof -
  obtain t w1 where T: "create_trie fresh_world = (Some (t :: nat trie), w1)"
    by (simp add: create_trie_def malloc_struct_def malloc_no_failures PTRDIFF_MAX_def node_create_ready)
  obtain rs t1 w2 where R: "trie_run [Insert_Word [1, 2, 3] (Some 7)] (Some t) w1 = (rs, t1, w2)" by (rule prod_cases3)
  obtain rs' t2 w3 where R': "trie_run [Insert_Word [1, 4] (Some 8), Search_Word [1, 2, 3], Count_Words] t1
      (w2\<lparr>alloc_fails := [True]\<rparr>) = (rs', t2, w3)" by (rule prod_cases3)
  have "rs' = [Trie_Code OVA_ERROR_MEMORY, Trie_Value NULL, Trie_Int 1]"
    by (rule trie_refused_split_loses_word [OF _ _ _ T _ R R']) (simp_all add: TRIE_SSO_MAX_def)
  then show ?thesis using T R R' by (metis fst_conv)
qed

end
