(* ===== verification/Graphs.thy ===== *)
theory Graphs
  imports Element_Set "HOL-Library.While_Combinator" "HOL-Library.AList"
begin

text \<open>
  The graph of \<open>src/graph/graph.c\<close>, \<open>adjacency_list.c\<close> and \<open>adjacency_matrix.c\<close>: vertices
  numbered by the client, edges in lists of edge cells or in a square matrix of weights. Edge cells
  live in a store because \<open>add_edge\<close> writes a weight through the pointer it finds in a list. A
  weight is the 64 bits of a double; the storage only compares it with infinity, and infinity is
  the one double that equals it.
\<close>

section \<open>State\<close>

type_synonym double = "64 word"

definition GRAPH_NO_EDGE :: double where "GRAPH_NO_EDGE = 0x7FF0000000000000"

datatype graph_type = GRAPH_DIRECTED | GRAPH_UNDIRECTED
datatype graph_representation = GRAPH_ADJACENCY_LIST | GRAPH_ADJACENCY_MATRIX
datatype graph_traversal_strategy = GRAPH_TRAVERSE_BFS | GRAPH_TRAVERSE_DFS_ITERATIVE | GRAPH_TRAVERSE_DFS_RECURSIVE
datatype graph_min_path_strategy = GRAPH_MIN_PATH_DIJKSTRA | GRAPH_MIN_PATH_BELLMAN_FORD

record graph_edge =
  ge_to :: int
  ge_weight :: double

type_synonym edge_store = "nat \<Rightarrow> graph_edge option"

text \<open>The store of edge cells and the next free address are the part of the heap the lists point
  into. The cell of a vertex id is written as the id itself: there is one per vertex and nothing
  writes to it again.\<close>

record graph_impl =
  gr_type :: graph_type
  gr_rep :: graph_representation
  gr_traversal :: graph_traversal_strategy
  gr_min_path :: graph_min_path_strategy
  vertex_capacity :: int
  vertex_count :: int
  present :: "bool list"
  vertex_ptrs :: "nat ptr list"
  adj_lists :: "nat list_obj option list option"
  adj_matrix :: "double list option"
  gr_edges :: edge_store
  gr_brk :: nat

definition edge_at :: "edge_store \<Rightarrow> nat \<Rightarrow> graph_edge" where
  "edge_at s a = the (s a)"

definition id_cell :: "int \<Rightarrow> nat ptr" where
  "id_cell v = Some (nat v)"

section \<open>Storage\<close>

definition clamp_graph_capacity :: "int \<Rightarrow> int" where
  "clamp_graph_capacity requested = (if requested > 0 then requested else 8)"

definition is_valid_vertex_id :: "int \<Rightarrow> bool" where
  "is_valid_vertex_id vertex_id \<longleftrightarrow> vertex_id \<ge> 0"

text \<open>Fresh doubles are arbitrary bits; \<open>for (i = 0; i < cap * cap; i++) matrix[i] = GRAPH_NO_EDGE;\<close>
  counts in \<open>int\<close>.\<close>

definition junk_double :: "nat world \<Rightarrow> nat \<Rightarrow> double" where
  "junk_double w i = (case junk w i of NULL \<Rightarrow> 0 | Some a \<Rightarrow> of_nat a)"

definition clear_matrix :: "int \<Rightarrow> nat world \<Rightarrow> double list" where
  "clear_matrix cap w =
     replicate (nat (wrap_int (cap * cap))) GRAPH_NO_EDGE @
     map (junk_double w) [nat (wrap_int (cap * cap))..<nat cap * nat cap]"

definition malloc_matrix :: "int \<Rightarrow> nat world \<Rightarrow> double list option \<times> nat world" where
  "malloc_matrix cap w =
     (case malloc (unat ((word_of_int cap :: 64 word) * word_of_int cap * 8)) w of
        (False, w) \<Rightarrow> (None, w)
      | (True, w) \<Rightarrow> (Some (clear_matrix cap w), w))"

definition graph_init_storage :: "graph_impl \<Rightarrow> int \<Rightarrow> nat world \<Rightarrow> bool \<times> graph_impl \<times> nat world" where
  "graph_init_storage g initial_capacity w =
     (let cap = clamp_graph_capacity initial_capacity in
      case malloc (nat cap) w of (ok1, w) \<Rightarrow>
      case calloc_ptrs cap w of (ptrs, w) \<Rightarrow>
        (if \<not> ok1 then (False, g, w)
         else (case ptrs of None \<Rightarrow> (False, g, w)
         | Some ptrs \<Rightarrow>
            (let filled = g\<lparr>vertex_capacity := cap, present := replicate (nat cap) False, vertex_ptrs := ptrs,
                            adj_lists := None, adj_matrix := None\<rparr>
             in case gr_rep g of
                  GRAPH_ADJACENCY_LIST \<Rightarrow>
                    (case malloc (ptr_bytes cap) w of
                       (False, w) \<Rightarrow> (False, g, w)
                     | (True, w) \<Rightarrow> (True, filled\<lparr>adj_lists := Some (replicate (nat cap) None)\<rparr>, w))
                | GRAPH_ADJACENCY_MATRIX \<Rightarrow>
                    (case malloc_matrix cap w of
                       (None, w) \<Rightarrow> (False, g, w)
                     | (Some m, w) \<Rightarrow> (True, filled\<lparr>adj_matrix := Some m\<rparr>, w))))))"

text \<open>\<open>while (new_cap < required) new_cap *= 2;\<close> in \<open>int\<close>; no result when it never ends.\<close>

definition double_until :: "int \<Rightarrow> int \<Rightarrow> int option" where
  "double_until required cap = while_option (\<lambda>new_cap. new_cap < required) (\<lambda>new_cap. wrap_int (new_cap * 2)) cap"

text \<open>The rows of the old matrix, copied one by one to the front of the rows of the new one.\<close>

definition copy_row :: "double list \<Rightarrow> int \<Rightarrow> int \<Rightarrow> int \<Rightarrow> double list \<Rightarrow> double list" where
  "copy_row old old_cap new_cap i new =
     take (nat (wrap_int (i * new_cap))) new @ take (nat old_cap) (drop (nat (wrap_int (i * old_cap))) old) @
     drop (nat (wrap_int (i * new_cap)) + nat old_cap) new"

fun copy_rows :: "double list \<Rightarrow> int \<Rightarrow> int \<Rightarrow> nat \<Rightarrow> double list \<Rightarrow> double list" where
  "copy_rows old old_cap new_cap 0 new = new"
| "copy_rows old old_cap new_cap (Suc n) new =
     copy_row old old_cap new_cap (int n) (copy_rows old old_cap new_cap n new)"

definition move_storage :: "graph_impl \<Rightarrow> int \<Rightarrow> nat ptr list \<Rightarrow> nat world \<Rightarrow> graph_impl \<times> nat world" where
  "move_storage g new_cap new_ptrs w =
     (let old = nat (vertex_capacity g);
          moved = g\<lparr>vertex_capacity := new_cap,
                    present := take old (present g) @ drop old (replicate (nat new_cap) False),
                    vertex_ptrs := take old (vertex_ptrs g) @ drop old new_ptrs\<rparr>
      in case gr_rep g of
           GRAPH_ADJACENCY_LIST \<Rightarrow>
             (case malloc (ptr_bytes new_cap) w of
                (False, w) \<Rightarrow> (g, w)
              | (True, w) \<Rightarrow>
                  (moved\<lparr>adj_lists := Some (case adj_lists g of None \<Rightarrow> replicate (nat new_cap) None
                           | Some ls \<Rightarrow> take old ls @ drop old (replicate (nat new_cap) None)), adj_matrix := None\<rparr>, w))
         | GRAPH_ADJACENCY_MATRIX \<Rightarrow>
             (case malloc_matrix new_cap w of
                (None, w) \<Rightarrow> (g, w)
              | (Some m, w) \<Rightarrow>
                  (moved\<lparr>adj_lists := None, adj_matrix := Some (case adj_matrix g of None \<Rightarrow> m
                           | Some old_m \<Rightarrow> copy_rows old_m (vertex_capacity g) new_cap old m)\<rparr>, w)))"

text \<open>From here on \<open>None\<close> is a call that never returns.\<close>

definition graph_ensure_capacity :: "graph_impl \<Rightarrow> int \<Rightarrow> nat world \<Rightarrow> (graph_impl \<times> nat world) option" where
  "graph_ensure_capacity g vertex_id w =
     (if \<not> is_valid_vertex_id vertex_id then Some (g, w)
      else
       (let required = wrap_int (vertex_id + 1) in
        if required \<le> vertex_capacity g then Some (g, w)
        else
         (case double_until required (if vertex_capacity g > 0 then vertex_capacity g else 8) of
            None \<Rightarrow> None
          | Some new_cap \<Rightarrow>
              (case malloc (unat (word_of_int new_cap :: 64 word)) w of (ok, w) \<Rightarrow>
               case calloc_ptrs new_cap w of (ptrs, w) \<Rightarrow>
                 (if \<not> ok then Some (g, w)
                  else (case ptrs of None \<Rightarrow> Some (g, w) | Some ptrs \<Rightarrow> Some (move_storage g new_cap ptrs w)))))))"

section \<open>Vertices\<close>

definition graph_has_vertex_impl :: "graph_impl option \<Rightarrow> int \<Rightarrow> bool" where
  "graph_has_vertex_impl g vertex_id =
     (case g of
        None \<Rightarrow> False
      | Some g \<Rightarrow>
          (if \<not> is_valid_vertex_id vertex_id \<or> vertex_id \<ge> vertex_capacity g then False
           else present g ! nat vertex_id))"

definition graph_vertex_count_impl :: "graph_impl option \<Rightarrow> int" where
  "graph_vertex_count_impl g = (case g of None \<Rightarrow> 0 | Some g \<Rightarrow> vertex_count g)"

definition graph_add_vertex_impl :: "graph_impl \<Rightarrow> int \<Rightarrow> nat world \<Rightarrow> (graph_impl \<times> nat world) option" where
  "graph_add_vertex_impl g vertex_id w =
     (if \<not> is_valid_vertex_id vertex_id then Some (g, w)
      else
       (case graph_ensure_capacity g vertex_id w of
          None \<Rightarrow> None
        | Some (g, w) \<Rightarrow>
           (if vertex_id \<ge> vertex_capacity g \<or> present g ! nat vertex_id then Some (g, w)
            else
             (case malloc 4 w of
                (False, w) \<Rightarrow> Some (g, w)
              | (True, w) \<Rightarrow>
                 (let g = g\<lparr>vertex_ptrs := (vertex_ptrs g)[nat vertex_id := id_cell vertex_id],
                            present := (present g)[nat vertex_id := True],
                            vertex_count := vertex_count g + 1\<rparr>
                  in case adj_lists g of
                       None \<Rightarrow> Some (g, w)
                     | Some ls \<Rightarrow>
                        (if gr_rep g = GRAPH_ADJACENCY_LIST \<and> Option.is_none (ls ! nat vertex_id) then
                           (case create_list ARRAY_LIST 4 None w of
                              (l, w) \<Rightarrow> Some (g\<lparr>adj_lists := Some (ls[nat vertex_id := l])\<rparr>, w))
                         else Some (g, w)))))))"

section \<open>Edges in adjacency lists\<close>

definition ensure_adj_list ::
  "graph_impl \<Rightarrow> int \<Rightarrow> nat world \<Rightarrow> nat list_obj option \<times> graph_impl \<times> nat world" where
  "ensure_adj_list g vertex w =
     (case adj_lists g of
        None \<Rightarrow> (None, g, w)
      | Some ls \<Rightarrow>
         (case ls ! nat vertex of
            Some l \<Rightarrow> (Some l, g, w)
          | None \<Rightarrow>
             (case create_list ARRAY_LIST 4 None w of
                (l, w) \<Rightarrow> (l, g\<lparr>adj_lists := Some (ls[nat vertex := l])\<rparr>, w))))"

text \<open>The edge cell and its position; \<open>get\<close> on an array list changes nothing.\<close>

fun find_edge_loop :: "edge_store \<Rightarrow> nat list_obj \<Rightarrow> int \<Rightarrow> int \<Rightarrow> nat \<Rightarrow> nat ptr \<times> int" where
  "find_edge_loop edges adj to i 0 = (NULL, -1)"
| "find_edge_loop edges adj to i (Suc n) =
     (case fst (list_get adj i) of
        Some e \<Rightarrow>
          (if ge_to (edge_at edges e) = to then (Some e, i) else find_edge_loop edges adj to (i + 1) n)
      | NULL \<Rightarrow> find_edge_loop edges adj to (i + 1) n)"

definition find_edge :: "edge_store \<Rightarrow> nat list_obj option \<Rightarrow> int \<Rightarrow> nat ptr \<times> int" where
  "find_edge edges adj to =
     (case adj of None \<Rightarrow> (NULL, -1) | Some adj \<Rightarrow> find_edge_loop edges adj to 0 (nat (list_size adj)))"

definition add_one_edge :: "graph_impl \<Rightarrow> int \<Rightarrow> int \<Rightarrow> double \<Rightarrow> nat world \<Rightarrow> graph_impl \<times> nat world" where
  "add_one_edge g from to weight w =
     (case ensure_adj_list g from w of
        (None, g, w) \<Rightarrow> (g, w)
      | (Some adj, g, w) \<Rightarrow>
         (case fst (find_edge (gr_edges g) (Some adj) to) of
            Some existing \<Rightarrow>
              (g\<lparr>gr_edges := (gr_edges g)(existing \<mapsto> (edge_at (gr_edges g) existing)\<lparr>ge_weight := weight\<rparr>)\<rparr>, w)
          | NULL \<Rightarrow>
             (case malloc 16 w of
                (False, w) \<Rightarrow> (g, w)
              | (True, w) \<Rightarrow>
                 (case list_insert adj (Some (gr_brk g)) (list_size adj) w of
                    (_, adj, w) \<Rightarrow>
                      (g\<lparr>gr_edges := (gr_edges g)(gr_brk g \<mapsto> \<lparr>ge_to = to, ge_weight = weight\<rparr>),
                         gr_brk := gr_brk g + 1,
                         adj_lists := map_option (\<lambda>ls. ls[nat from := Some adj]) (adj_lists g)\<rparr>, w)))))"

definition remove_one_edge :: "graph_impl \<Rightarrow> int \<Rightarrow> int \<Rightarrow> graph_impl" where
  "remove_one_edge g from to =
     (case adj_lists g of
        None \<Rightarrow> g
      | Some ls \<Rightarrow>
         (case ls ! nat from of
            None \<Rightarrow> g
          | Some adj \<Rightarrow>
             (case find_edge (gr_edges g) (Some adj) to of
                (NULL, _) \<Rightarrow> g
              | (Some e, idx) \<Rightarrow>
                  (if idx < 0 then g
                   else g\<lparr>gr_edges := (gr_edges g)(e := None),
                          adj_lists := Some (ls[nat from := Some (snd (list_remove adj idx))])\<rparr>))))"

definition graph_adj_list_add_edge ::
  "graph_impl \<Rightarrow> int \<Rightarrow> int \<Rightarrow> double \<Rightarrow> nat world \<Rightarrow> graph_impl \<times> nat world" where
  "graph_adj_list_add_edge g from to weight w =
     (case add_one_edge g from to weight w of
        (g, w) \<Rightarrow>
          (if gr_type g = GRAPH_UNDIRECTED \<and> from \<noteq> to then add_one_edge g to from weight w else (g, w)))"

definition graph_adj_list_remove_edge :: "graph_impl \<Rightarrow> int \<Rightarrow> int \<Rightarrow> graph_impl" where
  "graph_adj_list_remove_edge g from to =
     (let g = remove_one_edge g from to in
      if gr_type g = GRAPH_UNDIRECTED \<and> from \<noteq> to then remove_one_edge g to from else g)"

definition graph_adj_list_has_edge :: "graph_impl \<Rightarrow> int \<Rightarrow> int \<Rightarrow> bool" where
  "graph_adj_list_has_edge g from to =
     (case adj_lists g of
        None \<Rightarrow> False
      | Some ls \<Rightarrow> \<not> Option.is_none (fst (find_edge (gr_edges g) (ls ! nat from) to)))"

definition graph_adj_list_get_edge_weight :: "graph_impl \<Rightarrow> int \<Rightarrow> int \<Rightarrow> double" where
  "graph_adj_list_get_edge_weight g from to =
     (case adj_lists g of
        None \<Rightarrow> GRAPH_NO_EDGE
      | Some ls \<Rightarrow>
         (case fst (find_edge (gr_edges g) (ls ! nat from) to) of
            Some e \<Rightarrow> ge_weight (edge_at (gr_edges g) e) | NULL \<Rightarrow> GRAPH_NO_EDGE))"

fun list_neighbors_loop ::
  "graph_impl \<Rightarrow> nat list_obj \<Rightarrow> int \<Rightarrow> nat \<Rightarrow> nat list_obj \<Rightarrow> nat world \<Rightarrow> nat list_obj \<times> nat world" where
  "list_neighbors_loop g adj i 0 neighbors w = (neighbors, w)"
| "list_neighbors_loop g adj i (Suc n) neighbors w =
     (case fst (list_get adj i) of
        NULL \<Rightarrow> list_neighbors_loop g adj (i + 1) n neighbors w
      | Some e \<Rightarrow>
         (let to = ge_to (edge_at (gr_edges g) e) in
          if to < 0 \<or> to \<ge> vertex_capacity g \<or> \<not> present g ! nat to
          then list_neighbors_loop g adj (i + 1) n neighbors w
          else (case list_insert neighbors (vertex_ptrs g ! nat to) (list_size neighbors) w of
                  (_, neighbors, w) \<Rightarrow> list_neighbors_loop g adj (i + 1) n neighbors w)))"

definition graph_adj_list_get_neighbors ::
  "graph_impl \<Rightarrow> int \<Rightarrow> nat world \<Rightarrow> nat list_obj option \<times> nat world" where
  "graph_adj_list_get_neighbors g vertex w =
     (case create_list ARRAY_LIST 4 None w of
        (None, w) \<Rightarrow> (None, w)
      | (Some neighbors, w) \<Rightarrow>
         (case adj_lists g of
            None \<Rightarrow> (Some neighbors, w)
          | Some ls \<Rightarrow>
             (if vertex < 0 \<or> vertex \<ge> vertex_capacity g then (Some neighbors, w)
              else (case ls ! nat vertex of
                      None \<Rightarrow> (Some neighbors, w)
                    | Some adj \<Rightarrow>
                        (case list_neighbors_loop g adj 0 (nat (list_size adj)) neighbors w of
                           (neighbors, w) \<Rightarrow> (Some neighbors, w))))))"

section \<open>Edges in an adjacency matrix\<close>

definition cell_index :: "graph_impl \<Rightarrow> int \<Rightarrow> int \<Rightarrow> nat" where
  "cell_index g from to = nat (wrap_int (from * vertex_capacity g + to))"

definition graph_adj_matrix_set :: "graph_impl \<Rightarrow> int \<Rightarrow> int \<Rightarrow> double \<Rightarrow> graph_impl" where
  "graph_adj_matrix_set g from to weight =
     (case adj_matrix g of
        None \<Rightarrow> g
      | Some m \<Rightarrow>
         (let m = m[cell_index g from to := weight] in
          g\<lparr>adj_matrix := Some (if gr_type g = GRAPH_UNDIRECTED \<and> from \<noteq> to then m[cell_index g to from := weight]
                                else m)\<rparr>))"

definition graph_adj_matrix_add_edge :: "graph_impl \<Rightarrow> int \<Rightarrow> int \<Rightarrow> double \<Rightarrow> graph_impl" where
  "graph_adj_matrix_add_edge g from to weight = graph_adj_matrix_set g from to weight"

definition graph_adj_matrix_remove_edge :: "graph_impl \<Rightarrow> int \<Rightarrow> int \<Rightarrow> graph_impl" where
  "graph_adj_matrix_remove_edge g from to = graph_adj_matrix_set g from to GRAPH_NO_EDGE"

definition graph_adj_matrix_get_edge_weight :: "graph_impl \<Rightarrow> int \<Rightarrow> int \<Rightarrow> double" where
  "graph_adj_matrix_get_edge_weight g from to =
     (case adj_matrix g of None \<Rightarrow> GRAPH_NO_EDGE | Some m \<Rightarrow> m ! cell_index g from to)"

definition graph_adj_matrix_has_edge :: "graph_impl \<Rightarrow> int \<Rightarrow> int \<Rightarrow> bool" where
  "graph_adj_matrix_has_edge g from to =
     (case adj_matrix g of None \<Rightarrow> False | Some m \<Rightarrow> m ! cell_index g from to \<noteq> GRAPH_NO_EDGE)"

fun matrix_neighbors_loop ::
  "graph_impl \<Rightarrow> double list \<Rightarrow> int \<Rightarrow> int \<Rightarrow> nat \<Rightarrow> nat list_obj \<Rightarrow> nat world \<Rightarrow> nat list_obj \<times> nat world" where
  "matrix_neighbors_loop g m vertex to 0 neighbors w = (neighbors, w)"
| "matrix_neighbors_loop g m vertex to (Suc n) neighbors w =
     (if \<not> present g ! nat to \<or> m ! cell_index g vertex to = GRAPH_NO_EDGE
      then matrix_neighbors_loop g m vertex (to + 1) n neighbors w
      else (case list_insert neighbors (vertex_ptrs g ! nat to) (list_size neighbors) w of
              (_, neighbors, w) \<Rightarrow> matrix_neighbors_loop g m vertex (to + 1) n neighbors w))"

definition graph_adj_matrix_get_neighbors ::
  "graph_impl \<Rightarrow> int \<Rightarrow> nat world \<Rightarrow> nat list_obj option \<times> nat world" where
  "graph_adj_matrix_get_neighbors g vertex w =
     (case create_list ARRAY_LIST 4 None w of
        (None, w) \<Rightarrow> (None, w)
      | (Some neighbors, w) \<Rightarrow>
         (case adj_matrix g of
            None \<Rightarrow> (Some neighbors, w)
          | Some m \<Rightarrow>
             (if vertex < 0 \<or> vertex \<ge> vertex_capacity g then (Some neighbors, w)
              else (case matrix_neighbors_loop g m vertex 0 (nat (vertex_capacity g)) neighbors w of
                      (neighbors, w) \<Rightarrow> (Some neighbors, w)))))"

section \<open>The graph object\<close>

definition graph_add_edge_impl ::
  "graph_impl \<Rightarrow> int \<Rightarrow> int \<Rightarrow> double \<Rightarrow> nat world \<Rightarrow> (graph_impl \<times> nat world) option" where
  "graph_add_edge_impl g from to weight w =
     (if \<not> is_valid_vertex_id from \<or> \<not> is_valid_vertex_id to then Some (g, w)
      else
       (case graph_add_vertex_impl g from w of
          None \<Rightarrow> None
        | Some (g, w) \<Rightarrow>
           (case graph_add_vertex_impl g to w of
              None \<Rightarrow> None
            | Some (g, w) \<Rightarrow>
               (if \<not> graph_has_vertex_impl (Some g) from \<or> \<not> graph_has_vertex_impl (Some g) to then Some (g, w)
                else if gr_rep g = GRAPH_ADJACENCY_LIST then Some (graph_adj_list_add_edge g from to weight w)
                else Some (graph_adj_matrix_add_edge g from to weight, w)))))"

definition graph_remove_edge_impl :: "graph_impl \<Rightarrow> int \<Rightarrow> int \<Rightarrow> graph_impl" where
  "graph_remove_edge_impl g from to =
     (if \<not> graph_has_vertex_impl (Some g) from \<or> \<not> graph_has_vertex_impl (Some g) to then g
      else if gr_rep g = GRAPH_ADJACENCY_LIST then graph_adj_list_remove_edge g from to
      else graph_adj_matrix_remove_edge g from to)"

definition graph_has_edge_impl :: "graph_impl \<Rightarrow> int \<Rightarrow> int \<Rightarrow> bool" where
  "graph_has_edge_impl g from to =
     (if \<not> graph_has_vertex_impl (Some g) from \<or> \<not> graph_has_vertex_impl (Some g) to then False
      else if gr_rep g = GRAPH_ADJACENCY_LIST then graph_adj_list_has_edge g from to
      else graph_adj_matrix_has_edge g from to)"

definition graph_get_edge_weight_impl :: "graph_impl \<Rightarrow> int \<Rightarrow> int \<Rightarrow> double" where
  "graph_get_edge_weight_impl g from to =
     (if \<not> graph_has_vertex_impl (Some g) from \<or> \<not> graph_has_vertex_impl (Some g) to then GRAPH_NO_EDGE
      else if gr_rep g = GRAPH_ADJACENCY_LIST then graph_adj_list_get_edge_weight g from to
      else graph_adj_matrix_get_edge_weight g from to)"

definition graph_get_neighbors_impl :: "graph_impl \<Rightarrow> int \<Rightarrow> nat world \<Rightarrow> nat list_obj option \<times> nat world" where
  "graph_get_neighbors_impl g vertex w =
     (if \<not> graph_has_vertex_impl (Some g) vertex then create_list ARRAY_LIST 4 None w
      else if gr_rep g = GRAPH_ADJACENCY_LIST then graph_adj_list_get_neighbors g vertex w
      else graph_adj_matrix_get_neighbors g vertex w)"

text \<open>The configuration is checked by its type here.\<close>

definition create_graph ::
  "graph_type \<Rightarrow> graph_representation \<Rightarrow> graph_traversal_strategy \<Rightarrow> graph_min_path_strategy \<Rightarrow> nat world \<Rightarrow>
     graph_impl option \<times> nat world" where
  "create_graph type rep traversal min_path w =
     (case malloc_struct w of
        (False, w) \<Rightarrow> (None, w)
      | (True, w) \<Rightarrow>
       (case malloc_struct w of
          (False, w) \<Rightarrow> (None, w)
        | (True, w) \<Rightarrow>
         (case graph_init_storage
             \<lparr>gr_type = type, gr_rep = rep, gr_traversal = traversal, gr_min_path = min_path, vertex_capacity = 0,
              vertex_count = 0, present = [], vertex_ptrs = [], adj_lists = None, adj_matrix = None,
              gr_edges = Map.empty, gr_brk = 0\<rparr> 8 w of
            (False, _, w) \<Rightarrow> (None, w)
          | (True, g, w) \<Rightarrow> (Some g, w))))"

section \<open>Invariant\<close>

definition list_pairs :: "edge_store \<Rightarrow> nat list_obj \<Rightarrow> (int \<times> double) list" where
  "list_pairs s l = map (\<lambda>p. (ge_to (edge_at s (the p)), ge_weight (edge_at s (the p)))) (list_items l)"

text \<open>The neighbours of a vertex with the weights, in the order the code visits them.\<close>

definition adj_pairs :: "graph_impl \<Rightarrow> int \<Rightarrow> (int \<times> double) list" where
  "adj_pairs g v =
     (if v < 0 \<or> v \<ge> vertex_capacity g then []
      else case gr_rep g of
        GRAPH_ADJACENCY_LIST \<Rightarrow>
          (case the (adj_lists g) ! nat v of None \<Rightarrow> [] | Some l \<Rightarrow> list_pairs (gr_edges g) l)
      | GRAPH_ADJACENCY_MATRIX \<Rightarrow>
          filter (\<lambda>(to, x). x \<noteq> GRAPH_NO_EDGE)
            (map (\<lambda>to. (to, the (adj_matrix g) ! cell_index g v to)) [0..vertex_capacity g - 1]))"

abbreviation has_vertex :: "graph_impl \<Rightarrow> int \<Rightarrow> bool" where
  "has_vertex g \<equiv> graph_has_vertex_impl (Some g)"

text \<open>Vertex ids the code can handle: the capacity doubles in \<open>int\<close>, and the index of a matrix cell
  is computed in \<open>int\<close>.\<close>

definition rep_limit :: "graph_representation \<Rightarrow> int" where
  "rep_limit rep = (if rep = GRAPH_ADJACENCY_LIST then 2 ^ 30 else 2 ^ 15)"

definition list_ok :: "edge_store \<Rightarrow> nat \<Rightarrow> nat list_obj \<Rightarrow> bool" where
  "list_ok s brk l \<longleftrightarrow> growable l \<and> distinct (list_items l) \<and>
     (\<forall>p\<in>set (list_items l). \<exists>a e. p = Some a \<and> a < brk \<and> s a = Some e) \<and> distinct (map fst (list_pairs s l))"

definition lists_ok :: "graph_impl \<Rightarrow> bool" where
  "lists_ok g \<longleftrightarrow> adj_matrix g = None \<and> (\<exists>ls. adj_lists g = Some ls \<and> length ls = nat (vertex_capacity g) \<and>
     (\<forall>i < length ls. case ls ! i of None \<Rightarrow> \<not> present g ! i | Some l \<Rightarrow> list_ok (gr_edges g) (gr_brk g) l) \<and>
     (\<forall>i j l l'. i < length ls \<longrightarrow> j < length ls \<longrightarrow> i \<noteq> j \<longrightarrow> ls ! i = Some l \<longrightarrow> ls ! j = Some l' \<longrightarrow>
        set (list_items l) \<inter> set (list_items l') = {}))"

definition matrix_ok :: "graph_impl \<Rightarrow> bool" where
  "matrix_ok g \<longleftrightarrow> adj_lists g = None \<and>
     (\<exists>m. adj_matrix g = Some m \<and> length m = nat (vertex_capacity g) * nat (vertex_capacity g))"

definition graph_base :: "graph_impl \<Rightarrow> bool" where
  "graph_base g \<longleftrightarrow> (\<exists>k. vertex_capacity g = 8 * 2 ^ k) \<and> vertex_capacity g \<le> rep_limit (gr_rep g) \<and>
     length (present g) = nat (vertex_capacity g) \<and> length (vertex_ptrs g) = nat (vertex_capacity g) \<and>
     (\<forall>i < length (present g). present g ! i \<longrightarrow> vertex_ptrs g ! i = id_cell (int i)) \<and>
     vertex_count g = int (card {v. has_vertex g v})"

definition graph_inv :: "graph_impl \<Rightarrow> bool" where
  "graph_inv g \<longleftrightarrow> graph_base g \<and>
     (if gr_rep g = GRAPH_ADJACENCY_LIST then lists_ok g else matrix_ok g) \<and>
     (\<forall>u v. v \<in> fst ` set (adj_pairs g u) \<longrightarrow> has_vertex g u \<and> has_vertex g v)"

lemma has_vertex_iff: "has_vertex g v \<longleftrightarrow> 0 \<le> v \<and> v < vertex_capacity g \<and> present g ! nat v"
  by (auto simp: graph_has_vertex_impl_def is_valid_vertex_id_def)

lemma graph_base_cap: "graph_base g \<Longrightarrow> 0 < vertex_capacity g \<and> vertex_capacity g \<le> 2 ^ 30"
proof -
  assume B: "graph_base g"
  then obtain k where "vertex_capacity g = 8 * 2 ^ k" by (auto simp: graph_base_def)
  then have "0 < vertex_capacity g" by simp
  moreover have "rep_limit (gr_rep g) \<le> 2 ^ 30" by (simp add: rep_limit_def)
  ultimately show ?thesis using B unfolding graph_base_def by simp
qed

section \<open>Association lists by position\<close>

lemma map_of_set_nth:
  "distinct (map fst ps) \<Longrightarrow> k < length ps \<Longrightarrow> fst (ps ! k) = x \<Longrightarrow> map_of (ps[k := (x, y)]) = (map_of ps)(x \<mapsto> y)"
proof (induction ps arbitrary: k)
  case (Cons p ps)
  show ?case
  proof (cases k)
    case (Suc j)
    then have "x \<in> fst ` set ps" using Cons.prems by auto
    then have "fst p \<noteq> x" using Cons.prems(1) by auto
    then show ?thesis using Cons Suc by (cases p) (auto simp: fun_eq_iff)
  qed (use Cons.prems in \<open>cases p; auto simp: fun_eq_iff\<close>)
qed simp

lemma map_of_snoc: "x \<notin> fst ` set ps \<Longrightarrow> map_of (ps @ [(x, y)]) = (map_of ps)(x \<mapsto> y)"
  by (induction ps) (auto simp: fun_eq_iff)

lemma map_of_remove_at:
  "distinct (map fst ps) \<Longrightarrow> k < length ps \<Longrightarrow> fst (ps ! k) = x \<Longrightarrow> map_of (remove_at k ps) = (map_of ps)(x := None)"
proof (induction ps arbitrary: k)
  case (Cons p ps)
  show ?case
  proof (cases k)
    case 0
    then have "map_of ps x = None" using Cons.prems by (auto simp: map_of_eq_None_iff)
    then show ?thesis using Cons.prems 0 by (cases p) (auto simp: fun_eq_iff)
  next
    case (Suc j)
    then have "x \<in> fst ` set ps" using Cons.prems by auto
    then have "fst p \<noteq> x" using Cons.prems(1) by auto
    moreover have "remove_at (Suc j) (p # ps) = p # remove_at j ps" by (simp add: remove_at_def)
    ultimately show ?thesis using Cons Suc by (cases p) (auto simp: fun_eq_iff)
  qed
qed simp

lemma map_remove_at: "map f (remove_at k xs) = remove_at k (map f xs)"
  by (simp add: remove_at_def take_map drop_map)

lemma set_remove_at_subset: "set (remove_at k xs) \<subseteq> set xs"
  using set_take_subset [of k xs] set_drop_subset [of "Suc k" xs] by (auto simp: remove_at_def)

lemma distinct_remove_at: "distinct xs \<Longrightarrow> distinct (remove_at k xs)"
proof -
  assume d: "distinct xs"
  then have "distinct (take k xs @ drop k xs)" by simp
  then have "distinct (take k xs)" "distinct (drop k xs)" "set (take k xs) \<inter> set (drop k xs) = {}"
    by (simp_all only: distinct_append)
  moreover have "set (drop (Suc k) xs) \<subseteq> set (drop k xs)" by (simp add: set_drop_subset_set_drop)
  ultimately show ?thesis using d by (auto simp: remove_at_def)
qed

lemma removed_not_in: "distinct xs \<Longrightarrow> k < length xs \<Longrightarrow> xs ! k \<notin> set (remove_at k xs)"
proof -
  assume d: "distinct xs" "k < length xs"
  then have "distinct (take k xs @ xs ! k # drop (Suc k) xs)" by (simp add: id_take_nth_drop [symmetric])
  then show ?thesis by (simp add: remove_at_def)
qed

section \<open>Edges in lists\<close>

lemma find_edge_loop_spec:
  "growable l \<Longrightarrow> i + n = length (list_items l) \<Longrightarrow> \<forall>p\<in>set (list_items l). p \<noteq> NULL \<Longrightarrow>
   find_edge_loop s l to (int i) n =
     (case filter (\<lambda>k. fst (list_pairs s l ! k) = to) [i..<length (list_items l)] of
        [] \<Rightarrow> (NULL, -1) | k # _ \<Rightarrow> (list_items l ! k, int k))"
proof (induction n arbitrary: i)
  case 0
  then show ?case by simp
next
  case (Suc n)
  then have i: "i < length (list_items l)" by simp
  then obtain e where e: "list_items l ! i = Some e" using Suc.prems(3) nth_mem by fastforce
  have get: "fst (list_get l (int i)) = Some e"
    using growable_get [OF Suc.prems(1), of "int i"] i e by simp
  have at: "fst (list_pairs s l ! i) = ge_to (edge_at s e)" using i e by (simp add: list_pairs_def)
  have IH: "find_edge_loop s l to (int i + 1) n =
     (case filter (\<lambda>k. fst (list_pairs s l ! k) = to) [Suc i..<length (list_items l)] of
        [] \<Rightarrow> (NULL, -1) | k # _ \<Rightarrow> (list_items l ! k, int k))"
    using Suc.IH [OF Suc.prems(1), of "Suc i"] Suc.prems by (simp add: add.commute)
  have up: "[i..<length (list_items l)] = i # [Suc i..<length (list_items l)]" using i by (rule upt_conv_Cons)
  show ?case using get at IH e unfolding up by (simp del: upt_Suc upt.simps)
qed

lemma find_edge_spec:
  assumes "list_ok s brk l"
  shows "(if to \<in> fst ` set (list_pairs s l)
      then \<exists>k a. k < length (list_items l) \<and> list_items l ! k = Some a \<and> fst (list_pairs s l ! k) = to \<and>
        find_edge s (Some l) to = (Some a, int k)
      else find_edge s (Some l) to = (NULL, -1))"
proof -
  let ?P = "\<lambda>k. fst (list_pairs s l ! k) = to"
  have len: "length (list_pairs s l) = length (list_items l)" by (simp add: list_pairs_def)
  have G: "growable l" "\<forall>p\<in>set (list_items l). p \<noteq> NULL" using assms unfolding list_ok_def by blast+
  have run: "find_edge s (Some l) to = (case filter ?P [0..<length (list_items l)] of
        [] \<Rightarrow> (NULL, -1) | k # _ \<Rightarrow> (list_items l ! k, int k))"
    using find_edge_loop_spec [of l 0 "length (list_items l)" s to] G growable_size [OF G(1)]
    by (simp add: find_edge_def)
  show ?thesis
  proof (cases "filter ?P [0..<length (list_items l)]")
    case Nil
    then have none: "k < length (list_items l) \<Longrightarrow> \<not> ?P k" for k by (simp add: filter_empty_conv)
    have "to \<notin> fst ` set (list_pairs s l)" using none by (force simp: in_set_conv_nth len)
    then show ?thesis using run Nil by simp
  next
    case (Cons k ks)
    then have k: "k < length (list_items l)" "?P k" by (auto simp: filter_eq_Cons_iff dest!: arg_cong [of _ _ set])
    then have "to \<in> fst ` set (list_pairs s l)" by (metis image_eqI len nth_mem)
    moreover obtain a where "list_items l ! k = Some a" using G(2) k(1) nth_mem by fastforce
    ultimately show ?thesis using run Cons k by auto
  qed
qed

lemma list_pairs_frame:
  "(\<And>a. Some a \<in> set (list_items l) \<Longrightarrow> s' a = s a) \<Longrightarrow> NULL \<notin> set (list_items l) \<Longrightarrow> list_pairs s' l = list_pairs s l"
  by (auto simp: list_pairs_def edge_at_def) (metis not_None_eq option.sel)+

lemma list_ok_frame:
  assumes "list_ok s brk l" "\<And>a. Some a \<in> set (list_items l) \<Longrightarrow> s' a = s a" "brk \<le> brk'"
  shows "list_ok s' brk' l \<and> list_pairs s' l = list_pairs s l"
proof -
  have "NULL \<notin> set (list_items l)" using assms(1) by (auto simp: list_ok_def)
  then have P: "list_pairs s' l = list_pairs s l" using assms(2) by (intro list_pairs_frame) simp_all
  have "\<exists>a e. p = Some a \<and> a < brk' \<and> s' a = Some e" if p: "p \<in> set (list_items l)" for p
  proof -
    from p obtain a e where "p = Some a" "a < brk" "s a = Some e" using assms(1) unfolding list_ok_def by blast
    then show ?thesis using p assms(2) [of a] assms(3) by (auto intro: less_le_trans)
  qed
  then show ?thesis using assms(1) P unfolding list_ok_def by simp
qed

text \<open>One list replaced, with the cells it owns.\<close>

lemma lists_replace:
  assumes ok: "lists_ok g" and ls: "adj_lists g = Some ls" and i: "i < length ls"
    and l': "list_ok s' brk' l'" and brk: "gr_brk g \<le> brk'"
    and old: "\<And>p. p \<in> set (list_items l') \<Longrightarrow> p = Some a0 \<and> gr_brk g \<le> a0 \<or> (\<exists>l. ls ! i = Some l \<and> p \<in> set (list_items l))"
    and frame: "\<And>a. a < gr_brk g \<Longrightarrow> \<not> (\<exists>l. ls ! i = Some l \<and> Some a \<in> set (list_items l)) \<Longrightarrow> s' a = gr_edges g a"
    and g': "g' = g\<lparr>gr_edges := s', gr_brk := brk', adj_lists := Some (ls[i := Some l'])\<rparr>"
  shows "lists_ok g' \<and>
    (\<forall>j < length ls. j \<noteq> i \<longrightarrow> (case ls ! j of None \<Rightarrow> True | Some l \<Rightarrow> list_pairs s' l = list_pairs (gr_edges g) l))"
proof -
  have len: "length ls = nat (vertex_capacity g)"
    and each: "\<And>j. j < length ls \<Longrightarrow> (case ls ! j of None \<Rightarrow> \<not> present g ! j | Some l \<Rightarrow> list_ok (gr_edges g) (gr_brk g) l)"
    and apart: "\<And>j k l l2. j < length ls \<Longrightarrow> k < length ls \<Longrightarrow> j \<noteq> k \<Longrightarrow> ls ! j = Some l \<Longrightarrow> ls ! k = Some l2 \<Longrightarrow>
      set (list_items l) \<inter> set (list_items l2) = {}"
    using ok ls unfolding lists_ok_def by auto
  have other: "list_ok s' brk' l \<and> list_pairs s' l = list_pairs (gr_edges g) l" if j: "j < length ls" "j \<noteq> i" "ls ! j = Some l" for j l
  proof (rule list_ok_frame [OF _ _ brk])
    show ok_l: "list_ok (gr_edges g) (gr_brk g) l" using each [OF j(1)] j(3) by simp
    fix a
    assume a: "Some a \<in> set (list_items l)"
    then have "a < gr_brk g" using ok_l unfolding list_ok_def by fastforce
    moreover have "\<not> (\<exists>l. ls ! i = Some l \<and> Some a \<in> set (list_items l))" using apart [OF j(1) i j(2,3)] a by blast
    ultimately show "s' a = gr_edges g a" by (rule frame)
  qed
  have apart': "set (list_items l') \<inter> set (list_items l) = {}" if j: "j < length ls" "j \<noteq> i" "ls ! j = Some l" for j l
  proof -
    have "list_ok (gr_edges g) (gr_brk g) l" using each [OF j(1)] j(3) by simp
    then have "p \<noteq> Some a0" if "p \<in> set (list_items l)" "gr_brk g \<le> a0" for p
      using that unfolding list_ok_def by fastforce
    then show ?thesis using old apart [OF j(1) i j(2,3)] by blast
  qed
  have "lists_ok g'"
    unfolding lists_ok_def g'
  proof (intro conjI exI [of _ "ls[i := Some l']"] allI impI)
    show "case ls[i := Some l'] ! j of
        None \<Rightarrow> \<not> present (g\<lparr>gr_edges := s', gr_brk := brk', adj_lists := Some (ls[i := Some l'])\<rparr>) ! j
      | Some l \<Rightarrow> list_ok (gr_edges (g\<lparr>gr_edges := s', gr_brk := brk', adj_lists := Some (ls[i := Some l'])\<rparr>))
          (gr_brk (g\<lparr>gr_edges := s', gr_brk := brk', adj_lists := Some (ls[i := Some l'])\<rparr>)) l"
      if "j < length (ls[i := Some l'])" for j
      using that other [of j] each [of j] l' i by (cases "j = i") (auto split: option.splits)
  next
    fix j k l l2
    assume jk: "j < length (ls[i := Some l'])" "k < length (ls[i := Some l'])" "j \<noteq> k"
      "ls[i := Some l'] ! j = Some l" "ls[i := Some l'] ! k = Some l2"
    then show "set (list_items l) \<inter> set (list_items l2) = {}"
      using apart' [of k l2] apart' [of j l] apart [of j k l l2] i by (cases "j = i"; cases "k = i") auto
  qed (use ok len in \<open>simp_all add: lists_ok_def\<close>)
  then show ?thesis using other by (auto split: option.splits)
qed

lemma adj_pairs_list:
  "gr_rep g = GRAPH_ADJACENCY_LIST \<Longrightarrow> adj_lists g = Some ls \<Longrightarrow> 0 \<le> v \<Longrightarrow> v < vertex_capacity g \<Longrightarrow>
     adj_pairs g v = (case ls ! nat v of None \<Rightarrow> [] | Some l \<Rightarrow> list_pairs (gr_edges g) l)"
  by (simp add: adj_pairs_def)

lemma adj_pairs_replace:
  assumes "lists_ok g" "adj_lists g = Some ls" "0 \<le> v" "v < vertex_capacity g"
    and "g' = g\<lparr>gr_edges := s', gr_brk := brk', adj_lists := Some (ls[nat v := Some l'])\<rparr>"
    and "gr_rep g = GRAPH_ADJACENCY_LIST"
    and frame: "\<forall>j < length ls. j \<noteq> nat v \<longrightarrow> (case ls ! j of None \<Rightarrow> True | Some l \<Rightarrow> list_pairs s' l = list_pairs (gr_edges g) l)"
  shows "adj_pairs g' u = (if u = v then list_pairs s' l' else adj_pairs g u)"
proof -
  have len: "length ls = nat (vertex_capacity g)" using assms(1,2) by (simp add: lists_ok_def)
  consider "u < 0 \<or> u \<ge> vertex_capacity g" | "u = v" | "0 \<le> u" "u < vertex_capacity g" "u \<noteq> v" by linarith
  then show ?thesis
  proof cases
    case 1
    then show ?thesis using assms(3-5) by (auto simp: adj_pairs_def)
  next
    case 2
    then show ?thesis using assms(3-6) len by (simp add: adj_pairs_def)
  next
    case 3
    then have "nat u \<noteq> nat v" "nat u < length ls" using assms(3) len by auto
    then show ?thesis using 3 assms(2,5,6) frame [rule_format, of "nat u"] by (simp add: adj_pairs_def split: option.splits)
  qed
qed

text \<open>An operation on edges leaves everything else as it is.\<close>

definition same_vertices :: "graph_impl \<Rightarrow> graph_impl \<Rightarrow> bool" where
  "same_vertices g g' \<longleftrightarrow>
     g' = g\<lparr>adj_lists := adj_lists g', adj_matrix := adj_matrix g', gr_edges := gr_edges g', gr_brk := gr_brk g'\<rparr>"

lemma same_vertices_simps:
  assumes "same_vertices g g'"
  shows "gr_type g' = gr_type g" "gr_rep g' = gr_rep g" "vertex_capacity g' = vertex_capacity g"
    "vertex_count g' = vertex_count g" "present g' = present g" "vertex_ptrs g' = vertex_ptrs g"
    "has_vertex g' v = has_vertex g v" "graph_base g' = graph_base g" "gr_traversal g' = gr_traversal g"
    "gr_min_path g' = gr_min_path g"
proof -
  show 1: "gr_type g' = gr_type g" "gr_rep g' = gr_rep g" "vertex_capacity g' = vertex_capacity g"
    "vertex_count g' = vertex_count g" "present g' = present g" "vertex_ptrs g' = vertex_ptrs g"
    "gr_traversal g' = gr_traversal g" "gr_min_path g' = gr_min_path g"
    by (subst assms [unfolded same_vertices_def], simp)+
  show 2: "has_vertex g' v = has_vertex g v" for v using 1 by (simp add: has_vertex_iff)
  show "graph_base g' = graph_base g" using 1 2 by (simp add: graph_base_def)
qed

lemma same_vertices_trans: "same_vertices g g1 \<Longrightarrow> same_vertices g1 g2 \<Longrightarrow> same_vertices g g2"
  by (cases g; cases g1; cases g2) (simp add: same_vertices_def)

lemma same_vertices_refl: "same_vertices g g"
  by (simp add: same_vertices_def)

lemma present_list:
  assumes "lists_ok g" "0 \<le> v" "v < vertex_capacity g" "present g ! nat v"
  shows "\<exists>ls l. adj_lists g = Some ls \<and> nat v < length ls \<and> length ls = nat (vertex_capacity g) \<and> ls ! nat v = Some l \<and>
    list_ok (gr_edges g) (gr_brk g) l"
proof -
  obtain ls where ls: "adj_lists g = Some ls" "length ls = nat (vertex_capacity g)"
    "\<And>i. i < length ls \<Longrightarrow> case ls ! i of None \<Rightarrow> \<not> present g ! i | Some l \<Rightarrow> list_ok (gr_edges g) (gr_brk g) l"
    using assms(1) unfolding lists_ok_def by blast
  moreover have "nat v < length ls" using assms ls(2) by simp
  ultimately show ?thesis using assms(4) ls(3) [of "nat v"] by (cases "ls ! nat v") auto
qed

lemma list_ok_addr:
  "list_ok s brk l \<Longrightarrow> k < length (list_items l) \<Longrightarrow> list_items l ! k = Some a \<Longrightarrow> a < brk \<and> s a \<noteq> None"
  unfolding list_ok_def by (metis nth_mem option.distinct(1) option.inject)

lemma list_pairs_set_weight:
  assumes "list_ok s brk l" "k < length (list_items l)" "list_items l ! k = Some a"
    "s' = s(a \<mapsto> (edge_at s a)\<lparr>ge_weight := x\<rparr>)"
  shows "list_pairs s' l = (list_pairs s l)[k := (fst (list_pairs s l ! k), x)]"
proof (rule nth_equalityI)
  show "length (list_pairs s' l) = length ((list_pairs s l)[k := (fst (list_pairs s l ! k), x)])"
    by (simp add: list_pairs_def)
  fix j
  assume "j < length (list_pairs s' l)"
  then have j: "j < length (list_items l)" by (simp add: list_pairs_def)
  have all: "\<forall>p\<in>set (list_items l). p \<noteq> NULL" using assms(1) unfolding list_ok_def by blast
  then obtain b where b: "list_items l ! j = Some b" using j nth_mem by fastforce
  have "distinct (list_items l)" using assms(1) by (simp add: list_ok_def)
  then have "b = a \<longleftrightarrow> j = k" using b assms(2,3) j by (metis nth_eq_iff_index_eq option.inject)
  then show "list_pairs s' l ! j = (list_pairs s l)[k := (fst (list_pairs s l ! k), x)] ! j"
    using j b assms(2-4) by (auto simp: list_pairs_def edge_at_def nth_list_update)
qed

lemma add_one_edge_spec:
  assumes ok: "lists_ok g" "gr_rep g = GRAPH_ADJACENCY_LIST" and v: "0 \<le> from" "from < vertex_capacity g" "present g ! nat from"
    and w: "alloc_fails w = []" and len: "length (adj_pairs g from) < INT_MAX"
  shows "\<exists>g' w'. add_one_edge g from to x w = (g', w') \<and> alloc_fails w' = [] \<and> lists_ok g' \<and> same_vertices g g' \<and>
    map_of (adj_pairs g' from) = (map_of (adj_pairs g from))(to \<mapsto> x) \<and> (\<forall>u. u \<noteq> from \<longrightarrow> adj_pairs g' u = adj_pairs g u)"
proof -
  obtain ls l where L: "adj_lists g = Some ls" "nat from < length ls" "length ls = nat (vertex_capacity g)"
    "ls ! nat from = Some l" "list_ok (gr_edges g) (gr_brk g) l"
    using present_list [OF ok(1) v] by blast
  have pairs: "adj_pairs g from = list_pairs (gr_edges g) l" using adj_pairs_list [OF ok(2) L(1) v(1,2)] L(4) by simp
  have ens: "ensure_adj_list g from w = (Some l, g, w)" using L by (simp add: ensure_adj_list_def)
  have dist: "distinct (map fst (list_pairs (gr_edges g) l))" and grow: "growable l" and dl: "distinct (list_items l)"
    using L(5) by (simp_all add: list_ok_def)
  have same: "ls[nat from := Some l] = ls" using L(4) by (metis list_update_id)
  show ?thesis
  proof (cases "to \<in> fst ` set (list_pairs (gr_edges g) l)")
    case True
    then obtain k a where F: "k < length (list_items l)" "list_items l ! k = Some a" "fst (list_pairs (gr_edges g) l ! k) = to"
      "find_edge (gr_edges g) (Some l) to = (Some a, int k)"
      using find_edge_spec [OF L(5), of to] by auto
    define s' where "s' = (gr_edges g)(a \<mapsto> (edge_at (gr_edges g) a)\<lparr>ge_weight := x\<rparr>)"
    define g' where "g' = g\<lparr>gr_edges := s', gr_brk := gr_brk g, adj_lists := Some (ls[nat from := Some l])\<rparr>"
    have run: "add_one_edge g from to x w = (g', w)"
      using ens F(4) L(1) same by (simp add: add_one_edge_def g'_def s'_def)
    have P: "list_pairs s' l = (list_pairs (gr_edges g) l)[k := (to, x)]"
      using list_pairs_set_weight [OF L(5) F(1,2) s'_def] F(3) by simp
    have "map fst (list_pairs (gr_edges g) l) ! k = to" using F(1,3) by (simp add: list_pairs_def)
    then have keys: "map fst (list_pairs s' l) = map fst (list_pairs (gr_edges g) l)"
      unfolding P map_update fst_conv by (metis list_update_id)
    have "\<exists>b e. p = Some b \<and> b < gr_brk g \<and> s' b = Some e" if p: "p \<in> set (list_items l)" for p
    proof -
      obtain b e where "p = Some b" "b < gr_brk g" "gr_edges g b = Some e" using p L(5) unfolding list_ok_def by blast
      then show ?thesis by (cases "b = a") (simp_all add: s'_def)
    qed
    then have ok_l: "list_ok s' (gr_brk g) l" using grow dl dist unfolding list_ok_def keys by blast
    have R: "lists_ok g' \<and> (\<forall>j < length ls. j \<noteq> nat from \<longrightarrow>
        (case ls ! j of None \<Rightarrow> True | Some l \<Rightarrow> list_pairs s' l = list_pairs (gr_edges g) l))"
      by (rule lists_replace [OF ok(1) L(1,2) ok_l order_refl _ _ g'_def, of 0])
        (use F(1,2) L(4) in \<open>auto simp: s'_def dest: nth_mem\<close>)
    have "adj_pairs g' u = (if u = from then list_pairs s' l else adj_pairs g u)" for u
      by (rule adj_pairs_replace [OF ok(1) L(1) v(1,2) g'_def ok(2) conjunct2 [OF R]])
    moreover have "map_of (list_pairs s' l) = (map_of (adj_pairs g from))(to \<mapsto> x)"
      unfolding P pairs using dist F(1,3) by (intro map_of_set_nth) (simp_all add: list_pairs_def)
    moreover have "same_vertices g g'" using same L(1) by (simp add: g'_def same_vertices_def)
    ultimately show ?thesis using run w R by (intro exI [of _ g'] exI [of _ w]) simp
  next
    case False
    then have F: "find_edge (gr_edges g) (Some l) to = (NULL, -1)" using find_edge_spec [OF L(5), of to] by simp
    have "length (list_items l) < INT_MAX" using len unfolding pairs by (simp add: list_pairs_def)
    from growable_insert [OF grow w this, of "Some (gr_brk g)"] obtain l' w' where I:
      "list_insert l (Some (gr_brk g)) (list_size l) w = (OVA_SUCCESS, l', w')" "growable l'"
      "list_items l' = list_items l @ [Some (gr_brk g)]" "alloc_fails w' = []" by blast
    define s' where "s' = (gr_edges g)(gr_brk g \<mapsto> \<lparr>ge_to = to, ge_weight = x\<rparr>)"
    define g' where "g' = g\<lparr>gr_edges := s', gr_brk := gr_brk g + 1, adj_lists := Some (ls[nat from := Some l'])\<rparr>"
    have run: "add_one_edge g from to x w = (g', w')"
      using ens F I(1) L(1) malloc_no_failures [OF w, of 16] by (simp add: add_one_edge_def g'_def s'_def PTRDIFF_MAX_def)
    have fresh: "a \<noteq> gr_brk g" if "Some a \<in> set (list_items l)" for a
      using that L(5) unfolding list_ok_def by fastforce
    have "NULL \<notin> set (list_items l)" using L(5) by (auto simp: list_ok_def)
    then have "list_pairs s' l = list_pairs (gr_edges g) l"
      by (intro list_pairs_frame) (use fresh in \<open>auto simp: s'_def\<close>)
    then have P: "list_pairs s' l' = list_pairs (gr_edges g) l @ [(to, x)]"
      using I(3) by (simp add: list_pairs_def s'_def edge_at_def)
    have "\<exists>a e. p = Some a \<and> a < gr_brk g + 1 \<and> s' a = Some e" if "p \<in> set (list_items l')" for p
    proof (cases "p = Some (gr_brk g)")
      case False
      then have "p \<in> set (list_items l)" using that I(3) by simp
      then obtain a e where "p = Some a" "a < gr_brk g" "gr_edges g a = Some e" using L(5) unfolding list_ok_def by blast
      then show ?thesis by (simp add: s'_def)
    qed (simp add: s'_def)
    then have ok_l: "list_ok s' (gr_brk g + 1) l'"
      using L(5) I(2,3) P False fresh unfolding list_ok_def by auto
    have R: "lists_ok g' \<and> (\<forall>j < length ls. j \<noteq> nat from \<longrightarrow>
        (case ls ! j of None \<Rightarrow> True | Some l \<Rightarrow> list_pairs s' l = list_pairs (gr_edges g) l))"
      by (rule lists_replace [OF ok(1) L(1,2) ok_l _ _ _ g'_def, of "gr_brk g"])
        (use I(3) L(4) in \<open>auto simp: s'_def\<close>)
    have "adj_pairs g' u = (if u = from then list_pairs s' l' else adj_pairs g u)" for u
      by (rule adj_pairs_replace [OF ok(1) L(1) v(1,2) g'_def ok(2) conjunct2 [OF R]])
    moreover have "map_of (list_pairs s' l') = (map_of (adj_pairs g from))(to \<mapsto> x)"
      unfolding P pairs by (rule map_of_snoc [OF False])
    moreover have "same_vertices g g'" by (simp add: g'_def same_vertices_def)
    ultimately show ?thesis using run R I(4) by (intro exI [of _ g'] exI [of _ w']) simp
  qed
qed

lemma remove_one_edge_spec:
  assumes ok: "lists_ok g" "gr_rep g = GRAPH_ADJACENCY_LIST" and v: "0 \<le> from" "from < vertex_capacity g" "present g ! nat from"
  shows "\<exists>g'. remove_one_edge g from to = g' \<and> lists_ok g' \<and> same_vertices g g' \<and>
    map_of (adj_pairs g' from) = (map_of (adj_pairs g from))(to := None) \<and> (\<forall>u. u \<noteq> from \<longrightarrow> adj_pairs g' u = adj_pairs g u)"
proof -
  obtain ls l where L: "adj_lists g = Some ls" "nat from < length ls" "length ls = nat (vertex_capacity g)"
    "ls ! nat from = Some l" "list_ok (gr_edges g) (gr_brk g) l"
    using present_list [OF ok(1) v] by blast
  have pairs: "adj_pairs g from = list_pairs (gr_edges g) l" using adj_pairs_list [OF ok(2) L(1) v(1,2)] L(4) by simp
  have dist: "distinct (map fst (list_pairs (gr_edges g) l))" and grow: "growable l" and dl: "distinct (list_items l)"
    using L(5) by (simp_all add: list_ok_def)
  show ?thesis
  proof (cases "to \<in> fst ` set (list_pairs (gr_edges g) l)")
    case False
    then have "find_edge (gr_edges g) (Some l) to = (NULL, -1)" using find_edge_spec [OF L(5), of to] by simp
    then have "remove_one_edge g from to = g" using L by (simp add: remove_one_edge_def)
    moreover have "map_of (adj_pairs g from) to = None" unfolding pairs using False by (simp add: map_of_eq_None_iff)
    ultimately show ?thesis using ok(1) same_vertices_refl by (intro exI [of _ g]) (simp add: fun_eq_iff)
  next
    case True
    then obtain k a where F: "k < length (list_items l)" "list_items l ! k = Some a" "fst (list_pairs (gr_edges g) l ! k) = to"
      "find_edge (gr_edges g) (Some l) to = (Some a, int k)"
      using find_edge_spec [OF L(5), of to] by auto
    obtain l' where D: "list_remove l (int k) = (OVA_SUCCESS, l')" "growable l'" "list_items l' = remove_at k (list_items l)"
      using growable_remove [OF grow F(1)] by blast
    define s' where "s' = (gr_edges g)(a := None)"
    define g' where "g' = g\<lparr>gr_edges := s', gr_brk := gr_brk g, adj_lists := Some (ls[nat from := Some l'])\<rparr>"
    have run: "remove_one_edge g from to = g'" using L F(4) D(1) by (simp add: remove_one_edge_def g'_def s'_def)
    have gone: "Some a \<notin> set (list_items l')" unfolding D(3) using removed_not_in [OF dl F(1)] F(2) by simp
    have sub: "set (list_items l') \<subseteq> set (list_items l)" unfolding D(3) by (rule set_remove_at_subset)
    have "NULL \<notin> set (list_items l')" using L(5) sub by (auto simp: list_ok_def)
    then have "list_pairs s' l' = list_pairs (gr_edges g) l'"
      by (intro list_pairs_frame) (use gone in \<open>auto simp: s'_def\<close>)
    then have P: "list_pairs s' l' = remove_at k (list_pairs (gr_edges g) l)"
      unfolding list_pairs_def D(3) map_remove_at .
    have "\<exists>b e. p = Some b \<and> b < gr_brk g \<and> s' b = Some e" if p: "p \<in> set (list_items l')" for p
    proof -
      from p sub have "p \<in> set (list_items l)" by blast
      then obtain b e where "p = Some b" "b < gr_brk g" "gr_edges g b = Some e" using L(5) unfolding list_ok_def by blast
      then show ?thesis using p gone by (auto simp: s'_def)
    qed
    then have ok_l: "list_ok s' (gr_brk g) l'"
      using D(2) distinct_remove_at [OF dl] distinct_remove_at [OF dist] unfolding list_ok_def P D(3) map_remove_at by blast
    have R: "lists_ok g' \<and> (\<forall>j < length ls. j \<noteq> nat from \<longrightarrow>
        (case ls ! j of None \<Rightarrow> True | Some l \<Rightarrow> list_pairs s' l = list_pairs (gr_edges g) l))"
      by (rule lists_replace [OF ok(1) L(1,2) ok_l order_refl _ _ g'_def, of 0])
        (use F(1,2) L(4) sub in \<open>auto simp: s'_def dest: nth_mem\<close>)
    have "adj_pairs g' u = (if u = from then list_pairs s' l' else adj_pairs g u)" for u
      by (rule adj_pairs_replace [OF ok(1) L(1) v(1,2) g'_def ok(2) conjunct2 [OF R]])
    moreover have "map_of (list_pairs s' l') = (map_of (adj_pairs g from))(to := None)"
      unfolding P pairs using dist F(1,3) by (intro map_of_remove_at) (simp_all add: list_pairs_def)
    moreover have "same_vertices g g'" by (simp add: g'_def same_vertices_def)
    ultimately show ?thesis using run R by (intro exI [of _ g']) simp
  qed
qed

section \<open>Cells of the matrix\<close>

abbreviation graph_cell :: "graph_impl \<Rightarrow> int \<Rightarrow> int \<Rightarrow> double" where
  "graph_cell g u v \<equiv> the (adj_matrix g) ! cell_index g u v"

abbreviation in_range :: "graph_impl \<Rightarrow> int \<Rightarrow> bool" where
  "in_range g v \<equiv> 0 \<le> v \<and> v < vertex_capacity g"

lemma cell_index_inside:
  assumes "vertex_capacity g \<le> 2 ^ 15" "in_range g u" "in_range g v"
  shows "cell_index g u v = nat u * nat (vertex_capacity g) + nat v \<and>
    cell_index g u v < nat (vertex_capacity g) * nat (vertex_capacity g)"
proof -
  let ?c = "vertex_capacity g"
  have "u * ?c + v < ?c * ?c"
  proof -
    have "u * ?c \<le> (?c - 1) * ?c" using assms by (intro mult_right_mono) auto
    then show ?thesis using assms(3) by (simp add: left_diff_distrib)
  qed
  moreover have "?c * ?c \<le> 2 ^ 15 * 2 ^ 15" using assms by (intro mult_mono) auto
  moreover have "0 \<le> u * ?c + v" using assms by (intro add_nonneg_nonneg mult_nonneg_nonneg) auto
  moreover have "is_int x" if "0 \<le> x" "x < ?c * ?c" "?c * ?c \<le> 2 ^ 15 * 2 ^ 15" for x
    using that by (simp add: is_int_def)
  ultimately have "is_int (u * ?c + v)" "u * ?c + v < ?c * ?c" "0 \<le> u * ?c + v" by blast+
  then have "cell_index g u v = nat (u * ?c + v)" "nat (u * ?c + v) < nat (?c * ?c)"
    by (simp_all add: cell_index_def wrap_int_id)
  then show ?thesis using assms by (simp add: nat_add_distrib nat_mult_distrib)
qed

lemma cell_index_inj:
  assumes "vertex_capacity g \<le> 2 ^ 15" "in_range g u" "in_range g v" "in_range g a" "in_range g b"
  shows "cell_index g u v = cell_index g a b \<longleftrightarrow> u = a \<and> v = b"
proof
  let ?c = "nat (vertex_capacity g)"
  assume "cell_index g u v = cell_index g a b"
  then have e: "nat u * ?c + nat v = nat a * ?c + nat b" using cell_index_inside [OF assms(1)] assms by metis
  have l: "nat v < ?c" "nat b < ?c" using assms by auto
  have "(nat u * ?c + nat v) div ?c = nat u" "(nat a * ?c + nat b) div ?c = nat a"
    "(nat u * ?c + nat v) mod ?c = nat v" "(nat a * ?c + nat b) mod ?c = nat b" using l by simp_all
  then have "nat u = nat a" "nat v = nat b" using e by metis+
  then show "u = a \<and> v = b" using assms by auto
qed simp

lemma matrix_cap: "graph_base g \<Longrightarrow> gr_rep g = GRAPH_ADJACENCY_MATRIX \<Longrightarrow> vertex_capacity g \<le> 2 ^ 15"
  by (simp add: graph_base_def rep_limit_def)

lemma adj_pairs_matrix:
  "gr_rep g = GRAPH_ADJACENCY_MATRIX \<Longrightarrow> in_range g u \<Longrightarrow>
     map_of (adj_pairs g u) v = (if in_range g v \<and> graph_cell g u v \<noteq> GRAPH_NO_EDGE then Some (graph_cell g u v) else None)"
proof -
  assume A: "gr_rep g = GRAPH_ADJACENCY_MATRIX" "in_range g u"
  have "map_of (filter (\<lambda>(to, x). x \<noteq> GRAPH_NO_EDGE) (map (\<lambda>to. (to, f to)) vs)) v =
      (if v \<in> set vs \<and> f v \<noteq> GRAPH_NO_EDGE then Some (f v) else None)" for f :: "int \<Rightarrow> double" and vs
    by (induction vs) auto
  then show ?thesis using A by (auto simp: adj_pairs_def)
qed

lemma adj_pairs_distinct: "graph_inv g \<Longrightarrow> distinct (map fst (adj_pairs g u))"
proof -
  assume g: "graph_inv g"
  show ?thesis
  proof (cases "gr_rep g")
    case GRAPH_ADJACENCY_LIST
    then have "lists_ok g" using g by (simp add: graph_inv_def)
    then obtain ls where ls: "adj_lists g = Some ls" "length ls = nat (vertex_capacity g)"
      "\<And>i. i < length ls \<Longrightarrow> case ls ! i of None \<Rightarrow> \<not> present g ! i | Some l \<Rightarrow> list_ok (gr_edges g) (gr_brk g) l"
      unfolding lists_ok_def by blast
    show ?thesis
    proof (cases "in_range g u")
      case True
      then have "nat u < length ls" using ls(2) by simp
      then show ?thesis
        using adj_pairs_list [OF GRAPH_ADJACENCY_LIST ls(1)] True ls(3) [of "nat u"] by (auto simp: list_ok_def split: option.splits)
    qed (auto simp: adj_pairs_def)
  next
    case GRAPH_ADJACENCY_MATRIX
    have "distinct (map fst (filter (\<lambda>(to, x). x \<noteq> GRAPH_NO_EDGE) (map (\<lambda>to. (to, f to)) [0..c])))"
      for f :: "int \<Rightarrow> double" and c
      by (intro distinct_map_filter) (simp add: comp_def)
    then show ?thesis using GRAPH_ADJACENCY_MATRIX by (simp add: adj_pairs_def)
  qed
qed

section \<open>Edges as a map\<close>

definition edge_map :: "graph_impl \<Rightarrow> int \<times> int \<Rightarrow> double option" where
  "edge_map g = (\<lambda>(u, v). map_of (adj_pairs g u) v)"

definition both_ways :: "graph_type \<Rightarrow> int \<Rightarrow> int \<Rightarrow> double option \<Rightarrow> (int \<times> int \<Rightarrow> double option) \<Rightarrow> int \<times> int \<Rightarrow> double option" where
  "both_ways type u v x m = (if type = GRAPH_UNDIRECTED \<and> u \<noteq> v then m((u, v) := x, (v, u) := x) else m((u, v) := x))"

lemma adj_pairs_cong:
  "vertex_capacity g' = vertex_capacity g \<Longrightarrow> gr_rep g' = gr_rep g \<Longrightarrow> adj_lists g' = adj_lists g \<Longrightarrow>
     adj_matrix g' = adj_matrix g \<Longrightarrow> gr_edges g' = gr_edges g \<Longrightarrow> adj_pairs g' u = adj_pairs g u"
  by (cases "gr_rep g") (auto simp: adj_pairs_def cell_index_def split: option.splits)

lemma edge_map_cong:
  "vertex_capacity g' = vertex_capacity g \<Longrightarrow> gr_rep g' = gr_rep g \<Longrightarrow> adj_lists g' = adj_lists g \<Longrightarrow>
     adj_matrix g' = adj_matrix g \<Longrightarrow> gr_edges g' = gr_edges g \<Longrightarrow> edge_map g' = edge_map g"
  by (simp add: edge_map_def adj_pairs_cong [of g' g])

lemma graph_inv_edges:
  "graph_inv g \<Longrightarrow> edge_map g (u, v) = Some x \<Longrightarrow> has_vertex g u \<and> has_vertex g v"
  unfolding graph_inv_def edge_map_def by (metis domI dom_map_of_conv_image_fst prod.case)

lemma graph_invI:
  assumes "graph_base g" "if gr_rep g = GRAPH_ADJACENCY_LIST then lists_ok g else matrix_ok g"
    "\<And>u v x. edge_map g (u, v) = Some x \<Longrightarrow> has_vertex g u \<and> has_vertex g v"
  shows "graph_inv g"
proof -
  have "has_vertex g u \<and> has_vertex g v" if "v \<in> fst ` set (adj_pairs g u)" for u v
  proof -
    from that have "map_of (adj_pairs g u) v \<noteq> None" by (simp add: map_of_eq_None_iff)
    then show ?thesis using assms(3) [of u v] by (auto simp: edge_map_def)
  qed
  then show ?thesis using assms(1,2) by (simp add: graph_inv_def)
qed

lemma matrix_set_spec:
  assumes g: "graph_inv g" "gr_rep g = GRAPH_ADJACENCY_MATRIX" and v: "has_vertex g from" "has_vertex g to"
  shows "\<exists>g'. graph_adj_matrix_set g from to x = g' \<and> graph_inv g' \<and> same_vertices g g' \<and>
    edge_map g' = both_ways (gr_type g) from to (if x = GRAPH_NO_EDGE then None else Some x) (edge_map g)"
proof -
  have B: "graph_base g" "matrix_ok g" using g by (simp_all add: graph_inv_def)
  note cap = matrix_cap [OF B(1) g(2)]
  obtain m where m: "adj_matrix g = Some m" "length m = nat (vertex_capacity g) * nat (vertex_capacity g)" "adj_lists g = None"
    using B(2) by (auto simp: matrix_ok_def)
  have R: "in_range g from" "in_range g to" using v by (simp_all add: has_vertex_iff)
  let ?two = "gr_type g = GRAPH_UNDIRECTED \<and> from \<noteq> to"
  define m' where "m' = (if ?two then m[cell_index g from to := x, cell_index g to from := x] else m[cell_index g from to := x])"
  define g' where "g' = g\<lparr>adj_matrix := Some m'\<rparr>"
  have run: "graph_adj_matrix_set g from to x = g'" by (simp add: graph_adj_matrix_set_def m(1) g'_def m'_def Let_def)
  have same: "same_vertices g g'" by (simp add: g'_def same_vertices_def)
  have idx: "cell_index g' = cell_index g" by (simp add: g'_def cell_index_def fun_eq_iff)
  have cell: "graph_cell g' a b = (if (a, b) = (from, to) \<or> ?two \<and> (a, b) = (to, from) then x else graph_cell g a b)"
    if ab: "in_range g a" "in_range g b" for a b
  proof -
    have "cell_index g a b < length m" unfolding m(2) using cell_index_inside [OF cap ab] by blast
    then have "m' ! cell_index g a b = (if (a, b) = (from, to) \<or> ?two \<and> (a, b) = (to, from) then x else m ! cell_index g a b)"
      using cell_index_inj [OF cap ab R] cell_index_inj [OF cap ab R(2,1)] by (auto simp: m'_def nth_list_update)
    then show ?thesis unfolding idx by (simp add: g'_def m(1))
  qed
  have em: "edge_map g' (a, b) = both_ways (gr_type g) from to (if x = GRAPH_NO_EDGE then None else Some x) (edge_map g) (a, b)" for a b
  proof -
    have upd: "both_ways (gr_type g) from to y (edge_map g) (a, b) =
        (if (a, b) = (from, to) \<or> ?two \<and> (a, b) = (to, from) then y else edge_map g (a, b))" for y
      by (auto simp: both_ways_def)
    show ?thesis
    proof (cases "in_range g a")
      case True
      have "in_range g' a" "gr_rep g' = GRAPH_ADJACENCY_MATRIX" "in_range g' b = in_range g b" using True g(2) by (simp_all add: g'_def)
      then have new: "edge_map g' (a, b) = (if in_range g b \<and> graph_cell g' a b \<noteq> GRAPH_NO_EDGE then Some (graph_cell g' a b) else None)"
        using adj_pairs_matrix [of g' a b] by (simp only: edge_map_def prod.case)
      have old: "edge_map g (a, b) = (if in_range g b \<and> graph_cell g a b \<noteq> GRAPH_NO_EDGE then Some (graph_cell g a b) else None)"
        using adj_pairs_matrix [OF g(2) True, of b] by (simp only: edge_map_def prod.case)
      show ?thesis
      proof (cases "in_range g b")
        case in_b: True
        show ?thesis unfolding upd new old cell [OF True in_b] using in_b by simp
      next
        case False
        then have "(a, b) \<noteq> (from, to)" "(a, b) \<noteq> (to, from)" using R by auto
        then show ?thesis unfolding upd new old using False by (simp only: simp_thms if_False)
      qed
    next
      case False
      then have "adj_pairs g' a = []" "adj_pairs g a = []" "(a, b) \<noteq> (from, to)" "(a, b) \<noteq> (to, from)"
        using R by (auto simp: adj_pairs_def g'_def)
      then show ?thesis unfolding upd by (simp only: edge_map_def prod.case simp_thms if_False)
    qed
  qed
  have "matrix_ok g'" using m by (simp add: matrix_ok_def g'_def m'_def)
  then have "graph_inv g'"
    using B(1) g(2) v graph_inv_edges [OF g(1)]
    by (intro graph_invI)
      (simp_all only: same_vertices_simps [OF same] em both_ways_def graph_representation.distinct if_False,
        auto split: if_splits)
  then show ?thesis using run same em by (intro exI [of _ g']) (simp add: fun_eq_iff)
qed

lemma adj_pairs_short:
  assumes "graph_inv g"
  shows "length (adj_pairs g u) \<le> nat (vertex_capacity g) \<and> length (adj_pairs g u) < INT_MAX"
proof -
  have B: "graph_base g" using assms by (simp add: graph_inv_def)
  have "fst ` set (adj_pairs g u) \<subseteq> {0..<vertex_capacity g}"
  proof
    fix v
    assume "v \<in> fst ` set (adj_pairs g u)"
    then have "has_vertex g v" using assms unfolding graph_inv_def by blast
    then show "v \<in> {0..<vertex_capacity g}" by (simp add: has_vertex_iff)
  qed
  then have "card (fst ` set (adj_pairs g u)) \<le> nat (vertex_capacity g)"
    using card_mono [of "{0..<vertex_capacity g}"] by fastforce
  moreover have "card (fst ` set (adj_pairs g u)) = length (adj_pairs g u)"
    using distinct_card [OF adj_pairs_distinct [OF assms, of u]] by simp
  moreover have "nat (vertex_capacity g) < INT_MAX" using graph_base_cap [OF B] by (auto simp: INT_MAX_def nat_less_iff)
  ultimately show ?thesis by linarith
qed

lemma add_one_edge_map:
  assumes g: "graph_inv g" "gr_rep g = GRAPH_ADJACENCY_LIST" and v: "has_vertex g from" "has_vertex g to" and w: "alloc_fails w = []"
  shows "\<exists>g' w'. add_one_edge g from to x w = (g', w') \<and> alloc_fails w' = [] \<and> graph_inv g' \<and> same_vertices g g' \<and>
    edge_map g' = (edge_map g)((from, to) := Some x)"
proof -
  have B: "graph_base g" "lists_ok g" using g by (simp_all add: graph_inv_def)
  have R: "in_range g from" "present g ! nat from" using v by (simp_all add: has_vertex_iff)
  from add_one_edge_spec [OF B(2) g(2) conjunct1 [OF R(1)] conjunct2 [OF R(1)] R(2) w conjunct2 [OF adj_pairs_short [OF g(1)]], of to x]
  obtain g' w' where A: "add_one_edge g from to x w = (g', w')" "alloc_fails w' = []" "lists_ok g'" "same_vertices g g'"
    "map_of (adj_pairs g' from) = (map_of (adj_pairs g from))(to \<mapsto> x)" "\<forall>u. u \<noteq> from \<longrightarrow> adj_pairs g' u = adj_pairs g u"
    by blast
  have em: "edge_map g' = (edge_map g)((from, to) := Some x)"
    using A(5,6) by (auto simp: edge_map_def fun_eq_iff) metis
  have "graph_inv g'"
    by (rule graph_invI)
      (use B g(2) A(3) v graph_inv_edges [OF g(1)] in \<open>auto simp: same_vertices_simps [OF A(4)] em split: if_splits\<close>)
  then show ?thesis using A em by blast
qed

lemma remove_one_edge_map:
  assumes g: "graph_inv g" "gr_rep g = GRAPH_ADJACENCY_LIST" and v: "has_vertex g from"
  shows "\<exists>g'. remove_one_edge g from to = g' \<and> graph_inv g' \<and> same_vertices g g' \<and>
    edge_map g' = (edge_map g)((from, to) := None)"
proof -
  have B: "graph_base g" "lists_ok g" using g by (simp_all add: graph_inv_def)
  have R: "in_range g from" "present g ! nat from" using v by (simp_all add: has_vertex_iff)
  from remove_one_edge_spec [OF B(2) g(2) conjunct1 [OF R(1)] conjunct2 [OF R(1)] R(2), of to]
  obtain g' where A: "remove_one_edge g from to = g'" "lists_ok g'" "same_vertices g g'"
    "map_of (adj_pairs g' from) = (map_of (adj_pairs g from))(to := None)" "\<forall>u. u \<noteq> from \<longrightarrow> adj_pairs g' u = adj_pairs g u"
    by blast
  have em: "edge_map g' = (edge_map g)((from, to) := None)"
    using A(4,5) by (auto simp: edge_map_def fun_eq_iff) metis
  have "graph_inv g'"
    by (rule graph_invI)
      (use B g(2) A(2) graph_inv_edges [OF g(1)] in \<open>auto simp: same_vertices_simps [OF A(3)] em split: if_splits\<close>)
  then show ?thesis using A em by blast
qed

lemma list_add_map:
  assumes g: "graph_inv g" "gr_rep g = GRAPH_ADJACENCY_LIST" and v: "has_vertex g from" "has_vertex g to" and w: "alloc_fails w = []"
  shows "\<exists>g' w'. graph_adj_list_add_edge g from to x w = (g', w') \<and> alloc_fails w' = [] \<and> graph_inv g' \<and> same_vertices g g' \<and>
    edge_map g' = both_ways (gr_type g) from to (Some x) (edge_map g)"
proof -
  obtain g1 w1 where A: "add_one_edge g from to x w = (g1, w1)" "alloc_fails w1 = []" "graph_inv g1" "same_vertices g g1"
    "edge_map g1 = (edge_map g)((from, to) := Some x)" using add_one_edge_map [OF g v w] by blast
  note S = same_vertices_simps [OF A(4)]
  show ?thesis
  proof (cases "gr_type g = GRAPH_UNDIRECTED \<and> from \<noteq> to")
    case True
    have "gr_rep g1 = GRAPH_ADJACENCY_LIST" "has_vertex g1 to" "has_vertex g1 from" using S g(2) v by simp_all
    from add_one_edge_map [OF A(3) this A(2), of x] obtain g2 w2 where
      "add_one_edge g1 to from x w1 = (g2, w2)" "alloc_fails w2 = []" "graph_inv g2" "same_vertices g1 g2"
      "edge_map g2 = (edge_map g1)((to, from) := Some x)" by blast
    then show ?thesis
      using A True same_vertices_trans [OF A(4)] S(1) unfolding graph_adj_list_add_edge_def both_ways_def by auto
  next
    case False
    then show ?thesis using A S(1) unfolding graph_adj_list_add_edge_def both_ways_def by auto
  qed
qed

lemma list_remove_map:
  assumes g: "graph_inv g" "gr_rep g = GRAPH_ADJACENCY_LIST" and v: "has_vertex g from" "has_vertex g to"
  shows "\<exists>g'. graph_adj_list_remove_edge g from to = g' \<and> graph_inv g' \<and> same_vertices g g' \<and>
    edge_map g' = both_ways (gr_type g) from to None (edge_map g)"
proof -
  obtain g1 where A: "remove_one_edge g from to = g1" "graph_inv g1" "same_vertices g g1"
    "edge_map g1 = (edge_map g)((from, to) := None)" using remove_one_edge_map [OF g v(1)] by blast
  note S = same_vertices_simps [OF A(3)]
  show ?thesis
  proof (cases "gr_type g = GRAPH_UNDIRECTED \<and> from \<noteq> to")
    case True
    have "gr_rep g1 = GRAPH_ADJACENCY_LIST" "has_vertex g1 to" using S g(2) v by simp_all
    from remove_one_edge_map [OF A(2) this, of "from"] obtain g2 where
      "remove_one_edge g1 to from = g2" "graph_inv g2" "same_vertices g1 g2"
      "edge_map g2 = (edge_map g1)((to, from) := None)" by blast
    then show ?thesis
      using A True same_vertices_trans [OF A(3)] S(1) unfolding graph_adj_list_remove_edge_def both_ways_def Let_def by auto
  next
    case False
    then show ?thesis using A S(1) unfolding graph_adj_list_remove_edge_def both_ways_def Let_def by auto
  qed
qed

lemma remove_edge_map:
  assumes g: "graph_inv g"
  shows "graph_inv (graph_remove_edge_impl g from to) \<and> same_vertices g (graph_remove_edge_impl g from to) \<and>
    edge_map (graph_remove_edge_impl g from to) =
      (if has_vertex g from \<and> has_vertex g to then both_ways (gr_type g) from to None (edge_map g) else edge_map g)"
proof (cases "has_vertex g from \<and> has_vertex g to")
  case True
  then show ?thesis
    using list_remove_map [OF g, of "from" to] matrix_set_spec [OF g, of "from" to GRAPH_NO_EDGE]
    by (cases "gr_rep g") (auto simp: graph_remove_edge_impl_def graph_adj_matrix_remove_edge_def)
next
  case False
  then show ?thesis using g same_vertices_refl by (auto simp: graph_remove_edge_impl_def)
qed

section \<open>Queries\<close>

lemma list_query:
  assumes g: "graph_inv g" "gr_rep g = GRAPH_ADJACENCY_LIST" and v: "has_vertex g from"
  shows "graph_adj_list_has_edge g from to = (edge_map g (from, to) \<noteq> None) \<and>
    graph_adj_list_get_edge_weight g from to = (case edge_map g (from, to) of None \<Rightarrow> GRAPH_NO_EDGE | Some x \<Rightarrow> x)"
proof -
  have B: "lists_ok g" using g by (simp add: graph_inv_def)
  have R: "0 \<le> from" "from < vertex_capacity g" "present g ! nat from" using v by (simp_all add: has_vertex_iff)
  obtain ls l where L: "adj_lists g = Some ls" "ls ! nat from = Some l" "list_ok (gr_edges g) (gr_brk g) l"
    using present_list [OF B R] by blast
  have pairs: "adj_pairs g from = list_pairs (gr_edges g) l" using adj_pairs_list [OF g(2) L(1) R(1,2)] L(2) by simp
  have dist: "distinct (map fst (list_pairs (gr_edges g) l))" using L(3) by (simp add: list_ok_def)
  show ?thesis
  proof (cases "to \<in> fst ` set (list_pairs (gr_edges g) l)")
    case True
    then obtain k a where F: "k < length (list_items l)" "list_items l ! k = Some a" "fst (list_pairs (gr_edges g) l ! k) = to"
      "find_edge (gr_edges g) (Some l) to = (Some a, int k)"
      using find_edge_spec [OF L(3), of to] by auto
    have "(to, ge_weight (edge_at (gr_edges g) a)) \<in> set (list_pairs (gr_edges g) l)"
      using F(1-3) by (auto simp: list_pairs_def in_set_conv_nth intro!: image_eqI [of _ _ "Some a"] exI [of _ k])
    then have "map_of (list_pairs (gr_edges g) l) to = Some (ge_weight (edge_at (gr_edges g) a))"
      using dist by (rule_tac map_of_is_SomeI) simp_all
    then show ?thesis
      using L F(4) pairs
      by (simp add: graph_adj_list_has_edge_def graph_adj_list_get_edge_weight_def edge_map_def)
  next
    case False
    then have "find_edge (gr_edges g) (Some l) to = (NULL, -1)" using find_edge_spec [OF L(3), of to] by simp
    moreover have "map_of (list_pairs (gr_edges g) l) to = None" using False by (simp add: map_of_eq_None_iff)
    ultimately show ?thesis
      using L pairs by (simp add: graph_adj_list_has_edge_def graph_adj_list_get_edge_weight_def edge_map_def)
  qed
qed

lemma matrix_query:
  assumes g: "graph_inv g" "gr_rep g = GRAPH_ADJACENCY_MATRIX" and v: "has_vertex g from" "has_vertex g to"
  shows "graph_adj_matrix_has_edge g from to = (edge_map g (from, to) \<noteq> None) \<and>
    graph_adj_matrix_get_edge_weight g from to = (case edge_map g (from, to) of None \<Rightarrow> GRAPH_NO_EDGE | Some x \<Rightarrow> x)"
proof -
  obtain m where "adj_matrix g = Some m" using g by (auto simp: graph_inv_def matrix_ok_def)
  then show ?thesis
    using adj_pairs_matrix [OF g(2), of "from" to] v
    by (simp add: graph_adj_matrix_has_edge_def graph_adj_matrix_get_edge_weight_def edge_map_def has_vertex_iff)
qed

lemma edge_queries:
  assumes g: "graph_inv g"
  shows "graph_has_edge_impl g from to = (edge_map g (from, to) \<noteq> None) \<and>
    graph_get_edge_weight_impl g from to = (case edge_map g (from, to) of None \<Rightarrow> GRAPH_NO_EDGE | Some x \<Rightarrow> x)"
proof (cases "has_vertex g from \<and> has_vertex g to")
  case True
  then show ?thesis
    using list_query [OF g, of "from" to] matrix_query [OF g, of "from" to]
    by (cases "gr_rep g") (simp_all add: graph_has_edge_impl_def graph_get_edge_weight_impl_def)
next
  case False
  then have "edge_map g (from, to) = None" using graph_inv_edges [OF g, of "from" to] by (cases "edge_map g (from, to)") auto
  then show ?thesis using False by (auto simp: graph_has_edge_impl_def graph_get_edge_weight_impl_def)
qed

section \<open>Capacity\<close>

lemma double_until_ends:
  assumes "k \<le> m" "m \<le> 27" "required \<le> 8 * 2 ^ m"
  shows "\<exists>j. k \<le> j \<and> j \<le> m \<and> double_until required (8 * 2 ^ k) = Some (8 * 2 ^ j) \<and> required \<le> 8 * 2 ^ j"
proof -
  have eight: "(2 :: int) ^ (3 + n) = 8 * 2 ^ n" for n by (simp add: power_add)
  from doubling_ends [of "3 + k" "3 + m" required] assms obtain j where
    "3 + k \<le> j" "j \<le> 3 + m" "double_until required (2 ^ (3 + k)) = Some (2 ^ j)" "required \<le> 2 ^ j"
    unfolding double_until_def eight by auto
  then show ?thesis using eight [of "j - 3"] by (intro exI [of _ "j - 3"]) (auto simp: eight)
qed

lemma double_until_diverges:
  assumes "k \<le> 27" "2 ^ 30 < required"
  shows "double_until required (8 * 2 ^ k) = None"
  using doubling_diverges [of "3 + k" required] assms by (simp add: double_until_def power_add)

lemma copy_row_nth:
  assumes "length new = N * N" "length old = H * H" "H < N" "n < H" "N \<le> 2 ^ 15" "r < N" "c < N"
  shows "length (copy_row old (int H) (int N) (int n) new) = N * N \<and>
    copy_row old (int H) (int N) (int n) new ! (r * N + c) = (if r = n \<and> c < H then old ! (n * H + c) else new ! (r * N + c))"
proof -
  have "n \<le> 2 ^ 15" "H \<le> 2 ^ 15" using assms by simp_all
  then have "n * N \<le> 2 ^ 15 * 2 ^ 15" "n * H \<le> 2 ^ 15 * 2 ^ 15" using assms(5) by (blast intro: mult_le_mono)+
  then have "is_int (int (n * N))" "is_int (int (n * H))" by (simp_all add: is_int_def flip: of_nat_mult)
  then have i: "nat (wrap_int (int n * int N)) = n * N" "nat (wrap_int (int n * int H)) = n * H"
    by (simp_all add: wrap_int_id nat_mult_distrib)
  have e: "copy_row old (int H) (int N) (int n) new = take (n * N) new @ take H (drop (n * H) old) @ drop (n * N + H) new"
    by (simp add: copy_row_def i)
  have "Suc n * N \<le> N * N" "Suc n * H \<le> H * H" using assms by (auto intro!: mult_right_mono simp del: mult_Suc)
  then have b: "n * N + N \<le> N * N" "n * H + H \<le> H * H" by (simp_all add: add.commute)
  have len: "length (take (n * N) new) = n * N" "length (take H (drop (n * H) old)) = H" using b assms by simp_all
  have "n * N + H \<le> N * N" using b assms(3) by linarith
  then have L: "length (copy_row old (int H) (int N) (int n) new) = N * N" unfolding e using len assms(1) by simp
  have below: "r * N + c < n * N" if "r < n"
  proof -
    have "Suc r * N \<le> n * N" using that by (intro mult_right_mono) simp_all
    then show ?thesis using assms(7) by simp
  qed
  have above: "n * N + N \<le> r * N + c" if "n < r"
  proof -
    have "Suc n * N \<le> r * N" using that by (intro mult_right_mono) simp_all
    then show ?thesis by (simp add: add.commute)
  qed
  have "r * N + c < N * N"
  proof -
    have "Suc r * N \<le> N * N" using assms(6) by (intro mult_right_mono) simp_all
    then show ?thesis using assms(7) by simp
  qed
  then show ?thesis
    using L below above len b assms unfolding e nth_append len
    by (cases r n rule: linorder_cases) (auto simp: less_diff_conv2 add.commute)
qed

lemma copy_rows_nth:
  assumes "length new = N * N" "length old = H * H" "H < N" "N \<le> 2 ^ 15" "n \<le> H"
  shows "length (copy_rows old (int H) (int N) n new) = N * N \<and>
    (\<forall>r < N. \<forall>c < N. copy_rows old (int H) (int N) n new ! (r * N + c) =
       (if r < n \<and> c < H then old ! (r * H + c) else new ! (r * N + c)))"
  using assms(5)
proof (induction n)
  case (Suc n)
  then have n: "n < H" by simp
  have IH: "length (copy_rows old (int H) (int N) n new) = N * N"
    "\<And>r c. r < N \<Longrightarrow> c < N \<Longrightarrow> copy_rows old (int H) (int N) n new ! (r * N + c) =
       (if r < n \<and> c < H then old ! (r * H + c) else new ! (r * N + c))"
    using Suc.IH n by simp_all
  have "0 < N" using assms(3) by simp
  note R = copy_row_nth [OF IH(1) assms(2,3) n assms(4)]
  show ?case using R [OF \<open>0 < N\<close> \<open>0 < N\<close>] R IH(2) by (auto simp: less_Suc_eq)
qed (use assms in simp)

text \<open>Growing keeps vertices and edges.\<close>

lemma graph_inv_moved:
  assumes "graph_inv g" "graph_base g'" "if gr_rep g' = GRAPH_ADJACENCY_LIST then lists_ok g' else matrix_ok g'"
    "edge_map g' = edge_map g" "\<And>v. has_vertex g v \<Longrightarrow> has_vertex g' v"
  shows "graph_inv g'"
  by (rule graph_invI [OF assms(2,3)]) (use graph_inv_edges [OF assms(1)] assms(4,5) in \<open>metis+\<close>)

definition same_graph :: "graph_impl \<Rightarrow> graph_impl \<Rightarrow> bool" where
  "same_graph g g' \<longleftrightarrow> gr_type g' = gr_type g \<and> gr_rep g' = gr_rep g \<and> gr_traversal g' = gr_traversal g \<and>
     gr_min_path g' = gr_min_path g"

lemma same_graph_simps:
  "same_graph g g' \<Longrightarrow> gr_type g' = gr_type g" "same_graph g g' \<Longrightarrow> gr_rep g' = gr_rep g"
  "same_graph g g" "same_graph g g1 \<Longrightarrow> same_graph g1 g2 \<Longrightarrow> same_graph g g2" "same_vertices g g1 \<Longrightarrow> same_graph g g1"
  by (simp_all add: same_graph_def same_vertices_simps)

lemma clear_matrix_nth:
  assumes "cap = int N" "N \<le> 2 ^ 15"
  shows "clear_matrix cap w = replicate (N * N) GRAPH_NO_EDGE"
proof -
  have "N * N \<le> 2 ^ 15 * 2 ^ 15" using assms(2) by (blast intro: mult_le_mono)
  then have "is_int (int (N * N))" by (simp add: is_int_def flip: of_nat_mult)
  then show ?thesis using assms(1) by (simp add: clear_matrix_def wrap_int_id nat_mult_distrib)
qed

lemma malloc_matrix_ready:
  assumes "cap = int N" "N \<le> 2 ^ 15" "alloc_fails w = []"
  shows "malloc_matrix cap w = (Some (replicate (N * N) GRAPH_NO_EDGE), w)"
proof -
  have "N * N \<le> 2 ^ 15 * 2 ^ 15" using assms(2) by (blast intro: mult_le_mono)
  then have b: "N * N * 8 \<le> 2 ^ 33" by simp
  have "(word_of_int cap :: 64 word) * word_of_int cap * 8 = of_nat (N * N * 8)" by (simp add: assms(1))
  moreover have "unat (of_nat (N * N * 8) :: 64 word) = N * N * 8"
    using b by (simp add: unsigned_of_nat take_bit_nat_eq_self del: of_nat_mult)
  ultimately have "malloc (unat ((word_of_int cap :: 64 word) * word_of_int cap * 8)) w = (True, w)"
    using b assms(3) by (simp add: malloc_no_failures PTRDIFF_MAX_def del: of_nat_mult)
  then show ?thesis by (simp add: malloc_matrix_def clear_matrix_nth [OF assms(1,2)])
qed

lemma rep_limit_pow: "\<exists>m \<le> 27. rep_limit rep = 8 * 2 ^ m"
  by (cases rep) (auto simp: rep_limit_def intro: exI [of _ 27] exI [of _ 12])

lemma grown_present:
  assumes "graph_base g" "vertex_capacity g < N" "present g' = take (nat (vertex_capacity g)) (present g) @ drop (nat (vertex_capacity g)) (replicate (nat N) False)"
    "vertex_capacity g' = N"
  shows "length (present g') = nat N \<and> has_vertex g' v = has_vertex g v"
proof -
  have len: "length (present g) = nat (vertex_capacity g)" using assms(1) by (simp add: graph_base_def)
  have p: "present g' = present g @ replicate (nat N - nat (vertex_capacity g)) False" using assms(3) len by simp
  have "nat (vertex_capacity g) \<le> nat N" using assms(2) by simp
  then show ?thesis using assms(2,4) len by (auto simp: has_vertex_iff p nth_append)
qed

lemma marked_case:
  assumes "ls ! k = Some l0" "case ls ! i of None \<Rightarrow> \<not> ps ! i | Some l \<Rightarrow> P l"
  shows "case ls ! i of None \<Rightarrow> \<not> ps[k := True] ! i | Some l \<Rightarrow> P l"
  using assms by (cases "i = k") (auto split: option.splits)

lemma grown_nth: "(ls @ replicate n None) ! i = Some l \<Longrightarrow> i < length ls + n \<Longrightarrow> i < length ls \<and> ls ! i = Some l"
  by (cases "i < length ls") (auto simp: nth_append)

lemma move_storage_list:
  assumes g: "graph_inv g" "gr_rep g = GRAPH_ADJACENCY_LIST" and N: "vertex_capacity g < N" "N = 8 * 2 ^ j" "N \<le> rep_limit GRAPH_ADJACENCY_LIST"
    and w: "alloc_fails w = []"
  shows "\<exists>g'. move_storage g N (replicate (nat N) NULL) w = (g', w) \<and> graph_inv g' \<and> same_graph g g' \<and>
    vertex_capacity g' = N \<and> edge_map g' = edge_map g \<and> (\<forall>v. has_vertex g' v = has_vertex g v)"
proof -
  have B: "graph_base g" "lists_ok g" using g by (simp_all add: graph_inv_def)
  obtain ls where ls: "adj_lists g = Some ls" "length ls = nat (vertex_capacity g)"
    "\<And>i. i < length ls \<Longrightarrow> case ls ! i of None \<Rightarrow> \<not> present g ! i | Some l \<Rightarrow> list_ok (gr_edges g) (gr_brk g) l"
    "\<And>i j l l'. i < length ls \<Longrightarrow> j < length ls \<Longrightarrow> i \<noteq> j \<Longrightarrow> ls ! i = Some l \<Longrightarrow> ls ! j = Some l' \<Longrightarrow>
        set (list_items l) \<inter> set (list_items l') = {}" and none: "adj_matrix g = None"
    using B(2) unfolding lists_ok_def by blast
  let ?c = "nat (vertex_capacity g)"
  have pos: "0 < vertex_capacity g" using graph_base_cap [OF B(1)] by simp
  have lens: "length (present g) = ?c" "length (vertex_ptrs g) = ?c" using B(1) by (simp_all add: graph_base_def)
  have "N \<le> 2 ^ 30" using N(3) by (simp add: rep_limit_def)
  then have "ptr_bytes N \<le> PTRDIFF_MAX" using ptr_bytes_fits [of N] N(1) pos by (simp add: INT_MAX_def)
  then have ok: "malloc (ptr_bytes N) w = (True, w)" using w by (rule_tac malloc_no_failures)
  define ls' where "ls' = ls @ replicate (nat N - ?c) None"
  define g' where "g' = g\<lparr>vertex_capacity := N, present := take ?c (present g) @ drop ?c (replicate (nat N) False),
    vertex_ptrs := take ?c (vertex_ptrs g) @ drop ?c (replicate (nat N) NULL), adj_lists := Some ls', adj_matrix := None\<rparr>"
  have run: "move_storage g N (replicate (nat N) NULL) w = (g', w)"
    using ok ls(1,2) by (simp add: move_storage_def g(2) g'_def ls'_def Let_def)
  have P: "length (present g') = nat N" "\<And>v. has_vertex g' v = has_vertex g v"
    using grown_present [OF B(1) N(1), of g'] by (simp_all add: g'_def)
  have cN: "?c \<le> nat N" using N(1) by simp
  have pres: "present g' ! i \<Longrightarrow> i < nat N \<Longrightarrow> i < ?c \<and> present g ! i" for i
    using lens(1) by (auto simp: g'_def nth_append split: if_splits)
  have "graph_base g'"
    unfolding graph_base_def
  proof (intro conjI allI impI)
    show "\<exists>k. vertex_capacity g' = 8 * 2 ^ k" using N(2) by (auto simp: g'_def)
    show "vertex_capacity g' \<le> rep_limit (gr_rep g')" using N(3) g(2) by (simp add: g'_def)
    show "length (present g') = nat (vertex_capacity g')" using P(1) by (simp add: g'_def)
    show "length (vertex_ptrs g') = nat (vertex_capacity g')" using lens(2) cN by (simp add: g'_def)
    show "vertex_count g' = int (card {v. has_vertex g' v})" using B(1) unfolding P(2) by (simp add: g'_def graph_base_def)
    fix i
    assume "i < length (present g')" "present g' ! i"
    then have i: "i < ?c" "present g ! i" using pres P(1) by auto
    then show "vertex_ptrs g' ! i = id_cell (int i)" using B(1) lens by (simp add: g'_def nth_append graph_base_def)
  qed
  moreover have "lists_ok g'"
    unfolding lists_ok_def
  proof (intro conjI exI [of _ ls'] allI impI)
    fix i
    assume i: "i < length ls'"
    show "case ls' ! i of None \<Rightarrow> \<not> present g' ! i | Some l \<Rightarrow> list_ok (gr_edges g') (gr_brk g') l"
    proof (cases "i < ?c")
      case True
      then have "ls' ! i = ls ! i" using ls(2) by (simp add: ls'_def nth_append)
      moreover have "gr_edges g' = gr_edges g" "gr_brk g' = gr_brk g" by (simp_all add: g'_def)
      moreover have "present g' ! i = present g ! i" using True lens(1) by (simp add: g'_def nth_append)
      ultimately show ?thesis using ls(3) [of i] True ls(2) by (cases "ls ! i") simp_all
    next
      case False
      then have "i - ?c < nat N - ?c" using i ls(2) unfolding ls'_def length_append length_replicate by arith
      then have "ls' ! i = None" using False ls(2) by (simp add: ls'_def nth_append)
      moreover have "\<not> present g' ! i" using pres [of i] False i ls(2) cN by (auto simp: ls'_def)
      ultimately show ?thesis by simp
    qed
  next
    fix i j l l'
    assume "i < length ls'" "j < length ls'" "i \<noteq> j" "ls' ! i = Some l" "ls' ! j = Some l'"
    then show "set (list_items l) \<inter> set (list_items l') = {}"
      using ls(4) [of i j l l'] grown_nth [of ls "nat N - ?c" i l] grown_nth [of ls "nat N - ?c" j l']
      unfolding ls'_def length_append length_replicate by blast
  qed (use ls(2) cN in \<open>simp_all add: g'_def ls'_def\<close>)
  moreover have em: "edge_map g' = edge_map g"
  proof -
    have "adj_pairs g' v = adj_pairs g v" for v
    proof (cases "in_range g v")
      case True
      then have "nat v < length ls" using ls(2) by simp
      then show ?thesis
        using True N(1) g(2) ls(1) by (simp add: adj_pairs_def g'_def ls'_def nth_append cong: option.case_cong)
    next
      case False
      then show ?thesis using ls(2) g(2) N(1) pos by (auto simp: adj_pairs_def g'_def ls'_def nth_append)
    qed
    then show ?thesis by (simp add: edge_map_def)
  qed
  moreover have "gr_rep g' = gr_rep g" by (simp add: g'_def)
  ultimately have "graph_inv g'"
    using g(2) P(2) by (intro graph_inv_moved [OF g(1)]) simp_all
  then show ?thesis using run em P(2) by (intro exI [of _ g']) (simp add: g'_def same_graph_def)
qed

lemma move_storage_matrix:
  assumes g: "graph_inv g" "gr_rep g = GRAPH_ADJACENCY_MATRIX" and N: "vertex_capacity g < N" "N = 8 * 2 ^ j" "N \<le> rep_limit GRAPH_ADJACENCY_MATRIX"
    and w: "alloc_fails w = []"
  shows "\<exists>g'. move_storage g N (replicate (nat N) NULL) w = (g', w) \<and> graph_inv g' \<and> same_graph g g' \<and>
    vertex_capacity g' = N \<and> edge_map g' = edge_map g \<and> (\<forall>v. has_vertex g' v = has_vertex g v)"
proof -
  have B: "graph_base g" "matrix_ok g" using g by (simp_all add: graph_inv_def)
  obtain m where m: "adj_matrix g = Some m" "length m = nat (vertex_capacity g) * nat (vertex_capacity g)" "adj_lists g = None"
    using B(2) by (auto simp: matrix_ok_def)
  define c where "c = nat (vertex_capacity g)"
  define n where "n = nat N"
  have pos: "0 < vertex_capacity g" using graph_base_cap [OF B(1)] by simp
  have cn: "vertex_capacity g = int c" "N = int n" "c < n" using pos N(1) by (simp_all add: c_def n_def)
  have lens: "length (present g) = c" "length (vertex_ptrs g) = c" using B(1) by (simp_all add: graph_base_def c_def)
  have n: "n \<le> 2 ^ 15" using N(3) cn(2) by (simp add: rep_limit_def)
  define m' where "m' = copy_rows m (int c) (int n) c (replicate (n * n) GRAPH_NO_EDGE)"
  have M: "length m' = n * n" "\<And>a b. a < n \<Longrightarrow> b < n \<Longrightarrow>
      m' ! (a * n + b) = (if a < c \<and> b < c then m ! (a * c + b) else replicate (n * n) GRAPH_NO_EDGE ! (a * n + b))"
    using copy_rows_nth [OF length_replicate, of m c n c GRAPH_NO_EDGE] m(2) cn(3) n unfolding m'_def by (auto simp: c_def)
  define g' where "g' = g\<lparr>vertex_capacity := N, present := take c (present g) @ drop c (replicate (nat N) False),
    vertex_ptrs := take c (vertex_ptrs g) @ drop c (replicate (nat N) NULL), adj_lists := None, adj_matrix := Some m'\<rparr>"
  have run: "move_storage g N (replicate (nat N) NULL) w = (g', w)"
    using malloc_matrix_ready [OF cn(2) n w] m(1) g(2)
    by (simp add: move_storage_def g'_def Let_def m'_def cn(1) flip: cn(2))
  have P: "length (present g') = nat N" "\<And>v. has_vertex g' v = has_vertex g v"
    using grown_present [OF B(1) N(1), of g'] by (simp_all add: g'_def c_def)
  have pres: "present g' ! i \<Longrightarrow> i < nat N \<Longrightarrow> i < c \<and> present g ! i" for i
    using lens(1) by (auto simp: g'_def nth_append split: if_splits)
  have "graph_base g'"
    unfolding graph_base_def
  proof (intro conjI allI impI)
    show "\<exists>k. vertex_capacity g' = 8 * 2 ^ k" using N(2) by (auto simp: g'_def)
    show "vertex_capacity g' \<le> rep_limit (gr_rep g')" using N(3) g(2) by (simp add: g'_def)
    show "length (present g') = nat (vertex_capacity g')" using P(1) by (simp add: g'_def)
    show "length (vertex_ptrs g') = nat (vertex_capacity g')" using lens(2) cn by (simp add: g'_def)
    show "vertex_count g' = int (card {v. has_vertex g' v})" using B(1) unfolding P(2) by (simp add: g'_def graph_base_def)
    fix i
    assume "i < length (present g')" "present g' ! i"
    then have i: "i < c" "present g ! i" using pres P(1) by auto
    then show "vertex_ptrs g' ! i = id_cell (int i)" using B(1) lens by (simp add: g'_def nth_append graph_base_def)
  qed
  moreover have "matrix_ok g'" using M(1) cn by (simp add: matrix_ok_def g'_def)
  moreover have em: "edge_map g' = edge_map g"
  proof -
    have cap: "vertex_capacity g \<le> 2 ^ 15" "vertex_capacity g' \<le> 2 ^ 15" using cn n by (simp_all add: g'_def)
    have "map_of (adj_pairs g' u) v = map_of (adj_pairs g u) v" for u v
    proof (cases "in_range g' u")
      case True
      have rep: "gr_rep g' = GRAPH_ADJACENCY_MATRIX" using g(2) by (simp add: g'_def)
      have cell: "graph_cell g' u v = (if in_range g u \<and> in_range g v then graph_cell g u v else GRAPH_NO_EDGE)" if v: "in_range g' v"
      proof -
        have uv: "nat u < n" "nat v < n" using True v by (auto simp: g'_def n_def)
        have "nat u * n + nat v < n * n"
          using cell_index_inside [OF cap(2) True v] cn(2) by (simp add: g'_def)
        moreover have "cell_index g' u v = nat u * n + nat v"
          using cell_index_inside [OF cap(2) True v] by (simp add: g'_def n_def)
        moreover have "cell_index g u v = nat u * c + nat v" if "in_range g u" "in_range g v"
          using cell_index_inside [OF cap(1) that] by (simp add: c_def)
        moreover have "in_range g u = (nat u < c)" "in_range g v = (nat v < c)" using True v cn by auto
        ultimately show ?thesis using M(2) [OF uv] m(1) by (auto simp: g'_def)
      qed
      have below: "in_range g x \<Longrightarrow> in_range g' x" for x using N(1) by (simp add: g'_def)
      show ?thesis
      proof (cases "in_range g u")
        case in_u: True
        show ?thesis
          unfolding adj_pairs_matrix [OF rep True] adj_pairs_matrix [OF g(2) in_u]
          using cell in_u below [of v] by (cases "in_range g' v"; cases "in_range g v") auto
      next
        case False
        have "adj_pairs g u = []" using False by (auto simp: adj_pairs_def)
        moreover have "map_of (adj_pairs g' u) v = None"
          unfolding adj_pairs_matrix [OF rep True] using cell False by (cases "in_range g' v") auto
        ultimately show ?thesis by simp
      qed
    next
      case False
      then have "adj_pairs g' u = []" "adj_pairs g u = []" using N(1) by (auto simp: adj_pairs_def g'_def)
      then show ?thesis by simp
    qed
    then show ?thesis by (simp add: edge_map_def fun_eq_iff)
  qed
  moreover have "gr_rep g' = gr_rep g" by (simp add: g'_def)
  ultimately have "graph_inv g'"
    using g(2) P(2) by (intro graph_inv_moved [OF g(1)]) simp_all
  then show ?thesis using run em P(2) by (intro exI [of _ g']) (simp add: g'_def same_graph_def)
qed

section \<open>Adding vertices and edges\<close>

lemma ensure_capacity_ready:
  assumes g: "graph_inv g" and v: "0 \<le> v" "v < rep_limit (gr_rep g)" and w: "alloc_fails w = []"
  shows "\<exists>g'. graph_ensure_capacity g v w = Some (g', w) \<and> graph_inv g' \<and> same_graph g g' \<and> v < vertex_capacity g' \<and>
    edge_map g' = edge_map g \<and> (\<forall>u. has_vertex g' u = has_vertex g u)"
proof -
  have B: "graph_base g" using g by (simp add: graph_inv_def)
  have small: "rep_limit (gr_rep g) \<le> 2 ^ 30" by (simp add: rep_limit_def)
  then have "is_int (v + 1)" using v by (simp add: is_int_def)
  then have req: "wrap_int (v + 1) = v + 1" by (rule wrap_int_id)
  show ?thesis
  proof (cases "v + 1 \<le> vertex_capacity g")
    case True
    then have "graph_ensure_capacity g v w = Some (g, w)"
      using v(1) by (simp add: graph_ensure_capacity_def is_valid_vertex_id_def req)
    then show ?thesis using True g by (intro exI [of _ g]) (simp add: same_graph_simps)
  next
    case False
    obtain k where k: "vertex_capacity g = 8 * 2 ^ k" using B by (auto simp: graph_base_def)
    obtain m where m: "m \<le> 27" "rep_limit (gr_rep g) = 8 * 2 ^ m" using rep_limit_pow by blast
    have "(2 :: int) ^ k \<le> 2 ^ m" using B k m(2) by (simp add: graph_base_def)
    then have "k \<le> m" by (rule power_le_imp_le_exp [rotated]) simp
    moreover have "v + 1 \<le> 8 * 2 ^ m" using v(2) m(2) by simp
    ultimately obtain j where J: "k \<le> j" "j \<le> m" "double_until (v + 1) (8 * 2 ^ k) = Some (8 * 2 ^ j)" "v + 1 \<le> 8 * 2 ^ j"
      using double_until_ends [OF _ m(1)] by blast
    define N :: int where "N = 8 * 2 ^ j"
    have N: "vertex_capacity g < N" "N = 8 * 2 ^ j" "N \<le> rep_limit (gr_rep g)"
      using J False power_increasing [OF J(2), of "2 :: int"] m(2) by (simp_all add: N_def)
    have N30: "0 < N" "N \<le> 2 ^ 30" using N small by (simp_all add: N_def)
    have "unat (word_of_int N :: 64 word) = nat N"
      using N30 by (simp add: unsigned_of_int take_bit_int_eq_self)
    then have m1: "malloc (unat (word_of_int N :: 64 word)) w = (True, w)"
      using N30 w by (simp add: malloc_no_failures PTRDIFF_MAX_def)
    have "ptr_bytes N \<le> PTRDIFF_MAX" using ptr_bytes_fits [of N] N30 by (simp add: INT_MAX_def)
    then have m2: "calloc_ptrs N w = (Some (replicate (nat N) NULL), w)"
      using w by (simp add: calloc_ptrs_def malloc_no_failures)
    have run: "graph_ensure_capacity g v w = Some (move_storage g N (replicate (nat N) NULL) w)"
      using v(1) False J(3) k m1 m2 by (simp add: graph_ensure_capacity_def is_valid_vertex_id_def req N_def)
    have "\<exists>g'. move_storage g N (replicate (nat N) NULL) w = (g', w) \<and> graph_inv g' \<and> same_graph g g' \<and>
        vertex_capacity g' = N \<and> edge_map g' = edge_map g \<and> (\<forall>v. has_vertex g' v = has_vertex g v)"
      using move_storage_list [OF g _ N(1,2) _ w] move_storage_matrix [OF g _ N(1,2) _ w] N(3)
      by (cases "gr_rep g") simp_all
    then show ?thesis using run J(4) N(2) by auto
  qed
qed

lemma add_vertex_ready:
  assumes g: "graph_inv g" and v: "0 \<le> v" "v < rep_limit (gr_rep g)" and w: "alloc_fails w = []"
  shows "\<exists>g' w'. graph_add_vertex_impl g v w = Some (g', w') \<and> graph_inv g' \<and> same_graph g g' \<and> alloc_fails w' = [] \<and>
    edge_map g' = edge_map g \<and> (\<forall>u. has_vertex g' u = (u = v \<or> has_vertex g u))"
proof -
  obtain g1 where G: "graph_ensure_capacity g v w = Some (g1, w)" "graph_inv g1" "same_graph g g1" "v < vertex_capacity g1"
    "edge_map g1 = edge_map g" "\<And>u. has_vertex g1 u = has_vertex g u"
    using ensure_capacity_ready [OF assms] by blast
  have B: "graph_base g1" using G(2) by (simp add: graph_inv_def)
  show ?thesis
  proof (cases "present g1 ! nat v")
    case True
    then have "has_vertex g1 v" using v(1) G(4) by (simp add: has_vertex_iff)
    moreover have "graph_add_vertex_impl g v w = Some (g1, w)"
      using G(1) True v(1) by (simp add: graph_add_vertex_impl_def is_valid_vertex_id_def)
    ultimately show ?thesis using G w by (intro exI [of _ g1] exI [of _ w]) auto
  next
    case False
    define g2 where "g2 = g1\<lparr>vertex_ptrs := (vertex_ptrs g1)[nat v := id_cell v], present := (present g1)[nat v := True],
      vertex_count := vertex_count g1 + 1\<rparr>"
    have len: "length (present g1) = nat (vertex_capacity g1)" "length (vertex_ptrs g1) = nat (vertex_capacity g1)"
      using B by (simp_all add: graph_base_def)
    have iv: "nat v < nat (vertex_capacity g1)" using v(1) G(4) by simp
    have hv: "has_vertex g2 u = (u = v \<or> has_vertex g1 u)" for u
      using iv v(1) G(4) len by (auto simp: has_vertex_iff g2_def nth_list_update)
    have "{u. has_vertex g2 u} = insert v {u. has_vertex g1 u}" using hv by auto
    moreover have "\<not> has_vertex g1 v" using False by (simp add: has_vertex_iff)
    moreover have "finite {u. has_vertex g1 u}"
      by (rule finite_subset [of _ "{0..<vertex_capacity g1}"]) (auto simp: has_vertex_iff)
    ultimately have card: "vertex_count g2 = int (card {u. has_vertex g2 u})"
      using B by (simp add: g2_def graph_base_def)
    have B2: "graph_base g2"
      using B card v(1) iv len unfolding graph_base_def by (auto simp: g2_def nth_list_update)
    have m4: "malloc 4 w = (True, w)" using w by (simp add: malloc_no_failures PTRDIFF_MAX_def)
    show ?thesis
    proof (cases "gr_rep g1")
      case GRAPH_ADJACENCY_MATRIX
      then have "adj_lists g1 = None" "matrix_ok g2" using G(2) by (auto simp: graph_inv_def matrix_ok_def g2_def)
      then have "graph_add_vertex_impl g v w = Some (g2, w)"
        using G(1,4) False v(1) m4 by (simp add: graph_add_vertex_impl_def is_valid_vertex_id_def g2_def Let_def)
      moreover have em: "edge_map g2 = edge_map g1" by (rule edge_map_cong) (simp_all add: g2_def)
      moreover have "gr_rep g2 = gr_rep g1" "same_graph g1 g2" by (simp_all add: g2_def same_graph_def)
      moreover from this have "graph_inv g2"
        using GRAPH_ADJACENCY_MATRIX \<open>matrix_ok g2\<close> hv by (intro graph_inv_moved [OF G(2) B2 _ em]) simp_all
      ultimately show ?thesis using G(3,5,6) hv w same_graph_simps(4) by (intro exI [of _ g2] exI [of _ w]) auto
    next
      case GRAPH_ADJACENCY_LIST
      then have L1: "lists_ok g1" using G(2) by (simp add: graph_inv_def)
      then obtain ls where ls: "adj_lists g1 = Some ls" "length ls = nat (vertex_capacity g1)"
        by (auto simp: lists_ok_def)
      obtain l w3 where run: "graph_add_vertex_impl g v w = Some (g2\<lparr>adj_lists := Some (ls[nat v := Some l])\<rparr>, w3)"
        "alloc_fails w3 = []" and l: "ls ! nat v = None \<and> growable l \<and> list_items l = [] \<or> ls ! nat v = Some l"
      proof (cases "ls ! nat v")
        case None
        obtain l w3 where C: "create_list ARRAY_LIST 4 None w = (Some (l :: nat list_obj), w3)" "growable l" "list_items l = []"
          "alloc_fails w3 = []" using create_growable [OF w, of 4] by (auto simp: INT_MAX_def)
        have "graph_add_vertex_impl g v w = Some (g2\<lparr>adj_lists := Some (ls[nat v := Some l])\<rparr>, w3)"
          using G(1,4) False v(1) m4 C(1) ls None GRAPH_ADJACENCY_LIST
          by (simp add: graph_add_vertex_impl_def is_valid_vertex_id_def g2_def Let_def)
        from that [OF this C(4)] show ?thesis using None C(2,3) by blast
      next
        case (Some l)
        then have "ls[nat v := Some l] = ls" by (metis list_update_id)
        then have "graph_add_vertex_impl g v w = Some (g2\<lparr>adj_lists := Some (ls[nat v := Some l])\<rparr>, w)"
          using G(1,4) False v(1) m4 ls Some GRAPH_ADJACENCY_LIST
          by (simp add: graph_add_vertex_impl_def is_valid_vertex_id_def g2_def Let_def)
        from that [OF this w] show ?thesis using Some by blast
      qed
      have each: "case ls ! nat v of None \<Rightarrow> \<not> present g1 ! nat v | Some l \<Rightarrow> list_ok (gr_edges g1) (gr_brk g1) l"
        using L1 ls iv unfolding lists_ok_def by auto
      then have ok_l: "list_ok (gr_edges g1) (gr_brk g1) l" using l by (auto simp: list_ok_def list_pairs_def)
      define h where "h = g1\<lparr>gr_edges := gr_edges g1, gr_brk := gr_brk g1, adj_lists := Some (ls[nat v := Some l])\<rparr>"
      have R: "lists_ok h \<and> (\<forall>j < length ls. j \<noteq> nat v \<longrightarrow>
          (case ls ! j of None \<Rightarrow> True | Some l \<Rightarrow> list_pairs (gr_edges g1) l = list_pairs (gr_edges g1) l))"
        by (rule lists_replace [OF L1 ls(1) _ ok_l order_refl _ _ h_def, of 0]) (use iv ls(2) l in auto)
      have P: "adj_pairs h u = (if u = v then list_pairs (gr_edges g1) l else adj_pairs g1 u)" for u
        by (rule adj_pairs_replace [OF L1 ls(1) v(1) G(4) h_def GRAPH_ADJACENCY_LIST conjunct2 [OF R]])
      have "adj_pairs h u = adj_pairs g1 u" for u
        unfolding P using adj_pairs_list [OF GRAPH_ADJACENCY_LIST ls(1) v(1) G(4)] l by (auto simp: list_pairs_def)
      define g3 where "g3 = g2\<lparr>adj_lists := Some (ls[nat v := Some l])\<rparr>"
      have hg: "g3 = h\<lparr>vertex_ptrs := vertex_ptrs g2, present := (present g1)[nat v := True], vertex_count := vertex_count g2\<rparr>"
        by (simp add: g3_def h_def g2_def)
      have "edge_map g3 = edge_map h" by (rule edge_map_cong) (simp_all add: hg)
      then have em: "edge_map g3 = edge_map g1"
        using \<open>\<And>u. adj_pairs h u = adj_pairs g1 u\<close> by (simp add: edge_map_def)
      have hv3: "has_vertex g3 u = has_vertex g2 u" for u by (simp add: has_vertex_iff g3_def)
      have B3: "graph_base g3" using B2 unfolding graph_base_def hv3 by (simp add: g3_def)
      have same: "same_graph g1 g3" "gr_rep g3 = GRAPH_ADJACENCY_LIST"
        using GRAPH_ADJACENCY_LIST by (simp_all add: g3_def g2_def same_graph_def)
      have "lists_ok g3"
      proof -
        from R obtain ls' where ls': "adj_lists h = Some ls'" "length ls' = nat (vertex_capacity h)" "adj_matrix h = None"
          "\<And>i. i < length ls' \<Longrightarrow> case ls' ! i of None \<Rightarrow> \<not> present h ! i | Some l \<Rightarrow> list_ok (gr_edges h) (gr_brk h) l"
          "\<And>i j l l'. i < length ls' \<Longrightarrow> j < length ls' \<Longrightarrow> i \<noteq> j \<Longrightarrow> ls' ! i = Some l \<Longrightarrow> ls' ! j = Some l' \<Longrightarrow>
            set (list_items l) \<inter> set (list_items l') = {}"
          unfolding lists_ok_def by blast
        have ph: "present h = present g1" by (simp add: h_def)
        have "ls' ! nat v = Some l" using ls'(1) iv ls(2) by (auto simp: h_def)
        then have "\<And>i. i < length ls' \<Longrightarrow> case ls' ! i of None \<Rightarrow> \<not> (present g1)[nat v := True] ! i | Some l \<Rightarrow> list_ok (gr_edges h) (gr_brk h) l"
          using ls'(4) unfolding ph by (rule marked_case)
        moreover have e: "gr_edges g3 = gr_edges h" "gr_brk g3 = gr_brk h" "present g3 = (present g1)[nat v := True]"
          "adj_lists g3 = adj_lists h" "adj_matrix g3 = adj_matrix h" "vertex_capacity g3 = vertex_capacity h"
          by (simp_all add: hg)
        ultimately show ?thesis using ls' unfolding lists_ok_def e by blast
      qed
      then have "graph_inv g3" using same hv hv3 by (intro graph_inv_moved [OF G(2) B3 _ em]) simp_all
      then show ?thesis
        using run G(3,5,6) same hv hv3 em same_graph_simps(4) unfolding g3_def [symmetric]
        by (intro exI [of _ g3] exI [of _ w3]) auto
    qed
  qed
qed

lemma add_edge_ready:
  assumes g: "graph_inv g" and uv: "0 \<le> u" "u < rep_limit (gr_rep g)" "0 \<le> v" "v < rep_limit (gr_rep g)"
    and x: "x \<noteq> GRAPH_NO_EDGE" and w: "alloc_fails w = []"
  shows "\<exists>g' w'. graph_add_edge_impl g u v x w = Some (g', w') \<and> graph_inv g' \<and> same_graph g g' \<and> alloc_fails w' = [] \<and>
    edge_map g' = both_ways (gr_type g) u v (Some x) (edge_map g) \<and> (\<forall>y. has_vertex g' y = (y = u \<or> y = v \<or> has_vertex g y))"
proof -
  obtain g1 w1 where A: "graph_add_vertex_impl g u w = Some (g1, w1)" "graph_inv g1" "same_graph g g1" "alloc_fails w1 = []"
    "edge_map g1 = edge_map g" "\<And>y. has_vertex g1 y = (y = u \<or> has_vertex g y)"
    using add_vertex_ready [OF g uv(1,2) w] by blast
  have "v < rep_limit (gr_rep g1)" using uv(4) same_graph_simps(2) [OF A(3)] by simp
  from add_vertex_ready [OF A(2) uv(3) this A(4)] obtain g2 w2 where B: "graph_add_vertex_impl g1 v w1 = Some (g2, w2)" "graph_inv g2"
    "same_graph g1 g2" "alloc_fails w2 = []" "edge_map g2 = edge_map g1" "\<And>y. has_vertex g2 y = (y = v \<or> has_vertex g1 y)" by blast
  have hv: "has_vertex g2 u" "has_vertex g2 v" using A(6) B(6) by simp_all
  note S = same_graph_simps(4) [OF A(3) B(3)]
  show ?thesis
  proof (cases "gr_rep g2")
    case GRAPH_ADJACENCY_LIST
    from list_add_map [OF B(2) GRAPH_ADJACENCY_LIST hv B(4), of x] obtain g3 w3 where C:
      "graph_adj_list_add_edge g2 u v x w2 = (g3, w3)" "alloc_fails w3 = []" "graph_inv g3" "same_vertices g2 g3"
      "edge_map g3 = both_ways (gr_type g2) u v (Some x) (edge_map g2)" by blast
    have run: "graph_add_edge_impl g u v x w = Some (g3, w3)"
      using A(1) B(1) C(1) hv uv(1,3) GRAPH_ADJACENCY_LIST by (simp add: graph_add_edge_impl_def is_valid_vertex_id_def)
    show ?thesis
      using run C(2,3,5) A(5,6) B(5,6) same_vertices_simps(7) [OF C(4)] same_graph_simps(4) [OF S same_graph_simps(5) [OF C(4)]]
        same_graph_simps(1) [OF S]
      by (intro exI [of _ g3] exI [of _ w3]) auto
  next
    case GRAPH_ADJACENCY_MATRIX
    from matrix_set_spec [OF B(2) GRAPH_ADJACENCY_MATRIX hv, of x] x obtain g3 where C:
      "graph_adj_matrix_set g2 u v x = g3" "graph_inv g3" "same_vertices g2 g3"
      "edge_map g3 = both_ways (gr_type g2) u v (Some x) (edge_map g2)" by auto
    have run: "graph_add_edge_impl g u v x w = Some (g3, w2)"
      using A(1) B(1) C(1) hv uv(1,3) GRAPH_ADJACENCY_MATRIX
      by (simp add: graph_add_edge_impl_def is_valid_vertex_id_def graph_adj_matrix_add_edge_def)
    show ?thesis
      using run B(4) C(2,4) A(5,6) B(5,6) same_vertices_simps(7) [OF C(3)] same_graph_simps(4) [OF S same_graph_simps(5) [OF C(3)]]
        same_graph_simps(1) [OF S]
      by (intro exI [of _ g3] exI [of _ w2]) auto
  qed
qed

section \<open>Neighbours\<close>

lemma vertex_cell: "graph_inv g \<Longrightarrow> has_vertex g v \<Longrightarrow> vertex_ptrs g ! nat v = id_cell v"
proof -
  assume "graph_inv g" "has_vertex g v"
  then have B: "graph_base g" "0 \<le> v" "nat v < length (present g)" "present g ! nat v"
    by (auto simp: graph_inv_def graph_base_def has_vertex_iff)
  then have "vertex_ptrs g ! nat v = id_cell (int (nat v))" unfolding graph_base_def by blast
  then show ?thesis using B(2) by simp
qed

lemma list_neighbors_collect:
  assumes g: "graph_inv g" and l: "growable l" "\<forall>p\<in>set (list_items l). p \<noteq> NULL"
    and all: "\<forall>to\<in>fst ` set (list_pairs (gr_edges g) l). has_vertex g to"
  shows "i + n = length (list_items l) \<Longrightarrow>
    list_neighbors_loop g l (int i) n nb w = collect_loop (map (\<lambda>q. id_cell (fst q)) (drop i (list_pairs (gr_edges g) l))) nb w"
proof (induction n arbitrary: i nb w)
  case 0
  then show ?case by (simp add: list_pairs_def)
next
  case (Suc n)
  then have i: "i < length (list_items l)" by simp
  then obtain e where e: "list_items l ! i = Some e" using l(2) nth_mem by fastforce
  let ?to = "ge_to (edge_at (gr_edges g) e)"
  have get: "fst (list_get l (int i)) = Some e" using growable_get [OF l(1), of "int i"] i e by simp
  have len: "i < length (list_pairs (gr_edges g) l)" using i by (simp add: list_pairs_def)
  have at: "fst (list_pairs (gr_edges g) l ! i) = ?to" using i e by (simp add: list_pairs_def)
  then have hv: "has_vertex g ?to" using all len by (metis image_eqI nth_mem)
  have d: "drop i (list_pairs (gr_edges g) l) = list_pairs (gr_edges g) l ! i # drop (Suc i) (list_pairs (gr_edges g) l)"
    using len by (simp add: Cons_nth_drop_Suc)
  have IH: "list_neighbors_loop g l (int i + 1) n nb w =
      collect_loop (map (\<lambda>q. id_cell (fst q)) (drop (Suc i) (list_pairs (gr_edges g) l))) nb w" for nb w
    using Suc.IH [of "Suc i" nb w] Suc.prems by (simp add: add.commute)
  show ?case
    using get hv at vertex_cell [OF g hv] unfolding d by (simp add: IH Let_def has_vertex_iff split: prod.splits)
qed

lemma matrix_neighbors_collect:
  assumes g: "graph_inv g" and some: "\<And>to. in_range g to \<Longrightarrow> m ! cell_index g v to \<noteq> GRAPH_NO_EDGE \<Longrightarrow> has_vertex g to"
  shows "int i + int n = vertex_capacity g \<Longrightarrow>
    matrix_neighbors_loop g m v (int i) n nb w =
      collect_loop (map (\<lambda>q. id_cell (fst q)) (filter (\<lambda>(to, x). x \<noteq> GRAPH_NO_EDGE)
        (map (\<lambda>to. (to, m ! cell_index g v to)) [int i..vertex_capacity g - 1]))) nb w"
proof (induction n arbitrary: i nb w)
  case (Suc n)
  then have i: "in_range g (int i)" by simp
  have up: "[int i..vertex_capacity g - 1] = int i # [int i + 1..vertex_capacity g - 1]" using i by (simp add: upto_rec1)
  have IH: "matrix_neighbors_loop g m v (int i + 1) n nb w =
      collect_loop (map (\<lambda>q. id_cell (fst q)) (filter (\<lambda>(to, x). x \<noteq> GRAPH_NO_EDGE)
        (map (\<lambda>to. (to, m ! cell_index g v to)) [int i + 1..vertex_capacity g - 1]))) nb w" for nb w
    using Suc.IH [of "Suc i" nb w] Suc.prems by (simp add: add.commute)
  show ?case
  proof (cases "m ! cell_index g v (int i) = GRAPH_NO_EDGE")
    case False
    then have hv: "has_vertex g (int i)" using some i by blast
    then show ?thesis
      using False vertex_cell [OF g hv] unfolding up by (simp add: IH has_vertex_iff split: prod.splits)
  qed (simp add: up IH)
qed simp

lemma neighbors_ready:
  assumes g: "graph_inv g" and w: "alloc_fails w = []"
  shows "\<exists>l w'. graph_get_neighbors_impl g v w = (Some l, w') \<and> alloc_fails w' = [] \<and> growable l \<and>
    list_items l = map (\<lambda>q. id_cell (fst q)) (adj_pairs g v)"
proof -
  obtain nb w1 where C: "create_list ARRAY_LIST 4 None w = (Some (nb :: nat list_obj), w1)" "growable nb" "list_items nb = []"
    "alloc_fails w1 = []" using create_growable [OF w, of 4] by (auto simp: INT_MAX_def)
  show ?thesis
  proof (cases "has_vertex g v")
    case False
    have "adj_pairs g v = []"
    proof (rule ccontr)
      assume "adj_pairs g v \<noteq> []"
      then have "fst (hd (adj_pairs g v)) \<in> fst ` set (adj_pairs g v)" by simp
      then show False using g False unfolding graph_inv_def by blast
    qed
    then show ?thesis using False C by (auto simp: graph_get_neighbors_impl_def)
  next
    case True
    then have v: "0 \<le> v" "v < vertex_capacity g" "present g ! nat v" by (simp_all add: has_vertex_iff)
    have all: "\<forall>to\<in>fst ` set (adj_pairs g v). has_vertex g to" using g unfolding graph_inv_def by blast
    let ?xs = "map (\<lambda>q. id_cell (fst q)) (adj_pairs g v)"
    have "length (list_items nb) + length ?xs \<le> INT_MAX" using C(3) adj_pairs_short [OF g, of v] by simp
    from growable_collect [OF C(2,4) this] obtain l w' where L: "collect_loop ?xs nb w1 = (l, w')" "growable l"
      "list_items l = ?xs" "alloc_fails w' = []" using C(3) by auto
    have "graph_get_neighbors_impl g v w = (Some l, w')"
    proof (cases "gr_rep g")
      case GRAPH_ADJACENCY_LIST
      have ok: "lists_ok g" using g GRAPH_ADJACENCY_LIST by (simp add: graph_inv_def)
      obtain ls adj where A: "adj_lists g = Some ls" "ls ! nat v = Some adj" "list_ok (gr_edges g) (gr_brk g) adj"
        using present_list [OF ok v] by blast
      have pairs: "adj_pairs g v = list_pairs (gr_edges g) adj" using adj_pairs_list [OF GRAPH_ADJACENCY_LIST A(1) v(1,2)] A(2) by simp
      have adj: "growable adj" "\<forall>p\<in>set (list_items adj). p \<noteq> NULL" using A(3) unfolding list_ok_def by blast+
      have "list_neighbors_loop g adj (int 0) (length (list_items adj)) nb w1 = (l, w')"
        using list_neighbors_collect [OF g adj, of 0 "length (list_items adj)" nb w1] all L(1) unfolding pairs by simp
      then show ?thesis
        using True GRAPH_ADJACENCY_LIST C(1) A v(1,2) growable_size [OF adj(1)]
        by (simp add: graph_get_neighbors_impl_def graph_adj_list_get_neighbors_def)
    next
      case GRAPH_ADJACENCY_MATRIX
      obtain m where m: "adj_matrix g = Some m" using g GRAPH_ADJACENCY_MATRIX by (auto simp: graph_inv_def matrix_ok_def)
      have pairs: "adj_pairs g v = filter (\<lambda>(to, x). x \<noteq> GRAPH_NO_EDGE)
          (map (\<lambda>to. (to, m ! cell_index g v to)) [0..vertex_capacity g - 1])"
        using v GRAPH_ADJACENCY_MATRIX m by (simp add: adj_pairs_def)
      have "has_vertex g to" if "in_range g to" "m ! cell_index g v to \<noteq> GRAPH_NO_EDGE" for to
        using all that unfolding pairs by (auto simp: image_iff)
      from matrix_neighbors_collect [OF g this, where i = 0 and n = "nat (vertex_capacity g)" and nb = nb and w = w1]
      have "matrix_neighbors_loop g m v 0 (nat (vertex_capacity g)) nb w1 = (l, w')"
        using L(1) v unfolding pairs by simp
      then show ?thesis
        using True GRAPH_ADJACENCY_MATRIX C(1) m v by (simp add: graph_get_neighbors_impl_def graph_adj_matrix_get_neighbors_def)
    qed
    then show ?thesis using L by blast
  qed
qed

definition initial_graph ::
  "graph_type \<Rightarrow> graph_representation \<Rightarrow> graph_traversal_strategy \<Rightarrow> graph_min_path_strategy \<Rightarrow> graph_impl" where
  "initial_graph type rep tr mp = \<lparr>gr_type = type, gr_rep = rep, gr_traversal = tr, gr_min_path = mp, vertex_capacity = 8,
     vertex_count = 0, present = replicate 8 False, vertex_ptrs = replicate 8 NULL,
     adj_lists = (if rep = GRAPH_ADJACENCY_LIST then Some (replicate 8 None) else None),
     adj_matrix = (if rep = GRAPH_ADJACENCY_LIST then None else Some (replicate 64 GRAPH_NO_EDGE)),
     gr_edges = Map.empty, gr_brk = 0\<rparr>"

lemma create_graph_ready:
  assumes "alloc_fails w = []"
  shows "create_graph type rep tr mp w = (Some (initial_graph type rep tr mp), w)"
proof -
  have m: "malloc_struct w = (True, w)" "malloc 8 w = (True, w)" "ptr_bytes 8 \<le> PTRDIFF_MAX"
    using assms ptr_bytes_fits [of 8] by (simp_all add: malloc_struct_no_failures malloc_no_failures PTRDIFF_MAX_def INT_MAX_def)
  have c: "calloc_ptrs 8 w = (Some (replicate 8 NULL), w)" using m(3) assms by (simp add: calloc_ptrs_def malloc_no_failures)
  have mm: "malloc_matrix 8 w = (Some (replicate 64 GRAPH_NO_EDGE), w)" using malloc_matrix_ready [of 8 8 w] assms by simp
  show ?thesis
    using m c mm assms
    by (cases rep) (simp_all add: create_graph_def graph_init_storage_def clamp_graph_capacity_def Let_def initial_graph_def malloc_no_failures)
qed

lemma create_graph_inv:
  assumes "create_graph type rep tr mp w = (Some g, w')" "alloc_fails w = []"
  shows "graph_inv g \<and> alloc_fails w' = [] \<and> edge_map g = Map.empty \<and> (\<forall>v. \<not> has_vertex g v) \<and> gr_type g = type \<and>
    gr_rep g = rep \<and> gr_traversal g = tr \<and> gr_min_path g = mp"
proof -
  have g: "g = initial_graph type rep tr mp" "w' = w" using create_graph_ready [OF assms(2)] assms(1) by simp_all
  note g0_def = initial_graph_def
  have cap: "vertex_capacity g = 8 * 2 ^ 0" "gr_rep g = rep" by (simp_all add: g g0_def)
  have none: "\<not> has_vertex g v" for v by (auto simp: has_vertex_iff g g0_def)
  have pairs: "adj_pairs g v = []" for v
  proof (cases rep)
    case GRAPH_ADJACENCY_LIST
    have "replicate 8 None ! nat v = (None :: nat list_obj option)" if "0 \<le> v" "v < 8"
      using that by (intro nth_replicate) simp
    then show ?thesis
      using GRAPH_ADJACENCY_LIST by (cases "0 \<le> v \<and> v < 8") (auto simp: adj_pairs_def g g0_def)
  next
    case GRAPH_ADJACENCY_MATRIX
    have "graph_cell g v to = GRAPH_NO_EDGE" if "in_range g v" "in_range g to" for to
      using cell_index_inside [of g v to] that GRAPH_ADJACENCY_MATRIX by (simp add: g g0_def)
    then show ?thesis using GRAPH_ADJACENCY_MATRIX cap by (auto simp: adj_pairs_def filter_empty_conv)
  qed
  have "graph_base g"
    unfolding graph_base_def
  proof (intro conjI)
    show "\<exists>k. vertex_capacity g = 8 * 2 ^ k" using cap by blast
    have "{v. has_vertex g v} = {}" using none by blast
    moreover have "vertex_count g = 0" by (simp add: g g0_def)
    ultimately show "vertex_count g = int (card {v. has_vertex g v})" by simp
  qed (simp_all add: g g0_def rep_limit_def)
  moreover have "if gr_rep g = GRAPH_ADJACENCY_LIST then lists_ok g else matrix_ok g"
    by (cases rep) (simp_all add: g g0_def lists_ok_def matrix_ok_def)
  ultimately have "graph_inv g" by (simp add: graph_inv_def pairs)
  then show ?thesis using none pairs g assms(2) by (simp add: edge_map_def fun_eq_iff g0_def)
qed

section \<open>Sequences of calls\<close>

datatype graph_cmd =
  Add_Vertex int | Add_Edge int int double | Remove_Edge int int | Has_Vertex int | Has_Edge int int
  | Edge_Weight int int | Vertex_Count | Neighbors int

datatype graph_reply =
  Graph_Done | Graph_Bool bool | Graph_Weight double | Graph_Int int | Graph_Ids "nat list option"

text \<open>The neighbours are compared as sorted lists of ids: the two representations list them in
  different orders.\<close>

fun graph_exec :: "graph_cmd \<Rightarrow> graph_impl \<Rightarrow> nat world \<Rightarrow> (graph_reply \<times> graph_impl \<times> nat world) option" where
  "graph_exec (Add_Vertex v) g w = map_option (Pair Graph_Done) (graph_add_vertex_impl g v w)"
| "graph_exec (Add_Edge u v x) g w = map_option (Pair Graph_Done) (graph_add_edge_impl g u v x w)"
| "graph_exec (Remove_Edge u v) g w = Some (Graph_Done, graph_remove_edge_impl g u v, w)"
| "graph_exec (Has_Vertex v) g w = Some (Graph_Bool (graph_has_vertex_impl (Some g) v), g, w)"
| "graph_exec (Has_Edge u v) g w = Some (Graph_Bool (graph_has_edge_impl g u v), g, w)"
| "graph_exec (Edge_Weight u v) g w = Some (Graph_Weight (graph_get_edge_weight_impl g u v), g, w)"
| "graph_exec Vertex_Count g w = Some (Graph_Int (graph_vertex_count_impl (Some g)), g, w)"
| "graph_exec (Neighbors v) g w =
     (case graph_get_neighbors_impl g v w of
        (l, w) \<Rightarrow> Some (Graph_Ids (map_option (\<lambda>l. sort (map the (list_items l))) l), g, w))"

fun graph_run :: "graph_cmd list \<Rightarrow> graph_impl \<Rightarrow> nat world \<Rightarrow> (graph_reply list \<times> graph_impl \<times> nat world) option" where
  "graph_run [] g w = Some ([], g, w)"
| "graph_run (c # cs) g w =
     (case graph_exec c g w of
        None \<Rightarrow> None
      | Some (r, g, w) \<Rightarrow> (case graph_run cs g w of None \<Rightarrow> None | Some (rs, g, w) \<Rightarrow> Some (r # rs, g, w)))"

text \<open>The abstract graph: its vertices, and its weighted edges by their ends.\<close>

type_synonym abs_graph = "int list \<times> ((int \<times> int) \<times> double) list"

fun abs_exec :: "graph_type \<Rightarrow> graph_cmd \<Rightarrow> abs_graph \<Rightarrow> graph_reply \<times> abs_graph" where
  "abs_exec type (Add_Vertex v) (vs, es) = (Graph_Done, List.insert v vs, es)"
| "abs_exec type (Add_Edge u v x) (vs, es) =
     (Graph_Done, List.insert v (List.insert u vs),
      if type = GRAPH_UNDIRECTED \<and> u \<noteq> v then AList.update (v, u) x (AList.update (u, v) x es) else AList.update (u, v) x es)"
| "abs_exec type (Remove_Edge u v) (vs, es) =
     (Graph_Done, vs,
      if type = GRAPH_UNDIRECTED \<and> u \<noteq> v then AList.delete (v, u) (AList.delete (u, v) es) else AList.delete (u, v) es)"
| "abs_exec type (Has_Vertex v) (vs, es) = (Graph_Bool (v \<in> set vs), vs, es)"
| "abs_exec type (Has_Edge u v) (vs, es) = (Graph_Bool (map_of es (u, v) \<noteq> None), vs, es)"
| "abs_exec type (Edge_Weight u v) (vs, es) =
     (Graph_Weight (case map_of es (u, v) of None \<Rightarrow> GRAPH_NO_EDGE | Some x \<Rightarrow> x), vs, es)"
| "abs_exec type Vertex_Count (vs, es) = (Graph_Int (int (length vs)), vs, es)"
| "abs_exec type (Neighbors u) (vs, es) =
     (Graph_Ids (Some (sort (map (\<lambda>e. nat (snd (fst e))) (filter (\<lambda>e. fst (fst e) = u) es)))), vs, es)"

fun abs_run :: "graph_type \<Rightarrow> graph_cmd list \<Rightarrow> abs_graph \<Rightarrow> graph_reply list \<times> abs_graph" where
  "abs_run type [] a = ([], a)"
| "abs_run type (c # cs) a = (case abs_exec type c a of (r, a) \<Rightarrow> case abs_run type cs a of (rs, a) \<Rightarrow> (r # rs, a))"

text \<open>Ids the representation can hold, and weights that are not the mark of a missing edge.\<close>

fun graph_cmd_ok :: "graph_representation \<Rightarrow> graph_cmd \<Rightarrow> bool" where
  "graph_cmd_ok rep (Add_Vertex v) \<longleftrightarrow> 0 \<le> v \<and> v < rep_limit rep"
| "graph_cmd_ok rep (Add_Edge u v x) \<longleftrightarrow>
     0 \<le> u \<and> u < rep_limit rep \<and> 0 \<le> v \<and> v < rep_limit rep \<and> x \<noteq> GRAPH_NO_EDGE"
| "graph_cmd_ok rep _ \<longleftrightarrow> True"

definition graph_holds :: "graph_impl \<Rightarrow> abs_graph \<Rightarrow> bool" where
  "graph_holds g a \<longleftrightarrow> graph_inv g \<and> set (fst a) = {v. has_vertex g v} \<and> distinct (fst a) \<and>
     edge_map g = map_of (snd a) \<and> distinct (map fst (snd a))"

lemma both_ways_update:
  "both_ways type u v (Some x) (map_of es) = map_of (if type = GRAPH_UNDIRECTED \<and> u \<noteq> v
     then AList.update (v, u) x (AList.update (u, v) x es) else AList.update (u, v) x es)"
  by (simp add: both_ways_def update_conv')

lemma both_ways_delete:
  "both_ways type u v None (map_of es) = map_of (if type = GRAPH_UNDIRECTED \<and> u \<noteq> v
     then AList.delete (v, u) (AList.delete (u, v) es) else AList.delete (u, v) es)"
  by (simp add: both_ways_def delete_conv')

lemma neighbor_ids:
  assumes "graph_holds g (vs, es)"
  shows "sort (map (\<lambda>q. nat (fst q)) (adj_pairs g u)) = sort (map (\<lambda>e. nat (snd (fst e))) (filter (\<lambda>e. fst (fst e) = u) es))"
proof (rule sorted_distinct_set_unique)
  have g: "graph_inv g" "edge_map g = map_of es" "distinct (map fst es)" using assms by (simp_all add: graph_holds_def)
  have keys: "v \<in> fst ` set (adj_pairs g u) \<longleftrightarrow> (u, v) \<in> fst ` set es" for v
  proof -
    have "map_of (adj_pairs g u) v \<noteq> None \<longleftrightarrow> map_of es (u, v) \<noteq> None" using g(2) by (simp add: edge_map_def fun_eq_iff)
    then show ?thesis by (simp only: map_of_eq_None_iff not_not)
  qed
  have nonneg: "0 \<le> v" if "v \<in> fst ` set (adj_pairs g u)" for v
  proof -
    have "has_vertex g v" using that g(1) unfolding graph_inv_def by blast
    then show ?thesis by (simp add: has_vertex_iff)
  qed
  show "distinct (sort (map (\<lambda>q. nat (fst q)) (adj_pairs g u)))"
  proof -
    have "inj_on nat (fst ` set (adj_pairs g u))" using nonneg by (intro inj_onI) (metis eq_nat_nat_iff)
    then have "distinct (map nat (map fst (adj_pairs g u)))"
      using adj_pairs_distinct [OF g(1)] unfolding distinct_map [of nat] set_map by blast
    then show ?thesis by (simp only: map_map comp_def distinct_sort)
  qed
  have ends: "set (map (\<lambda>e. snd (fst e)) (filter (\<lambda>e. fst (fst e) = u) es)) = fst ` set (adj_pairs g u)"
    using keys by (auto simp: image_iff) (metis fst_conv prod.collapse snd_conv)+
  show "distinct (sort (map (\<lambda>e. nat (snd (fst e))) (filter (\<lambda>e. fst (fst e) = u) es)))"
  proof -
    have "distinct (map fst (filter (\<lambda>e. fst (fst e) = u) es))" using g(3) by (rule distinct_map_filter)
    moreover have "inj_on (\<lambda>p. nat (snd p)) (fst ` set (filter (\<lambda>e. fst (fst e) = u) es))"
    proof (rule inj_onI)
      fix p q
      assume pq: "p \<in> fst ` set (filter (\<lambda>e. fst (fst e) = u) es)" "q \<in> fst ` set (filter (\<lambda>e. fst (fst e) = u) es)"
        "nat (snd p) = nat (snd q)"
      then have "0 \<le> snd p" "0 \<le> snd q" using ends nonneg by auto
      then have "snd p = snd q" using pq(3) by simp
      moreover have "fst p = u" "fst q = u" using pq(1,2) by auto
      ultimately show "p = q" by (metis prod.collapse)
    qed
    ultimately have "distinct (map (\<lambda>p. nat (snd p)) (map fst (filter (\<lambda>e. fst (fst e) = u) es)))"
      unfolding distinct_map [of "\<lambda>p. nat (snd p)"] set_map by blast
    then show ?thesis by (simp only: map_map comp_def distinct_sort)
  qed
  have "set (map (\<lambda>e. nat (snd (fst e))) (filter (\<lambda>e. fst (fst e) = u) es)) =
      nat ` set (map (\<lambda>e. snd (fst e)) (filter (\<lambda>e. fst (fst e) = u) es))" by auto
  then show "set (sort (map (\<lambda>q. nat (fst q)) (adj_pairs g u))) =
      set (sort (map (\<lambda>e. nat (snd (fst e))) (filter (\<lambda>e. fst (fst e) = u) es)))"
    unfolding set_sort ends by auto
qed simp_all

lemma graph_exec_holds:
  assumes h: "graph_holds g a" and c: "graph_cmd_ok (gr_rep g) c" and w: "alloc_fails w = []"
  shows "\<exists>g' w'. graph_exec c g w = Some (fst (abs_exec (gr_type g) c a), g', w') \<and>
    graph_holds g' (snd (abs_exec (gr_type g) c a)) \<and> same_graph g g' \<and> alloc_fails w' = []"
proof -
  obtain vs es where a: "a = (vs, es)" by (cases a)
  have g: "graph_inv g" "edge_map g = map_of es" "distinct (map fst es)" "set vs = {v. has_vertex g v}" "distinct vs"
    using h by (simp_all add: graph_holds_def a)
  show ?thesis
  proof (cases c)
    case (Add_Vertex v)
    then obtain g' w' where "graph_add_vertex_impl g v w = Some (g', w')" "graph_inv g'" "same_graph g g'" "alloc_fails w' = []"
      "edge_map g' = edge_map g" "\<forall>u. has_vertex g' u = (u = v \<or> has_vertex g u)"
      using add_vertex_ready [OF g(1) _ _ w, of v] c by auto
    then show ?thesis using Add_Vertex g a by (auto simp: graph_holds_def)
  next
    case (Add_Edge u v x)
    then obtain g' w' where A: "graph_add_edge_impl g u v x w = Some (g', w')" "graph_inv g'" "same_graph g g'" "alloc_fails w' = []"
      "edge_map g' = both_ways (gr_type g) u v (Some x) (edge_map g)" "\<forall>y. has_vertex g' y = (y = u \<or> y = v \<or> has_vertex g y)"
      using add_edge_ready [OF g(1) _ _ _ _ _ w, of u v x] c by auto
    have "graph_holds g' (snd (abs_exec (gr_type g) c a))"
      using A(2,5,6) g unfolding Add_Edge a graph_holds_def g(2) both_ways_update by (auto simp: distinct_update)
    then show ?thesis using A Add_Edge a by (intro exI [of _ g'] exI [of _ w']) simp
  next
    case (Remove_Edge u v)
    let ?g = "graph_remove_edge_impl g u v"
    have R: "graph_inv ?g" "same_vertices g ?g" "edge_map ?g = (if has_vertex g u \<and> has_vertex g v
        then both_ways (gr_type g) u v None (edge_map g) else edge_map g)" using remove_edge_map [OF g(1)] by simp_all
    have "edge_map ?g = both_ways (gr_type g) u v None (edge_map g)"
    proof (cases "has_vertex g u \<and> has_vertex g v")
      case False
      then have "edge_map g (u, v) = None" "edge_map g (v, u) = None"
        using graph_inv_edges [OF g(1)] by (metis not_Some_eq)+
      then show ?thesis using R(3) False by (auto simp: both_ways_def fun_eq_iff)
    qed (use R(3) in simp)
    then have "graph_holds ?g (snd (abs_exec (gr_type g) c a))"
      using R(1) g same_vertices_simps(7) [OF R(2)]
      unfolding Remove_Edge a graph_holds_def g(2) both_ways_delete by (auto simp: distinct_delete)
    then show ?thesis using R(2) w Remove_Edge a same_graph_simps(5) by (intro exI [of _ ?g] exI [of _ w]) simp
  next
    case (Has_Vertex v)
    then show ?thesis using g h w a by (auto simp: same_graph_simps)
  next
    case (Has_Edge u v)
    then show ?thesis using edge_queries [OF g(1), of u v] g h w a by (auto simp: same_graph_simps)
  next
    case (Edge_Weight u v)
    then show ?thesis using edge_queries [OF g(1), of u v] g h w a by (auto simp: same_graph_simps)
  next
    case Vertex_Count
    have "card {v. has_vertex g v} = length vs" using g(4,5) distinct_card by metis
    then have "vertex_count g = int (length vs)" using g(1) by (simp add: graph_inv_def graph_base_def)
    then show ?thesis using Vertex_Count h w a by (auto simp: same_graph_simps graph_vertex_count_impl_def)
  next
    case (Neighbors u)
    obtain l w' where N: "graph_get_neighbors_impl g u w = (Some l, w')" "alloc_fails w' = []" "growable l"
      "list_items l = map (\<lambda>q. id_cell (fst q)) (adj_pairs g u)" using neighbors_ready [OF g(1) w] by blast
    have "sort (map the (list_items l)) = sort (map (\<lambda>q. nat (fst q)) (adj_pairs g u))"
      unfolding N(4) by (simp add: comp_def id_cell_def)
    then show ?thesis
      using Neighbors N(1,2) h a neighbor_ids [of g vs es u] by (auto simp: same_graph_simps)
  qed
qed

lemma graph_run_holds:
  assumes "graph_holds g a" "list_all (graph_cmd_ok (gr_rep g)) cs" "alloc_fails w = []"
  shows "\<exists>g' w'. graph_run cs g w = Some (fst (abs_run (gr_type g) cs a), g', w') \<and>
    graph_holds g' (snd (abs_run (gr_type g) cs a)) \<and> same_graph g g' \<and> alloc_fails w' = []"
  using assms
proof (induction cs arbitrary: g a w)
  case (Cons c cs)
  have ok: "graph_cmd_ok (gr_rep g) c" "list_all (graph_cmd_ok (gr_rep g)) cs" using Cons.prems(2) by simp_all
  obtain g1 w1 where E: "graph_exec c g w = Some (fst (abs_exec (gr_type g) c a), g1, w1)"
    "graph_holds g1 (snd (abs_exec (gr_type g) c a))" "same_graph g g1" "alloc_fails w1 = []"
    using graph_exec_holds [OF Cons.prems(1) ok(1) Cons.prems(3)] by blast
  have cfg: "gr_rep g1 = gr_rep g" "gr_type g1 = gr_type g" using E(3) by (simp_all add: same_graph_simps)
  from Cons.IH [OF E(2) _ E(4)] ok(2) obtain g2 w2 where
    "graph_run cs g1 w1 = Some (fst (abs_run (gr_type g) cs (snd (abs_exec (gr_type g) c a))), g2, w2)"
    "graph_holds g2 (snd (abs_run (gr_type g) cs (snd (abs_exec (gr_type g) c a))))" "same_graph g1 g2" "alloc_fails w2 = []"
    unfolding cfg by blast
  then show ?case using E same_graph_simps(4) [OF E(3)] by (auto split: prod.splits)
qed (simp add: same_graph_simps)

section \<open>Properties\<close>

text \<open>C22: both representations of a graph are the same graph: any sequence of calls that add and
  remove vertices and edges and ask for edges, weights, neighbours and counts answers as the
  abstract graph of vertices and weighted edges, through every growth of the storage, as long as ids
  are below \<open>2 ^ 30\<close> (\<open>2 ^ 15\<close> for a matrix) and no weight is infinite.\<close>

theorem graph_refines_abstract_graph:
  assumes "create_graph type rep tr mp w = (Some g, w')" "alloc_fails w = []" "list_all (graph_cmd_ok rep) cs"
  shows "\<exists>g' w''. graph_run cs g w' = Some (fst (abs_run type cs ([], [])), g', w'')"
proof -
  note C = create_graph_inv [OF assms(1,2)]
  have "graph_holds g ([], [])" using C by (simp add: graph_holds_def)
  from graph_run_holds [OF this, of cs w'] C assms(3) show ?thesis by auto
qed

theorem graph_refines_abstract_graph_witness:
  "\<exists>g w g' w'. create_graph GRAPH_UNDIRECTED GRAPH_ADJACENCY_MATRIX GRAPH_TRAVERSE_BFS GRAPH_MIN_PATH_DIJKSTRA fresh_world = (Some g, w) \<and>
     graph_run [Add_Edge 3 20 7, Add_Edge 3 1 9, Remove_Edge 3 1, Has_Edge 20 3, Edge_Weight 20 3, Vertex_Count, Neighbors 3] g w =
       Some ([Graph_Done, Graph_Done, Graph_Done, Graph_Bool True, Graph_Weight 7, Graph_Int 3, Graph_Ids (Some [20])], g', w')"
proof -
  let ?cs = "[Add_Edge 3 20 7, Add_Edge 3 1 9, Remove_Edge 3 1, Has_Edge 20 3, Edge_Weight 20 3, Vertex_Count, Neighbors 3]"
  obtain g w where C: "create_graph GRAPH_UNDIRECTED GRAPH_ADJACENCY_MATRIX GRAPH_TRAVERSE_BFS GRAPH_MIN_PATH_DIJKSTRA fresh_world = (Some g, w)"
    using create_graph_ready [of fresh_world] by simp
  have "list_all (graph_cmd_ok GRAPH_ADJACENCY_MATRIX) ?cs" by (simp add: rep_limit_def GRAPH_NO_EDGE_def)
  from graph_refines_abstract_graph [OF C _ this]
  have "\<exists>g' w'. graph_run ?cs g w = Some (fst (abs_run GRAPH_UNDIRECTED ?cs ([], [])), g', w')" by simp
  moreover have "fst (abs_run GRAPH_UNDIRECTED ?cs ([], [])) =
      [Graph_Done, Graph_Done, Graph_Done, Graph_Bool True, Graph_Weight 7, Graph_Int 3, Graph_Ids (Some [20])]"
    by (simp add: List.insert_def)
  ultimately show ?thesis using C by metis
qed

text \<open>C23: the loop that doubles the capacity of a graph ends exactly for vertex ids below \<open>2 ^ 30\<close>
  (and for the greatest \<open>int\<close>, which is ignored): from there on the capacity overflows to zero and
  \<open>add_vertex\<close> never returns, whatever memory there is.\<close>

theorem graph_add_vertex_returns_iff:
  assumes "graph_inv g" "0 \<le> v" "v \<le> int INT_MAX"
  shows "graph_add_vertex_impl g v w \<noteq> None \<longleftrightarrow> v < 2 ^ 30 \<or> v = int INT_MAX"
proof -
  obtain k where k: "vertex_capacity g = 8 * 2 ^ k" "vertex_capacity g \<le> 2 ^ 30"
  proof -
    have B: "graph_base g" using assms(1) by (simp add: graph_inv_def)
    then obtain k where "vertex_capacity g = 8 * 2 ^ k" by (auto simp: graph_base_def)
    then show ?thesis using that graph_base_cap [OF B] by blast
  qed
  then have "(2 :: int) ^ k \<le> 2 ^ 27" by simp
  then have k27: "k \<le> 27" by (rule power_le_imp_le_exp [rotated]) simp
  have returns: "graph_add_vertex_impl g v w \<noteq> None \<longleftrightarrow> graph_ensure_capacity g v w \<noteq> None"
    using assms(2) by (auto simp: graph_add_vertex_impl_def is_valid_vertex_id_def Let_def split: option.splits prod.splits bool.splits)
  have loop: "graph_ensure_capacity g v w \<noteq> None \<longleftrightarrow>
      wrap_int (v + 1) \<le> vertex_capacity g \<or> double_until (wrap_int (v + 1)) (vertex_capacity g) \<noteq> None"
    using assms(2) k(1) by (auto simp: graph_ensure_capacity_def is_valid_vertex_id_def Let_def split: option.splits prod.splits)
  show ?thesis
  proof (cases "v = int INT_MAX")
    case True
    then have "wrap_int (v + 1) = - (2 ^ 31)" by (simp add: wrap_int_def INT_MAX_def)
    moreover have "0 \<le> vertex_capacity g" unfolding k(1) by simp
    ultimately have "wrap_int (v + 1) \<le> vertex_capacity g" by simp
    then show ?thesis using returns loop True by blast
  next
    case False
    then have "is_int (v + 1)" using assms by (simp add: is_int_def INT_MAX_def)
    then have req: "wrap_int (v + 1) = v + 1" by (rule wrap_int_id)
    show ?thesis
    proof (cases "v < 2 ^ 30")
      case True
      then have "double_until (v + 1) (8 * 2 ^ k) \<noteq> None" using double_until_ends [OF k27 order_refl, of "v + 1"] by auto
      then show ?thesis using returns loop True unfolding req k(1) by blast
    next
      case big: False
      then have "double_until (v + 1) (8 * 2 ^ k) = None" by (intro double_until_diverges [OF k27]) simp
      moreover have "\<not> v + 1 \<le> vertex_capacity g" using k(2) big by simp
      ultimately show ?thesis using returns loop big False unfolding req k(1) by blast
    qed
  qed
qed

theorem graph_add_vertex_returns_iff_witness:
  "\<exists>g w. create_graph GRAPH_DIRECTED GRAPH_ADJACENCY_LIST GRAPH_TRAVERSE_BFS GRAPH_MIN_PATH_DIJKSTRA fresh_world = (Some g, w) \<and>
     graph_add_vertex_impl g (2 ^ 30) w = None \<and> graph_add_vertex_impl g (2 ^ 30 - 1) w \<noteq> None"
proof -
  obtain g w where C: "create_graph GRAPH_DIRECTED GRAPH_ADJACENCY_LIST GRAPH_TRAVERSE_BFS GRAPH_MIN_PATH_DIJKSTRA fresh_world = (Some g, w)"
    using create_graph_ready [of fresh_world] by simp
  have g: "graph_inv g" using create_graph_inv [OF C] by simp
  have "graph_add_vertex_impl g (2 ^ 30) w = None" "graph_add_vertex_impl g (2 ^ 30 - 1) w \<noteq> None"
    using graph_add_vertex_returns_iff [OF g, of "2 ^ 30" w] graph_add_vertex_returns_iff [OF g, of "2 ^ 30 - 1" w]
    by (simp_all add: INT_MAX_def del: not_None_eq not_Some_eq)
  then show ?thesis using C by blast
qed

end
