(* ===== verification/Graph_Search.thy ===== *)
theory Graph_Search
  imports Graphs Linked_Queue Stacks
begin

text \<open>
  The traversals of \<open>src/graph/graph_algorithms.c\<close> over either representation of a graph:
  breadth-first search with the linked queue, depth-first search with the array stack and by
  recursion, and the connected components. A vertex number travels through queues and stacks as a
  pointer, \<open>(void *)(intptr_t)v\<close>, so vertex 0 is the null pointer. Searches that might not end give
  \<open>None\<close>.
\<close>

section \<open>Visiting neighbours\<close>

definition int_ptr :: "int \<Rightarrow> nat ptr" where
  "int_ptr v = (if v = 0 then NULL else Some (nat v))"

definition ptr_int :: "nat ptr \<Rightarrow> int" where
  "ptr_int p = (case p of NULL \<Rightarrow> 0 | Some a \<Rightarrow> int a)"

definition graph_is_valid_vertex :: "graph_impl \<Rightarrow> int \<Rightarrow> bool" where
  "graph_is_valid_vertex g v \<longleftrightarrow> v \<ge> 0 \<and> v < vertex_capacity g \<and> present g ! nat v"

text \<open>The valid ends of the edges of a vertex, in the order the loops of every search meet them: by
  position in an adjacency list, by number in a row of the matrix.\<close>

fun list_targets :: "graph_impl \<Rightarrow> nat list_obj \<Rightarrow> int \<Rightarrow> nat \<Rightarrow> int list" where
  "list_targets g adj i 0 = []"
| "list_targets g adj i (Suc n) =
     (case fst (list_get adj i) of
        NULL \<Rightarrow> list_targets g adj (i + 1) n
      | Some e \<Rightarrow>
         (let to = ge_to (edge_at (gr_edges g) e) in
          if \<not> graph_is_valid_vertex g to then list_targets g adj (i + 1) n
          else to # list_targets g adj (i + 1) n))"

fun matrix_targets :: "graph_impl \<Rightarrow> double list \<Rightarrow> int \<Rightarrow> int \<Rightarrow> nat \<Rightarrow> int list" where
  "matrix_targets g m v to 0 = []"
| "matrix_targets g m v to (Suc n) =
     (if \<not> graph_is_valid_vertex g to \<or> m ! cell_index g v to = GRAPH_NO_EDGE
      then matrix_targets g m v (to + 1) n
      else to # matrix_targets g m v (to + 1) n)"

definition edge_targets :: "graph_impl \<Rightarrow> int \<Rightarrow> int list" where
  "edge_targets g v =
     (case gr_rep g of
        GRAPH_ADJACENCY_LIST \<Rightarrow>
          (case adj_lists g of
             None \<Rightarrow> []
           | Some ls \<Rightarrow>
              (case ls ! nat v of None \<Rightarrow> [] | Some adj \<Rightarrow> list_targets g adj 0 (nat (list_size adj))))
      | GRAPH_ADJACENCY_MATRIX \<Rightarrow>
          (case adj_matrix g of None \<Rightarrow> [] | Some m \<Rightarrow> matrix_targets g m v 0 (nat (vertex_capacity g))))"

definition create_vertex_list :: "graph_impl \<Rightarrow> nat world \<Rightarrow> nat list_obj option \<times> nat world" where
  "create_vertex_list g w = create_list ARRAY_LIST (if vertex_count g > 0 then vertex_count g else 4) None w"

text \<open>\<open>order->insert(order, g->vertex_ptrs[v], order->size(order))\<close>, the error code dropped.\<close>

definition add_to_order :: "graph_impl \<Rightarrow> int \<Rightarrow> nat list_obj \<Rightarrow> nat world \<Rightarrow> nat list_obj \<times> nat world" where
  "add_to_order g v order w =
     (case list_insert order (vertex_ptrs g ! nat v) (list_size order) w of (_, order, w) \<Rightarrow> (order, w))"

section \<open>Breadth-first search\<close>

fun enqueue_targets ::
  "int list \<Rightarrow> bool list \<Rightarrow> nat linked_queue \<Rightarrow> nat world \<Rightarrow> bool list \<times> nat linked_queue \<times> nat world" where
  "enqueue_targets [] visited q w = (visited, q, w)"
| "enqueue_targets (to # tos) visited q w =
     (if visited ! nat to then enqueue_targets tos visited q w
      else (case linked_enqueue_method q (int_ptr to) w of
              (_, q, w) \<Rightarrow> enqueue_targets tos (visited[nat to := True]) q w))"

partial_function (option) bfs_loop ::
  "graph_impl \<Rightarrow> bool list \<Rightarrow> nat linked_queue \<Rightarrow> nat list_obj \<Rightarrow> nat world \<Rightarrow>
     (bool list \<times> nat linked_queue \<times> nat list_obj \<times> nat world) option" where
  "bfs_loop g visited q order w =
     (if linked_is_empty (Some q) \<noteq> 0 then Some (visited, q, order, w)
      else
       (case linked_dequeue_impl q of
          (x, q) \<Rightarrow>
           (case add_to_order g (ptr_int x) order w of
              (order, w) \<Rightarrow>
               (case enqueue_targets (edge_targets g (ptr_int x)) visited q w of
                  (visited, q, w) \<Rightarrow> bfs_loop g visited q order w))))"

definition graph_bfs_impl :: "graph_impl \<Rightarrow> int \<Rightarrow> nat world \<Rightarrow> (nat list_obj option \<times> nat world) option" where
  "graph_bfs_impl g start_vertex w =
     (case create_vertex_list g w of
        (None, w) \<Rightarrow> Some (None, w)
      | (Some order, w) \<Rightarrow>
         (if \<not> graph_is_valid_vertex g start_vertex then Some (Some order, w)
          else
           (case malloc (nat (vertex_capacity g)) w of (ok, w) \<Rightarrow>
            case create_linked_queue w of (q, w) \<Rightarrow>
              (case q of
                 None \<Rightarrow> Some (None, list_free order w)
               | Some q \<Rightarrow>
                   (if \<not> ok then Some (None, list_free order w)
                    else
                     (case linked_enqueue_method q (int_ptr start_vertex) w of
                        (_, q, w) \<Rightarrow>
                          (case bfs_loop g ((replicate (nat (vertex_capacity g)) False)[nat start_vertex := True]) q order w of
                             None \<Rightarrow> None
                           | Some (_, _, order, w) \<Rightarrow> Some (Some order, w))))))))"

section \<open>Depth-first search\<close>

fun push_targets :: "int list \<Rightarrow> bool list \<Rightarrow> nat stack_obj \<Rightarrow> nat world \<Rightarrow> nat stack_obj \<times> nat world" where
  "push_targets [] visited st w = (st, w)"
| "push_targets (to # tos) visited st w =
     (if visited ! nat to then push_targets tos visited st w
      else (case stack_push st (int_ptr to) w of (_, st, w) \<Rightarrow> push_targets tos visited st w))"

partial_function (option) dfs_loop ::
  "graph_impl \<Rightarrow> bool list \<Rightarrow> nat stack_obj \<Rightarrow> nat list_obj \<Rightarrow> nat world \<Rightarrow> (nat list_obj \<times> nat world) option" where
  "dfs_loop g visited st order w =
     (if stack_is_empty st \<noteq> 0 then Some (order, w)
      else
       (case stack_pop st of
          (x, st) \<Rightarrow>
            (if visited ! nat (ptr_int x) then dfs_loop g visited st order w
             else
              (case add_to_order g (ptr_int x) order w of
                 (order, w) \<Rightarrow>
                   (case push_targets (rev (edge_targets g (ptr_int x))) (visited[nat (ptr_int x) := True]) st w of
                      (st, w) \<Rightarrow> dfs_loop g (visited[nat (ptr_int x) := True]) st order w)))))"

definition graph_dfs_iterative_impl :: "graph_impl \<Rightarrow> int \<Rightarrow> nat world \<Rightarrow> (nat list_obj option \<times> nat world) option" where
  "graph_dfs_iterative_impl g start_vertex w =
     (case create_vertex_list g w of
        (None, w) \<Rightarrow> Some (None, w)
      | (Some order, w) \<Rightarrow>
         (if \<not> graph_is_valid_vertex g start_vertex then Some (Some order, w)
          else
           (case malloc (nat (vertex_capacity g)) w of (ok, w) \<Rightarrow>
            case create_stack ARRAY_STACK w of (st, w) \<Rightarrow>
              (case st of
                 None \<Rightarrow> Some (None, list_free order w)
               | Some st \<Rightarrow>
                   (if \<not> ok then Some (None, list_free order (stack_free (Some st) w))
                    else
                     (case stack_push st (int_ptr start_vertex) w of
                        (_, st, w) \<Rightarrow>
                          (case dfs_loop g (replicate (nat (vertex_capacity g)) False) st order w of
                             None \<Rightarrow> None
                           | Some (order, w) \<Rightarrow> Some (Some order, w))))))))"

text \<open>The loop over the targets of a vertex, with the recursive visit of each unvisited one.\<close>

partial_function (option) dfs_visit_targets ::
  "graph_impl \<Rightarrow> int list \<Rightarrow> bool list \<Rightarrow> nat list_obj \<Rightarrow> nat world \<Rightarrow> (bool list \<times> nat list_obj \<times> nat world) option" where
  "dfs_visit_targets g tos visited order w =
     (case tos of
        [] \<Rightarrow> Some (visited, order, w)
      | to # tos \<Rightarrow>
         (if visited ! nat to then dfs_visit_targets g tos visited order w
          else
           (case add_to_order g to order w of
              (order, w) \<Rightarrow>
                Option.bind (dfs_visit_targets g (edge_targets g to) (visited[nat to := True]) order w)
                  (\<lambda>(visited, order, w). dfs_visit_targets g tos visited order w))))"

definition dfs_recursive_visit ::
  "graph_impl \<Rightarrow> int \<Rightarrow> bool list \<Rightarrow> nat list_obj \<Rightarrow> nat world \<Rightarrow> (bool list \<times> nat list_obj \<times> nat world) option" where
  "dfs_recursive_visit g v visited order w =
     (case add_to_order g v order w of
        (order, w) \<Rightarrow> dfs_visit_targets g (edge_targets g v) (visited[nat v := True]) order w)"

definition graph_dfs_recursive_impl :: "graph_impl \<Rightarrow> int \<Rightarrow> nat world \<Rightarrow> (nat list_obj option \<times> nat world) option" where
  "graph_dfs_recursive_impl g start_vertex w =
     (case create_vertex_list g w of
        (None, w) \<Rightarrow> Some (None, w)
      | (Some order, w) \<Rightarrow>
         (if \<not> graph_is_valid_vertex g start_vertex then Some (Some order, w)
          else
           (case malloc (nat (vertex_capacity g)) w of
              (False, w) \<Rightarrow> Some (None, list_free order w)
            | (True, w) \<Rightarrow>
                (case dfs_recursive_visit g start_vertex (replicate (nat (vertex_capacity g)) False) order w of
                   None \<Rightarrow> None
                 | Some (_, order, w) \<Rightarrow> Some (Some order, w)))))"

definition graph_traverse_method ::
  "graph_impl option \<Rightarrow> int \<Rightarrow> nat world \<Rightarrow> (nat list_obj option \<times> nat world) option" where
  "graph_traverse_method self start_vertex w =
     (case self of
        None \<Rightarrow> Some (None, w)
      | Some impl \<Rightarrow>
          (case gr_traversal impl of
             GRAPH_TRAVERSE_BFS \<Rightarrow> graph_bfs_impl impl start_vertex w
           | GRAPH_TRAVERSE_DFS_ITERATIVE \<Rightarrow> graph_dfs_iterative_impl impl start_vertex w
           | GRAPH_TRAVERSE_DFS_RECURSIVE \<Rightarrow> graph_dfs_recursive_impl impl start_vertex w))"

section \<open>Connected components\<close>

text \<open>The list of components holds pointers to lists: here the position of a list among those built.
  A component whose list is refused is skipped, its start stays unvisited.\<close>

fun components_loop ::
  "graph_impl \<Rightarrow> int \<Rightarrow> nat \<Rightarrow> bool list \<Rightarrow> nat linked_queue \<Rightarrow> nat list_obj \<Rightarrow> nat list_obj list \<Rightarrow> nat world \<Rightarrow>
     (nat list_obj \<times> nat list_obj list \<times> nat world) option" where
  "components_loop g start 0 visited q components comps w = Some (components, comps, w)"
| "components_loop g start (Suc n) visited q components comps w =
     (if \<not> graph_is_valid_vertex g start \<or> visited ! nat start
      then components_loop g (start + 1) n visited q components comps w
      else
       (case create_list ARRAY_LIST 4 None w of
          (None, w) \<Rightarrow> components_loop g (start + 1) n visited q components comps w
        | (Some component, w) \<Rightarrow>
           (case linked_enqueue_method q (int_ptr start) w of
              (_, q, w) \<Rightarrow>
               (case bfs_loop g (visited[nat start := True]) q component w of
                  None \<Rightarrow> None
                | Some (visited, q, component, w) \<Rightarrow>
                   (case list_insert components (Some (length comps)) (list_size components) w of
                      (_, components, w) \<Rightarrow>
                        components_loop g (start + 1) n visited q components (comps @ [component]) w)))))"

definition graph_connected_components_impl ::
  "graph_impl option \<Rightarrow> nat world \<Rightarrow> ((nat list_obj \<times> nat list_obj list) option \<times> nat world) option" where
  "graph_connected_components_impl g w =
     (case g of
        None \<Rightarrow> Some (None, w)
      | Some g \<Rightarrow>
         (if gr_type g \<noteq> GRAPH_UNDIRECTED then Some (None, w)
          else
           (case create_list ARRAY_LIST 4 None w of
              (None, w) \<Rightarrow> Some (None, w)
            | (Some components, w) \<Rightarrow>
               (case malloc (nat (vertex_capacity g)) w of (ok, w) \<Rightarrow>
                case create_linked_queue w of (q, w) \<Rightarrow>
                  (case q of
                     None \<Rightarrow> Some (None, list_free components w)
                   | Some q \<Rightarrow>
                       (if \<not> ok then Some (None, list_free components w)
                        else
                         (case components_loop g 0 (nat (vertex_capacity g))
                                 (replicate (nat (vertex_capacity g)) False) q components [] w of
                            None \<Rightarrow> None
                          | Some (components, comps, w) \<Rightarrow> Some (Some (components, comps), w))))))))"

section \<open>Targets are the edges\<close>

lemma valid_vertex: "graph_is_valid_vertex g v = has_vertex g v"
  by (auto simp: graph_is_valid_vertex_def has_vertex_iff)

lemma ptr_int_int_ptr [simp]: "0 \<le> v \<Longrightarrow> ptr_int (int_ptr v) = v"
  by (simp add: ptr_int_def int_ptr_def)

lemma list_targets_pairs:
  assumes "growable l" "\<forall>p\<in>set (list_items l). p \<noteq> NULL" "\<forall>to\<in>fst ` set (list_pairs (gr_edges g) l). has_vertex g to"
  shows "i + n = length (list_items l) \<Longrightarrow> list_targets g l (int i) n = map fst (drop i (list_pairs (gr_edges g) l))"
proof (induction n arbitrary: i)
  case 0
  then show ?case by (simp add: list_pairs_def)
next
  case (Suc n)
  then have i: "i < length (list_items l)" by simp
  then obtain e where e: "list_items l ! i = Some e" using assms(2) nth_mem by fastforce
  let ?to = "ge_to (edge_at (gr_edges g) e)"
  have get: "fst (list_get l (int i)) = Some e" using growable_get [OF assms(1), of "int i"] i e by simp
  have len: "i < length (list_pairs (gr_edges g) l)" using i by (simp add: list_pairs_def)
  have at: "fst (list_pairs (gr_edges g) l ! i) = ?to" using i e by (simp add: list_pairs_def)
  then have hv: "has_vertex g ?to" using assms(3) len by (metis image_eqI nth_mem)
  have d: "drop i (list_pairs (gr_edges g) l) = list_pairs (gr_edges g) l ! i # drop (Suc i) (list_pairs (gr_edges g) l)"
    using len by (simp add: Cons_nth_drop_Suc)
  have IH: "list_targets g l (int i + 1) n = map fst (drop (Suc i) (list_pairs (gr_edges g) l))"
    using Suc.IH [of "Suc i"] Suc.prems by (simp add: add.commute)
  show ?case using get hv at unfolding d by (simp add: IH Let_def valid_vertex)
qed

lemma matrix_targets_pairs:
  assumes "\<And>to. in_range g to \<Longrightarrow> m ! cell_index g v to \<noteq> GRAPH_NO_EDGE \<Longrightarrow> has_vertex g to"
  shows "int i + int n = vertex_capacity g \<Longrightarrow>
    matrix_targets g m v (int i) n = map fst (filter (\<lambda>(to, x). x \<noteq> GRAPH_NO_EDGE)
        (map (\<lambda>to. (to, m ! cell_index g v to)) [int i..vertex_capacity g - 1]))"
proof (induction n arbitrary: i)
  case (Suc n)
  then have i: "in_range g (int i)" by simp
  have up: "[int i..vertex_capacity g - 1] = int i # [int i + 1..vertex_capacity g - 1]" using i by (simp add: upto_rec1)
  have IH: "matrix_targets g m v (int i + 1) n = map fst (filter (\<lambda>(to, x). x \<noteq> GRAPH_NO_EDGE)
        (map (\<lambda>to. (to, m ! cell_index g v to)) [int i + 1..vertex_capacity g - 1]))"
    using Suc.IH [of "Suc i"] Suc.prems by (simp add: add.commute)
  show ?case
    using assms [OF i] unfolding up by (cases "m ! cell_index g v (int i) = GRAPH_NO_EDGE") (simp_all add: IH valid_vertex)
qed simp

lemma edge_targets_pairs:
  assumes g: "graph_inv g" and v: "has_vertex g v"
  shows "edge_targets g v = map fst (adj_pairs g v)"
proof -
  have R: "0 \<le> v" "v < vertex_capacity g" "present g ! nat v" using v by (simp_all add: has_vertex_iff)
  have all: "\<forall>to\<in>fst ` set (adj_pairs g v). has_vertex g to" using g unfolding graph_inv_def by blast
  show ?thesis
  proof (cases "gr_rep g")
    case GRAPH_ADJACENCY_LIST
    have ok: "lists_ok g" using g GRAPH_ADJACENCY_LIST by (simp add: graph_inv_def)
    obtain ls adj where A: "adj_lists g = Some ls" "ls ! nat v = Some adj" "list_ok (gr_edges g) (gr_brk g) adj"
      using present_list [OF ok R] by blast
    have pairs: "adj_pairs g v = list_pairs (gr_edges g) adj" using adj_pairs_list [OF GRAPH_ADJACENCY_LIST A(1) R(1,2)] A(2) by simp
    have adj: "growable adj" "\<forall>p\<in>set (list_items adj). p \<noteq> NULL" using A(3) unfolding list_ok_def by blast+
    show ?thesis
      using list_targets_pairs [OF adj, of g 0 "length (list_items adj)"] all A growable_size [OF adj(1)] GRAPH_ADJACENCY_LIST
      unfolding pairs by (simp add: edge_targets_def)
  next
    case GRAPH_ADJACENCY_MATRIX
    obtain m where m: "adj_matrix g = Some m" using g GRAPH_ADJACENCY_MATRIX by (auto simp: graph_inv_def matrix_ok_def)
    have pairs: "adj_pairs g v = filter (\<lambda>(to, x). x \<noteq> GRAPH_NO_EDGE)
        (map (\<lambda>to. (to, m ! cell_index g v to)) [0..vertex_capacity g - 1])"
      using R GRAPH_ADJACENCY_MATRIX m by (simp add: adj_pairs_def)
    have "has_vertex g to" if "in_range g to" "m ! cell_index g v to \<noteq> GRAPH_NO_EDGE" for to
      using all that unfolding pairs by (auto simp: image_iff)
    from matrix_targets_pairs [OF this, where i = 0 and n = "nat (vertex_capacity g)"]
    show ?thesis using m R GRAPH_ADJACENCY_MATRIX unfolding pairs by (simp add: edge_targets_def)
  qed
qed

text \<open>The edges as a relation.\<close>

definition graph_arcs :: "graph_impl \<Rightarrow> (int \<times> int) set" where
  "graph_arcs g = dom (edge_map g)"

lemma edge_targets_arcs:
  assumes "graph_inv g" "has_vertex g u"
  shows "v \<in> set (edge_targets g u) \<longleftrightarrow> (u, v) \<in> graph_arcs g"
proof -
  have "v \<in> fst ` set (adj_pairs g u) \<longleftrightarrow> map_of (adj_pairs g u) v \<noteq> None" by (simp add: map_of_eq_None_iff)
  then show ?thesis by (simp add: edge_targets_pairs [OF assms] graph_arcs_def domIff edge_map_def)
qed

lemma arcs_valid: "graph_inv g \<Longrightarrow> (u, v) \<in> graph_arcs g \<Longrightarrow> has_vertex g u \<and> has_vertex g v"
  using graph_inv_edges [of g u v] by (auto simp: graph_arcs_def)

lemma edge_targets_valid: "graph_inv g \<Longrightarrow> has_vertex g u \<Longrightarrow> v \<in> set (edge_targets g u) \<Longrightarrow> has_vertex g v"
  using edge_targets_arcs arcs_valid by blast

lemma reach_valid: "(u, v) \<in> (graph_arcs g)\<^sup>* \<Longrightarrow> graph_inv g \<Longrightarrow> has_vertex g u \<Longrightarrow> has_vertex g v"
  by (induction rule: rtrancl_induct) (use arcs_valid in blast)+

lemma closed_reach:
  assumes "(u, v) \<in> (graph_arcs g)\<^sup>*" "u \<in> S" "\<And>x y. x \<in> S \<Longrightarrow> (x, y) \<in> graph_arcs g \<Longrightarrow> y \<in> S"
  shows "v \<in> S"
  using assms(1,2) by (induction rule: rtrancl_induct) (use assms(3) in blast)+

section \<open>Marks and the order\<close>

definition marks :: "bool list \<Rightarrow> int set" where
  "marks visited = {v. 0 \<le> v \<and> v < int (length visited) \<and> visited ! nat v}"

lemma marks_none [simp]: "marks (replicate n False) = {}"
  by (auto simp: marks_def)

lemma marks_update:
  "0 \<le> v \<Longrightarrow> v < int (length visited) \<Longrightarrow> marks (visited[nat v := True]) = insert v (marks visited)"
  by (auto simp: marks_def nth_list_update)

lemma marks_at: "0 \<le> v \<Longrightarrow> v < int (length visited) \<Longrightarrow> visited ! nat v \<longleftrightarrow> v \<in> marks visited"
  by (simp add: marks_def)

lemma vertex_range: "has_vertex g v \<Longrightarrow> length visited = nat (vertex_capacity g) \<Longrightarrow> 0 \<le> v \<and> v < int (length visited)"
  by (auto simp: has_vertex_iff)

lemma distinct_vertices_length:
  assumes "graph_inv g" "distinct D" "\<forall>v\<in>set D. has_vertex g v"
  shows "length D \<le> nat (vertex_capacity g) \<and> length D < INT_MAX"
proof -
  have "set D \<subseteq> {0..<vertex_capacity g}" using assms(3) by (auto simp: has_vertex_iff)
  then have "card (set D) \<le> nat (vertex_capacity g)" using card_mono [of "{0..<vertex_capacity g}" "set D"] by simp
  moreover have "nat (vertex_capacity g) < INT_MAX"
    using graph_base_cap [of g] assms(1) unfolding graph_inv_def by (auto simp: INT_MAX_def nat_less_iff)
  ultimately show ?thesis using distinct_card [OF assms(2)] by simp
qed

lemma add_to_order_ready:
  assumes "graph_inv g" "has_vertex g v" "growable order" "alloc_fails w = []" "list_items order = map id_cell D"
    "distinct (D @ [v])" "\<forall>v\<in>set D. has_vertex g v"
  shows "\<exists>order' w'. add_to_order g v order w = (order', w') \<and> growable order' \<and> list_items order' = map id_cell (D @ [v]) \<and>
    alloc_fails w' = []"
proof -
  have "distinct D" using assms(6) by simp
  from distinct_vertices_length [OF assms(1) this assms(7)] have "length (list_items order) < INT_MAX" using assms(5) by simp
  from growable_insert [OF assms(3,4) this, of "vertex_ptrs g ! nat v"] obtain order' w' where
    "list_insert order (vertex_ptrs g ! nat v) (list_size order) w = (OVA_SUCCESS, order', w')" "growable order'"
    "list_items order' = list_items order @ [vertex_ptrs g ! nat v]" "alloc_fails w' = []" by blast
  then show ?thesis using vertex_cell [OF assms(1,2)] assms(5) by (simp add: add_to_order_def)
qed

lemma enqueue_ready:
  assumes "linked_queue_inv q" "alloc_fails w = []"
  shows "\<exists>q'. linked_enqueue_method q x w = (OVA_SUCCESS, q', w) \<and> linked_queue_inv q' \<and> linked_queue_items q' = linked_queue_items q @ [x]"
proof -
  obtain n impl where "acquire_node q x w = (Some n, impl, w)"
    using malloc_struct_no_failures [OF assms(2)] by (cases "lq_freelist q") (simp_all add: acquire_node_def)
  then obtain q' where E: "linked_enqueue_method q x w = (OVA_SUCCESS, q', w)"
    by (simp add: linked_enqueue_method_def Let_def)
  then show ?thesis using linked_enqueue_cases [OF assms(1) E] by simp
qed

lemma enqueue_targets_ready:
  assumes "alloc_fails w = []"
  shows "linked_queue_inv q \<Longrightarrow> \<forall>t\<in>set tos. 0 \<le> t \<and> t < int (length visited) \<Longrightarrow>
    \<exists>new visited' q'. enqueue_targets tos visited q w = (visited', q', w) \<and> linked_queue_inv q' \<and>
      linked_queue_items q' = linked_queue_items q @ map int_ptr new \<and> distinct new \<and> set new = set tos - marks visited \<and>
      marks visited' = marks visited \<union> set tos \<and> length visited' = length visited"
proof (induction tos arbitrary: visited q)
  case Nil
  then show ?case by simp
next
  case (Cons t tos)
  have t: "0 \<le> t" "t < int (length visited)" using Cons.prems(2) by simp_all
  show ?case
  proof (cases "visited ! nat t")
    case True
    then have m: "t \<in> marks visited" using marks_at [OF t] by simp
    have "\<forall>t\<in>set tos. 0 \<le> t \<and> t < int (length visited)" using Cons.prems(2) by simp
    from Cons.IH [OF Cons.prems(1) this] obtain new visited' q' where
      "enqueue_targets tos visited q w = (visited', q', w)" "linked_queue_inv q'"
      "linked_queue_items q' = linked_queue_items q @ map int_ptr new" "distinct new" "set new = set tos - marks visited"
      "marks visited' = marks visited \<union> set tos" "length visited' = length visited" by blast
    then show ?thesis using True m by (intro exI [of _ new] exI [of _ visited'] exI [of _ q']) auto
  next
    case False
    then have m: "t \<notin> marks visited" using marks_at [OF t] by simp
    obtain q1 where E: "linked_enqueue_method q (int_ptr t) w = (OVA_SUCCESS, q1, w)" "linked_queue_inv q1"
      "linked_queue_items q1 = linked_queue_items q @ [int_ptr t]" using enqueue_ready [OF Cons.prems(1) assms] by blast
    let ?v = "visited[nat t := True]"
    have "\<forall>t\<in>set tos. 0 \<le> t \<and> t < int (length ?v)" using Cons.prems(2) by simp
    from Cons.IH [OF E(2) this] obtain new visited' q' where R:
      "enqueue_targets tos ?v q1 w = (visited', q', w)" "linked_queue_inv q'"
      "linked_queue_items q' = linked_queue_items q1 @ map int_ptr new" "distinct new" "set new = set tos - marks ?v"
      "marks visited' = marks ?v \<union> set tos" "length visited' = length ?v" by blast
    have "marks ?v = insert t (marks visited)" by (rule marks_update [OF t])
    then show ?thesis
      using R E False m by (intro exI [of _ "t # new"] exI [of _ visited'] exI [of _ q']) auto
  qed
qed

section \<open>The orders of the searches\<close>

text \<open>What the searches do to the list of visited vertices \<open>D\<close>, without queue, stack and marks:
  depth-first over the vertices \<open>tos\<close>, breadth-first over a queue when the vertices of \<open>B\<close> are
  marked already.\<close>

inductive dfs_order :: "graph_impl \<Rightarrow> int list \<Rightarrow> int list \<Rightarrow> int list \<Rightarrow> bool" where
  dfs_order_Nil: "dfs_order g [] D D"
| dfs_order_old: "t \<in> set D \<Longrightarrow> dfs_order g ts D D' \<Longrightarrow> dfs_order g (t # ts) D D'"
| dfs_order_new: "t \<notin> set D \<Longrightarrow> dfs_order g (edge_targets g t) (D @ [t]) D1 \<Longrightarrow> dfs_order g ts D1 D' \<Longrightarrow>
    dfs_order g (t # ts) D D'"

inductive_cases dfs_order_NilE: "dfs_order g [] D D'"
inductive_cases dfs_order_ConsE: "dfs_order g (t # ts) D D'"

lemma dfs_order_deterministic: "dfs_order g ts D D1 \<Longrightarrow> dfs_order g ts D D2 \<Longrightarrow> D1 = D2"
proof (induction arbitrary: D2 rule: dfs_order.induct)
  case (dfs_order_new t D g D1 ts D')
  from dfs_order_new.prems show ?case
    by (rule dfs_order_ConsE) (use dfs_order_new.IH dfs_order_new.hyps(1) in blast)+
qed (blast elim: dfs_order_NilE dfs_order_ConsE)+

lemma dfs_order_extends: "dfs_order g ts D D' \<Longrightarrow> set D \<subseteq> set D'"
  by (induction rule: dfs_order.induct) auto

lemma dfs_order_appendD: "dfs_order g (xs @ ys) D D' \<Longrightarrow> \<exists>D1. dfs_order g xs D D1 \<and> dfs_order g ys D1 D'"
proof (induction xs arbitrary: D)
  case (Cons x xs)
  then show ?case by (auto elim!: dfs_order_ConsE) (metis dfs_order_old dfs_order_new)+
qed (auto intro: dfs_order_Nil)

text \<open>Leaving out vertices that are visited already changes nothing.\<close>

lemma dfs_order_filter:
  "dfs_order g (filter (\<lambda>t. t \<notin> set D0) xs) D D' \<Longrightarrow> set D0 \<subseteq> set D \<Longrightarrow> dfs_order g xs D D'"
proof (induction xs arbitrary: D)
  case (Cons x xs)
  show ?case
  proof (cases "x \<in> set D0")
    case True
    then show ?thesis using Cons by (auto intro: dfs_order_old)
  next
    case False
    then have "dfs_order g (x # filter (\<lambda>t. t \<notin> set D0) xs) D D'" using Cons.prems(1) by simp
    then show ?thesis
    proof (rule dfs_order_ConsE)
      assume "x \<in> set D" "dfs_order g (filter (\<lambda>t. t \<notin> set D0) xs) D D'"
      then show ?thesis using Cons.IH Cons.prems(2) by (intro dfs_order_old) blast+
    next
      fix D1
      assume A: "x \<notin> set D" "dfs_order g (edge_targets g x) (D @ [x]) D1" "dfs_order g (filter (\<lambda>t. t \<notin> set D0) xs) D1 D'"
      have "set D0 \<subseteq> set D1" using dfs_order_extends [OF A(2)] Cons.prems(2) by auto
      then show ?thesis using A Cons.IH by (blast intro: dfs_order_new)
    qed
  qed
qed (simp add: dfs_order_Nil)

inductive bfs_order :: "graph_impl \<Rightarrow> int set \<Rightarrow> int list \<Rightarrow> int list \<Rightarrow> int list \<Rightarrow> bool" where
  bfs_order_Nil: "bfs_order g B [] D D"
| bfs_order_next: "distinct new \<Longrightarrow> set new = set (edge_targets g v) - (B \<union> set D \<union> set (v # Q)) \<Longrightarrow>
    bfs_order g B (Q @ new) (D @ [v]) D' \<Longrightarrow> bfs_order g B (v # Q) D D'"

section \<open>Breadth-first search is complete\<close>

lemma bfs_loop_ready:
  assumes g: "graph_inv g" and step: "\<And>u v. R u \<Longrightarrow> (u, v) \<in> graph_arcs g \<Longrightarrow> R v"
  shows "linked_queue_inv q \<Longrightarrow> linked_queue_items q = map int_ptr Q \<Longrightarrow> length visited = nat (vertex_capacity g) \<Longrightarrow>
    marks visited = B \<union> set D \<union> set Q \<Longrightarrow> distinct (D @ Q) \<Longrightarrow> B \<inter> (set D \<union> set Q) = {} \<Longrightarrow>
    \<forall>v\<in>set D \<union> set Q. has_vertex g v \<and> R v \<Longrightarrow> growable order \<Longrightarrow> list_items order = map id_cell D \<Longrightarrow>
    alloc_fails w = [] \<Longrightarrow> \<forall>u\<in>set D. \<forall>v. (u, v) \<in> graph_arcs g \<longrightarrow> v \<in> B \<union> set D \<union> set Q \<Longrightarrow>
    \<exists>visited' q' order' w' D' rest. bfs_loop g visited q order w = Some (visited', q', order', w') \<and> linked_queue_inv q' \<and>
      linked_queue_items q' = [] \<and> length visited' = nat (vertex_capacity g) \<and> marks visited' = B \<union> set D' \<and> distinct D' \<and>
      B \<inter> set D' = {} \<and> D' = D @ Q @ rest \<and> (\<forall>v\<in>set D'. has_vertex g v \<and> R v) \<and> growable order' \<and>
      list_items order' = map id_cell D' \<and> alloc_fails w' = [] \<and>
      (\<forall>u\<in>set D'. \<forall>v. (u, v) \<in> graph_arcs g \<longrightarrow> v \<in> B \<union> set D') \<and> bfs_order g B Q D D'"
proof (induction "nat (vertex_capacity g) - length D" arbitrary: visited q order w D Q rule: less_induct)
  case less
  note I = less.prems
  show ?case
  proof (cases Q)
    case Nil
    then have "lq_front q = None"
      using I(1,2) by (auto simp: linked_queue_inv_def lq_shape_def linked_queue_items_def)
    then have "bfs_loop g visited q order w = Some (visited, q, order, w)" by (subst bfs_loop.simps) simp
    then show ?thesis using I Nil by (intro exI [of _ visited] exI [of _ q] exI [of _ order] exI [of _ w] exI [of _ D] exI [of _ "[]"]) (auto intro: bfs_order_Nil)
  next
    case (Cons v Q1)
    have v: "has_vertex g v" "R v" "0 \<le> v" using I(7) Cons by (auto simp: has_vertex_iff)
    have "lq_front q \<noteq> None"
      using I(1,2) Cons by (auto simp: linked_queue_inv_def lq_shape_def linked_queue_items_def)
    then have busy: "linked_is_empty (Some q) = 0" by simp
    obtain q1 where Q1: "linked_dequeue_impl q = (int_ptr v, q1)" "linked_queue_inv q1" "linked_queue_items q1 = map int_ptr Q1"
      using linked_dequeue_spec [OF I(1)] I(2) Cons by (cases "linked_dequeue_impl q") (auto simp: nth_ptr_def)
    have "distinct (D @ [v])" "\<forall>v\<in>set D. has_vertex g v" using I(5,7) Cons by auto
    from add_to_order_ready [OF g v(1) I(8,10,9) this] obtain order1 w1 where O1:
      "add_to_order g v order w = (order1, w1)" "growable order1" "list_items order1 = map id_cell (D @ [v])" "alloc_fails w1 = []" by blast
    have arcs: "x \<in> set (edge_targets g v) \<longleftrightarrow> (v, x) \<in> graph_arcs g" for x by (rule edge_targets_arcs [OF g v(1)])
    have range: "\<forall>t\<in>set (edge_targets g v). 0 \<le> t \<and> t < int (length visited)"
      using edge_targets_valid [OF g v(1)] vertex_range [OF _ I(3)] by blast
    obtain new visited2 q2 where E: "enqueue_targets (edge_targets g v) visited q1 w1 = (visited2, q2, w1)" "linked_queue_inv q2"
      "linked_queue_items q2 = linked_queue_items q1 @ map int_ptr new" "distinct new" "set new = set (edge_targets g v) - marks visited"
      "marks visited2 = marks visited \<union> set (edge_targets g v)" "length visited2 = length visited"
      using enqueue_targets_ready [OF O1(4) Q1(2) range] by blast
    have run: "bfs_loop g visited q order w = bfs_loop g visited2 q2 order1 w1"
      using busy Q1(1) O1(1) E(1) v(3) by (subst bfs_loop.simps) simp
    have len: "length (D @ [v]) \<le> nat (vertex_capacity g)"
      using distinct_vertices_length [OF g \<open>distinct (D @ [v])\<close>] I(7) v(1) by auto
    have new: "\<forall>x\<in>set new. has_vertex g x \<and> R x \<and> x \<notin> marks visited"
      using E(5) arcs step [OF v(2)] arcs_valid [OF g] by blast
    have "\<exists>visited' q' order' w' D' rest. bfs_loop g visited2 q2 order1 w1 = Some (visited', q', order', w') \<and> linked_queue_inv q' \<and>
      linked_queue_items q' = [] \<and> length visited' = nat (vertex_capacity g) \<and> marks visited' = B \<union> set D' \<and> distinct D' \<and>
      B \<inter> set D' = {} \<and> D' = (D @ [v]) @ (Q1 @ new) @ rest \<and> (\<forall>v\<in>set D'. has_vertex g v \<and> R v) \<and> growable order' \<and>
      list_items order' = map id_cell D' \<and> alloc_fails w' = [] \<and>
      (\<forall>u\<in>set D'. \<forall>v. (u, v) \<in> graph_arcs g \<longrightarrow> v \<in> B \<union> set D') \<and> bfs_order g B (Q1 @ new) (D @ [v]) D'"
    proof (rule less.hyps)
      show "nat (vertex_capacity g) - length (D @ [v]) < nat (vertex_capacity g) - length D" using len by simp
      show "linked_queue_inv q2" by (rule E(2))
      show "linked_queue_items q2 = map int_ptr (Q1 @ new)" using E(3) Q1(3) by simp
      show "length visited2 = nat (vertex_capacity g)" using E(7) I(3) by simp
      show "marks visited2 = B \<union> set (D @ [v]) \<union> set (Q1 @ new)" using E(5,6) I(4) Cons by auto
      show "distinct ((D @ [v]) @ Q1 @ new)" using I(4,5) Cons E(4) new by auto
      show "B \<inter> (set (D @ [v]) \<union> set (Q1 @ new)) = {}" using I(4,6) Cons new by auto
      show "\<forall>x\<in>set (D @ [v]) \<union> set (Q1 @ new). has_vertex g x \<and> R x" using I(7) Cons new by auto
      show "growable order1" "list_items order1 = map id_cell (D @ [v])" "alloc_fails w1 = []" by (rule O1)+
      show "\<forall>u\<in>set (D @ [v]). \<forall>x. (u, x) \<in> graph_arcs g \<longrightarrow> x \<in> B \<union> set (D @ [v]) \<union> set (Q1 @ new)"
        using I(4,11) Cons E(5) arcs by auto
    qed
    then obtain visited' q' order' w' D' rest where F:
      "bfs_loop g visited2 q2 order1 w1 = Some (visited', q', order', w')" "linked_queue_inv q'"
      "linked_queue_items q' = []" "length visited' = nat (vertex_capacity g)" "marks visited' = B \<union> set D'" "distinct D'"
      "B \<inter> set D' = {}" "D' = (D @ [v]) @ (Q1 @ new) @ rest" "\<forall>v\<in>set D'. has_vertex g v \<and> R v" "growable order'"
      "list_items order' = map id_cell D'" "alloc_fails w' = []"
      "\<forall>u\<in>set D'. \<forall>v. (u, v) \<in> graph_arcs g \<longrightarrow> v \<in> B \<union> set D'" "bfs_order g B (Q1 @ new) (D @ [v]) D'" by blast
    have "D' = D @ Q @ (new @ rest)" using F(8) Cons by simp
    moreover have "bfs_order g B Q D D'"
      unfolding Cons by (rule bfs_order_next [OF E(4) _ F(14)]) (use E(5) I(4) Cons in auto)
    ultimately show ?thesis using run F by (intro exI [of _ visited'] exI [of _ q'] exI [of _ order'] exI [of _ w'] exI [of _ D'] exI [of _ "new @ rest"]) simp
  qed
qed

lemma vertex_list_ready:
  assumes "graph_inv g" "alloc_fails w = []"
  shows "\<exists>l w'. create_vertex_list g w = (Some l, w') \<and> growable l \<and> list_items l = [] \<and> alloc_fails w' = []"
proof -
  have "{v. has_vertex g v} \<subseteq> {0..<vertex_capacity g}" by (auto simp: has_vertex_iff)
  then have "card {v. has_vertex g v} \<le> nat (vertex_capacity g)" using card_mono [of "{0..<vertex_capacity g}"] by fastforce
  moreover have "graph_base g" using assms(1) by (simp add: graph_inv_def)
  ultimately have "vertex_count g \<le> int INT_MAX" using graph_base_cap [of g] by (auto simp: graph_base_def INT_MAX_def)
  then show ?thesis
    using create_growable [OF assms(2), of "if vertex_count g > 0 then vertex_count g else 4"]
    by (auto simp: create_vertex_list_def INT_MAX_def)
qed

lemma capacity_malloc: "graph_inv g \<Longrightarrow> alloc_fails w = [] \<Longrightarrow> malloc (nat (vertex_capacity g)) w = (True, w)"
  using graph_base_cap [of g] by (auto simp: graph_inv_def malloc_no_failures PTRDIFF_MAX_def)

lemma create_queue_ready:
  "alloc_fails w = [] \<Longrightarrow> \<exists>q. create_linked_queue w = (Some q, w) \<and> linked_queue_inv q \<and> linked_queue_items q = []"
proof -
  assume "alloc_fails w = []"
  then obtain q where "create_linked_queue w = (Some q, w)" by (simp add: create_linked_queue_def malloc_struct_no_failures)
  then show ?thesis using create_linked_queue_inv by blast
qed

text \<open>The vertices that can be reached, each once, the start first.\<close>

definition visits_from :: "graph_impl \<Rightarrow> int \<Rightarrow> int list \<Rightarrow> bool" where
  "visits_from g start D \<longleftrightarrow> distinct D \<and> set D = {v. (start, v) \<in> (graph_arcs g)\<^sup>*} \<and> D \<noteq> [] \<and> hd D = start"

lemma visits_fromI:
  assumes "distinct D" "\<forall>v\<in>set D. (start, v) \<in> (graph_arcs g)\<^sup>*" "\<forall>u\<in>set D. \<forall>v. (u, v) \<in> graph_arcs g \<longrightarrow> v \<in> set D"
    "D \<noteq> []" "hd D = start"
  shows "visits_from g start D"
proof -
  have "start \<in> set D" using assms(4,5) hd_in_set by blast
  then have "v \<in> set D" if "(start, v) \<in> (graph_arcs g)\<^sup>*" for v
    using closed_reach [OF that] assms(3) by blast
  then show ?thesis using assms unfolding visits_from_def by blast
qed

lemma bfs_ready:
  assumes g: "graph_inv g" and s: "has_vertex g s" and w: "alloc_fails w = []"
  shows "\<exists>l w' D. graph_bfs_impl g s w = Some (Some l, w') \<and> list_items l = map id_cell D \<and> visits_from g s D \<and>
    bfs_order g {} [s] [] D"
proof -
  obtain l w1 where L: "create_vertex_list g w = (Some l, w1)" "growable l" "list_items l = []" "alloc_fails w1 = []"
    using vertex_list_ready [OF g w] by blast
  obtain q where Q: "create_linked_queue w1 = (Some q, w1)" "linked_queue_inv q" "linked_queue_items q = []"
    using create_queue_ready [OF L(4)] by blast
  obtain q1 where E: "linked_enqueue_method q (int_ptr s) w1 = (OVA_SUCCESS, q1, w1)" "linked_queue_inv q1"
    "linked_queue_items q1 = [int_ptr s]" using enqueue_ready [OF Q(2) L(4)] Q(3) by fastforce
  let ?v = "(replicate (nat (vertex_capacity g)) False)[nat s := True]"
  have range: "0 \<le> s \<and> s < int (length (replicate (nat (vertex_capacity g)) False))"
    by (rule vertex_range [OF s]) simp
  have m: "marks ?v = {s}" using marks_update [of s "replicate (nat (vertex_capacity g)) False"] range by simp
  have "\<exists>visited' q' order' w' D' rest. bfs_loop g ?v q1 l w1 = Some (visited', q', order', w') \<and> linked_queue_inv q' \<and>
      linked_queue_items q' = [] \<and> length visited' = nat (vertex_capacity g) \<and> marks visited' = {} \<union> set D' \<and> distinct D' \<and>
      {} \<inter> set D' = {} \<and> D' = [] @ [s] @ rest \<and> (\<forall>v\<in>set D'. has_vertex g v \<and> (s, v) \<in> (graph_arcs g)\<^sup>*) \<and> growable order' \<and>
      list_items order' = map id_cell D' \<and> alloc_fails w' = [] \<and>
      (\<forall>u\<in>set D'. \<forall>v. (u, v) \<in> graph_arcs g \<longrightarrow> v \<in> {} \<union> set D') \<and> bfs_order g {} [s] [] D'"
    by (rule bfs_loop_ready [OF g]) (use E(2,3) L m s in \<open>auto intro: rtrancl_into_rtrancl\<close>)
  then obtain visited' q' order' w' D' rest where F:
    "bfs_loop g ?v q1 l w1 = Some (visited', q', order', w')" "distinct D'" "D' = [s] @ rest"
    "\<forall>v\<in>set D'. has_vertex g v \<and> (s, v) \<in> (graph_arcs g)\<^sup>*" "list_items order' = map id_cell D'"
    "\<forall>u\<in>set D'. \<forall>v. (u, v) \<in> graph_arcs g \<longrightarrow> v \<in> set D'" "bfs_order g {} [s] [] D'" by auto
  have "visits_from g s D'" by (rule visits_fromI) (use F in auto)
  moreover have "graph_bfs_impl g s w = Some (Some order', w')"
    using L(1) s capacity_malloc [OF g L(4)] Q(1) E(1) F(1) by (simp add: graph_bfs_impl_def valid_vertex)
  ultimately show ?thesis using F(5,7) by blast
qed

section \<open>Depth-first search is complete\<close>

lemma push_ready:
  assumes "growable (stk_impl st)" "stk_push st = ARRAY_STACK" "alloc_fails w = []" "length (list_items (stk_impl st)) < INT_MAX"
  shows "\<exists>st' w'. stack_push st x w = (OVA_SUCCESS, st', w') \<and> growable (stk_impl st') \<and> stk_push st' = ARRAY_STACK \<and>
    list_items (stk_impl st') = list_items (stk_impl st) @ [x] \<and> alloc_fails w' = []"
proof -
  obtain l' w' where "list_insert (stk_impl st) x (list_size (stk_impl st)) w = (OVA_SUCCESS, l', w')" "growable l'"
    "list_items l' = list_items (stk_impl st) @ [x]" "alloc_fails w' = []" using growable_insert [OF assms(1,3,4)] by blast
  then show ?thesis using assms(2) by (simp add: stack_push_def array_stack_push_def)
qed

lemma pop_ready:
  assumes "growable (stk_impl st)" "stk_push st = ARRAY_STACK" "list_items (stk_impl st) = xs @ [x]"
  shows "\<exists>st'. stack_pop st = (x, st') \<and> growable (stk_impl st') \<and> stk_push st' = ARRAY_STACK \<and> list_items (stk_impl st') = xs"
proof -
  let ?l = "stk_impl st"
  have size: "list_size ?l = int (length xs) + 1" using growable_size [OF assms(1)] assms(3) by simp
  have get: "list_get ?l (int (length xs)) = (x, ?l)" using growable_get [OF assms(1), of "int (length xs)"] assms(3) by (simp add: nth_append)
  obtain l' where R: "list_remove ?l (int (length xs)) = (OVA_SUCCESS, l')" "growable l'" "list_items l' = remove_at (length xs) (xs @ [x])"
    using growable_remove [OF assms(1), of "length xs"] assms(3) by auto
  then show ?thesis
    using assms(2) size get by (auto simp: stack_pop_def array_stack_pop_def remove_at_def intro!: exI [of _ "st\<lparr>stk_impl := l'\<rparr>"])
qed

lemma push_targets_ready:
  "growable (stk_impl st) \<Longrightarrow> stk_push st = ARRAY_STACK \<Longrightarrow> alloc_fails w = [] \<Longrightarrow>
   length (list_items (stk_impl st)) + length tos \<le> INT_MAX \<Longrightarrow> \<forall>t\<in>set tos. 0 \<le> t \<and> t < int (length visited) \<Longrightarrow>
   \<exists>st' w'. push_targets tos visited st w = (st', w') \<and> growable (stk_impl st') \<and> stk_push st' = ARRAY_STACK \<and>
     list_items (stk_impl st') = list_items (stk_impl st) @ map int_ptr (filter (\<lambda>t. t \<notin> marks visited) tos) \<and> alloc_fails w' = []"
proof (induction tos arbitrary: st w)
  case (Cons t tos)
  have t: "0 \<le> t" "t < int (length visited)" using Cons.prems(5) by simp_all
  show ?case
  proof (cases "visited ! nat t")
    case True
    then have "t \<in> marks visited" using marks_at [OF t] by simp
    then show ?thesis using Cons.IH [of st w] Cons.prems True by simp
  next
    case False
    then have m: "t \<notin> marks visited" using marks_at [OF t] by simp
    obtain st1 w1 where P: "stack_push st (int_ptr t) w = (OVA_SUCCESS, st1, w1)" "growable (stk_impl st1)" "stk_push st1 = ARRAY_STACK"
      "list_items (stk_impl st1) = list_items (stk_impl st) @ [int_ptr t]" "alloc_fails w1 = []"
      using push_ready [OF Cons.prems(1,2,3), of "int_ptr t"] Cons.prems(4) by auto
    show ?thesis using Cons.IH [OF P(2,3,5)] Cons.prems(4,5) P(1,4) False m by auto
  qed
qed simp

definition unseen_work :: "graph_impl \<Rightarrow> int list \<Rightarrow> nat" where
  "unseen_work g D = (\<Sum>v\<in>{v. has_vertex g v} - set D. length (edge_targets g v) + 1)"

lemma unseen_work_visit:
  assumes "has_vertex g v" "v \<notin> set D"
  shows "unseen_work g D = length (edge_targets g v) + 1 + unseen_work g (D @ [v])"
proof -
  have fin: "finite ({v. has_vertex g v} - set D)"
    by (rule finite_subset [of _ "{0..<vertex_capacity g}"]) (auto simp: has_vertex_iff)
  have "{v. has_vertex g v} - set (D @ [v]) = ({v. has_vertex g v} - set D) - {v}" by auto
  then show ?thesis using sum.remove [OF fin, of v "\<lambda>v. length (edge_targets g v) + 1"] assms by (simp add: unseen_work_def)
qed

lemma unseen_work_mono: "set D \<subseteq> set D' \<Longrightarrow> unseen_work g D' \<le> unseen_work g D"
proof -
  assume "set D \<subseteq> set D'"
  moreover have "finite ({v. has_vertex g v} - set D)"
    by (rule finite_subset [of _ "{0..<vertex_capacity g}"]) (auto simp: has_vertex_iff)
  ultimately show ?thesis unfolding unseen_work_def by (intro sum_mono2) auto
qed

lemma dfs_loop_ready:
  assumes g: "graph_inv g" and step: "\<And>u v. R u \<Longrightarrow> (u, v) \<in> graph_arcs g \<Longrightarrow> R v"
  shows "growable (stk_impl st) \<Longrightarrow> stk_push st = ARRAY_STACK \<Longrightarrow> list_items (stk_impl st) = map int_ptr S \<Longrightarrow>
    length visited = nat (vertex_capacity g) \<Longrightarrow> marks visited = set D \<Longrightarrow> distinct D \<Longrightarrow>
    \<forall>v\<in>set D \<union> set S. has_vertex g v \<and> R v \<Longrightarrow> growable order \<Longrightarrow> list_items order = map id_cell D \<Longrightarrow>
    alloc_fails w = [] \<Longrightarrow> \<forall>u\<in>set D. \<forall>v. (u, v) \<in> graph_arcs g \<longrightarrow> v \<in> set D \<union> set S \<Longrightarrow>
    length S + unseen_work g D \<le> INT_MAX \<Longrightarrow>
    \<exists>order' w' D' rest. dfs_loop g visited st order w = Some (order', w') \<and> distinct D' \<and> D' = D @ rest \<and>
      (\<forall>v\<in>set D'. has_vertex g v \<and> R v) \<and> list_items order' = map id_cell D' \<and> set S \<subseteq> set D' \<and>
      (\<forall>u\<in>set D'. \<forall>v. (u, v) \<in> graph_arcs g \<longrightarrow> v \<in> set D') \<and> (D = [] \<longrightarrow> S \<noteq> [] \<longrightarrow> hd D' = last S) \<and> dfs_order g (rev S) D D'"
proof (induction "length S + unseen_work g D" arbitrary: visited st order w D S rule: less_induct)
  case less
  note I = less.prems
  show ?case
  proof (cases S rule: rev_cases)
    case Nil
    then have "list_size (stk_impl st) = 0" using growable_size [OF I(1)] I(3) by simp
    then have "dfs_loop g visited st order w = Some (order, w)" by (subst dfs_loop.simps) (simp add: stack_is_empty_def)
    then show ?thesis using I Nil by (intro exI [of _ order] exI [of _ w] exI [of _ D] exI [of _ "[]"]) (auto intro: dfs_order_Nil)
  next
    case (snoc S1 v)
    have v: "has_vertex g v" "R v" "0 \<le> v" using I(7) snoc by (auto simp: has_vertex_iff)
    have range: "0 \<le> v" "v < int (length visited)" using vertex_range [OF v(1) I(4)] by simp_all
    have busy: "stack_is_empty st = 0" using growable_size [OF I(1)] I(3) snoc by (simp add: stack_is_empty_def)
    obtain st1 where P: "stack_pop st = (int_ptr v, st1)" "growable (stk_impl st1)" "stk_push st1 = ARRAY_STACK"
      "list_items (stk_impl st1) = map int_ptr S1"
      using pop_ready [OF I(1,2), of "map int_ptr S1" "int_ptr v"] I(3) snoc by auto
    show ?thesis
    proof (cases "visited ! nat v")
      case True
      then have m: "v \<in> set D" using marks_at [OF range] I(5) by simp
      have run: "dfs_loop g visited st order w = dfs_loop g visited st1 order w"
        using busy P(1) True v(3) by (subst dfs_loop.simps) simp
      have "\<exists>order' w' D' rest. dfs_loop g visited st1 order w = Some (order', w') \<and> distinct D' \<and> D' = D @ rest \<and>
        (\<forall>v\<in>set D'. has_vertex g v \<and> R v) \<and> list_items order' = map id_cell D' \<and> set S1 \<subseteq> set D' \<and>
        (\<forall>u\<in>set D'. \<forall>v. (u, v) \<in> graph_arcs g \<longrightarrow> v \<in> set D') \<and> (D = [] \<longrightarrow> S1 \<noteq> [] \<longrightarrow> hd D' = last S1) \<and> dfs_order g (rev S1) D D'"
      proof (rule less.hyps)
        show "length S1 + unseen_work g D < length S + unseen_work g D" "length S1 + unseen_work g D \<le> INT_MAX"
          using I(12) snoc by simp_all
        show "\<forall>x\<in>set D \<union> set S1. has_vertex g x \<and> R x" using I(7) snoc by simp
        show "\<forall>u\<in>set D. \<forall>x. (u, x) \<in> graph_arcs g \<longrightarrow> x \<in> set D \<union> set S1" using I(11) snoc m by auto
      qed (rule P I)+
      then obtain order' w' D' rest where F: "dfs_loop g visited st1 order w = Some (order', w')" "distinct D'" "D' = D @ rest"
        "\<forall>v\<in>set D'. has_vertex g v \<and> R v" "list_items order' = map id_cell D'" "set S1 \<subseteq> set D'"
        "\<forall>u\<in>set D'. \<forall>v. (u, v) \<in> graph_arcs g \<longrightarrow> v \<in> set D'" "dfs_order g (rev S1) D D'" by blast
      have "set S \<subseteq> set D'" "D \<noteq> []" using F(3,6) m snoc by auto
      moreover have "dfs_order g (rev S) D D'" unfolding snoc using dfs_order_old [OF m F(8)] by simp
      ultimately show ?thesis using run F by (intro exI [of _ order'] exI [of _ w'] exI [of _ D'] exI [of _ rest]) simp
    next
      case False
      then have m: "v \<notin> set D" using marks_at [OF range] I(5) by simp
      let ?v = "visited[nat v := True]"
      have dist: "distinct (D @ [v])" using I(6) m by simp
      have valid: "\<forall>v\<in>set D. has_vertex g v" using I(7) by blast
      obtain order1 w1 where A: "add_to_order g v order w = (order1, w1)" "growable order1"
        "list_items order1 = map id_cell (D @ [v])" "alloc_fails w1 = []"
        using add_to_order_ready [OF g v(1) I(8,10,9) dist valid] by blast
      have arcs: "x \<in> set (edge_targets g v) \<longleftrightarrow> (v, x) \<in> graph_arcs g" for x by (rule edge_targets_arcs [OF g v(1)])
      have marked: "marks ?v = set (D @ [v])" using marks_update [OF range] I(5) by simp
      have inside: "\<forall>t\<in>set (rev (edge_targets g v)). 0 \<le> t \<and> t < int (length ?v)"
        using edge_targets_valid [OF g v(1)] vertex_range [OF _ I(4)] by auto
      note work = unseen_work_visit [OF v(1) m]
      have "length (list_items (stk_impl st1)) + length (rev (edge_targets g v)) \<le> INT_MAX"
        using P(4) I(12) work snoc by simp
      from push_targets_ready [OF P(2,3) A(4) this inside] obtain st2 w2 where T:
        "push_targets (rev (edge_targets g v)) ?v st1 w1 = (st2, w2)" "growable (stk_impl st2)" "stk_push st2 = ARRAY_STACK"
        "list_items (stk_impl st2) = map int_ptr S1 @ map int_ptr (filter (\<lambda>t. t \<notin> marks ?v) (rev (edge_targets g v)))"
        "alloc_fails w2 = []" unfolding P(4) by blast
      let ?new = "filter (\<lambda>t. t \<notin> set (D @ [v])) (rev (edge_targets g v))"
      have run: "dfs_loop g visited st order w = dfs_loop g ?v st2 order1 w2"
        using busy P(1) False v(3) A(1) T(1) by (subst dfs_loop.simps) simp
      have len: "length ?new \<le> length (edge_targets g v)" using length_filter_le [of _ "rev (edge_targets g v)"] by simp
      have "\<exists>order' w' D' rest. dfs_loop g ?v st2 order1 w2 = Some (order', w') \<and> distinct D' \<and> D' = (D @ [v]) @ rest \<and>
        (\<forall>v\<in>set D'. has_vertex g v \<and> R v) \<and> list_items order' = map id_cell D' \<and> set (S1 @ ?new) \<subseteq> set D' \<and>
        (\<forall>u\<in>set D'. \<forall>v. (u, v) \<in> graph_arcs g \<longrightarrow> v \<in> set D') \<and>
        (D @ [v] = [] \<longrightarrow> S1 @ ?new \<noteq> [] \<longrightarrow> hd D' = last (S1 @ ?new)) \<and> dfs_order g (rev (S1 @ ?new)) (D @ [v]) D'"
      proof (rule less.hyps)
        show "length (S1 @ ?new) + unseen_work g (D @ [v]) < length S + unseen_work g D" using len work snoc by simp
        show "length (S1 @ ?new) + unseen_work g (D @ [v]) \<le> INT_MAX" using len work snoc I(12) by simp
        show "growable (stk_impl st2)" "stk_push st2 = ARRAY_STACK" "alloc_fails w2 = []" by (rule T)+
        show "list_items (stk_impl st2) = map int_ptr (S1 @ ?new)" using T(4) unfolding marked by simp
        show "length ?v = nat (vertex_capacity g)" using I(4) by simp
        show "marks ?v = set (D @ [v])" by (rule marked)
        show "distinct (D @ [v])" by (rule dist)
        show "\<forall>x\<in>set (D @ [v]) \<union> set (S1 @ ?new). has_vertex g x \<and> R x"
          using I(7) snoc v arcs step [OF v(2)] arcs_valid [OF g] by auto
        show "growable order1" "list_items order1 = map id_cell (D @ [v])" by (rule A)+
        show "\<forall>u\<in>set (D @ [v]). \<forall>x. (u, x) \<in> graph_arcs g \<longrightarrow> x \<in> set (D @ [v]) \<union> set (S1 @ ?new)"
          using I(11) snoc arcs by auto
      qed
      then obtain order' w' D' rest where F: "dfs_loop g ?v st2 order1 w2 = Some (order', w')" "distinct D'" "D' = (D @ [v]) @ rest"
        "\<forall>v\<in>set D'. has_vertex g v \<and> R v" "list_items order' = map id_cell D'" "set (S1 @ ?new) \<subseteq> set D'"
        "\<forall>u\<in>set D'. \<forall>v. (u, v) \<in> graph_arcs g \<longrightarrow> v \<in> set D'" "dfs_order g (rev (S1 @ ?new)) (D @ [v]) D'" by blast
      have "D' = D @ (v # rest)" "set S \<subseteq> set D'" "D = [] \<longrightarrow> S \<noteq> [] \<longrightarrow> hd D' = last S" using F(3,6) snoc by auto
      moreover have "dfs_order g (rev S) D D'"
      proof -
        have "rev (S1 @ ?new) = filter (\<lambda>t. t \<notin> set (D @ [v])) (edge_targets g v) @ rev S1" by (simp add: rev_filter [symmetric])
        then obtain D1 where "dfs_order g (filter (\<lambda>t. t \<notin> set (D @ [v])) (edge_targets g v)) (D @ [v]) D1" "dfs_order g (rev S1) D1 D'"
          using F(8) dfs_order_appendD by metis
        then show ?thesis unfolding snoc using dfs_order_new [OF m dfs_order_filter [OF _ order_refl]] by simp
      qed
      ultimately show ?thesis using run F by (intro exI [of _ order'] exI [of _ w'] exI [of _ D'] exI [of _ "v # rest"]) simp
    qed
  qed
qed

lemma create_stack_ready:
  assumes "alloc_fails w = []"
  shows "\<exists>st w'. create_stack ARRAY_STACK w = (Some st, w') \<and> growable (stk_impl st) \<and> stk_push st = ARRAY_STACK \<and>
    list_items (stk_impl st) = [] \<and> alloc_fails w' = []"
proof -
  obtain l w1 where "create_list ARRAY_LIST 10 None w = (Some (l :: 'a list_obj), w1)" "growable l" "list_items l = []" "alloc_fails w1 = []"
    using create_growable [OF assms, of 10] by (auto simp: INT_MAX_def)
  then show ?thesis using assms by (auto simp: create_stack_def malloc_struct_no_failures)
qed

lemma dfs_ready:
  assumes g: "graph_inv g" and s: "has_vertex g s" and w: "alloc_fails w = []" and work: "unseen_work g [] < INT_MAX"
  shows "\<exists>l w' D. graph_dfs_iterative_impl g s w = Some (Some l, w') \<and> list_items l = map id_cell D \<and> visits_from g s D \<and>
    dfs_order g [s] [] D"
proof -
  obtain l w1 where L: "create_vertex_list g w = (Some l, w1)" "growable l" "list_items l = []" "alloc_fails w1 = []"
    using vertex_list_ready [OF g w] by blast
  obtain st :: "nat stack_obj" and w2 where S: "create_stack ARRAY_STACK w1 = (Some st, w2)" "growable (stk_impl st)" "stk_push st = ARRAY_STACK"
    "list_items (stk_impl st) = []" "alloc_fails w2 = []" using create_stack_ready [OF L(4)] by blast
  obtain st1 w3 where P: "stack_push st (int_ptr s) w2 = (OVA_SUCCESS, st1, w3)" "growable (stk_impl st1)" "stk_push st1 = ARRAY_STACK"
    "list_items (stk_impl st1) = [int_ptr s]" "alloc_fails w3 = []"
    using push_ready [OF S(2,3,5), of "int_ptr s"] S(4) by (auto simp: INT_MAX_def)
  let ?v = "replicate (nat (vertex_capacity g)) False"
  have "\<exists>order' w' D' rest. dfs_loop g ?v st1 l w3 = Some (order', w') \<and> distinct D' \<and> D' = [] @ rest \<and>
      (\<forall>v\<in>set D'. has_vertex g v \<and> (s, v) \<in> (graph_arcs g)\<^sup>*) \<and> list_items order' = map id_cell D' \<and> set [s] \<subseteq> set D' \<and>
      (\<forall>u\<in>set D'. \<forall>v. (u, v) \<in> graph_arcs g \<longrightarrow> v \<in> set D') \<and> (([] :: int list) = [] \<longrightarrow> [s] \<noteq> [] \<longrightarrow> hd D' = last [s]) \<and> dfs_order g (rev [s]) [] D'"
    by (rule dfs_loop_ready [OF g, where S = "[s]" and D = "[]" and R = "\<lambda>v. (s, v) \<in> (graph_arcs g)\<^sup>*"])
      (use P(2-5) L s work in \<open>auto intro: rtrancl_into_rtrancl\<close>)
  then obtain order' w' D' where F: "dfs_loop g ?v st1 l w3 = Some (order', w')" "distinct D'"
    "\<forall>v\<in>set D'. has_vertex g v \<and> (s, v) \<in> (graph_arcs g)\<^sup>*" "list_items order' = map id_cell D'" "s \<in> set D'"
    "\<forall>u\<in>set D'. \<forall>v. (u, v) \<in> graph_arcs g \<longrightarrow> v \<in> set D'" "hd D' = s" "dfs_order g [s] [] D'" by auto
  have "visits_from g s D'" by (rule visits_fromI) (use F in auto)
  moreover have "graph_dfs_iterative_impl g s w = Some (Some order', w')"
    using L(1) s capacity_malloc [OF g L(4)] S(1) P(1) F(1) by (simp add: graph_dfs_iterative_impl_def valid_vertex)
  ultimately show ?thesis using F(4,8) by blast
qed

lemma dfs_visit_targets_ready:
  assumes g: "graph_inv g" and step: "\<And>u v. R u \<Longrightarrow> (u, v) \<in> graph_arcs g \<Longrightarrow> R v"
  shows "length visited = nat (vertex_capacity g) \<Longrightarrow> marks visited = set D \<Longrightarrow> distinct D \<Longrightarrow>
    \<forall>v\<in>set D \<union> set tos. has_vertex g v \<and> R v \<Longrightarrow> growable order \<Longrightarrow> list_items order = map id_cell D \<Longrightarrow>
    alloc_fails w = [] \<Longrightarrow>
    \<exists>visited' order' w' D' rest. dfs_visit_targets g tos visited order w = Some (visited', order', w') \<and>
      length visited' = nat (vertex_capacity g) \<and> marks visited' = set D' \<and> distinct D' \<and> D' = D @ rest \<and>
      (\<forall>v\<in>set D'. has_vertex g v \<and> R v) \<and> growable order' \<and> list_items order' = map id_cell D' \<and> alloc_fails w' = [] \<and>
      set tos \<subseteq> set D' \<and> (\<forall>u\<in>set rest. \<forall>v. (u, v) \<in> graph_arcs g \<longrightarrow> v \<in> set D') \<and> dfs_order g tos D D'"
proof (induction "unseen_work g D + length tos" arbitrary: visited order w D tos rule: less_induct)
  case less
  note I = less.prems
  show ?case
  proof (cases tos)
    case Nil
    then have "dfs_visit_targets g tos visited order w = Some (visited, order, w)" by (subst dfs_visit_targets.simps) simp
    then show ?thesis using I Nil by (intro exI [of _ visited] exI [of _ order] exI [of _ w] exI [of _ D] exI [of _ "[]"]) (auto intro: dfs_order_Nil)
  next
    case (Cons t ts)
    have t: "has_vertex g t" "R t" using I(4) Cons by auto
    have range: "0 \<le> t" "t < int (length visited)" using vertex_range [OF t(1) I(1)] by simp_all
    show ?thesis
    proof (cases "visited ! nat t")
      case True
      then have m: "t \<in> set D" using marks_at [OF range] I(2) by simp
      have run: "dfs_visit_targets g tos visited order w = dfs_visit_targets g ts visited order w"
        using True Cons by (subst dfs_visit_targets.simps) simp
      have "\<exists>visited' order' w' D' rest. dfs_visit_targets g ts visited order w = Some (visited', order', w') \<and>
        length visited' = nat (vertex_capacity g) \<and> marks visited' = set D' \<and> distinct D' \<and> D' = D @ rest \<and>
        (\<forall>v\<in>set D'. has_vertex g v \<and> R v) \<and> growable order' \<and> list_items order' = map id_cell D' \<and> alloc_fails w' = [] \<and>
        set ts \<subseteq> set D' \<and> (\<forall>u\<in>set rest. \<forall>v. (u, v) \<in> graph_arcs g \<longrightarrow> v \<in> set D') \<and> dfs_order g ts D D'"
      proof (rule less.hyps)
        show "unseen_work g D + length ts < unseen_work g D + length tos" using Cons by simp
        show "\<forall>v\<in>set D \<union> set ts. has_vertex g v \<and> R v" using I(4) Cons by simp
      qed (rule I)+
      then obtain v2 order2 w2 D2 rest2 where F: "dfs_visit_targets g ts visited order w = Some (v2, order2, w2)"
        "length v2 = nat (vertex_capacity g)" "marks v2 = set D2" "distinct D2" "D2 = D @ rest2"
        "\<forall>v\<in>set D2. has_vertex g v \<and> R v" "growable order2" "list_items order2 = map id_cell D2" "alloc_fails w2 = []"
        "set ts \<subseteq> set D2" "\<forall>u\<in>set rest2. \<forall>v. (u, v) \<in> graph_arcs g \<longrightarrow> v \<in> set D2" "dfs_order g ts D D2" by blast
      have "set tos \<subseteq> set D2" "dfs_order g tos D D2" using F(5,10) m Cons dfs_order_old [OF m F(12)] by simp_all
      then show ?thesis using F unfolding run by blast
    next
      case False
      then have m: "t \<notin> set D" using marks_at [OF range] I(2) by simp
      let ?v = "visited[nat t := True]"
      have dist: "distinct (D @ [t])" using I(3) m by simp
      have valid: "\<forall>v\<in>set D. has_vertex g v" using I(4) by blast
      obtain order1 w1 where A: "add_to_order g t order w = (order1, w1)" "growable order1"
        "list_items order1 = map id_cell (D @ [t])" "alloc_fails w1 = []"
        using add_to_order_ready [OF g t(1) I(5,7,6) dist valid] by blast
      have arcs: "x \<in> set (edge_targets g t) \<longleftrightarrow> (t, x) \<in> graph_arcs g" for x by (rule edge_targets_arcs [OF g t(1)])
      have marked: "marks ?v = set (D @ [t])" using marks_update [OF range] I(2) by simp
      note work = unseen_work_visit [OF t(1) m]
      have "\<exists>visited' order' w' D' rest. dfs_visit_targets g (edge_targets g t) ?v order1 w1 = Some (visited', order', w') \<and>
        length visited' = nat (vertex_capacity g) \<and> marks visited' = set D' \<and> distinct D' \<and> D' = (D @ [t]) @ rest \<and>
        (\<forall>v\<in>set D'. has_vertex g v \<and> R v) \<and> growable order' \<and> list_items order' = map id_cell D' \<and> alloc_fails w' = [] \<and>
        set (edge_targets g t) \<subseteq> set D' \<and> (\<forall>u\<in>set rest. \<forall>v. (u, v) \<in> graph_arcs g \<longrightarrow> v \<in> set D') \<and> dfs_order g (edge_targets g t) (D @ [t]) D'"
      proof (rule less.hyps)
        show "unseen_work g (D @ [t]) + length (edge_targets g t) < unseen_work g D + length tos" using work by simp
        show "length ?v = nat (vertex_capacity g)" using I(1) by simp
        show "\<forall>v\<in>set (D @ [t]) \<union> set (edge_targets g t). has_vertex g v \<and> R v"
          using I(4) t arcs step [OF t(2)] arcs_valid [OF g] by auto
      qed (rule marked dist A)+
      then obtain v2 order2 w2 D2 rest2 where F: "dfs_visit_targets g (edge_targets g t) ?v order1 w1 = Some (v2, order2, w2)"
        "length v2 = nat (vertex_capacity g)" "marks v2 = set D2" "distinct D2" "D2 = (D @ [t]) @ rest2"
        "\<forall>v\<in>set D2. has_vertex g v \<and> R v" "growable order2" "list_items order2 = map id_cell D2" "alloc_fails w2 = []"
        "set (edge_targets g t) \<subseteq> set D2" "\<forall>u\<in>set rest2. \<forall>v. (u, v) \<in> graph_arcs g \<longrightarrow> v \<in> set D2" "dfs_order g (edge_targets g t) (D @ [t]) D2" by blast
      have "unseen_work g D2 \<le> unseen_work g D" by (rule unseen_work_mono) (auto simp: F(5))
      have "\<exists>visited' order' w' D' rest. dfs_visit_targets g ts v2 order2 w2 = Some (visited', order', w') \<and>
        length visited' = nat (vertex_capacity g) \<and> marks visited' = set D' \<and> distinct D' \<and> D' = D2 @ rest \<and>
        (\<forall>v\<in>set D'. has_vertex g v \<and> R v) \<and> growable order' \<and> list_items order' = map id_cell D' \<and> alloc_fails w' = [] \<and>
        set ts \<subseteq> set D' \<and> (\<forall>u\<in>set rest. \<forall>v. (u, v) \<in> graph_arcs g \<longrightarrow> v \<in> set D') \<and> dfs_order g ts D2 D'"
      proof (rule less.hyps)
        show "unseen_work g D2 + length ts < unseen_work g D + length tos" using \<open>unseen_work g D2 \<le> unseen_work g D\<close> Cons by simp
        show "\<forall>v\<in>set D2 \<union> set ts. has_vertex g v \<and> R v" using F(6) I(4) Cons by auto
      qed (rule F)+
      then obtain v3 order3 w3 D3 rest3 where H: "dfs_visit_targets g ts v2 order2 w2 = Some (v3, order3, w3)"
        "length v3 = nat (vertex_capacity g)" "marks v3 = set D3" "distinct D3" "D3 = D2 @ rest3"
        "\<forall>v\<in>set D3. has_vertex g v \<and> R v" "growable order3" "list_items order3 = map id_cell D3" "alloc_fails w3 = []"
        "set ts \<subseteq> set D3" "\<forall>u\<in>set rest3. \<forall>v. (u, v) \<in> graph_arcs g \<longrightarrow> v \<in> set D3" "dfs_order g ts D2 D3" by blast
      have "dfs_visit_targets g tos visited order w = Some (v3, order3, w3)"
        using Cons False A(1) F(1) H(1) by (subst dfs_visit_targets.simps) simp
      moreover have "D3 = D @ (t # rest2 @ rest3)" "set tos \<subseteq> set D3" using H(5,10) F(5) Cons by auto
      moreover have "\<forall>u\<in>set (t # rest2 @ rest3). \<forall>v. (u, v) \<in> graph_arcs g \<longrightarrow> v \<in> set D3"
        using F(10,11) H(5,11) arcs by auto
      moreover have "dfs_order g tos D D3" unfolding Cons by (rule dfs_order_new [OF m F(12) H(12)])
      ultimately show ?thesis using H by blast
    qed
  qed
qed

lemma dfs_recursive_ready:
  assumes g: "graph_inv g" and s: "has_vertex g s" and w: "alloc_fails w = []"
  shows "\<exists>l w' D. graph_dfs_recursive_impl g s w = Some (Some l, w') \<and> list_items l = map id_cell D \<and> visits_from g s D \<and>
    dfs_order g [s] [] D"
proof -
  obtain l w1 where L: "create_vertex_list g w = (Some l, w1)" "growable l" "list_items l = []" "alloc_fails w1 = []"
    using vertex_list_ready [OF g w] by blast
  let ?v = "replicate (nat (vertex_capacity g)) False"
  obtain order1 w2 where A: "add_to_order g s l w1 = (order1, w2)" "growable order1"
    "list_items order1 = map id_cell [s]" "alloc_fails w2 = []"
    using add_to_order_ready [OF g s L(2,4), of "[]"] L(3) by auto
  have range: "0 \<le> s \<and> s < int (length ?v)" by (rule vertex_range [OF s]) simp
  have arcs: "x \<in> set (edge_targets g s) \<longleftrightarrow> (s, x) \<in> graph_arcs g" for x by (rule edge_targets_arcs [OF g s])
  have "\<exists>visited' order' w' D' rest. dfs_visit_targets g (edge_targets g s) (?v[nat s := True]) order1 w2 = Some (visited', order', w') \<and>
      length visited' = nat (vertex_capacity g) \<and> marks visited' = set D' \<and> distinct D' \<and> D' = [s] @ rest \<and>
      (\<forall>v\<in>set D'. has_vertex g v \<and> (s, v) \<in> (graph_arcs g)\<^sup>*) \<and> growable order' \<and> list_items order' = map id_cell D' \<and> alloc_fails w' = [] \<and>
      set (edge_targets g s) \<subseteq> set D' \<and> (\<forall>u\<in>set rest. \<forall>v. (u, v) \<in> graph_arcs g \<longrightarrow> v \<in> set D') \<and> dfs_order g (edge_targets g s) [s] D'"
  proof (rule dfs_visit_targets_ready [OF g])
    show "marks (?v[nat s := True]) = set [s]" using marks_update [of s ?v] range by simp
    show "\<forall>v\<in>set [s] \<union> set (edge_targets g s). has_vertex g v \<and> (s, v) \<in> (graph_arcs g)\<^sup>*"
      using s arcs arcs_valid [OF g] by auto
  qed (use A in \<open>auto intro: rtrancl_into_rtrancl\<close>)
  then obtain v' order' w' D' rest where F: "dfs_visit_targets g (edge_targets g s) (?v[nat s := True]) order1 w2 = Some (v', order', w')"
    "distinct D'" "D' = [s] @ rest" "\<forall>v\<in>set D'. has_vertex g v \<and> (s, v) \<in> (graph_arcs g)\<^sup>*" "list_items order' = map id_cell D'"
    "set (edge_targets g s) \<subseteq> set D'" "\<forall>u\<in>set rest. \<forall>v. (u, v) \<in> graph_arcs g \<longrightarrow> v \<in> set D'" "dfs_order g (edge_targets g s) [s] D'" by blast
  have "\<forall>u\<in>set D'. \<forall>v. (u, v) \<in> graph_arcs g \<longrightarrow> v \<in> set D'" using F(3,6,7) arcs by auto
  then have "visits_from g s D'" by (intro visits_fromI) (use F in auto)
  moreover have "graph_dfs_recursive_impl g s w = Some (Some order', w')"
    using L(1) s capacity_malloc [OF g L(4)] A(1) F(1) by (simp add: graph_dfs_recursive_impl_def dfs_recursive_visit_def valid_vertex)
  moreover have "dfs_order g [s] [] D'" using F(8) dfs_order_new [of s "[]"] dfs_order_Nil by fastforce
  ultimately show ?thesis using F(5) by blast
qed

section \<open>Breadth-first search goes by distance\<close>

lemma bfs_order_levels:
  "bfs_order g B Q D D' \<Longrightarrow> graph_inv g \<Longrightarrow> B = {} \<Longrightarrow>
   \<forall>v\<in>set D \<union> set Q. has_vertex g v \<and> (s, v) \<in> graph_arcs g ^^ lvl v \<Longrightarrow>
   sorted (map lvl (D @ Q)) \<Longrightarrow> \<forall>v\<in>set Q. lvl v \<le> lvl (hd Q) + 1 \<Longrightarrow>
   \<forall>u\<in>set D. \<forall>v. (u, v) \<in> graph_arcs g \<longrightarrow> v \<in> set D \<union> set Q \<and> lvl v \<le> lvl u + 1 \<Longrightarrow>
   \<exists>lvl'. sorted (map lvl' D') \<and> (\<forall>v\<in>set D'. (s, v) \<in> graph_arcs g ^^ lvl' v) \<and>
     (\<forall>u\<in>set D'. \<forall>v. (u, v) \<in> graph_arcs g \<longrightarrow> v \<in> set D' \<and> lvl' v \<le> lvl' u + 1) \<and>
     (\<forall>v\<in>set D \<union> set Q. v \<in> set D' \<and> lvl' v = lvl v)"
proof (induction arbitrary: lvl rule: bfs_order.induct)
  case (bfs_order_Nil g B D)
  then show ?case by (intro exI [of _ lvl]) simp
next
  case (bfs_order_next new g v B D Q D')
  note I = bfs_order_next.prems
  define lvl2 where "lvl2 x = (if x \<in> set new then lvl v + 1 else lvl x)" for x
  have v: "has_vertex g v" "(s, v) \<in> graph_arcs g ^^ lvl v" using I(3) by simp_all
  have arcs: "x \<in> set (edge_targets g v) \<longleftrightarrow> (v, x) \<in> graph_arcs g" for x by (rule edge_targets_arcs [OF I(1) v(1)])
  have fresh: "x \<in> set new \<longleftrightarrow> (v, x) \<in> graph_arcs g \<and> x \<notin> set D \<union> set (v # Q)" for x
    using bfs_order_next.hyps(2) arcs I(2) by auto
  have old: "lvl2 x = lvl x" if "x \<in> set D \<union> set (v # Q)" for x using that fresh by (auto simp: lvl2_def)
  have low: "\<forall>x\<in>set D. lvl x \<le> lvl v" "\<forall>x\<in>set (v # Q). lvl v \<le> lvl x \<and> lvl x \<le> lvl v + 1"
    using I(4,5) by (auto simp: sorted_append)
  have "\<exists>lvl'. sorted (map lvl' D') \<and> (\<forall>v\<in>set D'. (s, v) \<in> graph_arcs g ^^ lvl' v) \<and>
     (\<forall>u\<in>set D'. \<forall>v. (u, v) \<in> graph_arcs g \<longrightarrow> v \<in> set D' \<and> lvl' v \<le> lvl' u + 1) \<and>
     (\<forall>x\<in>set (D @ [v]) \<union> set (Q @ new). x \<in> set D' \<and> lvl' x = lvl2 x)"
  proof (rule bfs_order_next.IH [OF I(1,2)])
    have "has_vertex g x \<and> (s, x) \<in> graph_arcs g ^^ lvl2 x" if "x \<in> set new" for x
    proof -
      have "(v, x) \<in> graph_arcs g" using that fresh by blast
      then show ?thesis using arcs_valid [OF I(1)] relpow_Suc_I [OF v(2)] that by (auto simp: lvl2_def simp del: relpow.simps)
    qed
    then show "\<forall>x\<in>set (D @ [v]) \<union> set (Q @ new). has_vertex g x \<and> (s, x) \<in> graph_arcs g ^^ lvl2 x"
      using I(3) old by auto
    have "map lvl2 ((D @ [v]) @ Q @ new) = map lvl (D @ v # Q) @ map lvl2 new" using old by simp
    moreover have "sorted (map lvl (D @ v # Q) @ map lvl2 new)"
    proof -
      have "map lvl2 new = replicate (length new) (lvl v + 1)" by (rule replicate_eqI) (auto simp: lvl2_def)
      then show ?thesis using I(4) low unfolding sorted_append [of _ "map lvl2 new"] by fastforce
    qed
    ultimately show "sorted (map lvl2 ((D @ [v]) @ Q @ new))" by (simp only:)
    show "\<forall>x\<in>set (Q @ new). lvl2 x \<le> lvl2 (hd (Q @ new)) + 1"
    proof (cases Q)
      case Nil
      then show ?thesis by (cases new) (auto simp: lvl2_def)
    next
      case (Cons q Q1)
      have "lvl2 q = lvl q" "lvl v \<le> lvl q" using old low Cons by auto
      then show ?thesis using low old Cons by (auto simp: lvl2_def)
    qed
    show "\<forall>u\<in>set (D @ [v]). \<forall>x. (u, x) \<in> graph_arcs g \<longrightarrow> x \<in> set (D @ [v]) \<union> set (Q @ new) \<and> lvl2 x \<le> lvl2 u + 1"
    proof (intro ballI allI impI)
      fix u x
      assume u: "u \<in> set (D @ [v])" and ux: "(u, x) \<in> graph_arcs g"
      show "x \<in> set (D @ [v]) \<union> set (Q @ new) \<and> lvl2 x \<le> lvl2 u + 1"
      proof (cases "u \<in> set D")
        case True
        then have "x \<in> set D \<union> set (v # Q)" "lvl x \<le> lvl u + 1" using I(6) ux by blast+
        then show ?thesis using old [of x] old [of u] True by auto
      next
        case False
        then have uv: "u = v" using u by simp
        have lv: "lvl2 v = lvl v" by (rule old) simp
        show ?thesis
        proof (cases "x \<in> set new")
          case False
          then have "x \<in> set D \<union> set (v # Q)" using fresh ux uv by blast
          then show ?thesis using old [of x] low lv uv by auto
        qed (use lv uv in \<open>simp add: lvl2_def\<close>)
      qed
    qed
  qed
  then obtain lvl' where L: "sorted (map lvl' D')" "\<forall>v\<in>set D'. (s, v) \<in> graph_arcs g ^^ lvl' v"
    "\<forall>u\<in>set D'. \<forall>v. (u, v) \<in> graph_arcs g \<longrightarrow> v \<in> set D' \<and> lvl' v \<le> lvl' u + 1"
    "\<forall>x\<in>set (D @ [v]) \<union> set (Q @ new). x \<in> set D' \<and> lvl' x = lvl2 x" by blast
  have "x \<in> set D' \<and> lvl' x = lvl x" if "x \<in> set D \<union> set (v # Q)" for x
    using L(4) old [OF that] that by auto
  then show ?case using L(1-3) by blast
qed

text \<open>The number of edges on a shortest path.\<close>

definition hops :: "(int \<times> int) set \<Rightarrow> int \<Rightarrow> int \<Rightarrow> nat" where
  "hops E s v = (LEAST n. (s, v) \<in> E ^^ n)"

lemma bfs_nearest:
  assumes "graph_inv g" "has_vertex g s" "bfs_order g {} [s] [] D"
  shows "sorted (map (hops (graph_arcs g) s) D)"
proof -
  from bfs_order_levels [OF assms(3,1), of s "\<lambda>_. 0"] assms(2) obtain lvl where L: "sorted (map lvl D)"
    "\<forall>v\<in>set D. (s, v) \<in> graph_arcs g ^^ lvl v"
    "\<forall>u\<in>set D. \<forall>v. (u, v) \<in> graph_arcs g \<longrightarrow> v \<in> set D \<and> lvl v \<le> lvl u + 1" "s \<in> set D" "lvl s = 0" by auto
  have least: "(s, v) \<in> graph_arcs g ^^ n \<Longrightarrow> v \<in> set D \<and> lvl v \<le> n" for v n
  proof (induction n arbitrary: v)
    case (Suc n)
    then obtain u where "(s, u) \<in> graph_arcs g ^^ n" "(u, v) \<in> graph_arcs g" by (blast elim: relpow_Suc_E)
    then show ?case using Suc.IH [of u] L(3) by fastforce
  qed (use L in simp)
  have "hops (graph_arcs g) s v = lvl v" if "v \<in> set D" for v
    unfolding hops_def by (rule Least_equality) (use that L(2) least in auto)
  then have "map (hops (graph_arcs g) s) D = map lvl D" unfolding map_eq_conv by blast
  then show ?thesis using L(1) by (simp only:)
qed

section \<open>Components are classes\<close>

text \<open>The components found so far: reachability classes, disjoint, none of them empty.\<close>

definition classes_of :: "(int \<times> int) set \<Rightarrow> int list list \<Rightarrow> bool" where
  "classes_of E Ds \<longleftrightarrow> distinct (concat Ds) \<and> (\<forall>D\<in>set Ds. D \<noteq> [] \<and> (\<forall>u\<in>set D. set D = {v. (u, v) \<in> E\<^sup>*}))"

lemma class_of_start:
  assumes "sym E" "start \<in> set D" "\<forall>v\<in>set D. (start, v) \<in> E\<^sup>*" "\<forall>u\<in>set D. \<forall>v. (u, v) \<in> E \<longrightarrow> v \<in> set D" "u \<in> set D"
  shows "set D = {v. (u, v) \<in> E\<^sup>*}"
proof -
  have "(u, start) \<in> E\<^sup>*" using assms(1,3,5) by (meson sym_rtrancl symD)
  then have "(u, v) \<in> E\<^sup>*" if "v \<in> set D" for v using that assms(3) by (meson rtrancl_trans)
  moreover have "v \<in> set D" if "(u, v) \<in> E\<^sup>*" for v
    using that assms(5) by (induction rule: rtrancl_induct) (use assms(4) in blast)+
  ultimately show ?thesis by blast
qed

lemma classes_closed: "classes_of E Ds \<Longrightarrow> u \<in> set (concat Ds) \<Longrightarrow> (u, v) \<in> E \<Longrightarrow> v \<in> set (concat Ds)"
  unfolding classes_of_def by fastforce

lemma components_loop_ready:
  assumes g: "graph_inv g" and sym: "sym (graph_arcs g)"
  shows "start = int i \<Longrightarrow> i + n = nat (vertex_capacity g) \<Longrightarrow> linked_queue_inv q \<Longrightarrow> linked_queue_items q = [] \<Longrightarrow>
    length visited = nat (vertex_capacity g) \<Longrightarrow> marks visited = set (concat Ds) \<Longrightarrow> classes_of (graph_arcs g) Ds \<Longrightarrow>
    \<forall>v\<in>set (concat Ds). has_vertex g v \<Longrightarrow> \<forall>v. has_vertex g v \<longrightarrow> v < int i \<longrightarrow> v \<in> set (concat Ds) \<Longrightarrow> length Ds \<le> i \<Longrightarrow>
    map list_items comps = map (map id_cell) Ds \<Longrightarrow> growable components \<Longrightarrow> list_items components = map Some [0..<length Ds] \<Longrightarrow>
    alloc_fails w = [] \<Longrightarrow>
    \<exists>components' comps' w' Ds'. components_loop g start n visited q components comps w = Some (components', comps', w') \<and>
      classes_of (graph_arcs g) Ds' \<and> set (concat Ds') = {v. has_vertex g v} \<and> map list_items comps' = map (map id_cell) Ds' \<and>
      list_items components' = map Some [0..<length Ds']"
proof (induction n arbitrary: start i visited q components comps w Ds)
  case 0
  have "v \<in> set (concat Ds)" if "has_vertex g v" for v
    using that 0(2,9) by (simp add: has_vertex_iff)
  then show ?case using 0 by (intro exI [of _ components] exI [of _ comps] exI [of _ w] exI [of _ Ds]) auto
next
  case (Suc n)
  note I = Suc.prems
  show ?case
  proof (cases "graph_is_valid_vertex g start \<and> \<not> visited ! nat start")
    case False
    have run: "components_loop g start (Suc n) visited q components comps w = components_loop g (start + 1) n visited q components comps w"
      using False by simp
    have next_start: "\<forall>v. has_vertex g v \<longrightarrow> v < int (Suc i) \<longrightarrow> v \<in> set (concat Ds)"
    proof (intro allI impI)
      fix v
      assume v: "has_vertex g v" "v < int (Suc i)"
      show "v \<in> set (concat Ds)"
      proof (cases "v = start")
        case True
        then have "visited ! nat v" using False v valid_vertex by blast
        then show ?thesis using marks_at [of v visited] vertex_range [OF v(1) I(5)] I(6) by simp
      qed (use v I(1,9) in simp)
    qed
    show ?thesis unfolding run
    proof (rule Suc.IH)
      show "start + 1 = int (Suc i)" "Suc i + n = nat (vertex_capacity g)" "length Ds \<le> Suc i" using I(1,2,10) by simp_all
    qed (rule I next_start)+
  next
    case True
    then have s: "has_vertex g start" "\<not> visited ! nat start" by (simp_all add: valid_vertex)
    have range: "0 \<le> start" "start < int (length visited)" using vertex_range [OF s(1) I(5)] by simp_all
    have m: "start \<notin> set (concat Ds)" using s(2) marks_at [OF range] I(6) by simp
    obtain c w1 where C: "create_list ARRAY_LIST 4 None w = (Some (c :: nat list_obj), w1)" "growable c" "list_items c = []"
      "alloc_fails w1 = []" using create_growable [OF I(14), of 4] by (auto simp: INT_MAX_def)
    obtain q1 where E: "linked_enqueue_method q (int_ptr start) w1 = (OVA_SUCCESS, q1, w1)" "linked_queue_inv q1"
      "linked_queue_items q1 = [int_ptr start]" using enqueue_ready [OF I(3) C(4)] I(4) by fastforce
    let ?v = "visited[nat start := True]" and ?B = "set (concat Ds)"
    have marked: "marks ?v = insert start ?B" using marks_update [OF range] I(6) by simp
    have "\<exists>visited' q' order' w' D' rest. bfs_loop g ?v q1 c w1 = Some (visited', q', order', w') \<and> linked_queue_inv q' \<and>
      linked_queue_items q' = [] \<and> length visited' = nat (vertex_capacity g) \<and> marks visited' = ?B \<union> set D' \<and> distinct D' \<and>
      ?B \<inter> set D' = {} \<and> D' = [] @ [start] @ rest \<and> (\<forall>v\<in>set D'. has_vertex g v \<and> (start, v) \<in> (graph_arcs g)\<^sup>*) \<and> growable order' \<and>
      list_items order' = map id_cell D' \<and> alloc_fails w' = [] \<and>
      (\<forall>u\<in>set D'. \<forall>v. (u, v) \<in> graph_arcs g \<longrightarrow> v \<in> ?B \<union> set D') \<and> bfs_order g ?B [start] [] D'"
    proof (rule bfs_loop_ready [OF g])
      show "marks ?v = ?B \<union> set [] \<union> set [start]" using marked by simp
      show "?B \<inter> (set [] \<union> set [start]) = {}" using m by simp
      show "\<And>u v. (start, u) \<in> (graph_arcs g)\<^sup>* \<Longrightarrow> (u, v) \<in> graph_arcs g \<Longrightarrow> (start, v) \<in> (graph_arcs g)\<^sup>*"
        by (rule rtrancl_into_rtrancl)
      show "linked_queue_inv q1" "growable c" "alloc_fails w1 = []" by (rule E C)+
      show "linked_queue_items q1 = map int_ptr [start]" "list_items c = map id_cell []" using E(3) C(3) by simp_all
      show "length ?v = nat (vertex_capacity g)" using I(5) by simp
      show "\<forall>v\<in>set [] \<union> set [start]. has_vertex g v \<and> (start, v) \<in> (graph_arcs g)\<^sup>*" using s(1) by simp
    qed simp_all
    then obtain v2 q2 c2 w2 D rest where F: "bfs_loop g ?v q1 c w1 = Some (v2, q2, c2, w2)" "linked_queue_inv q2"
      "linked_queue_items q2 = []" "length v2 = nat (vertex_capacity g)" "marks v2 = ?B \<union> set D" "distinct D" "?B \<inter> set D = {}"
      "D = [] @ [start] @ rest" "\<forall>v\<in>set D. has_vertex g v \<and> (start, v) \<in> (graph_arcs g)\<^sup>*" "list_items c2 = map id_cell D"
      "alloc_fails w2 = []" "\<forall>u\<in>set D. \<forall>v. (u, v) \<in> graph_arcs g \<longrightarrow> v \<in> ?B \<union> set D" by blast
    have start: "start \<in> set D" "\<forall>v\<in>set D. (start, v) \<in> (graph_arcs g)\<^sup>*" using F(8,9) by auto
    have closed: "\<forall>u\<in>set D. \<forall>v. (u, v) \<in> graph_arcs g \<longrightarrow> v \<in> set D"
    proof (intro ballI allI impI)
      fix u v
      assume uv: "u \<in> set D" "(u, v) \<in> graph_arcs g"
      then have "(v, u) \<in> graph_arcs g" using sym by (simp add: symD)
      then have "v \<notin> ?B" using classes_closed [OF I(7)] uv(1) F(7) by blast
      then show "v \<in> set D" using F(12) uv by blast
    qed
    have "length Ds < INT_MAX"
    proof -
      have "nat (vertex_capacity g) < INT_MAX"
        using graph_base_cap [of g] g unfolding graph_inv_def by (auto simp: INT_MAX_def nat_less_iff)
      then show ?thesis using I(2,10) by simp
    qed
    then obtain components2 w3 where A: "list_insert components (Some (length Ds)) (list_size components) w2 = (OVA_SUCCESS, components2, w3)"
      "growable components2" "list_items components2 = map Some [0..<length Ds] @ [Some (length Ds)]" "alloc_fails w3 = []"
      using growable_insert [OF I(12) F(11), of "Some (length Ds)"] I(13) by auto
    have len: "length comps = length Ds" using I(11) by (metis length_map)
    have run: "components_loop g start (Suc n) visited q components comps w =
        components_loop g (start + 1) n v2 q2 components2 (comps @ [c2]) w3"
      using True C(1) E(1) F(1) A(1) len by simp
    show ?thesis unfolding run
    proof (rule Suc.IH)
      show "start + 1 = int (Suc i)" "Suc i + n = nat (vertex_capacity g)" "length (Ds @ [D]) \<le> Suc i" using I(1,2,10) by simp_all
      show "marks v2 = set (concat (Ds @ [D]))" using F(5) by simp
      have "set D = {v. (u, v) \<in> (graph_arcs g)\<^sup>*}" if "u \<in> set D" for u
        using class_of_start [OF sym start closed that] .
      then show "classes_of (graph_arcs g) (Ds @ [D])"
        using I(7) F(6,7) start(1) unfolding classes_of_def by (auto simp: disjoint_iff)
      show "\<forall>v\<in>set (concat (Ds @ [D])). has_vertex g v" using I(8) F(9) by auto
      show "\<forall>v. has_vertex g v \<longrightarrow> v < int (Suc i) \<longrightarrow> v \<in> set (concat (Ds @ [D]))"
      proof (intro allI impI)
        fix v
        assume "has_vertex g v" "v < int (Suc i)"
        then show "v \<in> set (concat (Ds @ [D]))" using I(1,9) start(1) by (cases "v = start") auto
      qed
      show "map list_items (comps @ [c2]) = map (map id_cell) (Ds @ [D])" using I(11) F(10) by simp
      show "list_items components2 = map Some [0..<length (Ds @ [D])]" using A(3) by simp
    qed (rule F A)+
  qed
qed

section \<open>Graphs built by calls\<close>

definition graph_after ::
  "graph_type \<Rightarrow> graph_representation \<Rightarrow> graph_traversal_strategy \<Rightarrow> graph_min_path_strategy \<Rightarrow> graph_cmd list \<Rightarrow> nat world \<Rightarrow>
     (graph_impl \<times> nat world) option" where
  "graph_after type rep tr mp cs w =
     (case create_graph type rep tr mp w of
        (None, w) \<Rightarrow> None
      | (Some g, w) \<Rightarrow> map_option snd (graph_run cs g w))"

definition abs_after :: "graph_type \<Rightarrow> graph_cmd list \<Rightarrow> abs_graph" where
  "abs_after type cs = snd (abs_run type cs ([], []))"

text \<open>The edges of the abstract graph, as a relation.\<close>

definition abs_arcs :: "abs_graph \<Rightarrow> (int \<times> int) set" where
  "abs_arcs a = fst ` set (snd a)"

lemma graph_after_holds:
  assumes "alloc_fails w = []" "list_all (graph_cmd_ok rep) cs"
  shows "\<exists>g w'. graph_after type rep tr mp cs w = Some (g, w') \<and> graph_holds g (abs_after type cs) \<and> alloc_fails w' = [] \<and>
    gr_type g = type \<and> gr_rep g = rep \<and> gr_traversal g = tr"
proof -
  let ?g = "initial_graph type rep tr mp"
  note C = create_graph_ready [OF assms(1), of type rep tr mp]
  note I = create_graph_inv [OF C assms(1)]
  have "graph_holds ?g ([], [])" using I by (simp add: graph_holds_def)
  from graph_run_holds [OF this, of cs w] I assms obtain g' w' where
    "graph_run cs ?g w = Some (fst (abs_run type cs ([], [])), g', w')" "graph_holds g' (snd (abs_run type cs ([], [])))"
    "same_graph ?g g'" "alloc_fails w' = []" by auto
  then show ?thesis using C I by (auto simp: graph_after_def abs_after_def same_graph_def)
qed

lemma holds_arcs:
  assumes "graph_holds g a"
  shows "graph_arcs g = abs_arcs a \<and> {v. has_vertex g v} = set (fst a) \<and> graph_inv g"
  using assms by (auto simp: graph_holds_def graph_arcs_def abs_arcs_def dom_map_of_conv_image_fst)

lemma holds_work:
  assumes "graph_holds g a"
  shows "unseen_work g [] = length (fst a) + length (snd a)"
proof -
  have g: "graph_inv g" "set (fst a) = {v. has_vertex g v}" "distinct (fst a)" "distinct (map fst (snd a))"
    using assms by (simp_all add: graph_holds_def)
  have fin: "finite {v. has_vertex g v}" using g(2) by (metis finite_set)
  have each: "length (edge_targets g v) = card (graph_arcs g `` {v})" if "has_vertex g v" for v
  proof -
    have "distinct (edge_targets g v)" using edge_targets_pairs [OF g(1) that] adj_pairs_distinct [OF g(1)] by simp
    moreover have "set (edge_targets g v) = graph_arcs g `` {v}" using edge_targets_arcs [OF g(1) that] by blast
    ultimately show ?thesis using distinct_card by metis
  qed
  have arcs: "graph_arcs g = (SIGMA v:{v. has_vertex g v}. graph_arcs g `` {v})" using arcs_valid [OF g(1)] by fastforce
  have "finite (graph_arcs g `` {v})" for v
    by (rule finite_subset [OF _ fin]) (use arcs_valid [OF g(1)] in blast)
  then have "card (graph_arcs g) = (\<Sum>v\<in>{v. has_vertex g v}. card (graph_arcs g `` {v}))"
    using arcs card_SigmaI [OF fin, of "\<lambda>v. graph_arcs g `` {v}"] by metis
  moreover have "(\<Sum>v\<in>{v. has_vertex g v}. length (edge_targets g v)) = (\<Sum>v\<in>{v. has_vertex g v}. card (graph_arcs g `` {v}))"
    by (rule sum.cong) (use each in auto)
  moreover have "card (graph_arcs g) = length (snd a)"
    using holds_arcs [OF assms] distinct_card [OF g(4)] by (simp add: abs_arcs_def)
  moreover have "card {v. has_vertex g v} = length (fst a)" using g(2,3) distinct_card by metis
  ultimately show ?thesis unfolding unseen_work_def by (simp only: sum.distrib) simp
qed

lemma undirected_sym: "sym (abs_arcs a) \<Longrightarrow> sym (abs_arcs (snd (abs_run GRAPH_UNDIRECTED cs a)))"
proof (induction cs arbitrary: a)
  case (Cons c cs)
  obtain vs es where a: "a = (vs, es)" by (cases a)
  have dom: "abs_arcs (vs, es) = dom (map_of es)" for vs :: "int list" and es
    by (simp add: abs_arcs_def dom_map_of_conv_image_fst)
  have "sym (abs_arcs (snd (abs_exec GRAPH_UNDIRECTED c a)))"
    using Cons.prems by (cases c) (auto simp: a dom update_conv' delete_conv' sym_def split: if_splits)
  from Cons.IH [OF this] show ?case
    by (cases "abs_exec GRAPH_UNDIRECTED c a"; cases "abs_run GRAPH_UNDIRECTED cs (snd (abs_exec GRAPH_UNDIRECTED c a))") simp
qed simp

section \<open>Properties\<close>

text \<open>C24: all three strategies of \<open>traverse\<close> return and visit exactly the vertices that can be
  reached from the start along edges, each of them once and the start first, over both
  representations and whatever calls built the graph; from a vertex the graph does not have they
  visit nothing.\<close>

theorem graph_traverse_reaches:
  assumes "graph_after type rep tr mp cs w = Some (g, w1)" "alloc_fails w = []" "list_all (graph_cmd_ok rep) cs"
    "abs_after type cs = a" "length (fst a) + length (snd a) < INT_MAX"
  shows "\<exists>l w2 D. graph_traverse_method (Some g) s w1 = Some (Some l, w2) \<and> list_items l = map id_cell D \<and>
    distinct D \<and> set D = (if s \<in> set (fst a) then {v. (s, v) \<in> (abs_arcs a)\<^sup>*} else {}) \<and> (s \<in> set (fst a) \<longrightarrow> D ! 0 = s)"
proof -
  have H: "graph_holds g a" "alloc_fails w1 = []"
    using graph_after_holds [OF assms(2,3), of type tr mp] assms(1,4) by auto
  note A = holds_arcs [OF H(1)]
  show ?thesis
  proof (cases "has_vertex g s")
    case True
    have work: "unseen_work g [] < INT_MAX" using holds_work [OF H(1)] assms(5) by simp
    have "\<exists>l w2 D. graph_traverse_method (Some g) s w1 = Some (Some l, w2) \<and> list_items l = map id_cell D \<and> visits_from g s D"
      using bfs_ready [OF _ True H(2)] dfs_ready [OF _ True H(2) work] dfs_recursive_ready [OF _ True H(2)] A
      by (cases "gr_traversal g") (fastforce simp: graph_traverse_method_def)+
    then show ?thesis using True A by (fastforce simp: visits_from_def hd_conv_nth)
  next
    case False
    obtain l w2 where "create_vertex_list g w1 = (Some l, w2)" "list_items l = []" using vertex_list_ready [OF _ H(2)] A by blast
    then have "graph_traverse_method (Some g) s w1 = Some (Some l, w2)" "list_items l = map id_cell []"
      using False by (auto simp: graph_traverse_method_def graph_bfs_impl_def graph_dfs_iterative_impl_def
          graph_dfs_recursive_impl_def valid_vertex split: graph_traversal_strategy.split)
    moreover have "s \<notin> set (fst a)" using False A by blast
    ultimately show ?thesis by fastforce
  qed
qed

theorem graph_traverse_reaches_witness:
  "\<exists>g w1 l w2 D. graph_after GRAPH_DIRECTED GRAPH_ADJACENCY_MATRIX GRAPH_TRAVERSE_DFS_ITERATIVE GRAPH_MIN_PATH_DIJKSTRA
      [Add_Edge 1 2 5, Add_Edge 3 1 5, Add_Edge 9 2 5, Remove_Edge 9 2] fresh_world = Some (g, w1) \<and>
    graph_traverse_method (Some g) 3 w1 = Some (Some l, w2) \<and> list_items l = map id_cell D \<and> distinct D \<and>
    set D = {v. (3, v) \<in> {(1, 2), (3, 1)}\<^sup>*} \<and> D ! 0 = 3"
proof -
  let ?cs = "[Add_Edge 1 2 5, Add_Edge 3 1 5, Add_Edge 9 2 5, Remove_Edge 9 2]"
  have ok: "alloc_fails fresh_world = []" "list_all (graph_cmd_ok GRAPH_ADJACENCY_MATRIX) ?cs"
    by (simp_all add: rep_limit_def GRAPH_NO_EDGE_def)
  have a: "abs_after GRAPH_DIRECTED ?cs = ([9, 3, 2, 1], [((1, 2), 5), ((3, 1), 5)])"
    by (simp add: abs_after_def List.insert_def)
  obtain g w1 where G: "graph_after GRAPH_DIRECTED GRAPH_ADJACENCY_MATRIX GRAPH_TRAVERSE_DFS_ITERATIVE GRAPH_MIN_PATH_DIJKSTRA ?cs fresh_world = Some (g, w1)"
    using graph_after_holds [OF ok, of GRAPH_DIRECTED GRAPH_TRAVERSE_DFS_ITERATIVE GRAPH_MIN_PATH_DIJKSTRA] by blast
  from graph_traverse_reaches [OF G ok a, of 3] G show ?thesis by (auto simp: abs_arcs_def INT_MAX_def)
qed

text \<open>C25: the iterative depth-first search, which marks a vertex when it leaves the stack and pushes
  the neighbours backwards, visits the vertices in the very order of the recursive one.\<close>

theorem dfs_iterative_recursive_agree:
  assumes "graph_after type rep tr mp cs w = Some (g, w1)" "alloc_fails w = []" "list_all (graph_cmd_ok rep) cs"
    "abs_after type cs = a" "length (fst a) + length (snd a) < INT_MAX" "s \<in> set (fst a)"
  shows "\<exists>l w2 l' w2'. graph_dfs_iterative_impl g s w1 = Some (Some l, w2) \<and> graph_dfs_recursive_impl g s w1 = Some (Some l', w2') \<and>
    list_items l = list_items l'"
proof -
  have H: "graph_holds g a" "alloc_fails w1 = []"
    using graph_after_holds [OF assms(2,3), of type tr mp] assms(1,4) by auto
  have "graph_inv g" "has_vertex g s" "unseen_work g [] < INT_MAX" using holds_arcs [OF H(1)] holds_work [OF H(1)] assms(5,6) by auto
  with dfs_ready [OF this(1,2) H(2) this(3)] dfs_recursive_ready [OF this(1,2) H(2)] dfs_order_deterministic show ?thesis by metis
qed

theorem dfs_iterative_recursive_agree_witness:
  "\<exists>g w1 l w2 l' w2'. graph_after GRAPH_UNDIRECTED GRAPH_ADJACENCY_LIST GRAPH_TRAVERSE_BFS GRAPH_MIN_PATH_DIJKSTRA
      [Add_Edge 0 1 5, Add_Edge 0 2 5, Add_Edge 2 1 5] fresh_world = Some (g, w1) \<and>
    graph_dfs_iterative_impl g 0 w1 = Some (Some l, w2) \<and> graph_dfs_recursive_impl g 0 w1 = Some (Some l', w2') \<and>
    list_items l = list_items l'"
proof -
  let ?cs = "[Add_Edge 0 1 5, Add_Edge 0 2 5, Add_Edge 2 1 5]"
  have ok: "alloc_fails fresh_world = []" "list_all (graph_cmd_ok GRAPH_ADJACENCY_LIST) ?cs"
    by (simp_all add: rep_limit_def GRAPH_NO_EDGE_def)
  obtain g w1 where G: "graph_after GRAPH_UNDIRECTED GRAPH_ADJACENCY_LIST GRAPH_TRAVERSE_BFS GRAPH_MIN_PATH_DIJKSTRA ?cs fresh_world = Some (g, w1)"
    using graph_after_holds [OF ok, of GRAPH_UNDIRECTED GRAPH_TRAVERSE_BFS GRAPH_MIN_PATH_DIJKSTRA] by blast
  have "length (fst (abs_after GRAPH_UNDIRECTED ?cs)) + length (snd (abs_after GRAPH_UNDIRECTED ?cs)) < INT_MAX"
    "0 \<in> set (fst (abs_after GRAPH_UNDIRECTED ?cs))" by (simp_all add: abs_after_def List.insert_def INT_MAX_def)
  from dfs_iterative_recursive_agree [OF G ok refl this] G show ?thesis by blast
qed

text \<open>C26: breadth-first search visits vertices in the order of their distance, the number of edges on
  a shortest path from the start.\<close>

theorem bfs_nearest_first:
  assumes "graph_after type rep tr mp cs w = Some (g, w1)" "alloc_fails w = []" "list_all (graph_cmd_ok rep) cs"
    "abs_after type cs = a" "s \<in> set (fst a)"
  shows "\<exists>l w2 D. graph_bfs_impl g s w1 = Some (Some l, w2) \<and> list_items l = map id_cell D \<and> sorted (map (hops (abs_arcs a) s) D)"
proof -
  have H: "graph_holds g a" "alloc_fails w1 = []"
    using graph_after_holds [OF assms(2,3), of type tr mp] assms(1,4) by auto
  have g: "graph_inv g" "has_vertex g s" "graph_arcs g = abs_arcs a" using holds_arcs [OF H(1)] assms(5) by auto
  obtain l w2 D where "graph_bfs_impl g s w1 = Some (Some l, w2)" "list_items l = map id_cell D" "bfs_order g {} [s] [] D"
    using bfs_ready [OF g(1,2) H(2)] by blast
  then show ?thesis using bfs_nearest [OF g(1,2)] unfolding g(3) by blast
qed

theorem bfs_nearest_first_witness:
  "\<exists>g w1 l w2 D. graph_after GRAPH_DIRECTED GRAPH_ADJACENCY_LIST GRAPH_TRAVERSE_BFS GRAPH_MIN_PATH_DIJKSTRA
      [Add_Edge 0 1 5, Add_Edge 1 2 5, Add_Edge 0 3 5] fresh_world = Some (g, w1) \<and>
    graph_bfs_impl g 0 w1 = Some (Some l, w2) \<and> list_items l = map id_cell D \<and> sorted (map (hops {(0, 1), (1, 2), (0, 3)} 0) D)"
proof -
  let ?cs = "[Add_Edge 0 1 5, Add_Edge 1 2 5, Add_Edge 0 3 5]"
  have ok: "alloc_fails fresh_world = []" "list_all (graph_cmd_ok GRAPH_ADJACENCY_LIST) ?cs"
    by (simp_all add: rep_limit_def GRAPH_NO_EDGE_def)
  obtain g w1 where G: "graph_after GRAPH_DIRECTED GRAPH_ADJACENCY_LIST GRAPH_TRAVERSE_BFS GRAPH_MIN_PATH_DIJKSTRA ?cs fresh_world = Some (g, w1)"
    using graph_after_holds [OF ok, of GRAPH_DIRECTED GRAPH_TRAVERSE_BFS GRAPH_MIN_PATH_DIJKSTRA] by blast
  have a: "abs_after GRAPH_DIRECTED ?cs = ([3, 2, 1, 0], [((0, 1), 5), ((1, 2), 5), ((0, 3), 5)])"
    by (simp add: abs_after_def List.insert_def)
  from bfs_nearest_first [OF G ok a, of 0] G show ?thesis by (simp add: abs_arcs_def)
qed

text \<open>C27: the connected components of an undirected graph are its reachability classes: the list
  holds one list of vertices per class, every vertex is in exactly one of them, and two vertices
  are together exactly when a path joins them.\<close>

theorem connected_components_partition:
  assumes "graph_after GRAPH_UNDIRECTED rep tr mp cs w = Some (g, w1)" "alloc_fails w = []" "list_all (graph_cmd_ok rep) cs"
    "abs_after GRAPH_UNDIRECTED cs = a"
  shows "\<exists>components comps w2 Ds. graph_connected_components_impl (Some g) w1 = Some (Some (components, comps), w2) \<and>
    list_items components = map Some [0..<length comps] \<and> map list_items comps = map (map id_cell) Ds \<and>
    set (concat Ds) = set (fst a) \<and> classes_of (abs_arcs a) Ds"
proof -
  have H: "graph_holds g a" "alloc_fails w1 = []" "gr_type g = GRAPH_UNDIRECTED"
    using graph_after_holds [OF assms(2,3), of GRAPH_UNDIRECTED tr mp] assms(1,4) by auto
  have g: "graph_inv g" "{v. has_vertex g v} = set (fst a)" "graph_arcs g = abs_arcs a" using holds_arcs [OF H(1)] by auto
  have sym: "sym (graph_arcs g)" using undirected_sym [of "([], [])" cs] assms(4) unfolding g(3) abs_after_def by (auto simp: abs_arcs_def sym_def)
  obtain c w2 where C: "create_list ARRAY_LIST 4 None w1 = (Some (c :: nat list_obj), w2)" "growable c" "list_items c = []"
    "alloc_fails w2 = []" using create_growable [OF H(2), of 4] by (auto simp: INT_MAX_def)
  obtain q where Q: "create_linked_queue w2 = (Some q, w2)" "linked_queue_inv q" "linked_queue_items q = []"
    using create_queue_ready [OF C(4)] by blast
  let ?n = "nat (vertex_capacity g)"
  have "\<exists>components' comps' w' Ds'. components_loop g 0 ?n (replicate ?n False) q c [] w2 = Some (components', comps', w') \<and>
      classes_of (graph_arcs g) Ds' \<and> set (concat Ds') = {v. has_vertex g v} \<and> map list_items comps' = map (map id_cell) Ds' \<and>
      list_items components' = map Some [0..<length Ds']"
    by (rule components_loop_ready [OF g(1) sym, where i = 0 and Ds = "[]"])
      (use Q(2,3) C in \<open>simp_all add: classes_of_def has_vertex_iff\<close>)
  then obtain components' comps' w' Ds' where R: "components_loop g 0 ?n (replicate ?n False) q c [] w2 = Some (components', comps', w')"
    "classes_of (graph_arcs g) Ds'" "set (concat Ds') = {v. has_vertex g v}" "map list_items comps' = map (map id_cell) Ds'"
    "list_items components' = map Some [0..<length Ds']" by blast
  have "graph_connected_components_impl (Some g) w1 = Some (Some (components', comps'), w')"
    using H(3) C(1) capacity_malloc [OF g(1) C(4)] Q(1) R(1) by (simp add: graph_connected_components_impl_def)
  moreover have "length comps' = length Ds'" using R(4) by (metis length_map)
  ultimately show ?thesis using R(2-5) unfolding g(2,3) by metis
qed

theorem connected_components_partition_witness:
  "\<exists>g w1 components comps w2 Ds. graph_after GRAPH_UNDIRECTED GRAPH_ADJACENCY_LIST GRAPH_TRAVERSE_BFS GRAPH_MIN_PATH_DIJKSTRA
      [Add_Edge 1 2 5, Add_Vertex 4] fresh_world = Some (g, w1) \<and>
    graph_connected_components_impl (Some g) w1 = Some (Some (components, comps), w2) \<and>
    list_items components = map Some [0..<length comps] \<and> map list_items comps = map (map id_cell) Ds \<and>
    set (concat Ds) = {1, 2, 4} \<and> classes_of {(1, 2), (2, 1)} Ds"
proof -
  let ?cs = "[Add_Edge 1 2 5, Add_Vertex 4]"
  have ok: "alloc_fails fresh_world = []" "list_all (graph_cmd_ok GRAPH_ADJACENCY_LIST) ?cs"
    by (simp_all add: rep_limit_def GRAPH_NO_EDGE_def)
  obtain g w1 where G: "graph_after GRAPH_UNDIRECTED GRAPH_ADJACENCY_LIST GRAPH_TRAVERSE_BFS GRAPH_MIN_PATH_DIJKSTRA ?cs fresh_world = Some (g, w1)"
    using graph_after_holds [OF ok, of GRAPH_UNDIRECTED GRAPH_TRAVERSE_BFS GRAPH_MIN_PATH_DIJKSTRA] by blast
  have a: "abs_after GRAPH_UNDIRECTED ?cs = ([4, 2, 1], [((1, 2), 5), ((2, 1), 5)])"
    by (simp add: abs_after_def List.insert_def)
  have "set (fst ([4, 2, 1], [((1, 2), 5 :: double), ((2, 1), 5)])) = {1, 2, 4 :: int}"
    "abs_arcs ([4, 2, 1], [((1, 2), 5), ((2, 1), 5)]) = {(1, 2), (2, 1)}" by (auto simp: abs_arcs_def)
  with connected_components_partition [OF G ok a] G show ?thesis by simp
qed

end
