(* ===== verification/Graph_Order.thy ===== *)
theory Graph_Order
  imports Graph_Search
begin

text \<open>
  The order of a directed graph, from \<open>src/graph/graph_algorithms.c\<close>: Kahn's topological sort over
  the linked queue, and the depth-first searches for a cycle in a directed graph (three colours) and
  in an undirected one (marks and the parent). The sort refuses exactly the graphs in which the
  search finds a cycle.
\<close>

section \<open>Topological sort\<close>

fun add_indegrees :: "int list \<Rightarrow> int list \<Rightarrow> int list" where
  "add_indegrees [] indegree = indegree"
| "add_indegrees (to # tos) indegree = add_indegrees tos (indegree[nat to := wrap_int (indegree ! nat to + 1)])"

fun indegree_loop :: "graph_impl \<Rightarrow> int \<Rightarrow> nat \<Rightarrow> int list \<Rightarrow> int list" where
  "indegree_loop g from 0 indegree = indegree"
| "indegree_loop g from (Suc n) indegree =
     (if \<not> graph_is_valid_vertex g from then indegree_loop g (from + 1) n indegree
      else indegree_loop g (from + 1) n (add_indegrees (edge_targets g from) indegree))"

fun enqueue_sources :: "graph_impl \<Rightarrow> int \<Rightarrow> nat \<Rightarrow> int list \<Rightarrow> nat linked_queue \<Rightarrow> nat world \<Rightarrow> nat linked_queue \<times> nat world" where
  "enqueue_sources g v 0 indegree q w = (q, w)"
| "enqueue_sources g v (Suc n) indegree q w =
     (if graph_is_valid_vertex g v \<and> indegree ! nat v = 0
      then (case linked_enqueue_method q (int_ptr v) w of (_, q, w) \<Rightarrow> enqueue_sources g (v + 1) n indegree q w)
      else enqueue_sources g (v + 1) n indegree q w)"

fun release_targets ::
  "int list \<Rightarrow> int list \<Rightarrow> nat linked_queue \<Rightarrow> nat world \<Rightarrow> int list \<times> nat linked_queue \<times> nat world" where
  "release_targets [] indegree q w = (indegree, q, w)"
| "release_targets (to # tos) indegree q w =
     (let indegree = indegree[nat to := wrap_int (indegree ! nat to - 1)] in
      if indegree ! nat to = 0
      then (case linked_enqueue_method q (int_ptr to) w of (_, q, w) \<Rightarrow> release_targets tos indegree q w)
      else release_targets tos indegree q w)"

partial_function (option) topological_loop ::
  "graph_impl \<Rightarrow> int list \<Rightarrow> nat linked_queue \<Rightarrow> nat list_obj \<Rightarrow> nat world \<Rightarrow> (nat list_obj \<times> nat world) option" where
  "topological_loop g indegree q order w =
     (if linked_is_empty (Some q) \<noteq> 0 then Some (order, w)
      else
       (case linked_dequeue_impl q of
          (x, q) \<Rightarrow>
           (case add_to_order g (ptr_int x) order w of
              (order, w) \<Rightarrow>
               (case release_targets (edge_targets g (ptr_int x)) indegree q w of
                  (indegree, q, w) \<Rightarrow> topological_loop g indegree q order w))))"

definition graph_topological_sort_impl ::
  "graph_impl option \<Rightarrow> nat world \<Rightarrow> (nat list_obj option \<times> nat world) option" where
  "graph_topological_sort_impl g w =
     (case g of
        None \<Rightarrow> Some (None, w)
      | Some g \<Rightarrow>
         (if gr_type g \<noteq> GRAPH_DIRECTED then Some (None, w)
          else
           (case malloc (nat (vertex_capacity g) * 4) w of (ok, w) \<Rightarrow>
            case create_linked_queue w of (q, w) \<Rightarrow>
            case create_vertex_list g w of (order, w) \<Rightarrow>
              (if \<not> ok \<or> Option.is_none q \<or> Option.is_none order
               then Some (None, case order of None \<Rightarrow> w | Some order \<Rightarrow> list_free order w)
               else
                (let indegree = indegree_loop g 0 (nat (vertex_capacity g)) (replicate (nat (vertex_capacity g)) 0) in
                 case enqueue_sources g 0 (nat (vertex_capacity g)) indegree (the q) w of
                   (q, w) \<Rightarrow>
                    (case topological_loop g indegree q (the order) w of
                       None \<Rightarrow> None
                     | Some (order, w) \<Rightarrow>
                         (if list_size order = vertex_count g then Some (Some order, w)
                          else Some (None, list_free order w))))))))"

section \<open>The search for a cycle\<close>

text \<open>The colours are 0, unseen; 1, on the current path; 2, done. A loop that returns early gives
  \<open>True\<close>.\<close>

partial_function (option) cycle_targets_directed ::
  "graph_impl \<Rightarrow> int list \<Rightarrow> nat list \<Rightarrow> (bool \<times> nat list) option" where
  "cycle_targets_directed g tos color =
     (case tos of
        [] \<Rightarrow> Some (False, color)
      | to # tos \<Rightarrow>
         (if color ! nat to = 1 then Some (True, color)
          else if color ! nat to = 0 then
            Option.bind (cycle_targets_directed g (edge_targets g to) (color[nat to := 1]))
              (\<lambda>(found, color). if found then Some (True, color) else cycle_targets_directed g tos (color[nat to := 2]))
          else cycle_targets_directed g tos color))"

definition has_cycle_directed_dfs :: "graph_impl \<Rightarrow> int \<Rightarrow> nat list \<Rightarrow> (bool \<times> nat list) option" where
  "has_cycle_directed_dfs g v color =
     (case cycle_targets_directed g (edge_targets g v) (color[nat v := 1]) of
        None \<Rightarrow> None
      | Some (found, color) \<Rightarrow> Some (found, if found then color else color[nat v := 2]))"

partial_function (option) cycle_targets_undirected ::
  "graph_impl \<Rightarrow> int \<Rightarrow> int \<Rightarrow> int list \<Rightarrow> bool list \<Rightarrow> (bool \<times> bool list) option" where
  "cycle_targets_undirected g v parent tos visited =
     (case tos of
        [] \<Rightarrow> Some (False, visited)
      | to # tos \<Rightarrow>
         (if \<not> visited ! nat to then
            Option.bind (cycle_targets_undirected g to v (edge_targets g to) (visited[nat to := True]))
              (\<lambda>(found, visited). if found then Some (True, visited) else cycle_targets_undirected g v parent tos visited)
          else if to \<noteq> parent then Some (True, visited)
          else cycle_targets_undirected g v parent tos visited))"

definition has_cycle_undirected_dfs :: "graph_impl \<Rightarrow> int \<Rightarrow> int \<Rightarrow> bool list \<Rightarrow> (bool \<times> bool list) option" where
  "has_cycle_undirected_dfs g v parent visited =
     cycle_targets_undirected g v parent (edge_targets g v) (visited[nat v := True])"

fun directed_roots :: "graph_impl \<Rightarrow> int \<Rightarrow> nat \<Rightarrow> nat list \<Rightarrow> bool option" where
  "directed_roots g v 0 color = Some False"
| "directed_roots g v (Suc n) color =
     (if \<not> graph_is_valid_vertex g v \<or> color ! nat v \<noteq> 0 then directed_roots g (v + 1) n color
      else
       (case has_cycle_directed_dfs g v color of
          None \<Rightarrow> None
        | Some (True, color) \<Rightarrow> Some True
        | Some (False, color) \<Rightarrow> directed_roots g (v + 1) n color))"

fun undirected_roots :: "graph_impl \<Rightarrow> int \<Rightarrow> nat \<Rightarrow> bool list \<Rightarrow> bool option" where
  "undirected_roots g v 0 visited = Some False"
| "undirected_roots g v (Suc n) visited =
     (if \<not> graph_is_valid_vertex g v \<or> visited ! nat v then undirected_roots g (v + 1) n visited
      else
       (case has_cycle_undirected_dfs g v (-1) visited of
          None \<Rightarrow> None
        | Some (True, visited) \<Rightarrow> Some True
        | Some (False, visited) \<Rightarrow> undirected_roots g (v + 1) n visited))"

definition graph_has_cycle_impl :: "graph_impl option \<Rightarrow> nat world \<Rightarrow> (bool \<times> nat world) option" where
  "graph_has_cycle_impl g w =
     (case g of
        None \<Rightarrow> Some (False, w)
      | Some g \<Rightarrow>
         (case malloc (nat (vertex_capacity g)) w of
            (False, w) \<Rightarrow> Some (False, w)
          | (True, w) \<Rightarrow>
             map_option (\<lambda>found. (found, w))
               (if gr_type g = GRAPH_DIRECTED
                then directed_roots g 0 (nat (vertex_capacity g)) (replicate (nat (vertex_capacity g)) 0)
                else undirected_roots g 0 (nat (vertex_capacity g)) (replicate (nat (vertex_capacity g)) False))))"

section \<open>Degrees\<close>

definition open_degree :: "graph_impl \<Rightarrow> int list \<Rightarrow> int \<Rightarrow> nat" where
  "open_degree g D v = card {u. (u, v) \<in> graph_arcs g \<and> u \<notin> set D}"

lemma finite_sources: "graph_inv g \<Longrightarrow> finite {u. (u, v) \<in> graph_arcs g \<and> P u}"
  by (rule finite_subset [of _ "{0..<vertex_capacity g}"]) (use arcs_valid in \<open>force simp: has_vertex_iff\<close>)+

lemma capacity_small: "graph_inv g \<Longrightarrow> nat (vertex_capacity g) < INT_MAX"
  using graph_base_cap [of g] unfolding graph_inv_def by (auto simp: INT_MAX_def nat_less_iff)

lemma sources_small:
  assumes "graph_inv g" "\<And>u. P u \<Longrightarrow> u < int i"
  shows "card {u. (u, v) \<in> graph_arcs g \<and> P u} \<le> i"
proof -
  have "{u. (u, v) \<in> graph_arcs g \<and> P u} \<subseteq> {0..<int i}" using arcs_valid [OF assms(1)] assms(2) by (force simp: has_vertex_iff)
  from card_mono [OF _ this] show ?thesis by simp
qed

lemma add_indegrees_ready:
  "distinct tos \<Longrightarrow> \<forall>t\<in>set tos. 0 \<le> t \<and> t < int (length ind) \<and> 0 \<le> ind ! nat t \<and> ind ! nat t < int INT_MAX \<Longrightarrow>
   length (add_indegrees tos ind) = length ind \<and>
   (\<forall>x. 0 \<le> x \<longrightarrow> x < int (length ind) \<longrightarrow> add_indegrees tos ind ! nat x = ind ! nat x + (if x \<in> set tos then 1 else 0))"
proof (induction tos arbitrary: ind)
  case (Cons t tos)
  let ?ind = "ind[nat t := wrap_int (ind ! nat t + 1)]"
  have t: "0 \<le> t" "t < int (length ind)" "wrap_int (ind ! nat t + 1) = ind ! nat t + 1"
    using Cons.prems(2) by (auto intro!: wrap_int_id simp: is_int_def INT_MAX_def)
  have at: "?ind ! nat x = ind ! nat x + (if x = t then 1 else 0)" if "0 \<le> x" "x < int (length ind)" for x
    using that t by (auto simp: nth_list_update eq_nat_nat_iff)
  have "\<forall>x\<in>set tos. 0 \<le> x \<and> x < int (length ?ind) \<and> 0 \<le> ?ind ! nat x \<and> ?ind ! nat x < int INT_MAX"
  proof
    fix x
    assume x: "x \<in> set tos"
    then have "x \<noteq> t" using Cons.prems(1) by auto
    then show "0 \<le> x \<and> x < int (length ?ind) \<and> 0 \<le> ?ind ! nat x \<and> ?ind ! nat x < int INT_MAX"
      using Cons.prems(2) x at [of x] by auto
  qed
  from Cons.IH [OF _ this] Cons.prems(1) show ?case using at by (auto simp: Cons.prems(1))
qed simp

lemma indegree_loop_ready:
  assumes g: "graph_inv g"
  shows "from = int i \<Longrightarrow> i + n = nat (vertex_capacity g) \<Longrightarrow> length ind = nat (vertex_capacity g) \<Longrightarrow>
    \<forall>x. has_vertex g x \<longrightarrow> ind ! nat x = int (card {u. (u, x) \<in> graph_arcs g \<and> u < int i}) \<Longrightarrow>
    length (indegree_loop g from n ind) = nat (vertex_capacity g) \<and>
    (\<forall>x. has_vertex g x \<longrightarrow> indegree_loop g from n ind ! nat x = int (open_degree g [] x))"
proof (induction n arbitrary: "from" i ind)
  case 0
  have "{u. (u, x) \<in> graph_arcs g \<and> u < int i} = {u. (u, x) \<in> graph_arcs g \<and> u \<notin> set []}" for x
    using 0(2) arcs_valid [OF g] by (force simp: has_vertex_iff)
  then show ?case using 0 by (simp add: open_degree_def)
next
  case (Suc n)
  note I = Suc.prems
  define ind1 where "ind1 = (if has_vertex g from then add_indegrees (edge_targets g from) ind else ind)"
  have run: "indegree_loop g from (Suc n) ind = indegree_loop g (from + 1) n ind1"
    by (simp add: ind1_def valid_vertex)
  have step: "card {u. (u, x) \<in> graph_arcs g \<and> u < int (Suc i)} =
      card {u. (u, x) \<in> graph_arcs g \<and> u < int i} + (if (from, x) \<in> graph_arcs g then 1 else 0)" for x
  proof (cases "(from, x) \<in> graph_arcs g")
    case True
    then have "{u. (u, x) \<in> graph_arcs g \<and> u < int (Suc i)} = insert from {u. (u, x) \<in> graph_arcs g \<and> u < int i}"
      using I(1) by auto
    then show ?thesis using finite_sources [OF g, of x "\<lambda>u. u < int i"] True I(1) by simp
  next
    case False
    then have "{u. (u, x) \<in> graph_arcs g \<and> u < int (Suc i)} = {u. (u, x) \<in> graph_arcs g \<and> u < int i}"
      using I(1) by (auto simp: less_le)
    then show ?thesis using False by simp
  qed
  have "length ind1 = nat (vertex_capacity g) \<and>
    (\<forall>x. has_vertex g x \<longrightarrow> ind1 ! nat x = int (card {u. (u, x) \<in> graph_arcs g \<and> u < int (Suc i)}))"
  proof (cases "has_vertex g from")
    case False
    then show ?thesis using I(3,4) step arcs_valid [OF g, of "from"] by (auto simp: ind1_def)
  next
    case True
    have arcs: "x \<in> set (edge_targets g from) \<longleftrightarrow> (from, x) \<in> graph_arcs g" for x by (rule edge_targets_arcs [OF g True])
    have "distinct (edge_targets g from)" using edge_targets_pairs [OF g True] adj_pairs_distinct [OF g] by simp
    moreover have "\<forall>t\<in>set (edge_targets g from). 0 \<le> t \<and> t < int (length ind) \<and> 0 \<le> ind ! nat t \<and> ind ! nat t < int INT_MAX"
    proof
      fix t
      assume "t \<in> set (edge_targets g from)"
      then have t: "has_vertex g t" by (rule edge_targets_valid [OF g True])
      have "card {u. (u, t) \<in> graph_arcs g \<and> u < int i} \<le> i" by (rule sources_small [OF g])
      then show "0 \<le> t \<and> t < int (length ind) \<and> 0 \<le> ind ! nat t \<and> ind ! nat t < int INT_MAX"
        using I(2,4) t capacity_small [OF g] vertex_range [OF t I(3)] by simp
    qed
    ultimately show ?thesis
      using add_indegrees_ready [of "edge_targets g from" ind] I(3,4) step vertex_range [OF _ I(3)] arcs True by (simp add: ind1_def)
  qed
  then show ?case using Suc.IH [of "from + 1" "Suc i" ind1] I(1,2) unfolding run by simp
qed

lemma enqueue_sources_ready:
  assumes "alloc_fails w = []"
  shows "v = int i \<Longrightarrow> int i + int n = vertex_capacity g \<Longrightarrow> linked_queue_inv q \<Longrightarrow>
    \<exists>q'. enqueue_sources g v n ind q w = (q', w) \<and> linked_queue_inv q' \<and> linked_queue_items q' =
      linked_queue_items q @ map int_ptr (filter (\<lambda>v. has_vertex g v \<and> ind ! nat v = 0) [int i..vertex_capacity g - 1])"
proof (induction n arbitrary: v i q)
  case (Suc n)
  have up: "[int i..vertex_capacity g - 1] = int i # [int (Suc i)..vertex_capacity g - 1]"
    using Suc.prems(2) by (simp add: upto_rec1 add.commute)
  have args: "v + 1 = int (Suc i)" "int (Suc i) + int n = vertex_capacity g" using Suc.prems by simp_all
  show ?case
  proof (cases "has_vertex g v \<and> ind ! nat v = 0")
    case True
    obtain q1 where E: "linked_enqueue_method q (int_ptr v) w = (OVA_SUCCESS, q1, w)" "linked_queue_inv q1"
      "linked_queue_items q1 = linked_queue_items q @ [int_ptr v]" using enqueue_ready [OF Suc.prems(3) assms] by blast
    from Suc.IH [OF args E(2)] E(1,3) True Suc.prems(1) show ?thesis unfolding up by (auto simp: valid_vertex)
  next
    case False
    with Suc.IH [OF args Suc.prems(3)] Suc.prems(1) show ?thesis unfolding up by (auto simp: valid_vertex)
  qed
qed simp

lemma release_targets_ready:
  assumes "alloc_fails w = []"
  shows "distinct tos \<Longrightarrow> \<forall>t\<in>set tos. 0 \<le> t \<and> t < int (length ind) \<and> 1 \<le> ind ! nat t \<and> ind ! nat t \<le> int INT_MAX \<Longrightarrow>
    linked_queue_inv q \<Longrightarrow>
    \<exists>ind' q'. release_targets tos ind q w = (ind', q', w) \<and> linked_queue_inv q' \<and>
      linked_queue_items q' = linked_queue_items q @ map int_ptr (filter (\<lambda>t. ind ! nat t = 1) tos) \<and> length ind' = length ind \<and>
      (\<forall>x. 0 \<le> x \<longrightarrow> x < int (length ind) \<longrightarrow> ind' ! nat x = ind ! nat x - (if x \<in> set tos then 1 else 0))"
proof (induction tos arbitrary: ind q)
  case (Cons t tos)
  let ?ind = "ind[nat t := wrap_int (ind ! nat t - 1)]"
  have t: "0 \<le> t" "t < int (length ind)" "wrap_int (ind ! nat t - 1) = ind ! nat t - 1"
    using Cons.prems(2) by (auto intro!: wrap_int_id simp: is_int_def INT_MAX_def)
  have at: "?ind ! nat x = ind ! nat x - (if x = t then 1 else 0)" if "0 \<le> x" "x < int (length ind)" for x
    using that t by (auto simp: nth_list_update eq_nat_nat_iff)
  have in_tos: "?ind ! nat x = ind ! nat x" if "x \<in> set tos" for x
    using that at [of x] Cons.prems by auto
  then have rest: "\<forall>x\<in>set tos. 0 \<le> x \<and> x < int (length ?ind) \<and> 1 \<le> ?ind ! nat x \<and> ?ind ! nat x \<le> int INT_MAX"
    using Cons.prems(2) by simp
  have same: "filter (\<lambda>t. ?ind ! nat t = 1) tos = filter (\<lambda>t. ind ! nat t = 1) tos" by (rule filter_cong) (simp_all add: in_tos)
  have zero: "?ind ! nat t = 0 \<longleftrightarrow> ind ! nat t = 1" using at [OF t(1,2)] by auto
  have dist: "distinct tos" "t \<notin> set tos" using Cons.prems(1) by simp_all
  show ?case
  proof (cases "ind ! nat t = 1")
    case True
    obtain q1 where E: "linked_enqueue_method q (int_ptr t) w = (OVA_SUCCESS, q1, w)" "linked_queue_inv q1"
      "linked_queue_items q1 = linked_queue_items q @ [int_ptr t]" using enqueue_ready [OF Cons.prems(3) assms] by blast
    have run: "release_targets (t # tos) ind q w = release_targets tos ?ind q1 w"
      using zero True E(1) by (simp add: Let_def)
    show ?thesis
      unfolding run using Cons.IH [OF dist(1) rest E(2)] at dist(2) True E(3) unfolding same by auto
  next
    case False
    then have run: "release_targets (t # tos) ind q w = release_targets tos ?ind q w"
      using zero by (simp add: Let_def)
    show ?thesis
      unfolding run using Cons.IH [OF dist(1) rest Cons.prems(3)] at dist(2) False unfolding same by auto
  qed
qed simp

section \<open>The sort\<close>

text \<open>Every vertex of \<open>D\<close> comes after the sources of all its edges.\<close>

definition sources_first :: "(int \<times> int) set \<Rightarrow> int list \<Rightarrow> bool" where
  "sources_first E D \<longleftrightarrow> (\<forall>i < length D. \<forall>u. (u, D ! i) \<in> E \<longrightarrow> u \<in> set (take i D))"

lemma sources_first_snoc:
  assumes "sources_first E D" "\<And>u. (u, v) \<in> E \<Longrightarrow> u \<in> set D"
  shows "sources_first E (D @ [v])"
  using assms by (auto simp: sources_first_def nth_append less_Suc_eq)

lemma sources_first_closed: "sources_first E D \<Longrightarrow> v \<in> set D \<Longrightarrow> (u, v) \<in> E \<Longrightarrow> u \<in> set D"
  by (auto simp: sources_first_def in_set_conv_nth [of v] dest: in_set_takeD)

lemma sources_first_acyclic:
  assumes "sources_first E D" "distinct D" "\<And>u v. (u, v) \<in> E \<Longrightarrow> v \<in> set D"
  shows "acyclic E"
proof (rule acyclicI_order)
  define pos where "pos v = (LEAST i. i < length D \<and> D ! i = v)" for v
  have pos: "pos (D ! i) = i" if "i < length D" for i
    unfolding pos_def by (rule Least_equality) (use that assms(2) nth_eq_iff_index_eq in \<open>auto intro: leI\<close>)
  fix u v
  assume uv: "(u, v) \<in> E"
  then obtain j where j: "j < length D" "D ! j = v" using assms(3) by (metis in_set_conv_nth)
  then have "u \<in> set (take j D)" using assms(1) uv by (auto simp: sources_first_def)
  then obtain i where "i < j" "D ! i = u" using j(1) by (auto simp: in_set_conv_nth)
  then have "pos u < pos v" using pos j by (metis less_trans)
  then show "- int (pos v) < - int (pos u)" by simp
qed

lemma open_degree_zero:
  assumes "graph_inv g"
  shows "open_degree g D v = 0 \<longleftrightarrow> (\<forall>u. (u, v) \<in> graph_arcs g \<longrightarrow> u \<in> set D)"
  using finite_sources [OF assms, of v "\<lambda>u. u \<notin> set D"] by (auto simp: open_degree_def)

lemma open_degree_release:
  assumes "graph_inv g" "v \<notin> set D"
  shows "open_degree g D x = open_degree g (D @ [v]) x + (if (v, x) \<in> graph_arcs g then 1 else 0)"
proof (cases "(v, x) \<in> graph_arcs g")
  case True
  then have "{u. (u, x) \<in> graph_arcs g \<and> u \<notin> set D} = insert v {u. (u, x) \<in> graph_arcs g \<and> u \<notin> set (D @ [v])}" using assms(2) by auto
  then show ?thesis using finite_sources [OF assms(1), of x "\<lambda>u. u \<notin> set (D @ [v])"] True by (simp add: open_degree_def)
next
  case False
  then have "{u. (u, x) \<in> graph_arcs g \<and> u \<notin> set D} = {u. (u, x) \<in> graph_arcs g \<and> u \<notin> set (D @ [v])}" by auto
  then show ?thesis using False by (simp add: open_degree_def)
qed

lemma topological_loop_ready:
  assumes g: "graph_inv g"
  shows "linked_queue_inv q \<Longrightarrow> linked_queue_items q = map int_ptr Q \<Longrightarrow> distinct (D @ Q) \<Longrightarrow>
    \<forall>v\<in>set D \<union> set Q. has_vertex g v \<Longrightarrow> length ind = nat (vertex_capacity g) \<Longrightarrow>
    \<forall>v. has_vertex g v \<longrightarrow> ind ! nat v = int (open_degree g D v) \<Longrightarrow>
    \<forall>v. has_vertex g v \<longrightarrow> v \<notin> set D \<longrightarrow> v \<in> set Q \<longleftrightarrow> open_degree g D v = 0 \<Longrightarrow>
    sources_first (graph_arcs g) D \<Longrightarrow> growable order \<Longrightarrow> list_items order = map id_cell D \<Longrightarrow> alloc_fails w = [] \<Longrightarrow>
    \<exists>order' w' D'. topological_loop g ind q order w = Some (order', w') \<and> distinct D' \<and> (\<forall>v\<in>set D'. has_vertex g v) \<and>
      sources_first (graph_arcs g) D' \<and> growable order' \<and> list_items order' = map id_cell D' \<and>
      (\<forall>v. has_vertex g v \<longrightarrow> v \<notin> set D' \<longrightarrow> (\<exists>u. (u, v) \<in> graph_arcs g \<and> u \<notin> set D'))"
proof (induction "nat (vertex_capacity g) - length D" arbitrary: ind q order w D Q rule: less_induct)
  case less
  note I = less.prems
  show ?case
  proof (cases Q)
    case Nil
    then have "lq_front q = None"
      using I(1,2) by (auto simp: linked_queue_inv_def lq_shape_def linked_queue_items_def)
    then have "topological_loop g ind q order w = Some (order, w)" by (subst topological_loop.simps) simp
    moreover have "\<exists>u. (u, v) \<in> graph_arcs g \<and> u \<notin> set D" if "has_vertex g v" "v \<notin> set D" for v
      using I(7) that Nil open_degree_zero [OF g, of D v] by auto
    ultimately show ?thesis using I Nil by (intro exI [of _ order] exI [of _ w] exI [of _ D]) auto
  next
    case (Cons v Q1)
    have v: "has_vertex g v" "0 \<le> v" "v \<notin> set D" using I(3,4) Cons by (auto simp: has_vertex_iff)
    have open_v: "u \<in> set D" if "(u, v) \<in> graph_arcs g" for u
      using I(7) v open_degree_zero [OF g, of D v] that Cons by auto
    have "lq_front q \<noteq> None"
      using I(1,2) Cons by (auto simp: linked_queue_inv_def lq_shape_def linked_queue_items_def)
    then have busy: "linked_is_empty (Some q) = 0" by simp
    obtain q1 where Q1: "linked_dequeue_impl q = (int_ptr v, q1)" "linked_queue_inv q1" "linked_queue_items q1 = map int_ptr Q1"
      using linked_dequeue_spec [OF I(1)] I(2) Cons by (cases "linked_dequeue_impl q") (auto simp: nth_ptr_def)
    have dist: "distinct (D @ [v])" "\<forall>v\<in>set D. has_vertex g v" using I(3,4) Cons by auto
    from add_to_order_ready [OF g v(1) I(9,11,10) dist] obtain order1 w1 where O1:
      "add_to_order g v order w = (order1, w1)" "growable order1" "list_items order1 = map id_cell (D @ [v])" "alloc_fails w1 = []" by blast
    let ?tos = "edge_targets g v"
    have arcs: "x \<in> set ?tos \<longleftrightarrow> (v, x) \<in> graph_arcs g" for x by (rule edge_targets_arcs [OF g v(1)])
    have tos: "distinct ?tos" using edge_targets_pairs [OF g v(1)] adj_pairs_distinct [OF g] by simp
    note deg = open_degree_release [OF g v(3)]
    have range: "\<forall>t\<in>set ?tos. 0 \<le> t \<and> t < int (length ind) \<and> 1 \<le> ind ! nat t \<and> ind ! nat t \<le> int INT_MAX"
    proof
      fix t
      assume t: "t \<in> set ?tos"
      then have ht: "has_vertex g t" by (rule edge_targets_valid [OF g v(1)])
      have "open_degree g D t \<le> nat (vertex_capacity g)"
        unfolding open_degree_def
      proof -
        have "{u. (u, t) \<in> graph_arcs g \<and> u \<notin> set D} \<subseteq> {0..<vertex_capacity g}" using arcs_valid [OF g] by (force simp: has_vertex_iff)
        from card_mono [OF _ this] show "card {u. (u, t) \<in> graph_arcs g \<and> u \<notin> set D} \<le> nat (vertex_capacity g)" by simp
      qed
      then show "0 \<le> t \<and> t < int (length ind) \<and> 1 \<le> ind ! nat t \<and> ind ! nat t \<le> int INT_MAX"
        using I(6) ht vertex_range [OF ht I(5)] deg [of t] t arcs [of t] capacity_small [OF g] by auto
    qed
    let ?new = "filter (\<lambda>t. ind ! nat t = 1) ?tos"
    obtain ind2 q2 where E: "release_targets ?tos ind q1 w1 = (ind2, q2, w1)" "linked_queue_inv q2"
      "linked_queue_items q2 = linked_queue_items q1 @ map int_ptr ?new" "length ind2 = length ind"
      "\<forall>x. 0 \<le> x \<longrightarrow> x < int (length ind) \<longrightarrow> ind2 ! nat x = ind ! nat x - (if x \<in> set ?tos then 1 else 0)"
      using release_targets_ready [OF O1(4) tos range Q1(2)] by blast
    have run: "topological_loop g ind q order w = topological_loop g ind2 q2 order1 w1"
      using busy Q1(1) O1(1) E(1) v(2) by (subst topological_loop.simps) simp
    have len: "length (D @ [v]) \<le> nat (vertex_capacity g)"
      using distinct_vertices_length [OF g dist(1)] dist(2) v(1) by auto
    have new: "x \<in> set ?new \<longleftrightarrow> (v, x) \<in> graph_arcs g \<and> open_degree g D x = 1" for x
      using arcs [of x] I(6) arcs_valid [OF g, of v x] by auto
    have settled: "open_degree g D x = 0" if "x \<in> set D" for x
      using open_degree_zero [OF g] sources_first_closed [OF I(8) that] by blast
    have waiting: "open_degree g D x = 0" if "x \<in> set Q" for x using I(3,4,7) that by auto
    show ?thesis unfolding run
    proof (rule less.hyps)
      show "nat (vertex_capacity g) - length (D @ [v]) < nat (vertex_capacity g) - length D" using len by simp
      show "linked_queue_inv q2" "growable order1" "list_items order1 = map id_cell (D @ [v])" "alloc_fails w1 = []" by (rule E O1)+
      show "linked_queue_items q2 = map int_ptr (Q1 @ ?new)" using E(3) Q1(3) by simp
      have "x \<notin> set D \<and> x \<notin> set Q" if "x \<in> set ?new" for x using new [of x] that settled [of x] waiting [of x] by auto
      then show "distinct ((D @ [v]) @ Q1 @ ?new)" using I(3) Cons tos by auto
      show "\<forall>x\<in>set (D @ [v]) \<union> set (Q1 @ ?new). has_vertex g x" using I(4) Cons new arcs_valid [OF g, of v] by auto
      show "length ind2 = nat (vertex_capacity g)" using E(4) I(5) by simp
      show "\<forall>x. has_vertex g x \<longrightarrow> ind2 ! nat x = int (open_degree g (D @ [v]) x)"
      proof (intro allI impI)
        fix x
        assume x: "has_vertex g x"
        then show "ind2 ! nat x = int (open_degree g (D @ [v]) x)"
          using E(5) vertex_range [OF x I(5)] I(6) deg [of x] arcs [of x] by auto
      qed
      show "\<forall>x. has_vertex g x \<longrightarrow> x \<notin> set (D @ [v]) \<longrightarrow> x \<in> set (Q1 @ ?new) \<longleftrightarrow> open_degree g (D @ [v]) x = 0"
      proof (intro allI impI)
        fix x
        assume x: "has_vertex g x" "x \<notin> set (D @ [v])"
        then have "x \<in> set Q1 \<longleftrightarrow> open_degree g D x = 0" using I(7) Cons by auto
        then show "x \<in> set (Q1 @ ?new) \<longleftrightarrow> open_degree g (D @ [v]) x = 0" using new [of x] deg [of x] by auto
      qed
      show "sources_first (graph_arcs g) (D @ [v])" by (rule sources_first_snoc [OF I(8) open_v])
    qed
  qed
qed

lemma topological_sort_ready:
  assumes g: "graph_inv g" and t: "gr_type g = GRAPH_DIRECTED" and w: "alloc_fails w = []"
  shows "\<exists>r w'. graph_topological_sort_impl (Some g) w = Some (r, w') \<and> (r = None \<longleftrightarrow> \<not> acyclic (graph_arcs g)) \<and>
    (\<forall>l. r = Some l \<longrightarrow> (\<exists>D. list_items l = map id_cell D \<and> distinct D \<and> set D = {v. has_vertex g v} \<and> sources_first (graph_arcs g) D))"
proof -
  let ?n = "nat (vertex_capacity g)"
  obtain q where Q: "create_linked_queue w = (Some q, w)" "linked_queue_inv q" "linked_queue_items q = []"
    using create_queue_ready [OF w] by blast
  obtain l w1 where L: "create_vertex_list g w = (Some l, w1)" "growable l" "list_items l = []" "alloc_fails w1 = []"
    using vertex_list_ready [OF g w] by blast
  have cap: "0 < vertex_capacity g" using graph_base_cap [of g] g by (simp add: graph_inv_def)
  have m: "malloc (?n * 4) w = (True, w)" using capacity_small [OF g] w by (simp add: malloc_no_failures PTRDIFF_MAX_def INT_MAX_def)
  define ind where "ind = indegree_loop g 0 ?n (replicate ?n 0)"
  have ind: "length ind = ?n" "\<forall>x. has_vertex g x \<longrightarrow> ind ! nat x = int (open_degree g [] x)"
  proof -
    have "{u. (u, x) \<in> graph_arcs g \<and> u < int 0} = {}" for x using arcs_valid [OF g] by (force simp: has_vertex_iff)
    then have "\<forall>x. has_vertex g x \<longrightarrow> replicate ?n 0 ! nat x = int (card {u. (u, x) \<in> graph_arcs g \<and> u < int 0})"
      by (simp only: card.empty) (auto simp: has_vertex_iff)
    from indegree_loop_ready [OF g _ _ _ this, of 0 ?n] show "length ind = ?n" "\<forall>x. has_vertex g x \<longrightarrow> ind ! nat x = int (open_degree g [] x)"
      by (simp_all add: ind_def)
  qed
  let ?Q = "filter (\<lambda>v. has_vertex g v \<and> ind ! nat v = 0) [0..vertex_capacity g - 1]"
  obtain q1 where E: "enqueue_sources g 0 ?n ind q w1 = (q1, w1)" "linked_queue_inv q1" "linked_queue_items q1 = map int_ptr ?Q"
    using enqueue_sources_ready [OF L(4) _ _ Q(2), of 0 0 ?n g ind] Q(3) cap by auto
  have "\<exists>order' w' D'. topological_loop g ind q1 l w1 = Some (order', w') \<and> distinct D' \<and> (\<forall>v\<in>set D'. has_vertex g v) \<and>
      sources_first (graph_arcs g) D' \<and> growable order' \<and> list_items order' = map id_cell D' \<and>
      (\<forall>v. has_vertex g v \<longrightarrow> v \<notin> set D' \<longrightarrow> (\<exists>u. (u, v) \<in> graph_arcs g \<and> u \<notin> set D'))"
  proof (rule topological_loop_ready [OF g E(2,3), of "[]"])
    show "\<forall>v. has_vertex g v \<longrightarrow> v \<notin> set [] \<longrightarrow> v \<in> set ?Q \<longleftrightarrow> open_degree g [] v = 0"
      using ind(2) by (auto simp: has_vertex_iff)
  qed (use ind L in \<open>simp_all add: sources_first_def\<close>)
  then obtain order' w' D' where F: "topological_loop g ind q1 l w1 = Some (order', w')" "distinct D'" "\<forall>v\<in>set D'. has_vertex g v"
    "sources_first (graph_arcs g) D'" "growable order'" "list_items order' = map id_cell D'"
    "\<forall>v. has_vertex g v \<longrightarrow> v \<notin> set D' \<longrightarrow> (\<exists>u. (u, v) \<in> graph_arcs g \<and> u \<notin> set D')" by blast
  have fin: "finite {v. has_vertex g v}"
    by (rule finite_subset [of _ "{0..<vertex_capacity g}"]) (auto simp: has_vertex_iff)
  have all: "list_size order' = vertex_count g \<longleftrightarrow> set D' = {v. has_vertex g v}"
  proof -
    have "list_size order' = int (card (set D'))" using growable_size [OF F(5)] F(6) distinct_card [OF F(2)] by simp
    moreover have "vertex_count g = int (card {v. has_vertex g v})" using g by (simp add: graph_inv_def graph_base_def)
    ultimately show ?thesis using card_subset_eq [OF fin, of "set D'"] F(3) by (metis mem_Collect_eq of_nat_eq_iff subsetI)
  qed
  have acyclic: "set D' = {v. has_vertex g v} \<longleftrightarrow> acyclic (graph_arcs g)"
  proof
    assume "set D' = {v. has_vertex g v}"
    then show "acyclic (graph_arcs g)" using arcs_valid [OF g] by (intro sources_first_acyclic [OF F(4,2)]) auto
  next
    assume acyc: "acyclic (graph_arcs g)"
    have "graph_arcs g \<subseteq> {v. has_vertex g v} \<times> {v. has_vertex g v}" using arcs_valid [OF g] by auto
    then have "finite (graph_arcs g)" using finite_subset fin by blast
    then have wf: "wf (graph_arcs g)" using acyc by (rule finite_acyclic_wf)
    show "set D' = {v. has_vertex g v}"
    proof (rule ccontr)
      assume "set D' \<noteq> {v. has_vertex g v}"
      then obtain x where "x \<in> {v. has_vertex g v} - set D'" using F(3) by blast
      then obtain v where "v \<in> {v. has_vertex g v} - set D'" "\<And>u. (u, v) \<in> graph_arcs g \<Longrightarrow> u \<notin> {v. has_vertex g v} - set D'"
        using wfE_min [OF wf] by metis
      then show False using F(7) arcs_valid [OF g] by blast
    qed
  qed
  have run: "graph_topological_sort_impl (Some g) w =
      (if list_size order' = vertex_count g then Some (Some order', w') else Some (None, list_free order' w'))"
    using t m Q(1) L(1) E(1) F(1) by (simp add: graph_topological_sort_impl_def ind_def [symmetric])
  show ?thesis
  proof (cases "acyclic (graph_arcs g)")
    case True
    then show ?thesis using run all acyclic F(2,4,6) by (intro exI [of _ "Some order'"] exI [of _ w']) auto
  next
    case False
    then show ?thesis using run all acyclic by (intro exI [of _ None] exI [of _ "list_free order' w'"]) auto
  qed
qed

section \<open>Cycles of a directed graph\<close>

text \<open>The colours say what has been seen (\<open>D\<close>) and what is on the path (\<open>P\<close>); from what is done no
  edge leads back and no cycle starts.\<close>

definition shaded :: "graph_impl \<Rightarrow> nat list \<Rightarrow> int list \<Rightarrow> int set \<Rightarrow> bool" where
  "shaded g color D P \<longleftrightarrow> length color = nat (vertex_capacity g) \<and>
     (\<forall>v. has_vertex g v \<longrightarrow> color ! nat v = (if v \<notin> set D then 0 else if v \<in> P then 1 else 2)) \<and>
     (\<forall>v\<in>set D. has_vertex g v) \<and> P \<subseteq> set D \<and>
     (\<forall>x\<in>set D - P. (x, x) \<notin> (graph_arcs g)\<^sup>+ \<and> (\<forall>y. (x, y) \<in> graph_arcs g \<longrightarrow> y \<in> set D - P))"

lemma shadedI:
  assumes "length color = nat (vertex_capacity g)"
    "\<And>v. has_vertex g v \<Longrightarrow> color ! nat v = (if v \<notin> set D then 0 else if v \<in> P then 1 else 2)"
    "\<And>v. v \<in> set D \<Longrightarrow> has_vertex g v" "P \<subseteq> set D" "set D - P = B"
    "\<And>x. x \<in> B \<Longrightarrow> (x, x) \<notin> (graph_arcs g)\<^sup>+" "\<And>x y. x \<in> B \<Longrightarrow> (x, y) \<in> graph_arcs g \<Longrightarrow> y \<in> B"
  shows "shaded g color D P"
  unfolding shaded_def assms(5) using assms(1-4,6,7) by blast

lemma shadedD:
  assumes "shaded g color D P"
  shows "length color = nat (vertex_capacity g)"
    "has_vertex g v \<Longrightarrow> color ! nat v = (if v \<notin> set D then 0 else if v \<in> P then 1 else 2)"
    "v \<in> set D \<Longrightarrow> has_vertex g v" "P \<subseteq> set D" "x \<in> set D - P \<Longrightarrow> (x, x) \<notin> (graph_arcs g)\<^sup>+"
    "x \<in> set D - P \<Longrightarrow> (x, y) \<in> graph_arcs g \<Longrightarrow> y \<in> set D - P"
  using assms unfolding shaded_def by blast+

lemma vertex_update:
  "has_vertex g v \<Longrightarrow> has_vertex g x \<Longrightarrow> length xs = nat (vertex_capacity g) \<Longrightarrow>
   xs[nat v := c] ! nat x = (if x = v then c else xs ! nat x)"
  by (auto simp: has_vertex_iff nth_list_update eq_nat_nat_iff)

lemma shaded_enter:
  assumes "shaded g color D P" "has_vertex g v" "v \<notin> set D"
  shows "shaded g (color[nat v := 1]) (D @ [v]) (insert v P)"
proof -
  note S = shadedD [OF assms(1)]
  show ?thesis
  proof (rule shadedI)
    show "length (color[nat v := 1]) = nat (vertex_capacity g)" using S(1) by simp
    show "set (D @ [v]) - insert v P = set D - P" using S(4) assms(3) by auto
    show "insert v P \<subseteq> set (D @ [v])" using S(4) by auto
    show "has_vertex g x" if "x \<in> set (D @ [v])" for x using that S(3) assms(2) by auto
    show "color[nat v := 1] ! nat x = (if x \<notin> set (D @ [v]) then 0 else if x \<in> insert v P then 1 else 2)" if "has_vertex g x" for x
      using vertex_update [OF assms(2) that S(1)] S(2) [OF that] by simp
  qed (use S(5,6) in blast)+
qed

lemma shaded_leave:
  assumes "shaded g color D (insert v P)" "v \<notin> P" "\<And>y. (v, y) \<in> graph_arcs g \<Longrightarrow> y \<in> set D - insert v P"
  shows "shaded g (color[nat v := 2]) D P"
proof -
  note S = shadedD [OF assms(1)]
  let ?B = "set D - insert v P"
  have v: "v \<in> set D" "has_vertex g v" using S(3,4) by auto
  have split: "set D - P = insert v ?B" using v assms(2) by blast
  have no_cycle: "(v, v) \<notin> (graph_arcs g)\<^sup>+"
  proof
    assume "(v, v) \<in> (graph_arcs g)\<^sup>+"
    then obtain y where "(v, y) \<in> graph_arcs g" "(y, v) \<in> (graph_arcs g)\<^sup>*" by (blast dest: tranclD)
    then have "v \<in> ?B" using closed_reach [of y v g ?B] assms(3) S(6) by blast
    then show False by simp
  qed
  show ?thesis
  proof (rule shadedI [OF _ _ _ _ split])
    show "length (color[nat v := 2]) = nat (vertex_capacity g)" using S(1) by simp
    show "P \<subseteq> set D" using S(4) by blast
    show "color[nat v := 2] ! nat x = (if x \<notin> set D then 0 else if x \<in> P then 1 else 2)" if "has_vertex g x" for x
      using vertex_update [OF v(2) that S(1)] S(2) [OF that] v(1) assms(2) by auto
    show "(x, x) \<notin> (graph_arcs g)\<^sup>+" if "x \<in> insert v ?B" for x using that S(5) [of x] no_cycle by auto
    show "y \<in> insert v ?B" if "x \<in> insert v ?B" "(x, y) \<in> graph_arcs g" for x y
      using that S(6) [of x y] assms(3) [of y] by auto
  qed (rule S(3))
qed

lemma cycle_targets_directed_ready:
  assumes g: "graph_inv g"
  shows "shaded g color D P \<Longrightarrow> \<forall>t\<in>set tos. (v, t) \<in> graph_arcs g \<Longrightarrow> \<forall>x\<in>P. (x, v) \<in> (graph_arcs g)\<^sup>* \<Longrightarrow>
    \<exists>found color' D'. cycle_targets_directed g tos color = Some (found, color') \<and> (found \<longrightarrow> \<not> acyclic (graph_arcs g)) \<and>
      (\<not> found \<longrightarrow> shaded g color' D' P \<and> set D \<subseteq> set D' \<and> set tos \<subseteq> set D' - P)"
proof (induction "unseen_work g D + length tos" arbitrary: tos color D P v rule: less_induct)
  case less
  note I = less.prems
  show ?case
  proof (cases tos)
    case Nil
    then have "cycle_targets_directed g tos color = Some (False, color)" by (subst cycle_targets_directed.simps) simp
    then show ?thesis using I(1) Nil by (intro exI [of _ False] exI [of _ color] exI [of _ D]) simp
  next
    case (Cons t ts)
    have vt: "(v, t) \<in> graph_arcs g" "\<forall>t\<in>set ts. (v, t) \<in> graph_arcs g" using I(2) Cons by simp_all
    have ht: "has_vertex g t" using arcs_valid [OF g vt(1)] by simp
    have color: "color ! nat t = (if t \<notin> set D then 0 else if t \<in> P then 1 else 2)" by (rule shadedD(2) [OF I(1) ht])
    consider (grey) "t \<in> P" | (black) "t \<in> set D" "t \<notin> P" | (white) "t \<notin> set D" by blast
    then show ?thesis
    proof cases
      case grey
      then have "t \<in> set D" using shadedD(4) [OF I(1)] by blast
      have "(t, t) \<in> (graph_arcs g)\<^sup>+" by (rule rtrancl_into_trancl1 [OF _ vt(1)]) (use I(3) grey in blast)
      moreover have "cycle_targets_directed g tos color = Some (True, color)"
        using color grey \<open>t \<in> set D\<close> Cons by (subst cycle_targets_directed.simps) simp
      ultimately show ?thesis by (auto simp: acyclic_def)
    next
      case black
      have run: "cycle_targets_directed g tos color = cycle_targets_directed g ts color"
        using color black Cons by (subst cycle_targets_directed.simps) simp
      have "unseen_work g D + length ts < unseen_work g D + length tos" using Cons by simp
      from less.hyps [OF this I(1) vt(2) I(3)] obtain found color' D' where "cycle_targets_directed g ts color = Some (found, color')"
        "found \<longrightarrow> \<not> acyclic (graph_arcs g)" "\<not> found \<longrightarrow> shaded g color' D' P \<and> set D \<subseteq> set D' \<and> set ts \<subseteq> set D' - P" by blast
      then show ?thesis using black Cons unfolding run by (intro exI [of _ found] exI [of _ color'] exI [of _ D']) auto
    next
      case white
      have P: "t \<notin> P" "P \<subseteq> set D" using white shadedD(4) [OF I(1)] by auto
      note work = unseen_work_visit [OF ht white]
      have arcs: "x \<in> set (edge_targets g t) \<longleftrightarrow> (t, x) \<in> graph_arcs g" for x by (rule edge_targets_arcs [OF g ht])
      have "unseen_work g (D @ [t]) + length (edge_targets g t) < unseen_work g D + length tos" using work by simp
      moreover have "\<forall>x\<in>insert t P. (x, t) \<in> (graph_arcs g)\<^sup>*" 
        using I(3) rtrancl_into_rtrancl [OF _ vt(1)] by blast
      ultimately obtain found color1 D1 where C: "cycle_targets_directed g (edge_targets g t) (color[nat t := 1]) = Some (found, color1)"
        "found \<longrightarrow> \<not> acyclic (graph_arcs g)"
        "\<not> found \<longrightarrow> shaded g color1 D1 (insert t P) \<and> set (D @ [t]) \<subseteq> set D1 \<and> set (edge_targets g t) \<subseteq> set D1 - insert t P"
        using less.hyps [OF _ shaded_enter [OF I(1) ht white]] arcs by blast
      have run: "cycle_targets_directed g tos color =
          (if found then Some (True, color1) else cycle_targets_directed g ts (color1[nat t := 2]))"
        using color white C(1) Cons by (subst cycle_targets_directed.simps) simp
      show ?thesis
      proof (cases found)
        case True
        then show ?thesis using run C(2) by auto
      next
        case False
        then have D1: "shaded g color1 D1 (insert t P)" "set D \<subseteq> set D1" "t \<in> set D1" "set (edge_targets g t) \<subseteq> set D1 - insert t P"
          using C(3) by auto
        have S: "shaded g (color1[nat t := 2]) D1 P" by (rule shaded_leave [OF D1(1) P(1)]) (use D1(4) arcs in blast)
        have "unseen_work g D1 + length ts < unseen_work g D + length tos" using unseen_work_mono [OF D1(2), of g] Cons by simp
        from less.hyps [OF this S vt(2) I(3)] obtain found2 color2 D2 where
          "cycle_targets_directed g ts (color1[nat t := 2]) = Some (found2, color2)" "found2 \<longrightarrow> \<not> acyclic (graph_arcs g)"
          "\<not> found2 \<longrightarrow> shaded g color2 D2 P \<and> set D1 \<subseteq> set D2 \<and> set ts \<subseteq> set D2 - P" by blast
        then show ?thesis using run False D1(2,3) P(1) Cons by (intro exI [of _ found2] exI [of _ color2] exI [of _ D2]) auto
      qed
    qed
  qed
qed

lemma directed_roots_ready:
  assumes g: "graph_inv g"
  shows "v = int i \<Longrightarrow> i + n = nat (vertex_capacity g) \<Longrightarrow> shaded g color D {} \<Longrightarrow>
    \<forall>x. has_vertex g x \<longrightarrow> x < int i \<longrightarrow> x \<in> set D \<Longrightarrow> directed_roots g v n color = Some (\<not> acyclic (graph_arcs g))"
proof (induction n arbitrary: v i color D)
  case 0
  have "(x, x) \<notin> (graph_arcs g)\<^sup>+" for x
  proof
    assume c: "(x, x) \<in> (graph_arcs g)\<^sup>+"
    then obtain y where "(x, y) \<in> graph_arcs g" by (blast dest: tranclD)
    then have "has_vertex g x" using arcs_valid [OF g] by blast
    then have "x \<in> set D" using 0(2,4) by (simp add: has_vertex_iff)
    then show False using shadedD(5) [OF 0(3)] c by blast
  qed
  then show ?case by (simp add: acyclic_def)
next
  case (Suc n)
  note I = Suc.prems
  have args: "v + 1 = int (Suc i)" "Suc i + n = nat (vertex_capacity g)" using I(1,2) by simp_all
  have color: "has_vertex g v \<Longrightarrow> color ! nat v = (if v \<notin> set D then 0 else 2)" using shadedD(2) [OF I(3), of v] by simp
  have seen: "\<forall>x. has_vertex g x \<longrightarrow> x < int (Suc i) \<longrightarrow> x \<in> set D'" if "set D \<subseteq> set D'" "has_vertex g v \<longrightarrow> v \<in> set D'" for D'
  proof (intro allI impI)
    fix x
    assume "has_vertex g x" "x < int (Suc i)"
    then show "x \<in> set D'" using that I(1,4) by (cases "x = v") auto
  qed
  show ?case
  proof (cases "has_vertex g v \<and> v \<notin> set D")
    case False
    then have run: "directed_roots g v (Suc n) color = directed_roots g (v + 1) n color" using color by (auto simp: valid_vertex)
    show ?thesis unfolding run by (rule Suc.IH [OF args I(3)]) (rule seen, use False in auto)
  next
    case True
    then have v: "has_vertex g v" "v \<notin> set D" by simp_all
    have arcs: "x \<in> set (edge_targets g v) \<longleftrightarrow> (v, x) \<in> graph_arcs g" for x by (rule edge_targets_arcs [OF g v(1)])
    obtain found color1 D1 where C: "cycle_targets_directed g (edge_targets g v) (color[nat v := 1]) = Some (found, color1)"
      "found \<longrightarrow> \<not> acyclic (graph_arcs g)"
      "\<not> found \<longrightarrow> shaded g color1 D1 {v} \<and> set (D @ [v]) \<subseteq> set D1 \<and> set (edge_targets g v) \<subseteq> set D1 - {v}"
      using cycle_targets_directed_ready [OF g shaded_enter [OF I(3) v], of "edge_targets g v" v] arcs by blast
    have run: "directed_roots g v (Suc n) color = (if found then Some True else directed_roots g (v + 1) n (color1[nat v := 2]))"
      using v color C(1) by (simp add: valid_vertex has_cycle_directed_dfs_def)
    show ?thesis
    proof (cases found)
      case True
      then show ?thesis using run C(2) by simp
    next
      case False
      then have D1: "shaded g color1 D1 {v}" "set D \<subseteq> set D1" "v \<in> set D1" "set (edge_targets g v) \<subseteq> set D1 - {v}" using C(3) by auto
      have "shaded g (color1[nat v := 2]) D1 {}" by (rule shaded_leave [OF D1(1)]) (use D1(4) arcs in auto)
      from Suc.IH [OF args this seen [OF D1(2)]] D1(3) run False show ?thesis by simp
    qed
  qed
qed

section \<open>Cycles of an undirected graph\<close>

text \<open>At least three different vertices in a ring, or an edge from a vertex to itself.\<close>

definition is_ring :: "(int \<times> int) set \<Rightarrow> int list \<Rightarrow> bool" where
  "is_ring E xs \<longleftrightarrow> 3 \<le> length xs \<and> distinct xs \<and> (\<forall>i < length xs. (xs ! i, xs ! (Suc i mod length xs)) \<in> E)"

definition undirected_cyclic :: "(int \<times> int) set \<Rightarrow> bool" where
  "undirected_cyclic E \<longleftrightarrow> (\<exists>v. (v, v) \<in> E) \<or> (\<exists>xs. is_ring E xs)"

text \<open>A list of vertices in which every vertex is a root, with parent -1, or follows its parent.\<close>

definition follows_parents :: "(int \<Rightarrow> int) \<Rightarrow> int list \<Rightarrow> bool" where
  "follows_parents p D \<longleftrightarrow> (\<forall>i < length D. p (D ! i) = -1 \<or> p (D ! i) \<in> set (take i D))"

lemma follows_parents_in: "follows_parents p D \<Longrightarrow> v \<in> set D \<Longrightarrow> p v = -1 \<or> p v \<in> set D"
  by (auto simp: follows_parents_def in_set_conv_nth [of v] dest: in_set_takeD)

lemma follows_parents_snoc:
  assumes "follows_parents p D" "v \<notin> set D" "w = -1 \<or> w \<in> set D"
  shows "follows_parents (p(v := w)) (D @ [v])"
  unfolding follows_parents_def
proof (intro allI impI)
  fix i
  assume i: "i < length (D @ [v])"
  show "(p(v := w)) ((D @ [v]) ! i) = -1 \<or> (p(v := w)) ((D @ [v]) ! i) \<in> set (take i (D @ [v]))"
  proof (cases "i < length D")
    case True
    then have "D ! i \<noteq> v" using assms(2) nth_mem by metis
    then show ?thesis using assms(1) True by (simp add: follows_parents_def nth_append)
  next
    case False
    then have "i = length D" using i by simp
    then show ?thesis using assms(3) by simp
  qed
qed

text \<open>When every edge joins a vertex and its parent there is no cycle.\<close>

lemma parents_no_cycle:
  assumes D: "distinct D" "follows_parents p D" and sym: "sym E"
    and E: "\<And>x y. (x, y) \<in> E \<Longrightarrow> x \<in> set D \<and> y \<in> set D \<and> x \<noteq> -1 \<and> y \<noteq> -1 \<and> (y = p x \<or> x = p y)"
  shows "\<not> undirected_cyclic E"
proof
  define pos where "pos v = (LEAST i. i < length D \<and> D ! i = v)" for v
  have pos: "pos (D ! i) = i" if "i < length D" for i
    unfolding pos_def by (rule Least_equality) (use that D(1) nth_eq_iff_index_eq in \<open>auto intro: leI\<close>)
  have up: "pos (p x) < pos x" if x: "x \<in> set D" "p x \<noteq> -1" for x
  proof -
    obtain j where j: "j < length D" "D ! j = x" using x(1) by (metis in_set_conv_nth)
    then have "p x \<in> set (take j D)" using D(2) x(2) by (auto simp: follows_parents_def)
    then obtain i where "i < j" "D ! i = p x" using j(1) by (auto simp: in_set_conv_nth)
    then show ?thesis using pos j by (metis less_trans)
  qed
  assume "undirected_cyclic E"
  then consider (loop) v where "(v, v) \<in> E" | (ring) xs where "is_ring E xs" by (auto simp: undirected_cyclic_def)
  then show False
  proof cases
    case loop
    then have "v \<in> set D" "p v = v" "v \<noteq> -1" using E [OF loop] by simp_all
    then show False using up [of v] by simp
  next
    case ring
    then have xs: "3 \<le> length xs" "distinct xs" "\<And>i. i < length xs \<Longrightarrow> (xs ! i, xs ! (Suc i mod length xs)) \<in> E"
      by (simp_all add: is_ring_def)
    let ?n = "length xs"
    have "finite (pos ` set xs)" "pos ` set xs \<noteq> {}" using xs(1) by auto
    then have "Max (pos ` set xs) \<in> pos ` set xs" by (rule Max_in)
    then obtain x where x: "x \<in> set xs" "pos x = Max (pos ` set xs)" by auto
    then obtain i where i: "i < ?n" "xs ! i = x" by (metis in_set_conv_nth)
    have top: "pos y \<le> pos x" if "y \<in> set xs" for y using that x(2) by simp
    have parent: "y = p x" if "(x, y) \<in> E" "y \<in> set xs" for y
    proof (rule ccontr)
      assume "y \<noteq> p x"
      then have "x = p y" "y \<in> set D" "x \<noteq> -1" using E [OF that(1)] by auto
      then show False using up [of y] top [OF that(2)] by simp
    qed
    define a where "a = Suc i mod ?n"
    define b where "b = (i + ?n - 1) mod ?n"
    have ab: "a < ?n" "b < ?n" using i(1) unfolding a_def b_def by (intro mod_less_divisor; linarith)+
    have "(x, xs ! a) \<in> E" using xs(3) [OF i(1)] i(2) by (simp add: a_def)
    then have "xs ! a = p x" using parent ab(1) by simp
    have "Suc b mod ?n = i"
    proof (cases i)
      case 0
      then have "b = ?n - 1" using xs(1) by (simp add: b_def)
      then have "Suc b = ?n" using xs(1) by simp
      then show ?thesis using 0 by simp
    next
      case (Suc k)
      then have "b = k" using i(1) by (simp add: b_def)
      then show ?thesis using Suc i(1) by simp
    qed
    then have "(x, xs ! b) \<in> E" using xs(3) [OF ab(2)] i(2) sym by (simp add: symD)
    then have "xs ! b = p x" using parent ab(2) by simp
    then have "a = b" using \<open>xs ! a = p x\<close> ab xs(2) nth_eq_iff_index_eq by metis
    moreover have "a \<noteq> b"
    proof (cases "Suc i = ?n")
      case True
      then have "a = 0" "b = i - 1" using xs(1) by (cases i; simp add: a_def b_def)+
      then show ?thesis using True xs(1) by simp
    next
      case False
      then have "a = Suc i" using i(1) by (simp add: a_def)
      moreover have "b = i - 1 \<or> b = ?n - 1 \<and> i = 0" using i(1) by (cases i) (simp_all add: b_def)
      ultimately show ?thesis using xs(1) by auto
    qed
    ultimately show False by blast
  qed
qed

text \<open>An edge back to the path, other than to the parent, closes a cycle.\<close>

definition is_path :: "(int \<times> int) set \<Rightarrow> int list \<Rightarrow> bool" where
  "is_path E P \<longleftrightarrow> distinct P \<and> (\<forall>i. Suc i < length P \<longrightarrow> (P ! i, P ! Suc i) \<in> E)"

lemma is_path_snoc:
  assumes "is_path E P" "P \<noteq> []" "(last P, v) \<in> E" "v \<notin> set P"
  shows "is_path E (P @ [v])"
  using assms by (auto simp: is_path_def nth_append last_conv_nth less_Suc_eq) (metis One_nat_def Suc_lessI diff_Suc_1)

lemma back_edge_cycle:
  assumes P: "is_path E P" "(last P, t) \<in> E" "t \<in> set P" and parent: "1 < length P \<Longrightarrow> t \<noteq> P ! (length P - 2)"
  shows "undirected_cyclic E"
proof -
  obtain i where i: "i < length P" "P ! i = t" using P(3) by (metis in_set_conv_nth)
  have last: "last P = P ! (length P - 1)" using i(1) by (cases P) (simp_all add: last_conv_nth)
  show ?thesis
  proof (cases "i = length P - 1")
    case True
    then have "(t, t) \<in> E" using P(2) i(2) last by simp
    then show ?thesis by (auto simp: undirected_cyclic_def)
  next
    case False
    have "i \<noteq> length P - 2" using parent i False by (cases "1 < length P") auto
    then have three: "i + 3 \<le> length P" using i(1) False by simp
    let ?xs = "drop i P"
    have "(?xs ! j, ?xs ! (Suc j mod length ?xs)) \<in> E" if j: "j < length ?xs" for j
    proof (cases "Suc j = length ?xs")
      case True
      then have "i + j = length P - 1" by simp
      then show ?thesis using True P(2) i last by simp
    next
      case False
      then have "Suc j mod length ?xs = Suc j" "Suc (i + j) < length P" using j by simp_all
      then show ?thesis using P(1) by (simp add: is_path_def)
    qed
    then have "is_ring E ?xs" using P(1) three by (simp add: is_ring_def is_path_def)
    then show ?thesis by (auto simp: undirected_cyclic_def)
  qed
qed

text \<open>The state of the search: what has been seen (\<open>D\<close>), the path (\<open>P\<close>) and the parents. Edges of a
  vertex that is done lead to its parent or its children.\<close>

definition searched :: "graph_impl \<Rightarrow> bool list \<Rightarrow> int list \<Rightarrow> int list \<Rightarrow> (int \<Rightarrow> int) \<Rightarrow> bool" where
  "searched g visited D P p \<longleftrightarrow> length visited = nat (vertex_capacity g) \<and> marks visited = set D \<and> distinct D \<and>
     (\<forall>v\<in>set D. has_vertex g v) \<and> set P \<subseteq> set D \<and> is_path (graph_arcs g) P \<and> follows_parents p D \<and>
     (\<forall>x\<in>set D - set P. \<forall>y. (x, y) \<in> graph_arcs g \<longrightarrow> y \<in> set D \<and> (y = p x \<or> x = p y))"

lemma searchedD:
  assumes "searched g visited D P p"
  shows "length visited = nat (vertex_capacity g)" "marks visited = set D" "distinct D" "v \<in> set D \<Longrightarrow> has_vertex g v"
    "set P \<subseteq> set D" "is_path (graph_arcs g) P" "follows_parents p D"
    "x \<in> set D - set P \<Longrightarrow> (x, y) \<in> graph_arcs g \<Longrightarrow> y \<in> set D \<and> (y = p x \<or> x = p y)"
  using assms unfolding searched_def by blast+

lemma searched_enter:
  assumes S: "searched g visited D P p" and v: "has_vertex g v" "v \<notin> set D"
    and P: "P = [] \<and> w = -1 \<or> P \<noteq> [] \<and> w = last P \<and> (w, v) \<in> graph_arcs g"
  shows "searched g (visited[nat v := True]) (D @ [v]) (P @ [v]) (p(v := w))"
proof -
  note I = searchedD [OF S]
  have range: "0 \<le> v" "v < int (length visited)" using vertex_range [OF v(1) I(1)] by simp_all
  have vP: "v \<notin> set P" using v(2) I(5) by blast
  have "w = -1 \<or> w \<in> set D" using P I(5) last_in_set by blast
  then have "follows_parents (p(v := w)) (D @ [v])" by (rule follows_parents_snoc [OF I(7) v(2)])
  moreover have "is_path (graph_arcs g) (P @ [v])"
  proof (cases "P = []")
    case True
    then show ?thesis by (simp add: is_path_def)
  next
    case False
    then show ?thesis using P vP by (intro is_path_snoc [OF I(6)]) auto
  qed
  moreover have "\<forall>x\<in>set (D @ [v]) - set (P @ [v]). \<forall>y. (x, y) \<in> graph_arcs g \<longrightarrow>
      y \<in> set (D @ [v]) \<and> (y = (p(v := w)) x \<or> x = (p(v := w)) y)"
  proof (intro ballI allI impI)
    fix x y
    assume x: "x \<in> set (D @ [v]) - set (P @ [v])" and xy: "(x, y) \<in> graph_arcs g"
    then have "x \<in> set D - set P" by auto
    from I(8) [OF this xy] show "y \<in> set (D @ [v]) \<and> (y = (p(v := w)) x \<or> x = (p(v := w)) y)"
      using x v(2) by auto
  qed
  ultimately show ?thesis using I(1-5) v marks_update [OF range] unfolding searched_def by auto
qed

lemma searched_leave:
  assumes S: "searched g visited D (P @ [v]) p" and v: "\<And>y. (v, y) \<in> graph_arcs g \<Longrightarrow> y \<in> set D \<and> (y = p v \<or> v = p y)"
  shows "searched g visited D P p"
proof -
  note I = searchedD [OF S]
  have "is_path (graph_arcs g) P"
    unfolding is_path_def
  proof (intro conjI allI impI)
    show "distinct P" using I(6) by (simp add: is_path_def)
    fix i
    assume i: "Suc i < length P"
    then have "((P @ [v]) ! i, (P @ [v]) ! Suc i) \<in> graph_arcs g" using I(6) by (simp add: is_path_def)
    then show "(P ! i, P ! Suc i) \<in> graph_arcs g" using i by (simp add: nth_append)
  qed
  moreover have "\<forall>x\<in>set D - set P. \<forall>y. (x, y) \<in> graph_arcs g \<longrightarrow> y \<in> set D \<and> (y = p x \<or> x = p y)"
  proof (intro ballI allI impI)
    fix x y
    assume x: "x \<in> set D - set P" and xy: "(x, y) \<in> graph_arcs g"
    show "y \<in> set D \<and> (y = p x \<or> x = p y)"
    proof (cases "x = v")
      case True
      then show ?thesis using v xy by blast
    next
      case False
      then have "x \<in> set D - set (P @ [v])" using x by simp
      from I(8) [OF this xy] show ?thesis .
    qed
  qed
  ultimately show ?thesis using I(1-5,7) unfolding searched_def by auto
qed

lemma cycle_targets_undirected_ready:
  assumes g: "graph_inv g" and sym: "sym (graph_arcs g)"
  shows "searched g visited D P p \<Longrightarrow> P \<noteq> [] \<Longrightarrow> last P = v \<Longrightarrow> p v = parent \<Longrightarrow> (1 < length P \<Longrightarrow> parent = P ! (length P - 2)) \<Longrightarrow>
    distinct tos \<Longrightarrow> \<forall>t\<in>set tos. (v, t) \<in> graph_arcs g \<and> (t \<in> set D \<longrightarrow> t \<notin> set P \<longrightarrow> p t \<noteq> v) \<Longrightarrow>
    \<exists>found visited' D' p'. cycle_targets_undirected g v parent tos visited = Some (found, visited') \<and>
      (found \<longrightarrow> undirected_cyclic (graph_arcs g)) \<and>
      (\<not> found \<longrightarrow> searched g visited' D' P p' \<and> set D \<subseteq> set D' \<and> (\<forall>x\<in>set D. p' x = p x) \<and>
        (\<forall>x\<in>set D' - set D. p' x = v \<or> p' x \<notin> set D) \<and> (\<forall>t\<in>set tos. t \<in> set D' \<and> (t = parent \<or> p' t = v)))"
proof (induction "unseen_work g D + length tos" arbitrary: tos visited D P p v parent rule: less_induct)
  case less
  note I = less.prems
  note S = searchedD [OF I(1)]
  show ?case
  proof (cases tos)
    case Nil
    then have "cycle_targets_undirected g v parent tos visited = Some (False, visited)" by (subst cycle_targets_undirected.simps) simp
    then show ?thesis using I(1) Nil by (intro exI [of _ False] exI [of _ visited] exI [of _ D] exI [of _ p]) simp
  next
    case (Cons t ts)
    have vt: "(v, t) \<in> graph_arcs g" "t \<in> set D \<longrightarrow> t \<notin> set P \<longrightarrow> p t \<noteq> v" "t \<notin> set ts" "distinct ts"
      using I(6,7) Cons by simp_all
    have ht: "has_vertex g t" using arcs_valid [OF g vt(1)] by simp
    have seen: "visited ! nat t \<longleftrightarrow> t \<in> set D"
      using marks_at [of t visited] vertex_range [OF ht S(1)] S(2) by simp
    have vP: "v \<in> set P" using I(2,3) last_in_set by metis
    have smaller: "unseen_work g D + length ts < unseen_work g D + length tos" using Cons by simp
    have rest: "\<forall>t\<in>set ts. (v, t) \<in> graph_arcs g \<and> (t \<in> set D \<longrightarrow> t \<notin> set P \<longrightarrow> p t \<noteq> v)" using I(7) Cons by simp
    consider (closing) "t \<in> set D" "t \<noteq> parent" | (up) "t \<in> set D" "t = parent" | (down) "t \<notin> set D" by blast
    then show ?thesis
    proof cases
      case closing
      have run: "cycle_targets_undirected g v parent tos visited = Some (True, visited)"
        using seen closing Cons by (subst cycle_targets_undirected.simps) simp
      have "t \<in> set P"
      proof (rule ccontr)
        assume "t \<notin> set P"
        then have "v = p t \<or> t = p v" using S(8) [of t v] closing(1) sym vt(1) by (auto dest: symD)
        then show False using vt(2) closing I(4) \<open>t \<notin> set P\<close> by auto
      qed
      then have "undirected_cyclic (graph_arcs g)"
        using back_edge_cycle [OF S(6)] I(3,5) vt(1) closing(2) by blast
      then show ?thesis using run by (intro exI [of _ True] exI [of _ visited]) simp
    next
      case up
      have run: "cycle_targets_undirected g v parent tos visited = cycle_targets_undirected g v parent ts visited"
        using seen up Cons by (subst cycle_targets_undirected.simps) simp
      from less.hyps [OF smaller I(1-5) vt(4) rest] obtain found visited' D' p' where R:
        "cycle_targets_undirected g v parent ts visited = Some (found, visited')" "found \<longrightarrow> undirected_cyclic (graph_arcs g)"
        "\<not> found \<longrightarrow> searched g visited' D' P p' \<and> set D \<subseteq> set D' \<and> (\<forall>x\<in>set D. p' x = p x) \<and>
          (\<forall>x\<in>set D' - set D. p' x = v \<or> p' x \<notin> set D) \<and> (\<forall>t\<in>set ts. t \<in> set D' \<and> (t = parent \<or> p' t = v))" by blast
      then show ?thesis
        using up Cons unfolding run by (intro exI [of _ found] exI [of _ visited'] exI [of _ D'] exI [of _ p']) auto
    next
      case down
      let ?v = "visited[nat t := True]" and ?D = "D @ [t]" and ?P = "P @ [t]" and ?p = "p(t := v)"
      have E: "searched g ?v ?D ?P ?p" by (rule searched_enter [OF I(1) ht down]) (use I(2,3) vt(1) in simp)
      have arcs: "x \<in> set (edge_targets g t) \<longleftrightarrow> (t, x) \<in> graph_arcs g" for x by (rule edge_targets_arcs [OF g ht])
      have "unseen_work g ?D + length (edge_targets g t) < unseen_work g D + length tos"
        using unseen_work_visit [OF ht down] by simp
      moreover have "?P ! (length ?P - 2) = v" using I(2,3) by (simp add: nth_append last_conv_nth)
      moreover have "distinct (edge_targets g t)" using edge_targets_pairs [OF g ht] adj_pairs_distinct [OF g] by simp
      moreover have "\<forall>x\<in>set (edge_targets g t). (t, x) \<in> graph_arcs g \<and> (x \<in> set ?D \<longrightarrow> x \<notin> set ?P \<longrightarrow> ?p x \<noteq> t)"
      proof
        fix x
        assume x: "x \<in> set (edge_targets g t)"
        have "?p x \<noteq> t" if xD: "x \<in> set ?D" "x \<notin> set ?P"
        proof -
          have "x \<in> set D" using xD by auto
          then have "p x = -1 \<or> p x \<in> set D" by (rule follows_parents_in [OF S(7)])
          moreover have "t \<noteq> -1" using ht by (simp add: has_vertex_iff)
          ultimately show ?thesis using down \<open>x \<in> set D\<close> by auto
        qed
        then show "(t, x) \<in> graph_arcs g \<and> (x \<in> set ?D \<longrightarrow> x \<notin> set ?P \<longrightarrow> ?p x \<noteq> t)" using x arcs by blast
      qed
      ultimately obtain found v1 D1 p1 where C:
        "cycle_targets_undirected g t v (edge_targets g t) ?v = Some (found, v1)" "found \<longrightarrow> undirected_cyclic (graph_arcs g)"
        "\<not> found \<longrightarrow> searched g v1 D1 ?P p1 \<and> set ?D \<subseteq> set D1 \<and> (\<forall>x\<in>set ?D. p1 x = ?p x) \<and>
          (\<forall>x\<in>set D1 - set ?D. p1 x = t \<or> p1 x \<notin> set ?D) \<and> (\<forall>x\<in>set (edge_targets g t). x \<in> set D1 \<and> (x = v \<or> p1 x = t))"
        using less.hyps [of ?D "edge_targets g t" ?v ?P ?p t v, OF _ E] by auto
      have run: "cycle_targets_undirected g v parent tos visited =
          (if found then Some (True, v1) else cycle_targets_undirected g v parent ts v1)"
        using seen down Cons C(1) by (subst cycle_targets_undirected.simps) simp
      show ?thesis
      proof (cases found)
        case True
        then show ?thesis using run C(2) by (intro exI [of _ True] exI [of _ v1]) simp
      next
        case False
        then have D1: "searched g v1 D1 ?P p1" "set ?D \<subseteq> set D1" "\<And>x. x \<in> set ?D \<Longrightarrow> p1 x = ?p x"
          "\<And>x. x \<in> set D1 - set ?D \<Longrightarrow> p1 x = t \<or> p1 x \<notin> set ?D"
          "\<And>x. x \<in> set (edge_targets g t) \<Longrightarrow> x \<in> set D1 \<and> (x = v \<or> p1 x = t)" using C(3) by blast+
        have pt: "p1 t = v" using D1(3) [of t] by simp
        have old: "p1 x = p x" if "x \<in> set D" for x using D1(3) [of x] that down by auto
        have L: "searched g v1 D1 P p1" by (rule searched_leave [OF D1(1)]) (use D1(5) arcs pt in auto)
        have vD: "v \<in> set D" using vP S(5) by blast
        have tv: "t \<noteq> v" using vD down by auto
        have new: "p1 x \<noteq> v" if "x \<in> set D1" "x \<notin> set D" "x \<noteq> t" for x
          using D1(4) [of x] that tv vD by auto
        have rest1: "\<forall>x\<in>set ts. (v, x) \<in> graph_arcs g \<and> (x \<in> set D1 \<longrightarrow> x \<notin> set P \<longrightarrow> p1 x \<noteq> v)"
          using rest old new vt(3) by metis
        have "unseen_work g D1 + length ts < unseen_work g D + length tos"
          using unseen_work_mono [of D D1 g] D1(2) Cons by auto
        from less.hyps [OF this L I(2,3) _ _ vt(4) rest1, of parent] old [OF vD] I(4,5) obtain found2 v2 D2 p2 where F:
          "cycle_targets_undirected g v parent ts v1 = Some (found2, v2)" "found2 \<longrightarrow> undirected_cyclic (graph_arcs g)"
          "\<not> found2 \<longrightarrow> searched g v2 D2 P p2 \<and> set D1 \<subseteq> set D2 \<and> (\<forall>x\<in>set D1. p2 x = p1 x) \<and>
            (\<forall>x\<in>set D2 - set D1. p2 x = v \<or> p2 x \<notin> set D1) \<and> (\<forall>x\<in>set ts. x \<in> set D2 \<and> (x = parent \<or> p2 x = v))" by auto
        have "searched g v2 D2 P p2 \<and> set D \<subseteq> set D2 \<and> (\<forall>x\<in>set D. p2 x = p x) \<and>
            (\<forall>x\<in>set D2 - set D. p2 x = v \<or> p2 x \<notin> set D) \<and> (\<forall>x\<in>set tos. x \<in> set D2 \<and> (x = parent \<or> p2 x = v))" if "\<not> found2"
        proof -
          have G: "searched g v2 D2 P p2" "set D1 \<subseteq> set D2" "\<And>x. x \<in> set D1 \<Longrightarrow> p2 x = p1 x"
            "\<And>x. x \<in> set D2 - set D1 \<Longrightarrow> p2 x = v \<or> p2 x \<notin> set D1" "\<And>x. x \<in> set ts \<Longrightarrow> x \<in> set D2 \<and> (x = parent \<or> p2 x = v)"
            using F(3) that by blast+
          have D: "set D \<subseteq> set D1" "t \<in> set D1" using D1(2) by auto
          have "p2 x = v \<or> p2 x \<notin> set D" if x: "x \<in> set D2 - set D" for x
          proof (cases "x \<in> set D1")
            case True
            then show ?thesis using G(3) D1(4) [of x] x pt down by (cases "x = t") auto
          next
            case False
            then show ?thesis using G(4) [of x] x D(1) by blast
          qed
          moreover have "x \<in> set D2 \<and> (x = parent \<or> p2 x = v)" if "x \<in> set tos" for x
            using that G(2,5) G(3) [OF D(2)] pt D(2) Cons by auto
          moreover have "p2 x = p x" if "x \<in> set D" for x using G(3) [of x] old [OF that] that D(1) by auto
          ultimately show ?thesis using G(1,2) D(1) by blast
        qed
        then show ?thesis using run False F(1,2) by (intro exI [of _ found2] exI [of _ v2] exI [of _ D2] exI [of _ p2]) simp
      qed
    qed
  qed
qed

lemma undirected_roots_ready:
  assumes g: "graph_inv g" and sym: "sym (graph_arcs g)"
  shows "v = int i \<Longrightarrow> i + n = nat (vertex_capacity g) \<Longrightarrow> searched g visited D [] p \<Longrightarrow>
    \<forall>x. has_vertex g x \<longrightarrow> x < int i \<longrightarrow> x \<in> set D \<Longrightarrow> undirected_roots g v n visited = Some (undirected_cyclic (graph_arcs g))"
proof (induction n arbitrary: v i visited D p)
  case 0
  note S = searchedD [OF 0(3)]
  have "x \<in> set D" if "has_vertex g x" for x using that 0(2,4) by (simp add: has_vertex_iff)
  then have "x \<in> set D \<and> y \<in> set D \<and> x \<noteq> -1 \<and> y \<noteq> -1 \<and> (y = p x \<or> x = p y)" if "(x, y) \<in> graph_arcs g" for x y
    using arcs_valid [OF g that] S(8) [of x y] that by (auto simp: has_vertex_iff)
  then have "\<not> undirected_cyclic (graph_arcs g)" by (rule parents_no_cycle [OF S(3,7) sym])
  then show ?case by simp
next
  case (Suc n)
  note I = Suc.prems
  note S = searchedD [OF I(3)]
  have args: "v + 1 = int (Suc i)" "Suc i + n = nat (vertex_capacity g)" using I(1,2) by simp_all
  have seen: "\<forall>x. has_vertex g x \<longrightarrow> x < int (Suc i) \<longrightarrow> x \<in> set D'" if "set D \<subseteq> set D'" "has_vertex g v \<longrightarrow> v \<in> set D'" for D'
  proof (intro allI impI)
    fix x
    assume "has_vertex g x" "x < int (Suc i)"
    then show "x \<in> set D'" using that I(1,4) by (cases "x = v") auto
  qed
  have visited: "visited ! nat v \<longleftrightarrow> v \<in> set D" if "has_vertex g v"
    using marks_at [of v visited] vertex_range [OF that S(1)] S(2) by simp
  show ?case
  proof (cases "has_vertex g v \<and> v \<notin> set D")
    case False
    then have run: "undirected_roots g v (Suc n) visited = undirected_roots g (v + 1) n visited" using visited by (auto simp: valid_vertex)
    show ?thesis unfolding run by (rule Suc.IH [OF args I(3)]) (rule seen, use False in auto)
  next
    case True
    then have v: "has_vertex g v" "v \<notin> set D" by simp_all
    have arcs: "x \<in> set (edge_targets g v) \<longleftrightarrow> (v, x) \<in> graph_arcs g" for x by (rule edge_targets_arcs [OF g v(1)])
    let ?p = "p(v := -1)"
    have E: "searched g (visited[nat v := True]) (D @ [v]) ([] @ [v]) ?p" by (rule searched_enter [OF I(3) v]) simp
    have "\<forall>x\<in>set (edge_targets g v). (v, x) \<in> graph_arcs g \<and> (x \<in> set (D @ [v]) \<longrightarrow> x \<notin> set ([] @ [v]) \<longrightarrow> ?p x \<noteq> v)"
    proof
      fix x
      assume x: "x \<in> set (edge_targets g v)"
      have "p x \<noteq> v" if "x \<in> set D" using follows_parents_in [OF S(7) that] v by (auto simp: has_vertex_iff)
      then show "(v, x) \<in> graph_arcs g \<and> (x \<in> set (D @ [v]) \<longrightarrow> x \<notin> set ([] @ [v]) \<longrightarrow> ?p x \<noteq> v)" using x arcs by auto
    qed
    moreover have "distinct (edge_targets g v)" using edge_targets_pairs [OF g v(1)] adj_pairs_distinct [OF g] by simp
    ultimately obtain found v1 D1 p1 where C:
      "cycle_targets_undirected g v (-1) (edge_targets g v) (visited[nat v := True]) = Some (found, v1)"
      "found \<longrightarrow> undirected_cyclic (graph_arcs g)"
      "\<not> found \<longrightarrow> searched g v1 D1 ([] @ [v]) p1 \<and> set (D @ [v]) \<subseteq> set D1 \<and> (\<forall>x\<in>set (D @ [v]). p1 x = ?p x) \<and>
        (\<forall>x\<in>set D1 - set (D @ [v]). p1 x = v \<or> p1 x \<notin> set (D @ [v])) \<and>
        (\<forall>t\<in>set (edge_targets g v). t \<in> set D1 \<and> (t = -1 \<or> p1 t = v))"
      using cycle_targets_undirected_ready [OF g sym E, of v "-1" "edge_targets g v"] by auto
    have run: "undirected_roots g v (Suc n) visited = (if found then Some True else undirected_roots g (v + 1) n v1)"
      using v visited C(1) by (simp add: valid_vertex has_cycle_undirected_dfs_def)
    show ?thesis
    proof (cases found)
      case True
      then show ?thesis using run C(2) by simp
    next
      case False
      then have D1: "searched g v1 D1 ([] @ [v]) p1" "set (D @ [v]) \<subseteq> set D1" "p1 v = -1"
        "\<And>t. t \<in> set (edge_targets g v) \<Longrightarrow> t \<in> set D1 \<and> (t = -1 \<or> p1 t = v)" using C(3) by auto
      have "searched g v1 D1 [] p1" by (rule searched_leave [OF D1(1)]) (use D1(3,4) arcs in auto)
      from Suc.IH [OF args this seen] D1(2) run False show ?thesis by simp
    qed
  qed
qed

lemma has_cycle_ready:
  assumes g: "graph_inv g" and w: "alloc_fails w = []"
  shows "gr_type g = GRAPH_DIRECTED \<Longrightarrow> graph_has_cycle_impl (Some g) w = Some (\<not> acyclic (graph_arcs g), w)"
    "gr_type g = GRAPH_UNDIRECTED \<Longrightarrow> sym (graph_arcs g) \<Longrightarrow>
       graph_has_cycle_impl (Some g) w = Some (undirected_cyclic (graph_arcs g), w)"
proof -
  let ?n = "nat (vertex_capacity g)"
  note m = capacity_malloc [OF g w]
  have none: "\<forall>x. has_vertex g x \<longrightarrow> x < int 0 \<longrightarrow> x \<in> set []" by (simp add: has_vertex_iff)
  show "graph_has_cycle_impl (Some g) w = Some (\<not> acyclic (graph_arcs g), w)" if "gr_type g = GRAPH_DIRECTED"
  proof -
    have "shaded g (replicate ?n 0) [] {}" by (simp add: shaded_def has_vertex_iff)
    from directed_roots_ready [OF g _ _ this none, of 0] have "directed_roots g 0 ?n (replicate ?n 0) = Some (\<not> acyclic (graph_arcs g))"
      by simp
    then show ?thesis using m that by (simp add: graph_has_cycle_impl_def)
  qed
  show "graph_has_cycle_impl (Some g) w = Some (undirected_cyclic (graph_arcs g), w)"
    if "gr_type g = GRAPH_UNDIRECTED" "sym (graph_arcs g)"
  proof -
    have "searched g (replicate ?n False) [] [] (\<lambda>_. -1)" by (simp add: searched_def is_path_def follows_parents_def)
    from undirected_roots_ready [OF g that(2) _ _ this none, of 0]
    have "undirected_roots g 0 ?n (replicate ?n False) = Some (undirected_cyclic (graph_arcs g))" by simp
    then show ?thesis using m that(1) by (simp add: graph_has_cycle_impl_def)
  qed
qed

lemma undirected_after_sym: "abs_after GRAPH_UNDIRECTED cs = a \<Longrightarrow> sym (abs_arcs a)"
  using undirected_sym [of "([], [])" cs] by (auto simp: abs_after_def abs_arcs_def sym_def)

section \<open>Properties\<close>

text \<open>C28: the topological sort of a directed graph answers null exactly when the graph has a cycle;
  otherwise it lists every vertex once, each after the sources of all its edges.\<close>

theorem topological_sort_correct:
  assumes "graph_after GRAPH_DIRECTED rep tr mp cs w = Some (g, w1)" "alloc_fails w = []" "list_all (graph_cmd_ok rep) cs"
    "abs_after GRAPH_DIRECTED cs = a"
  shows "\<exists>r w2. graph_topological_sort_impl (Some g) w1 = Some (r, w2) \<and> (r = None) = (\<not> acyclic (abs_arcs a)) \<and>
    (case r of None \<Rightarrow> True
     | Some l \<Rightarrow> \<exists>D. list_items l = map id_cell D \<and> distinct D \<and> set D = set (fst a) \<and> sources_first (abs_arcs a) D)"
proof -
  have H: "graph_holds g a" "alloc_fails w1 = []" "gr_type g = GRAPH_DIRECTED"
    using graph_after_holds [OF assms(2,3), of GRAPH_DIRECTED tr mp] assms(1,4) by auto
  have g: "graph_inv g" "{v. has_vertex g v} = set (fst a)" "graph_arcs g = abs_arcs a" using holds_arcs [OF H(1)] by auto
  from topological_sort_ready [OF g(1) H(3,2)] obtain r w2 where
    "graph_topological_sort_impl (Some g) w1 = Some (r, w2)" "r = None \<longleftrightarrow> \<not> acyclic (graph_arcs g)"
    "\<forall>l. r = Some l \<longrightarrow> (\<exists>D. list_items l = map id_cell D \<and> distinct D \<and> set D = {v. has_vertex g v} \<and> sources_first (graph_arcs g) D)"
    by blast
  then show ?thesis unfolding g(2,3) by (intro exI [of _ r] exI [of _ w2]) (simp split: option.split)
qed

theorem topological_sort_correct_witness:
  "\<exists>g w1 w2. graph_after GRAPH_DIRECTED GRAPH_ADJACENCY_MATRIX GRAPH_TRAVERSE_BFS GRAPH_MIN_PATH_DIJKSTRA
      [Add_Edge 1 2 5, Add_Edge 2 1 5] fresh_world = Some (g, w1) \<and> graph_topological_sort_impl (Some g) w1 = Some (None, w2)"
proof -
  let ?cs = "[Add_Edge 1 2 5, Add_Edge 2 1 5]"
  have ok: "alloc_fails fresh_world = []" "list_all (graph_cmd_ok GRAPH_ADJACENCY_MATRIX) ?cs"
    by (simp_all add: rep_limit_def GRAPH_NO_EDGE_def)
  obtain g w1 where G: "graph_after GRAPH_DIRECTED GRAPH_ADJACENCY_MATRIX GRAPH_TRAVERSE_BFS GRAPH_MIN_PATH_DIJKSTRA ?cs fresh_world = Some (g, w1)"
    using graph_after_holds [OF ok, of GRAPH_DIRECTED GRAPH_TRAVERSE_BFS GRAPH_MIN_PATH_DIJKSTRA] by blast
  have a: "abs_after GRAPH_DIRECTED ?cs = ([2, 1], [((1, 2), 5), ((2, 1), 5)])"
    by (simp add: abs_after_def List.insert_def)
  have "(1, 2) \<in> {(1, 2), (2, 1)}" "(2, 1) \<in> {(1, 2), (2, 1 :: int)}" by simp_all
  then have "(1, 1) \<in> {(1, 2), (2, 1 :: int)}\<^sup>+" by (metis trancl.simps)
  then have "\<not> acyclic (abs_arcs ([2, 1], [((1, 2), 5), ((2, 1), 5)]))" by (auto simp: acyclic_def abs_arcs_def)
  with topological_sort_correct [OF G ok a] G show ?thesis by auto
qed

text \<open>C29: \<open>has_cycle\<close> always returns and is right: for a directed graph it tells whether the edges
  are cyclic, for an undirected one whether there is a loop or a ring of at least three different
  vertices.\<close>

theorem has_cycle_correct:
  assumes "graph_after type rep tr mp cs w = Some (g, w1)" "alloc_fails w = []" "list_all (graph_cmd_ok rep) cs"
    "abs_after type cs = a"
  shows "graph_has_cycle_impl (Some g) w1 =
    Some (case type of GRAPH_DIRECTED \<Rightarrow> \<not> acyclic (abs_arcs a) | GRAPH_UNDIRECTED \<Rightarrow> undirected_cyclic (abs_arcs a), w1)"
proof -
  have H: "graph_holds g a" "alloc_fails w1 = []" "gr_type g = type"
    using graph_after_holds [OF assms(2,3), of type tr mp] assms(1,4) by auto
  have g: "graph_inv g" "graph_arcs g = abs_arcs a" using holds_arcs [OF H(1)] by auto
  show ?thesis
  proof (cases type)
    case GRAPH_DIRECTED
    then show ?thesis using has_cycle_ready(1) [OF g(1) H(2)] H(3) by (simp add: g(2))
  next
    case GRAPH_UNDIRECTED
    then have "sym (abs_arcs a)" using undirected_after_sym [of cs a] assms(4) by simp
    then show ?thesis using has_cycle_ready(2) [OF g(1) H(2)] H(3) GRAPH_UNDIRECTED by (simp add: g(2))
  qed
qed

theorem has_cycle_correct_witness:
  "\<exists>g w1. graph_after GRAPH_UNDIRECTED GRAPH_ADJACENCY_LIST GRAPH_TRAVERSE_BFS GRAPH_MIN_PATH_DIJKSTRA
      [Add_Edge 1 2 5, Add_Edge 2 3 5, Add_Edge 3 1 5] fresh_world = Some (g, w1) \<and> graph_has_cycle_impl (Some g) w1 = Some (True, w1)"
proof -
  let ?cs = "[Add_Edge 1 2 5, Add_Edge 2 3 5, Add_Edge 3 1 5]"
  have ok: "alloc_fails fresh_world = []" "list_all (graph_cmd_ok GRAPH_ADJACENCY_LIST) ?cs"
    by (simp_all add: rep_limit_def GRAPH_NO_EDGE_def)
  obtain g w1 where G: "graph_after GRAPH_UNDIRECTED GRAPH_ADJACENCY_LIST GRAPH_TRAVERSE_BFS GRAPH_MIN_PATH_DIJKSTRA ?cs fresh_world = Some (g, w1)"
    using graph_after_holds [OF ok, of GRAPH_UNDIRECTED GRAPH_TRAVERSE_BFS GRAPH_MIN_PATH_DIJKSTRA] by blast
  let ?es = "[((1, 2), 5), ((2, 1), 5), ((2, 3), 5), ((3, 2), 5), ((3, 1), 5), ((1, 3), 5)]"
  have a: "abs_after GRAPH_UNDIRECTED ?cs = ([3, 2, 1], ?es)" by (simp add: abs_after_def List.insert_def)
  have "\<forall>i < 3. ([1, 2, 3] ! i, [1, 2, 3] ! (Suc i mod 3)) \<in> abs_arcs ([3, 2, 1], ?es)"
  proof (intro allI impI)
    fix i :: nat
    assume "i < 3"
    then consider "i = 0" | "i = 1" | "i = 2" by linarith
    then show "([1, 2, 3] ! i, [1, 2, 3] ! (Suc i mod 3)) \<in> abs_arcs ([3, 2, 1], ?es)" by cases (simp_all add: abs_arcs_def)
  qed
  then have "is_ring (abs_arcs ([3, 2, 1], ?es)) [1, 2, 3]" by (simp add: is_ring_def)
  then have "undirected_cyclic (abs_arcs ([3, 2, 1], ?es))" unfolding undirected_cyclic_def by blast
  with has_cycle_correct [OF G ok a] G show ?thesis by auto
qed

end
