(* ===== verification/Matrices.thy ===== *)
theory Matrices
  imports Complex_Main Ova_Base "HOL-Library.While_Combinator"
begin

text \<open>
  Matrices and vectors, \<open>src/matrix/matrix.c\<close>. The entries are of any type that has the operations
  a function uses: the code computes on doubles, the storage theorems need no law of arithmetic at
  all, and the theorems on products and inverses say what the code computes where no rounding
  occurs, over a ring or a field. The scalar paths are modelled, as compiled without AVX. A method is called
  through its object, which is therefore not null; every other argument may be. A row is a
  list: the row pointers of the code are disjoint slices of one buffer.
\<close>

section \<open>Storage\<close>

record 'e matrix_impl =
  m_data :: "'e list list"
  m_rows :: int
  m_cols :: int

definition create_matrix :: "int \<Rightarrow> int \<Rightarrow> 'w world \<Rightarrow> ('e :: zero) matrix_impl option \<times> 'w world" where
  "create_matrix rows cols w =
     (if rows \<le> 0 \<or> cols \<le> 0 then (None, w)
      else
       (case malloc_struct w of
          (False, w) \<Rightarrow> (None, w)
        | (True, w) \<Rightarrow>
           (case malloc_struct w of
              (False, w) \<Rightarrow> (None, w)
            | (True, w) \<Rightarrow>
               (case malloc (nat rows * 8) w of
                  (False, w) \<Rightarrow> (None, w)
                | (True, w) \<Rightarrow>
                   (case malloc (nat rows * nat cols * 8) w of
                      (False, w) \<Rightarrow> (None, w)
                    | (True, w) \<Rightarrow>
                       (Some \<lparr>m_data = replicate (nat rows) (replicate (nat cols) 0), m_rows = rows, m_cols = cols\<rparr>, w))))))"

definition matrix_get_method :: "('e :: zero) matrix_impl option \<Rightarrow> int \<Rightarrow> int \<Rightarrow> 'e" where
  "matrix_get_method self row col =
     (case self of
        None \<Rightarrow> 0
      | Some impl \<Rightarrow>
          (if row < 0 \<or> col < 0 \<or> row \<ge> m_rows impl \<or> col \<ge> m_cols impl then 0
           else m_data impl ! nat row ! nat col))"

definition matrix_set_method :: "'e matrix_impl \<Rightarrow> int \<Rightarrow> int \<Rightarrow> 'e \<Rightarrow> int \<times> 'e matrix_impl" where
  "matrix_set_method impl row col value =
     (if row < 0 \<or> col < 0 \<or> row \<ge> m_rows impl \<or> col \<ge> m_cols impl then (-1, impl)
      else (0, impl\<lparr>m_data := (m_data impl)[nat row := (m_data impl ! nat row)[nat col := value]]\<rparr>))"

definition matrix_rows_method :: "'e matrix_impl option \<Rightarrow> int" where
  "matrix_rows_method self = (case self of None \<Rightarrow> 0 | Some impl \<Rightarrow> m_rows impl)"

definition matrix_cols_method :: "'e matrix_impl option \<Rightarrow> int" where
  "matrix_cols_method self = (case self of None \<Rightarrow> 0 | Some impl \<Rightarrow> m_cols impl)"

definition matrix_transpose_method ::
  "('e :: zero) matrix_impl \<Rightarrow> 'w world \<Rightarrow> 'e matrix_impl option \<times> 'w world" where
  "matrix_transpose_method impl w =
     (case create_matrix (m_cols impl) (m_rows impl) w of
        (None, w) \<Rightarrow> (None, w)
      | (Some out, w) \<Rightarrow>
         (Some (out\<lparr>m_data := map (\<lambda>j. map (\<lambda>i. m_data impl ! i ! j) [0..<nat (m_rows impl)]) [0..<nat (m_cols impl)]\<rparr>), w))"

definition resized_row :: "nat \<Rightarrow> nat \<Rightarrow> ('e :: zero) list \<Rightarrow> 'e list" where
  "resized_row copy_cols new_cols old = take copy_cols old @ replicate (new_cols - copy_cols) 0"

definition matrix_resize_method ::
  "('e :: zero) matrix_impl \<Rightarrow> int \<Rightarrow> int \<Rightarrow> 'w world \<Rightarrow> int \<times> 'e matrix_impl \<times> 'w world" where
  "matrix_resize_method impl new_rows new_cols w =
     (if new_rows \<le> 0 \<or> new_cols \<le> 0 then (-1, impl, w)
      else if m_rows impl = new_rows \<and> m_cols impl = new_cols then (0, impl, w)
      else
       (let min_rows = nat (if m_rows impl < new_rows then m_rows impl else new_rows);
            copy_cols = nat (if m_cols impl < new_cols then m_cols impl else new_cols)
        in case malloc (nat new_rows * nat new_cols * 8) w of
             (False, w) \<Rightarrow> (-1, impl, w)
           | (True, w) \<Rightarrow>
              (case malloc (nat new_rows * 8) w of
                 (False, w) \<Rightarrow> (-1, impl, w)
               | (True, w) \<Rightarrow>
                   (0, impl\<lparr>m_data := map (resized_row copy_cols (nat new_cols)) (take min_rows (m_data impl)) @
                              replicate (nat new_rows - min_rows) (replicate (nat new_cols) 0),
                            m_rows := new_rows, m_cols := new_cols\<rparr>, w))))"

definition matrix_copy_method :: "('e :: zero) matrix_impl \<Rightarrow> 'w world \<Rightarrow> 'e matrix_impl option \<times> 'w world" where
  "matrix_copy_method impl w =
     (case create_matrix (m_rows impl) (m_cols impl) w of
        (None, w) \<Rightarrow> (None, w)
      | (Some out, w) \<Rightarrow> (Some (out\<lparr>m_data := map (take (nat (m_cols impl))) (take (nat (m_rows impl)) (m_data impl))\<rparr>), w))"

section \<open>Arithmetic\<close>

text \<open>The loops over rows and columns that combine two matrices entry by entry.\<close>

definition elementwise :: "('e \<Rightarrow> 'e \<Rightarrow> 'e) \<Rightarrow> nat \<Rightarrow> nat \<Rightarrow> 'e list list \<Rightarrow> 'e list list \<Rightarrow> 'e list list" where
  "elementwise f rows cols a b = map (\<lambda>i. map (\<lambda>j. f (a ! i ! j) (b ! i ! j)) [0..<cols]) [0..<rows]"

definition matrix_add_method ::
  "('e :: {zero, plus}) matrix_impl option \<Rightarrow> 'e matrix_impl option \<Rightarrow> 'w world \<Rightarrow> 'e matrix_impl option \<times> 'w world" where
  "matrix_add_method self other w =
     (case (self, other) of (Some lhs, Some rhs) \<Rightarrow>
      (if m_rows lhs \<noteq> m_rows rhs \<or> m_cols lhs \<noteq> m_cols rhs then (None, w)
      else
       (case create_matrix (m_rows lhs) (m_cols lhs) w of
          (None, w) \<Rightarrow> (None, w)
        | (Some out, w) \<Rightarrow>
           (Some (out\<lparr>m_data := elementwise (+) (nat (m_rows lhs)) (nat (m_cols lhs)) (m_data lhs) (m_data rhs)\<rparr>), w)))
      | _ \<Rightarrow> (None, w))"

definition matrix_subtract_method ::
  "('e :: {zero, minus}) matrix_impl option \<Rightarrow> 'e matrix_impl option \<Rightarrow> 'w world \<Rightarrow> 'e matrix_impl option \<times> 'w world" where
  "matrix_subtract_method self other w =
     (case (self, other) of (Some lhs, Some rhs) \<Rightarrow>
      (if m_rows lhs \<noteq> m_rows rhs \<or> m_cols lhs \<noteq> m_cols rhs then (None, w)
      else
       (case create_matrix (m_rows lhs) (m_cols lhs) w of
          (None, w) \<Rightarrow> (None, w)
        | (Some out, w) \<Rightarrow>
           (Some (out\<lparr>m_data := elementwise (-) (nat (m_rows lhs)) (nat (m_cols lhs)) (m_data lhs) (m_data rhs)\<rparr>), w)))
      | _ \<Rightarrow> (None, w))"

text \<open>One row of a product: \<open>out[i][j] += a[i][k] * b[k][j]\<close> for every \<open>j\<close>, \<open>k\<close> after \<open>k\<close>.\<close>

definition multiply_step :: "nat \<Rightarrow> 'e \<Rightarrow> 'e list \<Rightarrow> 'e list \<Rightarrow> ('e :: {plus, times}) list" where
  "multiply_step cols a_ik b_row out_row = map (\<lambda>j. out_row ! j + a_ik * b_row ! j) [0..<cols]"

definition multiply_row :: "nat \<Rightarrow> nat \<Rightarrow> 'e list \<Rightarrow> 'e list list \<Rightarrow> 'e list \<Rightarrow> ('e :: {plus, times}) list" where
  "multiply_row inner cols a_row b out_row =
     fold (\<lambda>k. multiply_step cols (a_row ! k) (b ! k)) [0..<inner] out_row"

definition matrix_multiply_method ::
  "('e :: {zero, plus, times}) matrix_impl option \<Rightarrow> 'e matrix_impl option \<Rightarrow> 'w world \<Rightarrow> 'e matrix_impl option \<times> 'w world" where
  "matrix_multiply_method self other w =
     (case (self, other) of (Some lhs, Some rhs) \<Rightarrow>
      (if m_cols lhs \<noteq> m_rows rhs then (None, w)
      else
       (case create_matrix (m_rows lhs) (m_cols rhs) w of
          (None, w) \<Rightarrow> (None, w)
        | (Some out, w) \<Rightarrow>
           (Some (out\<lparr>m_data := map (\<lambda>i. multiply_row (nat (m_cols lhs)) (nat (m_cols rhs)) (m_data lhs ! i) (m_data rhs) (m_data out ! i))
                        [0..<nat (m_rows lhs)]\<rparr>), w)))
      | _ \<Rightarrow> (None, w))"

section \<open>Strassen's product\<close>

definition STRASSEN_THRESHOLD :: nat where "STRASSEN_THRESHOLD = 64"

text \<open>\<open>while (p < n) p *= 2;\<close> in \<open>int\<close>; \<open>None\<close> when it never ends.\<close>

definition strassen_next_power_of_two :: "int \<Rightarrow> int option" where
  "strassen_next_power_of_two n = while_option (\<lambda>p. p < n) (\<lambda>p. wrap_int (p * 2)) 1"

definition strassen_alloc_block :: "nat \<Rightarrow> 'w world \<Rightarrow> bool \<times> 'w world" where
  "strassen_alloc_block n w =
     (case malloc (n * 8) w of
        (False, w) \<Rightarrow> (False, w)
      | (True, w) \<Rightarrow> malloc (n * n * 8) w)"

text \<open>All the blocks are requested before the first result is looked at.\<close>

fun alloc_blocks :: "nat \<Rightarrow> nat \<Rightarrow> 'w world \<Rightarrow> bool \<times> 'w world" where
  "alloc_blocks 0 n w = (True, w)"
| "alloc_blocks (Suc k) n w =
     (case strassen_alloc_block n w of (ok1, w) \<Rightarrow> case alloc_blocks k n w of (ok2, w) \<Rightarrow> (ok1 \<and> ok2, w))"

definition strassen_add_block :: "'e list list \<Rightarrow> 'e list list \<Rightarrow> nat \<Rightarrow> ('e :: plus) list list" where
  "strassen_add_block a b n = elementwise (+) n n a b"

definition strassen_sub_block :: "'e list list \<Rightarrow> 'e list list \<Rightarrow> nat \<Rightarrow> ('e :: minus) list list" where
  "strassen_sub_block a b n = elementwise (-) n n a b"

definition strassen_naive_block :: "'e list list \<Rightarrow> 'e list list \<Rightarrow> nat \<Rightarrow> ('e :: {zero, plus, times}) list list" where
  "strassen_naive_block a b n = map (\<lambda>i. multiply_row n n (a ! i) b (replicate n 0)) [0..<n]"

definition quadrant :: "nat \<Rightarrow> nat \<Rightarrow> nat \<Rightarrow> 'e list list \<Rightarrow> 'e list list" where
  "quadrant half di dj a = map (\<lambda>i. map (\<lambda>j. a ! (i + di) ! (j + dj)) [0..<half]) [0..<half]"

text \<open>The four quadrants written from the seven products.\<close>

definition combine_quadrants ::
  "nat \<Rightarrow> 'e list list \<Rightarrow> 'e list list \<Rightarrow> 'e list list \<Rightarrow> 'e list list \<Rightarrow> 'e list list \<Rightarrow> 'e list list \<Rightarrow> 'e list list \<Rightarrow>
     ('e :: {plus, minus}) list list" where
  "combine_quadrants half m1 m2 m3 m4 m5 m6 m7 =
     map (\<lambda>i. map (\<lambda>j. m1 ! i ! j + m4 ! i ! j - m5 ! i ! j + m7 ! i ! j) [0..<half] @
              map (\<lambda>j. m3 ! i ! j + m5 ! i ! j) [0..<half]) [0..<half] @
     map (\<lambda>i. map (\<lambda>j. m2 ! i ! j + m4 ! i ! j) [0..<half] @
              map (\<lambda>j. m1 ! i ! j - m2 ! i ! j + m3 ! i ! j + m6 ! i ! j) [0..<half]) [0..<half]"

text \<open>The result block of a call is written by that call only, so it is the value returned; \<open>None\<close> is
  the code -1.\<close>

function strassen_recurse ::
  "'e list list \<Rightarrow> 'e list list \<Rightarrow> nat \<Rightarrow> 'w world \<Rightarrow> ('e :: {zero, plus, minus, times}) list list option \<times> 'w world" where
  "strassen_recurse a b n w =
     (if n \<le> STRASSEN_THRESHOLD then (Some (strassen_naive_block a b n), w)
      else
       (let half = n div 2 in
        case alloc_blocks 17 half w of
          (False, w) \<Rightarrow> (None, w)
        | (True, w) \<Rightarrow>
           (let a11 = quadrant half 0 0 a; a12 = quadrant half 0 half a;
                a21 = quadrant half half 0 a; a22 = quadrant half half half a;
                b11 = quadrant half 0 0 b; b12 = quadrant half 0 half b;
                b21 = quadrant half half 0 b; b22 = quadrant half half half b
            in case strassen_recurse (strassen_add_block a11 a22 half) (strassen_add_block b11 b22 half) half w of
                 (None, w) \<Rightarrow> (None, w)
               | (Some m1, w) \<Rightarrow>
               (case strassen_recurse (strassen_add_block a21 a22 half) b11 half w of
                  (None, w) \<Rightarrow> (None, w)
                | (Some m2, w) \<Rightarrow>
               (case strassen_recurse a11 (strassen_sub_block b12 b22 half) half w of
                  (None, w) \<Rightarrow> (None, w)
                | (Some m3, w) \<Rightarrow>
               (case strassen_recurse a22 (strassen_sub_block b21 b11 half) half w of
                  (None, w) \<Rightarrow> (None, w)
                | (Some m4, w) \<Rightarrow>
               (case strassen_recurse (strassen_add_block a11 a12 half) b22 half w of
                  (None, w) \<Rightarrow> (None, w)
                | (Some m5, w) \<Rightarrow>
               (case strassen_recurse (strassen_sub_block a21 a11 half) (strassen_add_block b11 b12 half) half w of
                  (None, w) \<Rightarrow> (None, w)
                | (Some m6, w) \<Rightarrow>
               (case strassen_recurse (strassen_sub_block a12 a22 half) (strassen_add_block b21 b22 half) half w of
                  (None, w) \<Rightarrow> (None, w)
                | (Some m7, w) \<Rightarrow> (Some (combine_quadrants half m1 m2 m3 m4 m5 m6 m7), w))))))))))"
  by pat_completeness auto
termination by (relation "measure (\<lambda>(a, b, n, w). n)") (auto simp: STRASSEN_THRESHOLD_def)

declare strassen_recurse.simps [simp del]

text \<open>The rows of a matrix copied to the upper left corner of a block of zeros.\<close>

definition pad_block :: "nat \<Rightarrow> int \<Rightarrow> int \<Rightarrow> 'e list list \<Rightarrow> ('e :: zero) list list" where
  "pad_block n rows cols data =
     map (\<lambda>row. take (nat cols) row @ replicate (n - nat cols) 0) (take (nat rows) data) @ replicate (n - nat rows) (replicate n 0)"

definition max_dimension :: "int \<Rightarrow> int \<Rightarrow> int \<Rightarrow> int" where
  "max_dimension m n p =
     (let max_dim = m; max_dim = (if n > max_dim then n else max_dim) in if p > max_dim then p else max_dim)"

definition matrix_multiply_strassen ::
  "('e :: {zero, plus, minus, times}) matrix_impl option \<Rightarrow> 'e matrix_impl option \<Rightarrow> 'w world \<Rightarrow> ('e matrix_impl option \<times> 'w world) option" where
  "matrix_multiply_strassen self other w =
     (case (self, other) of (Some lhs, Some rhs) \<Rightarrow>
      (if m_cols lhs \<noteq> m_rows rhs then Some (None, w)
      else
       (let orig_m = m_rows lhs; orig_n = m_cols lhs; orig_p = m_cols rhs
        in case strassen_next_power_of_two (max_dimension orig_m orig_n orig_p) of
             None \<Rightarrow> None
           | Some p \<Rightarrow>
              (let n = nat p in
               case alloc_blocks 3 n w of
                 (False, w) \<Rightarrow> Some (None, w)
               | (True, w) \<Rightarrow>
                  (case strassen_recurse (pad_block n orig_m orig_n (m_data lhs)) (pad_block n orig_n orig_p (m_data rhs)) n w of
                     (None, w) \<Rightarrow> Some (None, w)
                   | (Some pc, w) \<Rightarrow>
                      (case create_matrix orig_m orig_p w of
                         (None, w) \<Rightarrow> Some (None, w)
                       | (Some out, w) \<Rightarrow>
                           Some (Some (out\<lparr>m_data := map (take (nat orig_p)) (take (nat orig_m) pc)\<rparr>), w))))))
      | _ \<Rightarrow> Some (None, w))"

section \<open>Elimination\<close>

text \<open>The first row from \<open>k\<close> on, among \<open>n\<close>, whose entry in column \<open>i\<close> is not zero.\<close>

fun find_row :: "('e :: zero) list list \<Rightarrow> nat \<Rightarrow> nat \<Rightarrow> nat \<Rightarrow> nat option" where
  "find_row d i k 0 = None"
| "find_row d i k (Suc n) = (if d ! k ! i \<noteq> 0 then Some k else find_row d i (k + 1) n)"

definition swap_rows :: "'e list list \<Rightarrow> nat \<Rightarrow> nat \<Rightarrow> 'e list list" where
  "swap_rows d i k = d[i := d ! k, k := d ! i]"

definition eliminate_below :: "nat \<Rightarrow> nat \<Rightarrow> nat \<Rightarrow> 'e list list \<Rightarrow> ('e :: field) list list" where
  "eliminate_below n i k d =
     (let factor = d ! k ! i / d ! i ! i in
      d[k := take i (d ! k) @ map (\<lambda>j. d ! k ! j - d ! i ! j * factor) [i..<n]])"

fun determinant_loop :: "nat \<Rightarrow> nat \<Rightarrow> nat \<Rightarrow> 'e list list \<Rightarrow> 'e \<Rightarrow> ('e :: field)" where
  "determinant_loop n i 0 d det = det"
| "determinant_loop n i (Suc m) d det =
     (let next = (\<lambda>d det. let d = fold (eliminate_below n i) [Suc i..<n] d in determinant_loop n (Suc i) m d (det * d ! i ! i))
      in if d ! i ! i = 0
         then (case find_row d i (Suc i) (n - Suc i) of
                 None \<Rightarrow> 0
               | Some k \<Rightarrow> next (swap_rows d i k) (det * - 1))
         else next d det)"

text \<open>The value and what is written to \<open>*error\<close>.\<close>

definition matrix_determinant_method :: "('e :: field) matrix_impl \<Rightarrow> 'w world \<Rightarrow> ('e \<times> int) \<times> 'w world" where
  "matrix_determinant_method impl w =
     (if m_rows impl \<noteq> m_cols impl then ((0, 1), w)
      else
       (case (create_matrix (m_rows impl) (m_rows impl) w :: 'e matrix_impl option \<times> 'w world) of
          (None, w) \<Rightarrow> ((0, 1), w)
        | (Some temp, w) \<Rightarrow>
           (let n = nat (m_rows impl) in
            ((determinant_loop n 0 n (map (take n) (take n (m_data impl))) 1, 0), w))))"

definition eliminate_other :: "nat \<Rightarrow> nat \<Rightarrow> nat \<Rightarrow> 'e list list \<Rightarrow> ('e :: field) list list" where
  "eliminate_other width i k d =
     (if k \<noteq> i then (let factor = d ! k ! i in d[k := map (\<lambda>j. d ! k ! j - factor * d ! i ! j) [0..<width]]) else d)"

definition divide_row :: "nat \<Rightarrow> nat \<Rightarrow> 'e list list \<Rightarrow> ('e :: field) list list" where
  "divide_row width i d = (let pivot = d ! i ! i in d[i := map (\<lambda>j. d ! i ! j / pivot) [0..<width]])"

fun inverse_loop :: "nat \<Rightarrow> nat \<Rightarrow> nat \<Rightarrow> 'e list list \<Rightarrow> ('e :: field) list list option" where
  "inverse_loop n i 0 d = Some d"
| "inverse_loop n i (Suc m) d =
     (case (if d ! i ! i = 0 then map_option (swap_rows d i) (find_row d i (Suc i) (n - Suc i)) else Some d) of
        None \<Rightarrow> None
      | Some d \<Rightarrow> inverse_loop n (Suc i) m (fold (eliminate_other (2 * n) i) [0..<n] (divide_row (2 * n) i d)))"

definition matrix_inverse_method :: "('e :: field) matrix_impl \<Rightarrow> 'w world \<Rightarrow> 'e matrix_impl option \<times> 'w world" where
  "matrix_inverse_method impl w =
     (if m_rows impl \<noteq> m_cols impl then (None, w)
      else
       (case create_matrix (m_rows impl) (m_rows impl) w of (target :: 'e matrix_impl option, w) \<Rightarrow>
        case create_matrix (m_rows impl) (wrap_int (m_rows impl * 2)) w of (aug :: 'e matrix_impl option, w) \<Rightarrow>
          (case (target, aug) of
             (Some out, Some _) \<Rightarrow>
               (let n = nat (m_rows impl);
                    start = map (\<lambda>i. map (\<lambda>j. m_data impl ! i ! j) [0..<n] @ map (\<lambda>j. if i = j then 1 else 0) [0..<n]) [0..<n]
                in case inverse_loop n 0 n start of
                     None \<Rightarrow> (None, w)
                   | Some d \<Rightarrow> (Some (out\<lparr>m_data := map (\<lambda>i. map (\<lambda>j. d ! i ! (j + n)) [0..<n]) [0..<n]\<rparr>), w))
           | _ \<Rightarrow> (None, w))))"

section \<open>Vectors\<close>

record 'e vector_impl =
  v_data :: "'e list"
  v_size :: int

definition create_vector :: "int \<Rightarrow> 'w world \<Rightarrow> ('e :: zero) vector_impl option \<times> 'w world" where
  "create_vector len w =
     (if len \<le> 0 then (None, w)
      else
       (case malloc_struct w of
          (False, w) \<Rightarrow> (None, w)
        | (True, w) \<Rightarrow>
           (case malloc_struct w of
              (False, w) \<Rightarrow> (None, w)
            | (True, w) \<Rightarrow>
               (case malloc (nat len * 8) w of
                  (False, w) \<Rightarrow> (None, w)
                | (True, w) \<Rightarrow> (Some \<lparr>v_data = replicate (nat len) 0, v_size = len\<rparr>, w)))))"

definition vector_get_method :: "('e :: zero) vector_impl option \<Rightarrow> int \<Rightarrow> 'e" where
  "vector_get_method self index =
     (case self of None \<Rightarrow> 0 | Some impl \<Rightarrow> (if index < 0 \<or> index \<ge> v_size impl then 0 else v_data impl ! nat index))"

definition vector_set_method :: "'e vector_impl \<Rightarrow> int \<Rightarrow> 'e \<Rightarrow> int \<times> 'e vector_impl" where
  "vector_set_method impl index value =
     (if index < 0 \<or> index \<ge> v_size impl then (-1, impl) else (0, impl\<lparr>v_data := (v_data impl)[nat index := value]\<rparr>))"

definition vector_size_method :: "'e vector_impl option \<Rightarrow> int" where
  "vector_size_method self = (case self of None \<Rightarrow> 0 | Some impl \<Rightarrow> v_size impl)"

definition vector_resize_method :: "('e :: zero) vector_impl \<Rightarrow> int \<Rightarrow> 'w world \<Rightarrow> int \<times> 'e vector_impl \<times> 'w world" where
  "vector_resize_method impl new_size w =
     (if new_size \<le> 0 then (-1, impl, w)
      else
       (case malloc (nat new_size * 8) w of
          (False, w) \<Rightarrow> (-1, impl, w)
        | (True, w) \<Rightarrow>
            (0, impl\<lparr>v_data := take (nat new_size) (v_data impl) @ replicate (nat new_size - nat (v_size impl)) 0,
                     v_size := new_size\<rparr>, w)))"

definition vector_copy_method :: "('e :: zero) vector_impl \<Rightarrow> 'w world \<Rightarrow> 'e vector_impl option \<times> 'w world" where
  "vector_copy_method impl w =
     (case create_vector (v_size impl) w of
        (None, w) \<Rightarrow> (None, w)
      | (Some out, w) \<Rightarrow> (Some (out\<lparr>v_data := take (nat (v_size impl)) (v_data impl)\<rparr>), w))"

definition vector_combine ::
  "('e \<Rightarrow> 'e \<Rightarrow> 'e) \<Rightarrow> ('e :: zero) vector_impl option \<Rightarrow> 'e vector_impl option \<Rightarrow> 'w world \<Rightarrow> 'e vector_impl option \<times> 'w world" where
  "vector_combine f a b w =
     (case (a, b) of (Some va, Some vb) \<Rightarrow>
      (if v_size va \<noteq> v_size vb then (None, w)
      else
       (case create_vector (v_size va) w of
          (None, w) \<Rightarrow> (None, w)
        | (Some out, w) \<Rightarrow> (Some (out\<lparr>v_data := map (\<lambda>i. f (v_data va ! i) (v_data vb ! i)) [0..<nat (v_size va)]\<rparr>), w)))
      | _ \<Rightarrow> (None, w))"

definition vector_add_simd ::
  "('e :: {zero, plus}) vector_impl option \<Rightarrow> 'e vector_impl option \<Rightarrow> 'w world \<Rightarrow> 'e vector_impl option \<times> 'w world" where
  "vector_add_simd a b w = vector_combine (+) a b w"

definition vector_subtract_simd ::
  "('e :: {zero, minus}) vector_impl option \<Rightarrow> 'e vector_impl option \<Rightarrow> 'w world \<Rightarrow> 'e vector_impl option \<times> 'w world" where
  "vector_subtract_simd a b w = vector_combine (-) a b w"

definition vector_dot_product_simd :: "('e :: {zero, plus, times}) vector_impl option \<Rightarrow> 'e vector_impl option \<Rightarrow> 'e" where
  "vector_dot_product_simd a b =
     (case (a, b) of (Some va, Some vb) \<Rightarrow>
        (if v_size va \<noteq> v_size vb then 0
         else fold (\<lambda>i sum. sum + v_data va ! i * v_data vb ! i) [0..<nat (v_size va)] 0)
      | _ \<Rightarrow> 0)"

definition vector_scale_simd :: "('e :: {zero, times}) vector_impl option \<Rightarrow> 'e \<Rightarrow> 'w world \<Rightarrow> 'e vector_impl option \<times> 'w world" where
  "vector_scale_simd v scalar w =
     (case v of
        None \<Rightarrow> (None, w)
      | Some vi \<Rightarrow>
         (case create_vector (v_size vi) w of
            (None, w) \<Rightarrow> (None, w)
          | (Some out, w) \<Rightarrow> (Some (out\<lparr>v_data := map (\<lambda>i. v_data vi ! i * scalar) [0..<nat (v_size vi)]\<rparr>), w)))"

section \<open>Shapes\<close>

definition block :: "nat \<Rightarrow> nat \<Rightarrow> 'e list list \<Rightarrow> bool" where
  "block rows cols d \<longleftrightarrow> length d = rows \<and> (\<forall>i < rows. length (d ! i) = cols)"

definition matrix_ok :: "'e matrix_impl \<Rightarrow> bool" where
  "matrix_ok m \<longleftrightarrow> 0 < m_rows m \<and> m_rows m \<le> int INT_MAX \<and> 0 < m_cols m \<and> m_cols m \<le> int INT_MAX \<and>
     block (nat (m_rows m)) (nat (m_cols m)) (m_data m)"

lemma block_build [simp]: "block rows cols (map (\<lambda>i. map (f i) [0..<cols]) [0..<rows])"
  by (simp add: block_def)

lemma block_eqI:
  assumes "block rows cols a" "block rows cols b" "\<And>i j. i < rows \<Longrightarrow> j < cols \<Longrightarrow> a ! i ! j = b ! i ! j"
  shows "a = b"
  using assms by (intro nth_equalityI) (auto simp: block_def intro!: nth_equalityI)

lemma create_matrix_cases:
  assumes "create_matrix rows cols w = (Some m, w')"
  shows "m = \<lparr>m_data = replicate (nat rows) (replicate (nat cols) 0), m_rows = rows, m_cols = cols\<rparr>" "0 < rows" "0 < cols"
    "nat rows * nat cols * 8 \<le> PTRDIFF_MAX"
proof -
  have big: "malloc n v = (True, v') \<Longrightarrow> n \<le> PTRDIFF_MAX" for n and v v' :: "'b world"
    using malloc_too_big [of n v] by fastforce
  show "m = \<lparr>m_data = replicate (nat rows) (replicate (nat cols) 0), m_rows = rows, m_cols = cols\<rparr>" "0 < rows" "0 < cols"
    "nat rows * nat cols * 8 \<le> PTRDIFF_MAX"
    using assms big by (auto simp: create_matrix_def split: if_splits prod.splits bool.splits)
qed

lemma create_matrix_ready:
  assumes "alloc_fails w = []" "0 < rows" "0 < cols" "nat rows * nat cols * 8 \<le> PTRDIFF_MAX"
  shows "create_matrix rows cols w = (Some \<lparr>m_data = replicate (nat rows) (replicate (nat cols) 0), m_rows = rows, m_cols = cols\<rparr>, w)"
proof -
  have "1 \<le> nat cols" using assms(3) by simp
  then have "nat rows * 1 * 8 \<le> nat rows * nat cols * 8" by (intro mult_le_mono1 mult_le_mono2)
  then have "nat rows * 8 \<le> PTRDIFF_MAX" using assms(4) by linarith
  moreover have "malloc_struct w = (True, w)" using assms(1) by (simp add: malloc_struct_def malloc_no_failures PTRDIFF_MAX_def)
  ultimately show ?thesis using assms by (simp add: create_matrix_def malloc_no_failures)
qed

lemma transpose_entries:
  assumes "matrix_ok m" "matrix_transpose_method m w = (Some t, w')"
  shows "matrix_ok t \<and> m_rows t = m_cols m \<and> m_cols t = m_rows m \<and>
    (\<forall>i j. matrix_get_method (Some t) j i = matrix_get_method (Some m) i j)"
proof -
  obtain out where C: "create_matrix (m_cols m) (m_rows m) w = (Some out, w')"
    "t = out\<lparr>m_data := map (\<lambda>j. map (\<lambda>i. m_data m ! i ! j) [0..<nat (m_rows m)]) [0..<nat (m_cols m)]\<rparr>"
    using assms(2) by (auto simp: matrix_transpose_method_def split: prod.splits option.splits)
  have shape: "m_rows t = m_cols m" "m_cols t = m_rows m"
    "m_data t = map (\<lambda>j. map (\<lambda>i. m_data m ! i ! j) [0..<nat (m_rows m)]) [0..<nat (m_cols m)]"
    using C(2) create_matrix_cases(1) [OF C(1)] by simp_all
  then have "matrix_ok t" using assms(1) by (simp add: matrix_ok_def)
  moreover have "matrix_get_method (Some t) j i = matrix_get_method (Some m) i j" for i j
    by (auto simp: matrix_get_method_def shape nat_less_iff)
  ultimately show ?thesis using shape by blast
qed

lemma matrix_eqI:
  assumes "matrix_ok a" "matrix_ok b" "m_rows a = m_rows b" "m_cols a = m_cols b"
    "\<And>i j. matrix_get_method (Some a) i j = matrix_get_method (Some b) i j"
  shows "a = b"
proof -
  have "m_data a = m_data b"
  proof (rule block_eqI)
    show "block (nat (m_rows a)) (nat (m_cols a)) (m_data a)" using assms(1) by (simp add: matrix_ok_def)
    show "block (nat (m_rows a)) (nat (m_cols a)) (m_data b)" using assms(2,3,4) by (simp add: matrix_ok_def)
    fix i j
    assume "i < nat (m_rows a)" "j < nat (m_cols a)"
    then show "m_data a ! i ! j = m_data b ! i ! j" using assms(3,4) assms(5) [of "int i" "int j"] by (simp add: matrix_get_method_def zless_nat_eq_int_zless)
  qed
  then show ?thesis using assms(3,4) by simp
qed

section \<open>Products\<close>

definition product_entry :: "nat \<Rightarrow> 'e list list \<Rightarrow> 'e list list \<Rightarrow> nat \<Rightarrow> nat \<Rightarrow> ('e :: semiring_0)" where
  "product_entry n a b i j = (\<Sum>k<n. a ! i ! k * b ! k ! j)"

lemma multiply_row_length: "length out_row = cols \<Longrightarrow> length (multiply_row inner cols a_row b out_row) = cols"
  by (induction inner) (simp_all add: multiply_row_def multiply_step_def)

lemma multiply_row_nth:
  "length out_row = cols \<Longrightarrow> j < cols \<Longrightarrow>
     multiply_row inner cols a_row b out_row ! j = out_row ! j + (\<Sum>k<inner. a_row ! k * b ! k ! j :: 'e :: semiring_0)"
proof (induction inner)
  case (Suc inner)
  have "multiply_row (Suc inner) cols a_row b out_row = multiply_step cols (a_row ! inner) (b ! inner) (multiply_row inner cols a_row b out_row)"
    by (simp add: multiply_row_def)
  then show ?case using Suc by (simp add: multiply_step_def add.assoc)
qed (simp add: multiply_row_def)

lemma naive_block_entries:
  "block n n (strassen_naive_block a b n) \<and>
   (\<forall>i < n. \<forall>j < n. strassen_naive_block a b n ! i ! j = (product_entry n a b i j :: 'e :: semiring_0))"
  by (simp add: block_def strassen_naive_block_def multiply_row_length multiply_row_nth product_entry_def)

lemma sum_halves: "(\<Sum>k<2 * (h :: nat). f k) = (\<Sum>k<h. f k) + (\<Sum>k<h. f (k + h) :: 'e :: comm_monoid_add)"
proof -
  have "(\<Sum>k<h + h. f k) = (\<Sum>k<h. f k) + (\<Sum>k\<in>{h..<h + h}. f k)"
    using sum.atLeastLessThan_concat [where m = 0 and n = h and p = "h + h" and g = f] by (simp add: atLeast0LessThan)
  also have "(\<Sum>k\<in>{h..<h + h}. f k) = (\<Sum>k<h. f (k + h))"
    using sum.shift_bounds_nat_ivl [of f 0 h h] by (simp add: atLeast0LessThan)
  finally show ?thesis by (simp add: mult_2)
qed

text \<open>The seven products give the four quadrants of the product.\<close>

lemma combine_entries:
  fixes a b :: "('e :: ring) list list"
  assumes m: "\<And>i j. i < h \<Longrightarrow> j < h \<Longrightarrow>
      m1 ! i ! j = (\<Sum>k<h. (a ! i ! k + a ! (i + h) ! (k + h)) * (b ! k ! j + b ! (k + h) ! (j + h))) \<and>
      m2 ! i ! j = (\<Sum>k<h. (a ! (i + h) ! k + a ! (i + h) ! (k + h)) * b ! k ! j) \<and>
      m3 ! i ! j = (\<Sum>k<h. a ! i ! k * (b ! k ! (j + h) - b ! (k + h) ! (j + h))) \<and>
      m4 ! i ! j = (\<Sum>k<h. a ! (i + h) ! (k + h) * (b ! (k + h) ! j - b ! k ! j)) \<and>
      m5 ! i ! j = (\<Sum>k<h. (a ! i ! k + a ! i ! (k + h)) * b ! (k + h) ! (j + h)) \<and>
      m6 ! i ! j = (\<Sum>k<h. (a ! (i + h) ! k - a ! i ! k) * (b ! k ! j + b ! k ! (j + h))) \<and>
      m7 ! i ! j = (\<Sum>k<h. (a ! i ! (k + h) - a ! (i + h) ! (k + h)) * (b ! (k + h) ! j + b ! (k + h) ! (j + h)))"
    and ij: "i < 2 * h" "j < 2 * h"
  shows "combine_quadrants h m1 m2 m3 m4 m5 m6 m7 ! i ! j = product_entry (2 * h) a b i j"
proof -
  have quarters: "combine_quadrants h m1 m2 m3 m4 m5 m6 m7 ! i' ! j' = m1 ! i' ! j' + m4 ! i' ! j' - m5 ! i' ! j' + m7 ! i' ! j'"
    "combine_quadrants h m1 m2 m3 m4 m5 m6 m7 ! i' ! (j' + h) = m3 ! i' ! j' + m5 ! i' ! j'"
    "combine_quadrants h m1 m2 m3 m4 m5 m6 m7 ! (i' + h) ! j' = m2 ! i' ! j' + m4 ! i' ! j'"
    "combine_quadrants h m1 m2 m3 m4 m5 m6 m7 ! (i' + h) ! (j' + h) = m1 ! i' ! j' - m2 ! i' ! j' + m3 ! i' ! j' + m6 ! i' ! j'"
    if "i' < h" "j' < h" for i' j'
    using that by (simp_all add: combine_quadrants_def nth_append)
  have upper: "combine_quadrants h m1 m2 m3 m4 m5 m6 m7 ! i' ! j' = product_entry (2 * h) a b i' j' \<and>
      combine_quadrants h m1 m2 m3 m4 m5 m6 m7 ! i' ! (j' + h) = product_entry (2 * h) a b i' (j' + h) \<and>
      combine_quadrants h m1 m2 m3 m4 m5 m6 m7 ! (i' + h) ! j' = product_entry (2 * h) a b (i' + h) j' \<and>
      combine_quadrants h m1 m2 m3 m4 m5 m6 m7 ! (i' + h) ! (j' + h) = product_entry (2 * h) a b (i' + h) (j' + h)"
    if "i' < h" "j' < h" for i' j'
    unfolding quarters [OF that] product_entry_def sum_halves
    using m [OF that] by (simp add: sum.distrib [symmetric] sum_subtractf [symmetric] algebra_simps)
  show ?thesis
  proof (cases "i < h"; cases "j < h")
    assume "i < h" "j < h"
    then show ?thesis using upper by blast
  next
    assume "i < h" "\<not> j < h"
    then show ?thesis using upper [of i "j - h"] ij by simp
  next
    assume "\<not> i < h" "j < h"
    then show ?thesis using upper [of "i - h" j] ij by simp
  next
    assume "\<not> i < h" "\<not> j < h"
    then show ?thesis using upper [of "i - h" "j - h"] ij by simp
  qed
qed

lemma combine_block: "block (2 * h) (2 * h) (combine_quadrants h m1 m2 m3 m4 m5 m6 m7)"
  by (auto simp: block_def combine_quadrants_def nth_append)

lemma add_sub_entries:
  "i < n \<Longrightarrow> j < n \<Longrightarrow> strassen_add_block a b n ! i ! j = a ! i ! j + b ! i ! j"
  "i < n \<Longrightarrow> j < n \<Longrightarrow> strassen_sub_block c d n ! i ! j = c ! i ! j - d ! i ! j"
  "i < n \<Longrightarrow> j < n \<Longrightarrow> quadrant n di dj e ! i ! j = e ! (i + di) ! (j + dj)"
  by (simp_all add: strassen_add_block_def strassen_sub_block_def elementwise_def quadrant_def)

lemmas block_entries = add_sub_entries product_entry_def

text \<open>Whatever the allocator does, a result is the product.\<close>

lemma strassen_recurse_product:
  fixes a b :: "('e :: ring) list list" and w w' :: "'w world"
  shows "strassen_recurse a b (2 ^ k) w = (Some c, w') \<Longrightarrow>
    block (2 ^ k) (2 ^ k) c \<and> (\<forall>i < 2 ^ k. \<forall>j < 2 ^ k. c ! i ! j = product_entry (2 ^ k) a b i j)"
proof (induction k arbitrary: a b w c w')
  case 0
  have "strassen_recurse a b (2 ^ 0) w = (Some (strassen_naive_block a b 1), w)"
    by (subst strassen_recurse.simps) (simp add: STRASSEN_THRESHOLD_def)
  then have "c = strassen_naive_block a b 1" using 0 by simp
  then show ?case using naive_block_entries [of 1 a b] by simp
next
  case (Suc k)
  let ?h = "2 ^ k :: nat"
  show ?case
  proof (cases "2 ^ Suc k \<le> STRASSEN_THRESHOLD")
    case True
    then have "c = strassen_naive_block a b (2 ^ Suc k)" using Suc.prems by (simp add: strassen_recurse.simps [of a b])
    then show ?thesis using naive_block_entries [of "2 ^ Suc k" a b] by simp
  next
    case False
    have half: "2 ^ Suc k div 2 = ?h" by simp
    let ?q = "quadrant ?h"
    let ?a11 = "?q 0 0 a" and ?a12 = "?q 0 ?h a" and ?a21 = "?q ?h 0 a" and ?a22 = "?q ?h ?h a"
    let ?b11 = "?q 0 0 b" and ?b12 = "?q 0 ?h b" and ?b21 = "?q ?h 0 b" and ?b22 = "?q ?h ?h b"
    obtain m1 m2 m3 m4 m5 m6 m7 and w1 w2 w3 w4 w5 w6 w7 w8 :: "'w world" where R:
      "strassen_recurse (strassen_add_block ?a11 ?a22 ?h) (strassen_add_block ?b11 ?b22 ?h) ?h w1 = (Some m1, w2)"
      "strassen_recurse (strassen_add_block ?a21 ?a22 ?h) ?b11 ?h w2 = (Some m2, w3)"
      "strassen_recurse ?a11 (strassen_sub_block ?b12 ?b22 ?h) ?h w3 = (Some m3, w4)"
      "strassen_recurse ?a22 (strassen_sub_block ?b21 ?b11 ?h) ?h w4 = (Some m4, w5)"
      "strassen_recurse (strassen_add_block ?a11 ?a12 ?h) ?b22 ?h w5 = (Some m5, w6)"
      "strassen_recurse (strassen_sub_block ?a21 ?a11 ?h) (strassen_add_block ?b11 ?b12 ?h) ?h w6 = (Some m6, w7)"
      "strassen_recurse (strassen_sub_block ?a12 ?a22 ?h) (strassen_add_block ?b21 ?b22 ?h) ?h w7 = (Some m7, w8)"
      and c: "c = combine_quadrants ?h m1 m2 m3 m4 m5 m6 m7"
    proof -
      show thesis
        using Suc.prems False
        apply (subst (asm) strassen_recurse.simps)
        apply (auto simp only: half Let_def if_False split: prod.splits bool.splits option.splits)
        apply (rule that, assumption+)
        done
    qed
    note M = Suc.IH [OF R(1)] Suc.IH [OF R(2)] Suc.IH [OF R(3)] Suc.IH [OF R(4)] Suc.IH [OF R(5)] Suc.IH [OF R(6)] Suc.IH [OF R(7)]
    have "c ! i ! j = product_entry (2 * ?h) a b i j" if "i < 2 * ?h" "j < 2 * ?h" for i j
      unfolding c by (rule combine_entries [OF _ that]) (use M in \<open>simp add: block_entries\<close>)
    then show ?thesis using combine_block [of ?h m1 m2 m3 m4 m5 m6 m7] unfolding c by simp
  qed
qed

lemma alloc_blocks_ready: "alloc_fails w = [] \<Longrightarrow> n * n * 8 \<le> PTRDIFF_MAX \<Longrightarrow> alloc_blocks k n w = (True, w)"
proof (induction k)
  case (Suc k)
  have "n * 8 \<le> PTRDIFF_MAX" using Suc.prems(2) by (cases n) simp_all
  then show ?case using Suc by (simp add: strassen_alloc_block_def malloc_no_failures)
qed simp

lemma strassen_recurse_ready:
  fixes a b :: "('e :: {zero, plus, minus, times}) list list"
  shows "alloc_fails w = [] \<Longrightarrow> n * n * 8 \<le> PTRDIFF_MAX \<Longrightarrow> \<exists>c. strassen_recurse a b n w = (Some c, w)"
proof (induction n arbitrary: a b rule: less_induct)
  case (less n)
  show ?case
  proof (cases "n \<le> STRASSEN_THRESHOLD")
    case True
    then show ?thesis by (simp add: strassen_recurse.simps)
  next
    case False
    let ?h = "n div 2"
    have h: "?h < n" using False by (simp add: STRASSEN_THRESHOLD_def)
    have "?h * ?h * 8 \<le> n * n * 8" by (intro mult_le_mono1 mult_le_mono) simp_all
    then have fit: "?h * ?h * 8 \<le> PTRDIFF_MAX" using less.prems(2) by simp
    have IH: "\<exists>c. strassen_recurse x y ?h w = (Some c, w)" for x y :: "'e list list" by (rule less.IH [OF h less.prems(1) fit])
    define f where "f x y = the (fst (strassen_recurse x y ?h w))" for x y :: "'e list list"
    have run: "strassen_recurse x y ?h w = (Some (f x y), w)" for x y using IH [of x y] by (auto simp: f_def)
    show ?thesis
      using False alloc_blocks_ready [OF less.prems(1) fit] by (subst strassen_recurse.simps) (simp add: Let_def run)
  qed
qed

lemma next_power:
  assumes "n \<le> 2 ^ 30"
  shows "\<exists>k. strassen_next_power_of_two n = Some (2 ^ k) \<and> k \<le> 30 \<and> n \<le> 2 ^ k \<and> (n \<le> 2 ^ 29 \<longrightarrow> k \<le> 29)"
proof (cases "n \<le> 2 ^ 29")
  case True
  then show ?thesis using doubling_ends [of 0 29 n] by (auto simp: strassen_next_power_of_two_def)
next
  case False
  then show ?thesis using doubling_ends [of 0 30 n] assms by (auto simp: strassen_next_power_of_two_def)
qed

text \<open>Above \<open>2 ^ 30\<close> the doubling overflows and the call does not return.\<close>

lemma strassen_dimension_diverges:
  assumes "m_cols lhs = m_rows rhs" "2 ^ 30 < max_dimension (m_rows lhs) (m_cols lhs) (m_cols rhs)"
  shows "matrix_multiply_strassen (Some lhs) (Some rhs) w = None"
proof -
  have "strassen_next_power_of_two (max_dimension (m_rows lhs) (m_cols lhs) (m_cols rhs)) = None"
    using doubling_diverges [OF _ assms(2), of 0] by (simp add: strassen_next_power_of_two_def)
  then show ?thesis using assms(1) by (simp add: matrix_multiply_strassen_def Let_def)
qed

lemma pad_block_entries:
  assumes "block (nat rows) (nat cols) d" "nat rows \<le> n" "nat cols \<le> n" "i < n" "j < n"
  shows "pad_block n rows cols d ! i ! j = (if i < nat rows \<and> j < nat cols then d ! i ! j else 0)"
  using assms by (auto simp: pad_block_def block_def nth_append)

lemma product_entry_pad:
  fixes a b :: "('e :: ring) list list"
  assumes "block (nat m) (nat p) a" "block (nat p) (nat q) b" "nat m \<le> n" "nat p \<le> n" "nat q \<le> n" "i < nat m" "j < nat q"
  shows "product_entry n (pad_block n m p a) (pad_block n p q b) i j = product_entry (nat p) a b i j"
proof -
  have "product_entry n (pad_block n m p a) (pad_block n p q b) i j = (\<Sum>k<n. if k < nat p then a ! i ! k * b ! k ! j else 0)"
    unfolding product_entry_def using assms by (intro sum.cong) (auto simp: pad_block_entries)
  also have "\<dots> = (\<Sum>k\<in>{..<n} \<inter> {k. k < nat p}. a ! i ! k * b ! k ! j)"
    by (simp add: sum.If_cases)
  also have "{..<n} \<inter> {k. k < nat p} = {..<nat p}" using assms(4) by auto
  finally show ?thesis by (simp add: product_entry_def)
qed

lemma multiply_entries:
  fixes lhs rhs :: "('e :: semiring_0) matrix_impl"
  assumes "matrix_ok lhs" "matrix_ok rhs" "matrix_multiply_method (Some lhs) (Some rhs) w = (Some out, w')"
  shows "matrix_ok out \<and> m_rows out = m_rows lhs \<and> m_cols out = m_cols rhs \<and>
    (\<forall>i < nat (m_rows lhs). \<forall>j < nat (m_cols rhs). m_data out ! i ! j = product_entry (nat (m_cols lhs)) (m_data lhs) (m_data rhs) i j)"
proof -
  obtain z where C: "create_matrix (m_rows lhs) (m_cols rhs) w = (Some z, w')"
    "out = z\<lparr>m_data := map (\<lambda>i. multiply_row (nat (m_cols lhs)) (nat (m_cols rhs)) (m_data lhs ! i) (m_data rhs) (m_data z ! i)) [0..<nat (m_rows lhs)]\<rparr>"
    using assms(3) by (auto simp: matrix_multiply_method_def split: if_splits prod.splits option.splits)
  note Z = create_matrix_cases(1) [OF C(1)]
  show ?thesis
    using assms(1,2) by (auto simp: matrix_ok_def block_def C(2) Z multiply_row_length multiply_row_nth product_entry_def)
qed

lemma strassen_entries:
  fixes lhs rhs :: "('e :: ring) matrix_impl" and w w' :: "'w world"
  assumes "matrix_ok lhs" "matrix_ok rhs" "matrix_multiply_strassen (Some lhs) (Some rhs) w = Some (Some out, w')"
  shows "matrix_ok out \<and> m_rows out = m_rows lhs \<and> m_cols out = m_cols rhs \<and>
    (\<forall>i < nat (m_rows lhs). \<forall>j < nat (m_cols rhs). m_data out ! i ! j = product_entry (nat (m_cols lhs)) (m_data lhs) (m_data rhs) i j)"
proof -
  let ?m = "m_rows lhs" and ?p = "m_cols lhs" and ?q = "m_cols rhs"
  let ?d = "max_dimension ?m ?p ?q"
  have d: "?m \<le> ?d" "?p \<le> ?d" "?q \<le> ?d" by (auto simp: max_dimension_def Let_def)
  have shape: "?p = m_rows rhs" using assms(3) by (auto simp: matrix_multiply_strassen_def split: if_splits)
  obtain p pc z and w1 w2 :: "'w world" where S: "strassen_next_power_of_two ?d = Some p" "alloc_blocks 3 (nat p) w = (True, w1)"
    "strassen_recurse (pad_block (nat p) ?m ?p (m_data lhs)) (pad_block (nat p) ?p ?q (m_data rhs)) (nat p) w1 = (Some pc, w2)"
    "create_matrix ?m ?q w2 = (Some z, w')" "out = z\<lparr>m_data := map (take (nat ?q)) (take (nat ?m) pc)\<rparr>"
    using assms(3) shape
    by (auto simp: matrix_multiply_strassen_def Let_def split: prod.splits bool.splits option.splits)
  have "?d \<le> 2 ^ 30"
  proof (rule ccontr)
    assume "\<not> ?d \<le> 2 ^ 30"
    then have "strassen_next_power_of_two ?d = None" using doubling_diverges [of 0 ?d] by (simp add: strassen_next_power_of_two_def)
    then show False using S(1) by simp
  qed
  from next_power [OF this] S(1) obtain k where k: "p = 2 ^ k" "?d \<le> 2 ^ k" by auto
  have n: "nat p = 2 ^ k" by (simp add: k(1) nat_power_eq)
  have "nat x \<le> 2 ^ k" if "x \<le> ?d" for x
  proof -
    have "x \<le> 2 ^ k" using that k(2) by linarith
    then show ?thesis by (simp add: nat_le_iff)
  qed
  then have le: "nat ?m \<le> 2 ^ k" "nat ?p \<le> 2 ^ k" "nat ?q \<le> 2 ^ k" using d by blast+
  have ok: "block (nat ?m) (nat ?p) (m_data lhs)" "block (nat ?p) (nat ?q) (m_data rhs)"
    using assms(1,2) shape by (simp_all add: matrix_ok_def)
  from strassen_recurse_product [OF S(3) [unfolded n]] have pc: "block (2 ^ k) (2 ^ k) pc"
    "\<And>i j. i < 2 ^ k \<Longrightarrow> j < 2 ^ k \<Longrightarrow> pc ! i ! j = product_entry (2 ^ k) (pad_block (2 ^ k) ?m ?p (m_data lhs)) (pad_block (2 ^ k) ?p ?q (m_data rhs)) i j"
    by blast+
  note Z = create_matrix_cases(1) [OF S(4)]
  have data: "m_data out = map (take (nat ?q)) (take (nat ?m) pc)" "m_rows out = ?m" "m_cols out = ?q" by (simp_all add: S(5) Z)
  have "length (pc ! i) = 2 ^ k" if "i < nat ?m" for i using that pc(1) le(1) unfolding block_def by (meson less_le_trans)
  then have "block (nat ?m) (nat ?q) (m_data out)" using pc(1) le(1,3) by (simp add: block_def data)
  moreover have "m_data out ! i ! j = product_entry (nat ?p) (m_data lhs) (m_data rhs) i j" if "i < nat ?m" "j < nat ?q" for i j
  proof -
    have "i < 2 ^ k" "j < 2 ^ k" using that le(1,3) less_le_trans by blast+
    moreover have "i < length pc" using \<open>i < 2 ^ k\<close> pc(1) by (simp add: block_def)
    ultimately have "m_data out ! i ! j = pc ! i ! j" using that by (simp add: data)
    then show ?thesis using pc(2) [of i j] product_entry_pad [OF ok le that] \<open>i < 2 ^ k\<close> \<open>j < 2 ^ k\<close> by simp
  qed
  ultimately show ?thesis using assms(1,2) data by (simp add: matrix_ok_def)
qed

section \<open>Properties\<close>

text \<open>C32: transposing a matrix moves every entry to its mirrored place and transposing it again gives
  the matrix back, under every allocator that grants both requests and for entries of any kind.\<close>

theorem matrix_transpose_round_trip:
  assumes "matrix_ok m" "matrix_transpose_method m w = (Some t, w1)" "matrix_transpose_method t w1 = (Some u, w2)"
  shows "u = m \<and> matrix_rows_method (Some t) = matrix_cols_method (Some m) \<and>
    matrix_cols_method (Some t) = matrix_rows_method (Some m) \<and>
    matrix_get_method (Some t) j i = matrix_get_method (Some m) i j"
proof -
  note T = transpose_entries [OF assms(1,2)]
  then have "matrix_ok t" by blast
  note U = transpose_entries [OF this assms(3)]
  have "u = m" by (rule matrix_eqI) (use T U assms(1) in auto)
  then show ?thesis using T by (simp add: matrix_rows_method_def matrix_cols_method_def)
qed

theorem matrix_transpose_round_trip_witness:
  "\<exists>t w1 u w2. matrix_transpose_method \<lparr>m_data = [[1, 2, 3], [4, 5, 6 :: nat]], m_rows = 2, m_cols = 3\<rparr> (fresh_world :: nat world) = (Some t, w1) \<and>
    matrix_transpose_method t w1 = (Some u, w2) \<and> u = \<lparr>m_data = [[1, 2, 3], [4, 5, 6 :: nat]], m_rows = 2, m_cols = 3\<rparr> \<and>
    matrix_get_method (Some t) 2 1 = 6"
proof -
  let ?m = "\<lparr>m_data = [[1, 2, 3], [4, 5, 6 :: nat]], m_rows = 2, m_cols = 3\<rparr>"
  have ok: "matrix_ok ?m" by (auto simp: matrix_ok_def block_def INT_MAX_def less_Suc_eq numeral_2_eq_2)
  have fit: "alloc_fails (fresh_world :: nat world) = []" "nat 3 * nat 2 * 8 \<le> PTRDIFF_MAX" "nat 2 * nat 3 * 8 \<le> PTRDIFF_MAX"
    by (simp_all add: PTRDIFF_MAX_def)
  have C: "create_matrix 3 2 (fresh_world :: nat world) = (Some (\<lparr>m_data = replicate 3 (replicate 2 0), m_rows = 3, m_cols = 2\<rparr> :: nat matrix_impl), fresh_world)"
    "create_matrix 2 3 (fresh_world :: nat world) = (Some (\<lparr>m_data = replicate 2 (replicate 3 0), m_rows = 2, m_cols = 3\<rparr> :: nat matrix_impl), fresh_world)"
    using create_matrix_ready [OF fit(1) _ _ fit(2), where 'b = nat] create_matrix_ready [OF fit(1) _ _ fit(3), where 'b = nat] by simp_all
  obtain t where T: "matrix_transpose_method ?m (fresh_world :: nat world) = (Some t, fresh_world)"
    using C(1) by (simp add: matrix_transpose_method_def)
  then have t: "m_rows t = 3" "m_cols t = 2" using transpose_entries [OF ok T] by simp_all
  obtain u where U: "matrix_transpose_method t (fresh_world :: nat world) = (Some u, fresh_world)"
    using C(2) by (simp add: matrix_transpose_method_def t)
  have "matrix_get_method (Some ?m) 1 2 = 6" by (simp add: matrix_get_method_def)
  with matrix_transpose_round_trip [OF ok T U, of 2 1] T U show ?thesis by metis
qed

text \<open>C30: Strassen's product is the product: whenever the recursive product over padded blocks
  returns a matrix, it is the one the triple loop returns, in any arithmetic without rounding, and
  it does return one when memory is granted and no dimension is above \<open>2 ^ 29\<close>.\<close>

theorem strassen_equals_product:
  fixes lhs rhs :: "('e :: ring) matrix_impl"
  assumes "matrix_ok lhs" "matrix_ok rhs" "m_cols lhs = m_rows rhs" "alloc_fails w = []"
    "m_rows lhs \<le> 2 ^ 29" "m_cols lhs \<le> 2 ^ 29" "m_cols rhs \<le> 2 ^ 29"
  shows "\<exists>out. matrix_multiply_strassen (Some lhs) (Some rhs) w = Some (Some out, w) \<and> matrix_multiply_method (Some lhs) (Some rhs) w = (Some out, w)"
proof -
  let ?m = "m_rows lhs" and ?p = "m_cols lhs" and ?q = "m_cols rhs"
  let ?d = "max_dimension ?m ?p ?q"
  have pos: "0 < ?m" "0 < ?q" using assms(1,2) by (simp_all add: matrix_ok_def)
  have "?d \<le> 2 ^ 29" using assms(5-7) by (auto simp: max_dimension_def Let_def)
  then obtain k where k: "strassen_next_power_of_two ?d = Some (2 ^ k)" "k \<le> 29" using next_power [of ?d] by auto
  have n: "nat (2 ^ k :: int) = 2 ^ k" by (simp add: nat_power_eq)
  have fits: "a * b * 8 \<le> PTRDIFF_MAX" if "a \<le> 2 ^ 29" "b \<le> 2 ^ 29" for a b :: nat
  proof -
    have "a * b \<le> 2 ^ 29 * 2 ^ 29" using that by (rule mult_le_mono)
    then show ?thesis by (simp add: PTRDIFF_MAX_def)
  qed
  have "(2 :: nat) ^ k \<le> 2 ^ 29" using k(2) by (intro power_increasing) simp_all
  then have fit: "2 ^ k * 2 ^ k * 8 \<le> PTRDIFF_MAX" by (intro fits)
  have "nat ?m * nat ?q * 8 \<le> PTRDIFF_MAX" using assms(5,7) by (intro fits) (simp_all add: nat_le_iff)
  then have Z: "create_matrix ?m ?q w = (Some (\<lparr>m_data = replicate (nat ?m) (replicate (nat ?q) 0), m_rows = ?m, m_cols = ?q\<rparr> :: 'e matrix_impl), w)"
    by (rule create_matrix_ready [OF assms(4) pos])
  obtain pc where "strassen_recurse (pad_block (2 ^ k) ?m ?p (m_data lhs)) (pad_block (2 ^ k) ?p ?q (m_data rhs)) (2 ^ k) w = (Some pc, w)"
    using strassen_recurse_ready [OF assms(4) fit] by blast
  then obtain out where S: "matrix_multiply_strassen (Some lhs) (Some rhs) w = Some (Some out, w)"
    using k(1) Z alloc_blocks_ready [OF assms(4) fit, of 3] assms(3)
    unfolding matrix_multiply_strassen_def Let_def by (simp add: n)
  obtain out' where P: "matrix_multiply_method (Some lhs) (Some rhs) w = (Some out', w)" using Z assms(3) by (simp add: matrix_multiply_method_def)
  have "out = out'"
  proof (rule matrix_eqI)
    note A = strassen_entries [OF assms(1,2) S] and B = multiply_entries [OF assms(1,2) P]
    show "matrix_ok out" "matrix_ok out'" "m_rows out = m_rows out'" "m_cols out = m_cols out'" using A B by simp_all
    show "matrix_get_method (Some out) i j = matrix_get_method (Some out') i j" for i j
      using A B by (auto simp: matrix_get_method_def)
  qed
  then show ?thesis using S P by blast
qed

theorem strassen_equals_product_witness:
  "matrix_multiply_strassen (Some \<lparr>m_data = [[3 :: int]], m_rows = 1, m_cols = 1\<rparr>) (Some \<lparr>m_data = [[4]], m_rows = 1, m_cols = 1\<rparr>) (fresh_world :: nat world) =
     Some (Some \<lparr>m_data = [[12]], m_rows = 1, m_cols = 1\<rparr>, fresh_world)"
proof -
  let ?a = "\<lparr>m_data = [[3 :: int]], m_rows = 1, m_cols = 1\<rparr>" and ?b = "\<lparr>m_data = [[4 :: int]], m_rows = 1, m_cols = 1\<rparr>"
  have ok: "matrix_ok ?a" "matrix_ok ?b" by (simp_all add: matrix_ok_def block_def INT_MAX_def)
  have "create_matrix 1 1 (fresh_world :: nat world) = (Some (\<lparr>m_data = [[0]], m_rows = 1, m_cols = 1\<rparr> :: int matrix_impl), fresh_world)"
    by (rule trans, rule create_matrix_ready) (simp_all add: PTRDIFF_MAX_def)
  then have "matrix_multiply_method (Some ?a) (Some ?b) (fresh_world :: nat world) = (Some \<lparr>m_data = [[12]], m_rows = 1, m_cols = 1\<rparr>, fresh_world)"
    by (simp add: matrix_multiply_method_def multiply_row_def multiply_step_def)
  moreover have "\<exists>out. matrix_multiply_strassen (Some ?a) (Some ?b) (fresh_world :: nat world) = Some (Some out, fresh_world) \<and>
      matrix_multiply_method (Some ?a) (Some ?b) (fresh_world :: nat world) = (Some out, fresh_world)"
    by (rule strassen_equals_product [OF ok]) simp_all
  ultimately show ?thesis by auto
qed

section \<open>Elimination is reversible\<close>

lemma find_row_Some: "find_row d i k m = Some r \<Longrightarrow> k \<le> r \<and> r < k + m \<and> d ! r ! i \<noteq> 0"
  by (induction m arbitrary: k) (force split: if_splits)+

lemma find_row_cong: "(\<And>r. k \<le> r \<Longrightarrow> r < k + m \<Longrightarrow> d ! r ! i = e ! r ! i) \<Longrightarrow> find_row d i k m = find_row e i k m"
  by (induction m arbitrary: k) auto

lemma swap_rows_nth:
  "i < length d \<Longrightarrow> k < length d \<Longrightarrow> r < length d \<Longrightarrow> swap_rows d i k ! r = d ! (if r = i then k else if r = k then i else r)"
  by (auto simp: swap_rows_def nth_list_update)

lemma fold_eliminate_below:
  assumes "length d = n" "i < n"
  shows "m \<le> n \<Longrightarrow> length (fold (eliminate_below n i) [Suc i..<m] d) = n \<and>
    (\<forall>r < n. fold (eliminate_below n i) [Suc i..<m] d ! r =
       (if i < r \<and> r < m then take i (d ! r) @ map (\<lambda>j. d ! r ! j - d ! i ! j * (d ! r ! i / d ! i ! i)) [i..<n] else d ! r))"
proof (induction m)
  case (Suc m)
  show ?case
  proof (cases "Suc i \<le> m")
    case True
    let ?e = "fold (eliminate_below n i) [Suc i..<m] d"
    have "fold (eliminate_below n i) [Suc i..<Suc m] d = eliminate_below n i m ?e" using True by simp
    then show ?thesis using Suc True assms by (auto simp: eliminate_below_def Let_def nth_list_update less_Suc_eq)
  next
    case False
    then have "[Suc i..<Suc m] = []" by simp
    then show ?thesis using False assms(1) by auto
  qed
qed (use assms in simp)

lemma fold_eliminate_other:
  assumes "length d = n" "i < n"
  shows "m \<le> n \<Longrightarrow> length (fold (eliminate_other width i) [0..<m] d) = n \<and>
    (\<forall>r < n. fold (eliminate_other width i) [0..<m] d ! r =
       (if r \<noteq> i \<and> r < m then map (\<lambda>j. d ! r ! j - d ! r ! i * d ! i ! j) [0..<width] else d ! r))"
proof (induction m)
  case (Suc m)
  let ?e = "fold (eliminate_other width i) [0..<m] d"
  have "fold (eliminate_other width i) [0..<Suc m] d = eliminate_other width i m ?e" by simp
  then show ?case using Suc assms by (auto simp: eliminate_other_def Let_def nth_list_update less_Suc_eq)
qed (use assms in simp)

text \<open>A row of the augmented matrix whose left half is its right half times the matrix \<open>a\<close>.\<close>

definition row_combines :: "nat \<Rightarrow> ('e :: field) list list \<Rightarrow> 'e list \<Rightarrow> bool" where
  "row_combines n a row \<longleftrightarrow> (\<forall>j < n. row ! j = (\<Sum>k<n. row ! (n + k) * a ! k ! j))"

lemma row_combines_divide: "row_combines n a row \<Longrightarrow> row_combines n a (map (\<lambda>j. row ! j / p) [0..<2 * n])"
  by (simp add: row_combines_def sum_divide_distrib)

lemma row_combines_subtract:
  "row_combines n a row \<Longrightarrow> row_combines n a row' \<Longrightarrow> row_combines n a (map (\<lambda>j. row ! j - f * row' ! j) [0..<2 * n])"
  by (simp add: row_combines_def left_diff_distrib sum_subtractf sum_distrib_left mult.assoc)

definition reduced :: "nat \<Rightarrow> ('e :: field) list list \<Rightarrow> nat \<Rightarrow> 'e list list \<Rightarrow> bool" where
  "reduced n a i d \<longleftrightarrow> length d = n \<and> (\<forall>r < n. row_combines n a (d ! r)) \<and>
     (\<forall>r < n. \<forall>c < i. d ! r ! c = (if r = c then 1 else 0))"

lemma reduced_swap:
  assumes "reduced n a i d" "i \<le> k" "k < n"
  shows "reduced n a i (swap_rows d i k)"
  using assms swap_rows_nth [of i d k] by (auto simp: reduced_def swap_rows_def)

lemma reduced_step:
  assumes d: "reduced n a i d" and i: "i < n" "d ! i ! i \<noteq> 0"
  shows "reduced n a (Suc i) (fold (eliminate_other (2 * n) i) [0..<n] (divide_row (2 * n) i d))"
proof -
  let ?e = "divide_row (2 * n) i d"
  have len: "length ?e = n" using d by (simp add: divide_row_def Let_def reduced_def)
  have e: "?e ! r = (if r = i then map (\<lambda>j. d ! i ! j / d ! i ! i) [0..<2 * n] else d ! r)" if "r < n" for r
    using that d by (simp add: divide_row_def Let_def reduced_def nth_list_update)
  define f where "f = fold (eliminate_other (2 * n) i) [0..<n] ?e"
  have f: "length f = n" "\<And>r. r < n \<Longrightarrow> f ! r = (if r \<noteq> i then map (\<lambda>j. d ! r ! j - d ! r ! i * ?e ! i ! j) [0..<2 * n] else ?e ! i)"
    using fold_eliminate_other [OF len i(1), of n "2 * n"] e by (auto simp: f_def)
  have comb: "row_combines n a (?e ! r)" if "r < n" for r
    using d that row_combines_divide [of n a "d ! i" "d ! i ! i"] i(1) by (auto simp: e reduced_def)
  have "row_combines n a (f ! r)" if "r < n" for r
  proof (cases "r = i")
    case True
    then show ?thesis using f(2) [OF that] comb that by simp
  next
    case False
    then have "row_combines n a (d ! r)" using d that by (simp add: reduced_def)
    from row_combines_subtract [OF this comb [OF i(1)]] show ?thesis using f(2) [OF that] False by simp
  qed
  moreover have "f ! r ! c = (if r = c then 1 else 0)" if "r < n" "c < Suc i" for r c
  proof -
    have low: "d ! i ! c = 0" if "c < i" using d i(1) that by (simp add: reduced_def)
    have row: "?e ! i ! c = (if c = i then 1 else 0)" using that(2) low i by (auto simp: e less_Suc_eq)
    have "d ! r ! c = (if r = c then 1 else 0)" if "c < i" using d \<open>r < n\<close> that by (simp add: reduced_def)
    then show ?thesis using f(2) [OF that(1)] row that i(1) by (auto simp: less_Suc_eq)
  qed
  ultimately show ?thesis using f(1) by (simp add: reduced_def f_def [symmetric])
qed

lemma inverse_loop_reduced:
  "reduced n a i d \<Longrightarrow> i + m = n \<Longrightarrow> inverse_loop n i m d = Some d' \<Longrightarrow> reduced n a n d'"
proof (induction m arbitrary: i d)
  case (Suc m)
  have i: "i < n" using Suc.prems(2) by simp
  obtain e where e: "(if d ! i ! i = 0 then map_option (swap_rows d i) (find_row d i (Suc i) (n - Suc i)) else Some d) = Some e"
    "inverse_loop n (Suc i) m (fold (eliminate_other (2 * n) i) [0..<n] (divide_row (2 * n) i e)) = Some d'"
    using Suc.prems(3) by (auto split: option.splits)
  have "reduced n a i e \<and> e ! i ! i \<noteq> 0"
  proof (cases "d ! i ! i = 0")
    case True
    then obtain k where k: "find_row d i (Suc i) (n - Suc i) = Some k" "e = swap_rows d i k" using e(1) by auto
    then have "i < k" "k < n" "d ! k ! i \<noteq> 0" using find_row_Some [OF k(1)] i by auto
    moreover have "length d = n" using Suc.prems(1) by (simp add: reduced_def)
    ultimately show ?thesis using reduced_swap [OF Suc.prems(1), of k] swap_rows_nth [of i d k i] i k(2) by simp
  next
    case False
    then show ?thesis using e(1) Suc.prems(1) by simp
  qed
  then have "reduced n a (Suc i) (fold (eliminate_other (2 * n) i) [0..<n] (divide_row (2 * n) i e))" using reduced_step i by blast
  from Suc.IH [OF this _ e(2)] Suc.prems(2) show ?case by simp
qed simp

text \<open>Below and right of the pivot the two eliminations go through the same entries.\<close>

lemma determinant_zero_iff:
  fixes t d :: "('e :: field) list list"
  shows "length t = n \<Longrightarrow> length d = n \<Longrightarrow> i + m = n \<Longrightarrow> (\<And>r. r < n \<Longrightarrow> length (t ! r) = n) \<Longrightarrow>
   (\<And>r j. i \<le> r \<Longrightarrow> r < n \<Longrightarrow> i \<le> j \<Longrightarrow> j < n \<Longrightarrow> t ! r ! j = d ! r ! j) \<Longrightarrow>
   determinant_loop n i m t det = 0 \<longleftrightarrow> det = 0 \<or> inverse_loop n i m d = None"
proof (induction m arbitrary: i t d det)
  case (Suc m)
  note I = Suc.prems
  have i: "i < n" using I(3) by simp
  have step: "determinant_loop n (Suc i) m (fold (eliminate_below n i) [Suc i..<n] t') (det' * fold (eliminate_below n i) [Suc i..<n] t' ! i ! i) = 0 \<longleftrightarrow>
      det' = 0 \<or> inverse_loop n (Suc i) m (fold (eliminate_other (2 * n) i) [0..<n] (divide_row (2 * n) i d')) = None"
    if t': "length t' = n" "length d' = n" "\<And>r. r < n \<Longrightarrow> length (t' ! r) = n"
      "\<And>r j. i \<le> r \<Longrightarrow> r < n \<Longrightarrow> i \<le> j \<Longrightarrow> j < n \<Longrightarrow> t' ! r ! j = d' ! r ! j" "t' ! i ! i \<noteq> 0" for t' d' :: "'e list list" and det'
  proof -
    let ?t = "fold (eliminate_below n i) [Suc i..<n] t'" and ?e = "divide_row (2 * n) i d'"
    let ?d = "fold (eliminate_other (2 * n) i) [0..<n] ?e"
    have e: "length ?e = n" "\<And>r. r < n \<Longrightarrow> ?e ! r = (if r = i then map (\<lambda>j. d' ! i ! j / d' ! i ! i) [0..<2 * n] else d' ! r)"
      using t'(2) by (simp_all add: divide_row_def Let_def nth_list_update)
    have T: "length ?t = n" "\<And>r. r < n \<Longrightarrow> ?t ! r =
        (if i < r then take i (t' ! r) @ map (\<lambda>j. t' ! r ! j - t' ! i ! j * (t' ! r ! i / t' ! i ! i)) [i..<n] else t' ! r)"
      using fold_eliminate_below [OF t'(1) i, of n] by auto
    have D: "length ?d = n" "\<And>r. r < n \<Longrightarrow> ?d ! r =
        (if r \<noteq> i then map (\<lambda>j. ?e ! r ! j - ?e ! r ! i * ?e ! i ! j) [0..<2 * n] else ?e ! r)"
      using fold_eliminate_other [OF e(1) i, of n "2 * n"] by auto
    have pivot: "?t ! i ! i \<noteq> 0" using T(2) [OF i] t'(5) by simp
    have "determinant_loop n (Suc i) m ?t (det' * ?t ! i ! i) = 0 \<longleftrightarrow> det' * ?t ! i ! i = 0 \<or> inverse_loop n (Suc i) m ?d = None"
    proof (rule Suc.IH [OF T(1) D(1)])
      show "Suc i + m = n" using I(3) by simp
      show "length (?t ! r) = n" if "r < n" for r using T(2) [OF that] t'(3) [OF that] i by simp
      fix r j
      assume rj: "Suc i \<le> r" "r < n" "Suc i \<le> j" "j < n"
      have "?t ! r ! j = t' ! r ! j - t' ! i ! j * (t' ! r ! i / t' ! i ! i)"
        using T(2) [OF rj(2)] rj t'(3) [OF rj(2)] i by (simp add: nth_append)
      moreover have "?d ! r ! j = d' ! r ! j - d' ! r ! i * (d' ! i ! j / d' ! i ! i)"
        using D(2) [OF rj(2)] e(2) [OF rj(2)] e(2) [OF i] rj by simp
      ultimately show "?t ! r ! j = ?d ! r ! j"
        using t'(4) [of r j] t'(4) [of i j] t'(4) [of r i] t'(4) [of i i] rj i by (simp add: mult.commute)
    qed
    then show ?thesis using pivot by simp
  qed
  show ?case
  proof (cases "t ! i ! i = 0")
    case False
    moreover have "d ! i ! i = t ! i ! i" using I(5) [of i i] i by simp
    ultimately show ?thesis using step [OF I(1,2,4,5) False] by (simp add: Let_def)
  next
    case True
    have same: "d ! i ! i = 0" using I(5) [of i i] i True by simp
    have rows: "find_row d i (Suc i) (n - Suc i) = find_row t i (Suc i) (n - Suc i)"
      by (rule find_row_cong) (use I(5) i in auto)
    show ?thesis
    proof (cases "find_row t i (Suc i) (n - Suc i)")
      case None
      then show ?thesis using True same rows by (simp add: Let_def)
    next
      case (Some k)
      from find_row_Some [OF Some] i have k: "i < k" "k < n" "t ! k ! i \<noteq> 0" by auto
      have st: "swap_rows t i k ! r = t ! (if r = i then k else if r = k then i else r)"
        "swap_rows d i k ! r = d ! (if r = i then k else if r = k then i else r)" if "r < n" for r
        using swap_rows_nth [of i t k r] swap_rows_nth [of i d k r] I(1,2) i k that by simp_all
      have "determinant_loop n (Suc i) m (fold (eliminate_below n i) [Suc i..<n] (swap_rows t i k))
          (det * - 1 * fold (eliminate_below n i) [Suc i..<n] (swap_rows t i k) ! i ! i) = 0 \<longleftrightarrow>
        det * - 1 = 0 \<or> inverse_loop n (Suc i) m (fold (eliminate_other (2 * n) i) [0..<n] (divide_row (2 * n) i (swap_rows d i k))) = None"
      proof (rule step)
        show "length (swap_rows t i k) = n" "length (swap_rows d i k) = n" using I(1,2) by (simp_all add: swap_rows_def)
        show "length (swap_rows t i k ! r) = n" if "r < n" for r using st(1) [OF that] I(4) that i k by simp
        show "swap_rows t i k ! r ! j = swap_rows d i k ! r ! j" if "i \<le> r" "r < n" "i \<le> j" "j < n" for r j
          using st [OF that(2)] I(5) that i k by simp
        show "swap_rows t i k ! i ! i \<noteq> 0" using st(1) [OF i] k(3) by simp
      qed
      then show ?thesis using True same rows Some by (simp add: Let_def)
    qed
  qed
qed simp


lemma identity_start:
  assumes "length a = n" "\<And>r. r < n \<Longrightarrow> length (a ! r) = n"
  shows "reduced n a 0 (map (\<lambda>i. map (\<lambda>j. a ! i ! j) [0..<n] @ map (\<lambda>j. if i = j then 1 else 0) [0..<n]) [0..<n])"
proof -
  have "(\<Sum>k<n. (if r = k then 1 else 0) * a ! k ! j) = (a ! r ! j :: 'a)" if "r < n" for r j
  proof -
    have "(\<Sum>k<n. (if r = k then 1 else 0) * a ! k ! j) = (\<Sum>k<n. if r = k then a ! k ! j else 0)" by (rule sum.cong) simp_all
    then show ?thesis using that by simp
  qed
  then show ?thesis by (simp add: reduced_def row_combines_def nth_append)
qed

text \<open>What the two methods compute for a matrix that fits in memory: the runs of their loops.\<close>

definition augmented :: "nat \<Rightarrow> 'e list list \<Rightarrow> ('e :: field) list list" where
  "augmented n d = map (\<lambda>i. map (\<lambda>j. d ! i ! j) [0..<n] @ map (\<lambda>j. if i = j then 1 else 0) [0..<n]) [0..<n]"

lemma square_runs:
  fixes m :: "('e :: field) matrix_impl"
  assumes "matrix_ok m" "m_rows m = m_cols m" "m_rows m \<le> 2 ^ 29" "alloc_fails w = []" and n_def: "n = nat (m_rows m)"
  shows "create_matrix (int n) (int n) w = (Some (\<lparr>m_data = replicate n (replicate n 0), m_rows = int n, m_cols = int n\<rparr> :: 'e matrix_impl), w)"
    and "matrix_determinant_method m w = ((determinant_loop n 0 n (map (take n) (take n (m_data m))) 1, 0), w)"
    and "determinant_loop n 0 n (map (take n) (take n (m_data m))) 1 = 0 \<longleftrightarrow> inverse_loop n 0 n (augmented n (m_data m)) = None"
    and "matrix_inverse_method m w = (case inverse_loop n 0 n (augmented n (m_data m)) of None \<Rightarrow> (None, w)
      | Some d \<Rightarrow> (Some (m\<lparr>m_data := map (\<lambda>i. map (\<lambda>j. d ! i ! (j + n)) [0..<n]) [0..<n]\<rparr>), w))"
proof -
  have dims: "m_rows m = int n" "m_cols m = int n" "0 < n" using assms(1,2) by (auto simp: n_def matrix_ok_def)
  have shape: "length (m_data m) = n" "\<And>r. r < n \<Longrightarrow> length (m_data m ! r) = n"
    using assms(1,2) by (auto simp: matrix_ok_def block_def n_def)
  have small: "n \<le> 2 ^ 29" using assms(3) by (simp add: n_def nat_le_iff)
  then have sq: "n * n \<le> 2 ^ 29 * 2 ^ 29" by (intro mult_le_mono)
  have C: "create_matrix (int n) (int n) w = (Some (\<lparr>m_data = replicate n (replicate n 0), m_rows = int n, m_cols = int n\<rparr> :: 'e matrix_impl), w)"
    using sq dims(3) by (rule_tac trans [OF create_matrix_ready [OF assms(4)]]) (simp_all add: PTRDIFF_MAX_def)
  have wrap: "wrap_int (int n * 2) = int (2 * n)" using small wrap_int_id [of "int n * 2"] by (simp add: is_int_def)
  have "create_matrix (int n) (int (2 * n)) w = (Some (\<lparr>m_data = replicate n (replicate (2 * n) 0), m_rows = int n, m_cols = int (2 * n)\<rparr> :: 'e matrix_impl), w)"
  proof -
    have "nat (int n) * nat (int (2 * n)) * 8 \<le> PTRDIFF_MAX" using sq unfolding nat_int PTRDIFF_MAX_def by simp
    from create_matrix_ready [OF assms(4) _ _ this, where 'b = 'e] show ?thesis using dims(3) by simp
  qed
  note C2 = this [folded wrap]
  show "create_matrix (int n) (int n) w = (Some (\<lparr>m_data = replicate n (replicate n 0), m_rows = int n, m_cols = int n\<rparr> :: 'e matrix_impl), w)"
    by (rule C)
  show "matrix_determinant_method m w = ((determinant_loop n 0 n (map (take n) (take n (m_data m))) 1, 0), w)"
    using C by (simp add: matrix_determinant_method_def dims)
  show "determinant_loop n 0 n (map (take n) (take n (m_data m))) 1 = 0 \<longleftrightarrow> inverse_loop n 0 n (augmented n (m_data m)) = None"
    using determinant_zero_iff [of "map (take n) (take n (m_data m))" n "augmented n (m_data m)" 0 n 1] shape
    by (simp add: augmented_def nth_append)
  show "matrix_inverse_method m w = (case inverse_loop n 0 n (augmented n (m_data m)) of None \<Rightarrow> (None, w)
      | Some d \<Rightarrow> (Some (m\<lparr>m_data := map (\<lambda>i. map (\<lambda>j. d ! i ! (j + n)) [0..<n]) [0..<n]\<rparr>), w))"
    using C C2 by (simp add: matrix_inverse_method_def dims augmented_def Let_def split: option.split)
qed

text \<open>C31: \<open>inverse\<close> and \<open>determinant\<close> agree, in any field: with memory the inverse is null exactly when
  the determinant is zero, and otherwise its product with the matrix is the identity.\<close>

theorem matrix_inverse_correct:
  fixes m :: "('e :: field) matrix_impl"
  assumes "matrix_ok m" "m_rows m = m_cols m" "m_rows m \<le> 2 ^ 29" "alloc_fails w = []"
  shows "case matrix_inverse_method m w of
    (None, _) \<Rightarrow> matrix_determinant_method m w = ((0, 0), w)
  | (Some q, _) \<Rightarrow> fst (fst (matrix_determinant_method m w)) \<noteq> 0 \<and>
      matrix_multiply_method (Some q) (Some m) w =
        (Some (m\<lparr>m_data := map (\<lambda>i. map (\<lambda>j. if i = j then 1 else 0) [0..<nat (m_rows m)]) [0..<nat (m_rows m)]\<rparr>), w)"
proof -
  define n where "n = nat (m_rows m)"
  have dims: "m_rows m = int n" "m_cols m = int n" "0 < n" using assms(1,2) by (auto simp: n_def matrix_ok_def)
  have shape: "length (m_data m) = n" "\<And>r. r < n \<Longrightarrow> length (m_data m ! r) = n"
    using assms(1,2) by (auto simp: matrix_ok_def block_def n_def)
  note runs = square_runs [OF assms n_def]
  show ?thesis
  proof (cases "inverse_loop n 0 n (augmented n (m_data m))")
    case None
    then show ?thesis using runs by simp
  next
    case (Some d)
    have "reduced n (m_data m) n d"
      by (rule inverse_loop_reduced [OF identity_start [OF shape] _ Some [unfolded augmented_def]]) simp_all
    then have d: "\<And>i j. i < n \<Longrightarrow> j < n \<Longrightarrow> (\<Sum>k<n. d ! i ! (n + k) * m_data m ! k ! j) = (if i = j then 1 else 0)"
      by (fastforce simp: reduced_def row_combines_def)
    define q where "q = m\<lparr>m_data := map (\<lambda>i. map (\<lambda>j. d ! i ! (j + n)) [0..<n]) [0..<n]\<rparr>"
    have ok: "matrix_ok q" using assms(1) dims by (simp add: matrix_ok_def q_def)
    obtain out where M: "matrix_multiply_method (Some q) (Some m) w = (Some out, w)"
      using runs(1) dims by (simp add: matrix_multiply_method_def q_def)
    let ?one = "m\<lparr>m_data := map (\<lambda>i. map (\<lambda>j. if i = j then 1 else 0) [0..<n]) [0..<n]\<rparr>"
    have "out = ?one"
    proof (rule matrix_eqI)
      note E = multiply_entries [OF ok assms(1) M]
      show "matrix_ok out" "m_rows out = m_rows ?one" "m_cols out = m_cols ?one" using E by (simp_all add: q_def)
      show "matrix_ok ?one" using assms(1) dims by (simp add: matrix_ok_def)
      have "m_data out ! i ! j = (if i = j then 1 else 0)" if "i < n" "j < n" for i j
        using E that d [OF that] by (simp add: q_def dims product_entry_def add.commute)
      then show "matrix_get_method (Some out) i j = matrix_get_method (Some ?one) i j" for i j
        using E by (auto simp: matrix_get_method_def q_def dims nat_less_iff eq_nat_nat_iff)
    qed
    then show ?thesis using runs(2-4) Some M by (simp add: q_def [symmetric] n_def [symmetric])
  qed
qed

theorem matrix_inverse_correct_witness:
  "\<exists>q w. matrix_inverse_method \<lparr>m_data = [[0, 2], [4, 0 :: rat]], m_rows = 2, m_cols = 2\<rparr> (fresh_world :: nat world) = (Some q, w) \<and>
    matrix_multiply_method (Some q) (Some \<lparr>m_data = [[0, 2], [4, 0]], m_rows = 2, m_cols = 2\<rparr>) (fresh_world :: nat world) =
      (Some \<lparr>m_data = [[1, 0], [0, 1]], m_rows = 2, m_cols = 2\<rparr>, fresh_world)"
proof -
  let ?m = "\<lparr>m_data = [[0, 2], [4, 0 :: rat]], m_rows = 2, m_cols = 2\<rparr>"
  have ok: "matrix_ok ?m" by (auto simp: matrix_ok_def block_def INT_MAX_def less_Suc_eq numeral_2_eq_2)
  have C: "create_matrix 2 2 (fresh_world :: nat world) = (Some (\<lparr>m_data = [[0, 0], [0, 0]], m_rows = 2, m_cols = 2\<rparr> :: rat matrix_impl), fresh_world)"
    by (rule trans, rule create_matrix_ready) (simp_all add: PTRDIFF_MAX_def, simp add: numeral_2_eq_2)
  have "determinant_loop 2 0 2 [[0, 2], [4, 0 :: rat]] 1 \<noteq> 0"
    by (simp add: eval_nat_numeral Let_def swap_rows_def eliminate_below_def)
  then have "fst (fst (matrix_determinant_method ?m (fresh_world :: nat world))) \<noteq> 0"
    using C by (simp add: matrix_determinant_method_def)
  moreover have "(case matrix_inverse_method ?m (fresh_world :: nat world) of
      (None, _) \<Rightarrow> matrix_determinant_method ?m (fresh_world :: nat world) = ((0, 0), fresh_world)
    | (Some q, _) \<Rightarrow> fst (fst (matrix_determinant_method ?m (fresh_world :: nat world))) \<noteq> 0 \<and>
        matrix_multiply_method (Some q) (Some ?m) (fresh_world :: nat world) =
          (Some (?m\<lparr>m_data := map (\<lambda>i. map (\<lambda>j. if i = j then 1 else 0) [0..<nat (m_rows ?m)]) [0..<nat (m_rows ?m)]\<rparr>), fresh_world))"
    by (rule matrix_inverse_correct [OF ok]) simp_all
  ultimately show ?thesis by (auto simp: numeral_2_eq_2 split: prod.splits option.splits)
qed

end
