(* ===== verification/Fibonacci_Heap.thy ===== *)
theory Fibonacci_Heap
  imports Binary_Heap
begin

text \<open>
  The Fibonacci heap, \<open>src/heap/fibonacci_heap.c\<close>, and the factory \<open>src/heap/heap.c\<close>. A circular
  list of siblings is the list that is read from its entry pointer by following \<open>right\<close>: the roots
  from \<open>h->min\<close>, the children of a node from \<open>child\<close>. A node carries a number, its handle, in place
  of its address; parent pointers are the path from the roots. The comparator is not null.
\<close>

section \<open>State and operations\<close>

datatype 'a fib_node =
  Fib_Node (fn_id: nat) (fn_data: "'a ptr") (fn_degree: nat) (fn_mark: bool) (fn_child: "'a fib_node list")

record 'a fibonacci_heap =
  fh_roots :: "'a fib_node list"
  fh_n :: int
  fh_cmp :: "'a comparator"
  fh_next :: nat

definition fib_node_create :: "nat \<Rightarrow> 'a ptr \<Rightarrow> 'a fib_node" where
  "fib_node_create i data = Fib_Node i data 0 False []"

text \<open>The child leaves the roots and becomes the last of its parent's children.\<close>

fun fib_node_link :: "'a fib_node \<Rightarrow> 'a fib_node \<Rightarrow> 'a fib_node" where
  "fib_node_link (Fib_Node ci cd cg cm cs) (Fib_Node i d g m child) =
     Fib_Node i d (g + 1) m (child @ [Fib_Node ci cd cg False cs])"

text \<open>A node enters the roots to the right of the minimum, and becomes the minimum if it is less.\<close>

definition ring_insert :: "'a comparator \<Rightarrow> 'a fib_node \<Rightarrow> 'a fib_node list \<Rightarrow> 'a fib_node list" where
  "ring_insert cmp node ring =
     (case ring of
        [] \<Rightarrow> [node]
      | m # rest \<Rightarrow> if cmp (fn_data node) (fn_data m) < 0 then node # rest @ [m] else m # node # rest)"

section \<open>Consolidation\<close>

text \<open>The inner loop over the table \<open>A\<close> of 45 roots, one for each degree, for a root \<open>x\<close> of degree
  \<open>d\<close>; it ends by storing \<open>x\<close>.\<close>

function link_loop ::
  "'a comparator \<Rightarrow> 'a fib_node \<Rightarrow> nat \<Rightarrow> 'a fib_node option list \<Rightarrow> 'a fib_node option list" where
  "link_loop cmp x d A =
     (if d < 45 then
        (case A ! d of
           None \<Rightarrow> A[d := Some x]
         | Some y \<Rightarrow>
             if fn_data y = NULL then A[d := Some x]
             else if cmp (fn_data x) (fn_data y) > 0
             then link_loop cmp (fib_node_link x y) (d + 1) (A[d := None])
             else link_loop cmp (fib_node_link y x) (d + 1) (A[d := None]))
      else A)"
  by pat_completeness auto
termination by (relation "measure (\<lambda>(cmp, x, d, A). 45 - d)") auto

declare link_loop.simps [simp del]

definition place_root :: "'a comparator \<Rightarrow> 'a fib_node \<Rightarrow> 'a fib_node option list \<Rightarrow> 'a fib_node option list" where
  "place_root cmp x A = (if fn_data x = NULL then A else link_loop cmp x (fn_degree x) A)"

definition collect_root :: "'a comparator \<Rightarrow> 'a fib_node option \<Rightarrow> 'a fib_node list \<Rightarrow> 'a fib_node list" where
  "collect_root cmp slot ring = (case slot of None \<Rightarrow> ring | Some t \<Rightarrow> ring_insert cmp t ring)"

definition consolidate :: "'a comparator \<Rightarrow> 'a fib_node list \<Rightarrow> 'a fib_node list" where
  "consolidate cmp roots =
     (if roots = [] then []
      else fold (collect_root cmp) (fold (place_root cmp) roots (replicate 45 None)) [])"

section \<open>Taking the minimum\<close>

text \<open>The loop that moves the children of the minimum next to it, one after the other to its right.
  It stops when it comes back to the first child. That child has left its ring, so when the last
  child is reached the loop follows the roots instead, and moves the children from the last to the
  second once more, each from place \<open>j\<close> to the front.\<close>

definition move_front :: "nat \<Rightarrow> 'a list \<Rightarrow> 'a list" where
  "move_front j rest = rest ! j # take j rest @ drop (Suc j) rest"

definition lift_children :: "'a fib_node list \<Rightarrow> 'a fib_node list \<Rightarrow> 'a fib_node list" where
  "lift_children child rest = fold move_front [0..<length child - 1] (fold (#) child rest)"

definition fibonacci_heap_pop :: "'a fibonacci_heap \<Rightarrow> 'a ptr \<times> 'a fibonacci_heap" where
  "fibonacci_heap_pop h =
     (case fh_roots h of
        [] \<Rightarrow> (NULL, h)
      | z # rest \<Rightarrow>
          (fn_data z, h\<lparr>fh_roots := consolidate (fh_cmp h) (lift_children (fn_child z) rest),
                        fh_n := wrap_int (fh_n h - 1)\<rparr>))"

definition fibonacci_heap_peek :: "'a fibonacci_heap \<Rightarrow> 'a ptr" where
  "fibonacci_heap_peek h = (case fh_roots h of [] \<Rightarrow> NULL | m # rest \<Rightarrow> fn_data m)"

definition fibonacci_heap_size :: "'a fibonacci_heap \<Rightarrow> int" where
  "fibonacci_heap_size h = fh_n h"

definition fibonacci_heap_clear :: "'a fibonacci_heap \<Rightarrow> 'a fibonacci_heap" where
  "fibonacci_heap_clear h = h\<lparr>fh_roots := [], fh_n := 0\<rparr>"

definition fibonacci_heap_put_with_handle ::
  "'a fibonacci_heap \<Rightarrow> 'a ptr \<Rightarrow> 'a world \<Rightarrow> nat option \<times> 'a fibonacci_heap \<times> 'a world" where
  "fibonacci_heap_put_with_handle h data w =
     (case malloc_struct w of
        (False, w) \<Rightarrow> (None, h, w)
      | (True, w) \<Rightarrow>
         (Some (fh_next h),
          h\<lparr>fh_roots := ring_insert (fh_cmp h) (fib_node_create (fh_next h) data) (fh_roots h),
            fh_n := wrap_int (fh_n h + 1), fh_next := fh_next h + 1\<rparr>, w))"

definition fibonacci_heap_put ::
  "'a fibonacci_heap \<Rightarrow> 'a ptr \<Rightarrow> 'a world \<Rightarrow> ova_error_code \<times> 'a fibonacci_heap \<times> 'a world" where
  "fibonacci_heap_put h data w =
     (case malloc_struct w of
        (False, w) \<Rightarrow> (OVA_ERROR_MEMORY, h, w)
      | (True, w) \<Rightarrow>
         (OVA_SUCCESS,
          h\<lparr>fh_roots := ring_insert (fh_cmp h) (fib_node_create (fh_next h) data) (fh_roots h),
            fh_n := wrap_int (fh_n h + 1), fh_next := fh_next h + 1\<rparr>, w))"

section \<open>Changing and deleting by handle\<close>

text \<open>A node on the way from a handle up to the roots, with its siblings before and after it.\<close>

datatype 'a fib_up = Fib_Up "'a fib_node" "'a fib_node list" "'a fib_node list"

fun with_children :: "'a fib_node list \<Rightarrow> 'a fib_node \<Rightarrow> 'a fib_node" where
  "with_children cs (Fib_Node i d g m _) = Fib_Node i d g m cs"

text \<open>The node with a handle, its siblings before and after it, and the path above it.\<close>

fun locate ::
  "nat \<Rightarrow> 'a fib_up list \<Rightarrow> 'a fib_node list \<Rightarrow> 'a fib_node list \<Rightarrow>
     ('a fib_node \<times> 'a fib_node list \<times> 'a fib_node list \<times> 'a fib_up list) option" where
  "locate h ups before [] = None"
| "locate h ups before (Fib_Node i d g m cs # after) =
     (if i = h then Some (Fib_Node i d g m cs, before, after, ups)
      else
       (case locate h (Fib_Up (Fib_Node i d g m cs) before after # ups) [] cs of
          Some r \<Rightarrow> Some r
        | None \<Rightarrow> locate h ups (before @ [Fib_Node i d g m cs]) after))"

text \<open>The roots when the ring at the end of a path is replaced.\<close>

fun plug :: "'a fib_node list \<Rightarrow> 'a fib_up list \<Rightarrow> 'a fib_node list" where
  "plug ring [] = ring"
| "plug ring (Fib_Up y before after # ups) = plug (before @ with_children ring y # after) ups"

fun set_mark :: "bool \<Rightarrow> 'a fib_node \<Rightarrow> 'a fib_node" where
  "set_mark m (Fib_Node i d g _ cs) = Fib_Node i d g m cs"

fun set_node_data :: "'a ptr \<Rightarrow> 'a fib_node \<Rightarrow> 'a fib_node" where
  "set_node_data d (Fib_Node i _ g m cs) = Fib_Node i d g m cs"

text \<open>\<open>cut\<close>: what is left of the parent, and the node as it enters the roots.\<close>

fun cut_parent :: "'a fib_node list \<Rightarrow> 'a fib_node \<Rightarrow> 'a fib_node" where
  "cut_parent others (Fib_Node i d g m _) = Fib_Node i d (g - 1) m others"

definition cut_node :: "'a fib_node \<Rightarrow> 'a fib_node" where
  "cut_node x = set_mark False x"

text \<open>The nodes that were cut stand to the right of the minimum, the last one first.\<close>

fun spread :: "'a fib_node list \<Rightarrow> 'a fib_node list \<Rightarrow> 'a fib_node list" where
  "spread moved [] = moved"
| "spread moved (m # rest) = m # moved @ rest"

fun cascading_cut ::
  "'a fib_node \<Rightarrow> 'a fib_node list \<Rightarrow> 'a fib_node list \<Rightarrow> 'a fib_up list \<Rightarrow> 'a fib_node list \<Rightarrow> 'a fib_node list" where
  "cascading_cut y before after [] moved = spread moved (before @ y # after)"
| "cascading_cut y before after (Fib_Up z zbefore zafter # ups) moved =
     (if \<not> fn_mark y
      then spread moved (plug (before @ set_mark True y # after) (Fib_Up z zbefore zafter # ups))
      else cascading_cut (cut_parent (before @ after) z) zbefore zafter ups (cut_node y # moved))"

text \<open>\<open>h->min = x\<close>: the roots are read from the node with this handle.\<close>

definition rotate_to :: "nat \<Rightarrow> 'a fib_node list \<Rightarrow> 'a fib_node list" where
  "rotate_to h roots = dropWhile (\<lambda>t. fn_id t \<noteq> h) roots @ takeWhile (\<lambda>t. fn_id t \<noteq> h) roots"

text \<open>The new payload is stored, and the node is cut if it is now less than its parent.\<close>

definition raise_node ::
  "'a comparator \<Rightarrow> 'a ptr \<Rightarrow> 'a fib_node \<Rightarrow> 'a fib_node list \<Rightarrow> 'a fib_node list \<Rightarrow> 'a fib_up list \<Rightarrow> 'a fib_node list" where
  "raise_node cmp new_value x before after ups =
     (let x = set_node_data new_value x in
      case ups of
        [] \<Rightarrow> before @ x # after
      | Fib_Up y ybefore yafter # ups' \<Rightarrow>
          if cmp new_value (fn_data y) < 0
          then cascading_cut (cut_parent (before @ after) y) ybefore yafter ups' [cut_node x]
          else plug (before @ x # after) ups)"

text \<open>\<open>None\<close> stands for a handle of no node in the heap, for which the code is undefined.\<close>

definition fibonacci_heap_decrease_key ::
  "'a fibonacci_heap \<Rightarrow> nat option \<Rightarrow> 'a ptr \<Rightarrow> (ova_error_code \<times> 'a fibonacci_heap) option" where
  "fibonacci_heap_decrease_key h node_handle new_value =
     (case node_handle of
        None \<Rightarrow> Some (OVA_ERROR_INVALID_ARG, h)
      | Some i \<Rightarrow>
          if new_value = NULL then Some (OVA_ERROR_INVALID_ARG, h)
          else
           (case locate i [] [] (fh_roots h) of
              None \<Rightarrow> None
            | Some (x, before, after, ups) \<Rightarrow>
               (let roots = raise_node (fh_cmp h) new_value x before after ups;
                    roots = (if fh_cmp h new_value (fn_data (hd roots)) < 0 then rotate_to i roots else roots)
                in Some (OVA_SUCCESS, h\<lparr>fh_roots := roots\<rparr>))))"

definition fibonacci_heap_delete ::
  "'a fibonacci_heap \<Rightarrow> nat option \<Rightarrow> (ova_error_code \<times> 'a fibonacci_heap) option" where
  "fibonacci_heap_delete h node_handle =
     (case node_handle of
        None \<Rightarrow> Some (OVA_ERROR_INVALID_ARG, h)
      | Some i \<Rightarrow>
         (case locate i [] [] (fh_roots h) of
            None \<Rightarrow> None
          | Some (x, before, after, ups) \<Rightarrow>
             (let roots = (case ups of
                             [] \<Rightarrow> before @ x # after
                           | Fib_Up y ybefore yafter # ups' \<Rightarrow>
                               cascading_cut (cut_parent (before @ after) y) ybefore yafter ups' [cut_node x]);
                  h = h\<lparr>fh_roots := rotate_to i roots\<rparr>
              in Some (OVA_SUCCESS, snd (fibonacci_heap_pop h)))))"

definition create_fibonacci_heap ::
  "'a comparator \<Rightarrow> 'a world \<Rightarrow> 'a fibonacci_heap option \<times> 'a world" where
  "create_fibonacci_heap compare_function w =
     (case malloc_struct w of
        (False, w) \<Rightarrow> (None, w)
      | (True, w) \<Rightarrow>
         (case malloc_struct w of
            (False, w) \<Rightarrow> (None, w)
          | (True, w) \<Rightarrow> (Some \<lparr>fh_roots = [], fh_n = 0, fh_cmp = compare_function, fh_next = 0\<rparr>, w)))"

section \<open>The factory\<close>

datatype heap_type = BINARY_HEAP | FIBONACCI_HEAP

text \<open>The object: the representation behind the table of methods.\<close>

datatype 'a heap_obj = Binary_Object "'a binary_heap" | Fibonacci_Object "'a fibonacci_heap"

fun create_heap ::
  "heap_type option \<Rightarrow> int \<Rightarrow> 'a comparator \<Rightarrow> 'a world \<Rightarrow> 'a heap_obj option \<times> 'a world" where
  "create_heap (Some BINARY_HEAP) capacity compare w =
     (case create_binary_heap capacity compare w of (b, w) \<Rightarrow> (map_option Binary_Object b, w))"
| "create_heap (Some FIBONACCI_HEAP) capacity compare w =
     (case create_fibonacci_heap compare w of (f, w) \<Rightarrow> (map_option Fibonacci_Object f, w))"
| "create_heap None capacity compare w = (None, w)"

fun heap_obj_put :: "'a heap_obj \<Rightarrow> 'a ptr \<Rightarrow> 'a world \<Rightarrow> ova_error_code \<times> 'a heap_obj \<times> 'a world" where
  "heap_obj_put (Binary_Object b) x w = (case binary_heap_put b x w of (e, b, w) \<Rightarrow> (e, Binary_Object b, w))"
| "heap_obj_put (Fibonacci_Object f) x w = (case fibonacci_heap_put f x w of (e, f, w) \<Rightarrow> (e, Fibonacci_Object f, w))"

fun heap_obj_pop :: "'a heap_obj \<Rightarrow> 'a ptr \<times> 'a heap_obj" where
  "heap_obj_pop (Binary_Object b) = (case binary_heap_pop b of (x, b) \<Rightarrow> (x, Binary_Object b))"
| "heap_obj_pop (Fibonacci_Object f) = (case fibonacci_heap_pop f of (x, f) \<Rightarrow> (x, Fibonacci_Object f))"

section \<open>What a heap holds\<close>

text \<open>The pairs of handle and payload below a node and in a ring.\<close>

fun entries :: "'a fib_node \<Rightarrow> (nat \<times> 'a ptr) multiset" where
  "entries (Fib_Node i d g m cs) = add_mset (i, d) (sum_list (map entries cs))"

definition ring_entries :: "'a fib_node list \<Rightarrow> (nat \<times> 'a ptr) multiset" where
  "ring_entries ring = sum_list (map entries ring)"

lemma ring_entries_simps [simp]:
  "ring_entries [] = {#}"
  "ring_entries (t # ts) = entries t + ring_entries ts"
  "ring_entries (ts @ us) = ring_entries ts + ring_entries us"
  by (simp_all add: ring_entries_def)

lemma entries_node [simp]: "entries (Fib_Node i d g m cs) = add_mset (i, d) (ring_entries cs)"
  by (simp add: ring_entries_def)

declare entries.simps [simp del]

lemma ring_entries_mset: "mset ts = mset us \<Longrightarrow> ring_entries ts = ring_entries us"
  unfolding ring_entries_def by (metis mset_map sum_mset_sum_list)

lemma in_ring_entries: "e \<in># ring_entries ts \<longleftrightarrow> (\<exists>t \<in> set ts. e \<in># entries t)"
  by (induction ts) auto

lemma ring_entries_root: "t \<in> set ts \<Longrightarrow> (fn_id t, fn_data t) \<in># ring_entries ts"
  by (cases t) (force simp: in_ring_entries)

section \<open>Order and shape\<close>

fun tree_ordered :: "'a comparator \<Rightarrow> 'a fib_node \<Rightarrow> bool" where
  "tree_ordered cmp (Fib_Node i d g m cs) \<longleftrightarrow> (\<forall>c \<in> set cs. cmp d (fn_data c) \<le> 0 \<and> tree_ordered cmp c)"

text \<open>The degree a child had when it was linked, at least: it lost one child if it is marked.\<close>

fun rank :: "'a fib_node \<Rightarrow> nat" where
  "rank (Fib_Node i d g m cs) = g + (if m then 1 else 0)"

definition ranks_ok :: "nat list \<Rightarrow> bool" where
  "ranks_ok rs \<longleftrightarrow> (\<forall>j < length rs. j \<le> rs ! j)"

fun shaped :: "'a fib_node \<Rightarrow> bool" where
  "shaped (Fib_Node i d g m cs) \<longleftrightarrow> g = length cs \<and> ranks_ok (map rank cs) \<and> (\<forall>c \<in> set cs. shaped c)"

definition ring_good :: "'a comparator \<Rightarrow> 'a fib_node list \<Rightarrow> bool" where
  "ring_good cmp ring \<longleftrightarrow> (\<forall>t \<in> set ring. tree_ordered cmp t \<and> shaped t)"

definition min_first :: "'a comparator \<Rightarrow> 'a fib_node list \<Rightarrow> bool" where
  "min_first cmp ring \<longleftrightarrow> (\<forall>t \<in> set ring. cmp (fn_data (hd ring)) (fn_data t) \<le> 0)"

lemma ring_good_simps [simp]:
  "ring_good cmp []"
  "ring_good cmp (t # ts) \<longleftrightarrow> tree_ordered cmp t \<and> shaped t \<and> ring_good cmp ts"
  "ring_good cmp (ts @ us) \<longleftrightarrow> ring_good cmp ts \<and> ring_good cmp us"
  by (auto simp: ring_good_def)

lemma ring_good_mset: "mset ts = mset us \<Longrightarrow> ring_good cmp ts = ring_good cmp us"
  by (metis mset_eq_setD ring_good_def)

lemma good_node:
  "tree_ordered cmp (Fib_Node i d g m cs) \<and> shaped (Fib_Node i d g m cs) \<longleftrightarrow>
     ring_good cmp cs \<and> (\<forall>c \<in> set cs. cmp d (fn_data c) \<le> 0) \<and> g = length cs \<and> ranks_ok (map rank cs)"
  by (auto simp: ring_good_def)

context comparator_order
begin

lemma ordered_entries: "tree_ordered cmp t \<Longrightarrow> e \<in># entries t \<Longrightarrow> cmp (fn_data t) (snd e) \<le> 0"
proof (induction t)
  case (Fib_Node i d g m cs)
  show ?case
  proof (cases "e = (i, d)")
    case False
    then obtain c where c: "c \<in> set cs" "e \<in># entries c" using Fib_Node.prems(2) by (auto simp: in_ring_entries)
    then show ?thesis using Fib_Node.IH [OF c(1) _ c(2)] Fib_Node.prems(1) cmp_trans [of d "fn_data c" "snd e"] by auto
  qed simp
qed

lemma root_minimal:
  assumes "ring_good cmp ring" "min_first cmp ring" "e \<in># ring_entries ring"
  shows "cmp (fn_data (hd ring)) (snd e) \<le> 0"
proof -
  obtain t where t: "t \<in> set ring" "e \<in># entries t" using assms(3) by (auto simp: in_ring_entries)
  have "cmp (fn_data t) (snd e) \<le> 0" using ordered_entries [OF _ t(2)] assms(1) t(1) by (simp add: ring_good_def)
  moreover have "cmp (fn_data (hd ring)) (fn_data t) \<le> 0" using assms(2) t(1) by (simp add: min_first_def)
  ultimately show ?thesis by (rule cmp_trans [rotated])
qed

lemma ring_insert_min: "min_first cmp ring \<Longrightarrow> min_first cmp (ring_insert cmp t ring)"
proof (cases ring)
  case (Cons m rest)
  assume mf: "min_first cmp ring"
  have "cmp (fn_data t) (fn_data u) \<le> 0" if "cmp (fn_data t) (fn_data m) < 0" "u \<in> set ring" for u
    using mf that Cons cmp_trans [of "fn_data t" "fn_data m" "fn_data u"] by (auto simp: min_first_def)
  moreover have "cmp (fn_data m) (fn_data t) \<le> 0" if "\<not> cmp (fn_data t) (fn_data m) < 0"
    using that cmp_gt_iff [of "fn_data m" "fn_data t"] by simp
  ultimately show ?thesis using mf Cons by (auto simp: ring_insert_def min_first_def)
qed (simp add: ring_insert_def min_first_def)

end

lemma ring_insert_mset: "mset (ring_insert cmp t ring) = add_mset t (mset ring)"
  by (simp add: ring_insert_def split: list.split)

section \<open>How large a node of a given degree is\<close>

fun fibs :: "nat \<Rightarrow> nat" where
  "fibs 0 = 0"
| "fibs (Suc 0) = 1"
| "fibs (Suc (Suc n)) = fibs (Suc n) + fibs n"

lemma fibs_mono: "m \<le> n \<Longrightarrow> fibs m \<le> fibs n"
proof (induction rule: dec_induct)
  case (step k)
  have "fibs k \<le> fibs (Suc k)" by (induction k rule: fibs.induct) simp_all
  with step.IH show ?case by linarith
qed simp

text \<open>The same numbers in linear time.\<close>

fun fib_iter :: "nat \<Rightarrow> nat \<Rightarrow> nat \<Rightarrow> nat" where
  "fib_iter 0 a b = a"
| "fib_iter (Suc n) a b = fib_iter n b (a + b)"

lemma fib_iter_numeral: "fib_iter (numeral k) a b = fib_iter (pred_numeral k) b (a + b)"
  by (simp add: numeral_eq_Suc)

lemma fib_iter_one: "fib_iter 1 a b = b"
  by simp

lemma fib_iter_fibs: "fib_iter n (fibs k) (fibs (Suc k)) = fibs (n + k)"
proof (induction n arbitrary: k)
  case (Suc n)
  from Suc [of "Suc k"] show ?case by (simp add: add.commute)
qed simp

lemma children_size:
  "ranks_ok (map rank cs) \<Longrightarrow> (\<And>c. c \<in> set cs \<Longrightarrow> fibs (rank c + 1) \<le> size (entries c)) \<Longrightarrow>
     fibs (length cs + 2) \<le> Suc (size (ring_entries cs))"
proof (induction cs rule: rev_induct)
  case (snoc c cs)
  have "ranks_ok (map rank cs)"
    unfolding ranks_ok_def
  proof (intro allI impI)
    fix j assume "j < length (map rank cs)"
    then show "j \<le> map rank cs ! j" using snoc.prems(1) by (auto simp: ranks_ok_def nth_append dest!: spec [of _ j])
  qed
  then have IH: "fibs (length cs + 2) \<le> Suc (size (ring_entries cs))" using snoc by simp
  have "length cs \<le> rank c" using snoc.prems(1) by (auto simp: ranks_ok_def nth_append dest!: spec [of _ "length cs"])
  then have "fibs (length cs + 1) \<le> fibs (rank c + 1)" by (intro fibs_mono) simp
  also have "\<dots> \<le> size (entries c)" using snoc.prems(2) by simp
  finally show ?case using IH by simp
qed simp

lemma degree_size: "shaped t \<Longrightarrow> fibs (fn_degree t + 2) \<le> size (entries t)"
proof (induction t)
  case (Fib_Node i d g m cs)
  have "fibs (rank c + 1) \<le> size (entries c)" if "c \<in> set cs" for c
  proof -
    have "fibs (rank c + 1) \<le> fibs (fn_degree c + 2)" by (intro fibs_mono) (cases c, simp)
    also have "\<dots> \<le> size (entries c)" using Fib_Node.IH [OF that] Fib_Node.prems that by simp
    finally show ?thesis .
  qed
  then show ?case using children_size [of cs] Fib_Node.prems by simp
qed

text \<open>The table of 45 degrees is just large enough for a heap whose size is an \<open>int\<close>.\<close>

lemma degree_below_table:
  assumes "shaped t" "size (entries t) \<le> INT_MAX"
  shows "fn_degree t < 45"
proof (rule ccontr)
  assume "\<not> fn_degree t < 45"
  then have "fibs 47 \<le> fibs (fn_degree t + 2)" by (intro fibs_mono) simp
  moreover have "fibs 47 = 2971215073" 
  proof -
    have "fib_iter 47 0 1 = 2971215073" by (simp add: fib_iter_numeral fib_iter_one del: One_nat_def)
    then show ?thesis using fib_iter_fibs [of 47 0] by (simp only: fibs.simps One_nat_def add_0_right)
  qed
  ultimately show False using degree_size [OF assms(1)] assms(2) by (simp add: INT_MAX_def)
qed
section \<open>Consolidation keeps every node\<close>

lemma link_spec:
  assumes "tree_ordered cmp x" "shaped x" "tree_ordered cmp y" "shaped y" "fn_degree y = fn_degree x"
    "cmp (fn_data x) (fn_data y) \<le> 0"
  shows "tree_ordered cmp (fib_node_link y x) \<and> shaped (fib_node_link y x) \<and>
    fn_degree (fib_node_link y x) = fn_degree x + 1 \<and> fn_data (fib_node_link y x) = fn_data x \<and>
    entries (fib_node_link y x) = entries x + entries y"
proof (cases x; cases y)
  fix i d g m cs i' d' g' m' cs'
  assume x: "x = Fib_Node i d g m cs" and y: "y = Fib_Node i' d' g' m' cs'"
  have "ranks_ok (map rank cs @ [g'])" if "ranks_ok (map rank cs)" "g' = length cs"
    using that by (auto simp: ranks_ok_def nth_append)
  then show ?thesis using assms by (auto simp: x y)
qed

definition slot_entries :: "'a fib_node option list \<Rightarrow> (nat \<times> 'a ptr) multiset" where
  "slot_entries A = sum_list (map (case_option {#} entries) A)"

definition table_ok :: "'a comparator \<Rightarrow> 'a fib_node option list \<Rightarrow> bool" where
  "table_ok cmp A \<longleftrightarrow> length A = 45 \<and>
     (\<forall>d < 45. \<forall>t. A ! d = Some t \<longrightarrow> tree_ordered cmp t \<and> shaped t \<and> fn_degree t = d \<and> fn_data t \<noteq> NULL)"

lemma slot_entries_update:
  "d < length A \<Longrightarrow> slot_entries (A[d := s]) + case_option {#} entries (A ! d) = slot_entries A + case_option {#} entries s"
proof (induction A arbitrary: d)
  case (Cons a A)
  then show ?case by (cases d) (auto simp: slot_entries_def ac_simps)
qed simp

lemma slot_entries_fill: "d < length A \<Longrightarrow> A ! d = None \<Longrightarrow> slot_entries (A[d := Some x]) = slot_entries A + entries x"
  using slot_entries_update [of d A "Some x"] by simp

lemma slot_entries_take: "d < length A \<Longrightarrow> A ! d = Some y \<Longrightarrow> slot_entries A = slot_entries (A[d := None]) + entries y"
  using slot_entries_update [of d A None] by simp

lemma link_loop_spec:
  assumes "comparator_order cmp" "table_ok cmp A" "tree_ordered cmp x" "shaped x" "fn_degree x = d" "fn_data x \<noteq> NULL"
    "size (slot_entries A + entries x) \<le> INT_MAX"
  shows "table_ok cmp (link_loop cmp x d A) \<and> slot_entries (link_loop cmp x d A) = slot_entries A + entries x"
  using assms
proof (induction cmp x d A rule: link_loop.induct)
  case (1 cmp x d A)
  note prems = "1.prems"
  have d: "d < 45" using degree_below_table [OF prems(4)] prems(5,7) by simp
  have len: "length A = 45" using prems(2) by (simp add: table_ok_def)
  show ?case
  proof (cases "A ! d")
    case None
    then have "link_loop cmp x d A = A[d := Some x]" using d by (subst link_loop.simps) simp
    moreover have "table_ok cmp (A[d := Some x])"
      using prems d len by (auto simp: table_ok_def nth_list_update)
    ultimately show ?thesis using slot_entries_fill [of d A x] None d len by simp
  next
    case (Some y)
    have y: "tree_ordered cmp y" "shaped y" "fn_degree y = d" "fn_data y \<noteq> NULL"
      using prems(2) d Some by (auto simp: table_ok_def)
    have rest: "table_ok cmp (A[d := None])" using prems(2) d len by (auto simp: table_ok_def nth_list_update)
    have E: "slot_entries A = slot_entries (A[d := None]) + entries y"
      using slot_entries_take [of d A y] Some d len by simp
    show ?thesis
    proof (cases "cmp (fn_data x) (fn_data y) > 0")
      case True
      then have le: "cmp (fn_data y) (fn_data x) \<le> 0" using comparator_order.cmp_gt_iff [OF prems(1)] by force
      have L: "link_loop cmp x d A = link_loop cmp (fib_node_link x y) (d + 1) (A[d := None])"
        using d Some y(4) True by (subst link_loop.simps) auto
      note K = link_spec [OF y(1,2) prems(3,4) _ le]
      show ?thesis using "1.IH"(1) [OF d Some y(4) True prems(1) rest] K prems(5,6,7) y E unfolding L by (auto simp: ac_simps)
    next
      case False
      then have le: "cmp (fn_data x) (fn_data y) \<le> 0" by simp
      have L: "link_loop cmp x d A = link_loop cmp (fib_node_link y x) (d + 1) (A[d := None])"
        using d Some y(4) False by (subst link_loop.simps) auto
      note K = link_spec [OF prems(3,4) y(1,2) _ le]
      show ?thesis using "1.IH"(2) [OF d Some y(4) False prems(1) rest] K prems(5,6,7) y E unfolding L by (auto simp: ac_simps)
    qed
  qed
qed
lemma place_roots_spec:
  assumes "comparator_order cmp" "table_ok cmp A" "ring_good cmp roots" "\<forall>e \<in># ring_entries roots. snd e \<noteq> NULL"
    "size (slot_entries A + ring_entries roots) \<le> INT_MAX"
  shows "table_ok cmp (fold (place_root cmp) roots A) \<and>
    slot_entries (fold (place_root cmp) roots A) = slot_entries A + ring_entries roots"
  using assms
proof (induction roots arbitrary: A)
  case (Cons x roots)
  have "fn_data x \<noteq> NULL" using Cons.prems(4) ring_entries_root [of x "x # roots"] by force
  then have "table_ok cmp (place_root cmp x A) \<and> slot_entries (place_root cmp x A) = slot_entries A + entries x"
    using link_loop_spec [OF Cons.prems(1,2), of x "fn_degree x"] Cons.prems(3,5) by (auto simp: place_root_def ac_simps)
  then show ?case using Cons.IH [of "place_root cmp x A"] Cons.prems by (auto simp: ac_simps)
qed simp

lemma slot_entries_empty: "slot_entries (replicate n None) = {#}"
  by (induction n) (simp_all add: slot_entries_def)

lemma collect_roots_spec:
  assumes "comparator_order cmp" "ring_good cmp ring" "min_first cmp ring"
    "\<forall>t. Some t \<in> set slots \<longrightarrow> tree_ordered cmp t \<and> shaped t"
  shows "ring_good cmp (fold (collect_root cmp) slots ring) \<and> min_first cmp (fold (collect_root cmp) slots ring) \<and>
    ring_entries (fold (collect_root cmp) slots ring) = slot_entries slots + ring_entries ring"
  using assms
proof (induction slots arbitrary: ring)
  case Nil
  then show ?case by (simp add: slot_entries_def)
next
  case (Cons s slots)
  show ?case
  proof (cases s)
    case None
    then show ?thesis using Cons by (simp add: collect_root_def slot_entries_def)
  next
    case (Some t)
    let ?r = "ring_insert cmp t ring"
    have m: "mset ?r = mset (t # ring)" by (simp add: ring_insert_mset)
    have "ring_good cmp ?r" using ring_good_mset [OF m] Cons.prems(2,4) Some by simp
    moreover have "min_first cmp ?r" using comparator_order.ring_insert_min [OF Cons.prems(1,3)] .
    moreover have "ring_entries ?r = entries t + ring_entries ring" using ring_entries_mset [OF m] by simp
    ultimately show ?thesis using Cons.IH [of ?r] Cons.prems(1,4) Some
      by (simp add: collect_root_def slot_entries_def ac_simps)
  qed
qed

lemma consolidate_spec:
  assumes "comparator_order cmp" "ring_good cmp roots" "\<forall>e \<in># ring_entries roots. snd e \<noteq> NULL"
    "size (ring_entries roots) \<le> INT_MAX"
  shows "ring_good cmp (consolidate cmp roots) \<and> min_first cmp (consolidate cmp roots) \<and>
    ring_entries (consolidate cmp roots) = ring_entries roots"
proof (cases "roots = []")
  case False
  let ?A0 = "replicate 45 None :: 'a fib_node option list"
  have A0: "table_ok cmp ?A0" "slot_entries ?A0 = {#}" by (simp_all add: table_ok_def slot_entries_empty)
  let ?A = "fold (place_root cmp) roots ?A0"
  have A: "table_ok cmp ?A" "slot_entries ?A = ring_entries roots"
    using place_roots_spec [OF assms(1) A0(1) assms(2,3)] A0(2) assms(4) by simp_all
  have "\<forall>t. Some t \<in> set ?A \<longrightarrow> tree_ordered cmp t \<and> shaped t"
    using A(1) by (auto simp: table_ok_def in_set_conv_nth)
  then show ?thesis using collect_roots_spec [OF assms(1), of "[]" ?A] A(2) False
    by (simp add: consolidate_def min_first_def)
qed (simp add: consolidate_def min_first_def)

lemma move_front_mset: "j < length rest \<Longrightarrow> mset (move_front j rest) = mset rest"
  by (metis id_take_nth_drop move_front_def mset.simps(2) mset_append union_mset_add_mset_right)

lemma lift_children_mset:
  fixes child :: "'a fib_node list"
  shows "mset (lift_children child rest) = mset (child @ rest)"
proof -
  have keep: "mset (fold move_front js xs) = mset xs" if "\<forall>j \<in> set js. j < length xs" for js and xs :: "'a fib_node list"
    using that
  proof (induction js arbitrary: xs)
    case (Cons j js)
    then have "mset (move_front j xs) = mset xs" by (simp add: move_front_mset)
    moreover have "length (move_front j xs) = length xs" using calculation by (metis size_mset)
    ultimately show ?case using Cons by simp
  qed simp
  have "fold (#) child rest = rev child @ rest" by (induction child arbitrary: rest) simp_all
  moreover have "\<forall>j \<in> set [0..<length child - 1]. j < length (rev child @ rest)" by auto
  ultimately show ?thesis using keep [of "[0..<length child - 1]" "rev child @ rest"] unfolding lift_children_def by (metis mset_append mset_rev)
qed

text \<open>The order in which the children end: the first of them last.\<close>

lemma lift_children_order: "child \<noteq> [] \<Longrightarrow> lift_children child rest = tl child @ hd child # rest"
proof -
  assume ne: "child \<noteq> []"
  have front: "fold move_front [0..<k] (rev ys @ xs) = ys @ xs" if "length ys = k" for k and ys xs :: "'b list"
    using that
  proof (induction k arbitrary: ys xs)
    case (Suc k)
    then obtain y zs where y: "ys = y # zs" "length zs = k" by (cases ys) auto
    have "fold move_front [0..<Suc k] (rev ys @ xs) = move_front k (fold move_front [0..<k] (rev zs @ y # xs))"
      using y by simp
    also have "\<dots> = move_front k (zs @ y # xs)" using Suc.IH y(2) by simp
    also have "\<dots> = ys @ xs" using y by (auto simp: move_front_def nth_append)
    finally show ?case .
  qed simp
  have "fold (#) child rest = rev (tl child) @ hd child # rest" 
    using ne by (cases child) (simp_all add: rev_map [symmetric] fold_Cons_rev)
  then show ?thesis using front [of "tl child" "length child - 1" "hd child # rest"] by (simp add: lift_children_def)
qed

section \<open>The heap as a priority source\<close>

definition fib_entries :: "'a fibonacci_heap \<Rightarrow> (nat \<times> 'a ptr) multiset" where
  "fib_entries h = ring_entries (fh_roots h)"

definition fib_bag :: "'a fibonacci_heap \<Rightarrow> 'a ptr multiset" where
  "fib_bag h = image_mset snd (fib_entries h)"

text \<open>The invariant but for the place of the minimum.\<close>

definition fib_inv0 :: "'a fibonacci_heap \<Rightarrow> bool" where
  "fib_inv0 h \<longleftrightarrow> comparator_order (fh_cmp h) \<and> ring_good (fh_cmp h) (fh_roots h) \<and>
     fh_n h = int (size (fib_entries h)) \<and> size (fib_entries h) \<le> INT_MAX \<and>
     (\<forall>e \<in># fib_entries h. snd e \<noteq> NULL \<and> fst e < fh_next h) \<and>
     (\<forall>i. count (image_mset fst (fib_entries h)) i \<le> 1)"

definition fib_inv :: "'a fibonacci_heap \<Rightarrow> bool" where
  "fib_inv h \<longleftrightarrow> fib_inv0 h \<and> min_first (fh_cmp h) (fh_roots h)"

lemma fib_pop_spec:
  assumes "fib_inv0 h" "fh_roots h = z # rest"
  shows "fib_inv (snd (fibonacci_heap_pop h)) \<and> fst (fibonacci_heap_pop h) = fn_data z \<and>
    (fn_id z, fn_data z) \<in># fib_entries h \<and>
    fib_entries (snd (fibonacci_heap_pop h)) = fib_entries h - {#(fn_id z, fn_data z)#} \<and>
    fh_cmp (snd (fibonacci_heap_pop h)) = fh_cmp h \<and> fh_next (snd (fibonacci_heap_pop h)) = fh_next h"
proof -
  note I = assms(1) [unfolded fib_inv0_def]
  let ?e = "(fn_id z, fn_data z)" and ?r = "lift_children (fn_child z) rest"
  let ?c = "consolidate (fh_cmp h) ?r"
  note m = lift_children_mset [of "fn_child z" rest]
  have good: "ring_good (fh_cmp h) ?r"
    using ring_good_mset [OF m] I assms(2) by (cases z) (auto simp: ring_good_def)
  have E: "fib_entries h = add_mset ?e (ring_entries ?r)"
    using ring_entries_mset [OF m] assms(2) by (cases z) (simp add: fib_entries_def)
  then have sub: "ring_entries ?r = fib_entries h - {#?e#}" by simp
  have n: "size (fib_entries h) = Suc (size (ring_entries ?r))" "size (ring_entries ?r) \<le> INT_MAX"
    "\<forall>e \<in># ring_entries ?r. snd e \<noteq> NULL \<and> fst e < fh_next h"
    using I unfolding E by simp_all
  have C: "ring_good (fh_cmp h) ?c" "min_first (fh_cmp h) ?c" "ring_entries ?c = ring_entries ?r"
    using consolidate_spec [OF _ good _ n(2)] n(3) I by simp_all
  have "wrap_int (fh_n h - 1) = int (size (ring_entries ?r))"
    using I n by (subst wrap_int_id) (simp_all add: is_int_def INT_MAX_def)
  moreover have "count (image_mset fst (ring_entries ?r)) i \<le> 1" for i
  proof -
    have "count (image_mset fst (ring_entries ?r)) i \<le> count (image_mset fst (fib_entries h)) i" by (simp add: E)
    also have "\<dots> \<le> 1" using I by blast
    finally show ?thesis .
  qed
  moreover have "snd (fibonacci_heap_pop h) = h\<lparr>fh_roots := ?c, fh_n := wrap_int (fh_n h - 1)\<rparr>"
    "fst (fibonacci_heap_pop h) = fn_data z" using assms(2) by (simp_all add: fibonacci_heap_pop_def)
  moreover have "?e \<in># fib_entries h" unfolding E by simp
  ultimately show ?thesis
    using I n C sub by (simp add: fib_inv_def fib_inv0_def fib_entries_def [of "h\<lparr>fh_roots := ?c, fh_n := N\<rparr>" for N])
qed

interpretation fh: priority_source fibonacci_heap_pop fibonacci_heap_peek fibonacci_heap_size
  fib_inv fib_bag "\<lambda>h a b. fh_cmp h b a" "\<lambda>h. 0"
proof unfold_locales
  fix h :: "'a fibonacci_heap"
  assume inv: "fib_inv h"
  show "fibonacci_heap_pop h = (NULL, h)" if "fib_bag h = {#}"
  proof (cases "fh_roots h")
    case (Cons z rest)
    then show ?thesis using that by (cases z) (simp add: fib_bag_def fib_entries_def)
  qed (simp add: fibonacci_heap_pop_def)
  show "fibonacci_heap_peek h = fst (fibonacci_heap_pop h)"
    by (simp add: fibonacci_heap_peek_def fibonacci_heap_pop_def split: list.split)
  show "fibonacci_heap_size h = int (size (fib_bag h))"
    using inv by (simp add: fibonacci_heap_size_def fib_inv_def fib_inv0_def fib_bag_def)
next
  fix h h' :: "'a fibonacci_heap" and x
  assume inv: "fib_inv h" and ne: "fib_bag h \<noteq> {#}" and pop: "fibonacci_heap_pop h = (x, h')"
  obtain z rest where z: "fh_roots h = z # rest"
    using ne by (cases "fh_roots h") (auto simp: fib_bag_def fib_entries_def)
  have P: "fib_inv h'" "x = fn_data z" "(fn_id z, fn_data z) \<in># fib_entries h"
    "fib_entries h' = fib_entries h - {#(fn_id z, fn_data z)#}" "fh_cmp h' = fh_cmp h"
    using fib_pop_spec [OF _ z] inv pop by (auto simp: fib_inv_def)
  have cmp: "comparator_order (fh_cmp h)" using inv by (simp add: fib_inv_def fib_inv0_def)
  have least: "fh_cmp h x (snd e) \<le> 0" if "e \<in># fib_entries h" for e
    using comparator_order.root_minimal [of "fh_cmp h" "fh_roots h" e] inv that z P(2)
    by (simp add: fib_inv_def fib_inv0_def fib_entries_def)
  have "0 \<le> fh_cmp h (snd e) x" if "e \<in># fib_entries h" for e
    using least [OF that] comparator_order.cmp_gt_iff [OF cmp, of x "snd e"] by linarith
  then have "\<forall>y \<in># fib_bag h. 0 \<le> fh_cmp h y x" by (auto simp: fib_bag_def)
  moreover have "x \<in># fib_bag h" using image_eqI [OF _ P(3), of x snd] P(2) by (simp add: fib_bag_def)
  moreover have "fib_bag h' = fib_bag h - {#x#}" unfolding fib_bag_def P(4) using P(2,3) by (simp add: image_mset_Diff)
  ultimately show "fib_inv h' \<and> (\<lambda>a b. fh_cmp h' b a) = (\<lambda>a b. fh_cmp h b a) \<and> (0 :: nat) = 0 \<and>
      x \<in># fib_bag h \<and> (\<forall>y \<in># fib_bag h. 0 \<le> fh_cmp h y x) \<and> fib_bag h' = fib_bag h - {#x#}"
    unfolding P(5) using P(1) by blast
qed

lemma fib_put_spec:
  assumes "fib_inv h" "size (fib_entries h) < INT_MAX" "data \<noteq> NULL" "fibonacci_heap_put h data w = (e, h', w')"
  shows "fib_inv h' \<and> fh_cmp h' = fh_cmp h \<and>
    (if e = OVA_SUCCESS then fib_entries h' = add_mset (fh_next h, data) (fib_entries h) \<and> fh_next h' = fh_next h + 1
     else e = OVA_ERROR_MEMORY \<and> h' = h \<and> alloc_fails w \<noteq> [])"
proof (cases "malloc_struct w")
  case (Pair ok w1)
  show ?thesis
  proof (cases ok)
    case False
    then show ?thesis using assms Pair by (auto simp: fibonacci_heap_put_def malloc_no_failures malloc_struct_def PTRDIFF_MAX_def)
  next
    case True
    let ?t = "fib_node_create (fh_next h) data" and ?c = "fh_cmp h"
    let ?r = "ring_insert ?c ?t (fh_roots h)"
    have I: "comparator_order ?c" "ring_good ?c (fh_roots h)" "fh_n h = int (size (fib_entries h))" "min_first ?c (fh_roots h)"
      "\<forall>e \<in># fib_entries h. snd e \<noteq> NULL \<and> fst e < fh_next h" "\<forall>i. count (image_mset fst (fib_entries h)) i \<le> 1"
      using assms(1) by (simp_all add: fib_inv_def fib_inv0_def)
    have m: "mset ?r = mset (?t # fh_roots h)" by (simp add: ring_insert_mset)
    have h': "h' = h\<lparr>fh_roots := ?r, fh_n := wrap_int (fh_n h + 1), fh_next := fh_next h + 1\<rparr>" "e = OVA_SUCCESS"
      using assms(4) Pair True by (simp_all add: fibonacci_heap_put_def)
    have E: "fib_entries h' = add_mset (fh_next h, data) (fib_entries h)"
      using ring_entries_mset [OF m] by (simp add: h' fib_entries_def fib_node_create_def)
    have "ring_good ?c ?r" using ring_good_mset [OF m] I(2) by (simp add: fib_node_create_def ranks_ok_def)
    moreover have "min_first ?c ?r" using comparator_order.ring_insert_min [OF I(1,4)] .
    moreover have "wrap_int (fh_n h + 1) = int (size (fib_entries h) + 1)"
      using I(3) assms(2) by (subst wrap_int_id) (simp_all add: is_int_def INT_MAX_def)
    moreover have "count (image_mset fst (fib_entries h)) (fh_next h) = 0"
      using I(5) by (auto simp: count_eq_zero_iff)
    moreover have "\<forall>e \<in># fib_entries h'. snd e \<noteq> NULL \<and> fst e < fh_next h'"
      using I(5) assms(3) unfolding E by (auto simp: h' less_Suc_eq)
    ultimately show ?thesis using I E h' assms(2) by (simp add: fib_inv_def fib_inv0_def)
  qed
qed

lemma put_with_handle_put:
  "fibonacci_heap_put_with_handle h data w =
     (case fibonacci_heap_put h data w of (e, h', w') \<Rightarrow> (if e = OVA_SUCCESS then Some (fh_next h) else None, h', w'))"
  by (simp add: fibonacci_heap_put_with_handle_def fibonacci_heap_put_def split: prod.split bool.split)

lemma create_fib_inv:
  "create_fibonacci_heap cmp w = (Some h, w') \<Longrightarrow> comparator_order cmp \<Longrightarrow> fib_inv h \<and> fib_entries h = {#} \<and> fh_cmp h = cmp"
  by (auto simp: create_fibonacci_heap_def fib_inv_def fib_inv0_def fib_entries_def min_first_def
      split: prod.splits bool.splits)

lemma fib_push_all:
  "fib_inv h \<Longrightarrow> size (fib_entries h) + length xs \<le> INT_MAX \<Longrightarrow> \<forall>x \<in> set xs. x \<noteq> NULL \<Longrightarrow>
     push_all fibonacci_heap_put xs h w = (OVA_SUCCESS, h', w') \<Longrightarrow>
     fib_inv h' \<and> fh_cmp h' = fh_cmp h \<and> fib_bag h' = fib_bag h + mset xs"
proof (induction xs arbitrary: h w)
  case (Cons x xs)
  obtain e h1 w1 where put: "fibonacci_heap_put h x w = (e, h1, w1)" by (metis prod_cases3)
  have e: "e = OVA_SUCCESS" using Cons.prems(4) put by (auto split: if_splits)
  have P: "fib_inv h1" "fh_cmp h1 = fh_cmp h" "fib_entries h1 = add_mset (fh_next h, x) (fib_entries h)"
    using fib_put_spec [OF Cons.prems(1) _ _ put] Cons.prems(2,3) e by simp_all
  have "push_all fibonacci_heap_put xs h1 w1 = (OVA_SUCCESS, h', w')" using Cons.prems(4) put e by simp
  then have "fib_inv h' \<and> fh_cmp h' = fh_cmp h1 \<and> fib_bag h' = fib_bag h1 + mset xs"
    using Cons.IH [of h1 w1] P(1,3) Cons.prems(2,3) by simp
  then show ?case using P(2,3) by (simp add: fib_bag_def)
qed simp

section \<open>Paths\<close>

lemma with_children_simps [simp]:
  "fn_id (with_children cs t) = fn_id t" "fn_data (with_children cs t) = fn_data t"
  "rank (with_children cs t) = rank t" "fn_degree (with_children cs t) = fn_degree t"
  "with_children (fn_child t) t = t"
  by (cases t; simp)+

lemma fib_locate_spec:
  "locate i ups before ts = Some (x, b, a, ups') \<Longrightarrow> plug (b @ x # a) ups' = plug (before @ ts) ups \<and> fn_id x = i"
  "locate i ups before ts = None \<Longrightarrow> e \<in># ring_entries ts \<Longrightarrow> fst e \<noteq> i"
  by (induction i ups before ts rule: locate.induct) (auto split: if_splits option.splits)

fun up_entries :: "'a fib_up list \<Rightarrow> (nat \<times> 'a ptr) multiset" where
  "up_entries [] = {#}"
| "up_entries (Fib_Up y b a # ups) = add_mset (fn_id y, fn_data y) (ring_entries b + ring_entries a + up_entries ups)"

lemma plug_entries: "ring_entries (plug ring ups) = ring_entries ring + up_entries ups"
proof (induction ring ups rule: plug.induct)
  case (2 ring y b a ups)
  then show ?case by (cases y) simp
qed simp

text \<open>What the place at the end of a path asks of the ring there, and of the path itself.\<close>

fun fits :: "'a comparator \<Rightarrow> 'a fib_up list \<Rightarrow> 'a fib_node list \<Rightarrow> bool" where
  "fits cmp [] ring \<longleftrightarrow> True"
| "fits cmp (Fib_Up y b a # ups) ring \<longleftrightarrow>
     length ring = fn_degree y \<and> ranks_ok (map rank ring) \<and> (\<forall>t \<in> set ring. cmp (fn_data y) (fn_data t) \<le> 0)"

fun path_good :: "'a comparator \<Rightarrow> 'a fib_up list \<Rightarrow> bool" where
  "path_good cmp [] \<longleftrightarrow> True"
| "path_good cmp (Fib_Up y b a # ups) \<longleftrightarrow>
     ring_good cmp b \<and> ring_good cmp a \<and> fits cmp ups (b @ y # a) \<and> path_good cmp ups"

lemma fits_maps:
  "fits cmp (Fib_Up y b a # ups) ring \<longleftrightarrow>
     length (map rank ring) = fn_degree y \<and> ranks_ok (map rank ring) \<and> (\<forall>d \<in> set (map fn_data ring). cmp (fn_data y) d \<le> 0)"
  by simp

lemma fits_same:
  assumes "map rank ring = map rank ring'" "map fn_data ring = map fn_data ring'"
  shows "fits cmp ups ring = fits cmp ups ring'"
proof (cases ups)
  case (Cons u us)
  obtain y b a where u: "u = Fib_Up y b a" by (cases u)
  show ?thesis unfolding Cons u fits_maps assms ..
qed simp

lemma plug_good: "ring_good cmp (plug ring ups) \<longleftrightarrow> ring_good cmp ring \<and> fits cmp ups ring \<and> path_good cmp ups"
proof (induction ring ups rule: plug.induct)
  case (2 ring y b a ups)
  have "fits cmp ups (b @ with_children ring y # a) = fits cmp ups (b @ y # a)" by (rule fits_same) simp_all
  with 2 show ?case by (cases y) (auto simp: ring_good_def)
qed simp

lemma plug_data: "map fn_data ring = map fn_data ring' \<Longrightarrow> map fn_data (plug ring ups) = map fn_data (plug ring' ups)"
proof (induction ups arbitrary: ring ring')
  case (Cons u ups)
  show ?case by (cases u) (auto intro!: Cons.IH)
qed simp

lemma plug_up_data: "map fn_data (plug ring (u # ups)) = map fn_data (plug ring' (u # ups))"
  by (cases u) (auto intro!: plug_data)

lemma plug_ne: "ring \<noteq> [] \<Longrightarrow> plug ring ups \<noteq> []"
  by (induction ring ups rule: plug.induct) auto

lemma ranks_ok_remove: "ranks_ok (b @ r # a) \<Longrightarrow> ranks_ok (b @ a)"
  unfolding ranks_ok_def
proof (intro allI impI)
  fix j assume all: "\<forall>j < length (b @ r # a). j \<le> (b @ r # a) ! j" and j: "j < length (b @ a)"
  show "j \<le> (b @ a) ! j"
    using spec [OF all, of j] spec [OF all, of "Suc j"] j by (auto simp: nth_append Suc_diff_le split: if_splits)
qed

section \<open>Cuts\<close>

lemma cut_simps [simp]:
  "entries (cut_parent others t) = add_mset (fn_id t, fn_data t) (ring_entries others)"
  "fn_data (cut_parent others t) = fn_data t" "fn_id (cut_parent others t) = fn_id t"
  "entries (cut_node t) = entries t" "fn_data (cut_node t) = fn_data t" "fn_id (cut_node t) = fn_id t"
  "tree_ordered cmp (cut_node t) = tree_ordered cmp t" "shaped (cut_node t) = shaped t"
  "entries (set_mark m t) = entries t" "fn_data (set_mark m t) = fn_data t"
  "tree_ordered cmp (set_mark m t) = tree_ordered cmp t" "shaped (set_mark m t) = shaped t"
  "\<not> fn_mark t \<Longrightarrow> rank (set_mark True t) = rank t + 1"
  by (cases t; simp add: cut_node_def)+

lemma spread_simps [simp]:
  "ring_entries (spread moved ring) = ring_entries moved + ring_entries ring"
  "ring_good cmp (spread moved ring) \<longleftrightarrow> ring_good cmp moved \<and> ring_good cmp ring"
  "set (spread moved ring) = set moved \<union> set ring"
  "ring \<noteq> [] \<Longrightarrow> hd (spread moved ring) = hd ring"
  by (cases ring; auto)+

lemma cascading_cut_entries:
  "ring_entries (cascading_cut y before after ups moved) =
     entries y + ring_entries before + ring_entries after + up_entries ups + ring_entries moved"
  by (induction y before after ups moved rule: cascading_cut.induct) (simp_all add: plug_entries ac_simps del: plug.simps)

lemma cascading_cut_moved: "set moved \<subseteq> set (cascading_cut y before after ups moved)"
  by (induction y before after ups moved rule: cascading_cut.induct) (auto simp del: plug.simps)

lemma hd_data: "map fn_data r = map fn_data r' \<Longrightarrow> r \<noteq> [] \<Longrightarrow> fn_data (hd r) = fn_data (hd r')"
  by (cases r; cases r') auto

lemma cascading_cut_hd:
  "fn_data (hd (cascading_cut y before after ups moved)) = fn_data (hd (plug (before @ y # after) ups))"
proof (induction y before after ups moved rule: cascading_cut.induct)
  case (2 y before after z zb za ups moved)
  have cut: "fn_data (hd (plug (zb @ cut_parent (before @ after) z # za) ups)) =
      fn_data (hd (plug (zb @ with_children (before @ y # after) z # za) ups))"
    by (intro hd_data plug_data plug_ne) simp_all
  have mark: "fn_data (hd (plug (before @ set_mark True y # after) (Fib_Up z zb za # ups))) =
      fn_data (hd (plug (before @ y # after) (Fib_Up z zb za # ups)))"
    by (intro hd_data plug_up_data plug_ne) simp_all
  have "plug (before @ set_mark True y # after) (Fib_Up z zb za # ups) \<noteq> []" by (rule plug_ne) simp
  then show ?case using 2 cut mark by (simp del: plug.simps) simp
qed simp

text \<open>The parent of a node that is cut fits where the parent stood, once it is marked or cut itself.\<close>

lemma fits_parent:
  assumes "fits cmp (Fib_Up z zb za # ups) (b @ x # a)" "ring_good cmp (b @ a)"
  shows "tree_ordered cmp (cut_parent (b @ a) z)" "shaped (cut_parent (b @ a) z)" "rank z = rank (cut_parent (b @ a) z) + 1"
  using assms ranks_ok_remove [of "map rank b" "rank x" "map rank a"] by (cases z; auto simp: ring_good_def)+

lemma cascading_cut_good:
  "tree_ordered cmp y \<Longrightarrow> shaped y \<Longrightarrow> ring_good cmp (before @ after) \<Longrightarrow> path_good cmp ups \<Longrightarrow>
     fits cmp ups (before @ y0 # after) \<Longrightarrow> rank y0 = rank y + 1 \<Longrightarrow> fn_data y0 = fn_data y \<Longrightarrow> ring_good cmp moved \<Longrightarrow>
     ring_good cmp (cascading_cut y before after ups moved)"
proof (induction y before after ups moved arbitrary: y0 rule: cascading_cut.induct)
  case (2 y before after z zb za ups moved)
  show ?case
  proof (cases "fn_mark y")
    case False
    have "fits cmp (Fib_Up z zb za # ups) (before @ set_mark True y # after) = fits cmp (Fib_Up z zb za # ups) (before @ y0 # after)"
      using False "2.prems"(6,7) by (intro fits_same) simp_all
    then show ?thesis using False 2 by (simp add: plug_good del: plug.simps fits.simps)
  next
    case True
    have z: "ring_good cmp zb" "ring_good cmp za" "fits cmp ups (zb @ z # za)" "path_good cmp ups"
      using "2.prems"(4) by simp_all
    note p = fits_parent [OF "2.prems"(5,3)]
    have "ring_good cmp (cascading_cut (cut_parent (before @ after) z) zb za ups (cut_node y # moved))"
      by (rule "2.IH" [OF _ p(1,2) _ z(4,3) p(3)]) (use True z(1,2) "2.prems" in simp_all)
    then show ?thesis using True by simp
  qed
qed simp
text \<open>Cutting a node out of its place, with its payload changed or not.\<close>

lemma cut_out:
  assumes "locate i [] [] roots = Some (x, b, a, Fib_Up y yb ya # ups)" "ring_good cmp roots"
    "tree_ordered cmp x'" "shaped x'"
    "R = cascading_cut (cut_parent (b @ a) y) yb ya ups [cut_node x']"
  shows "ring_good cmp R \<and> ring_entries R + entries x = ring_entries roots + entries x' \<and> cut_node x' \<in> set R \<and>
    fn_data (hd R) = fn_data (hd roots)"
proof -
  have P: "plug (b @ x # a) (Fib_Up y yb ya # ups) = roots" using fib_locate_spec(1) [OF assms(1)] by simp
  then have G: "ring_good cmp (b @ x # a)" "fits cmp (Fib_Up y yb ya # ups) (b @ x # a)" "path_good cmp (Fib_Up y yb ya # ups)"
    using plug_good [of cmp "b @ x # a" "Fib_Up y yb ya # ups"] assms(2) by simp_all
  note p = fits_parent [OF G(2)]
  have "ring_good cmp R" unfolding assms(5)
    by (rule cascading_cut_good [where ?y0.0 = y]) (use p G assms(3,4) in simp_all)
  moreover have "ring_entries roots = ring_entries (b @ x # a) + up_entries (Fib_Up y yb ya # ups)"
    using plug_entries [of "b @ x # a" "Fib_Up y yb ya # ups"] P by simp
  then have "ring_entries R + entries x = ring_entries roots + entries x'"
    unfolding assms(5) cascading_cut_entries by (simp add: ac_simps)
  moreover have "cut_node x' \<in> set R" unfolding assms(5) using cascading_cut_moved [of "[cut_node x']"] by auto
  moreover have "fn_data (hd R) = fn_data (hd roots)" unfolding assms(5) cascading_cut_hd P [symmetric] plug.simps
    by (intro hd_data plug_data plug_ne) simp_all
  ultimately show ?thesis by blast
qed

lemma set_node_data_simps [simp]:
  "fn_id (set_node_data d t) = fn_id t" "fn_data (set_node_data d t) = d" "rank (set_node_data d t) = rank t"
  "shaped (set_node_data d t) = shaped t"
  "entries (set_node_data d t) + {#(fn_id t, fn_data t)#} = entries t + {#(fn_id t, d)#}"
  by (cases t; simp)+

lemma rotate_to_mset: "mset (rotate_to i ring) = mset ring"
  by (metis add.commute mset_append rotate_to_def takeWhile_dropWhile_id)

lemma rotate_to_hd:
  assumes "t \<in> set ring" "fn_id t = i"
  obtains z rest where "rotate_to i ring = z # rest" "fn_id z = i" "z \<in> set ring"
proof -
  have ne: "dropWhile (\<lambda>t. fn_id t \<noteq> i) ring \<noteq> []" using assms by (auto simp: dropWhile_eq_Nil_conv)
  then obtain z rest where z: "dropWhile (\<lambda>t. fn_id t \<noteq> i) ring = z # rest" by (meson neq_Nil_conv)
  then have "fn_id z = i" using hd_dropWhile [OF ne] by simp
  moreover have "z \<in> set ring" using z by (metis list.set_intros(1) set_dropWhileD)
  ultimately show thesis using that [of z "rest @ takeWhile (\<lambda>t. fn_id t \<noteq> i) ring"] z by (simp add: rotate_to_def)
qed

lemma handle_unique:
  assumes "\<forall>i. count (image_mset fst E) i \<le> 1" "(i, d) \<in># E" "(i, d') \<in># E"
  shows "d = d'"
proof (rule ccontr)
  assume ne: "d \<noteq> d'"
  obtain E1 where E: "E = add_mset (i, d) E1" using assms(2) by (metis insert_DiffM)
  then have "(i, d') \<in># E1" using assms(3) ne by simp
  then have "1 \<le> count (image_mset fst E1) i" unfolding count_greater_eq_one_iff by force
  moreover have "count (image_mset fst E) i = Suc (count (image_mset fst E1) i)" by (simp add: E)
  ultimately show False using spec [OF assms(1), of i] by linarith
qed

context comparator_order
begin

lemma set_node_data_ordered: "tree_ordered cmp t \<Longrightarrow> cmp d (fn_data t) \<le> 0 \<Longrightarrow> tree_ordered cmp (set_node_data d t)"
  by (cases t) (auto intro: cmp_trans)

text \<open>The minimum after a payload has become \<open>d\<close>, where \<open>m\<close> was the minimum.\<close>

lemma settle_min:
  assumes others: "\<And>t. t \<in> set ring \<Longrightarrow> cmp m (fn_data t) \<le> 0 \<or> fn_data t = d"
    and first: "fn_data (hd ring) = m \<or> fn_data (hd ring) = d \<and> cmp d m \<le> 0"
    and there: "cmp d (fn_data (hd ring)) < 0 \<Longrightarrow> \<exists>t \<in> set ring. fn_id t = i"
    and same: "\<And>t. t \<in> set ring \<Longrightarrow> fn_id t = i \<Longrightarrow> fn_data t = d"
  shows "min_first cmp (if cmp d (fn_data (hd ring)) < 0 then rotate_to i ring else ring)"
proof (cases "cmp d (fn_data (hd ring)) < 0")
  case True
  then obtain z rest where z: "rotate_to i ring = z # rest" "fn_id z = i" "z \<in> set ring"
    using there rotate_to_hd by blast
  have "fn_data (hd ring) = m" using first True by auto
  then have "cmp d (fn_data t) \<le> 0" if "t \<in> set ring" for t
    using others [OF that] True cmp_trans [of d m "fn_data t"] by auto
  moreover have "set (rotate_to i ring) = set ring" using rotate_to_mset mset_eq_setD by blast
  ultimately show ?thesis using True z same by (auto simp: min_first_def)
next
  case False
  then have "cmp (fn_data (hd ring)) d \<le> 0" using cmp_gt_iff [of "fn_data (hd ring)" d] by linarith
  then have "cmp (fn_data (hd ring)) (fn_data t) \<le> 0" if "t \<in> set ring" for t
    using others [OF that] first cmp_trans [of d m "fn_data t"] by auto
  then show ?thesis using False by (simp add: min_first_def)
qed

end
text \<open>What \<open>locate\<close> finds for a handle in a heap.\<close>

lemma locate_handle:
  assumes "fib_inv0 h" "(i, d) \<in># fib_entries h"
  obtains x b a ups where "locate i [] [] (fh_roots h) = Some (x, b, a, ups)" "plug (b @ x # a) ups = fh_roots h"
    "fn_id x = i" "fn_data x = d"
proof -
  obtain x b a ups where L: "locate i [] [] (fh_roots h) = Some (x, b, a, ups)"
    using fib_locate_spec(2) [of i "[]" "[]" "fh_roots h" "(i, d)"] assms(2)
    by (cases "locate i [] [] (fh_roots h)") (auto simp: fib_entries_def)
  have P: "plug (b @ x # a) ups = fh_roots h" "fn_id x = i" using fib_locate_spec(1) [OF L] by simp_all
  then have "(i, fn_data x) \<in># fib_entries h"
    using plug_entries [of "b @ x # a" ups] by (cases x) (simp add: fib_entries_def)
  then have "fn_data x = d" using handle_unique [OF _ assms(2)] assms(1) by (simp add: fib_inv0_def)
  with L P show thesis by (rule that)
qed

lemma raise_node_spec:
  assumes "fib_inv h" "(i, old) \<in># fib_entries h" "fh_cmp h d old \<le> 0"
    and L: "locate i [] [] (fh_roots h) = Some (x, b, a, ups)"
    and R: "R = raise_node (fh_cmp h) d x b a ups" and m: "m = fn_data (hd (fh_roots h))"
  shows "ring_good (fh_cmp h) R \<and> ring_entries R + {#(i, old)#} = fib_entries h + {#(i, d)#} \<and>
      (fn_data (hd R) = m \<or> fn_data (hd R) = d \<and> fh_cmp h d m \<le> 0) \<and>
      (fh_cmp h d (fn_data (hd R)) < 0 \<longrightarrow> (\<exists>t \<in> set R. fn_id t = i))"
proof -
  let ?c = "fh_cmp h"
  have I: "comparator_order ?c" "ring_good ?c (fh_roots h)" "min_first ?c (fh_roots h)"
    using assms(1) by (simp_all add: fib_inv_def fib_inv0_def)
  have P: "plug (b @ x # a) ups = fh_roots h" "fn_id x = i" "fn_data x = old"
    using locate_handle [of h i old] assms(1,2) L by (auto simp: fib_inv_def)
  have G: "ring_good ?c (b @ x # a)" "fits ?c ups (b @ x # a)" "path_good ?c ups"
    using plug_good [of ?c "b @ x # a" ups] P(1) I(2) by simp_all
  have E: "fib_entries h = ring_entries (b @ x # a) + up_entries ups"
    using plug_entries [of "b @ x # a" ups] P(1) by (simp add: fib_entries_def)
  define x' where "x' = set_node_data d x"
  have x': "tree_ordered ?c x'" "shaped x'" "fn_id x' = i" "fn_data x' = d" "rank x' = rank x"
    "entries x' + {#(i, old)#} = entries x + {#(i, d)#}"
    using comparator_order.set_node_data_ordered [OF I(1), of x d] G(1) assms(3) P(2,3) set_node_data_simps(5) [of d x]
    by (simp_all add: x'_def)
  show ?thesis
  proof (cases ups)
    case Nil
    have "fn_data (hd R) = m \<or> fn_data (hd R) = d \<and> ?c d m \<le> 0"
      using Nil P assms(3) by (cases b) (auto simp: R m raise_node_def x'_def [symmetric] x'(4) simp flip: P(1))
    then show ?thesis using Nil G(1) x' E by (simp add: R raise_node_def x'_def [symmetric] ac_simps)
  next
    case (Cons u ups')
    obtain y yb ya where "u = Fib_Up y yb ya" by (cases u)
    note ups = Cons [unfolded this]
    show ?thesis
    proof (cases "?c d (fn_data y) < 0")
      case True
      then have Req: "R = cascading_cut (cut_parent (b @ a) y) yb ya ups' [cut_node x']"
        by (simp add: R raise_node_def ups x'_def)
      note C = cut_out [OF L [unfolded ups] I(2) x'(1,2) Req]
      have "ring_entries R + {#(i, old)#} + entries x = ring_entries R + entries x + {#(i, old)#}" by (simp only: ac_simps)
      also have "\<dots> = fib_entries h + (entries x' + {#(i, old)#})" using C by (simp only: fib_entries_def ac_simps)
      also have "\<dots> = fib_entries h + {#(i, d)#} + entries x" unfolding x'(6) by (simp only: ac_simps)
      finally have "ring_entries R + {#(i, old)#} = fib_entries h + {#(i, d)#}" by (rule add_right_imp_eq)
      moreover have "\<exists>t \<in> set R. fn_id t = i" using C x'(3) by (intro bexI [of _ "cut_node x'"]) simp_all
      ultimately show ?thesis using C m by simp
    next
      case False
      then have Req: "R = plug (b @ x' # a) ups" by (simp add: R raise_node_def ups x'_def)
      have le: "?c (fn_data y) d \<le> 0" using False comparator_order.cmp_gt_iff [OF I(1), of "fn_data y" d] by linarith
      then have "ring_good ?c R" using G x'(1,2,4,5) by (auto simp: Req plug_good ups simp del: plug.simps)
      moreover have "ring_entries R + {#(i, old)#} = fib_entries h + {#(i, d)#}"
        using plug_entries [of "b @ x' # a" ups] E x'(6) by (simp add: Req ac_simps)
      moreover have "fn_data (hd R) = m" unfolding Req m P(1) [symmetric] ups by (intro hd_data plug_up_data plug_ne) simp
      moreover have "?c m (fn_data y) \<le> 0"
        using comparator_order.root_minimal [OF I, of "(fn_id y, fn_data y)"] E by (simp add: ups m fib_entries_def)
      then have "?c m d \<le> 0" using comparator_order.cmp_trans [OF I(1)] le by blast
      then have "\<not> ?c d m < 0" using comparator_order.cmp_gt_iff [OF I(1), of m d] by linarith
      ultimately show ?thesis by simp
    qed
  qed
qed

text \<open>A heap whose entries change is a heap again if the handles stay and the size does.\<close>

lemma fib_inv_change:
  assumes "fib_inv0 h" "ring_good (fh_cmp h) R" "image_mset fst (ring_entries R) = image_mset fst (fib_entries h)"
    "\<forall>e \<in># ring_entries R. snd e \<noteq> NULL"
  shows "fib_inv0 (h\<lparr>fh_roots := R\<rparr>)"
proof -
  have "size (ring_entries R) = size (fib_entries h)" using arg_cong [OF assms(3), of size] by simp
  moreover have "\<forall>e \<in># ring_entries R. fst e < fh_next h"
  proof
    fix e assume "e \<in># ring_entries R"
    then have "fst e \<in># image_mset fst (fib_entries h)" by (simp flip: assms(3))
    then show "fst e < fh_next h" using assms(1) by (auto simp: fib_inv0_def)
  qed
  moreover have "count (image_mset fst (ring_entries R)) i \<le> 1" for i
    unfolding assms(3) using assms(1) unfolding fib_inv0_def by blast
  ultimately show ?thesis using assms(1,2,4) by (simp add: fib_inv0_def fib_entries_def)
qed

lemma fib_decrease_key_spec:
  assumes "fib_inv h" "(i, old) \<in># fib_entries h" "fh_cmp h d old \<le> 0" "d \<noteq> NULL"
  shows "\<exists>h'. fibonacci_heap_decrease_key h (Some i) d = Some (OVA_SUCCESS, h') \<and> fib_inv h' \<and>
    fib_entries h' = add_mset (i, d) (fib_entries h - {#(i, old)#}) \<and> fh_cmp h' = fh_cmp h \<and> fh_next h' = fh_next h"
proof -
  have I0: "fib_inv0 h" and I: "comparator_order (fh_cmp h)" "ring_good (fh_cmp h) (fh_roots h)" "min_first (fh_cmp h) (fh_roots h)"
    using assms(1) by (simp_all add: fib_inv_def fib_inv0_def)
  obtain x b a ups where L: "locate i [] [] (fh_roots h) = Some (x, b, a, ups)" using locate_handle [OF I0 assms(2)] .
  define R where "R = raise_node (fh_cmp h) d x b a ups"
  define R' where "R' = (if fh_cmp h d (fn_data (hd R)) < 0 then rotate_to i R else R)"
  note S = raise_node_spec [OF assms(1-3) L R_def refl]
  obtain E1 where E1: "fib_entries h = add_mset (i, old) E1" using assms(2) by (metis insert_DiffM)
  have E: "ring_entries R = add_mset (i, d) E1" using S E1 by simp
  have m: "mset R' = mset R" by (simp add: R'_def rotate_to_mset)
  have E': "ring_entries R' = add_mset (i, d) E1" using ring_entries_mset [OF m] E by simp
  have roots: "(fn_id t, fn_data t) = (i, d) \<or> (fn_id t, fn_data t) \<in># E1" if "t \<in> set R" for t
    using ring_entries_root [OF that] E by simp
  have "min_first (fh_cmp h) R'" unfolding R'_def
  proof (rule comparator_order.settle_min [OF I(1)])
    show "fh_cmp h (fn_data (hd (fh_roots h))) (fn_data t) \<le> 0 \<or> fn_data t = d" if "t \<in> set R" for t
      using roots [OF that] comparator_order.root_minimal [OF I, of "(fn_id t, fn_data t)"] E1 by (auto simp: fib_entries_def)
    have "count (image_mset fst (add_mset (i, d) E1)) j \<le> 1" for j
      using I0 unfolding fib_inv0_def E1 by simp
    then show "fn_data t = d" if "t \<in> set R" "fn_id t = i" for t
      using handle_unique [of "add_mset (i, d) E1" i d "fn_data t"] roots [OF that(1)] that(2) by auto
  qed (use S in auto)
  moreover have "fib_inv0 (h\<lparr>fh_roots := R'\<rparr>)"
  proof (rule fib_inv_change [OF I0])
    show "ring_good (fh_cmp h) R'" using ring_good_mset [OF m] S by blast
    show "\<forall>e \<in># ring_entries R'. snd e \<noteq> NULL" using I0 assms(4) unfolding E' fib_inv0_def E1 by simp
  qed (simp add: E' E1)
  ultimately have "fib_inv (h\<lparr>fh_roots := R'\<rparr>)" by (simp add: fib_inv_def)
  moreover have "fib_entries (h\<lparr>fh_roots := R'\<rparr>) = add_mset (i, d) (fib_entries h - {#(i, old)#})"
    using E' E1 by (simp add: fib_entries_def)
  moreover have "fibonacci_heap_decrease_key h (Some i) d = Some (OVA_SUCCESS, h\<lparr>fh_roots := R'\<rparr>)"
    using assms(4) L by (simp add: fibonacci_heap_decrease_key_def R'_def R_def Let_def)
  ultimately show ?thesis by simp
qed

lemma fib_delete_spec:
  assumes "fib_inv h" "(i, old) \<in># fib_entries h"
  shows "\<exists>h'. fibonacci_heap_delete h (Some i) = Some (OVA_SUCCESS, h') \<and> fib_inv h' \<and>
    fib_entries h' = fib_entries h - {#(i, old)#} \<and> fh_cmp h' = fh_cmp h \<and> fh_next h' = fh_next h"
proof -
  have I0: "fib_inv0 h" and I: "ring_good (fh_cmp h) (fh_roots h)" using assms(1) by (simp_all add: fib_inv_def fib_inv0_def)
  obtain x b a ups where L: "locate i [] [] (fh_roots h) = Some (x, b, a, ups)" "plug (b @ x # a) ups = fh_roots h" "fn_id x = i"
    using locate_handle [OF I0 assms(2)] .
  have x: "tree_ordered (fh_cmp h) x" "shaped x" using plug_good [of "fh_cmp h" "b @ x # a" ups] L(2) I by simp_all
  define R where "R = (case ups of
      [] \<Rightarrow> b @ x # a
    | Fib_Up y yb ya # ups' \<Rightarrow> cascading_cut (cut_parent (b @ a) y) yb ya ups' [cut_node x])"
  have R: "ring_good (fh_cmp h) R \<and> ring_entries R = fib_entries h \<and> (\<exists>t \<in> set R. fn_id t = i)"
  proof (cases ups)
    case Nil
    then have "fh_roots h = b @ x # a" using L(2) by simp
    then show ?thesis using Nil L(3) I by (simp add: R_def fib_entries_def)
  next
    case (Cons u ups')
    obtain y yb ya where "u = Fib_Up y yb ya" by (cases u)
    note ups = Cons [unfolded this]
    have Req: "R = cascading_cut (cut_parent (b @ a) y) yb ya ups' [cut_node x]" by (simp add: R_def ups)
    show ?thesis using cut_out [OF L(1) [unfolded ups] I x Req] L(3)
      by (auto simp: fib_entries_def intro!: bexI [of _ "cut_node x"])
  qed
  then obtain z rest where z: "rotate_to i R = z # rest" "fn_id z = i" using rotate_to_hd by blast
  let ?h = "h\<lparr>fh_roots := rotate_to i R\<rparr>"
  have E: "fib_entries ?h = fib_entries h" using ring_entries_mset [OF rotate_to_mset, of i R] R by (simp add: fib_entries_def)
  have "fib_inv0 ?h"
  proof (rule fib_inv_change [OF I0])
    show "ring_good (fh_cmp h) (rotate_to i R)" using ring_good_mset [OF rotate_to_mset] R by blast
    show "image_mset fst (ring_entries (rotate_to i R)) = image_mset fst (fib_entries h)" using E by (simp add: fib_entries_def)
    show "\<forall>e \<in># ring_entries (rotate_to i R). snd e \<noteq> NULL" using E I0 by (simp add: fib_entries_def fib_inv0_def)
  qed
  note P = fib_pop_spec [OF this, of z rest]
  have "fn_data z = old" using handle_unique [OF _ assms(2), of "fn_data z"] P z I0 unfolding E fib_inv0_def by simp
  then have "fib_entries (snd (fibonacci_heap_pop ?h)) = fib_entries h - {#(i, old)#}" using P z E by simp
  moreover have "fibonacci_heap_delete h (Some i) = Some (OVA_SUCCESS, snd (fibonacci_heap_pop ?h))"
    using L(1) by (simp add: fibonacci_heap_delete_def R_def)
  ultimately show ?thesis using P z by simp
qed

section \<open>Properties\<close>

lemma fib_push_all_no_failures:
  assumes "alloc_fails w = []"
  shows "\<exists>h'. push_all fibonacci_heap_put xs h w = (OVA_SUCCESS, h', w)"
proof (induction xs arbitrary: h)
  case (Cons x xs)
  have "malloc_struct w = (True, w)" using assms by (simp add: malloc_struct_def malloc_no_failures PTRDIFF_MAX_def)
  then show ?case using Cons by (simp add: fibonacci_heap_put_def)
qed simp

text \<open>A payload that is null does not survive the next consolidation, although \<open>put\<close> accepts it.\<close>

lemma consolidate_drops_null: "consolidate cmp [fib_node_create i NULL] = []"
  by (simp add: consolidate_def place_root_def fib_node_create_def collect_root_def numeral_eq_Suc)

text \<open>C33: A Fibonacci heap that has taken a batch gives it back from the least element up: popping as
  many times as were put returns a permutation of the batch in ascending order, \<open>peek\<close> shows the
  first of them, and nothing is left.\<close>

theorem fibonacci_heap_sorts:
  assumes "create_fibonacci_heap cmp w = (Some h, w1)" "comparator_order cmp"
    and "\<forall>x \<in> set xs. x \<noteq> NULL" "length xs \<le> INT_MAX"
    and "push_all fibonacci_heap_put xs h w1 = (OVA_SUCCESS, h1, w2)"
  shows "mset (fst (pop_n fibonacci_heap_pop (length xs) h1)) = mset xs \<and>
    sorted_wrt (\<lambda>a b. cmp a b \<le> 0) (fst (pop_n fibonacci_heap_pop (length xs) h1)) \<and>
    (xs \<noteq> [] \<longrightarrow> fibonacci_heap_peek h1 = hd (fst (pop_n fibonacci_heap_pop (length xs) h1))) \<and>
    fib_bag (snd (pop_n fibonacci_heap_pop (length xs) h1)) = {#}"
proof -
  let ?out = "pop_n fibonacci_heap_pop (length xs) h1"
  note h = create_fib_inv [OF assms(1,2)]
  have h1: "fib_inv h1" "fh_cmp h1 = cmp" "fib_bag h1 = mset xs"
    using fib_push_all [OF _ _ assms(3,5)] h assms(4) by (simp_all add: fib_bag_def)
  have out: "fib_bag h1 = mset (fst ?out) + fib_bag (snd ?out)" "length (fst ?out) = length xs"
    "sorted_wrt (\<lambda>a b. cmp b a \<ge> 0) (fst ?out)"
    using fh.pop_n_sorted [OF h1(1), of "length xs" "fst ?out" "snd ?out"] h1 by simp_all
  then have "size (fib_bag (snd ?out)) = 0" using h1(3) by (metis add_cancel_right_right size_mset size_union)
  moreover have "sorted_wrt (\<lambda>a b. cmp a b \<le> 0) (fst ?out)"
    using out(3) by (rule sorted_wrt_mono_rel [rotated]) (use comparator_order.cmp_gt_iff [OF assms(2)] not_less in blast)
  moreover have "fibonacci_heap_peek h1 = hd (fst ?out)" if "xs \<noteq> []"
    using fh.peek_pop [OF h1(1)] that by (cases xs) (simp_all add: case_prod_beta)
  ultimately show ?thesis using out h1(3) by simp
qed

theorem fibonacci_heap_sorts_witness:
  "\<exists>h h1. create_fibonacci_heap set_default_ptr_compare fresh_world = (Some h, fresh_world) \<and>
     push_all fibonacci_heap_put [Some 7, Some 2, Some 5] h fresh_world = (OVA_SUCCESS, h1, fresh_world) \<and>
     mset (fst (pop_n fibonacci_heap_pop 3 h1)) = {#Some 7, Some 2, Some 5#}"
proof -
  let ?h = "\<lparr>fh_roots = [], fh_n = 0, fh_cmp = set_default_ptr_compare, fh_next = 0\<rparr>"
  have create: "create_fibonacci_heap set_default_ptr_compare fresh_world = (Some ?h, fresh_world)"
    by (simp add: create_fibonacci_heap_def malloc_struct_def malloc_def PTRDIFF_MAX_def)
  obtain h1 where push: "push_all fibonacci_heap_put [Some 7, Some 2, Some 5] ?h fresh_world = (OVA_SUCCESS, h1, fresh_world)"
    using fib_push_all_no_failures [of fresh_world "[Some 7, Some 2, Some 5]" ?h] by (auto simp: fresh_world_def)
  have "length [Some 7, Some 2, Some 5 :: 64 word ptr] \<le> INT_MAX" by (simp add: INT_MAX_def)
  from fibonacci_heap_sorts [OF create pc.comparator_order_axioms _ this push] create push
  show ?thesis by (simp add: numeral_3_eq_3)
qed

text \<open>C34: Handles name elements until they are taken out: a handle that \<open>put_with_handle\<close> returns is new
  and names the element put; \<open>decrease_key\<close> with a payload that is not greater replaces exactly the
  payload of its handle, and \<open>delete_node\<close> removes exactly the element of its handle, both leaving a
  heap, through any number of cascading cuts; and a null handle or payload is refused.\<close>

theorem fibonacci_handles_name_elements:
  assumes "fib_inv h" "size (fib_entries h) < INT_MAX" "(i, old) \<in># fib_entries h" "d \<noteq> NULL"
  shows "(case fibonacci_heap_put_with_handle h d w of
        (None, h', w') \<Rightarrow> h' = h
      | (Some k, h', w') \<Rightarrow> fib_inv h' \<and> k \<notin># image_mset fst (fib_entries h) \<and> fib_entries h' = add_mset (k, d) (fib_entries h)) \<and>
    (fh_cmp h d old \<le> 0 \<longrightarrow>
      (\<exists>h'. fibonacci_heap_decrease_key h (Some i) d = Some (OVA_SUCCESS, h') \<and> fib_inv h' \<and>
        fib_entries h' = add_mset (i, d) (fib_entries h - {#(i, old)#}))) \<and>
    (\<exists>h'. fibonacci_heap_delete h (Some i) = Some (OVA_SUCCESS, h') \<and> fib_inv h' \<and>
        fib_entries h' = fib_entries h - {#(i, old)#}) \<and>
    fibonacci_heap_decrease_key h None d = Some (OVA_ERROR_INVALID_ARG, h) \<and>
    fibonacci_heap_decrease_key h (Some i) NULL = Some (OVA_ERROR_INVALID_ARG, h) \<and>
    fibonacci_heap_delete h None = Some (OVA_ERROR_INVALID_ARG, h)"
proof (intro conjI impI)
  obtain e h' w' where put: "fibonacci_heap_put h d w = (e, h', w')" by (metis prod_cases3)
  have "fh_next h \<notin># image_mset fst (fib_entries h)" using assms(1) by (auto simp: fib_inv_def fib_inv0_def)
  then show "case fibonacci_heap_put_with_handle h d w of
        (None, h', w') \<Rightarrow> h' = h
      | (Some k, h', w') \<Rightarrow> fib_inv h' \<and> k \<notin># image_mset fst (fib_entries h) \<and> fib_entries h' = add_mset (k, d) (fib_entries h)"
    using fib_put_spec [OF assms(1,2,4) put] by (simp add: put_with_handle_put put)
  show "\<exists>h'. fibonacci_heap_decrease_key h (Some i) d = Some (OVA_SUCCESS, h') \<and> fib_inv h' \<and>
      fib_entries h' = add_mset (i, d) (fib_entries h - {#(i, old)#})" if "fh_cmp h d old \<le> 0"
    using fib_decrease_key_spec [OF assms(1,3) that assms(4)] by blast
  show "\<exists>h'. fibonacci_heap_delete h (Some i) = Some (OVA_SUCCESS, h') \<and> fib_inv h' \<and>
      fib_entries h' = fib_entries h - {#(i, old)#}"
    using fib_delete_spec [OF assms(1,3)] by blast
qed (simp_all add: fibonacci_heap_decrease_key_def fibonacci_heap_delete_def)

text \<open>A heap in which the node 2 hangs below the node 1, and has the marked child 3.\<close>

definition sample_fib :: "64 word fibonacci_heap" where
  "sample_fib = \<lparr>fh_roots = [Fib_Node 1 (Some 4) 2 False [Fib_Node 5 (Some 8) 0 False [], Fib_Node 2 (Some 6) 1 False [Fib_Node 3 (Some 9) 0 True []]]],
     fh_n = 4, fh_cmp = set_default_ptr_compare, fh_next = 6\<rparr>"

lemma sample_fib_inv: "fib_inv sample_fib" "(3, Some 9) \<in># fib_entries sample_fib" "size (fib_entries sample_fib) < INT_MAX"
  by (simp_all add: sample_fib_def fib_inv_def fib_inv0_def fib_entries_def pc.comparator_order_axioms INT_MAX_def
      ranks_ok_def less_Suc_eq min_first_def ptr_compare_sign)

theorem fibonacci_handles_name_elements_witness:
  "\<exists>h'. fibonacci_heap_decrease_key sample_fib (Some 3) (Some 1) = Some (OVA_SUCCESS, h') \<and>
     fib_entries h' = {#(1, Some 4), (5, Some 8), (2, Some 6), (3, Some 1)#}"
proof -
  have "fib_entries sample_fib - {#(3, Some 9)#} = {#(1, Some 4), (5, Some 8), (2, Some 6)#}"
    by (simp add: sample_fib_def fib_entries_def)
  moreover have "fh_cmp sample_fib (Some 1) (Some 9) \<le> 0" by (simp add: sample_fib_def ptr_compare_sign)
  ultimately show ?thesis
    using fibonacci_handles_name_elements [OF sample_fib_inv(1,3,2), of "Some 1" fresh_world] by (auto simp: add_mset_commute)
qed

text \<open>C35: The table of 45 roots in \<open>consolidate\<close> is large enough: in a heap of at most \<open>INT_MAX\<close> elements
  every root has a degree below 45, because a node of degree \<open>k\<close> has at least as many elements below it
  as the Fibonacci number \<open>k + 2\<close>; so no \<open>pop\<close> drops a node. It would not be for 46 degrees.\<close>

theorem fibonacci_degree_bound:
  assumes "fib_inv h" "t \<in> set (fh_roots h)"
  shows "fn_degree t < 45 \<and> fibs (fn_degree t + 2) \<le> size (entries t) \<and>
    ring_entries (consolidate (fh_cmp h) (fh_roots h)) = fib_entries h"
proof -
  have I: "comparator_order (fh_cmp h)" "ring_good (fh_cmp h) (fh_roots h)" "size (fib_entries h) \<le> INT_MAX"
    "\<forall>e \<in># fib_entries h. snd e \<noteq> NULL" using assms(1) by (simp_all add: fib_inv_def fib_inv0_def)
  have t: "shaped t" using I(2) assms(2) by (simp add: ring_good_def)
  obtain u v where "fh_roots h = u @ t # v" using assms(2) by (meson split_list)
  then have "size (entries t) \<le> INT_MAX" using I(3) by (simp add: fib_entries_def)
  then show ?thesis using degree_below_table [OF t] degree_size [OF t] consolidate_spec [OF I(1,2)] I(3,4)
    by (simp add: fib_entries_def)
qed

theorem fibonacci_degree_bound_witness:
  "fn_degree (hd (fh_roots sample_fib)) < 45"
  using fibonacci_degree_bound [OF sample_fib_inv(1), of "hd (fh_roots sample_fib)"] by (simp add: sample_fib_def)

lemma push_all_objects:
  "push_all heap_obj_put xs (Binary_Object b) w =
     (case push_all binary_heap_put xs b w of (e, b, w) \<Rightarrow> (e, Binary_Object b, w))"
  "push_all heap_obj_put xs (Fibonacci_Object f) w =
     (case push_all fibonacci_heap_put xs f w of (e, f, w) \<Rightarrow> (e, Fibonacci_Object f, w))"
  by (induction xs arbitrary: b f w) (auto split: prod.splits)

text \<open>The two kinds of heap that \<open>create_heap\<close> makes order in opposite directions: after the same
  batch under the same comparator, \<open>pop\<close> of a binary heap returns an element that is greatest and of a
  Fibonacci heap one that is least, and an unknown kind gives null.\<close>

theorem create_heap_orders:
  assumes "comparator_order cmp" "is_int n" "xs \<noteq> []" "\<forall>x \<in> set xs. x \<noteq> NULL" "length xs \<le> INT_MAX"
    and "create_heap kind n cmp w = (Some h, w1)" "push_all heap_obj_put xs h w1 = (OVA_SUCCESS, h1, w2)"
  shows "fst (heap_obj_pop h1) \<in> set xs \<and>
    (case kind of
       Some BINARY_HEAP \<Rightarrow> \<forall>y \<in> set xs. cmp (fst (heap_obj_pop h1)) y \<ge> 0
     | Some FIBONACCI_HEAP \<Rightarrow> \<forall>y \<in> set xs. cmp (fst (heap_obj_pop h1)) y \<le> 0
     | None \<Rightarrow> False)"
proof (cases "(kind, n, cmp, w)" rule: create_heap.cases)
  case (1 c k v)
  then obtain b where b: "create_binary_heap n cmp w = (Some b, w1)" "h = Binary_Object b"
    using assms(6) by (auto split: prod.splits)
  then obtain b1 where b1: "push_all binary_heap_put xs b w1 = (OVA_SUCCESS, b1, w2)" "h1 = Binary_Object b1"
    using assms(7) by (auto simp: push_all_objects split: prod.splits)
  note i = create_binary_heap_inv [OF b(1) assms(2,1)]
  have B: "heap_inv b1" "bh_cmp b1 = cmp" "heap_bag b1 = mset xs" using bh.push_all_success [OF _ b1(1)] i by simp_all
  have "heap_bag b1 \<noteq> {#}" using B(3) assms(3) by simp
  then show ?thesis using bh.pop_max [OF B(1), of "fst (binary_heap_pop b1)" "snd (binary_heap_pop b1)"] B 1 b1(2)
    by (simp add: case_prod_beta)
next
  case (2 c k v)
  then obtain f where f: "create_fibonacci_heap cmp w = (Some f, w1)" "h = Fibonacci_Object f"
    using assms(6) by (auto split: prod.splits)
  then obtain f1 where f1: "push_all fibonacci_heap_put xs f w1 = (OVA_SUCCESS, f1, w2)" "h1 = Fibonacci_Object f1"
    using assms(7) by (auto simp: push_all_objects split: prod.splits)
  note i = create_fib_inv [OF f(1) assms(1)]
  have F: "fib_inv f1" "fh_cmp f1 = cmp" "fib_bag f1 = mset xs"
    using fib_push_all [OF _ _ assms(4) f1(1)] i assms(5) by (simp_all add: fib_bag_def)
  have "fib_bag f1 \<noteq> {#}" using F(3) assms(3) by simp
  then have P: "fst (fibonacci_heap_pop f1) \<in># mset xs" "\<forall>y \<in># mset xs. 0 \<le> cmp y (fst (fibonacci_heap_pop f1))"
    using fh.pop_max [OF F(1), of "fst (fibonacci_heap_pop f1)" "snd (fibonacci_heap_pop f1)"] F by simp_all
  then have "cmp (fst (fibonacci_heap_pop f1)) y \<le> 0" if "y \<in> set xs" for y
    using that comparator_order.cmp_gt_iff [OF assms(1), of "fst (fibonacci_heap_pop f1)" y] by force
  then show ?thesis using P(1) 2 f1(2) by (simp add: case_prod_beta)
next
  case (3 k c v)
  then show ?thesis using assms(6) by simp
qed

theorem create_heap_orders_witness:
  "\<exists>h1. push_all heap_obj_put [Some 7, Some 2, Some 5]
       (Fibonacci_Object \<lparr>fh_roots = [], fh_n = 0, fh_cmp = set_default_ptr_compare, fh_next = 0\<rparr>) fresh_world
         = (OVA_SUCCESS, h1, fresh_world) \<and>
     set_default_ptr_compare (fst (heap_obj_pop h1)) (Some 2) \<le> 0 \<and>
     fst (heap_obj_pop h1) \<in> {Some 7, Some 2, Some 5}"
proof -
  let ?h = "\<lparr>fh_roots = [], fh_n = 0, fh_cmp = set_default_ptr_compare, fh_next = 0\<rparr>"
  have create: "create_heap (Some FIBONACCI_HEAP) 4 set_default_ptr_compare fresh_world = (Some (Fibonacci_Object ?h), fresh_world)"
    by (simp add: create_fibonacci_heap_def malloc_struct_def malloc_def PTRDIFF_MAX_def)
  obtain h1 where push: "push_all heap_obj_put [Some 7, Some 2, Some 5] (Fibonacci_Object ?h) fresh_world = (OVA_SUCCESS, h1, fresh_world)"
    using fib_push_all_no_failures [of fresh_world "[Some 7, Some 2, Some 5]" ?h]
    by (auto simp: fresh_world_def push_all_objects simp del: push_all.simps)
  have "is_int 4" "length [Some 7, Some 2, Some 5 :: 64 word ptr] \<le> INT_MAX" by (simp_all add: INT_MAX_def is_int_def)
  from create_heap_orders [OF pc.comparator_order_axioms this(1) _ _ this(2) create push] push show ?thesis by simp
qed

end
