(* ===== verification/Skip_List.thy ===== *)
theory Skip_List
  imports Set_Defaults Dict_Iface "HOL-Library.While_Combinator"
begin

text \<open>
  The skip list, \<open>src/skip_list/skip_list.c\<close>: nodes with one forward pointer for each of their
  levels, in an explicit store. The searches follow pointers, so each is a loop that returns only if
  the lanes are finite; \<open>None\<close> is a call that does not return. The levels come from the generator
  \<open>xorshift32\<close>, whose first seed, taken from the clock, is an argument of the constructor.
\<close>

unbundle bit_operations_syntax

section \<open>State\<close>

record 'a skip_node =
  sn_key :: "'a ptr"
  sn_value :: "'a ptr"
  sn_level :: nat
  sn_forward :: "nat option list"

type_synonym 'a node_store = "nat \<Rightarrow> 'a skip_node option"

record 'a skip_list =
  sl_store :: "'a node_store"
  sl_brk :: nat
  sl_header :: nat
  sl_max_level :: nat
  sl_level :: nat
  sl_size :: nat
  sl_cmp :: "'a comparator"
  sl_seed :: "32 word"

definition node_at :: "'a node_store \<Rightarrow> nat \<Rightarrow> 'a skip_node" where
  "node_at st a = the (st a)"

definition fwd :: "'a node_store \<Rightarrow> nat \<Rightarrow> nat \<Rightarrow> nat option" where
  "fwd st a i = sn_forward (node_at st a) ! i"

definition set_fwd :: "'a node_store \<Rightarrow> nat \<Rightarrow> nat \<Rightarrow> nat option \<Rightarrow> 'a node_store" where
  "set_fwd st a i p = st(a \<mapsto> (node_at st a)\<lparr>sn_forward := (sn_forward (node_at st a))[i := p]\<rparr>)"

section \<open>Random levels\<close>

definition next_random :: "32 word \<Rightarrow> 32 word" where
  "next_random seed =
     (let x = seed;
          x = x XOR push_bit 13 x;
          x = x XOR drop_bit 17 x;
          x = x XOR push_bit 5 x
      in if x \<noteq> 0 then x else 1)"

definition builtin_ctz :: "32 word \<Rightarrow> nat" where
  "builtin_ctz r = length (takeWhile (\<lambda>i. \<not> bit r i) [0..<32])"

text \<open>The level and the next seed.\<close>

definition random_level :: "nat \<Rightarrow> 32 word \<Rightarrow> nat \<times> 32 word" where
  "random_level max_level seed =
     (let r = next_random seed;
          lvl = (if r \<noteq> 0 then builtin_ctz r else 32)
      in (if lvl > max_level then max_level else lvl, r))"

section \<open>Searching\<close>

definition create_node :: "nat \<Rightarrow> 'a ptr \<Rightarrow> 'a ptr \<Rightarrow> 'a world \<Rightarrow> 'a skip_node option \<times> 'a world" where
  "create_node lvl key value w =
     (case malloc (32 + lvl * 8) w of
        (False, w) \<Rightarrow> (None, w)
      | (True, w) \<Rightarrow> (Some \<lparr>sn_key = key, sn_value = value, sn_level = lvl, sn_forward = replicate (lvl + 1) None\<rparr>, w))"

text \<open>\<open>while (cur->forward[i] && cmp(cur->forward[i]->key, key) < 0) cur = cur->forward[i];\<close>\<close>

definition advance :: "'a comparator \<Rightarrow> 'a node_store \<Rightarrow> 'a ptr \<Rightarrow> nat \<Rightarrow> nat \<Rightarrow> nat option" where
  "advance cmp st key i cur =
     while_option (\<lambda>c. case fwd st c i of None \<Rightarrow> False | Some n \<Rightarrow> cmp (sn_key (node_at st n)) key < 0)
       (\<lambda>c. the (fwd st c i)) cur"

text \<open>The descent of \<open>sl_search\<close> from level \<open>i\<close>, and that of \<open>sl_insert\<close> and \<open>sl_delete\<close>, which fills
  the array \<open>update\<close>.\<close>

fun seek :: "'a comparator \<Rightarrow> 'a node_store \<Rightarrow> 'a ptr \<Rightarrow> nat \<Rightarrow> nat \<Rightarrow> nat option" where
  "seek cmp st key 0 cur = advance cmp st key 0 cur"
| "seek cmp st key (Suc i) cur =
     (case advance cmp st key (Suc i) cur of None \<Rightarrow> None | Some c \<Rightarrow> seek cmp st key i c)"

fun seek_update ::
  "'a comparator \<Rightarrow> 'a node_store \<Rightarrow> 'a ptr \<Rightarrow> nat \<Rightarrow> nat \<Rightarrow> nat option list \<Rightarrow> (nat \<times> nat option list) option" where
  "seek_update cmp st key 0 cur update =
     (case advance cmp st key 0 cur of None \<Rightarrow> None | Some c \<Rightarrow> Some (c, update[0 := Some c]))"
| "seek_update cmp st key (Suc i) cur update =
     (case advance cmp st key (Suc i) cur of
        None \<Rightarrow> None
      | Some c \<Rightarrow> seek_update cmp st key i c (update[Suc i := Some c]))"

definition sl_search :: "'a skip_list \<Rightarrow> 'a ptr \<Rightarrow> 'a ptr option" where
  "sl_search sl key =
     (if key = NULL then Some NULL
      else
       (case seek (sl_cmp sl) (sl_store sl) key (sl_level sl) (sl_header sl) of
          None \<Rightarrow> None
        | Some c \<Rightarrow>
           (case fwd (sl_store sl) c 0 of
              None \<Rightarrow> Some NULL
            | Some cur \<Rightarrow>
                let n = node_at (sl_store sl) cur in
                Some (if sl_cmp sl (sn_key n) key = 0 then sn_value n else NULL))))"

text \<open>The array \<open>update\<close>: on the stack up to 32 levels, and allocated above.\<close>

definition update_array :: "nat \<Rightarrow> 'a world \<Rightarrow> nat option list option \<times> 'a world" where
  "update_array max_level w =
     (if max_level + 1 \<le> 32 then (Some (replicate (max_level + 1) None), w)
      else
       (case malloc ((max_level + 1) * 8) w of
          (False, w) \<Rightarrow> (None, w)
        | (True, w) \<Rightarrow> (Some (replicate (max_level + 1) None), w)))"

section \<open>Insertion\<close>

text \<open>The levels above the current one start at the header.\<close>

definition raise_levels :: "nat \<Rightarrow> nat \<Rightarrow> nat \<Rightarrow> nat option list \<Rightarrow> nat option list" where
  "raise_levels header level new_level update = fold (\<lambda>i u. u[i := Some header]) [level + 1..<new_level + 1] update"

definition splice_level :: "nat \<Rightarrow> nat option list \<Rightarrow> nat \<Rightarrow> 'a node_store \<Rightarrow> 'a node_store" where
  "splice_level new_node update i st =
     (let p = the (update ! i);
          st = set_fwd st new_node i (fwd st p i)
      in set_fwd st p i (Some new_node))"

definition sl_insert ::
  "'a skip_list \<Rightarrow> 'a ptr \<Rightarrow> 'a ptr \<Rightarrow> 'a world \<Rightarrow> (ova_error_code \<times> 'a skip_list \<times> 'a world) option" where
  "sl_insert sl key value w =
     (if key = NULL then Some (OVA_ERROR_INVALID_ARG, sl, w)
      else
       (case update_array (sl_max_level sl) w of
          (None, w) \<Rightarrow> Some (OVA_ERROR_MEMORY, sl, w)
        | (Some update, w) \<Rightarrow>
           (case seek_update (sl_cmp sl) (sl_store sl) key (sl_level sl) (sl_header sl) update of
              None \<Rightarrow> None
            | Some (c, update) \<Rightarrow>
               (let st = sl_store sl; cur = fwd st c 0
                in if cur \<noteq> None \<and> sl_cmp sl (sn_key (node_at st (the cur))) key = 0
                   then Some (OVA_SUCCESS, sl\<lparr>sl_store := st(the cur \<mapsto> (node_at st (the cur))\<lparr>sn_value := value\<rparr>)\<rparr>, w)
                   else
                    (case random_level (sl_max_level sl) (sl_seed sl) of (new_level, seed) \<Rightarrow>
                      (let update = (if new_level > sl_level sl
                                     then raise_levels (sl_header sl) (sl_level sl) new_level update else update);
                           sl = sl\<lparr>sl_seed := seed, sl_level := (if new_level > sl_level sl then new_level else sl_level sl)\<rparr>
                       in case create_node new_level key value w of
                            (None, w) \<Rightarrow> Some (OVA_ERROR_MEMORY, sl, w)
                          | (Some node, w) \<Rightarrow>
                             (let new_node = sl_brk sl;
                                  st = fold (splice_level new_node update) [0..<new_level + 1] (st(new_node \<mapsto> node))
                              in Some (OVA_SUCCESS, sl\<lparr>sl_store := st, sl_brk := new_node + 1, sl_size := sl_size sl + 1\<rparr>, w))))))))"

section \<open>Deletion\<close>

fun unlink_levels :: "nat option list \<Rightarrow> nat \<Rightarrow> nat \<Rightarrow> nat \<Rightarrow> 'a node_store \<Rightarrow> 'a node_store" where
  "unlink_levels update cur i 0 st = st"
| "unlink_levels update cur i (Suc m) st =
     (if fwd st (the (update ! i)) i \<noteq> Some cur then st
      else unlink_levels update cur (i + 1) m (set_fwd st (the (update ! i)) i (fwd st cur i)))"

fun lower_level :: "'a node_store \<Rightarrow> nat \<Rightarrow> nat \<Rightarrow> nat" where
  "lower_level st header 0 = 0"
| "lower_level st header (Suc l) = (if fwd st header (Suc l) = None then lower_level st header l else Suc l)"

definition sl_delete :: "'a skip_list \<Rightarrow> 'a ptr \<Rightarrow> 'a world \<Rightarrow> (ova_error_code \<times> 'a skip_list \<times> 'a world) option" where
  "sl_delete sl key w =
     (if key = NULL then Some (OVA_ERROR_INVALID_ARG, sl, w)
      else
       (case update_array (sl_max_level sl) w of
          (None, w) \<Rightarrow> Some (OVA_ERROR_MEMORY, sl, w)
        | (Some update, w) \<Rightarrow>
           (case seek_update (sl_cmp sl) (sl_store sl) key (sl_level sl) (sl_header sl) update of
              None \<Rightarrow> None
            | Some (c, update) \<Rightarrow>
               (let st = sl_store sl
                in case fwd st c 0 of
                     None \<Rightarrow> Some (OVA_ERROR_NOT_FOUND, sl, w)
                   | Some cur \<Rightarrow>
                      (if sl_cmp sl (sn_key (node_at st cur)) key \<noteq> 0 then Some (OVA_ERROR_NOT_FOUND, sl, w)
                       else
                        (let st = unlink_levels update cur 0 (sl_level sl + 1) st;
                             st = st(cur := None)
                         in Some (OVA_SUCCESS,
                                  sl\<lparr>sl_store := st, sl_size := sl_size sl - 1,
                                     sl_level := lower_level st (sl_header sl) (sl_level sl)\<rparr>, w)))))))"

definition sl_length :: "'a skip_list option \<Rightarrow> nat" where
  "sl_length self = (case self of None \<Rightarrow> 0 | Some sl \<Rightarrow> sl_size sl)"

definition create_skip_list ::
  "int \<Rightarrow> 'a comparator option \<Rightarrow> 32 word \<Rightarrow> 'a world \<Rightarrow> 'a skip_list option \<times> 'a world" where
  "create_skip_list max_level cmp seed w =
     (case cmp of
        None \<Rightarrow> (None, w)
      | Some cmp \<Rightarrow>
         (if max_level < 1 then (None, w)
          else
           (case malloc_struct w of
              (False, w) \<Rightarrow> (None, w)
            | (True, w) \<Rightarrow>
               (case malloc_struct w of
                  (False, w) \<Rightarrow> (None, w)
                | (True, w) \<Rightarrow>
                   (case create_node (nat (max_level - 1)) NULL NULL w of
                      (None, w) \<Rightarrow> (None, w)
                    | (Some header, w) \<Rightarrow>
                       (Some \<lparr>sl_store = [0 \<mapsto> header], sl_brk = 1, sl_header = 0, sl_max_level = nat (max_level - 1),
                              sl_level = 0, sl_size = 0, sl_cmp = cmp, sl_seed = (if seed = 0 then 1 else seed)\<rparr>, w))))))"

text \<open>The loop of \<open>sl_free\<close> along the lowest lane.\<close>

definition sl_free :: "'a skip_list \<Rightarrow> 'a node_store option" where
  "sl_free sl =
     map_option fst (while_option (\<lambda>(st, cur). cur \<noteq> None)
       (\<lambda>(st, cur). (st(the cur := None), fwd st (the cur) 0)) (sl_store sl, Some (sl_header sl)))"

section \<open>Reading a changed store\<close>

abbreviation lev :: "'a node_store \<Rightarrow> nat \<Rightarrow> nat" where "lev st a \<equiv> sn_level (node_at st a)"

abbreviation skey :: "'a node_store \<Rightarrow> nat \<Rightarrow> 'a ptr" where "skey st a \<equiv> sn_key (node_at st a)"

lemma node_at_simps [simp]:
  "node_at (st(a \<mapsto> n)) b = (if b = a then n else node_at st b)"
  "b \<noteq> a \<Longrightarrow> node_at (st(a := None)) b = node_at st b"
  by (simp_all add: node_at_def)

lemma fwd_other [simp]:
  "b \<noteq> a \<Longrightarrow> fwd (st(a \<mapsto> n)) b i = fwd st b i" "b \<noteq> a \<Longrightarrow> fwd (st(a := None)) b i = fwd st b i"
  by (simp_all add: fwd_def)

lemma set_fwd_simps [simp]:
  "sn_level (node_at (set_fwd st a i p) b) = sn_level (node_at st b)"
  "sn_key (node_at (set_fwd st a i p) b) = sn_key (node_at st b)"
  "sn_value (node_at (set_fwd st a i p) b) = sn_value (node_at st b)"
  "length (sn_forward (node_at (set_fwd st a i p) b)) = length (sn_forward (node_at st b))"
  "dom (set_fwd st a i p) = insert a (dom st)"
  by (simp_all add: set_fwd_def)

lemma fwd_set_fwd:
  "fwd (set_fwd st a i p) b j = (if b = a \<and> j = i \<and> i < length (sn_forward (node_at st a)) then p else fwd st b j)"
  by (auto simp: fwd_def set_fwd_def list_update_beyond)

section \<open>Lanes\<close>

text \<open>The first node of a list that takes part in level \<open>i\<close>, and the last.\<close>

definition next_lane :: "'a node_store \<Rightarrow> nat \<Rightarrow> nat list \<Rightarrow> nat option" where
  "next_lane st i post = find (\<lambda>m. i \<le> lev st m) post"

definition last_lane :: "'a node_store \<Rightarrow> nat \<Rightarrow> nat list \<Rightarrow> nat" where
  "last_lane st i xs = last (filter (\<lambda>m. i \<le> lev st m) xs)"

text \<open>Every forward pointer of every node leads to the next node of its level.\<close>

fun linked :: "'a node_store \<Rightarrow> nat list \<Rightarrow> bool" where
  "linked st [] = True"
| "linked st (n # post) = ((\<forall>i \<le> lev st n. fwd st n i = next_lane st i post) \<and> linked st post)"

lemma next_lane_simps [simp]:
  "next_lane st i [] = None"
  "next_lane st i (m # post) = (if i \<le> lev st m then Some m else next_lane st i post)"
  by (simp_all add: next_lane_def)

lemma next_lane_skip: "\<forall>m \<in> set mid. lev st m < i \<Longrightarrow> next_lane st i (mid @ post) = next_lane st i post"
  by (induction mid) auto

lemma next_lane_hit: "m \<in> set mid \<Longrightarrow> i \<le> lev st m \<Longrightarrow> next_lane st i (mid @ post) = next_lane st i mid"
  by (induction mid) auto

lemma next_lane_cong: "(\<And>m. m \<in> set post \<Longrightarrow> lev st m = lev st' m) \<Longrightarrow> next_lane st i post = next_lane st' i post"
  by (induction post) auto

lemma linked_append: "linked st (pre @ post) \<Longrightarrow> linked st post"
  by (induction pre) auto

lemma linked_cong:
  "(\<And>m. m \<in> set xs \<Longrightarrow> lev st m = lev st' m) \<Longrightarrow> (\<And>m i. m \<in> set xs \<Longrightarrow> i \<le> lev st m \<Longrightarrow> fwd st m i = fwd st' m i) \<Longrightarrow>
     linked st xs = linked st' xs"
proof (induction xs)
  case (Cons x xs)
  have "next_lane st i xs = next_lane st' i xs" for i by (rule next_lane_cong) (use Cons.prems in auto)
  then show ?case using Cons by auto
qed simp

lemma last_lane_split:
  assumes "xs = pre @ c # mid" "i \<le> lev st c" "\<forall>m \<in> set mid. lev st m < i"
  shows "last_lane st i xs = c"
proof -
  have "filter (\<lambda>m. i \<le> lev st m) mid = []" using assms(3) by (auto simp: filter_empty_conv)
  then show ?thesis using assms(1,2) by (simp add: last_lane_def)
qed

lemma last_lane_later: "i \<le> lev st c \<Longrightarrow> last_lane st i (pre @ c # mid) = last_lane st i (c # mid)"
  by (simp add: last_lane_def)

lemma last_lane_in:
  assumes "m \<in> set xs" "i \<le> lev st m"
  shows "last_lane st i xs \<in> set xs \<and> i \<le> lev st (last_lane st i xs)"
proof -
  have "filter (\<lambda>m. i \<le> lev st m) xs \<noteq> []" using assms by (auto simp: filter_empty_conv)
  then have "last_lane st i xs \<in> set (filter (\<lambda>m. i \<le> lev st m) xs)" unfolding last_lane_def by (rule last_in_set)
  then show ?thesis by simp
qed

lemma last_lane_not_hit:
  assumes "distinct (pre @ n # mid)" "m \<in> set mid" "i \<le> lev st m"
  shows "last_lane st i (pre @ n # mid) \<noteq> n"
proof -
  have "last_lane st i ((pre @ [n]) @ mid) = last_lane st i mid"
    using assms(2,3) by (auto simp: last_lane_def last_append filter_empty_conv)
  then show ?thesis using last_lane_in [OF assms(2,3)] assms(1) by auto
qed

section \<open>Searching finds the place of a key\<close>

lemma advance_stops:
  assumes "linked st (pre @ c # mid @ large)" "i \<le> lev st c"
    "\<forall>m \<in> set mid. cmp (skey st m) key < 0" "\<forall>m \<in> set large. \<not> cmp (skey st m) key < 0"
  shows "advance cmp st key i c = Some (last_lane st i (pre @ c # mid))"
  using assms
proof (induction "length mid" arbitrary: pre c mid rule: less_induct)
  case less
  have here: "fwd st c i = next_lane st i (mid @ large)" using linked_append [OF less.prems(1)] less.prems(2) by simp
  show ?case
  proof (cases "\<forall>m \<in> set mid. lev st m < i")
    case True
    then have "fwd st c i = next_lane st i large" using here next_lane_skip [of mid st i large] by simp
    then have "case fwd st c i of None \<Rightarrow> True | Some n \<Rightarrow> \<not> cmp (skey st n) key < 0"
      using less.prems(4) by (auto simp: next_lane_def find_Some_iff split: option.split)
    then have "advance cmp st key i c = Some c"
      unfolding advance_def by (subst while_option_unfold) (auto split: option.splits)
    then show ?thesis using last_lane_split [OF refl less.prems(2) True] by simp
  next
    case False
    then obtain m1 m m2 where m: "mid = m1 @ m # m2" "i \<le> lev st m" "\<forall>x \<in> set m1. lev st x < i"
      using split_list_first_prop [of mid "\<lambda>x. i \<le> lev st x"] by (auto simp: not_less not_le)
    then have f: "fwd st c i = Some m" using here next_lane_skip [of m1 st i "m # m2 @ large"] by simp
    then have "advance cmp st key i c = advance cmp st key i m"
      using less.prems(3) m(1) unfolding advance_def by (subst while_option_unfold) simp
    also have "\<dots> = Some (last_lane st i ((pre @ c # m1) @ m # m2))"
      by (rule less.hyps) (use less.prems m in auto)
    finally show ?thesis using m(1) by simp
  qed
qed

text \<open>The nodes \<open>xs\<close> before a key, header included, and those from it on.\<close>

lemma seek_update_finds:
  assumes "linked st (xs @ large)" "c \<in> set xs" "i \<le> lev st c" "hd xs = h"
    "\<forall>m \<in> set (tl xs). cmp (skey st m) key < 0" "\<forall>m \<in> set large. \<not> cmp (skey st m) key < 0" "i < length update"
  shows "\<exists>u. seek_update cmp st key i c update = Some (last xs, u) \<and> length u = length update \<and>
    (\<forall>j \<le> i. u ! j = Some (last_lane st j xs)) \<and> (\<forall>j > i. u ! j = update ! j)"
  using assms
proof (induction i arbitrary: c update)
  case 0
  obtain pre mid where s: "xs = pre @ c # mid" using 0 by (meson split_list)
  have "\<forall>m \<in> set mid. cmp (skey st m) key < 0" using 0 s by (cases pre) auto
  then have "advance cmp st key 0 c = Some (last_lane st 0 xs)" using advance_stops [of st pre c mid large] 0 s by simp
  moreover have "last_lane st 0 xs = last xs" by (simp add: last_lane_def)
  ultimately show ?case using 0 by simp
next
  case (Suc i)
  obtain pre mid where s: "xs = pre @ c # mid" using Suc by (meson split_list)
  have "\<forall>m \<in> set mid. cmp (skey st m) key < 0" using Suc s by (cases pre) auto
  then have a: "advance cmp st key (Suc i) c = Some (last_lane st (Suc i) xs)" using advance_stops [of st pre c mid large] Suc s by simp
  let ?c = "last_lane st (Suc i) xs" and ?u = "update[Suc i := Some (last_lane st (Suc i) xs)]"
  have c: "?c \<in> set xs" "Suc i \<le> lev st ?c" using last_lane_in Suc.prems(2,3) by blast+
  from Suc.IH [OF Suc.prems(1) c(1) _ Suc.prems(4-6), of ?u] c(2) Suc.prems(7)
  obtain u where u: "seek_update cmp st key i ?c ?u = Some (last xs, u)" "length u = length update"
    "\<forall>j \<le> i. u ! j = Some (last_lane st j xs)" "\<forall>j > i. u ! j = ?u ! j" by auto
  have "u ! j = Some (last_lane st j xs)" if "j \<le> Suc i" for j
    using u(3,4) that Suc.prems(7) by (cases "j = Suc i") auto
  then show ?case using a u by auto
qed

lemma seek_finds:
  "seek cmp st key i c = map_option fst (seek_update cmp st key i c update)"
  by (induction cmp st key i c arbitrary: update rule: seek.induct) (auto split: option.split)

section \<open>The invariant\<close>

definition sl_shape :: "'a skip_list \<Rightarrow> nat list \<Rightarrow> bool" where
  "sl_shape sl ns \<longleftrightarrow>
     (let st = sl_store sl; h = sl_header sl in
      comparator_order (sl_cmp sl) \<and> distinct (h # ns) \<and> dom st = set (h # ns) \<and>
      (\<forall>a \<in> set (h # ns). a < sl_brk sl \<and> length (sn_forward (node_at st a)) = Suc (lev st a)) \<and>
      lev st h = sl_max_level sl \<and> sl_level sl \<le> sl_max_level sl \<and> sl_max_level sl < INT_MAX \<and>
      (\<forall>a \<in> set ns. lev st a \<le> sl_level sl \<and> skey st a \<noteq> NULL) \<and> linked st (h # ns) \<and>
      sorted_wrt (\<lambda>a b. sl_cmp sl (skey st a) (skey st b) < 0) ns \<and> sl_size sl = length ns)"

definition sl_inv :: "'a skip_list \<Rightarrow> bool" where
  "sl_inv sl \<longleftrightarrow> (\<exists>ns. sl_shape sl ns)"

definition node_entry :: "'a node_store \<Rightarrow> nat \<Rightarrow> 'a ptr \<times> 'a ptr" where
  "node_entry st a = (skey st a, sn_value (node_at st a))"

definition sl_entries :: "'a skip_list \<Rightarrow> ('a ptr \<times> 'a ptr) multiset" where
  "sl_entries sl = image_mset (node_entry (sl_store sl)) (mset_set (dom (sl_store sl) - {sl_header sl}))"

lemma sl_entries_nodes: "sl_shape sl ns \<Longrightarrow> sl_entries sl = mset (map (node_entry (sl_store sl)) ns)"
proof -
  assume s: "sl_shape sl ns"
  then have "dom (sl_store sl) - {sl_header sl} = set ns" "distinct ns" by (auto simp: sl_shape_def Let_def)
  then show ?thesis by (simp add: sl_entries_def mset_set_set)
qed

definition key_before :: "'a skip_list \<Rightarrow> 'a ptr \<Rightarrow> nat \<Rightarrow> bool" where
  "key_before sl key a \<longleftrightarrow> sl_cmp sl (skey (sl_store sl) a) key < 0"

text \<open>The nodes before a key and those from it on; among the latter only the first can have it.\<close>

lemma split_at_key:
  assumes "sl_shape sl ns"
  obtains small large where "ns = small @ large" "\<forall>m \<in> set small. key_before sl key m"
    "\<forall>m \<in> set large. \<not> key_before sl key m"
    "\<And>m rest. large = m # rest \<Longrightarrow> \<forall>x \<in> set rest. sl_cmp sl (skey (sl_store sl) x) key > 0"
proof
  let ?st = "sl_store sl" and ?c = "sl_cmp sl"
  have c: "comparator_order ?c" and sorted: "sorted_wrt (\<lambda>a b. ?c (skey ?st a) (skey ?st b) < 0) ns"
    using assms by (simp_all add: sl_shape_def Let_def)
  let ?small = "takeWhile (key_before sl key) ns" and ?large = "dropWhile (key_before sl key) ns"
  show ns: "ns = ?small @ ?large" by simp
  show "\<forall>m \<in> set ?small. key_before sl key m" by (auto dest: set_takeWhileD)
  have sl: "sorted_wrt (\<lambda>a b. ?c (skey ?st a) (skey ?st b) < 0) ?large"
    using sorted ns by (metis sorted_wrt_append)
  have above: "\<forall>x \<in> set rest. ?c (skey ?st x) key > 0" if m: "?large = m # rest" for m rest
  proof
    fix x assume x: "x \<in> set rest"
    have "\<not> ?c (skey ?st m) key < 0" using hd_dropWhile [of "key_before sl key" ns] m by (simp add: key_before_def)
    moreover have "?c (skey ?st m) (skey ?st x) < 0" using sl m x by simp
    ultimately show "?c (skey ?st x) key > 0"
      using comparator_order.cmp_trans [OF c, of "skey ?st x" key "skey ?st m"]
        comparator_order.cmp_gt_iff [OF c, of "skey ?st x" "skey ?st m"]
        comparator_order.cmp_gt_iff [OF c, of key "skey ?st m"] by linarith
  qed
  then show "\<And>m rest. ?large = m # rest \<Longrightarrow> \<forall>x \<in> set rest. ?c (skey ?st x) key > 0" .
  show "\<forall>m \<in> set ?large. \<not> key_before sl key m"
  proof (cases ?large)
    case (Cons m rest)
    have "\<not> key_before sl key m" using hd_dropWhile [of "key_before sl key" ns] Cons by simp
    then show ?thesis using above [OF Cons] Cons by (fastforce simp: key_before_def)
  next
    case Nil
    show ?thesis unfolding Nil by simp
  qed
qed

text \<open>The descent ends on the last node before the key, and its array names the last of every level.\<close>

lemma descent:
  assumes "sl_shape sl ns" "ns = small @ large" "\<forall>m \<in> set small. key_before sl key m"
    "\<forall>m \<in> set large. \<not> key_before sl key m" "length update = sl_max_level sl + 1"
  shows "\<exists>u. seek_update (sl_cmp sl) (sl_store sl) key (sl_level sl) (sl_header sl) update = Some (last (sl_header sl # small), u) \<and>
    length u = length update \<and> (\<forall>j \<le> sl_level sl. u ! j = Some (last_lane (sl_store sl) j (sl_header sl # small)))"
    and "fwd (sl_store sl) (last (sl_header sl # small)) 0 = (case large of [] \<Rightarrow> None | m # rest \<Rightarrow> Some m)"
proof -
  let ?xs = "sl_header sl # small" and ?st = "sl_store sl"
  have link: "linked ?st (?xs @ large)" and l: "sl_level sl \<le> lev ?st (sl_header sl)" "sl_level sl \<le> sl_max_level sl"
    using assms(1,2) by (simp_all add: sl_shape_def Let_def)
  show "\<exists>u. seek_update (sl_cmp sl) ?st key (sl_level sl) (sl_header sl) update = Some (last ?xs, u) \<and>
    length u = length update \<and> (\<forall>j \<le> sl_level sl. u ! j = Some (last_lane ?st j ?xs))"
    using seek_update_finds [OF link _ l(1) refl, where cmp = "sl_cmp sl" and key = key and update = update] assms(3-5) l(2)
    by (auto simp: key_before_def)
  have "?xs @ large = butlast ?xs @ last ?xs # large" by (metis append_butlast_last_id append.assoc append_Cons append_Nil list.distinct(1))
  then have "linked ?st (last ?xs # large)" using link linked_append by metis
  then show "fwd ?st (last ?xs) 0 = (case large of [] \<Rightarrow> None | m # rest \<Rightarrow> Some m)"
    by (auto split: list.split)
qed

lemma update_array_cases:
  "update_array l w = (r, w') \<Longrightarrow> r = None \<and> alloc_fails w \<noteq> [] \<or> r = Some (replicate (l + 1) None)" if "l < INT_MAX"
  using that by (auto simp: update_array_def malloc_no_failures INT_MAX_def PTRDIFF_MAX_def split: if_splits prod.splits bool.splits)

lemma random_level_le: "random_level m seed = (l, seed') \<Longrightarrow> l \<le> m"
  by (auto simp: random_level_def Let_def split: if_splits)

section \<open>Splicing a node into the lanes\<close>

lemma splice_spec:
  fixes st :: "'a node_store"
  assumes "\<And>j. j < k \<Longrightarrow> the (U ! j) \<noteq> new \<and> the (U ! j) \<in> dom st \<and> j < length (sn_forward (node_at st (the (U ! j))))"
    "k \<le> length (sn_forward (node_at st new))" "new \<in> dom st" "st' = fold (splice_level new U) [0..<k] st"
  shows "dom st' = dom st \<and> (\<forall>a. lev st' a = lev st a \<and> skey st' a = skey st a \<and> sn_value (node_at st' a) = sn_value (node_at st a) \<and>
      length (sn_forward (node_at st' a)) = length (sn_forward (node_at st a))) \<and>
    (\<forall>a i. fwd st' a i = (if i < k \<and> a = new then fwd st (the (U ! i)) i else if i < k \<and> a = the (U ! i) then Some new else fwd st a i))"
  using assms
proof (induction k arbitrary: st')
  case (Suc k)
  let ?s = "fold (splice_level new U) [0..<k] st"
  have IH: "dom ?s = dom st \<and> (\<forall>a. lev ?s a = lev st a \<and> skey ?s a = skey st a \<and> sn_value (node_at ?s a) = sn_value (node_at st a) \<and>
      length (sn_forward (node_at ?s a)) = length (sn_forward (node_at st a))) \<and>
    (\<forall>a i. fwd ?s a i = (if i < k \<and> a = new then fwd st (the (U ! i)) i else if i < k \<and> a = the (U ! i) then Some new else fwd st a i))"
    by (rule Suc.IH) (use Suc.prems in simp_all)
  let ?p = "the (U ! k)"
  have st': "st' = set_fwd (set_fwd ?s new k (fwd ?s ?p k)) ?p k (Some new)"
    using Suc.prems(4) by (simp add: splice_level_def [of new U k] Let_def)
  have p: "?p \<noteq> new" "?p \<in> dom st" "k < length (sn_forward (node_at st ?p))" using Suc.prems(1) [of k] by simp_all
  have "fwd st' a i = (if i < Suc k \<and> a = new then fwd st (the (U ! i)) i
      else if i < Suc k \<and> a = the (U ! i) then Some new else fwd st a i)" for a i
    using IH p Suc.prems(2) by (auto simp: st' fwd_set_fwd less_Suc_eq)
  moreover have "dom st' = dom st" using IH p(2) Suc.prems(3) by (auto simp: st')
  ultimately show ?case using IH by (simp add: st')
qed simp

lemma linked_insert:
  assumes "linked st (xs @ large)" "distinct (pre @ xs @ large)" "new \<notin> set (xs @ large)" "nl = lev st' new"
    and lev: "\<And>a. a \<noteq> new \<Longrightarrow> lev st' a = lev st a"
    and fwd_new: "\<And>i. i \<le> nl \<Longrightarrow> fwd st' new i = next_lane st i large"
    and fwd_upd: "\<And>i. i \<le> nl \<Longrightarrow> fwd st' (last_lane st i (pre @ xs)) i = Some new"
    and same: "\<And>a i. a \<in> set (xs @ large) \<Longrightarrow> i \<le> nl \<Longrightarrow> a \<noteq> last_lane st i (pre @ xs) \<Longrightarrow> fwd st' a i = fwd st a i"
    and same': "\<And>a i. a \<in> set (xs @ large) \<Longrightarrow> nl < i \<Longrightarrow> fwd st' a i = fwd st a i"
    and upd: "\<And>i. i \<le> nl \<Longrightarrow> last_lane st i (pre @ xs) \<in> set (pre @ xs)"
  shows "linked st' (xs @ new # large)"
  using assms(1-3) fwd_upd same same' upd
proof (induction xs arbitrary: pre)
  case Nil
  have keep: "fwd st' a i = fwd st a i" if "a \<in> set large" for a i
  proof (cases "i \<le> nl")
    case True
    then have "a \<noteq> last_lane st i pre" using Nil.prems(2,7) that by force
    then show ?thesis using Nil.prems(5) that True by simp
  qed (use Nil.prems(6) that in simp)
  have levs: "lev st' m = lev st m" if "m \<in> set large" for m using that lev Nil.prems(3) by (cases "m = new") auto
  have "linked st' large = linked st large" by (rule linked_cong) (rule levs, assumption, rule keep)
  moreover have "next_lane st' i large = next_lane st i large" for i
    by (rule next_lane_cong) (rule levs)
  ultimately show ?case using Nil.prems(1) fwd_new assms(4) by simp
next
  case (Cons n xs)
  have "linked st' (xs @ new # large)"
    by (rule Cons.IH [of "pre @ [n]"]) (use Cons.prems in simp_all)
  moreover have "fwd st' n i = next_lane st' i (xs @ new # large)" if i: "i \<le> lev st' n" for i
  proof -
    have n: "n \<noteq> new" "lev st' n = lev st n" using Cons.prems(3) lev by auto
    have old: "fwd st n i = next_lane st i (xs @ large)" using Cons.prems(1) i n by simp
    have levs: "lev st' m = lev st m" if "m \<in> set xs \<or> m \<in> set large" for m using that lev Cons.prems(3) by (cases "m = new") auto
    have nx: "next_lane st' i xs = next_lane st i xs" "next_lane st' i large = next_lane st i large"
      using levs by (auto intro!: next_lane_cong)
    show ?thesis
    proof (cases "\<exists>m \<in> set xs. i \<le> lev st m")
      case True
      then obtain m where m: "m \<in> set xs" "i \<le> lev st m" by blast
      have "last_lane st i (pre @ n # xs) \<noteq> n" by (rule last_lane_not_hit [OF _ m]) (use Cons.prems(2) in auto)
      then have "fwd st' n i = fwd st n i" using Cons.prems(5,6) by (cases "i \<le> nl") auto
      then show ?thesis using old nx next_lane_hit [OF m] next_lane_hit [of m xs i st'] m levs by simp
    next
      case False
      then have skip: "\<forall>m \<in> set xs. lev st m < i" "\<forall>m \<in> set xs. lev st' m < i" using levs by (auto simp: not_le)
      have l: "last_lane st i (pre @ n # xs) = n" by (rule last_lane_split [OF refl]) (use skip(1) i n in simp_all)
      show ?thesis
      proof (cases "i \<le> nl")
        case True
        then have "fwd st' n i = Some new" using Cons.prems(4) l by metis
        then show ?thesis using next_lane_skip [OF skip(2), of "new # large"] True assms(4) by simp
      next
        case False
        then have "fwd st' n i = fwd st n i" using Cons.prems(6) by simp
        then show ?thesis using old nx next_lane_skip [OF skip(1), of large] next_lane_skip [OF skip(2), of "new # large"] False assms(4) by simp
      qed
    qed
  qed
  ultimately show ?case by simp
qed
lemma unlink_spec:
  fixes st :: "'a node_store"
  assumes "\<And>j. i \<le> j \<Longrightarrow> j < i + m \<Longrightarrow> the (U ! j) \<noteq> cur \<and> the (U ! j) \<in> dom st \<and>
      j < length (sn_forward (node_at st (the (U ! j)))) \<and> (fwd st (the (U ! j)) j = Some cur \<longleftrightarrow> j \<le> L)"
    "L < i + m" "st' = unlink_levels U cur i m st"
  shows "dom st' = dom st \<and> (\<forall>a. lev st' a = lev st a \<and> skey st' a = skey st a \<and> sn_value (node_at st' a) = sn_value (node_at st a) \<and>
      length (sn_forward (node_at st' a)) = length (sn_forward (node_at st a))) \<and>
    (\<forall>a j. fwd st' a j = (if i \<le> j \<and> j \<le> L \<and> a = the (U ! j) then fwd st cur j else fwd st a j))"
  using assms
proof (induction m arbitrary: i st)
  case 0
  then show ?case by auto
next
  case (Suc m)
  let ?p = "the (U ! i)"
  have p: "?p \<noteq> cur" "?p \<in> dom st" "i < length (sn_forward (node_at st ?p))" "fwd st ?p i = Some cur \<longleftrightarrow> i \<le> L"
    using Suc.prems(1) [of i] by simp_all
  show ?case
  proof (cases "i \<le> L")
    case False
    then show ?thesis using Suc.prems(3) p(4) by auto
  next
    case True
    let ?s = "set_fwd st ?p i (fwd st cur i)"
    have st': "st' = unlink_levels U cur (i + 1) m ?s" using Suc.prems(3) p(4) True by simp
    have "dom st' = dom ?s \<and> (\<forall>a. lev st' a = lev ?s a \<and> skey st' a = skey ?s a \<and> sn_value (node_at st' a) = sn_value (node_at ?s a) \<and>
        length (sn_forward (node_at st' a)) = length (sn_forward (node_at ?s a))) \<and>
      (\<forall>a j. fwd st' a j = (if i + 1 \<le> j \<and> j \<le> L \<and> a = the (U ! j) then fwd ?s cur j else fwd ?s a j))"
    proof (rule Suc.IH [OF _ _ st'])
      fix j assume "i + 1 \<le> j" "j < i + 1 + m"
      then show "the (U ! j) \<noteq> cur \<and> the (U ! j) \<in> dom ?s \<and> j < length (sn_forward (node_at ?s (the (U ! j)))) \<and>
          (fwd ?s (the (U ! j)) j = Some cur \<longleftrightarrow> j \<le> L)"
        using Suc.prems(1) [of j] by (simp add: fwd_set_fwd)
    qed (use Suc.prems(2) in simp)
    then show ?thesis using p True by (auto simp: fwd_set_fwd dest: le_antisym)
  qed
qed

lemma linked_delete:
  assumes "linked st (xs @ cur # large)" "distinct (pre @ xs @ cur # large)"
    and lev: "\<And>a. a \<noteq> cur \<Longrightarrow> lev st' a = lev st a"
    and upd: "\<And>i. i \<le> lev st cur \<Longrightarrow> fwd st' (last_lane st i (pre @ xs)) i = next_lane st i large"
    and same: "\<And>a i. a \<noteq> cur \<Longrightarrow> \<not> (i \<le> lev st cur \<and> a = last_lane st i (pre @ xs)) \<Longrightarrow> fwd st' a i = fwd st a i"
    and known: "\<And>i. i \<le> lev st cur \<Longrightarrow> last_lane st i (pre @ xs) \<in> set (pre @ xs)"
  shows "linked st' (xs @ large)"
  using assms(1,2) upd same known
proof (induction xs arbitrary: pre)
  case Nil
  have levs: "lev st' m = lev st m" if "m \<in> set large" for m using that lev Nil.prems(2) by (cases "m = cur") auto
  have keep: "fwd st' a i = fwd st a i" if "a \<in> set large" for a i
  proof (rule Nil.prems(4))
    show "\<not> (i \<le> lev st cur \<and> a = last_lane st i (pre @ []))" using Nil.prems(2,5) that by force
  qed (use that Nil.prems(2) in auto)
  have "linked st' large = linked st large" by (rule linked_cong) (rule levs, assumption, rule keep)
  then show ?case using Nil.prems(1) by simp
next
  case (Cons n xs)
  have "linked st' (xs @ large)"
    by (rule Cons.IH [of "pre @ [n]"]) (use Cons.prems in simp_all)
  moreover have "fwd st' n i = next_lane st' i (xs @ large)" if i: "i \<le> lev st' n" for i
  proof -
    have n: "n \<noteq> cur" "lev st' n = lev st n" using Cons.prems(2) lev by auto
    have old: "fwd st n i = next_lane st i (xs @ cur # large)" using Cons.prems(1) i n by simp
    have levs: "lev st' m = lev st m" if "m \<in> set (xs @ large)" for m using that lev Cons.prems(2) by (cases "m = cur") auto
    have nx: "next_lane st' i (xs @ large) = next_lane st i (xs @ large)" by (rule next_lane_cong) (rule levs)
    show ?thesis
    proof (cases "\<exists>m \<in> set xs. i \<le> lev st m")
      case True
      then obtain m where m: "m \<in> set xs" "i \<le> lev st m" by blast
      have "last_lane st i (pre @ n # xs) \<noteq> n" by (rule last_lane_not_hit [OF _ m]) (use Cons.prems(2) in auto)
      then have "fwd st' n i = fwd st n i" using Cons.prems(4) n by auto
      then show ?thesis using old nx next_lane_hit [OF m] by simp
    next
      case False
      then have skip: "\<forall>m \<in> set xs. lev st m < i" by (auto simp: not_le)
      have l: "last_lane st i (pre @ n # xs) = n" by (rule last_lane_split [OF refl]) (use skip i n in simp_all)
      show ?thesis
      proof (cases "i \<le> lev st cur")
        case True
        then show ?thesis using Cons.prems(3) [OF True] l nx next_lane_skip [OF skip] by simp
      next
        case False
        then have "fwd st' n i = fwd st n i" using Cons.prems(4) n by simp
        then show ?thesis using old nx next_lane_skip [OF skip] False by simp
      qed
    qed
  qed
  ultimately show ?case by simp
qed

lemma lower_level_spec:
  assumes "lower_level st h l = l'"
  shows "l' \<le> l \<and> (\<forall>i. l' < i \<and> i \<le> l \<longrightarrow> fwd st h i = None)"
  using assms by (induction l arbitrary: l') (auto simp: le_Suc_eq split: if_splits)

section \<open>Insertion and deletion keep the lanes\<close>

lemma fwd_last_lane:
  assumes "linked st (xs @ large)" "m \<in> set xs" "i \<le> lev st m"
  shows "fwd st (last_lane st i xs) i = next_lane st i large"
proof -
  obtain pre c mid where s: "xs = pre @ c # mid" "i \<le> lev st c" "\<forall>x \<in> set mid. lev st x < i"
    using split_list_last_prop [of xs "\<lambda>x. i \<le> lev st x"] assms(2,3) by (auto simp: not_le)
  have "linked st (c # mid @ large)" using assms(1) s(1) linked_append [of st pre "c # mid @ large"] by simp
  then show ?thesis using s(2) next_lane_skip [OF s(3)] last_lane_split [OF s] by simp
qed

lemma raise_levels_nth:
  assumes "nl < length u"
  shows "length (raise_levels h l nl u) = length u \<and> (\<forall>j. raise_levels h l nl u ! j = (if l < j \<and> j \<le> nl then Some h else u ! j))"
proof -
  have "length (fold (\<lambda>i u. u[i := x]) is u) = length u \<and>
      (\<forall>j. fold (\<lambda>i u. u[i := x]) is u ! j = (if j \<in> set is then x else u ! j))" if "\<forall>i \<in> set is. i < length u" for "is" and x :: "nat option" and u
    using that by (induction "is" arbitrary: u) (auto simp: nth_list_update)
  from this [of "[l + 1..<nl + 1]" u "Some h"] assms show ?thesis by (auto simp: raise_levels_def)
qed

text \<open>What the shape gives for a header that heads the nodes before a key.\<close>

lemma shape_lanes:
  assumes "sl_shape sl (small @ large)" "j \<le> sl_max_level sl"
  shows "last_lane (sl_store sl) j (sl_header sl # small) \<in> set (sl_header sl # small)"
    "j \<le> lev (sl_store sl) (last_lane (sl_store sl) j (sl_header sl # small))"
    "fwd (sl_store sl) (last_lane (sl_store sl) j (sl_header sl # small)) j = next_lane (sl_store sl) j large"
    "sl_level sl < j \<Longrightarrow> last_lane (sl_store sl) j (sl_header sl # small) = sl_header sl"
proof -
  let ?st = "sl_store sl" and ?h = "sl_header sl"
  have h: "j \<le> lev ?st ?h" "linked ?st ((?h # small) @ large)" "\<forall>a \<in> set small. lev ?st a \<le> sl_level sl"
    using assms by (auto simp: sl_shape_def Let_def)
  show "last_lane ?st j (?h # small) \<in> set (?h # small)" "j \<le> lev ?st (last_lane ?st j (?h # small))"
    using last_lane_in [of ?h "?h # small" j ?st] h(1) by auto
  show "fwd ?st (last_lane ?st j (?h # small)) j = next_lane ?st j large"
    by (rule fwd_last_lane [OF h(2) _ h(1)]) simp
  show "last_lane ?st j (?h # small) = ?h" if "sl_level sl < j"
    using last_lane_split [of "?h # small" "[]" ?h small j ?st] h(1,3) that by force
qed

lemma insert_new_shape:
  assumes shape: "sl_shape sl (small @ large)" and small: "\<forall>m \<in> set small. key_before sl key m"
    and large: "\<forall>m \<in> set large. sl_cmp sl (skey (sl_store sl) m) key > 0" and key: "key \<noteq> NULL"
    and nl: "nl \<le> sl_max_level sl" and U: "\<And>j. j \<le> nl \<Longrightarrow> U ! j = Some (last_lane (sl_store sl) j (sl_header sl # small))"
    and node: "node = \<lparr>sn_key = key, sn_value = v, sn_level = nl, sn_forward = replicate (nl + 1) None\<rparr>"
    and st': "st' = fold (splice_level (sl_brk sl) U) [0..<nl + 1] ((sl_store sl)(sl_brk sl \<mapsto> node))"
  shows "sl_shape (sl\<lparr>sl_seed := seed, sl_level := max nl (sl_level sl), sl_store := st', sl_brk := sl_brk sl + 1, sl_size := sl_size sl + 1\<rparr>)
      (small @ sl_brk sl # large) \<and>
    map (node_entry st') (small @ sl_brk sl # large) =
      map (node_entry (sl_store sl)) small @ (key, v) # map (node_entry (sl_store sl)) large"
proof -
  let ?st = "sl_store sl" and ?h = "sl_header sl" and ?n = "sl_brk sl" and ?xs = "sl_header sl # small"
  let ?s0 = "?st(?n \<mapsto> node)"
  have S: "comparator_order (sl_cmp sl)" "distinct (?xs @ large)" "dom ?st = set (?xs @ large)"
    "\<forall>a \<in> set (?xs @ large). a < ?n \<and> length (sn_forward (node_at ?st a)) = Suc (lev ?st a)"
    "lev ?st ?h = sl_max_level sl" "sl_level sl \<le> sl_max_level sl" "sl_max_level sl < INT_MAX"
    "\<forall>a \<in> set (small @ large). lev ?st a \<le> sl_level sl \<and> skey ?st a \<noteq> NULL" "linked ?st (?xs @ large)"
    "sorted_wrt (\<lambda>a b. sl_cmp sl (skey ?st a) (skey ?st b) < 0) (small @ large)" "sl_size sl = length (small @ large)"
    using shape by (simp_all add: sl_shape_def Let_def)
  have fresh: "?n \<notin> set (?xs @ large)" using S(4) by force
  have L: "the (U ! j) = last_lane ?st j ?xs" "last_lane ?st j ?xs \<in> set ?xs" "j \<le> lev ?st (last_lane ?st j ?xs)"
    "fwd ?st (last_lane ?st j ?xs) j = next_lane ?st j large" if "j \<le> nl" for j
    using shape_lanes [OF shape, of j] U [OF that] that nl by auto
  have R: "dom st' = dom ?s0 \<and> (\<forall>a. lev st' a = lev ?s0 a \<and> skey st' a = skey ?s0 a \<and> sn_value (node_at st' a) = sn_value (node_at ?s0 a) \<and>
      length (sn_forward (node_at st' a)) = length (sn_forward (node_at ?s0 a))) \<and>
    (\<forall>a i. fwd st' a i = (if i < nl + 1 \<and> a = ?n then fwd ?s0 (the (U ! i)) i else if i < nl + 1 \<and> a = the (U ! i) then Some ?n else fwd ?s0 a i))"
  proof (rule splice_spec [OF _ _ _ st'])
    fix j assume "j < nl + 1"
    then have j: "j \<le> nl" by simp
    have "last_lane ?st j ?xs \<noteq> ?n" "last_lane ?st j ?xs \<in> set (?xs @ large)" using L(2) [OF j] fresh by auto
    then show "the (U ! j) \<noteq> ?n \<and> the (U ! j) \<in> dom ?s0 \<and> j < length (sn_forward (node_at ?s0 (the (U ! j))))"
      using L(1,3) [OF j] S(3,4) by auto
  qed (simp_all add: node)
  have levs: "lev st' a = lev ?st a" "node_entry st' a = node_entry ?st a" "skey st' a = skey ?st a"
    "length (sn_forward (node_at st' a)) = length (sn_forward (node_at ?st a))" if "a \<noteq> ?n" for a
    using R that by (simp_all add: node_entry_def)
  have new: "lev st' ?n = nl" "node_entry st' ?n = (key, v)" "skey st' ?n = key" "length (sn_forward (node_at st' ?n)) = Suc nl"
    using R by (simp_all add: node_entry_def node)
  have "linked st' (?xs @ ?n # large)"
  proof (rule linked_insert [where pre = "[]", OF S(9)])
    show "nl = lev st' ?n" using new by simp
    show "fwd st' ?n i = next_lane ?st i large" if "i \<le> nl" for i
    proof -
      have "last_lane ?st i ?xs \<noteq> ?n" using L(2) [OF that] fresh by auto
      then show ?thesis using R L(1,4) [OF that] that by simp
    qed
    show "fwd st' (last_lane ?st i ([] @ ?xs)) i = Some ?n" if "i \<le> nl" for i
    proof -
      have "last_lane ?st i ?xs \<noteq> ?n" using L(2) [OF that] fresh by auto
      then show ?thesis using R L(1) [OF that] that by simp
    qed
    fix a i assume a: "a \<in> set (?xs @ large)"
    then have "a \<noteq> ?n" using fresh by auto
    then show "i \<le> nl \<Longrightarrow> a \<noteq> last_lane ?st i ([] @ ?xs) \<Longrightarrow> fwd st' a i = fwd ?st a i"
      "nl < i \<Longrightarrow> fwd st' a i = fwd ?st a i" using R L(1) by auto
  qed (use S(2) fresh levs L(2) in auto)
  then have link: "linked st' (?h # small @ ?n # large)" by simp
  have other: "a \<noteq> ?n" if "a \<in> set (?xs @ large)" for a using that fresh by auto
  have keys: "map (skey st') (small @ ?n # large) = map (skey ?st) small @ key # map (skey ?st) large"
    using levs(3) other new(3) by simp
  have "\<forall>b \<in> set large. sl_cmp sl key (skey ?st b) < 0" using large comparator_order.cmp_gt_iff [OF S(1)] by blast
  then have "sorted_wrt (\<lambda>a b. sl_cmp sl a b < 0) (map (skey ?st) small @ key # map (skey ?st) large)"
    using S(10) small by (auto simp: sorted_wrt_append sorted_wrt_map key_before_def)
  then have sorted: "sorted_wrt (\<lambda>a b. sl_cmp sl (skey st' a) (skey st' b) < 0) (small @ ?n # large)"
    unfolding keys [symmetric] sorted_wrt_map .
  have dom: "dom st' = set (?h # small @ ?n # large)" using R S(3) by auto
  have sizes: "\<forall>a \<in> set (?h # small @ ?n # large). a < ?n + 1 \<and> length (sn_forward (node_at st' a)) = Suc (lev st' a)"
  proof
    fix a assume "a \<in> set (?h # small @ ?n # large)"
    then show "a < ?n + 1 \<and> length (sn_forward (node_at st' a)) = Suc (lev st' a)"
      using new levs(1,4) [of a] S(4) by (cases "a = ?n") (auto intro: less_SucI)
  qed
  have levels: "\<forall>a \<in> set (small @ ?n # large). lev st' a \<le> max nl (sl_level sl) \<and> skey st' a \<noteq> NULL"
  proof
    fix a assume "a \<in> set (small @ ?n # large)"
    then show "lev st' a \<le> max nl (sl_level sl) \<and> skey st' a \<noteq> NULL"
      using new levs(1,3) [of a] S(8) key by (cases "a = ?n") (auto simp: le_max_iff_disj)
  qed
  have "lev st' ?h = sl_max_level sl" "distinct (?h # small @ ?n # large)"
    using S(2,5) levs(1) [OF other, of ?h] fresh by auto
  moreover have "map (node_entry st') (small @ ?n # large) =
      map (node_entry ?st) small @ (key, v) # map (node_entry ?st) large"
    using levs(2) other new(2) by simp
  ultimately show ?thesis using S(1,6,7,11) nl link sorted dom sizes levels
    unfolding sl_shape_def Let_def by simp
qed

lemma delete_shape:
  assumes shape: "sl_shape sl (small @ cur # large)"
    and U: "\<And>j. j \<le> sl_level sl \<Longrightarrow> U ! j = Some (last_lane (sl_store sl) j (sl_header sl # small))"
    and st': "st' = (unlink_levels U cur 0 (sl_level sl + 1) (sl_store sl))(cur := None)"
  shows "sl_shape (sl\<lparr>sl_store := st', sl_size := sl_size sl - 1, sl_level := lower_level st' (sl_header sl) (sl_level sl)\<rparr>) (small @ large) \<and>
    map (node_entry st') (small @ large) = map (node_entry (sl_store sl)) (small @ large)"
proof -
  let ?st = "sl_store sl" and ?h = "sl_header sl" and ?xs = "sl_header sl # small"
  let ?s1 = "unlink_levels U cur 0 (sl_level sl + 1) ?st"
  have S: "comparator_order (sl_cmp sl)" "distinct (?xs @ cur # large)" "dom ?st = set (?xs @ cur # large)"
    "\<forall>a \<in> set (?xs @ cur # large). a < sl_brk sl \<and> length (sn_forward (node_at ?st a)) = Suc (lev ?st a)"
    "lev ?st ?h = sl_max_level sl" "sl_level sl \<le> sl_max_level sl" "sl_max_level sl < INT_MAX"
    "\<forall>a \<in> set (small @ cur # large). lev ?st a \<le> sl_level sl \<and> skey ?st a \<noteq> NULL" "linked ?st (?xs @ cur # large)"
    "sorted_wrt (\<lambda>a b. sl_cmp sl (skey ?st a) (skey ?st b) < 0) (small @ cur # large)" "sl_size sl = length (small @ cur # large)"
    using shape by (simp_all add: sl_shape_def Let_def)
  have L: "the (U ! j) = last_lane ?st j ?xs" "last_lane ?st j ?xs \<in> set ?xs" "j \<le> lev ?st (last_lane ?st j ?xs)"
    "fwd ?st (last_lane ?st j ?xs) j = next_lane ?st j (cur # large)" if "j \<le> sl_level sl" for j
    using shape_lanes [OF shape, of j] U [OF that] that S(6) by auto
  have notcur: "last_lane ?st j ?xs \<noteq> cur" if "j \<le> sl_level sl" for j using L(2) [OF that] S(2) by auto
  have cur: "\<forall>i \<le> lev ?st cur. fwd ?st cur i = next_lane ?st i large" "lev ?st cur \<le> sl_level sl"
    using linked_append [OF S(9)] S(8) by simp_all
  have R: "dom ?s1 = dom ?st \<and> (\<forall>a. lev ?s1 a = lev ?st a \<and> skey ?s1 a = skey ?st a \<and> sn_value (node_at ?s1 a) = sn_value (node_at ?st a) \<and>
      length (sn_forward (node_at ?s1 a)) = length (sn_forward (node_at ?st a))) \<and>
    (\<forall>a j. fwd ?s1 a j = (if 0 \<le> j \<and> j \<le> lev ?st cur \<and> a = the (U ! j) then fwd ?st cur j else fwd ?st a j))"
  proof (rule unlink_spec [OF _ _ refl])
    fix j assume "j < 0 + (sl_level sl + 1)"
    then have j: "j \<le> sl_level sl" by simp
    have "next_lane ?st j large \<noteq> Some cur" using S(2) by (auto simp: next_lane_def find_Some_iff)
    then have "fwd ?st (last_lane ?st j ?xs) j = Some cur \<longleftrightarrow> j \<le> lev ?st cur" using L(4) [OF j] by simp
    moreover have "last_lane ?st j ?xs \<in> set (?xs @ cur # large)" using L(2) [OF j] by auto
    then have "last_lane ?st j ?xs \<in> dom ?st" "j < length (sn_forward (node_at ?st (last_lane ?st j ?xs)))"
      using S(3,4) L(3) [OF j] by auto
    ultimately show "the (U ! j) \<noteq> cur \<and> the (U ! j) \<in> dom ?st \<and> j < length (sn_forward (node_at ?st (the (U ! j)))) \<and>
        (fwd ?st (the (U ! j)) j = Some cur \<longleftrightarrow> j \<le> lev ?st cur)"
      using L(1) [OF j] notcur [OF j] by simp
  qed (use cur(2) in simp)
  have same: "lev st' a = lev ?st a" "node_entry st' a = node_entry ?st a" "skey st' a = skey ?st a"
    "length (sn_forward (node_at st' a)) = length (sn_forward (node_at ?st a))" if "a \<noteq> cur" for a
    using R that by (simp_all add: node_entry_def st')
  have "linked st' (?xs @ large)"
  proof (rule linked_delete [where pre = "[]", OF S(9)])
    fix i assume i: "i \<le> lev ?st cur"
    then have l: "i \<le> sl_level sl" using cur(2) by simp
    show "fwd st' (last_lane ?st i ([] @ ?xs)) i = next_lane ?st i large"
      using R L(1) [OF l] notcur [OF l] cur(1) i by (simp add: st')
    show "last_lane ?st i ([] @ ?xs) \<in> set ([] @ ?xs)" using L(2) [OF l] by simp
  next
    fix a i assume "a \<noteq> cur" "\<not> (i \<le> lev ?st cur \<and> a = last_lane ?st i ([] @ ?xs))"
    then show "fwd st' a i = fwd ?st a i" using R L(1) cur(2) by (auto simp: st')
  qed (use S(2) same in auto)
  then have link: "linked st' (?h # small @ large)" by simp
  have other: "a \<noteq> cur" if "a \<in> set (?xs @ large)" for a using that S(2) by auto
  have dom: "dom st' = set (?h # small @ large)" using R S(2,3) by (auto simp: st')
  let ?l = "lower_level st' ?h (sl_level sl)"
  note low = lower_level_spec [OF refl, of st' ?h "sl_level sl"]
  have levels: "lev st' a \<le> ?l" if a: "a \<in> set (small @ large)" for a
  proof (rule ccontr)
    assume "\<not> lev st' a \<le> ?l"
    moreover have "lev st' a \<le> sl_level sl" using same(1) [OF other] S(8) a by auto
    ultimately have "fwd st' ?h (lev st' a) = None" using low by auto
    moreover have "lev st' a \<le> lev st' ?h" using same(1) [OF other, of ?h] S(5,6) \<open>lev st' a \<le> sl_level sl\<close> by simp
    ultimately have "next_lane st' (lev st' a) (small @ large) = None" using link by simp
    then show False using a by (auto simp: next_lane_def find_None_iff)
  qed
  have keys: "map (skey st') (small @ large) = map (skey ?st) (small @ large)" using same(3) other by simp
  have "sorted_wrt (\<lambda>a b. sl_cmp sl a b < 0) (map (skey ?st) (small @ large))"
    unfolding sorted_wrt_map using S(10) by (auto simp: sorted_wrt_append)
  then have sorted: "sorted_wrt (\<lambda>a b. sl_cmp sl (skey st' a) (skey st' b) < 0) (small @ large)"
    unfolding keys [symmetric] sorted_wrt_map .
  have nodes: "\<forall>a \<in> set (?h # small @ large). a < sl_brk sl \<and> length (sn_forward (node_at st' a)) = Suc (lev st' a)"
    "\<forall>a \<in> set (small @ large). lev st' a \<le> ?l \<and> skey st' a \<noteq> NULL"
    using S(4,8) levels same(1,3,4) [OF other] by auto
  have "lev st' ?h = sl_max_level sl" "distinct (?h # small @ large)" "?l \<le> sl_max_level sl"
    using S(2,5,6) same(1) [OF other, of ?h] low by auto
  moreover have "map (node_entry st') (small @ large) = map (node_entry ?st) (small @ large)" using same(2) other by simp
  ultimately show ?thesis using S(1,7,11) link sorted dom nodes unfolding sl_shape_def Let_def by simp
qed

lemma update_value_shape:
  assumes "sl_shape sl ns" "a \<in> set ns" "st' = (sl_store sl)(a \<mapsto> (node_at (sl_store sl) a)\<lparr>sn_value := v\<rparr>)"
  shows "sl_shape (sl\<lparr>sl_store := st'\<rparr>) ns \<and>
    map (node_entry st') ns = map (\<lambda>b. if b = a then (skey (sl_store sl) b, v) else node_entry (sl_store sl) b) ns"
proof -
  let ?st = "sl_store sl"
  have st: "lev st' b = lev ?st b" "skey st' b = skey ?st b" "sn_forward (node_at st' b) = sn_forward (node_at ?st b)" for b
    by (simp_all add: assms(3))
  then have f: "fwd st' b i = fwd ?st b i" for b i by (simp add: fwd_def)
  have "linked st' xs = linked ?st xs" for xs by (rule linked_cong) (simp_all add: st f)
  moreover have "dom st' = dom ?st" using assms(1,2) by (auto simp: assms(3) sl_shape_def Let_def)
  moreover have "node_entry st' b = (if b = a then (skey ?st b, v) else node_entry ?st b)" for b
    by (simp add: node_entry_def assms(3))
  ultimately show ?thesis using assms(1) by (simp add: sl_shape_def Let_def st del: linked.simps)
qed
section \<open>The operations on the entries\<close>

abbreviation sl_same :: "'a skip_list \<Rightarrow> 'a ptr \<Rightarrow> 'a ptr \<Rightarrow> bool" where
  "sl_same sl \<equiv> (\<lambda>a b. sl_cmp sl a b = 0)"

text \<open>The entries on both sides of the place of a key; only the first behind it can have the key.\<close>

lemma entries_at_key:
  assumes "sl_shape sl (small @ large)" "\<forall>m \<in> set small. key_before sl key m"
    and above: "\<forall>m rest. large = m # rest \<longrightarrow> (\<forall>x \<in> set rest. sl_cmp sl (skey (sl_store sl) x) key > 0)"
  shows "has_key (sl_same sl) key (sl_entries sl) \<longleftrightarrow> (\<exists>m rest. large = m # rest \<and> sl_cmp sl (skey (sl_store sl) m) key = 0)"
    and "large = m # rest \<Longrightarrow> sl_cmp sl (skey (sl_store sl) m) key = 0 \<Longrightarrow>
      drop_key (sl_same sl) key (sl_entries sl) = mset (map (node_entry (sl_store sl)) (small @ rest)) \<and>
      put_entry (sl_same sl) key v (sl_entries sl) =
        mset (map (node_entry (sl_store sl)) small) + {#(skey (sl_store sl) m, v)#} + mset (map (node_entry (sl_store sl)) rest) \<and>
      is_lookup (sl_same sl) key (sl_entries sl) (sn_value (node_at (sl_store sl) m))"
proof -
  let ?st = "sl_store sl"
  note E = sl_entries_nodes [OF assms(1)]
  have none: "\<not> has_key (sl_same sl) key (mset (map (node_entry ?st) small))"
    using assms(2) by (auto simp: has_key_def node_entry_def key_before_def)
  have rest: "\<not> has_key (sl_same sl) key (mset (map (node_entry ?st) rest))" if "large = m # rest" for m rest
    using above that by (auto simp: has_key_def node_entry_def)
  show "has_key (sl_same sl) key (sl_entries sl) \<longleftrightarrow> (\<exists>m rest. large = m # rest \<and> sl_cmp sl (skey ?st m) key = 0)"
    using none rest by (cases large) (auto simp: E node_entry_def)
  assume l: "large = m # rest" "sl_cmp sl (skey ?st m) key = 0"
  have E2: "sl_entries sl = {#(skey ?st m, sn_value (node_at ?st m))#} + (mset (map (node_entry ?st) small) + mset (map (node_entry ?st) rest))"
    by (simp add: E l node_entry_def)
  have R: "\<not> has_key (sl_same sl) key (mset (map (node_entry ?st) small) + mset (map (node_entry ?st) rest))"
    using none rest [OF l(1)] by simp
  have hk: "has_key (sl_same sl) key {#(skey ?st m, sn_value (node_at ?st m))#}" using l(2) by simp
  show "drop_key (sl_same sl) key (sl_entries sl) = mset (map (node_entry ?st) (small @ rest)) \<and>
      put_entry (sl_same sl) key v (sl_entries sl) =
        mset (map (node_entry ?st) small) + {#(skey ?st m, v)#} + mset (map (node_entry ?st) rest) \<and>
      is_lookup (sl_same sl) key (sl_entries sl) (sn_value (node_at ?st m))"
    unfolding E2 drop_key_part [OF R] put_entry_part [OF hk R] lookup_part [OF R] using l(2)
    by (auto simp: drop_key_def put_entry_def is_lookup_def)
qed

lemma sl_search_spec:
  assumes "sl_inv sl" "key \<noteq> NULL"
  shows "\<exists>d. sl_search sl key = Some d \<and> is_lookup (sl_same sl) key (sl_entries sl) d"
proof -
  obtain ns where shape: "sl_shape sl ns" using assms(1) by (auto simp: sl_inv_def)
  obtain small large where ns: "ns = small @ large" "\<forall>m \<in> set small. key_before sl key m" "\<forall>m \<in> set large. \<not> key_before sl key m"
    and above: "\<forall>m rest. large = m # rest \<longrightarrow> (\<forall>x \<in> set rest. sl_cmp sl (skey (sl_store sl) x) key > 0)"
    by (rule split_at_key [OF shape, of key]) blast
  note D = descent [OF shape ns, of "replicate (sl_max_level sl + 1) None"]
  have s: "seek (sl_cmp sl) (sl_store sl) key (sl_level sl) (sl_header sl) = Some (last (sl_header sl # small))"
    using D(1) seek_finds [of "sl_cmp sl" "sl_store sl" key "sl_level sl" "sl_header sl" "replicate (sl_max_level sl + 1) None"] by auto
  have f: "fwd (sl_store sl) (last (sl_header sl # small)) 0 = (case large of [] \<Rightarrow> None | m # rest \<Rightarrow> Some m)" using D(2) by simp
  note E = entries_at_key [OF shape [unfolded ns(1)] ns(2) above]
  show ?thesis
  proof (cases large)
    case Nil
    then show ?thesis using s f assms(2) E(1) by (simp add: sl_search_def is_lookup_def)
  next
    case (Cons m rest)
    then show ?thesis using s f assms(2) E(1) E(2) [OF Cons, of undefined]
      by (cases "sl_cmp sl (skey (sl_store sl) m) key = 0") (auto simp: sl_search_def is_lookup_def Let_def)
  qed
qed

lemma sl_insert_spec:
  assumes "sl_inv sl" "key \<noteq> NULL"
  shows "\<exists>e sl' w'. sl_insert sl key v w = Some (e, sl', w') \<and> sl_inv sl' \<and> sl_cmp sl' = sl_cmp sl \<and> sl_max_level sl' = sl_max_level sl \<and>
    (if e = OVA_SUCCESS then sl_entries sl' = put_entry (sl_same sl) key v (sl_entries sl)
     else e = OVA_ERROR_MEMORY \<and> sl_entries sl' = sl_entries sl \<and> alloc_fails w \<noteq> [] \<and>
       (sl_max_level sl < 32 \<longrightarrow> \<not> has_key (sl_same sl) key (sl_entries sl)))"
proof -
  obtain ns where shape: "sl_shape sl ns" using assms(1) by (auto simp: sl_inv_def)
  obtain small large where ns: "ns = small @ large" "\<forall>m \<in> set small. key_before sl key m" "\<forall>m \<in> set large. \<not> key_before sl key m"
    and above: "\<forall>m rest. large = m # rest \<longrightarrow> (\<forall>x \<in> set rest. sl_cmp sl (skey (sl_store sl) x) key > 0)"
    by (rule split_at_key [OF shape, of key]) blast
  let ?st = "sl_store sl" and ?h = "sl_header sl"
  have c: "comparator_order (sl_cmp sl)" and bound: "sl_max_level sl < INT_MAX" "sl_level sl \<le> sl_max_level sl"
    using shape by (simp_all add: sl_shape_def Let_def)
  note E = entries_at_key [OF shape [unfolded ns(1)] ns(2) above]
  obtain r w1 where upd: "update_array (sl_max_level sl) w = (r, w1)" by fastforce
  show ?thesis
  proof (cases r)
    case None
    then have "alloc_fails w \<noteq> []" "\<not> sl_max_level sl < 32"
      using update_array_cases [OF bound(1) upd] upd by (auto simp: update_array_def)
    then show ?thesis using None upd assms by (simp add: sl_insert_def)
  next
    case (Some u0)
    then have u0: "length u0 = sl_max_level sl + 1" using update_array_cases [OF bound(1) upd] by auto
    obtain u where u: "seek_update (sl_cmp sl) ?st key (sl_level sl) ?h u0 = Some (last (?h # small), u)"
      "length u = length u0" "\<forall>j \<le> sl_level sl. u ! j = Some (last_lane ?st j (?h # small))"
      using descent(1) [OF shape ns u0] by blast
    have f: "fwd ?st (last (?h # small)) 0 = (case large of [] \<Rightarrow> None | m # rest \<Rightarrow> Some m)" by (rule descent(2) [OF shape ns u0])
    show ?thesis
    proof (cases "\<exists>m rest. large = m # rest \<and> sl_cmp sl (skey ?st m) key = 0")
      case True
      then obtain m rest where l: "large = m # rest" "sl_cmp sl (skey ?st m) key = 0" by blast
      let ?s = "?st(m \<mapsto> (node_at ?st m)\<lparr>sn_value := v\<rparr>)"
      have S: "sl_shape (sl\<lparr>sl_store := ?s\<rparr>) ns"
        "map (node_entry ?s) ns = map (\<lambda>b. if b = m then (skey ?st b, v) else node_entry ?st b) ns"
        using update_value_shape [OF shape, of m ?s v] ns(1) l(1) by simp_all
      have d: "m \<notin> set small" "m \<notin> set rest" using shape ns(1) l(1) by (auto simp: sl_shape_def Let_def)
      have M: "map (\<lambda>b. if b = m then (skey ?st b, v) else node_entry ?st b) ns =
          map (node_entry ?st) small @ (skey ?st m, v) # map (node_entry ?st) rest"
        using d by (auto simp: ns(1) l(1))
      have "sl_entries (sl\<lparr>sl_store := ?s\<rparr>) = mset (map (node_entry ?s) ns)" using sl_entries_nodes [OF S(1)] by simp
      also have "\<dots> = put_entry (sl_same sl) key v (sl_entries sl)"
        unfolding S(2) M using E(2) [OF l, of v] by simp
      finally have "sl_entries (sl\<lparr>sl_store := ?s\<rparr>) = put_entry (sl_same sl) key v (sl_entries sl)" .
      moreover have "sl_insert sl key v w = Some (OVA_SUCCESS, sl\<lparr>sl_store := ?s\<rparr>, w1)"
        using Some upd assms(2) u(1) f l by (simp add: sl_insert_def Let_def)
      ultimately show ?thesis using S(1) by (auto simp: sl_inv_def)
    next
      case False
      then have no: "\<not> has_key (sl_same sl) key (sl_entries sl)" using E(1) by simp
      obtain nl seed where r: "random_level (sl_max_level sl) (sl_seed sl) = (nl, seed)" by fastforce
      note nl = random_level_le [OF r]
      let ?u = "if nl > sl_level sl then raise_levels ?h (sl_level sl) nl u else u"
      let ?sl = "sl\<lparr>sl_seed := seed, sl_level := if nl > sl_level sl then nl else sl_level sl\<rparr>"
      obtain nd w2 where nd: "create_node nl key v w1 = (nd, w2)" by fastforce
      have run: "sl_insert sl key v w = (case nd of None \<Rightarrow> Some (OVA_ERROR_MEMORY, ?sl, w2)
          | Some node \<Rightarrow> Some (OVA_SUCCESS, ?sl\<lparr>sl_store := fold (splice_level (sl_brk sl) ?u) [0..<nl + 1] (?st(sl_brk sl \<mapsto> node)),
              sl_brk := sl_brk sl + 1, sl_size := sl_size sl + 1\<rparr>, w2))"
        using Some upd assms(2) u(1) f False r nd by (cases large) (auto simp: sl_insert_def Let_def split: option.split)
      show ?thesis
      proof (cases nd)
        case None
        then have "alloc_fails w \<noteq> []" using nd upd nl bound
          by (auto simp: create_node_def update_array_def malloc_no_failures INT_MAX_def PTRDIFF_MAX_def split: prod.splits bool.splits if_splits)
        moreover have "sl_shape ?sl ns" using shape nl by (auto simp: sl_shape_def Let_def)
        moreover have "sl_entries ?sl = sl_entries sl" by (simp add: sl_entries_def)
        ultimately show ?thesis using run None no by (auto simp: sl_inv_def)
      next
        case (Some node)
        let ?s = "fold (splice_level (sl_brk sl) ?u) [0..<nl + 1] (?st(sl_brk sl \<mapsto> node))"
        let ?sl' = "?sl\<lparr>sl_store := ?s, sl_brk := sl_brk sl + 1, sl_size := sl_size sl + 1\<rparr>"
        have "?u ! j = Some (last_lane ?st j (?h # small))" if "j \<le> nl" for j
          using raise_levels_nth [of nl u ?h "sl_level sl"] u(2,3) u0 nl that
            shape_lanes(4) [OF shape [unfolded ns(1)], of j] by (cases "j \<le> sl_level sl") auto
        moreover have "\<forall>m \<in> set large. sl_cmp sl (skey ?st m) key > 0"
          using ns(3) above False by (cases large) (auto simp: key_before_def not_less le_less)
        moreover have "node = \<lparr>sn_key = key, sn_value = v, sn_level = nl, sn_forward = replicate (nl + 1) None\<rparr>"
          using nd Some by (auto simp: create_node_def split: prod.splits bool.splits)
        ultimately have S: "sl_shape (sl\<lparr>sl_seed := seed, sl_level := max nl (sl_level sl), sl_store := ?s, sl_brk := sl_brk sl + 1, sl_size := sl_size sl + 1\<rparr>)
            (small @ sl_brk sl # large)"
          "map (node_entry ?s) (small @ sl_brk sl # large) = map (node_entry ?st) small @ (key, v) # map (node_entry ?st) large"
          using insert_new_shape [OF shape [unfolded ns(1)] ns(2) _ assms(2) nl _ _ refl, where U = ?u and node = node and v = v and seed = seed] by blast+
        have "max nl (sl_level sl) = (if nl > sl_level sl then nl else sl_level sl)" by simp
        then have S1: "sl_shape ?sl' (small @ sl_brk sl # large)" using S(1) by simp
        have "sl_entries ?sl' = mset (map (node_entry ?s) (small @ sl_brk sl # large))" using sl_entries_nodes [OF S1] by simp
        also have "\<dots> = add_mset (key, v) (sl_entries sl)" unfolding S(2) sl_entries_nodes [OF shape] ns(1) by simp
        also have "\<dots> = put_entry (sl_same sl) key v (sl_entries sl)" using no by (simp add: put_entry_def)
        finally show ?thesis using run Some S1 by (auto simp: sl_inv_def)
      qed
    qed
  qed
qed

lemma sl_delete_spec:
  assumes "sl_inv sl" "key \<noteq> NULL"
  shows "\<exists>e sl' w'. sl_delete sl key w = Some (e, sl', w') \<and> sl_inv sl' \<and> sl_cmp sl' = sl_cmp sl \<and> sl_max_level sl' = sl_max_level sl \<and>
    (if e = OVA_ERROR_MEMORY then sl' = sl \<and> alloc_fails w \<noteq> [] \<and> 32 \<le> sl_max_level sl
     else sl_entries sl' = drop_key (sl_same sl) key (sl_entries sl) \<and>
       e = (if has_key (sl_same sl) key (sl_entries sl) then OVA_SUCCESS else OVA_ERROR_NOT_FOUND))"
proof -
  obtain ns where shape: "sl_shape sl ns" using assms(1) by (auto simp: sl_inv_def)
  obtain small large where ns: "ns = small @ large" "\<forall>m \<in> set small. key_before sl key m" "\<forall>m \<in> set large. \<not> key_before sl key m"
    and above: "\<forall>m rest. large = m # rest \<longrightarrow> (\<forall>x \<in> set rest. sl_cmp sl (skey (sl_store sl) x) key > 0)"
    by (rule split_at_key [OF shape, of key]) blast
  let ?st = "sl_store sl" and ?h = "sl_header sl"
  have bound: "sl_max_level sl < INT_MAX" using shape by (simp add: sl_shape_def Let_def)
  note E = entries_at_key [OF shape [unfolded ns(1)] ns(2) above]
  obtain r w1 where upd: "update_array (sl_max_level sl) w = (r, w1)" by fastforce
  show ?thesis
  proof (cases r)
    case None
    then have "alloc_fails w \<noteq> []" "\<not> sl_max_level sl < 32"
      using update_array_cases [OF bound upd] upd by (auto simp: update_array_def)
    then show ?thesis using None upd assms by (simp add: sl_delete_def)
  next
    case (Some u0)
    then have u0: "length u0 = sl_max_level sl + 1" using update_array_cases [OF bound upd] by auto
    obtain u where u: "seek_update (sl_cmp sl) ?st key (sl_level sl) ?h u0 = Some (last (?h # small), u)"
      "\<forall>j \<le> sl_level sl. u ! j = Some (last_lane ?st j (?h # small))"
      using descent(1) [OF shape ns u0] by blast
    have f: "fwd ?st (last (?h # small)) 0 = (case large of [] \<Rightarrow> None | m # rest \<Rightarrow> Some m)" by (rule descent(2) [OF shape ns u0])
    show ?thesis
    proof (cases "\<exists>m rest. large = m # rest \<and> sl_cmp sl (skey ?st m) key = 0")
      case False
      then have "\<not> has_key (sl_same sl) key (sl_entries sl)" using E(1) by simp
      moreover have "sl_delete sl key w = Some (OVA_ERROR_NOT_FOUND, sl, w1)"
        using Some upd assms(2) u(1) f False by (cases large) (auto simp: sl_delete_def Let_def)
      ultimately show ?thesis using assms(1) drop_absent [of "sl_same sl" key "sl_entries sl"] by simp
    next
      case True
      then obtain m rest where l: "large = m # rest" "sl_cmp sl (skey ?st m) key = 0" by blast
      let ?s = "(unlink_levels u m 0 (sl_level sl + 1) ?st)(m := None)"
      let ?sl = "sl\<lparr>sl_store := ?s, sl_size := sl_size sl - 1, sl_level := lower_level ?s ?h (sl_level sl)\<rparr>"
      have S: "sl_shape ?sl (small @ rest)" "map (node_entry ?s) (small @ rest) = map (node_entry ?st) (small @ rest)"
        using delete_shape [OF shape [unfolded ns(1) l(1)] _ refl, of u] u(2) by blast+
      have "sl_entries ?sl = mset (map (node_entry ?s) (small @ rest))" using sl_entries_nodes [OF S(1)] by simp
      also have "\<dots> = drop_key (sl_same sl) key (sl_entries sl)" unfolding S(2) using E(2) [OF l, of undefined] by simp
      finally have "sl_entries ?sl = drop_key (sl_same sl) key (sl_entries sl)" .
      moreover have "sl_delete sl key w = Some (OVA_SUCCESS, ?sl, w1)"
        using Some upd assms(2) u(1) f l by (simp add: sl_delete_def Let_def)
      moreover have "has_key (sl_same sl) key (sl_entries sl)" using E(1) l by blast
      ultimately show ?thesis using S(1) by (auto simp: sl_inv_def)
    qed
  qed
qed

lemma sl_inv_facts:
  assumes "sl_inv sl"
  shows "comparator_order (sl_cmp sl)" "keys_apart (sl_same sl) (sl_entries sl)" "sl_size sl = size (sl_entries sl)"
proof -
  obtain ns where shape: "sl_shape sl ns" using assms by (auto simp: sl_inv_def)
  let ?st = "sl_store sl"
  show c: "comparator_order (sl_cmp sl)" using shape by (simp add: sl_shape_def Let_def)
  have E: "sl_entries sl = mset (map (node_entry ?st) ns)" by (rule sl_entries_nodes [OF shape])
  show "sl_size sl = size (sl_entries sl)" using shape E by (simp add: sl_shape_def Let_def)
  have "sorted_wrt (\<lambda>a b. sl_cmp sl (skey ?st a) (skey ?st b) < 0) ns" using shape by (simp add: sl_shape_def Let_def)
  then have "keys_apart (sl_same sl) (mset (map (node_entry ?st) ns))"
  proof (induction ns)
    case (Cons a ns)
    have "sl_cmp sl (skey ?st b) (skey ?st a) \<noteq> 0" if "b \<in> set ns" for b
      using Cons.prems that comparator_order.cmp_eq_sym [OF c, of "skey ?st b" "skey ?st a"] by force
    then have "\<not> has_key (sl_same sl) (skey ?st a) (mset (map (node_entry ?st) ns))"
      by (auto simp: has_key_def node_entry_def)
    moreover have "fst (node_entry ?st a) = skey ?st a" by (simp add: node_entry_def)
    ultimately have "keys_apart (sl_same sl) (add_mset (node_entry ?st a) (mset (map (node_entry ?st) ns)))"
      unfolding keys_apart_add [OF comparator_order.cmp_equiv [OF c]] using Cons by simp
    then show ?case by simp
  qed simp
  then show "keys_apart (sl_same sl) (sl_entries sl)" using E by simp
qed

section \<open>The skip list as a keyed container\<close>

text \<open>With up to 32 levels the array \<open>update\<close> is on the stack and nothing but a new node needs memory.\<close>

definition sl_stack_inv :: "'a skip_list \<Rightarrow> bool" where
  "sl_stack_inv sl \<longleftrightarrow> sl_inv sl \<and> sl_max_level sl < 32"

definition sl_put :: "'a skip_list \<Rightarrow> 'a ptr \<Rightarrow> 'a ptr \<Rightarrow> 'a world \<Rightarrow> bool \<times> 'a skip_list \<times> 'a world" where
  "sl_put sl k v w = (case sl_insert sl k v w of None \<Rightarrow> (False, sl, w) | Some (e, sl', w') \<Rightarrow> (e = OVA_SUCCESS, sl', w'))"

definition sl_get :: "'a skip_list \<Rightarrow> 'a ptr \<Rightarrow> 'a ptr" where
  "sl_get sl k = (case sl_search sl k of None \<Rightarrow> NULL | Some d \<Rightarrow> d)"

definition sl_remove :: "'a skip_list \<Rightarrow> 'a ptr \<Rightarrow> 'a skip_list" where
  "sl_remove sl k = (case sl_delete sl k fresh_world of None \<Rightarrow> sl | Some (e, sl', w') \<Rightarrow> sl')"

interpretation sd: dict_store sl_stack_inv sl_same sl_entries sl_put sl_get sl_remove "\<lambda>k. k \<noteq> NULL"
proof unfold_locales
  fix s s' :: "'a skip_list" and k v :: "'a ptr" and w "done" w'
  assume inv: "sl_stack_inv s"
  then have i: "sl_inv s" "sl_max_level s < 32" by (simp_all add: sl_stack_inv_def)
  show "equivp (sl_same s)" using comparator_order.cmp_equiv sl_inv_facts(1) [OF i(1)] by blast
  show "keys_apart (sl_same s) (sl_entries s)" by (rule sl_inv_facts(2) [OF i(1)])
  assume k: "k \<noteq> NULL"
  show "is_lookup (sl_same s) k (sl_entries s) (sl_get s k)"
    using sl_search_spec [OF i(1) k] by (auto simp: sl_get_def)
  obtain e t w1 where d: "sl_delete s k fresh_world = Some (e, t, w1)" "sl_inv t" "sl_cmp t = sl_cmp s" "sl_max_level t = sl_max_level s"
    "e \<noteq> OVA_ERROR_MEMORY" "sl_entries t = drop_key (sl_same s) k (sl_entries s)"
    using sl_delete_spec [OF i(1) k, of fresh_world] i(2) by (auto split: if_splits)
  show "sl_stack_inv (sl_remove s k) \<and> sl_same (sl_remove s k) = sl_same s"
    "sl_entries (sl_remove s k) = drop_key (sl_same s) k (sl_entries s)"
    using d i(2) by (simp_all add: sl_remove_def sl_stack_inv_def)
  note I = sl_insert_spec [OF i(1) k, of v w]
  show "sl_put s k v w = (done, s', w') \<Longrightarrow> sl_stack_inv s' \<and> sl_same s' = sl_same s"
    using I i(2) by (auto simp: sl_put_def sl_stack_inv_def)
  show "sl_put s k v w = (True, s', w') \<Longrightarrow> sl_entries s' = put_entry (sl_same s) k v (sl_entries s)"
    "sl_put s k v w = (False, s', w') \<Longrightarrow> sl_entries s' = sl_entries s \<and> \<not> has_key (sl_same s) k (sl_entries s)"
    using I i(2) by (auto simp: sl_put_def split: if_splits)
qed

lemma create_sl_inv:
  assumes "create_skip_list n (Some cmp) seed w = (Some sl, w')" "is_int n" "comparator_order cmp"
  shows "sl_inv sl \<and> sl_entries sl = {#} \<and> sl_cmp sl = cmp \<and> sl_max_level sl = nat (n - 1)"
proof -
  have "0 < n" using assms(1) by (auto simp: create_skip_list_def split: if_splits)
  then have "nat (n - 1) < INT_MAX" using assms(2) by (auto simp: is_int_def INT_MAX_def)
  then have "sl_shape sl []" "sl_entries sl = {#}" "sl_cmp sl = cmp" "sl_max_level sl = nat (n - 1)"
    using assms(1,3) by (auto simp: create_skip_list_def sl_shape_def Let_def create_node_def node_at_def fwd_def sl_entries_def nth_Cons'
        split: if_splits prod.splits bool.splits option.splits)
  then show ?thesis by (auto simp: sl_inv_def)
qed
section \<open>Properties\<close>

lemma sl_search_get: "sl_inv sl \<Longrightarrow> k \<noteq> NULL \<Longrightarrow> sl_search sl k = Some (sl_get sl k)"
  using sl_search_spec [of sl k] by (auto simp: sl_get_def)

lemma sl_insert_binds:
  assumes "sl_stack_inv sl" "k \<noteq> NULL"
  shows "\<exists>e sl' w'. sl_insert sl k v w = Some (e, sl', w') \<and> sl_stack_inv sl' \<and> (alloc_fails w = [] \<longrightarrow> e = OVA_SUCCESS) \<and>
      (\<forall>k'. k' \<noteq> NULL \<longrightarrow> sl_search sl' k' = (if e = OVA_SUCCESS \<and> sl_cmp sl k k' = 0 then Some v else sl_search sl k')) \<and>
      sl_size sl' = sl_size sl + (if e = OVA_SUCCESS \<and> \<not> has_key (sl_same sl) k (sl_entries sl) then 1 else 0)"
proof -
  have i: "sl_inv sl" "sl_max_level sl < 32" using assms(1) by (simp_all add: sl_stack_inv_def)
  obtain e sl' w' where I: "sl_insert sl k v w = Some (e, sl', w')" "sl_inv sl'" "sl_max_level sl' = sl_max_level sl"
    "if e = OVA_SUCCESS then sl_entries sl' = put_entry (sl_same sl) k v (sl_entries sl)
     else alloc_fails w \<noteq> [] \<and> sl_entries sl' = sl_entries sl"
    using sl_insert_spec [OF i(1) assms(2), of v w] by (auto split: if_splits)
  have P: "sl_put sl k v w = (e = OVA_SUCCESS, sl', w')" by (simp add: sl_put_def I(1))
  have "sl_search sl' k' = (if e = OVA_SUCCESS \<and> sl_cmp sl k k' = 0 then Some v else sl_search sl k')" if k': "k' \<noteq> NULL" for k'
  proof (cases "sl_cmp sl k k' = 0")
    case False
    then show ?thesis using sd.get_put_other [OF assms k' P False] sl_search_get [OF I(2) k'] sl_search_get [OF i(1) k'] by simp
  next
    case True
    show ?thesis
    proof (cases "e = OVA_SUCCESS")
      case True
      then show ?thesis using sd.get_put_same [OF assms k' _ \<open>sl_cmp sl k k' = 0\<close>] P sl_search_get [OF I(2) k'] \<open>sl_cmp sl k k' = 0\<close> by simp
    next
      case False
      then have none: "\<not> has_key (sl_same sl) k (sl_entries sl)" using sd.put_fails [OF assms] P by simp
      then have "\<not> has_key (sl_same sl) k' (sl_entries sl)" using has_key_cong [OF sd.same_equiv [OF assms(1)] True] by blast
      moreover have "sl_stack_inv sl'" "sl_same sl' = sl_same sl" using sd.put_inv [OF assms P] by blast+
      ultimately show ?thesis
        using False I(4) sd.absent_get [OF assms(1) k'] sd.absent_get [of sl' k'] k' sl_search_get [OF I(2) k'] sl_search_get [OF i(1) k'] by simp
    qed
  qed
  moreover have "sl_size sl' = sl_size sl + (if e = OVA_SUCCESS \<and> \<not> has_key (sl_same sl) k (sl_entries sl) then 1 else 0)"
    using I(4) sl_inv_facts(3) [OF i(1)] sl_inv_facts(3) [OF I(2)] by (simp add: size_put_entry split: if_splits)
  moreover have "e = OVA_SUCCESS" if "alloc_fails w = []" using I(4) that by (simp split: if_splits)
  ultimately show "\<exists>e sl' w'. sl_insert sl k v w = Some (e, sl', w') \<and> sl_stack_inv sl' \<and> (alloc_fails w = [] \<longrightarrow> e = OVA_SUCCESS) \<and>
      (\<forall>k'. k' \<noteq> NULL \<longrightarrow> sl_search sl' k' = (if e = OVA_SUCCESS \<and> sl_cmp sl k k' = 0 then Some v else sl_search sl k')) \<and>
      sl_size sl' = sl_size sl + (if e = OVA_SUCCESS \<and> \<not> has_key (sl_same sl) k (sl_entries sl) then 1 else 0)"
    using I i(2) by (intro exI [of _ e] exI [of _ sl'] exI [of _ w']) (auto simp: sl_stack_inv_def)
qed

lemma sl_delete_unbinds:
  assumes "sl_stack_inv sl" "k \<noteq> NULL"
  shows "\<exists>e sl' w'. sl_delete sl k w = Some (e, sl', w') \<and> sl_stack_inv sl' \<and>
      e = (if has_key (sl_same sl) k (sl_entries sl) then OVA_SUCCESS else OVA_ERROR_NOT_FOUND) \<and>
      (\<forall>k'. k' \<noteq> NULL \<longrightarrow> sl_search sl' k' = (if sl_cmp sl k k' = 0 then Some NULL else sl_search sl k')) \<and>
      sl_size sl = sl_size sl' + (if e = OVA_SUCCESS then 1 else 0)"
proof -
  have i: "sl_inv sl" "sl_max_level sl < 32" using assms(1) by (simp_all add: sl_stack_inv_def)
  obtain e sl' w' where D: "sl_delete sl k w = Some (e, sl', w')" "sl_inv sl'" "sl_cmp sl' = sl_cmp sl" "sl_max_level sl' = sl_max_level sl"
    "sl_entries sl' = drop_key (sl_same sl) k (sl_entries sl)" "e = (if has_key (sl_same sl) k (sl_entries sl) then OVA_SUCCESS else OVA_ERROR_NOT_FOUND)"
    using sl_delete_spec [OF i(1) assms(2), of w] i(2) by (auto split: if_splits)
  have "sl_search sl' k' = (if sl_cmp sl k k' = 0 then Some NULL else sl_search sl k')" if k': "k' \<noteq> NULL" for k'
  proof -
    have inv': "sl_stack_inv sl'" using D(2,4) i(2) by (simp add: sl_stack_inv_def)
    have "is_lookup (sl_same sl) k' (sl_entries sl') (if sl_cmp sl k k' = 0 then NULL else sl_get sl k')"
      using is_lookup_drop_same [OF sd.same_equiv [OF assms(1)]] is_lookup_drop_other [OF sd.same_equiv [OF assms(1)]]
        sd.get_finds [OF assms(1) k'] unfolding D(5) by auto
    then have "sl_get sl' k' = (if sl_cmp sl k k' = 0 then NULL else sl_get sl k')"
      using sd.getI [OF inv' k'] D(3) by simp
    then show ?thesis using sl_search_get [OF D(2) k'] sl_search_get [OF i(1) k'] by simp
  qed
  moreover have "sl_size sl = sl_size sl' + (if e = OVA_SUCCESS then 1 else 0)"
    using sl_inv_facts(3) [OF i(1)] sl_inv_facts(3) [OF D(2)] D(5,6)
      size_drop_key [OF sd.same_equiv sd.apart, OF assms(1) assms(1), of k] by (simp split: if_splits)
  ultimately show "\<exists>e sl' w'. sl_delete sl k w = Some (e, sl', w') \<and> sl_stack_inv sl' \<and>
      e = (if has_key (sl_same sl) k (sl_entries sl) then OVA_SUCCESS else OVA_ERROR_NOT_FOUND) \<and>
      (\<forall>k'. k' \<noteq> NULL \<longrightarrow> sl_search sl' k' = (if sl_cmp sl k k' = 0 then Some NULL else sl_search sl k')) \<and>
      sl_size sl = sl_size sl' + (if e = OVA_SUCCESS then 1 else 0)"
    using D i(2) by (intro exI [of _ e] exI [of _ sl'] exI [of _ w']) (auto simp: sl_stack_inv_def)
qed

text \<open>C36: A skip list is a dictionary under its comparator, whatever levels the generator draws: insertion
  and deletion always return; an insertion binds exactly its key and fails only for want of memory,
  a deletion unbinds exactly its key and reports whether it was there, and the size counts the keys.\<close>

theorem skip_list_is_a_dictionary:
  assumes "sl_stack_inv sl" "k \<noteq> NULL"
  shows "(\<exists>e sl' w'. sl_insert sl k v w = Some (e, sl', w') \<and> sl_stack_inv sl' \<and> (alloc_fails w = [] \<longrightarrow> e = OVA_SUCCESS) \<and>
      (\<forall>k'. k' \<noteq> NULL \<longrightarrow> sl_search sl' k' = (if e = OVA_SUCCESS \<and> sl_cmp sl k k' = 0 then Some v else sl_search sl k')) \<and>
      sl_size sl' = sl_size sl + (if e = OVA_SUCCESS \<and> \<not> has_key (sl_same sl) k (sl_entries sl) then 1 else 0)) \<and>
    (\<exists>e sl' w'. sl_delete sl k w = Some (e, sl', w') \<and> sl_stack_inv sl' \<and>
      e = (if has_key (sl_same sl) k (sl_entries sl) then OVA_SUCCESS else OVA_ERROR_NOT_FOUND) \<and>
      (\<forall>k'. k' \<noteq> NULL \<longrightarrow> sl_search sl' k' = (if sl_cmp sl k k' = 0 then Some NULL else sl_search sl k')) \<and>
      sl_size sl = sl_size sl' + (if e = OVA_SUCCESS then 1 else 0))"
  using sl_insert_binds [OF assms, of v w] sl_delete_unbinds [OF assms, of w] by (rule conjI)

theorem skip_list_is_a_dictionary_witness:
  "\<exists>sl e sl' w' w1. create_skip_list 16 (Some set_default_ptr_compare) 7 fresh_world = (Some sl, w1) \<and>
     sl_insert sl (Some 5) (Some 9) fresh_world = Some (e, sl', w') \<and> e = OVA_SUCCESS \<and>
     sl_search sl' (Some 5) = Some (Some 9) \<and> sl_size sl' = 1"
proof -
  obtain sl w1 where c: "create_skip_list 16 (Some set_default_ptr_compare) 7 fresh_world = (Some sl, w1)"
    by (simp add: create_skip_list_def malloc_struct_def malloc_def create_node_def PTRDIFF_MAX_def)
  have i: "sl_inv sl" "sl_entries sl = {#}" "sl_cmp sl = set_default_ptr_compare" "sl_max_level sl = 15"
    using create_sl_inv [OF c _ pc.comparator_order_axioms] by (simp_all add: is_int_def)
  have s: "sl_stack_inv sl" "sl_size sl = 0" using i sl_inv_facts(3) [OF i(1)] by (simp_all add: sl_stack_inv_def)
  have "sl_cmp sl (Some 5) (Some 5) = 0" by (simp add: i(3) ptr_compare_sign)
  then show ?thesis
    using skip_list_is_a_dictionary [OF s(1), of "Some 5" "Some 9" fresh_world] c i(2) s(2) by (auto simp: fresh_world_def)
qed

text \<open>The nodes on level \<open>i\<close> from a pointer on, at most \<open>n\<close> of them.\<close>

fun follow :: "'a node_store \<Rightarrow> nat \<Rightarrow> nat \<Rightarrow> nat option \<Rightarrow> nat list" where
  "follow st i 0 p = []"
| "follow st i (Suc n) p = (case p of None \<Rightarrow> [] | Some a \<Rightarrow> a # follow st i n (fwd st a i))"

lemma follow_lane:
  "linked st (c # post) \<Longrightarrow> i \<le> lev st c \<Longrightarrow> length post \<le> n \<Longrightarrow>
     follow st i n (fwd st c i) = filter (\<lambda>a. i \<le> lev st a) post"
proof (induction n arbitrary: c post)
  case (Suc n)
  have f: "fwd st c i = next_lane st i post" using Suc.prems(1,2) by simp
  show ?case
  proof (cases "\<exists>m \<in> set post. i \<le> lev st m")
    case False
    then have "next_lane st i post = None" by (auto simp: next_lane_def find_None_iff)
    then show ?thesis using f False by (simp add: filter_empty_conv)
  next
    case True
    then obtain m1 m m2 where m: "post = m1 @ m # m2" "i \<le> lev st m" "\<forall>x \<in> set m1. \<not> i \<le> lev st x"
      using split_list_first_prop [of post "\<lambda>x. i \<le> lev st x"] by blast
    have "next_lane st i post = Some m" using next_lane_skip [of m1 st i "m # m2"] m by (simp add: not_le)
    moreover have "linked st (m # m2)" using Suc.prems(1) m(1) linked_append [of st "c # m1" "m # m2"] by simp
    then have "follow st i n (fwd st m i) = filter (\<lambda>a. i \<le> lev st a) m2" using Suc.IH [OF _ m(2)] Suc.prems(3) m(1) by simp
    ultimately show ?thesis using f m by (simp add: filter_empty_conv)
  qed
qed simp

lemma free_chain:
  assumes "linked st zs" "distinct zs" "dom st = set zs"
  shows "while_option (\<lambda>(st, cur). cur \<noteq> None) (\<lambda>(st, cur). (st(the cur := None), fwd st (the cur) 0))
    (st, next_lane st 0 zs) = Some (Map.empty, None)"
  using assms
proof (induction zs arbitrary: st)
  case Nil
  then show ?case by (subst while_option_unfold) simp
next
  case (Cons z zs)
  let ?s = "st(z := None)"
  have same: "node_at ?s m = node_at st m" "fwd ?s m i = fwd st m i" if "m \<in> set zs" for m i
    using Cons.prems(2) that by (cases "m = z"; auto simp: fwd_def)+
  have "linked ?s zs = linked st zs" by (rule linked_cong) (simp_all add: same)
  moreover have "next_lane ?s 0 zs = next_lane st 0 zs" by (rule next_lane_cong) (simp add: same)
  moreover have "dom ?s = set zs" using Cons.prems(2,3) by auto
  ultimately have IH: "while_option (\<lambda>(st, cur). cur \<noteq> None) (\<lambda>(st, cur). (st(the cur := None), fwd st (the cur) 0))
      (?s, next_lane st 0 zs) = Some (Map.empty, None)"
    using Cons.IH [of ?s] Cons.prems(1,2) unfolding linked.simps distinct.simps by metis
  have "next_lane st 0 (z # zs) = Some z" "fwd st z 0 = next_lane st 0 zs" using Cons.prems(1) by simp_all
  then show ?case using IH by (subst while_option_unfold) (simp del: fun_upd_apply)
qed

lemma inv_lanes:
  assumes "sl_inv sl"
  shows "\<exists>ns. distinct ns \<and> length ns = sl_size sl \<and> dom (sl_store sl) = insert (sl_header sl) (set ns) \<and> sl_header sl \<notin> set ns \<and>
    sorted_wrt (\<lambda>a b. sl_cmp sl (skey (sl_store sl) a) (skey (sl_store sl) b) < 0) ns \<and>
    (\<forall>i \<le> sl_max_level sl. follow (sl_store sl) i (sl_size sl) (fwd (sl_store sl) (sl_header sl) i) =
       filter (\<lambda>a. i \<le> lev (sl_store sl) a) ns) \<and>
    sl_free sl = Some Map.empty"
proof -
  obtain ns where shape: "sl_shape sl ns" using assms by (auto simp: sl_inv_def)
  let ?st = "sl_store sl" and ?h = "sl_header sl"
  have S: "distinct (?h # ns)" "dom ?st = set (?h # ns)" "linked ?st (?h # ns)" "lev ?st ?h = sl_max_level sl" "sl_size sl = length ns"
    "sorted_wrt (\<lambda>a b. sl_cmp sl (skey ?st a) (skey ?st b) < 0) ns"
    using shape by (simp_all add: sl_shape_def Let_def)
  have "sl_free sl = Some Map.empty" using free_chain [OF S(3,1,2)] by (simp add: sl_free_def)
  moreover have "follow ?st i (sl_size sl) (fwd ?st ?h i) = filter (\<lambda>a. i \<le> lev ?st a) ns" if "i \<le> sl_max_level sl" for i
    using follow_lane [OF S(3), of i "sl_size sl"] S(4,5) that by simp
  ultimately show ?thesis using S by (intro exI [of _ ns]) simp
qed

text \<open>Clients change a skip list by insertions and deletions; \<open>None\<close> is a call that never returns.\<close>

datatype 'a sl_op = Insert_Key "'a ptr" "'a ptr" | Delete_Key "'a ptr"

fun sl_call :: "'a sl_op \<Rightarrow> 'a skip_list \<Rightarrow> 'a world \<Rightarrow> ('a skip_list \<times> 'a world) option" where
  "sl_call (Insert_Key k v) sl w = map_option snd (sl_insert sl k v w)"
| "sl_call (Delete_Key k) sl w = map_option snd (sl_delete sl k w)"

fun sl_calls :: "'a sl_op list \<Rightarrow> 'a skip_list \<Rightarrow> 'a world \<Rightarrow> ('a skip_list \<times> 'a world) option" where
  "sl_calls [] sl w = Some (sl, w)"
| "sl_calls (c # cs) sl w = Option.bind (sl_call c sl w) (\<lambda>(sl, w). sl_calls cs sl w)"

lemma sl_call_inv:
  assumes "sl_inv sl"
  shows "\<exists>sl' w'. sl_call c sl w = Some (sl', w') \<and> sl_inv sl' \<and> sl_cmp sl' = sl_cmp sl \<and> sl_max_level sl' = sl_max_level sl"
proof (cases c)
  case (Insert_Key k v)
  then show ?thesis using assms sl_insert_spec [OF assms, of k v w] by (cases "k = NULL") (auto simp: sl_insert_def)
next
  case (Delete_Key k)
  then show ?thesis using assms sl_delete_spec [OF assms, of k w] by (cases "k = NULL") (auto simp: sl_delete_def)
qed

lemma sl_calls_inv:
  "sl_inv sl \<Longrightarrow> \<exists>sl' w'. sl_calls cs sl w = Some (sl', w') \<and> sl_inv sl' \<and> sl_cmp sl' = sl_cmp sl \<and> sl_max_level sl' = sl_max_level sl"
proof (induction cs arbitrary: sl w)
  case (Cons c cs)
  obtain sl1 w1 where "sl_call c sl w = Some (sl1, w1)" "sl_inv sl1" "sl_cmp sl1 = sl_cmp sl" "sl_max_level sl1 = sl_max_level sl"
    using sl_call_inv [OF Cons.prems] by blast
  then show ?case using Cons.IH [of sl1 w1] by simp
qed simp

text \<open>C37: After any sequence of insertions and deletions on a created skip list, whatever levels the
  generator draws and whatever the allocator refuses, all calls have returned, the store holds the
  header and one node for each key and nothing else, the lowest lane is the list of all nodes in
  ascending order of their keys, and every lane above it is the sublist of the nodes that reach its
  level. So \<open>free\<close> returns and releases every node.\<close>

theorem skip_list_lanes:
  assumes "create_skip_list n (Some cmp) seed w0 = (Some sl0, w)" "comparator_order cmp" "is_int n"
  shows "\<exists>sl w' ns. sl_calls cs sl0 w = Some (sl, w') \<and> sl_cmp sl = cmp \<and> sl_max_level sl = nat (n - 1) \<and>
    distinct ns \<and> length ns = sl_size sl \<and> dom (sl_store sl) = insert (sl_header sl) (set ns) \<and> sl_header sl \<notin> set ns \<and>
    sorted_wrt (\<lambda>a b. cmp (skey (sl_store sl) a) (skey (sl_store sl) b) < 0) ns \<and>
    (\<forall>i < nat n. follow (sl_store sl) i (sl_size sl) (fwd (sl_store sl) (sl_header sl) i) =
       filter (\<lambda>a. i \<le> lev (sl_store sl) a) ns) \<and>
    sl_free sl = Some Map.empty"
proof -
  have n: "0 < n" using assms(1) by (auto simp: create_skip_list_def split: if_splits)
  note start = create_sl_inv [OF assms(1,3,2)]
  then obtain sl w' where run: "sl_calls cs sl0 w = Some (sl, w')" "sl_inv sl" "sl_cmp sl = cmp" "sl_max_level sl = nat (n - 1)"
    using sl_calls_inv [of sl0 cs w] by auto
  have "i \<le> nat (n - 1) \<longleftrightarrow> i < nat n" for i using n by linarith
  then show ?thesis using inv_lanes [OF run(2)] run by simp
qed

theorem skip_list_lanes_witness:
  "\<exists>sl0 sl w w'. create_skip_list 4 (Some set_default_ptr_compare) 7 (fresh_world :: address world) = (Some sl0, w) \<and>
     sl_calls [Insert_Key (Some 5) NULL, Insert_Key (Some 3) NULL, Delete_Key (Some 5)] sl0 w = Some (sl, w') \<and> sl_free sl = Some Map.empty"
proof -
  obtain sl0 w where c: "create_skip_list 4 (Some set_default_ptr_compare) 7 (fresh_world :: address world) = (Some sl0, w)"
    by (simp add: create_skip_list_def malloc_struct_def malloc_def create_node_def PTRDIFF_MAX_def)
  have "is_int 4" by (simp add: is_int_def)
  from skip_list_lanes [OF c pc.comparator_order_axioms this, of "[Insert_Key (Some 5) NULL, Insert_Key (Some 3) NULL, Delete_Key (Some 5)]"] c
  show ?thesis by blast
qed

end
