(* ===== verification/Lp_Problem.thy ===== *)
theory Lp_Problem
  imports Matrices
begin

text \<open>
  The linear-programming problem object and the solver object, \<open>src/solver/solver.c\<close>. The
  coefficients are of an ordered field with floor, as the matrices are over any entries: what is
  shown is what the code computes where no rounding occurs. A problem is called through its object,
  so it is not null, and its matrix and vectors are never null because the constructor hands out no
  problem without them. Growing the storage doubles an \<open>int\<close>; \<open>None\<close> is a call that never returns.
\<close>

section \<open>The problem object\<close>

datatype ProblemType = PROBLEM_MAX | PROBLEM_MIN

datatype SolverType = SOLVER_BRANCH_AND_CUT | SOLVER_BRANCH_AND_BOUND | SOLVER_LAGRANGEAN_SIMPLEX | SOLVER_SIMPLEX

definition OPTIMAL :: int where "OPTIMAL = 0"

definition UNBOUNDED :: int where "UNBOUNDED = -1"

definition INFEASIBLE :: int where "INFEASIBLE = -2"

lemmas solver_codes = OPTIMAL_def UNBOUNDED_def INFEASIBLE_def

text \<open>The largest finite double.\<close>

definition DBL_MAX :: "'e :: floor_ceiling" where "DBL_MAX = 2 ^ 1024 - 2 ^ 971"

record 'e lp_problem_impl =
  lp_constraints :: "'e matrix_impl"
  lp_objective :: "'e vector_impl"
  lp_bounds :: "'e vector_impl"
  lp_type :: ProblemType
  variable_count :: int
  constraint_count :: int
  constraint_capacity :: int
  solution :: "'e list option"
  objective_value :: 'e

definition create_problem :: "int \<Rightarrow> int \<Rightarrow> 'w world \<Rightarrow> ('e :: floor_ceiling) lp_problem_impl option \<times> 'w world" where
  "create_problem num_variables num_constraints w =
     (if num_variables \<le> 0 then (None, w)
      else
       (let num_constraints = (if num_constraints < 1 then 1 else num_constraints) in
        case malloc_struct w of
          (False, w) \<Rightarrow> (None, w)
        | (True, w) \<Rightarrow>
           (case malloc_struct w of
              (False, w) \<Rightarrow> (None, w)
            | (True, w) \<Rightarrow>
               (case create_matrix num_constraints num_variables w of (constraints, w) \<Rightarrow>
                case create_vector num_variables w of (objective, w) \<Rightarrow>
                case create_vector num_constraints w of (bounds, w) \<Rightarrow>
                (case (constraints, objective, bounds) of
                   (Some constraints, Some objective, Some bounds) \<Rightarrow>
                     (Some \<lparr>lp_constraints = constraints, lp_objective = objective, lp_bounds = bounds,
                            lp_type = PROBLEM_MAX, variable_count = num_variables, constraint_count = 0,
                            constraint_capacity = num_constraints, solution = None, objective_value = 0\<rparr>, w)
                 | _ \<Rightarrow> (None, w))))))"

text \<open>A solver holds its kind; the function pointer is the case distinction of the dispatcher.\<close>

definition create_solver :: "SolverType \<Rightarrow> 'w world \<Rightarrow> SolverType option \<times> 'w world" where
  "create_solver type w =
     (case malloc_struct w of
        (False, w) \<Rightarrow> (None, w)
      | (True, w) \<Rightarrow> (case malloc_struct w of (False, w) \<Rightarrow> (None, w) | (True, w) \<Rightarrow> (Some type, w)))"

definition solver_type_method :: "SolverType option \<Rightarrow> SolverType" where
  "solver_type_method self = (case self of None \<Rightarrow> SOLVER_SIMPLEX | Some type \<Rightarrow> type)"

text \<open>\<open>while (new_capacity < min_capacity) new_capacity *= 2;\<close>\<close>

definition doubled_capacity :: "int \<Rightarrow> int \<Rightarrow> int option" where
  "doubled_capacity capacity min_capacity = while_option (\<lambda>c. c < min_capacity) (\<lambda>c. wrap_int (c * 2)) capacity"

definition solver_ensure_constraint_capacity ::
  "('e :: floor_ceiling) lp_problem_impl \<Rightarrow> int \<Rightarrow> 'w world \<Rightarrow> (int \<times> 'e lp_problem_impl \<times> 'w world) option" where
  "solver_ensure_constraint_capacity p min_capacity w =
     (if min_capacity \<le> constraint_capacity p then Some (0, p, w)
      else
       (case doubled_capacity (constraint_capacity p) min_capacity of
          None \<Rightarrow> None
        | Some new_capacity \<Rightarrow>
           (case matrix_resize_method (lp_constraints p) new_capacity (m_cols (lp_constraints p)) w of (rc, m, w) \<Rightarrow>
              (if rc \<noteq> 0 then Some (-1, p\<lparr>lp_constraints := m\<rparr>, w)
               else
                (case vector_resize_method (lp_bounds p) new_capacity w of (rc, v, w) \<Rightarrow>
                   (if rc \<noteq> 0 then Some (-1, p\<lparr>lp_constraints := m, lp_bounds := v\<rparr>, w)
                    else Some (0, p\<lparr>lp_constraints := m, lp_bounds := v, constraint_capacity := new_capacity\<rparr>, w)))))))"

text \<open>The coefficients are a buffer with an entry for every variable, or null.\<close>

definition solver_add_constraint ::
  "('e :: floor_ceiling) lp_problem_impl \<Rightarrow> 'e list option \<Rightarrow> 'e \<Rightarrow> 'w world \<Rightarrow> (int \<times> 'e lp_problem_impl \<times> 'w world) option" where
  "solver_add_constraint p coefficients bound w =
     (case coefficients of
        None \<Rightarrow> Some (-1, p, w)
      | Some coefficients \<Rightarrow>
         (case solver_ensure_constraint_capacity p (wrap_int (constraint_count p + 1)) w of
            None \<Rightarrow> None
          | Some (rc, p, w) \<Rightarrow>
             (if rc \<noteq> 0 then Some (-1, p, w)
              else
               (let m = lp_constraints p; v = lp_bounds p; row = nat (constraint_count p) in
                Some (0, p\<lparr>lp_constraints := m\<lparr>m_data := (m_data m)[row := map (\<lambda>i. coefficients ! i) [0..<nat (m_cols m)]]\<rparr>,
                           lp_bounds := v\<lparr>v_data := (v_data v)[row := bound]\<rparr>,
                           constraint_count := wrap_int (constraint_count p + 1)\<rparr>, w)))))"

definition solver_set_objective :: "'e lp_problem_impl \<Rightarrow> 'e list option \<Rightarrow> ProblemType \<Rightarrow> int \<times> 'e lp_problem_impl" where
  "solver_set_objective p coefficients type =
     (case coefficients of
        None \<Rightarrow> (-1, p)
      | Some coefficients \<Rightarrow>
         (0, p\<lparr>lp_objective := (lp_objective p)\<lparr>v_data := map (\<lambda>i. coefficients ! i) [0..<nat (v_size (lp_objective p))]\<rparr>,
               lp_type := type\<rparr>))"

definition solver_set_bounds :: "'e lp_problem_impl \<Rightarrow> 'e list option \<Rightarrow> int \<times> 'e lp_problem_impl" where
  "solver_set_bounds p bounds =
     (case bounds of
        None \<Rightarrow> (-1, p)
      | Some bounds \<Rightarrow>
         (0, p\<lparr>lp_bounds := (lp_bounds p)\<lparr>v_data := map (\<lambda>i. bounds ! i) [0..<nat (constraint_count p)] @
                 drop (nat (constraint_count p)) (v_data (lp_bounds p))\<rparr>\<rparr>))"

text \<open>\<open>sum += row[j] * x[j]\<close> for every column.\<close>

definition row_sum :: "nat \<Rightarrow> 'e list \<Rightarrow> 'e list \<Rightarrow> ('e :: {zero, plus, times})" where
  "row_sum cols row x = fold (\<lambda>j sum. sum + row ! j * x ! j) [0..<cols] 0"

definition solver_is_feasible :: "('e :: floor_ceiling) lp_problem_impl \<Rightarrow> 'e vector_impl option \<Rightarrow> int" where
  "solver_is_feasible p candidate =
     (case candidate of
        None \<Rightarrow> 0
      | Some x \<Rightarrow>
         (if \<exists>i \<in> set [0..<nat (constraint_count p)].
               row_sum (nat (m_cols (lp_constraints p))) (m_data (lp_constraints p) ! i) (v_data x) > v_data (lp_bounds p) ! i
          then 0 else 1))"

definition solver_improves_objective :: "('e :: floor_ceiling) lp_problem_impl \<Rightarrow> 'e vector_impl option \<Rightarrow> 'e \<Rightarrow> int \<Rightarrow> int" where
  "solver_improves_objective p candidate old_value index =
     (case candidate of
        None \<Rightarrow> 0
      | Some x \<Rightarrow>
         (let c = v_data (lp_objective p); n = nat (v_size x);
              new_obj = fold (\<lambda>i s. s + c ! i * v_data x ! i) [0..<n] 0;
              old_obj = fold (\<lambda>i s. s + c ! i * (if int i = index then old_value else v_data x ! i)) [0..<n] 0
          in if lp_type p = PROBLEM_MAX then (if new_obj > old_obj then 1 else 0) else (if new_obj < old_obj then 1 else 0)))"

definition solver_variable_count :: "'e lp_problem_impl option \<Rightarrow> int" where
  "solver_variable_count self = (case self of None \<Rightarrow> 0 | Some p \<Rightarrow> variable_count p)"

definition solver_constraint_count :: "'e lp_problem_impl option \<Rightarrow> int" where
  "solver_constraint_count self = (case self of None \<Rightarrow> 0 | Some p \<Rightarrow> constraint_count p)"

definition solver_solution_value :: "('e :: zero) lp_problem_impl option \<Rightarrow> int \<Rightarrow> 'e" where
  "solver_solution_value self index =
     (case self of
        None \<Rightarrow> 0
      | Some p \<Rightarrow>
         (case solution p of
            None \<Rightarrow> 0
          | Some x \<Rightarrow> (if index < 0 \<or> index \<ge> variable_count p then 0 else x ! nat index)))"

definition solver_objective_value :: "('e :: zero) lp_problem_impl option \<Rightarrow> 'e" where
  "solver_objective_value self = (case self of None \<Rightarrow> 0 | Some p \<Rightarrow> objective_value p)"

definition solver_problem_type :: "'e lp_problem_impl option \<Rightarrow> ProblemType" where
  "solver_problem_type self = (case self of None \<Rightarrow> PROBLEM_MAX | Some p \<Rightarrow> lp_type p)"

text \<open>\<open>fabs(value - round(value)) < 1e-6\<close>; the C function \<open>round\<close> goes away from zero at a half.\<close>

definition c_round :: "('e :: floor_ceiling) \<Rightarrow> 'e" where
  "c_round v = (if v < 0 then - of_int \<lfloor>1 / 2 - v\<rfloor> else of_int \<lfloor>v + 1 / 2\<rfloor>)"

definition is_integer :: "('e :: floor_ceiling) \<Rightarrow> bool" where
  "is_integer v \<longleftrightarrow> \<bar>v - c_round v\<bar> < 1 / 10 ^ 6"

section \<open>What a problem holds\<close>

text \<open>The storage has room for \<open>constraint_capacity\<close> rows; after a refused resize of the bounds
  the matrix may have more. A problem means its rows with their bounds, the objective and the
  direction.\<close>

definition lp_wf :: "'e lp_problem_impl \<Rightarrow> bool" where
  "lp_wf p \<longleftrightarrow> matrix_ok (lp_constraints p) \<and> m_cols (lp_constraints p) = variable_count p \<and>
     v_size (lp_objective p) = variable_count p \<and> length (v_data (lp_objective p)) = nat (variable_count p) \<and>
     0 \<le> constraint_count p \<and> constraint_count p \<le> constraint_capacity p \<and> 0 < constraint_capacity p \<and>
     constraint_capacity p \<le> m_rows (lp_constraints p) \<and> v_size (lp_bounds p) = constraint_capacity p \<and>
     length (v_data (lp_bounds p)) = nat (constraint_capacity p)"

definition lp_rows :: "'e lp_problem_impl \<Rightarrow> ('e list \<times> 'e) list" where
  "lp_rows p = map (\<lambda>i. (m_data (lp_constraints p) ! i, v_data (lp_bounds p) ! i)) [0..<nat (constraint_count p)]"

lemma length_lp_rows [simp]: "length (lp_rows p) = nat (constraint_count p)"
  by (simp add: lp_rows_def)

lemma create_vector_cases:
  "create_vector n w = (Some v, w') \<Longrightarrow> 0 < n \<and> v = \<lparr>v_data = replicate (nat n) 0, v_size = n\<rparr>"
  by (auto simp: create_vector_def split: if_splits prod.splits bool.splits)

lemma create_problem_wf:
  assumes "create_problem n k w = (Some p, w')" "n \<le> int INT_MAX" "k \<le> int INT_MAX"
  shows "lp_wf p" "lp_rows p = []" "v_data (lp_objective p) = replicate (nat n) 0" "lp_type p = PROBLEM_MAX"
    "variable_count p = n" "constraint_count p = 0" "constraint_capacity p = max 1 k" "solution p = None" "0 < n"
proof -
  define c where "c = (if k < 1 then 1 else k)"
  from assms(1) obtain w1 w2 w3 m v u where
    "create_matrix c n w1 = (Some m, w2)" "create_vector n w2 = (Some v, w3)" "create_vector c w3 = (Some u, w')" and
    p: "p = \<lparr>lp_constraints = m, lp_objective = v, lp_bounds = u, lp_type = PROBLEM_MAX, variable_count = n,
             constraint_count = 0, constraint_capacity = c, solution = None, objective_value = 0\<rparr>"
    by (auto simp: create_problem_def c_def Let_def split: if_splits prod.splits bool.splits option.splits)
  then have parts: "m = \<lparr>m_data = replicate (nat c) (replicate (nat n) 0), m_rows = c, m_cols = n\<rparr>"
      "v = \<lparr>v_data = replicate (nat n) 0, v_size = n\<rparr>" "u = \<lparr>v_data = replicate (nat c) 0, v_size = c\<rparr>" "0 < n"
    using create_matrix_cases(1) create_vector_cases by blast+
  have c: "0 < c" "c \<le> int INT_MAX" "c = max 1 k" using assms(3) by (auto simp: c_def INT_MAX_def)
  show "lp_wf p" using parts c assms(2) by (simp add: p lp_wf_def matrix_ok_def block_def)
  show "lp_rows p = []" "v_data (lp_objective p) = replicate (nat n) 0" "lp_type p = PROBLEM_MAX"
    "variable_count p = n" "constraint_count p = 0" "constraint_capacity p = max 1 k" "solution p = None" "0 < n"
    using parts c by (simp_all add: p lp_rows_def)
qed

lemma doubled_once:
  assumes "0 < c" "c < need" "need \<le> c + 1" "c \<le> 2 ^ 29"
  shows "doubled_capacity c need = Some (c * 2)"
proof -
  have "wrap_int (c * 2) = c * 2" using assms by (intro wrap_int_id) (simp add: is_int_def)
  then show ?thesis using assms by (simp add: doubled_capacity_def while_option_unfold)
qed

text \<open>Resizing keeps the rows that are in use and leaves everything else of the problem alone.\<close>

lemma matrix_resize_keeps:
  assumes "matrix_resize_method m new (m_cols m) w = (0, m', w')" "matrix_ok m" "0 < new" "new \<le> int INT_MAX"
  shows "matrix_ok m' \<and> m_rows m' = new \<and> m_cols m' = m_cols m \<and>
    (\<forall>i < nat (min (m_rows m) new). m_data m' ! i = m_data m ! i)"
proof (cases "m_rows m = new")
  case True
  then show ?thesis using assms by (simp add: matrix_resize_method_def matrix_ok_def)
next
  case False
  have ok: "0 < m_cols m" "0 < m_rows m" "length (m_data m) = nat (m_rows m)"
      "\<forall>i < nat (m_rows m). length (m_data m ! i) = nat (m_cols m)" "m_cols m \<le> int INT_MAX"
    using assms(2) by (simp_all add: matrix_ok_def block_def)
  define k where "k = nat (if m_rows m < new then m_rows m else new)"
  have k: "k = nat (min (m_rows m) new)" "k \<le> nat (m_rows m)" "k \<le> nat new" using ok(2) assms(3) by (auto simp: k_def)
  have m': "m' = m\<lparr>m_data := map (resized_row (nat (m_cols m)) (nat (m_cols m))) (take k (m_data m)) @
       replicate (nat new - k) (replicate (nat (m_cols m)) 0), m_rows := new, m_cols := m_cols m\<rparr>"
    using assms(1,3) ok False unfolding matrix_resize_method_def Let_def k_def
    by (auto split: if_splits prod.splits bool.splits)
  have row: "resized_row (nat (m_cols m)) (nat (m_cols m)) (m_data m ! i) = m_data m ! i" if "i < k" for i
    using that ok(4) k(2) by (simp add: resized_row_def)
  have "matrix_ok m'" using ok k(2,3) row assms(3,4) unfolding m' by (simp add: matrix_ok_def block_def nth_append)
  then show ?thesis using ok(3) k(2,3) row unfolding m' by (simp add: nth_append flip: k(1))
qed

lemma ensure_capacity_keeps:
  assumes "lp_wf p" "constraint_count p \<le> 2 ^ 29" "constraint_capacity p \<le> 2 ^ 30"
  shows "\<exists>rc p' w'. solver_ensure_constraint_capacity p (wrap_int (constraint_count p + 1)) w = Some (rc, p', w') \<and>
     lp_wf p' \<and> lp_rows p' = lp_rows p \<and> lp_objective p' = lp_objective p \<and> lp_type p' = lp_type p \<and>
     constraint_count p' = constraint_count p \<and> variable_count p' = variable_count p \<and> solution p' = solution p \<and>
     constraint_capacity p' \<le> 2 ^ 30 \<and> (rc = 0 \<longrightarrow> constraint_count p < constraint_capacity p') \<and> (rc = 0 \<or> rc = -1) \<and>
     (constraint_count p < constraint_capacity p \<longrightarrow> rc = 0 \<and> p' = p \<and> w' = w)"
proof -
  let ?need = "constraint_count p + 1"
  have count: "0 \<le> constraint_count p" "constraint_count p \<le> constraint_capacity p" using assms(1) by (simp_all add: lp_wf_def)
  have wrap: "wrap_int ?need = ?need" using count assms(2) by (intro wrap_int_id) (simp add: is_int_def)
  show ?thesis
  proof (cases "?need \<le> constraint_capacity p")
    case True
    then show ?thesis using assms by (simp add: solver_ensure_constraint_capacity_def wrap)
  next
    case False
    define new where "new = constraint_capacity p * 2"
    have cap: "constraint_capacity p = constraint_count p" "0 < constraint_capacity p" using False count assms(1) by (auto simp: lp_wf_def)
    have new: "doubled_capacity (constraint_capacity p) ?need = Some new" "0 < new" "new \<le> int INT_MAX" "new \<le> 2 ^ 30"
        "constraint_count p < new"
      using doubled_once [of "constraint_capacity p" ?need] cap assms(2) by (simp_all add: new_def INT_MAX_def)
    obtain rc m w1 where m: "matrix_resize_method (lp_constraints p) new (m_cols (lp_constraints p)) w = (rc, m, w1)"
      by (metis prod_cases3)
    obtain rc' v w2 where v: "vector_resize_method (lp_bounds p) new w1 = (rc', v, w2)" by (metis prod_cases3)
    have rcs: "rc = 0 \<or> rc = -1 \<and> m = lp_constraints p" "rc' = 0 \<or> rc' = -1 \<and> v = lp_bounds p"
      using m v by (auto simp: matrix_resize_method_def vector_resize_method_def Let_def split: if_splits prod.splits bool.splits)
    have keeps: "matrix_ok m \<and> m_rows m = new \<and> m_cols m = m_cols (lp_constraints p) \<and>
        (\<forall>i < nat (constraint_count p). m_data m ! i = m_data (lp_constraints p) ! i)" if "rc = 0"
      using matrix_resize_keeps [OF m [unfolded that]] assms(1) new(2,3,5) by (auto simp: lp_wf_def)
    have bounds: "v_size v = new \<and> length (v_data v) = nat new \<and> (\<forall>i < nat (constraint_count p). v_data v ! i = v_data (lp_bounds p) ! i)" if "rc' = 0"
      using v that assms(1) new(2,5) cap unfolding vector_resize_method_def lp_wf_def
      by (auto split: if_splits prod.splits bool.splits simp: nth_append)
    show ?thesis
      unfolding solver_ensure_constraint_capacity_def wrap
      using False new m v rcs keeps bounds assms by (auto simp: lp_wf_def lp_rows_def split: if_splits)
  qed
qed

lemma add_constraint_appends:
  assumes "lp_wf p" "constraint_count p < 2 ^ 29" "constraint_capacity p \<le> 2 ^ 30" "length row = nat (variable_count p)"
  shows "\<exists>rc p' w'. solver_add_constraint p (Some row) bound w = Some (rc, p', w') \<and>
     lp_wf p' \<and> lp_objective p' = lp_objective p \<and> lp_type p' = lp_type p \<and> variable_count p' = variable_count p \<and>
     solution p' = solution p \<and> constraint_capacity p' \<le> 2 ^ 30 \<and>
     (rc = 0 \<and> lp_rows p' = lp_rows p @ [(row, bound)] \<and> constraint_count p' = constraint_count p + 1 \<or>
      rc = -1 \<and> lp_rows p' = lp_rows p \<and> constraint_count p' = constraint_count p) \<and>
     (constraint_count p < constraint_capacity p \<longrightarrow> rc = 0 \<and> w' = w \<and> constraint_capacity p' = constraint_capacity p)"
proof -
  obtain rc q w' where q: "solver_ensure_constraint_capacity p (wrap_int (constraint_count p + 1)) w = Some (rc, q, w')"
      "lp_wf q" "lp_rows q = lp_rows p" "lp_objective q = lp_objective p" "lp_type q = lp_type p"
      "constraint_count q = constraint_count p" "variable_count q = variable_count p" "solution q = solution p"
      "constraint_capacity q \<le> 2 ^ 30" "rc = 0 \<longrightarrow> constraint_count p < constraint_capacity q" "rc = 0 \<or> rc = -1"
      "constraint_count p < constraint_capacity p \<longrightarrow> rc = 0 \<and> q = p \<and> w' = w"
    using ensure_capacity_keeps [OF assms(1) less_imp_le [OF assms(2)] assms(3), of w] by blast
  show ?thesis
  proof (cases "rc = 0")
    case False
    then show ?thesis using q assms by (auto simp: solver_add_constraint_def)
  next
    case True
    define r where "r = nat (constraint_count p)"
    define m where "m = (lp_constraints q)\<lparr>m_data := (m_data (lp_constraints q))[r := row]\<rparr>"
    define v where "v = (lp_bounds q)\<lparr>v_data := (v_data (lp_bounds q))[r := bound]\<rparr>"
    define p' where "p' = q\<lparr>lp_constraints := m, lp_bounds := v, constraint_count := constraint_count p + 1\<rparr>"
    have count: "0 \<le> constraint_count p" using assms(1) by (simp add: lp_wf_def)
    have wrap: "wrap_int (constraint_count p + 1) = constraint_count p + 1"
      using count assms(2) by (intro wrap_int_id) (simp add: is_int_def)
    have shape: "m_cols (lp_constraints q) = variable_count p" "matrix_ok (lp_constraints q)"
        "constraint_capacity q \<le> m_rows (lp_constraints q)" "v_size (lp_bounds q) = constraint_capacity q"
        "length (v_data (lp_bounds q)) = nat (constraint_capacity q)"
      using q(2,7) by (simp_all add: lp_wf_def)
    have r: "r < length (m_data (lp_constraints q))" "r < length (v_data (lp_bounds q))" "nat (constraint_count p + 1) = Suc r"
      using shape q(10) True count by (simp_all add: r_def matrix_ok_def block_def Suc_nat_eq_nat_zadd1)
    have row: "map (\<lambda>i. row ! i) [0..<nat (m_cols (lp_constraints q))] = row" using map_nth [of row] shape(1) assms(4) by simp
    have call: "solver_add_constraint p (Some row) bound w = Some (0, p', w')"
      using q(1) True by (simp add: solver_add_constraint_def Let_def row q(6) wrap p'_def m_def v_def r_def)
    have ok: "matrix_ok m" using shape(1,2) assms(4) r(1) by (auto simp: matrix_ok_def block_def m_def nth_list_update)
    have wf: "lp_wf p'" using q(2,6) q(10) True ok count by (simp add: lp_wf_def p'_def m_def v_def)
    have "lp_rows p' = map (\<lambda>i. (m_data m ! i, v_data v ! i)) [0..<Suc r]" by (simp add: lp_rows_def p'_def r(3))
    also have "\<dots> = lp_rows q @ [(row, bound)]" using r(1,2) by (simp add: lp_rows_def m_def v_def q(6) r_def)
    finally have "lp_rows p' = lp_rows p @ [(row, bound)]" by (simp add: q(3))
    moreover have "constraint_count p < constraint_capacity p \<Longrightarrow> constraint_capacity p' = constraint_capacity p \<and> w' = w"
      using q(12) by (simp add: p'_def)
    ultimately show ?thesis using call wf q(4,5,7,8,9) by (simp add: p'_def)
  qed
qed

text \<open>The calls that build a problem, and what they do to its meaning.\<close>

datatype 'e lp_op = Add_Constraint "'e list" 'e | Set_Objective "'e list" ProblemType | Set_Bounds "'e list"

fun lp_call :: "'e lp_op \<Rightarrow> ('e :: floor_ceiling) lp_problem_impl \<Rightarrow> 'w world \<Rightarrow> (int \<times> 'e lp_problem_impl \<times> 'w world) option" where
  "lp_call (Add_Constraint row bound) p w = solver_add_constraint p (Some row) bound w"
| "lp_call (Set_Objective c type) p w = (case solver_set_objective p (Some c) type of (rc, p) \<Rightarrow> Some (rc, p, w))"
| "lp_call (Set_Bounds bs) p w = (case solver_set_bounds p (Some bs) of (rc, p) \<Rightarrow> Some (rc, p, w))"

fun lp_calls :: "'e lp_op list \<Rightarrow> ('e :: floor_ceiling) lp_problem_impl \<Rightarrow> 'w world \<Rightarrow> (int list \<times> 'e lp_problem_impl \<times> 'w world) option" where
  "lp_calls [] p w = Some ([], p, w)"
| "lp_calls (c # cs) p w =
     (case lp_call c p w of
        None \<Rightarrow> None
      | Some (rc, p, w) \<Rightarrow> (case lp_calls cs p w of None \<Rightarrow> None | Some (rcs, p, w) \<Rightarrow> Some (rc # rcs, p, w)))"

type_synonym 'e lp = "('e list \<times> 'e) list \<times> 'e list \<times> ProblemType"

definition lp_abs :: "'e lp_problem_impl \<Rightarrow> 'e lp" where
  "lp_abs p = (lp_rows p, v_data (lp_objective p), lp_type p)"

fun lp_effect :: "'e lp_op \<Rightarrow> 'e lp \<Rightarrow> 'e lp" where
  "lp_effect (Add_Constraint row bound) (rows, c, type) = (rows @ [(row, bound)], c, type)"
| "lp_effect (Set_Objective c' type') (rows, c, type) = (rows, c', type')"
| "lp_effect (Set_Bounds bs) (rows, c, type) = (zip (map fst rows) bs, c, type)"

text \<open>A refused call, the code -1, has no effect.\<close>

fun lp_effects :: "'e lp_op list \<Rightarrow> int list \<Rightarrow> 'e lp \<Rightarrow> 'e lp" where
  "lp_effects (c # cs) (rc # rcs) l = lp_effects cs rcs (if rc = 0 then lp_effect c l else l)"
| "lp_effects _ _ l = l"

fun call_fits :: "nat \<Rightarrow> nat \<Rightarrow> 'e lp_op \<Rightarrow> bool" where
  "call_fits n k (Add_Constraint row bound) \<longleftrightarrow> length row = n"
| "call_fits n k (Set_Objective c type) \<longleftrightarrow> length c = n"
| "call_fits n k (Set_Bounds bs) \<longleftrightarrow> k \<le> length bs"

lemma lp_call_effect:
  assumes "lp_wf p" "constraint_count p < 2 ^ 29" "constraint_capacity p \<le> 2 ^ 30"
    "call_fits (nat (variable_count p)) (nat (constraint_count p)) c"
  shows "\<exists>rc p' w'. lp_call c p w = Some (rc, p', w') \<and> lp_wf p' \<and> constraint_capacity p' \<le> 2 ^ 30 \<and>
     variable_count p' = variable_count p \<and> constraint_count p' \<le> constraint_count p + 1 \<and>
     lp_abs p' = (if rc = 0 then lp_effect c (lp_abs p) else lp_abs p)"
proof (cases c)
  case (Add_Constraint row bound)
  then have "length row = nat (variable_count p)" using assms(4) by simp
  from add_constraint_appends [OF assms(1-3) this, of bound w] obtain rc p' w' where
    call: "solver_add_constraint p (Some row) bound w = Some (rc, p', w')" and wf: "lp_wf p'" "constraint_capacity p' \<le> 2 ^ 30"
      "variable_count p' = variable_count p" "constraint_count p' \<le> constraint_count p + 1" and
    eff: "lp_abs p' = (if rc = 0 then lp_effect c (lp_abs p) else lp_abs p)"
    by (auto simp: lp_abs_def Add_Constraint)
  show ?thesis using call wf eff unfolding Add_Constraint by (intro exI) simp
next
  case (Set_Objective obj type)
  have "map (\<lambda>i. obj ! i) [0..<nat (variable_count p)] = obj" using map_nth [of obj] assms(4) Set_Objective by simp
  then show ?thesis using assms Set_Objective
    by (auto simp: solver_set_objective_def lp_wf_def lp_abs_def lp_rows_def)
next
  case (Set_Bounds bs)
  define v where "v = map (\<lambda>i. bs ! i) [0..<nat (constraint_count p)] @ drop (nat (constraint_count p)) (v_data (lp_bounds p))"
  have "lp_wf (p\<lparr>lp_bounds := (lp_bounds p)\<lparr>v_data := v\<rparr>\<rparr>)"
    using assms(1) nat_mono [of "constraint_count p" "constraint_capacity p"] by (simp add: lp_wf_def v_def)
  moreover have "lp_rows (p\<lparr>lp_bounds := (lp_bounds p)\<lparr>v_data := v\<rparr>\<rparr>) = zip (map fst (lp_rows p)) bs"
    using assms(4) Set_Bounds by (intro nth_equalityI) (auto simp: lp_rows_def v_def nth_append)
  ultimately show ?thesis using assms(3) Set_Bounds by (simp add: solver_set_bounds_def lp_abs_def v_def)
qed

lemma lp_calls_effects:
  assumes "lp_wf p" "constraint_count p + int (length cs) \<le> 2 ^ 29" "constraint_capacity p \<le> 2 ^ 30"
    "\<forall>c \<in> set cs. call_fits (nat (variable_count p)) (nat (constraint_count p) + length cs) c"
  shows "\<exists>rcs p' w'. lp_calls cs p w = Some (rcs, p', w') \<and> length rcs = length cs \<and> lp_wf p' \<and>
     variable_count p' = variable_count p \<and> lp_abs p' = lp_effects cs rcs (lp_abs p)"
  using assms
proof (induction cs arbitrary: p w)
  case Nil
  then show ?case by simp
next
  case (Cons c cs)
  have fits: "call_fits n k d" if "call_fits n k' d" "k \<le> k'" for n k k' and d :: "'a lp_op"
    using that by (cases d) auto
  have "call_fits (nat (variable_count p)) (nat (constraint_count p)) c" using Cons.prems(4) by (auto intro: fits)
  then obtain rc q v where q: "lp_call c p w = Some (rc, q, v)" "lp_wf q" "constraint_capacity q \<le> 2 ^ 30"
      "variable_count q = variable_count p" "constraint_count q \<le> constraint_count p + 1"
      "lp_abs q = (if rc = 0 then lp_effect c (lp_abs p) else lp_abs p)"
    using lp_call_effect [OF Cons.prems(1) _ Cons.prems(3), of c w] Cons.prems(2) by auto
  have "call_fits (nat (variable_count q)) (nat (constraint_count q) + length cs) d" if "d \<in> set cs" for d
  proof (rule fits)
    show "call_fits (nat (variable_count q)) (nat (constraint_count p) + length (c # cs)) d" using Cons.prems(4) that q(4) by simp
  qed (use q(5) in simp)
  then have all: "\<forall>d \<in> set cs. call_fits (nat (variable_count q)) (nat (constraint_count q) + length cs) d" by blast
  have "constraint_count q + int (length cs) \<le> 2 ^ 29" using q(5) Cons.prems(2) by simp
  from Cons.IH [OF q(2) this q(3) all, of v] obtain rcs p' w' where
    "lp_calls cs q v = Some (rcs, p', w')" "length rcs = length cs" "lp_wf p'" "variable_count p' = variable_count q"
    "lp_abs p' = lp_effects cs rcs (lp_abs q)"
    by blast
  then show ?case using q(1,4,6) by (intro exI [of _ "rc # rcs"] exI [of _ p'] exI [of _ w']) simp
qed

lemma row_sum_eq: "row_sum n row x = (\<Sum>j<n. row ! j * x ! j :: 'e :: comm_semiring_0)"
  unfolding row_sum_def by (induction n) (simp_all add: add.commute)

lemma is_feasible_rows:
  assumes "lp_wf p"
  shows "solver_is_feasible p (Some x) = (if \<forall>(row, b) \<in> set (lp_rows p). (\<Sum>j<nat (variable_count p). row ! j * v_data x ! j) \<le> b then 1 else 0)"
proof -
  have "m_cols (lp_constraints p) = variable_count p" using assms by (simp add: lp_wf_def)
  then show ?thesis unfolding solver_is_feasible_def lp_rows_def row_sum_eq by (force simp: not_less)
qed

section \<open>Building a problem\<close>

text \<open>C38: in every world, a created problem takes any sequence of calls with buffers of the right
  length, always returns for up to \<open>2 ^ 29\<close> calls, keeps its shapes, and means the constraints added
  and the values set by the calls that reported success, with the test for feasibility that of
  those constraints.\<close>

theorem lp_problem_builds:
  fixes p :: "('e :: floor_ceiling) lp_problem_impl"
  assumes "create_problem n k w0 = (Some p, w)" "n \<le> int INT_MAX" "k \<le> 2 ^ 29" "length cs \<le> 2 ^ 29"
    "\<forall>c \<in> set cs. call_fits (nat n) (length cs) c"
  shows "\<exists>rcs q w'. lp_calls cs p w = Some (rcs, q, w') \<and> length rcs = length cs \<and> lp_wf q \<and> variable_count q = n \<and>
     lp_abs q = lp_effects cs rcs ([], replicate (nat n) 0, PROBLEM_MAX) \<and>
     solver_is_feasible q (Some x) = (if \<forall>(row, b) \<in> set (lp_rows q). (\<Sum>j<nat n. row ! j * v_data x ! j) \<le> b then 1 else 0)"
proof -
  have "k \<le> int INT_MAX" using assms(3) by (simp add: INT_MAX_def)
  note p = create_problem_wf [OF assms(1,2) this]
  obtain rcs q w' where q: "lp_calls cs p w = Some (rcs, q, w')" "length rcs = length cs" "lp_wf q" "variable_count q = n"
      "lp_abs q = lp_effects cs rcs (lp_abs p)"
    using lp_calls_effects [OF p(1), of cs w] p(5,6,7) assms(3,4,5) by auto
  have "lp_abs p = ([], replicate (nat n) 0, PROBLEM_MAX)" using p by (simp add: lp_abs_def)
  then show ?thesis using q is_feasible_rows [OF q(3), of x] by (intro exI [of _ rcs] exI [of _ q] exI [of _ w']) simp
qed

theorem lp_problem_builds_witness:
  "\<exists>rcs q w'. lp_calls [Set_Objective [3, 5] PROBLEM_MAX, Add_Constraint [1, 2 :: rat] 4, Add_Constraint [3, 1] 6, Set_Bounds [5, 6, 7, 8]]
      (the (fst (create_problem 2 1 (fresh_world :: rat world)))) (fresh_world :: rat world) = Some (rcs, q, w') \<and> length rcs = 4 \<and> lp_wf q"
proof -
  let ?p = "the (fst (create_problem 2 1 (fresh_world :: rat world))) :: rat lp_problem_impl"
  have "create_problem 2 1 (fresh_world :: rat world) = (Some ?p, fresh_world)"
    by (simp add: create_problem_def create_matrix_ready create_vector_def malloc_struct_def malloc_no_failures PTRDIFF_MAX_def)
  note created = this
  let ?cs = "[Set_Objective [3, 5] PROBLEM_MAX, Add_Constraint [1, 2 :: rat] 4, Add_Constraint [3, 1] 6, Set_Bounds [5, 6, 7, 8]]"
  have "(2 :: int) \<le> int INT_MAX" "(1 :: int) \<le> 2 ^ 29" "length ?cs \<le> 2 ^ 29" "\<forall>c \<in> set ?cs. call_fits (nat 2) (length ?cs) c"
    by (simp_all add: INT_MAX_def)
  from lp_problem_builds [OF created this, of "\<lparr>v_data = [1, 1], v_size = 2\<rparr>"] obtain rcs q w' where
    "lp_calls ?cs ?p (fresh_world :: rat world) = Some (rcs, q, w')" "length rcs = length ?cs" "lp_wf q" by blast
  then show ?thesis by (intro exI [of _ rcs] exI [of _ q] exI [of _ w']) (simp del: lp_calls.simps)
qed

end
