(* ===== verification/Simplex.thy ===== *)
theory Simplex
  imports Lp_Problem
begin

text \<open>
  The simplex method, \<open>src/solver/simplex.c\<close>, on a tableau of rows with a slack column for every
  constraint, the right-hand sides in the last column and the objective in the last row. The
  theorems say what the loop computes where no rounding occurs: the tableau stays equivalent to the
  problem and in basic form, the tolerance of the pivot rule bounds how far the reported value can
  be from the optimum, and the loop either returns or comes back to a tableau it has had before.
\<close>

section \<open>The code\<close>

text \<open>The loop that looks for the most negative entry of the objective row.\<close>

fun scan_column :: "('e :: floor_ceiling) list \<Rightarrow> nat list \<Rightarrow> 'e \<Rightarrow> nat option \<Rightarrow> nat option" where
  "scan_column objective [] most_negative pivot_col = pivot_col"
| "scan_column objective (j # js) most_negative pivot_col =
     (if objective ! j < most_negative then scan_column objective js (objective ! j) (Some j)
      else scan_column objective js most_negative pivot_col)"

definition pivot_column :: "nat \<Rightarrow> nat \<Rightarrow> ('e :: floor_ceiling) list list \<Rightarrow> nat option" where
  "pivot_column rows cols d = scan_column (d ! rows) [0..<cols + rows] (- (1 / 10 ^ 9)) None"

text \<open>The ratio test.\<close>

fun scan_ratio :: "('e :: floor_ceiling) list list \<Rightarrow> nat \<Rightarrow> nat \<Rightarrow> nat list \<Rightarrow> 'e \<Rightarrow> nat option \<Rightarrow> nat option" where
  "scan_ratio d last_col pivot_col [] min_ratio pivot_row = pivot_row"
| "scan_ratio d last_col pivot_col (i # is) min_ratio pivot_row =
     (if d ! i ! pivot_col > 1 / 10 ^ 9 then
        (let ratio = d ! i ! last_col / d ! i ! pivot_col in
         if ratio \<ge> 0 \<and> ratio < min_ratio then scan_ratio d last_col pivot_col is ratio (Some i)
         else scan_ratio d last_col pivot_col is min_ratio pivot_row)
      else scan_ratio d last_col pivot_col is min_ratio pivot_row)"

definition pivot_row :: "nat \<Rightarrow> nat \<Rightarrow> ('e :: floor_ceiling) list list \<Rightarrow> nat \<Rightarrow> nat option" where
  "pivot_row rows cols d pivot_col = scan_ratio d (cols + rows) pivot_col [0..<rows] DBL_MAX None"

text \<open>The pivot row is divided by the pivot, then its multiples are taken from every other row, the
  objective included.\<close>

definition pivot :: "nat \<Rightarrow> nat \<Rightarrow> nat \<Rightarrow> ('e :: floor_ceiling) list list \<Rightarrow> 'e list list" where
  "pivot rows r c d =
     (let pivot_value = d ! r ! c; q = map (\<lambda>x. x / pivot_value) (d ! r) in
      map (\<lambda>i. if i = r then q else map2 (\<lambda>x y. x - y * d ! i ! c) (d ! i) q) [0..<Suc rows])"

text \<open>The loop \<open>while (1)\<close> with the status it stops with; \<open>None\<close> when it never does.\<close>

partial_function (option) simplex_loop :: "nat \<Rightarrow> nat \<Rightarrow> ('e :: floor_ceiling) list list \<Rightarrow> (int \<times> 'e list list) option" where
  "simplex_loop rows cols d =
     (case pivot_column rows cols d of
        None \<Rightarrow> Some (OPTIMAL, d)
      | Some c \<Rightarrow>
         (case pivot_row rows cols d c of
            None \<Rightarrow> Some (UNBOUNDED, d)
          | Some r \<Rightarrow>
             (if \<bar>d ! r ! c\<bar> < 1 / 10 ^ 12 then Some (INFEASIBLE, d) else simplex_loop rows cols (pivot rows r c d))))"

text \<open>The value of a variable: the right-hand side of the first row whose entry makes its column look
  like a unit column, 0 if there is none.\<close>

definition is_basic :: "nat \<Rightarrow> ('e :: floor_ceiling) list list \<Rightarrow> nat \<Rightarrow> nat \<Rightarrow> bool" where
  "is_basic rows d i r \<longleftrightarrow> \<bar>d ! r ! i - 1\<bar> < 1 / 10 ^ 7 \<and> (\<forall>rr \<in> set [0..<rows]. \<not> (rr \<noteq> r \<and> \<bar>d ! rr ! i\<bar> > 1 / 10 ^ 7))"

definition read_variable :: "nat \<Rightarrow> nat \<Rightarrow> ('e :: floor_ceiling) list list \<Rightarrow> nat \<Rightarrow> 'e" where
  "read_variable rows cols d i = (case find (is_basic rows d i) [0..<rows] of None \<Rightarrow> 0 | Some r \<Rightarrow> d ! r ! (cols + rows))"

text \<open>The first tableau, in fresh memory of zeros.\<close>

definition initial_tableau :: "nat \<Rightarrow> nat \<Rightarrow> ('e :: floor_ceiling) lp_problem_impl \<Rightarrow> 'e list list" where
  "initial_tableau rows cols p =
     map (\<lambda>i. map (\<lambda>j. m_data (lp_constraints p) ! i ! j) [0..<cols] @
              (replicate rows 0)[i := 1] @ [v_data (lp_bounds p) ! i]) [0..<rows] @
     [map (\<lambda>j. if lp_type p = PROBLEM_MIN then v_data (lp_objective p) ! j else - (v_data (lp_objective p) ! j)) [0..<cols] @
      replicate (rows + 1) 0]"

text \<open>The result is the status, the problem with its solution, the tableau left in \<open>*out_tableau\<close>
  and the allocator. The flag says whether \<open>out_tableau\<close> is not null.\<close>

definition simplex_solver ::
  "('e :: floor_ceiling) lp_problem_impl option \<Rightarrow> bool \<Rightarrow> 'w world \<Rightarrow> (int \<times> 'e lp_problem_impl option \<times> 'e matrix_impl option \<times> 'w world) option" where
  "simplex_solver prob out_tableau w =
     (case prob of
        None \<Rightarrow> Some (INFEASIBLE, None, None, w)
      | Some p \<Rightarrow>
         (let rows = constraint_count p; cols = m_cols (lp_constraints p) in
          if \<not> out_tableau \<or> rows \<le> 0 \<or> cols \<le> 0 then Some (INFEASIBLE, Some p, None, w)
          else
           (case create_matrix (wrap_int (rows + 1)) (wrap_int (cols + rows + 1)) w of
              (None, w) \<Rightarrow> Some (INFEASIBLE, Some p, None, w)
            | (Some tableau, w) \<Rightarrow>
               (case simplex_loop (nat rows) (nat cols) (initial_tableau (nat rows) (nat cols) p) of
                  None \<Rightarrow> None
                | Some (status, d) \<Rightarrow>
                   (let tableau = tableau\<lparr>m_data := d\<rparr> in
                    if status = INFEASIBLE then Some (INFEASIBLE, Some p, None, w)
                    else if status = UNBOUNDED then Some (UNBOUNDED, Some p, Some tableau, w)
                    else
                     (case (if solution p = None then malloc (nat cols * 8) w else (True, w)) of
                        (False, w) \<Rightarrow> Some (INFEASIBLE, Some p, None, w)
                      | (True, w) \<Rightarrow>
                         (let value = d ! nat rows ! nat (cols + rows) in
                          Some (OPTIMAL,
                            Some (p\<lparr>solution := Some (map (read_variable (nat rows) (nat cols) d) [0..<nat cols]),
                                    objective_value := (if lp_type p = PROBLEM_MIN then - value else value)\<rparr>),
                            Some tableau, w))))))))"

section \<open>Systems, points and basic form\<close>

text \<open>An assignment \<open>v\<close> of all \<open>n\<close> columns solves a tableau when every row but the last holds, and
  \<open>cost\<close> is what the last row says of the objective there.\<close>

definition solves :: "nat \<Rightarrow> nat \<Rightarrow> ('e :: floor_ceiling) list list \<Rightarrow> (nat \<Rightarrow> 'e) \<Rightarrow> bool" where
  "solves rows n d v \<longleftrightarrow> (\<forall>i < rows. (\<Sum>j<n. d ! i ! j * v j) = d ! i ! n)"

definition cost :: "nat \<Rightarrow> nat \<Rightarrow> ('e :: floor_ceiling) list list \<Rightarrow> (nat \<Rightarrow> 'e) \<Rightarrow> 'e" where
  "cost rows n d v = d ! rows ! n - (\<Sum>j<n. d ! rows ! j * v j)"

definition in_basis :: "nat \<Rightarrow> nat \<Rightarrow> ('e :: floor_ceiling) list list \<Rightarrow> nat list \<Rightarrow> bool" where
  "in_basis rows n d B \<longleftrightarrow> length B = rows \<and> set B \<subseteq> {..<n} \<and> (\<forall>i < rows. \<forall>k \<le> rows. d ! k ! (B ! i) = (if k = i then 1 else 0))"

text \<open>The point whose coordinate \<open>c\<close> outside the basis is \<open>t\<close> and the others outside it are 0.\<close>

definition basic_point :: "nat \<Rightarrow> nat \<Rightarrow> nat list \<Rightarrow> ('e :: floor_ceiling) list list \<Rightarrow> nat \<Rightarrow> 'e \<Rightarrow> nat \<Rightarrow> 'e" where
  "basic_point rows n B d c t j = (if j = c then t else 0) + (\<Sum>i<rows. if B ! i = j then d ! i ! n - t * d ! i ! c else 0)"

lemma pivot_nth:
  assumes "block (Suc rows) (Suc n) d" "r < rows" "i \<le> rows" "j \<le> n"
  shows "pivot rows r c d ! i ! j = (if i = r then d ! r ! j / d ! r ! c else d ! i ! j - d ! r ! j / d ! r ! c * d ! i ! c)"
proof -
  have "pivot rows r c d ! i = (if i = r then map (\<lambda>x. x / d ! r ! c) (d ! r)
      else map2 (\<lambda>x y. x - y * d ! i ! c) (d ! i) (map (\<lambda>x. x / d ! r ! c) (d ! r)))"
    using assms(3) unfolding pivot_def Let_def by (subst nth_map) (simp_all del: upt_Suc)
  then show ?thesis using assms by (simp add: block_def)
qed

lemma pivot_block: "block (Suc rows) (Suc n) d \<Longrightarrow> r < rows \<Longrightarrow> block (Suc rows) (Suc n) (pivot rows r c d)"
  by (auto simp: block_def pivot_def Let_def simp del: upt_Suc)

lemma pivot_row_sum:
  assumes "block (Suc rows) (Suc n) d" "r < rows" "i \<le> rows"
  shows "(\<Sum>j<n. pivot rows r c d ! i ! j * v j) =
    (if i = r then (\<Sum>j<n. d ! r ! j * v j) / d ! r ! c else (\<Sum>j<n. d ! i ! j * v j) - (\<Sum>j<n. d ! r ! j * v j) / d ! r ! c * d ! i ! c)"
proof -
  have "(\<Sum>j<n. pivot rows r c d ! i ! j * v j) =
      (\<Sum>j<n. (if i = r then d ! r ! j / d ! r ! c else d ! i ! j - d ! r ! j / d ! r ! c * d ! i ! c) * v j)"
    by (intro sum.cong) (simp_all add: pivot_nth [OF assms])
  also have "\<dots> = (if i = r then \<Sum>j<n. d ! r ! j * v j / d ! r ! c else (\<Sum>j<n. d ! i ! j * v j - d ! r ! j * v j / d ! r ! c * d ! i ! c))"
    by (simp add: algebra_simps)
  finally show ?thesis by (simp add: sum_subtractf sum_divide_distrib sum_distrib_right)
qed

text \<open>A pivot changes neither the solutions nor the objective on them.\<close>

lemma pivot_solves:
  assumes "block (Suc rows) (Suc n) d" "r < rows" "d ! r ! c \<noteq> 0"
  shows "solves rows n (pivot rows r c d) v \<longleftrightarrow> solves rows n d v"
proof -
  define e where "e i = (\<Sum>j<n. d ! i ! j * v j) - d ! i ! n" for i
  have row: "(\<Sum>j<n. pivot rows r c d ! i ! j * v j) = pivot rows r c d ! i ! n \<longleftrightarrow>
      (if i = r then e r = 0 else e i = e r / d ! r ! c * d ! i ! c)" if "i < rows" for i
  proof -
    have sums: "(\<Sum>j<n. d ! i ! j * v j) = e i + d ! i ! n" for i by (simp add: e_def)
    show ?thesis using assms(3) that
      unfolding pivot_row_sum [OF assms(1,2) less_imp_le [OF that]] pivot_nth [OF assms(1,2) less_imp_le [OF that] le_refl] sums
      by (simp add: field_simps)
  qed
  have "(\<forall>i < rows. if i = r then e r = 0 else e i = e r / d ! r ! c * d ! i ! c) \<longleftrightarrow> (\<forall>i < rows. e i = 0)"
    using assms(2) by (metis (no_types, lifting) div_0 mult_zero_left)
  moreover have "solves rows n d v \<longleftrightarrow> (\<forall>i < rows. e i = 0)" by (simp add: solves_def e_def)
  ultimately show ?thesis unfolding solves_def using row by simp
qed

lemma pivot_cost:
  assumes "block (Suc rows) (Suc n) d" "r < rows" "solves rows n d v"
  shows "cost rows n (pivot rows r c d) v = cost rows n d v"
proof -
  have "(\<Sum>j<n. d ! r ! j * v j) = d ! r ! n" using assms(2,3) by (simp add: solves_def)
  then show ?thesis using assms(2)
    unfolding cost_def pivot_row_sum [OF assms(1,2) le_refl] pivot_nth [OF assms(1,2) le_refl le_refl] by simp
qed

lemma pivot_basis:
  assumes "block (Suc rows) (Suc n) d" "r < rows" "c < n" "d ! r ! c \<noteq> 0" "in_basis rows n d B"
  shows "in_basis rows n (pivot rows r c d) (B[r := c])"
proof -
  have B: "length B = rows" "set B \<subseteq> {..<n}" "\<And>i k. i < rows \<Longrightarrow> k \<le> rows \<Longrightarrow> d ! k ! (B ! i) = (if k = i then 1 else 0)"
    using assms(5) by (simp_all add: in_basis_def)
  have less: "B ! i < n" if "i < rows" for i using that B(1,2) by (metis lessThan_iff nth_mem subsetD)
  have "pivot rows r c d ! k ! (B[r := c] ! i) = (if k = i then 1 else 0)" if "i < rows" "k \<le> rows" for i k
    using that assms(2,3,4) B less [OF that(1)] by (auto simp: pivot_nth [OF assms(1,2)] nth_list_update)
  then show ?thesis using B(1,2) assms(3) set_update_subset_insert [of B r c] by (auto simp: in_basis_def)
qed

lemma in_basis_distinct:
  assumes "in_basis rows n d B"
  shows "distinct B"
proof -
  have B: "length B = rows" "\<And>i k. i < rows \<Longrightarrow> k \<le> rows \<Longrightarrow> d ! k ! (B ! i) = (if k = i then 1 else 0)"
    using assms by (simp_all add: in_basis_def)
  have "i = j" if "i < rows" "j < rows" "B ! i = B ! j" for i j
    using B(2) [of i i] B(2) [of j i] that by (auto split: if_splits)
  then show ?thesis using B(1) by (auto simp: distinct_conv_nth)
qed

lemma basic_point_sum:
  assumes "in_basis rows n e B" "c < n" "k \<le> rows"
  shows "(\<Sum>j<n. e ! k ! j * basic_point rows n B d c t j) =
    e ! k ! c * t + (if k < rows then d ! k ! n - t * d ! k ! c else 0)"
proof -
  have less: "B ! i < n" if "i < rows" for i using that assms(1) unfolding in_basis_def by (metis lessThan_iff nth_mem subsetD)
  let ?f = "\<lambda>i. d ! i ! n - t * d ! i ! c"
  have "(\<Sum>j<n. e ! k ! j * basic_point rows n B d c t j) =
      (\<Sum>j<n. e ! k ! j * (if j = c then t else 0)) + (\<Sum>j<n. e ! k ! j * (\<Sum>i<rows. if B ! i = j then ?f i else 0))"
    by (simp add: basic_point_def distrib_left sum.distrib)
  also have "(\<Sum>j<n. e ! k ! j * (if j = c then t else 0)) = (\<Sum>j<n. if j = c then e ! k ! j * t else 0)"
    by (intro sum.cong) simp_all
  also have "\<dots> = e ! k ! c * t" using assms(2) by simp
  also have "(\<Sum>j<n. e ! k ! j * (\<Sum>i<rows. if B ! i = j then ?f i else 0)) = (\<Sum>j<n. \<Sum>i<rows. if B ! i = j then e ! k ! j * ?f i else 0)"
    unfolding sum_distrib_left by (intro sum.cong refl) simp
  also have "\<dots> = (\<Sum>i<rows. \<Sum>j<n. if B ! i = j then e ! k ! j * ?f i else 0)" by (rule sum.swap)
  also have "\<dots> = (\<Sum>i<rows. e ! k ! (B ! i) * ?f i)" using less by (intro sum.cong) simp_all
  also have "\<dots> = (\<Sum>i<rows. if k = i then ?f i else 0)" using assms(1,3) by (intro sum.cong) (simp_all add: in_basis_def)
  also have "\<dots> = (if k < rows then ?f k else 0)" by simp
  finally show ?thesis .
qed

lemma basic_point_solves:
  assumes "in_basis rows n d B" "c < n"
  shows "solves rows n d (basic_point rows n B d c t)" "cost rows n d (basic_point rows n B d c t) = d ! rows ! n - d ! rows ! c * t"
  using basic_point_sum [OF assms, of _ d t] by (simp_all add: solves_def cost_def algebra_simps)

lemma basic_point_at: "i < rows \<Longrightarrow> in_basis rows n d B \<Longrightarrow> basic_point rows n B d c 0 (B ! i) = d ! i ! n"
proof -
  assume "i < rows" "in_basis rows n d B"
  then have "(\<Sum>k<rows. if B ! k = B ! i then d ! k ! n else 0) = (\<Sum>k<rows. if k = i then d ! k ! n else 0)"
    using in_basis_distinct [of rows n d B] by (intro sum.cong) (auto simp: in_basis_def nth_eq_iff_index_eq)
  then show ?thesis using \<open>i < rows\<close> by (simp add: basic_point_def cong: if_cong)
qed

lemma basic_point_outside: "j \<notin> set B \<Longrightarrow> length B = rows \<Longrightarrow> basic_point rows n B d c t j = (if j = c then t else 0)"
  by (auto simp: basic_point_def in_set_conv_nth intro!: sum.neutral)

text \<open>The basis and the solutions determine the tableau.\<close>

lemma basis_determines:
  assumes "block (Suc rows) (Suc n) d" "block (Suc rows) (Suc n) e" "in_basis rows n d B" "in_basis rows n e B" "0 < n"
    and same: "\<And>v. solves rows n d v \<Longrightarrow> solves rows n e v \<and> cost rows n e v = cost rows n d v"
  shows "d = e"
proof (rule block_eqI [OF assms(1,2)])
  have entry: "e ! k ! c * t + (if k < rows then d ! k ! n - t * d ! k ! c else 0) = (if k < rows then e ! k ! n else e ! rows ! n - d ! rows ! n + d ! rows ! c * t)"
    if "k \<le> rows" "c < n" for k c t
  proof -
    let ?v = "basic_point rows n B d c t"
    have "solves rows n e ?v" "cost rows n e ?v = d ! rows ! n - d ! rows ! c * t"
      using same [OF basic_point_solves(1)] basic_point_solves(2) assms(3) that(2) by auto
    then show ?thesis using basic_point_sum [OF assms(4) that(2,1), of d t] that(1)
      by (cases "k = rows") (auto simp: solves_def cost_def algebra_simps)
  qed
  fix k j assume "k < Suc rows" "j < Suc n"
  then show "d ! k ! j = e ! k ! j"
    using entry [of k 0 0] entry [of k j 0] entry [of k j 1] assms(5) by (cases "j = n"; cases "k = rows") auto
qed

section \<open>The pivot rule\<close>

lemma scan_column_result:
  "scan_column obj js m pc = r \<Longrightarrow>
     (case r of None \<Rightarrow> pc = None \<and> (\<forall>j \<in> set js. m \<le> obj ! j) | Some c \<Rightarrow> pc = Some c \<or> c \<in> set js \<and> obj ! c < m)"
  by (induction obj js m pc rule: scan_column.induct) (fastforce split: option.splits if_splits)+

lemma pivot_column_Some: "pivot_column rows cols d = Some c \<Longrightarrow> c < cols + rows \<and> d ! rows ! c < - (1 / 10 ^ 9)"
  using scan_column_result [of "d ! rows" "[0..<cols + rows]" "- (1 / 10 ^ 9)" None "Some c"] by (simp add: pivot_column_def)

lemma pivot_column_None: "pivot_column rows cols d = None \<Longrightarrow> j < cols + rows \<Longrightarrow> - (1 / 10 ^ 9) \<le> d ! rows ! j"
  using scan_column_result [of "d ! rows" "[0..<cols + rows]" "- (1 / 10 ^ 9)" None None] by (simp add: pivot_column_def)

lemma scan_ratio_result:
  "scan_ratio d l c is m pr = Some r \<Longrightarrow> pr = Some r \<or> r \<in> set is \<and> 1 / 10 ^ 9 < d ! r ! c \<and> 0 \<le> d ! r ! l / d ! r ! c"
  by (induction d l c "is" m pr rule: scan_ratio.induct) (fastforce simp: Let_def split: if_splits)+

lemma pivot_row_Some:
  assumes "pivot_row rows cols d c = Some r"
  shows "r < rows" "0 < d ! r ! c" "0 \<le> d ! r ! (cols + rows) / d ! r ! c"
proof -
  have "r \<in> set [0..<rows]" "1 / 10 ^ 9 < d ! r ! c" and q: "0 \<le> d ! r ! (cols + rows) / d ! r ! c"
    using scan_ratio_result [OF assms [unfolded pivot_row_def]] by simp_all
  moreover have "(0 :: 'a) < 1 / 10 ^ 9" by simp
  ultimately show "r < rows" "0 < d ! r ! c" "0 \<le> d ! r ! (cols + rows) / d ! r ! c" using order.strict_trans by auto
qed

text \<open>The chosen row has the least ratio of those that are looked at.\<close>

lemma scan_ratio_min:
  assumes "scan_ratio d l c is m pr = Some r" "\<And>r0. pr = Some r0 \<Longrightarrow> d ! r0 ! l / d ! r0 ! c = m"
  shows "d ! r ! l / d ! r ! c \<le> m \<and>
    (\<forall>i \<in> set is. 1 / 10 ^ 9 < d ! i ! c \<and> 0 \<le> d ! i ! l / d ! i ! c \<longrightarrow> d ! r ! l / d ! r ! c \<le> d ! i ! l / d ! i ! c)"
  using assms
proof (induction "is" arbitrary: m pr)
  case (Cons i "is")
  let ?ratio = "\<lambda>i. d ! i ! l / d ! i ! c"
  show ?case
  proof (cases "1 / 10 ^ 9 < d ! i ! c \<and> 0 \<le> ?ratio i \<and> ?ratio i < m")
    case True
    then have "scan_ratio d l c is (?ratio i) (Some i) = Some r" using Cons.prems(1) by (simp add: Let_def)
    from Cons.IH [OF this] True show ?thesis by auto
  next
    case False
    then have "scan_ratio d l c is m pr = Some r" using Cons.prems(1) by (auto simp: Let_def split: if_splits)
    from Cons.IH [OF this Cons.prems(2)] False show ?thesis by auto
  qed
qed auto

lemma pivot_row_min:
  "pivot_row rows cols d c = Some r \<Longrightarrow> i < rows \<Longrightarrow> 1 / 10 ^ 9 < d ! i ! c \<Longrightarrow> 0 \<le> d ! i ! (cols + rows) \<Longrightarrow>
     d ! r ! (cols + rows) / d ! r ! c \<le> d ! i ! (cols + rows) / d ! i ! c"
proof -
  assume "pivot_row rows cols d c = Some r" "i < rows" and i: "1 / 10 ^ 9 < d ! i ! c" "0 \<le> d ! i ! (cols + rows)"
  moreover have "0 < d ! i ! c" using order.strict_trans [OF _ i(1), of 0] by simp
  then have "0 \<le> d ! i ! (cols + rows) / d ! i ! c" using i(2) by simp
  ultimately show ?thesis using scan_ratio_min [of d "cols + rows" c "[0..<rows]" DBL_MAX None r] by (simp add: pivot_row_def)
qed

text \<open>One round of the loop, when it pivots, and several.\<close>

definition next_tableau :: "nat \<Rightarrow> nat \<Rightarrow> ('e :: floor_ceiling) list list \<Rightarrow> 'e list list option" where
  "next_tableau rows cols d =
     (case pivot_column rows cols d of
        None \<Rightarrow> None
      | Some c \<Rightarrow>
         (case pivot_row rows cols d c of
            None \<Rightarrow> None
          | Some r \<Rightarrow> (if \<bar>d ! r ! c\<bar> < 1 / 10 ^ 12 then None else Some (pivot rows r c d))))"

fun tableau_after :: "nat \<Rightarrow> nat \<Rightarrow> nat \<Rightarrow> ('e :: floor_ceiling) list list \<Rightarrow> 'e list list option" where
  "tableau_after rows cols 0 d = Some d"
| "tableau_after rows cols (Suc k) d =
     (case next_tableau rows cols d of None \<Rightarrow> None | Some e \<Rightarrow> tableau_after rows cols k e)"

text \<open>A round that leaves the objective where it is: the right-hand side of the pivot row is 0.\<close>

definition degenerate :: "nat \<Rightarrow> nat \<Rightarrow> ('e :: floor_ceiling) list list \<Rightarrow> bool" where
  "degenerate rows cols d \<longleftrightarrow>
     (\<exists>c r. pivot_column rows cols d = Some c \<and> pivot_row rows cols d c = Some r \<and> d ! r ! (cols + rows) = 0)"

lemma simplex_loop_next:
  "next_tableau rows cols d = Some e \<Longrightarrow> simplex_loop rows cols d = simplex_loop rows cols e"
  by (subst simplex_loop.simps) (auto simp: next_tableau_def split: option.splits if_splits)

lemma simplex_loop_stop:
  assumes "next_tableau rows cols d = None"
  shows "\<exists>st. simplex_loop rows cols d = Some (st, d) \<and> (st = OPTIMAL \<longleftrightarrow> pivot_column rows cols d = None) \<and>
    (st = OPTIMAL \<or> st = UNBOUNDED \<or> st = INFEASIBLE)"
  using assms by (subst simplex_loop.simps) (auto simp: next_tableau_def solver_codes split: option.splits if_splits)

lemma tableau_after_add:
  "tableau_after rows cols (k + m) d = (case tableau_after rows cols k d of None \<Rightarrow> None | Some e \<Rightarrow> tableau_after rows cols m e)"
  by (induction k arbitrary: d) (simp_all split: option.split)

text \<open>The loop returns exactly when the rounds come to an end.\<close>

lemma simplex_loop_None: "simplex_loop rows cols d = None \<longleftrightarrow> (\<forall>k. tableau_after rows cols k d \<noteq> None)"
proof
  assume "simplex_loop rows cols d = None"
  then have "tableau_after rows cols k d \<noteq> None" for k
  proof (induction k arbitrary: d)
    case (Suc k)
    then show ?case using simplex_loop_stop [of rows cols d] simplex_loop_next [of rows cols d]
      by (cases "next_tableau rows cols d") auto
  qed simp
  then show "\<forall>k. tableau_after rows cols k d \<noteq> None" by blast
next
  assume all: "\<forall>k. tableau_after rows cols k d \<noteq> None"
  show "simplex_loop rows cols d = None"
  proof (rule ccontr)
    assume "simplex_loop rows cols d \<noteq> None"
    then obtain r where "simplex_loop rows cols d = Some r" by blast
    then have "\<exists>k. tableau_after rows cols k d = None"
    proof (rule simplex_loop.raw_induct [rotated])
      fix f :: "nat \<Rightarrow> nat \<Rightarrow> 'a list list \<Rightarrow> (int \<times> 'a list list) option" and rows cols d r
      assume IH: "\<And>rows cols d r. f rows cols d = Some r \<Longrightarrow> \<exists>k. tableau_after rows cols k d = None"
        and body: "(case pivot_column rows cols d of None \<Rightarrow> Some (OPTIMAL, d)
          | Some c \<Rightarrow> (case pivot_row rows cols d c of None \<Rightarrow> Some (UNBOUNDED, d)
            | Some r \<Rightarrow> (if \<bar>d ! r ! c\<bar> < 1 / 10 ^ 12 then Some (INFEASIBLE, d) else f rows cols (pivot rows r c d)))) = Some r"
      show "\<exists>k. tableau_after rows cols k d = None"
      proof (cases "next_tableau rows cols d")
        case None
        then show ?thesis by (intro exI [of _ "Suc 0"]) simp
      next
        case (Some e)
        then have "f rows cols e = Some r" using body by (auto simp: next_tableau_def split: option.splits if_splits)
        then obtain k where "tableau_after rows cols k e = None" using IH by blast
        then show ?thesis using Some by (intro exI [of _ "Suc k"]) simp
      qed
    qed
    then show False using all by blast
  qed
qed

section \<open>What every round keeps\<close>

definition reached :: "nat \<Rightarrow> nat \<Rightarrow> ('e :: floor_ceiling) list list \<Rightarrow> 'e list list \<Rightarrow> bool" where
  "reached rows n d0 d \<longleftrightarrow> block (Suc rows) (Suc n) d \<and> (\<exists>B. in_basis rows n d B) \<and>
     (\<forall>v. solves rows n d v \<longleftrightarrow> solves rows n d0 v) \<and> (\<forall>v. solves rows n d0 v \<longrightarrow> cost rows n d v = cost rows n d0 v)"

lemma next_tableau_pivot:
  assumes "next_tableau rows cols d = Some e"
  obtains r c where "pivot_column rows cols d = Some c" "pivot_row rows cols d c = Some r" "e = pivot rows r c d"
  using assms by (auto simp: next_tableau_def split: option.splits if_splits)

lemma reached_next:
  assumes "reached rows (cols + rows) d0 d" "next_tableau rows cols d = Some e"
  shows "reached rows (cols + rows) d0 e" "d ! rows ! (cols + rows) \<le> e ! rows ! (cols + rows)"
    "\<not> degenerate rows cols d \<Longrightarrow> d ! rows ! (cols + rows) < e ! rows ! (cols + rows)"
proof -
  let ?n = "cols + rows"
  obtain r c where rc: "pivot_column rows cols d = Some c" "pivot_row rows cols d c = Some r" "e = pivot rows r c d"
    using next_tableau_pivot [OF assms(2)] .
  note r = pivot_row_Some [OF rc(2)]
  have c: "c < ?n" "d ! rows ! c < 0" using pivot_column_Some [OF rc(1)] order.strict_trans [of _ "- (1 / 10 ^ 9)" "0 :: 'a"] by auto
  have blk: "block (Suc rows) (Suc ?n) d" using assms(1) by (simp add: reached_def)
  obtain B where "in_basis rows ?n d B" using assms(1) by (auto simp: reached_def)
  then have "in_basis rows ?n e (B[r := c])" using pivot_basis [OF blk r(1) c(1)] r(2) rc(3) by simp
  moreover have "block (Suc rows) (Suc ?n) e" using pivot_block [OF blk r(1)] rc(3) by simp
  moreover have "solves rows ?n e v \<longleftrightarrow> solves rows ?n d v" for v using pivot_solves [OF blk r(1)] r(2) rc(3) by auto
  moreover have "solves rows ?n d v \<Longrightarrow> cost rows ?n e v = cost rows ?n d v" for v using pivot_cost [OF blk r(1)] rc(3) by simp
  ultimately show "reached rows ?n d0 e" using assms(1) unfolding reached_def by metis
  have obj: "e ! rows ! ?n = d ! rows ! ?n + d ! r ! ?n / d ! r ! c * - (d ! rows ! c)"
    using pivot_nth [OF blk r(1), of rows ?n c] r(1) rc(3) by simp
  then show "d ! rows ! ?n \<le> e ! rows ! ?n" using mult_nonneg_nonneg [OF r(3), of "- (d ! rows ! c)"] c(2) by linarith
  assume "\<not> degenerate rows cols d"
  then have "0 < d ! r ! ?n / d ! r ! c" using rc r(2,3) by (auto simp: degenerate_def less_le)
  then show "d ! rows ! ?n < e ! rows ! ?n" using mult_pos_pos [of "d ! r ! ?n / d ! r ! c" "- (d ! rows ! c)"] c(2) obj by linarith
qed

lemma reached_after:
  "reached rows (cols + rows) d0 d \<Longrightarrow> tableau_after rows cols k d = Some e \<Longrightarrow>
     reached rows (cols + rows) d0 e \<and> d ! rows ! (cols + rows) \<le> e ! rows ! (cols + rows)"
proof (induction k arbitrary: d)
  case (Suc k)
  then obtain f where f: "next_tableau rows cols d = Some f" "tableau_after rows cols k f = Some e" by (auto split: option.splits)
  then show ?case using Suc.IH [OF reached_next(1) [OF Suc.prems(1) f(1)] f(2)] reached_next(2) [OF Suc.prems(1) f(1)]
    by (meson order_trans)
qed simp

lemma simplex_loop_ends:
  assumes "simplex_loop rows cols d = Some (st, e)"
  shows "\<exists>k. tableau_after rows cols k d = Some e \<and> (st = OPTIMAL \<longleftrightarrow> pivot_column rows cols e = None) \<and>
    (st = OPTIMAL \<or> st = UNBOUNDED \<or> st = INFEASIBLE)"
proof -
  obtain k where "tableau_after rows cols k d = None" using assms simplex_loop_None [of rows cols d] by auto
  then show ?thesis using assms
  proof (induction k arbitrary: d)
    case (Suc k)
    show ?case
    proof (cases "next_tableau rows cols d")
      case None
      then show ?thesis using simplex_loop_stop [OF None] Suc.prems(2) by (intro exI [of _ 0]) auto
    next
      case (Some f)
      have "tableau_after rows cols k f = None" using Suc.prems(1) Some by simp
      moreover have "simplex_loop rows cols f = Some (st, e)" using simplex_loop_next [OF Some] Suc.prems(2) by simp
      ultimately obtain k where "tableau_after rows cols k f = Some e" "st = OPTIMAL \<longleftrightarrow> pivot_column rows cols e = None"
          "st = OPTIMAL \<or> st = UNBOUNDED \<or> st = INFEASIBLE"
        using Suc.IH by blast
      then show ?thesis using Some by (intro exI [of _ "Suc k"]) simp
    qed
  qed simp
qed

lemma simplex_loop_reached:
  assumes "reached rows (cols + rows) d0 d" "simplex_loop rows cols d = Some (st, e)"
  shows "reached rows (cols + rows) d0 e \<and> (st = OPTIMAL \<longrightarrow> pivot_column rows cols e = None)"
  using simplex_loop_ends [OF assms(2)] reached_after [OF assms(1)] by blast

text \<open>The right-hand sides stay non-negative as long as the column of the pivot has no positive entry
  that the tolerance of the ratio test leaves out.\<close>

definition no_tiny_entry :: "nat \<Rightarrow> nat \<Rightarrow> ('e :: floor_ceiling) list list \<Rightarrow> bool" where
  "no_tiny_entry rows cols d \<longleftrightarrow> (\<forall>c. pivot_column rows cols d = Some c \<longrightarrow> (\<forall>i < rows. d ! i ! c \<le> 0 \<or> 1 / 10 ^ 9 < d ! i ! c))"

lemma next_rhs:
  assumes "block (Suc rows) (Suc (cols + rows)) d" "next_tableau rows cols d = Some e" "no_tiny_entry rows cols d"
    "\<forall>i < rows. 0 \<le> d ! i ! (cols + rows)" "i < rows"
  shows "0 \<le> e ! i ! (cols + rows)"
proof -
  let ?n = "cols + rows"
  obtain r c where rc: "pivot_column rows cols d = Some c" "pivot_row rows cols d c = Some r" "e = pivot rows r c d"
    using next_tableau_pivot [OF assms(2)] .
  note r = pivot_row_Some [OF rc(2)]
  have e: "e ! i ! ?n = (if i = r then d ! r ! ?n / d ! r ! c else d ! i ! ?n - d ! r ! ?n / d ! r ! c * d ! i ! c)"
    using pivot_nth [OF assms(1) r(1), of i ?n c] assms(5) rc(3) by simp
  consider "i = r" | "d ! i ! c \<le> 0" "i \<noteq> r" | "1 / 10 ^ 9 < d ! i ! c" "i \<noteq> r" using assms(3,5) rc(1) by (auto simp: no_tiny_entry_def)
  then show ?thesis
  proof cases
    case 1
    then show ?thesis using e r(3) by simp
  next
    case 2
    then have "d ! r ! ?n / d ! r ! c * d ! i ! c \<le> 0" using r(3) by (intro mult_nonneg_nonpos)
    moreover have "0 \<le> d ! i ! ?n" using assms(4,5) by blast
    ultimately show ?thesis using e 2 by simp
  next
    case 3
    have "0 < d ! i ! c" using order.strict_trans [OF _ 3(1), of 0] by simp
    moreover have "d ! r ! ?n / d ! r ! c \<le> d ! i ! ?n / d ! i ! c" using pivot_row_min [OF rc(2) assms(5) 3(1)] assms(4,5) by blast
    ultimately have "d ! r ! ?n / d ! r ! c * d ! i ! c \<le> d ! i ! ?n" by (simp add: pos_le_divide_eq)
    then show ?thesis using e 3 by simp
  qed
qed

lemma after_rhs:
  assumes "reached rows (cols + rows) d0 d" "tableau_after rows cols k d = Some e"
    "\<And>k f. tableau_after rows cols k d = Some f \<Longrightarrow> no_tiny_entry rows cols f" "\<forall>i < rows. 0 \<le> d ! i ! (cols + rows)"
  shows "\<forall>i < rows. 0 \<le> e ! i ! (cols + rows)"
  using assms
proof (induction k arbitrary: d)
  case (Suc k)
  then obtain f where f: "next_tableau rows cols d = Some f" "tableau_after rows cols k f = Some e" by (auto split: option.splits)
  have "no_tiny_entry rows cols g" if "tableau_after rows cols j f = Some g" for j g
    using Suc.prems(3) [of "Suc j" g] f(1) that by simp
  moreover have "\<forall>i < rows. 0 \<le> f ! i ! (cols + rows)"
    using next_rhs [OF _ f(1) Suc.prems(3) [of 0] Suc.prems(4)] Suc.prems(1) by (simp add: reached_def)
  ultimately show ?case using Suc.IH [OF reached_next(1) [OF Suc.prems(1) f(1)] f(2)] by blast
qed simp

text \<open>There are finitely many bases, so a run that never ends comes back to a tableau; the objective
  never falls, so every pivot on the way is degenerate.\<close>

lemma endless_rounds_cycle:
  assumes "reached rows (cols + rows) d0 d0" "0 < cols + rows" "\<forall>k. tableau_after rows cols k d0 \<noteq> None"
  shows "\<exists>k m e. 0 < m \<and> tableau_after rows cols k d0 = Some e \<and> tableau_after rows cols m e = Some e"
proof -
  let ?n = "cols + rows"
  have "\<forall>k. \<exists>e. tableau_after rows cols k d0 = Some e" using assms(3) by auto
  then obtain D where D: "tableau_after rows cols k d0 = Some (D k)" for k using choice [of "\<lambda>k e. tableau_after rows cols k d0 = Some e"] by blast
  have D_reached: "reached rows ?n d0 (D k)" for k using reached_after [OF assms(1) D] by blast
  then have "\<forall>k. \<exists>B. in_basis rows ?n (D k) B" by (simp add: reached_def)
  then obtain B where B: "in_basis rows ?n (D k) (B k)" for k using choice [of "\<lambda>k B. in_basis rows ?n (D k) B"] by blast
  have "finite {xs :: nat list. set xs \<subseteq> {..<?n} \<and> length xs = rows}" by (rule finite_lists_length_eq) simp
  moreover have "range B \<subseteq> {xs. set xs \<subseteq> {..<?n} \<and> length xs = rows}" using B by (auto simp: in_basis_def)
  ultimately have "\<not> inj B" using finite_imageD finite_subset infinite_UNIV_nat by metis
  then obtain i j where "i < j" "B i = B j" unfolding inj_def by (metis linorder_neqE_nat)
  then have "D i = D j" using basis_determines [of rows ?n "D i" "D j" "B i"] D_reached [of i] D_reached [of j] B [of i] B [of j] assms(2)
    by (auto simp: reached_def)
  moreover have "tableau_after rows cols (j - i) (D i) = Some (D j)"
    using D [of j] tableau_after_add [of rows cols i "j - i" d0] D [of i] \<open>i < j\<close> by simp
  ultimately show ?thesis using D [of i] \<open>i < j\<close> by (intro exI [of _ i] exI [of _ "j - i"] exI [of _ "D i"]) simp
qed

lemma cycle_degenerate:
  assumes "reached rows (cols + rows) d0 e" "tableau_after rows cols m e = Some e" "i < m"
  shows "\<exists>f. tableau_after rows cols i e = Some f \<and> degenerate rows cols f"
proof -
  obtain f where f: "tableau_after rows cols i e = Some f" "tableau_after rows cols (Suc (m - Suc i)) f = Some e"
    using assms(2,3) tableau_after_add [of rows cols i "Suc (m - Suc i)" e] by (auto split: option.splits)
  then obtain g where g: "next_tableau rows cols f = Some g" "tableau_after rows cols (m - Suc i) g = Some e"
    by (auto split: option.splits)
  note reach = reached_after [OF assms(1) f(1)]
  note reach_g = reached_next [OF conjunct1 [OF reach] g(1)]
  have "g ! rows ! (cols + rows) \<le> e ! rows ! (cols + rows)" using reached_after [OF reach_g(1) g(2)] by blast
  then have "degenerate rows cols f" using reach_g(3) reach by (meson leD order_less_le_trans order_trans)
  then show ?thesis using f(1) by blast
qed

section \<open>The problem and its first tableau\<close>

definition lp_value :: "('e :: floor_ceiling) lp_problem_impl \<Rightarrow> (nat \<Rightarrow> 'e) \<Rightarrow> 'e" where
  "lp_value p x = (\<Sum>j<nat (variable_count p). v_data (lp_objective p) ! j * x j)"

definition lp_slack :: "('e :: floor_ceiling) lp_problem_impl \<Rightarrow> (nat \<Rightarrow> 'e) \<Rightarrow> nat \<Rightarrow> 'e" where
  "lp_slack p x i = snd (lp_rows p ! i) - (\<Sum>j<nat (variable_count p). fst (lp_rows p ! i) ! j * x j)"

definition lp_feasible :: "('e :: floor_ceiling) lp_problem_impl \<Rightarrow> (nat \<Rightarrow> 'e) \<Rightarrow> bool" where
  "lp_feasible p x \<longleftrightarrow> (\<forall>j < nat (variable_count p). 0 \<le> x j) \<and> (\<forall>i < nat (constraint_count p). 0 \<le> lp_slack p x i)"

text \<open>The value as the direction of the problem counts it.\<close>

definition lp_gain :: "('e :: floor_ceiling) lp_problem_impl \<Rightarrow> 'e \<Rightarrow> 'e" where
  "lp_gain p z = (if lp_type p = PROBLEM_MIN then - z else z)"

abbreviation lp_tableau :: "('e :: floor_ceiling) lp_problem_impl \<Rightarrow> 'e list list" where
  "lp_tableau p \<equiv> initial_tableau (nat (constraint_count p)) (nat (variable_count p)) p"

lemma sum_append: "(\<Sum>j<(a :: nat) + b. f j) = (\<Sum>j<a. f j) + (\<Sum>i<b. f (a + i) :: 'e :: comm_monoid_add)"
  by (induction b) (simp_all add: add.assoc)

lemma lp_wf_positive:
  assumes "lp_wf p"
  shows "0 < variable_count p" "m_cols (lp_constraints p) = variable_count p"
  using assms by (auto simp: lp_wf_def matrix_ok_def)

lemma initial_nth:
  assumes "i < rows"
  shows "initial_tableau rows cols p ! i =
    map (\<lambda>j. m_data (lp_constraints p) ! i ! j) [0..<cols] @ (replicate rows 0)[i := 1] @ [v_data (lp_bounds p) ! i]"
  using assms by (simp add: initial_tableau_def nth_append)

lemma initial_last:
  "initial_tableau rows cols p ! rows = map (\<lambda>j. lp_gain p (- (v_data (lp_objective p) ! j))) [0..<cols] @ replicate (rows + 1) 0"
  by (simp add: initial_tableau_def nth_append lp_gain_def cong: map_cong)

lemma initial_block: "block (Suc rows) (Suc (cols + rows)) (initial_tableau rows cols p)"
  unfolding block_def
proof (intro conjI allI impI)
  fix i assume "i < Suc rows"
  then show "length (initial_tableau rows cols p ! i) = Suc (cols + rows)"
    by (cases "i = rows") (simp_all add: initial_nth initial_last)
qed (simp add: initial_tableau_def)

lemma initial_basis: "in_basis rows (cols + rows) (initial_tableau rows cols p) [cols..<cols + rows]"
proof -
  have "initial_tableau rows cols p ! k ! (cols + i) = (if k = i then 1 else 0)" if "i < rows" "k \<le> rows" for i k
    using that by (cases "k = rows") (simp_all add: initial_nth initial_last nth_append nth_list_update del: replicate_Suc)
  then show ?thesis by (auto simp: in_basis_def)
qed

lemma initial_reached: "reached rows (cols + rows) (initial_tableau rows cols p) (initial_tableau rows cols p)"
  using initial_block [of rows cols p] initial_basis [of rows cols p] unfolding reached_def by blast

lemma initial_solves:
  "solves (nat (constraint_count p)) (nat (variable_count p) + nat (constraint_count p)) (lp_tableau p) v \<longleftrightarrow>
     (\<forall>i < nat (constraint_count p). v (nat (variable_count p) + i) = lp_slack p v i)"
proof -
  let ?m = "nat (constraint_count p)" and ?n = "nat (variable_count p)"
  have "(\<Sum>j<?n + ?m. lp_tableau p ! i ! j * v j) = (\<Sum>j<?n. fst (lp_rows p ! i) ! j * v j) + v (?n + i)" if "i < ?m" for i
  proof -
    have "(\<Sum>k<?m. (replicate ?m 0)[i := 1] ! k * v (?n + k)) = (\<Sum>k<?m. if k = i then v (?n + k) else 0)"
      by (intro sum.cong) (simp_all add: nth_list_update)
    then show ?thesis using that unfolding sum_append by (simp add: initial_nth nth_append lp_rows_def)
  qed
  moreover have "lp_tableau p ! i ! (?n + ?m) = snd (lp_rows p ! i)" if "i < ?m" for i
    using that by (simp add: initial_nth nth_append lp_rows_def)
  ultimately show ?thesis unfolding solves_def lp_slack_def by (simp add: eq_diff_eq add.commute)
qed

lemma initial_cost:
  "cost (nat (constraint_count p)) (nat (variable_count p) + nat (constraint_count p)) (lp_tableau p) v = lp_gain p (lp_value p v)"
  unfolding cost_def sum_append lp_value_def
  by (simp add: initial_last nth_append lp_gain_def sum_negf del: replicate_Suc)

text \<open>A basic variable is read from its row.\<close>

lemma read_basic:
  assumes "in_basis rows n d B" "i < rows"
  shows "read_variable rows cols d (B ! i) = d ! i ! (cols + rows)"
proof -
  have col: "d ! k ! (B ! i) = (if k = i then 1 else 0)" if "k < rows" for k using assms that by (simp add: in_basis_def)
  have "is_basic rows d (B ! i) i" using col assms(2) by (simp add: is_basic_def)
  moreover have "\<not> is_basic rows d (B ! i) k" if "k < i" for k using col [of k] that assms(2) by (simp add: is_basic_def)
  ultimately have "find (is_basic rows d (B ! i)) [0..<rows] = Some i"
    using assms(2) by (auto simp: find_Some_iff)
  then show ?thesis by (simp add: read_variable_def)
qed

text \<open>No feasible point is better than the value of the final tableau by more than the tolerance
  allows.\<close>

lemma final_bound:
  assumes "reached rows n d0 d" "\<And>j. j < n \<Longrightarrow> - (1 / 10 ^ 9) \<le> d ! rows ! j" "solves rows n d0 v" "\<And>j. j < n \<Longrightarrow> 0 \<le> v j"
  shows "cost rows n d0 v \<le> d ! rows ! n + (\<Sum>j<n. v j) / 10 ^ 9"
proof -
  have "- (\<Sum>j<n. v j) / 10 ^ 9 = (\<Sum>j<n. - (1 / 10 ^ 9) * v j)" by (simp add: sum_negf sum_divide_distrib)
  also have "\<dots> \<le> (\<Sum>j<n. d ! rows ! j * v j)"
    using assms(2,4) by (intro sum_mono mult_right_mono) auto
  finally have "- (\<Sum>j<n. v j) / 10 ^ 9 \<le> (\<Sum>j<n. d ! rows ! j * v j)" .
  moreover have "cost rows n d v = cost rows n d0 v" using assms(1,3) by (simp add: reached_def)
  ultimately show ?thesis by (simp add: cost_def)
qed

lemma simplex_solver_optimal:
  assumes "simplex_solver (Some p) True w = Some (OPTIMAL, q, t, w')" "lp_wf p"
  obtains d tab where
    "simplex_loop (nat (constraint_count p)) (nat (variable_count p)) (lp_tableau p) = Some (OPTIMAL, d)" "t = Some tab" "m_data tab = d"
    "q = Some (p\<lparr>solution := Some (map (read_variable (nat (constraint_count p)) (nat (variable_count p)) d) [0..<nat (variable_count p)]),
       objective_value := lp_gain p (d ! nat (constraint_count p) ! (nat (variable_count p) + nat (constraint_count p)))\<rparr>)"
    "0 < constraint_count p"
proof -
  note n = lp_wf_positive [OF assms(2)]
  have "nat (variable_count p + constraint_count p) = nat (variable_count p) + nat (constraint_count p)" if "0 < constraint_count p"
    using that n by (simp add: nat_add_distrib)
  then obtain st d tab where run: "simplex_loop (nat (constraint_count p)) (nat (variable_count p)) (lp_tableau p) = Some (st, d)"
      "st \<noteq> UNBOUNDED" "st \<noteq> INFEASIBLE" "t = Some tab" "m_data tab = d" "0 < constraint_count p"
      "q = Some (p\<lparr>solution := Some (map (read_variable (nat (constraint_count p)) (nat (variable_count p)) d) [0..<nat (variable_count p)]),
         objective_value := lp_gain p (d ! nat (constraint_count p) ! (nat (variable_count p) + nat (constraint_count p)))\<rparr>)"
    using assms(1) n
    by (auto simp: simplex_solver_def Let_def lp_gain_def solver_codes split: if_splits option.splits prod.splits bool.splits)
  then have "st = OPTIMAL" using simplex_loop_ends [OF run(1)] by blast
  then show ?thesis using that [OF _ run(4,5,7,6)] run(1) by simp
qed

lemma cycle_never_stops:
  assumes "0 < l" "tableau_after rows cols k d = Some e" "tableau_after rows cols l e = Some e"
  shows "simplex_loop rows cols d = None"
proof -
  have again: "tableau_after rows cols (j * l) e = Some e" for j
    using assms(3) by (induction j) (simp_all add: tableau_after_add)
  have "tableau_after rows cols i d \<noteq> None" for i
  proof
    assume none: "tableau_after rows cols i d = None"
    have "i \<le> k + i * l" using assms(1) by (simp add: trans_le_add2)
    then have "tableau_after rows cols (k + i * l) d = None"
      using tableau_after_add [of rows cols i "k + i * l - i" d] none by simp
    then show False using tableau_after_add [of rows cols k "i * l" d] assms(2) again by simp
  qed
  then show ?thesis by (simp add: simplex_loop_None)
qed
section \<open>The optimum\<close>

text \<open>The vertex of the final tableau.\<close>

lemma simplex_vertex:
  assumes "lp_wf p" "simplex_loop (nat (constraint_count p)) (nat (variable_count p)) (lp_tableau p) = Some (OPTIMAL, d)"
  defines "m \<equiv> nat (constraint_count p)" and "n \<equiv> nat (variable_count p)"
  shows "\<exists>x B. in_basis m (n + m) d B \<and> solves m (n + m) (lp_tableau p) x \<and> lp_gain p (d ! m ! (n + m)) = lp_value p x \<and>
    (\<forall>j. x j = 0 \<or> (\<exists>i < m. j = B ! i \<and> x j = d ! i ! (n + m))) \<and>
    (\<forall>j < n. x j \<noteq> 0 \<longrightarrow> map (read_variable m n d) [0..<n] ! j = x j)"
proof -
  have d: "reached m (n + m) (lp_tableau p) d"
    using simplex_loop_reached [OF initial_reached assms(2)] unfolding m_def n_def by simp
  obtain B where B: "in_basis m (n + m) d B" using d by (auto simp: reached_def)
  define x where "x = basic_point m (n + m) B d 0 0"
  have "0 < n" using lp_wf_positive [OF assms(1)] by (simp add: n_def)
  then have x: "solves m (n + m) (lp_tableau p) x" "cost m (n + m) d x = d ! m ! (n + m)"
    using basic_point_solves [OF B, of 0 0] d by (simp_all add: x_def reached_def)
  have obj: "lp_gain p (d ! m ! (n + m)) = lp_value p x"
    using x d initial_cost [of p x] by (simp add: reached_def m_def n_def lp_gain_def split: if_splits)
  have coords: "x j = 0 \<or> (\<exists>i < m. j = B ! i \<and> x j = d ! i ! (n + m))" for j
    using basic_point_at [OF _ B, of _ 0] basic_point_outside [of j B m "n + m" d 0 0] B
    by (cases "j \<in> set B") (auto simp: x_def in_basis_def in_set_conv_nth)
  have "map (read_variable m n d) [0..<n] ! j = x j" if "j < n" "x j \<noteq> 0" for j
    using coords [of j] read_basic [OF B] that by fastforce
  then show ?thesis using B x(1) obj coords by blast
qed


text \<open>Whatever the bounds are, the reported value is that of a solution of the constraints with
  slacks, and no feasible point is better by more than the tolerance of the pivot rule.\<close>

lemma simplex_value_bound:
  assumes "lp_wf p" "simplex_solver (Some p) True w = Some (OPTIMAL, q, t, w')"
  defines "m \<equiv> nat (constraint_count p)" and "n \<equiv> nat (variable_count p)"
  shows "\<exists>x xs T. t = Some T \<and> q = Some (p\<lparr>solution := Some xs, objective_value := lp_value p x\<rparr>) \<and> length xs = n \<and>
     (\<forall>j < n. x j \<noteq> 0 \<longrightarrow> xs ! j = x j) \<and> ((\<forall>i < m. 0 \<le> m_data T ! i ! (n + m)) \<longrightarrow> lp_feasible p x) \<and>
     (\<forall>y. lp_feasible p y \<longrightarrow> lp_gain p (lp_value p y) \<le> lp_gain p (lp_value p x) + ((\<Sum>j<n. y j) + (\<Sum>i<m. lp_slack p y i)) / 10 ^ 9)"
proof -
  obtain d tab where run: "simplex_loop m n (lp_tableau p) = Some (OPTIMAL, d)" "t = Some tab" "m_data tab = d" "0 < constraint_count p"
      "q = Some (p\<lparr>solution := Some (map (read_variable m n d) [0..<n]), objective_value := lp_gain p (d ! m ! (n + m))\<rparr>)"
    using simplex_solver_optimal [OF assms(2,1)] unfolding m_def n_def by metis
  have d: "reached m (n + m) (lp_tableau p) d" "pivot_column m n d = None"
    using simplex_loop_reached [OF initial_reached run(1) [unfolded m_def n_def]] unfolding m_def n_def by simp_all
  obtain x B where x: "solves m (n + m) (lp_tableau p) x" and obj: "lp_gain p (d ! m ! (n + m)) = lp_value p x" and
    coords: "\<And>j. x j = 0 \<or> (\<exists>i < m. j = B ! i \<and> x j = d ! i ! (n + m))" and
    read: "\<And>j. j < n \<Longrightarrow> x j \<noteq> 0 \<Longrightarrow> map (read_variable m n d) [0..<n] ! j = x j"
    using simplex_vertex [OF assms(1) run(1) [unfolded m_def n_def]] unfolding m_def n_def by blast
  have slack: "lp_slack p x i = x (n + i)" if "i < m" for i using x that by (simp add: initial_solves m_def n_def)
  note read
  moreover have "lp_feasible p x" if "\<forall>i < m. 0 \<le> d ! i ! (n + m)"
  proof -
    have "0 \<le> x j" for j using coords [of j] that by auto
    then show ?thesis using slack by (simp add: lp_feasible_def m_def n_def)
  qed
  moreover have "lp_gain p (lp_value p y) \<le> lp_gain p (lp_value p x) + ((\<Sum>j<n. y j) + (\<Sum>i<m. lp_slack p y i)) / 10 ^ 9"
    if y: "lp_feasible p y" for y
  proof -
    define v where "v j = (if j < n then y j else lp_slack p y (j - n))" for j
    have same: "lp_slack p v i = lp_slack p y i" "lp_value p v = lp_value p y" for i by (simp_all add: lp_slack_def lp_value_def v_def n_def)
    have "solves m (n + m) (lp_tableau p) v" by (simp add: initial_solves m_def n_def same) (simp add: v_def n_def)
    moreover have "0 \<le> v j" if "j < n + m" for j using y that by (auto simp: v_def lp_feasible_def m_def n_def)
    ultimately have "cost m (n + m) (lp_tableau p) v \<le> d ! m ! (n + m) + (\<Sum>j<n + m. v j) / 10 ^ 9"
      using final_bound [OF d(1)] pivot_column_None [OF d(2)] by blast
    moreover have "(\<Sum>j<n + m. v j) = (\<Sum>j<n. y j) + (\<Sum>i<m. lp_slack p y i)" by (simp add: sum_append v_def)
    ultimately show ?thesis using initial_cost [of p v] obj same(2) by (simp add: m_def n_def lp_gain_def split: if_splits)
  qed
  ultimately show ?thesis using run obj
    by (intro exI [of _ x] exI [of _ "map (read_variable m n d) [0..<n]"] exI [of _ tab]) (simp add: n_def)
qed

text \<open>No tableau the solver meets on the problem has, in the column it pivots on, a positive entry of
  at most \<open>10 ^ -9\<close>.\<close>

definition no_tiny_pivots :: "('e :: floor_ceiling) lp_problem_impl \<Rightarrow> bool" where
  "no_tiny_pivots p \<longleftrightarrow> (\<forall>k d. tableau_after (nat (constraint_count p)) (nat (variable_count p)) k (lp_tableau p) = Some d \<longrightarrow>
     no_tiny_entry (nat (constraint_count p)) (nat (variable_count p)) d)"

text \<open>C39: when the bounds of the problem are not negative and the run meets no entry that the ratio
  test mistakes for zero, a reported optimum is one: the value is that of a feasible point \<open>x\<close>,
  the nonzero coordinates of \<open>x\<close> are reported exactly, and no feasible point is better than the value by more than
  \<open>10 ^ -9\<close> for each unit of its variables and slacks, the tolerance of the pivot rule. The rest of
  the problem is unchanged.\<close>

theorem simplex_near_optimal:
  assumes "lp_wf p" "simplex_solver (Some p) True w = Some (OPTIMAL, q, t, w')"
    "\<forall>(row, bound) \<in> set (lp_rows p). 0 \<le> bound" "no_tiny_pivots p"
  defines "m \<equiv> nat (constraint_count p)" and "n \<equiv> nat (variable_count p)"
  shows "\<exists>x xs. q = Some (p\<lparr>solution := Some xs, objective_value := lp_value p x\<rparr>) \<and> length xs = n \<and>
     lp_feasible p x \<and> (\<forall>j < n. x j \<noteq> 0 \<longrightarrow> xs ! j = x j) \<and>
     (\<forall>y. lp_feasible p y \<longrightarrow> lp_gain p (lp_value p y) \<le> lp_gain p (lp_value p x) + ((\<Sum>j<n. y j) + (\<Sum>i<m. lp_slack p y i)) / 10 ^ 9)"
proof -
  obtain d tab where run: "simplex_loop m n (lp_tableau p) = Some (OPTIMAL, d)" "t = Some tab" "m_data tab = d"
    using simplex_solver_optimal [OF assms(2,1)] unfolding m_def n_def by metis
  have "lp_tableau p ! i ! (n + m) = snd (lp_rows p ! i)" if "i < m" for i
    using that by (simp add: initial_nth nth_append lp_rows_def m_def n_def)
  moreover have "0 \<le> snd (lp_rows p ! i)" if "i < m" for i
    using assms(3) nth_mem [of i "lp_rows p"] that by (fastforce simp: m_def case_prod_beta)
  ultimately have start: "\<forall>i < m. 0 \<le> lp_tableau p ! i ! (n + m)" by simp
  obtain k where "tableau_after m n k (lp_tableau p) = Some d" using simplex_loop_ends [OF run(1)] by blast
  then have "\<forall>i < m. 0 \<le> m_data tab ! i ! (n + m)"
    using after_rhs [OF initial_reached _ _ start [unfolded m_def n_def]] assms(4) run(3) unfolding m_def n_def no_tiny_pivots_def by blast
  then show ?thesis using simplex_value_bound [OF assms(1,2)] run(2) unfolding m_def n_def by (metis option.inject)
qed

text \<open>C40: the loop of the solver fails to return exactly when a tableau comes back, and then every
  pivot of the cycle leaves the objective where it is.\<close>

theorem simplex_returns_or_cycles:
  assumes "lp_wf p" "0 < constraint_count p"
  defines "m \<equiv> nat (constraint_count p)" and "n \<equiv> nat (variable_count p)"
  shows "simplex_loop m n (lp_tableau p) = None \<longleftrightarrow>
     (\<exists>k l e. 0 < l \<and> tableau_after m n k (lp_tableau p) = Some e \<and> tableau_after m n l e = Some e \<and>
        (\<forall>i < l. \<exists>f. tableau_after m n i e = Some f \<and> degenerate m n f))"
proof
  have reached: "reached m (n + m) (lp_tableau p) (lp_tableau p)" unfolding m_def n_def by (rule initial_reached)
  assume "simplex_loop m n (lp_tableau p) = None"
  then have "\<forall>k. tableau_after m n k (lp_tableau p) \<noteq> None" by (simp add: simplex_loop_None)
  moreover have "0 < n + m" using lp_wf_positive [OF assms(1)] by (simp add: n_def)
  ultimately obtain k l e where e: "0 < l" "tableau_after m n k (lp_tableau p) = Some e" "tableau_after m n l e = Some e"
    using endless_rounds_cycle [OF reached] by blast
  then have "reached m (n + m) (lp_tableau p) e" using reached_after [OF reached] by blast
  then show "\<exists>k l e. 0 < l \<and> tableau_after m n k (lp_tableau p) = Some e \<and> tableau_after m n l e = Some e \<and>
        (\<forall>i < l. \<exists>f. tableau_after m n i e = Some f \<and> degenerate m n f)"
    using e cycle_degenerate by blast
next
  assume "\<exists>k l e. 0 < l \<and> tableau_after m n k (lp_tableau p) = Some e \<and> tableau_after m n l e = Some e \<and>
        (\<forall>i < l. \<exists>f. tableau_after m n i e = Some f \<and> degenerate m n f)"
  then show "simplex_loop m n (lp_tableau p) = None" using cycle_never_stops by blast
qed

section \<open>Concrete runs\<close>

definition plain_problem :: "'e list list \<Rightarrow> 'e list \<Rightarrow> 'e list \<Rightarrow> ProblemType \<Rightarrow> ('e :: floor_ceiling) lp_problem_impl" where
  "plain_problem a b c type =
     \<lparr>lp_constraints = \<lparr>m_data = a, m_rows = int (length a), m_cols = int (length c)\<rparr>,
      lp_objective = \<lparr>v_data = c, v_size = int (length c)\<rparr>, lp_bounds = \<lparr>v_data = b, v_size = int (length b)\<rparr>,
      lp_type = type, variable_count = int (length c), constraint_count = int (length a),
      constraint_capacity = int (length a), solution = None, objective_value = 0\<rparr>"

lemmas tableau_eval = next_tableau_def pivot_column_def pivot_row_def pivot_def Let_def DBL_MAX_def upt_conv_Cons

lemmas solver_eval = simplex_solver_def plain_problem_def initial_tableau_def simplex_loop.simps read_variable_def is_basic_def
  create_matrix_ready PTRDIFF_MAX_def wrap_int_id is_int_def malloc_no_failures solver_codes tableau_eval

lemmas shape_eval = plain_problem_def lp_wf_def matrix_ok_def block_def INT_MAX_def less_Suc_eq numeral_2_eq_2 numeral_3_eq_3

definition small_problem :: "rat lp_problem_impl" where
  "small_problem = plain_problem [[1, 1], [1, 3]] [4, 6] [3, 2] PROBLEM_MAX"

lemma small_tableau: "initial_tableau 2 2 small_problem = [[1, 1, 1, 0, 4], [1, 3, 0, 1, 6], [- 3, - 2, 0, 0, 0]]"
  "variable_count small_problem = 2" "constraint_count small_problem = 2" "lp_wf small_problem" "lp_rows small_problem = [([1, 1], 4), ([1, 3], 6)]"
  by (simp_all add: small_problem_def initial_tableau_def lp_rows_def shape_eval upt_conv_Cons nth_Cons')

lemma small_first: "next_tableau 2 2 [[1, 1, 1, 0, 4], [1, 3, 0, 1, 6], [- 3, - 2, 0, 0, 0]] =
    Some ([[1, 1, 1, 0, 4], [0, 2, - 1, 1, 2], [0, 1, 3, 0, 12]] :: rat list list)"
  by (simp add: tableau_eval)

lemma small_last: "pivot_column 2 2 ([[1, 1, 1, 0, 4], [0, 2, - 1, 1, 2], [0, 1, 3, 0, 12]] :: rat list list) = None"
  by (simp add: tableau_eval)

lemma small_cols: "m_cols (lp_constraints small_problem) = 2" by (simp add: small_problem_def plain_problem_def)

lemma small_loop: "simplex_loop 2 2 (initial_tableau 2 2 small_problem) = Some (OPTIMAL, [[1, 1, 1, 0, 4], [0, 2, - 1, 1, 2], [0, 1, 3, 0, 12]])"
  unfolding small_tableau(1) simplex_loop_next [OF small_first] by (subst simplex_loop.simps) (simp add: small_last)

lemma small_column: "pivot_column 2 2 ([[1, 1, 1, 0, 4], [1, 3, 0, 1, 6], [- 3, - 2, 0, 0, 0]] :: rat list list) = Some 0"
  by (simp add: tableau_eval)

lemma small_entries: "no_tiny_entry 2 2 ([[1, 1, 1, 0, 4], [1, 3, 0, 1, 6], [- 3, - 2, 0, 0, 0]] :: rat list list)"
  "no_tiny_entry 2 2 ([[1, 1, 1, 0, 4], [0, 2, - 1, 1, 2], [0, 1, 3, 0, 12]] :: rat list list)"
  unfolding no_tiny_entry_def small_column small_last by (simp_all add: less_2_cases_iff)

lemma small_no_tiny: "no_tiny_pivots small_problem"
proof -
  have stop: "next_tableau 2 2 ([[1, 1, 1, 0, 4], [0, 2, - 1, 1, 2], [0, 1, 3, 0, 12]] :: rat list list) = None"
    by (simp only: next_tableau_def small_last option.case)
  have "no_tiny_entry 2 2 d" if run: "tableau_after 2 2 k (initial_tableau 2 2 small_problem) = Some d" for k d
  proof -
    consider "k = 0" | "k = Suc 0" | l where "k = Suc (Suc l)" by (metis not0_implies_Suc)
    then show ?thesis
      using run unfolding small_tableau(1)
      by cases (simp_all only: tableau_after.simps small_first stop option.case option.inject option.distinct small_entries, auto simp only: small_entries)
  qed
  then show ?thesis by (simp add: no_tiny_pivots_def small_tableau(2,3))
qed

theorem simplex_near_optimal_witness:
  "\<exists>x xs t. simplex_solver (Some small_problem) True (fresh_world :: rat world) =
      Some (OPTIMAL, Some (small_problem\<lparr>solution := Some xs, objective_value := lp_value small_problem x\<rparr>), t, fresh_world) \<and>
      length xs = 2 \<and> lp_feasible small_problem x"
proof -
  have "\<exists>q t. simplex_solver (Some small_problem) True (fresh_world :: rat world) = Some (OPTIMAL, q, t, fresh_world)"
    by (simp add: simplex_solver_def small_tableau(2,3) small_cols small_loop create_matrix_ready PTRDIFF_MAX_def wrap_int_id is_int_def malloc_no_failures solver_codes Let_def)
  then obtain q t where run: "simplex_solver (Some small_problem) True (fresh_world :: rat world) = Some (OPTIMAL, q, t, fresh_world)"
    by blast
  have "\<forall>(row, bound) \<in> set (lp_rows small_problem). 0 \<le> bound" by (simp add: small_tableau)
  from simplex_near_optimal [OF small_tableau(4) run this small_no_tiny] show ?thesis using run
    by (auto simp: small_tableau(2))
qed

text \<open>The hypothesis on the pivot columns is needed: the ratio test leaves out a row whose entry is positive
  but at most \<open>10 ^ -9\<close>, and a bounded problem is reported as unbounded.\<close>

lemma simplex_tiny_entry:
  "\<exists>q t. simplex_solver (Some (plain_problem [[1 / 10 ^ 10]] [1] [1 :: rat] PROBLEM_MAX)) True (fresh_world :: rat world) =
      Some (UNBOUNDED, q, t, fresh_world)"
  by (simp add: solver_eval)

text \<open>A cycle: two constraints and four variables bring the method back to its first tableau after
  six pivots, with numbers that a double holds exactly.\<close>

definition cycling_problem :: "rat lp_problem_impl" where
  "cycling_problem = plain_problem [[1 / 2, - (11 / 2), - (5 / 2), 9], [1 / 2, - (3 / 2), - (1 / 2), 1]] [0, 0] [10, - 57, - 9, - 24] PROBLEM_MAX"

lemma cycling_1: "next_tableau 2 4 [[1 / 2, - (11 / 2), - (5 / 2), 9, 1, 0, 0], [1 / 2, - (3 / 2), - (1 / 2), 1, 0, 1, 0], [- 10, 57, 9, 24, 0, 0, 0]] =
    Some ([[1, - 11, - 5, 18, 2, 0, 0], [0, 4, 2, - 8, - 1, 1, 0], [0, - 53, - 41, 204, 20, 0, 0]] :: rat list list)"
  by (simp add: tableau_eval)

lemma cycling_2: "next_tableau 2 4 [[1, - 11, - 5, 18, 2, 0, 0], [0, 4, 2, - 8, - 1, 1, 0], [0, - 53, - 41, 204, 20, 0, 0]] =
    Some ([[1, 0, 1 / 2, - 4, - (3 / 4), 11 / 4, 0], [0, 1, 1 / 2, - 2, - (1 / 4), 1 / 4, 0], [0, 0, - (29 / 2), 98, 27 / 4, 53 / 4, 0]] :: rat list list)"
  by (simp add: tableau_eval)

lemma cycling_3: "next_tableau 2 4 [[1, 0, 1 / 2, - 4, - (3 / 4), 11 / 4, 0], [0, 1, 1 / 2, - 2, - (1 / 4), 1 / 4, 0], [0, 0, - (29 / 2), 98, 27 / 4, 53 / 4, 0]] =
    Some ([[2, 0, 1, - 8, - (3 / 2), 11 / 2, 0], [- 1, 1, 0, 2, 1 / 2, - (5 / 2), 0], [29, 0, 0, - 18, - 15, 93, 0]] :: rat list list)"
  by (simp add: tableau_eval)

lemma cycling_4: "next_tableau 2 4 [[2, 0, 1, - 8, - (3 / 2), 11 / 2, 0], [- 1, 1, 0, 2, 1 / 2, - (5 / 2), 0], [29, 0, 0, - 18, - 15, 93, 0]] =
    Some ([[- 2, 4, 1, 0, 1 / 2, - (9 / 2), 0], [- (1 / 2), 1 / 2, 0, 1, 1 / 4, - (5 / 4), 0], [20, 9, 0, 0, - (21 / 2), 141 / 2, 0]] :: rat list list)"
  by (simp add: tableau_eval)

lemma cycling_5: "next_tableau 2 4 [[- 2, 4, 1, 0, 1 / 2, - (9 / 2), 0], [- (1 / 2), 1 / 2, 0, 1, 1 / 4, - (5 / 4), 0], [20, 9, 0, 0, - (21 / 2), 141 / 2, 0]] =
    Some ([[- 4, 8, 2, 0, 1, - 9, 0], [1 / 2, - (3 / 2), - (1 / 2), 1, 0, 1, 0], [- 22, 93, 21, 0, 0, - 24, 0]] :: rat list list)"
  by (simp add: tableau_eval)

lemma cycling_6: "next_tableau 2 4 [[- 4, 8, 2, 0, 1, - 9, 0], [1 / 2, - (3 / 2), - (1 / 2), 1, 0, 1, 0], [- 22, 93, 21, 0, 0, - 24, 0]] =
    Some ([[1 / 2, - (11 / 2), - (5 / 2), 9, 1, 0, 0], [1 / 2, - (3 / 2), - (1 / 2), 1, 0, 1, 0], [- 10, 57, 9, 24, 0, 0, 0]] :: rat list list)"
  by (simp add: tableau_eval)

lemmas cycling_rounds = cycling_1 cycling_2 cycling_3 cycling_4 cycling_5 cycling_6

lemma cycling_tableau: "lp_tableau cycling_problem = [[1 / 2, - (11 / 2), - (5 / 2), 9, 1, 0, 0], [1 / 2, - (3 / 2), - (1 / 2), 1, 0, 1, 0], [- 10, 57, 9, 24, 0, 0, 0]]" "variable_count cycling_problem = 4" "constraint_count cycling_problem = 2"
  "lp_wf cycling_problem"
  by (simp_all add: cycling_problem_def initial_tableau_def shape_eval upt_conv_Cons nth_Cons')

theorem simplex_returns_or_cycles_witness: "simplex_loop 2 4 (lp_tableau cycling_problem) = None"
proof -
  let ?d = "lp_tableau cycling_problem"
  have six: "tableau_after 2 4 6 ?d = Some ?d"
  proof -
    have "tableau_after 2 4 (Suc (Suc (Suc (Suc (Suc (Suc 0)))))) ?d = Some ?d"
      unfolding cycling_tableau(1) by (simp only: tableau_after.simps cycling_rounds option.case)
    then show ?thesis by (simp add: eval_nat_numeral)
  qed
  have "reached 2 (4 + 2) ?d ?d" using initial_reached [of 2 4 cycling_problem] by (simp add: cycling_tableau(2,3))
  then have "\<forall>i < 6. \<exists>f. tableau_after 2 4 i ?d = Some f \<and> degenerate 2 4 f" using cycle_degenerate six by blast
  then have "\<exists>k l e. 0 < l \<and> tableau_after 2 4 k ?d = Some e \<and> tableau_after 2 4 l e = Some e \<and>
      (\<forall>i < l. \<exists>f. tableau_after 2 4 i e = Some f \<and> degenerate 2 4 f)"
    using six by (intro exI [of _ 0] exI [of _ 6] exI [of _ ?d]) simp
  then show ?thesis using simplex_returns_or_cycles [OF cycling_tableau(4)] by (simp add: cycling_tableau(2,3))
qed

text \<open>With two equal columns only one of which is basic, both variables are read from the same row:
  the reported point violates the constraint.\<close>

lemma simplex_duplicate_columns:
  "\<exists>q t. simplex_solver (Some (plain_problem [[1, 1]] [1] [1, 1 :: rat] PROBLEM_MAX)) True (fresh_world :: rat world) =
      Some (OPTIMAL, Some q, t, fresh_world) \<and> solution q = Some [1, 1] \<and> objective_value q = 1 \<and>
      solver_is_feasible q (Some \<lparr>v_data = [1, 1], v_size = 2\<rparr>) = 0"
  by (simp add: solver_eval solver_is_feasible_def row_sum_def)

text \<open>A negative bound: the only feasible points have \<open>x\<close> at least 1, the solver reports 0.\<close>

lemma simplex_negative_bound:
  "\<exists>q t. simplex_solver (Some (plain_problem [[- 1]] [- 1] [- 1 :: rat] PROBLEM_MAX)) True (fresh_world :: rat world) =
      Some (OPTIMAL, Some q, t, fresh_world) \<and> solver_is_feasible q (Some \<lparr>v_data = the (solution q), v_size = 1\<rparr>) = 0"
  by (simp add: solver_eval solver_is_feasible_def row_sum_def)

end
