(* ===== verification/Branch_Bound.thy ===== *)
theory Branch_Bound
  imports Simplex
begin

text \<open>
  Branch and bound over the simplex method, \<open>src/solver/branch_and_bound.c\<close>. The incumbent and the
  node counter, which the code passes as pointers, are a record that the recursion returns. A lower
  bound is applied by substitution, so that a node carries offsets; the original constraints are
  checked before a point becomes the incumbent. \<open>None\<close> is a call that never returns, as a call of the
  simplex method may not.
\<close>

section \<open>Subproblems\<close>

definition BB_MAX_NODES :: nat where "BB_MAX_NODES = 10000"

definition BB_INT_TOL :: "'e :: floor_ceiling" where "BB_INT_TOL = 1 / 10 ^ 6"

text \<open>Rows are added one by one, the code does not look at the results.\<close>

fun add_rows :: "('e list \<times> 'e) list \<Rightarrow> ('e :: floor_ceiling) lp_problem_impl \<Rightarrow> 'w world \<Rightarrow> ('e lp_problem_impl \<times> 'w world) option" where
  "add_rows [] dst w = Some (dst, w)"
| "add_rows ((row, bound) # rest) dst w =
     (case solver_add_constraint dst (Some row) bound w of None \<Rightarrow> None | Some (_, dst, w) \<Rightarrow> add_rows rest dst w)"

definition clone_problem :: "('e :: floor_ceiling) lp_problem_impl \<Rightarrow> 'w world \<Rightarrow> ('e lp_problem_impl option \<times> 'w world) option" where
  "clone_problem si w =
     (let sc = lp_constraints si; so = lp_objective si; sb = lp_bounds si in
      case create_problem (variable_count si) (if constraint_count si > 0 then wrap_int (constraint_count si + 2) else 2) w of
        (None, w) \<Rightarrow> Some (None, w)
      | (Some dst, w) \<Rightarrow>
         (case malloc (nat (variable_count si) * 8) w of
            (False, w) \<Rightarrow> Some (None, w)
          | (True, w) \<Rightarrow>
             (case solver_set_objective dst (Some (map (\<lambda>i. v_data so ! i) [0..<nat (v_size so)])) (lp_type si) of (_, dst) \<Rightarrow>
              case malloc (nat (m_cols sc) * 8) w of
                (False, w) \<Rightarrow> Some (None, w)
              | (True, w) \<Rightarrow>
                 (case add_rows (map (\<lambda>r. (map (\<lambda>c. m_data sc ! r ! c) [0..<nat (m_cols sc)], v_data sb ! r)) [0..<nat (constraint_count si)]) dst w of
                    None \<Rightarrow> None
                  | Some (dst, w) \<Rightarrow> Some (Some dst, w)))))"

text \<open>The clone with \<open>x = x' + lb\<close> for one variable, and the constant of the objective.\<close>

definition clone_with_lower_bound ::
  "('e :: floor_ceiling) lp_problem_impl \<Rightarrow> nat \<Rightarrow> 'e \<Rightarrow> 'w world \<Rightarrow> (('e lp_problem_impl \<times> 'e) option \<times> 'w world) option" where
  "clone_with_lower_bound si var_idx lb w =
     (let sc = lp_constraints si; so = lp_objective si; sb = lp_bounds si in
      case create_problem (variable_count si) (if constraint_count si > 0 then wrap_int (constraint_count si + 2) else 2) w of
        (None, w) \<Rightarrow> Some (None, w)
      | (Some dst, w) \<Rightarrow>
         (case malloc (nat (variable_count si) * 8) w of
            (False, w) \<Rightarrow> Some (None, w)
          | (True, w) \<Rightarrow>
             (let obj_buf = map (\<lambda>i. v_data so ! i) [0..<nat (v_size so)] in
              case solver_set_objective dst (Some obj_buf) (lp_type si) of (_, dst) \<Rightarrow>
              case malloc (nat (m_cols sc) * 8) w of
                (False, w) \<Rightarrow> Some (None, w)
              | (True, w) \<Rightarrow>
                 (case add_rows (map (\<lambda>r. (map (\<lambda>c. m_data sc ! r ! c) [0..<nat (m_cols sc)], v_data sb ! r - m_data sc ! r ! var_idx * lb))
                         [0..<nat (constraint_count si)]) dst w of
                    None \<Rightarrow> None
                  | Some (dst, w) \<Rightarrow> Some (Some (dst, obj_buf ! var_idx * lb), w)))))"

section \<open>Looking at a candidate\<close>

fun most_fractional :: "('e :: floor_ceiling) list \<Rightarrow> nat list \<Rightarrow> nat option \<Rightarrow> 'e \<Rightarrow> nat option" where
  "most_fractional x [] best_idx best_frac = best_idx"
| "most_fractional x (i # is) best_idx best_frac =
     (let frac = x ! i - of_int \<lfloor>x ! i\<rfloor>; dist = (if frac > 1 / 2 then 1 - frac else frac) in
      if dist > BB_INT_TOL \<and> dist > best_frac then most_fractional x is (Some i) dist
      else most_fractional x is best_idx best_frac)"

definition find_branching_variable :: "('e :: floor_ceiling) list \<Rightarrow> nat \<Rightarrow> nat option" where
  "find_branching_variable x num_vars = most_fractional x [0..<num_vars] None 0"

definition solution_is_integer :: "('e :: floor_ceiling) list \<Rightarrow> nat \<Rightarrow> bool" where
  "solution_is_integer x num_vars \<longleftrightarrow> (\<forall>i \<in> set [0..<num_vars]. is_integer (x ! i))"

definition check_original_feasibility :: "('e :: floor_ceiling) list \<Rightarrow> nat \<Rightarrow> 'e list list \<Rightarrow> 'e list \<Rightarrow> nat \<Rightarrow> bool" where
  "check_original_feasibility x num_vars constraint_data bounds_data num_constraints \<longleftrightarrow>
     (\<forall>i \<in> set [0..<num_constraints]. \<not> row_sum num_vars (constraint_data ! i) x > bounds_data ! i + BB_INT_TOL)"

section \<open>The search\<close>

record ('e, 'w) search =
  best_obj :: 'e
  best_sol :: "'e list"
  nodes :: nat
  search_world :: "'w world"

text \<open>What does not change during a search: the number of variables, the direction, the original
  constraints with their bounds and their number.\<close>

record 'e search_data =
  num_vars :: nat
  is_max :: bool
  orig_constraints :: "'e list list"
  orig_bounds :: "'e list"
  orig_num_constr :: nat

text \<open>The bound pruning, the check of the candidate and the choice of the branching variable; the
  result is the variable with its value, or \<open>None\<close> when the node is finished.\<close>

definition prune :: "('e :: floor_ceiling) search_data \<Rightarrow> ('e, 'w) search \<Rightarrow> 'e \<Rightarrow> bool" where
  "prune sd s obj_val \<longleftrightarrow> is_max sd \<and> obj_val \<le> best_obj s \<and> best_obj s > - DBL_MAX \<or>
     \<not> is_max sd \<and> obj_val \<ge> best_obj s \<and> best_obj s < DBL_MAX"

definition bb_candidate ::
  "('e :: floor_ceiling) search_data \<Rightarrow> 'e list \<Rightarrow> 'e \<Rightarrow> 'e list \<Rightarrow> ('e, 'w) search \<Rightarrow> (nat \<times> 'e) option \<times> ('e, 'w) search" where
  "bb_candidate sd offsets obj_val x s =
     (if prune sd s obj_val then (None, s)
      else
       (case malloc (num_vars sd * 8) (search_world s) of
          (False, w) \<Rightarrow> (None, s\<lparr>search_world := w\<rparr>)
        | (True, w) \<Rightarrow>
           (let s = s\<lparr>search_world := w\<rparr>; true_sol = map (\<lambda>i. x ! i + offsets ! i) [0..<num_vars sd] in
            if solution_is_integer true_sol (num_vars sd) \<and>
               check_original_feasibility true_sol (num_vars sd) (orig_constraints sd) (orig_bounds sd) (orig_num_constr sd)
            then (None, if (if is_max sd then obj_val > best_obj s else obj_val < best_obj s)
                        then s\<lparr>best_obj := obj_val, best_sol := true_sol\<rparr> else s)
            else
             (case find_branching_variable true_sol (num_vars sd) of
                None \<Rightarrow> (None, s)
              | Some v \<Rightarrow> (Some (v, true_sol ! v), s)))))"

text \<open>A node up to its branching: the relaxation is solved by the simplex method. The problem is
  returned for its solution buffer, which is allocated once.\<close>

definition bb_node ::
  "('e :: floor_ceiling) search_data \<Rightarrow> 'e lp_problem_impl \<Rightarrow> 'e list \<Rightarrow> 'e \<Rightarrow> ('e, 'w) search \<Rightarrow> ((nat \<times> 'e) option \<times> ('e, 'w) search) option" where
  "bb_node sd p offsets obj_offset s =
     (case create_solver SOLVER_SIMPLEX (search_world s) of
        (None, w) \<Rightarrow> Some (None, s\<lparr>search_world := w\<rparr>)
      | (Some _, w) \<Rightarrow>
         (case simplex_solver (Some p) True w of
            None \<Rightarrow> None
          | Some (status, q, _, w) \<Rightarrow>
             (let s = s\<lparr>search_world := w\<rparr> in
              if status \<noteq> OPTIMAL then Some (None, s)
              else
               (case q of
                  None \<Rightarrow> Some (None, s)
                | Some q \<Rightarrow>
                   (case solution q of
                      None \<Rightarrow> Some (None, s)
                    | Some x \<Rightarrow> Some (bb_candidate sd offsets (objective_value q + obj_offset) x s))))))"

text \<open>The children. The floor child gets a row \<open>x <= floor\<close>, the ceil child a substitution.\<close>

definition bb_floor_child ::
  "('e :: floor_ceiling) lp_problem_impl \<Rightarrow> 'e list \<Rightarrow> nat \<Rightarrow> 'e \<Rightarrow> 'w world \<Rightarrow> ('e lp_problem_impl option \<times> 'w world) option" where
  "bb_floor_child p offsets branch_var branch_val w =
     (case clone_problem p w of
        None \<Rightarrow> None
      | Some (None, w) \<Rightarrow> Some (None, w)
      | Some (Some child, w) \<Rightarrow>
         (case malloc (nat (m_cols (lp_constraints child)) * 8) w of
            (False, w) \<Rightarrow> Some (None, w)
          | (True, w) \<Rightarrow>
             (let row = (replicate (nat (m_cols (lp_constraints child))) 0)[branch_var := 1];
                  ub = of_int \<lfloor>branch_val\<rfloor> - offsets ! branch_var in
              if ub \<ge> 0 then
                (case solver_add_constraint child (Some row) ub w of None \<Rightarrow> None | Some (_, child, w) \<Rightarrow> Some (Some child, w))
              else Some (None, w))))"

definition bb_ceil_child ::
  "('e :: floor_ceiling) search_data \<Rightarrow> 'e lp_problem_impl \<Rightarrow> 'e list \<Rightarrow> nat \<Rightarrow> 'e \<Rightarrow> 'w world \<Rightarrow>
     (('e lp_problem_impl \<times> 'e list \<times> 'e) option \<times> 'w world) option" where
  "bb_ceil_child sd p offsets branch_var branch_val w =
     (let new_lb = of_int \<lceil>branch_val\<rceil>; sub_lb = new_lb - offsets ! branch_var in
      if sub_lb \<ge> 0 then
        (case clone_with_lower_bound p branch_var sub_lb w of
           None \<Rightarrow> None
         | Some (None, w) \<Rightarrow> Some (None, w)
         | Some (Some (child, child_obj_offset), w) \<Rightarrow>
            (case malloc (num_vars sd * 8) w of
               (False, w) \<Rightarrow> Some (None, w)
             | (True, w) \<Rightarrow> Some (Some (child, offsets[branch_var := new_lb], child_obj_offset), w)))
      else Some (None, w))"

partial_function (option) bb_solve ::
  "('e :: floor_ceiling) search_data \<Rightarrow> 'e lp_problem_impl \<Rightarrow> 'e list \<Rightarrow> 'e \<Rightarrow> ('e, 'w) search \<Rightarrow> ('e, 'w) search option" where
  "bb_solve sd p offsets obj_offset s =
     (if nodes s \<ge> BB_MAX_NODES then Some s
      else
       Option.bind (bb_node sd p offsets obj_offset (s\<lparr>nodes := nodes s + 1\<rparr>)) (\<lambda>(branch, s).
         case branch of
           None \<Rightarrow> Some s
         | Some (v, value) \<Rightarrow>
             Option.bind (bb_floor_child p offsets v value (search_world s)) (\<lambda>(child, w).
             Option.bind (case child of None \<Rightarrow> Some (s\<lparr>search_world := w\<rparr>)
                          | Some child \<Rightarrow> bb_solve sd child offsets obj_offset (s\<lparr>search_world := w\<rparr>)) (\<lambda>s.
             Option.bind (bb_ceil_child sd p offsets v value (search_world s)) (\<lambda>(child, w).
               case child of
                 None \<Rightarrow> Some (s\<lparr>search_world := w\<rparr>)
               | Some (child, new_offsets, child_obj_offset) \<Rightarrow>
                   bb_solve sd child new_offsets (obj_offset + child_obj_offset) (s\<lparr>search_world := w\<rparr>))))))"

text \<open>What the solver writes into the problem and into \<open>*out_tableau\<close> at the end of a search.\<close>

definition publish ::
  "('e :: floor_ceiling) lp_problem_impl \<Rightarrow> ('e, 'w) search \<Rightarrow> nat \<Rightarrow> bool \<Rightarrow> int \<times> 'e lp_problem_impl option \<times> 'e matrix_impl option \<times> 'w world" where
  "publish p s n maximize =
     (let w = search_world s in
      if maximize \<and> best_obj s \<le> - DBL_MAX + 1 \<or> \<not> maximize \<and> best_obj s \<ge> DBL_MAX - 1 then (INFEASIBLE, Some p, None, w)
      else
       (case (if solution p = None then malloc (n * 8) w else (True, w)) of
          (False, w) \<Rightarrow> (INFEASIBLE, Some p, None, w)
        | (True, w) \<Rightarrow>
           (let q = p\<lparr>solution := Some (best_sol s), objective_value := best_obj s\<rparr> in
            case create_matrix 1 (wrap_int (int n + 1)) w of
              (None, w) \<Rightarrow> (OPTIMAL, Some q, None, w)
            | (Some tab, w) \<Rightarrow> (OPTIMAL, Some q, Some (tab\<lparr>m_data := [best_sol s @ [best_obj s]]\<rparr>), w))))"

text \<open>What follows an optimal relaxation: it is handed out when it is integral, searched otherwise.\<close>

definition bb_from_root ::
  "('e :: floor_ceiling) lp_problem_impl \<Rightarrow> 'e lp_problem_impl \<Rightarrow> 'e matrix_impl option \<Rightarrow> 'w world \<Rightarrow>
     (int \<times> 'e lp_problem_impl option \<times> 'e matrix_impl option \<times> 'w world) option" where
  "bb_from_root p root_lp root_tableau w =
     (let n = nat (variable_count p); maximize = (lp_type p = PROBLEM_MAX); x = the (solution root_lp) in
      if solution_is_integer x n then
        (case (if solution p = None then malloc (n * 8) w else (True, w)) of (ok, w) \<Rightarrow>
          Some (OPTIMAL, Some (p\<lparr>solution := (if ok then Some x else None), objective_value := objective_value root_lp\<rparr>), root_tableau, w))
      else
       (case malloc (n * 8) w of (ok1, w) \<Rightarrow>
        case malloc (n * 8) w of (ok2, w) \<Rightarrow>
        (if \<not> ok1 \<or> \<not> ok2 then Some (INFEASIBLE, Some p, None, w)
         else
          (case bb_solve \<lparr>num_vars = n, is_max = maximize, orig_constraints = m_data (lp_constraints p),
                  orig_bounds = v_data (lp_bounds p), orig_num_constr = nat (constraint_count p)\<rparr>
                 root_lp (replicate n 0) 0
                 \<lparr>best_obj = (if maximize then - DBL_MAX else DBL_MAX), best_sol = replicate n 0, nodes = 0, search_world = w\<rparr> of
             None \<Rightarrow> None
           | Some s \<Rightarrow> Some (publish p s n maximize)))))"

definition branch_and_bound_solver ::
  "('e :: floor_ceiling) lp_problem_impl option \<Rightarrow> bool \<Rightarrow> 'w world \<Rightarrow> (int \<times> 'e lp_problem_impl option \<times> 'e matrix_impl option \<times> 'w world) option" where
  "branch_and_bound_solver prob out_tableau w =
     (case prob of
        None \<Rightarrow> Some (INFEASIBLE, None, None, w)
      | Some p \<Rightarrow>
         (if \<not> out_tableau then Some (INFEASIBLE, Some p, None, w)
          else
           (case create_solver SOLVER_SIMPLEX w of
              (None, w) \<Rightarrow> Some (INFEASIBLE, Some p, None, w)
            | (Some _, w) \<Rightarrow>
               (case clone_problem p w of
                  None \<Rightarrow> None
                | Some (None, w) \<Rightarrow> Some (INFEASIBLE, Some p, None, w)
                | Some (Some root_lp, w) \<Rightarrow>
                   (case simplex_solver (Some root_lp) True w of
                      None \<Rightarrow> None
                    | Some (status, ri, root_tableau, w) \<Rightarrow>
                       (if status \<noteq> OPTIMAL then Some (status, Some p, None, w)
                        else bb_from_root p (the ri) root_tableau w))))))"

section \<open>The incumbent\<close>

text \<open>Nothing found yet, or a point that passed both tests.\<close>

definition incumbent_ok :: "('e :: floor_ceiling) search_data \<Rightarrow> ('e, 'w) search \<Rightarrow> bool" where
  "incumbent_ok sd s \<longleftrightarrow> best_obj s = (if is_max sd then - DBL_MAX else DBL_MAX) \<or>
     length (best_sol s) = num_vars sd \<and> solution_is_integer (best_sol s) (num_vars sd) \<and>
     check_original_feasibility (best_sol s) (num_vars sd) (orig_constraints sd) (orig_bounds sd) (orig_num_constr sd)"

lemma incumbent_ok_world [simp]:
  "incumbent_ok sd (s\<lparr>search_world := w\<rparr>) = incumbent_ok sd s" "incumbent_ok sd (s\<lparr>nodes := k\<rparr>) = incumbent_ok sd s"
  by (simp_all add: incumbent_ok_def)

lemma bb_candidate_ok: "bb_candidate sd offsets z x s = (b, s') \<Longrightarrow> incumbent_ok sd s \<Longrightarrow> incumbent_ok sd s'"
  unfolding bb_candidate_def Let_def
  by (auto simp: incumbent_ok_def split: if_splits prod.splits bool.splits option.splits)

lemma bb_node_ok:
  assumes "bb_node sd p offsets off s = Some (b, s')" "incumbent_ok sd s"
  shows "incumbent_ok sd s'"
proof -
  have "bb_candidate sd offsets z x (s\<lparr>search_world := w\<rparr>) = (b, s') \<Longrightarrow> incumbent_ok sd s'" for z x w
    using bb_candidate_ok assms(2) incumbent_ok_world(1) by blast
  then show ?thesis using assms unfolding bb_node_def Let_def
    by (auto split: option.splits prod.splits if_splits)
qed

lemma bb_solve_ok:
  assumes "bb_solve sd p offsets off s = Some s'"
  shows "incumbent_ok sd s \<longrightarrow> incumbent_ok sd s'"
  using _ assms
proof (rule bb_solve.raw_induct)
  fix rec :: "'a search_data \<Rightarrow> 'a lp_problem_impl \<Rightarrow> 'a list \<Rightarrow> 'a \<Rightarrow> ('a, 'b) search \<Rightarrow> ('a, 'b) search option"
    and sd p offsets off and s s' :: "('a, 'b) search"
  assume IH: "\<And>sd p offsets off s s'. rec sd p offsets off s = Some s' \<Longrightarrow> incumbent_ok sd s \<longrightarrow> incumbent_ok sd s'"
  assume body: "(if BB_MAX_NODES \<le> nodes s then Some s
      else Option.bind (bb_node sd p offsets off (s\<lparr>nodes := nodes s + 1\<rparr>)) (\<lambda>(branch, s).
         case branch of
           None \<Rightarrow> Some s
         | Some (v, value) \<Rightarrow>
             Option.bind (bb_floor_child p offsets v value (search_world s)) (\<lambda>(child, w).
             Option.bind (case child of None \<Rightarrow> Some (s\<lparr>search_world := w\<rparr>)
                          | Some child \<Rightarrow> rec sd child offsets off (s\<lparr>search_world := w\<rparr>)) (\<lambda>s.
             Option.bind (bb_ceil_child sd p offsets v value (search_world s)) (\<lambda>(child, w).
               case child of
                 None \<Rightarrow> Some (s\<lparr>search_world := w\<rparr>)
               | Some (child, new_offsets, child_obj_offset) \<Rightarrow>
                   rec sd child new_offsets (off + child_obj_offset) (s\<lparr>search_world := w\<rparr>)))))) = Some s'"
  show "incumbent_ok sd s \<longrightarrow> incumbent_ok sd s'"
  proof
    assume ok: "incumbent_ok sd s"
    have node: "incumbent_ok sd t" if "bb_node sd p offsets off (s\<lparr>nodes := nodes s + 1\<rparr>) = Some (b, t)" for b t
      using bb_node_ok [OF that] ok by (simp del: Suc_eq_plus1_left add_Suc_right Nat.add_0_right)
    have child: "incumbent_ok sd u" if "rec sd c os z (t\<lparr>search_world := w\<rparr>) = Some u" "incumbent_ok sd t" for c os z t w u
      using IH [OF that(1)] that(2) by simp
    show "incumbent_ok sd s'" using body ok node child
      by (auto split: if_splits option.splits prod.splits bind_splits) 
  qed
qed

section \<open>What the children mean\<close>

lemma lp_feasible_rows:
  "lp_feasible p x \<longleftrightarrow> (\<forall>j < nat (variable_count p). 0 \<le> x j) \<and>
     (\<forall>(row, b) \<in> set (lp_rows p). (\<Sum>j<nat (variable_count p). row ! j * x j) \<le> b)"
proof -
  have "(\<forall>i < nat (constraint_count p). 0 \<le> lp_slack p x i) \<longleftrightarrow>
      (\<forall>r \<in> set (lp_rows p). (\<Sum>j<nat (variable_count p). fst r ! j * x j) \<le> snd r)"
    unfolding all_set_conv_all_nth by (simp add: lp_slack_def)
  then show ?thesis by (simp add: lp_feasible_def case_prod_beta)
qed

lemma add_rows_appends:
  assumes "lp_wf d" "constraint_count d + int (length rs) \<le> constraint_capacity d" "constraint_capacity d \<le> 2 ^ 29"
    "\<forall>r \<in> set rs. length (fst r) = nat (variable_count d)"
  shows "\<exists>d'. add_rows rs d w = Some (d', w) \<and> lp_wf d' \<and> lp_rows d' = lp_rows d @ rs \<and> lp_objective d' = lp_objective d \<and>
     lp_type d' = lp_type d \<and> variable_count d' = variable_count d \<and> constraint_capacity d' = constraint_capacity d \<and>
     constraint_count d' = constraint_count d + int (length rs)"
  using assms
proof (induction rs arbitrary: d)
  case (Cons r rs)
  obtain row b where r: "r = (row, b)" by fastforce
  have "constraint_count d < 2 ^ 29" "constraint_capacity d \<le> 2 ^ 30" "length row = nat (variable_count d)" "constraint_count d < constraint_capacity d"
    using Cons.prems(2-4) by (auto simp: r)
  with add_constraint_appends [OF Cons.prems(1) this(1-3), of b w] obtain e where
    e: "solver_add_constraint d (Some row) b w = Some (0, e, w)" "lp_wf e" "lp_objective e = lp_objective d" "lp_type e = lp_type d"
      "variable_count e = variable_count d" "lp_rows e = lp_rows d @ [(row, b)]" "constraint_count e = constraint_count d + 1"
      "constraint_capacity e = constraint_capacity d"
    by auto
  have "constraint_count e + int (length rs) \<le> constraint_capacity e" "constraint_capacity e \<le> 2 ^ 29"
      "\<forall>r \<in> set rs. length (fst r) = nat (variable_count e)"
    using Cons.prems(2-4) e by simp_all
  from Cons.IH [OF e(2) this] show ?case using e by (auto simp: r)
qed (auto simp: lp_wf_def)

definition clone_capacity :: "'e lp_problem_impl \<Rightarrow> int" where
  "clone_capacity p = (if constraint_count p > 0 then wrap_int (constraint_count p + 2) else 2)"

lemma rebuilt:
  assumes "create_problem (variable_count p) (clone_capacity p) w = (Some d, w')" "lp_wf p" "constraint_count p \<le> 2 ^ 28"
    "length rs = nat (constraint_count p)" "\<forall>r \<in> set rs. length (fst r) = nat (variable_count p)"
  shows "\<exists>d'. add_rows rs (snd (solver_set_objective d (Some (map (\<lambda>i. v_data (lp_objective p) ! i) [0..<nat (v_size (lp_objective p))])) (lp_type p))) v = Some (d', v) \<and>
     lp_wf d' \<and> lp_abs d' = (rs, v_data (lp_objective p), lp_type p) \<and> variable_count d' = variable_count p \<and>
     constraint_count d' = constraint_count p \<and> constraint_count p < constraint_capacity d' \<and> constraint_capacity d' \<le> 2 ^ 29"
proof -
  have wf: "0 \<le> constraint_count p" "v_size (lp_objective p) = variable_count p"
      "length (v_data (lp_objective p)) = nat (variable_count p)" "variable_count p \<le> int INT_MAX"
    using assms(2) by (auto simp: lp_wf_def matrix_ok_def)
  have cap: "clone_capacity p = constraint_count p + 2" "constraint_count p + 2 \<le> int INT_MAX"
    using wf(1) assms(3) by (auto simp: clone_capacity_def wrap_int_id is_int_def INT_MAX_def)
  have d: "lp_wf d" "lp_rows d = []" "variable_count d = variable_count p" "constraint_count d = 0"
      "constraint_capacity d = constraint_count p + 2" "v_size (lp_objective d) = variable_count p"
    using create_problem_wf [OF assms(1) wf(4)] cap wf(1) by (auto simp: lp_wf_def max_def)
  let ?obj = "map (\<lambda>i. v_data (lp_objective p) ! i) [0..<nat (v_size (lp_objective p))]"
  define e where "e = snd (solver_set_objective d (Some ?obj) (lp_type p))"
  have obj: "map (\<lambda>i. ?obj ! i) [0..<nat (v_size (lp_objective d))] = v_data (lp_objective p)"
    using wf(2,3) d(6) by (auto intro!: nth_equalityI)
  have e: "lp_wf e" "lp_rows e = []" "variable_count e = variable_count p" "constraint_count e = 0"
      "constraint_capacity e = constraint_count p + 2" "v_data (lp_objective e) = v_data (lp_objective p)" "lp_type e = lp_type p"
    using d obj wf(2,3) by (simp_all add: e_def solver_set_objective_def lp_wf_def lp_rows_def)
  then obtain d' where "add_rows rs e v = Some (d', v)" "lp_wf d'" "lp_rows d' = rs" "lp_objective d' = lp_objective e"
      "lp_type d' = lp_type e" "variable_count d' = variable_count e" "constraint_capacity d' = constraint_capacity e"
      "constraint_count d' = constraint_count p"
    using add_rows_appends [of e rs v] assms(3-5) wf(1) by auto
  then show ?thesis using e assms(3) by (simp add: lp_abs_def e_def)
qed

lemma create_problem_ready:
  assumes "alloc_fails w = []" "0 < n" "n \<le> 2 ^ 28" "0 < k" "k \<le> 2 ^ 29"
  shows "\<exists>d. create_problem n k w = (Some d, w)"
proof -
  have "nat k * nat n \<le> 2 ^ 29 * 2 ^ 28" using assms by (intro mult_le_mono) simp_all
  then have "nat k * nat n * 8 \<le> PTRDIFF_MAX" by (simp add: PTRDIFF_MAX_def)
  moreover have "nat n * 8 \<le> PTRDIFF_MAX" "nat k * 8 \<le> PTRDIFF_MAX" using assms by (simp_all add: PTRDIFF_MAX_def)
  moreover have "malloc_struct w = (True, w)" using assms(1) by (simp add: malloc_struct_def malloc_no_failures PTRDIFF_MAX_def)
  ultimately show ?thesis using assms by (simp add: create_problem_def create_matrix_ready create_vector_def malloc_no_failures)
qed

lemma own_rows: "lp_wf p \<Longrightarrow>
    map (\<lambda>r. (map (\<lambda>c. m_data (lp_constraints p) ! r ! c) [0..<nat (m_cols (lp_constraints p))], f r)) [0..<nat (constraint_count p)] =
    map (\<lambda>r. (fst (lp_rows p ! r), f r)) [0..<nat (constraint_count p)]"
proof (rule map_cong [OF refl])
  fix r assume wf: "lp_wf p" and r: "r \<in> set [0..<nat (constraint_count p)]"
  have "length (m_data (lp_constraints p) ! r) = nat (m_cols (lp_constraints p))"
    using wf r by (auto simp: lp_wf_def matrix_ok_def block_def)
  then show "(map (\<lambda>c. m_data (lp_constraints p) ! r ! c) [0..<nat (m_cols (lp_constraints p))], f r) = (fst (lp_rows p ! r), f r)"
    using r map_nth [of "m_data (lp_constraints p) ! r"] by (simp add: lp_rows_def)
qed

lemma row_lengths: "lp_wf p \<Longrightarrow> r < nat (constraint_count p) \<Longrightarrow> length (fst (lp_rows p ! r)) = nat (variable_count p)"
  by (auto simp: lp_wf_def matrix_ok_def block_def lp_rows_def)

lemma clone_problem_meaning:
  fixes p :: "('e :: floor_ceiling) lp_problem_impl"
  assumes "clone_problem p w = Some (r, w')" "lp_wf p" "constraint_count p \<le> 2 ^ 28"
  shows "r = Some c \<Longrightarrow> lp_wf c \<and> lp_abs c = lp_abs p \<and> variable_count c = variable_count p \<and>
      constraint_count c = constraint_count p \<and> constraint_count c < constraint_capacity c \<and> constraint_capacity c \<le> 2 ^ 29"
    and "alloc_fails w = [] \<Longrightarrow> variable_count p \<le> 2 ^ 28 \<Longrightarrow> r \<noteq> None \<and> w' = w"
proof -
  let ?rs = "map (\<lambda>r. (map (\<lambda>c. m_data (lp_constraints p) ! r ! c) [0..<nat (m_cols (lp_constraints p))], v_data (lp_bounds p) ! r))
      [0..<nat (constraint_count p)]"
  have rs: "?rs = lp_rows p" "\<forall>r \<in> set (lp_rows p). length (fst r) = nat (variable_count p)"
    using own_rows [OF assms(2), of "\<lambda>r. v_data (lp_bounds p) ! r"] row_lengths [OF assms(2)]
    by (auto simp: lp_rows_def cong: map_cong)
  show "lp_wf c \<and> lp_abs c = lp_abs p \<and> variable_count c = variable_count p \<and>
      constraint_count c = constraint_count p \<and> constraint_count c < constraint_capacity c \<and> constraint_capacity c \<le> 2 ^ 29" if is_c: "r = Some c"
  proof -
    obtain d w1 w2 where d: "create_problem (variable_count p) (clone_capacity p) w = (Some d, w1)" and
      rows: "add_rows ?rs (snd (solver_set_objective d (Some (map (\<lambda>i. v_data (lp_objective p) ! i) [0..<nat (v_size (lp_objective p))])) (lp_type p))) w2 = Some (c, w')"
      using assms(1) is_c unfolding clone_problem_def Let_def clone_capacity_def
      by (auto split: prod.splits option.splits bool.splits)
    then show ?thesis using rebuilt [OF d assms(2,3) length_lp_rows rs(2), of w2] by (auto simp: rs lp_abs_def)
  qed
  assume ready: "alloc_fails w = []" and n: "variable_count p \<le> 2 ^ 28"
  have "0 \<le> constraint_count p" using assms(2) by (simp add: lp_wf_def)
  then have k: "0 < clone_capacity p" "clone_capacity p \<le> 2 ^ 29" using assms(3) by (auto simp: clone_capacity_def wrap_int_id is_int_def)
  obtain d :: "'e lp_problem_impl" where d: "create_problem (variable_count p) (clone_capacity p) w = (Some d, w)"
    using create_problem_ready [OF ready _ n k] lp_wf_positive(1) [OF assms(2)] by blast
  have "malloc (nat (variable_count p) * 8) w = (True, w)" using ready n by (simp add: malloc_no_failures PTRDIFF_MAX_def)
  then show "r \<noteq> None \<and> w' = w" using assms(1) d rebuilt [OF d assms(2,3) length_lp_rows rs(2), of w] lp_wf_positive(2) [OF assms(2)]
    unfolding clone_problem_def Let_def clone_capacity_def [symmetric] rs(1)
    by (auto split: prod.splits)
qed

lemma clone_with_lower_bound_meaning:
  fixes p :: "('e :: floor_ceiling) lp_problem_impl"
  assumes "clone_with_lower_bound p v lb w = Some (r, w')" "lp_wf p" "constraint_count p \<le> 2 ^ 28" "v < nat (variable_count p)"
  shows "r = Some (c, off) \<Longrightarrow> lp_wf c \<and> variable_count c = variable_count p \<and> constraint_count c = constraint_count p \<and>
      lp_type c = lp_type p \<and> (\<forall>x i. i < nat (constraint_count p) \<longrightarrow> lp_slack c (x(v := x v - lb)) i = lp_slack p x i) \<and>
      (\<forall>x. lp_value c (x(v := x v - lb)) + off = lp_value p x)"
    and "alloc_fails w = [] \<Longrightarrow> variable_count p \<le> 2 ^ 28 \<Longrightarrow> r \<noteq> None \<and> w' = w"
proof -
  let ?b = "\<lambda>r. v_data (lp_bounds p) ! r - m_data (lp_constraints p) ! r ! v * lb"
  let ?rs = "map (\<lambda>r. (map (\<lambda>c. m_data (lp_constraints p) ! r ! c) [0..<nat (m_cols (lp_constraints p))], ?b r)) [0..<nat (constraint_count p)]"
  let ?rows = "map (\<lambda>r. (fst (lp_rows p ! r), ?b r)) [0..<nat (constraint_count p)]"
  have rs: "?rs = ?rows" "length ?rows = nat (constraint_count p)" "\<forall>r \<in> set ?rows. length (fst r) = nat (variable_count p)"
    using own_rows [OF assms(2), of ?b] row_lengths [OF assms(2)] by auto
  have shift: "(\<Sum>j<nat (variable_count p). a j * (x(v := x v - lb)) j) = (\<Sum>j<nat (variable_count p). a j * x j) - a v * lb" for a x
  proof -
    have "(\<Sum>j<nat (variable_count p). a j * (x(v := x v - lb)) j) =
        (\<Sum>j<nat (variable_count p). a j * x j - (if j = v then a j * lb else 0))"
      by (intro sum.cong) (simp_all add: algebra_simps)
    then show ?thesis using assms(4) by (simp add: sum_subtractf)
  qed
  show "lp_wf c \<and> variable_count c = variable_count p \<and> constraint_count c = constraint_count p \<and>
      lp_type c = lp_type p \<and> (\<forall>x i. i < nat (constraint_count p) \<longrightarrow> lp_slack c (x(v := x v - lb)) i = lp_slack p x i) \<and>
      (\<forall>x. lp_value c (x(v := x v - lb)) + off = lp_value p x)" if is_c: "r = Some (c, off)"
  proof -
    obtain d w1 w2 where d: "create_problem (variable_count p) (clone_capacity p) w = (Some d, w1)" and
      rows: "add_rows ?rs (snd (solver_set_objective d (Some (map (\<lambda>i. v_data (lp_objective p) ! i) [0..<nat (v_size (lp_objective p))])) (lp_type p))) w2 = Some (c, w')" and
      off: "off = map (\<lambda>i. v_data (lp_objective p) ! i) [0..<nat (v_size (lp_objective p))] ! v * lb"
      using assms(1) is_c unfolding clone_with_lower_bound_def Let_def clone_capacity_def
      by (auto split: prod.splits option.splits bool.splits)
    then have c: "lp_wf c" "lp_rows c = ?rows" "v_data (lp_objective c) = v_data (lp_objective p)" "lp_type c = lp_type p"
        "variable_count c = variable_count p" "constraint_count c = constraint_count p"
      using rebuilt [OF d assms(2,3) rs(2,3), of w2] by (auto simp: rs(1) lp_abs_def)
    have "off = v_data (lp_objective p) ! v * lb" using off assms(2,4) by (simp add: lp_wf_def)
    then have "lp_value c (x(v := x v - lb)) + off = lp_value p x" for x unfolding lp_value_def c(3,5) shift by simp
    moreover have "lp_slack c (x(v := x v - lb)) i = lp_slack p x i" if "i < nat (constraint_count p)" for x i
      unfolding lp_slack_def c(2,5) using that by (simp add: shift del: fun_upd_apply) (simp add: lp_rows_def)
    ultimately show ?thesis using c by blast
  qed
  assume ready: "alloc_fails w = []" and n: "variable_count p \<le> 2 ^ 28"
  have "0 \<le> constraint_count p" using assms(2) by (simp add: lp_wf_def)
  then have k: "0 < clone_capacity p" "clone_capacity p \<le> 2 ^ 29" using assms(3) by (auto simp: clone_capacity_def wrap_int_id is_int_def)
  obtain d :: "'e lp_problem_impl" where d: "create_problem (variable_count p) (clone_capacity p) w = (Some d, w)"
    using create_problem_ready [OF ready _ n k] lp_wf_positive(1) [OF assms(2)] by blast
  have "malloc (nat (variable_count p) * 8) w = (True, w)" using ready n by (simp add: malloc_no_failures PTRDIFF_MAX_def)
  then show "r \<noteq> None \<and> w' = w" using assms(1) d rebuilt [OF d assms(2,3) rs(2,3), of w] lp_wf_positive(2) [OF assms(2)]
    unfolding clone_with_lower_bound_def Let_def clone_capacity_def [symmetric] rs(1)
    by (auto split: prod.splits)
qed

text \<open>Branching loses no integer point. A point of a node whose branching variable is an integer
  in the original coordinates is a point of the floor child or, shifted by the change of the offset,
  of the ceil child, with the same value, if no allocation is refused.\<close>

theorem branching_is_exhaustive:
  fixes p :: "('e :: floor_ceiling) lp_problem_impl"
  assumes "lp_wf p" "constraint_count p \<le> 2 ^ 28" "variable_count p \<le> 2 ^ 28" "num_vars sd = nat (variable_count p)"
    "v < nat (variable_count p)" "length offsets = nat (variable_count p)" "offsets ! v \<le> of_int \<lceil>value\<rceil>"
    "bb_floor_child p offsets v value w = Some (floor_child, w1)" "alloc_fails w = []"
    "bb_ceil_child sd p offsets v value w2 = Some (ceil_child, w3)" "alloc_fails w2 = []"
    "lp_feasible p x" "x v + offsets ! v = of_int k"
  shows "(\<exists>c. floor_child = Some c \<and> lp_wf c \<and> lp_feasible c x \<and> lp_value c x = lp_value p x) \<or>
    (\<exists>c offsets' off x'. ceil_child = Some (c, offsets', off) \<and> lp_wf c \<and> lp_feasible c x' \<and> lp_value c x' + off = lp_value p x \<and>
       (\<forall>j < num_vars sd. x' j + offsets' ! j = x j + offsets ! j))"
proof (cases "k \<le> \<lfloor>value\<rfloor>")
  case True
  have "of_int k \<le> (of_int \<lfloor>value\<rfloor> :: 'e)" using True by simp
  moreover have "0 \<le> x v" using assms(5,12) by (simp add: lp_feasible_def)
  ultimately have ub: "x v \<le> of_int \<lfloor>value\<rfloor> - offsets ! v" "0 \<le> of_int \<lfloor>value\<rfloor> - offsets ! v" using assms(13) by linarith+
  obtain r v1 where clone: "clone_problem p w = Some (r, v1)" using assms(8) unfolding bb_floor_child_def by (auto split: option.splits)
  then obtain c where c: "r = Some c" "v1 = w" using clone_problem_meaning(2) [OF clone assms(1,2,9,3)] by blast
  note cm = clone_problem_meaning(1) [OF clone assms(1,2) c(1)]
  let ?row = "(replicate (nat (m_cols (lp_constraints c))) 0)[v := 1] :: 'e list" and ?ub = "of_int \<lfloor>value\<rfloor> - offsets ! v"
  have cols: "m_cols (lp_constraints c) = variable_count p" using lp_wf_positive(2) [of c] cm by simp
  have room: "malloc (nat (m_cols (lp_constraints c)) * 8) w = (True, w)" using assms(3,9) by (simp add: cols malloc_no_failures PTRDIFF_MAX_def)
  have bounds: "constraint_count c < 2 ^ 29" "constraint_capacity c \<le> 2 ^ 30" "length ?row = nat (variable_count c)"
      "constraint_count c < constraint_capacity c" using cm by (simp_all add: cols)
  obtain d where d: "solver_add_constraint c (Some ?row) ?ub w = Some (0, d, w)" "lp_wf d" "lp_objective d = lp_objective c"
      "variable_count d = variable_count c" "lp_rows d = lp_rows c @ [(?row, ?ub)]"
    using add_constraint_appends [OF _ bounds(1-3), of ?ub w] cm bounds(4) by auto
  have "floor_child = Some d" using assms(8) clone c room d(1) ub(2) by (simp add: bb_floor_child_def Let_def)
  moreover have "(\<Sum>j<nat (variable_count p). ?row ! j * x j) = (\<Sum>j<nat (variable_count p). if j = v then x j else 0)"
    by (intro sum.cong) (simp_all add: cols nth_list_update)
  then have "lp_feasible d x" using assms(5,12) ub(1) cm d(4,5) by (simp add: lp_feasible_rows lp_abs_def)
  moreover have "lp_value d x = lp_value p x" using cm d(3,4) by (simp add: lp_value_def lp_abs_def)
  ultimately show ?thesis using d(2) by blast
next
  case False
  let ?lb = "of_int \<lceil>value\<rceil> - offsets ! v" and ?x = "x(v := x v - (of_int \<lceil>value\<rceil> - offsets ! v))"
  have "\<lceil>value\<rceil> \<le> k" using False by (simp add: not_le floor_less_iff ceiling_le_iff less_imp_le)
  then have "of_int \<lceil>value\<rceil> \<le> (of_int k :: 'e)" by (simp only: of_int_le_iff)
  then have pos: "0 \<le> ?x v" using assms(13) by (simp add: algebra_simps del: of_int_le_iff)
  obtain r v1 where clone: "clone_with_lower_bound p v ?lb w2 = Some (r, v1)"
    using assms(7,10) unfolding bb_ceil_child_def Let_def by (auto split: option.splits)
  then obtain c off where c: "r = Some (c, off)" "v1 = w2"
    using clone_with_lower_bound_meaning(2) [OF clone assms(1,2,5,11,3)] by auto
  note cm = clone_with_lower_bound_meaning(1) [OF clone assms(1,2,5) c(1)]
  have "malloc (num_vars sd * 8) w2 = (True, w2)" using assms(3,4,11) by (simp add: malloc_no_failures PTRDIFF_MAX_def)
  then have "ceil_child = Some (c, offsets[v := of_int \<lceil>value\<rceil>], off)"
    using assms(7,10) clone c by (simp add: bb_ceil_child_def Let_def)
  moreover have "0 \<le> ?x j" if "j < nat (variable_count p)" for j using pos that assms(12) by (auto simp: lp_feasible_def)
  then have "lp_feasible c ?x" using assms(12) cm by (simp add: lp_feasible_def del: fun_upd_apply)
  moreover have "?x j + offsets[v := of_int \<lceil>value\<rceil>] ! j = x j + offsets ! j" if "j < num_vars sd" for j
    using assms(4,6) that by (auto simp: nth_list_update)
  ultimately show ?thesis using cm by blast
qed

lemmas node_eval = bb_floor_child_def bb_ceil_child_def clone_problem_def clone_with_lower_bound_def create_problem_def create_vector_def
  malloc_struct_def solver_set_objective_def solver_add_constraint_def solver_ensure_constraint_capacity_def
  plain_problem_def create_matrix_ready malloc_no_failures PTRDIFF_MAX_def wrap_int_id is_int_def Let_def

theorem branching_is_exhaustive_witness:
  "\<exists>floor_child w1 ceil_child w3.
     bb_floor_child (plain_problem [[2]] [3] [1 :: rat] PROBLEM_MAX) [0] 0 (3 / 2) (fresh_world :: rat world) = Some (floor_child, w1) \<and>
     bb_ceil_child \<lparr>num_vars = 1, is_max = True, orig_constraints = [[2]], orig_bounds = [3], orig_num_constr = 1\<rparr>
       (plain_problem [[2]] [3] [1 :: rat] PROBLEM_MAX) [0] 0 (3 / 2) (fresh_world :: rat world) = Some (ceil_child, w3) \<and>
     ((\<exists>c. floor_child = Some c \<and> lp_feasible c (\<lambda>_. 1) \<and> lp_value c (\<lambda>_. 1) = 1) \<or>
      (\<exists>c offsets' off x'. ceil_child = Some (c, offsets', off) \<and> lp_feasible c x' \<and> lp_value c x' + off = 1))"
proof -
  let ?p = "plain_problem [[2]] [3] [1 :: rat] PROBLEM_MAX"
  let ?sd = "\<lparr>num_vars = 1, is_max = True, orig_constraints = [[2]], orig_bounds = [3 :: rat], orig_num_constr = 1\<rparr>"
  have "\<exists>c w1. bb_floor_child ?p [0] 0 (3 / 2) (fresh_world :: rat world) = Some (c, w1)" by (simp add: node_eval)
  then obtain floor_child w1 where f: "bb_floor_child ?p [0] 0 (3 / 2) (fresh_world :: rat world) = Some (floor_child, w1)" by blast
  have "\<exists>c w3. bb_ceil_child ?sd ?p [0] 0 (3 / 2) (fresh_world :: rat world) = Some (c, w3)" by (simp add: node_eval)
  then obtain ceil_child w3 where g: "bb_ceil_child ?sd ?p [0] 0 (3 / 2) (fresh_world :: rat world) = Some (ceil_child, w3)" by blast
  have wf: "lp_wf ?p" "constraint_count ?p \<le> 2 ^ 28" "variable_count ?p \<le> 2 ^ 28" "num_vars ?sd = nat (variable_count ?p)"
      "0 < nat (variable_count ?p)" "length [0 :: rat] = nat (variable_count ?p)" "[0] ! 0 \<le> (of_int \<lceil>3 / 2 :: rat\<rceil> :: rat)"
    by (simp_all add: shape_eval)
  have x: "lp_feasible ?p (\<lambda>_. 1)" "1 + [0] ! 0 = (of_int 1 :: rat)" "lp_value ?p (\<lambda>_. 1) = 1"
    by (simp_all add: lp_feasible_def lp_slack_def lp_rows_def lp_value_def plain_problem_def)
  from branching_is_exhaustive [OF wf f _ g _ x(1,2)] show ?thesis unfolding x(3) using f g by (metis fresh_world_sel(1))
qed

section \<open>The result of a search\<close>

lemma is_integer_near: "is_integer v \<Longrightarrow> \<exists>k :: int. \<bar>v - of_int k\<bar> < 1 / 10 ^ 6"
  unfolding is_integer_def c_round_def by (metis (full_types) of_int_minus)

lemma solution_is_integer_near:
  "solution_is_integer x n \<Longrightarrow> j < n \<Longrightarrow> \<exists>k :: int. \<bar>x ! j - of_int k\<bar> < 1 / 10 ^ 6"
  using is_integer_near [of "x ! j"] by (simp add: solution_is_integer_def)

lemma check_slack:
  "check_original_feasibility x (nat (variable_count p)) (m_data (lp_constraints p)) (v_data (lp_bounds p)) (nat (constraint_count p)) \<longleftrightarrow>
     (\<forall>i < nat (constraint_count p). - (1 / 10 ^ 6) \<le> lp_slack p ((!) x) i)"
  by (simp add: check_original_feasibility_def row_sum_eq lp_slack_def lp_rows_def BB_INT_TOL_def not_less le_diff_eq diff_le_eq algebra_simps Ball_def)

text \<open>The tableau that is handed out has one row when it comes from the search, more when the
  relaxation was integral and its tableau is passed on.\<close>

definition from_relaxation :: "('e :: floor_ceiling) matrix_impl option \<Rightarrow> bool" where
  "from_relaxation t \<longleftrightarrow> (\<exists>T. t = Some T \<and> 1 < m_rows T)"

definition integer_result ::
  "('e :: floor_ceiling) lp_problem_impl \<Rightarrow> 'e lp_problem_impl option \<Rightarrow> 'e matrix_impl option \<Rightarrow> bool" where
  "integer_result p q t \<longleftrightarrow> (\<exists>r. q = Some r \<and> lp_abs r = lp_abs p \<and>
     (\<forall>x. solution r = Some x \<longrightarrow> (\<forall>j < nat (variable_count p). \<exists>k :: int. \<bar>x ! j - of_int k\<bar> < 1 / 10 ^ 6)) \<and>
     (\<not> from_relaxation t \<longrightarrow> (\<exists>x. solution r = Some x \<and> (\<forall>i < nat (constraint_count p). - (1 / 10 ^ 6) \<le> lp_slack p ((!) x) i))))"

lemma lp_abs_update [simp]:
  "lp_abs (p\<lparr>solution := x, objective_value := z\<rparr>) = lp_abs p" "lp_rows (p\<lparr>solution := x, objective_value := z\<rparr>) = lp_rows p"
  by (simp_all add: lp_abs_def lp_rows_def)

lemma integer_resultI:
  assumes "q = Some (p\<lparr>solution := y, objective_value := z\<rparr>)" "\<And>x. y = Some x \<Longrightarrow> solution_is_integer x (nat (variable_count p))"
    "\<not> from_relaxation t \<Longrightarrow> \<exists>x. y = Some x \<and> (\<forall>i < nat (constraint_count p). - (1 / 10 ^ 6) \<le> lp_slack p ((!) x) i)"
  shows "integer_result p q t"
  unfolding integer_result_def using assms solution_is_integer_near
  by (intro exI [of _ "p\<lparr>solution := y, objective_value := z\<rparr>"]) (auto simp del: power_numeral)

lemma publish_result:
  assumes "publish p s n maximize = (OPTIMAL, q, t, w)" "incumbent_ok sd s"
    "sd = \<lparr>num_vars = nat (variable_count p), is_max = maximize, orig_constraints = m_data (lp_constraints p),
      orig_bounds = v_data (lp_bounds p), orig_num_constr = nat (constraint_count p)\<rparr>"
  shows "integer_result p q t"
proof -
  have pub: "q = Some (p\<lparr>solution := Some (best_sol s), objective_value := best_obj s\<rparr>)" "\<not> from_relaxation t"
      "best_obj s \<noteq> (if maximize then - DBL_MAX else DBL_MAX)"
    using assms(1) by (auto simp: publish_def Let_def solver_codes from_relaxation_def create_matrix_def
        split: if_splits prod.splits bool.splits option.splits)
  then have "solution_is_integer (best_sol s) (nat (variable_count p))"
      "check_original_feasibility (best_sol s) (nat (variable_count p)) (m_data (lp_constraints p)) (v_data (lp_bounds p)) (nat (constraint_count p))"
    using assms(2,3) by (auto simp: incumbent_ok_def)
  then show ?thesis using pub(1,2) solution_is_integer_near unfolding check_slack
    by (intro integer_resultI) auto
qed

lemma simplex_solver_tableau:
  assumes "simplex_solver (Some p) True w = Some (OPTIMAL, q, t, w')" "lp_wf p" "constraint_count p \<le> 2 ^ 28"
  shows "\<exists>T. t = Some T \<and> m_rows T = constraint_count p + 1" "from_relaxation t" "\<exists>r x. q = Some r \<and> solution r = Some x"
proof -
  have "\<exists>T w2. create_matrix (wrap_int (constraint_count p + 1)) (wrap_int (variable_count p + constraint_count p + 1)) w = (Some (T :: 'a matrix_impl), w2) \<and>
      (\<exists>T'. t = Some T' \<and> m_rows T' = m_rows T) \<and> 0 < constraint_count p"
    using assms(1) lp_wf_positive(2) [OF assms(2)]
    by (auto simp: simplex_solver_def Let_def solver_codes split: if_splits option.splits prod.splits bool.splits)
  moreover have "wrap_int (constraint_count p + 1) = constraint_count p + 1"
    using assms(2,3) by (intro wrap_int_id) (simp add: lp_wf_def is_int_def)
  ultimately show "\<exists>T. t = Some T \<and> m_rows T = constraint_count p + 1" "from_relaxation t"
    using create_matrix_cases(1) by (fastforce simp: from_relaxation_def)+
  show "\<exists>r x. q = Some r \<and> solution r = Some x"
    using simplex_solver_optimal [OF assms(1,2)] by (metis lp_problem_impl.select_convs(8) lp_problem_impl.surjective lp_problem_impl.update_convs(8) lp_problem_impl.update_convs(9))
qed

lemma bb_from_root_result:
  assumes "bb_from_root p root_lp rt w = Some (OPTIMAL, q, t, w')" "from_relaxation rt"
  shows "integer_result p q t"
proof -
  let ?n = "nat (variable_count p)" and ?max = "lp_type p = PROBLEM_MAX"
  let ?sd = "\<lparr>num_vars = ?n, is_max = ?max, orig_constraints = m_data (lp_constraints p), orig_bounds = v_data (lp_bounds p),
    orig_num_constr = nat (constraint_count p)\<rparr>"
  show ?thesis
  proof (cases "solution_is_integer (the (solution root_lp)) ?n")
    case True
    obtain ok w2 where "(if solution p = None then malloc (?n * 8) w else (True, w)) = (ok, w2)" by fastforce
    then have "bb_from_root p root_lp rt w = Some (OPTIMAL,
        Some (p\<lparr>solution := (if ok then Some (the (solution root_lp)) else None), objective_value := objective_value root_lp\<rparr>), rt, w2)"
      using True unfolding bb_from_root_def Let_def by (simp only: if_True prod.case)
    then have t: "t = rt" and
      "q = Some (p\<lparr>solution := (if ok then Some (the (solution root_lp)) else None), objective_value := objective_value root_lp\<rparr>)"
      using assms(1) by (simp_all only: option.inject prod.inject)
    from this(2) show ?thesis by (rule integer_resultI) (use True assms(2) t in \<open>auto split: if_splits\<close>)
  next
    case False
    let ?init = "\<lambda>w. \<lparr>best_obj = (if ?max then - DBL_MAX else DBL_MAX), best_sol = replicate ?n 0, nodes = 0, search_world = w\<rparr>"
    obtain w1 s where "bb_solve ?sd root_lp (replicate ?n 0) 0 (?init w1) = Some s" "publish p s ?n ?max = (OPTIMAL, q, t, w')"
      using assms(1) False unfolding bb_from_root_def Let_def
      by (auto simp: solver_codes split: prod.splits if_splits option.splits)
    then show ?thesis using publish_result [of p s ?n ?max q t w' ?sd] bb_solve_ok by (fastforce simp: incumbent_ok_def)
  qed
qed

lemma branch_and_bound_result:
  assumes "branch_and_bound_solver (Some p) True w = Some (OPTIMAL, q, t, w')" "lp_wf p" "constraint_count p \<le> 2 ^ 28"
  shows "integer_result p q t"
proof -
  have "\<exists>w0 rl w1 ri rt w2. clone_problem p w0 = Some (Some rl, w1) \<and> simplex_solver (Some rl) True w1 = Some (OPTIMAL, ri, rt, w2) \<and>
      bb_from_root p (the ri) rt w2 = Some (OPTIMAL, q, t, w')"
    using assms(1) unfolding branch_and_bound_solver_def
    by (auto simp: solver_codes split: if_splits option.splits prod.splits) blast
  then obtain w0 rl w1 ri rt w2 where clone: "clone_problem p w0 = Some (Some rl, w1)" and
    run: "simplex_solver (Some rl) True w1 = Some (OPTIMAL, ri, rt, w2)" and rest: "bb_from_root p (the ri) rt w2 = Some (OPTIMAL, q, t, w')"
    by blast
  have "from_relaxation rt"
    using simplex_solver_tableau(2) [OF run] clone_problem_meaning(1) [OF clone assms(2,3)] assms(3) by simp
  then show ?thesis using bb_from_root_result [OF rest] by blast
qed

end
