(* ===== verification/Branch_Cut.thy ===== *)
theory Branch_Cut
  imports Branch_Bound
begin

text \<open>
  Branch and cut, \<open>src/solver/branch_and_cut.c\<close>: branch and bound in which every node first adds
  cuts read from the rows of its tableau and solves again, for at most ten rounds. The file repeats
  the helpers of branch and bound; they are translated again, shown to be equal, and what is known
  of the originals is used for them. The record of the search and the writing of the result are
  those of \<open>Branch_Bound\<close>.
\<close>

section \<open>The code\<close>

definition BC_MAX_NODES :: nat where "BC_MAX_NODES = 10000"

definition BC_MAX_CUTS :: nat where "BC_MAX_CUTS = 10"

definition BC_INT_TOL :: "'e :: floor_ceiling" where "BC_INT_TOL = 1 / 10 ^ 6"

definition BC_COEFF_LIMIT :: "'e :: floor_ceiling" where "BC_COEFF_LIMIT = 10 ^ 12"

definition bc_clone_problem :: "('e :: floor_ceiling) lp_problem_impl \<Rightarrow> 'w world \<Rightarrow> ('e lp_problem_impl option \<times> 'w world) option" where
  "bc_clone_problem si w =
     (let sc = lp_constraints si; so = lp_objective si; sb = lp_bounds si in
      case create_problem (variable_count si) (if constraint_count si > 0 then wrap_int (constraint_count si + 2) else 2) w of
        (None, w) \<Rightarrow> Some (None, w)
      | (Some dst, w) \<Rightarrow>
         (case malloc (nat (variable_count si) * 8) w of
            (False, w) \<Rightarrow> Some (None, w)
          | (True, w) \<Rightarrow>
             (case solver_set_objective dst (Some (map (\<lambda>i. v_data so ! i) [0..<nat (v_size so)])) (lp_type si) of (_, dst) \<Rightarrow>
              case malloc (nat (m_cols sc) * 8) w of
                (False, w) \<Rightarrow> Some (None, w)
              | (True, w) \<Rightarrow>
                 (case add_rows (map (\<lambda>r. (map (\<lambda>c. m_data sc ! r ! c) [0..<nat (m_cols sc)], v_data sb ! r)) [0..<nat (constraint_count si)]) dst w of
                    None \<Rightarrow> None
                  | Some (dst, w) \<Rightarrow> Some (Some dst, w)))))"

definition bc_clone_with_lower_bound ::
  "('e :: floor_ceiling) lp_problem_impl \<Rightarrow> nat \<Rightarrow> 'e \<Rightarrow> 'w world \<Rightarrow> (('e lp_problem_impl \<times> 'e) option \<times> 'w world) option" where
  "bc_clone_with_lower_bound si var_idx lb w =
     (let sc = lp_constraints si; so = lp_objective si; sb = lp_bounds si in
      case create_problem (variable_count si) (if constraint_count si > 0 then wrap_int (constraint_count si + 2) else 2) w of
        (None, w) \<Rightarrow> Some (None, w)
      | (Some dst, w) \<Rightarrow>
         (case malloc (nat (variable_count si) * 8) w of
            (False, w) \<Rightarrow> Some (None, w)
          | (True, w) \<Rightarrow>
             (let obj_buf = map (\<lambda>i. v_data so ! i) [0..<nat (v_size so)] in
              case solver_set_objective dst (Some obj_buf) (lp_type si) of (_, dst) \<Rightarrow>
              case malloc (nat (m_cols sc) * 8) w of
                (False, w) \<Rightarrow> Some (None, w)
              | (True, w) \<Rightarrow>
                 (case add_rows (map (\<lambda>r. (map (\<lambda>c. m_data sc ! r ! c) [0..<nat (m_cols sc)], v_data sb ! r - m_data sc ! r ! var_idx * lb))
                         [0..<nat (constraint_count si)]) dst w of
                    None \<Rightarrow> None
                  | Some (dst, w) \<Rightarrow> Some (Some (dst, obj_buf ! var_idx * lb), w)))))"

fun bc_most_fractional :: "('e :: floor_ceiling) list \<Rightarrow> nat list \<Rightarrow> nat option \<Rightarrow> 'e \<Rightarrow> nat option" where
  "bc_most_fractional x [] best_idx best_frac = best_idx"
| "bc_most_fractional x (i # is) best_idx best_frac =
     (let frac = x ! i - of_int \<lfloor>x ! i\<rfloor>; dist = (if frac > 1 / 2 then 1 - frac else frac) in
      if dist > BC_INT_TOL \<and> dist > best_frac then bc_most_fractional x is (Some i) dist
      else bc_most_fractional x is best_idx best_frac)"

definition bc_find_branching_variable :: "('e :: floor_ceiling) list \<Rightarrow> nat \<Rightarrow> nat option" where
  "bc_find_branching_variable x n = bc_most_fractional x [0..<n] None 0"

definition bc_solution_is_integer :: "('e :: floor_ceiling) list \<Rightarrow> nat \<Rightarrow> bool" where
  "bc_solution_is_integer x n \<longleftrightarrow> (\<forall>i \<in> set [0..<n]. is_integer (x ! i))"

definition bc_check_original_feasibility :: "('e :: floor_ceiling) list \<Rightarrow> nat \<Rightarrow> 'e list list \<Rightarrow> 'e list \<Rightarrow> nat \<Rightarrow> bool" where
  "bc_check_original_feasibility x n constraint_data bounds_data num_constraints \<longleftrightarrow>
     (\<forall>i \<in> set [0..<num_constraints]. \<not> row_sum n (constraint_data ! i) x > bounds_data ! i + BC_INT_TOL)"

text \<open>One cut from every row of the tableau whose right-hand side is fractional: the fractional
  parts of the first columns, bounded by the fractional part of the right-hand side.\<close>

definition cut_row :: "nat \<Rightarrow> nat \<Rightarrow> ('e :: floor_ceiling) list \<Rightarrow> 'e list" where
  "cut_row n cols row = map (\<lambda>j. if j < cols - 1 then row ! j - of_int \<lfloor>row ! j\<rfloor> else 0) [0..<n]"

fun gomory_rows ::
  "('e :: floor_ceiling) list list \<Rightarrow> nat \<Rightarrow> nat \<Rightarrow> nat list \<Rightarrow> nat \<Rightarrow> 'e lp_problem_impl \<Rightarrow> 'w world \<Rightarrow> (nat \<times> 'e lp_problem_impl \<times> 'w world) option" where
  "gomory_rows d cols n [] cuts_added p w = Some (cuts_added, p, w)"
| "gomory_rows d cols n (i # is) cuts_added p w =
     (if cuts_added \<ge> BC_MAX_CUTS then Some (cuts_added, p, w)
      else
       (let rhs = d ! i ! (cols - 1); f0 = rhs - of_int \<lfloor>rhs\<rfloor> in
        if f0 < BC_INT_TOL \<or> f0 > 1 - BC_INT_TOL then gomory_rows d cols n is cuts_added p w
        else
         (let cut = cut_row n cols (d ! i); valid_cut = (\<forall>f \<in> set cut. \<not> (f < - BC_COEFF_LIMIT \<or> f > BC_COEFF_LIMIT)) in
          if valid_cut \<and> f0 > BC_INT_TOL then
            (case solver_add_constraint p (Some cut) f0 w of
               None \<Rightarrow> None
             | Some (_, p, w) \<Rightarrow> gomory_rows d cols n is (cuts_added + 1) p w)
          else gomory_rows d cols n is cuts_added p w)))"

definition add_gomory_cuts ::
  "('e :: floor_ceiling) lp_problem_impl \<Rightarrow> 'e matrix_impl \<Rightarrow> nat \<Rightarrow> 'w world \<Rightarrow> (nat \<times> 'e lp_problem_impl \<times> 'w world) option" where
  "add_gomory_cuts p tab n w =
     (case malloc (n * 8) w of
        (False, w) \<Rightarrow> Some (0, p, w)
      | (True, w) \<Rightarrow> gomory_rows (m_data tab) (nat (m_cols tab)) n [0..<nat (m_rows tab - 1)] 0 p w)"

text \<open>The cutting rounds; the first argument counts those that are left.\<close>

fun bc_rounds ::
  "nat \<Rightarrow> nat \<Rightarrow> ('e :: floor_ceiling) list \<Rightarrow> int \<Rightarrow> 'e lp_problem_impl \<Rightarrow> 'w world \<Rightarrow> (int \<times> 'e lp_problem_impl \<times> 'w world) option" where
  "bc_rounds 0 n offsets status cut_problem w = Some (status, cut_problem, w)"
| "bc_rounds (Suc k) n offsets status cut_problem w =
     (case create_solver SOLVER_SIMPLEX w of
        (None, w) \<Rightarrow> Some (status, cut_problem, w)
      | (Some _, w) \<Rightarrow>
         (case simplex_solver (Some cut_problem) True w of
            None \<Rightarrow> None
          | Some (status, ci, tableau, w) \<Rightarrow>
             (let cut_problem = the ci in
              if status \<noteq> OPTIMAL then Some (status, cut_problem, w)
              else
               (case solution cut_problem of
                  None \<Rightarrow> Some (status, cut_problem, w)
                | Some x \<Rightarrow>
                   (if \<forall>i \<in> set [0..<n]. is_integer (x ! i + offsets ! i) then Some (status, cut_problem, w)
                    else
                     (case tableau of
                        None \<Rightarrow> Some (status, cut_problem, w)
                      | Some tab \<Rightarrow>
                         (case add_gomory_cuts cut_problem tab n w of
                            None \<Rightarrow> None
                          | Some (cuts, cut_problem, w) \<Rightarrow>
                             (if cuts = 0 then Some (status, cut_problem, w) else bc_rounds k n offsets status cut_problem w))))))))"

definition bc_candidate ::
  "('e :: floor_ceiling) search_data \<Rightarrow> 'e list \<Rightarrow> 'e \<Rightarrow> 'e list \<Rightarrow> ('e, 'w) search \<Rightarrow> (nat \<times> 'e) option \<times> ('e, 'w) search" where
  "bc_candidate sd offsets obj_val x s =
     (if prune sd s obj_val then (None, s)
      else
       (case malloc (num_vars sd * 8) (search_world s) of
          (False, w) \<Rightarrow> (None, s\<lparr>search_world := w\<rparr>)
        | (True, w) \<Rightarrow>
           (let s = s\<lparr>search_world := w\<rparr>; true_sol = map (\<lambda>i. x ! i + offsets ! i) [0..<num_vars sd] in
            if bc_solution_is_integer true_sol (num_vars sd) \<and>
               bc_check_original_feasibility true_sol (num_vars sd) (orig_constraints sd) (orig_bounds sd) (orig_num_constr sd)
            then (None, if (if is_max sd then obj_val > best_obj s else obj_val < best_obj s)
                        then s\<lparr>best_obj := obj_val, best_sol := true_sol\<rparr> else s)
            else
             (case bc_find_branching_variable true_sol (num_vars sd) of
                None \<Rightarrow> (None, s)
              | Some v \<Rightarrow> (Some (v, true_sol ! v), s)))))"

text \<open>A node up to its branching, on a clone that takes the cuts.\<close>

definition bc_node ::
  "('e :: floor_ceiling) search_data \<Rightarrow> 'e lp_problem_impl \<Rightarrow> 'e list \<Rightarrow> 'e \<Rightarrow> ('e, 'w) search \<Rightarrow> ((nat \<times> 'e) option \<times> ('e, 'w) search) option" where
  "bc_node sd p offsets obj_offset s =
     (case bc_clone_problem p (search_world s) of
        None \<Rightarrow> None
      | Some (None, w) \<Rightarrow> Some (None, s\<lparr>search_world := w\<rparr>)
      | Some (Some cut_problem, w) \<Rightarrow>
         (case bc_rounds BC_MAX_CUTS (num_vars sd) offsets INFEASIBLE cut_problem w of
            None \<Rightarrow> None
          | Some (status, ci, w) \<Rightarrow>
             (let s = s\<lparr>search_world := w\<rparr> in
              if status \<noteq> OPTIMAL then Some (None, s)
              else
               (case solution ci of
                  None \<Rightarrow> Some (None, s)
                | Some x \<Rightarrow> Some (bc_candidate sd offsets (objective_value ci + obj_offset) x s)))))"

definition bc_floor_child ::
  "('e :: floor_ceiling) lp_problem_impl \<Rightarrow> 'e list \<Rightarrow> nat \<Rightarrow> 'e \<Rightarrow> 'w world \<Rightarrow> ('e lp_problem_impl option \<times> 'w world) option" where
  "bc_floor_child p offsets branch_var branch_val w =
     (case bc_clone_problem p w of
        None \<Rightarrow> None
      | Some (None, w) \<Rightarrow> Some (None, w)
      | Some (Some child, w) \<Rightarrow>
         (case malloc (nat (m_cols (lp_constraints child)) * 8) w of
            (False, w) \<Rightarrow> Some (None, w)
          | (True, w) \<Rightarrow>
             (let row = (replicate (nat (m_cols (lp_constraints child))) 0)[branch_var := 1];
                  ub = of_int \<lfloor>branch_val\<rfloor> - offsets ! branch_var in
              if ub \<ge> 0 then
                (case solver_add_constraint child (Some row) ub w of None \<Rightarrow> None | Some (_, child, w) \<Rightarrow> Some (Some child, w))
              else Some (None, w))))"

definition bc_ceil_child ::
  "('e :: floor_ceiling) search_data \<Rightarrow> 'e lp_problem_impl \<Rightarrow> 'e list \<Rightarrow> nat \<Rightarrow> 'e \<Rightarrow> 'w world \<Rightarrow>
     (('e lp_problem_impl \<times> 'e list \<times> 'e) option \<times> 'w world) option" where
  "bc_ceil_child sd p offsets branch_var branch_val w =
     (let new_lb = of_int \<lceil>branch_val\<rceil>; sub_lb = new_lb - offsets ! branch_var in
      if sub_lb \<ge> 0 then
        (case bc_clone_with_lower_bound p branch_var sub_lb w of
           None \<Rightarrow> None
         | Some (None, w) \<Rightarrow> Some (None, w)
         | Some (Some (child, child_obj_offset), w) \<Rightarrow>
            (case malloc (num_vars sd * 8) w of
               (False, w) \<Rightarrow> Some (None, w)
             | (True, w) \<Rightarrow> Some (Some (child, offsets[branch_var := new_lb], child_obj_offset), w)))
      else Some (None, w))"

partial_function (option) bc_solve ::
  "('e :: floor_ceiling) search_data \<Rightarrow> 'e lp_problem_impl \<Rightarrow> 'e list \<Rightarrow> 'e \<Rightarrow> ('e, 'w) search \<Rightarrow> ('e, 'w) search option" where
  "bc_solve sd p offsets obj_offset s =
     (if nodes s \<ge> BC_MAX_NODES then Some s
      else
       Option.bind (bc_node sd p offsets obj_offset (s\<lparr>nodes := nodes s + 1\<rparr>)) (\<lambda>(branch, s).
         case branch of
           None \<Rightarrow> Some s
         | Some (v, value) \<Rightarrow>
             Option.bind (bc_floor_child p offsets v value (search_world s)) (\<lambda>(child, w).
             Option.bind (case child of None \<Rightarrow> Some (s\<lparr>search_world := w\<rparr>)
                          | Some child \<Rightarrow> bc_solve sd child offsets obj_offset (s\<lparr>search_world := w\<rparr>)) (\<lambda>s.
             Option.bind (bc_ceil_child sd p offsets v value (search_world s)) (\<lambda>(child, w).
               case child of
                 None \<Rightarrow> Some (s\<lparr>search_world := w\<rparr>)
               | Some (child, new_offsets, child_obj_offset) \<Rightarrow>
                   bc_solve sd child new_offsets (obj_offset + child_obj_offset) (s\<lparr>search_world := w\<rparr>))))))"

definition bc_from_root ::
  "('e :: floor_ceiling) lp_problem_impl \<Rightarrow> 'e lp_problem_impl \<Rightarrow> 'e matrix_impl option \<Rightarrow> 'w world \<Rightarrow>
     (int \<times> 'e lp_problem_impl option \<times> 'e matrix_impl option \<times> 'w world) option" where
  "bc_from_root p root_lp root_tableau w =
     (let n = nat (variable_count p); maximize = (lp_type p = PROBLEM_MAX); x = the (solution root_lp) in
      if bc_solution_is_integer x n then
        (case (if solution p = None then malloc (n * 8) w else (True, w)) of (ok, w) \<Rightarrow>
          Some (OPTIMAL, Some (p\<lparr>solution := (if ok then Some x else None), objective_value := objective_value root_lp\<rparr>), root_tableau, w))
      else
       (case malloc (n * 8) w of (ok1, w) \<Rightarrow>
        case malloc (n * 8) w of (ok2, w) \<Rightarrow>
        (if \<not> ok1 \<or> \<not> ok2 then Some (INFEASIBLE, Some p, None, w)
         else
          (case bc_solve \<lparr>num_vars = n, is_max = maximize, orig_constraints = m_data (lp_constraints p),
                  orig_bounds = v_data (lp_bounds p), orig_num_constr = nat (constraint_count p)\<rparr>
                 root_lp (replicate n 0) 0
                 \<lparr>best_obj = (if maximize then - DBL_MAX else DBL_MAX), best_sol = replicate n 0, nodes = 0, search_world = w\<rparr> of
             None \<Rightarrow> None
           | Some s \<Rightarrow> Some (publish p s n maximize)))))"

definition branch_and_cut_solver ::
  "('e :: floor_ceiling) lp_problem_impl option \<Rightarrow> bool \<Rightarrow> 'w world \<Rightarrow> (int \<times> 'e lp_problem_impl option \<times> 'e matrix_impl option \<times> 'w world) option" where
  "branch_and_cut_solver prob out_tableau w =
     (case prob of
        None \<Rightarrow> Some (INFEASIBLE, None, None, w)
      | Some p \<Rightarrow>
         (if \<not> out_tableau then Some (INFEASIBLE, Some p, None, w)
          else
           (case bc_clone_problem p w of
              None \<Rightarrow> None
            | Some (None, w) \<Rightarrow> Some (INFEASIBLE, Some p, None, w)
            | Some (Some root_lp, w) \<Rightarrow>
               (case create_solver SOLVER_SIMPLEX w of
                  (None, w) \<Rightarrow> Some (INFEASIBLE, Some p, None, w)
                | (Some _, w) \<Rightarrow>
                   (case simplex_solver (Some root_lp) True w of
                      None \<Rightarrow> None
                    | Some (status, ri, root_tableau, w) \<Rightarrow>
                       (if status \<noteq> OPTIMAL then Some (status, Some p, None, w)
                        else bc_from_root p (the ri) root_tableau w))))))"

section \<open>The repeated helpers\<close>

lemma bc_clone_problem_eq: "bc_clone_problem = clone_problem"
  by (intro ext) (simp only: bc_clone_problem_def clone_problem_def)

lemma bc_clone_with_lower_bound_eq: "bc_clone_with_lower_bound = clone_with_lower_bound"
  by (intro ext) (simp only: bc_clone_with_lower_bound_def clone_with_lower_bound_def)

lemma bc_most_fractional_eq: "bc_most_fractional x is b f = most_fractional x is b f"
  by (induction x "is" b f rule: most_fractional.induct) (simp_all add: Let_def BC_INT_TOL_def BB_INT_TOL_def)

lemma bc_checks_eq:
  "bc_find_branching_variable = find_branching_variable" "bc_solution_is_integer = solution_is_integer"
  "bc_check_original_feasibility = check_original_feasibility"
  by (intro ext; simp add: bc_find_branching_variable_def find_branching_variable_def bc_most_fractional_eq bc_solution_is_integer_def
      solution_is_integer_def bc_check_original_feasibility_def check_original_feasibility_def BC_INT_TOL_def BB_INT_TOL_def)+

lemma bc_candidate_eq: "bc_candidate = bb_candidate"
  by (intro ext) (simp only: bc_candidate_def bb_candidate_def bc_checks_eq)

lemma bc_children_eq: "bc_floor_child = bb_floor_child" "bc_ceil_child = bb_ceil_child"
  by (intro ext; simp only: bc_floor_child_def bb_floor_child_def bc_ceil_child_def bb_ceil_child_def
      bc_clone_problem_eq bc_clone_with_lower_bound_eq)+

section \<open>The incumbent\<close>

lemma bc_node_ok:
  assumes "bc_node sd p offsets off s = Some (b, s')" "incumbent_ok sd s"
  shows "incumbent_ok sd s'"
proof -
  have "bb_candidate sd offsets z x (s\<lparr>search_world := w\<rparr>) = (b, s') \<Longrightarrow> incumbent_ok sd s'" for z x w
    using bb_candidate_ok assms(2) incumbent_ok_world(1) by blast
  then show ?thesis using assms unfolding bc_node_def Let_def bc_candidate_eq
    by (auto split: option.splits prod.splits if_splits)
qed

lemma bc_solve_ok:
  assumes "bc_solve sd p offsets off s = Some s'"
  shows "incumbent_ok sd s \<longrightarrow> incumbent_ok sd s'"
  using _ assms
proof (rule bc_solve.raw_induct)
  fix rec :: "'a search_data \<Rightarrow> 'a lp_problem_impl \<Rightarrow> 'a list \<Rightarrow> 'a \<Rightarrow> ('a, 'b) search \<Rightarrow> ('a, 'b) search option"
    and sd p offsets off and s s' :: "('a, 'b) search"
  assume IH: "\<And>sd p offsets off s s'. rec sd p offsets off s = Some s' \<Longrightarrow> incumbent_ok sd s \<longrightarrow> incumbent_ok sd s'"
  assume body: "(if BC_MAX_NODES \<le> nodes s then Some s
      else Option.bind (bc_node sd p offsets off (s\<lparr>nodes := nodes s + 1\<rparr>)) (\<lambda>(branch, s).
         case branch of
           None \<Rightarrow> Some s
         | Some (v, value) \<Rightarrow>
             Option.bind (bc_floor_child p offsets v value (search_world s)) (\<lambda>(child, w).
             Option.bind (case child of None \<Rightarrow> Some (s\<lparr>search_world := w\<rparr>)
                          | Some child \<Rightarrow> rec sd child offsets off (s\<lparr>search_world := w\<rparr>)) (\<lambda>s.
             Option.bind (bc_ceil_child sd p offsets v value (search_world s)) (\<lambda>(child, w).
               case child of
                 None \<Rightarrow> Some (s\<lparr>search_world := w\<rparr>)
               | Some (child, new_offsets, child_obj_offset) \<Rightarrow>
                   rec sd child new_offsets (off + child_obj_offset) (s\<lparr>search_world := w\<rparr>)))))) = Some s'"
  show "incumbent_ok sd s \<longrightarrow> incumbent_ok sd s'"
  proof
    assume ok: "incumbent_ok sd s"
    have node: "incumbent_ok sd t" if "bc_node sd p offsets off (s\<lparr>nodes := nodes s + 1\<rparr>) = Some (b, t)" for b t
      using bc_node_ok [OF that] ok by simp
    have child: "incumbent_ok sd u" if "rec sd c os z (t\<lparr>search_world := w\<rparr>) = Some u" "incumbent_ok sd t" for c os z t w u
      using IH [OF that(1)] that(2) by simp
    show "incumbent_ok sd s'" using body ok node child
      by (auto split: if_splits option.splits prod.splits bind_splits)
  qed
qed

lemma bc_from_root_result:
  assumes "bc_from_root p root_lp rt w = Some (OPTIMAL, q, t, w')" "from_relaxation rt"
  shows "integer_result p q t"
proof -
  let ?n = "nat (variable_count p)" and ?max = "lp_type p = PROBLEM_MAX"
  let ?sd = "\<lparr>num_vars = ?n, is_max = ?max, orig_constraints = m_data (lp_constraints p), orig_bounds = v_data (lp_bounds p),
    orig_num_constr = nat (constraint_count p)\<rparr>"
  show ?thesis
  proof (cases "solution_is_integer (the (solution root_lp)) ?n")
    case True
    then have "bc_from_root p root_lp rt w = bb_from_root p root_lp rt w"
      unfolding bc_from_root_def bb_from_root_def Let_def bc_checks_eq by (simp only: if_True)
    then show ?thesis using assms bb_from_root_result [of p root_lp rt w q t w'] by simp
  next
    case False
    let ?init = "\<lambda>w. \<lparr>best_obj = (if ?max then - DBL_MAX else DBL_MAX), best_sol = replicate ?n 0, nodes = 0, search_world = w\<rparr>"
    obtain w1 s where "bc_solve ?sd root_lp (replicate ?n 0) 0 (?init w1) = Some s" "publish p s ?n ?max = (OPTIMAL, q, t, w')"
      using assms(1) False unfolding bc_from_root_def Let_def bc_checks_eq
      by (auto simp: solver_codes split: prod.splits if_splits option.splits)
    then show ?thesis using publish_result [of p s ?n ?max q t w' ?sd] bc_solve_ok by (fastforce simp: incumbent_ok_def)
  qed
qed

lemma branch_and_cut_result:
  fixes w :: "'w world"
  assumes "branch_and_cut_solver (Some p) True w = Some (OPTIMAL, q, t, w')" "lp_wf p" "constraint_count p \<le> 2 ^ 28"
  shows "integer_result p q t"
proof -
  obtain w0 :: "'w world" and rl and w1 w2 w3 :: "'w world" and ri rt where clone: "clone_problem p w0 = Some (Some rl, w1)" and
    run: "simplex_solver (Some rl) True w2 = Some (OPTIMAL, ri, rt, w3)" and rest: "bc_from_root p (the ri) rt w3 = Some (OPTIMAL, q, t, w')"
    using assms(1) unfolding branch_and_cut_solver_def bc_clone_problem_eq
    by (auto simp: solver_codes split: if_splits option.splits prod.splits)
  have "from_relaxation rt"
    using simplex_solver_tableau(2) [OF run] clone_problem_meaning(1) [OF clone assms(2,3)] assms(3) by simp
  then show ?thesis using bc_from_root_result [OF rest] by blast
qed

section \<open>The cuts\<close>

text \<open>Rows that a point satisfies with room to spare.\<close>

definition slack_rows :: "nat \<Rightarrow> (nat \<Rightarrow> 'e :: floor_ceiling) \<Rightarrow> ('e list \<times> 'e) list \<Rightarrow> bool" where
  "slack_rows n x rs \<longleftrightarrow> (\<forall>(row, b) \<in> set rs. (\<Sum>j<n. row ! j * x j) = 0 \<and> 0 < b)"

lemma gomory_rows_slack:
  assumes "gomory_rows d cols n is cuts p w = Some (cuts', p', w')" "lp_wf p" "n = nat (variable_count p)"
    "constraint_count p + int (length is) \<le> 2 ^ 29" "constraint_capacity p \<le> 2 ^ 30"
    "\<And>i. i \<in> set is \<Longrightarrow> (\<Sum>j<n. cut_row n cols (d ! i) ! j * x j) = 0"
  shows "\<exists>extra. lp_rows p' = lp_rows p @ extra \<and> slack_rows n x extra"
  using assms
proof (induction "is" arbitrary: cuts p w)
  case Nil
  then show ?case by (intro exI [of _ "[]"]) (simp add: slack_rows_def)
next
  case (Cons i "is")
  define f0 where "f0 = d ! i ! (cols - 1) - of_int \<lfloor>d ! i ! (cols - 1)\<rfloor>"
  define valid where "valid \<longleftrightarrow> (\<forall>f \<in> set (cut_row n cols (d ! i)). \<not> (f < - BC_COEFF_LIMIT \<or> f > BC_COEFF_LIMIT)) \<and> f0 > BC_INT_TOL"
  note body = Cons.prems(1) [unfolded gomory_rows.simps Let_def, folded f0_def valid_def]
  have room: "constraint_count p + int (length is) \<le> 2 ^ 29" using Cons.prems(4) by simp
  have rest: "\<And>j. j \<in> set is \<Longrightarrow> (\<Sum>k<n. cut_row n cols (d ! j) ! k * x k) = 0" using Cons.prems(6) by simp
  consider "BC_MAX_CUTS \<le> cuts" | "\<not> BC_MAX_CUTS \<le> cuts" "(f0 < BC_INT_TOL \<or> f0 > 1 - BC_INT_TOL) \<or> \<not> valid"
    | "\<not> BC_MAX_CUTS \<le> cuts" "\<not> (f0 < BC_INT_TOL \<or> f0 > 1 - BC_INT_TOL)" "valid" by blast
  then show ?case
  proof cases
    case 1
    then show ?thesis using body by (intro exI [of _ "[]"]) (simp add: slack_rows_def)
  next
    case 2
    then have "gomory_rows d cols n is cuts p w = Some (cuts', p', w')" using body by (auto simp: valid_def split: if_splits)
    from Cons.IH [OF this Cons.prems(2,3) room Cons.prems(5) rest] show ?thesis .
  next
    case 3
    let ?cut = "cut_row n cols (d ! i)"
    have "length ?cut = nat (variable_count p)" "constraint_count p < 2 ^ 29" using Cons.prems(3,4) by (simp_all add: cut_row_def)
    then obtain rc e v where add: "solver_add_constraint p (Some ?cut) f0 w = Some (rc, e, v)" "lp_wf e" "variable_count e = variable_count p"
        "constraint_capacity e \<le> 2 ^ 30" "constraint_count e \<le> constraint_count p + 1"
        "lp_rows e = lp_rows p @ [(?cut, f0)] \<or> lp_rows e = lp_rows p"
      using add_constraint_appends [of p ?cut f0 w] Cons.prems(2,5) by auto
    have "0 < f0" using 3(3) order.strict_trans [of 0 "BC_INT_TOL :: 'a" f0] by (simp add: valid_def BC_INT_TOL_def)
    then have new: "slack_rows n x [(?cut, f0)]" using Cons.prems(6) [of i] by (simp add: slack_rows_def)
    have on: "gomory_rows d cols n is (cuts + 1) e v = Some (cuts', p', w')" using body add(1) 3 by (auto simp: valid_def)
    have "n = nat (variable_count e)" "constraint_count e + int (length is) \<le> 2 ^ 29" using add(3,5) Cons.prems(3,4) by simp_all
    from Cons.IH [OF on add(2) this add(4) rest] show ?thesis using add(6) new by (auto simp: slack_rows_def)
  qed
qed

text \<open>The cuts of a round never exclude the vertex they are read from. If the relaxation has an
  optimum and its tableau is turned into cuts, then the point whose value is reported satisfies
  every row that was added, strictly: the left-hand side is 0 there, the bound is positive.\<close>

theorem gomory_cuts_keep_vertex:
  fixes p :: "('e :: floor_ceiling) lp_problem_impl"
  assumes "lp_wf p" "simplex_solver (Some p) True w = Some (OPTIMAL, Some q, Some T, w1)"
    "add_gomory_cuts q T (nat (variable_count p)) w2 = Some (cuts, q', w3)"
    "constraint_count p \<le> 2 ^ 28" "constraint_capacity p \<le> 2 ^ 30"
  shows "\<exists>x extra. objective_value q = lp_value p x \<and> (\<forall>j < nat (variable_count p). x j \<noteq> 0 \<longrightarrow> the (solution q) ! j = x j) \<and>
     lp_rows q' = lp_rows p @ extra \<and> (\<forall>(row, b) \<in> set extra. (\<Sum>j<nat (variable_count p). row ! j * x j) = 0 \<and> 0 < b)"
proof -
  define m n where mn: "m = nat (constraint_count p)" "n = nat (variable_count p)"
  obtain d where run: "simplex_loop m n (lp_tableau p) = Some (OPTIMAL, d)" "m_data T = d" "0 < constraint_count p"
      "q = p\<lparr>solution := Some (map (read_variable m n d) [0..<n]), objective_value := lp_gain p (d ! m ! (n + m))\<rparr>"
    using simplex_solver_optimal [OF assms(2,1)] unfolding mn by (metis option.inject)
  obtain x B where B: "in_basis m (n + m) d B" and x: "lp_gain p (d ! m ! (n + m)) = lp_value p x"
      "\<And>j. x j = 0 \<or> (\<exists>i < m. j = B ! i \<and> x j = d ! i ! (n + m))"
      "\<And>j. j < n \<Longrightarrow> x j \<noteq> 0 \<Longrightarrow> map (read_variable m n d) [0..<n] ! j = x j"
    using simplex_vertex [OF assms(1) run(1) [unfolded mn]] unfolding mn by blast
  have rows: "nat (m_rows T - 1) = m" using simplex_solver_tableau(1) [OF assms(2,1,4)] by (simp add: mn)
  have zero: "(\<Sum>j<n. cut_row n (nat (m_cols T)) (d ! i) ! j * x j) = 0" if "i < m" for i
  proof (intro sum.neutral ballI)
    fix j assume j: "j \<in> {..<n}"
    show "cut_row n (nat (m_cols T)) (d ! i) ! j * x j = 0"
    proof (cases "x j = 0")
      case False
      then obtain k where "k < m" "j = B ! k" using x(2) by blast
      then have "d ! i ! j = (if i = k then 1 else 0)" using B that by (simp add: in_basis_def)
      then show ?thesis using j by (simp add: cut_row_def)
    qed simp
  qed
  have q: "lp_wf q" "variable_count q = variable_count p" "constraint_count q = constraint_count p"
      "constraint_capacity q = constraint_capacity p" "lp_rows q = lp_rows p"
    using assms(1) by (simp_all add: run(4) lp_wf_def)
  have len: "constraint_count q + int (length [0..<m]) \<le> 2 ^ 29" using assms(4) q(3) run(3) by (simp add: mn)
  have "\<exists>extra. lp_rows q' = lp_rows q @ extra \<and> slack_rows n x extra"
  proof (cases "malloc (n * 8) w2")
    case (Pair ok v)
    show ?thesis
    proof (cases ok)
      case True
      then have "gomory_rows d (nat (m_cols T)) n [0..<m] 0 q v = Some (cuts, q', w3)"
        using assms(3) Pair rows run(2) by (simp add: add_gomory_cuts_def mn)
      from gomory_rows_slack [OF this q(1) _ len] zero q(2,4) assms(5) show ?thesis by (simp add: mn)
    next
      case False
      then show ?thesis using assms(3) Pair by (intro exI [of _ "[]"]) (simp add: add_gomory_cuts_def mn slack_rows_def)
    qed
  qed
  moreover have "objective_value q = lp_value p x" "the (solution q) = map (read_variable m n d) [0..<n]" using run(4) x(1) by simp_all
  ultimately show ?thesis using x(3) q(5) unfolding slack_rows_def mn by (metis (no_types, lifting))
qed

end
