(* ===== verification/Lagrangean.thy ===== *)
theory Lagrangean
  imports Branch_Bound
begin

text \<open>
  The Lagrangean heuristic, \<open>src/solver/lagrangean.c\<close>: the relaxation is solved, then at most 200 times a
  problem with the same rows and a penalised objective; the solutions are rounded, and a rounded point that
  satisfies the constraints becomes the incumbent. \<open>None\<close> is a call that never returns, as a call of the simplex
  method may not; in one place it is a read through a null pointer.
\<close>

section \<open>Looking at a point\<close>

definition LR_MAX_ITER :: nat where "LR_MAX_ITER = 200"

definition LR_INT_TOL :: "'e :: floor_ceiling" where "LR_INT_TOL = 1 / 10 ^ 6"

definition LR_STEP_TOL :: "'e :: floor_ceiling" where "LR_STEP_TOL = 1 / 10 ^ 8"

definition LR_INITIAL_STEP :: "'e :: floor_ceiling" where "LR_INITIAL_STEP = 2"

definition LR_STEP_SHRINK :: "'e :: floor_ceiling" where "LR_STEP_SHRINK = 1 / 2"

definition lr_check_feasibility :: "('e :: floor_ceiling) list \<Rightarrow> nat \<Rightarrow> 'e list list \<Rightarrow> 'e list \<Rightarrow> nat \<Rightarrow> bool" where
  "lr_check_feasibility x n constraint_data bounds_data num_constraints \<longleftrightarrow>
     (\<forall>i \<in> set [0..<num_constraints]. \<not> row_sum n (constraint_data ! i) x > bounds_data ! i + LR_INT_TOL)"

definition lr_compute_objective :: "('e :: floor_ceiling) list \<Rightarrow> 'e list \<Rightarrow> nat \<Rightarrow> 'e" where
  "lr_compute_objective x obj_coeffs n = row_sum n obj_coeffs x"

section \<open>The subproblems\<close>

text \<open>Objective and rows are copied into a new problem.\<close>

definition lr_fill ::
  "('e :: floor_ceiling) lp_problem_impl \<Rightarrow> 'e list \<Rightarrow> 'e lp_problem_impl \<Rightarrow> 'w world \<Rightarrow> ('e lp_problem_impl option \<times> 'w world) option" where
  "lr_fill p obj dst w =
     (case solver_set_objective dst (Some obj) (lp_type p) of (_, dst) \<Rightarrow>
      case malloc (nat (variable_count p) * 8) w of
        (False, w) \<Rightarrow> Some (None, w)
      | (True, w) \<Rightarrow>
         (case add_rows (map (\<lambda>i. (map (\<lambda>j. m_data (lp_constraints p) ! i ! j) [0..<nat (variable_count p)], v_data (lp_bounds p) ! i))
                 [0..<nat (constraint_count p)]) dst w of
            None \<Rightarrow> None
          | Some (dst, w) \<Rightarrow> Some (Some dst, w)))"

text \<open>The relaxation, with the solver object made first.\<close>

definition lr_relaxation :: "('e :: floor_ceiling) lp_problem_impl \<Rightarrow> 'w world \<Rightarrow> ('e lp_problem_impl option \<times> 'w world) option" where
  "lr_relaxation p w =
     (case create_solver SOLVER_SIMPLEX w of
        (None, w) \<Rightarrow> Some (None, w)
      | (Some _, w) \<Rightarrow>
         (case create_problem (variable_count p) (constraint_count p) w of
            (None, w) \<Rightarrow> Some (None, w)
          | (Some lp_prob, w) \<Rightarrow>
             (case malloc (nat (variable_count p) * 8) w of
                (False, w) \<Rightarrow> Some (None, w)
              | (True, w) \<Rightarrow> lr_fill p (map (\<lambda>j. v_data (lp_objective p) ! j) [0..<nat (variable_count p)]) lp_prob w)))"

section \<open>The search\<close>

record ('e, 'w) lr_state =
  lr_lambda :: "'e list"
  lr_best_obj :: 'e
  lr_best_sol :: "'e list"
  lr_step_size :: 'e
  lr_no_improve :: nat
  lr_world :: "'w world"

definition lr_modified_obj :: "('e :: floor_ceiling) lp_problem_impl \<Rightarrow> 'e list \<Rightarrow> 'e list" where
  "lr_modified_obj p lam =
     map (\<lambda>j. fold (\<lambda>i obj. if lp_type p = PROBLEM_MAX then obj - lam ! i * m_data (lp_constraints p) ! i ! j
                        else obj + lam ! i * m_data (lp_constraints p) ! i ! j)
                [0..<nat (constraint_count p)] (v_data (lp_objective p) ! j)) [0..<nat (variable_count p)]"

text \<open>The problem of one iteration, solved; no problem when something fails or it has no optimum.\<close>

definition lr_solve_sub :: "('e :: floor_ceiling) lp_problem_impl \<Rightarrow> ('e, 'w) lr_state \<Rightarrow> ('e lp_problem_impl option \<times> 'w world) option" where
  "lr_solve_sub p s =
     (case create_problem (variable_count p) (constraint_count p) (lr_world s) of
        (None, w) \<Rightarrow> Some (None, w)
      | (Some sub, w) \<Rightarrow>
         (case lr_fill p (lr_modified_obj p (lr_lambda s)) sub w of
            None \<Rightarrow> None
          | Some (None, w) \<Rightarrow> Some (None, w)
          | Some (Some sub, w) \<Rightarrow>
             (case create_solver SOLVER_SIMPLEX w of
                (None, w) \<Rightarrow> Some (None, w)
              | (Some _, w) \<Rightarrow>
                 (case simplex_solver (Some sub) True w of
                    None \<Rightarrow> None
                  | Some (status, si, _, w) \<Rightarrow> Some (if status \<noteq> OPTIMAL then None else si, w)))))"

text \<open>A rounded solution, by \<open>round\<close> or by \<open>floor\<close>, with negative entries at 0.\<close>

definition lr_rounded :: "('e :: floor_ceiling \<Rightarrow> 'e) \<Rightarrow> 'e list \<Rightarrow> nat \<Rightarrow> 'e list" where
  "lr_rounded to_integer x n = map (\<lambda>j. if to_integer (x ! j) < 0 then 0 else to_integer (x ! j)) [0..<n]"

definition lr_try :: "('e :: floor_ceiling) lp_problem_impl \<Rightarrow> 'e list \<Rightarrow> ('e, 'w) lr_state \<Rightarrow> ('e, 'w) lr_state" where
  "lr_try p rounded s =
     (if lr_check_feasibility rounded (nat (variable_count p)) (m_data (lp_constraints p)) (v_data (lp_bounds p)) (nat (constraint_count p))
      then (let rounded_obj = lr_compute_objective rounded (v_data (lp_objective p)) (nat (variable_count p)) in
            if (if lp_type p = PROBLEM_MAX then rounded_obj > lr_best_obj s else rounded_obj < lr_best_obj s)
            then s\<lparr>lr_best_obj := rounded_obj, lr_best_sol := rounded\<rparr> else s)
      else s)"

definition lr_bound :: "('e :: floor_ceiling) lp_problem_impl \<Rightarrow> 'e \<Rightarrow> 'e list \<Rightarrow> 'e" where
  "lr_bound p obj_value lam = fold (\<lambda>i bound. bound + lam ! i * v_data (lp_bounds p) ! i) [0..<nat (constraint_count p)] obj_value"

text \<open>The step size shrinks after ten iterations without progress.\<close>

definition lr_adjust :: "nat \<Rightarrow> ('e :: floor_ceiling) lp_problem_impl \<Rightarrow> 'e \<Rightarrow> ('e, 'w) lr_state \<Rightarrow> ('e, 'w) lr_state" where
  "lr_adjust iter p bound s =
     (let bound_improved = (iter = 0 \<or> lp_type p = PROBLEM_MAX \<and> bound < lr_best_obj s + LR_INT_TOL \<or>
            lp_type p \<noteq> PROBLEM_MAX \<and> bound > lr_best_obj s - LR_INT_TOL) in
      if \<not> bound_improved then
        (if lr_no_improve s + 1 \<ge> 10 then s\<lparr>lr_step_size := lr_step_size s * LR_STEP_SHRINK, lr_no_improve := 0\<rparr>
         else s\<lparr>lr_no_improve := lr_no_improve s + 1\<rparr>)
      else s\<lparr>lr_no_improve := 0\<rparr>)"

definition lr_subgradient :: "('e :: floor_ceiling) lp_problem_impl \<Rightarrow> 'e list \<Rightarrow> 'e list" where
  "lr_subgradient p x =
     map (\<lambda>i. v_data (lp_bounds p) ! i - row_sum (nat (variable_count p)) (m_data (lp_constraints p) ! i) x) [0..<nat (constraint_count p)]"

definition lr_found :: "ProblemType \<Rightarrow> 'e :: floor_ceiling \<Rightarrow> bool" where
  "lr_found type best \<longleftrightarrow> type = PROBLEM_MAX \<and> best > - DBL_MAX + 1 \<or> type \<noteq> PROBLEM_MAX \<and> best < DBL_MAX - 1"

text \<open>The step on the multipliers; the flag says whether the loop goes on.\<close>

definition lr_step :: "('e :: floor_ceiling) lp_problem_impl \<Rightarrow> 'e \<Rightarrow> 'e list \<Rightarrow> ('e, 'w) lr_state \<Rightarrow> bool \<times> ('e, 'w) lr_state" where
  "lr_step p bound subgradient s =
     (let sg_norm_sq = fold (\<lambda>g sum. sum + g * g) subgradient 0 in
      if lr_step_size s < LR_STEP_TOL \<or> sg_norm_sq < LR_STEP_TOL then (False, s)
      else
       (let gap = (if lr_found (lp_type p) (lr_best_obj s) then \<bar>bound - lr_best_obj s\<bar> else \<bar>bound\<bar> + 1) in
        if lr_found (lp_type p) (lr_best_obj s) \<and> gap < LR_STEP_TOL then (False, s)
        else
         (let t = lr_step_size s * gap / sg_norm_sq in
          (True, s\<lparr>lr_lambda := map (\<lambda>i.
             let l = (if lp_type p = PROBLEM_MAX then lr_lambda s ! i + t * subgradient ! i else lr_lambda s ! i - t * subgradient ! i)
             in if l < 0 then 0 else l) [0..<nat (constraint_count p)]\<rparr>))))"

fun lr_loop :: "nat list \<Rightarrow> ('e :: floor_ceiling) lp_problem_impl \<Rightarrow> ('e, 'w) lr_state \<Rightarrow> ('e, 'w) lr_state option" where
  "lr_loop [] p s = Some s"
| "lr_loop (iter # iters) p s =
     (case lr_solve_sub p s of
        None \<Rightarrow> None
      | Some (None, w) \<Rightarrow> Some (s\<lparr>lr_world := w\<rparr>)
      | Some (Some si, w) \<Rightarrow>
         (let x = the (solution si); n = nat (variable_count p);
              s = lr_try p (lr_rounded (\<lambda>v. of_int \<lfloor>v\<rfloor>) x n) (lr_try p (lr_rounded c_round x n) (s\<lparr>lr_world := w\<rparr>));
              bound = lr_bound p (objective_value si) (lr_lambda s);
              s = lr_adjust iter p bound s in
          case lr_step p bound (lr_subgradient p x) s of
            (False, s) \<Rightarrow> Some s
          | (True, s) \<Rightarrow> lr_loop iters p s))"

definition lr_from_relaxation ::
  "('e :: floor_ceiling) lp_problem_impl \<Rightarrow> 'e lp_problem_impl \<Rightarrow> 'e matrix_impl option \<Rightarrow> 'w world \<Rightarrow>
     (int \<times> 'e lp_problem_impl option \<times> 'e matrix_impl option \<times> 'w world) option" where
  "lr_from_relaxation p lp_impl lp_tab w =
     (let n = nat (variable_count p); m = nat (constraint_count p); maximize = (lp_type p = PROBLEM_MAX); x = the (solution lp_impl) in
      if \<forall>j \<in> set [0..<n]. is_integer (x ! j) then
        (case (if solution p = None then malloc (n * 8) w else (True, w)) of
           (False, w) \<Rightarrow> None
         | (True, w) \<Rightarrow>
            (let rounded = map (\<lambda>j. c_round (x ! j)) [0..<n] in
             Some (OPTIMAL, Some (p\<lparr>solution := Some rounded,
               objective_value := lr_compute_objective rounded (v_data (lp_objective p)) n\<rparr>), lp_tab, w)))
      else
       (case malloc (m * 8) w of (ok1, w) \<Rightarrow>
        case malloc (n * 8) w of (ok2, w) \<Rightarrow>
        case malloc (n * 8) w of (ok3, w) \<Rightarrow>
        case malloc (n * 8) w of (ok4, w) \<Rightarrow>
        case malloc (m * 8) w of (ok5, w) \<Rightarrow>
        (if \<not> ok1 \<or> \<not> ok2 \<or> \<not> ok3 \<or> \<not> ok4 \<or> \<not> ok5 then Some (INFEASIBLE, Some p, None, w)
         else
          (case lr_loop [0..<LR_MAX_ITER] p
                 \<lparr>lr_lambda = replicate m 0, lr_best_obj = (if maximize then - DBL_MAX else DBL_MAX), lr_best_sol = replicate n 0,
                  lr_step_size = LR_INITIAL_STEP, lr_no_improve = 0, lr_world = w\<rparr> of
             None \<Rightarrow> None
           | Some s \<Rightarrow>
              Some (publish p \<lparr>best_obj = lr_best_obj s, best_sol = lr_best_sol s, nodes = 0, search_world = lr_world s\<rparr> n maximize)))))"

definition lagrangean_solver ::
  "('e :: floor_ceiling) lp_problem_impl option \<Rightarrow> bool \<Rightarrow> 'w world \<Rightarrow> (int \<times> 'e lp_problem_impl option \<times> 'e matrix_impl option \<times> 'w world) option" where
  "lagrangean_solver prob out_tableau w =
     (case prob of
        None \<Rightarrow> Some (INFEASIBLE, None, None, w)
      | Some p \<Rightarrow>
         (if \<not> out_tableau \<or> constraint_count p \<le> 0 then Some (INFEASIBLE, Some p, None, w)
          else
           (case lr_relaxation p w of
              None \<Rightarrow> None
            | Some (None, w) \<Rightarrow> Some (INFEASIBLE, Some p, None, w)
            | Some (Some lp_prob, w) \<Rightarrow>
               (case simplex_solver (Some lp_prob) True w of
                  None \<Rightarrow> None
                | Some (status, lp_impl, lp_tab, w) \<Rightarrow>
                   (if status \<noteq> OPTIMAL then Some (status, Some p, None, w)
                    else lr_from_relaxation p (the lp_impl) lp_tab w)))))"

section \<open>The incumbent\<close>

lemma is_integer_of_int: "is_integer (of_int k :: 'e :: floor_ceiling)"
proof -
  have "\<lfloor>of_int k + 1 / 2 :: 'e\<rfloor> = k" "\<lfloor>1 / 2 - of_int k :: 'e\<rfloor> = - k" by (simp_all add: floor_eq_iff)
  then show ?thesis by (simp add: is_integer_def c_round_def)
qed

lemma c_round_int: "\<exists>k. c_round v = of_int k"
  unfolding c_round_def by (metis of_int_minus)

lemma rounds_to_integer: "is_integer (c_round v)"
  using c_round_int [of v] by (auto simp: is_integer_of_int)

lemma rounded_integer:
  assumes "\<And>v. \<exists>k. f v = of_int k"
  shows "solution_is_integer (lr_rounded f x n) n" "length (lr_rounded f x n) = n"
proof -
  have "is_integer (f v)" "is_integer (0 :: 'a)" for v
    using assms [of v] is_integer_of_int [of 0] by (auto simp: is_integer_of_int)
  then show "solution_is_integer (lr_rounded f x n) n" "length (lr_rounded f x n) = n"
    by (simp_all add: solution_is_integer_def lr_rounded_def)
qed

lemma lr_check_eq: "lr_check_feasibility = check_original_feasibility"
  by (intro ext) (simp add: lr_check_feasibility_def check_original_feasibility_def LR_INT_TOL_def BB_INT_TOL_def)

text \<open>Nothing found yet, or an integral point that passed the test.\<close>

definition lr_ok :: "('e :: floor_ceiling) lp_problem_impl \<Rightarrow> ('e, 'w) lr_state \<Rightarrow> bool" where
  "lr_ok p s \<longleftrightarrow> lr_best_obj s = (if lp_type p = PROBLEM_MAX then - DBL_MAX else DBL_MAX) \<or>
     length (lr_best_sol s) = nat (variable_count p) \<and> solution_is_integer (lr_best_sol s) (nat (variable_count p)) \<and>
     check_original_feasibility (lr_best_sol s) (nat (variable_count p)) (m_data (lp_constraints p)) (v_data (lp_bounds p)) (nat (constraint_count p))"

lemma lr_try_ok:
  assumes "\<And>v. \<exists>k. f v = of_int k" "lr_ok p s"
  shows "lr_ok p (lr_try p (lr_rounded f x (nat (variable_count p))) s)"
  using assms(2) rounded_integer [OF assms(1), where x = x and n = "nat (variable_count p)"]
  by (simp add: lr_try_def Let_def lr_check_eq) (simp add: lr_ok_def)

lemma lr_adjust_ok: "lr_ok p (lr_adjust iter p bound s) = lr_ok p s"
  by (simp add: lr_adjust_def Let_def lr_ok_def)

lemma lr_step_ok: "lr_step p bound g s = (b, s') \<Longrightarrow> lr_ok p s' = lr_ok p s"
  by (auto simp: lr_step_def Let_def lr_ok_def split: if_splits)

lemma lr_loop_ok: "lr_loop iters p s = Some s' \<Longrightarrow> lr_ok p s \<Longrightarrow> lr_ok p s'"
proof (induction iters arbitrary: s)
  case (Cons iter iters)
  obtain r w where sub: "lr_solve_sub p s = Some (r, w)" using Cons.prems(1) by (auto split: option.splits)
  show ?case
  proof (cases r)
    case None
    then show ?thesis using Cons.prems sub by (auto simp: lr_ok_def)
  next
    case (Some si)
    let ?x = "the (solution si)" and ?n = "nat (variable_count p)"
    define t where "t = lr_try p (lr_rounded (\<lambda>v. of_int \<lfloor>v\<rfloor>) ?x ?n) (lr_try p (lr_rounded c_round ?x ?n) (s\<lparr>lr_world := w\<rparr>))"
    define u where "u = lr_adjust iter p (lr_bound p (objective_value si) (lr_lambda t)) t"
    obtain b v where step: "lr_step p (lr_bound p (objective_value si) (lr_lambda t)) (lr_subgradient p ?x) u = (b, v)" by fastforce
    have "lr_ok p t" unfolding t_def using Cons.prems(2) by (intro lr_try_ok c_round_int) (auto simp: lr_ok_def)
    then have "lr_ok p v" using lr_step_ok [OF step] by (simp add: u_def lr_adjust_ok)
    then show ?thesis using Cons.prems(1) Cons.IH [of v] step sub Some
      by (cases b) (simp_all add: Let_def t_def [symmetric] u_def [symmetric])
  qed
qed simp

section \<open>The result\<close>

lemma lr_fill_meaning:
  assumes "lr_fill p obj d w = Some (Some c, w')" "lp_wf p" "constraint_count p \<le> 2 ^ 28" "0 < constraint_count p"
    "create_problem (variable_count p) (constraint_count p) v = (Some d, v')" "length obj = nat (variable_count p)"
  shows "lp_wf c \<and> constraint_count c = constraint_count p \<and> lp_abs c = (lp_rows p, obj, lp_type p)"
proof -
  let ?rs = "map (\<lambda>i. (map (\<lambda>j. m_data (lp_constraints p) ! i ! j) [0..<nat (variable_count p)], v_data (lp_bounds p) ! i)) [0..<nat (constraint_count p)]"
  have rs: "?rs = lp_rows p" "\<forall>r \<in> set (lp_rows p). length (fst r) = nat (variable_count p)"
    using own_rows [OF assms(2), of "\<lambda>r. v_data (lp_bounds p) ! r"] row_lengths [OF assms(2)] lp_wf_positive(2) [OF assms(2)]
    by (auto simp: lp_rows_def cong: map_cong)
  have "variable_count p \<le> int INT_MAX" using assms(2) by (auto simp: lp_wf_def matrix_ok_def)
  then have d: "lp_wf d" "lp_rows d = []" "variable_count d = variable_count p" "constraint_count d = 0"
      "constraint_capacity d = constraint_count p" "v_size (lp_objective d) = variable_count p"
    using create_problem_wf [OF assms(5)] assms(3,4) by (auto simp: lp_wf_def max_def INT_MAX_def)
  define e where "e = snd (solver_set_objective d (Some obj) (lp_type p))"
  have "map (\<lambda>i. obj ! i) [0..<nat (variable_count p)] = obj" using assms(6) by (auto intro!: nth_equalityI)
  then have e: "lp_wf e" "lp_rows e = []" "variable_count e = variable_count p" "constraint_count e = 0"
      "constraint_capacity e = constraint_count p" "v_data (lp_objective e) = obj" "lp_type e = lp_type p"
    using d assms(6) by (simp_all add: e_def solver_set_objective_def lp_wf_def lp_rows_def)
  obtain w1 where "add_rows (lp_rows p) e w1 = Some (c, w')"
    using assms(1) unfolding lr_fill_def rs(1) e_def by (auto split: prod.splits option.splits bool.splits)
  moreover have "\<exists>d'. add_rows (lp_rows p) e w1 = Some (d', w1) \<and> lp_wf d' \<and> lp_rows d' = lp_rows p \<and> lp_objective d' = lp_objective e \<and>
      lp_type d' = lp_type e \<and> constraint_count d' = constraint_count p"
    using add_rows_appends [of e "lp_rows p" w1] e rs(2) assms(3,4) by auto
  ultimately show ?thesis using e by (auto simp: lp_abs_def)
qed

lemma lr_relaxation_meaning:
  fixes w w' :: "'w world"
  assumes "lr_relaxation p w = Some (Some c, w')" "lp_wf p" "constraint_count p \<le> 2 ^ 28" "0 < constraint_count p"
  shows "lp_wf c \<and> constraint_count c = constraint_count p \<and> lp_abs c = lp_abs p"
proof -
  obtain d and v v' w1 :: "'w world" where "create_problem (variable_count p) (constraint_count p) v = (Some d, v')"
      "lr_fill p (map (\<lambda>j. v_data (lp_objective p) ! j) [0..<nat (variable_count p)]) d w1 = Some (Some c, w')"
    using assms(1) unfolding lr_relaxation_def by (auto split: prod.splits option.splits bool.splits)
  moreover have "map (\<lambda>j. v_data (lp_objective p) ! j) [0..<nat (variable_count p)] = v_data (lp_objective p)"
      "length (v_data (lp_objective p)) = nat (variable_count p)"
    using assms(2) by (auto simp: lp_wf_def intro!: nth_equalityI)
  ultimately show ?thesis using lr_fill_meaning [of p _ d w1 c w' v v'] assms(2-4) by (simp add: lp_abs_def)
qed

lemma lr_from_relaxation_result:
  assumes "lr_from_relaxation p lp_impl rt w = Some (OPTIMAL, q, t, w')" "from_relaxation rt"
  shows "integer_result p q t"
proof -
  let ?n = "nat (variable_count p)" and ?max = "lp_type p = PROBLEM_MAX" and ?x = "the (solution lp_impl)"
  let ?sd = "\<lparr>num_vars = ?n, is_max = ?max, orig_constraints = m_data (lp_constraints p), orig_bounds = v_data (lp_bounds p),
    orig_num_constr = nat (constraint_count p)\<rparr>"
  show ?thesis
  proof (cases "\<forall>j \<in> set [0..<?n]. is_integer (?x ! j)")
    case True
    let ?y = "map (\<lambda>j. c_round (?x ! j)) [0..<?n]"
    have "solution_is_integer ?y ?n" unfolding solution_is_integer_def by (auto simp: rounds_to_integer)
    moreover obtain ok w2 where m: "(if solution p = None then malloc (?n * 8) w else (True, w)) = (ok, w2)" by fastforce
    have "(case ok of False \<Rightarrow> None | True \<Rightarrow> Some (OPTIMAL, Some (p\<lparr>solution := Some ?y,
        objective_value := lr_compute_objective ?y (v_data (lp_objective p)) ?n\<rparr>), rt, w2)) = Some (OPTIMAL, q, t, w')"
      using assms(1) unfolding lr_from_relaxation_def Let_def if_P [OF True] m prod.case .
    then have "t = rt" "q = Some (p\<lparr>solution := Some ?y, objective_value := lr_compute_objective ?y (v_data (lp_objective p)) ?n\<rparr>)"
      by (auto split: bool.splits)
    ultimately show ?thesis using assms(2) by (intro integer_resultI) auto
  next
    case False
    let ?init = "\<lambda>w. \<lparr>lr_lambda = replicate (nat (constraint_count p)) 0, lr_best_obj = (if ?max then - DBL_MAX else DBL_MAX),
      lr_best_sol = replicate ?n 0, lr_step_size = LR_INITIAL_STEP, lr_no_improve = 0, lr_world = w\<rparr>"
    obtain w1 s where s: "lr_loop [0..<LR_MAX_ITER] p (?init w1) = Some s"
        "publish p \<lparr>best_obj = lr_best_obj s, best_sol = lr_best_sol s, nodes = 0, search_world = lr_world s\<rparr> ?n ?max = (OPTIMAL, q, t, w')"
      using assms(1) False unfolding lr_from_relaxation_def Let_def
      by (auto simp: solver_codes split: prod.splits if_splits option.splits)
    have "lr_ok p s" using lr_loop_ok [OF s(1)] by (simp add: lr_ok_def)
    then have "incumbent_ok ?sd \<lparr>best_obj = lr_best_obj s, best_sol = lr_best_sol s, nodes = 0, search_world = lr_world s\<rparr>"
      by (simp add: incumbent_ok_def lr_ok_def)
    then show ?thesis using publish_result [OF s(2), of ?sd] by simp
  qed
qed

lemma lagrangean_result:
  fixes w w' :: "'w world"
  assumes "lagrangean_solver (Some p) True w = Some (OPTIMAL, q, t, w')" "lp_wf p" "constraint_count p \<le> 2 ^ 28"
  shows "integer_result p q t"
proof -
  obtain rl and w0 w1 w2 :: "'w world" and ri rt where relax: "lr_relaxation p w0 = Some (Some rl, w1)" and
    run: "simplex_solver (Some rl) True w1 = Some (OPTIMAL, ri, rt, w2)" and rest: "lr_from_relaxation p (the ri) rt w2 = Some (OPTIMAL, q, t, w')" and
    pos: "0 < constraint_count p"
    using assms(1) unfolding lagrangean_solver_def by (auto simp: solver_codes split: if_splits option.splits prod.splits)
  have "from_relaxation rt"
    using simplex_solver_tableau(2) [OF run] lr_relaxation_meaning [OF relax assms(2,3) pos] assms(3) by simp
  then show ?thesis using lr_from_relaxation_result [OF rest] by blast
qed

text \<open>When the objective is maximised, a multiplier whose constraint has slack does not shrink: the step goes up the
  dual function that it should go down.\<close>

lemma lr_step_max_grows:
  assumes "lr_step p bound g s = (True, s')" "lp_type p = PROBLEM_MAX" "i < nat (constraint_count p)" "0 \<le> g ! i" "0 < lr_step_size s"
    "\<forall>g' \<in> set g. 0 \<le> g'"
  shows "lr_lambda s ! i \<le> lr_lambda s' ! i"
proof -
  define norm where "norm = fold (\<lambda>g sum. sum + g * g) g (0 :: 'a)"
  define gap where "gap = (if lr_found (lp_type p) (lr_best_obj s) then \<bar>bound - lr_best_obj s\<bar> else \<bar>bound\<bar> + 1)"
  have tol: "(0 :: 'a) < LR_STEP_TOL" by (simp add: LR_STEP_TOL_def)
  have "LR_STEP_TOL \<le> norm" using assms(1) by (auto simp: lr_step_def Let_def norm_def split: if_splits)
  then have "0 \<le> lr_step_size s * gap / norm * g ! i" using tol assms(4,5) by (simp add: gap_def)
  moreover have "lr_lambda s' ! i = (let l = lr_lambda s ! i + lr_step_size s * gap / norm * g ! i in if l < 0 then 0 else l)"
    using assms(1-3) unfolding lr_step_def Let_def norm_def [symmetric] gap_def [symmetric] by (auto split: if_splits)
  ultimately show ?thesis by (simp add: Let_def)
qed

end
