(* ===== verification/Solvers.thy ===== *)
theory Solvers
  imports Branch_Cut Lagrangean
begin

text \<open>
  The dispatch of \<open>src/solver/solver.c\<close> to the four algorithms, and what a reported optimum of the integer
  algorithms means: the point is integral, and it satisfies the constraints when it comes from a search.
\<close>

definition solver_dispatch ::
  "SolverType option \<Rightarrow> ('e :: floor_ceiling) lp_problem_impl option \<Rightarrow> bool \<Rightarrow> 'w world \<Rightarrow>
     (int \<times> 'e lp_problem_impl option \<times> 'e matrix_impl option \<times> 'w world) option" where
  "solver_dispatch self problem out_tableau w =
     (case self of
        None \<Rightarrow> Some (INFEASIBLE, problem, None, w)
      | Some SOLVER_SIMPLEX \<Rightarrow> simplex_solver problem out_tableau w
      | Some SOLVER_LAGRANGEAN_SIMPLEX \<Rightarrow> lagrangean_solver problem out_tableau w
      | Some SOLVER_BRANCH_AND_CUT \<Rightarrow> branch_and_cut_solver problem out_tableau w
      | Some SOLVER_BRANCH_AND_BOUND \<Rightarrow> branch_and_bound_solver problem out_tableau w)"

text \<open>Whichever of the three integer algorithms reports an optimum: the problem is unchanged but for its
  result, every reported coordinate is within \<open>10 ^ -6\<close> of an integer, and unless the tableau is the one of the
  relaxation a point is reported that violates no constraint by more than \<open>10 ^ -6\<close>.\<close>

theorem dispatched_integer_result:
  assumes "solver_dispatch (Some type) (Some p) True w = Some (OPTIMAL, q, t, w')" "type \<noteq> SOLVER_SIMPLEX"
    "lp_wf p" "constraint_count p \<le> 2 ^ 28"
  shows "integer_result p q t"
  using assms branch_and_bound_result branch_and_cut_result lagrangean_result
  by (cases type) (auto simp: solver_dispatch_def)

text \<open>A refused allocation of the solution buffer: the branching solvers report an optimum all the same, without a
  point, and the Lagrangean solver reads through the null pointer.\<close>

lemma from_root_without_buffer:
  assumes "solution_is_integer (the (solution r)) (nat (variable_count p))" "solution p = None"
    "malloc (nat (variable_count p) * 8) w = (False, w')"
  shows "\<exists>q. bb_from_root p r rt w = Some (OPTIMAL, Some q, rt, w') \<and> solution q = None"
    and "\<exists>q. bc_from_root p r rt w = Some (OPTIMAL, Some q, rt, w') \<and> solution q = None"
    and "lr_from_relaxation p r rt w = None"
  using assms
  by (simp_all add: bb_from_root_def bc_from_root_def lr_from_relaxation_def bc_checks_eq Let_def) (simp_all add: solution_is_integer_def)

end
