(* ===== verification/Spec2Isabelle.thy ===== *)
theory Spec2Isabelle
  imports Stacks Deque Queues Sorters Sets Memory_Pool Bloom_Filter Tries Graph_Order Matrices Fibonacci_Heap Skip_List Solvers
begin

text \<open>
  A verification development of ova-lib, a library of container objects in C. Every public object is
  a table of function pointers over a private implementation; the containers are built on each
  other: stacks, sorters, sets and graphs use the list object, priority queues the binary heap, sets
  the hash map and the red-black tree, graph searches the linked queue, the array stack and the list.

  \<^bold>\<open>Conventions.\<close> A payload pointer is an option, \<open>NULL\<close> is \<open>None\<close>. The error codes of
  \<open>include/types.h\<close> are a datatype. Memory is a record \<open>world\<close> threaded through every
  function that allocates: it holds a list that tells which of the coming allocations are refused
  (and what fresh memory contains), so that theorems either range over every allocator or name the
  one that never refuses. API integers are \<open>int\<close> with the wrap-around of 32 bits written out
  (\<open>wrap_int\<close>), hashes, weights and sizes where overflow matters are words, loop counters over
  sizes already checked are \<open>nat\<close>. Linked structures whose sharing matters (linked list, linked
  queue, edge cells, free blocks) live in explicit stores; owned trees are datatypes. Function
  pointers that the code compares are a pair of a symbol and a function. Loops that need not end
  are \<open>partial_function (option)\<close> or \<open>while_option\<close>; \<open>None\<close> is a call that never returns.

  \<^bold>\<open>Theories.\<close>
  \<^item> \<open>Ova_Base\<close>: types, allocation, capacities (\<open>include/types.h\<close>, \<open>src/utils/capacity_utils.h\<close>).
  \<^item> \<open>List_Iface\<close>, \<open>Array_List\<close>, \<open>Linked_List\<close>, \<open>Sorted_List\<close>, \<open>Lists\<close>: the list object of
    \<open>src/list/\<close>. \<open>List_Iface\<close> has the contract of a positional list as a locale; each backend
    interprets it, \<open>Lists\<close> has the factory, bulk insertion and the clones.
  \<^item> \<open>Stacks\<close>, \<open>Deque\<close>, \<open>Linked_Queue\<close>, \<open>Binary_Heap\<close>, \<open>Queues\<close>: \<open>src/stack/\<close>, \<open>src/deque/\<close>,
    \<open>src/queue/\<close> and \<open>src/heap/binary_heap.c\<close>.
  \<^item> \<open>Fibonacci_Heap\<close>: \<open>src/heap/fibonacci_heap.c\<close> and the factory \<open>src/heap/heap.c\<close>. What both heaps
    promise is the locale \<open>priority_source\<close> of \<open>Binary_Heap\<close>.
  \<^item> \<open>Sort_Buffers\<close>, \<open>Sorters\<close>: \<open>src/sort/sort.c\<close>, the buffer algorithms and the object over lists.
  \<^item> \<open>Dict_Iface\<close>, \<open>Hash_Map\<close>, \<open>Search_Trees\<close>, \<open>AVL_Tree\<close>, \<open>Red_Black_Tree\<close>, \<open>Trees\<close>: \<open>src/map/\<close> and
    \<open>src/tree/\<close>. A keyed container is a locale that the hash map and both trees interpret.
  \<^item> \<open>Element_Set\<close>, \<open>Set_Defaults\<close>, \<open>Set_Backends\<close>, \<open>Sets\<close>: \<open>src/set/\<close>; the loops over a snapshot
    are verified once in the locale \<open>element_set\<close>.
  \<^item> \<open>Memory_Pool\<close>, \<open>Bloom_Filter\<close>, \<open>Tries\<close>: \<open>src/memory_pool/\<close>, \<open>src/bloom_filter/\<close>, \<open>src/trie/\<close>.
  \<^item> \<open>Graphs\<close>, \<open>Graph_Search\<close>, \<open>Graph_Order\<close>: \<open>src/graph/\<close>, storage in both representations,
    traversals and components, topological sort and cycles.
  \<^item> \<open>Matrices\<close>: \<open>src/matrix/\<close>, over entries of any type with the operations the function uses.
  \<^item> \<open>Lp_Problem\<close>, \<open>Simplex\<close>, \<open>Branch_Bound\<close>, \<open>Branch_Cut\<close>, \<open>Lagrangean\<close>, \<open>Solvers\<close>: \<open>src/solver/\<close> over exact
    numbers. \<open>Solvers\<close> has the dispatch and what an optimum of the integer algorithms means; branching loses
    no integer point (\<open>branching_is_exhaustive\<close>), and the cuts never cut off the vertex they are read from.
  \<^item> \<open>Skip_List\<close>: \<open>src/skip_list/\<close>, forward pointers in an explicit store; it interprets the contract
    of a dictionary over a store.

  \<^bold>\<open>What is shown.\<close> Each component has an invariant kept by every operation, an abstraction
  (a sequence, a map, a set, a graph) and a theorem about whole sequences of calls against it;
  beside them stand the results on error paths, leaks, bounds and termination. Where the code does
  not do what it means to, the theorem states what it does: a refused allocation that empties a
  list while it is sorted, a union that silently drops an element, a split that loses a stored word,
  a pool size that wraps, a capacity that doubles for ever, a clone that leaves its original almost
  empty.

  \<^bold>\<open>Bounds and fuel.\<close> The deque is used below a capacity of \<open>2 ^ 30\<close>; walks along chains are
  given the length of the chain as fuel and the invariant makes that enough; the list of retired
  queue entries holds at most 4096; sizes stay below \<open>INT_MAX\<close>, so that the element counters of the
  linked list, the hash map and the skip list, an \<open>int\<close> in the code, are natural numbers; trie words are below \<open>2 ^ 59\<close> bytes;
  vertex ids are below \<open>2 ^ 30\<close>, and below \<open>2 ^ 15\<close> in a matrix, where the code indexes in \<open>int\<close>. Edge
  weights are the 64 bits of a double that the storage only compares with infinity. The id cell of a
  vertex is written as the id itself. The red-black tree is a zipper in place of parent pointers:
  the sibling of the current node is never the sentinel there, so that comparisons of pointers and
  of positions agree. Matrix entries are exact: the theorems hold in rings and fields, without the
  rounding of a double, on the scalar paths that are compiled without AVX; the Strassen product is
  shown to return for dimensions up to \<open>2 ^ 29\<close>. The consolidation table of the Fibonacci heap has 45
  degrees, enough for every size of an \<open>int\<close>. A skip list is a dictionary for at most 32 levels.
  The numbers of a linear problem are an exact ordered field. The simplex loop may run forever, and
  \<open>simplex_returns_or_cycles\<close> says when. What it reports is optimal when the bounds are not negative
  and no positive entry of a pivot column is below the tolerance of the ratio test; without these two conditions
  it is not, as the concrete runs at the end of \<open>Simplex\<close> show.

  \<^bold>\<open>Not modelled.\<close> Freeing beyond what the leak theorems need, printing, the methods that only look
  up the implementation pointer. The shortest paths, the minimum spanning trees, the strongly
  connected components and the error-rate functions of the Bloom filter, whose results
  depend on the rounding of doubles or on their logarithms and powers, for which the available
  libraries have no theory.
\<close>

end
